(* ===== verification/Prelude.thy ===== *)
theory Prelude
  imports Main "HOL-Library.Word" "HOL-Library.Multiset" "HOL-Library.While_Combinator"
begin

text \<open>
  Shared vocabulary of the development: the C types and return codes of
  \<^verbatim>\<open>include/common.h\<close>, the value of a call that ends the process, and generic lemmas on
  lists and words that several components use.
\<close>

unbundle bit_operations_syntax

subsection \<open>C types and return codes\<close>

type_synonym u8 = "8 word"
type_synonym u32 = "32 word"
type_synonym u64 = "64 word"

text \<open>
  \<^verbatim>\<open>#define SUCCEED 0\<close>, \<^verbatim>\<open>#define FAIL -1\<close>: functions whose \<^verbatim>\<open>int\<close> result is either an
  index or \<open>FAIL\<close> are modelled with result type \<open>int\<close>, those that only report success with
  the type \<open>zres\<close>.
\<close>

abbreviation (input) FAIL :: int where "FAIL \<equiv> - 1"

datatype zres = Succeed | Fail

text \<open>
  A call that logs a critical message and ends the process with \<^verbatim>\<open>exit(FAIL)\<close> is a value
  \<open>Inl (Exit_Fail msg)\<close>.
\<close>

datatype fatal = Exit_Fail string

subsection \<open>Collections of facts\<close>

named_theorems word_val \<open>values of word expressions as natural numbers\<close>
named_theorems slot_simps \<open>updates of an array of slots\<close>

subsection \<open>Words\<close>

lemma unat_plus_cases [word_val]:
  fixes a b :: "'a::len word"
  shows "unat (a + b) = (if unat a + unat b < 2 ^ LENGTH('a) then unat a + unat b
    else unat a + unat b - 2 ^ LENGTH('a))"
  by (rule unat_plus_if')

declare unat_div [word_val] unat_mod [word_val]

lemma unat_drop_bit [word_val]: "unat (drop_bit n w) = unat w div 2 ^ n"
  by (simp add: unsigned_drop_bit_eq take_bit_nat_eq_self flip: drop_bit_eq_div)

lemma word_carry_iff:
  fixes a b :: "'a::len word"
  shows "a + b < a \<longleftrightarrow> 2 ^ LENGTH('a) \<le> unat a + unat b"
proof -
  have "unat a < 2 ^ LENGTH('a)" "unat b < 2 ^ LENGTH('a)"
    by (rule unsigned_less)+
  then show ?thesis
    by (simp only: word_less_nat_alt unat_plus_cases split: if_split) arith
qed

lemma word_borrow_iff:
  fixes a b :: "'a::len word"
  shows "a < a - b \<longleftrightarrow> unat a < unat b"
proof -
  have "unat a < 2 ^ LENGTH('a)" "unat b < 2 ^ LENGTH('a)"
    by (rule unsigned_less)+
  then show ?thesis
    by (simp only: word_less_nat_alt unat_sub_if' split: if_split) arith
qed

subsection \<open>Lists\<close>

lemma filter_conj_set_eq:
  "(\<And>x. x \<in> set xs \<Longrightarrow> P x = Q x) \<Longrightarrow> filter P xs = filter Q xs"
  by (rule filter_cong) auto

lemma length_concat_update:
  "i < length xss \<Longrightarrow>
   length (concat (xss[i := ys])) + length (xss ! i) = length (concat xss) + length ys"
  by (induction xss arbitrary: i) (auto split: nat.split)

lemma mset_concat_update:
  "i < length xss \<Longrightarrow>
   mset (concat (xss[i := ys])) + mset (xss ! i) = mset (concat xss) + mset ys"
  by (induction xss arbitrary: i) (auto split: nat.split simp: ac_simps)

lemma mset_filter_split:
  "mset xs = mset (filter P xs) + mset (filter (\<lambda>x. \<not> P x) xs)"
  by (induction xs) auto

text \<open>Replacing an element by the last one and dropping the end removes exactly that element.\<close>

lemma mset_swap_remove:
  assumes "i < length es"
  shows "add_mset (es ! i) (mset (butlast (es[i := last es]))) = mset es"
proof (cases es rule: rev_cases)
  case (snoc xs y)
  show ?thesis
  proof (cases "i = length xs")
    case True
    with snoc show ?thesis by simp
  next
    case False
    with snoc assms have "i < length xs" by simp
    then have "xs ! i \<in># mset xs" by simp
    with \<open>i < length xs\<close> snoc show ?thesis
      by (simp add: nth_append list_update_append mset_update add_mset_commute)
  qed
qed (use assms in simp)

lemma length_takeWhile_eqI:
  assumes "\<forall>k < i. P (xs ! k)" "i \<le> length xs" "i = length xs \<or> \<not> P (xs ! i)"
  shows "length (takeWhile P xs) = i"
proof -
  have "\<forall>x \<in> set (take i xs). P x" using assms(1,2) by (auto simp: in_set_conv_nth)
  then have "takeWhile P (take i xs @ drop i xs) = take i xs @ takeWhile P (drop i xs)"
    by (intro takeWhile_append2) simp
  moreover have "takeWhile P (drop i xs) = []"
  proof (cases "i = length xs")
    case False
    with assms have "drop i xs = xs ! i # drop (Suc i) xs" "\<not> P (xs ! i)" by (simp_all add: Cons_nth_drop_Suc)
    then show ?thesis by simp
  qed simp
  ultimately show ?thesis using assms(2) by simp
qed

end
