(* ===== verification/Int128.thy ===== *)
theory Int128
  imports Prelude
begin

text \<open>
  \<^verbatim>\<open>src/libs/zbxcommon/int128.c\<close>: 128-bit unsigned arithmetic on two 64-bit halves, used to
  average unsigned values in trends and trigger functions. A value is read as a natural number
  by \<open>val128\<close>; every operation is proved against the arithmetic it stands for.
\<close>

record uint128 =
  hi :: u64
  lo :: u64

definition uset128 :: "u64 \<Rightarrow> u64 \<Rightarrow> uint128" where
  "uset128 hi64 lo64 = \<lparr>hi = hi64, lo = lo64\<rparr>"

definition udec128_128 :: "uint128 \<Rightarrow> uint128 \<Rightarrow> uint128" where
  "udec128_128 base value =
    (let l = lo base;
         base1 = base\<lparr>lo := lo base - lo value\<rparr>;
         base2 = (if l < lo base1 then base1\<lparr>hi := hi base1 - 1\<rparr> else base1)
     in base2\<lparr>hi := hi base2 - hi value\<rparr>)"

definition ushiftr128 :: "uint128 \<Rightarrow> nat \<Rightarrow> uint128" where
  "ushiftr128 base bits =
    (if bits = 0 then base
     else if 64 \<le> bits then
       (let b = bits - 64 in base\<lparr>lo := drop_bit b (hi base), hi := 0\<rparr>)
     else
       (let base1 = base\<lparr>lo := drop_bit bits (lo base)\<rparr>;
            base2 = base1\<lparr>lo := lo base1 OR push_bit (64 - bits) (hi base1)\<rparr>
        in base2\<lparr>hi := drop_bit bits (hi base2)\<rparr>))"

definition ushiftl128 :: "uint128 \<Rightarrow> nat \<Rightarrow> uint128" where
  "ushiftl128 base bits =
    (if bits = 0 then base
     else if 64 \<le> bits then
       (let b = bits - 64 in base\<lparr>hi := push_bit b (lo base), lo := 0\<rparr>)
     else
       (let base1 = base\<lparr>hi := push_bit bits (hi base)\<rparr>;
            base2 = base1\<lparr>hi := hi base1 OR drop_bit (64 - bits) (lo base1)\<rparr>
        in base2\<lparr>lo := push_bit bits (lo base2)\<rparr>))"

definition ucmp128_128 :: "uint128 \<Rightarrow> uint128 \<Rightarrow> int" where
  "ucmp128_128 value1 value2 =
    (if hi value1 \<noteq> hi value2 then (if hi value1 < hi value2 then - 1 else 1)
     else if lo value1 = lo value2 then 0
     else if lo value1 < lo value2 then - 1 else 1)"

definition uinc128_64 :: "uint128 \<Rightarrow> u64 \<Rightarrow> uint128" where
  "uinc128_64 base value =
    (let low = lo base;
         base1 = base\<lparr>lo := lo base + value\<rparr>
     in if low > lo base1 then base1\<lparr>hi := hi base1 + 1\<rparr> else base1)"

definition uinc128_128 :: "uint128 \<Rightarrow> uint128 \<Rightarrow> uint128" where
  "uinc128_128 base value =
    (let low = lo base;
         base1 = base\<lparr>lo := lo base + lo value\<rparr>;
         base2 = (if low > lo base1 then base1\<lparr>hi := hi base1 + 1\<rparr> else base1)
     in base2\<lparr>hi := hi base2 + hi value\<rparr>)"

definition UINT32_BIT_MASK :: u64 where
  "UINT32_BIT_MASK = NOT (push_bit 32 (NOT 0))"

definition umul64_32_shift :: "uint128 \<Rightarrow> u64 \<Rightarrow> u64 \<Rightarrow> nat \<Rightarrow> uint128" where
  "umul64_32_shift base value factor shift =
    (let buffer = ushiftl128 (uset128 0 ((value AND UINT32_BIT_MASK) * factor)) shift;
         base1 = uinc128_128 base buffer;
         buffer = ushiftl128 (uset128 0 (drop_bit 32 value * factor)) (32 + shift)
     in uinc128_128 base1 buffer)"

definition umul64_64 :: "u64 \<Rightarrow> u64 \<Rightarrow> uint128" where
  "umul64_64 value factor =
    (let r0 = uset128 0 0;
         r1 = umul64_32_shift r0 value (factor AND UINT32_BIT_MASK) 0
     in umul64_32_shift r1 value (drop_bit 32 factor) 32)"

subsection \<open>Values\<close>

definition val128 :: "uint128 \<Rightarrow> nat" where
  "val128 x = unat (hi x) * 2 ^ 64 + unat (lo x)"

lemma unat_u64_less: "unat (w :: u64) < 18446744073709551616"
  using unsigned_less [of w] by simp

lemma val128_less: "val128 x < 2 ^ 128"
  using unat_u64_less [of "hi x"] unat_u64_less [of "lo x"] unfolding val128_def
  by simp

lemma val128_div: "val128 x div 2 ^ 64 = unat (hi x)"
  using unat_u64_less [of "lo x"] by (simp add: val128_def)

lemma val128_mod: "val128 x mod 2 ^ 64 = unat (lo x)"
  using unat_u64_less [of "lo x"] by (simp add: val128_def)

lemma val128_inject: "val128 x = val128 y \<longleftrightarrow> x = y"
proof
  assume "val128 x = val128 y"
  then have "unat (hi x) = unat (hi y)" "unat (lo x) = unat (lo y)"
    by (metis val128_div, metis val128_mod)
  then show "x = y" by (cases x; cases y) (simp add: word_unat_eq_iff)
qed simp

lemma bit_val128:
  "bit (val128 x) i = (if i < 64 then bit (lo x) i else bit (hi x) (i - 64))"
proof -
  have "val128 x = push_bit 64 (unat (hi x)) + unat (lo x)"
    by (simp add: val128_def push_bit_eq_mult)
  also have "\<dots> = push_bit 64 (unat (hi x)) OR unat (lo x)"
    by (rule disjunctive_add) (auto simp: bit_push_bit_iff bit_unsigned_iff dest: bit_imp_le_length)
  finally show ?thesis
    by (auto simp: bit_or_iff bit_push_bit_iff bit_unsigned_iff dest: bit_imp_le_length)
qed

lemma val128_uset128 [simp]: "val128 (uset128 h l) = unat h * 2 ^ 64 + unat l"
  by (simp add: val128_def uset128_def)

subsection \<open>Addition, subtraction, comparison\<close>

lemma halves_mod: "l < 2 ^ 64 \<Longrightarrow> (h mod 2 ^ 64) * 2 ^ 64 + l = (h * 2 ^ 64 + l) mod 2 ^ 128" for h l :: nat
  using mod_mult2_eq [of "h * 2 ^ 64 + l" "2 ^ 64" "2 ^ 64"] by simp

lemma carry_split:
  fixes a b :: u64
  shows "unat a + unat b = (if a + b < a then 2 ^ 64 else 0) + unat (a + b)"
  using unat_u64_less [of a] unat_u64_less [of b]
  by (simp add: word_carry_iff unat_plus_cases)

lemma val128_uinc128_64: "val128 (uinc128_64 x v) = (val128 x + unat v) mod 2 ^ 128"
proof -
  let ?c = "if lo x + v < lo x then 1 else 0 :: nat"
  have "val128 (uinc128_64 x v) = (unat (hi x) + ?c) mod 2 ^ 64 * 2 ^ 64 + unat (lo x + v)"
    using unat_u64_less [of "hi x"]
    by (simp add: uinc128_64_def val128_def Let_def unat_word_ariths(1))
  also have "\<dots> = ((unat (hi x) + ?c) * 2 ^ 64 + unat (lo x + v)) mod 2 ^ 128"
    by (rule halves_mod) (use unat_u64_less in simp)
  also have "(unat (hi x) + ?c) * 2 ^ 64 + unat (lo x + v) = val128 x + unat v"
    using carry_split [of "lo x" v] by (simp add: val128_def)
  finally show ?thesis .
qed

lemma val128_uinc128_128: "val128 (uinc128_128 x y) = (val128 x + val128 y) mod 2 ^ 128"
proof -
  let ?c = "if lo x + lo y < lo x then 1 else 0 :: nat"
  have "val128 (uinc128_128 x y) =
      (unat (hi x) + ?c + unat (hi y)) mod 2 ^ 64 * 2 ^ 64 + unat (lo x + lo y)"
    by (simp add: uinc128_128_def val128_def Let_def unat_word_ariths(1) mod_simps)
  also have "\<dots> = ((unat (hi x) + ?c + unat (hi y)) * 2 ^ 64 + unat (lo x + lo y)) mod 2 ^ 128"
    by (rule halves_mod) (use unat_u64_less in simp)
  also have "(unat (hi x) + ?c + unat (hi y)) * 2 ^ 64 + unat (lo x + lo y) = val128 x + val128 y"
    using carry_split [of "lo x" "lo y"] by (simp add: val128_def)
  finally show ?thesis .
qed

lemma val128_udec128_128:
  assumes "val128 y \<le> val128 x"
  shows "val128 (udec128_128 x y) = val128 x - val128 y"
proof -
  note b = unat_u64_less [of "hi x"] unat_u64_less [of "lo x"] unat_u64_less [of "hi y"]
    unat_u64_less [of "lo y"]
  show ?thesis
    using b assms
    by (simp add: udec128_128_def val128_def Let_def word_borrow_iff unat_sub_if' ) arith
qed

lemma ucmp128_128_less: "ucmp128_128 x y < 0 \<longleftrightarrow> val128 x < val128 y"
  using unat_u64_less [of "lo x"] unat_u64_less [of "lo y"]
  by (auto simp: ucmp128_128_def val128_def word_less_nat_alt word_unat_eq_iff)

lemma ucmp128_128_eq: "ucmp128_128 x y = 0 \<longleftrightarrow> x = y"
  by (auto simp: ucmp128_128_def)

subsection \<open>Shifts\<close>

lemma val128_ushiftr128:
  assumes "n < 128"
  shows "val128 (ushiftr128 x n) = val128 x div 2 ^ n"
proof -
  have "val128 (ushiftr128 x n) = drop_bit n (val128 x)"
    using assms
    by (intro bit_eqI)
      (auto simp: ushiftr128_def Let_def bit_val128 bit_drop_bit_eq bit_or_iff bit_push_bit_iff
        add.commute dest: bit_imp_le_length)
  then show ?thesis by (simp add: drop_bit_eq_div)
qed

lemma val128_ushiftl128:
  assumes "n < 128"
  shows "val128 (ushiftl128 x n) = (val128 x * 2 ^ n) mod 2 ^ 128"
proof -
  have "val128 (ushiftl128 x n) = take_bit 128 (push_bit n (val128 x))"
    using assms
    by (intro bit_eqI)
      (auto simp: ushiftl128_def Let_def bit_val128 bit_take_bit_iff bit_drop_bit_eq bit_or_iff
        bit_push_bit_iff add.commute dest: bit_imp_le_length)
  then show ?thesis by (simp add: push_bit_eq_mult take_bit_eq_mod)
qed

subsection \<open>Multiplication\<close>

lemma unat_and_mask: "unat (w AND UINT32_BIT_MASK) = unat w mod 2 ^ 32"
proof -
  have "UINT32_BIT_MASK = mask 32"
    by (simp add: UINT32_BIT_MASK_def mask_eq_exp_minus_1)
  then have "w AND UINT32_BIT_MASK = take_bit 32 w"
    by (simp add: take_bit_eq_mask)
  then show ?thesis
    by (simp only: unsigned_take_bit_eq) (rule take_bit_eq_mod)
qed

lemma mult_no_overflow:
  fixes a b :: u64
  assumes "unat a < 2 ^ 32" and "unat b < 2 ^ 32"
  shows "unat (a * b) = unat a * unat b"
proof -
  have "unat a * unat b < 2 ^ 32 * 2 ^ 32"
    using assms by (intro mult_strict_mono) auto
  then show ?thesis by (simp add: unat_word_ariths(2))
qed

lemma join_halves:
  "l * f * 2 ^ s + h * f * 2 ^ (32 + s) = (h * 2 ^ 32 + l) * f * 2 ^ s" for l h f s :: nat
  by (simp add: power_add algebra_simps)

lemma val128_umul64_32_shift:
  assumes f: "unat factor < 2 ^ 32" and "shift < 64"
  shows "val128 (umul64_32_shift base value factor shift) =
    (val128 base + unat value * unat factor * 2 ^ shift) mod 2 ^ 128"
proof -
  let ?l = "unat value mod 2 ^ 32" and ?h = "unat value div 2 ^ 32"
  have l: "unat ((value AND UINT32_BIT_MASK) * factor) = ?l * unat factor"
    using f by (subst mult_no_overflow) (simp_all add: unat_and_mask)
  have hh: "unat (drop_bit 32 value) = ?h"
    by (rule unat_drop_bit)
  have h: "unat (drop_bit 32 value * factor) = ?h * unat factor"
    using f unat_u64_less [of "value"] by (subst mult_no_overflow) (simp_all only: hh, simp_all)
  have "val128 (umul64_32_shift base value factor shift) =
      (val128 base + (?l * unat factor * 2 ^ shift + ?h * unat factor * 2 ^ (32 + shift))) mod 2 ^ 128"
    using \<open>shift < 64\<close>
    by (simp add: umul64_32_shift_def Let_def val128_uinc128_128 val128_ushiftl128 l h mod_simps add.assoc)
  also have "?l * unat factor * 2 ^ shift + ?h * unat factor * 2 ^ (32 + shift) =
      (?h * 2 ^ 32 + ?l) * unat factor * 2 ^ shift"
    by (rule join_halves)
  finally show ?thesis by (simp only: div_mult_mod_eq)
qed

lemma val128_umul64_64: "val128 (umul64_64 value factor) = unat value * unat factor"
proof -
  let ?l = "unat factor mod 2 ^ 32" and ?h = "unat factor div 2 ^ 32"
  have h: "unat (drop_bit 32 factor) = ?h"
    by (rule unat_drop_bit)
  have lt: "?h < 2 ^ 32"
    using unat_u64_less [of factor] by (simp add: less_mult_imp_div_less)
  have "val128 (umul64_64 value factor) =
      (unat value * ?l + unat value * ?h * 2 ^ 32) mod 2 ^ 128"
    using lt
    by (simp add: umul64_64_def Let_def val128_umul64_32_shift unat_and_mask h mod_simps)
  also have "unat value * ?l + unat value * ?h * 2 ^ 32 = unat value * (?h * 2 ^ 32 + ?l)"
    using join_halves [of ?l "unat value" 0 ?h] by (simp only: mult.commute mult.left_commute power_0 mult_1 add_0_right)
  also have "?h * 2 ^ 32 + ?l = unat factor"
    by (rule div_mult_mod_eq)
  also have "unat value * unat factor mod 2 ^ 128 = unat value * unat factor"
  proof -
    have "unat value * unat factor < 2 ^ 64 * 2 ^ 64"
      using unat_u64_less by (intro mult_strict_mono) auto
    then show ?thesis by simp
  qed
  finally show ?thesis .
qed

subsection \<open>Division\<close>

text \<open>
  The inner loop of \<open>udiv128_64\<close> shifts the divisor and the result bit right until the divisor
  is no larger than the remainder; it stops because a divisor above the remainder is positive
  and halves.
\<close>

function udiv_shift_loop :: "uint128 \<Rightarrow> uint128 \<Rightarrow> u64 \<Rightarrow> uint128 \<times> u64" where
  "udiv_shift_loop reminder divisor result_mask =
    (if ucmp128_128 reminder divisor < 0 then
       udiv_shift_loop reminder (ushiftr128 divisor 1) (drop_bit 1 result_mask)
     else (divisor, result_mask))"
  by pat_completeness auto
termination
  by (relation "measure (\<lambda>(r, d, m). val128 d)")
    (auto simp: ucmp128_128_less val128_ushiftr128)

declare udiv_shift_loop.simps [simp del]

text \<open>
  The outer loop runs while the remainder needs more than 64 bits. Nothing in its guard says
  that it stops (a zero divisor would never reduce the remainder), so it is a partial function;
  \<open>udiv128_64_correct\<close> shows that it returns for every non-zero value.
\<close>

partial_function (option) udiv_loop ::
  "uint128 \<Rightarrow> uint128 \<Rightarrow> u64 \<Rightarrow> u64 \<Rightarrow> (uint128 \<times> u64) option" where
  "udiv_loop reminder divisor result_mask result_lo =
    (if hi reminder \<noteq> 0 then
       (case udiv_shift_loop reminder divisor result_mask of (divisor, result_mask) \<Rightarrow>
          udiv_loop (udec128_128 reminder divisor) divisor result_mask
            (result_lo OR result_mask))
     else Some (reminder, result_lo))"

text \<open>Division by zero traps in C and has no result here.\<close>

definition udiv128_64 :: "uint128 \<Rightarrow> u64 \<Rightarrow> uint128 option" where
  "udiv128_64 dividend value =
    (if value = 0 then None
     else if hi dividend = 0 then Some \<lparr>hi = 0, lo = lo dividend div value\<rparr>
     else
       (let reminder = dividend;
            (result_hi, reminder) =
              (if hi dividend \<ge> value then
                 (let q = hi dividend div value
                  in (q, reminder\<lparr>hi := hi reminder - q * value\<rparr>))
               else (0, reminder));
            divisor = ushiftr128 (uset128 value 0) 1;
            result_mask = push_bit (64 - 1) 1
        in case udiv_loop reminder divisor result_mask 0 of
             None \<Rightarrow> None
           | Some (reminder, result_lo) \<Rightarrow>
               Some \<lparr>hi = result_hi, lo = result_lo OR (lo reminder div value)\<rparr>))"

lemma udiv_shift_loop_spec:
  assumes "val128 d = v * 2 ^ j" "unat m = 2 ^ j" "v \<le> val128 r" "v > 0"
  shows "\<exists>j' \<le> j. \<exists>d' m'. udiv_shift_loop r d m = (d', m') \<and> val128 d' = v * 2 ^ j' \<and>
    unat m' = 2 ^ j' \<and> val128 d' \<le> val128 r \<and> (j' = j \<or> val128 r < v * 2 ^ Suc j')"
  using assms
proof (induction j arbitrary: d m)
  case 0
  then show ?case
    by (auto simp: udiv_shift_loop.simps [of r d m] ucmp128_128_less)
next
  case (Suc j)
  show ?case
  proof (cases "val128 r < val128 d")
    case True
    have "val128 (ushiftr128 d 1) = v * 2 ^ j" "unat (drop_bit 1 m) = 2 ^ j"
      using Suc.prems by (simp_all only: val128_ushiftr128 unat_drop_bit) simp_all
    from Suc.IH [OF this Suc.prems(3,4)] obtain j' d' m' where
      "j' \<le> j" and step: "udiv_shift_loop r (ushiftr128 d 1) (drop_bit 1 m) = (d', m')"
      and "val128 d' = v * 2 ^ j'" "unat m' = 2 ^ j'" "val128 d' \<le> val128 r"
      "j' = j \<or> val128 r < v * 2 ^ Suc j'"
      by blast
    moreover have "udiv_shift_loop r d m = (d', m')"
      using True step by (simp add: udiv_shift_loop.simps [of r d m] ucmp128_128_less)
    ultimately show ?thesis
      using True Suc.prems(1) by (intro exI [of _ j']) auto
  next
    case False
    then show ?thesis
      using Suc.prems
      by (intro exI [of _ "Suc j"]) (simp add: udiv_shift_loop.simps [of r d m] ucmp128_128_less)
  qed
qed

lemma or_low_add: "2 ^ m dvd a \<Longrightarrow> b < 2 ^ m \<Longrightarrow> a OR b = a + (b :: nat)"
proof -
  assume "2 ^ m dvd a" "b < 2 ^ m"
  then have "\<not> bit a n" if "n < m" for n
    using that by (auto simp: bit_iff_odd dvd_def power_diff
      intro!: even_mult_iff [THEN iffD2] dest: less_imp_Suc_add simp: power_add)
  moreover have "\<not> bit b n" if "\<not> n < m" for n
    using \<open>b < 2 ^ m\<close> that
    by (auto simp: bit_iff_odd div_less order_less_le_trans [OF _ power_increasing])
  ultimately show ?thesis
    by (intro disjunctive_add [symmetric]) blast
qed

lemma unat_or_low_add:
  fixes a b :: u64
  assumes "2 ^ m dvd unat a" and "unat b < 2 ^ m"
  shows "unat (a OR b) = unat a + unat b"
  using or_low_add [OF assms] by (simp add: unsigned_or_eq)

text \<open>
  Loop invariant of the long division: the divisor is the value shifted by \<open>j\<close>, the result bit
  is bit \<open>j\<close>, the quotient bits found so far lie at \<open>m\<close> and above, and the remainder is below the
  value shifted by \<open>m\<close>. The loop returns, and quotient times value plus remainder is unchanged.
\<close>

lemma udiv_loop_returns:
  fixes v mk q :: u64
  assumes "val128 d = unat v * 2 ^ j" "unat mk = 2 ^ j" "j < 64" "v \<noteq> 0"
    and "val128 r < unat v * 2 ^ m" "m \<le> Suc j" "2 ^ m dvd unat q"
  shows "\<exists>r' q' m'. udiv_loop r d mk q = Some (r', q') \<and> hi r' = 0 \<and>
    val128 r' < unat v * 2 ^ m' \<and> 2 ^ m' dvd unat q' \<and>
    unat q' * unat v + val128 r' = unat q * unat v + val128 r"
  using assms
proof (induction "val128 r" arbitrary: r d mk q j m rule: less_induct)
  case less
  have v: "0 < unat v" using \<open>v \<noteq> 0\<close> by (simp add: unat_gt_0)
  show ?case
  proof (cases "hi r = 0")
    case True
    with less.prems(5,7) show ?thesis
      by (subst udiv_loop.simps) auto
  next
    case False
    then have "1 \<le> unat (hi r)" by (simp add: Suc_le_eq unat_gt_0)
    then have "2 ^ 64 \<le> val128 r" unfolding val128_def by simp
    then have vr: "unat v \<le> val128 r"
      using unat_u64_less [of v] by simp
    from udiv_shift_loop_spec [OF less.prems(1,2) vr v] obtain j' d' mk' where
      j': "j' \<le> j" and loop: "udiv_shift_loop r d mk = (d', mk')"
      and d': "val128 d' = unat v * 2 ^ j'" and mk': "unat mk' = 2 ^ j'"
      and le: "val128 d' \<le> val128 r" and top: "j' = j \<or> val128 r < unat v * 2 ^ Suc j'"
      by blast
    have "unat v * 2 ^ j' < unat v * 2 ^ m"
      using d' le less.prems(5) by linarith
    then have jm: "j' < m" by (simp add: v)
    have rj: "val128 r < unat v * 2 ^ Suc j'"
    proof (cases "j' = j")
      case True
      with less.prems(6) have "unat v * 2 ^ m \<le> unat v * 2 ^ Suc j'"
        by (intro mult_le_mono2 power_increasing) auto
      with less.prems(5) show ?thesis by linarith
    qed (use top in blast)
    let ?r = "udec128_128 r d'" and ?q = "q OR mk'"
    have vr': "val128 ?r = val128 r - unat v * 2 ^ j'"
      using val128_udec128_128 [OF le] d' by simp
    have q: "unat ?q = unat q + 2 ^ j'"
      using unat_or_low_add [OF less.prems(7), of mk'] jm by (simp add: mk')
    have "val128 ?r < val128 r"
      using vr' vr v by simp
    moreover have "j' < 64" using j' less.prems(3) by simp
    moreover have "val128 ?r < unat v * 2 ^ j'"
      using vr' rj by simp
    moreover have "2 ^ j' dvd unat ?q"
      unfolding q
      by (rule dvd_add [OF dvd_trans [OF le_imp_power_dvd less.prems(7)]]) (use jm in simp_all)
    ultimately obtain r' q' m' where
      "udiv_loop ?r d' mk' ?q = Some (r', q')" "hi r' = 0"
      "val128 r' < unat v * 2 ^ m'" "2 ^ m' dvd unat q'"
      "unat q' * unat v + val128 r' = unat ?q * unat v + val128 ?r"
      using less.hyps [of ?r d' j' mk' j' ?q] d' mk' \<open>v \<noteq> 0\<close> by auto
    moreover have "unat ?q * unat v + val128 ?r = unat q * unat v + val128 r"
      using le by (simp add: q vr' d' algebra_simps)
    moreover have "udiv_loop r d mk q = udiv_loop ?r d' mk' ?q"
      using False loop by (subst udiv_loop.simps) simp
    ultimately show ?thesis by metis
  qed
qed

text \<open>
  Division of a 128-bit value by a non-zero 64-bit value returns, and returns the quotient.
\<close>

lemma udiv128_64_correct_aux:
  assumes "v \<noteq> 0"
  shows "\<exists>r. udiv128_64 n v = Some r \<and> val128 r = val128 n div unat v"
proof (cases "hi n = 0")
  case True
  with assms show ?thesis
    by (simp add: udiv128_64_def val128_def word_val)
next
  case False
  have v: "0 < unat v" using assms by (simp add: unat_gt_0)
  let ?qh = "hi n div v"
  let ?r = "n\<lparr>hi := hi n mod v\<rparr>"
  have rem: "(if hi n \<ge> v then (let q = hi n div v in (q, n\<lparr>hi := hi n - q * v\<rparr>)) else (0, n))
      = (?qh, ?r)"
    by (auto simp: Let_def minus_div_mult_eq_mod word_unat_eq_iff word_le_nat_alt word_val
        intro!: uint128.equality)
  let ?d = "ushiftr128 (uset128 v 0) 1" and ?mk = "push_bit (64 - 1) 1 :: u64"
  have d: "val128 ?d = unat v * 2 ^ 63"
    by (simp add: val128_ushiftr128)
  have "val128 ?r < unat v * 2 ^ 64"
  proof -
    have "unat (hi n) mod unat v + 1 \<le> unat v"
      using v by (simp add: Suc_le_eq)
    then have "(unat (hi n) mod unat v + 1) * 2 ^ 64 \<le> unat v * 2 ^ 64"
      by (rule mult_le_mono1)
    then show ?thesis
      using unat_u64_less [of "lo n"] by (simp add: val128_def word_val)
  qed
  moreover have "unat ?mk = 2 ^ 63" by simp
  ultimately obtain r' q' m' where
    loop: "udiv_loop ?r ?d ?mk 0 = Some (r', q')" and "hi r' = 0"
    and lt: "val128 r' < unat v * 2 ^ m'" and dvd: "2 ^ m' dvd unat q'"
    and eq: "unat q' * unat v + val128 r' = val128 ?r"
    using udiv_loop_returns [of ?d v 63 ?mk ?r 64 0] d assms by auto
  have lo: "val128 r' = unat (lo r')"
    using \<open>hi r' = 0\<close> by (simp add: val128_def)
  have "unat (lo r' div v) < 2 ^ m'"
    using lt by (simp add: lo word_val less_mult_imp_div_less mult.commute)
  then have "unat (q' OR (lo r' div v)) = unat q' + unat (lo r') div unat v"
    using unat_or_low_add [OF dvd] by (simp add: word_val)
  also have "\<dots> = val128 ?r div unat v"
    using v by (simp flip: eq add: lo)
  finally have low: "unat (q' OR (lo r' div v)) = val128 ?r div unat v" .
  have "val128 n = unat v * (unat ?qh * 2 ^ 64) + val128 ?r"
  proof -
    have h: "unat (hi n) = unat ?qh * unat v + unat (hi n mod v)"
      unfolding word_val by (rule div_mult_mod_eq [symmetric])
    show ?thesis
      by (simp only: val128_def, subst h) (simp add: algebra_simps)
  qed
  then have "val128 n div unat v = unat ?qh * 2 ^ 64 + val128 ?r div unat v"
    using v by simp
  moreover have "udiv128_64 n v = Some \<lparr>hi = ?qh, lo = q' OR (lo r' div v)\<rparr>"
    using assms False loop unfolding udiv128_64_def Let_def rem [unfolded Let_def] by simp
  ultimately show ?thesis
    using low by (simp add: val128_def)
qed

subsection \<open>Properties\<close>

text \<open>
  C16. Dividing a 128-bit value by a non-zero 64-bit value returns, and returns the quotient: the
  shift-and-subtract loop, whose guard says nothing of termination, stops.
\<close>

theorem udiv128_64_correct:
  assumes "v \<noteq> 0"
  shows "\<exists>r. udiv128_64 n v = Some r \<and> val128 r = val128 n div unat v"
  using assms by (rule udiv128_64_correct_aux)

lemma udiv128_64_correct_witness:
  "\<exists>r. udiv128_64 \<lparr>hi = 5, lo = 7\<rparr> 3 = Some r \<and> val128 r = (5 * 2 ^ 64 + 7) div 3"
  using udiv128_64_correct [of 3 "\<lparr>hi = 5, lo = 7\<rparr>"] by (simp add: val128_def)

text \<open>The product of two 64-bit values is exact: nothing is lost in the four partial products.\<close>

theorem umul64_64_exact: "val128 (umul64_64 value factor) = unat value * unat factor"
  by (rule val128_umul64_64)

lemma val128_sum:
  assumes "val128 z + (\<Sum>x\<leftarrow>xs. unat x) < 2 ^ 128"
  shows "val128 (foldl uinc128_64 z xs) = val128 z + (\<Sum>x\<leftarrow>xs. unat x)"
  using assms
proof (induction xs arbitrary: z)
  case (Cons x xs)
  then have "val128 (uinc128_64 z x) = val128 z + unat x" by (simp add: val128_uinc128_64)
  with Cons show ?case by (simp add: add.assoc)
qed simp

lemma sum_u64_less: "(\<Sum>x\<leftarrow>xs. unat (x :: u64)) \<le> length xs * (2 ^ 64 - 1)"
proof (induction xs)
  case (Cons x xs)
  then show ?case using unat_u64_less [of x] by simp
qed simp

text \<open>
  The average of at most $2^{64} - 1$ unsigned values as the server computes it, by
  \<^verbatim>\<open>uinc128_64\<close> over the values and \<^verbatim>\<open>udiv128_64\<close> by their number, is the exact average rounded
  down: the 128-bit sum does not wrap.
\<close>

theorem uint64_average_exact:
  assumes "xs \<noteq> []" "length xs < 2 ^ 64"
  shows "\<exists>r. udiv128_64 (foldl uinc128_64 (uset128 0 0) xs) (of_nat (length xs)) = Some r \<and>
    val128 r = (\<Sum>x\<leftarrow>xs. unat x) div length xs"
proof -
  have "length xs * (2 ^ 64 - 1) < 2 ^ 128"
    using mult_strict_mono' [OF assms(2), of "2 ^ 64 - 1" "2 ^ 64"] by simp
  then have "val128 (foldl uinc128_64 (uset128 0 0) xs) = (\<Sum>x\<leftarrow>xs. unat x)"
    using sum_u64_less [of xs] by (subst val128_sum) simp_all
  moreover have n: "unat (of_nat (length xs) :: u64) = length xs"
    using assms(2) by (simp add: unat_of_nat)
  moreover have "(of_nat (length xs) :: u64) \<noteq> 0"
    using assms(1) n by (metis length_0_conv unat_0)
  ultimately show ?thesis using udiv128_64_correct_aux [of "of_nat (length xs)"] by metis
qed

lemma uint64_average_exact_witness:
  "\<exists>r. udiv128_64 (foldl uinc128_64 (uset128 0 0) [- 1, - 1, 5]) 3 = Some r \<and>
    val128 r = (2 * (2 ^ 64 - 1) + 5) div 3"
  using uint64_average_exact [of "[- 1, - 1, 5]"] by (simp add: unsigned_minus_1_eq_mask mask_eq_exp_minus_1)

end
