(* ===== verification/Hashes.thy ===== *)
theory Hashes
  imports Prelude
begin

text \<open>
  \<^verbatim>\<open>src/libs/zbxalgo/algodefs.c\<close>: the hash functions over byte blocks, the default comparison
  functions, and the prime-number helpers that choose the number of slots of the hash
  containers. A \<^verbatim>\<open>const void *data, size_t len\<close> argument pair is a list of bytes.
\<close>

type_synonym zbx_hash_t = u32

definition b2h :: "u8 \<Rightarrow> zbx_hash_t" where
  "b2h b = ucast b"

subsection \<open>Hash functions\<close>

definition lookup2_mix ::
  "zbx_hash_t \<times> zbx_hash_t \<times> zbx_hash_t \<Rightarrow> zbx_hash_t \<times> zbx_hash_t \<times> zbx_hash_t" where
  "lookup2_mix = (\<lambda>(a, b, c).
    let a = a - b; a = a - c; a = a XOR drop_bit 13 c;
        b = b - c; b = b - a; b = b XOR push_bit 8 a;
        c = c - a; c = c - b; c = c XOR drop_bit 13 b;
        a = a - b; a = a - c; a = a XOR drop_bit 12 c;
        b = b - c; b = b - a; b = b XOR push_bit 16 a;
        c = c - a; c = c - b; c = c XOR drop_bit 5 b;
        a = a - b; a = a - c; a = a XOR drop_bit 3 c;
        b = b - c; b = b - a; b = b XOR push_bit 10 a;
        c = c - a; c = c - b; c = c XOR drop_bit 15 b
    in (a, b, c))"

fun lookup2_loop :: "zbx_hash_t \<times> zbx_hash_t \<times> zbx_hash_t \<Rightarrow> u8 list \<Rightarrow>
    (zbx_hash_t \<times> zbx_hash_t \<times> zbx_hash_t) \<times> u8 list" where
  "lookup2_loop (a, b, c) (p0 # p1 # p2 # p3 # p4 # p5 # p6 # p7 # p8 # p9 # p10 # p11 # p) =
    lookup2_loop (lookup2_mix
      (a + (b2h p0 + push_bit 8 (b2h p1) + push_bit 16 (b2h p2) + push_bit 24 (b2h p3)),
       b + (b2h p4 + push_bit 8 (b2h p5) + push_bit 16 (b2h p6) + push_bit 24 (b2h p7)),
       c + (b2h p8 + push_bit 8 (b2h p9) + push_bit 16 (b2h p10) + push_bit 24 (b2h p11)))) p"
| "lookup2_loop s p = (s, p)"

text \<open>The \<^verbatim>\<open>switch (len)\<close> falls through, so a case runs when at least its length is left.\<close>

definition zbx_hash_lookup2 :: "u8 list \<Rightarrow> zbx_hash_t \<Rightarrow> zbx_hash_t" where
  "zbx_hash_lookup2 data seed =
    (let ((a, b, c), p) = lookup2_loop (0x9e3779b9, 0x9e3779b9, seed) data;
         len = length p;
         c = c + of_nat len;
         c = (if 11 \<le> len then c + push_bit 24 (b2h (p ! 10)) else c);
         c = (if 10 \<le> len then c + push_bit 16 (b2h (p ! 9)) else c);
         c = (if 9 \<le> len then c + push_bit 8 (b2h (p ! 8)) else c);
         b = (if 8 \<le> len then b + push_bit 24 (b2h (p ! 7)) else b);
         b = (if 7 \<le> len then b + push_bit 16 (b2h (p ! 6)) else b);
         b = (if 6 \<le> len then b + push_bit 8 (b2h (p ! 5)) else b);
         b = (if 5 \<le> len then b + b2h (p ! 4) else b);
         a = (if 4 \<le> len then a + push_bit 24 (b2h (p ! 3)) else a);
         a = (if 3 \<le> len then a + push_bit 16 (b2h (p ! 2)) else a);
         a = (if 2 \<le> len then a + push_bit 8 (b2h (p ! 1)) else a);
         a = (if 1 \<le> len then a + b2h (p ! 0) else a);
         (a, b, c) = lookup2_mix (a, b, c)
     in c)"

fun modfnv_loop :: "zbx_hash_t \<Rightarrow> u8 list \<Rightarrow> zbx_hash_t" where
  "modfnv_loop h [] = h"
| "modfnv_loop h (b # p) = modfnv_loop ((h XOR b2h b) * 16777619) p"

definition zbx_hash_modfnv :: "u8 list \<Rightarrow> zbx_hash_t \<Rightarrow> zbx_hash_t" where
  "zbx_hash_modfnv data seed =
    (let h = modfnv_loop (2166136261 XOR seed) data;
         h = h + push_bit 13 h;
         h = h XOR drop_bit 7 h;
         h = h + push_bit 3 h;
         h = h XOR drop_bit 17 h;
         h = h + push_bit 5 h
     in h)"

fun murmur2_loop :: "zbx_hash_t \<Rightarrow> u8 list \<Rightarrow> zbx_hash_t \<times> u8 list" where
  "murmur2_loop h (p0 # p1 # p2 # p3 # p) =
    (let m = 0x5bd1e995;
         k = b2h p0;
         k = k OR push_bit 8 (b2h p1);
         k = k OR push_bit 16 (b2h p2);
         k = k OR push_bit 24 (b2h p3);
         k = k * m;
         k = k XOR drop_bit 24 k;
         k = k * m;
         h = h * m;
         h = h XOR k
     in murmur2_loop h p)"
| "murmur2_loop h p = (h, p)"

definition zbx_hash_murmur2 :: "u8 list \<Rightarrow> zbx_hash_t \<Rightarrow> zbx_hash_t" where
  "zbx_hash_murmur2 data seed =
    (let m = 0x5bd1e995;
         (h, p) = murmur2_loop (seed XOR of_nat (length data)) data;
         len = length p;
         h = (if 3 \<le> len then h XOR push_bit 16 (b2h (p ! 2)) else h);
         h = (if 2 \<le> len then h XOR push_bit 8 (b2h (p ! 1)) else h);
         h = (if 1 \<le> len then (h XOR b2h (p ! 0)) * m else h);
         h = h XOR drop_bit 13 h;
         h = h * m;
         h = h XOR drop_bit 15 h
     in h)"

fun zbx_hash_sdbm :: "u8 list \<Rightarrow> zbx_hash_t \<Rightarrow> zbx_hash_t" where
  "zbx_hash_sdbm [] h = h"
| "zbx_hash_sdbm (b # p) h = zbx_hash_sdbm p (b2h b + push_bit 6 h + push_bit 16 h - h)"

fun djb2_loop :: "zbx_hash_t \<Rightarrow> u8 list \<Rightarrow> zbx_hash_t" where
  "djb2_loop h [] = h"
| "djb2_loop h (b # p) = djb2_loop ((push_bit 5 h + h) + b2h b) p"

definition zbx_hash_djb2 :: "u8 list \<Rightarrow> zbx_hash_t \<Rightarrow> zbx_hash_t" where
  "zbx_hash_djb2 data seed = djb2_loop (5381 XOR seed) data"

text \<open>
  The shift-and-add steps of the two loops against the multiplications that the comments in
  the code give for them.
\<close>

lemma sdbm_step: "b2h b + push_bit 6 h + push_bit 16 h - h = b2h b + h * 65599"
  by (simp add: push_bit_eq_mult algebra_simps)

lemma djb2_step: "(push_bit 5 h + h) + b2h b = h * 33 + b2h b"
  by (simp add: push_bit_eq_mult algebra_simps)

lemma zbx_hash_sdbm_append:
  "zbx_hash_sdbm (xs @ ys) h = zbx_hash_sdbm ys (zbx_hash_sdbm xs h)"
  by (induction xs arbitrary: h) auto

lemma zbx_hash_sdbm_poly:
  "zbx_hash_sdbm data seed = foldl (\<lambda>h b. b2h b + h * 65599) seed data"
  by (induction data arbitrary: seed) (simp_all add: sdbm_step)

lemma zbx_hash_djb2_poly:
  "zbx_hash_djb2 data seed = foldl (\<lambda>h b. h * 33 + b2h b) (5381 XOR seed) data"
proof -
  have "djb2_loop h data = foldl (\<lambda>h b. h * 33 + b2h b) h data" for h
    by (induction data arbitrary: h) (simp_all add: djb2_step)
  then show ?thesis by (simp add: zbx_hash_djb2_def)
qed

subsection \<open>Default hash and comparison functions\<close>

text \<open>
  \<open>zbx_default_uint64_hash_func\<close> hashes the eight bytes of the key in memory; the byte order is
  the machine's, here little endian.
\<close>

definition u64_bytes :: "u64 \<Rightarrow> u8 list" where
  "u64_bytes k = map (\<lambda>i. ucast (drop_bit (8 * i) k)) [0..<8]"

definition zbx_default_uint64_hash_func :: "u64 \<Rightarrow> zbx_hash_t" where
  "zbx_default_uint64_hash_func key = zbx_hash_modfnv (u64_bytes key) 0"

text \<open>A string is hashed up to its terminating zero byte (\<^verbatim>\<open>strlen\<close>).\<close>

definition zbx_default_string_hash_func :: "u8 list \<Rightarrow> zbx_hash_t" where
  "zbx_default_string_hash_func data = zbx_hash_modfnv (takeWhile (\<lambda>b. b \<noteq> 0) data) 0"

definition zbx_default_int_compare_func :: "int \<Rightarrow> int \<Rightarrow> int" where
  "zbx_default_int_compare_func i1 i2 = (if i1 < i2 then - 1 else if i1 > i2 then 1 else 0)"

definition zbx_default_uint64_compare_func :: "u64 \<Rightarrow> u64 \<Rightarrow> int" where
  "zbx_default_uint64_compare_func i1 i2 = (if i1 < i2 then - 1 else if i1 > i2 then 1 else 0)"

lemma uint64_compare_eq [simp]: "zbx_default_uint64_compare_func a b = 0 \<longleftrightarrow> a = b"
  by (auto simp: zbx_default_uint64_compare_func_def)

lemma uint64_compare_le: "zbx_default_uint64_compare_func a b \<le> 0 \<longleftrightarrow> a \<le> b"
  by (auto simp: zbx_default_uint64_compare_func_def)

subsection \<open>Primes\<close>

function is_prime_loop :: "int \<Rightarrow> int \<Rightarrow> bool" where
  "is_prime_loop n i =
    (if i * i \<le> n then (if n mod i = 0 then False else is_prime_loop n (i + 2)) else True)"
  by pat_completeness auto
termination
proof (relation "measure (\<lambda>(n, i). nat (n + 1 - i))")
  fix n i :: int
  assume "i * i \<le> n"
  moreover have "i \<le> i * i"
  proof (cases "i \<le> 0")
    case True
    then show ?thesis using zero_le_square [of i] by linarith
  next
    case False
    then show ?thesis using mult_left_mono [of 1 i i] by simp
  qed
  ultimately show "((n, i + 2), n, i) \<in> measure (\<lambda>(n, i). nat (n + 1 - i))"
    by simp
qed simp

declare is_prime_loop.simps [simp del]

definition is_prime :: "int \<Rightarrow> bool" where
  "is_prime n =
    (if n \<le> 1 then False
     else if n = 2 then True
     else if n mod 2 = 0 then False
     else is_prime_loop n 3)"

definition prime_spec :: "int \<Rightarrow> bool" where
  "prime_spec n \<longleftrightarrow> 1 < n \<and> (\<forall>d. 1 < d \<and> d < n \<longrightarrow> \<not> d dvd n)"

lemma is_prime_loop_iff:
  assumes "0 < i" "odd i"
  shows "is_prime_loop n i \<longleftrightarrow> (\<forall>d. i \<le> d \<and> odd d \<and> d * d \<le> n \<longrightarrow> \<not> d dvd n)"
  using assms
proof (induction n i rule: is_prime_loop.induct)
  case (1 n i)
  show ?case
  proof (cases "i * i \<le> n")
    case False
    have "\<not> d * d \<le> n" if "i \<le> d" for d
      using False that mult_mono [of i d i d] \<open>0 < i\<close> by auto
    then show ?thesis
      using False by (auto simp: is_prime_loop.simps [of n i])
  next
    case True
    show ?thesis
    proof (cases "n mod i = 0")
      case True
      then show ?thesis
        using \<open>i * i \<le> n\<close> \<open>odd i\<close> by (auto simp: is_prime_loop.simps [of n i] dvd_eq_mod_eq_0)
    next
      case False
      have split: "(i \<le> d \<and> odd d) \<longleftrightarrow> (d = i \<or> i + 2 \<le> d \<and> odd d)" for d
        using \<open>odd i\<close> by (cases "d = i + 1") auto
      have "is_prime_loop n i = is_prime_loop n (i + 2)"
        using True False by (simp add: is_prime_loop.simps [of n i])
      also have "\<dots> \<longleftrightarrow> (\<forall>d. i + 2 \<le> d \<and> odd d \<and> d * d \<le> n \<longrightarrow> \<not> d dvd n)"
        by (rule "1.IH" [OF True False]) (use "1.prems" in auto)
      also have "\<dots> \<longleftrightarrow> (\<forall>d. i \<le> d \<and> odd d \<and> d * d \<le> n \<longrightarrow> \<not> d dvd n)"
        using split False by (metis dvd_eq_mod_eq_0)
      finally show ?thesis .
    qed
  qed
qed

lemma small_divisor:
  assumes "1 < d" "d < n" "d dvd (n :: int)"
  shows "\<exists>e. 1 < e \<and> e < n \<and> e * e \<le> n \<and> e dvd n"
proof (cases "d * d \<le> n")
  case True
  with assms show ?thesis by blast
next
  case False
  from assms(3) obtain k where k: "n = d * k" by blast
  have "0 < k" using assms k by (auto simp: zero_less_mult_iff)
  moreover have "k \<noteq> 1" using assms(2) k by auto
  ultimately have k1: "1 < k" by simp
  have "k < d"
  proof (rule ccontr)
    assume "\<not> k < d"
    then have "d * d \<le> d * k" using assms(1) by (intro mult_left_mono) auto
    with False k show False by simp
  qed
  then have "k * k \<le> d * k" using k1 by (intro mult_right_mono) auto
  moreover have "1 * k < d * k"
    using assms(1) k1 by (intro mult_strict_right_mono) auto
  ultimately show ?thesis using k1 k by (intro exI [of _ k]) auto
qed

lemma is_prime_iff: "is_prime n \<longleftrightarrow> prime_spec n"
proof (cases "n \<le> 2 \<or> even n")
  case True
  have "\<not> prime_spec n" if "even n" "2 < n"
    using that by (auto simp: prime_spec_def intro!: exI [of _ 2])
  moreover have "prime_spec 2" by (auto simp: prime_spec_def)
  ultimately show ?thesis
    using True by (auto simp: is_prime_def prime_spec_def even_iff_mod_2_eq_zero)
next
  case False
  then have n: "2 < n" "odd n" by auto
  have "is_prime n \<longleftrightarrow> (\<forall>d. 3 \<le> d \<and> odd d \<and> d * d \<le> n \<longrightarrow> \<not> d dvd n)"
    using n by (simp add: is_prime_def is_prime_loop_iff flip: even_iff_mod_2_eq_zero)
  also have "\<dots> \<longleftrightarrow> prime_spec n"
  proof
    assume L: "\<forall>d. 3 \<le> d \<and> odd d \<and> d * d \<le> n \<longrightarrow> \<not> d dvd n"
    have False if d: "1 < d" "d < n" "d dvd n" for d
    proof -
      from small_divisor [OF d] obtain e where e: "1 < e" "e * e \<le> n" "e dvd n" by blast
      with n(2) have "odd e" by (metis dvd_trans)
      with e(1) have "3 \<le> e" by (cases "e = 2") auto
      with L e \<open>odd e\<close> show False by blast
    qed
    with n show "prime_spec n" by (auto simp: prime_spec_def)
  next
    assume P: "prime_spec n"
    show "\<forall>d. 3 \<le> d \<and> odd d \<and> d * d \<le> n \<longrightarrow> \<not> d dvd n"
    proof (intro allI impI)
      fix d :: int
      assume d: "3 \<le> d \<and> odd d \<and> d * d \<le> n"
      then have "1 * d < d * d" by (intro mult_strict_right_mono) auto
      with d have "1 < d" "d < n" by linarith+
      with P show "\<not> d dvd n" by (auto simp: prime_spec_def)
    qed
  qed
  finally show ?thesis .
qed

text \<open>There is a prime at or above every number, so the search of \<open>next_prime\<close> stops.\<close>

lemma prime_divisor_exists: "1 < (n :: int) \<Longrightarrow> \<exists>p. prime_spec p \<and> p dvd n"
proof (induction "nat n" arbitrary: n rule: less_induct)
  case less
  show ?case
  proof (cases "prime_spec n")
    case False
    with less.prems obtain d where d: "1 < d" "d < n" "d dvd n"
      by (auto simp: prime_spec_def)
    with less.hyps [of d] show ?thesis by (auto intro: dvd_trans)
  qed auto
qed

lemma fact_int_dvd: "1 \<le> d \<Longrightarrow> d \<le> int m \<Longrightarrow> d dvd fact m"
proof -
  assume "1 \<le> d" "d \<le> int m"
  then obtain k where "d = int k" "1 \<le> k" "k \<le> m"
    by (cases d) auto
  then have "int k dvd int (fact m)"
    by (simp only: int_dvd_int_iff) (rule dvd_fact)
  with \<open>d = int k\<close> show ?thesis by simp
qed

lemma prime_above: "\<exists>d. is_prime (n + int d)"
proof -
  let ?m = "nat (max n 2)"
  have "1 < fact ?m + (1 :: int)"
    using fact_ge_1 [of ?m, where 'a = int] by linarith
  then obtain p where p: "prime_spec p" "p dvd fact ?m + 1"
    using prime_divisor_exists by blast
  have "n \<le> p"
  proof (rule ccontr)
    assume "\<not> n \<le> p"
    with p(1) have "p dvd fact ?m"
      by (intro fact_int_dvd) (auto simp: prime_spec_def)
    with p(2) have "p dvd 1" by (metis dvd_add_right_iff)
    with p(1) show False by (auto simp: prime_spec_def)
  qed
  then show ?thesis
    using p(1) by (intro exI [of _ "nat (p - n)"]) (simp add: is_prime_iff)
qed

function next_prime :: "int \<Rightarrow> int" where
  "next_prime n = (if \<not> is_prime n then next_prime (n + 1) else n)"
  by pat_completeness auto
termination
proof (relation "measure (\<lambda>n. LEAST d. is_prime (n + int d))")
  fix n :: int
  assume np: "\<not> is_prime n"
  let ?D = "LEAST d. is_prime (n + int d)"
  have D: "is_prime (n + int ?D)"
    using prime_above by (rule LeastI_ex)
  with np obtain e where e: "?D = Suc e"
    by (cases ?D) auto
  with D have "is_prime (n + 1 + int e)" by (simp add: ac_simps)
  then have "(LEAST d. is_prime (n + 1 + int d)) \<le> e" by (rule Least_le)
  with e show "(n + 1, n) \<in> measure (\<lambda>n. LEAST d. is_prime (n + int d))" by simp
qed simp

declare next_prime.simps [simp del]

lemma next_prime_spec:
  "is_prime (next_prime n) \<and> n \<le> next_prime n \<and> (\<forall>m. n \<le> m \<and> m < next_prime n \<longrightarrow> \<not> is_prime m)"
proof (induction n rule: next_prime.induct)
  case (1 n)
  show ?case
  proof (cases "is_prime n")
    case True
    then show ?thesis by (auto simp: next_prime.simps [of n])
  next
    case False
    have "m = n \<or> n + 1 \<le> m" if "n \<le> m" for m using that by auto
    with 1 False show ?thesis by (auto simp: next_prime.simps [of n])
  qed
qed

lemma next_prime_ge: "n \<le> next_prime n"
  using next_prime_spec by blast

lemma next_prime_pos: "1 < next_prime n"
  using next_prime_spec [of n] by (auto simp: is_prime_iff prime_spec_def)

subsection \<open>Properties\<close>

text \<open>
  \<^verbatim>\<open>next_prime\<close>, which fixes the table sizes, returns for every number, and what it returns is
  the least prime that is at least the number: trial division by odd numbers up to the square root
  recognises exactly the primes.
\<close>

theorem next_prime_least:
  "prime_spec (next_prime n) \<and> n \<le> next_prime n \<and> {m. prime_spec m \<and> n \<le> m \<and> m < next_prime n} = {}"
  using next_prime_spec [of n] by (auto simp: is_prime_iff)

end
