(* ===== verification/HashSet.thy ===== *)
theory HashSet
  imports Hashes
begin

text \<open>
  \<^verbatim>\<open>src/libs/zbxalgo/hashset.c\<close>: the chained hash table behind the configuration cache, the
  value cache and the string pool. Slots are chains of entries, a chain being the list of the
  entries reached through \<^verbatim>\<open>next\<close>. The two allocator calls of an insertion may return NULL in
  shared memory, so their outcome is an argument of the model. The entry layout is abstract:
  \<open>'d\<close> is the contents of the data block.
\<close>

subsection \<open>State\<close>

record 'd hs_entry =
  e_hash :: zbx_hash_t
  e_data :: 'd

record 'd hashset =
  hs_slots :: "'d hs_entry list list"
  hs_num_slots :: nat
  hs_num_data :: nat
  hs_hash_func :: "'d \<Rightarrow> zbx_hash_t"
  hs_compare_func :: "'d \<Rightarrow> 'd \<Rightarrow> int"

subsection \<open>Operations\<close>

text \<open>A failed allocation leaves the structure unset: \<open>None\<close>.\<close>

definition zbx_hashset_create_ext ::
  "nat \<Rightarrow> ('d \<Rightarrow> zbx_hash_t) \<Rightarrow> ('d \<Rightarrow> 'd \<Rightarrow> int) \<Rightarrow> bool \<Rightarrow> 'd hashset option" where
  "zbx_hashset_create_ext init_size hash_func compare_func malloc_ok =
    (let nslots = nat (next_prime (int init_size))
     in if \<not> malloc_ok then None
        else Some \<lparr>hs_slots = replicate nslots [], hs_num_slots = nslots, hs_num_data = 0,
          hs_hash_func = hash_func, hs_compare_func = compare_func\<rparr>)"

definition hs_match :: "'d hashset \<Rightarrow> zbx_hash_t \<Rightarrow> 'd \<Rightarrow> 'd hs_entry \<Rightarrow> bool" where
  "hs_match hs h data e \<longleftrightarrow> e_hash e = h \<and> hs_compare_func hs (e_data e) data = 0"

definition hs_slot_of :: "nat \<Rightarrow> zbx_hash_t \<Rightarrow> nat" where
  "hs_slot_of n h = unat h mod n"

text \<open>
  The in-place rehash of one chain: \<open>kept\<close> is the part of the chain already passed and left in
  place, an entry that belongs elsewhere is unlinked and put in front of its new chain.
\<close>

fun rehash_chain ::
  "nat \<Rightarrow> nat \<Rightarrow> 'd hs_entry list \<Rightarrow> 'd hs_entry list \<Rightarrow> 'd hs_entry list list \<Rightarrow>
   'd hs_entry list list" where
  "rehash_chain inc_slots slot kept [] slots = slots[slot := kept]"
| "rehash_chain inc_slots slot kept (cur # chain) slots =
    (let new_slot = hs_slot_of inc_slots (e_hash cur) in
     if slot \<noteq> new_slot then
       rehash_chain inc_slots slot kept chain (slots[new_slot := cur # slots ! new_slot])
     else rehash_chain inc_slots slot (kept @ [cur]) chain slots)"

definition rehash_slots :: "nat \<Rightarrow> nat \<Rightarrow> 'd hs_entry list list \<Rightarrow> 'd hs_entry list list" where
  "rehash_slots inc_slots num_slots slots =
    fold (\<lambda>slot sl. rehash_chain inc_slots slot [] (sl ! slot) sl) [0..<num_slots] slots"

definition hs_inc_slots :: "nat \<Rightarrow> nat" where
  "hs_inc_slots num_slots = nat (next_prime (int (max (num_slots + 1) (num_slots * 3 div 2))))"

definition hs_grow :: "'d hashset \<Rightarrow> 'd hashset" where
  "hs_grow hs =
    (let inc_slots = hs_inc_slots (hs_num_slots hs);
         slots = hs_slots hs @ replicate (inc_slots - hs_num_slots hs) []
     in hs\<lparr>hs_slots := rehash_slots inc_slots (hs_num_slots hs) slots,
           hs_num_slots := inc_slots\<rparr>)"

text \<open>
  \<open>cp data\<close> is what the \<^verbatim>\<open>memcpy\<close> from the given offset leaves in the new data block: \<open>data\<close>
  itself for offset 0 (\<open>zbx_hashset_insert\<close>), and for a positive offset a block whose first
  bytes are those of the fresh allocation.
\<close>

definition zbx_hashset_insert_ext ::
  "'d hashset \<Rightarrow> 'd \<Rightarrow> ('d \<Rightarrow> 'd) \<Rightarrow> bool \<Rightarrow> bool \<Rightarrow> 'd hashset \<times> 'd option" where
  "zbx_hashset_insert_ext hs data cp realloc_ok malloc_ok =
    (let h = hs_hash_func hs data;
         slot = hs_slot_of (hs_num_slots hs) h
     in case find (hs_match hs h data) (hs_slots hs ! slot) of
          Some entry \<Rightarrow> (hs, Some (e_data entry))
        | None \<Rightarrow>
            (let grow = (hs_num_slots hs * 4 div 5 \<le> hs_num_data hs + 1)
             in if grow \<and> \<not> realloc_ok then (hs, None)
                else
                  (let hs1 = (if grow then hs_grow hs else hs);
                       slot = hs_slot_of (hs_num_slots hs1) h
                   in if \<not> malloc_ok then (hs1, None)
                      else
                        (let entry = \<lparr>e_hash = h, e_data = cp data\<rparr>
                         in (hs1\<lparr>hs_slots := (hs_slots hs1)[slot := entry # hs_slots hs1 ! slot],
                                 hs_num_data := hs_num_data hs1 + 1\<rparr>,
                             Some (e_data entry))))))"

definition zbx_hashset_insert :: "'d hashset \<Rightarrow> 'd \<Rightarrow> bool \<Rightarrow> bool \<Rightarrow> 'd hashset \<times> 'd option" where
  "zbx_hashset_insert hs data realloc_ok malloc_ok =
    zbx_hashset_insert_ext hs data (\<lambda>d. d) realloc_ok malloc_ok"

definition memcpy_from :: "nat \<Rightarrow> u8 list \<Rightarrow> u8 list \<Rightarrow> u8 list" where
  "memcpy_from offset fresh data = take offset fresh @ drop offset data"

definition zbx_hashset_search :: "'d hashset \<Rightarrow> 'd \<Rightarrow> 'd option" where
  "zbx_hashset_search hs data =
    (let h = hs_hash_func hs data;
         slot = hs_slot_of (hs_num_slots hs) h
     in map_option e_data (find (hs_match hs h data) (hs_slots hs ! slot)))"

text \<open>
  Removal walks the chain with the previous entry at hand and unlinks the first match: the
  head case and the loop of the code are the two equations' branches.
\<close>

fun unlink_first :: "('e \<Rightarrow> bool) \<Rightarrow> 'e list \<Rightarrow> 'e list option" where
  "unlink_first P [] = None"
| "unlink_first P (e # es) = (if P e then Some es else map_option ((#) e) (unlink_first P es))"

definition zbx_hashset_remove :: "'d hashset \<Rightarrow> 'd \<Rightarrow> 'd hashset" where
  "zbx_hashset_remove hs data =
    (let h = hs_hash_func hs data;
         slot = hs_slot_of (hs_num_slots hs) h
     in case unlink_first (hs_match hs h data) (hs_slots hs ! slot) of
          None \<Rightarrow> hs
        | Some chain \<Rightarrow> hs\<lparr>hs_slots := (hs_slots hs)[slot := chain],
                          hs_num_data := hs_num_data hs - 1\<rparr>)"

definition zbx_hashset_clear :: "'d hashset \<Rightarrow> 'd hashset" where
  "zbx_hashset_clear hs =
    hs\<lparr>hs_slots := fold (\<lambda>slot sl. sl[slot := []]) [0..<hs_num_slots hs] (hs_slots hs),
       hs_num_data := 0\<rparr>"

subsection \<open>Iterators\<close>

text \<open>
  An iterator holds a slot number (\<open>ITER_START\<close> is -1, \<open>ITER_FINISH\<close> is -2) and a pointer to an
  entry of that slot's chain, here its position in the chain, or NULL.
\<close>

record hs_iter =
  it_slot :: int
  it_entry :: "nat option"

definition zbx_hashset_iter_reset :: hs_iter where
  "zbx_hashset_iter_reset = \<lparr>it_slot = - 1, it_entry = None\<rparr>"

text \<open>
  The search for the next non-empty slot. The code stops at \<^verbatim>\<open>slot == num_slots\<close>; the slot
  number grows by one from a value below, so this is the first slot not below the bound.
\<close>

function iter_seek :: "'d hashset \<Rightarrow> nat \<Rightarrow> nat option" where
  "iter_seek hs slot =
    (if hs_num_slots hs \<le> slot then None
     else if hs_slots hs ! slot \<noteq> [] then Some slot
     else iter_seek hs (Suc slot))"
  by pat_completeness auto
termination
  by (relation "measure (\<lambda>(hs, slot). hs_num_slots hs - slot)") auto

declare iter_seek.simps [simp del]

definition iter_advance :: "'d hashset \<Rightarrow> hs_iter \<Rightarrow> hs_iter \<times> 'd option" where
  "iter_advance hs it =
    (case iter_seek hs (nat (it_slot it + 1)) of
       None \<Rightarrow> (it\<lparr>it_slot := - 2\<rparr>, None)
     | Some s \<Rightarrow> (it\<lparr>it_slot := int s, it_entry := Some 0\<rparr>, Some (e_data (hs_slots hs ! s ! 0))))"

definition zbx_hashset_iter_next :: "'d hashset \<Rightarrow> hs_iter \<Rightarrow> hs_iter \<times> 'd option" where
  "zbx_hashset_iter_next hs it =
    (if it_slot it = - 2 then (it, None)
     else
       (case (if it_slot it \<noteq> - 1 then it_entry it else None) of
          Some p \<Rightarrow>
            if Suc p < length (hs_slots hs ! nat (it_slot it)) then
              (it\<lparr>it_entry := Some (Suc p)\<rparr>, Some (e_data (hs_slots hs ! nat (it_slot it) ! Suc p)))
            else iter_advance hs it
        | None \<Rightarrow> iter_advance hs it))"

definition zbx_hashset_iter_remove ::
  "'d hashset \<Rightarrow> hs_iter \<Rightarrow> fatal + ('d hashset \<times> hs_iter)" where
  "zbx_hashset_iter_remove hs it =
    (case it_entry it of
       None \<Rightarrow> Inl (Exit_Fail ''removing a hashset entry through a bad iterator'')
     | Some p \<Rightarrow>
         if it_slot it = - 1 \<or> it_slot it = - 2 then
           Inl (Exit_Fail ''removing a hashset entry through a bad iterator'')
         else
           (let s = nat (it_slot it);
                chain = hs_slots hs ! s;
                hs1 = hs\<lparr>hs_slots := (hs_slots hs)[s := take p chain @ drop (Suc p) chain],
                         hs_num_data := hs_num_data hs - 1\<rparr>
            in if p = 0 then Inr (hs1, it\<lparr>it_slot := it_slot it - 1, it_entry := None\<rparr>)
               else Inr (hs1, it\<lparr>it_entry := Some (p - 1)\<rparr>)))"

subsection \<open>Well-formedness and the abstract map\<close>

text \<open>
  The contract between a table and its client's callbacks: entries have a key, the comparison
  returns 0 exactly for equal keys, and equal keys have equal hashes.
\<close>

locale hash_keys =
  fixes hash :: "'d \<Rightarrow> zbx_hash_t" and compare :: "'d \<Rightarrow> 'd \<Rightarrow> int" and key :: "'d \<Rightarrow> 'k"
  assumes compare_key: "compare a b = 0 \<longleftrightarrow> key a = key b"
    and hash_key: "key a = key b \<Longrightarrow> hash a = hash b"

definition hs_entries :: "'d hashset \<Rightarrow> 'd hs_entry list" where
  "hs_entries hs = concat (hs_slots hs)"

definition hs_placed :: "'d hashset \<Rightarrow> bool" where
  "hs_placed hs \<longleftrightarrow> length (hs_slots hs) = hs_num_slots hs \<and> 0 < hs_num_slots hs \<and>
    (\<forall>i < hs_num_slots hs. \<forall>e \<in> set (hs_slots hs ! i). hs_slot_of (hs_num_slots hs) (e_hash e) = i)"

definition hs_abs :: "('d \<Rightarrow> 'k) \<Rightarrow> 'd hashset \<Rightarrow> 'k \<rightharpoonup> 'd" where
  "hs_abs key hs = map_of (map (\<lambda>e. (key (e_data e), e_data e)) (hs_entries hs))"

definition hs_wf :: "('d \<Rightarrow> zbx_hash_t) \<Rightarrow> ('d \<Rightarrow> 'd \<Rightarrow> int) \<Rightarrow> ('d \<Rightarrow> 'k) \<Rightarrow> 'd hashset \<Rightarrow> bool" where
  "hs_wf hash compare key hs \<longleftrightarrow>
    hs_hash_func hs = hash \<and> hs_compare_func hs = compare \<and> hs_placed hs \<and>
    (\<forall>e \<in> set (hs_entries hs). e_hash e = hash (e_data e)) \<and>
    distinct (map (\<lambda>e. key (e_data e)) (hs_entries hs)) \<and>
    hs_num_data hs = length (hs_entries hs)"

subsection \<open>Rehashing keeps the entries and puts each in its slot\<close>

lemma length_rehash_chain [simp]:
  "length (rehash_chain n s kept chain slots) = length slots"
  by (induction n s kept chain slots rule: rehash_chain.induct) (auto simp: Let_def)

lemma rehash_chain_nth:
  assumes "0 < n" "n \<le> length slots" "s < length slots" "j < length slots"
  shows "rehash_chain n s kept chain slots ! j =
    (if j = s then kept @ filter (\<lambda>e. hs_slot_of n (e_hash e) = s) chain
     else rev (filter (\<lambda>e. hs_slot_of n (e_hash e) = j) chain) @ slots ! j)"
  using assms
proof (induction n s kept chain slots rule: rehash_chain.induct)
  case (2 n s kept c chain slots)
  have "hs_slot_of n (e_hash c) < length slots"
    using "2.prems" by (simp add: hs_slot_of_def less_le_trans [OF mod_less_divisor])
  with 2 show ?case by (auto simp: Let_def nth_list_update)
qed simp

lemma mset_rehash_chain:
  assumes "0 < n" "n \<le> length slots" "s < length slots"
  shows "mset (concat (rehash_chain n s kept chain slots)) + mset (slots ! s) =
    mset (concat slots) + mset kept + mset chain"
  using assms
proof (induction n s kept chain slots rule: rehash_chain.induct)
  case (1 n s kept slots)
  then show ?case using mset_concat_update [of s slots kept] by simp
next
  case (2 n s kept c chain slots)
  let ?t = "hs_slot_of n (e_hash c)"
  have t: "?t < length slots"
    using "2.prems" by (simp add: hs_slot_of_def less_le_trans [OF mod_less_divisor])
  show ?case
  proof (cases "s = ?t")
    case True
    then show ?thesis using 2 by (simp add: Let_def ac_simps)
  next
    case False
    from mset_concat_update [OF t, of "c # slots ! ?t"]
    have "mset (concat (slots[?t := c # slots ! ?t])) = add_mset c (mset (concat slots))"
      by simp
    then show ?thesis using 2 False by (simp add: Let_def)
  qed
qed

definition rehashed :: "nat \<Rightarrow> nat \<Rightarrow> nat \<Rightarrow> 'd hs_entry list list \<Rightarrow> bool" where
  "rehashed n k m slots \<longleftrightarrow> length slots = n \<and>
    (\<forall>j < n. j < k \<or> m \<le> j \<longrightarrow> (\<forall>e \<in> set (slots ! j). hs_slot_of n (e_hash e) = j))"

lemma rehash_slots_prefix:
  assumes "0 < n" "m \<le> n" "rehashed n 0 m slots" "k \<le> m"
  shows "let r = fold (\<lambda>s sl. rehash_chain n s [] (sl ! s) sl) [0..<k] slots
    in rehashed n k m r \<and> mset (concat r) = mset (concat slots)"
  using assms(4)
proof (induction k)
  case 0
  then show ?case using assms(3) by simp
next
  case (Suc k)
  let ?r = "fold (\<lambda>s sl. rehash_chain n s [] (sl ! s) sl) [0..<k] slots"
  let ?r' = "rehash_chain n k [] (?r ! k) ?r"
  from Suc have IH: "rehashed n k m ?r" "mset (concat ?r) = mset (concat slots)"
    by (simp_all add: Let_def)
  then have len: "length ?r = n" by (simp add: rehashed_def)
  have k: "k < n" using Suc.prems assms(2) by simp
  have "rehashed n (Suc k) m ?r'"
    unfolding rehashed_def
  proof (intro conjI allI impI ballI)
    fix j e
    assume j: "j < n" "j < Suc k \<or> m \<le> j" and e: "e \<in> set (?r' ! j)"
    show "hs_slot_of n (e_hash e) = j"
      using e j k IH(1) len Suc.prems assms(1)
      by (auto simp: rehash_chain_nth rehashed_def split: if_splits)
  qed (simp add: len)
  moreover have "mset (concat ?r') = mset (concat slots)"
    using mset_rehash_chain [of n ?r k "[]" "?r ! k"] assms(1) len k IH(2) by simp
  ultimately show ?case by (simp add: Let_def)
qed

lemma hs_inc_slots_gt: "n < hs_inc_slots n"
  using next_prime_ge [of "int (max (n + 1) (n * 3 div 2))"] by (simp add: hs_inc_slots_def)

lemma hs_grow_props:
  assumes "hs_placed hs"
  shows "hs_placed (hs_grow hs)" "mset (hs_entries (hs_grow hs)) = mset (hs_entries hs)"
proof -
  let ?m = "hs_num_slots hs" and ?n = "hs_inc_slots (hs_num_slots hs)"
  let ?slots = "hs_slots hs @ replicate (?n - ?m) []"
  have mn: "?m < ?n" by (rule hs_inc_slots_gt)
  have "rehashed ?n 0 ?m ?slots"
    using assms mn by (auto simp: rehashed_def hs_placed_def nth_append)
  then have r: "rehashed ?n ?m ?m (rehash_slots ?n ?m ?slots)"
      "mset (concat (rehash_slots ?n ?m ?slots)) = mset (concat ?slots)"
    using rehash_slots_prefix [of ?n ?m ?slots ?m] mn by (simp_all add: rehash_slots_def Let_def)
  from r(1) show "hs_placed (hs_grow hs)"
    using mn by (auto simp: hs_grow_def hs_placed_def rehashed_def Let_def not_le)
  from r(2) show "mset (hs_entries (hs_grow hs)) = mset (hs_entries hs)"
    by (simp add: hs_grow_def hs_entries_def Let_def)
qed

lemma hs_grow_fields [simp]:
  "hs_hash_func (hs_grow hs) = hs_hash_func hs" "hs_compare_func (hs_grow hs) = hs_compare_func hs"
  "hs_num_data (hs_grow hs) = hs_num_data hs" "hs_num_slots (hs_grow hs) = hs_inc_slots (hs_num_slots hs)"
  by (simp_all add: hs_grow_def Let_def)

subsection \<open>The operations against the abstract map\<close>

lemma map_of_find: "map_of (map (\<lambda>e. (f e, g e)) xs) k = map_option g (find (\<lambda>e. f e = k) xs)"
  by (induction xs) auto

lemma find_unique:
  assumes "distinct (map f xs)" "x \<in> set xs" "f x = k"
  shows "find (\<lambda>e. f e = k) xs = Some x"
  using assms by (induction xs) auto

lemma unlink_first_split:
  "unlink_first P xs = (case find P xs of None \<Rightarrow> None
    | Some _ \<Rightarrow> Some (takeWhile (\<lambda>x. \<not> P x) xs @ tl (dropWhile (\<lambda>x. \<not> P x) xs)))"
  by (induction xs) (auto split: option.splits)

lemma mset_unlink_first:
  "unlink_first P xs = Some ys \<Longrightarrow> find P xs = Some x \<Longrightarrow> mset xs = add_mset x (mset ys)"
  by (induction xs arbitrary: ys) (auto split: if_splits)

lemma unlink_first_None: "unlink_first P xs = None \<longleftrightarrow> find P xs = None"
  by (induction xs) auto

lemma hs_abs_Some:
  assumes "distinct (map (\<lambda>e. key (e_data e)) (hs_entries hs))"
  shows "hs_abs key hs k = Some v \<longleftrightarrow> (\<exists>e \<in> set (hs_entries hs). key (e_data e) = k \<and> e_data e = v)"
  using assms unfolding hs_abs_def by (subst map_of_eq_Some_iff) (auto simp: comp_def)

lemma hs_slot_of_less: "0 < n \<Longrightarrow> hs_slot_of n h < n"
  by (simp add: hs_slot_of_def)

lemma mset_entries_update:
  assumes "s < length (hs_slots hs)"
  shows "mset (concat ((hs_slots hs)[s := c])) + mset (hs_slots hs ! s) = mset (hs_entries hs) + mset c"
  using mset_concat_update [OF assms] by (simp add: hs_entries_def)

lemma entries_slot_subset: "s < length (hs_slots hs) \<Longrightarrow> set (hs_slots hs ! s) \<subseteq> set (hs_entries hs)"
  by (auto simp: hs_entries_def intro!: bexI [of _ "hs_slots hs ! s"])

lemma hs_placed_update:
  assumes "hs_placed hs" "s < hs_num_slots hs"
    and "\<forall>e \<in> set c. hs_slot_of (hs_num_slots hs) (e_hash e) = s"
  shows "hs_placed (hs\<lparr>hs_slots := (hs_slots hs)[s := c], hs_num_data := m\<rparr>)"
  using assms by (auto simp: hs_placed_def nth_list_update)

lemma hs_abs_mset:
  assumes "mset (hs_entries hs') = mset (hs_entries hs)"
    and "distinct (map (\<lambda>e. key (e_data e)) (hs_entries hs))"
  shows "hs_abs key hs' = hs_abs key hs"
proof -
  have "distinct (map (\<lambda>e. key (e_data e)) (hs_entries hs'))"
    using assms by (metis mset_map mset_eq_imp_distinct_iff)
  moreover have "set (hs_entries hs') = set (hs_entries hs)"
    using assms(1) by (rule mset_eq_setD)
  ultimately have "hs_abs key hs' k = Some v \<longleftrightarrow> hs_abs key hs k = Some v" for k v
    using assms(2) by (simp add: hs_abs_Some)
  then show ?thesis by (metis ext option.exhaust)
qed

context hash_keys
begin

lemma wf_grow:
  assumes "hs_wf hash compare key hs"
  shows "hs_wf hash compare key (hs_grow hs)" "hs_abs key (hs_grow hs) = hs_abs key hs"
proof -
  have p: "hs_placed hs" and d: "distinct (map (\<lambda>e. key (e_data e)) (hs_entries hs))"
    using assms by (auto simp: hs_wf_def)
  note m = hs_grow_props(2) [OF p]
  have "distinct (map (\<lambda>e. key (e_data e)) (hs_entries (hs_grow hs)))"
    using d m by (metis mset_map mset_eq_imp_distinct_iff)
  with assms hs_grow_props(1) [OF p] mset_eq_setD [OF m] mset_eq_length [OF m]
  show "hs_wf hash compare key (hs_grow hs)"
    by (auto simp: hs_wf_def)
  show "hs_abs key (hs_grow hs) = hs_abs key hs"
    using m d by (rule hs_abs_mset)
qed

lemma find_slot:
  assumes wf: "hs_wf hash compare key hs"
  shows "find (hs_match hs (hash d) d) (hs_slots hs ! hs_slot_of (hs_num_slots hs) (hash d)) =
    find (\<lambda>e. key (e_data e) = key d) (hs_entries hs)" (is "find ?P ?chain = find ?Q ?all")
proof -
  let ?s = "hs_slot_of (hs_num_slots hs) (hash d)"
  have s: "?s < length (hs_slots hs)"
    using wf by (auto simp: hs_wf_def hs_placed_def intro: hs_slot_of_less)
  have sub: "set ?chain \<subseteq> set ?all"
    by (rule entries_slot_subset [OF s])
  have PQ: "?P e \<longleftrightarrow> ?Q e" if "e \<in> set ?all" for e
    using wf that hash_key [of "e_data e" d]
    by (auto simp: hs_wf_def hs_match_def compare_key)
  have dist: "distinct (map (\<lambda>e. key (e_data e)) ?all)"
    using wf by (simp add: hs_wf_def)
  have cd: "distinct (map (\<lambda>e. key (e_data e)) ?chain)"
    using dist s by (auto simp: hs_entries_def map_concat distinct_concat_iff)
  show ?thesis
  proof (cases "\<exists>e \<in> set ?all. ?Q e")
    case True
    then obtain e where e: "e \<in> set ?all" "?Q e" by blast
    have "e \<in> set ?chain"
    proof -
      from e(1) obtain i where i: "i < length (hs_slots hs)" "e \<in> set (hs_slots hs ! i)"
        by (auto simp: hs_entries_def in_set_conv_nth [of _ "hs_slots hs"])
      then have "hs_slot_of (hs_num_slots hs) (e_hash e) = i"
        using wf by (simp add: hs_wf_def hs_placed_def)
      moreover have "e_hash e = hash (e_data e)"
        using wf e by (simp add: hs_wf_def)
      moreover have "hash (e_data e) = hash d"
        using e(2) by (rule hash_key)
      ultimately show ?thesis using i by simp
    qed
    then have "find ?Q ?chain = Some e"
      using cd e(2) by (intro find_unique [where f = "\<lambda>e. key (e_data e)"]) auto
    moreover have "find ?P ?chain = find ?Q ?chain"
      using sub PQ by (intro find_cong) auto
    moreover have "find ?Q ?all = Some e"
      using dist e by (intro find_unique [where f = "\<lambda>e. key (e_data e)"]) auto
    ultimately show ?thesis by simp
  next
    case False
    with sub PQ have "find ?P ?chain = None" "find ?Q ?all = None"
      by (auto simp: find_None_iff)
    then show ?thesis by simp
  qed
qed

lemma search_abs:
  assumes "hs_wf hash compare key hs"
  shows "zbx_hashset_search hs d = hs_abs key hs (key d)"
proof -
  have "hs_hash_func hs d = hash d" using assms by (simp add: hs_wf_def)
  then show ?thesis
    using find_slot [OF assms, of d]
    by (simp add: zbx_hashset_search_def Let_def hs_abs_def map_of_find)
qed

lemma insert_present:
  assumes "hs_wf hash compare key hs" "hs_abs key hs (key d) = Some v"
  shows "zbx_hashset_insert_ext hs d cp ra ma = (hs, Some v)"
proof -
  have "hs_hash_func hs d = hash d" using assms by (simp add: hs_wf_def)
  then show ?thesis
    using find_slot [OF assms(1), of d] assms(2)
    by (auto simp: zbx_hashset_insert_ext_def Let_def hs_abs_def map_of_find)
qed

text \<open>Linking a new entry into its slot, in a table already grown if it had to.\<close>

lemma link_new:
  assumes wf: "hs_wf hash compare key hs" and new: "hs_abs key hs (key d) = None"
    and cp: "key (cp d) = key d"
  defines "s \<equiv> hs_slot_of (hs_num_slots hs) (hash d)"
  defines "hs' \<equiv> hs\<lparr>hs_slots := (hs_slots hs)[s := \<lparr>e_hash = hash d, e_data = cp d\<rparr> # hs_slots hs ! s],
    hs_num_data := hs_num_data hs + 1\<rparr>"
  shows "hs_wf hash compare key hs'" "hs_abs key hs' = (hs_abs key hs)(key d \<mapsto> cp d)"
proof -
  let ?e = "\<lparr>e_hash = hash d, e_data = cp d\<rparr>"
  have p: "hs_placed hs" using wf by (simp add: hs_wf_def)
  then have s: "s < length (hs_slots hs)" "s < hs_num_slots hs"
    by (simp_all add: s_def hs_placed_def hs_slot_of_less)
  have ms: "mset (hs_entries hs') = add_mset ?e (mset (hs_entries hs))"
    using mset_entries_update [OF s(1), of "?e # hs_slots hs ! s"] by (simp add: hs'_def hs_entries_def)
  have fresh: "key (e_data e) \<noteq> key d" if "e \<in> set (hs_entries hs)" for e
    using new that by (auto simp: hs_abs_def map_of_find find_None_iff)
  have "mset (map (\<lambda>e. key (e_data e)) (hs_entries hs')) =
      mset (key d # map (\<lambda>e. key (e_data e)) (hs_entries hs))"
    by (simp add: mset_map ms cp)
  moreover have "distinct (key d # map (\<lambda>e. key (e_data e)) (hs_entries hs))"
    using wf fresh by (force simp: hs_wf_def)
  ultimately have dist: "distinct (map (\<lambda>e. key (e_data e)) (hs_entries hs'))"
    using mset_eq_imp_distinct_iff by blast
  have set: "set (hs_entries hs') = insert ?e (set (hs_entries hs))"
    using arg_cong [OF ms, of set_mset] by simp
  have "hs_placed hs'"
    unfolding hs'_def using p s(2)
    by (intro hs_placed_update) (auto simp: hs_placed_def s_def)
  then show "hs_wf hash compare key hs'"
    using wf dist set arg_cong [OF ms, of size] hash_key [of "cp d" d] cp
    by (auto simp: hs_wf_def hs'_def)
  have "hs_abs key hs' k = Some v \<longleftrightarrow> ((hs_abs key hs)(key d \<mapsto> cp d)) k = Some v" for k v
    using wf dist fresh cp by (auto simp: hs_abs_Some set hs_wf_def)
  then show "hs_abs key hs' = (hs_abs key hs)(key d \<mapsto> cp d)"
    by (metis ext option.exhaust)
qed

lemma insert_absent:
  assumes wf: "hs_wf hash compare key hs" and new: "hs_abs key hs (key d) = None"
    and cp: "key (cp d) = key d"
    and res: "zbx_hashset_insert_ext hs d cp ra ma = (hs', r)"
  shows "hs_wf hash compare key hs'"
    "r = None \<Longrightarrow> hs_abs key hs' = hs_abs key hs"
    "r \<noteq> None \<Longrightarrow> r = Some (cp d) \<and> hs_abs key hs' = (hs_abs key hs)(key d \<mapsto> cp d)"
    "ra \<Longrightarrow> ma \<Longrightarrow> r \<noteq> None"
proof -
  define g where "g = (hs_num_slots hs * 4 div 5 \<le> hs_num_data hs + 1)"
  define hs1 where "hs1 = (if g then hs_grow hs else hs)"
  have wf1: "hs_wf hash compare key hs1" and abs1: "hs_abs key hs1 = hs_abs key hs"
    using wf wf_grow [OF wf] by (auto simp: hs1_def)
  have h: "hs_hash_func hs d = hash d" using wf by (simp add: hs_wf_def)
  have nf: "find (hs_match hs (hash d) d) (hs_slots hs ! hs_slot_of (hs_num_slots hs) (hash d)) = None"
    using find_slot [OF wf, of d] new by (simp add: hs_abs_def map_of_find)
  have run: "zbx_hashset_insert_ext hs d cp ra ma =
      (if g \<and> \<not> ra then (hs, None) else if \<not> ma then (hs1, None)
       else (let s = hs_slot_of (hs_num_slots hs1) (hash d) in
         (hs1\<lparr>hs_slots := (hs_slots hs1)[s := \<lparr>e_hash = hash d, e_data = cp d\<rparr> # hs_slots hs1 ! s],
            hs_num_data := hs_num_data hs1 + 1\<rparr>, Some (cp d))))"
    by (simp add: zbx_hashset_insert_ext_def Let_def h nf hs1_def g_def)
  note link = link_new [OF wf1, of d cp, unfolded abs1, OF new cp]
  show "hs_wf hash compare key hs'"
    using res [unfolded run] wf wf1 link(1) by (auto simp: Let_def split: if_splits)
  show "r = None \<Longrightarrow> hs_abs key hs' = hs_abs key hs"
    using res [unfolded run] abs1 by (auto simp: Let_def split: if_splits)
  show "r \<noteq> None \<Longrightarrow> r = Some (cp d) \<and> hs_abs key hs' = (hs_abs key hs)(key d \<mapsto> cp d)"
    using res [unfolded run] link(2) by (auto simp: Let_def split: if_splits)
  show "ra \<Longrightarrow> ma \<Longrightarrow> r \<noteq> None"
    using res [unfolded run] by (auto simp: Let_def split: if_splits)
qed

lemma remove_abs:
  assumes wf: "hs_wf hash compare key hs"
  shows "hs_wf hash compare key (zbx_hashset_remove hs d)"
    "hs_abs key (zbx_hashset_remove hs d) = (hs_abs key hs)(key d := None)"
proof -
  let ?s = "hs_slot_of (hs_num_slots hs) (hash d)"
  let ?P = "hs_match hs (hash d) d"
  let ?r = "zbx_hashset_remove hs d"
  have h: "hs_hash_func hs d = hash d" and p: "hs_placed hs"
    and dist: "distinct (map (\<lambda>e. key (e_data e)) (hs_entries hs))"
    using wf by (simp_all add: hs_wf_def)
  have s: "?s < length (hs_slots hs)" "?s < hs_num_slots hs"
    using p by (simp_all add: hs_placed_def hs_slot_of_less)
  note fs = find_slot [OF wf, of d]
  have "hs_wf hash compare key ?r \<and> hs_abs key ?r = (hs_abs key hs)(key d := None)"
  proof (cases "unlink_first ?P (hs_slots hs ! ?s)")
    case None
    then have "?r = hs" by (simp add: zbx_hashset_remove_def Let_def h)
    moreover have "hs_abs key hs (key d) = None"
      using None fs by (simp add: unlink_first_None hs_abs_def map_of_find)
    ultimately show ?thesis using wf by auto
  next
    case (Some c)
    then obtain e where e: "find ?P (hs_slots hs ! ?s) = Some e"
      by (metis not_Some_eq unlink_first_None option.distinct(1))
    note mc = mset_unlink_first [OF Some e]
    have r: "?r = hs\<lparr>hs_slots := (hs_slots hs)[?s := c], hs_num_data := hs_num_data hs - 1\<rparr>"
      using Some by (simp add: zbx_hashset_remove_def Let_def h)
    have ms: "mset (hs_entries hs) = add_mset e (mset (hs_entries ?r))"
      using mset_entries_update [OF s(1), of c] by (simp add: r mc hs_entries_def)
    have ke: "key (e_data e) = key d"
      using e fs by (auto simp: find_Some_iff)
    have "mset (map (\<lambda>e. key (e_data e)) (hs_entries hs)) =
        mset (key d # map (\<lambda>e. key (e_data e)) (hs_entries ?r))"
      by (simp add: mset_map ms ke)
    then have d2: "distinct (key d # map (\<lambda>e. key (e_data e)) (hs_entries ?r))"
      using dist mset_eq_imp_distinct_iff by blast
    have set: "set (hs_entries hs) = insert e (set (hs_entries ?r))"
      using arg_cong [OF ms, of set_mset] by simp
    have "set c \<subseteq> set (hs_slots hs ! ?s)"
      using arg_cong [OF mc, of set_mset] by auto
    then have "hs_placed ?r"
      unfolding r using p s by (intro hs_placed_update) (auto simp: hs_placed_def)
    then have "hs_wf hash compare key ?r"
      using wf d2 set arg_cong [OF ms, of size] by (auto simp: hs_wf_def r)
    moreover have "hs_abs key ?r k = Some v \<longleftrightarrow> ((hs_abs key hs)(key d := None)) k = Some v" for k v
      using dist d2 ke by (force simp: hs_abs_Some set)
    ultimately show ?thesis by (metis ext option.exhaust)
  qed
  then show "hs_wf hash compare key ?r" "hs_abs key ?r = (hs_abs key hs)(key d := None)"
    by blast+
qed

end

subsection \<open>Creation and clearing\<close>

lemma create_placed:
  "zbx_hashset_create_ext n h c ok = Some hs \<Longrightarrow>
   hs_placed hs \<and> hs_entries hs = [] \<and> hs_num_data hs = 0 \<and> hs_hash_func hs = h \<and> hs_compare_func hs = c"
  using next_prime_pos [of "int n"]
  by (auto simp: zbx_hashset_create_ext_def hs_placed_def hs_entries_def Let_def split: if_splits)

lemma fold_clear:
  "k \<le> length slots \<Longrightarrow>
   fold (\<lambda>slot sl. sl[slot := []]) [0..<k] slots = replicate k [] @ drop k slots"
proof (induction k)
  case (Suc k)
  then show ?case
    by (simp add: list_update_append upd_conv_take_nth_drop flip: replicate_append_same)
qed simp

lemma clear_placed:
  assumes "hs_placed hs"
  shows "hs_placed (zbx_hashset_clear hs)" "hs_entries (zbx_hashset_clear hs) = []"
  using assms by (auto simp: zbx_hashset_clear_def hs_placed_def hs_entries_def fold_clear)

context hash_keys
begin

lemma create_wf:
  assumes "zbx_hashset_create_ext n hash compare ok = Some hs"
  shows "hs_wf hash compare key hs" "hs_abs key hs = Map.empty"
  using create_placed [OF assms] by (simp_all add: hs_wf_def hs_abs_def)

lemma clear_wf:
  assumes "hs_wf hash compare key hs"
  shows "hs_wf hash compare key (zbx_hashset_clear hs)" "hs_abs key (zbx_hashset_clear hs) = Map.empty"
  using assms clear_placed [of hs] by (simp_all add: hs_wf_def hs_abs_def zbx_hashset_clear_def)

lemma num_data_card:
  assumes "hs_wf hash compare key hs"
  shows "hs_num_data hs = card (dom (hs_abs key hs))"
proof -
  have "dom (hs_abs key hs) = (\<lambda>e. key (e_data e)) ` set (hs_entries hs)"
    by (simp add: hs_abs_def dom_map_of_conv_image_fst image_image)
  moreover have "card \<dots> = length (hs_entries hs)"
    using assms distinct_card [of "map (\<lambda>e. key (e_data e)) (hs_entries hs)"]
    by (simp add: hs_wf_def)
  ultimately show ?thesis using assms by (simp add: hs_wf_def)
qed

end

text \<open>Tables of unsigned 64-bit identifiers use the default callbacks; the key is the value.\<close>

interpretation uint64_set: hash_keys zbx_default_uint64_hash_func zbx_default_uint64_compare_func "\<lambda>k. k"
  by unfold_locales auto

subsection \<open>Iteration\<close>

text \<open>
  The entries an iterator has still to visit: the rest of its chain and the later slots.
\<close>

definition iter_rest :: "'d hashset \<Rightarrow> hs_iter \<Rightarrow> 'd hs_entry list" where
  "iter_rest hs it =
    (if it_slot it = - 2 then []
     else (if it_slot it = - 1 then []
           else (case it_entry it of None \<Rightarrow> []
                 | Some p \<Rightarrow> drop (Suc p) (hs_slots hs ! nat (it_slot it))))
       @ concat (drop (nat (it_slot it + 1)) (hs_slots hs)))"

text \<open>
  States of an iterator between calls: before the first slot, finished, inside a chain, or,
  after the removal of a head entry, in front of a slot with a NULL entry.
\<close>

definition iter_ok :: "'d hashset \<Rightarrow> hs_iter \<Rightarrow> bool" where
  "iter_ok hs it \<longleftrightarrow> - 2 \<le> it_slot it \<and> it_slot it < int (hs_num_slots hs) \<and>
    (\<forall>p. it_entry it = Some p \<and> 0 \<le> it_slot it \<longrightarrow> p < length (hs_slots hs ! nat (it_slot it)))"

lemma iter_seek_spec:
  assumes "length (hs_slots hs) = hs_num_slots hs"
  shows "(case iter_seek hs k of
      None \<Rightarrow> concat (drop k (hs_slots hs)) = []
    | Some s \<Rightarrow> k \<le> s \<and> s < hs_num_slots hs \<and> hs_slots hs ! s \<noteq> [] \<and>
        concat (drop k (hs_slots hs)) = hs_slots hs ! s @ concat (drop (Suc s) (hs_slots hs)))"
  using assms
proof (induction hs k rule: iter_seek.induct)
  case (1 hs k)
  show ?case
  proof (cases "hs_num_slots hs \<le> k")
    case True
    then show ?thesis using 1 by (simp add: iter_seek.simps [of hs k])
  next
    case False
    then have d: "drop k (hs_slots hs) = hs_slots hs ! k # drop (Suc k) (hs_slots hs)"
      using "1.prems" by (simp add: Cons_nth_drop_Suc)
    show ?thesis
    proof (cases "hs_slots hs ! k = []")
      case True
      with False 1 d show ?thesis
        by (auto simp: iter_seek.simps [of hs k] split: option.splits)
    next
      case neq: False
      then show ?thesis
        using False d by (simp add: iter_seek.simps [of hs k])
    qed
  qed
qed

lemma iter_advance_spec:
  assumes "hs_placed hs" "iter_ok hs it" "it_slot it \<noteq> - 2"
    and "rest = concat (drop (nat (it_slot it + 1)) (hs_slots hs))"
  shows "(case iter_advance hs it of (it', r) \<Rightarrow> iter_ok hs it' \<and>
    (case r of None \<Rightarrow> rest = [] \<and> iter_rest hs it' = []
     | Some d \<Rightarrow> 0 \<le> it_slot it' \<and> it_entry it' \<noteq> None \<and>
         rest = hs_slots hs ! nat (it_slot it') ! the (it_entry it') # iter_rest hs it' \<and>
         d = e_data (hs_slots hs ! nat (it_slot it') ! the (it_entry it'))))"
proof -
  have len: "length (hs_slots hs) = hs_num_slots hs"
    using assms(1) by (simp add: hs_placed_def)
  note seek = iter_seek_spec [OF len, of "nat (it_slot it + 1)"]
  show ?thesis
  proof (cases "iter_seek hs (nat (it_slot it + 1))")
    case None
    then show ?thesis
      using seek assms by (simp add: iter_advance_def iter_ok_def iter_rest_def)
  next
    case (Some s)
    with seek have s: "s < hs_num_slots hs" "hs_slots hs ! s \<noteq> []"
      "rest = hs_slots hs ! s @ concat (drop (Suc s) (hs_slots hs))"
      using assms(4) by simp_all
    then have "hs_slots hs ! s = hs_slots hs ! s ! 0 # drop (Suc 0) (hs_slots hs ! s)"
      by (cases "hs_slots hs ! s") auto
    moreover have "nat (int s + 1) = Suc s" by simp
    ultimately show ?thesis
      using Some s by (simp add: iter_advance_def iter_ok_def iter_rest_def)
  qed
qed

lemma iter_next_spec:
  assumes "hs_placed hs" "iter_ok hs it" "zbx_hashset_iter_next hs it = (it', r)"
  shows "iter_ok hs it'"
    "r = None \<Longrightarrow> iter_rest hs it = [] \<and> iter_rest hs it' = []"
    "r = Some d \<Longrightarrow> \<exists>p. 0 \<le> it_slot it' \<and> it_entry it' = Some p \<and>
       p < length (hs_slots hs ! nat (it_slot it')) \<and>
       iter_rest hs it = hs_slots hs ! nat (it_slot it') ! p # iter_rest hs it' \<and>
       d = e_data (hs_slots hs ! nat (it_slot it') ! p)"
proof -
  consider (fin) "it_slot it = - 2" | (chain) p where "0 \<le> it_slot it" "it_entry it = Some p"
      "Suc p < length (hs_slots hs ! nat (it_slot it))"
    | (adv) "it_slot it \<noteq> - 2" "zbx_hashset_iter_next hs it = iter_advance hs it"
      "iter_rest hs it = concat (drop (nat (it_slot it + 1)) (hs_slots hs))"
  proof (cases "it_slot it = - 2")
    case False
    then have "- 1 \<le> it_slot it" using assms(2) by (auto simp: iter_ok_def)
    then have "it_slot it = - 1 \<or> 0 \<le> it_slot it" by auto
    with False show ?thesis
      using that(2,3)
      by (cases "it_entry it"; cases "it_slot it = - 1")
        (auto simp: zbx_hashset_iter_next_def iter_rest_def not_less split: if_splits,
         meson not_le)
  qed
  then have "iter_ok hs it' \<and> (r = None \<longrightarrow> iter_rest hs it = [] \<and> iter_rest hs it' = []) \<and>
    (r = Some d \<longrightarrow> (\<exists>p. 0 \<le> it_slot it' \<and> it_entry it' = Some p \<and>
       p < length (hs_slots hs ! nat (it_slot it')) \<and>
       iter_rest hs it = hs_slots hs ! nat (it_slot it') ! p # iter_rest hs it' \<and>
       d = e_data (hs_slots hs ! nat (it_slot it') ! p)))"
  proof cases
    case fin
    then show ?thesis
      using assms by (auto simp: zbx_hashset_iter_next_def iter_rest_def)
  next
    case chain
    then have "it_slot it \<noteq> - 1" "it_slot it \<noteq> - 2" by auto
    with chain have it': "it' = it\<lparr>it_entry := Some (Suc p)\<rparr>"
      "r = Some (e_data (hs_slots hs ! nat (it_slot it) ! Suc p))"
      using assms(3) by (auto simp: zbx_hashset_iter_next_def)
    with chain \<open>it_slot it \<noteq> - 1\<close> show ?thesis
      using assms(2) by (auto simp: iter_ok_def iter_rest_def Cons_nth_drop_Suc)
  next
    case adv
    with iter_advance_spec [OF assms(1,2) adv(1,3)] assms(3) show ?thesis
      by (fastforce simp: iter_ok_def split: option.splits)
  qed
  then show "iter_ok hs it'" "r = None \<Longrightarrow> iter_rest hs it = [] \<and> iter_rest hs it' = []"
    "r = Some d \<Longrightarrow> \<exists>p. 0 \<le> it_slot it' \<and> it_entry it' = Some p \<and>
       p < length (hs_slots hs ! nat (it_slot it')) \<and>
       iter_rest hs it = hs_slots hs ! nat (it_slot it') ! p # iter_rest hs it' \<and>
       d = e_data (hs_slots hs ! nat (it_slot it') ! p)"
    by blast+
qed

lemma iter_remove_spec:
  assumes pl: "hs_placed hs" and ok: "iter_ok hs it"
    and at: "0 \<le> it_slot it" "it_entry it = Some p" "p < length (hs_slots hs ! nat (it_slot it))"
  obtains hs' it' where "zbx_hashset_iter_remove hs it = Inr (hs', it')"
    "hs_placed hs'" "iter_ok hs' it'" "iter_rest hs' it' = iter_rest hs it"
    "mset (hs_entries hs) = add_mset (hs_slots hs ! nat (it_slot it) ! p) (mset (hs_entries hs'))"
    "hs_num_data hs' = hs_num_data hs - 1" "hs_hash_func hs' = hs_hash_func hs"
    "hs_compare_func hs' = hs_compare_func hs"
proof -
  define s where "s = nat (it_slot it)"
  define c where "c = hs_slots hs ! s"
  define c' where "c' = take p c @ drop (Suc p) c"
  define hs' where "hs' = hs\<lparr>hs_slots := (hs_slots hs)[s := c'], hs_num_data := hs_num_data hs - 1\<rparr>"
  define it' where "it' = (if p = 0 then it\<lparr>it_slot := it_slot it - 1, it_entry := None\<rparr>
    else it\<lparr>it_entry := Some (p - 1)\<rparr>)"
  have slot: "it_slot it = int s" using at(1) by (simp add: s_def)
  have s: "s < hs_num_slots hs" "s < length (hs_slots hs)"
    using ok pl slot by (auto simp: iter_ok_def hs_placed_def)
  have p: "p < length c" using at(3) by (simp add: c_def s_def)
  have c: "c = take p c @ c ! p # drop (Suc p) c"
    by (rule id_take_nth_drop [OF p])
  have mc: "mset c = add_mset (c ! p) (mset c')"
    by (subst c) (simp add: c'_def)
  have run: "zbx_hashset_iter_remove hs it = Inr (hs', it')"
    using at slot by (auto simp: zbx_hashset_iter_remove_def hs'_def it'_def c'_def c_def Let_def)
  have "set c' \<subseteq> set c"
    by (auto simp: c'_def dest: in_set_takeD in_set_dropD)
  then have "hs_placed hs'"
    unfolding hs'_def using pl s by (intro hs_placed_update) (auto simp: hs_placed_def c_def)
  moreover have "iter_ok hs' it'"
    using ok pl p s slot by (auto simp: iter_ok_def hs'_def it'_def c'_def hs_placed_def nth_list_update)
  moreover have "iter_rest hs' it' = iter_rest hs it"
  proof (cases "p = 0")
    case True
    have "drop s ((hs_slots hs)[s := c']) = c' # drop (Suc s) (hs_slots hs)"
      using s by (simp add: drop_update_cancel Cons_nth_drop_Suc [symmetric])
    then show ?thesis
      using True slot at(2) p by (auto simp: iter_rest_def it'_def hs'_def c'_def c_def nat_add_distrib)
  next
    case False
    then have "drop p c' = drop (Suc p) c"
      using p by (simp add: c'_def)
    then show ?thesis
      using False slot at(2) s by (simp add: iter_rest_def it'_def hs'_def c_def nat_add_distrib)
  qed
  moreover have "mset (hs_entries hs) = add_mset (c ! p) (mset (hs_entries hs'))"
    using mset_entries_update [OF s(2), of c'] mc by (simp add: hs'_def hs_entries_def c_def)
  ultimately show thesis
    using run that [of hs' it'] by (simp add: c_def s_def) (simp add: hs'_def)
qed

text \<open>
  The loop every client of the iterator writes: visit each entry and remove those that satisfy a
  condition. It returns the table and the data in the order of the visits.
\<close>

partial_function (option) hs_sweep ::
  "('d \<Rightarrow> bool) \<Rightarrow> 'd hashset \<Rightarrow> hs_iter \<Rightarrow> ('d hashset \<times> 'd list) option" where
  "hs_sweep P hs it =
    (case zbx_hashset_iter_next hs it of
       (it1, None) \<Rightarrow> Some (hs, [])
     | (it1, Some d) \<Rightarrow>
         (if P d then
            (case zbx_hashset_iter_remove hs it1 of
               Inl e \<Rightarrow> None
             | Inr (hs2, it2) \<Rightarrow> Option.bind (hs_sweep P hs2 it2) (\<lambda>(h, v). Some (h, d # v)))
          else Option.bind (hs_sweep P hs it1) (\<lambda>(h, v). Some (h, d # v))))"

lemma hs_sweep_spec:
  assumes "hs_placed hs" "iter_ok hs it" "hs_num_data hs = length (hs_entries hs)"
  shows "\<exists>hs' vis. hs_sweep P hs it = Some (hs', vis) \<and> vis = map e_data (iter_rest hs it) \<and>
    hs_placed hs' \<and> hs_num_data hs' = length (hs_entries hs') \<and>
    hs_hash_func hs' = hs_hash_func hs \<and> hs_compare_func hs' = hs_compare_func hs \<and>
    mset (hs_entries hs) =
      mset (hs_entries hs') + mset (filter (\<lambda>e. P (e_data e)) (iter_rest hs it))"
  using assms
proof (induction "length (iter_rest hs it)" arbitrary: hs it rule: less_induct)
  case less
  obtain it1 r where next1: "zbx_hashset_iter_next hs it = (it1, r)" by fastforce
  note spec = iter_next_spec [OF less.prems(1,2) next1]
  show ?case
  proof (cases r)
    case None
    then show ?thesis
      using spec(2) next1 less.prems by (subst hs_sweep.simps) simp
  next
    case (Some d)
    from spec(3) [OF Some] obtain p where
      at: "0 \<le> it_slot it1" "it_entry it1 = Some p" "p < length (hs_slots hs ! nat (it_slot it1))"
      and rest: "iter_rest hs it = hs_slots hs ! nat (it_slot it1) ! p # iter_rest hs it1"
      and d: "d = e_data (hs_slots hs ! nat (it_slot it1) ! p)"
      by blast
    show ?thesis
    proof (cases "P d")
      case True
      from iter_remove_spec [OF less.prems(1) spec(1) at] obtain hs2 it2 where
        rem: "zbx_hashset_iter_remove hs it1 = Inr (hs2, it2)"
        and hs2: "hs_placed hs2" "iter_ok hs2 it2" "iter_rest hs2 it2 = iter_rest hs it1"
        and ms: "mset (hs_entries hs) =
          add_mset (hs_slots hs ! nat (it_slot it1) ! p) (mset (hs_entries hs2))"
        and nd: "hs_num_data hs2 = hs_num_data hs - 1"
        and fs: "hs_hash_func hs2 = hs_hash_func hs" "hs_compare_func hs2 = hs_compare_func hs"
        by blast
      have "hs_num_data hs2 = length (hs_entries hs2)"
        using arg_cong [OF ms, of size] nd less.prems(3) by simp
      with less.hyps [of hs2 it2] hs2 rest obtain hs' vis where
        "hs_sweep P hs2 it2 = Some (hs', vis)" "vis = map e_data (iter_rest hs it1)" "hs_placed hs'"
        "hs_num_data hs' = length (hs_entries hs')" "hs_hash_func hs' = hs_hash_func hs2"
        "hs_compare_func hs' = hs_compare_func hs2"
        "mset (hs_entries hs2) =
          mset (hs_entries hs') + mset (filter (\<lambda>e. P (e_data e)) (iter_rest hs it1))"
        by auto
      moreover from this have "hs_sweep P hs it = Some (hs', d # vis)"
        using next1 Some True rem by (subst hs_sweep.simps) simp
      ultimately show ?thesis
        using rest d True ms fs by simp
    next
      case False
      from less.hyps [of hs it1] less.prems spec(1) rest obtain hs' vis where
        "hs_sweep P hs it1 = Some (hs', vis)" "vis = map e_data (iter_rest hs it1)" "hs_placed hs'"
        "hs_num_data hs' = length (hs_entries hs')" "hs_hash_func hs' = hs_hash_func hs"
        "hs_compare_func hs' = hs_compare_func hs"
        "mset (hs_entries hs) =
          mset (hs_entries hs') + mset (filter (\<lambda>e. P (e_data e)) (iter_rest hs it1))"
        by auto
      moreover from this have "hs_sweep P hs it = Some (hs', d # vis)"
        using next1 Some False by (subst hs_sweep.simps) simp
      ultimately show ?thesis
        using rest d False by simp
    qed
  qed
qed

lemma iter_reset_rest:
  "iter_ok hs zbx_hashset_iter_reset" "iter_rest hs zbx_hashset_iter_reset = hs_entries hs"
  by (simp_all add: zbx_hashset_iter_reset_def iter_ok_def iter_rest_def hs_entries_def)

subsection \<open>Properties\<close>

text \<open>
  C4. An insertion into a well-formed table keeps it well formed, also when the table is
  resized in place. If the key is present nothing changes and the stored data is returned; if it
  is absent, either an allocation failed and the abstract map is unchanged, or the new data is
  returned and the map is extended by exactly that key.
\<close>

theorem hashset_insert_refines:
  assumes "hash_keys hash compare key" and "hs_wf hash compare key hs" and "key (cp d) = key d"
    and "zbx_hashset_insert_ext hs d cp ra ma = (hs', r)"
  shows "hs_wf hash compare key hs' \<and>
    (case hs_abs key hs (key d) of
       Some v \<Rightarrow> hs' = hs \<and> r = Some v
     | None \<Rightarrow> (r = None \<and> (\<not> ra \<or> \<not> ma) \<and> hs_abs key hs' = hs_abs key hs) \<or>
         (r = Some (cp d) \<and> hs_abs key hs' = (hs_abs key hs)(key d \<mapsto> cp d)))"
proof (cases "hs_abs key hs (key d)")
  case None
  note ins = hash_keys.insert_absent [OF assms(1,2) None assms(3,4)]
  show ?thesis
    using ins None by (cases r) auto
next
  case (Some v)
  with hash_keys.insert_present [OF assms(1,2) Some, of cp ra ma] assms(2,4) show ?thesis
    by simp
qed

text \<open>
  C6. Search returns exactly the data stored for the key, removal deletes exactly that key and
  keeps the table well formed, and the element counter is the number of keys.
\<close>

theorem hashset_search_remove_refine:
  assumes "hash_keys hash compare key" and "hs_wf hash compare key hs"
  shows "zbx_hashset_search hs d = hs_abs key hs (key d) \<and>
    hs_wf hash compare key (zbx_hashset_remove hs d) \<and>
    hs_abs key (zbx_hashset_remove hs d) = (hs_abs key hs)(key d := None) \<and>
    hs_num_data hs = card (dom (hs_abs key hs))"
  using hash_keys.search_abs [OF assms] hash_keys.remove_abs [OF assms]
    hash_keys.num_data_card [OF assms] by blast

text \<open>
  C5. The iterate-and-remove loop terminates on every well-formed table, visits every entry
  exactly once in slot order although it removes entries while it goes, and leaves exactly the
  entries that fail the condition.
\<close>

theorem hashset_sweep_visits_each_once:
  assumes "hs_wf hash compare key hs"
  shows "\<exists>hs'. hs_sweep P hs zbx_hashset_iter_reset = Some (hs', map e_data (hs_entries hs)) \<and>
    hs_wf hash compare key hs' \<and>
    mset (hs_entries hs') = mset (filter (\<lambda>e. \<not> P (e_data e)) (hs_entries hs))"
proof -
  have "hs_placed hs" "hs_num_data hs = length (hs_entries hs)"
    using assms by (simp_all add: hs_wf_def)
  from hs_sweep_spec [OF this(1) iter_reset_rest(1) this(2), of P] obtain hs' where
    run: "hs_sweep P hs zbx_hashset_iter_reset = Some (hs', map e_data (hs_entries hs))"
    and pl: "hs_placed hs'" "hs_num_data hs' = length (hs_entries hs')"
      "hs_hash_func hs' = hs_hash_func hs" "hs_compare_func hs' = hs_compare_func hs"
    and ms: "mset (hs_entries hs) =
      mset (hs_entries hs') + mset (filter (\<lambda>e. P (e_data e)) (hs_entries hs))"
    by (auto simp: iter_reset_rest(2))
  have left: "mset (hs_entries hs') = mset (filter (\<lambda>e. \<not> P (e_data e)) (hs_entries hs))"
    using ms mset_filter_split [of "hs_entries hs" "\<lambda>e. P (e_data e)"]
    by (metis add.commute add_left_cancel)
  then have set: "set (hs_entries hs') \<subseteq> set (hs_entries hs)"
    by (metis mset_eq_setD filter_is_subset)
  have "mset (map (\<lambda>e. key (e_data e)) (hs_entries hs')) =
      mset (map (\<lambda>e. key (e_data e)) (filter (\<lambda>e. \<not> P (e_data e)) (hs_entries hs)))"
    by (simp only: mset_map left)
  moreover have "distinct (map (\<lambda>e. key (e_data e)) (filter (\<lambda>e. \<not> P (e_data e)) (hs_entries hs)))"
    using assms by (simp add: hs_wf_def distinct_map_filter)
  ultimately have "distinct (map (\<lambda>e. key (e_data e)) (hs_entries hs'))"
    using mset_eq_imp_distinct_iff by blast
  with assms pl set have "hs_wf hash compare key hs'"
    by (auto simp: hs_wf_def)
  with run left show ?thesis by blast
qed

definition hs_example :: "u64 hashset" where
  "hs_example = \<lparr>hs_slots = [[], []], hs_num_slots = 2, hs_num_data = 0,
    hs_hash_func = zbx_default_uint64_hash_func, hs_compare_func = zbx_default_uint64_compare_func\<rparr>"

lemma hs_example_wf:
  "hs_wf zbx_default_uint64_hash_func zbx_default_uint64_compare_func (\<lambda>k. k) hs_example"
  by (auto simp: hs_example_def hs_wf_def hs_placed_def hs_entries_def less_Suc_eq numeral_2_eq_2)

lemma hs_example_empty: "hs_abs (\<lambda>k. k) hs_example = Map.empty"
  by (simp add: hs_example_def hs_abs_def hs_entries_def)

lemma modfnv_3: "zbx_default_uint64_hash_func 3 = 1735405328"
  by code_simp

lemma modfnv_8: "zbx_default_uint64_hash_func 8 = 1231759954"
  by code_simp

text \<open>Two insertions into a table of two slots; each of them makes it grow.\<close>

definition hs_example2 :: "u64 hashset" where
  "hs_example2 = fst (zbx_hashset_insert (fst (zbx_hashset_insert hs_example 3 True True)) 8 True True)"

lemmas hs_run = zbx_hashset_insert_def zbx_hashset_insert_ext_def hs_example_def Let_def hs_grow_def
  hs_inc_slots_def next_prime.simps is_prime_def is_prime_loop.simps hs_slot_of_def rehash_slots_def
  upt_rec hs_match_def modfnv_3 modfnv_8

lemma hs_example2_entries: "map e_data (hs_entries hs_example2) = [3, 8]"
  by (simp add: hs_example2_def hs_entries_def hs_run) (simp add: numeral_2_eq_2)

lemma hs_example2_wf:
  "hs_wf zbx_default_uint64_hash_func zbx_default_uint64_compare_func (\<lambda>k. k) hs_example2"
proof -
  have ins: "hs_wf zbx_default_uint64_hash_func zbx_default_uint64_compare_func (\<lambda>k. k)
      (fst (zbx_hashset_insert hs d ra ma))"
    if "hs_wf zbx_default_uint64_hash_func zbx_default_uint64_compare_func (\<lambda>k. k) hs" for hs d ra ma
  proof (cases "hs_abs (\<lambda>k. k) hs d")
    case None
    with that show ?thesis
      using uint64_set.insert_absent(1) [OF that None, of "\<lambda>d. d" ra ma]
      by (simp add: zbx_hashset_insert_def) (metis prod.collapse)
  next
    case (Some v)
    with that show ?thesis
      using uint64_set.insert_present [OF that, of d v "\<lambda>d. d" ra ma]
      by (simp add: zbx_hashset_insert_def)
  qed
  show ?thesis
    unfolding hs_example2_def by (intro ins hs_example_wf)
qed

lemma hs_example2_abs: "hs_abs (\<lambda>k. k) hs_example2 = [8 \<mapsto> 8, 3 \<mapsto> 3]"
proof -
  have "hs_abs (\<lambda>k. k) hs = map_of (map (\<lambda>d. (d, d)) (map e_data (hs_entries hs)))" for hs :: "u64 hashset"
    by (simp add: hs_abs_def comp_def)
  from this [of hs_example2] show ?thesis
    by (simp only: hs_example2_entries) (simp add: fun_eq_iff)
qed

theorem hashset_insert_refines_witness:
  "\<exists>hs' r. zbx_hashset_insert_ext hs_example2 42 (\<lambda>d. d) True True = (hs', r) \<and>
    hs_abs (\<lambda>k. k) hs' = [8 \<mapsto> 8, 3 \<mapsto> 3, 42 \<mapsto> 42]"
proof -
  obtain hs' r where run: "zbx_hashset_insert_ext hs_example2 42 (\<lambda>d. d) True True = (hs', r)"
    by fastforce
  from hashset_insert_refines [OF uint64_set.hash_keys_axioms hs_example2_wf refl run]
  show ?thesis using run by (simp add: hs_example2_abs)
qed

theorem hashset_search_remove_refine_witness:
  "zbx_hashset_search hs_example2 3 = Some 3 \<and>
    hs_abs (\<lambda>k. k) (zbx_hashset_remove hs_example2 3) = [8 \<mapsto> 8]"
  using hashset_search_remove_refine [OF uint64_set.hash_keys_axioms hs_example2_wf, of 3]
  by (simp add: hs_example2_abs fun_eq_iff)

theorem hashset_sweep_visits_each_once_witness:
  "\<exists>hs'. hs_sweep (\<lambda>d. d = 3) hs_example2 zbx_hashset_iter_reset = Some (hs', [3, 8]) \<and>
    mset (map e_data (hs_entries hs')) = {#8#}"
proof -
  from hashset_sweep_visits_each_once [OF hs_example2_wf, of "\<lambda>d. d = 3"] obtain hs' where
    run: "hs_sweep (\<lambda>d. d = 3) hs_example2 zbx_hashset_iter_reset = Some (hs', [3, 8])"
    and left: "mset (hs_entries hs') = mset (filter (\<lambda>e. e_data e \<noteq> 3) (hs_entries hs_example2))"
    by (auto simp: hs_example2_entries)
  have "mset (map e_data (hs_entries hs')) =
      mset (filter (\<lambda>d. d \<noteq> 3) (map e_data (hs_entries hs_example2)))"
    by (simp add: left filter_map comp_def)
  with run show ?thesis by (simp add: hs_example2_entries)
qed

end
