(* ===== verification/HashMap.thy ===== *)
theory HashMap
  imports HashSet
begin

text \<open>
  \<^verbatim>\<open>src/libs/zbxalgo/hashmap.c\<close>: the hash table from 64-bit keys to non-negative integers that
  the direct binary heap uses as its key index. A slot is an array of entries with an allocated
  capacity; \<^verbatim>\<open>entries == NULL\<close> is capacity 0.
\<close>

subsection \<open>State\<close>

record hm_entry =
  hk_key :: u64
  hk_value :: int

record hm_slot =
  hm_entries :: "hm_entry list"
  hm_entries_alloc :: nat

record hashmap =
  hm_slots :: "hm_slot list"
  hm_num_slots :: nat
  hm_num_data :: nat
  hm_hash_func :: "u64 \<Rightarrow> zbx_hash_t"
  hm_compare_func :: "u64 \<Rightarrow> u64 \<Rightarrow> int"

definition hm_empty_slot :: hm_slot where
  "hm_empty_slot = \<lparr>hm_entries = [], hm_entries_alloc = 0\<rparr>"

subsection \<open>Operations\<close>

definition hashmap_ensure_free_entry :: "hm_slot \<Rightarrow> hm_slot" where
  "hashmap_ensure_free_entry slot =
    (if hm_entries_alloc slot = 0 then \<lparr>hm_entries = [], hm_entries_alloc = 6\<rparr>
     else if length (hm_entries slot) = hm_entries_alloc slot then
       slot\<lparr>hm_entries_alloc := max (hm_entries_alloc slot + 1) (hm_entries_alloc slot * 2)\<rparr>
     else slot)"

definition hm_push :: "hm_entry \<Rightarrow> hm_slot \<Rightarrow> hm_slot" where
  "hm_push e slot =
    (let slot1 = hashmap_ensure_free_entry slot in slot1\<lparr>hm_entries := hm_entries slot1 @ [e]\<rparr>)"

definition zbx_hashmap_create_ext ::
  "nat \<Rightarrow> (u64 \<Rightarrow> zbx_hash_t) \<Rightarrow> (u64 \<Rightarrow> u64 \<Rightarrow> int) \<Rightarrow> hashmap" where
  "zbx_hashmap_create_ext init_size hash_func compare_func =
    (let n = nat (next_prime (int init_size))
     in \<lparr>hm_slots = replicate n hm_empty_slot, hm_num_slots = n, hm_num_data = 0,
         hm_hash_func = hash_func, hm_compare_func = compare_func\<rparr>)"

definition zbx_hashmap_create :: "nat \<Rightarrow> hashmap" where
  "zbx_hashmap_create init_size =
    zbx_hashmap_create_ext init_size zbx_default_uint64_hash_func zbx_default_uint64_compare_func"

text \<open>The linear search that get, set and remove share: the first matching index, or the length.\<close>

fun hm_index :: "(u64 \<Rightarrow> u64 \<Rightarrow> int) \<Rightarrow> u64 \<Rightarrow> hm_entry list \<Rightarrow> nat" where
  "hm_index cmp key [] = 0"
| "hm_index cmp key (e # es) = (if cmp (hk_key e) key = 0 then 0 else Suc (hm_index cmp key es))"

definition hm_slot_of :: "hashmap \<Rightarrow> u64 \<Rightarrow> nat" where
  "hm_slot_of hm key = unat (hm_hash_func hm key) mod hm_num_slots hm"

definition zbx_hashmap_get :: "hashmap \<Rightarrow> u64 \<Rightarrow> int" where
  "zbx_hashmap_get hm key =
    (let es = hm_entries (hm_slots hm ! hm_slot_of hm key);
         i = hm_index (hm_compare_func hm) key es
     in if i < length es then hk_value (es ! i) else FAIL)"

text \<open>
  Rehashing one slot: an entry that belongs elsewhere is pushed there, the last entry takes its
  place and is examined next (\<^verbatim>\<open>i--\<close>).
\<close>

function hm_rehash_slot ::
  "(u64 \<Rightarrow> zbx_hash_t) \<Rightarrow> nat \<Rightarrow> nat \<Rightarrow> nat \<Rightarrow> hm_entry list \<Rightarrow> hm_slot list \<Rightarrow> hm_slot list" where
  "hm_rehash_slot hash inc_slots s i es slots =
    (if i < length es then
       (let new_slot = unat (hash (hk_key (es ! i))) mod inc_slots
        in if s \<noteq> new_slot then
             hm_rehash_slot hash inc_slots s i (butlast (es[i := last es]))
               (slots[new_slot := hm_push (es ! i) (slots ! new_slot)])
           else hm_rehash_slot hash inc_slots s (Suc i) es slots)
     else slots[s := (slots ! s)\<lparr>hm_entries := es\<rparr>])"
  by pat_completeness auto
termination
  by (relation "measure (\<lambda>(hash, inc, s, i, es, slots). length es - i)") auto

declare hm_rehash_slot.simps [simp del]

definition hm_rehash :: "hashmap \<Rightarrow> hashmap" where
  "hm_rehash hm =
    (let inc_slots = hs_inc_slots (hm_num_slots hm);
         slots = hm_slots hm @ replicate (inc_slots - hm_num_slots hm) hm_empty_slot
     in hm\<lparr>hm_slots := fold (\<lambda>s sl. hm_rehash_slot (hm_hash_func hm) inc_slots s 0 (hm_entries (sl ! s)) sl)
             [0..<hm_num_slots hm] slots,
           hm_num_slots := inc_slots\<rparr>)"

definition zbx_hashmap_set :: "hashmap \<Rightarrow> u64 \<Rightarrow> int \<Rightarrow> hashmap" where
  "zbx_hashmap_set hm key value =
    (let n = hm_slot_of hm key;
         slot = hm_slots hm ! n;
         i = hm_index (hm_compare_func hm) key (hm_entries slot)
     in if i < length (hm_entries slot) then
          hm\<lparr>hm_slots := (hm_slots hm)[n := slot\<lparr>hm_entries :=
            (hm_entries slot)[i := (hm_entries slot ! i)\<lparr>hk_value := value\<rparr>]\<rparr>]\<rparr>
        else
          (let hm1 = hm\<lparr>hm_slots := (hm_slots hm)[n := hm_push \<lparr>hk_key = key, hk_value = value\<rparr> slot],
                        hm_num_data := hm_num_data hm + 1\<rparr>
           in if hm_num_slots hm1 * 5 \<le> hm_num_data hm1 then hm_rehash hm1 else hm1))"

definition zbx_hashmap_remove :: "hashmap \<Rightarrow> u64 \<Rightarrow> hashmap" where
  "zbx_hashmap_remove hm key =
    (let n = hm_slot_of hm key;
         slot = hm_slots hm ! n;
         es = hm_entries slot;
         i = hm_index (hm_compare_func hm) key es
     in if i < length es then
          hm\<lparr>hm_slots := (hm_slots hm)[n := slot\<lparr>hm_entries := butlast (es[i := last es])\<rparr>],
             hm_num_data := hm_num_data hm - 1\<rparr>
        else hm)"

definition zbx_hashmap_clear :: "hashmap \<Rightarrow> hashmap" where
  "zbx_hashmap_clear hm =
    hm\<lparr>hm_slots := map (\<lambda>slot. if hm_entries_alloc slot \<noteq> 0 then hm_empty_slot else slot) (hm_slots hm),
       hm_num_data := 0\<rparr>"

subsection \<open>Well-formedness and the abstract map\<close>

definition hm_all :: "hm_slot list \<Rightarrow> hm_entry list" where
  "hm_all slots = concat (map hm_entries slots)"

definition hm_slot_ok :: "hm_slot \<Rightarrow> bool" where
  "hm_slot_ok slot \<longleftrightarrow> length (hm_entries slot) \<le> hm_entries_alloc slot"

definition hm_abs :: "hashmap \<Rightarrow> u64 \<rightharpoonup> int" where
  "hm_abs hm = map_of (map (\<lambda>e. (hk_key e, hk_value e)) (hm_all (hm_slots hm)))"

definition hm_wf :: "(u64 \<Rightarrow> zbx_hash_t) \<Rightarrow> (u64 \<Rightarrow> u64 \<Rightarrow> int) \<Rightarrow> hashmap \<Rightarrow> bool" where
  "hm_wf hash compare hm \<longleftrightarrow>
    hm_hash_func hm = hash \<and> hm_compare_func hm = compare \<and>
    length (hm_slots hm) = hm_num_slots hm \<and> 0 < hm_num_slots hm \<and>
    (\<forall>i < hm_num_slots hm. \<forall>e \<in> set (hm_entries (hm_slots hm ! i)).
       unat (hash (hk_key e)) mod hm_num_slots hm = i) \<and>
    (\<forall>slot \<in> set (hm_slots hm). hm_slot_ok slot) \<and>
    distinct (map hk_key (hm_all (hm_slots hm))) \<and>
    hm_num_data hm = length (hm_all (hm_slots hm))"

lemma hm_entries_push [simp]: "hm_slot_ok slot \<Longrightarrow> hm_entries (hm_push e slot) = hm_entries slot @ [e]"
  by (auto simp: hm_push_def hashmap_ensure_free_entry_def hm_slot_ok_def Let_def)

lemma hm_slot_ok_push: "hm_slot_ok slot \<Longrightarrow> hm_slot_ok (hm_push e slot)"
  by (auto simp: hm_push_def hashmap_ensure_free_entry_def hm_slot_ok_def Let_def)

lemma mset_hm_all_update:
  "i < length slots \<Longrightarrow>
   mset (hm_all (slots[i := x])) + mset (hm_entries (slots ! i)) = mset (hm_all slots) + mset (hm_entries x)"
  using mset_concat_update [of i "map hm_entries slots" "hm_entries x"]
  by (simp add: hm_all_def map_update)

lemma hm_index_le: "hm_index cmp k es \<le> length es"
  by (induction es) auto

lemma hm_index_less:
  "hm_index cmp k es < length es \<Longrightarrow> cmp (hk_key (es ! hm_index cmp k es)) k = 0"
  by (induction es) auto

lemma hm_index_end:
  "\<not> hm_index cmp k es < length es \<Longrightarrow> e \<in> set es \<Longrightarrow> cmp (hk_key e) k \<noteq> 0"
  by (induction es) (auto split: if_splits)

subsection \<open>Rehashing\<close>

lemma length_hm_rehash_slot [simp]: "length (hm_rehash_slot hash n s i es slots) = length slots"
  by (induction hash n s i es slots rule: hm_rehash_slot.induct)
    (subst hm_rehash_slot.simps, simp add: Let_def)

lemma set_swap_remove: "i < length es \<Longrightarrow> set (butlast (es[i := last es])) \<subseteq> set es"
  using mset_swap_remove [of i es] by (metis insert_subset set_mset_add_mset_insert set_mset_mset subset_insertI)

text \<open>
  Processing one slot: every slot other than \<open>s\<close> only gains entries that belong to it, what
  is left in \<open>s\<close> belongs there, and no entry is lost or duplicated.
\<close>

lemma hm_rehash_slot_spec:
  assumes "0 < n" "n \<le> length slots" "s < length slots" "\<forall>slot \<in> set slots. hm_slot_ok slot"
    and "length es \<le> hm_entries_alloc (slots ! s)"
    and "\<forall>k < i. k < length es \<longrightarrow> unat (hash (hk_key (es ! k))) mod n = s"
    and "r = hm_rehash_slot hash n s i es slots"
  shows "(\<forall>slot \<in> set r. hm_slot_ok slot) \<and>
    (\<forall>e \<in> set (hm_entries (r ! s)). unat (hash (hk_key e)) mod n = s) \<and>
    (\<forall>j < length slots. j \<noteq> s \<longrightarrow> (\<forall>e \<in> set (hm_entries (r ! j)).
       e \<in> set (hm_entries (slots ! j)) \<or> unat (hash (hk_key e)) mod n = j)) \<and>
    mset (hm_all r) + mset (hm_entries (slots ! s)) = mset (hm_all slots) + mset es"
  using assms
proof (induction hash n s i es slots rule: hm_rehash_slot.induct)
  case (1 hash n s i es slots)
  let ?P = "\<lambda>j e. unat (hash (hk_key e)) mod n = j"
  show ?case
  proof (cases "i < length es")
    case False
    then have r: "r = slots[s := (slots ! s)\<lparr>hm_entries := es\<rparr>]"
      using "1.prems"(7) by (simp add: hm_rehash_slot.simps [of hash n s i es slots])
    have "\<forall>e \<in> set es. ?P s e"
      using "1.prems"(6) False by (auto simp: in_set_conv_nth)
    moreover have "hm_slot_ok ((slots ! s)\<lparr>hm_entries := es\<rparr>)"
      using "1.prems"(5) by (simp add: hm_slot_ok_def)
    ultimately show ?thesis
      using "1.prems"(3,4) mset_hm_all_update [of s slots "(slots ! s)\<lparr>hm_entries := es\<rparr>"]
      by (auto simp: r nth_list_update dest!: subsetD [OF set_update_subset_insert])
  next
    case True
    define t where "t = unat (hash (hk_key (es ! i))) mod n"
    have t: "t < length slots" using "1.prems"(1,2) by (simp add: t_def less_le_trans [OF mod_less_divisor])
    show ?thesis
    proof (cases "s = t")
      case st: True
      have "\<forall>k < Suc i. k < length es \<longrightarrow> ?P s (es ! k)"
        using "1.prems"(6) st by (auto simp: less_Suc_eq t_def)
      moreover have "hm_rehash_slot hash n s i es slots = hm_rehash_slot hash n s (Suc i) es slots"
        by (subst hm_rehash_slot.simps) (use True st in \<open>simp add: t_def Let_def\<close>)
      then have "r = hm_rehash_slot hash n s (Suc i) es slots" using "1.prems"(7) by simp
      moreover have "\<not> s \<noteq> unat (hash (hk_key (es ! i))) mod n" using st by (simp add: t_def)
      ultimately show ?thesis
        using "1.IH"(2) [OF True refl _ "1.prems"(1-5)] by blast
    next
      case st: False
      let ?es = "butlast (es[i := last es])"
      let ?slots = "slots[t := hm_push (es ! i) (slots ! t)]"
      have okt: "hm_slot_ok (slots ! t)" using "1.prems"(4) t by simp
      have r: "r = hm_rehash_slot hash n s i ?es ?slots"
        using "1.prems"(7) True st by (simp add: hm_rehash_slot.simps [of hash n s i es slots] t_def Let_def)
      have ok: "\<forall>slot \<in> set ?slots. hm_slot_ok slot"
        using "1.prems"(4) hm_slot_ok_push [OF okt] by (auto dest!: subsetD [OF set_update_subset_insert])
      have pre: "\<forall>k < i. k < length ?es \<longrightarrow> ?P s (?es ! k)"
        using "1.prems"(6) True by (auto simp: nth_butlast)
      have alloc: "length ?es \<le> hm_entries_alloc (?slots ! s)"
        using "1.prems"(5) st by simp
      have IH: "(\<forall>slot \<in> set r. hm_slot_ok slot) \<and> (\<forall>e \<in> set (hm_entries (r ! s)). ?P s e) \<and>
        (\<forall>j < length ?slots. j \<noteq> s \<longrightarrow> (\<forall>e \<in> set (hm_entries (r ! j)).
          e \<in> set (hm_entries (?slots ! j)) \<or> ?P j e)) \<and>
        mset (hm_all r) + mset (hm_entries (?slots ! s)) = mset (hm_all ?slots) + mset ?es"
        using "1.IH"(1) [OF True refl, folded t_def, OF st] "1.prems"(1-3) ok alloc pre r by simp
      have "\<forall>e \<in> set (hm_entries (?slots ! j)). e \<in> set (hm_entries (slots ! j)) \<or> ?P j e"
        if "j < length slots" for j
        using okt that by (cases "j = t") (auto simp: t_def)
      moreover have "mset (hm_all r) + mset (hm_entries (slots ! s)) = mset (hm_all slots) + mset es"
      proof -
        have "mset (hm_all ?slots) = add_mset (es ! i) (mset (hm_all slots))"
          using mset_hm_all_update [OF t, of "hm_push (es ! i) (slots ! t)"] okt by simp
        with IH st show ?thesis
          using mset_swap_remove [OF True] by simp
      qed
      ultimately show ?thesis using IH by simp blast
    qed
  qed
qed

definition hm_settled :: "(u64 \<Rightarrow> zbx_hash_t) \<Rightarrow> nat \<Rightarrow> nat \<Rightarrow> nat \<Rightarrow> hm_slot list \<Rightarrow> bool" where
  "hm_settled hash n k m slots \<longleftrightarrow> length slots = n \<and> (\<forall>slot \<in> set slots. hm_slot_ok slot) \<and>
    (\<forall>j < n. j < k \<or> m \<le> j \<longrightarrow> (\<forall>e \<in> set (hm_entries (slots ! j)). unat (hash (hk_key e)) mod n = j))"

lemma hm_rehash_prefix:
  assumes "0 < n" "m \<le> n" "hm_settled hash n 0 m slots" "k \<le> m"
    and "r = fold (\<lambda>s sl. hm_rehash_slot hash n s 0 (hm_entries (sl ! s)) sl) [0..<k] slots"
  shows "hm_settled hash n k m r \<and> mset (hm_all r) = mset (hm_all slots)"
  using assms(4,5)
proof (induction k arbitrary: r)
  case 0
  then show ?case using assms(3) by simp
next
  case (Suc k)
  define q where "q = fold (\<lambda>s sl. hm_rehash_slot hash n s 0 (hm_entries (sl ! s)) sl) [0..<k] slots"
  have r: "r = hm_rehash_slot hash n k 0 (hm_entries (q ! k)) q"
    using Suc.prems(2) by (simp add: q_def)
  from Suc.IH [OF _ q_def] Suc.prems(1)
  have q: "hm_settled hash n k m q" "mset (hm_all q) = mset (hm_all slots)" by simp_all
  have k: "k < n" "k < length q" "length q = n" using Suc.prems(1) assms(2) q(1) by (auto simp: hm_settled_def)
  have ok: "\<forall>slot \<in> set q. hm_slot_ok slot" using q(1) by (simp add: hm_settled_def)
  have alloc: "length (hm_entries (q ! k)) \<le> hm_entries_alloc (q ! k)"
    using ok k(2) by (simp add: hm_slot_ok_def)
  note spec = hm_rehash_slot_spec [OF assms(1) eq_imp_le [OF k(3) [symmetric]] k(2) ok alloc _ r]
  have "hm_settled hash n (Suc k) m r"
    unfolding hm_settled_def
  proof (intro conjI allI impI)
    show "length r = n" by (simp add: r k(3))
    show "\<forall>slot \<in> set r. hm_slot_ok slot" using spec by simp
    fix j assume j: "j < n" "j < Suc k \<or> m \<le> j"
    show "\<forall>e \<in> set (hm_entries (r ! j)). unat (hash (hk_key e)) mod n = j"
    proof (cases "j = k")
      case False
      with j have "j < k \<or> m \<le> j" by auto
      with j q(1) have "\<forall>e \<in> set (hm_entries (q ! j)). unat (hash (hk_key e)) mod n = j"
        unfolding hm_settled_def by blast
      with spec j k(3) False show ?thesis by blast
    qed (use spec in simp)
  qed
  then show ?case using spec q(2) by simp
qed

lemma hm_wf_mset_abs:
  assumes "mset (hm_all (hm_slots hm')) = mset (hm_all (hm_slots hm))"
    and "distinct (map hk_key (hm_all (hm_slots hm)))"
  shows "hm_abs hm' = hm_abs hm" "distinct (map hk_key (hm_all (hm_slots hm')))"
    "length (hm_all (hm_slots hm')) = length (hm_all (hm_slots hm))"
proof -
  show d: "distinct (map hk_key (hm_all (hm_slots hm')))"
    using assms by (metis mset_map mset_eq_imp_distinct_iff)
  show "length (hm_all (hm_slots hm')) = length (hm_all (hm_slots hm))"
    using assms(1) by (rule mset_eq_length)
  show "hm_abs hm' = hm_abs hm"
    unfolding hm_abs_def
    using assms(2) d mset_eq_setD [OF assms(1)]
    by (subst map_of_inject_set) (auto simp: comp_def)
qed

subsection \<open>The operations against the abstract map\<close>

lemma hm_abs_Some:
  assumes "distinct (map hk_key (hm_all (hm_slots hm)))"
  shows "hm_abs hm k = Some v \<longleftrightarrow> (\<exists>e \<in> set (hm_all (hm_slots hm)). hk_key e = k \<and> hk_value e = v)"
  using assms unfolding hm_abs_def by (subst map_of_eq_Some_iff) (auto simp: comp_def)

lemma hm_abs_None:
  "hm_abs hm k = None \<longleftrightarrow> (\<forall>e \<in> set (hm_all (hm_slots hm)). hk_key e \<noteq> k)"
  by (auto simp: hm_abs_def map_of_eq_None_iff image_image)

lemma hm_rehash_wf:
  assumes "hm_wf hash compare hm"
  shows "hm_wf hash compare (hm_rehash hm)" "hm_abs (hm_rehash hm) = hm_abs hm"
proof -
  let ?m = "hm_num_slots hm" and ?n = "hs_inc_slots (hm_num_slots hm)"
  let ?slots = "hm_slots hm @ replicate (?n - ?m) hm_empty_slot"
  let ?r = "fold (\<lambda>s sl. hm_rehash_slot hash ?n s 0 (hm_entries (sl ! s)) sl) [0..<?m] ?slots"
  have mn: "?m < ?n" by (rule hs_inc_slots_gt)
  have "hm_settled hash ?n 0 ?m ?slots"
    using assms mn
    by (auto simp: hm_settled_def hm_wf_def nth_append hm_empty_slot_def hm_slot_ok_def)
  then have r: "hm_settled hash ?n ?m ?m ?r" "mset (hm_all ?r) = mset (hm_all ?slots)"
    using hm_rehash_prefix [of ?n ?m hash ?slots ?m ?r] mn by auto
  have hm': "hm_slots (hm_rehash hm) = ?r" "hm_num_slots (hm_rehash hm) = ?n"
    "hm_num_data (hm_rehash hm) = hm_num_data hm" "hm_hash_func (hm_rehash hm) = hash"
    "hm_compare_func (hm_rehash hm) = compare"
    using assms by (auto simp: hm_rehash_def Let_def hm_wf_def)
  have "mset (hm_all (hm_slots (hm_rehash hm))) = mset (hm_all (hm_slots hm))"
    using r(2) by (simp add: hm'(1) hm_all_def hm_empty_slot_def)
  note same = hm_wf_mset_abs [OF this]
  show "hm_abs (hm_rehash hm) = hm_abs hm"
    using assms by (intro same(1)) (simp add: hm_wf_def)
  show "hm_wf hash compare (hm_rehash hm)"
    using assms r(1) same(2,3) mn unfolding hm_wf_def hm' hm_settled_def by (auto simp: not_le)
qed

lemma hm_slot_entries:
  assumes "hm_wf hash compare hm" "e \<in> set (hm_all (hm_slots hm))"
  shows "e \<in> set (hm_entries (hm_slots hm ! hm_slot_of hm (hk_key e)))"
proof -
  from assms(2) obtain i where "i < length (hm_slots hm)" "e \<in> set (hm_entries (hm_slots hm ! i))"
    by (auto simp: hm_all_def in_set_conv_nth [of _ "hm_slots hm"])
  with assms(1) show ?thesis by (auto simp: hm_wf_def hm_slot_of_def)
qed

lemma hm_slot_of_less: "hm_wf hash compare hm \<Longrightarrow> hm_slot_of hm k < length (hm_slots hm)"
  by (simp add: hm_wf_def hm_slot_of_def)

lemma hm_slot_subset:
  "n < length slots \<Longrightarrow> set (hm_entries (slots ! n)) \<subseteq> set (hm_all slots)"
  by (auto simp: hm_all_def intro!: bexI [of _ "slots ! n"])

text \<open>What the linear search of a slot finds, for a comparison that is 0 exactly on equal keys.\<close>

lemma hm_index_found:
  fixes k :: u64
  assumes wf: "hm_wf hash compare hm" and cmp: "\<And>a b. compare a b = 0 \<longleftrightarrow> a = b"
  defines "es \<equiv> hm_entries (hm_slots hm ! hm_slot_of hm k)"
  defines "i \<equiv> hm_index compare k es"
  shows "if i < length es then hk_key (es ! i) = k \<and> es ! i \<in> set (hm_all (hm_slots hm)) \<and>
      hm_abs hm k = Some (hk_value (es ! i)) else hm_abs hm k = None"
proof (cases "i < length es")
  case True
  have "hk_key (es ! i) = k"
    using hm_index_less [of compare k es] True cmp by (simp add: i_def)
  moreover have "es ! i \<in> set (hm_all (hm_slots hm))"
    using True hm_slot_subset [OF hm_slot_of_less [OF wf, of k]] by (auto simp: es_def)
  ultimately show ?thesis
    using True wf hm_abs_Some [of hm k] by (auto simp: hm_wf_def)
next
  case False
  have "hk_key e \<noteq> k" if "e \<in> set (hm_all (hm_slots hm))" for e
  proof
    assume "hk_key e = k"
    with hm_slot_entries [OF wf that] have "e \<in> set es" by (simp add: es_def)
    from hm_index_end [OF _ this, of compare k] False cmp \<open>hk_key e = k\<close> show False
      by (simp add: i_def)
  qed
  with False show ?thesis by (auto simp: hm_abs_None)
qed

text \<open>The finite map of a list of entries, up to permutation, addition and deletion.\<close>

definition hm_kv :: "hm_entry list \<Rightarrow> u64 \<rightharpoonup> int" where
  "hm_kv es = map_of (map (\<lambda>e. (hk_key e, hk_value e)) es)"

lemma hm_kv_Cons [simp]: "hm_kv (e # es) = (hm_kv es)(hk_key e \<mapsto> hk_value e)"
  by (simp add: hm_kv_def)

lemma hm_abs_kv: "hm_abs hm = hm_kv (hm_all (hm_slots hm))"
  by (simp add: hm_abs_def hm_kv_def)

lemma hm_kv_dom: "dom (hm_kv es) = hk_key ` set es"
  by (auto simp: hm_kv_def dom_map_of_conv_image_fst image_image)

lemma hm_kv_perm:
  assumes "mset xs = mset ys" "distinct (map hk_key ys)"
  shows "hm_kv xs = hm_kv ys" "distinct (map hk_key xs)"
proof -
  show d: "distinct (map hk_key xs)"
    using assms by (metis mset_map mset_eq_imp_distinct_iff)
  show "hm_kv xs = hm_kv ys"
    unfolding hm_kv_def
    using assms(2) d mset_eq_setD [OF assms(1)]
    by (subst map_of_inject_set) (auto simp: comp_def)
qed

lemma hm_kv_add:
  assumes "mset xs = add_mset e (mset ys)" "distinct (map hk_key ys)" "hm_kv ys (hk_key e) = None"
  shows "hm_kv xs = (hm_kv ys)(hk_key e \<mapsto> hk_value e)" "distinct (map hk_key xs)"
  using hm_kv_perm [of xs "e # ys"] assms hm_kv_dom [of ys] by (auto simp: domIff)

lemma hm_kv_del:
  assumes "add_mset e (mset xs) = mset ys" "distinct (map hk_key ys)"
  shows "hm_kv xs = (hm_kv ys)(hk_key e := None)" "distinct (map hk_key xs)"
    "hm_kv xs (hk_key e) = None"
proof -
  have p: "hm_kv (e # xs) = hm_kv ys" "distinct (map hk_key (e # xs))"
    using hm_kv_perm [of "e # xs" ys] assms by simp_all
  show "distinct (map hk_key xs)" using p(2) by simp
  show none: "hm_kv xs (hk_key e) = None"
    using p(2) hm_kv_dom [of xs] by (auto simp: domIff)
  have "hm_kv xs k = ((hm_kv ys)(hk_key e := None)) k" for k
    using none by (simp flip: p(1))
  then show "hm_kv xs = (hm_kv ys)(hk_key e := None)" by blast
qed

lemma hm_wf_update_slot:
  assumes wf: "hm_wf hash compare hm" and n: "n < length (hm_slots hm)"
    and "hm_slot_ok x" "\<forall>e \<in> set (hm_entries x). unat (hash (hk_key e)) mod hm_num_slots hm = n"
    and "distinct (map hk_key (hm_all ((hm_slots hm)[n := x])))" "m = length (hm_all ((hm_slots hm)[n := x]))"
  shows "hm_wf hash compare (hm\<lparr>hm_slots := (hm_slots hm)[n := x], hm_num_data := m\<rparr>)"
  using assms by (auto simp: hm_wf_def nth_list_update dest!: subsetD [OF set_update_subset_insert])

lemma hm_get_abs:
  assumes wf: "hm_wf hash compare hm" and cmp: "\<And>a b. compare a b = 0 \<longleftrightarrow> a = b"
  shows "zbx_hashmap_get hm k = (case hm_abs hm k of Some v \<Rightarrow> v | None \<Rightarrow> FAIL)"
proof -
  have "hm_compare_func hm = compare" using wf by (simp add: hm_wf_def)
  with hm_index_found [OF wf cmp, of k] show ?thesis
    by (auto simp: zbx_hashmap_get_def Let_def split: if_splits)
qed

lemma hm_set_spec:
  assumes wf: "hm_wf hash compare hm" and cmp: "\<And>a b. compare a b = 0 \<longleftrightarrow> a = b"
  shows "hm_wf hash compare (zbx_hashmap_set hm k v) \<and>
    hm_abs (zbx_hashmap_set hm k v) = (hm_abs hm)(k \<mapsto> v)"
proof -
  let ?n = "hm_slot_of hm k"
  let ?slot = "hm_slots hm ! ?n"
  let ?es = "hm_entries ?slot"
  let ?i = "hm_index compare k ?es"
  have n: "?n < length (hm_slots hm)" by (rule hm_slot_of_less [OF wf])
  have c: "hm_compare_func hm = compare" using wf by (simp add: hm_wf_def)
  have kn: "unat (hash k) mod hm_num_slots hm = ?n" using wf by (simp add: hm_wf_def hm_slot_of_def)
  have ok: "hm_slot_ok ?slot" using wf n by (simp add: hm_wf_def)
  have es: "\<forall>e \<in> set ?es. unat (hash (hk_key e)) mod hm_num_slots hm = ?n"
    using wf n by (auto simp: hm_wf_def)
  have d: "distinct (map hk_key (hm_all (hm_slots hm)))" "hm_num_data hm = length (hm_all (hm_slots hm))"
    using wf by (simp_all add: hm_wf_def)
  note found = hm_index_found [OF wf cmp, of k]
  show ?thesis
  proof (cases "?i < length ?es")
    case True
    let ?e = "(?es ! ?i)\<lparr>hk_value := v\<rparr>"
    let ?x = "?slot\<lparr>hm_entries := ?es[?i := ?e]\<rparr>"
    let ?slots = "(hm_slots hm)[?n := ?x]"
    have f: "hk_key (?es ! ?i) = k" "?es ! ?i \<in> set (hm_all (hm_slots hm))" using found True by auto
    have eq: "zbx_hashmap_set hm k v = hm\<lparr>hm_slots := ?slots, hm_num_data := hm_num_data hm\<rparr>"
      using True by (simp add: zbx_hashmap_set_def Let_def c)
    let ?z = "remove1 (?es ! ?i) (hm_all (hm_slots hm))"
    have z: "add_mset (?es ! ?i) (mset ?z) = mset (hm_all (hm_slots hm))"
      using f(2) by simp
    have "mset (hm_all ?slots) + mset ?es = mset (hm_all (hm_slots hm)) + mset (?es[?i := ?e])"
      using mset_hm_all_update [OF n, of ?x] by simp
    also have "mset (?es[?i := ?e]) = add_mset ?e (mset ?es - {#?es ! ?i#})"
      by (rule mset_update [OF True])
    also have "mset (hm_all (hm_slots hm)) = add_mset (?es ! ?i) (mset ?z)" by (rule z [symmetric])
    finally have "mset (hm_all ?slots) + mset ?es = add_mset ?e (mset ?z) + mset ?es"
      using True by simp
    then have m: "mset (hm_all ?slots) = add_mset ?e (mset ?z)" by simp
    note del = hm_kv_del [OF z d(1)]
    have add: "hm_kv (hm_all ?slots) = (hm_kv ?z)(k \<mapsto> v)" "distinct (map hk_key (hm_all ?slots))"
      using hm_kv_add [OF m del(2)] del(3) f(1) by simp_all
    have "length (hm_all ?slots) = length (hm_all (hm_slots hm))"
      using arg_cong [OF m, of size] arg_cong [OF z, of size] by simp
    moreover have "hm_slot_ok ?x" using ok by (simp add: hm_slot_ok_def)
    moreover have "\<forall>e \<in> set (hm_entries ?x). unat (hash (hk_key e)) mod hm_num_slots hm = ?n"
      using es kn f(1) by (auto dest!: subsetD [OF set_update_subset_insert])
    ultimately have "hm_wf hash compare (zbx_hashmap_set hm k v)"
      unfolding eq using wf n add(2) d(2) by (intro hm_wf_update_slot) simp_all
    moreover have "hm_abs (zbx_hashmap_set hm k v) = (hm_abs hm)(k \<mapsto> v)"
      by (simp add: hm_abs_kv eq add(1) del(1) f(1))
    ultimately show ?thesis ..
  next
    case False
    let ?e = "\<lparr>hk_key = k, hk_value = v\<rparr>"
    let ?x = "hm_push ?e ?slot"
    let ?slots = "(hm_slots hm)[?n := ?x]"
    let ?h = "hm\<lparr>hm_slots := ?slots, hm_num_data := hm_num_data hm + 1\<rparr>"
    have none: "hm_kv (hm_all (hm_slots hm)) k = None" using found False by (simp add: hm_abs_kv)
    have m: "mset (hm_all ?slots) = add_mset ?e (mset (hm_all (hm_slots hm)))"
      using mset_hm_all_update [OF n, of ?x] ok by simp
    have add: "hm_kv (hm_all ?slots) = (hm_kv (hm_all (hm_slots hm)))(k \<mapsto> v)"
      "distinct (map hk_key (hm_all ?slots))"
      using hm_kv_add [OF m d(1)] none by simp_all
    have "length (hm_all ?slots) = length (hm_all (hm_slots hm)) + 1"
      using arg_cong [OF m, of size] by simp
    then have wf': "hm_wf hash compare ?h"
      using wf n add(2) d(2) ok es kn by (intro hm_wf_update_slot hm_slot_ok_push) auto
    have abs': "hm_abs ?h = (hm_abs hm)(k \<mapsto> v)" by (simp add: hm_abs_kv add(1))
    have "zbx_hashmap_set hm k v = ?h \<or> zbx_hashmap_set hm k v = hm_rehash ?h"
      using False by (simp add: zbx_hashmap_set_def Let_def c)
    with wf' abs' hm_rehash_wf [OF wf'] show ?thesis by metis
  qed
qed

lemma hm_remove_spec:
  assumes wf: "hm_wf hash compare hm" and cmp: "\<And>a b. compare a b = 0 \<longleftrightarrow> a = b"
  shows "hm_wf hash compare (zbx_hashmap_remove hm k) \<and>
    hm_abs (zbx_hashmap_remove hm k) = (hm_abs hm)(k := None)"
proof -
  let ?n = "hm_slot_of hm k"
  let ?slot = "hm_slots hm ! ?n"
  let ?es = "hm_entries ?slot"
  let ?i = "hm_index compare k ?es"
  have n: "?n < length (hm_slots hm)" by (rule hm_slot_of_less [OF wf])
  have c: "hm_compare_func hm = compare" using wf by (simp add: hm_wf_def)
  have ok: "hm_slot_ok ?slot" using wf n by (simp add: hm_wf_def)
  have es: "\<forall>e \<in> set ?es. unat (hash (hk_key e)) mod hm_num_slots hm = ?n"
    using wf n by (auto simp: hm_wf_def)
  have d: "distinct (map hk_key (hm_all (hm_slots hm)))" "hm_num_data hm = length (hm_all (hm_slots hm))"
    using wf by (simp_all add: hm_wf_def)
  note found = hm_index_found [OF wf cmp, of k]
  show ?thesis
  proof (cases "?i < length ?es")
    case True
    let ?x = "?slot\<lparr>hm_entries := butlast (?es[?i := last ?es])\<rparr>"
    let ?slots = "(hm_slots hm)[?n := ?x]"
    have f: "hk_key (?es ! ?i) = k" using found True by auto
    have eq: "zbx_hashmap_remove hm k = hm\<lparr>hm_slots := ?slots, hm_num_data := hm_num_data hm - 1\<rparr>"
      using True by (simp add: zbx_hashmap_remove_def Let_def c)
    have m: "add_mset (?es ! ?i) (mset (hm_all ?slots)) = mset (hm_all (hm_slots hm))"
      using mset_hm_all_update [OF n, of ?x] by (simp flip: mset_swap_remove [OF True])
    note del = hm_kv_del [OF m d(1)]
    have "hm_num_data hm - 1 = length (hm_all ?slots)"
      using arg_cong [OF m, of size] d(2) by simp
    moreover have "hm_slot_ok ?x" using ok by (simp add: hm_slot_ok_def)
    moreover have "\<forall>e \<in> set (hm_entries ?x). unat (hash (hk_key e)) mod hm_num_slots hm = ?n"
      using es set_swap_remove [OF True] by auto
    ultimately have "hm_wf hash compare (zbx_hashmap_remove hm k)"
      unfolding eq using wf n del(2) by (intro hm_wf_update_slot) simp_all
    moreover have "hm_abs (zbx_hashmap_remove hm k) = (hm_abs hm)(k := None)"
      by (simp add: hm_abs_kv eq del(1) f)
    ultimately show ?thesis ..
  next
    case False
    with wf found show ?thesis
      by (auto simp: zbx_hashmap_remove_def Let_def c fun_upd_idem)
  qed
qed

lemma hm_create_ext_spec:
  "hm_wf hash compare (zbx_hashmap_create_ext n hash compare)"
  "hm_abs (zbx_hashmap_create_ext n hash compare) = Map.empty"
  using next_prime_pos [of "int n"]
  by (auto simp: hm_wf_def zbx_hashmap_create_ext_def Let_def hm_all_def hm_empty_slot_def hm_slot_ok_def
      hm_abs_def concat_replicate_trivial)

lemma hm_clear_spec:
  assumes "hm_wf hash compare hm"
  shows "hm_wf hash compare (zbx_hashmap_clear hm)" "hm_abs (zbx_hashmap_clear hm) = Map.empty"
proof -
  have "hm_entries slot = []" if "slot \<in> set (hm_slots hm)" "hm_entries_alloc slot = 0" for slot
    using assms that by (auto simp: hm_wf_def hm_slot_ok_def)
  then have "hm_all (hm_slots (zbx_hashmap_clear hm)) = []"
    by (auto simp: zbx_hashmap_clear_def hm_all_def hm_empty_slot_def)
  moreover have "\<forall>slot \<in> set (hm_slots (zbx_hashmap_clear hm)). hm_slot_ok slot"
    using assms by (auto simp: zbx_hashmap_clear_def hm_empty_slot_def hm_slot_ok_def hm_wf_def)
  moreover have "hm_entries (hm_slots (zbx_hashmap_clear hm) ! i) = []" if "i < hm_num_slots hm" for i
    using calculation(1) that assms by (auto simp: hm_all_def hm_wf_def zbx_hashmap_clear_def)
  ultimately show "hm_wf hash compare (zbx_hashmap_clear hm)" "hm_abs (zbx_hashmap_clear hm) = Map.empty"
    using assms by (auto simp: hm_wf_def hm_abs_def zbx_hashmap_clear_def)
qed

subsection \<open>The interface the binary heap relies on\<close>

text \<open>
  An index from 64-bit keys to integers: a store with an invariant and an abstract map. The laws
  are what \<^verbatim>\<open>binaryheap.c\<close> uses of its \<^verbatim>\<open>key_index\<close>.
\<close>

datatype index_op = Index_Set u64 int | Index_Remove u64 | Index_Clear

fun index_step ::
  "('m \<Rightarrow> u64 \<Rightarrow> int \<Rightarrow> 'm) \<Rightarrow> ('m \<Rightarrow> u64 \<Rightarrow> 'm) \<Rightarrow> ('m \<Rightarrow> 'm) \<Rightarrow> index_op \<Rightarrow> 'm \<Rightarrow> 'm" where
  "index_step ins del clr (Index_Set k v) m = ins m k v"
| "index_step ins del clr (Index_Remove k) m = del m k"
| "index_step ins del clr Index_Clear m = clr m"

definition map_index_step :: "index_op \<Rightarrow> (u64 \<rightharpoonup> int) \<Rightarrow> u64 \<rightharpoonup> int" where
  "map_index_step = index_step (\<lambda>m k v. m(k \<mapsto> v)) (\<lambda>m k. m(k := None)) (\<lambda>_. Map.empty)"

definition hashmap_step :: "index_op \<Rightarrow> hashmap \<Rightarrow> hashmap" where
  "hashmap_step = index_step zbx_hashmap_set zbx_hashmap_remove zbx_hashmap_clear"

locale index_map =
  fixes get :: "'m \<Rightarrow> u64 \<Rightarrow> int" and ins :: "'m \<Rightarrow> u64 \<Rightarrow> int \<Rightarrow> 'm"
    and del :: "'m \<Rightarrow> u64 \<Rightarrow> 'm" and clr :: "'m \<Rightarrow> 'm"
    and inv :: "'m \<Rightarrow> bool" and abs :: "'m \<Rightarrow> u64 \<rightharpoonup> int"
  assumes get_abs: "inv m \<Longrightarrow> get m k = (case abs m k of Some v \<Rightarrow> v | None \<Rightarrow> FAIL)"
    and ins_inv [simp]: "inv m \<Longrightarrow> inv (ins m k v)"
    and ins_abs [simp]: "inv m \<Longrightarrow> abs (ins m k v) = (abs m)(k \<mapsto> v)"
    and del_inv [simp]: "inv m \<Longrightarrow> inv (del m k)"
    and del_abs [simp]: "inv m \<Longrightarrow> abs (del m k) = (abs m)(k := None)"
    and clr_inv [simp]: "inv m \<Longrightarrow> inv (clr m)"
    and clr_abs [simp]: "inv m \<Longrightarrow> abs (clr m) = Map.empty"
begin

lemma step_refines:
  assumes "inv m"
  shows "inv (index_step ins del clr x m) \<and>
    abs (index_step ins del clr x m) = map_index_step x (abs m)"
  using assms by (cases x) (simp_all add: map_index_step_def)

lemma run_refines:
  assumes "inv m"
  shows "inv (fold (index_step ins del clr) ops m) \<and>
    abs (fold (index_step ins del clr) ops m) = fold map_index_step ops (abs m)"
  using assms by (induction ops arbitrary: m) (simp_all add: step_refines)

lemma get_run:
  assumes "inv m"
  shows "get (fold (index_step ins del clr) ops m) k =
    (case fold map_index_step ops (abs m) k of Some v \<Rightarrow> v | None \<Rightarrow> FAIL)"
  using run_refines [OF assms, of ops] by (simp add: get_abs)

lemma get_ins: "inv m \<Longrightarrow> get (ins m k v) j = (if j = k then v else get m j)"
  by (simp add: get_abs)

lemma get_del: "inv m \<Longrightarrow> get (del m k) j = (if j = k then FAIL else get m j)"
  by (simp add: get_abs)

end

definition hm_inv64 :: "hashmap \<Rightarrow> bool" where
  "hm_inv64 = hm_wf zbx_default_uint64_hash_func zbx_default_uint64_compare_func"

interpretation hashmap_index: index_map
  zbx_hashmap_get zbx_hashmap_set zbx_hashmap_remove zbx_hashmap_clear hm_inv64 hm_abs
  unfolding hm_inv64_def
  by unfold_locales (auto simp: hm_get_abs hm_set_spec hm_remove_spec hm_clear_spec)

lemma hashmap_create_inv [simp]: "hm_inv64 (zbx_hashmap_create n)" "hm_abs (zbx_hashmap_create n) = Map.empty"
  by (simp_all add: hm_inv64_def zbx_hashmap_create_def hm_create_ext_spec)

text \<open>
  C14. Whatever sequence of \<^verbatim>\<open>zbx_hashmap_set\<close>, \<^verbatim>\<open>zbx_hashmap_remove\<close> and \<^verbatim>\<open>zbx_hashmap_clear\<close> calls a
  fresh hash map goes through, rehashing included, \<^verbatim>\<open>zbx_hashmap_get\<close> answers what the same
  sequence leaves in a finite map, and FAIL for a key that is not in it.
\<close>

theorem hashmap_run_get:
  "zbx_hashmap_get (fold hashmap_step ops (zbx_hashmap_create n)) k =
    (case fold map_index_step ops Map.empty k of Some v \<Rightarrow> v | None \<Rightarrow> FAIL)"
  using hashmap_index.get_run [of "zbx_hashmap_create n" ops k] by (simp add: hashmap_step_def)

end
