(* ===== verification/BinaryHeap.thy ===== *)
theory BinaryHeap
  imports HashMap
begin

text \<open>
  \<^verbatim>\<open>src/libs/zbxalgo/binaryheap.c\<close>: the min-heap of (key, data) elements that the configuration
  cache uses as its item and proxy queues. With the direct option the heap keeps a hash map from
  keys to positions, so that elements can be updated and removed by key. The array is the list of
  its used elements with an allocated size; \<^verbatim>\<open>elems == NULL\<close> is an allocated size of 0.
\<close>

subsection \<open>State\<close>

record 'd heap_elem =
  he_key :: u64
  he_data :: 'd

record 'd binary_heap =
  hp_elems :: "'d heap_elem list"
  hp_elems_alloc :: nat
  hp_options :: u32
  hp_compare_func :: "'d heap_elem \<Rightarrow> 'd heap_elem \<Rightarrow> int"
  hp_key_index :: "hashmap option"

abbreviation hp_elems_num :: "'d binary_heap \<Rightarrow> nat" where
  "hp_elems_num hp \<equiv> length (hp_elems hp)"

definition ZBX_BINARY_HEAP_OPTION_EMPTY :: u32 where "ZBX_BINARY_HEAP_OPTION_EMPTY = 0"
definition ZBX_BINARY_HEAP_OPTION_DIRECT :: u32 where "ZBX_BINARY_HEAP_OPTION_DIRECT = 1"

definition HAS_DIRECT_OPTION :: "'d binary_heap \<Rightarrow> bool" where
  "HAS_DIRECT_OPTION hp \<longleftrightarrow> hp_options hp AND ZBX_BINARY_HEAP_OPTION_DIRECT \<noteq> 0"

subsection \<open>Operations\<close>

text \<open>The calls on \<^verbatim>\<open>heap->key_index\<close>.\<close>

definition hp_index_set :: "u64 \<Rightarrow> nat \<Rightarrow> 'd binary_heap \<Rightarrow> 'd binary_heap" where
  "hp_index_set k i hp =
    hp\<lparr>hp_key_index := map_option (\<lambda>m. zbx_hashmap_set m k (int i)) (hp_key_index hp)\<rparr>"

definition hp_index_remove :: "u64 \<Rightarrow> 'd binary_heap \<Rightarrow> 'd binary_heap" where
  "hp_index_remove k hp =
    hp\<lparr>hp_key_index := map_option (\<lambda>m. zbx_hashmap_remove m k) (hp_key_index hp)\<rparr>"

definition hp_index_get :: "u64 \<Rightarrow> 'd binary_heap \<Rightarrow> int" where
  "hp_index_get k hp = (case hp_key_index hp of None \<Rightarrow> FAIL | Some m \<Rightarrow> zbx_hashmap_get m k)"

definition heap_swap :: "'d binary_heap \<Rightarrow> nat \<Rightarrow> nat \<Rightarrow> 'd binary_heap" where
  "heap_swap hp i j =
    (let hp1 = hp\<lparr>hp_elems := (hp_elems hp)[i := hp_elems hp ! j, j := hp_elems hp ! i]\<rparr>
     in if HAS_DIRECT_OPTION hp1 then
          hp_index_set (he_key (hp_elems hp1 ! j)) j (hp_index_set (he_key (hp_elems hp1 ! i)) i hp1)
        else hp1)"

definition binary_heap_ensure_free_space :: "'d binary_heap \<Rightarrow> 'd binary_heap" where
  "binary_heap_ensure_free_space hp =
    (if hp_elems_alloc hp = 0 then hp\<lparr>hp_elems := [], hp_elems_alloc := 32\<rparr>
     else if hp_elems_num hp = hp_elems_alloc hp then
       hp\<lparr>hp_elems_alloc := max (hp_elems_alloc hp + 1) (hp_elems_alloc hp * 3 div 2)\<rparr>
     else hp)"

lemma length_heap_swap [simp]: "hp_elems_num (heap_swap hp i j) = hp_elems_num hp"
  by (simp add: heap_swap_def Let_def hp_index_set_def)

fun binary_heap_bubble_up :: "'d binary_heap \<Rightarrow> nat \<Rightarrow> 'd binary_heap \<times> nat" where
  "binary_heap_bubble_up hp index =
    (if index \<noteq> 0 then
       (if hp_compare_func hp (hp_elems hp ! ((index - 1) div 2)) (hp_elems hp ! index) \<le> 0 then (hp, index)
        else binary_heap_bubble_up (heap_swap hp ((index - 1) div 2) index) ((index - 1) div 2))
     else (hp, index))"

declare binary_heap_bubble_up.simps [simp del]

function binary_heap_bubble_down :: "'d binary_heap \<Rightarrow> nat \<Rightarrow> 'd binary_heap \<times> nat" where
  "binary_heap_bubble_down hp index =
    (let left = 2 * index + 1; right = 2 * index + 2; n = hp_elems_num hp; es = hp_elems hp;
         cmp = hp_compare_func hp
     in if n \<le> left then (hp, index)
        else if n \<le> right then
          (if 0 < cmp (es ! index) (es ! left) then (heap_swap hp index left, left) else (hp, index))
        else if cmp (es ! left) (es ! right) \<le> 0 then
          (if 0 < cmp (es ! index) (es ! left)
           then binary_heap_bubble_down (heap_swap hp index left) left else (hp, index))
        else
          (if 0 < cmp (es ! index) (es ! right)
           then binary_heap_bubble_down (heap_swap hp index right) right else (hp, index)))"
  by pat_completeness auto
termination
  by (relation "measure (\<lambda>(hp, index). hp_elems_num hp - index)") auto

declare binary_heap_bubble_down.simps [simp del]

definition zbx_binary_heap_create ::
  "('d heap_elem \<Rightarrow> 'd heap_elem \<Rightarrow> int) \<Rightarrow> u32 \<Rightarrow> 'd binary_heap" where
  "zbx_binary_heap_create compare_func options =
    (let hp = \<lparr>hp_elems = [], hp_elems_alloc = 0, hp_options = options, hp_compare_func = compare_func,
               hp_key_index = None\<rparr>
     in if HAS_DIRECT_OPTION hp then
          hp\<lparr>hp_key_index := Some (zbx_hashmap_create_ext 512 zbx_default_uint64_hash_func
                                     zbx_default_uint64_compare_func)\<rparr>
        else hp)"

definition zbx_binary_heap_empty :: "'d binary_heap \<Rightarrow> zres" where
  "zbx_binary_heap_empty hp = (if hp_elems_num hp = 0 then Succeed else Fail)"

definition zbx_binary_heap_find_min :: "'d binary_heap \<Rightarrow> fatal + 'd heap_elem" where
  "zbx_binary_heap_find_min hp =
    (if hp_elems_num hp = 0 then Inl (Exit_Fail ''asking for a minimum in an empty heap'')
     else Inr (hp_elems hp ! 0))"

definition zbx_binary_heap_insert :: "'d binary_heap \<Rightarrow> 'd heap_elem \<Rightarrow> fatal + 'd binary_heap" where
  "zbx_binary_heap_insert hp elem =
    (if HAS_DIRECT_OPTION hp \<and> hp_index_get (he_key elem) hp \<noteq> FAIL then
       Inl (Exit_Fail ''inserting a duplicate key into a heap with direct option'')
     else
       (let hp1 = binary_heap_ensure_free_space hp;
            hp2 = hp1\<lparr>hp_elems := hp_elems hp1 @ [elem]\<rparr>;
            (hp3, index) = binary_heap_bubble_up hp2 (hp_elems_num hp1)
        in Inr (if HAS_DIRECT_OPTION hp3 \<and> index = hp_elems_num hp3 - 1
                then hp_index_set (he_key elem) index hp3 else hp3)))"

definition zbx_binary_heap_update_direct ::
  "'d binary_heap \<Rightarrow> 'd heap_elem \<Rightarrow> fatal + 'd binary_heap" where
  "zbx_binary_heap_update_direct hp elem =
    (if \<not> HAS_DIRECT_OPTION hp then
       Inl (Exit_Fail ''direct update operation is not supported for this heap'')
     else
       (let index = hp_index_get (he_key elem) hp
        in if index \<noteq> FAIL then
             (let hp1 = hp\<lparr>hp_elems := (hp_elems hp)[nat index := elem]\<rparr>;
                  (hp2, index2) = binary_heap_bubble_up hp1 (nat index)
              in Inr (if nat index = index2 then fst (binary_heap_bubble_down hp2 (nat index)) else hp2))
           else Inl (Exit_Fail ''element with key not found in heap for update'')))"

definition zbx_binary_heap_remove_min :: "'d binary_heap \<Rightarrow> fatal + 'd binary_heap" where
  "zbx_binary_heap_remove_min hp =
    (if hp_elems_num hp = 0 then Inl (Exit_Fail ''removing a minimum from an empty heap'')
     else
       (let hp1 = (if HAS_DIRECT_OPTION hp then hp_index_remove (he_key (hp_elems hp ! 0)) hp else hp);
            hp2 = hp1\<lparr>hp_elems := butlast (hp_elems hp1)\<rparr>
        in Inr (if hp_elems_num hp2 \<noteq> 0 then
             (let hp3 = hp2\<lparr>hp_elems := (hp_elems hp2)[0 := last (hp_elems hp1)]\<rparr>;
                  (hp4, index) = binary_heap_bubble_down hp3 0
              in if HAS_DIRECT_OPTION hp4 \<and> index = 0
                 then hp_index_set (he_key (hp_elems hp4 ! index)) index hp4 else hp4)
           else hp2)))"

definition zbx_binary_heap_remove_direct :: "'d binary_heap \<Rightarrow> u64 \<Rightarrow> fatal + 'd binary_heap" where
  "zbx_binary_heap_remove_direct hp key =
    (if \<not> HAS_DIRECT_OPTION hp then
       Inl (Exit_Fail ''direct remove operation is not supported for this heap'')
     else
       (let index = hp_index_get key hp
        in if index \<noteq> FAIL then
             (let hp1 = hp_index_remove key hp;
                  hp2 = hp1\<lparr>hp_elems := butlast (hp_elems hp1)\<rparr>
              in Inr (if nat index \<noteq> hp_elems_num hp2 then
                   (let hp3 = hp2\<lparr>hp_elems := (hp_elems hp2)[nat index := last (hp_elems hp1)]\<rparr>;
                        (hp4, index2) = binary_heap_bubble_down hp3 (nat index)
                    in if nat index = index2
                       then hp_index_set (he_key (hp_elems hp4 ! nat index)) (nat index) hp4 else hp4)
                 else hp2))
           else Inl (Exit_Fail ''element with key not found in heap for remove'')))"

definition zbx_binary_heap_clear :: "'d binary_heap \<Rightarrow> 'd binary_heap" where
  "zbx_binary_heap_clear hp =
    (let hp1 = (if hp_elems_alloc hp \<noteq> 0 then hp\<lparr>hp_elems := [], hp_elems_alloc := 0\<rparr> else hp)
     in if HAS_DIRECT_OPTION hp1
        then hp1\<lparr>hp_key_index := map_option zbx_hashmap_clear (hp_key_index hp1)\<rparr> else hp1)"

subsection \<open>Heap order\<close>

abbreviation (input) par :: "nat \<Rightarrow> nat" where "par j \<equiv> (j - 1) div 2"

definition heap_edges :: "('e \<Rightarrow> 'e \<Rightarrow> int) \<Rightarrow> 'e list \<Rightarrow> (nat \<Rightarrow> bool) \<Rightarrow> bool" where
  "heap_edges cmp xs P \<longleftrightarrow> (\<forall>j < length xs. 0 < j \<and> P j \<longrightarrow> cmp (xs ! par j) (xs ! j) \<le> 0)"

definition heap_bridge :: "('e \<Rightarrow> 'e \<Rightarrow> int) \<Rightarrow> 'e list \<Rightarrow> nat \<Rightarrow> bool" where
  "heap_bridge cmp xs i \<longleftrightarrow>
    (\<forall>j < length xs. 0 < i \<and> 0 < j \<and> par j = i \<longrightarrow> cmp (xs ! par i) (xs ! j) \<le> 0)"

definition heap_ordered :: "('e \<Rightarrow> 'e \<Rightarrow> int) \<Rightarrow> 'e list \<Rightarrow> bool" where
  "heap_ordered cmp xs \<longleftrightarrow> (\<forall>j < length xs. 0 < j \<longrightarrow> cmp (xs ! par j) (xs ! j) \<le> 0)"

definition up_ok :: "('e \<Rightarrow> 'e \<Rightarrow> int) \<Rightarrow> 'e list \<Rightarrow> nat \<Rightarrow> bool" where
  "up_ok cmp xs i \<longleftrightarrow> heap_edges cmp xs (\<lambda>j. j \<noteq> i) \<and> heap_bridge cmp xs i"

definition down_ok :: "('e \<Rightarrow> 'e \<Rightarrow> int) \<Rightarrow> 'e list \<Rightarrow> nat \<Rightarrow> bool" where
  "down_ok cmp xs i \<longleftrightarrow> heap_edges cmp xs (\<lambda>j. par j \<noteq> i) \<and> heap_bridge cmp xs i"

definition both_ok :: "('e \<Rightarrow> 'e \<Rightarrow> int) \<Rightarrow> 'e list \<Rightarrow> nat \<Rightarrow> bool" where
  "both_ok cmp xs i \<longleftrightarrow> heap_edges cmp xs (\<lambda>j. j \<noteq> i \<and> par j \<noteq> i) \<and> heap_bridge cmp xs i"

abbreviation swap_at :: "'e list \<Rightarrow> nat \<Rightarrow> nat \<Rightarrow> 'e list" where
  "swap_at xs i j \<equiv> xs[i := xs ! j, j := xs ! i]"

text \<open>The contract of a comparison function: a total preorder, of which only the sign is used.\<close>

locale heap_compare =
  fixes cmp :: "'e \<Rightarrow> 'e \<Rightarrow> int"
  assumes cmp_trans: "cmp a b \<le> 0 \<Longrightarrow> cmp b c \<le> 0 \<Longrightarrow> cmp a c \<le> 0"
    and cmp_total: "0 < cmp a b \<Longrightarrow> cmp b a \<le> 0"
begin

lemma cmp_refl: "cmp a a \<le> 0"
  using cmp_total [of a a] by linarith

lemma up_step:
  assumes "up_ok cmp xs i" "0 < i" "i < length xs" "0 < cmp (xs ! par i) (xs ! i)"
  shows "up_ok cmp (swap_at xs (par i) i) (par i)"
proof -
  let ?p = "par i"
  have p: "?p < i" "?p < length xs" using assms(2,3) by auto
  have ip: "cmp (xs ! i) (xs ! ?p) \<le> 0" using cmp_total assms(4) by blast
  have e: "cmp (xs ! par j) (xs ! j) \<le> 0" if "j < length xs" "0 < j" "j \<noteq> i" for j
    using assms(1) that by (simp add: up_ok_def heap_edges_def)
  have b: "cmp (xs ! ?p) (xs ! j) \<le> 0" if "j < length xs" "0 < j" "par j = i" for j
    using assms(1,2) that by (simp add: up_ok_def heap_bridge_def)
  have "heap_edges cmp (swap_at xs ?p i) (\<lambda>j. j \<noteq> ?p)"
    unfolding heap_edges_def
  proof (intro allI impI)
    fix j assume j: "j < length (swap_at xs ?p i)" "0 < j \<and> j \<noteq> ?p"
    then consider "j = i" | "j \<noteq> i" "par j = i" | "j \<noteq> i" "par j = ?p" | "j \<noteq> i" "par j \<noteq> i" "par j \<noteq> ?p"
      by blast
    then show "cmp (swap_at xs ?p i ! par j) (swap_at xs ?p i ! j) \<le> 0"
    proof cases
      case 3
      with j e [of j] have "cmp (xs ! ?p) (xs ! j) \<le> 0" by simp
      with ip have "cmp (xs ! i) (xs ! j) \<le> 0" by (rule cmp_trans)
      with 3 j p assms(3) show ?thesis by (simp add: nth_list_update)
    qed (use j p assms(3) ip e b in \<open>auto simp: nth_list_update\<close>)
  qed
  moreover have "heap_bridge cmp (swap_at xs ?p i) ?p"
    unfolding heap_bridge_def
  proof (intro allI impI)
    fix j assume j: "j < length (swap_at xs ?p i)" "0 < ?p \<and> 0 < j \<and> par j = ?p"
    then have "0 < ?p" by blast
    then have q: "par ?p < ?p" by arith
    have q2: "cmp (xs ! par ?p) (xs ! ?p) \<le> 0" by (rule e [OF p(2) \<open>0 < ?p\<close> less_imp_neq [OF p(1)]])
    define g where "g = par ?p"
    have ne: "j \<noteq> ?p" "g \<noteq> ?p" "g \<noteq> i" using j q p by (auto simp: g_def)
    have "cmp (xs ! g) (xs ! j) \<le> 0" if "j \<noteq> i"
    proof (rule cmp_trans)
      show "cmp (xs ! g) (xs ! ?p) \<le> 0" using q2 by (simp only: g_def)
      show "cmp (xs ! ?p) (xs ! j) \<le> 0" using e [of j] j that by simp
    qed
    then show "cmp (swap_at xs ?p i ! par ?p) (swap_at xs ?p i ! j) \<le> 0"
      using ne q2 p assms(3) unfolding g_def [symmetric] by (cases "j = i") simp_all
  qed
  ultimately show ?thesis by (simp add: up_ok_def)
qed

lemma up_done:
  assumes "up_ok cmp xs i" "i = 0 \<or> cmp (xs ! par i) (xs ! i) \<le> 0"
  shows "heap_ordered cmp xs"
  using assms unfolding up_ok_def heap_edges_def heap_ordered_def by (metis less_irrefl)

lemma down_step:
  assumes "down_ok cmp xs i" "c < length xs" "0 < c" "par c = i" "0 < cmp (xs ! i) (xs ! c)"
    and "\<forall>j < length xs. 0 < j \<and> par j = i \<longrightarrow> cmp (xs ! c) (xs ! j) \<le> 0"
  shows "down_ok cmp (swap_at xs i c) c"
proof -
  have i: "i < c" "i < length xs" using assms(2-4) by auto
  have ci: "cmp (xs ! c) (xs ! i) \<le> 0" using cmp_total assms(5) by blast
  have e: "cmp (xs ! par j) (xs ! j) \<le> 0" if "j < length xs" "0 < j" "par j \<noteq> i" for j
    using assms(1) that by (simp add: down_ok_def heap_edges_def)
  have b: "cmp (xs ! par i) (xs ! j) \<le> 0" if "0 < i" "j < length xs" "0 < j" "par j = i" for j
    using assms(1) that by (simp add: down_ok_def heap_bridge_def)
  have "heap_edges cmp (swap_at xs i c) (\<lambda>j. par j \<noteq> c)"
    unfolding heap_edges_def
  proof (intro allI impI)
    fix j assume j: "j < length (swap_at xs i c)" "0 < j \<and> par j \<noteq> c"
    then consider "j = c" | "j \<noteq> c" "par j = i" | "j = i" | "j \<noteq> c" "j \<noteq> i" "par j \<noteq> i" by blast
    then show "cmp (swap_at xs i c ! par j) (swap_at xs i c ! j) \<le> 0"
    proof cases
      case 2
      have "j \<noteq> i" using 2 j by auto
      with 2 j i assms(2,6) show ?thesis by (simp add: nth_list_update)
    next
      case 3
      have "par i < i" "par i \<noteq> c" using 3 j i by auto
      with 3 j i assms(2-4) b [of c] show ?thesis by (simp add: nth_list_update)
    qed (use j i assms(2-4) ci e in \<open>auto simp: nth_list_update\<close>)
  qed
  moreover have "heap_bridge cmp (swap_at xs i c) c"
    unfolding heap_bridge_def
  proof (intro allI impI)
    fix j assume j: "j < length (swap_at xs i c)" "0 < c \<and> 0 < j \<and> par j = c"
    then have "c < j" "cmp (xs ! c) (xs ! j) \<le> 0" using e [of j] i by auto
    with j i assms(2,4) show "cmp (swap_at xs i c ! par c) (swap_at xs i c ! j) \<le> 0"
      by (simp add: nth_list_update)
  qed
  ultimately show ?thesis by (simp add: down_ok_def)
qed

lemma down_done:
  assumes "down_ok cmp xs i" "\<forall>j < length xs. 0 < j \<and> par j = i \<longrightarrow> cmp (xs ! i) (xs ! j) \<le> 0"
  shows "heap_ordered cmp xs"
  using assms unfolding down_ok_def heap_edges_def heap_ordered_def by metis

lemma ordered_min:
  assumes "heap_ordered cmp xs" "i < length xs"
  shows "cmp (xs ! 0) (xs ! i) \<le> 0"
  using assms(2)
proof (induction i rule: less_induct)
  case (less i)
  show ?case
  proof (cases "i = 0")
    case False
    then have "par i < i" "par i < length xs" using less.prems by auto
    with less.IH have "cmp (xs ! 0) (xs ! par i) \<le> 0" by blast
    moreover have "cmp (xs ! par i) (xs ! i) \<le> 0" using assms(1) False less.prems by (simp add: heap_ordered_def)
    ultimately show ?thesis by (rule cmp_trans)
  qed (simp add: cmp_refl)
qed

lemma replace_both_ok:
  assumes "heap_ordered cmp xs" "i < length xs"
  shows "both_ok cmp (xs[i := x]) i"
proof -
  have e: "cmp (xs ! par j) (xs ! j) \<le> 0" if "j < length xs" "0 < j" for j
    using assms(1) that by (simp add: heap_ordered_def)
  have "heap_edges cmp (xs[i := x]) (\<lambda>j. j \<noteq> i \<and> par j \<noteq> i)"
    unfolding heap_edges_def using e by simp
  moreover have "heap_bridge cmp (xs[i := x]) i"
    unfolding heap_bridge_def
  proof (intro allI impI, elim conjE)
    fix j assume j: "j < length (xs[i := x])" "0 < i" "0 < j" "par j = i"
    have ne: "i \<noteq> par i" "i \<noteq> j" using j by arith+
    have "cmp (xs ! par i) (xs ! i) \<le> 0" by (rule e [OF assms(2) j(2)])
    moreover have "cmp (xs ! i) (xs ! j) \<le> 0" using e [of j] j by simp
    ultimately have "cmp (xs ! par i) (xs ! j) \<le> 0" by (rule cmp_trans)
    then show "cmp (xs[i := x] ! par i) (xs[i := x] ! j) \<le> 0"
      by (simp only: nth_list_update_neq [OF ne(1)] nth_list_update_neq [OF ne(2)])
  qed
  ultimately show ?thesis by (simp add: both_ok_def)
qed

lemma both_down:
  assumes "both_ok cmp xs i" "i = 0 \<or> cmp (xs ! par i) (xs ! i) \<le> 0"
  shows "down_ok cmp xs i"
proof -
  have "cmp (xs ! par j) (xs ! j) \<le> 0" if "j < length xs" "0 < j" "par j \<noteq> i" for j
  proof (cases "j = i")
    case False
    with that assms(1) show ?thesis unfolding both_ok_def heap_edges_def by blast
  qed (use that assms(2) in blast)
  then have "heap_edges cmp xs (\<lambda>j. par j \<noteq> i)" unfolding heap_edges_def by blast
  with assms(1) show ?thesis unfolding down_ok_def both_ok_def by blast
qed

lemma both_up:
  assumes "both_ok cmp xs i" "0 < i" "0 < cmp (xs ! par i) (xs ! i)"
  shows "up_ok cmp xs i"
proof -
  have "cmp (xs ! i) (xs ! par i) \<le> 0" using cmp_total assms(3) by blast
  then have "cmp (xs ! par j) (xs ! j) \<le> 0" if "j < length xs" "0 < j" "j \<noteq> i" for j
    using assms(1,2) that cmp_trans [of "xs ! i" "xs ! par i" "xs ! j"]
    unfolding both_ok_def heap_edges_def heap_bridge_def by (cases "par j = i") blast+
  then have "heap_edges cmp xs (\<lambda>j. j \<noteq> i)" unfolding heap_edges_def by blast
  with assms(1) show ?thesis unfolding up_ok_def both_ok_def by blast
qed

end

subsection \<open>The key index\<close>

definition hp_pos :: "'d heap_elem list \<Rightarrow> u64 \<rightharpoonup> int" where
  "hp_pos es = map_of (map (\<lambda>i. (he_key (es ! i), int i)) [0..<length es])"

text \<open>With the direct option, the index holds every key's position, except for the keys of \<open>X\<close>.\<close>

definition hp_indexed :: "u64 set \<Rightarrow> 'd binary_heap \<Rightarrow> bool" where
  "hp_indexed X hp \<longleftrightarrow> (HAS_DIRECT_OPTION hp \<longrightarrow>
    distinct (map he_key (hp_elems hp)) \<and>
    (\<exists>m. hp_key_index hp = Some m \<and> hm_inv64 m \<and>
      (\<forall>k. k \<notin> X \<longrightarrow> hm_abs m k = hp_pos (hp_elems hp) k)))"

lemma hp_pos_Some:
  assumes "distinct (map he_key es)"
  shows "hp_pos es k = Some v \<longleftrightarrow> (\<exists>i < length es. he_key (es ! i) = k \<and> v = int i)"
proof -
  have "map fst (map (\<lambda>i. (he_key (es ! i), int i)) [0..<length es]) = map he_key es"
    by (rule nth_equalityI) simp_all
  with assms show ?thesis
    unfolding hp_pos_def by (subst map_of_eq_Some_iff) auto
qed

lemma hp_pos_None: "hp_pos es k = None \<longleftrightarrow> k \<notin> he_key ` set es"
  by (force simp: hp_pos_def map_of_eq_None_iff image_iff in_set_conv_nth Bex_def)

lemma distinct_key_nth:
  "distinct (map he_key es) \<Longrightarrow> i < length es \<Longrightarrow> j < length es \<Longrightarrow>
   he_key (es ! i) = he_key (es ! j) \<longleftrightarrow> i = j"
  by (metis length_map nth_eq_iff_index_eq nth_map)

lemma distinct_keys_mset:
  "mset xs = mset ys \<Longrightarrow> distinct (map he_key xs) \<longleftrightarrow> distinct (map he_key ys)"
  by (metis mset_map mset_eq_imp_distinct_iff)

lemma hp_pos_eqI:
  assumes "distinct (map he_key es)"
    and "\<And>i. i < length es \<Longrightarrow> f (he_key (es ! i)) = Some (int i)"
    and "k \<notin> he_key ` set es \<Longrightarrow> f k = None"
  shows "hp_pos es k = f k"
proof (cases "k \<in> he_key ` set es")
  case True
  then obtain i where "i < length es" "k = he_key (es ! i)" by (auto simp: in_set_conv_nth)
  with assms(1,2) show ?thesis by (simp add: hp_pos_Some)
next
  case False
  with assms(3) show ?thesis by (simp add: hp_pos_None)
qed

lemma hp_pos_nth: "distinct (map he_key es) \<Longrightarrow> i < length es \<Longrightarrow> hp_pos es (he_key (es ! i)) = Some (int i)"
  by (auto simp: hp_pos_Some)

lemma set_swap_at: "i < length es \<Longrightarrow> j < length es \<Longrightarrow> set (swap_at es i j) = set es"
  by simp

lemma hp_pos_swap:
  assumes "distinct (map he_key es)" "i < length es" "j < length es" "i \<noteq> j"
  shows "hp_pos (swap_at es i j) =
    (hp_pos es)(he_key (es ! j) \<mapsto> int i, he_key (es ! i) \<mapsto> int j)"
proof
  fix k
  have d: "distinct (map he_key (swap_at es i j))"
    using assms distinct_keys_mset [of "swap_at es i j" es] by (simp add: mset_swap)
  show "hp_pos (swap_at es i j) k = ((hp_pos es)(he_key (es ! j) \<mapsto> int i, he_key (es ! i) \<mapsto> int j)) k"
  proof (rule hp_pos_eqI [OF d])
    fix l assume "l < length (swap_at es i j)"
    with assms show "((hp_pos es)(he_key (es ! j) \<mapsto> int i, he_key (es ! i) \<mapsto> int j))
        (he_key (swap_at es i j ! l)) = Some (int l)"
      by (auto simp: nth_list_update distinct_key_nth hp_pos_nth)
  next
    assume "k \<notin> he_key ` set (swap_at es i j)"
    then have "k \<notin> he_key ` set es" using assms by (simp add: set_swap_at)
    then have "k \<noteq> he_key (es ! i)" "k \<noteq> he_key (es ! j)" "hp_pos es k = None"
      using assms(2,3) by (auto simp: hp_pos_None)
    then show "((hp_pos es)(he_key (es ! j) \<mapsto> int i, he_key (es ! i) \<mapsto> int j)) k = None" by simp
  qed
qed

lemma hp_pos_append:
  assumes "distinct (map he_key (es @ [e]))"
  shows "hp_pos (es @ [e]) = (hp_pos es)(he_key e \<mapsto> int (length es))"
proof
  fix k
  show "hp_pos (es @ [e]) k = ((hp_pos es)(he_key e \<mapsto> int (length es))) k"
  proof (rule hp_pos_eqI [OF assms])
    fix i assume "i < length (es @ [e])"
    moreover have "he_key (es ! i) \<noteq> he_key e" if "i < length es"
    proof
      assume "he_key (es ! i) = he_key e"
      with nth_mem [OF that] have "he_key e \<in> he_key ` set es" by (metis imageI)
      with assms show False by simp
    qed
    ultimately show "((hp_pos es)(he_key e \<mapsto> int (length es))) (he_key ((es @ [e]) ! i)) = Some (int i)"
      using assms by (auto simp: nth_append hp_pos_nth less_Suc_eq)
  qed (use hp_pos_None [of es k] in auto)
qed

lemma hp_pos_delete:
  assumes "distinct (map he_key es)" "i < length es"
  shows "distinct (map he_key (butlast (es[i := last es])))"
    and "k \<noteq> he_key (last es) \<Longrightarrow>
      hp_pos (butlast (es[i := last es])) k = ((hp_pos es)(he_key (es ! i) := None)) k"
    and "i = length es - 1 \<Longrightarrow>
      hp_pos (butlast (es[i := last es])) k = ((hp_pos es)(he_key (es ! i) := None)) k"
proof -
  let ?es = "butlast (es[i := last es])"
  have m: "add_mset (es ! i) (mset ?es) = mset es" by (rule mset_swap_remove [OF assms(2)])
  have dd: "distinct (map he_key (es ! i # ?es))"
    using distinct_keys_mset [of "es ! i # ?es" es] m assms(1) by simp
  then show d: "distinct (map he_key ?es)" by simp
  have set: "he_key ` set es = insert (he_key (es ! i)) (he_key ` set ?es)"
    using arg_cong [OF m, of set_mset] by (metis image_insert set_mset_add_mset_insert set_mset_mset)
  have last: "last es = es ! (length es - 1)" using assms(2) by (intro last_conv_nth) auto
  have old: "((hp_pos es)(he_key (es ! i) := None)) (he_key (?es ! l)) = Some (int l)"
    if "l < length ?es" "l \<noteq> i" for l
    using that assms by (simp add: nth_butlast distinct_key_nth hp_pos_nth)
  show "hp_pos ?es k = ((hp_pos es)(he_key (es ! i) := None)) k" if k: "k \<noteq> he_key (last es)"
  proof (cases "k \<in> he_key ` set ?es")
    case True
    then obtain l where l: "l < length ?es" "k = he_key (?es ! l)" by (auto simp: in_set_conv_nth)
    with k assms(2) have "l \<noteq> i" by (auto simp: nth_butlast)
    with old [OF l(1)] l hp_pos_nth [OF d l(1)] show ?thesis by simp
  next
    case False
    with set have "k = he_key (es ! i) \<or> k \<notin> he_key ` set es" by auto
    with False show ?thesis by (auto simp flip: hp_pos_None)
  qed
  show "hp_pos ?es k = ((hp_pos es)(he_key (es ! i) := None)) k" if i: "i = length es - 1"
  proof (rule hp_pos_eqI [OF d])
    show "((hp_pos es)(he_key (es ! i) := None)) (he_key (?es ! l)) = Some (int l)" if "l < length ?es" for l
      using old [OF that] that i by simp
    show "((hp_pos es)(he_key (es ! i) := None)) k = None" if "k \<notin> he_key ` set ?es"
      using that set by (auto simp: hp_pos_None)
  qed
qed

lemma HAS_DIRECT_simps [simp]:
  "HAS_DIRECT_OPTION (hp\<lparr>hp_elems := es\<rparr>) = HAS_DIRECT_OPTION hp"
  "HAS_DIRECT_OPTION (hp\<lparr>hp_elems_alloc := n\<rparr>) = HAS_DIRECT_OPTION hp"
  "HAS_DIRECT_OPTION (hp\<lparr>hp_key_index := ki\<rparr>) = HAS_DIRECT_OPTION hp"
  "HAS_DIRECT_OPTION (hp_index_set k i hp) = HAS_DIRECT_OPTION hp"
  "HAS_DIRECT_OPTION (hp_index_remove k hp) = HAS_DIRECT_OPTION hp"
  by (simp_all add: HAS_DIRECT_OPTION_def hp_index_set_def hp_index_remove_def)

lemma heap_swap_simps [simp]:
  "hp_elems (heap_swap hp i j) = swap_at (hp_elems hp) i j"
  "hp_compare_func (heap_swap hp i j) = hp_compare_func hp"
  "hp_elems_alloc (heap_swap hp i j) = hp_elems_alloc hp"
  "HAS_DIRECT_OPTION (heap_swap hp i j) = HAS_DIRECT_OPTION hp"
  by (simp_all add: heap_swap_def Let_def hp_index_set_def)

lemma hp_indexed_swap:
  assumes "hp_indexed {he_key (hp_elems hp ! i)} hp \<or> hp_indexed {he_key (hp_elems hp ! j)} hp"
    and "i < hp_elems_num hp" "j < hp_elems_num hp" "i \<noteq> j"
  shows "hp_indexed {} (heap_swap hp i j)"
proof (cases "HAS_DIRECT_OPTION hp")
  case True
  let ?es = "hp_elems hp"
  from assms(1) True obtain m where m: "distinct (map he_key ?es)" "hp_key_index hp = Some m" "hm_inv64 m"
    "\<And>k. k \<noteq> he_key (?es ! i) \<Longrightarrow> k \<noteq> he_key (?es ! j) \<Longrightarrow> hm_abs m k = hp_pos ?es k"
    by (auto simp: hp_indexed_def)
  have "distinct (map he_key (swap_at ?es i j))"
    using m(1) assms(2,3) distinct_keys_mset [of "swap_at ?es i j" ?es] by (simp add: mset_swap)
  moreover have "hp_key_index (heap_swap hp i j) =
      Some (zbx_hashmap_set (zbx_hashmap_set m (he_key (?es ! j)) (int i)) (he_key (?es ! i)) (int j))"
    using True m(2) assms(2-4) by (simp add: heap_swap_def Let_def hp_index_set_def)
  ultimately show ?thesis
    using m(3,4) hp_pos_swap [OF m(1) assms(2-4)] by (simp add: hp_indexed_def)
qed (simp add: hp_indexed_def)

lemma hp_indexed_set:
  assumes "hp_indexed {he_key (hp_elems hp ! i)} hp" "i < hp_elems_num hp"
  shows "hp_indexed {} (hp_index_set (he_key (hp_elems hp ! i)) i hp)"
  using assms by (auto simp: hp_indexed_def hp_index_set_def hp_pos_nth)

lemma hp_indexed_weaken: "hp_indexed {} hp \<Longrightarrow> hp_indexed X hp"
  by (auto simp: hp_indexed_def)

subsection \<open>Bubbling\<close>

definition heap_frame :: "'d binary_heap \<Rightarrow> 'd binary_heap \<Rightarrow> bool" where
  "heap_frame hp hp' \<longleftrightarrow> mset (hp_elems hp') = mset (hp_elems hp) \<and>
    hp_compare_func hp' = hp_compare_func hp \<and> hp_elems_alloc hp' = hp_elems_alloc hp \<and>
    HAS_DIRECT_OPTION hp' = HAS_DIRECT_OPTION hp"

lemma heap_frame_refl [simp]: "heap_frame hp hp"
  by (simp add: heap_frame_def)

lemma heap_frame_swap:
  "i < hp_elems_num hp \<Longrightarrow> j < hp_elems_num hp \<Longrightarrow> heap_frame (heap_swap hp i j) hp' \<Longrightarrow> heap_frame hp hp'"
  by (simp add: heap_frame_def mset_swap)

lemma heap_frame_length: "heap_frame hp hp' \<Longrightarrow> hp_elems_num hp' = hp_elems_num hp"
  unfolding heap_frame_def by (metis mset_eq_length)

lemma bubble_up_stay:
  "i = 0 \<or> hp_compare_func hp (hp_elems hp ! par i) (hp_elems hp ! i) \<le> 0 \<Longrightarrow>
   binary_heap_bubble_up hp i = (hp, i)"
  by (auto simp: binary_heap_bubble_up.simps [of hp i])

lemma bubble_up_move:
  "0 < i \<Longrightarrow> 0 < hp_compare_func hp (hp_elems hp ! par i) (hp_elems hp ! i) \<Longrightarrow>
   binary_heap_bubble_up hp i = binary_heap_bubble_up (heap_swap hp (par i) i) (par i)"
  by (subst binary_heap_bubble_up.simps) simp

lemma bubble_up_le: "snd (binary_heap_bubble_up hp i) \<le> i"
proof (induction hp i rule: binary_heap_bubble_up.induct)
  case (1 hp i)
  show ?case
  proof (cases "i = 0 \<or> hp_compare_func hp (hp_elems hp ! par i) (hp_elems hp ! i) \<le> 0")
    case False
    then have "snd (binary_heap_bubble_up (heap_swap hp (par i) i) (par i)) \<le> par i"
      using 1 by auto
    also have "par i \<le> i" by simp
    finally show ?thesis using False by (simp add: bubble_up_move)
  qed (simp add: bubble_up_stay)
qed

lemma bubble_up_spec:
  assumes "heap_compare (hp_compare_func hp)" "i < hp_elems_num hp"
    and "up_ok (hp_compare_func hp) (hp_elems hp) i" "hp_indexed {he_key (hp_elems hp ! i)} hp"
    and "(hp', r) = binary_heap_bubble_up hp i"
  shows "heap_ordered (hp_compare_func hp) (hp_elems hp') \<and> heap_frame hp hp' \<and>
    (if r = i then hp' = hp else hp_indexed {} hp')"
  using assms
proof (induction hp i arbitrary: hp' r rule: binary_heap_bubble_up.induct)
  case (1 hp i)
  let ?cmp = "hp_compare_func hp"
  note up_done = heap_compare.up_done [OF "1.prems"(1)]
    and up_step = heap_compare.up_step [OF "1.prems"(1)]
  show ?case
  proof (cases "i = 0 \<or> ?cmp (hp_elems hp ! par i) (hp_elems hp ! i) \<le> 0")
    case True
    then show ?thesis using "1.prems"(3,5) up_done by (simp add: bubble_up_stay)
  next
    case False
    let ?hp = "heap_swap hp (par i) i"
    have i: "0 < i" "par i < hp_elems_num hp" "par i \<noteq> i" "par i < i" using False "1.prems"(2) by auto
    have eq: "(hp', r) = binary_heap_bubble_up ?hp (par i)"
      using "1.prems"(5) False by (simp add: bubble_up_move)
    have ix: "hp_indexed {} ?hp" using "1.prems"(2,4) i by (intro hp_indexed_swap) auto
    have "up_ok ?cmp (hp_elems ?hp) (par i)"
      using up_step [OF "1.prems"(3) i(1) "1.prems"(2)] False by simp
    with "1.IH" [of hp' r] False "1.prems"(1) i(2) ix eq
    have IH: "heap_ordered ?cmp (hp_elems hp')" "heap_frame ?hp hp'"
      "if r = par i then hp' = ?hp else hp_indexed {} hp'"
      by (simp_all add: hp_indexed_weaken)
    have "r < i" using bubble_up_le [of ?hp "par i"] i(4) eq by (metis le_less_trans snd_conv)
    moreover have "hp_indexed {} hp'" using IH(3) ix by (auto split: if_splits)
    moreover have "heap_frame hp hp'" using heap_frame_swap IH(2) i(2) "1.prems"(2) by blast
    ultimately show ?thesis using IH(1) by simp
  qed
qed

text \<open>
  One step of the downward loop: with \<open>c\<close> a child that is not above the other one, swap and go on
  when the element at \<open>i\<close> is above it.
\<close>

lemma bubble_down_cases:
  obtains (leaf) "hp_elems_num hp \<le> 2 * i + 1" "binary_heap_bubble_down hp i = (hp, i)"
  | (child) c where "c < hp_elems_num hp" "0 < c" "par c = i" "i < c"
      "c = 2 * i + 1 \<and> (hp_elems_num hp \<le> 2 * i + 2 \<or>
         hp_compare_func hp (hp_elems hp ! c) (hp_elems hp ! (2 * i + 2)) \<le> 0) \<or>
       c = 2 * i + 2 \<and> 0 < hp_compare_func hp (hp_elems hp ! (2 * i + 1)) (hp_elems hp ! c)"
      "binary_heap_bubble_down hp i =
        (if 0 < hp_compare_func hp (hp_elems hp ! i) (hp_elems hp ! c)
         then binary_heap_bubble_down (heap_swap hp i c) c else (hp, i))"
proof (cases "hp_elems_num hp \<le> 2 * i + 1")
  case True
  moreover then have "binary_heap_bubble_down hp i = (hp, i)"
    by (subst binary_heap_bubble_down.simps) (simp add: Let_def)
  ultimately show ?thesis using leaf by blast
next
  case False
  show ?thesis
  proof (cases "hp_elems_num hp \<le> 2 * i + 2")
    case True
    have leaf': "binary_heap_bubble_down (heap_swap hp i (2 * i + 1)) (2 * i + 1) =
        (heap_swap hp i (2 * i + 1), 2 * i + 1)"
      using True by (subst binary_heap_bubble_down.simps) (simp add: Let_def)
    show ?thesis
      by (rule child [of "2 * i + 1"])
        (use True False leaf' in \<open>simp_all add: Let_def binary_heap_bubble_down.simps [of hp i]\<close>)
  next
    case r: False
    show ?thesis
    proof (cases "hp_compare_func hp (hp_elems hp ! (2 * i + 1)) (hp_elems hp ! (2 * i + 2)) \<le> 0")
      case True
      show ?thesis
        by (rule child [of "2 * i + 1"])
          (use True r False in \<open>simp_all add: Let_def binary_heap_bubble_down.simps [of hp i]\<close>)
    next
      case f: False
      show ?thesis
        by (rule child [of "2 * i + 2"])
          (use f r False in \<open>simp_all add: Let_def binary_heap_bubble_down.simps [of hp i]\<close>)
    qed
  qed
qed

lemma par_cases: "0 < j \<Longrightarrow> par j = i \<Longrightarrow> j = 2 * i + 1 \<or> j = 2 * i + 2"
  by arith

lemma bubble_down_ge: "i \<le> snd (binary_heap_bubble_down hp i)"
proof (induction "hp_elems_num hp - i" arbitrary: hp i rule: less_induct)
  case less
  show ?case
  proof (cases rule: bubble_down_cases [of hp i])
    case (child c)
    then have "c \<le> snd (binary_heap_bubble_down (heap_swap hp i c) c)" by (intro less) auto
    with child show ?thesis by auto
  qed simp
qed

lemma bubble_down_spec:
  assumes "heap_compare (hp_compare_func hp)" "i < hp_elems_num hp"
    and "down_ok (hp_compare_func hp) (hp_elems hp) i" "hp_indexed {he_key (hp_elems hp ! i)} hp"
    and "(hp', r) = binary_heap_bubble_down hp i"
  shows "heap_ordered (hp_compare_func hp) (hp_elems hp') \<and> heap_frame hp hp' \<and>
    (if r = i then hp' = hp else hp_indexed {} hp')"
  using assms
proof (induction "hp_elems_num hp - i" arbitrary: hp i hp' r rule: less_induct)
  case less
  let ?cmp = "hp_compare_func hp" and ?es = "hp_elems hp"
  note down_done = heap_compare.down_done [OF less.prems(1)]
    and down_step = heap_compare.down_step [OF less.prems(1)]
    and cmp_refl = heap_compare.cmp_refl [OF less.prems(1)]
    and cmp_total = heap_compare.cmp_total [OF less.prems(1)]
    and cmp_trans = heap_compare.cmp_trans [OF less.prems(1)]
  show ?case
  proof (cases rule: bubble_down_cases [of hp i])
    case leaf
    have "heap_ordered ?cmp ?es"
    proof (rule down_done [OF less.prems(3)], intro allI impI, elim conjE)
      fix j assume "j < length ?es" "0 < j" "par j = i"
      with par_cases [of j i] leaf(1) show "?cmp (?es ! i) (?es ! j) \<le> 0" by auto
    qed
    then show ?thesis using less.prems(5) leaf(2) by simp
  next
    case (child c)
    have minc: "?cmp (?es ! c) (?es ! j) \<le> 0" if "j < length ?es" "0 < j" "par j = i" for j
      using par_cases [OF that(2,3)] child(5) cmp_refl cmp_total that(1) by auto
    show ?thesis
    proof (cases "0 < ?cmp (?es ! i) (?es ! c)")
      case False
      have "heap_ordered ?cmp ?es"
        using down_done [OF less.prems(3)] minc cmp_trans [of "?es ! i" "?es ! c"] False by (metis not_le)
      then show ?thesis using less.prems(5) child(6) False by simp
    next
      case True
      let ?hp = "heap_swap hp i c"
      have eq: "(hp', r) = binary_heap_bubble_down ?hp c" using less.prems(5) child(6) True by simp
      have ix: "hp_indexed {} ?hp" using less.prems(2,4) child(1,4) by (intro hp_indexed_swap) auto
      have "down_ok ?cmp (hp_elems ?hp) c"
        using down_step [OF less.prems(3) child(1-3) True] minc by simp
      with less.hyps [of ?hp c hp' r] less.prems(1,2) child(1,4) ix eq
      have IH: "heap_ordered ?cmp (hp_elems hp')" "heap_frame ?hp hp'"
        "if r = c then hp' = ?hp else hp_indexed {} hp'"
        by (simp_all add: hp_indexed_weaken)
      have "i < r" using bubble_down_ge [of c ?hp] child(4) eq by (metis less_le_trans snd_conv)
      moreover have "hp_indexed {} hp'" using IH(3) ix by (auto split: if_splits)
      moreover have "heap_frame hp hp'" using heap_frame_swap IH(2) child(1) less.prems(2) by blast
      ultimately show ?thesis using IH(1) by simp
    qed
  qed
qed

subsection \<open>The operations\<close>

definition hp_inv :: "'d binary_heap \<Rightarrow> bool" where
  "hp_inv hp \<longleftrightarrow> heap_ordered (hp_compare_func hp) (hp_elems hp) \<and> hp_indexed {} hp \<and>
    hp_elems_num hp \<le> hp_elems_alloc hp"

text \<open>Whether an insertion is refused.\<close>

definition hp_has_key :: "'d binary_heap \<Rightarrow> u64 \<Rightarrow> bool" where
  "hp_has_key hp k \<longleftrightarrow> k \<in> he_key ` set (hp_elems hp)"

lemma hp_index_get_pos:
  assumes "hp_indexed {} hp" "HAS_DIRECT_OPTION hp"
  shows "hp_index_get k hp = (case hp_pos (hp_elems hp) k of Some v \<Rightarrow> v | None \<Rightarrow> FAIL)"
  using assms by (auto simp: hp_indexed_def hp_index_get_def hashmap_index.get_abs split: option.splits)

lemma hp_index_get_cases:
  assumes "hp_indexed {} hp" "HAS_DIRECT_OPTION hp"
  obtains (absent) "hp_index_get k hp = FAIL" "\<not> hp_has_key hp k"
  | (present) i where "hp_index_get k hp = int i" "i < hp_elems_num hp" "he_key (hp_elems hp ! i) = k"
      "hp_has_key hp k"
proof (cases "hp_pos (hp_elems hp) k")
  case None
  then show ?thesis
    using absent hp_index_get_pos [OF assms, of k] by (simp add: hp_has_key_def flip: hp_pos_None)
next
  case (Some v)
  then obtain i where "i < hp_elems_num hp" "he_key (hp_elems hp ! i) = k" "v = int i"
    using hp_pos_Some [of "hp_elems hp" k v] assms by (auto simp: hp_indexed_def)
  with present [of i] hp_index_get_pos [OF assms, of k] Some show ?thesis
    by (auto simp: hp_has_key_def)
qed

lemma ensure_free_space_simps [simp]:
  assumes "hp_elems_num hp \<le> hp_elems_alloc hp"
  shows "hp_elems (binary_heap_ensure_free_space hp) = hp_elems hp"
    "hp_compare_func (binary_heap_ensure_free_space hp) = hp_compare_func hp"
    "hp_key_index (binary_heap_ensure_free_space hp) = hp_key_index hp"
    "HAS_DIRECT_OPTION (binary_heap_ensure_free_space hp) = HAS_DIRECT_OPTION hp"
    "hp_elems_num hp < hp_elems_alloc (binary_heap_ensure_free_space hp)"
  using assms by (auto simp: binary_heap_ensure_free_space_def)

lemma hp_index_set_simps [simp]:
  "hp_elems (hp_index_set k i hp) = hp_elems hp"
  "hp_compare_func (hp_index_set k i hp) = hp_compare_func hp"
  "hp_elems_alloc (hp_index_set k i hp) = hp_elems_alloc hp"
  "hp_elems (hp_index_remove k hp) = hp_elems hp"
  "hp_compare_func (hp_index_remove k hp) = hp_compare_func hp"
  "hp_elems_alloc (hp_index_remove k hp) = hp_elems_alloc hp"
  by (simp_all add: hp_index_set_def hp_index_remove_def)

lemma heap_insert_aux:
  assumes cmp: "heap_compare (hp_compare_func hp)" and inv: "hp_inv hp"
    and ok: "\<not> (HAS_DIRECT_OPTION hp \<and> hp_has_key hp (he_key e))"
  shows "\<exists>hp'. zbx_binary_heap_insert hp e = Inr hp' \<and> hp_inv hp' \<and>
    mset (hp_elems hp') = add_mset e (mset (hp_elems hp)) \<and> hp_compare_func hp' = hp_compare_func hp"
proof -
  let ?n = "hp_elems_num hp" and ?es = "hp_elems hp @ [e]" and ?cmp = "hp_compare_func hp"
  let ?hp1 = "binary_heap_ensure_free_space hp"
  let ?hp2 = "?hp1\<lparr>hp_elems := ?es\<rparr>"
  have o: "heap_ordered ?cmp (hp_elems hp)" "hp_indexed {} hp" "?n \<le> hp_elems_alloc hp"
    using inv by (simp_all add: hp_inv_def)
  note [simp] = ensure_free_space_simps [OF o(3)]
  have get: "hp_index_get (he_key e) hp = FAIL" if "HAS_DIRECT_OPTION hp"
    using hp_index_get_cases [OF o(2) that, of "he_key e"] ok that by blast
  have d: "distinct (map he_key ?es)" if "HAS_DIRECT_OPTION hp"
    using that ok o(2) by (auto simp: hp_indexed_def hp_has_key_def)
  have ix: "hp_indexed {he_key (hp_elems ?hp2 ! ?n)} ?hp2"
    using o(2) d hp_pos_append [OF d] by (auto simp: hp_indexed_def)
  have "par j < ?n" if "0 < j" "j < Suc ?n" for j using that by arith
  then have "heap_bridge ?cmp ?es ?n" by (fastforce simp: heap_bridge_def)
  moreover have "heap_edges ?cmp ?es (\<lambda>j. j \<noteq> ?n)"
    using o(1) by (auto simp: heap_edges_def heap_ordered_def nth_append)
  ultimately have up: "up_ok (hp_compare_func ?hp2) (hp_elems ?hp2) ?n"
    by (simp add: up_ok_def)
  obtain hp3 r where r: "(hp3, r) = binary_heap_bubble_up ?hp2 ?n" by (metis surj_pair)
  have spec: "heap_ordered ?cmp (hp_elems hp3)" "heap_frame ?hp2 hp3"
    "if r = ?n then hp3 = ?hp2 else hp_indexed {} hp3"
    using bubble_up_spec [OF _ _ up ix r] cmp by simp_all
  have n3: "hp_elems_num hp3 = Suc ?n" using heap_frame_length [OF spec(2)] by simp
  define hp' where "hp' = (if HAS_DIRECT_OPTION hp3 \<and> r = hp_elems_num hp3 - 1
    then hp_index_set (he_key e) r hp3 else hp3)"
  have "zbx_binary_heap_insert hp e = Inr hp'"
    using get r by (auto simp: zbx_binary_heap_insert_def Let_def hp'_def split: prod.splits)
  moreover have "hp_indexed {} hp'"
  proof (cases "r = ?n")
    case True
    then have "hp3 = ?hp2" using spec(3) by simp
    with True hp_indexed_set [OF ix] show ?thesis
      by (auto simp: hp'_def) (simp add: hp_indexed_def)
  next
    case False
    then show ?thesis using spec(3) n3 by (simp add: hp'_def)
  qed
  moreover have "heap_frame ?hp2 hp3" by (rule spec(2))
  then have "mset (hp_elems hp') = add_mset e (mset (hp_elems hp))" "hp_compare_func hp' = ?cmp"
    "hp_elems_alloc hp' = hp_elems_alloc ?hp1"
    by (auto simp: heap_frame_def hp'_def)
  moreover have "hp_elems_num hp' = Suc ?n" using n3 by (simp add: hp'_def)
  ultimately show ?thesis
    using spec(1) Suc_leI [OF ensure_free_space_simps(5) [OF o(3)]] by (auto simp: hp_inv_def hp'_def)
qed

lemma heap_insert_duplicate_aux:
  assumes "hp_inv hp" "HAS_DIRECT_OPTION hp" "hp_has_key hp (he_key e)"
  shows "zbx_binary_heap_insert hp e =
    Inl (Exit_Fail ''inserting a duplicate key into a heap with direct option'')"
proof -
  have "hp_indexed {} hp" using assms(1) by (simp add: hp_inv_def)
  then have "hp_index_get (he_key e) hp \<noteq> FAIL"
    by (rule hp_index_get_cases [OF _ assms(2), of "he_key e"]) (use assms(3) in simp_all)
  with assms(2) show ?thesis by (simp add: zbx_binary_heap_insert_def)
qed

text \<open>
  What \<^verbatim>\<open>remove_min\<close> and \<^verbatim>\<open>remove_direct\<close> share: the element at \<open>i\<close> is dropped from the index,
  the last element is moved there and bubbled down.
\<close>

lemma heap_delete_indexed:
  assumes "hp_indexed {} hp" "i < hp_elems_num hp"
    and "hp1 = (if HAS_DIRECT_OPTION hp then hp_index_remove (he_key (hp_elems hp ! i)) hp else hp)"
    and "hp2 = hp1\<lparr>hp_elems := butlast ((hp_elems hp)[i := last (hp_elems hp)])\<rparr>"
  shows "i = hp_elems_num hp - 1 \<Longrightarrow> hp_indexed {} hp2"
    and "i < hp_elems_num hp - 1 \<Longrightarrow> hp_indexed {he_key (hp_elems hp2 ! i)} hp2"
proof -
  let ?es = "hp_elems hp"
  note del = hp_pos_delete [OF _ assms(2)]
  show "hp_indexed {} hp2" if "i = hp_elems_num hp - 1"
    using assms(1,3,4) del(1,3) that
    by (auto simp: hp_indexed_def hp_index_remove_def)
  show "hp_indexed {he_key (hp_elems hp2 ! i)} hp2" if "i < hp_elems_num hp - 1"
  proof -
    have "hp_elems hp2 ! i = last ?es" using that by (simp add: assms(4) nth_butlast)
    then show ?thesis
      using assms(1,3,4) del(1,2) by (auto simp: hp_indexed_def hp_index_remove_def)
  qed
qed

lemma heap_ordered_butlast: "heap_ordered cmp xs \<Longrightarrow> heap_ordered cmp (butlast xs)"
  by (auto simp: heap_ordered_def nth_butlast)

lemma heap_sink_aux:
  assumes cmp: "heap_compare (hp_compare_func hp)"
    and "i < hp_elems_num hp" "down_ok (hp_compare_func hp) (hp_elems hp) i"
    and "hp_indexed {he_key (hp_elems hp ! i)} hp" "hp_elems_num hp \<le> hp_elems_alloc hp"
    and "(hp1, r) = binary_heap_bubble_down hp i"
    and "hp' = (if HAS_DIRECT_OPTION hp1 \<and> r = i then hp_index_set (he_key (hp_elems hp1 ! i)) i hp1 else hp1)"
  shows "hp_inv hp' \<and> mset (hp_elems hp') = mset (hp_elems hp) \<and> hp_compare_func hp' = hp_compare_func hp"
proof -
  note spec = bubble_down_spec [OF cmp assms(2,3,4,6)]
  have f: "heap_frame hp hp1" using spec by blast
  have "hp_indexed {} hp'"
  proof (cases "r = i")
    case True
    then have "hp1 = hp" using spec by simp
    with True hp_indexed_set [OF assms(4,2)] show ?thesis
      by (auto simp: assms(7)) (simp add: hp_indexed_def)
  next
    case False
    with spec show ?thesis by (simp add: assms(7))
  qed
  then show ?thesis
    using spec f heap_frame_length [OF f] assms(5) by (auto simp: hp_inv_def assms(7) heap_frame_def)
qed

lemma hp_inv_index_remove:
  assumes "hp1 = (if HAS_DIRECT_OPTION hp then hp_index_remove k hp else hp)"
  shows "hp_elems hp1 = hp_elems hp" "hp_compare_func hp1 = hp_compare_func hp"
    "hp_elems_alloc hp1 = hp_elems_alloc hp" "HAS_DIRECT_OPTION hp1 = HAS_DIRECT_OPTION hp"
  by (simp_all add: assms)

lemma butlast_update_0: "Suc 0 < length xs \<Longrightarrow> (butlast xs)[0 := last xs] = butlast (xs[0 := last xs])"
  by (simp add: butlast_list_update)

lemma heap_remove_min_aux:
  assumes cmp: "heap_compare (hp_compare_func hp)" and inv: "hp_inv hp" and ne: "hp_elems hp \<noteq> []"
  shows "\<exists>hp'. zbx_binary_heap_remove_min hp = Inr hp' \<and> hp_inv hp' \<and>
    add_mset (hp_elems hp ! 0) (mset (hp_elems hp')) = mset (hp_elems hp) \<and>
    hp_compare_func hp' = hp_compare_func hp"
proof -
  let ?es = "hp_elems hp"
  define hp1 where "hp1 = (if HAS_DIRECT_OPTION hp then hp_index_remove (he_key (?es ! 0)) hp else hp)"
  note [simp] = hp_inv_index_remove [OF hp1_def]
  have o: "heap_ordered (hp_compare_func hp) ?es" "hp_indexed {} hp" "hp_elems_num hp \<le> hp_elems_alloc hp"
    using inv by (simp_all add: hp_inv_def)
  note ix = heap_delete_indexed [OF o(2) _ hp1_def refl]
  have m: "add_mset (?es ! 0) (mset (butlast (?es[0 := last ?es]))) = mset ?es"
    using ne by (intro mset_swap_remove) simp
  show ?thesis
  proof (cases "length ?es = 1")
    case True
    then have e: "butlast ?es = []" "butlast (?es[0 := last ?es]) = []" by (cases ?es; simp)+
    have "zbx_binary_heap_remove_min hp = Inr (hp1\<lparr>hp_elems := []\<rparr>)"
      using ne e by (simp add: zbx_binary_heap_remove_min_def Let_def flip: hp1_def)
    moreover have "hp_indexed {} (hp1\<lparr>hp_elems := []\<rparr>)" using ix(1) True e ne by simp
    ultimately show ?thesis using m e by (simp add: hp_inv_def heap_ordered_def)
  next
    case False
    with ne have n: "Suc 0 < length ?es" by (cases ?es) (auto simp: Suc_lessI)
    let ?hp3 = "hp1\<lparr>hp_elems := butlast (?es[0 := last ?es])\<rparr>"
    obtain hp4 r where r: "(hp4, r) = binary_heap_bubble_down ?hp3 0" by (metis surj_pair)
    define hp' where "hp' = (if HAS_DIRECT_OPTION hp4 \<and> r = 0
      then hp_index_set (he_key (hp_elems hp4 ! 0)) 0 hp4 else hp4)"
    have "butlast ?es \<noteq> []" "butlast (?es[0 := last ?es]) \<noteq> []" using n by (auto simp flip: length_greater_0_conv)
    then have "zbx_binary_heap_remove_min hp = Inr hp'"
      using ne n r [symmetric] butlast_update_0 [OF n]
      by (auto simp: zbx_binary_heap_remove_min_def Let_def hp'_def simp flip: hp1_def)
    moreover have "down_ok (hp_compare_func hp) ((butlast ?es)[0 := last ?es]) 0"
      using n by (intro heap_compare.both_down [OF cmp]
        heap_compare.replace_both_ok [OF cmp heap_ordered_butlast [OF o(1)]]) simp_all
    then have "down_ok (hp_compare_func hp) (butlast (?es[0 := last ?es])) 0"
      by (simp only: butlast_update_0 [OF n])
    then have "hp_inv hp' \<and> mset (hp_elems hp') = mset (hp_elems ?hp3) \<and>
        hp_compare_func hp' = hp_compare_func ?hp3"
      using cmp n ne o(3) ix(2) by (intro heap_sink_aux [OF _ _ _ _ _ r hp'_def]) simp_all
    ultimately show ?thesis using m by simp
  qed
qed

lemma heap_find_min_aux:
  assumes "heap_compare (hp_compare_func hp)" "hp_inv hp" "hp_elems hp \<noteq> []"
  shows "zbx_binary_heap_find_min hp = Inr (hp_elems hp ! 0) \<and>
    (\<forall>e \<in> set (hp_elems hp). hp_compare_func hp (hp_elems hp ! 0) e \<le> 0)"
  using assms heap_compare.ordered_min [OF assms(1), of "hp_elems hp"]
  by (auto simp: zbx_binary_heap_find_min_def hp_inv_def in_set_conv_nth)

text \<open>Removal by key: the index, the elements, and the order when nothing has to move up.\<close>

lemma heap_remove_direct_aux:
  assumes cmp: "heap_compare (hp_compare_func hp)" and inv: "hp_inv hp"
    and direct: "HAS_DIRECT_OPTION hp" and i: "i < hp_elems_num hp"
    and up: "i = 0 \<or> hp_compare_func hp (hp_elems hp ! par i) (last (hp_elems hp)) \<le> 0"
  shows "\<exists>hp'. zbx_binary_heap_remove_direct hp (he_key (hp_elems hp ! i)) = Inr hp' \<and> hp_inv hp' \<and>
    add_mset (hp_elems hp ! i) (mset (hp_elems hp')) = mset (hp_elems hp) \<and>
    hp_compare_func hp' = hp_compare_func hp"
proof -
  let ?es = "hp_elems hp" and ?k = "he_key (hp_elems hp ! i)"
  define hp1 where "hp1 = (if HAS_DIRECT_OPTION hp then hp_index_remove ?k hp else hp)"
  note [simp] = hp_inv_index_remove [OF hp1_def]
  have hp1: "hp_index_remove ?k hp = hp1" using direct by (simp add: hp1_def)
  have o: "heap_ordered (hp_compare_func hp) ?es" "hp_indexed {} hp" "hp_elems_num hp \<le> hp_elems_alloc hp"
    using inv by (simp_all add: hp_inv_def)
  have get: "hp_index_get ?k hp = int i"
    using hp_index_get_pos [OF o(2) direct, of ?k] hp_pos_nth [OF _ i] o(2) direct
    by (simp add: hp_indexed_def)
  note ix = heap_delete_indexed [OF o(2) i hp1_def refl]
  have m: "add_mset (?es ! i) (mset (butlast (?es[i := last ?es]))) = mset ?es"
    by (rule mset_swap_remove [OF i])
  show ?thesis
  proof (cases "i = length ?es - 1")
    case True
    then have e: "butlast (?es[i := last ?es]) = butlast ?es"
      by (simp add: butlast_list_update)
    have "zbx_binary_heap_remove_direct hp ?k = Inr (hp1\<lparr>hp_elems := butlast ?es\<rparr>)"
      using get True direct by (simp add: zbx_binary_heap_remove_direct_def Let_def hp1_def)
    moreover have "hp_indexed {} (hp1\<lparr>hp_elems := butlast ?es\<rparr>)" using ix(1) True e by simp
    ultimately show ?thesis
      using m e o heap_ordered_butlast [OF o(1)] by (simp add: hp_inv_def)
  next
    case False
    with i have n: "i < length ?es - 1" by simp
    have bl: "(butlast ?es)[i := last ?es] = butlast (?es[i := last ?es])"
      using n by (simp add: butlast_list_update)
    let ?hp3 = "hp1\<lparr>hp_elems := butlast (?es[i := last ?es])\<rparr>"
    obtain hp4 r where r: "(hp4, r) = binary_heap_bubble_down ?hp3 i" by (metis surj_pair)
    define hp' where "hp' = (if HAS_DIRECT_OPTION hp4 \<and> r = i
      then hp_index_set (he_key (hp_elems hp4 ! i)) i hp4 else hp4)"
    have down: "down_ok (hp_compare_func hp) ((butlast ?es)[i := last ?es]) i"
      using n up by (intro heap_compare.both_down [OF cmp]
        heap_compare.replace_both_ok [OF cmp heap_ordered_butlast [OF o(1)]])
        (auto simp: nth_butlast nth_list_update)
    then have "hp_inv hp' \<and> mset (hp_elems hp') = mset (hp_elems ?hp3) \<and>
        hp_compare_func hp' = hp_compare_func ?hp3"
      using cmp n o(3) ix(2) unfolding bl by (intro heap_sink_aux [OF _ _ _ _ _ r hp'_def]) simp_all
    moreover have "HAS_DIRECT_OPTION hp4"
    proof -
      have "heap_frame ?hp3 hp4"
        using bubble_down_spec [OF _ _ _ _ r] cmp n down ix(2) unfolding bl by simp
      then show ?thesis using direct by (simp add: heap_frame_def)
    qed
    then have "zbx_binary_heap_remove_direct hp ?k = Inr hp'"
      using get n direct r [symmetric] bl
      by (auto simp: zbx_binary_heap_remove_direct_def Let_def hp'_def hp1)
    ultimately show ?thesis using m by simp
  qed
qed

text \<open>
  An update by key restores the order when only the element in question is out of place, which is so
  when its data is replaced and also when what its data points to has changed.
\<close>

lemma heap_update_both_aux:
  assumes cmp: "heap_compare (hp_compare_func hp)"
    and o: "hp_indexed {} hp" "hp_elems_num hp \<le> hp_elems_alloc hp"
    and direct: "HAS_DIRECT_OPTION hp" and i: "i < hp_elems_num hp" "he_key (hp_elems hp ! i) = he_key e"
    and both: "both_ok (hp_compare_func hp) ((hp_elems hp)[i := e]) i"
  shows "\<exists>hp'. zbx_binary_heap_update_direct hp e = Inr hp' \<and> hp_inv hp' \<and>
    mset (hp_elems hp') = mset ((hp_elems hp)[i := e]) \<and> hp_compare_func hp' = hp_compare_func hp"
proof -
  let ?es = "hp_elems hp" and ?cmp = "hp_compare_func hp"
  let ?hp1 = "hp\<lparr>hp_elems := ?es[i := e]\<rparr>"
  have get: "hp_index_get (he_key e) hp = int i"
    using hp_index_get_pos [OF o(1) direct, of "he_key e"] hp_pos_nth [OF _ i(1)] o(1) direct i(2)
    by (simp add: hp_indexed_def)
  have keys: "map he_key (?es[i := e]) = map he_key ?es"
    using i by (simp add: map_update list_update_same_conv)
  have "hp_pos (?es[i := e]) = hp_pos ?es"
    unfolding hp_pos_def using i by (intro arg_cong [where f = map_of]) (auto simp: nth_list_update)
  with o(1) keys have ix: "hp_indexed {} ?hp1" by (simp add: hp_indexed_def)
  obtain hp2 r where r: "(hp2, r) = binary_heap_bubble_up ?hp1 i" by (metis surj_pair)
  have eq: "zbx_binary_heap_update_direct hp e =
      Inr (if i = r then fst (binary_heap_bubble_down hp2 i) else hp2)"
    using get direct r [symmetric] by (simp add: zbx_binary_heap_update_direct_def Let_def)
  show ?thesis
  proof (cases "i = 0 \<or> ?cmp (?es[i := e] ! par i) (?es[i := e] ! i) \<le> 0")
    case True
    then have hp2: "hp2 = ?hp1" "r = i" using r by (simp_all add: bubble_up_stay)
    obtain hp3 q where q: "(hp3, q) = binary_heap_bubble_down ?hp1 i" by (metis surj_pair)
    have down: "down_ok ?cmp (?es[i := e]) i" by (rule heap_compare.both_down [OF cmp both True])
    have spec: "heap_ordered ?cmp (hp_elems hp3)" "heap_frame ?hp1 hp3"
        "if q = i then hp3 = ?hp1 else hp_indexed {} hp3"
      using bubble_down_spec [OF _ _ _ _ q] cmp i down hp_indexed_weaken [OF ix] by simp_all
    have "hp_inv hp3"
      using spec ix heap_frame_length [OF spec(2)] o(2) by (auto simp: hp_inv_def heap_frame_def split: if_splits)
    moreover have "zbx_binary_heap_update_direct hp e = Inr hp3" using eq hp2 q by (metis fst_conv)
    ultimately show ?thesis using spec(2) by (simp add: heap_frame_def)
  next
    case False
    then have pos: "0 < i" "0 < ?cmp (?es[i := e] ! par i) (?es[i := e] ! i)" by auto
    have "up_ok ?cmp (?es[i := e]) i" by (rule heap_compare.both_up [OF cmp both pos])
    then have spec: "heap_ordered ?cmp (hp_elems hp2)" "heap_frame ?hp1 hp2"
        "if r = i then hp2 = ?hp1 else hp_indexed {} hp2"
      using bubble_up_spec [OF _ _ _ _ r] cmp i hp_indexed_weaken [OF ix] by simp_all
    have "binary_heap_bubble_up ?hp1 i = binary_heap_bubble_up (heap_swap ?hp1 (par i) i) (par i)"
      using pos by (intro bubble_up_move) simp_all
    with r bubble_up_le [of "heap_swap ?hp1 (par i) i" "par i"] have "r \<le> par i" by (metis snd_conv)
    with pos(1) have "r \<noteq> i" by auto
    moreover have "hp_inv hp2"
      using spec ix heap_frame_length [OF spec(2)] o(2) by (auto simp: hp_inv_def heap_frame_def split: if_splits)
    ultimately show ?thesis using spec(2) eq by (simp add: heap_frame_def)
  qed
qed

lemma heap_update_direct_aux:
  assumes cmp: "heap_compare (hp_compare_func hp)" and inv: "hp_inv hp"
    and direct: "HAS_DIRECT_OPTION hp" and i: "i < hp_elems_num hp" "he_key (hp_elems hp ! i) = he_key e"
  shows "\<exists>hp'. zbx_binary_heap_update_direct hp e = Inr hp' \<and> hp_inv hp' \<and>
    mset (hp_elems hp') = mset ((hp_elems hp)[i := e]) \<and> hp_compare_func hp' = hp_compare_func hp"
proof (rule heap_update_both_aux [OF cmp _ _ direct i])
  show "hp_indexed {} hp" "hp_elems_num hp \<le> hp_elems_alloc hp" using inv by (simp_all add: hp_inv_def)
  show "both_ok (hp_compare_func hp) ((hp_elems hp)[i := e]) i"
    using inv by (intro heap_compare.replace_both_ok [OF cmp _ i(1)]) (simp add: hp_inv_def)
qed

text \<open>No operation changes the options.\<close>

lemma heap_swap_options [simp]: "hp_options (heap_swap hp i j) = hp_options hp"
  by (simp add: heap_swap_def Let_def hp_index_set_def)

lemma bubble_up_options: "binary_heap_bubble_up hp i = (hp', r) \<Longrightarrow> hp_options hp' = hp_options hp"
proof (induction hp i rule: binary_heap_bubble_up.induct)
  case (1 hp i)
  then show ?case by (subst (asm) (2) binary_heap_bubble_up.simps) (auto split: if_splits)
qed

lemma bubble_down_options: "binary_heap_bubble_down hp i = (hp', r) \<Longrightarrow> hp_options hp' = hp_options hp"
proof (induction "hp_elems_num hp - i" arbitrary: hp i rule: less_induct)
  case less
  show ?case
  proof (cases rule: bubble_down_cases [of hp i])
    case leaf
    with less.prems show ?thesis by simp
  next
    case (child c)
    with less.prems less.hyps [of "heap_swap hp i c" c] show ?thesis by (auto split: if_splits)
  qed
qed

lemma hp_index_options [simp]:
  "hp_options (hp_index_set k i hp) = hp_options hp" "hp_options (hp_index_remove k hp) = hp_options hp"
  by (simp_all add: hp_index_set_def hp_index_remove_def)

lemma ensure_free_space_options [simp]: "hp_options (binary_heap_ensure_free_space hp) = hp_options hp"
  by (simp add: binary_heap_ensure_free_space_def)

lemma heap_op_options:
  "zbx_binary_heap_insert hp e = Inr hp' \<Longrightarrow> hp_options hp' = hp_options hp"
  "zbx_binary_heap_update_direct hp e = Inr hp' \<Longrightarrow> hp_options hp' = hp_options hp"
  "zbx_binary_heap_remove_min hp = Inr hp' \<Longrightarrow> hp_options hp' = hp_options hp"
  "zbx_binary_heap_remove_direct hp k = Inr hp' \<Longrightarrow> hp_options hp' = hp_options hp"
proof -
  show "zbx_binary_heap_insert hp e = Inr hp' \<Longrightarrow> hp_options hp' = hp_options hp"
    by (auto simp: zbx_binary_heap_insert_def Let_def dest!: bubble_up_options split: if_splits prod.splits)
  show "zbx_binary_heap_update_direct hp e = Inr hp' \<Longrightarrow> hp_options hp' = hp_options hp"
    unfolding zbx_binary_heap_update_direct_def Let_def
    by (auto dest!: bubble_up_options split: if_splits prod.splits)
      (metis bubble_down_options prod.collapse)
  show "zbx_binary_heap_remove_min hp = Inr hp' \<Longrightarrow> hp_options hp' = hp_options hp"
    by (auto simp: zbx_binary_heap_remove_min_def Let_def dest!: bubble_down_options split: if_splits prod.splits)
  show "zbx_binary_heap_remove_direct hp k = Inr hp' \<Longrightarrow> hp_options hp' = hp_options hp"
    by (auto simp: zbx_binary_heap_remove_direct_def Let_def dest!: bubble_down_options split: if_splits prod.splits)
qed

lemma HAS_DIRECT_cong: "hp_options hp' = hp_options hp \<Longrightarrow> HAS_DIRECT_OPTION hp' = HAS_DIRECT_OPTION hp"
  by (simp add: HAS_DIRECT_OPTION_def)

subsection \<open>What the heap promises\<close>

text \<open>The three-way comparison of two numbers that the comparison functions of the program compute.\<close>

definition cmp3 :: "int \<Rightarrow> int \<Rightarrow> int" where
  "cmp3 a b = (if a < b then - 1 else if b < a then 1 else 0)"

lemma cmp3_le [simp]: "cmp3 a b \<le> 0 \<longleftrightarrow> a \<le> b" "0 < cmp3 a b \<longleftrightarrow> b < a"
  by (auto simp: cmp3_def)

lemma heap_compare_cmp3: "heap_compare (\<lambda>a b. cmp3 (f a) (f b))"
  by unfold_locales auto

lemma hp_inv_create: "hp_inv (zbx_binary_heap_create cmp options)"
proof -
  have "hp_inv (zbx_binary_heap_create cmp options)" if "HAS_DIRECT_OPTION (zbx_binary_heap_create cmp options)"
    using that
    by (auto simp: hp_inv_def zbx_binary_heap_create_def Let_def heap_ordered_def hp_indexed_def
        hm_inv64_def hm_create_ext_spec hp_pos_def split: if_splits)
  then show ?thesis
    by (auto simp: hp_inv_def zbx_binary_heap_create_def Let_def heap_ordered_def hp_indexed_def)
qed

text \<open>
  C11. Inserting into a heap either fails, exactly when the direct option is set and the key is
  already present, or yields a heap in order, with a key index that agrees with the positions, that
  holds the old elements and the new one.
\<close>

theorem heap_insert:
  assumes "heap_compare (hp_compare_func hp)" "hp_inv hp"
  shows "case zbx_binary_heap_insert hp e of
      Inl err \<Rightarrow> HAS_DIRECT_OPTION hp \<and> hp_has_key hp (he_key e) \<and>
        err = Exit_Fail ''inserting a duplicate key into a heap with direct option''
    | Inr hp' \<Rightarrow> (HAS_DIRECT_OPTION hp \<longrightarrow> \<not> hp_has_key hp (he_key e)) \<and> hp_inv hp' \<and>
        mset (hp_elems hp') = add_mset e (mset (hp_elems hp)) \<and> hp_compare_func hp' = hp_compare_func hp"
proof (cases "HAS_DIRECT_OPTION hp \<and> hp_has_key hp (he_key e)")
  case True
  then show ?thesis using heap_insert_duplicate_aux [OF assms(2)] by simp
next
  case False
  from heap_insert_aux [OF assms this] show ?thesis using False by auto
qed

text \<open>A direct heap of numbers, filled in an order that never needs a swap.\<close>

abbreviation num_elem :: "int \<Rightarrow> int heap_elem" where
  "num_elem i \<equiv> \<lparr>he_key = word_of_int i, he_data = i\<rparr>"

definition num_compare :: "int heap_elem \<Rightarrow> int heap_elem \<Rightarrow> int" where
  "num_compare a b = cmp3 (he_data a) (he_data b)"

fun heap_insert_all :: "'d binary_heap \<Rightarrow> 'd heap_elem list \<Rightarrow> fatal + 'd binary_heap" where
  "heap_insert_all hp [] = Inr hp"
| "heap_insert_all hp (e # es) =
    (case zbx_binary_heap_insert hp e of Inl err \<Rightarrow> Inl err | Inr hp' \<Rightarrow> heap_insert_all hp' es)"

lemma heap_compare_num: "heap_compare num_compare"
  unfolding num_compare_def by (rule heap_compare_cmp3)

lemma heap_insert_stay:
  assumes "heap_compare (hp_compare_func hp)" "hp_inv hp" "\<not> hp_has_key hp (he_key e)"
    and stay: "hp_elems hp = [] \<or>
      hp_compare_func hp (hp_elems hp ! par (length (hp_elems hp))) e \<le> 0"
  obtains hp' where "zbx_binary_heap_insert hp e = Inr hp'" "hp_inv hp'"
    "hp_elems hp' = hp_elems hp @ [e]" "hp_compare_func hp' = hp_compare_func hp"
    "HAS_DIRECT_OPTION hp' = HAS_DIRECT_OPTION hp"
proof -
  obtain hp' where hp': "zbx_binary_heap_insert hp e = Inr hp'" "hp_inv hp'"
    "hp_compare_func hp' = hp_compare_func hp"
    using heap_insert_aux [OF assms(1,2)] assms(3) by blast
  let ?hp2 = "(binary_heap_ensure_free_space hp)\<lparr>hp_elems := hp_elems hp @ [e]\<rparr>"
  have n: "hp_elems_num hp \<le> hp_elems_alloc hp" using assms(2) by (simp add: hp_inv_def)
  note [simp] = ensure_free_space_simps [OF n]
  have "par (hp_elems_num hp) < hp_elems_num hp" if "hp_elems hp \<noteq> []" using that by (cases "hp_elems hp") auto
  then have "binary_heap_bubble_up ?hp2 (hp_elems_num hp) = (?hp2, hp_elems_num hp)"
    using stay by (intro bubble_up_stay) (auto simp: nth_append)
  with hp'(1) have "hp_elems hp' = hp_elems hp @ [e]" "HAS_DIRECT_OPTION hp' = HAS_DIRECT_OPTION hp"
    by (auto simp: zbx_binary_heap_insert_def Let_def split: if_splits)
  with hp' that show ?thesis by blast
qed

lemma heap_build:
  assumes "heap_compare (hp_compare_func hp)" "hp_inv hp" "distinct (map he_key (hp_elems hp @ es))"
    and "heap_ordered (hp_compare_func hp) (hp_elems hp @ es)"
  obtains hp' where "heap_insert_all hp es = Inr hp'" "hp_inv hp'" "hp_elems hp' = hp_elems hp @ es"
    "hp_compare_func hp' = hp_compare_func hp" "HAS_DIRECT_OPTION hp' = HAS_DIRECT_OPTION hp"
  using assms
proof (induction es arbitrary: hp thesis)
  case (Cons e es)
  let ?n = "hp_elems_num hp"
  have "hp_compare_func hp (hp_elems hp ! par ?n) e \<le> 0" if "hp_elems hp \<noteq> []"
  proof -
    have "par ?n < ?n" "0 < ?n" using that by (cases "hp_elems hp"; simp)+
    with Cons.prems(5) show ?thesis
      by (auto simp: heap_ordered_def nth_append dest!: spec [of _ ?n])
  qed
  moreover have "\<not> hp_has_key hp (he_key e)" using Cons.prems(4) by (auto simp: hp_has_key_def)
  ultimately obtain hp1 where hp1: "zbx_binary_heap_insert hp e = Inr hp1" "hp_inv hp1"
    "hp_elems hp1 = hp_elems hp @ [e]" "hp_compare_func hp1 = hp_compare_func hp"
    "HAS_DIRECT_OPTION hp1 = HAS_DIRECT_OPTION hp"
    using heap_insert_stay [OF Cons.prems(2,3)] by metis
  obtain hp' where "heap_insert_all hp1 es = Inr hp'" "hp_inv hp'" "hp_elems hp' = hp_elems hp1 @ es"
    "hp_compare_func hp' = hp_compare_func hp1" "HAS_DIRECT_OPTION hp' = HAS_DIRECT_OPTION hp1"
    using Cons.IH [of hp1] Cons.prems hp1 by (metis append.assoc append_Cons append_Nil)
  with hp1 show ?case by (intro Cons.prems(1) [of hp']) simp_all
qed simp

lemma num_heap:
  assumes "distinct (map word_of_int is :: u64 list)"
    and "heap_ordered num_compare (map num_elem is)"
  obtains hp where
    "heap_insert_all (zbx_binary_heap_create num_compare ZBX_BINARY_HEAP_OPTION_DIRECT) (map num_elem is) = Inr hp"
    "hp_inv hp" "hp_elems hp = map num_elem is" "hp_compare_func hp = num_compare" "HAS_DIRECT_OPTION hp"
proof -
  let ?hp = "zbx_binary_heap_create num_compare ZBX_BINARY_HEAP_OPTION_DIRECT"
  have "hp_compare_func ?hp = num_compare" "hp_elems ?hp = []" "HAS_DIRECT_OPTION ?hp"
    by (simp_all add: zbx_binary_heap_create_def Let_def HAS_DIRECT_OPTION_def ZBX_BINARY_HEAP_OPTION_DIRECT_def)
  with that heap_build [of ?hp "map num_elem is"] assms heap_compare_num hp_inv_create show ?thesis
    by (auto simp: comp_def)
qed

lemma heap_insert_witness:
  "case zbx_binary_heap_insert (zbx_binary_heap_create num_compare ZBX_BINARY_HEAP_OPTION_DIRECT) (num_elem 7) of
      Inl err \<Rightarrow> False | Inr hp' \<Rightarrow> hp_inv hp' \<and> mset (hp_elems hp') = {#num_elem 7#}"
  using heap_insert [of "zbx_binary_heap_create num_compare ZBX_BINARY_HEAP_OPTION_DIRECT" "num_elem 7"]
    heap_compare_num hp_inv_create [of num_compare ZBX_BINARY_HEAP_OPTION_DIRECT]
  by (auto simp: zbx_binary_heap_create_def Let_def hp_has_key_def split: sum.splits if_splits)

text \<open>
  C12. From a heap that is not empty, \<^verbatim>\<open>find_min\<close> returns an element that no element is below, and
  \<^verbatim>\<open>remove_min\<close> takes exactly that element out and leaves a heap in order with an index that agrees.
\<close>

theorem heap_min:
  assumes "heap_compare (hp_compare_func hp)" "hp_inv hp" "hp_elems hp \<noteq> []"
  shows "\<exists>e hp'. zbx_binary_heap_find_min hp = Inr e \<and> (\<forall>x \<in> set (hp_elems hp). hp_compare_func hp e x \<le> 0) \<and>
    zbx_binary_heap_remove_min hp = Inr hp' \<and> hp_inv hp' \<and>
    add_mset e (mset (hp_elems hp')) = mset (hp_elems hp) \<and> hp_compare_func hp' = hp_compare_func hp"
  using heap_find_min_aux [OF assms] heap_remove_min_aux [OF assms] by blast

lemma heap_min_witness:
  "\<exists>hp e hp'. heap_insert_all (zbx_binary_heap_create num_compare ZBX_BINARY_HEAP_OPTION_DIRECT)
      (map num_elem [1, 5, 3]) = Inr hp \<and> zbx_binary_heap_find_min hp = Inr e \<and>
    zbx_binary_heap_remove_min hp = Inr hp' \<and> hp_inv hp' \<and>
    add_mset e (mset (hp_elems hp')) = mset (map num_elem [1, 5, 3])"
proof -
  obtain hp where hp: "heap_insert_all (zbx_binary_heap_create num_compare ZBX_BINARY_HEAP_OPTION_DIRECT)
      (map num_elem [1, 5, 3]) = Inr hp"
    "hp_inv hp" "hp_elems hp = map num_elem [1, 5, 3]" "hp_compare_func hp = num_compare"
    by (rule num_heap [of "[1, 5, 3]"])
      (simp_all add: heap_ordered_def num_compare_def nth_Cons' less_Suc_eq)
  with heap_min [of hp] heap_compare_num show ?thesis by auto
qed

text \<open>
  Updating by key replaces exactly the element with that key, whether it has to move up or
  down, and fails exactly when the heap is not direct or the key is absent.
\<close>

theorem heap_update_direct:
  assumes "heap_compare (hp_compare_func hp)" "hp_inv hp"
  shows "case zbx_binary_heap_update_direct hp e of
      Inl err \<Rightarrow> \<not> HAS_DIRECT_OPTION hp \<or> \<not> hp_has_key hp (he_key e)
    | Inr hp' \<Rightarrow> hp_inv hp' \<and> hp_compare_func hp' = hp_compare_func hp \<and>
        (\<exists>i < hp_elems_num hp. he_key (hp_elems hp ! i) = he_key e \<and>
          mset (hp_elems hp') = mset ((hp_elems hp)[i := e]))"
proof (cases "HAS_DIRECT_OPTION hp")
  case True
  have ix: "hp_indexed {} hp" using assms(2) by (simp add: hp_inv_def)
  show ?thesis
  proof (rule hp_index_get_cases [OF ix True, of "he_key e"])
    assume "hp_index_get (he_key e) hp = FAIL" "\<not> hp_has_key hp (he_key e)"
    then show ?thesis using True by (simp add: zbx_binary_heap_update_direct_def Let_def)
  next
    fix i assume i: "i < hp_elems_num hp" "he_key (hp_elems hp ! i) = he_key e"
    from heap_update_direct_aux [OF assms True this] i show ?thesis by auto
  qed
qed (simp add: zbx_binary_heap_update_direct_def)

lemma heap_update_direct_witness:
  "\<exists>hp hp'. heap_insert_all (zbx_binary_heap_create num_compare ZBX_BINARY_HEAP_OPTION_DIRECT)
      (map num_elem [1, 5, 3]) = Inr hp \<and>
    zbx_binary_heap_update_direct hp \<lparr>he_key = 1, he_data = 9\<rparr> = Inr hp' \<and> hp_inv hp' \<and>
    he_data ` set (hp_elems hp') = {9, 5, 3}"
proof -
  obtain hp where hp: "heap_insert_all (zbx_binary_heap_create num_compare ZBX_BINARY_HEAP_OPTION_DIRECT)
      (map num_elem [1, 5, 3]) = Inr hp"
    "hp_inv hp" "hp_elems hp = map num_elem [1, 5, 3]" "hp_compare_func hp = num_compare" "HAS_DIRECT_OPTION hp"
    by (rule num_heap [of "[1, 5, 3]"])
      (simp_all add: heap_ordered_def num_compare_def nth_Cons' less_Suc_eq)
  have "hp_has_key hp 1" by (simp add: hp_has_key_def hp(3))
  with heap_update_direct [of hp "\<lparr>he_key = 1, he_data = 9\<rparr>"] heap_compare_num hp(2,4,5)
  obtain hp' i where hp': "zbx_binary_heap_update_direct hp \<lparr>he_key = 1, he_data = 9\<rparr> = Inr hp'" "hp_inv hp'"
    "i < hp_elems_num hp" "he_key (hp_elems hp ! i) = 1"
    "mset (hp_elems hp') = mset ((hp_elems hp)[i := \<lparr>he_key = 1, he_data = 9\<rparr>])"
    by (auto split: sum.splits)
  from hp'(3,4) have "i = 0" by (auto simp: hp(3) nth_Cons' less_Suc_eq split: if_splits)
  with arg_cong [OF hp'(5), of set_mset] have "he_data ` set (hp_elems hp') = {9, 5, 3}" by (simp add: hp(3))
  with hp(1) hp'(1,2) show ?thesis by blast
qed

text \<open>
  Removing by key takes exactly the element with that key out and keeps heap order and index,
  provided that the last element, which fills the hole, is not below the parent of the hole.
\<close>

theorem heap_remove_direct:
  assumes "heap_compare (hp_compare_func hp)" "hp_inv hp" "HAS_DIRECT_OPTION hp" "i < hp_elems_num hp"
    and "i = 0 \<or> hp_compare_func hp (hp_elems hp ! ((i - 1) div 2)) (last (hp_elems hp)) \<le> 0"
  shows "\<exists>hp'. zbx_binary_heap_remove_direct hp (he_key (hp_elems hp ! i)) = Inr hp' \<and> hp_inv hp' \<and>
    add_mset (hp_elems hp ! i) (mset (hp_elems hp')) = mset (hp_elems hp)"
  using heap_remove_direct_aux [OF assms] by blast

lemma heap_remove_direct_witness:
  "\<exists>hp hp'. heap_insert_all (zbx_binary_heap_create num_compare ZBX_BINARY_HEAP_OPTION_DIRECT)
      (map num_elem [1, 5, 3, 8, 7]) = Inr hp \<and> zbx_binary_heap_remove_direct hp 5 = Inr hp' \<and> hp_inv hp' \<and>
    add_mset (num_elem 5) (mset (hp_elems hp')) = mset (map num_elem [1, 5, 3, 8, 7])"
proof -
  obtain hp where hp: "heap_insert_all (zbx_binary_heap_create num_compare ZBX_BINARY_HEAP_OPTION_DIRECT)
      (map num_elem [1, 5, 3, 8, 7]) = Inr hp"
    "hp_inv hp" "hp_elems hp = map num_elem [1, 5, 3, 8, 7]" "hp_compare_func hp = num_compare" "HAS_DIRECT_OPTION hp"
    by (rule num_heap [of "[1, 5, 3, 8, 7]"])
      (simp_all add: heap_ordered_def num_compare_def nth_Cons' less_Suc_eq)
  with heap_remove_direct [of hp 1] heap_compare_num show ?thesis by (auto simp: num_compare_def)
qed

text \<open>
  C13. The proviso is needed: \<^verbatim>\<open>zbx_binary_heap_remove_direct\<close> never bubbles up. A heap filled with
  1, 10, 2, 11, 12, 20, 3, from which 11 is removed by key and then the minimum twice, answers
  \<^verbatim>\<open>find_min\<close> with 10 although 3 is still in it.
\<close>

theorem heap_remove_direct_wrong_min:
  "\<exists>hp hp1 hp2 hp3. heap_insert_all (zbx_binary_heap_create num_compare ZBX_BINARY_HEAP_OPTION_DIRECT)
      (map num_elem [1, 10, 2, 11, 12, 20, 3]) = Inr hp \<and>
    zbx_binary_heap_remove_direct hp 11 = Inr hp1 \<and>
    zbx_binary_heap_remove_min hp1 = Inr hp2 \<and> zbx_binary_heap_remove_min hp2 = Inr hp3 \<and>
    zbx_binary_heap_find_min hp3 = Inr (num_elem 10) \<and> num_elem 3 \<in> set (hp_elems hp3)"
proof -
  obtain hp where hp: "heap_insert_all (zbx_binary_heap_create num_compare ZBX_BINARY_HEAP_OPTION_DIRECT)
      (map num_elem [1, 10, 2, 11, 12, 20, 3]) = Inr hp"
    "hp_inv hp" "hp_elems hp = map num_elem [1, 10, 2, 11, 12, 20, 3]" "hp_compare_func hp = num_compare"
    "HAS_DIRECT_OPTION hp"
    by (rule num_heap [of "[1, 10, 2, 11, 12, 20, 3]"])
      (simp_all add: heap_ordered_def num_compare_def nth_Cons' less_Suc_eq)
  have "hp_index_get 11 hp = 3"
    using hp_index_get_pos [of hp 11] hp(2,3,5) by (simp add: hp_inv_def hp_pos_def upt_rec)
  then obtain hp1 where hp1: "zbx_binary_heap_remove_direct hp 11 = Inr hp1"
    "hp_elems hp1 = map num_elem [1, 10, 2, 3, 12, 20]" "hp_compare_func hp1 = num_compare"
    using hp(3,4,5)
    by (simp add: zbx_binary_heap_remove_direct_def Let_def binary_heap_bubble_down.simps)
  then obtain hp2 where hp2: "zbx_binary_heap_remove_min hp1 = Inr hp2"
    "hp_elems hp2 = map num_elem [2, 10, 20, 3, 12]" "hp_compare_func hp2 = num_compare"
    by (simp add: zbx_binary_heap_remove_min_def Let_def binary_heap_bubble_down.simps num_compare_def cmp3_def
      split: prod.splits if_splits)
  then obtain hp3 where hp3: "zbx_binary_heap_remove_min hp2 = Inr hp3"
    "hp_elems hp3 = map num_elem [10, 3, 20, 12]"
    by (simp add: zbx_binary_heap_remove_min_def Let_def binary_heap_bubble_down.simps num_compare_def cmp3_def
      split: prod.splits if_splits)
  have "zbx_binary_heap_find_min hp3 = Inr (num_elem 10)" "num_elem 3 \<in> set (hp_elems hp3)"
    using hp3(2) by (simp_all add: zbx_binary_heap_find_min_def)
  with hp(1) hp1(1) hp2(1) hp3(1) show ?thesis by blast
qed

end
