(* ===== verification/Vector.thy ===== *)
theory Vector
  imports Prelude Hashes
begin

text \<open>
  \<^verbatim>\<open>src/libs/zbxalgo/vectorimpl.h\<close>: the growable arrays (\<^verbatim>\<open>ZBX_VECTOR_IMPL\<close>) of the program, for any
  element type. A vector is the list of its used elements with an allocated size; \<^verbatim>\<open>values == NULL\<close>
  is an allocated size of 0. \<^verbatim>\<open>qsort\<close> of the C library, which does not say how it orders elements
  that compare equal, is an argument of \<open>zbx_vector_sort\<close>.
\<close>

record 'e zbx_vector =
  v_values :: "'e list"
  v_values_alloc :: nat

abbreviation v_values_num :: "'e zbx_vector \<Rightarrow> nat" where
  "v_values_num v \<equiv> length (v_values v)"

subsection \<open>Operations\<close>

definition zbx_vector_create :: "'e zbx_vector" where
  "zbx_vector_create = \<lparr>v_values = [], v_values_alloc = 0\<rparr>"

definition vector_ensure_free_space :: "'e zbx_vector \<Rightarrow> 'e zbx_vector" where
  "vector_ensure_free_space v =
    (if v_values_alloc v = 0 then v\<lparr>v_values := [], v_values_alloc := 32\<rparr>
     else if v_values_num v = v_values_alloc v then
       v\<lparr>v_values_alloc := max (v_values_alloc v + 1) (v_values_alloc v * 3 div 2)\<rparr>
     else v)"

definition zbx_vector_append :: "'e zbx_vector \<Rightarrow> 'e \<Rightarrow> 'e zbx_vector" where
  "zbx_vector_append v value =
    (let v1 = vector_ensure_free_space v in v1\<lparr>v_values := v_values v1 @ [value]\<rparr>)"

definition zbx_vector_remove_noorder :: "'e zbx_vector \<Rightarrow> int \<Rightarrow> fatal + 'e zbx_vector" where
  "zbx_vector_remove_noorder v index =
    (if \<not> (0 \<le> index \<and> index < int (v_values_num v)) then
       Inl (Exit_Fail ''removing a non-existent element'')
     else Inr (v\<lparr>v_values := butlast ((v_values v)[nat index := last (v_values v)])\<rparr>))"

text \<open>\<^verbatim>\<open>memmove\<close> of the elements behind \<open>index\<close> one place down.\<close>

definition zbx_vector_remove :: "'e zbx_vector \<Rightarrow> int \<Rightarrow> fatal + 'e zbx_vector" where
  "zbx_vector_remove v index =
    (if \<not> (0 \<le> index \<and> index < int (v_values_num v)) then
       Inl (Exit_Fail ''removing a non-existent element'')
     else Inr (v\<lparr>v_values := take (nat index) (v_values v) @ drop (nat index + 1) (v_values v)\<rparr>))"

definition zbx_vector_sort ::
  "(('e \<Rightarrow> 'e \<Rightarrow> int) \<Rightarrow> 'e list \<Rightarrow> 'e list) \<Rightarrow> 'e zbx_vector \<Rightarrow> ('e \<Rightarrow> 'e \<Rightarrow> int) \<Rightarrow> 'e zbx_vector" where
  "zbx_vector_sort qsort v compare_func =
    (if 2 \<le> v_values_num v then v\<lparr>v_values := qsort compare_func (v_values v)\<rparr> else v)"

text \<open>The loop of \<^verbatim>\<open>uniq\<close>, which compacts the array in place while it reads it.\<close>

function vector_uniq_loop ::
  "('e \<Rightarrow> 'e \<Rightarrow> int) \<Rightarrow> 'e list \<Rightarrow> nat \<Rightarrow> nat \<Rightarrow> 'e list \<times> nat" where
  "vector_uniq_loop cmp vs i j =
    (if i < length vs then
       (if cmp (vs ! (i - 1)) (vs ! i) \<noteq> 0
        then vector_uniq_loop cmp (vs[j := vs ! i]) (i + 1) (j + 1)
        else vector_uniq_loop cmp vs (i + 1) j)
     else (vs, j))"
  by pat_completeness auto
termination by (relation "measure (\<lambda>(cmp, vs, i, j). length vs - i)") auto

declare vector_uniq_loop.simps [simp del]

definition zbx_vector_uniq :: "'e zbx_vector \<Rightarrow> ('e \<Rightarrow> 'e \<Rightarrow> int) \<Rightarrow> 'e zbx_vector" where
  "zbx_vector_uniq v compare_func =
    (if 2 \<le> v_values_num v then
       (let (vs, j) = vector_uniq_loop compare_func (v_values v) 1 1
        in v\<lparr>v_values := take j vs\<rparr>)
     else v)"

text \<open>The search of a sorted vector from \<open>*index\<close> on, which leaves \<open>*index\<close> where it stopped.\<close>

function zbx_vector_lsearch ::
  "'e zbx_vector \<Rightarrow> 'e \<Rightarrow> nat \<Rightarrow> ('e \<Rightarrow> 'e \<Rightarrow> int) \<Rightarrow> zres \<times> nat" where
  "zbx_vector_lsearch v value index compare_func =
    (if index < v_values_num v then
       (let c = compare_func (v_values v ! index) value
        in if c < 0 then zbx_vector_lsearch v value (index + 1) compare_func
           else if c = 0 then (Succeed, index)
           else (Fail, index))
     else (Fail, index))"
  by pat_completeness auto
termination by (relation "measure (\<lambda>(v, value, index, cmp). v_values_num v - index)") auto

declare zbx_vector_lsearch.simps [simp del]

fun vector_search_from :: "('e \<Rightarrow> 'e \<Rightarrow> int) \<Rightarrow> 'e \<Rightarrow> int \<Rightarrow> 'e list \<Rightarrow> int" where
  "vector_search_from cmp value index [] = FAIL"
| "vector_search_from cmp value index (x # xs) =
    (if cmp x value = 0 then index else vector_search_from cmp value (index + 1) xs)"

definition zbx_vector_search :: "'e zbx_vector \<Rightarrow> 'e \<Rightarrow> ('e \<Rightarrow> 'e \<Rightarrow> int) \<Rightarrow> int" where
  "zbx_vector_search v value compare_func = vector_search_from compare_func value 0 (v_values v)"

definition zbx_vector_reserve :: "'e zbx_vector \<Rightarrow> nat \<Rightarrow> 'e zbx_vector" where
  "zbx_vector_reserve v sz = (if v_values_alloc v < sz then v\<lparr>v_values_alloc := sz\<rparr> else v)"

definition zbx_vector_clear :: "'e zbx_vector \<Rightarrow> 'e zbx_vector" where
  "zbx_vector_clear v =
    (if v_values_alloc v \<noteq> 0 then v\<lparr>v_values := [], v_values_alloc := 0\<rparr> else v)"

subsection \<open>Capacity\<close>

definition v_ok :: "'e zbx_vector \<Rightarrow> bool" where
  "v_ok v \<longleftrightarrow> v_values_num v \<le> v_values_alloc v"

lemma vector_append_spec:
  assumes "v_ok v"
  shows "v_ok (zbx_vector_append v x)" "v_values (zbx_vector_append v x) = v_values v @ [x]"
  using assms by (auto simp: v_ok_def zbx_vector_append_def vector_ensure_free_space_def Let_def)

subsection \<open>Sorting and removing duplicates\<close>

text \<open>What \<^verbatim>\<open>qsort\<close> promises for a comparison function that is consistent.\<close>

definition qsort_ok :: "(('e \<Rightarrow> 'e \<Rightarrow> int) \<Rightarrow> 'e list \<Rightarrow> 'e list) \<Rightarrow> ('e \<Rightarrow> 'e \<Rightarrow> int) \<Rightarrow> bool" where
  "qsort_ok qsort cmp \<longleftrightarrow>
    (\<forall>xs. mset (qsort cmp xs) = mset xs \<and> sorted_wrt (\<lambda>a b. cmp a b \<le> 0) (qsort cmp xs))"

fun uniq_adj :: "('e \<Rightarrow> 'e \<Rightarrow> int) \<Rightarrow> 'e list \<Rightarrow> 'e list" where
  "uniq_adj cmp (x # y # zs) = (if cmp x y \<noteq> 0 then [y] else []) @ uniq_adj cmp (y # zs)"
| "uniq_adj cmp _ = []"

text \<open>The in-place loop computes the list of the elements that differ from their predecessor.\<close>

lemma vector_uniq_loop_spec:
  assumes "1 \<le> j" "j \<le> i" "i \<le> length vs" "drop (i - 1) vs = drop (i - 1) xs"
    and "length vs = length xs"
    and "(vs', j') = vector_uniq_loop cmp vs i j"
  shows "take j' vs' = take j vs @ uniq_adj cmp (drop (i - 1) xs)"
  using assms
proof (induction cmp vs i j rule: vector_uniq_loop.induct)
  case (1 cmp vs i j)
  have nth: "vs ! k = xs ! k" if "i - 1 \<le> k" "k < length xs" for k
    using arg_cong [OF "1.prems"(4), of "\<lambda>l. l ! (k - (i - 1))"] that "1.prems"(5) by simp
  show ?case
  proof (cases "i < length vs")
    case True
    have dr: "drop (i - Suc 0) xs = xs ! (i - 1) # xs ! i # drop (Suc i) xs"
    proof -
      have "i - 1 < length xs" "Suc (i - 1) = i" "i < length xs" using True "1.prems"(1,2,5) by auto
      then show ?thesis by (metis Cons_nth_drop_Suc One_nat_def)
    qed
    have dr': "drop i xs = xs ! i # drop (Suc i) xs"
      using True "1.prems"(5) by (simp add: Cons_nth_drop_Suc)
    have eq: "vs ! (i - 1) = xs ! (i - 1)" "vs ! i = xs ! i"
      using nth [of "i - 1"] nth [of i] True "1.prems"(1,2,5) by auto
    show ?thesis
    proof (cases "cmp (vs ! (i - 1)) (vs ! i) \<noteq> 0")
      case ne: True
      let ?ws = "vs[j := vs ! i]"
      have "drop (Suc i - 1) ?ws = drop (Suc i - 1) xs"
        using "1.prems" True nth by (intro nth_equalityI) (auto simp: nth_list_update)
      moreover have "(vs', j') = vector_uniq_loop cmp ?ws (i + 1) (j + 1)"
        using "1.prems"(6) True ne by (simp add: vector_uniq_loop.simps [of cmp vs])
      ultimately have "take j' vs' = take (j + 1) ?ws @ uniq_adj cmp (drop (Suc i - 1) xs)"
        using "1.IH"(1) [OF True ne] "1.prems" True by simp
      moreover have "take (j + 1) ?ws = take j vs @ [xs ! i]"
        using "1.prems"(2) True eq by (simp add: take_Suc_conv_app_nth)
      ultimately show ?thesis using ne eq by (simp add: dr dr')
    next
      case same: False
      have "drop (Suc i - 1) vs = drop (Suc i - 1) xs"
        using "1.prems"(1,2,5) nth by (intro nth_equalityI) auto
      moreover have "(vs', j') = vector_uniq_loop cmp vs (i + 1) j"
        using "1.prems"(6) True same by (simp add: vector_uniq_loop.simps [of cmp vs])
      ultimately have "take j' vs' = take j vs @ uniq_adj cmp (drop (Suc i - 1) xs)"
        using "1.IH"(2) [OF True same] "1.prems" True by simp
      then show ?thesis using same eq by (simp add: dr dr')
    qed
  next
    case False
    then have "i = length xs" "(vs', j') = (vs, j)"
      using "1.prems"(3,5,6) by (simp_all add: vector_uniq_loop.simps [of cmp vs])
    moreover have "uniq_adj cmp (drop (length xs - 1) xs) = []"
      by (cases xs rule: rev_cases) simp_all
    ultimately show ?thesis by simp
  qed
qed

lemma vector_uniq_eq:
  "v_values (zbx_vector_uniq v cmp) =
    (case v_values v of [] \<Rightarrow> [] | x # xs \<Rightarrow> x # uniq_adj cmp (x # xs))"
proof (cases "2 \<le> v_values_num v")
  case True
  then obtain x y zs where v: "v_values v = x # y # zs"
    by (metis Suc_le_length_iff numeral_2_eq_2)
  obtain vs' j' where l: "(vs', j') = vector_uniq_loop cmp (v_values v) 1 1" by (metis surj_pair)
  from vector_uniq_loop_spec [OF _ _ _ refl refl l] True
  have "take j' vs' = take 1 (v_values v) @ uniq_adj cmp (v_values v)" by simp
  with True v l [symmetric] show ?thesis by (simp add: zbx_vector_uniq_def)
next
  case False
  then show ?thesis
    by (cases "v_values v" rule: remdups_adj.cases) (auto simp: zbx_vector_uniq_def)
qed

lemma uniq_adj_u64:
  assumes "sorted (x # xs)"
  shows "sorted (x # uniq_adj zbx_default_uint64_compare_func (x # xs)) \<and>
    distinct (x # uniq_adj zbx_default_uint64_compare_func (x # xs)) \<and>
    set (x # uniq_adj zbx_default_uint64_compare_func (x # xs)) = set (x # xs)"
  using assms
proof (induction xs arbitrary: x)
  case (Cons y ys)
  then have IH: "sorted (y # uniq_adj zbx_default_uint64_compare_func (y # ys))"
    "distinct (y # uniq_adj zbx_default_uint64_compare_func (y # ys))"
    "set (y # uniq_adj zbx_default_uint64_compare_func (y # ys)) = set (y # ys)" by auto
  show ?case
  proof (cases "x = y")
    case False
    with Cons.prems have "x < y" by (simp add: order.strict_iff_order)
    define ws where "ws = uniq_adj zbx_default_uint64_compare_func (y # ys)"
    have eq: "uniq_adj zbx_default_uint64_compare_func (x # y # ys) = y # ws"
      using False by (simp add: ws_def)
    have "x < z" if "z \<in> set ws" for z
      using that IH(1) \<open>x < y\<close> unfolding ws_def [symmetric] by fastforce
    moreover have "insert x (insert y (set ws)) = insert x (insert y (set ys))"
      using IH(3) unfolding ws_def [symmetric] by simp
    ultimately show ?thesis
      using IH(1,2) \<open>x < y\<close> unfolding eq ws_def [symmetric] by (auto simp: less_imp_le)
  qed (use IH in simp)
qed simp

text \<open>
  Sorting a vector of 64-bit identifiers and dropping duplicates in place leaves exactly the
  sorted list of the set of its vs.
\<close>

theorem vector_uint64_sort_uniq:
  assumes "qsort_ok qsort zbx_default_uint64_compare_func"
  shows "v_values (zbx_vector_uniq (zbx_vector_sort qsort v zbx_default_uint64_compare_func)
      zbx_default_uint64_compare_func) = sorted_list_of_set (set (v_values v))"
proof -
  let ?cmp = zbx_default_uint64_compare_func
  let ?s = "v_values (zbx_vector_sort qsort v ?cmp)"
  have "sorted ?s \<and> set ?s = set (v_values v)"
  proof (cases "2 \<le> v_values_num v")
    case True
    then show ?thesis
      using assms by (auto simp: qsort_ok_def zbx_vector_sort_def uint64_compare_le sorted_wrt_iff_nth_less
          sorted_iff_nth_mono_less dest: mset_eq_setD)
  next
    case False
    then show ?thesis
      by (cases "v_values v" rule: remdups_adj.cases) (auto simp: zbx_vector_sort_def)
  qed
  moreover obtain ws where ws: "v_values (zbx_vector_uniq (zbx_vector_sort qsort v ?cmp) ?cmp) = ws" by blast
  ultimately have "sorted ws \<and> distinct ws \<and> set ws = set (v_values v)"
    using uniq_adj_u64 [of "hd ?s" "tl ?s"] unfolding vector_uniq_eq
    by (cases ?s) (simp_all only: list.case list.sel, simp_all)
  then show ?thesis unfolding ws by (metis sorted_list_of_set.idem_if_sorted_distinct)
qed

lemma qsort_ok_example:
  "qsort_ok (\<lambda>cmp. sort) zbx_default_uint64_compare_func"
  by (simp add: qsort_ok_def uint64_compare_le)

lemma vector_uint64_sort_uniq_witness:
  "v_values (zbx_vector_uniq (zbx_vector_sort (\<lambda>cmp. sort) \<lparr>v_values = [5, 3, 5, 1], v_values_alloc = 32\<rparr>
      zbx_default_uint64_compare_func) zbx_default_uint64_compare_func) = [1, 3, 5]"
proof -
  have "set [5, 3, 5, 1 :: u64] = set [1, 3, 5]" by auto
  then have "sorted_list_of_set (set [5, 3, 5, 1 :: u64]) = [1, 3, 5]"
    by (simp only:) (rule sorted_list_of_set.idem_if_sorted_distinct; simp)
  then show ?thesis
    using vector_uint64_sort_uniq [OF qsort_ok_example, of "\<lparr>v_values = [5, 3, 5, 1], v_values_alloc = 32\<rparr>"]
    by simp
qed

text \<open>
  Searching a sorted vector from a position before which every element is smaller succeeds
  exactly when the value is present, and stops at the first element that is not smaller.
\<close>

theorem vector_lsearch_sorted:
  assumes "sorted (v_values v)" "index \<le> v_values_num v" "\<forall>k < index. v_values v ! k < value"
    and "(r, index') = zbx_vector_lsearch v value index zbx_default_uint64_compare_func"
  shows "(r = Succeed \<longleftrightarrow> value \<in> set (v_values v)) \<and>
    index' = length (takeWhile (\<lambda>x. x < value) (v_values v)) \<and>
    (r = Succeed \<longrightarrow> index' < v_values_num v \<and> v_values v ! index' = value)"
  using assms
proof (induction v "value" index "zbx_default_uint64_compare_func" rule: zbx_vector_lsearch.induct)
  case (1 v x index)
  let ?vs = "v_values v"
  have sorted: "sorted ?vs" by (rule "1.prems"(1))
  have before: "\<forall>k < index. ?vs ! k < x" by (rule "1.prems"(3))
  note eq = "1.prems"(4) [unfolded zbx_vector_lsearch.simps [of v x index]]
  have stop: "length (takeWhile (\<lambda>y. y < x) ?vs) = index"
    if "index = length ?vs \<or> \<not> ?vs ! index < x"
    using before that "1.prems"(2) by (intro length_takeWhile_eqI) auto
  show ?case
  proof (cases "index < length ?vs \<and> ?vs ! index < x")
    case True
    then have c: "zbx_default_uint64_compare_func (?vs ! index) x < 0"
      by (simp add: zbx_default_uint64_compare_func_def)
    have b: "\<forall>k < index + 1. ?vs ! k < x" using before True by (simp add: less_Suc_eq)
    have e: "(r, index') = zbx_vector_lsearch v x (index + 1) zbx_default_uint64_compare_func"
      using eq True c by simp
    show ?thesis by (rule "1.hyps" [OF _ refl c sorted _ b e]) (use True in auto)
  next
    case False
    have ge: "x \<le> ?vs ! k" if "index \<le> k" "k < length ?vs" for k
      using sorted_nth_mono [OF sorted that] False that by fastforce
    have mem: "x \<in> set ?vs \<longleftrightarrow> index < length ?vs \<and> ?vs ! index = x"
    proof
      assume "x \<in> set ?vs"
      then obtain k where k: "k < length ?vs" "?vs ! k = x" by (auto simp: in_set_conv_nth)
      with before have "index \<le> k" by (metis less_irrefl not_le)
      with k sorted_nth_mono [OF sorted this] ge [of index] show "index < length ?vs \<and> ?vs ! index = x"
        by auto
    qed auto
    show ?thesis
    proof (cases "index < length ?vs")
      case True
      with ge [of index] have c: "\<not> zbx_default_uint64_compare_func (?vs ! index) x < 0"
        by (auto simp: zbx_default_uint64_compare_func_def)
      with eq True mem stop False show ?thesis by (auto simp: Let_def split: if_splits)
    next
      case f: False
      with eq mem stop "1.prems"(2) show ?thesis by auto
    qed
  qed
qed

lemma vector_lsearch_sorted_witness:
  "zbx_vector_lsearch \<lparr>v_values = [1, 3, 5], v_values_alloc = 32\<rparr> 3 0 zbx_default_uint64_compare_func =
    (Succeed, 1)"
  using vector_lsearch_sorted [of "\<lparr>v_values = [1, 3, 5], v_values_alloc = 32\<rparr>" 0 3]
  by (cases "zbx_vector_lsearch \<lparr>v_values = [1, 3, 5], v_values_alloc = 32\<rparr> 3 0 zbx_default_uint64_compare_func")
    auto

text \<open>
  Removing by index fails exactly outside the vector; inside, \<^verbatim>\<open>remove_noorder\<close> and \<^verbatim>\<open>remove\<close>
  both take exactly the element at the index out, and \<^verbatim>\<open>remove\<close> keeps the order of the others.
\<close>

theorem vector_remove:
  "if 0 \<le> i \<and> i < int (v_values_num v)
   then \<exists>v1 v2. zbx_vector_remove_noorder v i = Inr v1 \<and> zbx_vector_remove v i = Inr v2 \<and>
     mset (v_values v1) = mset (v_values v) - {#v_values v ! nat i#} \<and>
     v_values v = take (nat i) (v_values v2) @ v_values v ! nat i # drop (nat i) (v_values v2)
   else zbx_vector_remove_noorder v i = Inl (Exit_Fail ''removing a non-existent element'') \<and>
     zbx_vector_remove v i = Inl (Exit_Fail ''removing a non-existent element'')"
proof (cases "0 \<le> i \<and> i < int (v_values_num v)")
  case True
  then have n: "nat i < v_values_num v" by auto
  have "mset (butlast ((v_values v)[nat i := last (v_values v)])) = mset (v_values v) - {#v_values v ! nat i#}"
    by (simp flip: mset_swap_remove [OF n])
  moreover have "v_values v = take (nat i) (v_values v) @ v_values v ! nat i # drop (Suc (nat i)) (v_values v)"
    by (rule id_take_nth_drop [OF n])
  ultimately show ?thesis using True n by (simp add: zbx_vector_remove_noorder_def zbx_vector_remove_def min_def)
qed (auto simp: zbx_vector_remove_noorder_def zbx_vector_remove_def)

end
