(* ===== verification/StrPool.thy ===== *)
theory StrPool
  imports HashSet
begin

text \<open>
  \<^verbatim>\<open>src/libs/zbxmemory/strpool.c\<close>: the pool of reference-counted strings of the configuration cache,
  a client of the hash set whose data are a 32-bit counter followed by a zero-terminated string.
  The pointer that the pool hands out identifies the record of its string, and the counter in front
  of it is read and written in place. Allocation is from shared memory, which ends the process
  instead of failing.
\<close>

subsection \<open>C strings\<close>

text \<open>The characters of a buffer up to its terminating zero byte, and \<^verbatim>\<open>strcmp\<close>.\<close>

definition c_str :: "u8 list \<Rightarrow> u8 list" where
  "c_str s = takeWhile (\<lambda>b. b \<noteq> 0) s"

fun c_strcmp :: "u8 list \<Rightarrow> u8 list \<Rightarrow> int" where
  "c_strcmp [] [] = 0"
| "c_strcmp [] (b # bs) = (if b = 0 then 0 else - 1)"
| "c_strcmp (a # as) [] = (if a = 0 then 0 else 1)"
| "c_strcmp (a # as) (b # bs) =
    (if a = b then (if a = 0 then 0 else c_strcmp as bs) else if a < b then - 1 else 1)"

lemma c_strcmp_eq: "c_strcmp s t = 0 \<longleftrightarrow> c_str s = c_str t"
  by (induction s t rule: c_strcmp.induct) (auto simp: c_str_def)

lemma c_str_idem [simp]: "c_str (c_str s) = c_str s"
  by (simp add: c_str_def)

subsection \<open>Operations\<close>

record strpool_rec =
  sp_refcount :: u32
  sp_str :: "u8 list"

type_synonym strpool = "strpool_rec hashset"

definition strpool_hash_func :: "strpool_rec \<Rightarrow> zbx_hash_t" where
  "strpool_hash_func r = zbx_default_string_hash_func (sp_str r)"

definition strpool_compare_func :: "strpool_rec \<Rightarrow> strpool_rec \<Rightarrow> int" where
  "strpool_compare_func r1 r2 = c_strcmp (sp_str r1) (sp_str r2)"

definition zbx_strpool_create :: "strpool option" where
  "zbx_strpool_create = zbx_hashset_create_ext 1000 strpool_hash_func strpool_compare_func True"

definition zbx_strpool_clear :: "strpool \<Rightarrow> strpool option" where
  "zbx_strpool_clear pool = zbx_hashset_create_ext 1000 strpool_hash_func strpool_compare_func True"

text \<open>A write to the counter of the record that the pointer \<open>str\<close> belongs to.\<close>

definition sp_write :: "u8 list \<Rightarrow> (u32 \<Rightarrow> u32) \<Rightarrow> strpool \<Rightarrow> strpool" where
  "sp_write str f pool =
    pool\<lparr>hs_slots := map (map (\<lambda>e. if c_str (sp_str (e_data e)) = c_str str
      then e\<lparr>e_data := (e_data e)\<lparr>sp_refcount := f (sp_refcount (e_data e))\<rparr>\<rparr> else e)) (hs_slots pool)\<rparr>"

definition sp_read :: "u8 list \<Rightarrow> strpool \<Rightarrow> u32 option" where
  "sp_read str pool = map_option (\<lambda>e. sp_refcount (e_data e))
    (find (\<lambda>e. c_str (sp_str (e_data e)) = c_str str) (concat (hs_slots pool)))"

text \<open>
  \<open>junk\<close> is the counter part of the buffer in front of the argument, and of a fresh record: neither
  is read before it is set.
\<close>

definition zbx_strpool_intern :: "u32 \<Rightarrow> strpool \<Rightarrow> u8 list \<Rightarrow> strpool" where
  "zbx_strpool_intern junk pool str =
    (let arg = \<lparr>sp_refcount = junk, sp_str = str\<rparr>;
         pool1 = (case zbx_hashset_search pool arg of
             None \<Rightarrow> sp_write str (\<lambda>_. 0)
               (fst (zbx_hashset_insert_ext pool arg (\<lambda>d. d\<lparr>sp_refcount := junk, sp_str := c_str (sp_str d)\<rparr>) True True))
           | Some record \<Rightarrow> pool)
     in sp_write str (\<lambda>n. n + 1) pool1)"

definition zbx_strpool_acquire :: "strpool \<Rightarrow> u8 list \<Rightarrow> strpool" where
  "zbx_strpool_acquire pool str = sp_write str (\<lambda>n. n + 1) pool"

definition zbx_strpool_release :: "u32 \<Rightarrow> strpool \<Rightarrow> u8 list \<Rightarrow> strpool" where
  "zbx_strpool_release junk pool str =
    (let pool1 = sp_write str (\<lambda>n. n - 1) pool
     in if sp_read str pool1 = Some 0
        then zbx_hashset_remove pool1 \<lparr>sp_refcount = junk, sp_str = str\<rparr> else pool1)"

subsection \<open>The callbacks meet the contract of the hash set\<close>

definition sp_key :: "strpool_rec \<Rightarrow> u8 list" where
  "sp_key r = c_str (sp_str r)"

interpretation strpool_keys: hash_keys strpool_hash_func strpool_compare_func sp_key
  by unfold_locales
    (auto simp: strpool_hash_func_def strpool_compare_func_def sp_key_def c_strcmp_eq
      zbx_default_string_hash_func_def c_str_def)

abbreviation sp_wf :: "strpool \<Rightarrow> bool" where
  "sp_wf \<equiv> hs_wf strpool_hash_func strpool_compare_func sp_key"

abbreviation sp_abs :: "strpool \<Rightarrow> u8 list \<rightharpoonup> strpool_rec" where
  "sp_abs \<equiv> hs_abs sp_key"

definition sp_upd :: "u8 list \<Rightarrow> (u32 \<Rightarrow> u32) \<Rightarrow> strpool_rec hs_entry \<Rightarrow> strpool_rec hs_entry" where
  "sp_upd str f e = (if c_str (sp_str (e_data e)) = c_str str
    then e\<lparr>e_data := (e_data e)\<lparr>sp_refcount := f (sp_refcount (e_data e))\<rparr>\<rparr> else e)"

lemma sp_upd_simps [simp]:
  "sp_key (e_data (sp_upd str f e)) = sp_key (e_data e)"
  "e_hash (sp_upd str f e) = e_hash e"
  "strpool_hash_func (e_data (sp_upd str f e)) = strpool_hash_func (e_data e)"
  by (simp_all add: sp_upd_def sp_key_def strpool_hash_func_def)

lemma sp_write_eq: "sp_write str f pool = pool\<lparr>hs_slots := map (map (sp_upd str f)) (hs_slots pool)\<rparr>"
  by (simp add: sp_write_def sp_upd_def [abs_def])

lemma sp_write_entries: "hs_entries (sp_write str f pool) = map (sp_upd str f) (hs_entries pool)"
  by (simp add: sp_write_eq hs_entries_def map_concat)

lemma sp_write_wf:
  assumes "sp_wf pool"
  shows "sp_wf (sp_write str f pool)"
proof -
  have "hs_placed (sp_write str f pool)"
    using assms by (auto simp: hs_wf_def hs_placed_def sp_write_eq)
  then show ?thesis
    using assms by (auto simp: hs_wf_def sp_write_entries comp_def) (auto simp: sp_write_eq)
qed

lemma sp_write_abs:
  assumes "sp_wf pool"
  shows "sp_abs (sp_write str f pool) = (sp_abs pool)(c_str str :=
    map_option (\<lambda>r. r\<lparr>sp_refcount := f (sp_refcount r)\<rparr>) (sp_abs pool (c_str str)))"
proof
  fix k
  have "find (\<lambda>e. sp_key (e_data e) = k) (map (sp_upd str f) es) =
      map_option (sp_upd str f) (find (\<lambda>e. sp_key (e_data e) = k) es)" for es
    by (induction es) auto
  then have "sp_abs (sp_write str f pool) k =
      map_option (\<lambda>e. e_data (sp_upd str f e)) (find (\<lambda>e. sp_key (e_data e) = k) (hs_entries pool))"
    by (simp add: hs_abs_def map_of_find sp_write_entries comp_def option.map_comp)
  then show "sp_abs (sp_write str f pool) k = ((sp_abs pool)(c_str str :=
      map_option (\<lambda>r. r\<lparr>sp_refcount := f (sp_refcount r)\<rparr>) (sp_abs pool (c_str str)))) k"
    by (auto simp: hs_abs_def map_of_find sp_upd_def sp_key_def find_Some_iff option.map_comp comp_def
        split: option.splits intro!: option.map_cong)
qed

lemma sp_read_abs: "sp_read str pool = map_option sp_refcount (sp_abs pool (c_str str))"
  by (simp add: sp_read_def hs_abs_def map_of_find hs_entries_def sp_key_def option.map_comp comp_def)

subsection \<open>Counting references\<close>

definition sp_inv :: "strpool \<Rightarrow> bool" where
  "sp_inv pool \<longleftrightarrow> sp_wf pool \<and> (\<forall>r \<in> ran (sp_abs pool). sp_refcount r \<noteq> 0)"

definition sp_count :: "strpool \<Rightarrow> u8 list \<Rightarrow> nat" where
  "sp_count pool s = (case sp_abs pool (c_str s) of None \<Rightarrow> 0 | Some r \<Rightarrow> unat (sp_refcount r))"

datatype sp_op = Intern "u8 list" | Acquire "u8 list" | Release "u8 list"

fun sp_op_str :: "sp_op \<Rightarrow> u8 list" where
  "sp_op_str (Intern s) = s" | "sp_op_str (Acquire s) = s" | "sp_op_str (Release s) = s"

fun strpool_step :: "u32 \<Rightarrow> strpool \<Rightarrow> sp_op \<Rightarrow> strpool" where
  "strpool_step junk pool (Intern s) = zbx_strpool_intern junk pool s"
| "strpool_step junk pool (Acquire s) = zbx_strpool_acquire pool s"
| "strpool_step junk pool (Release s) = zbx_strpool_release junk pool s"

text \<open>Only strings that the pool holds are acquired and released, and no counter is full.\<close>

fun sp_allowed :: "(u8 list \<Rightarrow> nat) \<Rightarrow> sp_op \<Rightarrow> bool" where
  "sp_allowed n (Intern s) = (n s < 2 ^ 32 - 1)"
| "sp_allowed n (Acquire s) = (0 < n s \<and> n s < 2 ^ 32 - 1)"
| "sp_allowed n (Release s) = (0 < n s)"

fun count_step :: "(u8 list \<Rightarrow> nat) \<Rightarrow> sp_op \<Rightarrow> u8 list \<Rightarrow> nat" where
  "count_step n (Release s) t = (if c_str t = c_str s then n t - 1 else n t)"
| "count_step n (Intern s) t = (if c_str t = c_str s then n t + 1 else n t)"
| "count_step n (Acquire s) t = (if c_str t = c_str s then n t + 1 else n t)"

lemma sp_inc:
  assumes "sp_wf pool" "sp_abs pool (c_str s) = Some r" "unat (sp_refcount r) < 2 ^ 32 - 1"
    and "\<And>k q. k \<noteq> c_str s \<Longrightarrow> sp_abs pool k = Some q \<Longrightarrow> sp_refcount q \<noteq> 0"
  shows "sp_inv (sp_write s (\<lambda>n. n + 1) pool) \<and>
    sp_count (sp_write s (\<lambda>n. n + 1) pool) = count_step (sp_count pool) (Acquire s)"
proof -
  have n: "unat (sp_refcount r + 1) = unat (sp_refcount r) + 1"
    using assms(3) by (simp add: unat_plus_cases)
  then have "sp_refcount r + 1 \<noteq> 0" by (metis add_is_0 one_neq_zero unat_0)
  then have "sp_inv (sp_write s (\<lambda>n. n + 1) pool)"
    using assms sp_write_wf [OF assms(1)] by (auto simp: sp_inv_def sp_write_abs ran_def)
  moreover have "sp_count (sp_write s (\<lambda>n. n + 1) pool) t = count_step (sp_count pool) (Acquire s) t" for t
    using assms(1,2) n by (auto simp: sp_count_def sp_write_abs)
  ultimately show ?thesis by blast
qed

lemma sp_intern_spec:
  assumes "sp_inv pool" "sp_count pool s < 2 ^ 32 - 1"
  shows "sp_inv (zbx_strpool_intern junk pool s) \<and>
    sp_count (zbx_strpool_intern junk pool s) = count_step (sp_count pool) (Intern s)"
proof -
  let ?arg = "\<lparr>sp_refcount = junk, sp_str = s\<rparr>"
  let ?cp = "\<lambda>d. d\<lparr>sp_refcount := junk, sp_str := c_str (sp_str d)\<rparr>"
  have wf: "sp_wf pool" and nz: "\<And>k q. sp_abs pool k = Some q \<Longrightarrow> sp_refcount q \<noteq> 0"
    using assms(1) by (auto simp: sp_inv_def ran_def)
  have key: "sp_key ?arg = c_str s" by (simp add: sp_key_def)
  have step: "count_step n (Intern s) = count_step n (Acquire s)" for n by (rule ext) simp
  show ?thesis
  proof (cases "sp_abs pool (c_str s)")
    case (Some r)
    then have "zbx_strpool_intern junk pool s = sp_write s (\<lambda>n. n + 1) pool"
      using strpool_keys.search_abs [OF wf, of ?arg]
      by (simp add: zbx_strpool_intern_def Let_def key)
    with sp_inc [OF wf Some _ nz] assms(2) Some show ?thesis
      unfolding step by (simp add: sp_count_def)
  next
    case None
    obtain pool1 r where ins: "zbx_hashset_insert_ext pool ?arg ?cp True True = (pool1, r)"
      by (rule prod.exhaust)
    have kcp: "sp_key (?cp ?arg) = sp_key ?arg" by (simp add: sp_key_def)
    note absent = strpool_keys.insert_absent [OF wf _ kcp ins]
    have p1: "sp_wf pool1" "sp_abs pool1 = (sp_abs pool)(c_str s \<mapsto> ?cp ?arg)"
      using absent None key by auto
    let ?pool2 = "sp_write s (\<lambda>_. 0) pool1"
    have p2: "sp_wf ?pool2" "sp_abs ?pool2 = (sp_abs pool)(c_str s \<mapsto> \<lparr>sp_refcount = 0, sp_str = c_str s\<rparr>)"
      using p1 sp_write_wf by (simp_all add: sp_write_abs)
    have "zbx_strpool_intern junk pool s = sp_write s (\<lambda>n. n + 1) ?pool2"
      using strpool_keys.search_abs [OF wf, of ?arg] None ins
      by (simp add: zbx_strpool_intern_def Let_def key)
    moreover have "sp_count ?pool2 = sp_count pool"
      using None p2(2) by (auto simp: sp_count_def fun_eq_iff)
    moreover have "sp_abs ?pool2 (c_str s) = Some \<lparr>sp_refcount = 0, sp_str = c_str s\<rparr>"
      by (simp add: p2(2))
    moreover have "sp_refcount q \<noteq> 0" if "k \<noteq> c_str s" "sp_abs ?pool2 k = Some q" for k q
      using that nz by (simp add: p2(2))
    ultimately show ?thesis
      using sp_inc [OF p2(1), of s "\<lparr>sp_refcount = 0, sp_str = c_str s\<rparr>"] unfolding step by simp
  qed
qed

lemma sp_release_spec:
  assumes "sp_inv pool" "0 < sp_count pool s"
  shows "sp_inv (zbx_strpool_release junk pool s) \<and>
    sp_count (zbx_strpool_release junk pool s) = count_step (sp_count pool) (Release s)"
proof -
  let ?arg = "\<lparr>sp_refcount = junk, sp_str = s\<rparr>"
  let ?p = "sp_write s (\<lambda>n. n - 1) pool"
  have wf: "sp_wf pool" and nz: "\<And>k q. sp_abs pool k = Some q \<Longrightarrow> sp_refcount q \<noteq> 0"
    using assms(1) by (auto simp: sp_inv_def ran_def)
  from assms(2) obtain r where r: "sp_abs pool (c_str s) = Some r"
    by (auto simp: sp_count_def split: option.splits)
  then have "sp_refcount r \<noteq> 0" by (rule nz)
  then have n: "unat (sp_refcount r - 1) = unat (sp_refcount r) - 1"
    by (rule unat_minus_one)
  have wfp: "sp_wf ?p" by (rule sp_write_wf [OF wf])
  have absp: "sp_abs ?p = (sp_abs pool)(c_str s \<mapsto> r\<lparr>sp_refcount := sp_refcount r - 1\<rparr>)"
    using r by (simp add: sp_write_abs [OF wf])
  have key: "sp_key ?arg = c_str s" by (simp add: sp_key_def)
  show ?thesis
  proof (cases "sp_refcount r - 1 = 0")
    case True
    then have "zbx_strpool_release junk pool s = zbx_hashset_remove ?p ?arg"
      by (simp add: zbx_strpool_release_def Let_def sp_read_abs absp)
    moreover note rem = strpool_keys.remove_abs [OF wfp, of ?arg, unfolded key absp]
    moreover have "unat (sp_refcount r) = 1" using True by simp
    ultimately show ?thesis
      using r nz by (auto simp: sp_inv_def sp_count_def ran_def fun_eq_iff split: if_splits)
  next
    case False
    then have "zbx_strpool_release junk pool s = ?p"
      by (simp add: zbx_strpool_release_def Let_def sp_read_abs absp)
    then show ?thesis
      using False wfp absp nz r n by (auto simp: sp_inv_def sp_count_def ran_def fun_eq_iff split: if_splits)
  qed
qed

lemma sp_create_inv: "zbx_strpool_create = Some pool \<Longrightarrow> sp_inv pool \<and> sp_count pool = (\<lambda>_. 0)"
  using strpool_keys.create_wf [of 1000 True pool]
  by (auto simp: zbx_strpool_create_def sp_inv_def sp_count_def)

text \<open>
  C15. Interning, acquiring and releasing keep exact reference counts: from a pool without zero
  counters, each call on a string the client may use adds or takes exactly one reference of that
  string and leaves all others, and the string is in the pool exactly as long as it has references.
\<close>

theorem strpool_step_counts:
  assumes "sp_inv pool" "sp_allowed (sp_count pool) op"
  shows "sp_inv (strpool_step junk pool op) \<and>
    sp_count (strpool_step junk pool op) = count_step (sp_count pool) op \<and>
    {s. sp_abs (strpool_step junk pool op) (c_str s) \<noteq> None} = {s. 0 < sp_count (strpool_step junk pool op) s}"
proof -
  have "sp_inv (strpool_step junk pool op) \<and>
    sp_count (strpool_step junk pool op) = count_step (sp_count pool) op"
  proof (cases op)
    case (Intern s)
    with assms sp_intern_spec [of pool s junk] show ?thesis by simp
  next
    case (Acquire s)
    with assms(2) obtain r where "sp_abs pool (c_str s) = Some r" "unat (sp_refcount r) < 2 ^ 32 - 1"
      by (auto simp: sp_count_def split: option.splits)
    with assms(1) sp_inc [of pool s r] Acquire show ?thesis
      by (auto simp: sp_inv_def ran_def zbx_strpool_acquire_def)
  next
    case (Release s)
    with assms sp_release_spec [of pool s junk] show ?thesis by simp
  qed
  moreover have "{s. sp_abs p (c_str s) \<noteq> None} = {s. 0 < sp_count p s}" if "sp_inv p" for p
    using that by (force simp: sp_inv_def sp_count_def ran_def unat_gt_0 split: option.splits)
  ultimately show ?thesis by blast
qed

lemma strpool_step_counts_witness:
  "\<exists>pool. zbx_strpool_create = Some pool \<and>
    sp_count (strpool_step 7 (strpool_step 7 pool (Intern [104, 105])) (Release [104, 105])) = (\<lambda>_. 0)"
proof -
  obtain pool where pool: "zbx_strpool_create = Some pool"
    by (simp add: zbx_strpool_create_def zbx_hashset_create_ext_def Let_def)
  have z: "sp_inv pool" "sp_count pool = (\<lambda>_. 0)" using sp_create_inv [OF pool] by simp_all
  note s1 = strpool_step_counts [OF z(1), of "Intern [104, 105]" 7]
  let ?p = "strpool_step 7 pool (Intern [104, 105])"
  have p: "sp_inv ?p" "sp_count ?p = count_step (\<lambda>_. 0) (Intern [104, 105])" using s1 z by simp_all
  have "sp_allowed (sp_count ?p) (Release [104, 105])" unfolding p(2) by simp
  from strpool_step_counts [OF p(1) this, of 7]
  have "sp_count (strpool_step 7 ?p (Release [104, 105])) = count_step (sp_count ?p) (Release [104, 105])"
    by blast
  also have "\<dots> = (\<lambda>_. 0)" unfolding p(2) by (simp add: fun_eq_iff)
  finally have "sp_count (strpool_step 7 ?p (Release [104, 105])) = (\<lambda>_. 0)" .
  with pool show ?thesis by blast
qed

end
