(* ===== verification/MemAlloc.thy ===== *)
theory MemAlloc
  imports Prelude
begin

text \<open>
  \<^verbatim>\<open>src/libs/zbxmemory/memalloc.c\<close>: the allocator of the shared memory segments that hold the
  caches. A segment is tiled by chunks; a chunk at address \<open>a\<close> of size \<open>s\<close> has a size field at \<open>a\<close>
  and another at \<open>a + 8 + s\<close>, with the top bit set while the chunk is used. The memory of the model
  holds these size fields; the bytes of the user and the \<^verbatim>\<open>prev\<close> and \<^verbatim>\<open>next\<close> pointers of free chunks
  lie strictly between the two fields of a chunk. The doubly-linked list of free chunks of a bucket
  is the list of their addresses in link order. Chunk sizes are below $2^{63}$ (a segment has at
  most 64 GB), so they are natural numbers.
\<close>

subsection \<open>State\<close>

definition MEM_SIZE_FIELD :: nat where "MEM_SIZE_FIELD = 8"
definition MEM_FLG_USED :: u64 where "MEM_FLG_USED = push_bit 63 1"
definition MEM_MIN_SIZE :: nat where "MEM_MIN_SIZE = 128"
definition MEM_MAX_SIZE :: nat where "MEM_MAX_SIZE = 0x1000000000"
definition MEM_MIN_ALLOC :: nat where "MEM_MIN_ALLOC = 24"
definition MEM_MAX_BUCKET_SIZE :: nat where "MEM_MAX_BUCKET_SIZE = 256"
definition MEM_BUCKET_COUNT :: nat where "MEM_BUCKET_COUNT = (MEM_MAX_BUCKET_SIZE - MEM_MIN_ALLOC) div 8 + 1"

record mem_info =
  mi_mem :: "nat \<Rightarrow> u64"
  mi_buckets :: "nat list list"
  mi_lo_bound :: nat
  mi_hi_bound :: nat
  mi_total_size :: nat
  mi_used_size :: u64
  mi_free_size :: u64
  mi_allow_oom :: bool

subsection \<open>Helper functions\<close>

definition FREE_CHUNK :: "mem_info \<Rightarrow> nat \<Rightarrow> bool" where
  "FREE_CHUNK info p \<longleftrightarrow> mi_mem info p AND MEM_FLG_USED = 0"

definition CHUNK_SIZE :: "mem_info \<Rightarrow> nat \<Rightarrow> nat" where
  "CHUNK_SIZE info p = unat (mi_mem info p AND NOT MEM_FLG_USED)"

definition ALIGN8 :: "nat \<Rightarrow> nat" where "ALIGN8 p = (p + 7) div 8 * 8"

definition mem_proper_alloc_size :: "nat \<Rightarrow> nat" where
  "mem_proper_alloc_size sz =
    (if MEM_MIN_ALLOC \<le> sz then sz + (8 - sz mod 8) mod 8 else MEM_MIN_ALLOC)"

definition mem_bucket_by_size :: "nat \<Rightarrow> nat" where
  "mem_bucket_by_size sz =
    (if sz < MEM_MIN_ALLOC then 0
     else if sz < MEM_MAX_BUCKET_SIZE then (sz - MEM_MIN_ALLOC) div 8
     else MEM_BUCKET_COUNT - 1)"

definition mem_set_chunk_size :: "nat \<Rightarrow> nat \<Rightarrow> mem_info \<Rightarrow> mem_info" where
  "mem_set_chunk_size chunk sz info =
    info\<lparr>mi_mem := (mi_mem info)(chunk := of_nat sz, chunk + MEM_SIZE_FIELD + sz := of_nat sz)\<rparr>"

definition mem_set_used_chunk_size :: "nat \<Rightarrow> nat \<Rightarrow> mem_info \<Rightarrow> mem_info" where
  "mem_set_used_chunk_size chunk sz info =
    info\<lparr>mi_mem := (mi_mem info)(chunk := MEM_FLG_USED OR of_nat sz,
      chunk + MEM_SIZE_FIELD + sz := MEM_FLG_USED OR of_nat sz)\<rparr>"

definition mem_link_chunk :: "nat \<Rightarrow> mem_info \<Rightarrow> mem_info" where
  "mem_link_chunk chunk info =
    (let index = mem_bucket_by_size (CHUNK_SIZE info chunk)
     in info\<lparr>mi_buckets := (mi_buckets info)[index := chunk # mi_buckets info ! index]\<rparr>)"

definition mem_unlink_chunk :: "nat \<Rightarrow> mem_info \<Rightarrow> mem_info" where
  "mem_unlink_chunk chunk info =
    (let index = mem_bucket_by_size (CHUNK_SIZE info chunk)
     in info\<lparr>mi_buckets := (mi_buckets info)[index := remove1 chunk (mi_buckets info ! index)]\<rparr>)"

text \<open>Updates of the two counters, which are 64-bit and wrap.\<close>

definition mem_account :: "nat \<Rightarrow> nat \<Rightarrow> nat \<Rightarrow> nat \<Rightarrow> mem_info \<Rightarrow> mem_info" where
  "mem_account used_minus used_plus free_minus free_plus info =
    info\<lparr>mi_used_size := mi_used_size info + of_nat used_plus - of_nat used_minus,
         mi_free_size := mi_free_size info + of_nat free_plus - of_nat free_minus\<rparr>"

subsection \<open>Allocation\<close>

text \<open>The first bucket from \<open>index\<close> on that is not empty, or the last one.\<close>

function mem_first_bucket :: "nat list list \<Rightarrow> nat \<Rightarrow> nat" where
  "mem_first_bucket buckets index =
    (if index < MEM_BUCKET_COUNT - 1 \<and> buckets ! index = [] then mem_first_bucket buckets (index + 1)
     else index)"
  by pat_completeness auto
termination by (relation "measure (\<lambda>(b, i). MEM_BUCKET_COUNT - i)") auto

declare mem_first_bucket.simps [simp del]

text \<open>
  Marking a chunk of \<open>chunk_size\<close> bytes, already unlinked, as used for \<open>size\<close> bytes: all of it when
  the rest is too small for a chunk of its own, else split. Shared by \<^verbatim>\<open>__mem_malloc\<close> and the growing
  branch of \<^verbatim>\<open>__mem_realloc\<close>, which have the same code for it.
\<close>

definition mem_use_or_split :: "nat \<Rightarrow> nat \<Rightarrow> nat \<Rightarrow> mem_info \<Rightarrow> mem_info" where
  "mem_use_or_split chunk chunk_size sz info =
    (if chunk_size < sz + 2 * MEM_SIZE_FIELD + MEM_MIN_ALLOC then
       mem_set_used_chunk_size chunk chunk_size (mem_account 0 chunk_size chunk_size 0 info)
     else
       (let new_chunk = chunk + MEM_SIZE_FIELD + sz + MEM_SIZE_FIELD;
            new_chunk_size = chunk_size - sz - 2 * MEM_SIZE_FIELD
        in mem_set_used_chunk_size chunk sz (mem_account 0 sz chunk_size new_chunk_size
             (mem_link_chunk new_chunk (mem_set_chunk_size new_chunk new_chunk_size info)))))"

definition mem_malloc :: "mem_info \<Rightarrow> nat \<Rightarrow> mem_info \<times> nat option" where
  "mem_malloc info sz0 =
    (let sz = mem_proper_alloc_size sz0;
         index = mem_first_bucket (mi_buckets info) (mem_bucket_by_size sz);
         chunk = (if index = MEM_BUCKET_COUNT - 1
                  then find (\<lambda>c. \<not> CHUNK_SIZE info c < sz) (mi_buckets info ! index)
                  else Some (hd (mi_buckets info ! index)))
     in case chunk of
          None \<Rightarrow> (info, None)
        | Some c \<Rightarrow>
            (let chunk_size = CHUNK_SIZE info c
             in (mem_use_or_split c chunk_size sz (mem_unlink_chunk c info), Some c)))"

subsection \<open>Release\<close>

definition mem_free :: "mem_info \<Rightarrow> nat \<Rightarrow> mem_info" where
  "mem_free info ptr =
    (let chunk = ptr - MEM_SIZE_FIELD;
         chunk_size = CHUNK_SIZE info chunk;
         info1 = mem_account chunk_size 0 0 chunk_size info;
         next_chunk = chunk + MEM_SIZE_FIELD + chunk_size + MEM_SIZE_FIELD;
         prev_free = (mi_lo_bound info1 < chunk \<and> FREE_CHUNK info1 (chunk - MEM_SIZE_FIELD));
         next_free = (next_chunk < mi_hi_bound info1 \<and> FREE_CHUNK info1 next_chunk);
         prev_chunk = chunk - MEM_SIZE_FIELD - CHUNK_SIZE info1 (chunk - MEM_SIZE_FIELD) - MEM_SIZE_FIELD
     in if prev_free \<and> next_free then
          (let sz = chunk_size + 4 * MEM_SIZE_FIELD + CHUNK_SIZE info1 prev_chunk + CHUNK_SIZE info1 next_chunk
           in mem_link_chunk prev_chunk (mem_set_chunk_size prev_chunk sz
                (mem_unlink_chunk next_chunk (mem_unlink_chunk prev_chunk
                  (mem_account 0 0 0 (4 * MEM_SIZE_FIELD) info1)))))
        else if prev_free then
          (let sz = chunk_size + 2 * MEM_SIZE_FIELD + CHUNK_SIZE info1 prev_chunk
           in mem_link_chunk prev_chunk (mem_set_chunk_size prev_chunk sz
                (mem_unlink_chunk prev_chunk (mem_account 0 0 0 (2 * MEM_SIZE_FIELD) info1))))
        else if next_free then
          (let sz = chunk_size + 2 * MEM_SIZE_FIELD + CHUNK_SIZE info1 next_chunk
           in mem_link_chunk chunk (mem_set_chunk_size chunk sz
                (mem_unlink_chunk next_chunk (mem_account 0 0 0 (2 * MEM_SIZE_FIELD) info1))))
        else mem_link_chunk chunk (mem_set_chunk_size chunk chunk_size info1))"

subsection \<open>Reallocation\<close>

text \<open>
  The recovery code after a failed second attempt to allocate: it takes the head of the bucket of
  the old size and treats it as the chunk that \<^verbatim>\<open>__mem_free\<close> has just put there. A head that is
  missing is dereferenced in C, which ends the process: \<open>None\<close>. The head need not be a left neighbour of
  the chunk, so the subtractions, on \<^verbatim>\<open>zbx_uint64_t\<close>, may wrap around; the addresses of the size fields
  they lead to wrap around as well.
\<close>

definition mem_set_chunk_size_wrap :: "nat \<Rightarrow> u64 \<Rightarrow> mem_info \<Rightarrow> mem_info" where
  "mem_set_chunk_size_wrap chunk sz info =
    info\<lparr>mi_mem := (mi_mem info)(chunk := sz, unat (of_nat (chunk + MEM_SIZE_FIELD) + sz) := sz)\<rparr>"

definition mem_realloc_recover :: "nat \<Rightarrow> nat \<Rightarrow> mem_info \<Rightarrow> mem_info option" where
  "mem_realloc_recover chunk chunk_size info =
    (let index = mem_bucket_by_size chunk_size
     in case mi_buckets info ! index of
          [] \<Rightarrow> None
        | last_chunk # _ \<Rightarrow>
            (let info1 = mem_unlink_chunk last_chunk info
             in if chunk \<noteq> last_chunk then
                  (let left_size = of_nat chunk - of_nat last_chunk - of_nat (2 * MEM_SIZE_FIELD);
                       info2 = mem_set_chunk_size_wrap chunk
                         (of_nat (CHUNK_SIZE info1 chunk) - left_size - of_nat (2 * MEM_SIZE_FIELD)) info1
                   in Some (mem_link_chunk last_chunk (mem_set_chunk_size_wrap last_chunk left_size info2)))
                else Some info1))"

text \<open>The outer option is a crash, the inner one the returned chunk or NULL.\<close>

definition mem_realloc :: "mem_info \<Rightarrow> nat \<Rightarrow> nat \<Rightarrow> (mem_info \<times> nat option) option" where
  "mem_realloc info old sz0 =
    (let sz = mem_proper_alloc_size sz0;
         chunk = old - MEM_SIZE_FIELD;
         chunk_size = CHUNK_SIZE info chunk;
         next_chunk = chunk + MEM_SIZE_FIELD + chunk_size + MEM_SIZE_FIELD;
         next_free = (next_chunk < mi_hi_bound info \<and> FREE_CHUNK info next_chunk);
         new_chunk = chunk + MEM_SIZE_FIELD + sz + MEM_SIZE_FIELD
     in if sz \<le> chunk_size then
          (if chunk_size div 4 < sz then Some (info, Some chunk)
           else if next_free then
             (let info1 = mem_account chunk_size sz (sz + 2 * MEM_SIZE_FIELD) (chunk_size + 2 * MEM_SIZE_FIELD) info;
                  new_chunk_size = CHUNK_SIZE info1 next_chunk + (chunk_size - sz)
              in Some (mem_set_used_chunk_size chunk sz (mem_link_chunk new_chunk
                   (mem_set_chunk_size new_chunk new_chunk_size (mem_unlink_chunk next_chunk info1))), Some chunk))
           else
             (let info1 = mem_account chunk_size sz (sz + 2 * MEM_SIZE_FIELD) chunk_size info;
                  new_chunk_size = chunk_size - sz - 2 * MEM_SIZE_FIELD
              in Some (mem_set_used_chunk_size chunk sz (mem_link_chunk new_chunk
                   (mem_set_chunk_size new_chunk new_chunk_size info1)), Some chunk)))
        else if next_free \<and> sz \<le> chunk_size + 2 * MEM_SIZE_FIELD + CHUNK_SIZE info next_chunk then
          (let info1 = mem_account chunk_size 0 0 chunk_size info;
               merged = chunk_size + 2 * MEM_SIZE_FIELD + CHUNK_SIZE info1 next_chunk
           in Some (mem_use_or_split chunk merged sz (mem_unlink_chunk next_chunk info1), Some chunk))
        else
          (case mem_malloc info sz of
             (info1, Some c) \<Rightarrow> Some (mem_free info1 old, Some c)
           | (_, None) \<Rightarrow>
               (case mem_malloc (mem_free info old) sz of
                  (info2, Some c) \<Rightarrow> Some (info2, Some c)
                | (info2, None) \<Rightarrow> map_option (\<lambda>i. (i, None)) (mem_realloc_recover chunk chunk_size info2))))"

subsection \<open>The public interface\<close>

definition zbx_mem_malloc :: "mem_info \<Rightarrow> bool \<Rightarrow> nat \<Rightarrow> fatal + mem_info \<times> nat option" where
  "zbx_mem_malloc info old_is_null sz =
    (if \<not> old_is_null then Inl (Exit_Fail ''allocating already allocated memory'')
     else if sz = 0 \<or> MEM_MAX_SIZE < sz then Inl (Exit_Fail ''asking for a bad number of bytes'')
     else
       (case mem_malloc info sz of
          (info1, Some chunk) \<Rightarrow> Inr (info1, Some (chunk + MEM_SIZE_FIELD))
        | (info1, None) \<Rightarrow>
            if mi_allow_oom info then Inr (info1, None) else Inl (Exit_Fail ''out of memory'')))"

definition zbx_mem_realloc ::
  "mem_info \<Rightarrow> nat option \<Rightarrow> nat \<Rightarrow> fatal + (mem_info \<times> nat option) option" where
  "zbx_mem_realloc info old sz =
    (if sz = 0 \<or> MEM_MAX_SIZE < sz then Inl (Exit_Fail ''asking for a bad number of bytes'')
     else
       (case (case old of None \<Rightarrow> Some (mem_malloc info sz) | Some p \<Rightarrow> mem_realloc info p sz) of
          None \<Rightarrow> Inr None
        | Some (info1, Some chunk) \<Rightarrow> Inr (Some (info1, Some (chunk + MEM_SIZE_FIELD)))
        | Some (info1, None) \<Rightarrow>
            if mi_allow_oom info then Inr (Some (info1, None)) else Inl (Exit_Fail ''out of memory'')))"

definition zbx_mem_free :: "mem_info \<Rightarrow> nat option \<Rightarrow> fatal + mem_info" where
  "zbx_mem_free info ptr =
    (case ptr of None \<Rightarrow> Inl (Exit_Fail ''freeing a NULL pointer'') | Some p \<Rightarrow> Inr (mem_free info p))"

text \<open>The initial single free chunk, of \<^verbatim>\<open>zbx_mem_create\<close> and \<^verbatim>\<open>zbx_mem_clear\<close>.\<close>

definition mem_one_chunk :: "mem_info \<Rightarrow> mem_info" where
  "mem_one_chunk info =
    mem_set_chunk_size (mi_lo_bound info) (mi_total_size info)
      (info\<lparr>mi_buckets := (replicate MEM_BUCKET_COUNT [])
              [mem_bucket_by_size (mi_total_size info) := [mi_lo_bound info]],
            mi_used_size := 0, mi_free_size := of_nat (mi_total_size info)\<rparr>)"

definition zbx_mem_clear :: "mem_info \<Rightarrow> mem_info" where
  "zbx_mem_clear info = mem_one_chunk info"

text \<open>
  The layout of a segment of \<open>sz\<close> bytes attached at \<open>base\<close>: the \<open>info_sz\<close> bytes of the structure,
  8-byte bucket pointers, the two strings, and the bounds of the chunks. \<open>sz\<close> is large enough for
  the subtractions (\<^verbatim>\<open>zbx_mem_required_size\<close>); failures of the system calls end the process.
\<close>

definition zbx_mem_create ::
  "nat \<Rightarrow> nat \<Rightarrow> nat \<Rightarrow> nat \<Rightarrow> nat \<Rightarrow> bool \<Rightarrow> (nat \<Rightarrow> u64) \<Rightarrow> fatal + mem_info" where
  "zbx_mem_create info_sz base sz descr_len param_len allow_oom mem =
    (if \<not> (MEM_MIN_SIZE \<le> sz \<and> sz \<le> MEM_MAX_SIZE) then Inl (Exit_Fail ''requested size not within bounds'')
     else
       (let info = ALIGN8 base;
            sz1 = sz - (info + info_sz - base);
            base1 = info + info_sz;
            buckets = ALIGN8 base1;
            sz2 = sz1 - (buckets + 8 * MEM_BUCKET_COUNT - base1);
            base2 = buckets + 8 * MEM_BUCKET_COUNT;
            sz3 = sz2 - (descr_len + 1);
            base3 = base2 + descr_len + 1;
            sz4 = sz3 - (param_len + 1);
            base4 = base3 + param_len + 1;
            lo = ALIGN8 base4;
            hi = ALIGN8 (base4 + sz4 - 8)
        in Inr (mem_one_chunk \<lparr>mi_mem = mem, mi_buckets = [], mi_lo_bound = lo, mi_hi_bound = hi,
             mi_total_size = hi - lo - 2 * MEM_SIZE_FIELD, mi_used_size = 0, mi_free_size = 0,
             mi_allow_oom = allow_oom\<rparr>)))"

definition zbx_mem_required_size :: "nat \<Rightarrow> nat \<Rightarrow> nat \<Rightarrow> nat \<Rightarrow> nat" where
  "zbx_mem_required_size info_sz chunks_num descr_len param_len =
    7 + info_sz + (8 - 1) + 8 * MEM_BUCKET_COUNT + (descr_len + 1) + (param_len + 1) +
    ((MEM_SIZE_FIELD - 1) + 8) + ((MEM_SIZE_FIELD - 1) + 8) +
    (chunks_num - 1) * MEM_SIZE_FIELD * 2 + chunks_num * (MEM_MIN_ALLOC - 1)"

subsection \<open>The invariant of a segment\<close>

text \<open>A chunk is its address, its size and whether it is used; chunks tile the segment.\<close>

type_synonym chunk = "nat \<times> nat \<times> bool"

fun tiled :: "nat \<Rightarrow> chunk list \<Rightarrow> nat \<Rightarrow> bool" where
  "tiled lo [] hi \<longleftrightarrow> lo = hi"
| "tiled lo ((a, s, u) # cs) hi \<longleftrightarrow> a = lo \<and> 24 \<le> s \<and> 8 dvd s \<and> tiled (a + 16 + s) cs hi"

definition mem_tag :: "bool \<Rightarrow> nat \<Rightarrow> u64" where
  "mem_tag u s = (if u then MEM_FLG_USED OR of_nat s else of_nat s)"

definition tagged :: "(nat \<Rightarrow> u64) \<Rightarrow> chunk list \<Rightarrow> bool" where
  "tagged mem cs \<longleftrightarrow>
    (\<forall>a s u. (a, s, u) \<in> set cs \<longrightarrow> mem a = mem_tag u s \<and> mem (a + 8 + s) = mem_tag u s)"

definition free_of :: "chunk list \<Rightarrow> (nat \<times> nat) set" where
  "free_of cs = {(a, s). (a, s, False) \<in> set cs}"

definition used_of :: "chunk list \<Rightarrow> (nat \<times> nat) set" where
  "used_of cs = {(a, s). (a, s, True) \<in> set cs}"

definition buckets_ok :: "nat list list \<Rightarrow> (nat \<times> nat) set \<Rightarrow> bool" where
  "buckets_ok bs F \<longleftrightarrow> length bs = MEM_BUCKET_COUNT \<and>
    (\<forall>i < MEM_BUCKET_COUNT. distinct (bs ! i) \<and>
      set (bs ! i) = {a. \<exists>s. (a, s) \<in> F \<and> mem_bucket_by_size s = i})"

definition sizes :: "bool \<Rightarrow> chunk list \<Rightarrow> nat" where
  "sizes u cs = (\<Sum>(a, s, v)\<leftarrow>cs. if v = u then s else 0)"

text \<open>
  The chunks \<open>cs\<close> of a segment, whose used size is exact and whose free size is off by \<open>d\<close>.
\<close>

definition mem_chunks :: "mem_info \<Rightarrow> chunk list \<Rightarrow> u64 \<Rightarrow> bool" where
  "mem_chunks info cs d \<longleftrightarrow> tiled (mi_lo_bound info) cs (mi_hi_bound info) \<and>
    mi_hi_bound info < 2 ^ 63 \<and> tagged (mi_mem info) cs \<and> buckets_ok (mi_buckets info) (free_of cs) \<and>
    mi_used_size info = of_nat (sizes True cs) \<and> mi_free_size info = of_nat (sizes False cs) + d"

text \<open>
  A segment in the middle of an operation: the \<open>S\<close> bytes at \<open>c\<close> between the chunks \<open>xs\<close> and \<open>ys\<close> are
  neither used nor free, and the counters are off by \<open>u\<close> and \<open>f\<close>.
\<close>

definition mem_hole ::
  "mem_info \<Rightarrow> chunk list \<Rightarrow> nat \<Rightarrow> nat \<Rightarrow> chunk list \<Rightarrow> u64 \<Rightarrow> u64 \<Rightarrow> bool" where
  "mem_hole info xs c S ys u f \<longleftrightarrow> tiled (mi_lo_bound info) xs c \<and> tiled (c + 16 + S) ys (mi_hi_bound info) \<and>
    24 \<le> S \<and> 8 dvd S \<and> mi_hi_bound info < 2 ^ 63 \<and> tagged (mi_mem info) (xs @ ys) \<and>
    buckets_ok (mi_buckets info) (free_of (xs @ ys)) \<and>
    mi_used_size info = of_nat (sizes True (xs @ ys)) + u \<and>
    mi_free_size info = of_nat (sizes False (xs @ ys)) + f"

lemmas mem_consts = MEM_SIZE_FIELD_def MEM_MIN_ALLOC_def MEM_MAX_BUCKET_SIZE_def MEM_BUCKET_COUNT_def

subsection \<open>Size fields\<close>

lemma bit_flg: "bit MEM_FLG_USED n \<longleftrightarrow> n = 63"
  unfolding MEM_FLG_USED_def bit_push_bit_iff by (auto simp: bit_1_iff)

lemma of_nat_not_bit63:
  assumes "s < 2 ^ 63"
  shows "\<not> bit (of_nat s :: u64) 63"
proof -
  have "s div 2 ^ 63 = 0" using assms by simp
  then have "\<not> bit s 63" unfolding bit_iff_odd by simp
  then show ?thesis by (simp add: bit_of_nat_iff)
qed

lemma mem_tag_read:
  assumes "mi_mem info p = mem_tag u s" "s < 2 ^ 63"
  shows "CHUNK_SIZE info p = s" "FREE_CHUNK info p \<longleftrightarrow> \<not> u"
proof -
  note nb = of_nat_not_bit63 [OF assms(2)]
  have "mem_tag u s AND NOT MEM_FLG_USED = of_nat s"
    using nb by (intro bit_word_eqI) (auto simp: mem_tag_def bit_simps bit_flg)
  moreover have "unat (of_nat s :: u64) = s" using assms(2) by (simp add: unat_of_nat)
  ultimately show "CHUNK_SIZE info p = s" by (simp add: CHUNK_SIZE_def assms(1))
  have "of_nat s AND MEM_FLG_USED = 0"
    using nb by (intro bit_word_eqI) (auto simp: bit_simps bit_flg)
  moreover have "bit ((MEM_FLG_USED OR of_nat s) AND MEM_FLG_USED) 63"
    by (simp add: bit_simps bit_flg)
  then have "(MEM_FLG_USED OR of_nat s) AND MEM_FLG_USED \<noteq> 0" by (metis bit_0_eq bot_apply bot_bool_def)
  ultimately show "FREE_CHUNK info p \<longleftrightarrow> \<not> u" by (simp add: FREE_CHUNK_def assms(1) mem_tag_def)
qed

subsection \<open>Tilings\<close>

lemma tiled_append: "tiled lo (xs @ ys) hi \<longleftrightarrow> (\<exists>m. tiled lo xs m \<and> tiled m ys hi)"
  by (induction xs arbitrary: lo) auto

lemma tiled_le: "tiled lo cs hi \<Longrightarrow> lo \<le> hi"
proof (induction cs arbitrary: lo)
  case (Cons c cs)
  then show ?case by (cases c) fastforce
qed simp

lemma tiled_bounds:
  "tiled lo cs hi \<Longrightarrow> (a, s, u) \<in> set cs \<Longrightarrow> lo \<le> a \<and> a + 16 + s \<le> hi \<and> 24 \<le> s \<and> 8 dvd s"
proof (induction cs arbitrary: lo)
  case (Cons c cs)
  obtain t v where c: "c = (lo, t, v)" using Cons.prems(1) by (cases c) simp
  with Cons.prems(1) have rest: "tiled (lo + 16 + t) cs hi" "24 \<le> t" "8 dvd t" by simp_all
  show ?case
  proof (cases "(a, s, u) = c")
    case True
    with c rest tiled_le [OF rest(1)] show ?thesis by simp
  next
    case False
    with Cons.prems(2) Cons.IH [OF rest(1)] show ?thesis by simp
  qed
qed simp

text \<open>Chunks are disjoint: two that start at the same address are the same, of others one ends first.\<close>

lemma tiled_disjoint:
  assumes "tiled lo cs hi" "(a, s, u) \<in> set cs" "(b, t, v) \<in> set cs"
  shows "(a, s, u) = (b, t, v) \<or> a + 16 + s \<le> b \<or> b + 16 + t \<le> a"
  using assms
proof (induction cs arbitrary: lo)
  case (Cons c cs)
  then obtain s' u' where c: "c = (lo, s', u')" by (cases c) auto
  with Cons.prems have rest: "tiled (lo + 16 + s') cs hi" by simp
  show ?case
    using Cons.IH [OF rest] Cons.prems(2,3) tiled_bounds [OF rest] c by fastforce
qed simp

lemma tiled_distinct:
  assumes "tiled lo cs hi"
  shows "distinct (map fst cs)"
  using assms
proof (induction cs arbitrary: lo)
  case (Cons c cs)
  then obtain s u where c: "c = (lo, s, u)" by (cases c) auto
  with Cons.prems have rest: "tiled (lo + 16 + s) cs hi" by simp
  have "lo \<notin> fst ` set cs" using tiled_bounds [OF rest] by fastforce
  then show ?case using Cons.IH [OF rest] c by simp
qed simp

lemma tagged_append: "tagged mem (xs @ ys) \<longleftrightarrow> tagged mem xs \<and> tagged mem ys"
  by (auto simp: tagged_def)

lemma tagged_Cons: "tagged mem ((a, s, u) # cs) \<longleftrightarrow>
    mem a = mem_tag u s \<and> mem (a + 8 + s) = mem_tag u s \<and> tagged mem cs"
  by (auto simp: tagged_def)

lemma tagged_cong:
  assumes "tagged mem cs" "tiled lo cs hi" "\<And>p. lo \<le> p \<Longrightarrow> p < hi \<Longrightarrow> mem' p = mem p"
  shows "tagged mem' cs"
  unfolding tagged_def
proof (intro allI impI)
  fix a s u assume c: "(a, s, u) \<in> set cs"
  have "lo \<le> a" "a < hi" "lo \<le> a + 8 + s" "a + 8 + s < hi" using tiled_bounds [OF assms(2) c] by auto
  then have "mem' a = mem a" "mem' (a + 8 + s) = mem (a + 8 + s)" by (simp_all add: assms(3))
  with c assms(1) show "mem' a = mem_tag u s \<and> mem' (a + 8 + s) = mem_tag u s"
    by (simp add: tagged_def)
qed

lemma sizes_append [simp]: "sizes u (xs @ ys) = sizes u xs + sizes u ys"
  by (simp add: sizes_def)

lemma sizes_simps [simp]: "sizes u [] = 0" "sizes u ((a, s, v) # cs) = (if v = u then s else 0) + sizes u cs"
  by (simp_all add: sizes_def)

subsection \<open>Buckets\<close>

lemma bucket_count: "MEM_BUCKET_COUNT = 30"
  by (simp add: mem_consts)

lemma bucket_eq: "mem_bucket_by_size s = (if s < 24 then 0 else if s < 256 then (s - 24) div 8 else 29)"
  by (simp add: mem_bucket_by_size_def bucket_count MEM_MIN_ALLOC_def MEM_MAX_BUCKET_SIZE_def)

lemma bucket_less [simp]: "mem_bucket_by_size s < MEM_BUCKET_COUNT"
  unfolding bucket_eq bucket_count by (auto simp: less_mult_imp_div_less)

lemma buckets_okD:
  "buckets_ok bs F \<Longrightarrow> length bs = MEM_BUCKET_COUNT"
  "buckets_ok bs F \<Longrightarrow> i < MEM_BUCKET_COUNT \<Longrightarrow> distinct (bs ! i)"
  "buckets_ok bs F \<Longrightarrow> i < MEM_BUCKET_COUNT \<Longrightarrow>
    a \<in> set (bs ! i) \<longleftrightarrow> (\<exists>s. (a, s) \<in> F \<and> mem_bucket_by_size s = i)"
  unfolding buckets_ok_def by blast+

lemma buckets_okI:
  assumes "length bs = MEM_BUCKET_COUNT" "\<And>i. i < MEM_BUCKET_COUNT \<Longrightarrow> distinct (bs ! i)"
    "\<And>i a. i < MEM_BUCKET_COUNT \<Longrightarrow> a \<in> set (bs ! i) \<longleftrightarrow> (\<exists>s. (a, s) \<in> F \<and> mem_bucket_by_size s = i)"
  shows "buckets_ok bs F"
  using assms unfolding buckets_ok_def by blast

lemma buckets_unlink:
  assumes "buckets_ok bs F" "(a, s) \<in> F" "\<And>t. (a, t) \<in> F \<Longrightarrow> t = s"
  shows "buckets_ok (bs[mem_bucket_by_size s := remove1 a (bs ! mem_bucket_by_size s)]) (F - {(a, s)})"
proof (rule buckets_okI)
  let ?b = "mem_bucket_by_size s"
  fix i assume i: "i < MEM_BUCKET_COUNT"
  note ok = buckets_okD [OF assms(1)]
  show "distinct (bs[?b := remove1 a (bs ! ?b)] ! i)"
    using ok(1) ok(2) [OF i] i by (cases "i = ?b") simp_all
  show "c \<in> set (bs[?b := remove1 a (bs ! ?b)] ! i) \<longleftrightarrow>
      (\<exists>t. (c, t) \<in> F - {(a, s)} \<and> mem_bucket_by_size t = i)" for c
  proof (cases "i = ?b")
    case True
    then have "c \<in> set (bs[?b := remove1 a (bs ! ?b)] ! i) \<longleftrightarrow> c \<noteq> a \<and> c \<in> set (bs ! ?b)"
      using ok(1) ok(2) [OF i] i by (auto simp: set_remove1_eq)
    with True ok(3) [OF i, of c] assms(3) show ?thesis by (cases "c = a") auto
  next
    case False
    with ok(3) [OF i, of c] show ?thesis by auto
  qed
qed (use assms(1) in \<open>simp add: buckets_ok_def\<close>)

lemma buckets_link:
  assumes "buckets_ok bs F" "\<And>t. (a, t) \<notin> F"
  shows "buckets_ok (bs[mem_bucket_by_size s := a # bs ! mem_bucket_by_size s]) (insert (a, s) F)"
proof (rule buckets_okI)
  let ?b = "mem_bucket_by_size s"
  fix i assume i: "i < MEM_BUCKET_COUNT"
  note ok = buckets_okD [OF assms(1)]
  have new: "a \<notin> set (bs ! i)" using ok(3) [OF i, of a] assms(2) by simp
  show "distinct (bs[?b := a # bs ! ?b] ! i)"
    using ok(1) ok(2) [OF i] i new by (cases "i = ?b") simp_all
  show "c \<in> set (bs[?b := a # bs ! ?b] ! i) \<longleftrightarrow>
      (\<exists>t. (c, t) \<in> insert (a, s) F \<and> mem_bucket_by_size t = i)" for c
    using ok(1) ok(3) [OF i, of c] i by (cases "i = ?b") auto
qed (use assms(1) in \<open>simp add: buckets_ok_def\<close>)

subsection \<open>Steps of the operations\<close>

lemma chunk_read:
  assumes "tiled lo cs hi" "hi < 2 ^ 63" "tagged (mi_mem info) cs" "(a, s, u) \<in> set cs"
  shows "CHUNK_SIZE info a = s" "FREE_CHUNK info a \<longleftrightarrow> \<not> u"
    "CHUNK_SIZE info (a + 8 + s) = s" "FREE_CHUNK info (a + 8 + s) \<longleftrightarrow> \<not> u"
proof -
  have s: "s < 2 ^ 63" using tiled_bounds [OF assms(1,4)] assms(2) by simp
  have "mi_mem info a = mem_tag u s" "mi_mem info (a + 8 + s) = mem_tag u s"
    using assms(3,4) by (simp_all add: tagged_def)
  from mem_tag_read [OF this(1) s] mem_tag_read [OF this(2) s] show "CHUNK_SIZE info a = s" "FREE_CHUNK info a \<longleftrightarrow> \<not> u"
    "CHUNK_SIZE info (a + 8 + s) = s" "FREE_CHUNK info (a + 8 + s) \<longleftrightarrow> \<not> u" by simp_all
qed

lemma mem_chunks_read:
  assumes "mem_chunks info cs d" "(a, s, u) \<in> set cs"
  shows "CHUNK_SIZE info a = s" "FREE_CHUNK info a \<longleftrightarrow> \<not> u"
    "CHUNK_SIZE info (a + 8 + s) = s" "FREE_CHUNK info (a + 8 + s) \<longleftrightarrow> \<not> u"
  using assms chunk_read [of "mi_lo_bound info" cs "mi_hi_bound info" info a s u]
  by (auto simp: mem_chunks_def)

lemma free_of_simps [simp]:
  "free_of [] = {}"
  "free_of ((a, s, u) # cs) = (if u then free_of cs else insert (a, s) (free_of cs))"
  "free_of (xs @ ys) = free_of xs \<union> free_of ys"
  by (auto simp: free_of_def)

lemma used_of_simps [simp]:
  "used_of [] = {}"
  "used_of ((a, s, u) # cs) = (if u then insert (a, s) (used_of cs) else used_of cs)"
  "used_of (xs @ ys) = used_of xs \<union> used_of ys"
  by (auto simp: used_of_def)

lemma mem_holeI:
  assumes "tiled (mi_lo_bound info) xs c" "tiled (c + 16 + S) ys (mi_hi_bound info)" "24 \<le> S" "8 dvd S"
    "mi_hi_bound info < 2 ^ 63" "tagged (mi_mem info) xs" "tagged (mi_mem info) ys"
    "buckets_ok (mi_buckets info) (free_of xs \<union> free_of ys)"
    "mi_used_size info = of_nat (sizes True xs) + of_nat (sizes True ys) + u"
    "mi_free_size info = of_nat (sizes False xs) + of_nat (sizes False ys) + f"
  shows "mem_hole info xs c S ys u f"
  unfolding mem_hole_def using assms by (auto simp: tagged_append)

lemma mem_holeD:
  assumes "mem_hole info xs c S ys u f"
  shows "tiled (mi_lo_bound info) xs c" "tiled (c + 16 + S) ys (mi_hi_bound info)" "24 \<le> S" "8 dvd S"
    "mi_hi_bound info < 2 ^ 63" "tagged (mi_mem info) xs" "tagged (mi_mem info) ys"
    "buckets_ok (mi_buckets info) (free_of (xs @ ys))"
    "mi_used_size info = of_nat (sizes True xs) + of_nat (sizes True ys) + u"
    "mi_free_size info = of_nat (sizes False xs) + of_nat (sizes False ys) + f"
  using assms unfolding mem_hole_def by (auto simp: tagged_append)

lemma mem_chunksD:
  assumes "mem_chunks info cs d"
  shows "tiled (mi_lo_bound info) cs (mi_hi_bound info)" "mi_hi_bound info < 2 ^ 63" "tagged (mi_mem info) cs"
    "buckets_ok (mi_buckets info) (free_of cs)" "mi_used_size info = of_nat (sizes True cs)"
    "mi_free_size info = of_nat (sizes False cs) + d"
  using assms unfolding mem_chunks_def by auto

lemma mem_hole_tiled: "mem_hole info xs c S ys u f \<Longrightarrow> tiled (mi_lo_bound info) (xs @ (c, S, b) # ys) (mi_hi_bound info)"
  by (auto simp: mem_hole_def tiled_append)

lemma mem_hole_read:
  assumes "mem_hole info xs c S ys u f" "(a, s, v) \<in> set xs \<union> set ys"
  shows "CHUNK_SIZE info a = s"
proof -
  have "s < 2 ^ 63"
    using tiled_bounds [OF mem_hole_tiled [OF assms(1), of True], of a s v] assms by (auto simp: mem_hole_def)
  moreover have "mi_mem info a = mem_tag v s"
    using assms by (auto simp: mem_hole_def tagged_def)
  ultimately show ?thesis using mem_tag_read by blast
qed

lemma mem_account_simps [simp]:
  "mi_mem (mem_account a b x y info) = mi_mem info"
  "mi_buckets (mem_account a b x y info) = mi_buckets info"
  "mi_lo_bound (mem_account a b x y info) = mi_lo_bound info"
  "mi_hi_bound (mem_account a b x y info) = mi_hi_bound info"
  "CHUNK_SIZE (mem_account a b x y info) p = CHUNK_SIZE info p"
  "FREE_CHUNK (mem_account a b x y info) p = FREE_CHUNK info p"
  by (simp_all add: mem_account_def CHUNK_SIZE_def FREE_CHUNK_def)

lemma mem_unlink_simps [simp]:
  "mi_mem (mem_unlink_chunk c info) = mi_mem info"
  "mi_lo_bound (mem_unlink_chunk c info) = mi_lo_bound info"
  "mi_hi_bound (mem_unlink_chunk c info) = mi_hi_bound info"
  "CHUNK_SIZE (mem_unlink_chunk c info) p = CHUNK_SIZE info p"
  "FREE_CHUNK (mem_unlink_chunk c info) p = FREE_CHUNK info p"
  "mi_used_size (mem_unlink_chunk c info) = mi_used_size info"
  "mi_free_size (mem_unlink_chunk c info) = mi_free_size info"
  by (simp_all add: mem_unlink_chunk_def Let_def CHUNK_SIZE_def FREE_CHUNK_def)

lemma mem_hole_account:
  assumes "mem_hole info xs c S ys u f"
  shows "mem_hole (mem_account um up fm fp info) xs c S ys (u + of_nat up - of_nat um) (f + of_nat fp - of_nat fm)"
  using assms by (simp add: mem_hole_def) (simp add: mem_account_def algebra_simps)

lemma not_elsewhere:
  assumes "tiled lo (xs @ (c, S, b) # ys) hi"
  shows "(c, t) \<notin> free_of xs \<union> free_of ys" "(c, t) \<notin> used_of xs \<union> used_of ys"
  using tiled_distinct [OF assms] by (force simp: free_of_def used_of_def)+

text \<open>Opening a hole at a free or a used chunk.\<close>

lemma hole_of_free:
  assumes "mem_chunks info (xs @ (c, S, False) # ys) d"
  shows "mem_hole (mem_unlink_chunk c info) xs c S ys 0 (of_nat S + d)"
proof -
  let ?cs = "xs @ (c, S, False) # ys"
  have t: "tiled (mi_lo_bound info) ?cs (mi_hi_bound info)" using assms by (simp add: mem_chunks_def)
  have sz: "CHUNK_SIZE info c = S" using mem_chunks_read(1) [OF assms, of c S False] by simp
  have b: "buckets_ok (mi_buckets info) (free_of ?cs)" using assms by (simp add: mem_chunks_def)
  have "buckets_ok (mi_buckets (mem_unlink_chunk c info)) (free_of ?cs - {(c, S)})"
    unfolding mem_unlink_chunk_def Let_def sz
    using buckets_unlink [OF b, of c S] not_elsewhere(1) [OF t] by simp
  moreover have "free_of ?cs - {(c, S)} = free_of xs \<union> free_of ys" using not_elsewhere(1) [OF t] by auto
  ultimately have "buckets_ok (mi_buckets (mem_unlink_chunk c info)) (free_of xs \<union> free_of ys)" by simp
  then show ?thesis
    using t mem_chunksD [OF assms] by (intro mem_holeI) (auto simp: tiled_append tagged_append tagged_Cons)
qed

lemma hole_of_used:
  assumes "mem_chunks info (xs @ (c, S, True) # ys) d"
  shows "mem_hole info xs c S ys (of_nat S) d"
  using mem_chunksD [OF assms] by (intro mem_holeI) (auto simp: tiled_append tagged_append tagged_Cons)

text \<open>A hole swallows a free neighbour.\<close>

lemma hole_absorb_next:
  assumes "mem_hole info xs c S ((n, T, False) # ys) u f"
  shows "mem_hole (mem_unlink_chunk n info) xs c (S + 16 + T) ys u (f + of_nat T)"
proof -
  have t: "tiled (mi_lo_bound info) ((xs @ [(c, S, True)]) @ (n, T, False) # ys) (mi_hi_bound info)"
    using mem_hole_tiled [OF assms, of True] by simp
  have sz: "CHUNK_SIZE info n = T" using mem_hole_read [OF assms] by auto
  have b: "buckets_ok (mi_buckets info) (free_of (xs @ (n, T, False) # ys))"
    using assms unfolding mem_hole_def by blast
  have ne: "(n, t) \<notin> free_of xs \<union> free_of ys" for t using not_elsewhere(1) [OF t, of t] by auto
  have "buckets_ok (mi_buckets (mem_unlink_chunk n info)) (free_of (xs @ (n, T, False) # ys) - {(n, T)})"
    unfolding mem_unlink_chunk_def Let_def sz using buckets_unlink [OF b, of n T] ne by simp
  moreover have "free_of (xs @ (n, T, False) # ys) - {(n, T)} = free_of xs \<union> free_of ys" using ne by auto
  ultimately have "buckets_ok (mi_buckets (mem_unlink_chunk n info)) (free_of xs \<union> free_of ys)" by simp
  moreover have eq: "c + 16 + (S + 16 + T) = n + 16 + T" using mem_holeD(2) [OF assms] by simp
  have "tiled (c + 16 + (S + 16 + T)) ys (mi_hi_bound info)"
    unfolding eq using mem_holeD(2) [OF assms] unfolding tiled.simps by blast
  ultimately show ?thesis
    using mem_holeD [OF assms] by (intro mem_holeI) (simp_all add: tagged_Cons)
qed

lemma hole_absorb_prev:
  assumes "mem_hole info (xs @ [(p, T, False)]) c S ys u f"
  shows "mem_hole (mem_unlink_chunk p info) xs p (S + 16 + T) ys u (f + of_nat T)"
proof -
  have t: "tiled (mi_lo_bound info) (xs @ (p, T, False) # (c, S, True) # ys) (mi_hi_bound info)"
    using mem_hole_tiled [OF assms, of True] by simp
  have pT: "p + 16 + T = c" "24 \<le> T" "8 dvd T" "tiled (mi_lo_bound info) xs p"
    using assms by (auto simp: mem_hole_def tiled_append)
  have sz: "CHUNK_SIZE info p = T" using mem_hole_read [OF assms] by auto
  have b: "buckets_ok (mi_buckets info) (free_of ((xs @ [(p, T, False)]) @ ys))"
    using assms unfolding mem_hole_def by blast
  have ne: "(p, t) \<notin> free_of xs \<union> free_of ys" for t using not_elsewhere(1) [OF t, of t] by auto
  have "buckets_ok (mi_buckets (mem_unlink_chunk p info)) (free_of ((xs @ [(p, T, False)]) @ ys) - {(p, T)})"
    unfolding mem_unlink_chunk_def Let_def sz using buckets_unlink [OF b, of p T] ne by simp
  moreover have "free_of ((xs @ [(p, T, False)]) @ ys) - {(p, T)} = free_of xs \<union> free_of ys" using ne by auto
  ultimately have "buckets_ok (mi_buckets (mem_unlink_chunk p info)) (free_of xs \<union> free_of ys)" by simp
  moreover have eq: "p + 16 + (S + 16 + T) = c + 16 + S" using pT(1) by simp
  have "tiled (p + 16 + (S + 16 + T)) ys (mi_hi_bound info)"
    unfolding eq by (rule mem_holeD(2) [OF assms])
  ultimately show ?thesis
    using mem_holeD [OF assms] pT(2-4) by (intro mem_holeI) (simp_all add: tagged_append tagged_Cons)
qed

text \<open>Writing size fields inside a hole leaves the fields of the chunks around it.\<close>

lemma tagged_outside:
  assumes "tagged mem cs" "tiled lo cs hi" "p < lo \<or> hi \<le> p" "q < lo \<or> hi \<le> q"
  shows "tagged (mem(p := v, q := w)) cs"
  using assms by (intro tagged_cong [OF assms(1,2)]) auto

lemma hole_set_used:
  assumes "mem_hole info xs c S ys (of_nat S) d"
  shows "mem_chunks (mem_set_used_chunk_size c S info) (xs @ (c, S, True) # ys) d"
proof -
  note h = mem_holeD [OF assms]
  let ?mem = "mi_mem (mem_set_used_chunk_size c S info)"
  have mem: "?mem = (mi_mem info)(c := mem_tag True S, c + 8 + S := mem_tag True S)"
    by (simp add: mem_set_used_chunk_size_def mem_tag_def MEM_SIZE_FIELD_def)
  have "tagged ?mem xs" "tagged ?mem ys"
    unfolding mem by (rule tagged_outside [OF h(6) h(1)] tagged_outside [OF h(7) h(2)]; simp)+
  moreover have "?mem c = mem_tag True S" "?mem (c + 8 + S) = mem_tag True S" by (simp_all add: mem)
  moreover have "tiled (mi_lo_bound info) (xs @ (c, S, True) # ys) (mi_hi_bound info)"
    by (rule mem_hole_tiled [OF assms])
  ultimately show ?thesis
    using h by (simp add: mem_chunks_def tagged_append tagged_Cons)
      (simp add: mem_set_used_chunk_size_def algebra_simps)
qed

lemma hole_set_free:
  assumes "mem_hole info xs c S ys 0 (of_nat S + d)"
  shows "mem_chunks (mem_link_chunk c (mem_set_chunk_size c S info)) (xs @ (c, S, False) # ys) d"
proof -
  note h = mem_holeD [OF assms]
  let ?i = "mem_set_chunk_size c S info"
  have t: "tiled (mi_lo_bound info) (xs @ (c, S, False) # ys) (mi_hi_bound info)"
    by (rule mem_hole_tiled [OF assms])
  have mem: "mi_mem ?i = (mi_mem info)(c := mem_tag False S, c + 8 + S := mem_tag False S)"
    by (simp add: mem_set_chunk_size_def mem_tag_def MEM_SIZE_FIELD_def)
  have tg: "tagged (mi_mem ?i) xs" "tagged (mi_mem ?i) ys"
    unfolding mem by (rule tagged_outside [OF h(6) h(1)] tagged_outside [OF h(7) h(2)]; simp)+
  have ft: "mi_mem ?i c = mem_tag False S" "mi_mem ?i (c + 8 + S) = mem_tag False S" by (simp_all add: mem)
  have "S < 2 ^ 63" using tiled_bounds [OF t, of c S False] h(5) by simp
  then have sz: "CHUNK_SIZE ?i c = S" using mem_tag_read [OF ft(1)] by simp
  have "buckets_ok (mi_buckets (mem_link_chunk c ?i)) (insert (c, S) (free_of (xs @ ys)))"
    unfolding mem_link_chunk_def Let_def sz
    using buckets_link [OF h(8), of c S] not_elsewhere(1) [OF t] by (simp add: mem_set_chunk_size_def)
  moreover have "mi_mem (mem_link_chunk c ?i) = mi_mem ?i" by (simp add: mem_link_chunk_def Let_def)
  ultimately show ?thesis
    using h t tg ft by (simp add: mem_chunks_def tagged_append tagged_Cons)
      (simp add: mem_link_chunk_def Let_def mem_set_chunk_size_def algebra_simps)
qed

text \<open>The rear part of a hole becomes a free chunk.\<close>

lemma hole_split:
  assumes "mem_hole info xs c S ys u f" "sz + 40 \<le> S" "24 \<le> sz" "8 dvd sz"
    and "n = c + 16 + sz" "N = S - sz - 16"
  shows "mem_hole (mem_link_chunk n (mem_set_chunk_size n N info)) xs c sz ((n, N, False) # ys) u (f - of_nat N)"
proof -
  note h = mem_holeD [OF assms(1)]
  let ?i = "mem_set_chunk_size n N info"
  have S: "S = sz + 16 + N" "24 \<le> N" using assms(2,6) by auto
  have e: "n + 16 + N = c + 16 + S" using S(1) assms(5) by simp
  have N8: "8 dvd N" unfolding assms(6) using h(4) assms(4) by (auto intro!: dvd_diff_nat)
  have ty: "tiled (c + 16 + sz) ((n, N, False) # ys) (mi_hi_bound info)"
    using S(2) N8 h(2) e assms(5) by (simp only: tiled.simps)
  have t: "tiled (mi_lo_bound info) (xs @ (c, sz, False) # (n, N, False) # ys) (mi_hi_bound info)"
    using h(1) ty assms(3,4) by (auto simp: tiled_append)
  have mem: "mi_mem ?i = (mi_mem info)(n := mem_tag False N, n + 8 + N := mem_tag False N)"
    by (simp add: mem_set_chunk_size_def mem_tag_def MEM_SIZE_FIELD_def)
  have tg: "tagged (mi_mem ?i) xs" "tagged (mi_mem ?i) ys"
    unfolding mem using e assms(5)
    by (auto intro!: tagged_outside [OF h(6) h(1)] tagged_outside [OF h(7) h(2)])
  have ft: "mi_mem ?i n = mem_tag False N" "mi_mem ?i (n + 8 + N) = mem_tag False N" by (simp_all add: mem)
  have "N < 2 ^ 63" using tiled_bounds [OF t, of n N False] h(5) by simp
  then have sz: "CHUNK_SIZE ?i n = N" using mem_tag_read [OF ft(1)] by simp
  have "tiled (mi_lo_bound info) ((xs @ [(c, sz, False)]) @ (n, N, False) # ys) (mi_hi_bound info)"
    using t by simp
  note ne = not_elsewhere(1) [OF this]
  have "buckets_ok (mi_buckets (mem_link_chunk n ?i)) (insert (n, N) (free_of (xs @ ys)))"
    unfolding mem_link_chunk_def Let_def sz
    using buckets_link [OF h(8), of n N] ne by (simp add: mem_set_chunk_size_def)
  then have bk: "buckets_ok (mi_buckets (mem_link_chunk n ?i)) (free_of xs \<union> free_of ((n, N, False) # ys))" by simp
  have fr: "mi_mem (mem_link_chunk n ?i) = mi_mem ?i" "mi_lo_bound (mem_link_chunk n ?i) = mi_lo_bound info"
    "mi_hi_bound (mem_link_chunk n ?i) = mi_hi_bound info" "mi_used_size (mem_link_chunk n ?i) = mi_used_size info"
    "mi_free_size (mem_link_chunk n ?i) = mi_free_size info"
    by (simp_all add: mem_link_chunk_def Let_def mem_set_chunk_size_def)
  show ?thesis
  proof (rule mem_holeI)
    show "tiled (c + 16 + sz) ((n, N, False) # ys) (mi_hi_bound (mem_link_chunk n ?i))"
      unfolding fr by (rule ty)
    show "tagged (mi_mem (mem_link_chunk n ?i)) ((n, N, False) # ys)"
      unfolding fr tagged_Cons using tg(2) ft by blast
  qed (use h tg bk assms(3,4) in \<open>simp_all add: fr\<close>)
qed

lemma use_or_split_spec:
  assumes "mem_hole info xs c S ys 0 f" "sz \<le> S" "24 \<le> sz" "8 dvd sz"
  shows "\<exists>s rest. mem_chunks (mem_use_or_split c S sz info) (xs @ (c, s, True) # rest @ ys) (f - of_nat S) \<and>
    sz \<le> s \<and> used_of rest = {}"
proof (cases "S < sz + 40")
  case True
  have "mem_hole (mem_account 0 S S 0 info) xs c S ys (of_nat S) (f - of_nat S)"
    using mem_hole_account [OF assms(1), of 0 S S 0] by simp
  from hole_set_used [OF this] True have
    "mem_chunks (mem_use_or_split c S sz info) (xs @ (c, S, True) # [] @ ys) (f - of_nat S)"
    by (simp add: mem_use_or_split_def MEM_SIZE_FIELD_def MEM_MIN_ALLOC_def)
  with assms(2) show ?thesis by (metis used_of_simps(1))
next
  case False
  let ?n = "c + 16 + sz" and ?N = "S - sz - 16"
  let ?i = "mem_link_chunk ?n (mem_set_chunk_size ?n ?N info)"
  have "mem_hole ?i xs c sz ((?n, ?N, False) # ys) 0 (f - of_nat ?N)"
    using False by (intro hole_split [OF assms(1) _ assms(3,4) refl refl]) simp
  from mem_hole_account [OF this, of 0 sz S ?N]
  have "mem_hole (mem_account 0 sz S ?N ?i) xs c sz ((?n, ?N, False) # ys) (of_nat sz) (f - of_nat S)"
    by simp
  from hole_set_used [OF this] False
  have "mem_chunks (mem_use_or_split c S sz info) (xs @ (c, sz, True) # [(?n, ?N, False)] @ ys) (f - of_nat S)"
    by (simp add: mem_use_or_split_def Let_def MEM_SIZE_FIELD_def MEM_MIN_ALLOC_def ac_simps)
  then show ?thesis by (intro exI [of _ sz] exI [of _ "[(?n, ?N, False)]"]) simp
qed

subsection \<open>The operations\<close>

lemma proper_size:
  "24 \<le> mem_proper_alloc_size n" "8 dvd mem_proper_alloc_size n" "n \<le> mem_proper_alloc_size n"
proof -
  have "8 dvd n + (8 - n mod 8) mod 8"
  proof (cases "n mod 8 = 0")
    case False
    then have "(8 - n mod 8) mod 8 = 8 - n mod 8" by simp
    moreover have "n mod 8 < 8" by simp
    then have "n + (8 - n mod 8) = n div 8 * 8 + 8" using div_mult_mod_eq [of n 8] by linarith
    ultimately show ?thesis by simp
  qed (simp add: mod_0_imp_dvd)
  then show "24 \<le> mem_proper_alloc_size n" "8 dvd mem_proper_alloc_size n" "n \<le> mem_proper_alloc_size n"
    by (simp_all add: mem_proper_alloc_size_def MEM_MIN_ALLOC_def)
qed

lemma first_bucket:
  assumes "i \<le> MEM_BUCKET_COUNT - 1"
  shows "i \<le> mem_first_bucket bs i \<and> mem_first_bucket bs i \<le> MEM_BUCKET_COUNT - 1 \<and>
    (\<forall>j. i \<le> j \<and> j < mem_first_bucket bs i \<longrightarrow> bs ! j = []) \<and>
    (mem_first_bucket bs i < MEM_BUCKET_COUNT - 1 \<longrightarrow> bs ! mem_first_bucket bs i \<noteq> [])"
  using assms
proof (induction bs i rule: mem_first_bucket.induct)
  case (1 bs i)
  show ?case
  proof (cases "i < MEM_BUCKET_COUNT - 1 \<and> bs ! i = []")
    case True
    then have eq: "mem_first_bucket bs i = mem_first_bucket bs (i + 1)"
      by (subst mem_first_bucket.simps) simp
    have "i + 1 \<le> MEM_BUCKET_COUNT - 1" using True by simp
    note IH = "1.IH" [OF True this]
    have "bs ! j = []" if "i \<le> j" "j < mem_first_bucket bs (i + 1)" for j
      using IH that True by (cases "j = i") auto
    with IH show ?thesis unfolding eq by auto
  next
    case False
    then have "mem_first_bucket bs i = i" by (simp only: mem_first_bucket.simps [of bs i] if_False)
    with False "1.prems" show ?thesis by auto
  qed
qed

lemma bucket_mono: "s \<le> t \<Longrightarrow> mem_bucket_by_size s \<le> mem_bucket_by_size t"
  unfolding bucket_eq by (auto intro: div_le_mono)

lemma bucket_same:
  assumes "mem_bucket_by_size s < 29" "mem_bucket_by_size t \<le> mem_bucket_by_size s"
    "24 \<le> s" "24 \<le> t" "8 dvd s" "8 dvd t"
  shows "t \<le> s"
proof -
  from assms(5,6) obtain a b where ab: "s = 8 * a" "t = 8 * b" by (auto simp: dvd_def)
  have "s < 256" "t < 256" "(t - 24) div 8 \<le> (s - 24) div 8"
    using assms(1-4) by (auto simp: bucket_eq split: if_splits)
  with ab assms(3,4) show ?thesis by auto
qed

text \<open>The chunk that \<^verbatim>\<open>__mem_malloc\<close> selects is free and large enough; it selects none only if none is.\<close>

lemma malloc_choice:
  assumes m: "mem_chunks info cs d" and sz: "24 \<le> sz" "8 dvd sz"
  defines "index \<equiv> mem_first_bucket (mi_buckets info) (mem_bucket_by_size sz)"
  defines "choice \<equiv> (if index = MEM_BUCKET_COUNT - 1
                  then find (\<lambda>c. \<not> CHUNK_SIZE info c < sz) (mi_buckets info ! index)
                  else Some (hd (mi_buckets info ! index)))"
  shows "case choice of Some c \<Rightarrow> (c, CHUNK_SIZE info c) \<in> free_of cs \<and> sz \<le> CHUNK_SIZE info c
    | None \<Rightarrow> \<forall>(a, s) \<in> free_of cs. s < sz"
proof -
  have "mem_bucket_by_size sz \<le> MEM_BUCKET_COUNT - 1" using bucket_less [of sz] by linarith
  note fb = first_bucket [OF this, of "mi_buckets info", folded index_def]
  have i: "index < MEM_BUCKET_COUNT" using fb by (auto simp: bucket_count)
  note bk = buckets_okD [OF mem_chunksD(4) [OF m]]
  have mem: "\<exists>s. (c, s) \<in> free_of cs \<and> mem_bucket_by_size s = j \<and> CHUNK_SIZE info c = s \<and> 24 \<le> s \<and> 8 dvd s"
    if "c \<in> set (mi_buckets info ! j)" "j < MEM_BUCKET_COUNT" for c j
  proof -
    from bk(3) [OF that(2)] that(1) obtain s where s: "(c, s) \<in> free_of cs" "mem_bucket_by_size s = j" by blast
    then have "(c, s, False) \<in> set cs" by (simp add: free_of_def)
    with s tiled_bounds [OF mem_chunksD(1) [OF m] this] mem_chunks_read(1) [OF m this] show ?thesis by blast
  qed
  show ?thesis
  proof (cases "index = MEM_BUCKET_COUNT - 1")
    case True
    show ?thesis
    proof (cases choice)
      case None
      have "s < sz" if "(a, s) \<in> free_of cs" for a s
      proof (rule ccontr)
        assume "\<not> s < sz"
        then have "mem_bucket_by_size sz \<le> mem_bucket_by_size s" by (intro bucket_mono) simp
        moreover have a: "a \<in> set (mi_buckets info ! mem_bucket_by_size s)"
          using bk(3) [of "mem_bucket_by_size s" a] that by auto
        ultimately have "\<not> mem_bucket_by_size s < index" using fb by (metis empty_iff list.set(1))
        with True bucket_less [of s] have e: "mem_bucket_by_size s = index" by linarith
        from that have "(a, s, False) \<in> set cs" by (simp add: free_of_def)
        then have "CHUNK_SIZE info a = s" by (rule mem_chunks_read(1) [OF m])
        with a e None True \<open>\<not> s < sz\<close> show False by (auto simp: choice_def find_None_iff)
      qed
      with None show ?thesis by auto
    next
      case (Some c)
      then have "c \<in> set (mi_buckets info ! index)" "\<not> CHUNK_SIZE info c < sz"
        using True by (auto simp: choice_def find_Some_iff)
      with mem [OF this(1) i] Some show ?thesis by auto
    qed
  next
    case False
    then have "index < MEM_BUCKET_COUNT - 1" using fb by linarith
    with fb have ne: "mi_buckets info ! index \<noteq> []" by blast
    then have "hd (mi_buckets info ! index) \<in> set (mi_buckets info ! index)" by simp
    from mem [OF this i] obtain s where s: "(hd (mi_buckets info ! index), s) \<in> free_of cs"
      "mem_bucket_by_size s = index" "CHUNK_SIZE info (hd (mi_buckets info ! index)) = s" "24 \<le> s" "8 dvd s" by blast
    have "sz \<le> s"
      using bucket_same [OF _ _ s(4) sz(1) s(5) sz(2)] s(2) fb \<open>index < MEM_BUCKET_COUNT - 1\<close>
      by (simp add: bucket_count)
    with s False show ?thesis by (simp add: choice_def)
  qed
qed

text \<open>
  Allocation takes one free chunk and turns it into a used one, possibly followed by a free rest;
  it fails only when no free chunk is large enough, and then changes nothing.
\<close>

lemma malloc_spec:
  assumes m: "mem_chunks info cs d"
  shows "case mem_malloc info n of
      (info', Some c) \<Rightarrow> \<exists>cs' s. mem_chunks info' cs' d \<and> mem_proper_alloc_size n \<le> s \<and>
        (c, s) \<notin> used_of cs \<and> used_of cs' = insert (c, s) (used_of cs)
    | (info', None) \<Rightarrow> info' = info \<and> (\<forall>(a, s) \<in> free_of cs. s < mem_proper_alloc_size n)"
proof -
  let ?sz = "mem_proper_alloc_size n"
  define index where "index = mem_first_bucket (mi_buckets info) (mem_bucket_by_size ?sz)"
  define choice where "choice = (if index = MEM_BUCKET_COUNT - 1
    then find (\<lambda>c. \<not> CHUNK_SIZE info c < ?sz) (mi_buckets info ! index) else Some (hd (mi_buckets info ! index)))"
  note ch = malloc_choice [OF m proper_size(1,2), of n, folded index_def, folded choice_def]
  have run: "mem_malloc info n = (case choice of None \<Rightarrow> (info, None)
      | Some c \<Rightarrow> (mem_use_or_split c (CHUNK_SIZE info c) ?sz (mem_unlink_chunk c info), Some c))"
    unfolding mem_malloc_def Let_def choice_def index_def ..
  show ?thesis
  proof (cases choice)
    case None
    with ch run show ?thesis by auto
  next
    case (Some c)
    let ?S = "CHUNK_SIZE info c"
    from ch Some have c: "(c, ?S, False) \<in> set cs" "?sz \<le> ?S" by (auto simp: free_of_def)
    then obtain xs ys where cs: "cs = xs @ (c, ?S, False) # ys" by (metis split_list)
    have t: "tiled (mi_lo_bound info) (xs @ (c, ?S, False) # ys) (mi_hi_bound info)"
      using mem_chunksD(1) [OF m] cs by simp
    have "mem_hole (mem_unlink_chunk c info) xs c ?S ys 0 (of_nat ?S + d)"
      using hole_of_free m cs by metis
    from use_or_split_spec [OF this c(2) proper_size(1,2)] obtain s rest where
      "mem_chunks (mem_use_or_split c ?S ?sz (mem_unlink_chunk c info)) (xs @ (c, s, True) # rest @ ys) d"
      "?sz \<le> s" "used_of rest = {}" by auto
    moreover have "used_of (xs @ (c, s, True) # rest @ ys) = insert (c, s) (used_of cs)"
      using calculation(3) by (subst cs) simp
    moreover have "(c, s) \<notin> used_of cs"
      using not_elsewhere(2) [OF t, of s] by (subst cs) simp
    ultimately have "\<exists>cs' s. mem_chunks (mem_use_or_split c ?S ?sz (mem_unlink_chunk c info)) cs' d \<and>
      ?sz \<le> s \<and> (c, s) \<notin> used_of cs \<and> used_of cs' = insert (c, s) (used_of cs)" by blast
    then show ?thesis unfolding run Some by simp
  qed
qed

text \<open>The neighbours of a chunk, as the size fields around it show them.\<close>

lemma next_chunk_cases:
  assumes "mem_chunks info (xs @ (c, S, u) # ys) d"
  obtains (free) T zs where "ys = (c + 16 + S, T, False) # zs" "c + 16 + S < mi_hi_bound info"
      "FREE_CHUNK info (c + 16 + S)" "CHUNK_SIZE info (c + 16 + S) = T"
  | (no) "\<not> (c + 16 + S < mi_hi_bound info \<and> FREE_CHUNK info (c + 16 + S))"
proof (cases ys)
  case Nil
  then have "c + 16 + S = mi_hi_bound info" using mem_chunksD(1) [OF assms] by (auto simp: tiled_append)
  then show ?thesis using no by simp
next
  case (Cons y zs)
  obtain a T v where y: "y = (a, T, v)" by (cases y)
  have a: "a = c + 16 + S" using mem_chunksD(1) [OF assms] by (auto simp: Cons y tiled_append)
  have mem: "(a, T, v) \<in> set (xs @ (c, S, u) # ys)" by (simp add: Cons y)
  note rd = mem_chunks_read [OF assms mem]
  have "a < mi_hi_bound info" using tiled_bounds [OF mem_chunksD(1) [OF assms] mem] by simp
  then show ?thesis using free [of T zs] no rd Cons y a by (cases v) simp_all
qed

lemma prev_chunk_cases:
  assumes "mem_chunks info (xs @ (c, S, u) # ys) d"
  obtains (free) p T zs where "xs = zs @ [(p, T, False)]" "p + 16 + T = c" "mi_lo_bound info < c"
      "FREE_CHUNK info (c - 8)" "CHUNK_SIZE info (c - 8) = T" "CHUNK_SIZE info p = T"
  | (no) "\<not> (mi_lo_bound info < c \<and> FREE_CHUNK info (c - 8))"
proof (cases xs rule: rev_cases)
  case Nil
  then show ?thesis using no mem_chunksD(1) [OF assms] by simp
next
  case (snoc zs y)
  obtain p T v where y: "y = (p, T, v)" by (cases y)
  have p: "p + 16 + T = c" using mem_chunksD(1) [OF assms] by (auto simp: snoc y tiled_append)
  have mem: "(p, T, v) \<in> set (xs @ (c, S, u) # ys)" by (simp add: snoc y)
  note rd = mem_chunks_read [OF assms mem]
  have e: "c - 8 = p + 8 + T" using p by simp
  have "mi_lo_bound info < c" using tiled_bounds [OF mem_chunksD(1) [OF assms] mem] p by simp
  then show ?thesis using free [of zs p T] no rd snoc y p unfolding e by (cases v) simp_all
qed

text \<open>Releasing a used chunk makes it free, merged with the free chunks on either side.\<close>

lemma free_spec:
  assumes m: "mem_chunks info cs d" and used: "(c, S) \<in> used_of cs"
  shows "\<exists>cs'. mem_chunks (mem_free info (c + MEM_SIZE_FIELD)) cs' d \<and> used_of cs' = used_of cs - {(c, S)}"
proof -
  from used have c: "(c, S, True) \<in> set cs" by (simp add: used_of_def)
  then obtain xs ys where cs: "cs = xs @ (c, S, True) # ys" by (metis split_list)
  have m': "mem_chunks info (xs @ (c, S, True) # ys) d" using m cs by simp
  have t: "tiled (mi_lo_bound info) (xs @ (c, S, True) # ys) (mi_hi_bound info)" by (rule mem_chunksD(1) [OF m'])
  have rest: "used_of cs - {(c, S)} = used_of xs \<union> used_of ys"
    using not_elsewhere(2) [OF t, of S] by (auto simp: cs)
  have sz: "CHUNK_SIZE info c = S" by (rule mem_chunks_read(1) [OF m c])
  let ?i1 = "mem_account S 0 0 S info"
  let ?n = "c + 16 + S"
  have hole: "mem_hole ?i1 xs c S ys 0 (of_nat S + d)"
    using mem_hole_account [OF hole_of_used [OF m'], of S 0 0 S] by (simp add: ac_simps)
  have concl: "\<exists>cs'. mem_chunks info' cs' d \<and> used_of cs' = used_of cs - {(c, S)}"
    if "mem_chunks info' (us @ (q, T, False) # vs) d" "used_of us = used_of xs" "used_of vs = used_of ys"
    for info' us q T vs
    using that rest by (intro exI [of _ "us @ (q, T, False) # vs"]) simp
  have arith: "c + 8 + S + 8 = ?n" by simp
  note run = mem_free_def [of info "c + 8", unfolded Let_def MEM_SIZE_FIELD_def diff_add_inverse2 sz arith]
  from m' show ?thesis
  proof (cases rule: prev_chunk_cases)
    case (free p T zs)
    have cp: "c - 8 - T - 8 = p" using free(2) by simp
    note prev = free
    from m' show ?thesis
    proof (cases rule: next_chunk_cases)
      case (free U ws)
      let ?i2 = "mem_unlink_chunk ?n (mem_unlink_chunk p (mem_account 0 0 0 32 ?i1))"
      have "mem_hole (mem_account 0 0 0 32 ?i1) xs c S ys 0 (of_nat S + d + 32)"
        using mem_hole_account [OF hole, of 0 0 0 32] by simp
      from hole_absorb_prev [OF this [unfolded prev(1)]]
      have "mem_hole (mem_unlink_chunk p (mem_account 0 0 0 32 ?i1)) zs p (S + 16 + T) ys 0 (of_nat S + d + 32 + of_nat T)" .
      from hole_absorb_next [OF this [unfolded free(1)]]
      have "mem_hole ?i2 zs p (S + 32 + T + U) ws 0 (of_nat (S + 32 + T + U) + d)"
        by (simp add: ac_simps)
      note fin = hole_set_free [OF this]
      have "mem_free info (c + MEM_SIZE_FIELD) = mem_link_chunk p (mem_set_chunk_size p (S + 32 + T + U) ?i2)"
        unfolding MEM_SIZE_FIELD_def run using prev(3-6) free(2-4) cp by (simp add: add.assoc)
      then show ?thesis using concl [OF fin] prev(1) free(1) by simp
    next
      case no
      let ?i2 = "mem_unlink_chunk p (mem_account 0 0 0 16 ?i1)"
      have "mem_hole (mem_account 0 0 0 16 ?i1) xs c S ys 0 (of_nat S + d + 16)"
        using mem_hole_account [OF hole, of 0 0 0 16] by simp
      from hole_absorb_prev [OF this [unfolded prev(1)]]
      have "mem_hole ?i2 zs p (S + 16 + T) ys 0 (of_nat (S + 16 + T) + d)" by (simp add: ac_simps)
      note fin = hole_set_free [OF this]
      have "mem_free info (c + MEM_SIZE_FIELD) = mem_link_chunk p (mem_set_chunk_size p (S + 16 + T) ?i2)"
        unfolding MEM_SIZE_FIELD_def run using prev(3-6) no cp by (auto simp: ac_simps)
      then show ?thesis using concl [OF fin] prev(1) by simp
    qed
  next
    case no
    note prev = no
    from m' show ?thesis
    proof (cases rule: next_chunk_cases)
      case (free U ws)
      let ?i2 = "mem_unlink_chunk ?n (mem_account 0 0 0 16 ?i1)"
      have "mem_hole (mem_account 0 0 0 16 ?i1) xs c S ys 0 (of_nat S + d + 16)"
        using mem_hole_account [OF hole, of 0 0 0 16] by simp
      from hole_absorb_next [OF this [unfolded free(1)]]
      have "mem_hole ?i2 xs c (S + 16 + U) ws 0 (of_nat (S + 16 + U) + d)" by (simp add: ac_simps)
      note fin = hole_set_free [OF this]
      have "mem_free info (c + MEM_SIZE_FIELD) = mem_link_chunk c (mem_set_chunk_size c (S + 16 + U) ?i2)"
        unfolding MEM_SIZE_FIELD_def run using prev free(2-4) by (auto simp: ac_simps)
      then show ?thesis using concl [OF fin] free(1) by simp
    next
      case no
      note fin = hole_set_free [OF hole]
      have "mem_free info (c + MEM_SIZE_FIELD) = mem_link_chunk c (mem_set_chunk_size c S ?i1)"
        unfolding MEM_SIZE_FIELD_def run using prev no by (auto simp: ac_simps)
      then show ?thesis using concl [OF fin] by simp
    qed
  qed
qed

text \<open>
  Reallocation. A used chunk \<open>(c, S)\<close> becomes a used chunk of at least the requested size, in place
  or elsewhere, and every other used chunk stays. Growing into the next chunk takes 16 bytes too
  many off the free counter.
\<close>

definition realloc_grows_in_place :: "mem_info \<Rightarrow> nat \<Rightarrow> nat \<Rightarrow> nat \<Rightarrow> bool" where
  "realloc_grows_in_place info c S sz \<longleftrightarrow> S < sz \<and>
    c + 16 + S < mi_hi_bound info \<and> FREE_CHUNK info (c + 16 + S) \<and> sz \<le> S + 16 + CHUNK_SIZE info (c + 16 + S)"

lemma realloc_spec:
  assumes m: "mem_chunks info cs d" and used: "(c, S) \<in> used_of cs"
    and res: "mem_realloc info (c + MEM_SIZE_FIELD) n = Some (info', Some c')"
  shows "\<exists>cs' s. mem_chunks info' cs'
      (if realloc_grows_in_place info c S (mem_proper_alloc_size n) then d - 16 else d) \<and>
    mem_proper_alloc_size n \<le> s \<and> (c', s) \<notin> used_of cs - {(c, S)} \<and>
    used_of cs' = insert (c', s) (used_of cs - {(c, S)})"
proof -
  let ?sz = "mem_proper_alloc_size n" and ?n = "c + 16 + S"
  note psz = proper_size [of n]
  from used have c: "(c, S, True) \<in> set cs" by (simp add: used_of_def)
  then obtain xs ys where cs: "cs = xs @ (c, S, True) # ys" by (metis split_list)
  have m': "mem_chunks info (xs @ (c, S, True) # ys) d" using m cs by simp
  have t: "tiled (mi_lo_bound info) (xs @ (c, S, True) # ys) (mi_hi_bound info)" by (rule mem_chunksD(1) [OF m'])
  have rest: "used_of cs - {(c, S)} = used_of xs \<union> used_of ys"
    using not_elsewhere(2) [OF t, of S] by (auto simp: cs)
  have ne: "(c, s) \<notin> used_of cs - {(c, S)}" for s
    using not_elsewhere(2) [OF t, of s] unfolding rest .
  have sz: "CHUNK_SIZE info c = S" by (rule mem_chunks_read(1) [OF m c])
  have S24: "24 \<le> S" "8 dvd S" using tiled_bounds [OF t, of c S True] by auto
  note hole = hole_of_used [OF m']
  have concl: "\<exists>cs' s. mem_chunks i cs' e \<and> ?sz \<le> s \<and> (c, s) \<notin> used_of cs - {(c, S)} \<and>
      used_of cs' = insert (c, s) (used_of cs - {(c, S)})"
    if "mem_chunks i (us @ (c, s, True) # vs) e" "?sz \<le> s" "used_of us = used_of xs" "used_of vs = used_of ys"
    for i us s vs e
    using that rest ne by (intro exI [of _ "us @ (c, s, True) # vs"] exI [of _ s]) simp
  have next_eq: "c + MEM_SIZE_FIELD + S + MEM_SIZE_FIELD = ?n"
    "c + MEM_SIZE_FIELD + ?sz + MEM_SIZE_FIELD = c + 16 + ?sz" by (simp_all add: MEM_SIZE_FIELD_def)
  note run = res [unfolded mem_realloc_def Let_def diff_add_inverse2 sz next_eq]
  consider (keep) "?sz \<le> S" "S div 4 < ?sz" | (shrink) "?sz \<le> S" "\<not> S div 4 < ?sz"
    | (grow) "realloc_grows_in_place info c S ?sz"
    | (move) "S < ?sz" "\<not> realloc_grows_in_place info c S ?sz"
    by (cases "?sz \<le> S") (auto simp: not_le)
  then show ?thesis
  proof cases
    case keep
    then have "info' = info" "c' = c" "\<not> realloc_grows_in_place info c S ?sz"
      using run by (auto simp: realloc_grows_in_place_def)
    then show ?thesis using concl [OF m'] keep by simp
  next
    case shrink
    have big: "?sz + 40 \<le> S" using shrink psz(1) by simp
    have ng: "\<not> realloc_grows_in_place info c S ?sz" using shrink by (simp add: realloc_grows_in_place_def)
    let ?c' = "c + 16 + ?sz"
    from m' show ?thesis
    proof (cases rule: next_chunk_cases)
      case (free T zs)
      let ?i1 = "mem_account S ?sz (?sz + 16) (S + 16) info"
      let ?N = "T + (S - ?sz)"
      have "mem_hole ?i1 xs c S ys (of_nat ?sz) (d + of_nat (S + 16) - of_nat (?sz + 16))"
        using mem_hole_account [OF hole, of S ?sz "?sz + 16" "S + 16"] by simp
      from hole_absorb_next [OF this [unfolded free(1)]]
      have h: "mem_hole (mem_unlink_chunk ?n ?i1) xs c (S + 16 + T) zs (of_nat ?sz) (d + of_nat ?N)"
        using shrink(1) by (simp add: of_nat_diff algebra_simps)
      have N: "?N = S + 16 + T - ?sz - 16" using shrink(1) by simp
      have big': "?sz + 40 \<le> S + 16 + T" using big by simp
      from hole_split [OF h big' psz(1,2) refl N]
      have "mem_hole (mem_link_chunk ?c' (mem_set_chunk_size ?c' ?N (mem_unlink_chunk ?n ?i1))) xs c ?sz
          ((?c', ?N, False) # zs) (of_nat ?sz) d" by simp
      note fin = hole_set_used [OF this]
      have "c' = c" "info' = mem_set_used_chunk_size c ?sz
          (mem_link_chunk ?c' (mem_set_chunk_size ?c' ?N (mem_unlink_chunk ?n ?i1)))"
        using run shrink free(2-4) by (auto simp: MEM_SIZE_FIELD_def)
      then show ?thesis using concl [OF fin] free(1) ng by simp
    next
      case no
      let ?i1 = "mem_account S ?sz (?sz + 16) S info"
      let ?N = "S - ?sz - 16"
      have h: "mem_hole ?i1 xs c S ys (of_nat ?sz) (d + of_nat ?N)"
        using mem_hole_account [OF hole, of S ?sz "?sz + 16" S] big by (simp add: of_nat_diff algebra_simps)
      from hole_split [OF h big psz(1,2) refl refl]
      have "mem_hole (mem_link_chunk ?c' (mem_set_chunk_size ?c' ?N ?i1)) xs c ?sz
          ((?c', ?N, False) # ys) (of_nat ?sz) d" by simp
      note fin = hole_set_used [OF this]
      have "c' = c" "info' = mem_set_used_chunk_size c ?sz
          (mem_link_chunk ?c' (mem_set_chunk_size ?c' ?N ?i1))"
        using run shrink no by (auto simp: MEM_SIZE_FIELD_def)
      then show ?thesis using concl [OF fin] ng by simp
    qed
  next
    case grow
    then have g: "S < ?sz" "?n < mi_hi_bound info" "FREE_CHUNK info ?n" "?sz \<le> S + 16 + CHUNK_SIZE info ?n"
      by (simp_all add: realloc_grows_in_place_def)
    from m' show ?thesis
    proof (cases rule: next_chunk_cases)
      case (free T zs)
      let ?i1 = "mem_account S 0 0 S info"
      have "mem_hole ?i1 xs c S ys 0 (d + of_nat S)"
        using mem_hole_account [OF hole, of S 0 0 S] by simp
      from hole_absorb_next [OF this [unfolded free(1)]]
      have h: "mem_hole (mem_unlink_chunk ?n ?i1) xs c (S + 16 + T) zs 0 (d + of_nat S + of_nat T)" .
      have le: "?sz \<le> S + 16 + T" using g(4) free(4) by simp
      from use_or_split_spec [OF h le psz(1,2)] obtain s rs where
        fin: "mem_chunks (mem_use_or_split c (S + 16 + T) ?sz (mem_unlink_chunk ?n ?i1)) (xs @ (c, s, True) # rs @ zs) (d - 16)"
        "?sz \<le> s" "used_of rs = {}" by (auto simp: algebra_simps)
      have "c' = c" "info' = mem_use_or_split c (S + 16 + T) ?sz (mem_unlink_chunk ?n ?i1)"
        using run g free(4) by (auto simp: MEM_SIZE_FIELD_def)
      then show ?thesis using concl [OF fin(1,2)] fin(3) free(1) grow by simp
    next
      case no
      with g show ?thesis by simp
    qed
  next
    case move
    have pp: "mem_proper_alloc_size ?sz = ?sz"
    proof -
      have "?sz mod 8 = 0" using psz(2) by presburger
      then show ?thesis using psz(1) by (simp add: mem_proper_alloc_size_def [of ?sz] MEM_MIN_ALLOC_def)
    qed
    show ?thesis
    proof (cases "mem_malloc info ?sz")
      case (Pair i1 r)
      show ?thesis
      proof (cases r)
        case (Some b)
        note mal = malloc_spec [OF m, of ?sz, unfolded Pair Some pp prod.case option.case]
        then obtain cs1 s where a: "mem_chunks i1 cs1 d" "?sz \<le> s" "(b, s) \<notin> used_of cs"
          "used_of cs1 = insert (b, s) (used_of cs)" by blast
        have "(c, S) \<in> used_of cs1" using used a(4) by simp
        from free_spec [OF a(1) this] obtain cs2 where
          b: "mem_chunks (mem_free i1 (c + MEM_SIZE_FIELD)) cs2 d" "used_of cs2 = used_of cs1 - {(c, S)}" by blast
        have "c' = b" "info' = mem_free i1 (c + MEM_SIZE_FIELD)"
          using run move Pair Some by (auto simp: realloc_grows_in_place_def MEM_SIZE_FIELD_def)
        moreover have "used_of cs2 = insert (b, s) (used_of cs - {(c, S)})"
          using a(3,4) b(2) used by auto
        ultimately show ?thesis using a(2,3) b(1) move(2) by (intro exI [of _ cs2] exI [of _ s]) simp
      next
        case None
        then have "i1 = info" using malloc_spec [OF m, of ?sz] Pair by simp
        from free_spec [OF m used] obtain cs1 where
          f: "mem_chunks (mem_free info (c + MEM_SIZE_FIELD)) cs1 d" "used_of cs1 = used_of cs - {(c, S)}" by blast
        obtain i2 r2 where second: "mem_malloc (mem_free info (c + MEM_SIZE_FIELD)) ?sz = (i2, r2)"
          by (rule prod.exhaust)
        have "r2 = Some c'" "info' = i2"
          using run move Pair None second
          by (auto simp: realloc_grows_in_place_def MEM_SIZE_FIELD_def split: option.splits)
        then have "\<exists>cs' s. mem_chunks info' cs' d \<and> ?sz \<le> s \<and> (c', s) \<notin> used_of cs1 \<and>
            used_of cs' = insert (c', s) (used_of cs1)"
          using malloc_spec [OF f(1), of ?sz] second pp by simp
        then show ?thesis using f(2) move(2) by simp
      qed
    qed
  qed
qed

subsection \<open>Properties\<close>

lemma one_chunk_spec:
  assumes "mi_hi_bound info = mi_lo_bound info + 16 + mi_total_size info" "24 \<le> mi_total_size info"
    "8 dvd mi_total_size info" "mi_hi_bound info < 2 ^ 63"
  shows "mem_chunks (mem_one_chunk info) [(mi_lo_bound info, mi_total_size info, False)] 0"
proof -
  let ?b = "(replicate MEM_BUCKET_COUNT [])[mem_bucket_by_size (mi_total_size info) := [mi_lo_bound info]]"
  have "buckets_ok (replicate MEM_BUCKET_COUNT []) {}" by (simp add: buckets_ok_def)
  from buckets_link [OF this, of "mi_lo_bound info" "mi_total_size info"]
  have "buckets_ok ?b {(mi_lo_bound info, mi_total_size info)}" by simp
  then show ?thesis
    using assms
    by (simp add: mem_chunks_def mem_one_chunk_def mem_set_chunk_size_def tagged_Cons mem_tag_def MEM_SIZE_FIELD_def
        tagged_def)
qed

lemma ALIGN8_bounds: "p \<le> ALIGN8 p" "ALIGN8 p \<le> p + 7" "8 dvd ALIGN8 p"
  unfolding ALIGN8_def by (presburger, presburger, simp)

lemma proper_size_le: "1 \<le> n \<Longrightarrow> mem_proper_alloc_size n \<le> n + 23"
proof -
  have "(8 - n mod 8) mod 8 \<le> 7" using mod_less_divisor [of 8 "8 - n mod 8"] by linarith
  then show "1 \<le> n \<Longrightarrow> mem_proper_alloc_size n \<le> n + 23"
    by (simp add: mem_proper_alloc_size_def MEM_MIN_ALLOC_def)
qed

text \<open>
  A segment that is at least as large as \<^verbatim>\<open>zbx_mem_required_size\<close> asks for, plus the bytes wanted,
  is laid out inside its memory as one free chunk in which all the wanted pieces fit, with the 16
  bytes of overhead that each further chunk takes.
\<close>

theorem mem_create_layout:
  assumes "ns \<noteq> []" "\<forall>n \<in> set ns. 1 \<le> n"
    and "sz = zbx_mem_required_size info_sz (length ns) descr_len param_len + sum_list ns"
    and "sz \<le> MEM_MAX_SIZE" "base + sz < 2 ^ 63"
  shows "\<exists>info. zbx_mem_create info_sz base sz descr_len param_len oom mem = Inr info \<and>
    mem_chunks info [(mi_lo_bound info, mi_total_size info, False)] 0 \<and>
    base + info_sz \<le> mi_lo_bound info \<and> mi_hi_bound info \<le> base + sz \<and>
    (\<Sum>n\<leftarrow>ns. mem_proper_alloc_size n) + 16 * (length ns - 1) \<le> mi_total_size info"
proof -
  define i0 where "i0 = ALIGN8 base"
  define b1 where "b1 = i0 + info_sz"
  define bk where "bk = ALIGN8 b1"
  define b4 where "b4 = bk + 240 + descr_len + 1 + param_len + 1"
  define lo where "lo = ALIGN8 b4"
  define hi where "hi = ALIGN8 (base + sz - 8)"
  let ?need = "(\<Sum>n\<leftarrow>ns. mem_proper_alloc_size n) + 16 * (length ns - 1)"
  have i0: "base \<le> i0" "i0 \<le> base + 7" unfolding i0_def using ALIGN8_bounds by auto
  have bk: "b1 \<le> bk" "bk \<le> b1 + 7" unfolding bk_def using ALIGN8_bounds by auto
  have lo: "b4 \<le> lo" "lo \<le> b4 + 7" "8 dvd lo" unfolding lo_def using ALIGN8_bounds by auto
  have hi: "base + sz - 8 \<le> hi" "hi \<le> base + sz - 8 + 7" "8 dvd hi" unfolding hi_def using ALIGN8_bounds by auto
  have k: "1 \<le> length ns" using assms(1) by (cases ns) auto
  define X where "X = (length ns - 1) * 16 + length ns * 23 + sum_list ns"
  have req: "sz = 286 + info_sz + descr_len + param_len + X"
    unfolding assms(3) X_def zbx_mem_required_size_def bucket_count MEM_SIZE_FIELD_def MEM_MIN_ALLOC_def by simp
  have sum: "(\<Sum>n\<leftarrow>ns. mem_proper_alloc_size n) \<le> sum_list ns + length ns * 23"
    using assms(2)
  proof (induction ns)
    case (Cons n ns)
    then have "mem_proper_alloc_size n \<le> n + 23" by (intro proper_size_le) simp
    with Cons show ?case by simp
  qed simp
  have dv: "8 dvd (\<Sum>n\<leftarrow>ns. mem_proper_alloc_size n)" by (induction ns) (simp_all add: proper_size(2))
  have needX: "?need \<le> X" using sum by (simp add: X_def)
  have need8: "8 dvd ?need" by (rule dvd_add [OF dv]) simp
  have lo_hi: "lo + 16 + X \<le> hi + 1"
    using lo hi bk i0 req unfolding b4_def b1_def by linarith
  have tot8: "8 dvd hi - lo - 16"
    using lo(3) hi(3) by (intro dvd_diff_nat) simp_all
  have need: "?need \<le> hi - lo - 16"
  proof (rule ccontr)
    assume "\<not> ?need \<le> hi - lo - 16"
    moreover from need8 tot8 obtain q r where "?need = 8 * q" "hi - lo - 16 = 8 * r" by (auto simp: dvd_def)
    ultimately have "hi - lo - 16 + 8 \<le> ?need" by simp
    with needX lo_hi show False by linarith
  qed
  have n24: "24 \<le> ?need"
  proof -
    obtain n ms where "ns = n # ms" using assms(1) by (cases ns) auto
    then show ?thesis using proper_size(1) [of n] by simp
  qed
  have b4': "bk + 8 * 30 + descr_len + 1 + param_len + 1 = b4" by (simp add: b4_def)
  have room: "b4 + (sz - (b1 - base) - (bk + 8 * 30 - b1) - (descr_len + 1) - (param_len + 1)) = base + sz"
    using i0 bk req unfolding b4_def b1_def by auto
  let ?i = "\<lparr>mi_mem = mem, mi_buckets = [], mi_lo_bound = lo, mi_hi_bound = hi,
    mi_total_size = hi - lo - 2 * MEM_SIZE_FIELD, mi_used_size = 0, mi_free_size = 0, mi_allow_oom = oom\<rparr>"
  have create: "zbx_mem_create info_sz base sz descr_len param_len oom mem = Inr (mem_one_chunk ?i)"
    unfolding zbx_mem_create_def Let_def bucket_count i0_def [symmetric] b1_def [symmetric]
      bk_def [symmetric] b4' room lo_def [symmetric] hi_def [symmetric]
    using assms(4) req by (simp add: MEM_MIN_SIZE_def)
  have one: "mem_chunks (mem_one_chunk ?i) [(lo, hi - lo - 16, False)] 0"
    using one_chunk_spec [of ?i] need n24 tot8 hi(2) assms(5) by (simp add: MEM_SIZE_FIELD_def)
  have "mi_lo_bound (mem_one_chunk ?i) = lo" "mi_hi_bound (mem_one_chunk ?i) = hi"
    "mi_total_size (mem_one_chunk ?i) = hi - lo - 16"
    by (simp_all add: mem_one_chunk_def mem_set_chunk_size_def MEM_SIZE_FIELD_def)
  moreover have "base + info_sz \<le> lo" "hi \<le> base + sz"
    using lo(1) bk(1) i0(1) hi(2) req unfolding b4_def b1_def by linarith+
  ultimately show ?thesis using create one need by (intro exI [of _ "mem_one_chunk ?i"]) simp
qed

lemma mem_create_layout_witness:
  "\<exists>info. zbx_mem_create 200 4096 (zbx_mem_required_size 200 2 5 5 + 300) 5 5 True (\<lambda>_. 0) = Inr info \<and>
    320 \<le> mi_total_size info"
proof -
  have "zbx_mem_required_size 200 2 5 5 + 300 \<le> MEM_MAX_SIZE" "4096 + (zbx_mem_required_size 200 2 5 5 + 300) < 2 ^ 63"
    by (simp_all add: zbx_mem_required_size_def MEM_MAX_SIZE_def mem_consts)
  then show ?thesis
    using mem_create_layout [of "[200, 100]" "zbx_mem_required_size 200 2 5 5 + 300" 200 5 5 4096 True "\<lambda>_. 0"]
    by (auto simp: mem_proper_alloc_size_def MEM_MIN_ALLOC_def numeral_2_eq_2)
qed

text \<open>The user bytes of a chunk, and what it means that they are inside the segment and apart.\<close>

definition user_bytes :: "nat \<times> nat \<Rightarrow> nat set" where
  "user_bytes = (\<lambda>(a, s). {a + 8 ..< a + 8 + s})"

lemma used_disjoint:
  assumes "mem_chunks info cs d" "(a, s) \<in> used_of cs" "(b, t) \<in> used_of cs" "(a, s) \<noteq> (b, t)"
  shows "user_bytes (a, s) \<inter> user_bytes (b, t) = {}"
  using tiled_disjoint [OF mem_chunksD(1) [OF assms(1)], of a s True b t True] assms(2-4)
  by (auto simp: used_of_def user_bytes_def)

lemma used_inside:
  assumes "mem_chunks info cs d" "(a, s) \<in> used_of cs"
  shows "user_bytes (a, s) \<subseteq> {mi_lo_bound info ..< mi_hi_bound info}"
  using tiled_bounds [OF mem_chunksD(1) [OF assms(1)], of a s True] assms(2)
  by (auto simp: used_of_def user_bytes_def)

text \<open>
  C7. A successful allocation returns at least the requested bytes, inside the segment and apart
  from the bytes of every block in use, leaves those blocks and keeps the segment consistent (chunks
  tile it, size fields agree, every free chunk is in the bucket of its size, counters are exact). It
  fails only when no free chunk is large enough, and then changes nothing.
\<close>

theorem mem_malloc_safe:
  assumes "mem_chunks info cs d" "0 < n" "n \<le> MEM_MAX_SIZE"
  shows "case zbx_mem_malloc info True n of
      Inl err \<Rightarrow> err = Exit_Fail ''out of memory'' \<and> \<not> mi_allow_oom info \<and> (\<forall>(a, s) \<in> free_of cs. s < mem_proper_alloc_size n)
    | Inr (info', None) \<Rightarrow> info' = info \<and> mi_allow_oom info \<and> (\<forall>(a, s) \<in> free_of cs. s < mem_proper_alloc_size n)
    | Inr (info', Some p) \<Rightarrow> \<exists>cs' s. mem_chunks info' cs' d \<and> n \<le> s \<and> used_of cs' = insert (p - 8, s) (used_of cs) \<and>
        {p ..< p + s} \<subseteq> {mi_lo_bound info' ..< mi_hi_bound info'} \<and>
        (\<forall>b \<in> used_of cs. {p ..< p + s} \<inter> user_bytes b = {})"
proof -
  note spec = malloc_spec [OF assms(1), of n]
  obtain info' r where run: "mem_malloc info n = (info', r)" by (rule prod.exhaust)
  show ?thesis
  proof (cases r)
    case None
    with spec run have "info' = info" "\<forall>(a, s) \<in> free_of cs. s < mem_proper_alloc_size n" by auto
    with run None assms(2,3) show ?thesis by (simp add: zbx_mem_malloc_def)
  next
    case (Some c)
    with spec run obtain cs' s where c: "mem_chunks info' cs' d" "mem_proper_alloc_size n \<le> s"
      "(c, s) \<notin> used_of cs" "used_of cs' = insert (c, s) (used_of cs)" by auto
    have u: "user_bytes (c, s) = {c + 8 ..< c + 8 + s}" by (simp add: user_bytes_def)
    have "{c + 8 ..< c + 8 + s} \<inter> user_bytes b = {}" if "b \<in> used_of cs" for b
      using used_disjoint [OF c(1), of c s "fst b" "snd b"] that c(3,4) u by (cases b) auto
    moreover have "{c + 8 ..< c + 8 + s} \<subseteq> {mi_lo_bound info' ..< mi_hi_bound info'}"
      using used_inside [OF c(1), of c s] c(4) u by simp
    moreover have "n \<le> s" using c(2) proper_size(3) [of n] by simp
    ultimately have "\<exists>cs' s. mem_chunks info' cs' d \<and> n \<le> s \<and> used_of cs' = insert (c, s) (used_of cs) \<and>
        {c + 8 ..< c + 8 + s} \<subseteq> {mi_lo_bound info' ..< mi_hi_bound info'} \<and>
        (\<forall>b \<in> used_of cs. {c + 8 ..< c + 8 + s} \<inter> user_bytes b = {})"
      using c(1,4) by blast
    then show ?thesis using run Some assms(2,3) by (simp add: zbx_mem_malloc_def MEM_SIZE_FIELD_def)
  qed
qed

text \<open>
  C8. Releasing a block takes exactly that block out of those in use and keeps the segment
  consistent, whichever of the neighbours it is merged with.
\<close>

theorem mem_free_safe:
  assumes "mem_chunks info cs d" "(p - 8, s) \<in> used_of cs" "8 \<le> p"
  shows "\<exists>info' cs'. zbx_mem_free info (Some p) = Inr info' \<and> mem_chunks info' cs' d \<and>
    used_of cs' = used_of cs - {(p - 8, s)}"
  using free_spec [OF assms(1,2)] assms(3) by (simp add: zbx_mem_free_def MEM_SIZE_FIELD_def)

text \<open>
  C9. A reallocation that returns a block gives it at least the requested size, leaves every other
  block in use, and keeps the segment consistent; but each time it grows into the following free
  chunk the free counter loses 16 bytes, the size of the two fields that disappear.
\<close>

theorem mem_realloc_safe:
  assumes "mem_chunks info cs d" "(p - 8, S) \<in> used_of cs" "8 \<le> p" "0 < n" "n \<le> MEM_MAX_SIZE"
    and "zbx_mem_realloc info (Some p) n = Inr (Some (info', Some p'))"
  shows "\<exists>cs' s. mem_chunks info' cs'
      (if realloc_grows_in_place info (p - 8) S (mem_proper_alloc_size n) then d - 16 else d) \<and>
    n \<le> s \<and> used_of cs' = insert (p' - 8, s) (used_of cs - {(p - 8, S)}) \<and>
    (\<forall>b \<in> used_of cs - {(p - 8, S)}. {p' ..< p' + s} \<inter> user_bytes b = {})"
proof -
  from assms(4-6) obtain c' where c': "mem_realloc info p n = Some (info', Some c')" "p' = c' + 8"
    by (auto simp: zbx_mem_realloc_def MEM_SIZE_FIELD_def split: option.splits if_splits)
  from assms(3) c'(1) have "mem_realloc info (p - 8 + MEM_SIZE_FIELD) n = Some (info', Some c')"
    by (simp add: MEM_SIZE_FIELD_def)
  from realloc_spec [OF assms(1,2) this] obtain cs' s where
    s: "mem_chunks info' cs' (if realloc_grows_in_place info (p - 8) S (mem_proper_alloc_size n) then d - 16 else d)"
    "mem_proper_alloc_size n \<le> s" "(c', s) \<notin> used_of cs - {(p - 8, S)}"
    "used_of cs' = insert (c', s) (used_of cs - {(p - 8, S)})" by blast
  have "{p' ..< p' + s} \<inter> user_bytes b = {}" if "b \<in> used_of cs - {(p - 8, S)}" for b
    using used_disjoint [OF s(1), of c' s "fst b" "snd b"] that s(3,4) c'(2)
    by (cases b) (auto simp: user_bytes_def)
  moreover have "n \<le> s" using s(2) proper_size(3) [of n] by simp
  moreover have "p' - 8 = c'" using c'(2) by simp
  ultimately show ?thesis using s(1,4) by metis
qed

text \<open>A small segment of one free chunk, and the same after an allocation.\<close>

definition mem_example :: "nat \<Rightarrow> bool \<Rightarrow> mem_info" where
  "mem_example tot oom = mem_one_chunk \<lparr>mi_mem = \<lambda>_. 0, mi_buckets = [], mi_lo_bound = 0, mi_hi_bound = tot + 16,
    mi_total_size = tot, mi_used_size = 0, mi_free_size = 0, mi_allow_oom = oom\<rparr>"

definition mem_example1 :: mem_info where
  "mem_example1 = fst (mem_malloc (mem_example 1000 True) 100)"

lemma mem_example_chunks: "mem_chunks (mem_example 1000 oom) [(0, 1000, False)] 0"
  using one_chunk_spec [of "\<lparr>mi_mem = \<lambda>_. 0, mi_buckets = [], mi_lo_bound = 0, mi_hi_bound = 1016,
    mi_total_size = 1000, mi_used_size = 0, mi_free_size = 0, mi_allow_oom = oom\<rparr>"]
  by (simp add: mem_example_def)

lemma mem_example1_run:
  "snd (mem_malloc (mem_example 1000 True) 100) = Some 0"
  "map_option snd (mem_realloc mem_example1 8 500) = Some (Some 0)"
  "CHUNK_SIZE mem_example1 0 = 104"
  by code_simp+

lemma mem_example1_chunks: "\<exists>cs. mem_chunks mem_example1 cs 0 \<and> used_of cs = {(0, 104)}"
proof -
  have "mem_malloc (mem_example 1000 True) 100 = (mem_example1, Some 0)"
    using mem_example1_run(1) by (simp add: mem_example1_def prod_eq_iff)
  with malloc_spec [OF mem_example_chunks, of True 100] obtain cs s where
    cs: "mem_chunks mem_example1 cs 0" "used_of cs = {(0, s)}" by auto
  then have "(0, s, True) \<in> set cs" by (auto simp: used_of_def set_eq_iff)
  from mem_chunks_read(1) [OF cs(1) this] mem_example1_run(3) have "s = 104" by simp
  with cs show ?thesis by blast
qed

lemma mem_malloc_safe_witness:
  "case zbx_mem_malloc (mem_example 1000 True) True 100 of Inl err \<Rightarrow> False | Inr (info', None) \<Rightarrow> False
    | Inr (info', Some p) \<Rightarrow> \<exists>cs' s. mem_chunks info' cs' 0 \<and> 100 \<le> s \<and> used_of cs' = {(p - 8, s)}"
  using mem_malloc_safe [OF mem_example_chunks, of 100 True] mem_example1_run(1)
  by (auto simp: MEM_MAX_SIZE_def zbx_mem_malloc_def split: sum.splits prod.splits option.splits)

lemma mem_free_safe_witness:
  "\<exists>info' cs'. zbx_mem_free mem_example1 (Some 8) = Inr info' \<and> mem_chunks info' cs' 0 \<and> used_of cs' = {}"
proof -
  obtain cs where "mem_chunks mem_example1 cs 0" "used_of cs = {(0, 104)}" using mem_example1_chunks by blast
  with mem_free_safe [of mem_example1 cs 0 8 104] show ?thesis by simp
qed

lemma mem_realloc_safe_witness:
  "\<exists>info' cs' s. zbx_mem_realloc mem_example1 (Some 8) 500 = Inr (Some (info', Some 8)) \<and>
    mem_chunks info' cs' (- 16) \<and> 500 \<le> s \<and> used_of cs' = {(0, s)}"
proof -
  obtain cs where cs: "mem_chunks mem_example1 cs 0" "used_of cs = {(0, 104)}" using mem_example1_chunks by blast
  obtain info' where run: "zbx_mem_realloc mem_example1 (Some 8) 500 = Inr (Some (info', Some 8))"
    using mem_example1_run(2) by (auto simp: zbx_mem_realloc_def MEM_MAX_SIZE_def MEM_SIZE_FIELD_def)
  have "realloc_grows_in_place mem_example1 0 104 (mem_proper_alloc_size 500)" by code_simp
  with mem_realloc_safe [OF cs(1) _ _ _ _ run, of 104] cs(2) run show ?thesis
    by (auto simp: MEM_MAX_SIZE_def)
qed

text \<open>When no attempt to allocate succeeds, the outcome is that of the recovery after the release of the block.\<close>

lemma mem_realloc_failed:
  assumes "mem_chunks info cs d" "(c, S) \<in> used_of cs" "\<forall>i q. mem_realloc info (c + 8) n \<noteq> Some (i, Some q)"
  shows "mem_realloc info (c + 8) n = map_option (\<lambda>i. (i, None)) (mem_realloc_recover c S (mem_free info (c + 8)))"
proof -
  let ?i2 = "mem_free info (c + 8)"
  have "(c, S, True) \<in> set cs" using assms(2) by (simp add: used_of_def)
  then have S: "CHUNK_SIZE info c = S" by (rule mem_chunks_read(1) [OF assms(1)])
  obtain cs2 where cs2: "mem_chunks ?i2 cs2 d"
    using free_spec [OF assms(1,2)] by (auto simp: MEM_SIZE_FIELD_def)
  obtain i2 where mal: "mem_malloc ?i2 (mem_proper_alloc_size n) = (i2, None)"
    and rec: "mem_realloc info (c + 8) n = map_option (\<lambda>i. (i, None)) (mem_realloc_recover c S i2)"
    using assms(3) by (auto simp: mem_realloc_def Let_def S MEM_SIZE_FIELD_def split: if_splits option.splits prod.splits)
  have "i2 = ?i2" using malloc_spec [OF cs2, of "mem_proper_alloc_size n"] mal by simp
  with rec show ?thesis by simp
qed

text \<open>
  A reallocation that cannot be satisfied should keep the block. When the release has not merged it, so
  that the recovery finds it again, NULL is returned and the block is left marked free.
\<close>

theorem mem_realloc_failure_frees:
  assumes "mem_chunks info cs d" "(c, S) \<in> used_of cs" "mi_buckets (mem_free info (c + 8)) ! mem_bucket_by_size S = c # ls"
    and "mem_realloc info (c + 8) n = Some (info', None)"
  shows "FREE_CHUNK info' c"
proof -
  let ?i2 = "mem_free info (c + 8)"
  obtain cs2 where cs2: "mem_chunks ?i2 cs2 d"
    using free_spec [OF assms(1,2)] by (auto simp: MEM_SIZE_FIELD_def)
  have rec: "mem_realloc_recover c S ?i2 = Some info'"
    using mem_realloc_failed [OF assms(1,2), of n] assms(4) by (cases "mem_realloc_recover c S ?i2") auto
  from buckets_okD(3) [OF mem_chunksD(4) [OF cs2] bucket_less, of c S] assms(3) obtain s where "(c, s) \<in> free_of cs2" by auto
  then have "(c, s, False) \<in> set cs2" by (simp add: free_of_def)
  then have "FREE_CHUNK ?i2 c" using mem_chunks_read(2) [OF cs2] by simp
  then show ?thesis using rec assms(3) by (auto simp: mem_realloc_recover_def Let_def)
qed

definition mem_full :: mem_info where
  "mem_full = fst (mem_malloc (mem_example 24 True) 24)"

lemma mem_realloc_failure_frees_witness:
  "\<exists>info'. mem_realloc mem_full 8 200 = Some (info', None) \<and> FREE_CHUNK info' 0 \<and> \<not> FREE_CHUNK mem_full 0"
proof -
  have "mem_chunks (mem_example 24 True) [(0, 24, False)] 0"
    using one_chunk_spec [of "\<lparr>mi_mem = \<lambda>_. 0, mi_buckets = [], mi_lo_bound = 0, mi_hi_bound = 40,
      mi_total_size = 24, mi_used_size = 0, mi_free_size = 0, mi_allow_oom = True\<rparr>"] by (simp add: mem_example_def)
  note m = malloc_spec [OF this, of 24]
  have "snd (mem_malloc (mem_example 24 True) 24) = Some 0" by code_simp
  then have "mem_malloc (mem_example 24 True) 24 = (mem_full, Some 0)" by (simp add: mem_full_def prod_eq_iff)
  with m obtain cs s where cs: "mem_chunks mem_full cs 0" "used_of cs = {(0, s)}" by auto
  then have "(0, s, True) \<in> set cs" by (auto simp: used_of_def)
  then have "s = CHUNK_SIZE mem_full 0" using mem_chunks_read(1) [OF cs(1)] by simp
  moreover have "CHUNK_SIZE mem_full 0 = 24" "mi_buckets (mem_free mem_full (0 + 8)) ! 0 = [0]" by code_simp+
  ultimately have b: "mi_buckets (mem_free mem_full (0 + 8)) ! mem_bucket_by_size s = 0 # []" by (simp add: bucket_eq)
  have "map_option snd (mem_realloc mem_full 8 200) = Some None" by code_simp
  then obtain info' where run: "mem_realloc mem_full (0 + 8) 200 = Some (info', None)" by auto
  from mem_realloc_failure_frees [OF cs(1) _ b run] cs(2) have "FREE_CHUNK info' 0" by simp
  moreover have "\<not> FREE_CHUNK mem_full 0" by code_simp
  ultimately show ?thesis using run by auto
qed

text \<open>
  C10. A reallocation of a used block of a consistent segment that cannot be satisfied ends in the
  dereference of NULL exactly when, after the release of the block, no free chunk is in the bucket of the
  block's size. The release merges the block with its free neighbours into a chunk that is as a rule in
  another bucket, and the recovery looks only into the bucket of the old size.
\<close>

theorem mem_realloc_failure_crashes:
  assumes "mem_chunks info cs d" "(c, S) \<in> used_of cs" "mem_chunks (mem_free info (c + 8)) cs' d"
    "\<forall>i q. mem_realloc info (c + 8) n \<noteq> Some (i, Some q)"
  shows "mem_realloc info (c + 8) n = None \<longleftrightarrow> (\<forall>(a, s) \<in> free_of cs'. mem_bucket_by_size s \<noteq> mem_bucket_by_size S)"
proof -
  let ?b = "mi_buckets (mem_free info (c + 8)) ! mem_bucket_by_size S"
  have "mem_realloc info (c + 8) n = None \<longleftrightarrow> ?b = []"
    unfolding mem_realloc_failed [OF assms(1,2,4)] by (auto simp: mem_realloc_recover_def Let_def split: list.splits)
  also have "\<dots> \<longleftrightarrow> (\<forall>a. a \<notin> set ?b)" by (simp add: ex_in_conv [symmetric])
  also have "\<dots> \<longleftrightarrow> (\<forall>(a, s) \<in> free_of cs'. mem_bucket_by_size s \<noteq> mem_bucket_by_size S)"
    using buckets_okD(3) [OF mem_chunksD(4) [OF assms(3)] bucket_less, of _ S] by auto
  finally show ?thesis .
qed

definition mem_two :: mem_info where
  "mem_two = mem_free (fst (mem_malloc (fst (mem_malloc (mem_example 64 True) 24)) 24)) 8"

text \<open>
  Two blocks of 24 bytes, the first released, and a reallocation of the second to 200 bytes.
\<close>

lemma mem_two_chunks: "\<exists>cs. mem_chunks mem_two cs 0 \<and> (40, 24) \<in> used_of cs"
proof -
  have e: "mem_chunks (mem_example 64 True) [(0, 64, False)] 0"
    using one_chunk_spec [of "\<lparr>mi_mem = \<lambda>_. 0, mi_buckets = [], mi_lo_bound = 0, mi_hi_bound = 80,
      mi_total_size = 64, mi_used_size = 0, mi_free_size = 0, mi_allow_oom = True\<rparr>"] by (simp add: mem_example_def)
  let ?i1 = "fst (mem_malloc (mem_example 64 True) 24)"
  let ?i2 = "fst (mem_malloc ?i1 24)"
  have "snd (mem_malloc (mem_example 64 True) 24) = Some 0" "snd (mem_malloc ?i1 24) = Some 40" by code_simp+
  then have m: "mem_malloc (mem_example 64 True) 24 = (?i1, Some 0)" "mem_malloc ?i1 24 = (?i2, Some 40)"
    by (simp_all add: prod_eq_iff)
  from malloc_spec [OF e, of 24] m(1) obtain cs1 s1 where c1: "mem_chunks ?i1 cs1 0" "used_of cs1 = {(0, s1)}" by auto
  from malloc_spec [OF c1(1), of 24] m(2) obtain cs2 s2 where
    c2: "mem_chunks ?i2 cs2 0" "used_of cs2 = {(40, s2), (0, s1)}" using c1(2) by auto
  have "used_of cs2 - {(0, s1)} = {(40, s2)}" unfolding c2(2) by auto
  with free_spec [OF c2(1), of 0 s1] c2(2) obtain cs3 where
    c3: "mem_chunks mem_two cs3 0" "used_of cs3 = {(40, s2)}" unfolding mem_two_def MEM_SIZE_FIELD_def by auto
  then have "(40, s2, True) \<in> set cs3" by (auto simp: used_of_def)
  then have "s2 = CHUNK_SIZE mem_two 40" using mem_chunks_read(1) [OF c3(1)] by simp
  moreover have "CHUNK_SIZE mem_two 40 = 24" by code_simp
  ultimately show ?thesis using c3 by auto
qed

lemma mem_realloc_failure_crashes_witness: "mem_realloc mem_two 48 200 = None"
proof -
  obtain cs where cs: "mem_chunks mem_two cs 0" "(40, 24) \<in> used_of cs" using mem_two_chunks by blast
  obtain cs' where cs': "mem_chunks (mem_free mem_two (40 + 8)) cs' 0"
    using free_spec [OF cs] by (auto simp: MEM_SIZE_FIELD_def)
  have "mi_buckets (mem_free mem_two (40 + 8)) ! 0 = []" by code_simp
  moreover have "mem_bucket_by_size 24 = 0" by (simp add: bucket_eq)
  ultimately have free: "\<forall>(a, s) \<in> free_of cs'. mem_bucket_by_size s \<noteq> mem_bucket_by_size 24"
    using buckets_okD(3) [OF mem_chunksD(4) [OF cs'] bucket_less [of 24]] by fastforce
  have "map_option snd (mem_realloc mem_two (40 + 8) 200) = None" by code_simp
  then have "\<forall>i q. mem_realloc mem_two (40 + 8) 200 \<noteq> Some (i, Some q)" by simp
  from mem_realloc_failure_crashes [OF cs cs' this] free show ?thesis by simp
qed

end
