(* ===== verification/TimePeriod.thy ===== *)
theory TimePeriod
  imports Prelude "HOL-Library.Monad_Syntax" "HOL-Library.Signed_Division"
begin

text \<open>
  \<^verbatim>\<open>src/libs/zbxcommon/misc.c\<close>, from \<^verbatim>\<open>check_time_period\<close> to \<^verbatim>\<open>calculate_proxy_nextcheck\<close>: when an
  item is checked next, given its delay and its flexible intervals such as
  \<^verbatim>\<open>10/1-5,09:00-18:00;0/6-7,00:00-24:00\<close>. Times are seconds since the epoch as integers; the C
  types \<^verbatim>\<open>int\<close> and \<^verbatim>\<open>time_t\<close> agree with them until 2038. \<^verbatim>\<open>localtime\<close> depends on the system's time
  zone data and is a parameter.
\<close>

subsection \<open>The standard library's scanning\<close>

record tm =
  tm_wday :: int
  tm_hour :: int
  tm_min :: int
  tm_sec :: int

definition c_isspace :: "char \<Rightarrow> bool" where
  "c_isspace c \<longleftrightarrow> c \<in> {CHR '' '', CHR 0x09, CHR 0x0A, CHR 0x0B, CHR 0x0C, CHR 0x0D}"

definition c_isdigit :: "char \<Rightarrow> bool" where
  "c_isdigit c \<longleftrightarrow> 48 \<le> (of_char c :: nat) \<and> (of_char c :: nat) \<le> 57"

definition digit_val :: "char \<Rightarrow> int" where
  "digit_val c = int (of_char c) - 48"

fun scan_digits :: "int \<Rightarrow> string \<Rightarrow> int \<times> string" where
  "scan_digits n [] = (n, [])"
| "scan_digits n (c # s) = (if c_isdigit c then scan_digits (10 * n + digit_val c) s else (n, c # s))"

text \<open>The conversion \<^verbatim>\<open>%d\<close> of \<^verbatim>\<open>sscanf\<close> and a literal character of its format.\<close>

definition scan_d :: "string \<Rightarrow> (int \<times> string) option" where
  "scan_d s0 =
    (let s1 = dropWhile c_isspace s0;
         neg = (s1 \<noteq> [] \<and> hd s1 = CHR ''-'');
         s2 = (if s1 \<noteq> [] \<and> (hd s1 = CHR ''-'' \<or> hd s1 = CHR ''+'') then tl s1 else s1)
     in if s2 \<noteq> [] \<and> c_isdigit (hd s2) then
          (let (n, s3) = scan_digits 0 s2 in Some (if neg then - n else n, s3))
        else None)"

definition scan_c :: "char \<Rightarrow> string \<Rightarrow> string option" where
  "scan_c c s = (if s \<noteq> [] \<and> hd s = c then Some (tl s) else None)"

text \<open>The conversion \<^verbatim>\<open>%29[^;]\<close>.\<close>

definition scan_29 :: "string \<Rightarrow> string option" where
  "scan_29 s = (let p = take 29 (takeWhile (\<lambda>c. c \<noteq> CHR '';'') s) in if p = [] then None else Some p)"

text \<open>What follows the first \<^verbatim>\<open>;\<close>, as found by \<^verbatim>\<open>strchr\<close>.\<close>

definition after_delim :: "string \<Rightarrow> string option" where
  "after_delim s =
    (case dropWhile (\<lambda>c. c \<noteq> CHR '';'') s of [] \<Rightarrow> None | _ # t \<Rightarrow> Some t)"

lemma length_after_delim: "after_delim s = Some t \<Longrightarrow> length t < length s"
  using length_dropWhile_le [of "\<lambda>c. c \<noteq> CHR '';''" s]
  by (auto simp: after_delim_def split: list.splits)

subsection \<open>Time periods\<close>

definition SEC_PER_MIN :: int where "SEC_PER_MIN = 60"
definition SEC_PER_HOUR :: int where "SEC_PER_HOUR = 3600"
definition SEC_PER_DAY :: int where "SEC_PER_DAY = 86400"
definition SEC_PER_YEAR :: int where "SEC_PER_YEAR = 365 * SEC_PER_DAY"

text \<open>A period \<^verbatim>\<open>d1-d2,h1:m1-h2:m2\<close> as its days and the two seconds of the day.\<close>

type_synonym period = "int \<times> int \<times> int \<times> int"

definition scan_hours :: "string \<Rightarrow> (int \<times> int) option" where
  "scan_hours s = do {
     (h1, s) \<leftarrow> scan_d s; s \<leftarrow> scan_c (CHR '':'') s; (m1, s) \<leftarrow> scan_d s;
     s \<leftarrow> scan_c (CHR ''-'') s;
     (h2, s) \<leftarrow> scan_d s; s \<leftarrow> scan_c (CHR '':'') s; (m2, s) \<leftarrow> scan_d s;
     Some (SEC_PER_HOUR * h1 + SEC_PER_MIN * m1, SEC_PER_HOUR * h2 + SEC_PER_MIN * m2) }"

text \<open>The six-field format, then the five-field one.\<close>

definition scan_period :: "string \<Rightarrow> period option" where
  "scan_period s =
    (case do { (d1, s) \<leftarrow> scan_d s; s \<leftarrow> scan_c (CHR ''-'') s; (d2, s) \<leftarrow> scan_d s;
               s \<leftarrow> scan_c (CHR '','') s; (a, b) \<leftarrow> scan_hours s; Some (d1, d2, a, b) } of
       Some p \<Rightarrow> Some p
     | None \<Rightarrow> do { (d1, s) \<leftarrow> scan_d s; s \<leftarrow> scan_c (CHR '','') s; (a, b) \<leftarrow> scan_hours s;
                    Some (d1, d1, a, b) })"

definition tm_day :: "tm \<Rightarrow> int" where
  "tm_day tm = (if tm_wday tm = 0 then 7 else tm_wday tm)"

definition tm_secs :: "tm \<Rightarrow> int" where
  "tm_secs tm = SEC_PER_HOUR * tm_hour tm + SEC_PER_MIN * tm_min tm + tm_sec tm"

definition in_period :: "int \<Rightarrow> int \<Rightarrow> period \<Rightarrow> bool" where
  "in_period day sec = (\<lambda>(d1, d2, sec1, sec2). d1 \<le> day \<and> day \<le> d2 \<and> sec1 \<le> sec \<and> sec < sec2)"

function check_periods :: "int \<Rightarrow> int \<Rightarrow> string \<Rightarrow> zres" where
  "check_periods day sec s =
    (if s = [] then Fail
     else if (case scan_period s of Some p \<Rightarrow> in_period day sec p | None \<Rightarrow> False) then Succeed
     else (case after_delim s of Some t \<Rightarrow> check_periods day sec t | None \<Rightarrow> Fail))"
  by pat_completeness auto
termination
  by (relation "measure (\<lambda>(day, sec, s). length s)") (auto dest: length_after_delim)

declare check_periods.simps [simp del]

text \<open>\<open>clock\<close> is the reading of \<^verbatim>\<open>time(NULL)\<close>.\<close>

definition check_time_period :: "(int \<Rightarrow> tm) \<Rightarrow> int \<Rightarrow> string \<Rightarrow> int \<Rightarrow> zres" where
  "check_time_period localtime clock period now =
    (let now = (if now = 0 then clock else now);
         tm = localtime now
     in check_periods (tm_day tm) (tm_secs tm) period)"

subsection \<open>Flexible intervals\<close>

definition scan_flex :: "string \<Rightarrow> (int \<times> string) option" where
  "scan_flex s = do { (d, s) \<leftarrow> scan_d s; s \<leftarrow> scan_c (CHR ''/'') s; p \<leftarrow> scan_29 s; Some (d, p) }"

function current_delay_loop ::
  "(int \<Rightarrow> tm) \<Rightarrow> int \<Rightarrow> int \<Rightarrow> string \<Rightarrow> int \<Rightarrow> int" where
  "current_delay_loop localtime clock now s current_delay =
    (if s = [] then current_delay
     else
       (let delay' = (case scan_flex s of
              Some (flex_delay, flex_period) \<Rightarrow>
                if flex_delay < current_delay \<and> check_time_period localtime clock flex_period now = Succeed
                then flex_delay else current_delay
            | None \<Rightarrow> current_delay)
        in case after_delim s of
             None \<Rightarrow> delay'
           | Some t \<Rightarrow> current_delay_loop localtime clock now t delay'))"
  by pat_completeness auto
termination
  by (relation "measure (\<lambda>(l, c, n, s, d). length s)") (auto dest: length_after_delim)

declare current_delay_loop.simps [simp del]

text \<open>\<open>flex = None\<close> is the NULL pointer.\<close>

definition get_current_delay :: "(int \<Rightarrow> tm) \<Rightarrow> int \<Rightarrow> int \<Rightarrow> string option \<Rightarrow> int \<Rightarrow> int" where
  "get_current_delay localtime clock delay flex now =
    (case flex of
       None \<Rightarrow> delay
     | Some s \<Rightarrow>
         if s = [] then delay
         else
           (let current_delay = current_delay_loop localtime clock now s SEC_PER_YEAR
            in if current_delay = SEC_PER_YEAR then delay
               else if current_delay = 0 then SEC_PER_YEAR else current_delay))"

text \<open>The flexible interval \<^verbatim>\<open>delay/period\<close> in one \<^verbatim>\<open>sscanf\<close>; the delay is not used.\<close>

definition scan_flex_period :: "string \<Rightarrow> period option" where
  "scan_flex_period s = do { (d, s) \<leftarrow> scan_d s; s \<leftarrow> scan_c (CHR ''/'') s; scan_period s }"

text \<open>The start or end of a period that lies next after \<open>now\<close>, at second \<open>sec\<close> of weekday \<open>day\<close>.\<close>

definition next_of_period :: "int \<Rightarrow> int \<Rightarrow> int \<Rightarrow> period \<Rightarrow> int option" where
  "next_of_period now day sec = (\<lambda>(d1, d2, sec1, sec2).
    (if d1 \<le> day \<and> day \<le> d2 \<and> sec1 \<le> sec \<and> sec < sec2 then Some (now - sec + sec2)
     else if d1 \<le> day \<and> day \<le> d2 \<and> sec < sec1 then Some (now - sec + sec1)
     else
       (let next_day = (if day + 1 \<le> 7 then day + 1 else 1)
        in if d1 \<le> next_day \<and> next_day \<le> d2 then Some (now - sec + SEC_PER_DAY + sec1)
           else
             (let day_diff = (if day < d1 then d1 - day else - 1);
                  day_diff = (if day \<ge> d2 then (d1 + 7) - day else day_diff);
                  day_diff = (if d1 \<le> day \<and> day < d2 then - 1 else day_diff)
              in if day_diff \<noteq> - 1 then Some (now - sec + SEC_PER_DAY * day_diff + sec1) else None))))"

function next_interval_loop :: "int \<Rightarrow> int \<Rightarrow> int \<Rightarrow> string \<Rightarrow> int \<Rightarrow> int" where
  "next_interval_loop now day sec s next =
    (if s = [] then next
     else
       (let next' = (case scan_flex_period s of
              Some p \<Rightarrow>
                (case next_of_period now day sec p of
                   Some x \<Rightarrow> if next = 0 \<or> next > x then x else next
                 | None \<Rightarrow> next)
            | None \<Rightarrow> next)
        in case after_delim s of
             Some t \<Rightarrow> next_interval_loop now day sec t next'
           | None \<Rightarrow> next'))"
  by pat_completeness auto
termination
  by (relation "measure (\<lambda>(n, d, sec, s, x). length s)") (auto dest: length_after_delim)

declare next_interval_loop.simps [simp del]

definition get_next_delay_interval :: "(int \<Rightarrow> tm) \<Rightarrow> string option \<Rightarrow> int \<Rightarrow> int option" where
  "get_next_delay_interval localtime flex now =
    (case flex of
       None \<Rightarrow> None
     | Some s \<Rightarrow>
         if s = [] then None
         else
           (let tm = localtime now;
                next = next_interval_loop now (tm_day tm) (tm_secs tm) s 0
            in if next \<noteq> 0 then Some next else None))"

subsection \<open>The next check of an item\<close>

text \<open>
  Neither the inner loops, which add the current delay until the bound is passed, nor the outer
  loop over the intervals need end: a delay may be negative and an interval may lie in the past.
\<close>

partial_function (option) bump_until :: "(int \<Rightarrow> bool) \<Rightarrow> int \<Rightarrow> int \<Rightarrow> int option" where
  "bump_until below step n = (if below n then bump_until below step (n + step) else Some n)"

partial_function (option) nextcheck_loop ::
  "(int \<Rightarrow> tm) \<Rightarrow> int \<Rightarrow> u64 \<Rightarrow> int \<Rightarrow> string option \<Rightarrow> int \<Rightarrow> int \<Rightarrow> int \<Rightarrow> int \<Rightarrow> int \<Rightarrow>
   (int \<times> int) option" where
  "nextcheck_loop localtime clock shift delay flex tmax t tries nextcheck current_delay =
    (if t < tmax then
       (let current_delay = get_current_delay localtime clock delay flex t;
            start = current_delay * (t sdiv current_delay) + sint (ucast (shift mod word_of_int current_delay) :: 32 word)
        in case bump_until (\<lambda>n. if tries = 0 then n \<le> t else n < t) current_delay start of
             None \<Rightarrow> None
           | Some nextcheck \<Rightarrow>
               (case get_next_delay_interval localtime flex t of
                  Some next_interval \<Rightarrow>
                    if nextcheck \<ge> next_interval then
                      nextcheck_loop localtime clock shift delay flex tmax next_interval (tries + 1)
                        nextcheck current_delay
                    else Some (nextcheck, current_delay)
                | None \<Rightarrow> Some (nextcheck, current_delay)))
     else Some (nextcheck, current_delay))"

text \<open>The result is the next check and the effective delay.\<close>

definition calculate_item_nextcheck ::
  "(int \<Rightarrow> tm) \<Rightarrow> int \<Rightarrow> u64 \<Rightarrow> u64 \<Rightarrow> bool \<Rightarrow> bool \<Rightarrow> int \<Rightarrow> string option \<Rightarrow> int \<Rightarrow> (int \<times> int) option" where
  "calculate_item_nextcheck localtime clock interfaceid itemid is_active is_jmx delay flex now =
    (let delay = (if delay = 0 then SEC_PER_YEAR else delay)
     in if is_active then Some (now + delay, delay)
        else
          nextcheck_loop localtime clock (if is_jmx then interfaceid else itemid) delay flex
            (now + SEC_PER_YEAR) now 0 0 SEC_PER_YEAR)"

text \<open>Division by a zero delay traps.\<close>

definition calculate_proxy_nextcheck :: "u64 \<Rightarrow> u32 \<Rightarrow> int \<Rightarrow> int option" where
  "calculate_proxy_nextcheck hostid delay now =
    (if delay = 0 then None
     else bump_until (\<lambda>n. n \<le> now) (uint delay)
       (uint delay * (now sdiv uint delay) + uint (hostid mod ucast delay)))"

subsection \<open>Scanning written periods\<close>

text \<open>
  Reference for the scanners: numbers, periods and intervals as they are written, any string of
  digits being a number (hours and minutes are usually written with two).
\<close>

definition number :: "string \<Rightarrow> bool" where
  "number ds \<longleftrightarrow> ds \<noteq> [] \<and> list_all c_isdigit ds"

definition number_val :: "string \<Rightarrow> int" where
  "number_val ds = foldl (\<lambda>n c. 10 * n + digit_val c) 0 ds"

record wperiod =
  wp_d1 :: string
  wp_d2 :: string
  wp_h1 :: string
  wp_m1 :: string
  wp_h2 :: string
  wp_m2 :: string

definition wperiod_ok :: "wperiod \<Rightarrow> bool" where
  "wperiod_ok p \<longleftrightarrow> number (wp_d1 p) \<and> number (wp_d2 p) \<and> number (wp_h1 p) \<and> number (wp_m1 p) \<and>
    number (wp_h2 p) \<and> number (wp_m2 p)"

definition write_hours :: "wperiod \<Rightarrow> string" where
  "write_hours p = wp_h1 p @ '':'' @ wp_m1 p @ ''-'' @ wp_h2 p @ '':'' @ wp_m2 p"

definition write_period :: "wperiod \<Rightarrow> string" where
  "write_period p = wp_d1 p @ ''-'' @ wp_d2 p @ '','' @ write_hours p"

definition period_val :: "wperiod \<Rightarrow> period" where
  "period_val p = (number_val (wp_d1 p), number_val (wp_d2 p),
    3600 * number_val (wp_h1 p) + 60 * number_val (wp_m1 p),
    3600 * number_val (wp_h2 p) + 60 * number_val (wp_m2 p))"

fun join_list :: "string list \<Rightarrow> string" where
  "join_list [] = []"
| "join_list [x] = x"
| "join_list (x # y # xs) = x @ '';'' @ join_list (y # xs)"

text \<open>The rest of a string after a number, period or interval.\<close>

definition no_digit_next :: "string \<Rightarrow> bool" where
  "no_digit_next s \<longleftrightarrow> s = [] \<or> \<not> c_isdigit (hd s)"

lemma scan_digits_append:
  assumes "list_all c_isdigit ds" "no_digit_next r"
  shows "scan_digits n (ds @ r) = (foldl (\<lambda>n c. 10 * n + digit_val c) n ds, r)"
  using assms(1)
proof (induction ds arbitrary: n)
  case Nil
  show ?case using assms(2) by (cases r) (simp_all add: no_digit_next_def)
qed simp

lemma digit_not: "c_isdigit c \<Longrightarrow> \<not> c_isspace c \<and> c \<noteq> CHR ''-'' \<and> c \<noteq> CHR ''+'' \<and> c \<noteq> CHR '';''"
  by (auto simp: c_isdigit_def c_isspace_def)

lemma scan_d_number [simp]:
  assumes "number ds" "no_digit_next r"
  shows "scan_d (ds @ r) = Some (number_val ds, r)"
proof (cases ds)
  case (Cons d ds')
  with assms(1) have "c_isdigit d" by (simp add: number_def)
  with digit_not [OF this] scan_digits_append [of ds r 0] assms Cons show ?thesis
    by (simp add: scan_d_def number_val_def number_def)
qed (use assms in \<open>simp add: number_def\<close>)

lemma number_val_nonneg: "list_all c_isdigit ds \<Longrightarrow> 0 \<le> n \<Longrightarrow>
    0 \<le> foldl (\<lambda>n c. 10 * n + digit_val c) n ds"
proof (induction ds arbitrary: n)
  case (Cons c ds)
  then have "0 \<le> 10 * n + digit_val c" by (simp add: c_isdigit_def digit_val_def)
  with Cons show ?case by simp
qed simp

lemma scan_c_simps [simp]:
  "scan_c c (c # s) = Some s" "c \<noteq> d \<Longrightarrow> scan_c c (d # s) = None"
  by (simp_all add: scan_c_def)

lemma no_digit_next_simps [simp]:
  "no_digit_next []" "no_digit_next (CHR ''-'' # s)" "no_digit_next (CHR '','' # s)"
  "no_digit_next (CHR '':'' # s)" "no_digit_next (CHR '';'' # s)" "no_digit_next (CHR ''/'' # s)"
  by (simp_all add: no_digit_next_def c_isdigit_def)

lemma scan_hours_written [simp]:
  "wperiod_ok p \<Longrightarrow> no_digit_next r \<Longrightarrow> scan_hours (write_hours p @ r) =
    Some (3600 * number_val (wp_h1 p) + 60 * number_val (wp_m1 p),
      3600 * number_val (wp_h2 p) + 60 * number_val (wp_m2 p))"
  by (simp add: scan_hours_def write_hours_def wperiod_ok_def SEC_PER_HOUR_def SEC_PER_MIN_def)

lemma scan_period_written [simp]:
  "wperiod_ok p \<Longrightarrow> no_digit_next r \<Longrightarrow> scan_period (write_period p @ r) = Some (period_val p)"
  by (simp add: scan_period_def write_period_def period_val_def)
    (simp add: wperiod_ok_def)

lemma after_delim_simps [simp]:
  "list_all (\<lambda>c. c \<noteq> CHR '';'') x \<Longrightarrow> after_delim (x @ CHR '';'' # r) = Some r"
  "list_all (\<lambda>c. c \<noteq> CHR '';'') x \<Longrightarrow> after_delim x = None"
proof -
  assume x: "list_all (\<lambda>c. c \<noteq> CHR '';'') x"
  then have "dropWhile (\<lambda>c. c \<noteq> CHR '';'') (x @ CHR '';'' # r) = CHR '';'' # r"
    by (subst dropWhile_append2) (simp_all add: list_all_iff)
  then show "after_delim (x @ CHR '';'' # r) = Some r" by (simp add: after_delim_def)
  from x have "dropWhile (\<lambda>c. c \<noteq> CHR '';'') x = []"
    unfolding dropWhile_eq_Nil_conv by (simp add: list_all_iff)
  then show "after_delim x = None" unfolding after_delim_def by (simp only: list.case)
qed

lemma number_no_delim: "number ds \<Longrightarrow> list_all (\<lambda>c. c \<noteq> CHR '';'') ds"
  by (rule list.pred_mono_strong [of c_isdigit]) (simp_all add: number_def digit_not)

lemma write_period_no_delim [simp]: "wperiod_ok p \<Longrightarrow> list_all (\<lambda>c. c \<noteq> CHR '';'') (write_period p)"
  by (simp add: wperiod_ok_def write_period_def write_hours_def number_no_delim)

lemma number_ne_Nil [simp]: "number ds \<Longrightarrow> ds @ r \<noteq> []" "number ds \<Longrightarrow> ds \<noteq> []"
  by (auto simp: number_def)

text \<open>How the loops over a list of intervals go through a written one.\<close>

lemma after_delim_join:
  assumes "list_all (\<lambda>c. c \<noteq> CHR '';'') x"
  shows "after_delim (join_list (x # xs)) = (if xs = [] then None else Some (join_list xs))"
  using assms by (cases xs) simp_all

lemma join_list_shape:
  obtains r where "join_list (x # xs) = x @ r" "no_digit_next r" "r = [] \<or> hd r = CHR '';''"
proof (cases xs)
  case Nil
  then show ?thesis by (intro that [of "[]"]) simp_all
next
  case (Cons y ys)
  then show ?thesis by (intro that [of "CHR '';'' # join_list xs"]) simp_all
qed

definition active :: "tm \<Rightarrow> wperiod \<Rightarrow> bool" where
  "active tm p \<longleftrightarrow> in_period (tm_day tm) (tm_secs tm) (period_val p)"

lemma check_periods_written:
  assumes "list_all wperiod_ok ps"
  shows "check_periods (tm_day tm) (tm_secs tm) (join_list (map write_period ps)) = Succeed \<longleftrightarrow>
    (\<exists>p \<in> set ps. active tm p)"
  using assms
proof (induction ps)
  case Nil
  show ?case by (simp add: check_periods.simps)
next
  case (Cons p ps)
  obtain r where r: "join_list (write_period p # map write_period ps) = write_period p @ r" "no_digit_next r"
    by (rule join_list_shape)
  have "write_period p \<noteq> []" using Cons.prems by (simp add: write_period_def)
  then show ?case
    using Cons r after_delim_join [of "write_period p" "map write_period ps"]
    by (subst check_periods.simps) (auto simp: active_def)
qed

record wflex =
  wf_delay :: string
  wf_period :: wperiod

definition wflex_ok :: "wflex \<Rightarrow> bool" where
  "wflex_ok f \<longleftrightarrow> number (wf_delay f) \<and> wperiod_ok (wf_period f) \<and> length (write_period (wf_period f)) \<le> 29"

definition write_flex :: "wflex \<Rightarrow> string" where
  "write_flex f = wf_delay f @ ''/'' @ write_period (wf_period f)"

definition flex_delay :: "wflex \<Rightarrow> int" where
  "flex_delay f = number_val (wf_delay f)"

definition write_flexes :: "wflex list \<Rightarrow> string" where
  "write_flexes fs = join_list (map write_flex fs)"

lemma write_flex_no_delim [simp]: "wflex_ok f \<Longrightarrow> list_all (\<lambda>c. c \<noteq> CHR '';'') (write_flex f)"
  by (simp add: wflex_ok_def write_flex_def number_no_delim)

lemma flex_delay_nonneg: "wflex_ok f \<Longrightarrow> 0 \<le> flex_delay f"
  by (simp add: wflex_ok_def flex_delay_def number_def number_val_def number_val_nonneg)

lemma scan_29_period:
  assumes "list_all (\<lambda>c. c \<noteq> CHR '';'') x" "x \<noteq> []" "length x \<le> 29" "r = [] \<or> hd r = CHR '';''"
  shows "scan_29 (x @ r) = Some x"
proof -
  have "takeWhile (\<lambda>c. c \<noteq> CHR '';'') r = []" using assms(4) by (cases r) auto
  then have "takeWhile (\<lambda>c. c \<noteq> CHR '';'') (x @ r) = x"
    using assms(1) by (simp add: list_all_iff takeWhile_append2)
  then show ?thesis using assms(2,3) by (simp add: scan_29_def)
qed

lemma scan_flex_written:
  assumes "wflex_ok f" "r = [] \<or> hd r = CHR '';''"
  shows "scan_flex (write_flex f @ r) = Some (flex_delay f, write_period (wf_period f))"
proof -
  have "write_period (wf_period f) \<noteq> []" using assms by (simp add: write_period_def wflex_ok_def wperiod_ok_def)
  with assms scan_29_period [of "write_period (wf_period f)" r] show ?thesis
    by (simp add: scan_flex_def write_flex_def wflex_ok_def flex_delay_def)
qed

lemma scan_flex_period_written:
  "wflex_ok f \<Longrightarrow> no_digit_next r \<Longrightarrow> scan_flex_period (write_flex f @ r) = Some (period_val (wf_period f))"
  by (simp add: scan_flex_period_def write_flex_def wflex_ok_def)

lemma current_delay_written:
  assumes "list_all wflex_ok fs" "now \<noteq> 0"
  shows "current_delay_loop localtime clock now (write_flexes fs) d =
    Min (insert d (flex_delay ` {f \<in> set fs. active (localtime now) (wf_period f)}))"
  using assms
proof (induction fs arbitrary: d)
  case Nil
  show ?case by (simp add: current_delay_loop.simps write_flexes_def)
next
  case (Cons f fs)
  let ?A = "\<lambda>f. active (localtime now) (wf_period f)"
  obtain r where r: "write_flexes (f # fs) = write_flex f @ r" "r = [] \<or> hd r = CHR '';''"
    unfolding write_flexes_def list.map by (rule join_list_shape)
  have ne: "write_flexes (f # fs) \<noteq> []" using Cons.prems by (simp add: r write_flex_def wflex_ok_def)
  have ok: "wflex_ok f" "list_all wflex_ok fs" using Cons.prems by simp_all
  have ad: "after_delim (write_flexes (f # fs)) = (if fs = [] then None else Some (write_flexes fs))"
    using after_delim_join [of "write_flex f" "map write_flex fs"] ok(1) by (simp add: write_flexes_def)
  have chk: "check_time_period localtime clock (write_period (wf_period f)) now = Succeed \<longleftrightarrow> ?A f"
    using check_periods_written [of "[wf_period f]" "localtime now"] ok(1) assms(2)
    by (simp add: check_time_period_def wflex_ok_def Let_def)
  let ?d = "if flex_delay f < d \<and> ?A f then flex_delay f else d"
  have step: "current_delay_loop localtime clock now (write_flexes (f # fs)) d =
      (if fs = [] then ?d else current_delay_loop localtime clock now (write_flexes fs) ?d)"
  proof -
    obtain S where S: "S = write_flexes (f # fs)" by blast
    have "scan_flex S = Some (flex_delay f, write_period (wf_period f))"
      using scan_flex_written [OF ok(1) r(2)] by (simp only: S r(1))
    then show ?thesis
      using ne ad unfolding S [symmetric] by (subst current_delay_loop.simps) (simp add: chk)
  qed
  have ins: "Min (insert ?d S) = Min (insert d (if ?A f then insert (flex_delay f) S else S))"
    if "finite S" for S :: "int set"
    using that by (cases "S = {}") (auto simp: min_def insert_commute)
  let ?S = "flex_delay ` {f \<in> set fs. ?A f}"
  have S: "flex_delay ` {g \<in> set (f # fs). ?A g} = (if ?A f then insert (flex_delay f) ?S else ?S)" by auto
  have "(if fs = [] then ?d else current_delay_loop localtime clock now (write_flexes fs) ?d) =
      Min (insert ?d ?S)"
    using Cons.IH [OF ok(2) assms(2), of ?d] by simp
  from trans [OF step this] show ?case unfolding S by (rule trans) (rule ins, simp)
qed

subsection \<open>The next interval lies in the future\<close>

text \<open>What \<^verbatim>\<open>localtime\<close> documents of its result, leap seconds aside.\<close>

definition tm_ok :: "tm \<Rightarrow> bool" where
  "tm_ok tm \<longleftrightarrow> 0 \<le> tm_wday tm \<and> tm_wday tm \<le> 6 \<and> 0 \<le> tm_hour tm \<and> tm_hour tm \<le> 23 \<and>
    0 \<le> tm_min tm \<and> tm_min tm \<le> 59 \<and> 0 \<le> tm_sec tm \<and> tm_sec tm \<le> 59"

lemma tm_ok_bounds:
  assumes "tm_ok tm"
  shows "1 \<le> tm_day tm" "tm_day tm \<le> 7" "0 \<le> tm_secs tm" "tm_secs tm < 86400"
  using assms by (auto simp: tm_ok_def tm_day_def tm_secs_def SEC_PER_HOUR_def SEC_PER_MIN_def)

lemma next_of_period_future:
  assumes "next_of_period now day sec (d1, d2, sec1, sec2) = Some x"
    and "1 \<le> d1" "0 \<le> sec1" "1 \<le> day" "day \<le> 7" "0 \<le> sec" "sec < 86400"
  shows "now < x"
  using assms unfolding next_of_period_def Let_def SEC_PER_DAY_def
  by (auto split: if_splits)

lemma next_interval_written:
  assumes "list_all wflex_ok fs" "n = 0 \<or> now < n"
    and "\<And>f x. f \<in> set fs \<Longrightarrow> next_of_period now day sec (period_val (wf_period f)) = Some x \<Longrightarrow> now < x"
  shows "next_interval_loop now day sec (write_flexes fs) n = 0 \<or>
    now < next_interval_loop now day sec (write_flexes fs) n"
  using assms
proof (induction fs arbitrary: n)
  case Nil
  then show ?case by (simp add: next_interval_loop.simps write_flexes_def)
next
  case (Cons f fs)
  obtain S where S: "S = write_flexes (f # fs)" by blast
  obtain r where r: "write_flexes (f # fs) = write_flex f @ r" "no_digit_next r"
    unfolding write_flexes_def list.map by (rule join_list_shape)
  have ok: "wflex_ok f" "list_all wflex_ok fs" using Cons.prems by simp_all
  have ne: "S \<noteq> []" using ok by (simp add: S r write_flex_def wflex_ok_def)
  have ad: "after_delim S = (if fs = [] then None else Some (write_flexes fs))"
    using after_delim_join [of "write_flex f" "map write_flex fs"] ok(1) by (simp add: S write_flexes_def)
  have sc: "scan_flex_period S = Some (period_val (wf_period f))"
    using scan_flex_period_written [OF ok(1) r(2)] by (simp only: S r(1))
  let ?n = "case next_of_period now day sec (period_val (wf_period f)) of
      Some x \<Rightarrow> if n = 0 \<or> n > x then x else n | None \<Rightarrow> n"
  have n: "?n = 0 \<or> now < ?n"
    using Cons.prems(2) Cons.prems(3) [of f] by (auto split: option.splits)
  have step: "next_interval_loop now day sec S n =
      (if fs = [] then ?n else next_interval_loop now day sec (write_flexes fs) ?n)"
    using ne by (subst next_interval_loop.simps) (simp add: ad sc)
  show ?case
  proof (cases "fs = []")
    case True
    with step n show ?thesis unfolding S [symmetric] by simp
  next
    case False
    have "next_interval_loop now day sec (write_flexes fs) ?n = 0 \<or>
        now < next_interval_loop now day sec (write_flexes fs) ?n"
      by (rule Cons.IH [OF ok(2) n]) (use Cons.prems(3) in \<open>meson list.set_intros(2)\<close>)
    with False step show ?thesis unfolding S [symmetric] by simp
  qed
qed

text \<open>An interval starts on a day of the week that exists.\<close>

definition flex_days_ok :: "wflex \<Rightarrow> bool" where
  "flex_days_ok f \<longleftrightarrow> wflex_ok f \<and> 1 \<le> number_val (wp_d1 (wf_period f))"

definition flex_text :: "wflex list \<Rightarrow> string option" where
  "flex_text fs = Some (write_flexes fs)"

lemma number_val_pos: "number ds \<Longrightarrow> 0 \<le> number_val ds"
  by (simp add: number_def number_val_def number_val_nonneg)

lemma next_delay_interval_future:
  assumes "list_all flex_days_ok fs" "tm_ok (localtime now)"
    and "get_next_delay_interval localtime (flex_text fs) now = Some x"
  shows "now < x"
proof -
  let ?n = "next_interval_loop now (tm_day (localtime now)) (tm_secs (localtime now)) (write_flexes fs) 0"
  have "list_all wflex_ok fs" using assms(1) by (simp add: flex_days_ok_def list_all_iff)
  moreover have "now < y" if "f \<in> set fs"
    "next_of_period now (tm_day (localtime now)) (tm_secs (localtime now)) (period_val (wf_period f)) = Some y" for f y
  proof (rule next_of_period_future [OF that(2) [unfolded period_val_def]])
    have "flex_days_ok f" using assms(1) that(1) by (simp add: list_all_iff)
    then show "1 \<le> number_val (wp_d1 (wf_period f))"
      "0 \<le> 3600 * number_val (wp_h1 (wf_period f)) + 60 * number_val (wp_m1 (wf_period f))"
      by (simp_all add: flex_days_ok_def wflex_ok_def wperiod_ok_def number_val_pos)
  qed (use tm_ok_bounds [OF assms(2)] in simp_all)
  ultimately have "?n = 0 \<or> now < ?n" by (intro next_interval_written) simp_all
  with assms(3) show ?thesis
    by (auto simp: get_next_delay_interval_def flex_text_def Let_def split: if_splits)
qed

subsection \<open>The loops of the next check\<close>

text \<open>The cast of a small unsigned value to \<^verbatim>\<open>int\<close>.\<close>

lemma sint_ucast_small:
  fixes x :: u64
  assumes "uint x < 2 ^ 31"
  shows "sint (ucast x :: 32 word) = uint x"
proof -
  have u: "uint (ucast x :: 32 word) = uint x"
    using assms by (simp add: unsigned_ucast_eq take_bit_word_eq_self unsigned_take_bit_eq take_bit_int_eq_self)
  have "sint (ucast x :: 32 word) = signed_take_bit 31 (uint (ucast x :: 32 word))"
    by (simp add: sint_uint)
  also have "\<dots> = uint x"
    using assms signed_take_bit_int_eq_self [of 31 "uint x"] by (simp add: u order_trans [OF _ uint_ge_0])
  finally show ?thesis .
qed
lemma bump_until_spec:
  assumes "0 < step"
  shows "\<exists>m. bump_until (\<lambda>n. n < b) step n = Some m \<and> b \<le> m \<and> n \<le> m \<and> (m = n \<or> m - step < b) \<and>
    step dvd m - n"
proof (induction "nat (b - n)" arbitrary: n rule: less_induct)
  case less
  show ?case
  proof (cases "n < b")
    case True
    then obtain m where "bump_until (\<lambda>n. n < b) step (n + step) = Some m" "b \<le> m" "n + step \<le> m"
      "m = n + step \<or> m - step < b" "step dvd m - (n + step)"
      using less [of "n + step"] assms by auto
    moreover have "step dvd m - n"
      using dvd_add [OF calculation(5) dvd_refl] by (simp add: algebra_simps)
    ultimately show ?thesis using True assms by (subst bump_until.simps) auto
  qed (simp add: bump_until.simps)
qed

lemma current_delay_pos:
  assumes "0 < delay" "flex = None \<or> (\<exists>fs. flex = flex_text fs \<and> list_all wflex_ok fs)" "now \<noteq> 0"
  shows "0 < get_current_delay localtime clock delay flex now"
proof (cases "flex = None")
  case False
  with assms(2) obtain fs where fs: "flex = Some (write_flexes fs)" "list_all wflex_ok fs"
    by (auto simp: flex_text_def)
  let ?D = "insert SEC_PER_YEAR (flex_delay ` {f \<in> set fs. active (localtime now) (wf_period f)})"
  have "\<forall>d \<in> ?D. 0 \<le> d" using fs(2) flex_delay_nonneg by (auto simp: SEC_PER_YEAR_def SEC_PER_DAY_def list_all_iff)
  moreover have "Min ?D \<in> ?D" by (rule Min_in) simp_all
  ultimately have "0 \<le> current_delay_loop localtime clock now (write_flexes fs) SEC_PER_YEAR"
    unfolding current_delay_written [OF fs(2) assms(3)] by blast
  with assms(1) fs(1) show ?thesis
    by (simp add: get_current_delay_def Let_def SEC_PER_YEAR_def SEC_PER_DAY_def)
qed (use assms(1) in \<open>simp add: get_current_delay_def\<close>)

lemma nextcheck_loop_future:
  assumes "0 < delay" "flex = None \<or> (\<exists>fs. flex = flex_text fs \<and> list_all flex_days_ok fs)"
    and "\<And>t. tm_ok (localtime t)" "0 < now"
    and "t = now \<and> tries = 0 \<or> now < t" "t < tmax \<or> now < nextcheck"
  shows "\<exists>n d. nextcheck_loop localtime clock shift delay flex tmax t tries nextcheck current_delay = Some (n, d) \<and>
    now < n"
  using assms(5-)
proof (induction "nat (tmax - t)" arbitrary: t tries nextcheck current_delay rule: less_induct)
  case less
  show ?case
  proof (cases "t < tmax")
    case False
    with less.prems show ?thesis by (subst nextcheck_loop.simps) simp
  next
    case True
    let ?d = "get_current_delay localtime clock delay flex t"
    have "flex = None \<or> (\<exists>fs. flex = flex_text fs \<and> list_all wflex_ok fs)"
      using assms(2) by (auto simp: flex_days_ok_def list_all_iff)
    moreover have "t \<noteq> 0" using assms(4) less.prems(1) by auto
    ultimately have d: "0 < ?d" by (rule current_delay_pos [OF assms(1)])
    let ?start = "?d * (t sdiv ?d) + sint (ucast (shift mod word_of_int ?d) :: 32 word)"
    let ?b = "if tries = 0 then t + 1 else t"
    obtain n where n: "bump_until (\<lambda>n. n < ?b) ?d ?start = Some n" "?b \<le> n"
      using bump_until_spec [OF d, of ?b ?start] by auto
    have "(\<lambda>n. if tries = 0 then n \<le> t else n < t) = (\<lambda>n. n < ?b)" by auto
    with n(1) have run: "bump_until (\<lambda>n. if tries = 0 then n \<le> t else n < t) ?d ?start = Some n"
      by simp
    have future: "now < n" using n(2) less.prems(1) by (auto split: if_splits)
    show ?thesis
    proof (cases "get_next_delay_interval localtime flex t")
      case None
      with True run future show ?thesis by (subst nextcheck_loop.simps) (simp add: Let_def)
    next
      case (Some next_interval)
      then obtain fs where "flex = flex_text fs" "list_all flex_days_ok fs"
        using assms(2) by (auto simp: get_next_delay_interval_def)
      with Some have t: "t < next_interval" using next_delay_interval_future assms(3) by blast
      show ?thesis
      proof (cases "next_interval \<le> n")
        case True
        have "\<exists>m d. nextcheck_loop localtime clock shift delay flex tmax next_interval (tries + 1) n ?d = Some (m, d) \<and>
            now < m"
          using \<open>t < tmax\<close> t less.prems future by (intro less.hyps) auto
        with \<open>t < tmax\<close> True run Some show ?thesis
          by (subst nextcheck_loop.simps) (simp add: Let_def)
      next
        case False
        with \<open>t < tmax\<close> run Some future show ?thesis
          by (subst nextcheck_loop.simps) (simp add: Let_def)
      qed
    qed
  qed
qed

lemma item_nextcheck_returns:
  assumes "0 \<le> delay" "flex = None \<or> (\<exists>fs. flex = flex_text fs \<and> list_all flex_days_ok fs)"
    and "\<And>t. tm_ok (localtime t)" "0 < now"
  shows "\<exists>n d. calculate_item_nextcheck localtime clock interfaceid itemid is_active is_jmx delay flex now =
    Some (n, d) \<and> now < n"
proof -
  let ?delay = "if delay = 0 then SEC_PER_YEAR else delay"
  have y: "0 < SEC_PER_YEAR" by (simp add: SEC_PER_YEAR_def SEC_PER_DAY_def)
  then have "0 < ?delay" using assms(1) by simp
  from nextcheck_loop_future [OF this assms(2-4), of now 0 "now + SEC_PER_YEAR" 0] y \<open>0 < ?delay\<close>
  show ?thesis by (simp add: calculate_item_nextcheck_def Let_def)
qed

subsection \<open>Properties\<close>

text \<open>
  A list of written periods covers a moment exactly when one of them does: its days include the
  weekday, Monday being 1 and Sunday 7, and the second of the day lies in its half-open interval.
\<close>

theorem time_period_covers:
  assumes "list_all wperiod_ok ps"
  shows "check_time_period localtime clock (join_list (map write_period ps)) now = Succeed \<longleftrightarrow>
    (\<exists>p \<in> set ps. active (localtime (if now = 0 then clock else now)) p)"
  using check_periods_written [OF assms] by (simp add: check_time_period_def Let_def)

lemma time_period_covers_witness:
  "check_time_period (\<lambda>t. \<lparr>tm_wday = 0, tm_hour = 9, tm_min = 30, tm_sec = 0\<rparr>) 0 ''1-5,09:00-18:00;6-7,09:30-10:00'' 5
    = Succeed"
proof -
  let ?p = "\<lparr>wp_d1 = ''1'', wp_d2 = ''5'', wp_h1 = ''09'', wp_m1 = ''00'', wp_h2 = ''18'', wp_m2 = ''00''\<rparr>"
  let ?q = "\<lparr>wp_d1 = ''6'', wp_d2 = ''7'', wp_h1 = ''09'', wp_m1 = ''30'', wp_h2 = ''10'', wp_m2 = ''00''\<rparr>"
  have ok: "list_all wperiod_ok [?p, ?q]" by code_simp
  have "\<exists>p \<in> set [?p, ?q]. active \<lparr>tm_wday = 0, tm_hour = 9, tm_min = 30, tm_sec = 0\<rparr> p" by code_simp
  moreover have "join_list (map write_period [?p, ?q]) = ''1-5,09:00-18:00;6-7,09:30-10:00''" by code_simp
  ultimately show ?thesis
    using time_period_covers [OF ok, of "\<lambda>t. \<lparr>tm_wday = 0, tm_hour = 9, tm_min = 30, tm_sec = 0\<rparr>" 0 5] by simp
qed

text \<open>
  The delay in force is the least delay of the written intervals that are active, one year
  standing for a delay of 0, and the item's own delay when none below a year is active.
\<close>

theorem current_delay_is_least:
  assumes "list_all wflex_ok fs" "fs \<noteq> []" "now \<noteq> 0"
    and "D = {d. d < SEC_PER_YEAR \<and> (\<exists>f \<in> set fs. active (localtime now) (wf_period f) \<and> flex_delay f = d)}"
  shows "get_current_delay localtime clock delay (Some (write_flexes fs)) now =
    (if D = {} then delay else if Min D = 0 then SEC_PER_YEAR else Min D)"
proof -
  let ?E = "flex_delay ` {f \<in> set fs. active (localtime now) (wf_period f)}"
  have D: "D = {d \<in> ?E. d < SEC_PER_YEAR}" using assms(4) by auto
  have min: "Min (insert SEC_PER_YEAR ?E) = (if D = {} then SEC_PER_YEAR else Min D)"
  proof (cases "D = {}")
    case True
    with D have "\<forall>e \<in> ?E. SEC_PER_YEAR \<le> e" by force
    with True show ?thesis by (simp only: if_True) (rule Min_eqI; auto)
  next
    case False
    have fin: "finite D" unfolding D by simp
    have m: "Min D \<in> D" using False fin by (rule Min_in [rotated])
    have "Min D \<le> e" if "e \<in> insert SEC_PER_YEAR ?E" for e
      using that m fin unfolding D by (cases "e < SEC_PER_YEAR") (auto intro: Min_le)
    with m False show ?thesis unfolding D by (simp only: if_False) (rule Min_eqI; auto)
  qed
  have "write_flexes fs \<noteq> []"
  proof (cases fs)
    case (Cons f gs)
    obtain r where "write_flexes (f # gs) = write_flex f @ r"
      unfolding write_flexes_def list.map by (rule join_list_shape)
    then show ?thesis using assms(1) Cons by (simp add: write_flex_def)
  qed (use assms(2) in simp)
  moreover have "D \<noteq> {} \<Longrightarrow> Min D \<noteq> SEC_PER_YEAR" using Min_in [of D] D by fastforce
  ultimately show ?thesis
    by (simp add: get_current_delay_def Let_def current_delay_written [OF assms(1,3)] min)
qed

text \<open>
  C18. The search for the next check of an item returns, whatever its well-formed intervals and the
  time zone, and the check it returns lies in the future, so that a queue that is refilled with it
  drains.
\<close>

theorem item_nextcheck_future:
  assumes "0 \<le> delay" "flex = None \<or> (\<exists>fs. flex = flex_text fs \<and> list_all flex_days_ok fs)"
    and "\<And>t. tm_ok (localtime t)" "0 < now"
  shows "\<exists>n d. calculate_item_nextcheck localtime clock interfaceid itemid is_active is_jmx delay flex now =
    Some (n, d) \<and> now < n"
  using item_nextcheck_returns [OF assms] .

lemma item_nextcheck_future_witness:
  "\<exists>n d. calculate_item_nextcheck (\<lambda>t. \<lparr>tm_wday = 2, tm_hour = 9, tm_min = 30, tm_sec = 0\<rparr>) 0 1 7 False False 30
    (Some ''5/1-5,09:00-18:00'') 1000 = Some (n, d) \<and> 1000 < n"
proof -
  let ?f = "\<lparr>wf_delay = ''5'', wf_period = \<lparr>wp_d1 = ''1'', wp_d2 = ''5'', wp_h1 = ''09'', wp_m1 = ''00'',
    wp_h2 = ''18'', wp_m2 = ''00''\<rparr>\<rparr>"
  have "list_all flex_days_ok [?f]" by code_simp
  moreover have "flex_text [?f] = Some ''5/1-5,09:00-18:00''" by code_simp
  ultimately show ?thesis
    by (intro item_nextcheck_future) (auto simp: tm_ok_def intro!: exI [of _ "[?f]"])
qed

text \<open>The least time after \<open>now\<close> in the item's rhythm.\<close>

definition least_aligned :: "int \<Rightarrow> int \<Rightarrow> int \<Rightarrow> int \<Rightarrow> bool" where
  "least_aligned delay shift now n \<longleftrightarrow> now < n \<and> n - delay \<le> now \<and> n mod delay = shift mod delay"

lemma aligned_start:
  assumes "0 < delay" "0 < (now :: int)" "0 \<le> r" "r < delay"
    and "bump_until (\<lambda>n. n < now + 1) delay (delay * (now sdiv delay) + r) = Some n"
  shows "now < n \<and> n - delay \<le> now \<and> n mod delay = r"
proof -
  let ?s = "delay * (now sdiv delay) + r"
  have sd: "now sdiv delay = now div delay" using assms(1,2) by (simp add: signed_divide_int_def)
  obtain m where m: "bump_until (\<lambda>n. n < now + 1) delay ?s = Some m" "now + 1 \<le> m"
    "m = ?s \<or> m - delay < now + 1" "delay dvd m - ?s"
    using bump_until_spec [OF assms(1), of "now + 1" ?s] by auto
  have "delay * (now div delay) \<le> now" using assms(1) by (simp add: minus_mod_eq_mult_div [symmetric])
  then have "m - delay \<le> now" using m(3) assms(4) by (auto simp: sd)
  moreover have "m mod delay = ?s mod delay" using m(4) by (rule mod_eq_dvd_iff [THEN iffD2])
  then have "m mod delay = r" using assms(3,4) by (simp add: mod_pos_pos_trivial)
  ultimately show ?thesis using m(1,2) assms(5) by simp
qed

text \<open>
  Without flexible intervals the next check is the least time in the future that is congruent to
  the item identifier (of a JMX item, to the interface identifier) modulo the delay: checks keep
  their rhythm and items with the same delay are spread over it.
\<close>

theorem item_nextcheck_aligned:
  assumes "0 \<le> delay" "delay < 2 ^ 31" "flex = None \<or> flex = Some []" "0 < now"
    and "delay' = (if delay = 0 then SEC_PER_YEAR else delay)"
  shows "\<exists>n. calculate_item_nextcheck localtime clock interfaceid itemid False is_jmx delay flex now =
    Some (n, delay') \<and> least_aligned delay' (uint (if is_jmx then interfaceid else itemid)) now n"
proof -
  let ?shift = "if is_jmx then interfaceid else itemid"
  have d: "0 < delay'" "delay' < 2 ^ 31" using assms by (simp_all add: SEC_PER_YEAR_def SEC_PER_DAY_def)
  have cd: "get_current_delay localtime clock delay' flex now = delay'"
    using assms(3) by (auto simp: get_current_delay_def)
  have ni: "get_next_delay_interval localtime flex now = None"
    using assms(3) by (auto simp: get_next_delay_interval_def)
  let ?r = "sint (ucast (?shift mod word_of_int delay') :: 32 word)"
  have "uint (?shift mod word_of_int delay') = uint ?shift mod delay'"
    using d by (simp add: uint_mod uint_word_of_int)
  moreover have "uint ?shift mod delay' < 2 ^ 31" using pos_mod_bound [OF d(1), of "uint ?shift"] d(2) by linarith
  ultimately have r: "?r = uint ?shift mod delay'"
    using sint_ucast_small [of "?shift mod word_of_int delay'"] by simp
  let ?s = "delay' * (now sdiv delay') + ?r"
  obtain n where run: "bump_until (\<lambda>n. n < now + 1) delay' ?s = Some n"
    using bump_until_spec [OF d(1)] by blast
  then have "nextcheck_loop localtime clock ?shift delay' flex (now + SEC_PER_YEAR) now 0 0 SEC_PER_YEAR =
      Some (n, delay')"
    using run by (subst nextcheck_loop.simps) (simp add: cd ni Let_def SEC_PER_YEAR_def SEC_PER_DAY_def)
  then have "calculate_item_nextcheck localtime clock interfaceid itemid False is_jmx delay flex now = Some (n, delay')"
    by (simp add: calculate_item_nextcheck_def Let_def assms(5))
  moreover have "least_aligned delay' (uint ?shift) now n"
    using aligned_start [OF d(1) assms(4) _ _ run] d(1) unfolding r least_aligned_def by simp
  ultimately show ?thesis by blast
qed

lemma item_nextcheck_aligned_witness:
  "\<exists>n. calculate_item_nextcheck (\<lambda>t. \<lparr>tm_wday = 2, tm_hour = 9, tm_min = 30, tm_sec = 0\<rparr>) 0 1 7 False False 30
    None 1000 = Some (n, 30) \<and> least_aligned 30 7 1000 n"
  using item_nextcheck_aligned [of 30 None 1000 30 _ 0 1 7 False] by simp

text \<open>
  The next check of a passive proxy is the least time in the future that is congruent to its host
  identifier modulo the delay.
\<close>

theorem proxy_nextcheck_aligned:
  assumes "delay \<noteq> 0" "0 < now"
  shows "\<exists>n. calculate_proxy_nextcheck hostid delay now = Some n \<and>
    least_aligned (uint delay) (uint hostid) now n"
proof -
  have d: "0 < uint delay" using assms(1) by (metis uint_0_iff uint_ge_0 order_le_less)
  have r: "uint (hostid mod ucast delay) = uint hostid mod uint delay"
    by (simp add: uint_mod uint_up_ucast is_up)
  obtain n where run: "bump_until (\<lambda>n. n < now + 1) (uint delay)
      (uint delay * (now sdiv uint delay) + uint (hostid mod ucast delay)) = Some n"
    using bump_until_spec [OF d] by blast
  with assms(1) have "calculate_proxy_nextcheck hostid delay now = Some n"
    by (simp add: calculate_proxy_nextcheck_def)
  moreover have "least_aligned (uint delay) (uint hostid) now n"
    using aligned_start [OF d assms(2) _ _ run] d unfolding r least_aligned_def by simp
  ultimately show ?thesis by blast
qed

lemma proxy_nextcheck_aligned_witness:
  "\<exists>n. calculate_proxy_nextcheck 17 60 1000 = Some n \<and> least_aligned 60 17 1000 n"
  using proxy_nextcheck_aligned [of 60 1000 17] by simp

lemma current_delay_is_least_witness:
  "get_current_delay (\<lambda>t. \<lparr>tm_wday = 2, tm_hour = 9, tm_min = 30, tm_sec = 0\<rparr>) 0 30
    (Some ''5/1-5,09:00-18:00;50/1-7,00:00-24:00'') 1000 = 5"
proof -
  let ?f = "\<lparr>wf_delay = ''5'', wf_period = \<lparr>wp_d1 = ''1'', wp_d2 = ''5'', wp_h1 = ''09'', wp_m1 = ''00'',
    wp_h2 = ''18'', wp_m2 = ''00''\<rparr>\<rparr>"
  let ?g = "\<lparr>wf_delay = ''50'', wf_period = \<lparr>wp_d1 = ''1'', wp_d2 = ''7'', wp_h1 = ''00'', wp_m1 = ''00'',
    wp_h2 = ''24'', wp_m2 = ''00''\<rparr>\<rparr>"
  let ?lt = "\<lambda>t :: int. \<lparr>tm_wday = 2, tm_hour = 9, tm_min = 30, tm_sec = 0\<rparr>"
  let ?D = "{d. d < SEC_PER_YEAR \<and> (\<exists>f \<in> set [?f, ?g]. active (?lt 1000) (wf_period f) \<and> flex_delay f = d)}"
  have ok: "list_all wflex_ok [?f, ?g]" by code_simp
  have "active (?lt 1000) (wf_period ?f)" "active (?lt 1000) (wf_period ?g)" "flex_delay ?f = 5" "flex_delay ?g = 50"
    by code_simp+
  then have "?D = {5, 50}" by (auto simp: SEC_PER_YEAR_def SEC_PER_DAY_def)
  moreover have "write_flexes [?f, ?g] = ''5/1-5,09:00-18:00;50/1-7,00:00-24:00''" by code_simp
  ultimately show ?thesis
    using current_delay_is_least [OF ok, of 1000 ?D ?lt 0 30] by simp
qed

end
