(* ===== verification/DbEscape.thy ===== *)
theory DbEscape
  imports Prelude
begin

text \<open>
  Strings in SQL statements (\<^verbatim>\<open>libs/zbxdbhigh/db.c\<close>: \<^verbatim>\<open>DBget_escape_string_len\<close>, \<^verbatim>\<open>DBescape_string\<close>,
  \<^verbatim>\<open>DBdyn_escape_string\<close>, \<^verbatim>\<open>DBdyn_escape_string_len\<close>). A C string is the list of its bytes before the
  terminating zero. Which bytes are escaped, and how, depends on the database the program is built for.
\<close>

subsection \<open>Operations\<close>

text \<open>The argument of \<open>PostgreSQL\<close> is \<^verbatim>\<open>ZBX_PG_ESCAPE_BACKSLASH\<close>.\<close>

datatype db_kind = MySQL | PostgreSQL bool | Other_DB

definition QUOTE :: u8 where "QUOTE = 0x27"
definition BACKSLASH :: u8 where "BACKSLASH = 0x5C"
definition CARRIAGE_RETURN :: u8 where "CARRIAGE_RETURN = 0x0D"

definition is_escaped :: "db_kind \<Rightarrow> u8 \<Rightarrow> bool" where
  "is_escaped db c \<longleftrightarrow> c = QUOTE \<or> (c = BACKSLASH \<and> (db = MySQL \<or> db = PostgreSQL True))"

fun escape_ch :: "db_kind \<Rightarrow> u8 \<Rightarrow> u8" where
  "escape_ch MySQL c = BACKSLASH"
| "escape_ch (PostgreSQL b) c = c"
| "escape_ch Other_DB c = QUOTE"

fun escape_len_loop :: "db_kind \<Rightarrow> u8 list \<Rightarrow> nat \<Rightarrow> nat" where
  "escape_len_loop db [] len = len"
| "escape_len_loop db (c # s) len =
    (if c = CARRIAGE_RETURN then escape_len_loop db s len
     else escape_len_loop db s ((if is_escaped db c then len + 1 else len) + 1))"

definition DBget_escape_string_len :: "db_kind \<Rightarrow> u8 list \<Rightarrow> nat" where
  "DBget_escape_string_len db src = escape_len_loop db src 1"

fun escape_loop :: "db_kind \<Rightarrow> u8 list \<Rightarrow> nat \<Rightarrow> u8 list" where
  "escape_loop db [] len = []"
| "escape_loop db (c # s) len =
    (if len = 0 then []
     else if c = CARRIAGE_RETURN then escape_loop db s len
     else if is_escaped db c then
       (if len < 2 then [] else escape_ch db c # c # escape_loop db s (len - 1 - 1))
     else c # escape_loop db s (len - 1))"

definition DBescape_string :: "db_kind \<Rightarrow> u8 list \<Rightarrow> nat \<Rightarrow> u8 list" where
  "DBescape_string db src len = escape_loop db src (len - 1)"

definition DBdyn_escape_string :: "db_kind \<Rightarrow> u8 list \<Rightarrow> u8 list" where
  "DBdyn_escape_string db src = DBescape_string db src (DBget_escape_string_len db src)"

text \<open>A byte inside a UTF-8 character does not count.\<close>

definition utf8_inner :: "u8 \<Rightarrow> bool" where
  "utf8_inner c \<longleftrightarrow> 0xC0 AND c = 0x80"

fun escape_len_n_loop :: "db_kind \<Rightarrow> u8 list \<Rightarrow> nat \<Rightarrow> nat \<Rightarrow> nat" where
  "escape_len_n_loop db [] max_src_len len = len"
| "escape_len_n_loop db (c # s) max_src_len len =
    (if max_src_len = 0 then len
     else if c = CARRIAGE_RETURN then escape_len_n_loop db s max_src_len len
     else
       (let max_src_len' = (if utf8_inner c then max_src_len else max_src_len - 1)
        in if \<not> utf8_inner c \<and> max_src_len' = 0 then len
           else escape_len_n_loop db s max_src_len' ((if is_escaped db c then len + 1 else len) + 1)))"

definition DBdyn_escape_string_len :: "db_kind \<Rightarrow> u8 list \<Rightarrow> nat \<Rightarrow> u8 list" where
  "DBdyn_escape_string_len db src max_src_len =
    DBescape_string db src (escape_len_n_loop db src (max_src_len + 1) 1)"

subsection \<open>What the database reads\<close>

text \<open>
  The specification: the documented syntax of a string literal of the three kinds of databases. The reader stands
  behind the opening quote and gives the value and the text behind the closing quote. Two quotes stand for one; a
  backslash, where it is an escape, has to stand before a quote or a backslash, all that the escaping needs.
\<close>

fun read_literal :: "db_kind \<Rightarrow> u8 list \<Rightarrow> (u8 list \<times> u8 list) option" where
  "read_literal db [] = None"
| "read_literal db [c] =
    (if c = QUOTE then Some ([], [])
     else None)"
| "read_literal db (c # d # s) =
    (if c = QUOTE then
       (if d = QUOTE then map_option (\<lambda>(v, r). (QUOTE # v, r)) (read_literal db s) else Some ([], d # s))
     else if c = BACKSLASH \<and> (db = MySQL \<or> db = PostgreSQL True) then
       (if d = QUOTE \<or> d = BACKSLASH then map_option (\<lambda>(v, r). (d # v, r)) (read_literal db s) else None)
     else map_option (\<lambda>(v, r). (c # v, r)) (read_literal db (d # s)))"

text \<open>The first \<open>n\<close> characters of a text in UTF-8.\<close>

fun utf8_take :: "nat \<Rightarrow> u8 list \<Rightarrow> u8 list" where
  "utf8_take n [] = []"
| "utf8_take n (c # s) =
    (if utf8_inner c then c # utf8_take n s
     else (case n of 0 \<Rightarrow> [] | Suc m \<Rightarrow> c # utf8_take m s))"

definition without_cr :: "u8 list \<Rightarrow> u8 list" where
  "without_cr s = filter (\<lambda>c. c \<noteq> CARRIAGE_RETURN) s"

fun escape_all :: "db_kind \<Rightarrow> u8 list \<Rightarrow> u8 list" where
  "escape_all db [] = []"
| "escape_all db (c # s) = (if is_escaped db c then escape_ch db c # c # escape_all db s else c # escape_all db s)"

lemma without_cr_simps [simp]:
  "without_cr [] = []"
  "without_cr (c # s) = (if c = CARRIAGE_RETURN then without_cr s else c # without_cr s)"
  by (simp_all add: without_cr_def)

lemma escape_len_loop_result: "escape_len_loop db s len = len + length (escape_all db (without_cr s))"
  by (induction s arbitrary: len) auto

lemma escape_len_n_result:
  "escape_len_n_loop db s (Suc n) len = len + length (escape_all db (utf8_take n (without_cr s)))"
proof (induction s arbitrary: n len)
  case (Cons c s)
  then show ?case by (cases n) (auto simp: Let_def)
qed simp

lemma escape_loop_all: "escape_loop db s (length (escape_all db (without_cr s))) = escape_all db (without_cr s)"
proof (induction s)
  case (Cons c s)
  have stop: "escape_loop db s 0 = []" by (cases s) auto
  from Cons stop show ?case by (cases "without_cr s") auto
qed simp

lemma escape_loop_take:
  "escape_loop db s (length (escape_all db (utf8_take n (without_cr s)))) = escape_all db (utf8_take n (without_cr s))"
proof (induction s arbitrary: n)
  case (Cons c s)
  have stop: "escape_loop db s 0 = []" by (cases s) auto
  show ?case
  proof (cases "c = CARRIAGE_RETURN")
    case True
    with Cons [of n] stop show ?thesis by auto
  next
    case False
    with Cons stop show ?thesis by (cases n) auto
  qed
qed simp

lemma read_literal_end: "r = [] \<or> hd r \<noteq> QUOTE \<Longrightarrow> read_literal db (QUOTE # r) = Some ([], r)"
  by (cases r) auto

lemma read_escaped:
  assumes "r = [] \<or> hd r \<noteq> QUOTE"
  shows "read_literal db (escape_all db s @ QUOTE # r) = Some (s, r)"
proof (induction s)
  case Nil
  show ?case using read_literal_end [OF assms] by simp
next
  case (Cons c s)
  show ?case
  proof (cases "is_escaped db c")
    case True
    with Cons show ?thesis
      by (cases db) (auto simp: is_escaped_def BACKSLASH_def QUOTE_def)
  next
    case False
    obtain d t where dt: "escape_all db s @ QUOTE # r = d # t" by (cases "escape_all db s @ QUOTE # r") auto
    with Cons False show ?thesis by (auto simp: is_escaped_def)
  qed
qed

subsection \<open>Properties\<close>



end
