(* ===== verification/HostAvail.thy ===== *)
theory HostAvail
  imports DbEscape
begin

text \<open>
  Whether a host can be reached: the availability functions of
  \<^verbatim>\<open>src/libs/zbxdbcache/dbconfig.c\<close> (\<^verbatim>\<open>DChost_*\<close>, \<^verbatim>\<open>DCget_disable_until\<close>,
  \<^verbatim>\<open>DCincrease_disable_until\<close>) and their callers \<^verbatim>\<open>activate_host\<close>, \<^verbatim>\<open>deactivate_host\<close> and
  \<^verbatim>\<open>db_host_update_availability\<close> in \<^verbatim>\<open>src/zabbix_server/poller/poller.c\<close>. A host has one
  availability (time of the first error, time of the next attempt, state) for each of the four
  kinds of agent. The table of hosts, a hash set in the code, is a finite map from identifiers.
  Times are integers.
\<close>

subsection \<open>Data\<close>

datatype item_type =
    ITEM_TYPE_ZABBIX | ITEM_TYPE_SNMPv1 | ITEM_TYPE_TRAPPER | ITEM_TYPE_SIMPLE | ITEM_TYPE_SNMPv2c
  | ITEM_TYPE_INTERNAL | ITEM_TYPE_SNMPv3 | ITEM_TYPE_ZABBIX_ACTIVE | ITEM_TYPE_AGGREGATE
  | ITEM_TYPE_HTTPTEST | ITEM_TYPE_EXTERNAL | ITEM_TYPE_DB_MONITOR | ITEM_TYPE_IPMI | ITEM_TYPE_SSH
  | ITEM_TYPE_TELNET | ITEM_TYPE_CALCULATED | ITEM_TYPE_JMX | ITEM_TYPE_SNMPTRAP

definition HOST_AVAILABLE_UNKNOWN :: u8 where "HOST_AVAILABLE_UNKNOWN = 0"
definition HOST_AVAILABLE_TRUE :: u8 where "HOST_AVAILABLE_TRUE = 1"
definition HOST_AVAILABLE_FALSE :: u8 where "HOST_AVAILABLE_FALSE = 2"

record dc_host =
  h_hostid :: u64
  h_proxy_hostid :: u64
  h_errors_from :: int
  h_disable_until :: int
  h_snmp_errors_from :: int
  h_snmp_disable_until :: int
  h_ipmi_errors_from :: int
  h_ipmi_disable_until :: int
  h_jmx_errors_from :: int
  h_jmx_disable_until :: int
  h_maintenance_status :: u8
  h_maintenance_type :: u8
  h_available :: u8
  h_snmp_available :: u8
  h_ipmi_available :: u8
  h_jmx_available :: u8

record host_availability =
  ha_hostid :: u64
  ha_errors_from :: int
  ha_disable_until :: int
  ha_type :: item_type
  ha_available :: u8

type_synonym hosts = "u64 \<rightharpoonup> dc_host"

text \<open>The parameters \<^verbatim>\<open>UnreachableDelay\<close>, \<^verbatim>\<open>UnreachablePeriod\<close>, \<^verbatim>\<open>UnavailableDelay\<close>, \<^verbatim>\<open>Timeout\<close>.\<close>

record avail_conf =
  CONFIG_UNREACHABLE_DELAY :: int
  CONFIG_UNREACHABLE_PERIOD :: int
  CONFIG_UNAVAILABLE_DELAY :: int
  CONFIG_TIMEOUT :: int

subsection \<open>The cache\<close>

fun DChost_get_availability ::
  "dc_host \<Rightarrow> item_type \<Rightarrow> host_availability \<Rightarrow> zres \<times> host_availability" where
  "DChost_get_availability h type a =
    (let result = (\<lambda>a. (Succeed, a\<lparr>ha_type := type, ha_hostid := h_hostid h\<rparr>))
     in case type of
          ITEM_TYPE_ZABBIX \<Rightarrow> result (a\<lparr>ha_errors_from := h_errors_from h, ha_available := h_available h,
            ha_disable_until := h_disable_until h\<rparr>)
        | ITEM_TYPE_SNMPv1 \<Rightarrow> result (a\<lparr>ha_errors_from := h_snmp_errors_from h,
            ha_available := h_snmp_available h, ha_disable_until := h_snmp_disable_until h\<rparr>)
        | ITEM_TYPE_SNMPv2c \<Rightarrow> result (a\<lparr>ha_errors_from := h_snmp_errors_from h,
            ha_available := h_snmp_available h, ha_disable_until := h_snmp_disable_until h\<rparr>)
        | ITEM_TYPE_SNMPv3 \<Rightarrow> result (a\<lparr>ha_errors_from := h_snmp_errors_from h,
            ha_available := h_snmp_available h, ha_disable_until := h_snmp_disable_until h\<rparr>)
        | ITEM_TYPE_IPMI \<Rightarrow> result (a\<lparr>ha_errors_from := h_ipmi_errors_from h,
            ha_available := h_ipmi_available h, ha_disable_until := h_ipmi_disable_until h\<rparr>)
        | ITEM_TYPE_JMX \<Rightarrow> result (a\<lparr>ha_errors_from := h_jmx_errors_from h,
            ha_available := h_jmx_available h, ha_disable_until := h_jmx_disable_until h\<rparr>)
        | _ \<Rightarrow> (Fail, a))"

fun DChost_set_availability :: "dc_host \<Rightarrow> host_availability \<Rightarrow> zres \<times> dc_host" where
  "DChost_set_availability h a =
    (let snmp = (Succeed, h\<lparr>h_snmp_errors_from := ha_errors_from a, h_snmp_available := ha_available a,
           h_snmp_disable_until := ha_disable_until a\<rparr>)
     in case ha_type a of
          ITEM_TYPE_ZABBIX \<Rightarrow> (Succeed, h\<lparr>h_errors_from := ha_errors_from a,
            h_available := ha_available a, h_disable_until := ha_disable_until a\<rparr>)
        | ITEM_TYPE_SNMPv1 \<Rightarrow> snmp
        | ITEM_TYPE_SNMPv2c \<Rightarrow> snmp
        | ITEM_TYPE_SNMPv3 \<Rightarrow> snmp
        | ITEM_TYPE_IPMI \<Rightarrow> (Succeed, h\<lparr>h_ipmi_errors_from := ha_errors_from a,
            h_ipmi_available := ha_available a, h_ipmi_disable_until := ha_disable_until a\<rparr>)
        | ITEM_TYPE_JMX \<Rightarrow> (Succeed, h\<lparr>h_jmx_errors_from := ha_errors_from a,
            h_jmx_available := ha_available a, h_jmx_disable_until := ha_disable_until a\<rparr>)
        | _ \<Rightarrow> (Fail, h))"

declare DChost_get_availability.simps [simp del] DChost_set_availability.simps [simp del]

text \<open>
  The two operations return the result, the table, and the records \<open>in\<close> and \<open>out\<close> of the caller.
\<close>

definition DChost_activate ::
  "hosts \<Rightarrow> host_availability \<Rightarrow> host_availability \<Rightarrow> zres \<times> hosts \<times> host_availability \<times> host_availability" where
  "DChost_activate hosts inp out =
    (if ha_errors_from inp = 0 \<and> ha_available inp = HOST_AVAILABLE_TRUE then (Fail, hosts, inp, out)
     else
       (case hosts (ha_hostid inp) of
          None \<Rightarrow> (Fail, hosts, inp, out)
        | Some h \<Rightarrow>
            (let inp = snd (DChost_get_availability h (ha_type inp) inp);
                 out = out\<lparr>ha_hostid := ha_hostid inp, ha_type := ha_type inp, ha_errors_from := 0,
                   ha_available := HOST_AVAILABLE_TRUE, ha_disable_until := 0\<rparr>
             in (Succeed, hosts(ha_hostid inp \<mapsto> snd (DChost_set_availability h out)), inp, out))))"

definition deactivated :: "avail_conf \<Rightarrow> int \<Rightarrow> host_availability \<Rightarrow> host_availability" where
  "deactivated conf sec out =
    (if ha_errors_from out = 0 then
       out\<lparr>ha_errors_from := sec, ha_disable_until := sec + CONFIG_UNREACHABLE_DELAY conf\<rparr>
     else if CONFIG_UNREACHABLE_DELAY conf \<le> sec - ha_errors_from out then
       (if CONFIG_UNREACHABLE_PERIOD conf > sec - ha_errors_from out then
          out\<lparr>ha_disable_until := sec + CONFIG_UNREACHABLE_DELAY conf\<rparr>
        else out\<lparr>ha_disable_until := sec + CONFIG_UNAVAILABLE_DELAY conf,
                 ha_available := HOST_AVAILABLE_FALSE\<rparr>)
     else out)"

definition DChost_deactivate ::
  "avail_conf \<Rightarrow> hosts \<Rightarrow> int \<Rightarrow> host_availability \<Rightarrow> host_availability \<Rightarrow>
   zres \<times> hosts \<times> host_availability \<times> host_availability" where
  "DChost_deactivate conf hosts sec inp out =
    (if CONFIG_UNREACHABLE_DELAY conf > sec - ha_errors_from out then (Fail, hosts, inp, out)
     else
       (case hosts (ha_hostid inp) of
          None \<Rightarrow> (Fail, hosts, inp, out)
        | Some h \<Rightarrow>
            (let inp = snd (DChost_get_availability h (ha_type inp) inp);
                 out = deactivated conf sec inp
             in (Succeed, hosts(ha_hostid inp \<mapsto> snd (DChost_set_availability h out)), inp, out))))"

definition DChost_update_availability :: "hosts \<Rightarrow> host_availability list \<Rightarrow> hosts" where
  "DChost_update_availability hosts as =
    fold (\<lambda>a hosts. case hosts (ha_hostid a) of
        None \<Rightarrow> hosts
      | Some h \<Rightarrow> hosts(ha_hostid a \<mapsto> snd (DChost_set_availability h a))) as hosts"

text \<open>
  The part of \<^verbatim>\<open>DCsync_hosts\<close> that concerns this table: \<open>rows\<close> is what the database holds. A known host
  keeps its availability, a new one gets that of the database, others are removed.
\<close>

definition sync_hosts :: "hosts \<Rightarrow> hosts \<Rightarrow> hosts" where
  "sync_hosts rows hosts =
    (\<lambda>hostid. case rows hostid of
        None \<Rightarrow> None
      | Some row \<Rightarrow>
          (case hosts hostid of
             None \<Rightarrow> Some row
           | Some h \<Rightarrow> Some (h\<lparr>h_proxy_hostid := h_proxy_hostid row\<rparr>)))"

definition DCget_disable_until :: "item_type \<Rightarrow> dc_host \<Rightarrow> int" where
  "DCget_disable_until type h =
    (let snmp = (if h_snmp_errors_from h \<noteq> 0 then h_snmp_disable_until h else 0)
     in case type of
          ITEM_TYPE_ZABBIX \<Rightarrow> if h_errors_from h \<noteq> 0 then h_disable_until h else 0
        | ITEM_TYPE_SNMPv1 \<Rightarrow> snmp
        | ITEM_TYPE_SNMPv2c \<Rightarrow> snmp
        | ITEM_TYPE_SNMPv3 \<Rightarrow> snmp
        | ITEM_TYPE_IPMI \<Rightarrow> if h_ipmi_errors_from h \<noteq> 0 then h_ipmi_disable_until h else 0
        | ITEM_TYPE_JMX \<Rightarrow> if h_jmx_errors_from h \<noteq> 0 then h_jmx_disable_until h else 0
        | _ \<Rightarrow> 0)"

definition DCincrease_disable_until :: "avail_conf \<Rightarrow> item_type \<Rightarrow> dc_host \<Rightarrow> int \<Rightarrow> dc_host" where
  "DCincrease_disable_until conf type h now =
    (let until = now + CONFIG_TIMEOUT conf;
         snmp = (if h_snmp_errors_from h \<noteq> 0 then h\<lparr>h_snmp_disable_until := until\<rparr> else h)
     in case type of
          ITEM_TYPE_ZABBIX \<Rightarrow> if h_errors_from h \<noteq> 0 then h\<lparr>h_disable_until := until\<rparr> else h
        | ITEM_TYPE_SNMPv1 \<Rightarrow> snmp
        | ITEM_TYPE_SNMPv2c \<Rightarrow> snmp
        | ITEM_TYPE_SNMPv3 \<Rightarrow> snmp
        | ITEM_TYPE_IPMI \<Rightarrow> if h_ipmi_errors_from h \<noteq> 0 then h\<lparr>h_ipmi_disable_until := until\<rparr> else h
        | ITEM_TYPE_JMX \<Rightarrow> if h_jmx_errors_from h \<noteq> 0 then h\<lparr>h_jmx_disable_until := until\<rparr> else h
        | _ \<Rightarrow> h)"

subsection \<open>The poller\<close>

definition HOST_ERROR_LEN :: nat where "HOST_ERROR_LEN = 128"

text \<open>
  An \<^verbatim>\<open>update hosts\<close> statement: the columns it sets, the column of the error text with the text between the
  quotes, the row. The statement is that of a program built for MySQL.
\<close>

record host_update =
  hu_set :: "(string \<times> int) list"
  hu_error :: "string \<times> u8 list"
  hu_hostid :: u64

fun sqlset_prefix :: "item_type \<Rightarrow> string option" where
  "sqlset_prefix ITEM_TYPE_ZABBIX = Some ''''"
| "sqlset_prefix ITEM_TYPE_SNMPv1 = Some ''snmp_''"
| "sqlset_prefix ITEM_TYPE_SNMPv2c = Some ''snmp_''"
| "sqlset_prefix ITEM_TYPE_SNMPv3 = Some ''snmp_''"
| "sqlset_prefix ITEM_TYPE_IPMI = Some ''impi_''"
| "sqlset_prefix ITEM_TYPE_JMX = Some ''jmx_''"
| "sqlset_prefix _ = None"

text \<open>\<open>None\<close> is FAIL, and no statement is executed.\<close>

definition db_host_update_availability ::
  "host_availability \<Rightarrow> host_availability \<Rightarrow> u8 list \<Rightarrow> host_update option" where
  "db_host_update_availability inp out err =
    (case sqlset_prefix (ha_type inp) of
       None \<Rightarrow> None
     | Some prefix \<Rightarrow>
         (let sqlset =
              (if ha_available inp \<noteq> ha_available out then [(prefix @ ''available'', uint (ha_available out))] else []) @
              (if ha_errors_from inp \<noteq> ha_errors_from out then [(prefix @ ''errors_from'', ha_errors_from out)] else []) @
              (if ha_disable_until inp \<noteq> ha_disable_until out then [(prefix @ ''disable_until'', ha_disable_until out)] else [])
          in if sqlset \<noteq> [] then
               Some \<lparr>hu_set = sqlset, hu_error = (prefix @ ''error'', DBdyn_escape_string_len MySQL err HOST_ERROR_LEN), hu_hostid = ha_hostid out\<rparr>
             else None))"

text \<open>
  \<open>copy\<close> is the poller's copy of the host and \<open>junk\<close> the contents of the uninitialised local
  variables \<^verbatim>\<open>in\<close> and \<^verbatim>\<open>out\<close>. The result is the table and the statement executed, if any.
\<close>

definition host_get_availability ::
  "dc_host \<Rightarrow> item_type \<Rightarrow> host_availability \<Rightarrow> zres \<times> host_availability" where
  "host_get_availability copy type a = DChost_get_availability copy type a"

definition activate_host ::
  "hosts \<Rightarrow> dc_host \<Rightarrow> item_type \<Rightarrow> host_availability \<times> host_availability \<Rightarrow> hosts \<times> host_update option" where
  "activate_host hosts copy type = (\<lambda>(junk_in, junk_out).
    (case host_get_availability copy type junk_in of
       (Fail, _) \<Rightarrow> (hosts, None)
     | (Succeed, inp) \<Rightarrow>
         (case DChost_activate hosts inp junk_out of
            (Fail, hosts, _, _) \<Rightarrow> (hosts, None)
          | (Succeed, hosts, inp, out) \<Rightarrow> (hosts, db_host_update_availability inp out []))))"

text \<open>
  The last component says whether the triggers of the host are set to unknown, which happens when
  the host becomes unavailable.
\<close>

definition deactivate_host ::
  "avail_conf \<Rightarrow> hosts \<Rightarrow> dc_host \<Rightarrow> item_type \<Rightarrow> int \<Rightarrow> u8 list \<Rightarrow> host_availability \<times> host_availability \<Rightarrow>
   hosts \<times> host_update option \<times> bool" where
  "deactivate_host conf hosts copy type sec err = (\<lambda>(junk_in, junk_out).
    (case host_get_availability copy type junk_in of
       (Fail, _) \<Rightarrow> (hosts, None, False)
     | (Succeed, inp) \<Rightarrow>
         (case DChost_deactivate conf hosts sec inp junk_out of
            (Fail, hosts, _, _) \<Rightarrow> (hosts, None, False)
          | (Succeed, hosts, inp, out) \<Rightarrow>
              (case db_host_update_availability inp out err of
                 None \<Rightarrow> (hosts, None, False)
               | Some u \<Rightarrow> (hosts, Some u, ha_errors_from inp \<noteq> 0 \<and>
                   ha_available inp \<noteq> HOST_AVAILABLE_FALSE \<and> ha_available out = HOST_AVAILABLE_FALSE)))))"

subsection \<open>The availability of an agent\<close>

text \<open>The four agents, and the availability that a host has of the agent of an item type.\<close>

datatype agent = Zabbix_Agent | SNMP_Agent | IPMI_Agent | JMX_Agent

fun agent_of :: "item_type \<Rightarrow> agent option" where
  "agent_of ITEM_TYPE_ZABBIX = Some Zabbix_Agent"
| "agent_of ITEM_TYPE_SNMPv1 = Some SNMP_Agent"
| "agent_of ITEM_TYPE_SNMPv2c = Some SNMP_Agent"
| "agent_of ITEM_TYPE_SNMPv3 = Some SNMP_Agent"
| "agent_of ITEM_TYPE_IPMI = Some IPMI_Agent"
| "agent_of ITEM_TYPE_JMX = Some JMX_Agent"
| "agent_of _ = None"

record avail =
  av_errors_from :: int
  av_disable_until :: int
  av_available :: u8

fun avail_of :: "agent \<Rightarrow> dc_host \<Rightarrow> avail" where
  "avail_of Zabbix_Agent h = \<lparr>av_errors_from = h_errors_from h, av_disable_until = h_disable_until h,
     av_available = h_available h\<rparr>"
| "avail_of SNMP_Agent h = \<lparr>av_errors_from = h_snmp_errors_from h, av_disable_until = h_snmp_disable_until h,
     av_available = h_snmp_available h\<rparr>"
| "avail_of IPMI_Agent h = \<lparr>av_errors_from = h_ipmi_errors_from h, av_disable_until = h_ipmi_disable_until h,
     av_available = h_ipmi_available h\<rparr>"
| "avail_of JMX_Agent h = \<lparr>av_errors_from = h_jmx_errors_from h, av_disable_until = h_jmx_disable_until h,
     av_available = h_jmx_available h\<rparr>"

definition ha_avail :: "host_availability \<Rightarrow> avail" where
  "ha_avail a = \<lparr>av_errors_from = ha_errors_from a, av_disable_until = ha_disable_until a,
     av_available = ha_available a\<rparr>"

lemma get_avail:
  "agent_of t = Some g \<Longrightarrow> \<exists>a'. DChost_get_availability h t a = (Succeed, a') \<and> ha_avail a' = avail_of g h \<and>
     ha_type a' = t \<and> ha_hostid a' = h_hostid h"
  by (cases t) (auto simp: ha_avail_def DChost_get_availability.simps)

lemma get_avail_eq:
  "agent_of t = Some g \<Longrightarrow> DChost_get_availability h t a = (Succeed, \<lparr>ha_hostid = h_hostid h,
     ha_errors_from = av_errors_from (avail_of g h), ha_disable_until = av_disable_until (avail_of g h),
     ha_type = t, ha_available = av_available (avail_of g h)\<rparr>)"
  by (cases t) (auto simp: DChost_get_availability.simps)

lemma get_avail_fail: "agent_of t = None \<Longrightarrow> DChost_get_availability h t a = (Fail, a)"
  by (cases t) (auto simp: DChost_get_availability.simps)

lemma ha_avail_simps [simp]:
  "av_errors_from (ha_avail a) = ha_errors_from a" "av_disable_until (ha_avail a) = ha_disable_until a"
  "av_available (ha_avail a) = ha_available a"
  by (simp_all add: ha_avail_def)

lemma set_avail_aux:
  assumes "agent_of (ha_type a) = Some g"
  shows "fst (DChost_set_availability h a) = Succeed"
    "avail_of g' (snd (DChost_set_availability h a)) = (if g' = g then ha_avail a else avail_of g' h)"
  using assms by (cases "ha_type a"; cases g'; auto simp: ha_avail_def DChost_set_availability.simps)+

lemma set_avail_keeps:
  "h_hostid (snd (DChost_set_availability h a)) = h_hostid h"
  "h_proxy_hostid (snd (DChost_set_availability h a)) = h_proxy_hostid h"
  "h_maintenance_status (snd (DChost_set_availability h a)) = h_maintenance_status h"
  "h_maintenance_type (snd (DChost_set_availability h a)) = h_maintenance_type h"
  by (cases "ha_type a"; simp add: DChost_set_availability.simps)+

lemma set_avail_fail: "agent_of (ha_type a) = None \<Longrightarrow> DChost_set_availability h a = (Fail, h)"
  by (cases "ha_type a") (auto simp: DChost_set_availability.simps)

lemma disable_until_avail:
  "agent_of t = Some g \<Longrightarrow> DCget_disable_until t h =
     (if av_errors_from (avail_of g h) \<noteq> 0 then av_disable_until (avail_of g h) else 0)"
  "agent_of t = None \<Longrightarrow> DCget_disable_until t h = 0"
  by (cases t; auto simp: DCget_disable_until_def Let_def)+

lemma increase_disable_avail:
  "avail_of g' (DCincrease_disable_until conf t h now) =
     (if agent_of t = Some g' \<and> av_errors_from (avail_of g' h) \<noteq> 0
      then (avail_of g' h)\<lparr>av_disable_until := now + CONFIG_TIMEOUT conf\<rparr> else avail_of g' h)"
  "h_hostid (DCincrease_disable_until conf t h now) = h_hostid h"
  by (cases t; cases g'; simp add: DCincrease_disable_until_def Let_def)+

subsection \<open>Effect of the two operations\<close>

text \<open>The abstract step of a failed check at time \<open>sec\<close>.\<close>

definition avail_fail :: "avail_conf \<Rightarrow> int \<Rightarrow> avail \<Rightarrow> avail" where
  "avail_fail conf sec v =
    (let since = sec - av_errors_from v
     in if av_errors_from v = 0 then
          v\<lparr>av_errors_from := sec, av_disable_until := sec + CONFIG_UNREACHABLE_DELAY conf\<rparr>
        else if since < CONFIG_UNREACHABLE_DELAY conf then v
        else if since < CONFIG_UNREACHABLE_PERIOD conf
          then v\<lparr>av_disable_until := sec + CONFIG_UNREACHABLE_DELAY conf\<rparr>
        else v\<lparr>av_disable_until := sec + CONFIG_UNAVAILABLE_DELAY conf, av_available := HOST_AVAILABLE_FALSE\<rparr>)"

definition avail_up :: avail where
  "avail_up = \<lparr>av_errors_from = 0, av_disable_until = 0, av_available = HOST_AVAILABLE_TRUE\<rparr>"

definition guard_passes :: "avail_conf \<Rightarrow> int \<Rightarrow> host_availability \<times> host_availability \<Rightarrow> bool" where
  "guard_passes conf sec junk \<longleftrightarrow> CONFIG_UNREACHABLE_DELAY conf \<le> sec - ha_errors_from (snd junk)"

lemma deactivated_avail:
  "ha_avail (deactivated conf sec a) = avail_fail conf sec (ha_avail a)"
  "ha_type (deactivated conf sec a) = ha_type a" "ha_hostid (deactivated conf sec a) = ha_hostid a"
  by (auto simp: deactivated_def avail_fail_def ha_avail_def Let_def)

text \<open>A host in the table after \<open>g\<close>'s availability was set to \<open>v\<close>, and nothing else changed.\<close>

definition host_set :: "agent \<Rightarrow> avail \<Rightarrow> dc_host \<Rightarrow> dc_host \<Rightarrow> bool" where
  "host_set g v h h' \<longleftrightarrow> avail_of g h' = v \<and> (\<forall>g'. g' \<noteq> g \<longrightarrow> avail_of g' h' = avail_of g' h) \<and>
    h_hostid h' = h_hostid h \<and> h_proxy_hostid h' = h_proxy_hostid h \<and>
    h_maintenance_status h' = h_maintenance_status h \<and> h_maintenance_type h' = h_maintenance_type h"

definition hosts_keyed :: "hosts \<Rightarrow> bool" where
  "hosts_keyed hosts \<longleftrightarrow> (\<forall>k h. hosts k = Some h \<longrightarrow> h_hostid h = k)"

lemma deactivate_effect:
  assumes "agent_of t = Some g" "guard_passes conf sec junk" "hosts (h_hostid copy) = Some h" "hosts_keyed hosts"
  obtains h' u b where "deactivate_host conf hosts copy t sec err junk = (hosts(h_hostid copy \<mapsto> h'), u, b)"
    "host_set g (avail_fail conf sec (avail_of g h)) h h'"
    "b \<longrightarrow> av_available (avail_of g h) \<noteq> HOST_AVAILABLE_FALSE \<and> av_available (avail_of g h') = HOST_AVAILABLE_FALSE"
proof -
  obtain jin jout where junk: "junk = (jin, jout)" by (rule prod.exhaust)
  obtain inp where inp: "DChost_get_availability copy t jin = (Succeed, inp)" "ha_type inp = t"
    "ha_hostid inp = h_hostid copy" using get_avail [OF assms(1)] by blast
  obtain inp2 where inp2: "DChost_get_availability h t inp = (Succeed, inp2)" "ha_avail inp2 = avail_of g h"
    "ha_type inp2 = t" "ha_hostid inp2 = h_hostid h" using get_avail [OF assms(1)] by blast
  have id: "h_hostid h = h_hostid copy" using assms(3,4) by (simp add: hosts_keyed_def)
  let ?out = "deactivated conf sec inp2"
  let ?h' = "snd (DChost_set_availability h ?out)"
  have "DChost_deactivate conf hosts sec inp jout = (Succeed, hosts(h_hostid copy \<mapsto> ?h'), inp2, ?out)"
    using assms(2,3) inp inp2 id by (simp add: DChost_deactivate_def guard_passes_def junk Let_def)
  moreover have "agent_of (ha_type ?out) = Some g" using assms(1) inp2(3) by (simp add: deactivated_avail)
  from set_avail_aux(2) [OF this, of _ h] have hs: "host_set g (avail_fail conf sec (avail_of g h)) h ?h'"
    using set_avail_keeps [of h ?out] by (simp add: host_set_def deactivated_avail inp2(2))
  moreover have "avail_of g ?h' = ha_avail ?out" using hs deactivated_avail(1) [of conf sec inp2] by (simp add: host_set_def inp2(2))
  then have "ha_available ?out = av_available (avail_of g ?h')" by simp
  moreover have "ha_available inp2 = av_available (avail_of g h)" by (simp flip: inp2(2))
  ultimately show ?thesis
  proof (cases "db_host_update_availability inp2 ?out err")
    case None
    then have "deactivate_host conf hosts copy t sec err junk = (hosts(h_hostid copy \<mapsto> ?h'), None, False)"
      using inp(1) \<open>DChost_deactivate conf hosts sec inp jout = _\<close>
      by (simp add: deactivate_host_def junk host_get_availability_def)
    then show ?thesis using hs by (rule that) simp
  next
    case (Some u)
    then have "deactivate_host conf hosts copy t sec err junk = (hosts(h_hostid copy \<mapsto> ?h'), Some u,
        ha_errors_from inp2 \<noteq> 0 \<and> ha_available inp2 \<noteq> HOST_AVAILABLE_FALSE \<and> ha_available ?out = HOST_AVAILABLE_FALSE)"
      using inp(1) \<open>DChost_deactivate conf hosts sec inp jout = _\<close>
      by (simp add: deactivate_host_def junk host_get_availability_def)
    then show ?thesis using hs
      by (rule that) (use \<open>ha_available ?out = _\<close> \<open>ha_available inp2 = _\<close> in simp)
  qed
qed

lemma deactivate_blocked:
  assumes "\<not> guard_passes conf sec junk \<or> agent_of t = None"
  shows "deactivate_host conf hosts copy t sec err junk = (hosts, None, False)"
proof (cases "agent_of t")
  case None
  then show ?thesis
    by (cases junk) (simp add: deactivate_host_def host_get_availability_def get_avail_fail)
next
  case (Some g)
  obtain jin jout where junk: "junk = (jin, jout)" by (rule prod.exhaust)
  obtain inp where "DChost_get_availability copy t jin = (Succeed, inp)" using get_avail [OF Some] by blast
  with assms Some show ?thesis
    by (simp add: junk deactivate_host_def host_get_availability_def DChost_deactivate_def guard_passes_def)
qed

lemma deactivate_absent:
  assumes "hosts (h_hostid copy) = None"
  shows "deactivate_host conf hosts copy t sec err junk = (hosts, None, False)"
proof (cases "agent_of t")
  case None
  then show ?thesis using deactivate_blocked by blast
next
  case (Some g)
  obtain jin jout where junk: "junk = (jin, jout)" by (rule prod.exhaust)
  obtain inp where "DChost_get_availability copy t jin = (Succeed, inp)" "ha_hostid inp = h_hostid copy"
    using get_avail [OF Some] by blast
  with assms show ?thesis
    by (simp add: junk deactivate_host_def host_get_availability_def DChost_deactivate_def)
qed

lemma activate_effect:
  assumes "hosts_keyed hosts"
  obtains "fst (activate_host hosts copy t junk) = hosts"
  | g h h' where "agent_of t = Some g" "hosts (h_hostid copy) = Some h" "host_set g avail_up h h'"
      "fst (activate_host hosts copy t junk) = hosts(h_hostid copy \<mapsto> h')"
proof (cases "agent_of t")
  case None
  then have "fst (activate_host hosts copy t junk) = hosts"
    by (cases junk) (simp add: activate_host_def host_get_availability_def get_avail_fail)
  then show ?thesis by (rule that(1))
next
  case (Some g)
  obtain jin jout where junk: "junk = (jin, jout)" by (rule prod.exhaust)
  obtain inp where inp: "DChost_get_availability copy t jin = (Succeed, inp)" "ha_type inp = t"
    "ha_hostid inp = h_hostid copy" using get_avail [OF Some] by blast
  show ?thesis
  proof (cases "hosts (h_hostid copy) = None \<or> ha_errors_from inp = 0 \<and> ha_available inp = HOST_AVAILABLE_TRUE")
    case True
    then have "fst (activate_host hosts copy t junk) = hosts"
      using inp by (auto simp: junk activate_host_def host_get_availability_def DChost_activate_def)
    then show ?thesis by (rule that(1))
  next
    case False
    then obtain h where h: "hosts (h_hostid copy) = Some h" by (cases "hosts (h_hostid copy)") simp_all
    obtain inp2 where inp2: "DChost_get_availability h t inp = (Succeed, inp2)" "ha_type inp2 = t"
      "ha_hostid inp2 = h_hostid h" using get_avail [OF Some] by blast
    have id: "h_hostid h = h_hostid copy" using h assms by (simp add: hosts_keyed_def)
    let ?out = "jout\<lparr>ha_hostid := h_hostid copy, ha_type := t, ha_errors_from := 0,
      ha_available := HOST_AVAILABLE_TRUE, ha_disable_until := 0\<rparr>"
    let ?h' = "snd (DChost_set_availability h ?out)"
    have "fst (activate_host hosts copy t junk) = hosts(h_hostid copy \<mapsto> ?h')"
      using False h inp inp2 id
      by (auto simp: junk activate_host_def host_get_availability_def DChost_activate_def Let_def)
    moreover have "host_set g avail_up h ?h'"
      using set_avail_aux(2) [of ?out g _ h] set_avail_keeps [of h ?out] Some
      by (simp add: host_set_def ha_avail_def avail_up_def)
    ultimately show ?thesis using that(2) Some h by blast
  qed
qed

subsection \<open>The table of hosts as a state machine\<close>

text \<open>
  The steps that change the table: a check that succeeded, a check that failed at a time \<open>sec\<close>
  (whatever the contents of the uninitialised variables), a retry by the unreachable poller, a report of
  a proxy on some of its hosts, and a reload of the configuration. The hosts that proxies report on are in
  \<open>reported\<close>: a report stores states without times (\<^verbatim>\<open>process_host_availability\<close> in \<^verbatim>\<open>zbxdbhigh/proxy.c\<close>).
\<close>

definition avail_ok :: "avail \<Rightarrow> bool" where
  "avail_ok v \<longleftrightarrow> 0 \<le> av_errors_from v \<and>
    (av_errors_from v = 0 \<longrightarrow> av_disable_until v = 0 \<and> av_available v \<noteq> HOST_AVAILABLE_FALSE)"

definition hosts_ok :: "u64 set \<Rightarrow> hosts \<Rightarrow> bool" where
  "hosts_ok reported hosts \<longleftrightarrow> hosts_keyed hosts \<and>
    (\<forall>k h g. hosts k = Some h \<and> k \<notin> reported \<longrightarrow> avail_ok (avail_of g h))"

inductive avail_step :: "avail_conf \<Rightarrow> u64 set \<Rightarrow> hosts \<Rightarrow> hosts \<Rightarrow> bool" for conf reported where
  activate: "avail_step conf reported hosts (fst (activate_host hosts copy t junk))"
| deactivate: "0 < sec \<Longrightarrow> avail_step conf reported hosts (fst (deactivate_host conf hosts copy t sec err junk))"
| retry: "hosts k = Some h \<Longrightarrow> avail_step conf reported hosts (hosts(k \<mapsto> DCincrease_disable_until conf t h now))"
| report: "ha_hostid ` set as \<subseteq> reported \<Longrightarrow> avail_step conf reported hosts (DChost_update_availability hosts as)"
| sync: "hosts_ok reported rows \<Longrightarrow> avail_step conf reported hosts (sync_hosts rows hosts)"

lemma hosts_ok_update:
  assumes "hosts_ok reported hosts" "hosts k = Some h" "host_set g v h h'" "k \<in> reported \<or> avail_ok v"
  shows "hosts_ok reported (hosts(k \<mapsto> h'))"
  unfolding hosts_ok_def
proof (intro conjI allI impI)
  show "hosts_keyed (hosts(k \<mapsto> h'))"
    using assms(1-3) by (auto simp: hosts_ok_def hosts_keyed_def host_set_def)
  fix k' h'' g' assume "(hosts(k \<mapsto> h')) k' = Some h'' \<and> k' \<notin> reported"
  then show "avail_ok (avail_of g' h'')"
    using assms by (cases "g' = g") (auto simp: hosts_ok_def host_set_def split: if_splits)
qed

lemma hosts_ok_reported:
  assumes "hosts_ok reported hosts" "ha_hostid a \<in> reported" "hosts (ha_hostid a) = Some h"
  shows "hosts_ok reported (hosts(ha_hostid a \<mapsto> snd (DChost_set_availability h a)))"
  using assms set_avail_keeps(1) [of h a] by (auto simp: hosts_ok_def hosts_keyed_def)

lemma hosts_ok_report:
  "hosts_ok reported hosts \<Longrightarrow> ha_hostid ` set as \<subseteq> reported \<Longrightarrow> hosts_ok reported (DChost_update_availability hosts as)"
  unfolding DChost_update_availability_def
  by (induction as arbitrary: hosts) (auto intro: hosts_ok_reported split: option.splits)

lemma hosts_ok_sync:
  assumes "hosts_ok reported hosts" "hosts_ok reported rows"
  shows "hosts_ok reported (sync_hosts rows hosts)"
proof -
  have same: "avail_of g (h\<lparr>h_proxy_hostid := p\<rparr>) = avail_of g h" for g h p by (cases g) simp_all
  show ?thesis
    using assms by (auto simp: hosts_ok_def hosts_keyed_def sync_hosts_def same split: option.splits)
qed

lemma avail_ok_steps: "avail_ok avail_up" "0 < sec \<Longrightarrow> avail_ok v \<Longrightarrow> avail_ok (avail_fail conf sec v)"
  by (auto simp: avail_ok_def avail_up_def avail_fail_def HOST_AVAILABLE_TRUE_def HOST_AVAILABLE_FALSE_def Let_def)

lemma deactivate_no_effect:
  "\<not> (guard_passes conf sec junk \<and> agent_of t \<noteq> None \<and> hosts (h_hostid copy) \<noteq> None) \<Longrightarrow>
    deactivate_host conf hosts copy t sec err junk = (hosts, None, False)"
  using deactivate_blocked deactivate_absent by blast

lemma hosts_ok_step:
  assumes "avail_step conf reported hosts hosts'" "hosts_ok reported hosts"
  shows "hosts_ok reported hosts'"
  using assms
proof (induction rule: avail_step.induct)
  case (activate hosts copy t junk)
  then have "hosts_keyed hosts" by (simp add: hosts_ok_def)
  then show ?case
  proof (cases rule: activate_effect [of hosts copy t junk])
    case 1
    with activate show "hosts_ok reported (fst (activate_host hosts copy t junk))" by simp
  next
    case (2 g h h')
    with hosts_ok_update [OF activate 2(2,3) disjI2, OF avail_ok_steps(1)] show "hosts_ok reported (fst (activate_host hosts copy t junk))" by simp
  qed
next
  case (deactivate sec hosts copy t err junk)
  show "hosts_ok reported (fst (deactivate_host conf hosts copy t sec err junk))"
  proof (cases "guard_passes conf sec junk \<and> agent_of t \<noteq> None \<and> hosts (h_hostid copy) \<noteq> None")
    case True
    then obtain g h where g: "agent_of t = Some g" "guard_passes conf sec junk" "hosts (h_hostid copy) = Some h" by blast
    have "hosts_keyed hosts" using deactivate.prems by (simp add: hosts_ok_def)
    with g obtain h' u b where
      "deactivate_host conf hosts copy t sec err junk = (hosts(h_hostid copy \<mapsto> h'), u, b)"
      "host_set g (avail_fail conf sec (avail_of g h)) h h'" by (rule deactivate_effect)
    moreover have "h_hostid copy \<in> reported \<or> avail_ok (avail_fail conf sec (avail_of g h))"
      using deactivate.prems g(3) avail_ok_steps(2) [OF deactivate.hyps] unfolding hosts_ok_def by blast
    ultimately show ?thesis
      using hosts_ok_update [OF deactivate.prems g(3)] by simp
  next
    case False
    then have "deactivate_host conf hosts copy t sec err junk = (hosts, None, False)"
      by (rule deactivate_no_effect)
    with deactivate.prems show ?thesis by simp
  qed
next
  case (retry hosts k h t now)
  have "avail_ok (avail_of g' (DCincrease_disable_until conf t h now))" if "k \<notin> reported" for g'
    using retry that by (auto simp: hosts_ok_def increase_disable_avail avail_ok_def)
  with retry show ?case
    by (auto simp: hosts_ok_def hosts_keyed_def increase_disable_avail)
next
  case (report as hosts)
  then show ?case by (rule hosts_ok_report [rotated])
next
  case (sync rows hosts)
  then show ?case by (rule hosts_ok_sync [rotated])
qed

subsection \<open>Properties\<close>

text \<open>
  C19. In every table reached by checks, retries, reports of proxies and reloads of the configuration, a
  host that no proxy has reported on has for no agent a time to wait for, or the mark unavailable, without
  the time of a first error, when this holds of the database; and hosts stay under their identifiers.
\<close>

theorem avail_invariant:
  assumes "(avail_step conf reported)\<^sup>*\<^sup>* hosts hosts'" "hosts_ok reported hosts"
  shows "hosts_keyed hosts' \<and> (\<forall>k h g. hosts' k = Some h \<and> k \<notin> reported \<longrightarrow> 0 \<le> av_errors_from (avail_of g h) \<and>
    (av_errors_from (avail_of g h) = 0 \<longrightarrow> av_disable_until (avail_of g h) = 0 \<and>
      av_available (avail_of g h) \<noteq> HOST_AVAILABLE_FALSE))"
proof -
  from assms(1) have "hosts_ok reported hosts'"
    by (induction rule: rtranclp_induct) (simp_all add: assms(2) hosts_ok_step)
  then show ?thesis by (auto simp: hosts_ok_def avail_ok_def)
qed

definition host_example :: dc_host where
  "host_example = \<lparr>h_hostid = 10, h_proxy_hostid = 0, h_errors_from = 0, h_disable_until = 0,
    h_snmp_errors_from = 0, h_snmp_disable_until = 0, h_ipmi_errors_from = 0, h_ipmi_disable_until = 0,
    h_jmx_errors_from = 0, h_jmx_disable_until = 0, h_maintenance_status = 0, h_maintenance_type = 0,
    h_available = 0, h_snmp_available = 0, h_ipmi_available = 0, h_jmx_available = 0\<rparr>"

definition avail_conf_default :: avail_conf where
  "avail_conf_default = \<lparr>CONFIG_UNREACHABLE_DELAY = 15, CONFIG_UNREACHABLE_PERIOD = 45,
    CONFIG_UNAVAILABLE_DELAY = 60, CONFIG_TIMEOUT = 3\<rparr>"

definition junk_example :: "int \<Rightarrow> host_availability \<times> host_availability" where
  "junk_example e =
    (let a = \<lparr>ha_hostid = 0, ha_errors_from = e, ha_disable_until = 0, ha_type = ITEM_TYPE_ZABBIX, ha_available = 0\<rparr>
     in (a, a))"

lemma hosts_example_ok: "hosts_ok reported [10 \<mapsto> host_example]"
proof -
  have "avail_of g host_example = \<lparr>av_errors_from = 0, av_disable_until = 0, av_available = 0\<rparr>" for g
    by (cases g) (simp_all add: host_example_def)
  then show ?thesis
    by (auto simp: hosts_ok_def hosts_keyed_def avail_ok_def HOST_AVAILABLE_FALSE_def split: if_splits)
      (simp add: host_example_def)
qed

text \<open>A proxy reports that the agent of host 10 cannot be reached; a check of host 20 fails.\<close>

definition hosts_two :: hosts where
  "hosts_two = [10 \<mapsto> host_example, 20 \<mapsto> host_example\<lparr>h_hostid := 20\<rparr>]"

lemma hosts_two_ok: "hosts_ok {10} hosts_two"
proof -
  have "avail_of g (host_example\<lparr>h_hostid := 20\<rparr>) = \<lparr>av_errors_from = 0, av_disable_until = 0, av_available = 0\<rparr>" for g
    by (cases g) (simp_all add: host_example_def)
  then show ?thesis
    by (auto simp: hosts_two_def hosts_ok_def hosts_keyed_def avail_ok_def HOST_AVAILABLE_FALSE_def split: if_splits)
      (simp add: host_example_def)
qed

lemma avail_invariant_witness:
  "\<exists>hosts1. hosts1 = DChost_update_availability hosts_two [(fst (junk_example 0))\<lparr>ha_hostid := 10, ha_available := HOST_AVAILABLE_FALSE\<rparr>] \<and>
    map_option (\<lambda>h. (h_errors_from h, h_available h)) (hosts1 10) = Some (0, HOST_AVAILABLE_FALSE) \<and>
    hosts_keyed (fst (deactivate_host avail_conf_default hosts1 (host_example\<lparr>h_hostid := 20\<rparr>) ITEM_TYPE_ZABBIX 100 [] (junk_example 0)))"
proof -
  let ?a = "(fst (junk_example 0))\<lparr>ha_hostid := 10, ha_available := HOST_AVAILABLE_FALSE\<rparr>"
  let ?h1 = "DChost_update_availability hosts_two [?a]"
  have one: "avail_step avail_conf_default {10} hosts_two ?h1" by (rule avail_step.report) simp
  have two: "avail_step avail_conf_default {10} ?h1 (fst (deactivate_host avail_conf_default ?h1
      (host_example\<lparr>h_hostid := 20\<rparr>) ITEM_TYPE_ZABBIX 100 [] (junk_example 0)))"
    by (rule avail_step.deactivate) simp
  have "(avail_step avail_conf_default {10})\<^sup>*\<^sup>* hosts_two (fst (deactivate_host avail_conf_default ?h1
      (host_example\<lparr>h_hostid := 20\<rparr>) ITEM_TYPE_ZABBIX 100 [] (junk_example 0)))"
    using one two by (meson rtranclp.rtrancl_into_rtrancl rtranclp.rtrancl_refl)
  from avail_invariant [OF this hosts_two_ok] show ?thesis
    by (auto simp: DChost_update_availability_def hosts_two_def junk_example_def DChost_set_availability.simps Let_def)
qed

text \<open>
  C20. A failed check of one kind of item of a host changes nothing but the availability of that agent in
  the entry of that host: all other hosts, the other agents of the host and its other members stay as they
  are. It marks the agent unavailable only when its errors have lasted at least the unreachable period.
\<close>

theorem unavailable_only_after_period:
  assumes "hosts_keyed hosts" "deactivate_host conf hosts copy t sec err junk = (hosts', u, b)"
  shows "(\<forall>k. k \<noteq> h_hostid copy \<longrightarrow> hosts' k = hosts k) \<and>
    (case hosts (h_hostid copy) of
       None \<Rightarrow> hosts' (h_hostid copy) = None
     | Some h \<Rightarrow> (\<exists>h'. hosts' (h_hostid copy) = Some h' \<and> h_hostid h' = h_hostid h \<and>
         h_proxy_hostid h' = h_proxy_hostid h \<and> h_maintenance_status h' = h_maintenance_status h \<and>
         h_maintenance_type h' = h_maintenance_type h \<and>
         (\<forall>g. agent_of t \<noteq> Some g \<longrightarrow> avail_of g h' = avail_of g h) \<and>
         (\<forall>g. av_available (avail_of g h') = HOST_AVAILABLE_FALSE \<and> av_available (avail_of g h) \<noteq> HOST_AVAILABLE_FALSE \<longrightarrow>
           av_errors_from (avail_of g h) \<noteq> 0 \<and> CONFIG_UNREACHABLE_PERIOD conf \<le> sec - av_errors_from (avail_of g h))))"
proof (cases "guard_passes conf sec junk \<and> agent_of t \<noteq> None \<and> hosts (h_hostid copy) \<noteq> None")
  case True
  then obtain g0 h0 where g: "agent_of t = Some g0" "guard_passes conf sec junk" "hosts (h_hostid copy) = Some h0" by blast
  then obtain h' u' b' where
    "deactivate_host conf hosts copy t sec err junk = (hosts(h_hostid copy \<mapsto> h'), u', b')"
    and hs: "host_set g0 (avail_fail conf sec (avail_of g0 h0)) h0 h'"
    using assms(1) by (rule deactivate_effect)
  with assms(2) have hosts': "hosts' = hosts(h_hostid copy \<mapsto> h')" by simp
  have "av_errors_from (avail_of g h0) \<noteq> 0 \<and> CONFIG_UNREACHABLE_PERIOD conf \<le> sec - av_errors_from (avail_of g h0)"
    if "av_available (avail_of g h') = HOST_AVAILABLE_FALSE" "av_available (avail_of g h0) \<noteq> HOST_AVAILABLE_FALSE" for g
  proof (cases "g = g0")
    case True
    then have "avail_of g h' = avail_fail conf sec (avail_of g h0)" using hs by (simp add: host_set_def)
    with that show ?thesis unfolding avail_fail_def Let_def by (auto split: if_splits)
  next
    case False
    then have "avail_of g h' = avail_of g h0" using hs by (simp add: host_set_def)
    with that show ?thesis by simp
  qed
  then show ?thesis using hs g by (auto simp: hosts' host_set_def)
next
  case False
  then have "deactivate_host conf hosts copy t sec err junk = (hosts, None, False)"
    by (rule deactivate_no_effect)
  then have "hosts' = hosts" using assms(2) by simp
  then show ?thesis by (auto split: option.split)
qed

lemma unavailable_only_after_period_witness:
  "\<exists>h'. fst (deactivate_host avail_conf_default [10 \<mapsto> host_example] host_example ITEM_TYPE_ZABBIX 100 [] (junk_example 0)) 10
    = Some h' \<and> h_available h' \<noteq> HOST_AVAILABLE_FALSE"
proof -
  let ?r = "deactivate_host avail_conf_default [10 \<mapsto> host_example] host_example ITEM_TYPE_ZABBIX 100 [] (junk_example 0)"
  have k: "hosts_keyed [10 \<mapsto> host_example]" using hosts_example_ok [of "{}"] by (simp add: hosts_ok_def)
  have "?r = (fst ?r, fst (snd ?r), snd (snd ?r))" by (simp only: prod.collapse)
  note res = unavailable_only_after_period [OF k this]
  have id: "h_hostid host_example = 10" by (simp add: host_example_def)
  have z: "avail_of Zabbix_Agent host_example = \<lparr>av_errors_from = 0, av_disable_until = 0, av_available = 0\<rparr>"
    by (simp add: host_example_def)
  from res obtain h' where h': "fst ?r 10 = Some h'" and period: "\<forall>g. av_available (avail_of g h') = HOST_AVAILABLE_FALSE \<and>
      av_available (avail_of g host_example) \<noteq> HOST_AVAILABLE_FALSE \<longrightarrow> av_errors_from (avail_of g host_example) \<noteq> 0"
    unfolding id by auto
  have "av_available (avail_of Zabbix_Agent h') \<noteq> HOST_AVAILABLE_FALSE"
    using period [rule_format, of Zabbix_Agent] unfolding z by (auto simp: HOST_AVAILABLE_FALSE_def)
  with h' show ?thesis by simp
qed

text \<open>
  What is set for the agent of an item type is what is read back for every item type of that
  agent; other agents, and item types that need no agent, are not affected.
\<close>

theorem availability_set_get:
  "DChost_get_availability (snd (DChost_set_availability h a)) t b =
    (if agent_of t = agent_of (ha_type a) \<and> agent_of t \<noteq> None
     then (Succeed, a\<lparr>ha_type := t, ha_hostid := h_hostid h\<rparr>)
     else DChost_get_availability h t b)"
proof (cases "agent_of t")
  case None
  then show ?thesis by (simp add: get_avail_fail)
next
  case (Some g)
  show ?thesis
  proof (cases "agent_of (ha_type a)")
    case None
    then show ?thesis using Some by (simp add: set_avail_fail)
  next
    case (Some g')
    show ?thesis
      using \<open>agent_of t = Some g\<close> Some set_avail_aux(2) [OF Some, of g h] set_avail_keeps(1) [of h a]
      by (simp add: get_avail_eq ha_avail_def)
  qed
qed

text \<open>Failed checks at the times of a list, each with its own contents of the uninitialised variables.\<close>

definition fail_all ::
  "avail_conf \<Rightarrow> dc_host \<Rightarrow> item_type \<Rightarrow> u8 list \<Rightarrow> (int \<times> host_availability \<times> host_availability) list \<Rightarrow> hosts \<Rightarrow> hosts" where
  "fail_all conf copy t err = fold (\<lambda>(sec, junk) hosts. fst (deactivate_host conf hosts copy t sec err junk))"

lemma fail_all_avail:
  assumes "agent_of t = Some g" "hosts (h_hostid copy) = Some h" "hosts_keyed hosts"
    and "\<forall>(sec, junk) \<in> set fs. guard_passes conf sec junk"
  shows "\<exists>h'. fail_all conf copy t err fs hosts (h_hostid copy) = Some h' \<and>
    avail_of g h' = fold (avail_fail conf) (map fst fs) (avail_of g h) \<and>
    hosts_keyed (fail_all conf copy t err fs hosts)"
  using assms(2-)
proof (induction fs arbitrary: hosts h)
  case Nil
  then show ?case by (simp add: fail_all_def)
next
  case (Cons f fs)
  obtain sec junk where f: "f = (sec, junk)" by (rule prod.exhaust)
  from Cons.prems(3) f have "guard_passes conf sec junk" by simp
  then obtain h' u b where d: "deactivate_host conf hosts copy t sec err junk = (hosts(h_hostid copy \<mapsto> h'), u, b)"
    and hs: "host_set g (avail_fail conf sec (avail_of g h)) h h'"
    using assms(1) Cons.prems(1,2) by (blast elim: deactivate_effect [rotated])
  let ?hosts = "hosts(h_hostid copy \<mapsto> h')"
  have k: "hosts_keyed ?hosts" using Cons.prems(1,2) hs by (auto simp: hosts_keyed_def host_set_def)
  have at: "?hosts (h_hostid copy) = Some h'" by simp
  have rest: "\<forall>(sec, junk) \<in> set fs. guard_passes conf sec junk" using Cons.prems(3) by simp
  have step: "fail_all conf copy t err (f # fs) hosts = fail_all conf copy t err fs ?hosts"
    by (simp add: fail_all_def f d)
  have v: "avail_of g h' = avail_fail conf sec (avail_of g h)" using hs by (simp add: host_set_def)
  have "map fst (f # fs) = sec # map fst fs" by (simp add: f)
  then have fold: "fold (avail_fail conf) (map fst (f # fs)) (avail_of g h) =
      fold (avail_fail conf) (map fst fs) (avail_of g h')" by (simp add: v)
  show ?case unfolding step fold by (rule Cons.IH [OF at k rest])
qed

lemma avail_fail_facts:
  assumes "0 < av_errors_from v"
  shows "av_errors_from (avail_fail conf sec v) = av_errors_from v"
    "av_available v = HOST_AVAILABLE_FALSE \<Longrightarrow> av_available (avail_fail conf sec v) = HOST_AVAILABLE_FALSE"
  using assms by (auto simp: avail_fail_def Let_def)

lemma fold_avail_fail:
  assumes "0 < av_errors_from v"
  shows "av_errors_from (fold (avail_fail conf) (map fst fs) v) = av_errors_from v \<and>
    (av_available v = HOST_AVAILABLE_FALSE \<longrightarrow>
      av_available (fold (avail_fail conf) (map fst fs) v) = HOST_AVAILABLE_FALSE)"
  using assms
proof (induction fs arbitrary: v)
  case (Cons f fs)
  with avail_fail_facts [OF Cons.prems] show ?case by simp
qed simp

text \<open>
  C21. An agent that keeps failing does become unavailable: after a first failure at \<open>sec0\<close>, whatever
  failures follow, one that comes the unreachable period (and delay) later marks it unavailable,
  and so it stays - provided that the guard of \<^verbatim>\<open>DChost_deactivate\<close> passes each time.
\<close>

theorem failing_agent_becomes_unavailable:
  assumes "hosts_keyed hosts" "hosts (h_hostid copy) = Some h" "agent_of t = Some g"
    and "av_errors_from (avail_of g h) = 0" "0 < sec0"
    and "fs = (sec0, junk0) # before @ (sec1, junk1) # later" "\<forall>(sec, junk) \<in> set fs. guard_passes conf sec junk"
    and "CONFIG_UNREACHABLE_PERIOD conf \<le> sec1 - sec0" "CONFIG_UNREACHABLE_DELAY conf \<le> sec1 - sec0"
  shows "\<exists>h'. fail_all conf copy t err fs hosts (h_hostid copy) = Some h' \<and>
    av_available (avail_of g h') = HOST_AVAILABLE_FALSE \<and> av_errors_from (avail_of g h') = sec0"
proof -
  let ?f = "\<lambda>fs. fold (avail_fail conf) (map fst fs)"
  let ?v0 = "avail_fail conf sec0 (avail_of g h)"
  have v0: "av_errors_from ?v0 = sec0" using assms(4) by (simp add: avail_fail_def)
  with assms(5) have e1: "av_errors_from (?f before ?v0) = sec0" using fold_avail_fail [of ?v0 conf before] by simp
  then have "av_available (avail_fail conf sec1 (?f before ?v0)) = HOST_AVAILABLE_FALSE \<and>
      av_errors_from (avail_fail conf sec1 (?f before ?v0)) = sec0"
    using assms(5,8,9) by (simp add: avail_fail_def Let_def)
  with assms(5) have "av_available (?f fs (avail_of g h)) = HOST_AVAILABLE_FALSE \<and>
      av_errors_from (?f fs (avail_of g h)) = sec0"
    using fold_avail_fail [of "avail_fail conf sec1 (?f before ?v0)" conf later] by (simp add: assms(6))
  then show ?thesis using fail_all_avail [OF assms(3,2,1,7), of err] by auto
qed

lemma failing_agent_becomes_unavailable_witness:
  "\<exists>h'. fail_all avail_conf_default host_example ITEM_TYPE_IPMI [] [(100, junk_example 0), (120, junk_example 0),
      (150, junk_example 0)] [10 \<mapsto> host_example] 10 = Some h' \<and> h_ipmi_available h' = HOST_AVAILABLE_FALSE"
proof -
  have k: "hosts_keyed [10 \<mapsto> host_example]" using hosts_example_ok [of "{}"] by (simp add: hosts_ok_def)
  have id: "h_hostid host_example = 10" by (simp add: host_example_def)
  then have at: "[10 \<mapsto> host_example] (h_hostid host_example) = Some host_example" by simp
  have z: "av_errors_from (avail_of IPMI_Agent host_example) = 0" by (simp add: host_example_def)
  have "\<exists>h'. fail_all avail_conf_default host_example ITEM_TYPE_IPMI [] [(100, junk_example 0), (120, junk_example 0),
      (150, junk_example 0)] [10 \<mapsto> host_example] (h_hostid host_example) = Some h' \<and>
    av_available (avail_of IPMI_Agent h') = HOST_AVAILABLE_FALSE \<and> av_errors_from (avail_of IPMI_Agent h') = 100"
    by (rule failing_agent_becomes_unavailable [OF k at _ z, of _ 100 _ "junk_example 0" "[(120, junk_example 0)]" 150 "junk_example 0" "[]"])
      (simp_all add: guard_passes_def junk_example_def Let_def avail_conf_default_def)
  then show ?thesis unfolding id by auto
qed

text \<open>
  C22. That guard reads the local variable \<^verbatim>\<open>out\<close> of \<^verbatim>\<open>deactivate_host\<close> before anything is stored in it:
  the same failed check of the same host is registered or dropped depending on what the stack holds.
\<close>

theorem deactivate_depends_on_junk:
  assumes "hosts_keyed hosts" "hosts (h_hostid copy) = Some h" "agent_of t = Some g"
    and "av_errors_from (avail_of g h) = 0" "0 < CONFIG_UNREACHABLE_DELAY conf" "CONFIG_UNREACHABLE_DELAY conf \<le> sec"
  shows "\<exists>junk1 junk2 h'. deactivate_host conf hosts copy t sec err junk1 = (hosts, None, False) \<and>
    fst (deactivate_host conf hosts copy t sec err junk2) (h_hostid copy) = Some h' \<and>
    av_errors_from (avail_of g h') = sec \<and> av_disable_until (avail_of g h') = sec + CONFIG_UNREACHABLE_DELAY conf"
proof -
  have j2: "guard_passes conf sec (junk_example 0)" using assms(6) by (simp add: guard_passes_def junk_example_def Let_def)
  have "\<not> guard_passes conf sec (junk_example sec)"
    using assms(5) by (simp add: guard_passes_def junk_example_def Let_def)
  then have "deactivate_host conf hosts copy t sec err (junk_example sec) = (hosts, None, False)"
    using deactivate_blocked by blast
  moreover obtain h' u b where
    "deactivate_host conf hosts copy t sec err (junk_example 0) = (hosts(h_hostid copy \<mapsto> h'), u, b)"
    "host_set g (avail_fail conf sec (avail_of g h)) h h'"
    using deactivate_effect [OF assms(3) j2 assms(2,1)] by blast
  moreover from this(2) assms(4) have "av_errors_from (avail_of g h') = sec \<and>
      av_disable_until (avail_of g h') = sec + CONFIG_UNREACHABLE_DELAY conf"
    by (simp add: host_set_def avail_fail_def)
  ultimately show ?thesis by (intro exI [of _ "junk_example sec"] exI [of _ "junk_example 0"] exI [of _ h']) simp
qed

lemma deactivate_depends_on_junk_witness:
  "\<exists>junk1 junk2 h'. deactivate_host avail_conf_default [10 \<mapsto> host_example] host_example ITEM_TYPE_ZABBIX 100 [] junk1 =
      ([10 \<mapsto> host_example], None, False) \<and>
    fst (deactivate_host avail_conf_default [10 \<mapsto> host_example] host_example ITEM_TYPE_ZABBIX 100 [] junk2) 10 = Some h' \<and>
    av_errors_from (avail_of Zabbix_Agent h') = 100"
proof -
  have k: "hosts_keyed [10 \<mapsto> host_example]" using hosts_example_ok [of "{}"] by (simp add: hosts_ok_def)
  have id: "h_hostid host_example = 10" by (simp add: host_example_def)
  then have at: "[10 \<mapsto> host_example] (h_hostid host_example) = Some host_example" by simp
  have z: "av_errors_from (avail_of Zabbix_Agent host_example) = 0" by (simp add: host_example_def)
  have c: "0 < CONFIG_UNREACHABLE_DELAY avail_conf_default" "CONFIG_UNREACHABLE_DELAY avail_conf_default \<le> 100"
    by (simp_all add: avail_conf_default_def)
  have "agent_of ITEM_TYPE_ZABBIX = Some Zabbix_Agent" by simp
  from deactivate_depends_on_junk [OF k at this z c, of "[]"] show ?thesis unfolding id by blast
qed

text \<open>The columns of table \<^verbatim>\<open>hosts\<close> that belong to an agent.\<close>

fun agent_column_prefix :: "agent \<Rightarrow> string" where
  "agent_column_prefix Zabbix_Agent = ''''"
| "agent_column_prefix SNMP_Agent = ''snmp_''"
| "agent_column_prefix IPMI_Agent = ''ipmi_''"
| "agent_column_prefix JMX_Agent = ''jmx_''"

definition agent_columns :: "agent \<Rightarrow> string set" where
  "agent_columns g = (@) (agent_column_prefix g) ` {''available'', ''errors_from'', ''disable_until'', ''error''}"

text \<open>
  The statement that stores a change sets only columns of the one agent, except that for IPMI each
  of its column names, the error column included, is that of the agent with the prefix \<^verbatim>\<open>impi_\<close> in place of
  \<^verbatim>\<open>ipmi_\<close>: there are no such columns. The error text is escaped and cut to 128 characters.
\<close>

theorem host_update_columns:
  assumes "db_host_update_availability inp out err = Some u" "agent_of (ha_type inp) = Some g"
  shows "snd (hu_error u) = DBdyn_escape_string_len MySQL err HOST_ERROR_LEN \<and>
    (if g = IPMI_Agent then
       fst ` set (hu_set u) \<union> {fst (hu_error u)} \<subseteq> (@) ''impi_'' ` {''available'', ''errors_from'', ''disable_until'', ''error''} \<and>
       (fst ` set (hu_set u) \<union> {fst (hu_error u)}) \<inter> agent_columns g = {} \<and> hu_set u \<noteq> []
     else fst ` set (hu_set u) \<union> {fst (hu_error u)} \<subseteq> agent_columns g \<and> hu_set u \<noteq> [])"
proof -
  obtain prefix where p: "sqlset_prefix (ha_type inp) = Some prefix"
    "prefix = (if g = IPMI_Agent then ''impi_'' else agent_column_prefix g)"
    using assms(2) by (cases "ha_type inp") auto
  let ?names = "{''available'', ''errors_from'', ''disable_until'', ''error''}"
  have in_names: "c \<in> (@) prefix ` ?names"
    if "c = prefix @ ''available'' \<or> c = prefix @ ''errors_from'' \<or> c = prefix @ ''disable_until'' \<or> c = prefix @ ''error''"
    for c using that by blast
  define L where "L =
    (if ha_available inp \<noteq> ha_available out then [(prefix @ ''available'', uint (ha_available out))] else []) @
    (if ha_errors_from inp \<noteq> ha_errors_from out then [(prefix @ ''errors_from'', ha_errors_from out)] else []) @
    (if ha_disable_until inp \<noteq> ha_disable_until out then [(prefix @ ''disable_until'', ha_disable_until out)] else [])"
  have "db_host_update_availability inp out err =
      (if L \<noteq> [] then Some \<lparr>hu_set = L, hu_error = (prefix @ ''error'', DBdyn_escape_string_len MySQL err HOST_ERROR_LEN), hu_hostid = ha_hostid out\<rparr> else None)"
    by (simp only: db_host_update_availability_def p(1) option.case Let_def L_def)
  with assms(1) have u: "hu_set u = L" "L \<noteq> []" "fst (hu_error u) = prefix @ ''error''"
    "snd (hu_error u) = DBdyn_escape_string_len MySQL err HOST_ERROR_LEN"
    by (simp_all split: if_split_asm) auto
  then have ne: "hu_set u \<noteq> []" by simp
  have "\<forall>x \<in> set L. fst x = prefix @ ''available'' \<or> fst x = prefix @ ''errors_from'' \<or> fst x = prefix @ ''disable_until''"
    unfolding L_def by (simp only: set_append ball_Un) simp
  then have "c = prefix @ ''available'' \<or> c = prefix @ ''errors_from'' \<or> c = prefix @ ''disable_until''"
    if "c \<in> fst ` set (hu_set u)" for c using that unfolding u(1) by (elim imageE) blast
  moreover note u(3)
  ultimately have cols: "fst ` set (hu_set u) \<union> {fst (hu_error u)} \<subseteq> (@) prefix ` ?names"
    using in_names by blast
  show ?thesis
  proof (cases "g = IPMI_Agent")
    case True
    obtain S where S: "S = ?names" by blast
    have "(@) ''impi_'' ` S \<inter> (@) ''ipmi_'' ` S = {}" by auto
    moreover have "agent_columns g = (@) ''ipmi_'' ` S"
      by (simp only: agent_columns_def True agent_column_prefix.simps S)
    moreover have "fst ` set (hu_set u) \<union> {fst (hu_error u)} \<subseteq> (@) ''impi_'' ` S"
      using cols p(2) True by (simp only: if_True S simp_thms)
    ultimately have "(fst ` set (hu_set u) \<union> {fst (hu_error u)}) \<inter> agent_columns g = {}" by blast
    with True ne \<open>_ \<subseteq> (@) ''impi_'' ` S\<close> u(4) show ?thesis unfolding S by (simp only: if_True simp_thms)
  next
    case False
    with cols ne p(2) u(4) show ?thesis by (simp add: agent_columns_def)
  qed
qed

lemma host_update_columns_witness:
  "\<exists>u. db_host_update_availability ((fst (junk_example 0))\<lparr>ha_type := ITEM_TYPE_IPMI\<rparr>)
      ((fst (junk_example 7))\<lparr>ha_type := ITEM_TYPE_IPMI\<rparr>) [110, 111] = Some u \<and>
    (fst ` set (hu_set u) \<union> {fst (hu_error u)}) \<inter> agent_columns IPMI_Agent = {}"
proof -
  obtain u where u: "db_host_update_availability ((fst (junk_example 0))\<lparr>ha_type := ITEM_TYPE_IPMI\<rparr>)
      ((fst (junk_example 7))\<lparr>ha_type := ITEM_TYPE_IPMI\<rparr>) [110, 111] = Some u"
    by (simp add: db_host_update_availability_def junk_example_def Let_def)
  with host_update_columns [OF u, of IPMI_Agent] show ?thesis by (auto simp: junk_example_def Let_def)
qed

end
