(* ===== verification/ItemQueue.thy ===== *)
theory ItemQueue
  imports BinaryHeap HostAvail TimePeriod
begin

text \<open>
  The item queues of the configuration cache, \<^verbatim>\<open>src/libs/zbxdbcache/dbconfig.c\<close>: for each type of
  poller a direct binary heap of the items it is to check next, ordered by \<^verbatim>\<open>nextcheck\<close>. Pollers take
  due items out with \<^verbatim>\<open>DCconfig_get_poller_items\<close> and give them back with \<^verbatim>\<open>DCrequeue_items\<close>. The hash
  sets of items, hosts and so on are finite maps from identifiers; a pointer to an item is its
  identifier. The heaps are those of \<^verbatim>\<open>BinaryHeap\<close>; as in the code, their comparison functions read
  the items that the elements point to.
\<close>

subsection \<open>State\<close>

record dc_item =
  i_itemid :: u64
  i_hostid :: u64
  i_interfaceid :: u64
  i_lastlogsize :: u64
  i_key :: string
  i_delay :: int
  i_nextcheck :: int
  i_lastclock :: int
  i_mtime :: int
  i_type :: item_type
  i_poller_type :: u8
  i_state :: u8
  i_location :: u8
  i_flags :: u8

definition ZBX_LOC_NOWHERE :: u8 where "ZBX_LOC_NOWHERE = 0"
definition ZBX_LOC_QUEUE :: u8 where "ZBX_LOC_QUEUE = 1"
definition ZBX_LOC_POLLER :: u8 where "ZBX_LOC_POLLER = 2"

definition ZBX_NO_POLLER :: u8 where "ZBX_NO_POLLER = 255"
definition ZBX_POLLER_TYPE_NORMAL :: u8 where "ZBX_POLLER_TYPE_NORMAL = 0"
definition ZBX_POLLER_TYPE_UNREACHABLE :: u8 where "ZBX_POLLER_TYPE_UNREACHABLE = 1"
definition ZBX_POLLER_TYPE_IPMI :: u8 where "ZBX_POLLER_TYPE_IPMI = 2"
definition ZBX_POLLER_TYPE_PINGER :: u8 where "ZBX_POLLER_TYPE_PINGER = 3"
definition ZBX_POLLER_TYPE_JAVA :: u8 where "ZBX_POLLER_TYPE_JAVA = 4"
definition ZBX_POLLER_TYPE_COUNT :: u8 where "ZBX_POLLER_TYPE_COUNT = 5"

definition ITEM_STATE_NORMAL :: u8 where "ITEM_STATE_NORMAL = 0"
definition ITEM_STATE_NOTSUPPORTED :: u8 where "ITEM_STATE_NOTSUPPORTED = 1"
definition HOST_MAINTENANCE_STATUS_ON :: u8 where "HOST_MAINTENANCE_STATUS_ON = 1"
definition MAINTENANCE_TYPE_NODATA :: u8 where "MAINTENANCE_TYPE_NODATA = 1"
definition ZBX_FLAG_DISCOVERY_PROTOTYPE :: u8 where "ZBX_FLAG_DISCOVERY_PROTOTYPE = 2"

text \<open>A JMX item's user name and password are compared as pointers into the string pool.\<close>

record dc_config =
  c_items :: "u64 \<rightharpoonup> dc_item"
  c_flexitems :: "u64 \<rightharpoonup> string"
  c_jmxitems :: "u64 \<rightharpoonup> u64 \<times> u64"
  c_hosts :: hosts
  c_queues :: "u8 \<Rightarrow> u64 binary_heap"
  c_refresh_unsupported :: int

text \<open>What does not change while the server runs, and the reading of the clock.\<close>

record env =
  e_localtime :: "int \<Rightarrow> tm"
  e_clock :: int
  e_avail :: avail_conf
  CONFIG_PINGER_FORKS :: int
  CONFIG_POLLER_FORKS :: int
  CONFIG_IPMIPOLLER_FORKS :: int
  CONFIG_JAVAPOLLER_FORKS :: int

definition c_item :: "dc_config \<Rightarrow> u64 \<Rightarrow> dc_item" where
  "c_item cfg iid = the (c_items cfg iid)"

definition set_item :: "u64 \<Rightarrow> (dc_item \<Rightarrow> dc_item) \<Rightarrow> dc_config \<Rightarrow> dc_config" where
  "set_item iid f cfg = cfg\<lparr>c_items := (c_items cfg)(iid \<mapsto> f (c_item cfg iid))\<rparr>"

definition set_queue :: "u8 \<Rightarrow> u64 binary_heap \<Rightarrow> dc_config \<Rightarrow> dc_config" where
  "set_queue p q cfg = cfg\<lparr>c_queues := (c_queues cfg)(p := q)\<rparr>"

subsection \<open>Poller types\<close>

fun key_id_end :: "string \<Rightarrow> bool" where
  "key_id_end [] = True"
| "key_id_end (c # s) = (c = CHR ''['' \<or> c = CHR '','')"

fun cmp_key_id :: "string \<Rightarrow> string \<Rightarrow> zres" where
  "cmp_key_id (p # ps) (q # qs) =
    (if p = q \<and> q \<noteq> CHR ''['' \<and> q \<noteq> CHR '','' then cmp_key_id ps qs
     else if key_id_end (p # ps) \<and> key_id_end (q # qs) then Succeed else Fail)"
| "cmp_key_id ps qs = (if key_id_end ps \<and> key_id_end qs then Succeed else Fail)"

definition poller_by_item :: "env \<Rightarrow> u64 \<Rightarrow> item_type \<Rightarrow> string \<Rightarrow> u8 \<Rightarrow> u8" where
  "poller_by_item env proxy_hostid type key flags =
    (let normal = (if CONFIG_POLLER_FORKS env = 0 then ZBX_NO_POLLER else ZBX_POLLER_TYPE_NORMAL)
     in if proxy_hostid \<noteq> 0 \<and> type \<noteq> ITEM_TYPE_AGGREGATE \<and> type \<noteq> ITEM_TYPE_CALCULATED then ZBX_NO_POLLER
        else if ZBX_FLAG_DISCOVERY_PROTOTYPE AND flags \<noteq> 0 then ZBX_NO_POLLER
        else case type of
          ITEM_TYPE_SIMPLE \<Rightarrow>
            if cmp_key_id key ''icmpping'' = Succeed \<or> cmp_key_id key ''icmppingsec'' = Succeed \<or>
              cmp_key_id key ''icmppingloss'' = Succeed
            then (if CONFIG_PINGER_FORKS env = 0 then ZBX_NO_POLLER else ZBX_POLLER_TYPE_PINGER)
            else normal
        | ITEM_TYPE_ZABBIX \<Rightarrow> normal
        | ITEM_TYPE_SNMPv1 \<Rightarrow> normal
        | ITEM_TYPE_SNMPv2c \<Rightarrow> normal
        | ITEM_TYPE_SNMPv3 \<Rightarrow> normal
        | ITEM_TYPE_INTERNAL \<Rightarrow> normal
        | ITEM_TYPE_AGGREGATE \<Rightarrow> normal
        | ITEM_TYPE_EXTERNAL \<Rightarrow> normal
        | ITEM_TYPE_DB_MONITOR \<Rightarrow> normal
        | ITEM_TYPE_SSH \<Rightarrow> normal
        | ITEM_TYPE_TELNET \<Rightarrow> normal
        | ITEM_TYPE_CALCULATED \<Rightarrow> normal
        | ITEM_TYPE_IPMI \<Rightarrow> if CONFIG_IPMIPOLLER_FORKS env = 0 then ZBX_NO_POLLER else ZBX_POLLER_TYPE_IPMI
        | ITEM_TYPE_JMX \<Rightarrow> if CONFIG_JAVAPOLLER_FORKS env = 0 then ZBX_NO_POLLER else ZBX_POLLER_TYPE_JAVA
        | _ \<Rightarrow> ZBX_NO_POLLER)"

subsection \<open>Next checks\<close>

definition DCget_reachable_nextcheck :: "env \<Rightarrow> dc_config \<Rightarrow> dc_item \<Rightarrow> int \<Rightarrow> int option" where
  "DCget_reachable_nextcheck env cfg it now =
    map_option fst
      (if i_state it = ITEM_STATE_NOTSUPPORTED then
         calculate_item_nextcheck (e_localtime env) (e_clock env) (i_interfaceid it) (i_itemid it)
           (i_type it = ITEM_TYPE_ZABBIX_ACTIVE) (i_type it = ITEM_TYPE_JMX) (c_refresh_unsupported cfg) None now
       else
         calculate_item_nextcheck (e_localtime env) (e_clock env) (i_interfaceid it) (i_itemid it)
           (i_type it = ITEM_TYPE_ZABBIX_ACTIVE) (i_type it = ITEM_TYPE_JMX) (i_delay it)
           (c_flexitems cfg (i_itemid it)) now)"

definition DCget_unreachable_nextcheck :: "env \<Rightarrow> dc_config \<Rightarrow> dc_item \<Rightarrow> dc_host \<Rightarrow> int option" where
  "DCget_unreachable_nextcheck env cfg it h =
    (let reachable = DCget_reachable_nextcheck env cfg it (e_clock env);
         snmp = (if h_snmp_errors_from h \<noteq> 0 then Some (h_snmp_disable_until h) else reachable)
     in case i_type it of
          ITEM_TYPE_ZABBIX \<Rightarrow> if h_errors_from h \<noteq> 0 then Some (h_disable_until h) else reachable
        | ITEM_TYPE_SNMPv1 \<Rightarrow> snmp
        | ITEM_TYPE_SNMPv2c \<Rightarrow> snmp
        | ITEM_TYPE_SNMPv3 \<Rightarrow> snmp
        | ITEM_TYPE_IPMI \<Rightarrow> if h_ipmi_errors_from h \<noteq> 0 then Some (h_ipmi_disable_until h) else reachable
        | ITEM_TYPE_JMX \<Rightarrow> if h_jmx_errors_from h \<noteq> 0 then Some (h_jmx_disable_until h) else reachable
        | _ \<Rightarrow> reachable)"

subsection \<open>The queues\<close>

definition config_nextcheck_compare :: "dc_config \<Rightarrow> u64 heap_elem \<Rightarrow> u64 heap_elem \<Rightarrow> int" where
  "config_nextcheck_compare cfg e1 e2 =
    (let i1 = c_item cfg (he_data e1); i2 = c_item cfg (he_data e2)
     in if i_nextcheck i1 < i_nextcheck i2 then - 1
        else if i_nextcheck i1 > i_nextcheck i2 then 1
        else 0)"

text \<open>Every JMX item has an entry in \<^verbatim>\<open>jmxitems\<close>, where \<^verbatim>\<open>DCsync_items\<close> puts it.\<close>

definition config_java_item_compare :: "dc_config \<Rightarrow> u64 \<Rightarrow> u64 \<Rightarrow> int" where
  "config_java_item_compare cfg id1 id2 =
    (let i1 = c_item cfg id1; i2 = c_item cfg id2;
         j1 = the (c_jmxitems cfg id1); j2 = the (c_jmxitems cfg id2)
     in if i_nextcheck i1 < i_nextcheck i2 then - 1
        else if i_nextcheck i1 > i_nextcheck i2 then 1
        else if i_interfaceid i1 < i_interfaceid i2 then - 1
        else if i_interfaceid i1 > i_interfaceid i2 then 1
        else if fst j1 < fst j2 then - 1
        else if fst j1 > fst j2 then 1
        else if snd j1 < snd j2 then - 1
        else if snd j1 > snd j2 then 1
        else 0)"

definition config_java_elem_compare :: "dc_config \<Rightarrow> u64 heap_elem \<Rightarrow> u64 heap_elem \<Rightarrow> int" where
  "config_java_elem_compare cfg e1 e2 = config_java_item_compare cfg (he_data e1) (he_data e2)"

text \<open>A queue as the heap functions see it: with the comparison function that reads the present items.\<close>

definition queue_compare :: "dc_config \<Rightarrow> u8 \<Rightarrow> u64 heap_elem \<Rightarrow> u64 heap_elem \<Rightarrow> int" where
  "queue_compare cfg p =
    (if p = ZBX_POLLER_TYPE_JAVA then config_java_elem_compare cfg else config_nextcheck_compare cfg)"

definition queue :: "dc_config \<Rightarrow> u8 \<Rightarrow> u64 binary_heap" where
  "queue cfg p = (c_queues cfg p)\<lparr>hp_compare_func := queue_compare cfg p\<rparr>"

definition put_queue :: "u8 \<Rightarrow> dc_config \<Rightarrow> fatal + u64 binary_heap \<Rightarrow> fatal + dc_config" where
  "put_queue p cfg r = (case r of Inl err \<Rightarrow> Inl err | Inr q \<Rightarrow> Inr (set_queue p q cfg))"

definition DCupdate_item_queue :: "dc_config \<Rightarrow> u64 \<Rightarrow> u8 \<Rightarrow> int \<Rightarrow> fatal + dc_config" where
  "DCupdate_item_queue cfg iid old_poller_type old_nextcheck =
    (if i_location (c_item cfg iid) = ZBX_LOC_POLLER then Inr cfg
     else
       (case
          (if i_location (c_item cfg iid) = ZBX_LOC_QUEUE \<and> old_poller_type \<noteq> i_poller_type (c_item cfg iid) then
             (let cfg1 = set_item iid (\<lambda>it. it\<lparr>i_location := ZBX_LOC_NOWHERE\<rparr>) cfg
              in put_queue old_poller_type cfg1 (zbx_binary_heap_remove_direct (queue cfg1 old_poller_type) iid))
           else Inr cfg) of
          Inl err \<Rightarrow> Inl err
        | Inr cfg \<Rightarrow>
            (let it = c_item cfg iid; p = i_poller_type it; elem = \<lparr>he_key = iid, he_data = iid\<rparr>
             in if p \<ge> ZBX_POLLER_TYPE_COUNT then Inr cfg
                else if i_location it = ZBX_LOC_QUEUE \<and> old_nextcheck = i_nextcheck it then Inr cfg
                else if i_location it \<noteq> ZBX_LOC_QUEUE then
                  (let cfg2 = set_item iid (\<lambda>it. it\<lparr>i_location := ZBX_LOC_QUEUE\<rparr>) cfg
                   in put_queue p cfg2 (zbx_binary_heap_insert (queue cfg2 p) elem))
                else put_queue p cfg (zbx_binary_heap_update_direct (queue cfg p) elem))))"

definition DCconfig_get_poller_nextcheck :: "dc_config \<Rightarrow> u8 \<Rightarrow> fatal + int" where
  "DCconfig_get_poller_nextcheck cfg p =
    (if zbx_binary_heap_empty (queue cfg p) = Fail then
       (case zbx_binary_heap_find_min (queue cfg p) of
          Inl err \<Rightarrow> Inl err
        | Inr m \<Rightarrow> Inr (i_nextcheck (c_item cfg (he_data m))))
     else Inr FAIL)"

subsection \<open>Taking items out of a queue\<close>

text \<open>
  The four places where \<^verbatim>\<open>DCconfig_get_poller_items\<close> puts an item back: its poller type and next check
  are set and the queue is updated with the old ones. \<open>None\<close> is a next check that is never found.
\<close>

definition poll_requeue :: "dc_config \<Rightarrow> u64 \<Rightarrow> u8 \<Rightarrow> int option \<Rightarrow> (fatal + dc_config) option" where
  "poll_requeue cfg iid poller_type nextcheck =
    (case nextcheck of
       None \<Rightarrow> None
     | Some n \<Rightarrow>
         Some (DCupdate_item_queue (set_item iid (\<lambda>it. it\<lparr>i_poller_type := poller_type, i_nextcheck := n\<rparr>) cfg)
           iid (i_poller_type (c_item cfg iid)) (i_nextcheck (c_item cfg iid))))"

text \<open>
  What happens to the item \<open>iid\<close> that was taken from the queue: it is dropped, put back, or, in which
  case its host is returned, given to the poller.
\<close>

definition poll_dispatch ::
  "env \<Rightarrow> dc_config \<Rightarrow> u8 \<Rightarrow> int \<Rightarrow> u64 \<Rightarrow> (fatal + dc_config \<times> dc_host option) option" where
  "poll_dispatch env cfg p now iid =
    (let it = c_item cfg iid;
         back = (\<lambda>r. map_option (\<lambda>s. case s of Inl err \<Rightarrow> Inl err | Inr cfg \<Rightarrow> Inr (cfg, None)) r)
     in if c_refresh_unsupported cfg = 0 \<and> i_state it = ITEM_STATE_NOTSUPPORTED then Some (Inr (cfg, None))
        else case c_hosts cfg (i_hostid it) of
          None \<Rightarrow> Some (Inr (cfg, None))
        | Some h \<Rightarrow>
            (let disable_until = DCget_disable_until (i_type it) h
             in if h_maintenance_status h = HOST_MAINTENANCE_STATUS_ON \<and>
                  h_maintenance_type h = MAINTENANCE_TYPE_NODATA then
                  back (poll_requeue cfg iid (i_poller_type it) (DCget_reachable_nextcheck env cfg it now))
                else if disable_until = 0 \<and> p = ZBX_POLLER_TYPE_UNREACHABLE then
                  (let it1 = it\<lparr>i_poller_type := poller_by_item env (h_proxy_hostid h) (i_type it) (i_key it) (i_flags it)\<rparr>
                   in back (poll_requeue cfg iid (i_poller_type it1) (DCget_reachable_nextcheck env cfg it1 now)))
                else if disable_until \<noteq> 0 \<and>
                  (p = ZBX_POLLER_TYPE_NORMAL \<or> p = ZBX_POLLER_TYPE_IPMI \<or> p = ZBX_POLLER_TYPE_JAVA) then
                  back (poll_requeue cfg iid ZBX_POLLER_TYPE_UNREACHABLE
                    (if disable_until > now then DCget_unreachable_nextcheck env cfg it h else Some (i_nextcheck it)))
                else if disable_until \<noteq> 0 \<and> disable_until > now then
                  back (poll_requeue cfg iid (i_poller_type it) (DCget_unreachable_nextcheck env cfg it h))
                else
                  (let h' = (if disable_until \<noteq> 0 then DCincrease_disable_until (e_avail env) (i_type it) h now else h);
                       cfg1 = set_item iid (\<lambda>it. it\<lparr>i_location := ZBX_LOC_POLLER\<rparr>)
                         (cfg\<lparr>c_hosts := (c_hosts cfg)(i_hostid it \<mapsto> h')\<rparr>)
                   in Some (Inr (cfg1, Some h')))))"

text \<open>
  The loop. \<open>taken\<close> is the array \<^verbatim>\<open>items\<close>: copies of the hosts and items given to the poller; the last
  one is \<^verbatim>\<open>dc_item_prev\<close>.
\<close>

partial_function (option) poll_loop ::
  "env \<Rightarrow> u8 \<Rightarrow> int \<Rightarrow> nat \<Rightarrow> dc_config \<Rightarrow> (dc_host \<times> dc_item) list \<Rightarrow>
   (fatal + dc_config \<times> (dc_host \<times> dc_item) list) option" where
  "poll_loop env p now max_items cfg taken =
    (if length taken < max_items \<and> zbx_binary_heap_empty (queue cfg p) = Fail then
       (case zbx_binary_heap_find_min (queue cfg p) of
          Inl err \<Rightarrow> Some (Inl err)
        | Inr m \<Rightarrow>
            (if i_nextcheck (c_item cfg (he_data m)) > now then Some (Inr (cfg, taken))
             else if p = ZBX_POLLER_TYPE_JAVA \<and> taken \<noteq> [] \<and>
               config_java_item_compare cfg (i_itemid (snd (last taken))) (he_data m) \<noteq> 0
             then Some (Inr (cfg, taken))
             else
               (case zbx_binary_heap_remove_min (queue cfg p) of
                  Inl err \<Rightarrow> Some (Inl err)
                | Inr q \<Rightarrow>
                    (case poll_dispatch env
                       (set_item (he_data m) (\<lambda>it. it\<lparr>i_location := ZBX_LOC_NOWHERE\<rparr>) (set_queue p q cfg))
                       p now (he_data m) of
                       None \<Rightarrow> None
                     | Some (Inl err) \<Rightarrow> Some (Inl err)
                     | Some (Inr (cfg', None)) \<Rightarrow> poll_loop env p now max_items cfg' taken
                     | Some (Inr (cfg', Some h)) \<Rightarrow>
                         poll_loop env p now max_items cfg' (taken @ [(h, c_item cfg' (he_data m))])))))
     else Some (Inr (cfg, taken)))"

definition DCconfig_get_poller_items ::
  "env \<Rightarrow> u8 \<Rightarrow> nat \<Rightarrow> dc_config \<Rightarrow> (fatal + dc_config \<times> (dc_host \<times> dc_item) list) option" where
  "DCconfig_get_poller_items env p max_items cfg = poll_loop env p (e_clock env) max_items cfg []"

subsection \<open>Giving items back\<close>

definition DCrequeue_reachable_item ::
  "env \<Rightarrow> dc_config \<Rightarrow> u64 \<Rightarrow> int \<Rightarrow> (fatal + dc_config) option" where
  "DCrequeue_reachable_item env cfg iid lastclock =
    (case DCget_reachable_nextcheck env cfg (c_item cfg iid) lastclock of
       None \<Rightarrow> None
     | Some n \<Rightarrow>
         (let cfg1 = set_item iid (\<lambda>it. it\<lparr>i_nextcheck := n\<rparr>) cfg
          in if i_poller_type (c_item cfg1 iid) = ZBX_NO_POLLER then Some (Inr cfg1)
             else
               (let cfg2 = (if i_location (c_item cfg1 iid) = ZBX_LOC_POLLER
                      then set_item iid (\<lambda>it. it\<lparr>i_location := ZBX_LOC_NOWHERE\<rparr>) cfg1 else cfg1);
                    it = c_item cfg2 iid;
                    old_poller_type = i_poller_type it;
                    old_nextcheck = i_nextcheck it
                in if i_poller_type it = ZBX_POLLER_TYPE_UNREACHABLE then
                     (case c_hosts cfg2 (i_hostid it) of
                        None \<Rightarrow> Some (Inr cfg2)
                      | Some h \<Rightarrow>
                          Some (DCupdate_item_queue
                            (set_item iid (\<lambda>it. it\<lparr>i_poller_type :=
                               poller_by_item env (h_proxy_hostid h) (i_type it) (i_key it) (i_flags it)\<rparr>) cfg2)
                            iid old_poller_type old_nextcheck))
                   else Some (DCupdate_item_queue cfg2 iid old_poller_type old_nextcheck))))"

definition DCrequeue_unreachable_item :: "env \<Rightarrow> dc_config \<Rightarrow> u64 \<Rightarrow> (fatal + dc_config) option" where
  "DCrequeue_unreachable_item env cfg iid =
    (case c_hosts cfg (i_hostid (c_item cfg iid)) of
       None \<Rightarrow> Some (Inr cfg)
     | Some h \<Rightarrow>
         (case DCget_unreachable_nextcheck env cfg (c_item cfg iid) h of
            None \<Rightarrow> None
          | Some n \<Rightarrow>
              (let cfg1 = set_item iid (\<lambda>it. it\<lparr>i_nextcheck := n\<rparr>) cfg
               in if i_poller_type (c_item cfg1 iid) = ZBX_NO_POLLER then Some (Inr cfg1)
                  else
                    (let cfg2 = (if i_location (c_item cfg1 iid) = ZBX_LOC_POLLER
                           then set_item iid (\<lambda>it. it\<lparr>i_location := ZBX_LOC_NOWHERE\<rparr>) cfg1 else cfg1);
                         it = c_item cfg2 iid;
                         cfg3 = (if i_poller_type it = ZBX_POLLER_TYPE_NORMAL \<or> i_poller_type it = ZBX_POLLER_TYPE_IPMI \<or>
                             i_poller_type it = ZBX_POLLER_TYPE_JAVA
                           then set_item iid (\<lambda>it. it\<lparr>i_poller_type := ZBX_POLLER_TYPE_UNREACHABLE\<rparr>) cfg2 else cfg2)
                     in Some (DCupdate_item_queue cfg3 iid (i_poller_type it) (i_nextcheck it))))))"

text \<open>One entry of the arrays given to \<^verbatim>\<open>DCrequeue_items\<close>; the optional ones may be NULL.\<close>

record requeued =
  rq_itemid :: u64
  rq_state :: u8
  rq_lastclock :: int
  rq_lastlogsize :: "u64 option"
  rq_mtime :: "int option"
  rq_errcode :: int

definition NOTSUPPORTED :: int where "NOTSUPPORTED = - 2"
definition NETWORK_ERROR :: int where "NETWORK_ERROR = - 3"
definition AGENT_ERROR :: int where "AGENT_ERROR = - 5"
definition GATEWAY_ERROR :: int where "GATEWAY_ERROR = - 6"

definition store_check :: "requeued \<Rightarrow> dc_item \<Rightarrow> dc_item" where
  "store_check r it = it\<lparr>i_state := rq_state r, i_lastclock := rq_lastclock r,
     i_lastlogsize := (case rq_lastlogsize r of None \<Rightarrow> i_lastlogsize it | Some l \<Rightarrow> l),
     i_mtime := (case rq_mtime r of None \<Rightarrow> i_mtime it | Some m \<Rightarrow> m)\<rparr>"

definition DCrequeue_item :: "env \<Rightarrow> dc_config \<Rightarrow> requeued \<Rightarrow> (fatal + dc_config) option" where
  "DCrequeue_item env cfg r =
    (if rq_errcode r = FAIL then Some (Inr cfg)
     else case c_items cfg (rq_itemid r) of
       None \<Rightarrow> Some (Inr cfg)
     | Some _ \<Rightarrow>
         (let cfg1 = set_item (rq_itemid r) (store_check r) cfg
          in if rq_errcode r = 0 \<or> rq_errcode r = NOTSUPPORTED \<or> rq_errcode r = AGENT_ERROR then
               DCrequeue_reachable_item env cfg1 (rq_itemid r) (rq_lastclock r)
             else if rq_errcode r = NETWORK_ERROR \<or> rq_errcode r = GATEWAY_ERROR then
               DCrequeue_unreachable_item env cfg1 (rq_itemid r)
             else Some (Inr cfg1)))"

fun DCrequeue_items :: "env \<Rightarrow> dc_config \<Rightarrow> requeued list \<Rightarrow> (fatal + dc_config) option" where
  "DCrequeue_items env cfg [] = Some (Inr cfg)"
| "DCrequeue_items env cfg (r # rs) =
    (case DCrequeue_item env cfg r of
       Some (Inr cfg1) \<Rightarrow> DCrequeue_items env cfg1 rs
     | other \<Rightarrow> other)"

subsection \<open>The comparison functions\<close>

lemma c_item_set_item [simp]:
  "c_item (set_item i f cfg) j = (if j = i then f (c_item cfg i) else c_item cfg j)"
  by (simp add: c_item_def set_item_def)

lemma set_item_simps [simp]:
  "c_queues (set_item i f cfg) = c_queues cfg" "c_jmxitems (set_item i f cfg) = c_jmxitems cfg"
  "c_hosts (set_item i f cfg) = c_hosts cfg" "c_flexitems (set_item i f cfg) = c_flexitems cfg"
  "c_refresh_unsupported (set_item i f cfg) = c_refresh_unsupported cfg"
  "c_items (set_item i f cfg) = (c_items cfg)(i \<mapsto> f (c_item cfg i))"
  by (simp_all add: set_item_def)

lemma set_queue_simps [simp]:
  "c_queues (set_queue p q cfg) = (c_queues cfg)(p := q)" "c_jmxitems (set_queue p q cfg) = c_jmxitems cfg"
  "c_hosts (set_queue p q cfg) = c_hosts cfg" "c_flexitems (set_queue p q cfg) = c_flexitems cfg"
  "c_refresh_unsupported (set_queue p q cfg) = c_refresh_unsupported cfg"
  "c_items (set_queue p q cfg) = c_items cfg" "c_item (set_queue p q cfg) i = c_item cfg i"
  by (simp_all add: set_queue_def c_item_def)

lemma set_hosts_item [simp]: "c_item (cfg\<lparr>c_hosts := hs\<rparr>) i = c_item cfg i"
  by (simp add: c_item_def)

lemma nextcheck_compare_le:
  "config_nextcheck_compare cfg a b \<le> 0 \<longleftrightarrow>
    i_nextcheck (c_item cfg (he_data a)) \<le> i_nextcheck (c_item cfg (he_data b))"
  by (simp add: config_nextcheck_compare_def Let_def)

definition java_rank :: "dc_config \<Rightarrow> u64 \<Rightarrow> int \<times> u64 \<times> u64 \<times> u64" where
  "java_rank cfg i = (i_nextcheck (c_item cfg i), i_interfaceid (c_item cfg i), the (c_jmxitems cfg i))"

fun rank_le :: "int \<times> u64 \<times> u64 \<times> u64 \<Rightarrow> int \<times> u64 \<times> u64 \<times> u64 \<Rightarrow> bool" where
  "rank_le (n, i, u, w) (n', i', u', w') \<longleftrightarrow>
    n < n' \<or> n = n' \<and> (i < i' \<or> i = i' \<and> (u < u' \<or> u = u' \<and> w \<le> w'))"

lemma java_compare_le:
  "config_java_elem_compare cfg a b \<le> 0 \<longleftrightarrow> rank_le (java_rank cfg (he_data a)) (java_rank cfg (he_data b))"
  by (cases "the (c_jmxitems cfg (he_data a))"; cases "the (c_jmxitems cfg (he_data b))")
    (auto simp: config_java_elem_compare_def config_java_item_compare_def java_rank_def Let_def)

lemma rank_le_order: "rank_le x y \<Longrightarrow> rank_le y z \<Longrightarrow> rank_le x z" "rank_le x y \<or> rank_le y x"
  by (cases x; cases y; cases z; auto)+

lemma rank_le_nextcheck: "rank_le (java_rank cfg i) (java_rank cfg j) \<Longrightarrow>
    i_nextcheck (c_item cfg i) \<le> i_nextcheck (c_item cfg j)"
  by (cases "the (c_jmxitems cfg i)"; cases "the (c_jmxitems cfg j)") (auto simp: java_rank_def)

lemma queue_compare_le:
  "queue_compare cfg p a b \<le> 0 \<longleftrightarrow>
    (if p = ZBX_POLLER_TYPE_JAVA then rank_le (java_rank cfg (he_data a)) (java_rank cfg (he_data b))
     else i_nextcheck (c_item cfg (he_data a)) \<le> i_nextcheck (c_item cfg (he_data b)))"
  by (simp add: queue_compare_def java_compare_le nextcheck_compare_le)

text \<open>The queues' comparison functions keep the contract of the heap.\<close>

interpretation poller_queue: heap_compare "queue_compare cfg p" for cfg p
proof
  fix a b c
  show "queue_compare cfg p a b \<le> 0 \<Longrightarrow> queue_compare cfg p b c \<le> 0 \<Longrightarrow> queue_compare cfg p a c \<le> 0"
    by (auto simp: queue_compare_le intro: rank_le_order(1) split: if_splits)
  show "queue_compare cfg p b a \<le> 0" if "0 < queue_compare cfg p a b"
  proof -
    from that have "\<not> queue_compare cfg p a b \<le> 0" by simp
    then show ?thesis
      using rank_le_order(2) [of "java_rank cfg (he_data a)" "java_rank cfg (he_data b)"]
      by (auto simp: queue_compare_le split: if_splits)
  qed
qed

lemma queue_min_nextcheck:
  "queue_compare cfg p a b \<le> 0 \<Longrightarrow> i_nextcheck (c_item cfg (he_data a)) \<le> i_nextcheck (c_item cfg (he_data b))"
  by (auto simp: queue_compare_le dest: rank_le_nextcheck split: if_splits)

lemma queue_simps [simp]:
  "hp_elems (queue cfg p) = hp_elems (c_queues cfg p)" "hp_compare_func (queue cfg p) = queue_compare cfg p"
  "hp_elems_alloc (queue cfg p) = hp_elems_alloc (c_queues cfg p)"
  "HAS_DIRECT_OPTION (queue cfg p) = HAS_DIRECT_OPTION (c_queues cfg p)"
  "hp_indexed X (queue cfg p) = hp_indexed X (c_queues cfg p)"
  by (simp_all add: queue_def HAS_DIRECT_OPTION_def hp_indexed_def)

lemma queue_set_queue:
  assumes "hp_compare_func q = queue_compare cfg p"
  shows "queue (set_queue p q cfg) p = q"
proof -
  have "queue_compare (set_queue p q cfg) p = queue_compare cfg p"
    by (simp add: queue_compare_def config_java_elem_compare_def config_java_item_compare_def
        config_nextcheck_compare_def fun_eq_iff)
  with assms show ?thesis by (simp add: queue_def)
qed

lemma queue_compare_cong:
  assumes "c_jmxitems cfg' = c_jmxitems cfg"
    and "\<And>e. e \<in> {a, b} \<Longrightarrow> i_nextcheck (c_item cfg' (he_data e)) = i_nextcheck (c_item cfg (he_data e)) \<and>
      i_interfaceid (c_item cfg' (he_data e)) = i_interfaceid (c_item cfg (he_data e))"
  shows "queue_compare cfg' p a b = queue_compare cfg p a b"
  using assms
  by (simp add: queue_compare_def config_java_elem_compare_def config_java_item_compare_def
      config_nextcheck_compare_def Let_def)

subsection \<open>The invariant of the queues\<close>

definition queue_keys :: "dc_config \<Rightarrow> u8 \<Rightarrow> u64 set" where
  "queue_keys cfg p = he_key ` set (hp_elems (c_queues cfg p))"

text \<open>A queue is a direct heap in order under the present next checks, each element pointing to its key's item.\<close>

definition queue_ok :: "dc_config \<Rightarrow> u8 \<Rightarrow> bool" where
  "queue_ok cfg p \<longleftrightarrow> hp_inv (queue cfg p) \<and> HAS_DIRECT_OPTION (c_queues cfg p) \<and>
    (\<forall>e \<in> set (hp_elems (c_queues cfg p)). he_data e = he_key e)"

text \<open>Exactly the items located in a queue are in one, and that is the queue of their poller type.\<close>

definition queues_inv :: "dc_config \<Rightarrow> bool" where
  "queues_inv cfg \<longleftrightarrow>
    (\<forall>p < ZBX_POLLER_TYPE_COUNT. queue_ok cfg p \<and> queue_keys cfg p =
      {iid. \<exists>it. c_items cfg iid = Some it \<and> i_location it = ZBX_LOC_QUEUE \<and> i_poller_type it = p}) \<and>
    (\<forall>iid it. c_items cfg iid = Some it \<longrightarrow> i_itemid it = iid \<and>
      (i_location it = ZBX_LOC_QUEUE \<longrightarrow> i_poller_type it < ZBX_POLLER_TYPE_COUNT))"

lemma queue_ok_frame:
  assumes "queue_ok cfg p" "c_queues cfg' p = c_queues cfg p" "c_jmxitems cfg' = c_jmxitems cfg"
    and "\<And>i. i \<in> queue_keys cfg p \<Longrightarrow> i_nextcheck (c_item cfg' i) = i_nextcheck (c_item cfg i) \<and>
      i_interfaceid (c_item cfg' i) = i_interfaceid (c_item cfg i)"
  shows "queue_ok cfg' p"
proof -
  let ?es = "hp_elems (c_queues cfg p)"
  have k: "he_data e \<in> queue_keys cfg p" if "e \<in> set ?es" for e
    using assms(1) that by (simp add: queue_ok_def queue_keys_def)
  have "queue_compare cfg' p a b = queue_compare cfg p a b" if "a \<in> set ?es" "b \<in> set ?es" for a b
    using k that assms(4) by (intro queue_compare_cong [OF assms(3)]) auto
  then have "heap_ordered (queue_compare cfg' p) ?es = heap_ordered (queue_compare cfg p) ?es"
    by (simp add: heap_ordered_def)
  with assms(1,2) show ?thesis by (simp add: queue_ok_def hp_inv_def)
qed

lemma queues_invD:
  assumes "queues_inv cfg" "p < ZBX_POLLER_TYPE_COUNT"
  shows "hp_inv (queue cfg p)" "HAS_DIRECT_OPTION (c_queues cfg p)"
    "e \<in> set (hp_elems (c_queues cfg p)) \<Longrightarrow> he_data e = he_key e"
    "iid \<in> queue_keys cfg p \<longleftrightarrow>
      (\<exists>it. c_items cfg iid = Some it \<and> i_location it = ZBX_LOC_QUEUE \<and> i_poller_type it = p)"
  using assms by (auto simp: queues_inv_def queue_ok_def)

lemma queues_inv_hosts: "queues_inv (cfg\<lparr>c_hosts := hs\<rparr>) \<longleftrightarrow> queues_inv cfg"
proof -
  have "queue_compare (cfg\<lparr>c_hosts := hs\<rparr>) p = queue_compare cfg p" for p
    by (intro ext queue_compare_cong) simp_all
  then have "queue (cfg\<lparr>c_hosts := hs\<rparr>) p = queue cfg p" for p by (simp add: queue_def)
  then show ?thesis by (simp add: queues_inv_def queue_ok_def queue_keys_def)
qed

text \<open>An item that is in no queue, or whose rank and place stay, may change.\<close>

lemma queues_inv_set_item:
  assumes "queues_inv cfg" "c_items cfg iid = Some it" "i_itemid (f it) = i_itemid it"
    and "i_location it \<noteq> ZBX_LOC_QUEUE \<and> i_location (f it) \<noteq> ZBX_LOC_QUEUE \<or>
      i_location (f it) = i_location it \<and> i_poller_type (f it) = i_poller_type it \<and>
      i_nextcheck (f it) = i_nextcheck it \<and> i_interfaceid (f it) = i_interfaceid it"
  shows "queues_inv (set_item iid f cfg)"
proof -
  have it: "c_item cfg iid = it" using assms(2) by (simp add: c_item_def)
  have "queue_ok (set_item iid f cfg) p" if p: "p < ZBX_POLLER_TYPE_COUNT" for p
  proof (rule queue_ok_frame [of cfg])
    fix i assume "i \<in> queue_keys cfg p"
    with queues_invD(4) [OF assms(1) p] have "i = iid \<Longrightarrow> i_location it = ZBX_LOC_QUEUE" using assms(2) by auto
    with assms(4) show "i_nextcheck (c_item (set_item iid f cfg) i) = i_nextcheck (c_item cfg i) \<and>
        i_interfaceid (c_item (set_item iid f cfg) i) = i_interfaceid (c_item cfg i)" by (auto simp: it)
  qed (use assms(1) p in \<open>simp_all add: queues_inv_def\<close>)
  moreover have "queue_keys (set_item iid f cfg) p = queue_keys cfg p" for p by (simp add: queue_keys_def)
  ultimately show ?thesis
    using assms unfolding queues_inv_def it by (auto simp: it)
qed

text \<open>Where an item is located is not compared.\<close>

lemma queue_compare_location [simp]:
  "queue_compare (set_item iid (i_location_update f) cfg) p = queue_compare cfg p"
  "queue_compare (set_queue p' q cfg) p = queue_compare cfg p"
  by (intro ext queue_compare_cong; simp)+

lemma mset_set: "mset xs = add_mset x (mset ys) \<Longrightarrow> set xs = insert x (set ys)"
  by (metis set_mset_add_mset_insert set_mset_mset)

text \<open>An item enters the queue of its poller type or leaves it.\<close>

lemma queues_inv_move:
  assumes inv: "queues_inv cfg" and it: "c_items cfg iid = Some it" "i_poller_type it = p"
    and p: "p < ZBX_POLLER_TYPE_COUNT"
    and q: "hp_inv q" "hp_compare_func q = queue_compare cfg p" "HAS_DIRECT_OPTION q"
      "\<And>e. e \<in> set (hp_elems q) \<Longrightarrow> he_data e = he_key e"
    and keys: "he_key ` set (hp_elems q) =
      (if l = ZBX_LOC_QUEUE then insert iid (queue_keys cfg p) else queue_keys cfg p - {iid})"
  shows "queues_inv (set_item iid (\<lambda>it. it\<lparr>i_location := l\<rparr>) (set_queue p q cfg))"
proof -
  let ?cfg = "set_item iid (\<lambda>it. it\<lparr>i_location := l\<rparr>) (set_queue p q cfg)"
  have c: "c_item cfg iid = it" using it by (simp add: c_item_def)
  have "queue ?cfg p = q" using q(2) by (simp add: queue_def)
  then have "queue_ok ?cfg p" using q by (simp add: queue_ok_def)
  moreover have "queue_ok ?cfg p'" if "p' < ZBX_POLLER_TYPE_COUNT" "p' \<noteq> p" for p'
    by (rule queue_ok_frame [of cfg]) (use inv that in \<open>simp_all add: queues_inv_def\<close>)
  moreover have "queue_keys ?cfg p' = (if p' = p then he_key ` set (hp_elems q) else queue_keys cfg p')" for p'
    by (simp add: queue_keys_def)
  ultimately show ?thesis
    using inv it p keys unfolding queues_inv_def by (auto simp: c)
qed

lemma take_min:
  assumes inv: "queues_inv cfg" and p: "p < ZBX_POLLER_TYPE_COUNT" and ne: "hp_elems (c_queues cfg p) \<noteq> []"
  obtains m q it where "zbx_binary_heap_find_min (queue cfg p) = Inr m"
    "zbx_binary_heap_remove_min (queue cfg p) = Inr q" "c_items cfg (he_data m) = Some it"
    "i_location it = ZBX_LOC_QUEUE" "i_poller_type it = p"
    "\<And>iid it'. c_items cfg iid = Some it' \<Longrightarrow> i_location it' = ZBX_LOC_QUEUE \<Longrightarrow> i_poller_type it' = p \<Longrightarrow>
      i_nextcheck it \<le> i_nextcheck it'"
    "queues_inv (set_item (he_data m) (\<lambda>it. it\<lparr>i_location := ZBX_LOC_NOWHERE\<rparr>) (set_queue p q cfg))"
proof -
  let ?es = "hp_elems (c_queues cfg p)"
  define m where "m = ?es ! 0"
  note hp = queues_invD(1,2) [OF inv p]
  note data = queues_invD(3) [OF inv p]
  have m: "m \<in> set ?es" "he_data m = he_key m" using ne data by (simp_all add: m_def)
  then have "he_data m \<in> queue_keys cfg p" by (auto simp: queue_keys_def)
  with queues_invD(4) [OF inv p] obtain it where
    it: "c_items cfg (he_data m) = Some it" "i_location it = ZBX_LOC_QUEUE" "i_poller_type it = p" by blast
  have min: "zbx_binary_heap_find_min (queue cfg p) = Inr m" "\<And>e. e \<in> set ?es \<Longrightarrow> queue_compare cfg p m e \<le> 0"
    using heap_find_min_aux [of "queue cfg p"] hp ne by (simp_all add: poller_queue.heap_compare_axioms m_def)
  obtain q where q: "zbx_binary_heap_remove_min (queue cfg p) = Inr q" "hp_inv q"
      "add_mset m (mset (hp_elems q)) = mset ?es" "hp_compare_func q = queue_compare cfg p"
    using heap_remove_min_aux [of "queue cfg p"] hp ne by (auto simp: poller_queue.heap_compare_axioms m_def)
  have dir: "HAS_DIRECT_OPTION q"
    using HAS_DIRECT_cong [OF heap_op_options(3) [OF q(1)]] hp(2) by simp
  have es: "set ?es = insert m (set (hp_elems q))" by (rule mset_set) (simp add: q(3))
  have "distinct (map he_key ?es)" using hp by (simp add: hp_inv_def hp_indexed_def)
  moreover have "mset (map he_key ?es) = add_mset (he_key m) (mset (map he_key (hp_elems q)))"
    by (simp flip: q(3))
  ultimately have "he_key m \<notin> he_key ` set (hp_elems q)"
    by (metis distinct_keys_mset distinct.simps(2) image_set list.set_map mset.simps(2) mset_eq_imp_distinct_iff)
  then have keys: "he_key ` set (hp_elems q) = queue_keys cfg p - {he_data m}"
    using es m(2) by (auto simp: queue_keys_def)
  have le: "i_nextcheck it \<le> i_nextcheck it'"
    if "c_items cfg iid = Some it'" "i_location it' = ZBX_LOC_QUEUE" "i_poller_type it' = p" for iid it'
  proof -
    from that queues_invD(4) [OF inv p] obtain e where e: "e \<in> set ?es" "iid = he_key e"
      by (auto simp: queue_keys_def)
    with min(2) data have "i_nextcheck (c_item cfg (he_data m)) \<le> i_nextcheck (c_item cfg (he_data e))"
      by (intro queue_min_nextcheck)
    with e data that it show ?thesis by (simp add: c_item_def)
  qed
  have "queues_inv (set_item (he_data m) (\<lambda>it. it\<lparr>i_location := ZBX_LOC_NOWHERE\<rparr>) (set_queue p q cfg))"
    using es data keys
    by (intro queues_inv_move [OF inv it(1,3) p q(2,4) dir]) (simp_all add: ZBX_LOC_NOWHERE_def ZBX_LOC_QUEUE_def)
  from that [OF min(1) q(1) it _ this] le show thesis by blast
qed

lemma set_item_set_item [simp]: "set_item i f (set_item i g cfg) = set_item i (f \<circ> g) cfg"
  by (simp add: set_item_def c_item_def)

lemma set_item_set_queue: "set_item i f (set_queue p q cfg) = set_queue p q (set_item i f cfg)"
  by (simp add: set_item_def set_queue_def c_item_def)

text \<open>An item that is in no queue and not with a poller is put into the queue of its poller type.\<close>

lemma update_queue_insert:
  assumes inv: "queues_inv cfg" and it: "c_items cfg iid = Some it" "i_location it = ZBX_LOC_NOWHERE"
  shows "\<exists>cfg' q. DCupdate_item_queue cfg iid ot on = Inr cfg' \<and> queues_inv cfg' \<and>
    cfg' = (if i_poller_type it < ZBX_POLLER_TYPE_COUNT
      then set_item iid (\<lambda>it. it\<lparr>i_location := ZBX_LOC_QUEUE\<rparr>) (set_queue (i_poller_type it) q cfg) else cfg)"
proof (cases "i_poller_type it < ZBX_POLLER_TYPE_COUNT")
  case False
  then show ?thesis
    using inv it
    by (simp add: DCupdate_item_queue_def c_item_def Let_def ZBX_LOC_NOWHERE_def ZBX_LOC_POLLER_def ZBX_LOC_QUEUE_def
        not_less)
next
  case True
  let ?p = "i_poller_type it" and ?e = "\<lparr>he_key = iid, he_data = iid\<rparr>"
  let ?cfg = "set_item iid (\<lambda>it. it\<lparr>i_location := ZBX_LOC_QUEUE\<rparr>) cfg"
  have c: "c_item cfg iid = it" using it by (simp add: c_item_def)
  note hp = queues_invD(1,2) [OF inv True]
  note data = queues_invD(3) [OF inv True]
  have q0: "queue ?cfg ?p = queue cfg ?p" by (simp add: queue_def)
  have "iid \<notin> queue_keys cfg ?p"
    using queues_invD(4) [OF inv True, of iid] it by (simp add: ZBX_LOC_NOWHERE_def ZBX_LOC_QUEUE_def)
  then have "\<not> hp_has_key (queue cfg ?p) iid" by (simp add: hp_has_key_def queue_keys_def)
  then obtain q where q: "zbx_binary_heap_insert (queue cfg ?p) ?e = Inr q" "hp_inv q"
      "mset (hp_elems q) = add_mset ?e (mset (hp_elems (c_queues cfg ?p)))" "hp_compare_func q = queue_compare cfg ?p"
    using heap_insert_aux [of "queue cfg ?p" ?e] hp by (auto simp: poller_queue.heap_compare_axioms)
  have dir: "HAS_DIRECT_OPTION q"
    using HAS_DIRECT_cong [OF heap_op_options(1) [OF q(1)]] hp(2) by simp
  have es: "set (hp_elems q) = insert ?e (set (hp_elems (c_queues cfg ?p)))" using q(3) by (rule mset_set)
  have "queues_inv (set_item iid (\<lambda>it. it\<lparr>i_location := ZBX_LOC_QUEUE\<rparr>) (set_queue ?p q cfg))"
    using es data by (intro queues_inv_move [OF inv it(1) refl True q(2,4) dir]) (auto simp: queue_keys_def)
  moreover have "DCupdate_item_queue cfg iid ot on = Inr (set_queue ?p q ?cfg)"
    using True it(2) q(1) q0
    by (simp add: DCupdate_item_queue_def c Let_def put_queue_def ZBX_LOC_NOWHERE_def ZBX_LOC_POLLER_def
        ZBX_LOC_QUEUE_def not_le)
  ultimately show ?thesis using True by (auto simp: set_item_set_queue)
qed

lemma poll_requeue_spec:
  assumes inv: "queues_inv cfg" and it: "c_items cfg iid = Some it" "i_location it = ZBX_LOC_NOWHERE"
  shows "\<exists>cfg'. poll_requeue cfg iid t (Some n) = Some (Inr cfg') \<and> queues_inv cfg' \<and>
    c_items cfg' = (c_items cfg)(iid \<mapsto> it\<lparr>i_poller_type := t, i_nextcheck := n,
      i_location := if t < ZBX_POLLER_TYPE_COUNT then ZBX_LOC_QUEUE else ZBX_LOC_NOWHERE\<rparr>) \<and>
    c_hosts cfg' = c_hosts cfg \<and> c_flexitems cfg' = c_flexitems cfg \<and>
    c_refresh_unsupported cfg' = c_refresh_unsupported cfg"
proof -
  let ?cfg = "set_item iid (\<lambda>it. it\<lparr>i_poller_type := t, i_nextcheck := n\<rparr>) cfg"
  have c: "c_item cfg iid = it" using it by (simp add: c_item_def)
  have "queues_inv ?cfg"
    using it by (intro queues_inv_set_item [OF inv it(1)]) (simp_all add: ZBX_LOC_NOWHERE_def ZBX_LOC_QUEUE_def)
  moreover define it' where "it' = it\<lparr>i_poller_type := t, i_nextcheck := n\<rparr>"
  then have it': "c_items ?cfg iid = Some it'" "i_location it' = ZBX_LOC_NOWHERE" "i_poller_type it' = t"
    using it by (simp_all add: c)
  ultimately obtain cfg' q where cfg': "DCupdate_item_queue ?cfg iid (i_poller_type it) (i_nextcheck it) = Inr cfg'"
    "queues_inv cfg'" "cfg' = (if t < ZBX_POLLER_TYPE_COUNT
      then set_item iid (\<lambda>it. it\<lparr>i_location := ZBX_LOC_QUEUE\<rparr>) (set_queue t q ?cfg) else ?cfg)"
    using update_queue_insert [of ?cfg iid it'] unfolding it'(3) by blast
  have "c_items cfg' = (c_items cfg)(iid \<mapsto> it\<lparr>i_poller_type := t, i_nextcheck := n,
      i_location := if t < ZBX_POLLER_TYPE_COUNT then ZBX_LOC_QUEUE else ZBX_LOC_NOWHERE\<rparr>)"
    using it by (cases it) (simp add: cfg'(3) c)
  with cfg' show ?thesis by (auto simp: poll_requeue_def c)
qed

subsection \<open>The schedule\<close>

text \<open>
  What the next checks rely on: the time zone data is sane, delays are not negative and the flexible
  intervals of the items are well-formed.
\<close>

definition schedule_ok :: "env \<Rightarrow> dc_config \<Rightarrow> bool" where
  "schedule_ok env cfg \<longleftrightarrow> (\<forall>t. tm_ok (e_localtime env t)) \<and> 0 < e_clock env \<and> 0 \<le> c_refresh_unsupported cfg \<and>
    (\<forall>iid it. c_items cfg iid = Some it \<longrightarrow> 0 \<le> i_delay it) \<and>
    (\<forall>iid. c_flexitems cfg iid = None \<or>
      (\<exists>fs. c_flexitems cfg iid = flex_text fs \<and> list_all flex_days_ok fs))"

lemma reachable_nextcheck_future:
  assumes "schedule_ok env cfg" "0 \<le> i_delay it" "0 < now"
  shows "\<exists>n. DCget_reachable_nextcheck env cfg it now = Some n \<and> now < n"
proof (cases "i_state it = ITEM_STATE_NOTSUPPORTED")
  case True
  with item_nextcheck_returns [of "c_refresh_unsupported cfg" None "e_localtime env" now] assms
  show ?thesis unfolding DCget_reachable_nextcheck_def schedule_ok_def by fastforce
next
  case False
  with item_nextcheck_returns [of "i_delay it" "c_flexitems cfg (i_itemid it)" "e_localtime env" now] assms
  show ?thesis unfolding DCget_reachable_nextcheck_def schedule_ok_def by fastforce
qed

lemma unreachable_nextcheck_disabled:
  "DCget_disable_until (i_type it) h \<noteq> 0 \<Longrightarrow>
    DCget_unreachable_nextcheck env cfg it h = Some (DCget_disable_until (i_type it) h)"
  by (cases "i_type it") (auto simp: DCget_unreachable_nextcheck_def DCget_disable_until_def Let_def split: if_splits)

lemma unreachable_nextcheck_returns:
  assumes "schedule_ok env cfg" "0 \<le> i_delay it"
  shows "\<exists>n. DCget_unreachable_nextcheck env cfg it h = Some n"
proof -
  obtain n where "DCget_reachable_nextcheck env cfg it (e_clock env) = Some n"
    using reachable_nextcheck_future [OF assms, of "e_clock env"] assms(1) by (auto simp: schedule_ok_def)
  then show ?thesis by (cases "i_type it") (simp_all add: DCget_unreachable_nextcheck_def Let_def)
qed

text \<open>An agent of the host that the item needs has a first error recorded.\<close>

definition agent_failing :: "item_type \<Rightarrow> dc_host \<Rightarrow> bool" where
  "agent_failing t h \<longleftrightarrow> (\<exists>g. agent_of t = Some g \<and> av_errors_from (avail_of g h) \<noteq> 0)"

lemma unreachable_nextcheck_cases:
  assumes "schedule_ok env cfg" "0 \<le> i_delay it" "DCget_unreachable_nextcheck env cfg it h = Some n"
  shows "if agent_failing (i_type it) h then n = DCget_disable_until (i_type it) h else e_clock env < n"
proof -
  obtain m where m: "DCget_reachable_nextcheck env cfg it (e_clock env) = Some m" "e_clock env < m"
    using reachable_nextcheck_future [OF assms(1,2), of "e_clock env"] assms(1) by (auto simp: schedule_ok_def)
  with assms(3) show ?thesis
    by (cases "i_type it")
      (auto simp: agent_failing_def DCget_unreachable_nextcheck_def DCget_disable_until_def Let_def split: if_splits)
qed

lemma poller_by_item_reachable: "poller_by_item env proxy t key flags \<noteq> ZBX_POLLER_TYPE_UNREACHABLE"
  by (cases t) (simp_all add: poller_by_item_def Let_def ZBX_NO_POLLER_def ZBX_POLLER_TYPE_UNREACHABLE_def
      ZBX_POLLER_TYPE_NORMAL_def ZBX_POLLER_TYPE_PINGER_def ZBX_POLLER_TYPE_IPMI_def ZBX_POLLER_TYPE_JAVA_def)

subsection \<open>One item of a poll\<close>

text \<open>
  What a poll leaves alone: the items outside \<open>D\<close>, and of the hosts all but the time until which an
  agent that may be contacted now is not contacted again.
\<close>

definition host_le :: "int \<Rightarrow> dc_host \<Rightarrow> dc_host \<Rightarrow> bool" where
  "host_le now h h' \<longleftrightarrow> h_maintenance_status h' = h_maintenance_status h \<and>
    h_maintenance_type h' = h_maintenance_type h \<and>
    (\<forall>t. DCget_disable_until t h' = DCget_disable_until t h \<or>
      DCget_disable_until t h \<noteq> 0 \<and> DCget_disable_until t h \<le> now)"

definition poll_frame :: "u64 set \<Rightarrow> int \<Rightarrow> dc_config \<Rightarrow> dc_config \<Rightarrow> bool" where
  "poll_frame D now cfg cfg' \<longleftrightarrow> c_flexitems cfg' = c_flexitems cfg \<and>
    c_refresh_unsupported cfg' = c_refresh_unsupported cfg \<and>
    (\<forall>k. rel_option (host_le now) (c_hosts cfg k) (c_hosts cfg' k)) \<and>
    (\<forall>iid. iid \<notin> D \<longrightarrow> c_items cfg' iid = c_items cfg iid) \<and>
    (\<forall>iid. map_option i_delay (c_items cfg' iid) = map_option i_delay (c_items cfg iid))"

lemma host_le_refl [simp]: "host_le now h h"
  by (simp add: host_le_def)

lemma poll_frame_refl [simp]: "poll_frame D now cfg cfg"
  by (simp add: poll_frame_def option.rel_refl)

lemma poll_frame_trans:
  assumes "poll_frame D now a b" "poll_frame D' now b c"
  shows "poll_frame (D \<union> D') now a c"
proof -
  have tr: "host_le now x z" if "host_le now x y" "host_le now y z" for x y z
    using that unfolding host_le_def by metis
  have "rel_option (host_le now) (c_hosts a k) (c_hosts c k)" for k
    using assms tr unfolding poll_frame_def
    by (cases "c_hosts a k"; cases "c_hosts b k"; cases "c_hosts c k") (metis option.rel_distinct option.rel_inject(2))+
  with assms show ?thesis by (auto simp: poll_frame_def)
qed

lemma poll_frame_mono: "poll_frame D now a b \<Longrightarrow> D \<subseteq> D' \<Longrightarrow> poll_frame D' now a b"
  by (auto simp: poll_frame_def)

lemma poll_frame_schedule:
  assumes "poll_frame D now cfg cfg'" "schedule_ok env cfg"
  shows "schedule_ok env cfg'"
proof -
  have "0 \<le> i_delay it'" if "c_items cfg' iid = Some it'" for iid it'
  proof -
    have "map_option i_delay (c_items cfg iid) = Some (i_delay it')"
      using assms(1) that by (metis poll_frame_def option.simps(9))
    then obtain z where "c_items cfg iid = Some z" "i_delay z = i_delay it'" by auto
    then show ?thesis using assms(2) unfolding schedule_ok_def by metis
  qed
  with assms show ?thesis by (simp add: poll_frame_def schedule_ok_def)
qed

lemma increase_host_le:
  assumes "DCget_disable_until t h \<le> now" "DCget_disable_until t h \<noteq> 0"
  shows "host_le now h (DCincrease_disable_until conf t h now)"
proof -
  have "h_maintenance_status (DCincrease_disable_until conf t h now) = h_maintenance_status h \<and>
      h_maintenance_type (DCincrease_disable_until conf t h now) = h_maintenance_type h"
    by (cases t) (simp_all add: DCincrease_disable_until_def Let_def)
  moreover have "DCget_disable_until t' (DCincrease_disable_until conf t h now) = DCget_disable_until t' h \<or>
      DCget_disable_until t' h \<noteq> 0 \<and> DCget_disable_until t' h \<le> now" for t'
  proof (cases "agent_of t' \<noteq> None \<and> agent_of t' = agent_of t")
    case True
    then have "DCget_disable_until t' h = DCget_disable_until t h"
      by (cases "agent_of t") (simp_all add: disable_until_avail)
    with assms show ?thesis by simp
  next
    case False
    then show ?thesis
      by (cases "agent_of t'") (auto simp: disable_until_avail increase_disable_avail)
  qed
  ultimately show ?thesis by (simp add: host_le_def)
qed

text \<open>The items that a poller of type \<open>p\<close> finds due.\<close>

definition due :: "u8 \<Rightarrow> int \<Rightarrow> dc_config \<Rightarrow> u64 set" where
  "due p now cfg = {iid. \<exists>it. c_items cfg iid = Some it \<and> i_location it = ZBX_LOC_QUEUE \<and>
    i_poller_type it = p \<and> i_nextcheck it \<le> now}"

lemma due_finite:
  assumes "queues_inv cfg" "p < ZBX_POLLER_TYPE_COUNT"
  shows "finite (due p now cfg)"
proof (rule finite_subset)
  show "due p now cfg \<subseteq> queue_keys cfg p"
    using queues_invD(4) [OF assms] by (auto simp: due_def)
  show "finite (queue_keys cfg p)" by (simp add: queue_keys_def)
qed

text \<open>An item that nothing keeps from being checked by an ordinary poller.\<close>

definition healthy :: "u8 \<Rightarrow> dc_config \<Rightarrow> dc_item \<Rightarrow> bool" where
  "healthy p cfg it \<longleftrightarrow> \<not> (c_refresh_unsupported cfg = 0 \<and> i_state it = ITEM_STATE_NOTSUPPORTED) \<and>
    p \<noteq> ZBX_POLLER_TYPE_UNREACHABLE \<and>
    (\<exists>h. c_hosts cfg (i_hostid it) = Some h \<and> DCget_disable_until (i_type it) h = 0 \<and>
      \<not> (h_maintenance_status h = HOST_MAINTENANCE_STATUS_ON \<and> h_maintenance_type h = MAINTENANCE_TYPE_NODATA))"

lemma healthy_frame:
  assumes "poll_frame D now cfg cfg'" "healthy p cfg it"
  shows "healthy p cfg' it"
proof -
  obtain h where h: "c_hosts cfg (i_hostid it) = Some h" "DCget_disable_until (i_type it) h = 0"
    "\<not> (h_maintenance_status h = HOST_MAINTENANCE_STATUS_ON \<and> h_maintenance_type h = MAINTENANCE_TYPE_NODATA)"
    using assms(2) by (auto simp: healthy_def)
  moreover have "rel_option (host_le now) (c_hosts cfg (i_hostid it)) (c_hosts cfg' (i_hostid it))"
    using assms(1) by (simp add: poll_frame_def)
  ultimately obtain h' where "c_hosts cfg' (i_hostid it) = Some h'" "host_le now h h'"
    by (auto simp: option_rel_Some1)
  moreover from this h(2) have "DCget_disable_until (i_type it) h' = 0" unfolding host_le_def by metis
  ultimately show ?thesis using assms h(3) by (auto simp: healthy_def poll_frame_def host_le_def)
qed

text \<open>The outcome of a dispatch: the item is dropped, put back or given to the poller.\<close>

definition dispatched ::
  "u8 \<Rightarrow> int \<Rightarrow> dc_config \<Rightarrow> dc_item \<Rightarrow> dc_config \<Rightarrow> dc_host option \<Rightarrow> bool" where
  "dispatched p now cfg it cfg' r \<longleftrightarrow> queues_inv cfg' \<and> poll_frame {i_itemid it} now cfg cfg' \<and>
    i_itemid it \<notin> due p now cfg' \<and> (r = None \<longrightarrow> \<not> healthy p cfg it) \<and>
    (r \<noteq> None \<longrightarrow> c_items cfg' (i_itemid it) = Some (it\<lparr>i_location := ZBX_LOC_POLLER\<rparr>) \<and>
      (\<exists>h. c_hosts cfg (i_hostid it) = Some h \<and> DCget_disable_until (i_type it) h \<le> now \<and>
        \<not> (h_maintenance_status h = HOST_MAINTENANCE_STATUS_ON \<and> h_maintenance_type h = MAINTENANCE_TYPE_NODATA)))"

abbreviation put_back :: "(fatal + dc_config) option \<Rightarrow> (fatal + dc_config \<times> dc_host option) option" where
  "put_back r \<equiv> map_option (\<lambda>s. case s of Inl err \<Rightarrow> Inl err | Inr cfg \<Rightarrow> Inr (cfg, None)) r"

lemma dispatched_back:
  assumes inv: "queues_inv cfg" and it: "c_items cfg iid = Some it" "i_location it = ZBX_LOC_NOWHERE"
    and n: "n = Some m" "t \<noteq> p \<or> now < m" and ill: "\<not> healthy p cfg it"
  shows "\<exists>cfg'. put_back (poll_requeue cfg iid t n) = Some (Inr (cfg', None)) \<and> dispatched p now cfg it cfg' None"
proof -
  have id: "i_itemid it = iid" using inv it by (simp add: queues_inv_def)
  obtain cfg' where c: "poll_requeue cfg iid t (Some m) = Some (Inr cfg')" "queues_inv cfg'"
    "c_items cfg' = (c_items cfg)(iid \<mapsto> it\<lparr>i_poller_type := t, i_nextcheck := m,
      i_location := if t < ZBX_POLLER_TYPE_COUNT then ZBX_LOC_QUEUE else ZBX_LOC_NOWHERE\<rparr>)"
    "c_hosts cfg' = c_hosts cfg" "c_flexitems cfg' = c_flexitems cfg"
    "c_refresh_unsupported cfg' = c_refresh_unsupported cfg"
    using poll_requeue_spec [OF inv it] by blast
  have "poll_frame {iid} now cfg cfg'"
    using it by (simp add: poll_frame_def c(3-6) option.rel_refl)
  moreover have "iid \<notin> due p now cfg'" using n(2) by (auto simp: due_def c(3))
  ultimately show ?thesis using c(1,2) n(1) ill by (simp add: dispatched_def id)
qed

lemma poll_dispatch_spec:
  assumes inv: "queues_inv cfg" and sched: "schedule_ok env cfg" and now: "e_clock env = now"
    and it: "c_items cfg iid = Some it" "i_location it = ZBX_LOC_NOWHERE"
  shows "\<exists>cfg' r. poll_dispatch env cfg p now iid = Some (Inr (cfg', r)) \<and> dispatched p now cfg it cfg' r"
proof -
  have c: "c_item cfg iid = it" and id: "i_itemid it = iid"
    using it inv by (simp_all add: c_item_def queues_inv_def)
  have pos: "0 < now" and delay: "0 \<le> i_delay it" using sched now it(1) unfolding schedule_ok_def by metis+
  have drop: "dispatched p now cfg it cfg None" if "\<not> healthy p cfg it"
    using that inv it id by (simp add: dispatched_def due_def ZBX_LOC_NOWHERE_def ZBX_LOC_QUEUE_def)
  note requeue = dispatched_back [OF inv it]
  show ?thesis
  proof (cases "c_hosts cfg (i_hostid it)")
    case None
    then show ?thesis using drop by (simp add: poll_dispatch_def c Let_def healthy_def)
  next
    case (Some h)
    let ?d = "DCget_disable_until (i_type it) h"
    let ?t = "poller_by_item env (h_proxy_hostid h) (i_type it) (i_key it) (i_flags it)"
    let ?unsupported = "c_refresh_unsupported cfg = 0 \<and> i_state it = ITEM_STATE_NOTSUPPORTED"
    let ?maintenance = "h_maintenance_status h = HOST_MAINTENANCE_STATUS_ON \<and>
      h_maintenance_type h = MAINTENANCE_TYPE_NODATA"
    let ?wait = "p = ZBX_POLLER_TYPE_NORMAL \<or> p = ZBX_POLLER_TYPE_IPMI \<or> p = ZBX_POLLER_TYPE_JAVA"
    note run = poll_dispatch_def c Some Let_def
    consider (unsupported) ?unsupported | (maintenance) "\<not> ?unsupported" ?maintenance
      | (reachable) "\<not> ?unsupported" "\<not> ?maintenance" "?d = 0" "p = ZBX_POLLER_TYPE_UNREACHABLE"
      | (away) "\<not> ?unsupported" "\<not> ?maintenance" "?d \<noteq> 0" ?wait
      | (later) "\<not> ?unsupported" "\<not> ?maintenance" "?d > now" "\<not> ?wait"
      | (taken) "\<not> ?unsupported" "\<not> ?maintenance" "?d \<le> now" "\<not> (?d = 0 \<and> p = ZBX_POLLER_TYPE_UNREACHABLE)"
          "\<not> (?d \<noteq> 0 \<and> ?wait)"
      using pos by (cases "?d = 0") (fastforce simp: not_le)+
    then show ?thesis
    proof cases
      case unsupported
      then show ?thesis using drop by (auto simp: run healthy_def)
    next
      case maintenance
      obtain m where "DCget_reachable_nextcheck env cfg it now = Some m" "now < m"
        using reachable_nextcheck_future [OF sched delay pos] by blast
      moreover have "poll_dispatch env cfg p now iid = put_back (poll_requeue cfg iid (i_poller_type it)
          (DCget_reachable_nextcheck env cfg it now))"
        using maintenance by (auto simp: run)
      moreover have "\<not> healthy p cfg it" using maintenance(2) Some by (simp add: healthy_def)
      ultimately show ?thesis using requeue [of _ m "i_poller_type it" p now] by auto
    next
      case reachable
      obtain m where "DCget_reachable_nextcheck env cfg (it\<lparr>i_poller_type := ?t\<rparr>) now = Some m" "now < m"
        using reachable_nextcheck_future [OF sched _ pos, of "it\<lparr>i_poller_type := ?t\<rparr>"] delay by auto
      moreover have "poll_dispatch env cfg p now iid = put_back (poll_requeue cfg iid ?t
          (DCget_reachable_nextcheck env cfg (it\<lparr>i_poller_type := ?t\<rparr>) now))"
        using reachable by (auto simp: run)
      moreover have "\<not> healthy p cfg it" using reachable(4) by (simp add: healthy_def)
      ultimately show ?thesis using requeue [of _ m ?t p now] by auto
    next
      case away
      define n where "n = (if ?d > now then DCget_unreachable_nextcheck env cfg it h else Some (i_nextcheck it))"
      then obtain m where m: "n = Some m"
        using unreachable_nextcheck_returns [OF sched delay] by (cases "?d > now") auto
      have "ZBX_POLLER_TYPE_UNREACHABLE \<noteq> p"
        using away(4) by (auto simp: ZBX_POLLER_TYPE_NORMAL_def ZBX_POLLER_TYPE_IPMI_def ZBX_POLLER_TYPE_JAVA_def
            ZBX_POLLER_TYPE_UNREACHABLE_def)
      moreover have "poll_dispatch env cfg p now iid = put_back (poll_requeue cfg iid ZBX_POLLER_TYPE_UNREACHABLE n)"
        using away unfolding n_def by (auto simp: run)
      moreover have "\<not> healthy p cfg it" using away(3) Some by (simp add: healthy_def)
      ultimately show ?thesis using requeue [OF m, of ZBX_POLLER_TYPE_UNREACHABLE p now] by auto
    next
      case later
      then have "?d \<noteq> 0" using pos by auto
      then have "DCget_unreachable_nextcheck env cfg it h = Some ?d" by (rule unreachable_nextcheck_disabled)
      moreover have "poll_dispatch env cfg p now iid = put_back (poll_requeue cfg iid (i_poller_type it)
          (DCget_unreachable_nextcheck env cfg it h))"
        using later \<open>?d \<noteq> 0\<close> by (auto simp: run)
      moreover have "\<not> healthy p cfg it" using \<open>?d \<noteq> 0\<close> Some by (simp add: healthy_def)
      ultimately show ?thesis using later(3) requeue [of _ ?d "i_poller_type it" p now] by auto
    next
      case taken
      define h' where "h' = (if ?d \<noteq> 0 then DCincrease_disable_until (e_avail env) (i_type it) h now else h)"
      define cfg' where "cfg' = set_item iid (\<lambda>it. it\<lparr>i_location := ZBX_LOC_POLLER\<rparr>)
        (cfg\<lparr>c_hosts := (c_hosts cfg)(i_hostid it \<mapsto> h')\<rparr>)"
      have "poll_dispatch env cfg p now iid = Some (Inr (cfg', Some h'))"
        using taken unfolding cfg'_def h'_def by (simp add: run) force
      moreover have "host_le now h h'" using taken by (simp add: h'_def increase_host_le)
      then have "poll_frame {iid} now cfg cfg'"
        using it Some by (simp add: poll_frame_def cfg'_def c option.rel_refl)
      moreover have "queues_inv (cfg\<lparr>c_hosts := (c_hosts cfg)(i_hostid it \<mapsto> h')\<rparr>)"
        using inv by (simp add: queues_inv_hosts)
      then have "queues_inv cfg'"
        unfolding cfg'_def using it
        by (intro queues_inv_set_item [of _ iid it])
          (simp_all add: ZBX_LOC_NOWHERE_def ZBX_LOC_QUEUE_def ZBX_LOC_POLLER_def)
      ultimately show ?thesis
        using taken Some
        by (auto simp: dispatched_def id due_def cfg'_def c ZBX_LOC_QUEUE_def ZBX_LOC_POLLER_def)
    qed
  qed
qed

subsection \<open>A poll\<close>

lemma due_frame:
  assumes "poll_frame {iid} now cfg cfg'" "iid \<notin> due p now cfg'"
  shows "due p now cfg' = due p now cfg - {iid}"
proof (rule set_eqI)
  fix j
  show "j \<in> due p now cfg' \<longleftrightarrow> j \<in> due p now cfg - {iid}"
    using assms by (cases "j = iid") (simp_all add: due_def poll_frame_def)
qed

text \<open>An item given to a poller: it was due, its host may be contacted, it is now with the poller.\<close>

definition polled :: "u8 \<Rightarrow> int \<Rightarrow> dc_config \<Rightarrow> dc_config \<Rightarrow> dc_item \<Rightarrow> bool" where
  "polled p now cfg cfg' it \<longleftrightarrow> i_itemid it \<in> due p now cfg \<and>
    c_items cfg (i_itemid it) = Some (it\<lparr>i_location := ZBX_LOC_QUEUE\<rparr>) \<and>
    c_items cfg' (i_itemid it) = Some it \<and> i_location it = ZBX_LOC_POLLER \<and>
    (\<exists>h. c_hosts cfg (i_hostid it) = Some h \<and> DCget_disable_until (i_type it) h \<le> now \<and>
      \<not> (h_maintenance_status h = HOST_MAINTENANCE_STATUS_ON \<and> h_maintenance_type h = MAINTENANCE_TYPE_NODATA))"

text \<open>One turn of the loop: the item leaves the set of due ones, and is given to the poller or not.\<close>

definition turned :: "u8 \<Rightarrow> int \<Rightarrow> dc_config \<Rightarrow> u64 \<Rightarrow> dc_config \<Rightarrow> dc_host option \<Rightarrow> bool" where
  "turned p now cfg iid cfg' r \<longleftrightarrow> queues_inv cfg' \<and> iid \<in> due p now cfg \<and> due p now cfg' = due p now cfg - {iid} \<and>
    poll_frame {iid} now cfg cfg' \<and> (r = None \<longrightarrow> \<not> healthy p cfg (c_item cfg iid)) \<and>
    (r \<noteq> None \<longrightarrow> i_itemid (c_item cfg' iid) = iid \<and> polled p now cfg cfg' (c_item cfg' iid))"

lemma poll_turn:
  assumes inv: "queues_inv cfg" and p: "p < ZBX_POLLER_TYPE_COUNT" and sched: "schedule_ok env cfg"
    and now: "e_clock env = now" and run: "length taken < max_items"
  shows "(due p now cfg = {} \<or> p = ZBX_POLLER_TYPE_JAVA) \<and>
      poll_loop env p now max_items cfg taken = Some (Inr (cfg, taken)) \<or>
    (\<exists>iid cfg' r. turned p now cfg iid cfg' r \<and> poll_loop env p now max_items cfg taken =
      poll_loop env p now max_items cfg' (case r of None \<Rightarrow> taken | Some h \<Rightarrow> taken @ [(h, c_item cfg' iid)]))"
proof (cases "hp_elems (c_queues cfg p) = []")
  case True
  then have "due p now cfg = {}"
    using queues_invD(4) [OF inv p] by (auto simp: due_def queue_keys_def)
  then show ?thesis using True by (subst poll_loop.simps) (simp add: zbx_binary_heap_empty_def)
next
  case False
  then have ne: "zbx_binary_heap_empty (queue cfg p) = Fail" by (simp add: zbx_binary_heap_empty_def)
  from take_min [OF inv p False] obtain m q it where m: "zbx_binary_heap_find_min (queue cfg p) = Inr m"
    "zbx_binary_heap_remove_min (queue cfg p) = Inr q" "c_items cfg (he_data m) = Some it"
    "i_location it = ZBX_LOC_QUEUE" "i_poller_type it = p"
    and min: "\<And>iid it'. c_items cfg iid = Some it' \<Longrightarrow> i_location it' = ZBX_LOC_QUEUE \<Longrightarrow> i_poller_type it' = p \<Longrightarrow>
      i_nextcheck it \<le> i_nextcheck it'"
    and inv1: "queues_inv (set_item (he_data m) (\<lambda>it. it\<lparr>i_location := ZBX_LOC_NOWHERE\<rparr>) (set_queue p q cfg))"
    by metis
  let ?cfg = "set_item (he_data m) (\<lambda>it. it\<lparr>i_location := ZBX_LOC_NOWHERE\<rparr>) (set_queue p q cfg)"
  let ?it = "it\<lparr>i_location := ZBX_LOC_NOWHERE\<rparr>"
  let ?iid = "he_data m"
  have c: "c_item cfg ?iid = it" and id: "i_itemid it = ?iid"
    using m(3) inv by (simp_all add: c_item_def queues_inv_def)
  show ?thesis
  proof (cases "i_nextcheck it \<le> now \<and> \<not> (p = ZBX_POLLER_TYPE_JAVA \<and> taken \<noteq> [] \<and>
      config_java_item_compare cfg (i_itemid (snd (last taken))) ?iid \<noteq> 0)")
    case False
    have "due p now cfg = {} \<or> p = ZBX_POLLER_TYPE_JAVA"
      using False min by (fastforce simp: due_def)
    moreover have "poll_loop env p now max_items cfg taken = Some (Inr (cfg, taken))"
      using False run ne m(1) c by (subst poll_loop.simps) auto
    ultimately show ?thesis by blast
  next
    case True
    have frame1: "poll_frame {?iid} now cfg ?cfg"
      using m(3) by (simp add: poll_frame_def c option.rel_refl)
    have it1: "c_items ?cfg ?iid = Some ?it" by (simp add: c)
    then obtain cfg' r where step: "poll_dispatch env ?cfg p now ?iid = Some (Inr (cfg', r))"
      and disp: "dispatched p now ?cfg ?it cfg' r"
      using poll_dispatch_spec [OF inv1 poll_frame_schedule [OF frame1 sched] now] by fastforce
    have "poll_frame {?iid} now cfg cfg'"
      using poll_frame_trans [OF frame1, of "{?iid}" cfg'] disp by (simp add: dispatched_def id)
    moreover from this have "due p now cfg' = due p now cfg - {?iid}"
      by (rule due_frame) (use disp in \<open>simp add: dispatched_def id\<close>)
    moreover have "?iid \<in> due p now cfg" using True m by (simp add: due_def)
    moreover have "polled p now cfg cfg' (c_item cfg' ?iid) \<and> i_itemid (c_item cfg' ?iid) = ?iid" if "r \<noteq> None"
    proof -
      have eq: "it\<lparr>i_location := ZBX_LOC_QUEUE\<rparr> = it" using m(4) by (cases it) simp
      from that disp have "c_items cfg' ?iid = Some (it\<lparr>i_location := ZBX_LOC_POLLER\<rparr>)"
        by (simp add: dispatched_def id)
      then show ?thesis
        using that disp m(3) id \<open>?iid \<in> due p now cfg\<close> by (auto simp: polled_def dispatched_def c_item_def eq)
    qed
    moreover have "healthy p cfg it \<Longrightarrow> healthy p ?cfg ?it" by (simp add: healthy_def)
    then have "r = None \<longrightarrow> \<not> healthy p cfg it" using disp by (auto simp: dispatched_def)
    ultimately have "turned p now cfg ?iid cfg' r" using disp by (simp add: turned_def dispatched_def c)
    moreover have "poll_loop env p now max_items cfg taken =
        poll_loop env p now max_items cfg' (case r of None \<Rightarrow> taken | Some h \<Rightarrow> taken @ [(h, c_item cfg' ?iid)])"
      using True run ne m(1,2) c step by (subst poll_loop.simps) (auto split: option.splits)
    ultimately show ?thesis by blast
  qed
qed

definition poll_result ::
  "u8 \<Rightarrow> int \<Rightarrow> dc_config \<Rightarrow> dc_config \<Rightarrow> (dc_host \<times> dc_item) list \<Rightarrow> bool" where
  "poll_result p now cfg cfg' new \<longleftrightarrow> queues_inv cfg' \<and> poll_frame (due p now cfg) now cfg cfg' \<and>
    due p now cfg' \<subseteq> due p now cfg \<and> distinct (map (i_itemid \<circ> snd) new) \<and>
    (\<forall>x \<in> set new. polled p now cfg cfg' (snd x)) \<and>
    (\<forall>j \<in> due p now cfg - due p now cfg'. healthy p cfg (c_item cfg j) \<longrightarrow> j \<in> set (map (i_itemid \<circ> snd) new))"

lemma poll_result_turn:
  assumes turn: "turned p now cfg iid cfg1 r" and rest: "poll_result p now cfg1 cfg' new"
  shows "poll_result p now cfg cfg' ((case r of None \<Rightarrow> [] | Some h \<Rightarrow> [(h, c_item cfg1 iid)]) @ new)"
proof -
  note defs = turned_def poll_result_def
  have "poll_frame (due p now cfg) now cfg cfg'"
    using poll_frame_trans [of "{iid}" now cfg cfg1 "due p now cfg1" cfg'] turn rest
    by (auto simp: defs insert_absorb)
  moreover have "polled p now cfg cfg' (snd x) \<and> i_itemid (snd x) \<noteq> iid" if "x \<in> set new" for x
  proof -
    obtain it where it: "snd x = it" by simp
    then have p: "polled p now cfg1 cfg' it" using rest that by (auto simp: defs)
    then have "i_itemid it \<in> due p now cfg" "i_itemid it \<noteq> iid" using turn by (auto simp: defs polled_def)
    moreover have "c_items cfg (i_itemid it) = c_items cfg1 (i_itemid it)"
      using turn \<open>i_itemid it \<noteq> iid\<close> by (simp add: defs poll_frame_def)
    moreover obtain h where h: "c_hosts cfg1 (i_hostid it) = Some h" "DCget_disable_until (i_type it) h \<le> now"
        "\<not> (h_maintenance_status h = HOST_MAINTENANCE_STATUS_ON \<and> h_maintenance_type h = MAINTENANCE_TYPE_NODATA)"
      using p by (auto simp: polled_def)
    moreover have "rel_option (host_le now) (c_hosts cfg (i_hostid it)) (c_hosts cfg1 (i_hostid it))"
      using turn by (simp add: defs poll_frame_def)
    with h(1) obtain h0 where h0: "c_hosts cfg (i_hostid it) = Some h0" "host_le now h0 h"
      by (auto simp: option_rel_Some2)
    moreover have "DCget_disable_until (i_type it) h0 \<le> now" using h(2) h0(2) unfolding host_le_def by metis
    ultimately show ?thesis using p h(3) unfolding it polled_def host_le_def by metis
  qed
  then have "\<forall>x \<in> set new. polled p now cfg cfg' (snd x)" "iid \<notin> (i_itemid \<circ> snd) ` set new" by auto
  moreover have "polled p now cfg cfg' (c_item cfg1 iid) \<and> i_itemid (c_item cfg1 iid) = iid" if "r \<noteq> None"
  proof -
    have "iid \<notin> due p now cfg1" using turn by (simp add: defs)
    then have "c_items cfg' iid = c_items cfg1 iid" using rest by (simp add: defs poll_frame_def)
    moreover have "polled p now cfg cfg1 (c_item cfg1 iid)" "i_itemid (c_item cfg1 iid) = iid"
      using that turn by (simp_all add: turned_def)
    ultimately show ?thesis by (simp add: polled_def)
  qed
  moreover have "queues_inv cfg'" "due p now cfg' \<subseteq> due p now cfg" "distinct (map (i_itemid \<circ> snd) new)"
    using turn rest by (auto simp: defs)
  moreover have "j \<in> set (map (i_itemid \<circ> snd) ((case r of None \<Rightarrow> [] | Some h \<Rightarrow> [(h, c_item cfg1 iid)]) @ new))"
    if j: "j \<in> due p now cfg - due p now cfg'" "healthy p cfg (c_item cfg j)" for j
  proof (cases "j = iid")
    case True
    then have "r \<noteq> None" using j turn by (auto simp: turned_def)
    then show ?thesis using turn True by (auto simp: turned_def)
  next
    case False
    have frame: "poll_frame {iid} now cfg cfg1" using turn by (simp add: turned_def)
    have "c_item cfg1 j = c_item cfg j" using frame False by (simp add: poll_frame_def c_item_def)
    moreover have "j \<in> due p now cfg1 - due p now cfg'" using j(1) False turn by (simp add: turned_def)
    ultimately have "j \<in> set (map (i_itemid \<circ> snd) new)"
      using rest healthy_frame [OF frame j(2)] by (simp add: poll_result_def)
    then show ?thesis by simp
  qed
  ultimately have facts: "poll_frame (due p now cfg) now cfg cfg'" "queues_inv cfg'"
      "due p now cfg' \<subseteq> due p now cfg" "distinct (map (i_itemid \<circ> snd) new)"
      "\<forall>x \<in> set new. polled p now cfg cfg' (snd x)" "iid \<notin> set (map (i_itemid \<circ> snd) new)"
      "r \<noteq> None \<Longrightarrow> polled p now cfg cfg' (c_item cfg1 iid) \<and> i_itemid (c_item cfg1 iid) = iid"
      "\<forall>j \<in> due p now cfg - due p now cfg'. healthy p cfg (c_item cfg j) \<longrightarrow>
        j \<in> set (map (i_itemid \<circ> snd) ((case r of None \<Rightarrow> [] | Some h \<Rightarrow> [(h, c_item cfg1 iid)]) @ new))"
    by simp_all
  then show ?thesis
  proof (cases r)
    case None
    with facts(1-5,8) show ?thesis unfolding poll_result_def by simp
  next
    case (Some h)
    with facts(7) have "polled p now cfg cfg' (c_item cfg1 iid)" "i_itemid (c_item cfg1 iid) = iid" by simp_all
    with facts(1-6,8) Some show ?thesis unfolding poll_result_def by simp
  qed
qed

lemma poll_loop_spec:
  assumes "queues_inv cfg" "p < ZBX_POLLER_TYPE_COUNT" "schedule_ok env cfg" "e_clock env = now"
    and "length taken \<le> max_items"
  shows "\<exists>cfg' new. poll_loop env p now max_items cfg taken = Some (Inr (cfg', taken @ new)) \<and>
    poll_result p now cfg cfg' new \<and> length (taken @ new) \<le> max_items \<and>
    (length (taken @ new) < max_items \<and> p \<noteq> ZBX_POLLER_TYPE_JAVA \<longrightarrow> due p now cfg' = {})"
  using assms
proof (induction "card (due p now cfg)" arbitrary: cfg taken rule: less_induct)
  case less
  have stop: "poll_result p now cfg cfg []" using less.prems(1) by (simp add: poll_result_def)
  show ?case
  proof (cases "length taken < max_items")
    case False
    then have "poll_loop env p now max_items cfg taken = Some (Inr (cfg, taken))" by (subst poll_loop.simps) simp
    with False stop less.prems(5) show ?thesis by (intro exI [of _ cfg] exI [of _ "[]"]) simp
  next
    case True
    from poll_turn [OF less.prems(1-4) True] show ?thesis
    proof (elim disjE exE conjE)
      fix iid cfg1 r assume turn: "turned p now cfg iid cfg1 r"
      let ?new = "case r of None \<Rightarrow> [] | Some h \<Rightarrow> [(h, c_item cfg1 iid)]"
      let ?taken = "taken @ ?new"
      assume "poll_loop env p now max_items cfg taken = poll_loop env p now max_items cfg1
        (case r of None \<Rightarrow> taken | Some h \<Rightarrow> taken @ [(h, c_item cfg1 iid)])"
      then have run: "poll_loop env p now max_items cfg taken = poll_loop env p now max_items cfg1 ?taken"
        by (cases r) simp_all
      have "card (due p now cfg1) < card (due p now cfg)"
        using turn card_Diff1_less [OF due_finite [OF less.prems(1,2)], of iid] by (simp add: turned_def)
      moreover have "queues_inv cfg1" "schedule_ok env cfg1"
        using turn less.prems(3) poll_frame_schedule by (auto simp: turned_def)
      moreover have "length ?taken \<le> max_items" using True by (cases r) simp_all
      ultimately obtain cfg' new where new:
        "poll_loop env p now max_items cfg1 ?taken = Some (Inr (cfg', ?taken @ new))"
        "poll_result p now cfg1 cfg' new" "length (?taken @ new) \<le> max_items"
        "length (?taken @ new) < max_items \<and> p \<noteq> ZBX_POLLER_TYPE_JAVA \<longrightarrow> due p now cfg' = {}"
        using less.hyps [of cfg1 ?taken] less.prems(2,4) by blast
      have "poll_loop env p now max_items cfg taken = Some (Inr (cfg', taken @ (?new @ new)))"
        using new(1) unfolding run append_assoc .
      moreover note poll_result_turn [OF turn new(2)] new(3,4) [unfolded append_assoc]
      ultimately show ?thesis by blast
    next
      assume "due p now cfg = {}" "poll_loop env p now max_items cfg taken = Some (Inr (cfg, taken))"
      with stop less.prems(5) show ?thesis by (intro exI [of _ cfg] exI [of _ "[]"]) simp
    next
      assume "p = ZBX_POLLER_TYPE_JAVA" "poll_loop env p now max_items cfg taken = Some (Inr (cfg, taken))"
      with stop less.prems(5) show ?thesis by (intro exI [of _ cfg] exI [of _ "[]"]) simp
    qed
  qed
qed

subsection \<open>Items come back\<close>

definition reachable_code :: "int \<Rightarrow> bool" where
  "reachable_code e \<longleftrightarrow> e = 0 \<or> e = NOTSUPPORTED \<or> e = AGENT_ERROR"

definition unreachable_code :: "int \<Rightarrow> bool" where
  "unreachable_code e \<longleftrightarrow> e = NETWORK_ERROR \<or> e = GATEWAY_ERROR"

lemma codes_distinct: "reachable_code e \<Longrightarrow> e \<noteq> FAIL \<and> \<not> unreachable_code e" "unreachable_code e \<Longrightarrow> e \<noteq> FAIL"
  by (auto simp: reachable_code_def unreachable_code_def NOTSUPPORTED_def AGENT_ERROR_def NETWORK_ERROR_def
      GATEWAY_ERROR_def)

text \<open>The poller type under which an item is queued after a check with the code \<open>e\<close>.\<close>

definition next_poller :: "env \<Rightarrow> dc_host \<Rightarrow> dc_item \<Rightarrow> int \<Rightarrow> u8" where
  "next_poller env h it e =
    (if reachable_code e then
       if i_poller_type it = ZBX_POLLER_TYPE_UNREACHABLE
       then poller_by_item env (h_proxy_hostid h) (i_type it) (i_key it) (i_flags it) else i_poller_type it
     else if i_poller_type it \<in> {ZBX_POLLER_TYPE_NORMAL, ZBX_POLLER_TYPE_IPMI, ZBX_POLLER_TYPE_JAVA}
     then ZBX_POLLER_TYPE_UNREACHABLE else i_poller_type it)"

text \<open>An item that a poller gives back, and the item as it then is.\<close>

definition comes_back :: "dc_config \<Rightarrow> requeued \<Rightarrow> bool" where
  "comes_back cfg r \<longleftrightarrow> 0 < rq_lastclock r \<and> (reachable_code (rq_errcode r) \<or> unreachable_code (rq_errcode r)) \<and>
    (\<exists>it h. c_items cfg (rq_itemid r) = Some it \<and> i_location it = ZBX_LOC_POLLER \<and>
      i_poller_type it < ZBX_POLLER_TYPE_COUNT \<and> c_hosts cfg (i_hostid it) = Some h)"

definition came_back :: "env \<Rightarrow> requeued \<Rightarrow> dc_host \<Rightarrow> dc_item \<Rightarrow> dc_item \<Rightarrow> bool" where
  "came_back env r h it it' \<longleftrightarrow>
    i_poller_type it' = next_poller env h it (rq_errcode r) \<and>
    i_location it' = (if i_poller_type it' < ZBX_POLLER_TYPE_COUNT then ZBX_LOC_QUEUE else ZBX_LOC_NOWHERE) \<and>
    i_state it' = rq_state r \<and> i_lastclock it' = rq_lastclock r \<and> i_delay it' = i_delay it \<and>
    (reachable_code (rq_errcode r) \<longrightarrow> rq_lastclock r < i_nextcheck it') \<and>
    (unreachable_code (rq_errcode r) \<longrightarrow>
      (if agent_failing (i_type it) h then i_nextcheck it' = DCget_disable_until (i_type it) h
       else e_clock env < i_nextcheck it'))"

lemma update_queue_insert_items:
  assumes "queues_inv cfg" "c_items cfg iid = Some it" "i_location it = ZBX_LOC_NOWHERE"
  shows "\<exists>cfg'. DCupdate_item_queue cfg iid ot on = Inr cfg' \<and> queues_inv cfg' \<and>
    c_items cfg' = (c_items cfg)(iid \<mapsto> it\<lparr>i_location :=
      if i_poller_type it < ZBX_POLLER_TYPE_COUNT then ZBX_LOC_QUEUE else ZBX_LOC_NOWHERE\<rparr>) \<and>
    c_hosts cfg' = c_hosts cfg \<and> c_flexitems cfg' = c_flexitems cfg \<and>
    c_refresh_unsupported cfg' = c_refresh_unsupported cfg"
proof -
  have c: "c_item cfg iid = it" using assms(2) by (simp add: c_item_def)
  obtain cfg' q where u: "DCupdate_item_queue cfg iid ot on = Inr cfg'" "queues_inv cfg'"
    "cfg' = (if i_poller_type it < ZBX_POLLER_TYPE_COUNT
      then set_item iid (\<lambda>it. it\<lparr>i_location := ZBX_LOC_QUEUE\<rparr>) (set_queue (i_poller_type it) q cfg) else cfg)"
    using update_queue_insert [OF assms] by blast
  have "c_items cfg' = (c_items cfg)(iid \<mapsto> it\<lparr>i_location :=
      if i_poller_type it < ZBX_POLLER_TYPE_COUNT then ZBX_LOC_QUEUE else ZBX_LOC_NOWHERE\<rparr>)"
    using assms(2,3) by (cases it) (auto simp: u(3) c)
  with u show ?thesis by auto
qed

lemma update_queue_cong:
  "f (c_item cfg i) = g (c_item cfg i) \<Longrightarrow>
    DCupdate_item_queue (set_item i f cfg) j ot on = DCupdate_item_queue (set_item i g cfg) j ot on"
  by (simp add: set_item_def)

lemma requeue_item_spec:
  assumes inv: "queues_inv cfg" and sched: "schedule_ok env cfg" and r: "comes_back cfg r"
    and it: "c_items cfg (rq_itemid r) = Some it" and h: "c_hosts cfg (i_hostid it) = Some h"
  shows "\<exists>cfg' it'. DCrequeue_item env cfg r = Some (Inr cfg') \<and> queues_inv cfg' \<and>
    poll_frame {rq_itemid r} 0 cfg cfg' \<and> c_hosts cfg' = c_hosts cfg \<and>
    c_items cfg' (rq_itemid r) = Some it' \<and> came_back env r h it it'"
proof -
  let ?iid = "rq_itemid r"
  define it1 where "it1 = store_check r it"
  define cfg1 where "cfg1 = set_item ?iid (store_check r) cfg"
  have c: "c_item cfg ?iid = it" using it by (simp add: c_item_def)
  have it1: "i_location it1 = ZBX_LOC_POLLER" "i_poller_type it1 < ZBX_POLLER_TYPE_COUNT" "i_delay it1 = i_delay it"
    "i_itemid it1 = i_itemid it" "0 \<le> i_delay it1" "0 < rq_lastclock r" "i_poller_type it1 = i_poller_type it"
    "i_hostid it1 = i_hostid it" "i_type it1 = i_type it" "i_key it1 = i_key it" "i_flags it1 = i_flags it"
    "i_state it1 = rq_state r" "i_lastclock it1 = rq_lastclock r"
    using r it sched unfolding it1_def comes_back_def schedule_ok_def by (auto simp: store_check_def)
  have cfg1: "c_items cfg1 = (c_items cfg)(?iid \<mapsto> it1)" "c_item cfg1 ?iid = it1" "c_hosts cfg1 = c_hosts cfg"
    "c_flexitems cfg1 = c_flexitems cfg" "c_refresh_unsupported cfg1 = c_refresh_unsupported cfg"
    by (simp_all add: cfg1_def it1_def c)
  have sched1: "schedule_ok env cfg1"
    using sched it1(5) by (auto simp: schedule_ok_def cfg1)
  have item: "DCrequeue_item env cfg r =
      (if reachable_code (rq_errcode r) then DCrequeue_reachable_item env cfg1 ?iid (rq_lastclock r)
       else DCrequeue_unreachable_item env cfg1 ?iid)"
    using r it codes_distinct
    by (auto simp: DCrequeue_item_def cfg1_def Let_def comes_back_def reachable_code_def unreachable_code_def)
  have returns: "\<exists>cfg' it'. DCupdate_item_queue cfg2 ?iid ot on = Inr cfg' \<and> queues_inv cfg' \<and>
      poll_frame {?iid} 0 cfg cfg' \<and> c_hosts cfg' = c_hosts cfg \<and>
      c_items cfg' ?iid = Some it' \<and> came_back env r h it it'"
    if cfg2: "cfg2 = set_item ?iid (\<lambda>it. it\<lparr>i_nextcheck := n, i_location := ZBX_LOC_NOWHERE, i_poller_type := t\<rparr>) cfg1"
      and t: "t = next_poller env h it (rq_errcode r)"
      and n: "reachable_code (rq_errcode r) \<longrightarrow> rq_lastclock r < n"
        "unreachable_code (rq_errcode r) \<longrightarrow>
          (if agent_failing (i_type it) h then n = DCget_disable_until (i_type it) h else e_clock env < n)" for cfg2 t n ot on
  proof -
    have "queues_inv cfg1"
      unfolding cfg1_def using r it
      by (intro queues_inv_set_item [OF inv it]) (auto simp: comes_back_def store_check_def)
    then have "queues_inv cfg2"
      unfolding cfg2 using it1(1)
      by (intro queues_inv_set_item [of cfg1 ?iid it1])
        (simp_all add: cfg1 ZBX_LOC_POLLER_def ZBX_LOC_QUEUE_def ZBX_LOC_NOWHERE_def)
    moreover define it2 where "it2 = it1\<lparr>i_nextcheck := n, i_location := ZBX_LOC_NOWHERE, i_poller_type := t\<rparr>"
    have cfg2s: "c_items cfg2 = (c_items cfg)(?iid \<mapsto> it2)" "c_hosts cfg2 = c_hosts cfg"
      "c_flexitems cfg2 = c_flexitems cfg" "c_refresh_unsupported cfg2 = c_refresh_unsupported cfg"
      by (simp_all add: cfg2 cfg1 it2_def)
    moreover have "c_items cfg2 ?iid = Some it2" "i_location it2 = ZBX_LOC_NOWHERE"
      by (simp_all add: cfg2s it2_def)
    ultimately obtain cfg' where u: "DCupdate_item_queue cfg2 ?iid ot on = Inr cfg'" "queues_inv cfg'"
      "c_items cfg' = (c_items cfg2)(?iid \<mapsto> it2\<lparr>i_location :=
        if i_poller_type it2 < ZBX_POLLER_TYPE_COUNT then ZBX_LOC_QUEUE else ZBX_LOC_NOWHERE\<rparr>)"
      "c_hosts cfg' = c_hosts cfg2" "c_flexitems cfg' = c_flexitems cfg2"
      "c_refresh_unsupported cfg' = c_refresh_unsupported cfg2"
      using update_queue_insert_items by metis
    have "poll_frame {?iid} 0 cfg cfg'"
      using it by (simp add: poll_frame_def u(3-) cfg2s option.rel_refl it2_def it1)
    moreover have "came_back env r h it (it2\<lparr>i_location :=
        if i_poller_type it2 < ZBX_POLLER_TYPE_COUNT then ZBX_LOC_QUEUE else ZBX_LOC_NOWHERE\<rparr>)"
      using n t by (simp add: came_back_def it2_def it1)
    ultimately show ?thesis using u cfg2s by (intro exI) (auto simp: u(3))
  qed
  have same: "it1\<lparr>i_nextcheck := n, i_location := l, i_poller_type := i_poller_type it\<rparr> =
      it1\<lparr>i_nextcheck := n, i_location := l\<rparr>" for n l
    using it1(7) by (cases it1) simp
  note step = Let_def cfg1 it1 h same
  have np: "i_poller_type it \<noteq> ZBX_NO_POLLER"
    using it1(2,7) by (auto simp: ZBX_NO_POLLER_def ZBX_POLLER_TYPE_COUNT_def)
  show ?thesis
  proof (cases "reachable_code (rq_errcode r)")
    case True
    obtain n where n: "DCget_reachable_nextcheck env cfg1 it1 (rq_lastclock r) = Some n" "rq_lastclock r < n"
      using reachable_nextcheck_future [OF sched1 it1(5,6)] by blast
    define t where "t = next_poller env h it (rq_errcode r)"
    let ?cfg2 = "set_item ?iid (\<lambda>it. it\<lparr>i_nextcheck := n, i_location := ZBX_LOC_NOWHERE, i_poller_type := t\<rparr>) cfg1"
    have "DCrequeue_item env cfg r = Some (DCupdate_item_queue ?cfg2 ?iid (i_poller_type it) n)"
      using True np unfolding item t_def next_poller_def
      by (auto simp: DCrequeue_reachable_item_def n step comp_def intro!: update_queue_cong)
    moreover from returns [OF refl t_def, of n] n(2) codes_distinct(1) [OF True]
    show ?thesis unfolding calculation by blast
  next
    case False
    then have e: "unreachable_code (rq_errcode r)" using r by (simp add: comes_back_def)
    obtain n where n: "DCget_unreachable_nextcheck env cfg1 it1 h = Some n"
      using unreachable_nextcheck_returns [OF sched1 it1(5)] by blast
    have "if agent_failing (i_type it) h then n = DCget_disable_until (i_type it) h else e_clock env < n"
      using unreachable_nextcheck_cases [OF sched1 it1(5) n] by (simp add: it1)
    moreover define t where "t = next_poller env h it (rq_errcode r)"
    let ?cfg2 = "set_item ?iid (\<lambda>it. it\<lparr>i_nextcheck := n, i_location := ZBX_LOC_NOWHERE, i_poller_type := t\<rparr>) cfg1"
    have "DCrequeue_item env cfg r = Some (DCupdate_item_queue ?cfg2 ?iid (i_poller_type it) n)"
      using False np unfolding item t_def next_poller_def
      by (auto simp: DCrequeue_unreachable_item_def n step comp_def intro!: update_queue_cong)
    ultimately show ?thesis using returns [OF refl t_def, of n] False by auto
  qed
qed

definition back_in_queue :: "env \<Rightarrow> dc_config \<Rightarrow> dc_config \<Rightarrow> requeued \<Rightarrow> bool" where
  "back_in_queue env cfg cfg' r \<longleftrightarrow> (\<exists>it h it'. c_items cfg (rq_itemid r) = Some it \<and>
    c_hosts cfg (i_hostid it) = Some h \<and> c_items cfg' (rq_itemid r) = Some it' \<and> came_back env r h it it')"

lemma requeue_items_spec:
  assumes "queues_inv cfg" "schedule_ok env cfg" "distinct (map rq_itemid rs)" "list_all (comes_back cfg) rs"
  shows "\<exists>cfg'. DCrequeue_items env cfg rs = Some (Inr cfg') \<and> queues_inv cfg' \<and>
    poll_frame (rq_itemid ` set rs) 0 cfg cfg' \<and> c_hosts cfg' = c_hosts cfg \<and>
    list_all (back_in_queue env cfg cfg') rs"
  using assms
proof (induction rs arbitrary: cfg)
  case (Cons r rs)
  from Cons.prems(4) obtain it h where it: "c_items cfg (rq_itemid r) = Some it" "c_hosts cfg (i_hostid it) = Some h"
    "comes_back cfg r" by (auto simp: comes_back_def)
  with requeue_item_spec [OF Cons.prems(1,2)] obtain cfg1 it' where step:
    "DCrequeue_item env cfg r = Some (Inr cfg1)" "queues_inv cfg1" "poll_frame {rq_itemid r} 0 cfg cfg1"
    "c_hosts cfg1 = c_hosts cfg" "c_items cfg1 (rq_itemid r) = Some it'" "came_back env r h it it'" by blast
  have same: "c_items cfg1 (rq_itemid x) = c_items cfg (rq_itemid x)" if "x \<in> set rs" for x
  proof -
    have "rq_itemid x \<noteq> rq_itemid r" using Cons.prems(3) imageI [OF that, of rq_itemid] by (metis distinct.simps(2) list.simps(9) set_map)
    then show ?thesis using step(3) by (simp add: poll_frame_def)
  qed
  have "list_all (comes_back cfg1) rs"
    using Cons.prems(4) same by (auto simp: comes_back_def list_all_iff step(4))
  then obtain cfg' where rest: "DCrequeue_items env cfg1 rs = Some (Inr cfg')" "queues_inv cfg'"
    "poll_frame (rq_itemid ` set rs) 0 cfg1 cfg'" "c_hosts cfg' = c_hosts cfg1" "list_all (back_in_queue env cfg1 cfg') rs"
    using Cons.IH [OF step(2) poll_frame_schedule [OF step(3) Cons.prems(2)]] Cons.prems(3) by auto
  have "list_all (back_in_queue env cfg cfg') rs"
    using rest(5) same by (auto simp: back_in_queue_def list_all_iff step(4))
  moreover have "c_items cfg' (rq_itemid r) = c_items cfg1 (rq_itemid r)"
    using rest(3) Cons.prems(3) by (auto simp: poll_frame_def)
  then have "back_in_queue env cfg cfg' r" using it step(5,6) by (auto simp: back_in_queue_def)
  ultimately show ?case
    using step rest poll_frame_trans [OF step(3) rest(3)] by simp
qed simp

subsection \<open>An item in a queue is moved\<close>

lemma other_order_both_ok:
  assumes "heap_compare cmp" "heap_ordered cmp xs" "i < length xs"
    and same: "\<And>j k. j < length xs \<Longrightarrow> k < length xs \<Longrightarrow> j \<noteq> i \<Longrightarrow> k \<noteq> i \<Longrightarrow> cmp' (xs ! j) (xs ! k) = cmp (xs ! j) (xs ! k)"
  shows "both_ok cmp' xs i"
proof -
  have both: "both_ok cmp xs i"
    using heap_compare.replace_both_ok [OF assms(1-3), of "xs ! i"] by simp
  have "heap_edges cmp' xs (\<lambda>j. j \<noteq> i \<and> par j \<noteq> i)"
    unfolding heap_edges_def
  proof (intro allI impI, elim conjE)
    fix j assume j: "j < length xs" "0 < j" "j \<noteq> i" "par j \<noteq> i"
    with both have "cmp (xs ! par j) (xs ! j) \<le> 0" by (simp add: both_ok_def heap_edges_def)
    then show "cmp' (xs ! par j) (xs ! j) \<le> 0" using same [of "par j" j] j by simp
  qed
  moreover have "heap_bridge cmp' xs i"
    unfolding heap_bridge_def
  proof (intro allI impI, elim conjE)
    fix j assume j: "j < length xs" "0 < i" "0 < j" "par j = i"
    with both have "cmp (xs ! par i) (xs ! j) \<le> 0" by (simp add: both_ok_def heap_bridge_def)
    moreover have "par i \<noteq> i" "j \<noteq> i" "par i < length xs" using j assms(3) by arith+
    ultimately show "cmp' (xs ! par i) (xs ! j) \<le> 0" using same [of "par i" j] j by simp
  qed
  ultimately show ?thesis by (simp add: both_ok_def)
qed

text \<open>
  When the next check of a queued item changes, \<^verbatim>\<open>DCupdate_item_queue\<close>, told the old one, moves the
  item to its new place: the queues stay in order and hold the same items.
\<close>

theorem update_item_queue_reorders:
  assumes inv: "queues_inv cfg" and it: "c_items cfg iid = Some it" "i_location it = ZBX_LOC_QUEUE"
    and f: "i_itemid (f it) = i_itemid it" "i_location (f it) = i_location it" "i_poller_type (f it) = i_poller_type it"
    and n: "i_nextcheck (f it) = i_nextcheck it \<longrightarrow> i_interfaceid (f it) = i_interfaceid it"
  shows "\<exists>cfg'. DCupdate_item_queue (set_item iid f cfg) iid (i_poller_type it) (i_nextcheck it) = Inr cfg' \<and>
    queues_inv cfg' \<and> c_items cfg' = (c_items cfg)(iid \<mapsto> f it)"
proof -
  let ?p = "i_poller_type it" and ?cfg = "set_item iid f cfg" and ?e = "\<lparr>he_key = iid, he_data = iid\<rparr>"
  let ?es = "hp_elems (c_queues cfg ?p)"
  have c: "c_item cfg iid = it" using it(1) by (simp add: c_item_def)
  have p: "?p < ZBX_POLLER_TYPE_COUNT" using inv it by (auto simp: queues_inv_def)
  note hp = queues_invD(1,2) [OF inv p]
  note data = queues_invD(3) [OF inv p]
  note loc = ZBX_LOC_QUEUE_def ZBX_LOC_POLLER_def
  show ?thesis
  proof (cases "i_nextcheck (f it) = i_nextcheck it")
    case True
    have "DCupdate_item_queue ?cfg iid ?p (i_nextcheck it) = Inr ?cfg"
      using it(2) f True p by (simp add: DCupdate_item_queue_def c loc Let_def not_le)
    moreover have "queues_inv ?cfg" using f n True by (intro queues_inv_set_item [OF inv it(1)]) simp_all
    ultimately show ?thesis by (simp add: c)
  next
    case False
    have "iid \<in> queue_keys cfg ?p" using queues_invD(4) [OF inv p, of iid] it by simp
    then obtain i where i: "i < length ?es" "he_key (?es ! i) = iid" by (auto simp: queue_keys_def in_set_conv_nth)
    then have ei: "?es ! i = ?e" using data [OF nth_mem [OF i(1)]] by (cases "?es ! i") simp
    have dist: "distinct (map he_key ?es)" using hp by (simp add: hp_inv_def hp_indexed_def)
    have "queue_compare ?cfg ?p (?es ! j) (?es ! k) = queue_compare cfg ?p (?es ! j) (?es ! k)"
      if "j < length ?es" "k < length ?es" "j \<noteq> i" "k \<noteq> i" for j k
    proof (rule queue_compare_cong)
      have "he_data (?es ! l) \<noteq> iid" if "l < length ?es" "l \<noteq> i" for l
        using that i dist data [OF nth_mem [OF that(1)]] nth_eq_iff_index_eq [OF dist, of l i] by auto
      then have "he_data (?es ! j) \<noteq> iid" "he_data (?es ! k) \<noteq> iid" using that by blast+
      then show "i_nextcheck (c_item ?cfg (he_data e)) = i_nextcheck (c_item cfg (he_data e)) \<and>
          i_interfaceid (c_item ?cfg (he_data e)) = i_interfaceid (c_item cfg (he_data e))"
        if "e \<in> {?es ! j, ?es ! k}" for e using that by auto
    qed simp
    then have "both_ok (queue_compare ?cfg ?p) ?es i"
      using hp i(1) by (intro other_order_both_ok [OF poller_queue.heap_compare_axioms [of cfg ?p]])
        (simp_all add: hp_inv_def)
    then obtain q where q: "zbx_binary_heap_update_direct (queue ?cfg ?p) ?e = Inr q" "hp_inv q"
        "mset (hp_elems q) = mset (?es[i := ?e])" "hp_compare_func q = queue_compare ?cfg ?p"
      using heap_update_both_aux [of "queue ?cfg ?p" i ?e] hp i ei
      by (auto simp: poller_queue.heap_compare_axioms hp_inv_def list_update_id [of ?es i, unfolded ei])
    have es: "set (hp_elems q) = set ?es"
      using q(3) list_update_id [of ?es i] by (metis ei set_mset_mset)
    have dir: "HAS_DIRECT_OPTION q"
      using HAS_DIRECT_cong [OF heap_op_options(2) [OF q(1)]] hp(2) by simp
    let ?cfg' = "set_queue ?p q ?cfg"
    have "DCupdate_item_queue ?cfg iid ?p (i_nextcheck it) = Inr ?cfg'"
      using it(2) f False p q(1) by (simp add: DCupdate_item_queue_def c loc Let_def not_le put_queue_def)
    moreover have "queue_ok ?cfg' p'" if p': "p' < ZBX_POLLER_TYPE_COUNT" for p'
    proof (cases "p' = ?p")
      case True
      then show ?thesis using q dir es data queue_set_queue [OF q(4)] by (simp add: queue_ok_def)
    next
      case False
      show ?thesis
      proof (rule queue_ok_frame [of cfg])
        fix j assume "j \<in> queue_keys cfg p'"
        with queues_invD(4) [OF inv p', of j] it False have "j \<noteq> iid" by auto
        then show "i_nextcheck (c_item ?cfg' j) = i_nextcheck (c_item cfg j) \<and>
          i_interfaceid (c_item ?cfg' j) = i_interfaceid (c_item cfg j)" by simp
      qed (use inv p' False in \<open>simp_all add: queues_inv_def\<close>)
    qed
    moreover have "queue_keys ?cfg' p' = queue_keys cfg p'" for p' by (simp add: queue_keys_def es)
    ultimately have "queues_inv ?cfg'"
      using inv it f unfolding queues_inv_def by (auto simp: c)
    then show ?thesis
      using \<open>DCupdate_item_queue ?cfg iid ?p (i_nextcheck it) = Inr ?cfg'\<close> by (simp add: c)
  qed
qed

subsection \<open>What pollers rely on\<close>


text \<open>
  C24. When a poller gives back the items it took, each with success, not supported or an agent, network or
  gateway error (the code FAIL leaves an item with the poller), every item has the poller type that
  its code asks for and is in the queue of that type, unless no poller of the type is started. After success, not
  supported and an agent error its next check is later than the check reported; after a network or gateway
  error it is the time the host's agent waits for, when an error of the agent is recorded, and later than now
  otherwise. The queues are in order.
\<close>

theorem poll_requeue_cycle:
  assumes "queues_inv cfg" "schedule_ok env cfg" "p < ZBX_POLLER_TYPE_COUNT"
    and poll: "DCconfig_get_poller_items env p max_items cfg = Some (Inr (cfg1, taken))"
    and ids: "map rq_itemid rs = map (i_itemid \<circ> snd) taken"
    and codes: "list_all (\<lambda>r. 0 < rq_lastclock r \<and> (reachable_code (rq_errcode r) \<or> unreachable_code (rq_errcode r))) rs"
  shows "\<exists>cfg'. DCrequeue_items env cfg1 rs = Some (Inr cfg') \<and> queues_inv cfg' \<and>
    list_all (back_in_queue env cfg1 cfg') rs"
proof -
  let ?now = "e_clock env"
  from poll poll_loop_spec [OF assms(1,3,2) refl, of "[]" max_items]
  have res: "poll_result p ?now cfg cfg1 taken" by (simp add: DCconfig_get_poller_items_def)
  then have inv1: "queues_inv cfg1" and sched1: "schedule_ok env cfg1"
    using assms(2) poll_frame_schedule by (auto simp: poll_result_def)
  have "comes_back cfg1 r" if "r \<in> set rs" for r
  proof -
    have "rq_itemid r \<in> set (map (i_itemid \<circ> snd) taken)" unfolding ids [symmetric] using that by simp
    then obtain it where it: "rq_itemid r = i_itemid it" "polled p ?now cfg cfg1 it"
      using res by (auto simp: poll_result_def)
    then obtain h where "c_hosts cfg (i_hostid it) = Some h" by (auto simp: polled_def)
    moreover have "rel_option (host_le ?now) (c_hosts cfg (i_hostid it)) (c_hosts cfg1 (i_hostid it))"
      using res by (simp add: poll_result_def poll_frame_def)
    ultimately obtain h' where "c_hosts cfg1 (i_hostid it) = Some h'" by (auto simp: option_rel_Some1)
    moreover have "i_poller_type it = p" using it(2) by (auto simp: polled_def due_def)
    ultimately show ?thesis
      using it assms(3) codes that by (auto simp: comes_back_def polled_def list_all_iff)
  qed
  moreover have "distinct (map rq_itemid rs)" using res unfolding ids by (simp add: poll_result_def)
  ultimately have "list_all (comes_back cfg1) rs" "distinct (map rq_itemid rs)" by (simp_all add: list_all_iff)
  then show ?thesis using requeue_items_spec [OF inv1 sched1, of rs] by blast
qed

lemma queue_find_min:
  assumes "queues_inv cfg" "p < ZBX_POLLER_TYPE_COUNT" "hp_elems (c_queues cfg p) \<noteq> []"
  obtains m it where "zbx_binary_heap_find_min (queue cfg p) = Inr m" "hp_elems (c_queues cfg p) ! 0 = m"
    "c_items cfg (he_data m) = Some it" "i_location it = ZBX_LOC_QUEUE" "i_poller_type it = p"
    "\<And>iid it'. c_items cfg iid = Some it' \<Longrightarrow> i_location it' = ZBX_LOC_QUEUE \<Longrightarrow> i_poller_type it' = p \<Longrightarrow>
      i_nextcheck it \<le> i_nextcheck it'"
proof -
  from take_min [OF assms] obtain m it where m: "zbx_binary_heap_find_min (queue cfg p) = Inr m"
    "c_items cfg (he_data m) = Some it" "i_location it = ZBX_LOC_QUEUE" "i_poller_type it = p"
    "\<And>iid it'. c_items cfg iid = Some it' \<Longrightarrow> i_location it' = ZBX_LOC_QUEUE \<Longrightarrow> i_poller_type it' = p \<Longrightarrow>
      i_nextcheck it \<le> i_nextcheck it'" by metis
  moreover have "hp_elems (c_queues cfg p) ! 0 = m"
    using m(1) assms(3) by (simp add: zbx_binary_heap_find_min_def)
  ultimately show thesis using that by blast
qed

text \<open>
  The time a poller sleeps until is the least next check of the items in its queue, FAIL when there is none.
\<close>

theorem poller_nextcheck_least:
  assumes "queues_inv cfg" "p < ZBX_POLLER_TYPE_COUNT"
    and "N = {n. \<exists>iid it. c_items cfg iid = Some it \<and> i_location it = ZBX_LOC_QUEUE \<and> i_poller_type it = p \<and>
      i_nextcheck it = n}"
  shows "DCconfig_get_poller_nextcheck cfg p = Inr (if N = {} then FAIL else Min N)"
proof (cases "hp_elems (c_queues cfg p) = []")
  case True
  then have "N = {}" using queues_invD(4) [OF assms(1,2)] by (auto simp: assms(3) queue_keys_def)
  with True show ?thesis by (simp add: DCconfig_get_poller_nextcheck_def zbx_binary_heap_empty_def)
next
  case False
  from queue_find_min [OF assms(1,2) this] obtain m it where m: "zbx_binary_heap_find_min (queue cfg p) = Inr m"
    "c_items cfg (he_data m) = Some it" "i_location it = ZBX_LOC_QUEUE" "i_poller_type it = p"
    "\<And>iid it'. c_items cfg iid = Some it' \<Longrightarrow> i_location it' = ZBX_LOC_QUEUE \<Longrightarrow> i_poller_type it' = p \<Longrightarrow>
      i_nextcheck it \<le> i_nextcheck it'" by metis
  have "N = (\<lambda>iid. i_nextcheck (c_item cfg iid)) ` queue_keys cfg p"
    using queues_invD(4) [OF assms(1,2)] unfolding assms(3) by (force simp: c_item_def)
  then have "finite N" by (simp add: queue_keys_def)
  moreover have "i_nextcheck it \<in> N" "\<And>n. n \<in> N \<Longrightarrow> i_nextcheck it \<le> n"
    using m by (auto simp: assms(3))
  ultimately have "Min N = i_nextcheck it" "N \<noteq> {}" by (auto intro: Min_eqI)
  with m False show ?thesis
    by (simp add: DCconfig_get_poller_nextcheck_def zbx_binary_heap_empty_def c_item_def)
qed

text \<open>
  C25. But \<^verbatim>\<open>DCrequeue_reachable_item\<close> reads the old next check only after it has stored the new one. When a
  result arrives for an item that is in a queue (not with a poller), the item therefore keeps its place: if
  it was at the top, the queue is out of order afterwards, and its pollers sleep beyond the next
  check of another item.
\<close>

theorem requeue_queued_item_stays:
  assumes inv: "queues_inv cfg" and sched: "schedule_ok env cfg"
    and it: "c_items cfg (rq_itemid r) = Some it" "i_location it = ZBX_LOC_QUEUE"
      "i_poller_type it \<noteq> ZBX_POLLER_TYPE_UNREACHABLE"
    and top: "zbx_binary_heap_find_min (queue cfg (i_poller_type it)) = Inr m" "he_data m = rq_itemid r"
    and code: "reachable_code (rq_errcode r)" "0 < rq_lastclock r"
    and other: "c_items cfg iid = Some it2" "i_location it2 = ZBX_LOC_QUEUE" "i_poller_type it2 = i_poller_type it"
      "i_nextcheck it2 \<le> rq_lastclock r" "iid \<noteq> rq_itemid r"
  shows "\<exists>cfg' n. DCrequeue_items env cfg [r] = Some (Inr cfg') \<and> \<not> queues_inv cfg' \<and>
    DCconfig_get_poller_nextcheck cfg' (i_poller_type it) = Inr n \<and>
    c_items cfg' iid = Some it2 \<and> i_nextcheck it2 < n"
proof -
  let ?iid = "rq_itemid r" and ?p = "i_poller_type it"
  have p: "?p < ZBX_POLLER_TYPE_COUNT" using inv it by (auto simp: queues_inv_def)
  have c: "c_item cfg ?iid = it" using it(1) by (simp add: c_item_def)
  define it1 where "it1 = store_check r it"
  have it1: "i_delay it1 = i_delay it" "i_poller_type it1 = ?p" "i_location it1 = ZBX_LOC_QUEUE"
    by (simp_all add: it1_def store_check_def it(2))
  define cfg1 where "cfg1 = set_item ?iid (store_check r) cfg"
  have cfg1: "c_item cfg1 ?iid = it1" by (simp add: cfg1_def it1_def c)
  have d: "0 \<le> i_delay it1" using sched it(1) unfolding it1 schedule_ok_def by blast
  moreover from this have "schedule_ok env cfg1"
    using sched by (auto simp: schedule_ok_def cfg1_def c it1_def)
  ultimately obtain n where n: "DCget_reachable_nextcheck env cfg1 it1 (rq_lastclock r) = Some n" "rq_lastclock r < n"
    using reachable_nextcheck_future code(2) by blast
  let ?cfg = "set_item ?iid (\<lambda>it. it\<lparr>i_nextcheck := n\<rparr>) cfg1"
  have np: "?p \<noteq> ZBX_NO_POLLER" using p by (auto simp: ZBX_NO_POLLER_def ZBX_POLLER_TYPE_COUNT_def)
  have "DCupdate_item_queue ?cfg ?iid ?p n = Inr ?cfg"
    using p by (simp add: DCupdate_item_queue_def cfg1 it1 ZBX_LOC_QUEUE_def ZBX_LOC_POLLER_def Let_def)
  then have "DCrequeue_reachable_item env cfg1 ?iid (rq_lastclock r) = Some (Inr ?cfg)"
    using np it(3) n(1)
    by (simp add: DCrequeue_reachable_item_def Let_def cfg1 it1 ZBX_LOC_QUEUE_def ZBX_LOC_POLLER_def)
  then have run: "DCrequeue_items env cfg [r] = Some (Inr ?cfg)"
    using code(1) codes_distinct(1) [OF code(1)] it(1)
    by (auto simp: DCrequeue_item_def Let_def cfg1_def reachable_code_def)
  have ne: "hp_elems (c_queues cfg ?p) \<noteq> []" using top(1) by (auto simp: zbx_binary_heap_find_min_def)
  have find: "zbx_binary_heap_find_min (queue ?cfg ?p) = Inr m"
    using top(1) ne by (simp add: zbx_binary_heap_find_min_def cfg1_def)
  have nc: "DCconfig_get_poller_nextcheck ?cfg ?p = Inr n"
    using ne find top(2) cfg1 by (simp add: DCconfig_get_poller_nextcheck_def zbx_binary_heap_empty_def cfg1_def)
  have o: "c_items ?cfg iid = Some it2" using other by (simp add: cfg1_def)
  have "\<not> queues_inv ?cfg"
  proof
    assume inv': "queues_inv ?cfg"
    have "hp_elems (c_queues ?cfg ?p) \<noteq> []" using ne by (simp add: cfg1_def)
    from queue_find_min [OF inv' p this] obtain m' it' where m': "zbx_binary_heap_find_min (queue ?cfg ?p) = Inr m'"
      "c_items ?cfg (he_data m') = Some it'"
      "\<And>iid it''. c_items ?cfg iid = Some it'' \<Longrightarrow> i_location it'' = ZBX_LOC_QUEUE \<Longrightarrow> i_poller_type it'' = ?p \<Longrightarrow>
        i_nextcheck it' \<le> i_nextcheck it''" by metis
    then have "m' = m" using find by simp
    with m'(2) top(2) have "i_nextcheck it' = n" by (simp add: cfg1) auto
    with m'(3) [OF o other(2,3)] n(2) other(4) show False by simp
  qed
  with run nc o n(2) other(4) show ?thesis by (intro exI [of _ ?cfg] exI [of _ n]) simp
qed

subsection \<open>Witnesses\<close>

text \<open>A server with one host and two agent items in the queue of the pollers, both due.\<close>

definition env_example :: env where
  "env_example = \<lparr>e_localtime = (\<lambda>t. \<lparr>tm_wday = 2, tm_hour = 9, tm_min = 30, tm_sec = 0\<rparr>), e_clock = 1000,
     e_avail = avail_conf_default, CONFIG_PINGER_FORKS = 1, CONFIG_POLLER_FORKS = 1,
     CONFIG_IPMIPOLLER_FORKS = 0, CONFIG_JAVAPOLLER_FORKS = 0\<rparr>"

definition item_example :: "u64 \<Rightarrow> int \<Rightarrow> dc_item" where
  "item_example iid nextcheck = \<lparr>i_itemid = iid, i_hostid = 10, i_interfaceid = 1, i_lastlogsize = 0,
     i_key = ''agent.ping'', i_delay = 30, i_nextcheck = nextcheck, i_lastclock = 0, i_mtime = 0,
     i_type = ITEM_TYPE_ZABBIX, i_poller_type = ZBX_POLLER_TYPE_NORMAL, i_state = ITEM_STATE_NORMAL,
     i_location = ZBX_LOC_NOWHERE, i_flags = 0\<rparr>"

definition config_unqueued :: dc_config where
  "config_unqueued = \<lparr>c_items = [7 \<mapsto> item_example 7 990, 8 \<mapsto> item_example 8 995], c_flexitems = Map.empty,
     c_jmxitems = Map.empty, c_hosts = [10 \<mapsto> host_example],
     c_queues = (\<lambda>p. zbx_binary_heap_create (\<lambda>a b. 0) ZBX_BINARY_HEAP_OPTION_DIRECT), c_refresh_unsupported = 600\<rparr>"

definition queued :: "u64 \<Rightarrow> dc_config \<Rightarrow> dc_config" where
  "queued iid cfg = (case DCupdate_item_queue cfg iid 0 0 of Inr cfg' \<Rightarrow> cfg' | Inl _ \<Rightarrow> cfg)"

definition config_example :: dc_config where
  "config_example = queued 8 (queued 7 config_unqueued)"

lemma item_example_simps [simp]:
  "i_itemid (item_example iid n) = iid" "i_location (item_example iid n) = ZBX_LOC_NOWHERE"
  "i_poller_type (item_example iid n) = ZBX_POLLER_TYPE_NORMAL" "i_nextcheck (item_example iid n) = n"
  "i_hostid (item_example iid n) = 10" "i_delay (item_example iid n) = 30" "i_type (item_example iid n) = ITEM_TYPE_ZABBIX"
  by (simp_all add: item_example_def)

lemma queued_spec:
  assumes "queues_inv cfg" "c_items cfg iid = Some it" "i_location it = ZBX_LOC_NOWHERE"
    "i_poller_type it = ZBX_POLLER_TYPE_NORMAL"
  shows "queues_inv (queued iid cfg)" "c_items (queued iid cfg) = (c_items cfg)(iid \<mapsto> it\<lparr>i_location := ZBX_LOC_QUEUE\<rparr>)"
    "c_hosts (queued iid cfg) = c_hosts cfg" "c_flexitems (queued iid cfg) = c_flexitems cfg"
    "c_refresh_unsupported (queued iid cfg) = c_refresh_unsupported cfg"
  using update_queue_insert_items [OF assms(1-3), of 0 0] assms(4)
  by (auto simp: queued_def ZBX_POLLER_TYPE_NORMAL_def ZBX_POLLER_TYPE_COUNT_def)

lemma create_compare:
  "(zbx_binary_heap_create cmp opts)\<lparr>hp_compare_func := cmp'\<rparr> = zbx_binary_heap_create cmp' opts"
  "hp_elems (zbx_binary_heap_create cmp opts) = []"
  "HAS_DIRECT_OPTION (zbx_binary_heap_create cmp ZBX_BINARY_HEAP_OPTION_DIRECT)"
  by (simp_all add: zbx_binary_heap_create_def Let_def HAS_DIRECT_OPTION_def ZBX_BINARY_HEAP_OPTION_DIRECT_def)

lemma config_unqueued_inv: "queues_inv config_unqueued"
proof -
  have "queue_ok config_unqueued p \<and> queue_keys config_unqueued p = {}" for p
  proof -
    have "c_queues config_unqueued p = zbx_binary_heap_create (\<lambda>a b. 0) ZBX_BINARY_HEAP_OPTION_DIRECT"
      by (simp add: config_unqueued_def)
    then show ?thesis by (simp add: queue_ok_def queue_keys_def queue_def create_compare hp_inv_create)
  qed
  then show ?thesis
    unfolding queues_inv_def by (auto simp: config_unqueued_def ZBX_LOC_NOWHERE_def ZBX_LOC_QUEUE_def split: if_splits)
qed

lemma config_example_facts:
  "queues_inv config_example"
  "c_items config_example = [7 \<mapsto> (item_example 7 990)\<lparr>i_location := ZBX_LOC_QUEUE\<rparr>,
    8 \<mapsto> (item_example 8 995)\<lparr>i_location := ZBX_LOC_QUEUE\<rparr>]"
  "c_hosts config_example = [10 \<mapsto> host_example]" "c_flexitems config_example = Map.empty"
  "c_refresh_unsupported config_example = 600"
proof -
  have u: "c_items config_unqueued = [7 \<mapsto> item_example 7 990, 8 \<mapsto> item_example 8 995]"
    "c_hosts config_unqueued = [10 \<mapsto> host_example]" "c_flexitems config_unqueued = Map.empty"
    "c_refresh_unsupported config_unqueued = 600"
    by (simp_all add: config_unqueued_def)
  have "c_items config_unqueued 7 = Some (item_example 7 990)" by (simp add: u)
  note q7 = queued_spec [OF config_unqueued_inv this item_example_simps(2,3)]
  have "c_items (queued 7 config_unqueued) 8 = Some (item_example 8 995)" by (simp add: q7 u)
  note q8 = queued_spec [OF q7(1) this item_example_simps(2,3)]
  show "queues_inv config_example" using q8(1) by (simp add: config_example_def)
  show "c_items config_example = [7 \<mapsto> (item_example 7 990)\<lparr>i_location := ZBX_LOC_QUEUE\<rparr>,
      8 \<mapsto> (item_example 8 995)\<lparr>i_location := ZBX_LOC_QUEUE\<rparr>]"
    by (simp add: config_example_def q8 q7 u fun_upd_twist)
  show "c_hosts config_example = [10 \<mapsto> host_example]" "c_flexitems config_example = Map.empty"
    "c_refresh_unsupported config_example = 600"
    by (simp_all add: config_example_def q8 q7 u)
qed

lemma env_example_schedule: "schedule_ok env_example config_example"
  by (auto simp: schedule_ok_def env_example_def config_example_facts tm_ok_def split: if_splits)

lemma example_due: "due ZBX_POLLER_TYPE_NORMAL 1000 config_example = {7, 8}"
  by (auto simp: due_def config_example_facts split: if_splits)

lemma normal_poller: "ZBX_POLLER_TYPE_NORMAL < ZBX_POLLER_TYPE_COUNT" "ZBX_POLLER_TYPE_NORMAL \<noteq> ZBX_POLLER_TYPE_JAVA"
  "ZBX_POLLER_TYPE_NORMAL \<noteq> ZBX_POLLER_TYPE_UNREACHABLE"
  by (simp_all add: ZBX_POLLER_TYPE_NORMAL_def ZBX_POLLER_TYPE_COUNT_def ZBX_POLLER_TYPE_JAVA_def
      ZBX_POLLER_TYPE_UNREACHABLE_def)


lemma poll_requeue_cycle_witness:
  "\<exists>cfg1 taken rs cfg'. DCconfig_get_poller_items env_example ZBX_POLLER_TYPE_NORMAL 128 config_example =
      Some (Inr (cfg1, taken)) \<and>
    rs = map (\<lambda>x. \<lparr>rq_itemid = i_itemid (snd x), rq_state = ITEM_STATE_NORMAL, rq_lastclock = 1000,
      rq_lastlogsize = None, rq_mtime = None, rq_errcode = NETWORK_ERROR\<rparr>) taken \<and>
    DCrequeue_items env_example cfg1 rs = Some (Inr cfg') \<and> queues_inv cfg' \<and>
    list_all (back_in_queue env_example cfg1 cfg') rs"
proof -
  obtain cfg1 taken where poll: "DCconfig_get_poller_items env_example ZBX_POLLER_TYPE_NORMAL 128 config_example =
      Some (Inr (cfg1, taken))"
    using poll_loop_spec [OF config_example_facts(1) normal_poller(1) env_example_schedule refl, of "[]" 128]
    by (auto simp: DCconfig_get_poller_items_def)
  let ?rs = "map (\<lambda>x. \<lparr>rq_itemid = i_itemid (snd x), rq_state = ITEM_STATE_NORMAL, rq_lastclock = 1000,
      rq_lastlogsize = None, rq_mtime = None, rq_errcode = NETWORK_ERROR\<rparr>) taken"
  have "map rq_itemid ?rs = map (i_itemid \<circ> snd) taken" by simp
  moreover have "list_all (\<lambda>r. 0 < rq_lastclock r \<and> (reachable_code (rq_errcode r) \<or> unreachable_code (rq_errcode r))) ?rs"
    by (simp add: list_all_iff unreachable_code_def)
  ultimately show ?thesis
    using poll_requeue_cycle [OF config_example_facts(1) env_example_schedule normal_poller(1) poll, of ?rs] poll by blast
qed

lemma update_item_queue_reorders_witness:
  "\<exists>cfg'. DCupdate_item_queue (set_item 7 (\<lambda>it. it\<lparr>i_nextcheck := 1020\<rparr>) config_example) 7 ZBX_POLLER_TYPE_NORMAL 990 =
      Inr cfg' \<and> queues_inv cfg'"
  using update_item_queue_reorders [OF config_example_facts(1), of 7 "(item_example 7 990)\<lparr>i_location := ZBX_LOC_QUEUE\<rparr>"
      "\<lambda>it. it\<lparr>i_nextcheck := 1020\<rparr>"]
  by (auto simp: config_example_facts)

lemma poller_nextcheck_least_witness:
  "DCconfig_get_poller_nextcheck config_example ZBX_POLLER_TYPE_NORMAL = Inr 990"
proof -
  have "{n. \<exists>iid it. c_items config_example iid = Some it \<and> i_location it = ZBX_LOC_QUEUE \<and>
      i_poller_type it = ZBX_POLLER_TYPE_NORMAL \<and> i_nextcheck it = n} = {990, 995}"
    by (auto simp: config_example_facts split: if_splits) (rule exI [of _ 8], simp)
  with poller_nextcheck_least [OF config_example_facts(1) normal_poller(1) refl] show ?thesis by simp
qed

lemma requeue_queued_item_stays_witness:
  "\<exists>cfg' n. DCrequeue_items env_example config_example [\<lparr>rq_itemid = 7, rq_state = ITEM_STATE_NORMAL, rq_lastclock = 1000,
      rq_lastlogsize = None, rq_mtime = None, rq_errcode = 0\<rparr>] = Some (Inr cfg') \<and> \<not> queues_inv cfg' \<and>
    DCconfig_get_poller_nextcheck cfg' ZBX_POLLER_TYPE_NORMAL = Inr n \<and> 995 < n"
proof -
  have keys: "7 \<in> queue_keys config_example ZBX_POLLER_TYPE_NORMAL"
    using queues_invD(4) [OF config_example_facts(1) normal_poller(1), of 7] by (simp add: config_example_facts)
  then have "hp_elems (c_queues config_example ZBX_POLLER_TYPE_NORMAL) \<noteq> []" by (auto simp: queue_keys_def)
  from queue_find_min [OF config_example_facts(1) normal_poller(1) this] obtain m it where
    m: "zbx_binary_heap_find_min (queue config_example ZBX_POLLER_TYPE_NORMAL) = Inr m"
    "c_items config_example (he_data m) = Some it"
    and min: "\<And>iid it'. c_items config_example iid = Some it' \<Longrightarrow> i_location it' = ZBX_LOC_QUEUE \<Longrightarrow>
      i_poller_type it' = ZBX_POLLER_TYPE_NORMAL \<Longrightarrow> i_nextcheck it \<le> i_nextcheck it'" by metis
  have "i_nextcheck it \<le> 990"
    using min [of 7 "(item_example 7 990)\<lparr>i_location := ZBX_LOC_QUEUE\<rparr>"] by (simp add: config_example_facts)
  with m(2) have top: "he_data m = 7" by (auto simp: config_example_facts split: if_splits)
  show ?thesis
    using requeue_queued_item_stays [OF config_example_facts(1) env_example_schedule, of
        "\<lparr>rq_itemid = 7, rq_state = ITEM_STATE_NORMAL, rq_lastclock = 1000, rq_lastlogsize = None, rq_mtime = None,
          rq_errcode = 0\<rparr>" "(item_example 7 990)\<lparr>i_location := ZBX_LOC_QUEUE\<rparr>" m 8
        "(item_example 8 995)\<lparr>i_location := ZBX_LOC_QUEUE\<rparr>"] m(1) top normal_poller(3)
    by (auto simp: config_example_facts reachable_code_def)
qed

end
