(* ===== verification/TriggerDeps.thy ===== *)
theory TriggerDeps
  imports Prelude
begin

text \<open>
  Trigger dependencies in the configuration cache, \<^verbatim>\<open>src/libs/zbxdbcache/dbconfig.c\<close>: how \<^verbatim>\<open>DCsync_trigdeps\<close> builds
  the graph from the rows of the database, and the test of \<^verbatim>\<open>DCconfig_check_trigger_dependencies\<close>
  that keeps a trigger from changing while one it depends on has a problem. The hash sets of
  triggers and of dependency lists are finite maps; pointers to their entries are identifiers.
\<close>

record dc_trigger =
  t_value :: u8
  t_state :: u8

text \<open>
  \<open>td_trigger\<close> says whether the pointer to the trigger (which has the same identifier) is set, and a list
  of dependencies is an array that ends with NULL.
\<close>

record trigger_deplist =
  td_trigger :: bool
  td_dependencies :: "u64 list option"

type_synonym triggers = "u64 \<rightharpoonup> dc_trigger"
type_synonym trigdeps = "u64 \<rightharpoonup> trigger_deplist"

definition TRIGGER_VALUE_PROBLEM :: u8 where "TRIGGER_VALUE_PROBLEM = 1"
definition TRIGGER_STATE_NORMAL :: u8 where "TRIGGER_STATE_NORMAL = 0"

subsection \<open>Synchronisation\<close>

text \<open>\<open>junk\<close> is what the fields of a new entry hold: the entry is copied from an uninitialised buffer.\<close>

definition DCfind_id :: "trigger_deplist \<Rightarrow> trigdeps \<Rightarrow> u64 \<Rightarrow> trigdeps \<times> bool" where
  "DCfind_id junk deps i = (case deps i of None \<Rightarrow> (deps(i \<mapsto> junk), False) | Some _ \<Rightarrow> (deps, True))"

definition td_set :: "u64 \<Rightarrow> (trigger_deplist \<Rightarrow> trigger_deplist) \<Rightarrow> trigdeps \<Rightarrow> trigdeps" where
  "td_set i f deps = deps(i \<mapsto> f (the (deps i)))"

record sync_trigdeps =
  sy_trigdeps :: trigdeps
  sy_triggerid :: u64
  sy_down :: "u64 option"
  sy_dependencies :: "u64 list"
  sy_ids_down :: "u64 list"
  sy_ids_up :: "u64 list"

definition store_dependencies :: "sync_trigdeps \<Rightarrow> trigdeps" where
  "store_dependencies sy =
    (case sy_down sy of
       None \<Rightarrow> sy_trigdeps sy
     | Some down \<Rightarrow> td_set down (\<lambda>td. td\<lparr>td_dependencies := Some (sy_dependencies sy)\<rparr>) (sy_trigdeps sy))"

definition sync_row :: "trigger_deplist \<Rightarrow> triggers \<Rightarrow> u64 \<times> u64 \<Rightarrow> sync_trigdeps \<Rightarrow> sync_trigdeps" where
  "sync_row junk triggers = (\<lambda>(triggerid_down, triggerid_up) sy.
    (let sy1 =
          (if sy_triggerid sy \<noteq> triggerid_down then
             (let deps1 = store_dependencies sy;
                  dependencies = (if sy_down sy \<noteq> None then [] else sy_dependencies sy);
                  (deps2, found) = DCfind_id junk deps1 triggerid_down;
                  deps3 = td_set triggerid_down (\<lambda>td. td\<lparr>td_trigger := (triggers triggerid_down \<noteq> None)\<rparr>) deps2;
                  deps4 = (if \<not> found then td_set triggerid_down (\<lambda>td. td\<lparr>td_dependencies := None\<rparr>) deps3 else deps3)
              in sy\<lparr>sy_trigdeps := deps4, sy_triggerid := triggerid_down, sy_down := Some triggerid_down,
                    sy_dependencies := dependencies, sy_ids_down := sy_ids_down sy @ [triggerid_down]\<rparr>)
           else sy);
         (deps5, found) = DCfind_id junk (sy_trigdeps sy1) triggerid_up;
         deps6 = (if \<not> found then td_set triggerid_up (\<lambda>td. td\<lparr>td_dependencies := None\<rparr>) deps5 else deps5)
     in sy1\<lparr>sy_trigdeps := deps6, sy_ids_up := sy_ids_up sy1 @ [triggerid_up],
            sy_dependencies := sy_dependencies sy1 @ [triggerid_up]\<rparr>))"

text \<open>
  The binary searches look in sorted vectors: the rows come ordered by \<^verbatim>\<open>triggerid_down\<close>, and the vector of
  the others is sorted first.
\<close>

definition sync_sweep :: "triggers \<Rightarrow> u64 list \<Rightarrow> u64 list \<Rightarrow> trigdeps \<Rightarrow> trigdeps" where
  "sync_sweep triggers ids_down ids_up deps = (\<lambda>i.
    case deps i of
      None \<Rightarrow> None
    | Some td \<Rightarrow>
        if i \<in> set ids_down then Some td
        else if i \<in> set (sort ids_up) then
          Some (td\<lparr>td_trigger := (triggers i \<noteq> None), td_dependencies := None\<rparr>)
        else None)"

definition DCsync_trigdeps :: "trigger_deplist \<Rightarrow> triggers \<Rightarrow> (u64 \<times> u64) list \<Rightarrow> trigdeps \<Rightarrow> trigdeps" where
  "DCsync_trigdeps junk triggers rows deps =
    (let sy = fold (sync_row junk triggers) rows
           \<lparr>sy_trigdeps = deps, sy_triggerid = 0, sy_down = None, sy_dependencies = [], sy_ids_down = [],
            sy_ids_up = []\<rparr>
     in sync_sweep triggers (sy_ids_down sy) (sy_ids_up sy) (store_dependencies sy))"

subsection \<open>The test\<close>

definition has_problem :: "triggers \<Rightarrow> trigdeps \<Rightarrow> u64 \<Rightarrow> bool" where
  "has_problem triggers deps i \<longleftrightarrow>
    (case deps i of
       Some td \<Rightarrow> td_trigger td \<and>
         (case triggers i of Some t \<Rightarrow> t_value t = TRIGGER_VALUE_PROBLEM \<and> t_state t = TRIGGER_STATE_NORMAL
          | None \<Rightarrow> False)
     | None \<Rightarrow> False)"

function check_dependencies_rec :: "triggers \<Rightarrow> trigdeps \<Rightarrow> u64 \<Rightarrow> nat \<Rightarrow> zres"
  and check_each :: "triggers \<Rightarrow> trigdeps \<Rightarrow> u64 list \<Rightarrow> nat \<Rightarrow> zres" where
  "check_dependencies_rec triggers deps i level =
    (if 32 < level then Succeed
     else (case td_dependencies (the (deps i)) of
       None \<Rightarrow> Succeed
     | Some dependencies \<Rightarrow> check_each triggers deps dependencies level))"
| "check_each triggers deps [] level = Succeed"
| "check_each triggers deps (next # rest) level =
    (if has_problem triggers deps next then Fail
     else if check_dependencies_rec triggers deps next (level + 1) = Fail then Fail
     else check_each triggers deps rest level)"
  by pat_completeness auto
termination
  by (relation "measures [\<lambda>x. case x of Inl (t, d, i, level) \<Rightarrow> 2 * (35 - level) | Inr (t, d, is, level) \<Rightarrow> 2 * (34 - level) + 1,
      \<lambda>x. case x of Inl _ \<Rightarrow> 0 | Inr (t, d, is, level) \<Rightarrow> length is]") auto

declare check_dependencies_rec.simps [simp del]

definition DCconfig_check_trigger_dependencies :: "triggers \<Rightarrow> trigdeps \<Rightarrow> u64 \<Rightarrow> zres" where
  "DCconfig_check_trigger_dependencies triggers deps triggerid =
    (case deps triggerid of None \<Rightarrow> Succeed | Some _ \<Rightarrow> check_dependencies_rec triggers deps triggerid 0)"

subsection \<open>What the test finds\<close>

definition dep_edges :: "trigdeps \<Rightarrow> (u64 \<times> u64) set" where
  "dep_edges deps = {(i, j). \<exists>td js. deps i = Some td \<and> td_dependencies td = Some js \<and> j \<in> set js}"

lemma check_each_iff:
  "check_each triggers deps js level = Fail \<longleftrightarrow>
    (\<exists>j \<in> set js. has_problem triggers deps j \<or> check_dependencies_rec triggers deps j (level + 1) = Fail)"
  by (induction js) auto

text \<open>A problem is found when it is at most \<open>33 - level\<close> dependencies away.\<close>

lemma check_dependencies_iff:
  assumes "\<And>i j. (i, j) \<in> dep_edges deps \<Longrightarrow> deps j \<noteq> None" "deps i \<noteq> None" "level + n = 33"
  shows "check_dependencies_rec triggers deps i level = Fail \<longleftrightarrow>
    (\<exists>k j. k < n \<and> (i, j) \<in> dep_edges deps ^^ Suc k \<and> has_problem triggers deps j)"
  using assms(2,3)
proof (induction n arbitrary: i level)
  case 0
  then show ?case by (simp add: check_dependencies_rec.simps)
next
  case (Suc n)
  let ?E = "dep_edges deps"
  obtain td where td: "deps i = Some td" using Suc.prems(1) by blast
  have succ: "(i, j) \<in> ?E \<longleftrightarrow> (\<exists>js. td_dependencies td = Some js \<and> j \<in> set js)" for j
    by (simp add: dep_edges_def td)
  have step: "check_dependencies_rec triggers deps j (level + 1) = Fail \<longleftrightarrow>
      (\<exists>k l. k < n \<and> (j, l) \<in> ?E ^^ Suc k \<and> has_problem triggers deps l)" if "(i, j) \<in> ?E" for j
    using Suc.IH [of j "level + 1"] assms(1) [OF that] Suc.prems(2) by simp
  have "check_dependencies_rec triggers deps i level = Fail \<longleftrightarrow>
      (\<exists>j. (i, j) \<in> ?E \<and> (has_problem triggers deps j \<or> check_dependencies_rec triggers deps j (level + 1) = Fail))"
    using Suc.prems(2) succ
    by (subst check_dependencies_rec.simps) (auto simp: td check_each_iff split: option.splits)
  also have "\<dots> \<longleftrightarrow> (\<exists>j. (i, j) \<in> ?E \<and> (has_problem triggers deps j \<or>
      (\<exists>k l. k < n \<and> (j, l) \<in> ?E ^^ Suc k \<and> has_problem triggers deps l)))"
    using step by blast
  also have "\<dots> \<longleftrightarrow> (\<exists>k j. k < Suc n \<and> (i, j) \<in> ?E ^^ Suc k \<and> has_problem triggers deps j)"
  proof (intro iffI; elim exE conjE disjE)
    fix j assume "(i, j) \<in> ?E" "has_problem triggers deps j"
    then show "\<exists>k j. k < Suc n \<and> (i, j) \<in> ?E ^^ Suc k \<and> has_problem triggers deps j"
      by (intro exI [of _ 0] exI [of _ j]) simp
  next
    fix j k l assume "(i, j) \<in> ?E" "k < n" "(j, l) \<in> ?E ^^ Suc k" "has_problem triggers deps l"
    then show "\<exists>k j. k < Suc n \<and> (i, j) \<in> ?E ^^ Suc k \<and> has_problem triggers deps j"
      using relpow_Suc_I2 [of i j ?E l "Suc k"] by (intro exI [of _ "Suc k"] exI [of _ l]) simp
  next
    fix k l assume "k < Suc n" "(i, l) \<in> ?E ^^ Suc k" "has_problem triggers deps l"
    then show "\<exists>j. (i, j) \<in> ?E \<and> (has_problem triggers deps j \<or>
        (\<exists>k l. k < n \<and> (j, l) \<in> ?E ^^ Suc k \<and> has_problem triggers deps l))"
      using relpow_Suc_D2 [of i l k ?E] by (cases k) force+
  qed
  finally show ?case .
qed

subsection \<open>What a synchronisation leaves\<close>

definition ups :: "(u64 \<times> u64) list \<Rightarrow> u64 \<Rightarrow> u64 list" where
  "ups rows i = map snd (filter (\<lambda>r. fst r = i) rows)"

text \<open>The graph of the rows alone.\<close>

definition rows_graph :: "triggers \<Rightarrow> (u64 \<times> u64) list \<Rightarrow> trigdeps" where
  "rows_graph triggers rows = (\<lambda>i.
    if i \<in> fst ` set rows then Some \<lparr>td_trigger = (triggers i \<noteq> None), td_dependencies = Some (ups rows i)\<rparr>
    else if i \<in> snd ` set rows then Some \<lparr>td_trigger = (triggers i \<noteq> None), td_dependencies = None\<rparr>
    else None)"

definition sync_inv :: "triggers \<Rightarrow> (u64 \<times> u64) list \<Rightarrow> sync_trigdeps \<Rightarrow> bool" where
  "sync_inv triggers rows sy \<longleftrightarrow>
    set (sy_ids_down sy) = fst ` set rows \<and> set (sy_ids_up sy) = snd ` set rows \<and>
    (if rows = [] then sy_triggerid sy = 0 \<and> sy_down sy = None \<and> sy_dependencies sy = []
     else sy_triggerid sy = fst (last rows) \<and> sy_down sy = Some (fst (last rows)) \<and>
       sy_dependencies sy = ups rows (fst (last rows)) \<and>
       map_option td_trigger (sy_trigdeps sy (fst (last rows))) = Some (triggers (fst (last rows)) \<noteq> None)) \<and>
    (\<forall>i. i \<in> fst ` set rows \<and> i \<noteq> fst (last rows) \<longrightarrow> sy_trigdeps sy i =
      Some \<lparr>td_trigger = (triggers i \<noteq> None), td_dependencies = Some (ups rows i)\<rparr>) \<and>
    (\<forall>i. i \<in> snd ` set rows \<longrightarrow> sy_trigdeps sy i \<noteq> None)"

lemma store_dependencies_inv:
  assumes "sync_inv triggers rows sy"
  shows "i \<in> fst ` set rows \<Longrightarrow> store_dependencies sy i =
      Some \<lparr>td_trigger = (triggers i \<noteq> None), td_dependencies = Some (ups rows i)\<rparr>"
    "i \<in> snd ` set rows \<Longrightarrow> store_dependencies sy i \<noteq> None"
proof -
  show "store_dependencies sy i = Some \<lparr>td_trigger = (triggers i \<noteq> None), td_dependencies = Some (ups rows i)\<rparr>"
    if i: "i \<in> fst ` set rows"
  proof -
    have ne: "rows \<noteq> []" using i by auto
    then obtain td where td: "sy_trigdeps sy (fst (last rows)) = Some td"
        "td_trigger td = (triggers (fst (last rows)) \<noteq> None)"
      using assms by (auto simp: sync_inv_def)
    have "store_dependencies sy = td_set (fst (last rows))
        (\<lambda>td. td\<lparr>td_dependencies := Some (ups rows (fst (last rows)))\<rparr>) (sy_trigdeps sy)"
      using assms ne by (simp add: sync_inv_def store_dependencies_def)
    moreover have "td\<lparr>td_dependencies := x\<rparr> = \<lparr>td_trigger = td_trigger td, td_dependencies = x\<rparr>" for x
      by (cases td) simp
    moreover have "i \<noteq> fst (last rows) \<Longrightarrow> sy_trigdeps sy i =
        Some \<lparr>td_trigger = (triggers i \<noteq> None), td_dependencies = Some (ups rows i)\<rparr>"
      using assms i unfolding sync_inv_def by blast
    ultimately show ?thesis using td by (cases "i = fst (last rows)") (simp_all add: td_set_def)
  qed
  show "store_dependencies sy i \<noteq> None" if "i \<in> snd ` set rows"
    using assms that by (auto simp: sync_inv_def store_dependencies_def td_set_def split: option.splits)
qed

lemma ups_snoc: "ups (rows @ [(d, u)]) i = ups rows i @ (if i = d then [u] else [])"
  by (simp add: ups_def)

lemma sync_row_inv:
  assumes inv: "sync_inv triggers rows sy" and new: "d \<noteq> 0"
    and grouped: "rows = [] \<or> d = fst (last rows) \<or> d \<notin> fst ` set rows"
  shows "sync_inv triggers (rows @ [(d, u)]) (sync_row junk triggers (d, u) sy)"
proof -
  note defs = sync_row_def DCfind_id_def td_set_def Let_def
  show ?thesis
  proof (cases "rows \<noteq> [] \<and> d = fst (last rows)")
    case True
    then have same: "sy_triggerid sy = d" "sy_down sy = Some d" "sy_dependencies sy = ups rows d"
      "set (sy_ids_down sy) = fst ` set rows" "d \<in> fst ` set rows"
      using inv last_in_set [of rows] by (auto simp: sync_inv_def)
    let ?deps = "sy_trigdeps (sync_row junk triggers (d, u) sy)"
    have keep: "?deps i = sy_trigdeps sy i" if "sy_trigdeps sy i \<noteq> None" for i
      using same(1) that by (auto simp: defs split: option.splits)
    have here: "?deps u \<noteq> None" using same(1) by (auto simp: defs split: option.splits)
    have "sy_trigdeps sy d \<noteq> None" using inv True by (auto simp: sync_inv_def)
    then show ?thesis
      using inv True same keep here unfolding sync_inv_def
      by (auto simp: ups_snoc defs insert_absorb split: option.splits if_splits)
  next
    case False
    with grouped have d: "d \<notin> fst ` set rows" by auto
    then have ups: "ups rows d = []" by (auto simp: ups_def filter_empty_conv)
    have start: "sy_triggerid sy \<noteq> d" "(if sy_down sy \<noteq> None then [] else sy_dependencies sy) = []"
      using inv False new d last_in_set [of rows] by (auto simp: sync_inv_def split: if_splits)
    let ?deps = "sy_trigdeps (sync_row junk triggers (d, u) sy)"
    have keep: "?deps i = store_dependencies sy i" if "store_dependencies sy i \<noteq> None" "i \<noteq> d" for i
      using start(1) that by (auto simp: defs split: option.splits)
    have here: "?deps u \<noteq> None" "map_option td_trigger (?deps d) = Some (triggers d \<noteq> None)"
      using start(1) by (auto simp: defs split: option.splits)
    have fields: "set (sy_ids_down (sync_row junk triggers (d, u) sy)) = insert d (fst ` set rows)"
      "set (sy_ids_up (sync_row junk triggers (d, u) sy)) = insert u (snd ` set rows)"
      "sy_triggerid (sync_row junk triggers (d, u) sy) = d" "sy_down (sync_row junk triggers (d, u) sy) = Some d"
      "sy_dependencies (sync_row junk triggers (d, u) sy) = [u]"
      using start inv by (auto simp: defs sync_inv_def split: option.splits)
    have old: "?deps i = Some \<lparr>td_trigger = (triggers i \<noteq> None), td_dependencies = Some (ups rows i)\<rparr>"
      if "i \<in> fst ` set rows" for i
      using keep [of i] store_dependencies_inv(1) [OF inv that] that d by force
    moreover have "?deps i \<noteq> None" if "i \<in> snd ` set rows" for i
      using keep [of i] store_dependencies_inv(2) [OF inv that] here(2) by (cases "i = d") auto
    ultimately show ?thesis
      unfolding sync_inv_def using here fields d by (auto simp: ups_snoc ups)
  qed
qed

lemma sorted_le_last: "sorted xs \<Longrightarrow> x \<in> set xs \<Longrightarrow> x \<le> last xs"
  by (induction xs) auto

lemma sync_rows_inv:
  assumes "sorted (map fst rows)" "0 \<notin> fst ` set rows"
  shows "sync_inv triggers rows (fold (sync_row junk triggers) rows
    \<lparr>sy_trigdeps = deps, sy_triggerid = 0, sy_down = None, sy_dependencies = [], sy_ids_down = [], sy_ids_up = []\<rparr>)"
  using assms
proof (induction rows rule: rev_induct)
  case (snoc r rows)
  obtain d u where r: "r = (d, u)" by (cases r)
  have "rows = [] \<or> d = fst (last rows) \<or> d \<notin> fst ` set rows"
  proof (rule disjCI)
    assume "\<not> (d = fst (last rows) \<or> d \<notin> fst ` set rows)"
    then have a: "d \<in> fst ` set rows" "d \<noteq> fst (last rows)" by simp_all
    have s: "sorted (map fst rows)" "\<forall>x \<in> set (map fst rows). x \<le> d"
      using snoc.prems(1) by (simp_all add: r sorted_append)
    show "rows = []"
    proof (rule ccontr)
      assume ne: "rows \<noteq> []"
      then have "fst (last rows) \<le> d" using s(2) by simp
      moreover have "d \<le> last (map fst rows)" using sorted_le_last [OF s(1), of d] a(1) by simp
      ultimately show False using a(2) ne by (simp add: last_map)
    qed
  qed
  then show ?case
    using snoc sync_row_inv [of triggers rows _ d u junk] by (simp add: r sorted_append)
qed (simp add: sync_inv_def)

lemma sync_trigdeps_graph:
  assumes "sorted (map fst rows)" "0 \<notin> fst ` set rows"
  shows "DCsync_trigdeps junk triggers rows deps = rows_graph triggers rows"
proof
  fix i
  let ?sy = "fold (sync_row junk triggers) rows
    \<lparr>sy_trigdeps = deps, sy_triggerid = 0, sy_down = None, sy_dependencies = [], sy_ids_down = [], sy_ids_up = []\<rparr>"
  note inv = sync_rows_inv [OF assms, of triggers junk deps]
  have ids: "set (sy_ids_down ?sy) = fst ` set rows" "set (sy_ids_up ?sy) = snd ` set rows"
    using inv by (simp_all add: sync_inv_def)
  have "td\<lparr>td_trigger := x, td_dependencies := y\<rparr> = \<lparr>td_trigger = x, td_dependencies = y\<rparr>" for td x y
    by (cases td) simp
  then show "DCsync_trigdeps junk triggers rows deps i = rows_graph triggers rows i"
    using store_dependencies_inv [OF inv, of i]
    by (cases "i \<in> fst ` set rows"; cases "i \<in> snd ` set rows")
      (auto simp only: DCsync_trigdeps_def Let_def sync_sweep_def rows_graph_def ids set_sort simp_thms if_True if_False
        option.simps split: option.splits)
qed

subsection \<open>Dependencies keep their promise\<close>

definition problem :: "triggers \<Rightarrow> u64 \<Rightarrow> bool" where
  "problem triggers i \<longleftrightarrow>
    (\<exists>t. triggers i = Some t \<and> t_value t = TRIGGER_VALUE_PROBLEM \<and> t_state t = TRIGGER_STATE_NORMAL)"

lemma rows_graph_edges: "dep_edges (rows_graph triggers rows) = set rows"
  by (force simp: dep_edges_def rows_graph_def ups_def split: if_splits)

lemma rows_graph_problem:
  assumes "dom now = dom triggers" "(i, j) \<in> set rows"
  shows "has_problem now (rows_graph triggers rows) j \<longleftrightarrow> problem now j"
proof -
  have "j \<in> snd ` set rows" using assms(2) by force
  moreover have "triggers j \<noteq> None \<longleftrightarrow> now j \<noteq> None" using assms(1) by (auto simp: dom_def)
  ultimately show ?thesis
    by (auto simp: has_problem_def rows_graph_def problem_def split: option.splits)
qed

text \<open>
  C28. After any synchronisation, whatever the cache held before, a trigger is kept from changing exactly when one that it
  depends on, directly or over at most 33 rows of the database, now has a problem; so with
  at most 33 dependency rows exactly when any that it depends on directly or
  indirectly has one. Cycles in the rows do no harm.
\<close>

theorem trigger_dependencies_checked:
  assumes "sorted (map fst rows)" "0 \<notin> fst ` set rows" "dom now = dom triggers"
  shows "(DCconfig_check_trigger_dependencies now (DCsync_trigdeps junk triggers rows deps) i = Fail \<longleftrightarrow>
      (\<exists>k j. k < 33 \<and> (i, j) \<in> set rows ^^ Suc k \<and> problem now j)) \<and>
    (card (set rows) \<le> 33 \<longrightarrow>
      (DCconfig_check_trigger_dependencies now (DCsync_trigdeps junk triggers rows deps) i = Fail \<longleftrightarrow>
        (\<exists>j. (i, j) \<in> (set rows)\<^sup>+ \<and> problem now j)))"
proof -
  let ?g = "rows_graph triggers rows" and ?E = "set rows"
  have sync: "DCsync_trigdeps junk triggers rows deps = ?g" by (rule sync_trigdeps_graph [OF assms(1,2)])
  have prob: "has_problem now ?g j \<longleftrightarrow> problem now j" if "(i, j) \<in> ?E ^^ Suc k" for k j
    using that rows_graph_problem [OF assms(3)] by (auto elim: relpow_Suc_E)
  have "DCconfig_check_trigger_dependencies now ?g i = Fail \<longleftrightarrow>
      (\<exists>k j. k < 33 \<and> (i, j) \<in> ?E ^^ Suc k \<and> has_problem now ?g j)"
  proof (cases "?g i")
    case None
    then have "i \<notin> fst ` ?E" by (auto simp: rows_graph_def split: if_splits)
    then have "(i, j) \<notin> ?E ^^ Suc k" for j k using relpow_Suc_D2 [of i j k ?E] by force
    with None show ?thesis by (simp add: DCconfig_check_trigger_dependencies_def)
  next
    case (Some td)
    have "?g j \<noteq> None" if "(l, j) \<in> dep_edges ?g" for l j
      using that unfolding rows_graph_edges by (force simp: rows_graph_def)
    with Some check_dependencies_iff [of ?g i 0 33 now] show ?thesis
      by (simp add: DCconfig_check_trigger_dependencies_def rows_graph_edges)
  qed
  then have main: "DCconfig_check_trigger_dependencies now ?g i = Fail \<longleftrightarrow>
      (\<exists>k j. k < 33 \<and> (i, j) \<in> ?E ^^ Suc k \<and> problem now j)"
    using prob by blast
  moreover have "(\<exists>k. k < 33 \<and> (i, j) \<in> ?E ^^ Suc k) \<longleftrightarrow> (i, j) \<in> ?E\<^sup>+" if "card ?E \<le> 33" for j
  proof
    assume "(i, j) \<in> ?E\<^sup>+"
    then obtain n where n: "0 < n" "n \<le> card ?E" "(i, j) \<in> ?E ^^ n"
      by (auto simp: trancl_finite_eq_relpow)
    then have "n - 1 < 33 \<and> (i, j) \<in> ?E ^^ Suc (n - 1)" using that by simp
    then show "\<exists>k. k < 33 \<and> (i, j) \<in> ?E ^^ Suc k" by blast
  qed (auto simp: trancl_power simp del: relpow.simps)
  ultimately show ?thesis unfolding sync by blast
qed

lemma trigger_dependencies_checked_witness:
  "DCconfig_check_trigger_dependencies [5 \<mapsto> \<lparr>t_value = 0, t_state = 0\<rparr>, 9 \<mapsto> \<lparr>t_value = 1, t_state = 0\<rparr>]
    (DCsync_trigdeps \<lparr>td_trigger = True, td_dependencies = None\<rparr>
      [5 \<mapsto> \<lparr>t_value = 0, t_state = 0\<rparr>, 9 \<mapsto> \<lparr>t_value = 0, t_state = 0\<rparr>] [(5, 7), (7, 5), (7, 9)] Map.empty) 5 = Fail"
proof -
  let ?rows = "[(5, 7), (7, 5), (7, 9)] :: (u64 \<times> u64) list"
  have "(5, 9) \<in> (set ?rows)\<^sup>+" by (rule trancl_into_trancl [of _ 7]) auto
  moreover have "card (set ?rows) \<le> 33" by simp
  moreover have "problem [5 \<mapsto> \<lparr>t_value = 0, t_state = 0\<rparr>, 9 \<mapsto> \<lparr>t_value = 1, t_state = 0\<rparr>] 9"
    by (simp add: problem_def TRIGGER_VALUE_PROBLEM_def TRIGGER_STATE_NORMAL_def)
  ultimately show ?thesis
    using trigger_dependencies_checked [of ?rows
        "[5 \<mapsto> \<lparr>t_value = 0, t_state = 0\<rparr>, 9 \<mapsto> \<lparr>t_value = 1, t_state = 0\<rparr>]"
        "[5 \<mapsto> \<lparr>t_value = 0, t_state = 0\<rparr>, 9 \<mapsto> \<lparr>t_value = 0, t_state = 0\<rparr>]"
        "\<lparr>td_trigger = True, td_dependencies = None\<rparr>" Map.empty 5] by auto
qed

end
