(* ===== verification/Bytes.thy ===== *)
theory Bytes
  imports Prelude
begin

text \<open>
  Bytes and C strings. A string is the list of its bytes without the terminating zero, and a
  pointer into a string is the text from the place it points to; moving a pointer on is \<open>tl\<close> or
  \<open>drop\<close>, and the difference of two pointers is the difference of the lengths of their texts.
  Reading at the end of the text gives the terminating zero. Also here: the character classes of
  \<^verbatim>\<open>ctype.h\<close> in the C locale, \<^verbatim>\<open>SKIP_WHITESPACE\<close> of \<^verbatim>\<open>src/libs/zbxjson/json_parser.h\<close>, and the
  hexadecimal digits of \<^verbatim>\<open>src/libs/zbxcommon/str.c\<close>.
\<close>

definition ch :: "char \<Rightarrow> u8" where
  "ch c = of_nat (of_char c)"

definition write_at :: "'a list \<Rightarrow> nat \<Rightarrow> 'a list \<Rightarrow> 'a list" where
  "write_at buf pos xs = take pos buf @ xs @ drop (pos + length xs) buf"

text \<open>\<^verbatim>\<open>*p\<close>.\<close>

definition hd0 :: "u8 list \<Rightarrow> u8" where
  "hd0 s = (case s of [] \<Rightarrow> 0 | c # _ \<Rightarrow> c)"

definition isdigit :: "u8 \<Rightarrow> bool" where
  "isdigit c \<longleftrightarrow> ch CHR ''0'' \<le> c \<and> c \<le> ch CHR ''9''"

definition isxdigit :: "u8 \<Rightarrow> bool" where
  "isxdigit c \<longleftrightarrow> isdigit c \<or> ch CHR ''a'' \<le> c \<and> c \<le> ch CHR ''f'' \<or> ch CHR ''A'' \<le> c \<and> c \<le> ch CHR ''F''"

definition iscntrl :: "u8 \<Rightarrow> bool" where
  "iscntrl c \<longleftrightarrow> c < 32 \<or> c = 127"

definition ZBX_WHITESPACE :: "u8 list" where
  "ZBX_WHITESPACE = [ch CHR '' '', 9, 13, 10]"

definition is_ws :: "u8 \<Rightarrow> bool" where
  "is_ws c \<longleftrightarrow> c \<in> set ZBX_WHITESPACE"

definition skip_ws :: "u8 list \<Rightarrow> u8 list" where
  "skip_ws = dropWhile is_ws"

definition zbx_num2hex :: "u8 \<Rightarrow> u8" where
  "zbx_num2hex c = (if c \<ge> 10 then c + 0x57 else c + 0x30)"

text \<open>The argument is a signed character.\<close>

definition zbx_hex2num :: "u8 \<Rightarrow> u8" where
  "zbx_hex2num c = (if sint c \<ge> sint (ch CHR ''a'') then c - 0x57 else c - 0x30)"

subsection \<open>Facts\<close>

lemma ch_values [simp]:
  "ch CHR ''A'' = 65" "ch CHR ''F'' = 70" "ch CHR ''E'' = 69" "ch CHR ''Z'' = 90" "ch CHR ''a'' = 97"
  "ch CHR ''b'' = 98" "ch CHR ''e'' = 101" "ch CHR ''f'' = 102" "ch CHR ''l'' = 108" "ch CHR ''n'' = 110"
  "ch CHR ''r'' = 114" "ch CHR ''s'' = 115" "ch CHR ''t'' = 116" "ch CHR ''u'' = 117" "ch CHR ''z'' = 122"
  "ch CHR ''0'' = 48" "ch CHR ''9'' = 57" "ch CHR ''+'' = 43" "ch CHR ''-'' = 45" "ch CHR ''.'' = 46"
  "ch CHR '','' = 44" "ch CHR ''/'' = 47" "ch CHR '':'' = 58" "ch CHR ''='' = 61" "ch CHR '' '' = 32"
  "ch CHR ''['' = 91" "ch CHR '']'' = 93" "ch CHR ''{'' = 123" "ch CHR ''}'' = 125" "ch CHR 0x22 = 34"
  "ch CHR 0x5C = 92" "ch CHR ''_'' = 95" "ch CHR ''('' = 40"
  by code_simp+

lemma hd0_simps [simp]: "hd0 [] = 0" "hd0 (c # s) = c"
  by (simp_all add: hd0_def)

lemma hd0_append: "hd0 (s @ t) = (if s = [] then hd0 t else hd0 s)"
  by (cases s) auto

lemma hd0_nonzero: "hd0 s \<noteq> 0 \<Longrightarrow> s = hd0 s # tl s"
  by (cases s) auto

lemma is_ws_iff: "is_ws c \<longleftrightarrow> c = 32 \<or> c = 9 \<or> c = 13 \<or> c = 10"
  by (simp add: is_ws_def ZBX_WHITESPACE_def)

lemma skip_ws_split:
  obtains ws where "s = ws @ skip_ws s" "list_all is_ws ws" "length (skip_ws s) \<le> length s"
proof
  show "s = takeWhile is_ws s @ skip_ws s" by (simp add: skip_ws_def)
  show "list_all is_ws (takeWhile is_ws s)" by (auto simp: list_all_iff dest: set_takeWhileD)
  show "length (skip_ws s) \<le> length s" by (simp add: skip_ws_def length_dropWhile_le)
qed

lemma skip_ws_le: "length (skip_ws s) \<le> length s"
  by (simp add: skip_ws_def length_dropWhile_le)

lemma skip_ws_append: "list_all is_ws ws \<Longrightarrow> skip_ws (ws @ s) = skip_ws s"
  by (induction ws) (simp_all add: skip_ws_def)

lemma skip_ws_id: "\<not> is_ws (hd0 s) \<Longrightarrow> skip_ws s = s"
  by (cases s) (simp_all add: skip_ws_def)

lemma hd0_skip_ws: "\<not> is_ws (hd0 (skip_ws s))"
  unfolding skip_ws_def by (induction s) (simp_all add: is_ws_iff)

lemma skip_ws_idem [simp]: "skip_ws (skip_ws s) = skip_ws s"
  by (intro skip_ws_id hd0_skip_ws)

lemma skip_ws_Nil [simp]: "skip_ws [] = []"
  by (simp add: skip_ws_def)

end
