(* ===== verification/Base64.thy ===== *)
theory Base64
  imports Bytes
begin

text \<open>
  \<^verbatim>\<open>src/libs/zbxcrypto/base64.c\<close>: base64 encoding in a buffer of \<^verbatim>\<open>ZBX_MAX_B64_LEN\<close> bytes, encoding into
  allocated memory block by block, and decoding. Characters are bytes; a C string is the list of
  its bytes, with or without the terminating zero. Buffers are lists of bytes of their full size,
  with arbitrary contents at first. The assertions are not modelled.
\<close>

declare ch_values [simp del]

subsection \<open>Characters\<close>

definition is_base64 :: "u8 \<Rightarrow> zres" where
  "is_base64 c =
    (if c \<ge> ch CHR ''A'' \<and> c \<le> ch CHR ''Z'' \<or> c \<ge> ch CHR ''a'' \<and> c \<le> ch CHR ''z'' \<or>
       c \<ge> ch CHR ''0'' \<and> c \<le> ch CHR ''9'' \<or> c = ch CHR ''+'' \<or> c = ch CHR ''/'' \<or> c = ch CHR ''=''
     then Succeed else Fail)"

definition char_base64_encode :: "u8 \<Rightarrow> u8" where
  "char_base64_encode uc =
    map ch ''ABCDEFGHIJKLMNOPQRSTUVWXYZabcdefghijklmnopqrstuvwxyz0123456789+/'' ! unat uc"

definition char_base64_decode :: "u8 \<Rightarrow> u8" where
  "char_base64_decode c =
    (if c \<ge> ch CHR ''A'' \<and> c \<le> ch CHR ''Z'' then c - ch CHR ''A''
     else if c \<ge> ch CHR ''a'' \<and> c \<le> ch CHR ''z'' then c - ch CHR ''a'' + 26
     else if c \<ge> ch CHR ''0'' \<and> c \<le> ch CHR ''9'' then c - ch CHR ''0'' + 52
     else if c = ch CHR ''+'' then 62
     else 63)"

subsection \<open>Encoding\<close>

definition ZBX_MAX_B64_LEN :: nat where "ZBX_MAX_B64_LEN = 16 * 1024"

text \<open>The four characters for the bytes at \<open>i\<close>, of \<open>in_size\<close> bytes.\<close>

definition encode_group :: "u8 list \<Rightarrow> nat \<Rightarrow> nat \<Rightarrow> u8 list" where
  "encode_group s in_size i =
    (let from1 = s ! i;
         from2 = (if i + 1 < in_size then s ! (i + 1) else 0);
         from3 = (if i + 2 < in_size then s ! (i + 2) else 0);
         to1 = drop_bit 2 from1 AND 0x3f;
         to2 = push_bit 4 (from1 AND 0x3) OR drop_bit 4 from2;
         to3 = push_bit 2 (from2 AND 0xf) OR drop_bit 6 from3;
         to4 = from3 AND 0x3f
     in [char_base64_encode to1, char_base64_encode to2,
         if i + 1 < in_size then char_base64_encode to3 else ch CHR ''='',
         if i + 2 < in_size then char_base64_encode to4 else ch CHR ''=''])"

function encode_loop :: "u8 list \<Rightarrow> nat \<Rightarrow> nat \<Rightarrow> u8 list \<Rightarrow> u8 list" where
  "encode_loop s in_size i out =
    (if i < in_size then
       (if length out > ZBX_MAX_B64_LEN - 5 then out
        else encode_loop s in_size (i + 3) (out @ encode_group s in_size i))
     else out)"
  by pat_completeness auto
termination by (relation "measure (\<lambda>(s, in_size, i, out). in_size - i)") auto

declare encode_loop.simps [simp del]

text \<open>What is written to the buffer, the terminating zero included: nothing at all for an empty input.\<close>

definition str_base64_encode :: "u8 list \<Rightarrow> nat \<Rightarrow> u8 list" where
  "str_base64_encode s in_size = (if in_size = 0 then [] else encode_loop s in_size 0 [] @ [0])"

definition c_per_block :: nat where "c_per_block = (ZBX_MAX_B64_LEN - 1) div 4 * 3"
definition b_per_block :: nat where "b_per_block = c_per_block div 3 * 4"

fun encode_blocks :: "nat \<Rightarrow> u8 list \<Rightarrow> nat \<Rightarrow> u8 list \<Rightarrow> u8 list \<times> nat \<times> u8 list" where
  "encode_blocks 0 pc pc_r buf = (pc, pc_r, buf)"
| "encode_blocks (Suc full_block_num) pc pc_r buf =
    encode_blocks full_block_num (drop c_per_block pc) (pc_r + b_per_block)
      (write_at buf pc_r (str_base64_encode pc c_per_block))"

text \<open>The size of the allocated buffer and its contents, \<open>junk\<close> being what it holds at first.\<close>

definition encode_alloc :: "nat \<Rightarrow> nat" where
  "encode_alloc in_size = (in_size + 2) div 3 * 4 + 1"

definition str_base64_encode_dyn :: "u8 list \<Rightarrow> nat \<Rightarrow> u8 list \<Rightarrow> u8 list" where
  "str_base64_encode_dyn s in_size junk =
    (let full_block_num = in_size div c_per_block;
         bytes_left = in_size mod c_per_block;
         bytes_for_left = (bytes_left + 2) div 3 * 4;
         (pc, pc_r, buf) = encode_blocks full_block_num s 0 junk;
         (pc_r, buf) = (if bytes_left \<noteq> 0
           then (pc_r + bytes_for_left, write_at buf pc_r (str_base64_encode pc bytes_left)) else (pc_r, buf))
     in write_at buf pc_r [0])"

subsection \<open>Decoding\<close>

text \<open>
  A block of four characters: the bytes for the \<open>lasti + 1\<close> characters that are there are stored one
  by one. The second component is true when the output is full.
\<close>

definition put_byte :: "int \<Rightarrow> bool \<Rightarrow> u8 \<Rightarrow> u8 list \<times> bool \<Rightarrow> u8 list \<times> bool" where
  "put_byte maxsize b x = (\<lambda>(out, full).
    if full \<or> \<not> b then (out, full) else (out @ [x], int (length out) + 1 = maxsize))"

definition decode_block :: "int \<Rightarrow> int \<Rightarrow> u8 list \<Rightarrow> u8 list \<Rightarrow> u8 list \<times> bool" where
  "decode_block maxsize lasti from4 out =
    (let to4 = map char_base64_decode from4
     in put_byte maxsize (lasti = 3 \<and> from4 ! 3 \<noteq> ch CHR ''='') (push_bit 6 (to4 ! 2 AND 0x3) OR to4 ! 3)
          (put_byte maxsize (2 \<le> lasti \<and> from4 ! 2 \<noteq> ch CHR ''='') (push_bit 4 (to4 ! 1 AND 0xf) OR drop_bit 2 (to4 ! 2))
            (put_byte maxsize (1 \<le> lasti) (push_bit 2 (to4 ! 0) OR drop_bit 4 (to4 ! 1)) (out, False))))"

fun decode_loop :: "int \<Rightarrow> u8 list \<Rightarrow> nat \<Rightarrow> u8 list \<Rightarrow> int \<Rightarrow> u8 list \<Rightarrow> u8 list" where
  "decode_loop maxsize [] i from4 lasti out =
    (let from4 = map (\<lambda>j. if lasti < int j then ch CHR ''A'' else from4 ! j) [0..<4]
     in if lasti \<noteq> - 1 then fst (decode_block maxsize lasti from4 out) else out)"
| "decode_loop maxsize (c # p) i from4 lasti out =
    (if c = 0 then decode_loop maxsize [] i from4 lasti out
     else if is_base64 c = Fail then decode_loop maxsize p i from4 lasti out
     else if i < 3 then decode_loop maxsize p (i + 1) (from4[i := c]) (int i) out
     else
       (let (out, full) = decode_block maxsize (int i) (from4[i := c]) out
        in if full then out else decode_loop maxsize p 0 (from4[i := c]) (- 1) out))"

text \<open>The decoded bytes; \<^verbatim>\<open>p_out_size\<close> is their number. \<open>junk\<close> is what \<^verbatim>\<open>from\<close> holds at first.\<close>

definition str_base64_decode :: "u8 list \<Rightarrow> int \<Rightarrow> u8 list \<Rightarrow> u8 list" where
  "str_base64_decode b64str maxsize junk = decode_loop maxsize b64str 0 junk (- 1) []"

subsection \<open>The encoding of RFC 4648\<close>

text \<open>The four six-bit groups of three bytes; missing bytes are zero.\<close>

definition sextet1 :: "u8 \<Rightarrow> u8" where "sextet1 a = drop_bit 2 a"
definition sextet2 :: "u8 \<Rightarrow> u8 \<Rightarrow> u8" where "sextet2 a b = push_bit 4 (a AND 3) OR drop_bit 4 b"
definition sextet3 :: "u8 \<Rightarrow> u8 \<Rightarrow> u8" where "sextet3 b c = push_bit 2 (b AND 15) OR drop_bit 6 c"
definition sextet4 :: "u8 \<Rightarrow> u8" where "sextet4 c = c AND 63"

fun b64 :: "u8 list \<Rightarrow> u8 list" where
  "b64 [] = []"
| "b64 [a] = [char_base64_encode (sextet1 a), char_base64_encode (sextet2 a 0), ch CHR ''='', ch CHR ''='']"
| "b64 [a, b] = [char_base64_encode (sextet1 a), char_base64_encode (sextet2 a b), char_base64_encode (sextet3 b 0),
     ch CHR ''='']"
| "b64 (a # b # c # s) = [char_base64_encode (sextet1 a), char_base64_encode (sextet2 a b),
     char_base64_encode (sextet3 b c), char_base64_encode (sextet4 c)] @ b64 s"

lemma length_b64: "length (b64 s) = (length s + 2) div 3 * 4"
proof (induction s rule: b64.induct)
  case (4 a b c s)
  have "(length (a # b # c # s) + 2) div 3 = Suc ((length s + 2) div 3)" by simp
  with 4 show ?case by simp
qed simp_all

lemma b64_append: "3 dvd length s \<Longrightarrow> b64 (s @ t) = b64 s @ b64 t"
  by (induction s rule: b64.induct) (auto simp: nat_dvd_not_less dest: dvd_diff_nat [where k = 3 and n = 3])

lemma b64_step: "s \<noteq> [] \<Longrightarrow> b64 s = b64 (take 3 s) @ b64 (drop 3 s)"
  by (cases s rule: b64.cases) (simp_all add: numeral_3_eq_3)

lemma low_masks: "(3 :: u8) = mask 2" "(15 :: u8) = mask 4" "(63 :: u8) = mask 6"
  by (simp_all add: mask_eq_exp_minus_1)

lemma group_sextets:
  "encode_group s n i =
    (let a = s ! i; b = (if i + 1 < n then s ! (i + 1) else 0); c = (if i + 2 < n then s ! (i + 2) else 0)
     in [char_base64_encode (sextet1 a), char_base64_encode (sextet2 a b),
         if i + 1 < n then char_base64_encode (sextet3 b c) else ch CHR ''='',
         if i + 2 < n then char_base64_encode (sextet4 c) else ch CHR ''=''])"
proof -
  have "drop_bit 2 a AND 63 = drop_bit 2 a" for a :: u8
    unfolding low_masks by (rule bit_word_eqI) (auto simp: bit_simps dest: bit_imp_le_length)
  then show ?thesis
    by (simp only: encode_group_def Let_def sextet1_def sextet2_def sextet3_def sextet4_def)
qed

lemma encode_group_b64:
  assumes "i < n" "n \<le> length s"
  shows "encode_group s n i = b64 (take 3 (drop i (take n s)))"
proof -
  let ?t = "drop i (take n s)"
  have len: "length ?t = n - i" using assms by simp
  have nth: "?t ! j = s ! (i + j)" if "i + j < n" for j using that assms by simp
  show ?thesis
  proof (cases ?t rule: b64.cases)
    case 1
    with assms show ?thesis by simp
  next
    case (2 a)
    with len nth [of 0] assms have "n = i + 1" "s ! i = a" by simp_all
    with 2 show ?thesis by (simp add: group_sextets Let_def)
  next
    case (3 a b)
    with len nth [of 0] nth [of 1] assms have "n = i + 2" "s ! i = a" "s ! (i + 1) = b" by simp_all
    with 3 show ?thesis by (simp add: group_sextets Let_def)
  next
    case (4 a b c r)
    with len have "i + 2 < n" by simp
    with 4 nth [of 0] nth [of 1] nth [of 2] have "s ! i = a" "s ! (i + 1) = b" "s ! (i + 2) = c" by simp_all
    with 4 \<open>i + 2 < n\<close> show ?thesis by (simp add: group_sextets Let_def numeral_3_eq_3)
  qed
qed

lemma encode_loop_b64:
  assumes "n \<le> length s" "length out + (n - i + 2) div 3 * 4 \<le> ZBX_MAX_B64_LEN - 1"
  shows "encode_loop s n i out = out @ b64 (drop i (take n s))"
  using assms
proof (induction "n - i" arbitrary: i out rule: less_induct)
  case less
  show ?case
  proof (cases "i < n")
    case False
    then show ?thesis by (subst encode_loop.simps) simp
  next
    case True
    then have "(n - i + 2) div 3 = Suc ((n - (i + 3) + 2) div 3)" by (cases "n - i < 3") auto
    with less.prems(2) have room: "length out + 4 + (n - (i + 3) + 2) div 3 * 4 \<le> ZBX_MAX_B64_LEN - 1" by simp
    moreover have group: "encode_group s n i = b64 (take 3 (drop i (take n s)))"
      by (rule encode_group_b64 [OF True less.prems(1)])
    moreover have "length (encode_group s n i) = 4" by (simp add: encode_group_def Let_def)
    ultimately have "encode_loop s n (i + 3) (out @ encode_group s n i) =
        out @ encode_group s n i @ b64 (drop (i + 3) (take n s))"
      using less.hyps [of "i + 3" "out @ encode_group s n i"] True less.prems(1) by simp
    also have "\<dots> = out @ b64 (drop i (take n s))"
      using b64_step [of "drop i (take n s)"] True less.prems(1) by (simp add: group add.commute)
    finally show ?thesis
      using True room by (subst encode_loop.simps) (simp add: ZBX_MAX_B64_LEN_def)
  qed
qed

lemma encode_block:
  assumes "n \<le> length s" "n \<le> c_per_block" "n \<noteq> 0"
  shows "str_base64_encode s n = b64 (take n s) @ [0]"
proof -
  have "(n + 2) div 3 * 4 \<le> ZBX_MAX_B64_LEN - 1"
    using assms(2) by (simp add: c_per_block_def ZBX_MAX_B64_LEN_def)
  then show ?thesis using encode_loop_b64 [of n s "[]" 0] assms by (simp add: str_base64_encode_def)
qed

subsection \<open>Encoding block by block\<close>

lemma write_at_simps:
  assumes "pos + length xs \<le> length buf"
  shows "length (write_at buf pos xs) = length buf"
    "k \<le> pos + length xs \<Longrightarrow> take k (write_at buf pos xs) = take k (take pos buf @ xs)"
  using assms by (auto simp: write_at_def min_def)

lemma block_sizes: "c_per_block = 12285" "b_per_block = 16380"
  by (simp_all add: c_per_block_def b_per_block_def ZBX_MAX_B64_LEN_def)

lemma encode_blocks_b64:
  assumes "k * c_per_block \<le> length pc" "pos + k * b_per_block < length buf"
  shows "\<exists>buf'. encode_blocks k pc pos buf = (drop (k * c_per_block) pc, pos + k * b_per_block, buf') \<and>
    length buf' = length buf \<and> take (pos + k * b_per_block) buf' = take pos buf @ b64 (take (k * c_per_block) pc)"
  using assms
proof (induction k arbitrary: pc pos buf)
  case (Suc k)
  let ?c = c_per_block and ?b = b_per_block
  have c: "?c \<le> length pc" "k * ?c \<le> length (drop ?c pc)" using Suc.prems(1) by (simp_all add: algebra_simps)
  have enc: "str_base64_encode pc ?c = b64 (take ?c pc) @ [0]"
    using c(1) by (intro encode_block) (simp_all add: block_sizes)
  have len: "length (b64 (take ?c pc)) = ?b" using c(1) by (simp add: length_b64 block_sizes)
  let ?buf = "write_at buf pos (str_base64_encode pc ?c)"
  have w: "length ?buf = length buf" "take (pos + ?b) ?buf = take pos buf @ b64 (take ?c pc)"
    using Suc.prems(2) len by (simp_all add: write_at_simps enc algebra_simps)
  then obtain buf' where buf': "encode_blocks k (drop ?c pc) (pos + ?b) ?buf =
      (drop (k * ?c) (drop ?c pc), pos + ?b + k * ?b, buf')" "length buf' = length ?buf"
    "take (pos + ?b + k * ?b) buf' = take (pos + ?b) ?buf @ b64 (take (k * ?c) (drop ?c pc))"
    using Suc.IH [OF c(2), of "pos + ?b" ?buf] Suc.prems(2) by (auto simp: algebra_simps)
  have "b64 (take (Suc k * ?c) pc) = b64 (take ?c pc) @ b64 (take (k * ?c) (drop ?c pc))"
    using c(1) b64_append [of "take ?c pc"] by (simp add: take_add block_sizes)
  with buf' w show ?case by (simp add: algebra_simps)
qed simp

lemma encode_alloc_split: "encode_alloc (k * c_per_block + m) = k * b_per_block + (m + 2) div 3 * 4 + 1"
proof -
  have "(m + 2 + 3 * (k * 4095)) div 3 = k * 4095 + (m + 2) div 3" by (rule div_mult_self2) simp
  moreover have "k * c_per_block + m + 2 = m + 2 + 3 * (k * 4095)" by (simp add: block_sizes)
  ultimately show ?thesis by (simp only: encode_alloc_def) (simp add: block_sizes)
qed

text \<open>
  C26. Encoding into allocated memory gives the RFC 4648 encoding of the first \<open>in_size\<close> bytes with a terminating
  zero, and exactly fills the memory: no block that is encoded on its own is cut short or writes
  beyond the end.
\<close>

theorem base64_encode_dyn:
  assumes "in_size \<le> length s" "length junk = encode_alloc in_size"
  shows "str_base64_encode_dyn s in_size junk = b64 (take in_size s) @ [0]"
proof -
  let ?c = c_per_block and ?k = "in_size div c_per_block" and ?m = "in_size mod c_per_block"
  let ?pos = "?k * b_per_block" and ?left = "(?m + 2) div 3 * 4"
  have n: "in_size = ?k * ?c + ?m" by simp
  have m: "?m < ?c" by (simp add: block_sizes)
  have alloc: "encode_alloc in_size = ?pos + ?left + 1" using encode_alloc_split [of ?k ?m] n by simp
  have "?k * ?c \<le> length s" using n assms(1) by linarith
  moreover have "?pos < length junk" by (simp add: assms(2) alloc)
  ultimately obtain buf where buf: "encode_blocks ?k s 0 junk = (drop (?k * ?c) s, ?pos, buf)"
    "length buf = length junk" "take ?pos buf = b64 (take (?k * ?c) s)"
    using encode_blocks_b64 [of ?k s 0 junk] by auto
  have whole: "b64 (take in_size s) = b64 (take (?k * ?c) s) @ b64 (take ?m (drop (?k * ?c) s))"
  proof -
    have "take in_size s = take (?k * ?c) s @ take ?m (drop (?k * ?c) s)" by (metis n take_add)
    moreover have "3 dvd length (take (?k * ?c) s)"
      using \<open>?k * ?c \<le> length s\<close> by (simp add: block_sizes)
    ultimately show ?thesis by (simp add: b64_append)
  qed
  show ?thesis
  proof (cases "?m = 0")
    case True
    then show ?thesis
      using buf whole assms(2) alloc by (simp add: str_base64_encode_dyn_def Let_def write_at_def)
  next
    case False
    let ?rest = "b64 (take ?m (drop (?k * ?c) s))"
    have rest: "?m \<le> length (drop (?k * ?c) s)" using n assms(1) unfolding length_drop by linarith
    then have enc: "str_base64_encode (drop (?k * ?c) s) ?m = ?rest @ [0]"
      using m False by (intro encode_block) simp_all
    have len: "length ?rest = ?left" using rest unfolding length_b64 length_take by (simp only: min_absorb2)
    then have "str_base64_encode_dyn s in_size junk =
        write_at (write_at buf ?pos (?rest @ [0])) (?pos + ?left) [0]"
      using buf(1) False enc by (simp add: str_base64_encode_dyn_def Let_def)
    also have "\<dots> = take ?pos buf @ ?rest @ [0]"
      using buf(2) assms(2) alloc len by (simp add: write_at_def)
    finally show ?thesis using buf(3) whole by simp
  qed
qed

lemma base64_encode_dyn_witness:
  "str_base64_encode_dyn (map ch ''Zabbix!'') 7 (replicate 13 77) = map ch ''WmFiYml4IQ=='' @ [0]"
proof -
  have "b64 (take 7 (map ch ''Zabbix!'')) = map ch ''WmFiYml4IQ==''" by code_simp
  with base64_encode_dyn [of 7 "map ch ''Zabbix!''" "replicate 13 77"] show ?thesis
    by (simp add: encode_alloc_def)
qed

subsection \<open>Decoding what was encoded\<close>

lemma base64_set:
  "map ch ''ABCDEFGHIJKLMNOPQRSTUVWXYZabcdefghijklmnopqrstuvwxyz0123456789+/'' =
    map word_of_nat ([65..<91] @ [97..<123] @ [48..<58] @ [43, 47])"
  by code_simp

lemma unat_base64_char:
  assumes "n < 64"
  shows "unat ((map word_of_nat ([65..<91] @ [97..<123] @ [48..<58] @ [43, 47]) :: u8 list) ! n) =
    (if n < 26 then 65 + n else if n < 52 then 71 + n else if n < 62 then n - 4 else if n = 62 then 43 else 47)"
proof -
  let ?l = "[65..<91] @ [97..<123] @ [48..<58] @ [43, 47 :: nat]"
  have "n = 63" if "\<not> n < 62" "n \<noteq> 62" using assms that by simp
  then have nth: "?l ! n =
      (if n < 26 then 65 + n else if n < 52 then 71 + n else if n < 62 then n - 4 else if n = 62 then 43 else 47)"
    using assms by (auto simp: nth_append simp del: upt_rec_numeral)
  have "map word_of_nat ?l ! n = (word_of_nat (?l ! n) :: u8)" using assms by (intro nth_map) simp
  moreover have "?l ! n < 256" using assms unfolding nth by (simp split: if_split) arith
  ultimately show ?thesis unfolding nth by (simp only: unat_of_nat) (simp add: take_bit_nat_eq_self)
qed

lemma encode_decode:
  assumes "x < 64"
  shows "char_base64_decode (char_base64_encode x) = x" "is_base64 (char_base64_encode x) = Succeed"
    "char_base64_encode x \<noteq> ch CHR ''=''" "char_base64_encode x \<noteq> 0"
proof -
  define c where "c = char_base64_encode x"
  let ?n = "unat x"
  have n: "?n < 64" using assms by (simp add: word_less_nat_alt)
  have c: "unat c = (if ?n < 26 then 65 + ?n else if ?n < 52 then 71 + ?n else if ?n < 62 then ?n - 4
      else if ?n = 62 then 43 else 47)"
    unfolding c_def char_base64_encode_def base64_set by (rule unat_base64_char [OF n])
  have "unat (char_base64_decode c) = ?n"
    using n c by (auto simp: char_base64_decode_def ch_values word_le_nat_alt unat_sub_if' unat_plus_if' word_unat_eq_iff
        split: if_splits)
  then show "char_base64_decode (char_base64_encode x) = x" by (simp add: c_def word_unat_eq_iff)
  show "is_base64 (char_base64_encode x) = Succeed" "char_base64_encode x \<noteq> ch CHR ''=''"
    "char_base64_encode x \<noteq> 0"
    using n c by (auto simp: is_base64_def ch_values word_le_nat_alt word_unat_eq_iff simp flip: c_def split: if_splits)
qed

lemma pad_char: "is_base64 (ch CHR ''='') = Succeed" "ch CHR ''='' \<noteq> 0"
  by code_simp+

lemma sextet_less:
  "sextet1 a < 64" "sextet2 a b < 64" "sextet3 b c < 64" "sextet4 c < 64"
proof -
  have less: "x < 64" if "\<And>n. bit x n \<Longrightarrow> n < 6" for x :: u8
  proof -
    have "x = x AND mask 6" by (rule bit_word_eqI) (use that in \<open>auto simp: bit_simps\<close>)
    then show ?thesis using and_mask_less' [of 6 x] by simp
  qed
  note defs = sextet1_def sextet2_def sextet3_def sextet4_def low_masks bit_simps
  show "sextet1 a < 64" "sextet2 a b < 64" "sextet3 b c < 64" "sextet4 c < 64"
    by (rule less, (simp only: defs comp_apply; auto dest: bit_imp_le_length) [1])+
qed

lemma bytes_of_sextets:
  "push_bit 2 (sextet1 a) OR drop_bit 4 (sextet2 a b) = a"
  "push_bit 4 (sextet2 a b AND 15) OR drop_bit 2 (sextet3 b c) = b"
  "push_bit 6 (sextet3 b c AND 3) OR sextet4 c = c"
proof -
  note defs = sextet1_def sextet2_def sextet3_def sextet4_def low_masks bit_simps
  have eq: "x = a" if "\<And>n. n < 8 \<Longrightarrow> bit x n = bit a n" for x a :: u8
    using that by (intro bit_word_eqI) simp
  have n8: "n < 8 \<longleftrightarrow> n \<in> {0, 1, 2, 3, 4, 5, 6, 7 :: nat}" for n by auto
  show "push_bit 2 (sextet1 a) OR drop_bit 4 (sextet2 a b) = a"
    "push_bit 4 (sextet2 a b AND 15) OR drop_bit 2 (sextet3 b c) = b"
    "push_bit 6 (sextet3 b c AND 3) OR sextet4 c = c"
    by (rule eq, (simp only: defs comp_apply n8, elim insertE emptyE; auto dest: bit_imp_le_length) [1])+
qed

lemma base64_chars: "list_all (\<lambda>c. is_base64 c = Succeed \<and> c \<noteq> 0) (b64 s)"
  by (induction s rule: b64.induct) (simp_all add: encode_decode sextet_less pad_char)

text \<open>Other characters are skipped.\<close>

lemma decode_loop_filter:
  assumes "0 \<notin> set t"
  shows "decode_loop maxsize t i from4 lasti out =
    decode_loop maxsize (filter (\<lambda>c. is_base64 c = Succeed) t) i from4 lasti out"
  using assms
proof (induction t arbitrary: i from4 lasti out)
  case (Cons c t)
  then show ?case by (cases "is_base64 c") (auto simp: Let_def split: prod.splits)
qed simp

lemma decode_loop_block:
  assumes "list_all (\<lambda>c. is_base64 c = Succeed \<and> c \<noteq> 0) [c1, c2, c3, c4]" "length from4 = 4"
  shows "decode_loop maxsize (c1 # c2 # c3 # c4 # t) 0 from4 lasti out =
    (let (out, full) = decode_block maxsize 3 [c1, c2, c3, c4] out
     in if full then out else decode_loop maxsize t 0 [c1, c2, c3, c4] (- 1) out)"
proof -
  obtain a b c d where "from4 = [a, b, c, d]"
    using assms(2) by (auto simp: length_Suc_conv numeral_eq_Suc)
  with assms(1) show ?thesis by (simp add: numeral_eq_Suc split: prod.splits)
qed

lemma decode_block_sextets:
  "decode_block maxsize 3 [char_base64_encode (sextet1 a), char_base64_encode (sextet2 a b),
     char_base64_encode (sextet3 b c), char_base64_encode (sextet4 c)] out =
    put_byte maxsize True c (put_byte maxsize True b (put_byte maxsize True a (out, False)))"
  "decode_block maxsize 3 [char_base64_encode (sextet1 a), char_base64_encode (sextet2 a b),
     char_base64_encode (sextet3 b c), ch CHR ''=''] out =
    put_byte maxsize True b (put_byte maxsize True a (out, False))"
  "decode_block maxsize 3 [char_base64_encode (sextet1 a), char_base64_encode (sextet2 a b),
     ch CHR ''='', ch CHR ''=''] out = put_byte maxsize True a (out, False)"
  using encode_decode [OF sextet_less(3), of b c] encode_decode [OF sextet_less(4), of c]
  by (simp_all add: decode_block_def Let_def encode_decode(1) sextet_less bytes_of_sextets put_byte_def
      del: push_bit_and split: prod.splits)

text \<open>The bytes that fit are stored.\<close>

lemma decode_loop_b64:
  assumes "int (length out) < maxsize" "length from4 = 4"
  shows "decode_loop maxsize (b64 s) 0 from4 (- 1) out = take (nat maxsize) (out @ s)"
  using assms
proof (induction s arbitrary: from4 out rule: b64.induct)
  case 1
  then show ?case by simp
next
  case (2 a)
  have "list_all (\<lambda>c. is_base64 c = Succeed \<and> c \<noteq> 0) (b64 [a])" by (rule base64_chars)
  then have "decode_loop maxsize (b64 [a]) 0 from4 (- 1) out = out @ [a]"
    using decode_loop_block [OF _ 2(2), of "char_base64_encode (sextet1 a)" "char_base64_encode (sextet2 a 0)"
        "ch CHR ''=''" "ch CHR ''=''" maxsize "[]" "- 1" out]
    by (simp add: decode_block_sextets put_byte_def del: decode_loop.simps(2))
  then show ?case using 2(1) by simp
next
  case (3 a b)
  have "list_all (\<lambda>c. is_base64 c = Succeed \<and> c \<noteq> 0) (b64 [a, b])" by (rule base64_chars)
  then have "decode_loop maxsize (b64 [a, b]) 0 from4 (- 1) out =
      (if int (length out) + 1 = maxsize then out @ [a] else out @ [a, b])"
    using decode_loop_block [OF _ 3(2), of "char_base64_encode (sextet1 a)" "char_base64_encode (sextet2 a b)"
        "char_base64_encode (sextet3 b 0)" "ch CHR ''=''" maxsize "[]" "- 1" out]
    by (simp add: decode_block_sextets put_byte_def del: decode_loop.simps(2))
  moreover have "nat maxsize = length out + 1" if "int (length out) + 1 = maxsize" using that by simp
  ultimately show ?case using 3(1) by (auto simp del: decode_loop.simps b64.simps)
next
  case (4 a b c s)
  let ?f = "[char_base64_encode (sextet1 a), char_base64_encode (sextet2 a b),
     char_base64_encode (sextet3 b c), char_base64_encode (sextet4 c)]"
  have "list_all (\<lambda>c. is_base64 c = Succeed \<and> c \<noteq> 0) ?f"
    using base64_chars [of "[a, b, c]"] by simp
  then have "decode_loop maxsize (b64 (a # b # c # s)) 0 from4 (- 1) out =
    (let (out, full) = put_byte maxsize True c (put_byte maxsize True b (put_byte maxsize True a (out, False)))
     in if full then out else decode_loop maxsize (b64 s) 0 ?f (- 1) out)"
    using decode_loop_block [OF _ 4(3), of "char_base64_encode (sextet1 a)" "char_base64_encode (sextet2 a b)"
      "char_base64_encode (sextet3 b c)" "char_base64_encode (sextet4 c)" maxsize "b64 s" "- 1" out]
    by (simp add: decode_block_sextets del: decode_loop.simps(2))
  moreover have "decode_loop maxsize (b64 s) 0 ?f (- 1) (out @ [a, b, c]) = take (nat maxsize) (out @ [a, b, c] @ s)"
    if "int (length out) + 3 < maxsize"
    using 4(1) [of "out @ [a, b, c]" ?f] that by simp
  moreover have "nat maxsize = length out + k" if "int (length out) + int k = maxsize" for k using that by simp
  ultimately show ?case using 4(2) by (auto simp: put_byte_def Let_def)
qed

text \<open>
  C27. Decoding inverts encoding: from a text that holds the encoding of \<open>s\<close>, with any characters that base64 does
  not use (such as line breaks) in between, it recovers as many bytes of \<open>s\<close> as the output has
  room for.
\<close>

theorem base64_roundtrip:
  assumes "filter (\<lambda>c. is_base64 c = Succeed) t = b64 s" "0 \<notin> set t" "0 < maxsize" "length junk = 4"
  shows "str_base64_decode t maxsize junk = take (nat maxsize) s"
  using decode_loop_filter [OF assms(2), of maxsize 0 junk "- 1" "[]"] decode_loop_b64 [of "[]" maxsize junk s] assms
  by (simp add: str_base64_decode_def)

lemma base64_roundtrip_witness:
  "str_base64_decode (map ch ''WmFi\<newline>YmlY'') 5 [9, 9, 9, 9] = map ch ''Zabbi''"
proof -
  have "filter (\<lambda>c. is_base64 c = Succeed) (map ch ''WmFi\<newline>YmlY'') = b64 (map ch ''ZabbiX'')" by code_simp
  moreover have "0 \<notin> set (map ch ''WmFi\<newline>YmlY'')" by code_simp
  moreover have "take 5 (map ch ''ZabbiX'') = map ch ''Zabbi''" by simp
  ultimately show ?thesis using base64_roundtrip [of "map ch ''WmFi\<newline>YmlY''" "map ch ''ZabbiX''" 5 "[9, 9, 9, 9]"] by simp
qed

lemma decode_block_bound:
  assumes "int (length out) < maxsize"
  shows "int (length (fst (decode_block maxsize lasti from4 out))) \<le> maxsize \<and>
    (snd (decode_block maxsize lasti from4 out) \<or> int (length (fst (decode_block maxsize lasti from4 out))) < maxsize)"
  using assms by (auto simp: decode_block_def put_byte_def Let_def)

lemma decode_loop_bound:
  assumes "int (length out) < maxsize"
  shows "int (length (decode_loop maxsize t i from4 lasti out)) \<le> maxsize"
  using assms
proof (induction t arbitrary: i from4 lasti out)
  case Nil
  then show ?case using decode_block_bound by (auto simp: Let_def)
next
  case (Cons c t)
  show ?case
  proof (cases "c = 0")
    case True
    then show ?thesis using Cons.prems decode_block_bound by (auto simp: Let_def)
  next
    case False
    then show ?thesis
      using Cons.IH Cons.prems decode_block_bound [OF Cons.prems, of "int i" "from4[i := c]"]
      by (auto simp: Let_def split: prod.splits)
  qed
qed

text \<open>
  Whatever text it is given, the decoder writes at most \<open>maxsize\<close> bytes.
\<close>

theorem base64_decode_bounded:
  assumes "0 < maxsize"
  shows "int (length (str_base64_decode t maxsize junk)) \<le> maxsize"
  using decode_loop_bound [of "[]" maxsize t 0 junk "- 1"] assms by (simp add: str_base64_decode_def)

lemma base64_decode_bounded_witness: "length (str_base64_decode (map ch ''AAAAAAAA'') 4 [0, 0, 0, 0]) \<le> 4"
  using base64_decode_bounded [of 4 "map ch ''AAAAAAAA''" "[0, 0, 0, 0]"] by simp

end
