(* ===== verification/JsonParser.thy ===== *)
theory JsonParser
  imports Bytes
begin

text \<open>
  \<^verbatim>\<open>src/libs/zbxjson/json_parser.c\<close>: the recursive-descent recogniser behind \<^verbatim>\<open>zbx_json_validate\<close>.
  Every function returns the number of characters it parsed, or the error it reports: the
  message and the failing fragment (\<^verbatim>\<open>json_error\<close>). Texts are shorter than \<open>2 ^ 31\<close> characters, so
  the lengths, of type \<^verbatim>\<open>int\<close>, do not overflow. After the model: a grammar of the accepted
  documents, and the proof that the recogniser accepts exactly them.
\<close>

type_synonym json_err = "string \<times> u8 list option"

definition json_error :: "string \<Rightarrow> u8 list option \<Rightarrow> json_err + 'a" where
  "json_error message json_buffer = Inl (message, json_buffer)"

subsection \<open>Strings\<close>

text \<open>The text at the last character of the escape sequence at \<open>escape_start\<close>.\<close>

fun hex_digits :: "nat \<Rightarrow> u8 list \<Rightarrow> u8 list option" where
  "hex_digits 0 ptr = Some ptr"
| "hex_digits (Suc n) ptr = (if isxdigit (hd0 (tl ptr)) then hex_digits n (tl ptr) else None)"

definition parse_escape :: "u8 list \<Rightarrow> json_err + u8 list" where
  "parse_escape escape_start =
    (let ptr = tl escape_start in
     if hd0 ptr = 0 then json_error ''invalid escape sequence in string'' (Some escape_start)
     else if hd0 ptr \<in> {ch CHR 0x22, ch CHR 0x5C, ch CHR ''/'', ch CHR ''b'', ch CHR ''f'', ch CHR ''n'',
       ch CHR ''r'', ch CHR ''t''} then Inr ptr
     else if hd0 ptr = ch CHR ''u'' then
       (case hex_digits 4 ptr of
          None \<Rightarrow> json_error ''invalid escape sequence in string'' (Some escape_start)
        | Some ptr1 \<Rightarrow> Inr ptr1)
     else json_error ''invalid escape sequence in string data'' (Some escape_start))"

lemma hex_digits_length: "hex_digits n ptr = Some ptr1 \<Longrightarrow> length ptr1 \<le> length ptr"
  by (induction n ptr rule: hex_digits.induct) (auto split: if_splits)

lemma parse_escape_length: "parse_escape s = Inr ptr \<Longrightarrow> length ptr \<le> length s"
  by (auto simp: parse_escape_def Let_def json_error_def split: if_splits option.splits dest!: hex_digits_length)

function string_loop :: "u8 list \<Rightarrow> json_err + u8 list" where
  "string_loop ptr =
    (if hd0 ptr = ch CHR 0x22 then Inr ptr
     else if hd0 ptr = 0 then json_error ''unexpected end of string data'' None
     else
       (case (if hd0 ptr = ch CHR 0x5C then parse_escape ptr else Inr ptr) of
          Inl e \<Rightarrow> Inl e
        | Inr ptr1 \<Rightarrow>
            if iscntrl (hd0 ptr1) then json_error ''invalid control character in string data'' (Some ptr1)
            else string_loop (tl ptr1)))"
  by pat_completeness auto
termination
proof (relation "measure length", goal_cases)
  case (2 ptr ptr1)
  then have "length ptr1 \<le> length ptr" "ptr \<noteq> []" by (auto split: if_splits dest: parse_escape_length)
  then show ?case by (cases ptr1) auto
qed simp

declare string_loop.simps [simp del]

definition json_parse_string :: "u8 list \<Rightarrow> json_err + nat" where
  "json_parse_string start =
    (case string_loop (tl start) of Inl e \<Rightarrow> Inl e | Inr ptr \<Rightarrow> Inr (length start - length ptr + 1))"

subsection \<open>Numbers and literals\<close>

text \<open>The text after the digits and at most one point, with \<open>point\<close> and the number of digits before it.\<close>

fun number_loop :: "u8 list \<Rightarrow> bool \<Rightarrow> nat \<Rightarrow> u8 list \<times> nat" where
  "number_loop [] point digit = ([], digit)"
| "number_loop (c # ptr) point digit =
    (if c = ch CHR ''.'' then
       (if point then (c # ptr, digit) else number_loop ptr True digit)
     else if \<not> isdigit c then (c # ptr, digit)
     else number_loop ptr point (if point then digit else digit + 1))"

definition parse_exponent :: "u8 list \<Rightarrow> json_err + u8 list" where
  "parse_exponent e =
    (let ptr = tl e in
     if hd0 ptr = 0 then json_error ''unexpected end of numeric value'' None
     else
       let signed = (hd0 ptr = ch CHR ''+'' \<or> hd0 ptr = ch CHR ''-'');
           ptr1 = (if signed then tl ptr else ptr) in
       if signed \<and> hd0 ptr1 = 0 then json_error ''unexpected end of numeric value'' None
       else if \<not> isdigit (hd0 ptr1)
         then json_error ''invalid power value of number in E notation'' (Some ptr1)
       else Inr (dropWhile isdigit (tl ptr1)))"

definition json_parse_number :: "u8 list \<Rightarrow> json_err + nat" where
  "json_parse_number start =
    (let ptr = (if hd0 start = ch CHR ''-'' then tl start else start);
         first_digit = hd0 ptr;
         (ptr1, digit) = number_loop ptr False 0 in
     if digit = 0 then json_error ''invalid numeric value format'' (Some start)
     else if first_digit = ch CHR ''0'' \<and> 1 < digit
       then json_error ''invalid numeric value format'' (Some start)
     else if hd0 ptr1 = ch CHR ''e'' \<or> hd0 ptr1 = ch CHR ''E'' then
       (case parse_exponent ptr1 of Inl e \<Rightarrow> Inl e | Inr ptr2 \<Rightarrow> Inr (length start - length ptr2))
     else Inr (length start - length ptr1))"

fun literal_loop :: "u8 list \<Rightarrow> u8 list \<Rightarrow> u8 list option" where
  "literal_loop ptr [] = Some ptr"
| "literal_loop ptr (t # ts) = (if hd0 ptr \<noteq> t then None else literal_loop (tl ptr) ts)"

definition json_parse_literal :: "u8 list \<Rightarrow> u8 list \<Rightarrow> json_err + nat" where
  "json_parse_literal start literal =
    (case literal_loop start literal of
       None \<Rightarrow> json_error ''invalid literal value'' (Some start)
     | Some ptr \<Rightarrow> Inr (length start - length ptr))"

definition lit_true :: "u8 list" where "lit_true = map ch ''true''"
definition lit_false :: "u8 list" where "lit_false = map ch ''false''"
definition lit_null :: "u8 list" where "lit_null = map ch ''null''"

subsection \<open>Values, arrays and objects\<close>

lemma hd0_pos: "hd0 s \<noteq> 0 \<Longrightarrow> 0 < length s"
  by (cases s) auto

lemma skip_drop_le: "length (skip_ws (drop n s)) \<le> length s"
  using skip_ws_le [of "drop n s"] by simp

lemma skip_tl_le: "length (skip_ws (tl s)) \<le> length s - 1"
  using skip_ws_le [of "tl s"] by simp

lemma skip_ws_Nil_pos: "hd0 (skip_ws s) \<noteq> 0 \<Longrightarrow> 0 < length (skip_ws s) \<and> length (skip_ws s) \<le> length s"
  using skip_ws_le [of s] hd0_pos [of "skip_ws s"] by blast

text \<open>
  The loops of arrays and objects return the text at the character that ended them. The
  recursion is bounded by the length of the text; the order of the functions at one text is given by
  the second component of the measure.
\<close>

function (sequential) json_parse_value :: "u8 list \<Rightarrow> json_err + nat" and
  array_loop :: "u8 list \<Rightarrow> json_err + u8 list" and
  json_parse_array :: "u8 list \<Rightarrow> json_err + nat" and
  object_loop :: "u8 list \<Rightarrow> json_err + u8 list" and
  json_parse_object :: "u8 list \<Rightarrow> json_err + nat"
where
  "json_parse_value start =
    (let ptr = skip_ws start; c = hd0 ptr in
     if c = 0 then json_error ''unexpected end of object value'' None
     else
       (case (if c = ch CHR 0x22 then json_parse_string ptr
              else if c = ch CHR ''{'' then json_parse_object ptr
              else if c = ch CHR ''['' then json_parse_array ptr
              else if c = ch CHR ''t'' then json_parse_literal ptr lit_true
              else if c = ch CHR ''f'' then json_parse_literal ptr lit_false
              else if c = ch CHR ''n'' then json_parse_literal ptr lit_null
              else if isdigit c \<or> c = ch CHR ''-'' then json_parse_number ptr
              else json_error ''invalid JSON object value starting character'' (Some ptr)) of
          Inl e \<Rightarrow> Inl e
        | Inr len \<Rightarrow> Inr (length start - length ptr + len)))"
| "array_loop ptr =
    (case json_parse_value ptr of
       Inl e \<Rightarrow> Inl e
     | Inr len \<Rightarrow>
         let ptr1 = skip_ws (drop len ptr) in
         if hd0 ptr1 \<noteq> ch CHR '','' then Inr ptr1 else array_loop (tl ptr1))"
| "json_parse_array start =
    (let ptr = skip_ws (tl start) in
     if hd0 ptr \<noteq> ch CHR '']'' then
       (case array_loop ptr of
          Inl e \<Rightarrow> Inl e
        | Inr ptr1 \<Rightarrow>
            if hd0 ptr1 \<noteq> ch CHR '']''
            then json_error (''invalid array format, expected closing character '' @ [CHR 0x27, CHR '']'', CHR 0x27])
              (Some ptr1)
            else Inr (length start - length ptr1 + 1))
     else Inr (length start - length ptr + 1))"
| "object_loop ptr =
    (if hd0 ptr \<noteq> ch CHR 0x22 then json_error ''invalid object name'' (Some ptr)
     else
       (case json_parse_string ptr of
          Inl e \<Rightarrow> Inl e
        | Inr len \<Rightarrow>
            let ptr1 = skip_ws (drop len ptr) in
            if hd0 ptr1 \<noteq> ch CHR '':'' then json_error ''invalid object name/value separator'' (Some ptr1)
            else
              let ptr2 = tl ptr1 in
              (case json_parse_value ptr2 of
                 Inl e \<Rightarrow> Inl e
               | Inr len2 \<Rightarrow>
                   let ptr3 = skip_ws (drop len2 ptr2) in
                   if hd0 ptr3 \<noteq> ch CHR '','' then Inr ptr3 else object_loop (skip_ws (tl ptr3)))))"
| "json_parse_object start =
    (let ptr = skip_ws start in
     if hd0 ptr \<noteq> ch CHR ''{'' then
       json_error (''invalid object format, expected opening character '' @ [CHR 0x27, CHR ''{'', CHR 0x27]) (Some ptr)
     else
       let ptr1 = skip_ws (tl ptr) in
       if hd0 ptr1 \<noteq> ch CHR ''}'' then
         (case object_loop ptr1 of
            Inl e \<Rightarrow> Inl e
          | Inr ptr2 \<Rightarrow>
              if hd0 ptr2 \<noteq> ch CHR ''}''
              then json_error (''invalid object format, expected closing character '' @ [CHR 0x27, CHR ''}'', CHR 0x27])
                (Some ptr2)
              else Inr (length start - length ptr2 + 1))
       else Inr (length start - length ptr1 + 1))"
  by pat_completeness auto
termination
  apply (relation "measure (case_sum
    (case_sum (\<lambda>s. 3 * length s + 1) (\<lambda>s. 3 * length s + 2))
    (case_sum (\<lambda>s. if s = [] then 3 else 3 * length s)
      (case_sum (\<lambda>s. 3 * length s + 2) (\<lambda>s. if s = [] then 3 else 3 * length s))))")
  subgoal by simp
  subgoal for start using skip_ws_Nil_pos [of start] by auto
  subgoal for start using skip_ws_Nil_pos [of start] by auto
  subgoal by simp
  subgoal for ptr len using skip_drop_le [of len ptr] by (cases "skip_ws (drop len ptr)") auto
  subgoal for start using skip_tl_le [of start] by (cases start) auto
  subgoal for ptr len using skip_drop_le [of len ptr] hd0_pos [of "skip_ws (drop len ptr)"] by auto
  subgoal for ptr len ptr1 ptr2 len2
    using skip_drop_le [of len ptr] skip_tl_le [of "skip_ws (drop len2 ptr2)"] skip_drop_le [of len2 ptr2]
    by (cases "skip_ws (drop len ptr)") auto
  subgoal for start using skip_tl_le [of "skip_ws start"] skip_ws_Nil_pos [of start]
    by (cases "skip_ws start") auto
  done

declare json_parse_value.simps [simp del] array_loop.simps [simp del] json_parse_array.simps [simp del]
  object_loop.simps [simp del] json_parse_object.simps [simp del]

definition zbx_json_validate :: "u8 list \<Rightarrow> json_err + nat" where
  "zbx_json_validate start =
    (case json_parse_object start of
       Inl e \<Rightarrow> Inl e
     | Inr len \<Rightarrow>
         let rest = skip_ws (drop len start) in
         if hd0 rest \<noteq> 0 then json_error ''invalid character following JSON object'' (Some rest) else Inr len)"

subsection \<open>The grammar of the accepted documents\<close>

text \<open>
  RFC 8259, with two differences the code has: the digits after the decimal point may be missing,
  and a string may not contain the byte 127.
\<close>

inductive jchars :: "u8 list \<Rightarrow> bool" where
  chars_nil: "jchars []"
| chars_plain: "c \<noteq> 34 \<Longrightarrow> c \<noteq> 92 \<Longrightarrow> \<not> iscntrl c \<Longrightarrow> jchars s \<Longrightarrow> jchars (c # s)"
| chars_escape: "c \<in> {34, 92, 47, 98, 102, 110, 114, 116} \<Longrightarrow> jchars s \<Longrightarrow> jchars (92 # c # s)"
| chars_unicode: "length hs = 4 \<Longrightarrow> list_all isxdigit hs \<Longrightarrow> jchars s \<Longrightarrow> jchars (92 # 117 # hs @ s)"

definition jstring :: "u8 list \<Rightarrow> bool" where
  "jstring w \<longleftrightarrow> (\<exists>s. w = 34 # s @ [34] \<and> jchars s)"

definition jint :: "u8 list \<Rightarrow> bool" where
  "jint ds \<longleftrightarrow> ds \<noteq> [] \<and> list_all isdigit ds \<and> (hd ds = 48 \<longrightarrow> length ds = 1)"

definition jfrac :: "u8 list \<Rightarrow> bool" where
  "jfrac w \<longleftrightarrow> w = [] \<or> (\<exists>ds. w = 46 # ds \<and> list_all isdigit ds)"

definition jexp :: "u8 list \<Rightarrow> bool" where
  "jexp w \<longleftrightarrow> w = [] \<or> (\<exists>e sg ds. w = e # sg @ ds \<and> e \<in> {101, 69} \<and> sg \<in> {[], [43], [45]} \<and>
    ds \<noteq> [] \<and> list_all isdigit ds)"

definition jnumber :: "u8 list \<Rightarrow> bool" where
  "jnumber w \<longleftrightarrow> (\<exists>sg ds f e. w = sg @ ds @ f @ e \<and> sg \<in> {[], [45]} \<and> jint ds \<and> jfrac f \<and> jexp e)"

abbreviation jws :: "u8 list \<Rightarrow> bool" where
  "jws \<equiv> list_all is_ws"

inductive jvalue :: "u8 list \<Rightarrow> bool" and jelems :: "u8 list \<Rightarrow> bool" and jmembers :: "u8 list \<Rightarrow> bool" where
  value_string: "jstring w \<Longrightarrow> jvalue w"
| value_number: "jnumber w \<Longrightarrow> jvalue w"
| value_literal: "w \<in> {lit_true, lit_false, lit_null} \<Longrightarrow> jvalue w"
| value_array0: "jws ws \<Longrightarrow> jvalue (91 # ws @ [93])"
| value_array: "jelems es \<Longrightarrow> jvalue (91 # es @ [93])"
| value_object0: "jws ws \<Longrightarrow> jvalue (123 # ws @ [125])"
| value_object: "jmembers ms \<Longrightarrow> jvalue (123 # ms @ [125])"
| elems_last: "jws ws1 \<Longrightarrow> jvalue v \<Longrightarrow> jws ws2 \<Longrightarrow> jelems (ws1 @ v @ ws2)"
| elems_more: "jws ws1 \<Longrightarrow> jvalue v \<Longrightarrow> jws ws2 \<Longrightarrow> jelems es \<Longrightarrow> jelems (ws1 @ v @ ws2 @ 44 # es)"
| members_last: "jws ws1 \<Longrightarrow> jstring n \<Longrightarrow> jws ws2 \<Longrightarrow> jws ws3 \<Longrightarrow> jvalue v \<Longrightarrow> jws ws4 \<Longrightarrow>
    jmembers (ws1 @ n @ ws2 @ 58 # ws3 @ v @ ws4)"
| members_more: "jws ws1 \<Longrightarrow> jstring n \<Longrightarrow> jws ws2 \<Longrightarrow> jws ws3 \<Longrightarrow> jvalue v \<Longrightarrow> jws ws4 \<Longrightarrow>
    jmembers ms \<Longrightarrow> jmembers (ws1 @ n @ ws2 @ 58 # ws3 @ v @ ws4 @ 44 # ms)"

definition jobject :: "u8 list \<Rightarrow> bool" where
  "jobject w \<longleftrightarrow> (\<exists>s. w = 123 # s @ [125] \<and> (jws s \<or> jmembers s))"

lemma jobject_value: "jobject w \<Longrightarrow> jvalue w"
  by (auto simp: jobject_def intro: jvalue_jelems_jmembers.intros)

subsection \<open>What is accepted is in the grammar\<close>

lemma hex_digits_sound:
  "hex_digits n ptr = Some p \<Longrightarrow> ptr \<noteq> [] \<Longrightarrow>
   \<exists>hs. tl ptr = hs @ tl p \<and> p \<noteq> [] \<and> length hs = n \<and> list_all isxdigit hs \<and> (0 < n \<longrightarrow> isxdigit (hd0 p))"
proof (induction n ptr rule: hex_digits.induct)
  case (2 n ptr)
  then have x: "isxdigit (hd0 (tl ptr))" "hex_digits n (tl ptr) = Some p" by (simp_all split: if_splits)
  then obtain c s where c: "tl ptr = c # s" by (cases "tl ptr") (auto simp: isxdigit_def isdigit_def)
  with 2 x obtain hs where "s = hs @ tl p" "p \<noteq> []" "length hs = n" "list_all isxdigit hs"
    "0 < n \<longrightarrow> isxdigit (hd0 p)" by auto
  moreover have "isxdigit (hd0 p)" using x \<open>0 < n \<longrightarrow> isxdigit (hd0 p)\<close> by (cases n) auto
  moreover have "isxdigit c" using x c by simp
  ultimately show ?case using c by (intro exI [of _ "c # hs"]) simp
qed auto

lemma isxdigit_plain: "isxdigit c \<Longrightarrow> \<not> iscntrl c \<and> c \<noteq> 0"
  by (auto simp: isxdigit_def isdigit_def iscntrl_def word_le_nat_alt word_less_nat_alt)

lemma parse_escape_sound:
  assumes "parse_escape (92 # s) = Inr p"
  shows "\<exists>e. 92 # s = e @ tl p \<and> p \<noteq> [] \<and> (\<forall>t. jchars t \<longrightarrow> jchars (e @ t))"
proof (cases "hd0 s = ch CHR ''u''")
  case True
  then obtain r where r: "s = 117 # r" by (cases s) auto
  with assms have "hex_digits 4 s = Some p"
    by (auto simp: parse_escape_def Let_def json_error_def split: option.splits if_splits)
  from hex_digits_sound [OF this] obtain hs where "r = hs @ tl p" "p \<noteq> []" "length hs = 4" "list_all isxdigit hs"
    using r by auto
  then show ?thesis unfolding r by (intro exI [of _ "92 # 117 # hs"]) (auto intro: chars_unicode)
next
  case False
  with assms have p: "hd0 s \<in> {34, 92, 47, 98, 102, 110, 114, 116}" "p = s"
    by (auto simp: parse_escape_def Let_def json_error_def split: if_splits)
  then obtain r where "s = hd0 s # r" by (cases s) auto
  with p show ?thesis using chars_escape [OF p(1)] by (intro exI [of _ "[92, hd0 s]"]) auto
qed

lemma string_loop_sound:
  "string_loop ptr = Inr p \<Longrightarrow> \<exists>s. ptr = s @ p \<and> jchars s \<and> hd0 p = 34"
proof (induction ptr rule: string_loop.induct)
  case (1 ptr)
  consider "hd0 ptr = 34" | "hd0 ptr \<noteq> 34" "hd0 ptr \<noteq> 0" "hd0 ptr = 92" | "hd0 ptr \<noteq> 34" "hd0 ptr \<noteq> 0" "hd0 ptr \<noteq> 92"
    using "1.prems" by (auto simp: string_loop.simps [of ptr] json_error_def split: if_splits)
  then show ?case
  proof cases
    case 1
    with "1.prems" show ?thesis
      by (intro exI [of _ "[]"]) (simp add: string_loop.simps [of ptr] chars_nil)
  next
    case 2
    then obtain r where r: "ptr = 92 # r" by (cases ptr) auto
    from "1.prems" 2 obtain ptr1 where e: "parse_escape ptr = Inr ptr1"
      by (auto simp: string_loop.simps [of ptr] json_error_def split: sum.splits)
    with "1.prems" 2 have c: "\<not> iscntrl (hd0 ptr1)" "string_loop (tl ptr1) = Inr p"
      by (auto simp: string_loop.simps [of ptr] json_error_def split: if_splits)
    obtain w where w: "ptr = w @ tl ptr1" "\<And>t. jchars t \<Longrightarrow> jchars (w @ t)"
      using parse_escape_sound e r by blast
    have "\<exists>s. tl ptr1 = s @ p \<and> jchars s \<and> hd0 p = 34"
      using "1.IH" [of ptr1] 2 e c by simp
    then obtain s where "tl ptr1 = s @ p" "jchars s" "hd0 p = 34" by blast
    with w show ?thesis by (intro exI [of _ "w @ s"]) auto
  next
    case 3
    then obtain c r where r: "ptr = c # r" "c \<noteq> 34" "c \<noteq> 92" by (cases ptr) auto
    have "string_loop (c # r) = Inr p" using "1.prems" r(1) by simp
    with r 3 have c: "\<not> iscntrl c" "string_loop r = Inr p"
      by (simp_all add: string_loop.simps [of "c # r"] json_error_def split: if_splits)
    have "\<exists>s. r = s @ p \<and> jchars s \<and> hd0 p = 34"
      using "1.IH" [of ptr] 3 c r by simp
    then obtain s where "r = s @ p" "jchars s" "hd0 p = 34" by blast
    with r c show ?thesis by (intro exI [of _ "c # s"]) (auto intro: chars_plain)
  qed
qed

lemma parse_string_sound:
  assumes "json_parse_string s = Inr len" "hd0 s = 34"
  shows "\<exists>w r. s = w @ r \<and> jstring w \<and> len = length w"
proof -
  obtain t where t: "s = 34 # t" using assms(2) by (cases s) auto
  then obtain p where p: "string_loop t = Inr p" "len = length s - length p + 1"
    using assms(1) by (auto simp: json_parse_string_def split: sum.splits)
  from string_loop_sound [OF p(1)] obtain b where b: "t = b @ p" "jchars b" "hd0 p = 34" by blast
  then obtain q where "p = 34 # q" by (cases p) auto
  with b p(2) t show ?thesis by (intro exI [of _ "34 # b @ [34]"] exI [of _ q]) (auto simp: jstring_def)
qed

lemma number_loop_point:
  "number_loop s True k = (p, d) \<Longrightarrow> \<exists>ds. s = ds @ p \<and> list_all isdigit ds \<and> d = k"
proof (induction s arbitrary: k)
  case (Cons c s)
  show ?case
  proof (cases "isdigit c \<and> c \<noteq> 46")
    case True
    with Cons.prems have "number_loop s True k = (p, d)" by simp
    from Cons.IH [OF this] obtain ds where "s = ds @ p" "list_all isdigit ds" "d = k" by blast
    with True show ?thesis by (intro exI [of _ "c # ds"]) simp
  qed (use Cons.prems in \<open>auto split: if_splits\<close>)
qed simp

lemma number_loop_sound:
  "number_loop s False k = (p, d) \<Longrightarrow>
   \<exists>ds f. s = ds @ f @ p \<and> list_all isdigit ds \<and> d = k + length ds \<and> jfrac f"
proof (induction s arbitrary: k)
  case (Cons c s)
  consider "c = 46" | "c \<noteq> 46" "\<not> isdigit c" | "c \<noteq> 46" "isdigit c" by blast
  then show ?case
  proof cases
    case 1
    with Cons.prems obtain ds where "s = ds @ p" "list_all isdigit ds" "d = k"
      using number_loop_point by fastforce
    with 1 show ?thesis by (intro exI [of _ "[]"] exI [of _ "46 # ds"]) (simp add: jfrac_def)
  next
    case 2
    with Cons.prems show ?thesis by (intro exI [of _ "[]"]) (simp add: jfrac_def)
  next
    case 3
    with Cons.prems have "number_loop s False (k + 1) = (p, d)" by simp
    from Cons.IH [OF this] obtain ds f where "s = ds @ f @ p" "list_all isdigit ds" "d = k + 1 + length ds" "jfrac f"
      by blast
    with 3 show ?thesis by (intro exI [of _ "c # ds"] exI [of _ f]) simp
  qed
qed (simp add: jfrac_def)

lemma parse_exponent_sound:
  assumes "parse_exponent s = Inr p" "hd0 s = 101 \<or> hd0 s = 69"
  shows "\<exists>e. s = e @ p \<and> jexp e"
proof -
  obtain x t where s: "s = x # t" "x \<in> {101, 69}" using assms(2) by (cases s) auto
  define sg where "sg = (if hd0 t = 43 \<or> hd0 t = 45 then [hd0 t] else [])"
  define r where "r = (if hd0 t = 43 \<or> hd0 t = 45 then tl t else t)"
  have t: "t = sg @ r" "sg \<in> {[], [43], [45]}" by (cases t; auto simp: sg_def r_def)+
  have r: "isdigit (hd0 r)" "p = dropWhile isdigit (tl r)"
    using assms(1) s(1) by (auto simp: parse_exponent_def Let_def json_error_def r_def split: if_splits)
  then obtain c q where "r = c # q" by (cases r) (auto simp: isdigit_def)
  with r have "r = (c # takeWhile isdigit q) @ p" "list_all isdigit (c # takeWhile isdigit q)"
    by (auto simp: list_all_iff dest: set_takeWhileD)
  with s t show ?thesis unfolding jexp_def
    by (intro exI [of _ "x # sg @ c # takeWhile isdigit q"] conjI disjI2 exI [of _ x] exI [of _ sg]
        exI [of _ "c # takeWhile isdigit q"]) auto
qed

lemma parse_number_sound:
  assumes "json_parse_number s = Inr len"
  shows "\<exists>w r. s = w @ r \<and> jnumber w \<and> len = length w"
proof -
  define sg where "sg = (if hd0 s = 45 then [45] else [] :: u8 list)"
  define t where "t = (if hd0 s = 45 then tl s else s)"
  have t: "s = sg @ t" "sg \<in> {[], [45]}" by (cases s; auto simp: sg_def t_def)+
  obtain p d where l: "number_loop t False 0 = (p, d)" by fastforce
  obtain ds f where n: "t = ds @ f @ p" "list_all isdigit ds" "d = length ds" "jfrac f"
    using number_loop_sound [OF l] by auto
  have d: "d \<noteq> 0" "\<not> (hd0 t = 48 \<and> 1 < d)"
    using assms l by (auto simp: json_parse_number_def Let_def json_error_def t_def split: if_splits)
  with n have ds: "jint ds" by (cases ds) (auto simp: jint_def)
  obtain q e where e: "p = e @ q" "jexp e" "len = length s - length q"
  proof (cases "hd0 p = 101 \<or> hd0 p = 69")
    case True
    with assms l d obtain q where "parse_exponent p = Inr q" "len = length s - length q"
      by (auto simp: json_parse_number_def Let_def t_def split: if_splits sum.splits)
    with that show ?thesis using parse_exponent_sound True by blast
  next
    case False
    with assms l d have "len = length s - length p"
      by (auto simp: json_parse_number_def Let_def t_def split: if_splits)
    with that [of "[]" p] show ?thesis by (simp add: jexp_def)
  qed
  show ?thesis
  proof (intro exI conjI)
    show "s = (sg @ ds @ f @ e) @ q" using t n e by simp
    show "jnumber (sg @ ds @ f @ e)" unfolding jnumber_def using t ds n(4) e by blast
    show "len = length (sg @ ds @ f @ e)" using t n e by simp
  qed
qed

lemma literal_loop_sound: "literal_loop s ts = Some p \<Longrightarrow> 0 \<notin> set ts \<Longrightarrow> s = ts @ p"
proof (induction s ts rule: literal_loop.induct)
  case (2 ptr t ts)
  then show ?case by (cases ptr) (auto split: if_splits)
qed simp

lemma literal_values:
  "lit_true = [116, 114, 117, 101]" "lit_false = [102, 97, 108, 115, 101]" "lit_null = [110, 117, 108, 108]"
  by (simp_all add: lit_true_def lit_false_def lit_null_def)

lemma parse_literal_sound:
  assumes "json_parse_literal s w = Inr len" "w \<in> {lit_true, lit_false, lit_null}"
  shows "\<exists>r. s = w @ r \<and> len = length w"
proof -
  have "0 \<notin> set w" using assms(2) by (auto simp: literal_values)
  moreover obtain p where "literal_loop s w = Some p" "len = length s - length p"
    using assms(1) by (auto simp: json_parse_literal_def json_error_def split: option.splits)
  ultimately show ?thesis using literal_loop_sound by fastforce
qed

text \<open>A text starts, after white space, with a word of a language, and so many characters are parsed.\<close>

definition accepts :: "(u8 list \<Rightarrow> bool) \<Rightarrow> u8 list \<Rightarrow> nat \<Rightarrow> bool" where
  "accepts P s len \<longleftrightarrow> (\<exists>ws w r. s = ws @ w @ r \<and> jws ws \<and> P w \<and> len = length ws + length w)"

lemma acceptsI: "s = ws @ w @ r \<Longrightarrow> jws ws \<Longrightarrow> P w \<Longrightarrow> len = length ws + length w \<Longrightarrow> accepts P s len"
  by (auto simp: accepts_def)

lemma accepts_wordI: "s = w @ r \<Longrightarrow> P w \<Longrightarrow> len = length w \<Longrightarrow> accepts P s len"
  by (rule acceptsI [of _ "[]"]) simp_all

lemma acceptsE:
  assumes "accepts P s len"
  obtains ws w where "s = ws @ w @ drop len s" "jws ws" "P w" "len = length ws + length w"
  using assms by (auto simp: accepts_def)

lemma accepts_mono: "accepts P s len \<Longrightarrow> (\<And>w. P w \<Longrightarrow> Q w) \<Longrightarrow> accepts Q s len"
  by (auto simp: accepts_def)

lemma accepts_skip_ws:
  assumes "accepts P (skip_ws s) len"
  shows "accepts P s (length s - length (skip_ws s) + len)"
proof -
  obtain ws where ws: "s = ws @ skip_ws s" "jws ws" by (rule skip_ws_split)
  from ws(1) have "length s = length ws + length (skip_ws s)" by (metis length_append)
  moreover obtain ws' w where "skip_ws s = ws' @ w @ drop len (skip_ws s)" "jws ws'" "P w" "len = length ws' + length w"
    using assms by (rule acceptsE)
  ultimately show ?thesis using ws by (intro acceptsI [of s "ws @ ws'" w "drop len (skip_ws s)"]) simp_all
qed

lemma value_sound:
  assumes "json_parse_value s = Inr len"
    and "\<And>n. hd0 (skip_ws s) = 123 \<Longrightarrow> json_parse_object (skip_ws s) = Inr n \<Longrightarrow> accepts jobject (skip_ws s) n"
    and "\<And>n. hd0 (skip_ws s) = 91 \<Longrightarrow> json_parse_array (skip_ws s) = Inr n \<Longrightarrow> accepts jvalue (skip_ws s) n"
  shows "accepts jvalue s len"
proof -
  let ?p = "skip_ws s"
  obtain n where len: "len = length s - length ?p + n" and n:
    "(if hd0 ?p = 34 then json_parse_string ?p else if hd0 ?p = 123 then json_parse_object ?p
      else if hd0 ?p = 91 then json_parse_array ?p else if hd0 ?p = 116 then json_parse_literal ?p lit_true
      else if hd0 ?p = 102 then json_parse_literal ?p lit_false
      else if hd0 ?p = 110 then json_parse_literal ?p lit_null
      else if isdigit (hd0 ?p) \<or> hd0 ?p = 45 then json_parse_number ?p
      else json_error ''invalid JSON object value starting character'' (Some ?p)) = Inr n"
    using assms(1) by (auto simp: json_parse_value.simps [of s] Let_def json_error_def split: if_split_asm sum.splits)
  have "accepts jvalue ?p n"
  proof -
    have lit: "accepts jvalue ?p n" if "json_parse_literal ?p w = Inr n" "w \<in> {lit_true, lit_false, lit_null}" for w
      using parse_literal_sound [OF that] that(2) value_literal accepts_wordI by metis
    consider "hd0 ?p = 34" "json_parse_string ?p = Inr n" | "hd0 ?p = 123" "json_parse_object ?p = Inr n"
      | "hd0 ?p = 91" "json_parse_array ?p = Inr n" | "json_parse_literal ?p lit_true = Inr n"
      | "json_parse_literal ?p lit_false = Inr n" | "json_parse_literal ?p lit_null = Inr n"
      | "json_parse_number ?p = Inr n"
      using n by (simp add: json_error_def split: if_split_asm)
    then show ?thesis
    proof cases
      case 1
      with parse_string_sound value_string accepts_wordI show ?thesis by metis
    next
      case 2
      with assms(2) have "accepts jobject ?p n" by blast
      then show ?thesis by (rule accepts_mono) (rule jobject_value)
    next
      case 3
      with assms(3) show ?thesis by blast
    next
      case 7
      with parse_number_sound value_number accepts_wordI show ?thesis by metis
    qed (use lit in auto)
  qed
  with len show ?thesis using accepts_skip_ws by blast
qed

lemma skip_ws_then:
  assumes "hd0 (skip_ws s) = c" "c \<noteq> 0"
  obtains ws where "s = ws @ c # tl (skip_ws s)" "jws ws"
proof -
  obtain ws where "s = ws @ skip_ws s" "jws ws" by (rule skip_ws_split)
  with assms that show ?thesis using hd0_nonzero [of "skip_ws s"] by metis
qed

lemma array_loop_sound:
  assumes "array_loop s = Inr p"
    and "\<And>len. json_parse_value s = Inr len \<Longrightarrow> accepts jvalue s len"
    and "\<And>len. json_parse_value s = Inr len \<Longrightarrow> hd0 (skip_ws (drop len s)) = 44 \<Longrightarrow>
      array_loop (tl (skip_ws (drop len s))) = Inr p \<Longrightarrow> \<exists>es. tl (skip_ws (drop len s)) = es @ p \<and> jelems es"
  shows "\<exists>es. s = es @ p \<and> jelems es"
proof -
  obtain len where v: "json_parse_value s = Inr len"
    using assms(1) by (auto simp: array_loop.simps [of s] split: sum.splits)
  obtain ws w where s: "s = ws @ w @ drop len s" "jws ws" "jvalue w" by (rule acceptsE [OF assms(2) [OF v]])
  obtain ws' where ws': "drop len s = ws' @ skip_ws (drop len s)" "jws ws'" by (rule skip_ws_split)
  show ?thesis
  proof (cases "hd0 (skip_ws (drop len s)) = 44")
    case False
    with assms(1) v have "p = skip_ws (drop len s)" by (simp add: array_loop.simps [of s] Let_def)
    with s ws' show ?thesis by (intro exI [of _ "ws @ w @ ws'"]) (simp add: elems_last)
  next
    case True
    with assms(1) v have "array_loop (tl (skip_ws (drop len s))) = Inr p"
      by (simp add: array_loop.simps [of s] Let_def)
    from assms(3) [OF v True this] obtain es where es: "tl (skip_ws (drop len s)) = es @ p" "jelems es" by blast
    obtain ws'' where ws'': "drop len s = ws'' @ 44 # tl (skip_ws (drop len s))" "jws ws''"
      by (rule skip_ws_then [OF True]) simp
    from s(1) es(1) ws''(1) have "s = ws @ w @ ws'' @ 44 # es @ p" by metis
    with s(2,3) ws''(2) es(2) show ?thesis
      by (intro exI [of _ "ws @ w @ ws'' @ 44 # es"]) (simp add: elems_more)
  qed
qed

lemma jelems_ws: "jelems es \<Longrightarrow> jws ws \<Longrightarrow> jelems (ws @ es)"
proof (erule jelems.cases, goal_cases)
  case (1 ws1 v ws2)
  then show ?case using elems_last [of "ws @ ws1" v ws2] by simp
next
  case (2 ws1 v ws2 es)
  then show ?case using elems_more [of "ws @ ws1" v ws2 es] by simp
qed

lemma jmembers_ws: "jmembers ms \<Longrightarrow> jws ws \<Longrightarrow> jmembers (ws @ ms)"
proof (erule jmembers.cases, goal_cases)
  case (1 ws1 n ws2 ws3 v ws4)
  then show ?case using members_last [of "ws @ ws1" n ws2 ws3 v ws4] by simp
next
  case (2 ws1 n ws2 ws3 v ws4 ms)
  then show ?case using members_more [of "ws @ ws1" n ws2 ws3 v ws4 ms] by simp
qed

lemma array_sound:
  assumes "json_parse_array s = Inr len" "hd0 s = 91"
    and "\<And>p. hd0 (skip_ws (tl s)) \<noteq> 93 \<Longrightarrow> array_loop (skip_ws (tl s)) = Inr p \<Longrightarrow>
      \<exists>es. skip_ws (tl s) = es @ p \<and> jelems es"
  shows "accepts jvalue s len"
proof -
  obtain t where s: "s = 91 # t" using assms(2) by (cases s) auto
  show ?thesis
  proof (cases "hd0 (skip_ws t) = 93")
    case True
    obtain ws where ws: "t = ws @ 93 # tl (skip_ws t)" "jws ws" by (rule skip_ws_then [OF True]) simp
    have "skip_ws t = 93 # tl (skip_ws t)" using True hd0_nonzero [of "skip_ws t"] by simp
    then have "length t = length ws + length (skip_ws t)" using ws(1) by (metis length_append)
    then have "len = length (91 # ws @ [93])"
      using True assms(1) unfolding s by (simp add: json_parse_array.simps [of "91 # t"] Let_def)
    moreover have "s = (91 # ws @ [93]) @ tl (skip_ws t)" using s ws(1) by simp
    ultimately show ?thesis using accepts_wordI value_array0 [OF ws(2)] by blast
  next
    case False
    with assms(1) obtain p where p: "array_loop (skip_ws t) = Inr p" "hd0 p = 93" "len = length s - length p + 1"
      unfolding s by (auto simp: json_parse_array.simps [of "91 # t"] Let_def json_error_def split: sum.splits if_splits)
    with assms(3) [of p] s False obtain es where es: "skip_ws t = es @ p" "jelems es" by auto
    obtain q where q: "p = 93 # q" using p(2) by (cases p) auto
    obtain ws where ws: "t = ws @ skip_ws t" "jws ws" by (rule skip_ws_split)
    have "s = (91 # (ws @ es) @ [93]) @ q" using s q es(1) ws(1) by simp
    moreover have "jvalue (91 # (ws @ es) @ [93])" using es(2) ws(2) by (intro value_array jelems_ws)
    ultimately show ?thesis using p(3) q accepts_wordI [of s "91 # (ws @ es) @ [93]" q jvalue len] by simp
  qed
qed

lemma object_loop_sound:
  assumes "object_loop s = Inr p"
    and value_ih: "\<And>t len. length t < length s \<Longrightarrow> json_parse_value t = Inr len \<Longrightarrow> accepts jvalue t len"
    and loop_ih: "\<And>t. length t < length s \<Longrightarrow> object_loop t = Inr p \<Longrightarrow> \<exists>ms. t = ms @ p \<and> jmembers ms"
  shows "\<exists>ms. s = ms @ p \<and> jmembers ms"
proof -
  have q: "hd0 s = 34" using assms(1) by (auto simp: object_loop.simps [of s] json_error_def split: if_splits)
  with assms(1) obtain len where name: "json_parse_string s = Inr len"
    by (auto simp: object_loop.simps [of s] split: sum.splits)
  define t where "t = tl (skip_ws (drop len s))"
  have colon: "hd0 (skip_ws (drop len s)) = 58"
    using assms(1) q name by (simp add: object_loop.simps [of s] Let_def json_error_def split: if_splits)
  with assms(1) q name obtain len2 where v: "json_parse_value t = Inr len2"
    by (auto simp: object_loop.simps [of s] Let_def t_def split: sum.splits)
  obtain n where n: "s = n @ drop len s" "jstring n"
    using parse_string_sound [OF name q] by (metis append_eq_conv_conj)
  obtain ws where ws: "drop len s = ws @ 58 # t" "jws ws"
    unfolding t_def by (rule skip_ws_then [OF colon]) simp_all
  have "length s = length n + length (drop len s)" using arg_cong [OF n(1), of length] by simp
  moreover have "length (drop len s) = length ws + Suc (length t)" using arg_cong [OF ws(1), of length] by simp
  ultimately have shorter: "length t < length s" by linarith
  obtain ws3 w where w: "t = ws3 @ w @ drop len2 t" "jws ws3" "jvalue w"
    by (rule acceptsE [OF value_ih [OF shorter v]])
  have s: "s = n @ ws @ 58 # ws3 @ w @ drop len2 t" using n(1) ws(1) w(1) by metis
  show ?thesis
  proof (cases "hd0 (skip_ws (drop len2 t)) = 44")
    case False
    obtain ws4 where ws4: "drop len2 t = ws4 @ skip_ws (drop len2 t)" "jws ws4" by (rule skip_ws_split)
    from False assms(1) q name colon v have "p = skip_ws (drop len2 t)"
      by (simp add: object_loop.simps [of s] Let_def t_def)
    with s ws4(1) have "s = (n @ ws @ 58 # ws3 @ w @ ws4) @ p" by simp
    then show ?thesis using members_last [of "[]" n ws ws3 w ws4] n ws w ws4 by fastforce
  next
    case True
    define r where "r = tl (skip_ws (drop len2 t))"
    obtain ws4 where ws4: "drop len2 t = ws4 @ 44 # r" "jws ws4"
      unfolding r_def by (rule skip_ws_then [OF True]) simp_all
    from True assms(1) q name colon v have "object_loop (skip_ws r) = Inr p"
      by (simp add: object_loop.simps [of s] Let_def t_def r_def)
    moreover have "length (drop len2 t) = length ws4 + Suc (length r)" using arg_cong [OF ws4(1), of length] by simp
    then have "length (skip_ws r) < length s" using shorter skip_ws_le [of r] by simp
    ultimately obtain ms where ms: "skip_ws r = ms @ p" "jmembers ms" using loop_ih by blast
    obtain ws5 where ws5: "r = ws5 @ skip_ws r" "jws ws5" by (rule skip_ws_split)
    from s ws4(1) ws5(1) ms(1) have "s = (n @ ws @ 58 # ws3 @ w @ ws4 @ 44 # ws5 @ ms) @ p" by simp
    moreover have "jmembers (ws5 @ ms)" using jmembers_ws ms ws5 by blast
    ultimately show ?thesis using members_more [of "[]" n ws ws3 w ws4 "ws5 @ ms"] n ws w ws4 by fastforce
  qed
qed

lemma object_sound:
  assumes "json_parse_object s = Inr len"
    and "\<And>t p. length t < length s \<Longrightarrow> object_loop t = Inr p \<Longrightarrow> \<exists>ms. t = ms @ p \<and> jmembers ms"
  shows "accepts jobject s len"
proof -
  have brace: "hd0 (skip_ws s) = 123"
    using assms(1) by (simp add: json_parse_object.simps [of s] Let_def json_error_def split: if_splits)
  define t where "t = tl (skip_ws s)"
  obtain ws where ws: "s = ws @ 123 # t" "jws ws"
    unfolding t_def by (rule skip_ws_then [OF brace]) simp_all
  have len_s: "length s = length ws + Suc (length t)" using arg_cong [OF ws(1), of length] by simp
  show ?thesis
  proof (cases "hd0 (skip_ws t) = 125")
    case True
    define r where "r = tl (skip_ws t)"
    obtain ws' where ws': "t = ws' @ 125 # r" "jws ws'"
      unfolding r_def by (rule skip_ws_then [OF True]) simp_all
    have "skip_ws t = 125 # r" using True hd0_nonzero [of "skip_ws t"] by (simp add: r_def)
    with assms(1) brace True have "len = length s - Suc (length r) + 1"
      by (simp add: json_parse_object.simps [of s] Let_def t_def)
    with len_s arg_cong [OF ws'(1), of length] have "len = length ws + length (123 # ws' @ [125])" by simp
    moreover have "s = ws @ (123 # ws' @ [125]) @ r" using ws ws' by simp
    moreover have "jobject (123 # ws' @ [125])" using ws'(2) by (auto simp: jobject_def)
    ultimately show ?thesis using ws(2) acceptsI by blast
  next
    case False
    with assms(1) brace obtain p where p: "object_loop (skip_ws t) = Inr p" "hd0 p = 125" "len = length s - length p + 1"
      by (auto simp: json_parse_object.simps [of s] Let_def t_def json_error_def split: sum.splits if_splits)
    have "length (skip_ws t) < length s" using len_s skip_ws_le [of t] by simp
    with assms(2) p(1) obtain ms where ms: "skip_ws t = ms @ p" "jmembers ms" by blast
    obtain q where q: "p = 125 # q" using p(2) by (cases p) auto
    obtain ws' where ws': "t = ws' @ skip_ws t" "jws ws'" by (rule skip_ws_split)
    from ws'(1) ms(1) q have t: "t = ws' @ ms @ 125 # q" by simp
    with ws(1) have "s = ws @ (123 # (ws' @ ms) @ [125]) @ q" by simp
    moreover have "jobject (123 # (ws' @ ms) @ [125])" using jmembers_ws [OF ms(2) ws'(2)] by (auto simp: jobject_def)
    moreover have "len = length ws + length (123 # (ws' @ ms) @ [125])"
      using p(3) q len_s arg_cong [OF t, of length] by simp
    ultimately show ?thesis using ws(2) acceptsI by blast
  qed
qed

text \<open>All functions together, by induction on the length of the text.\<close>

lemma parser_sound:
  "(\<forall>len. json_parse_value s = Inr len \<longrightarrow> accepts jvalue s len) \<and>
   (\<forall>p. array_loop s = Inr p \<longrightarrow> (\<exists>es. s = es @ p \<and> jelems es)) \<and>
   (\<forall>p. object_loop s = Inr p \<longrightarrow> (\<exists>ms. s = ms @ p \<and> jmembers ms)) \<and>
   (\<forall>len. json_parse_object s = Inr len \<longrightarrow> accepts jobject s len)"
proof (induction s rule: measure_induct_rule [of length])
  case (less s)
  have object: "accepts jobject t len" if "json_parse_object t = Inr len" "length t \<le> length s" for t len
    using less.IH that by (intro object_sound [OF that(1)]) auto
  have array: "accepts jvalue t len" if "json_parse_array t = Inr len" "hd0 t = 91" "length t \<le> length s" for t len
  proof (rule array_sound [OF that(1,2)])
    have "length (skip_ws (tl t)) < length s" using that(2,3) skip_ws_le [of "tl t"] by (cases t) auto
    then show "\<exists>es. skip_ws (tl t) = es @ p \<and> jelems es" if "array_loop (skip_ws (tl t)) = Inr p" for p
      using less.IH that by blast
  qed
  have v: "accepts jvalue s len" if "json_parse_value s = Inr len" for len
    using value_sound [OF that] object array skip_ws_le by blast
  have al: "\<exists>es. s = es @ p \<and> jelems es" if "array_loop s = Inr p" for p
  proof (rule array_loop_sound [OF that v])
    fix len
    assume "hd0 (skip_ws (drop len s)) = 44" and l: "array_loop (tl (skip_ws (drop len s))) = Inr p"
    then have "length (tl (skip_ws (drop len s))) < length s"
      using skip_drop_le [of len s] by (cases "skip_ws (drop len s)") auto
    with less.IH l show "\<exists>es. tl (skip_ws (drop len s)) = es @ p \<and> jelems es" by blast
  qed
  have ol: "\<exists>ms. s = ms @ p \<and> jmembers ms" if "object_loop s = Inr p" for p
    using less.IH by (intro object_loop_sound [OF that]) blast+
  show ?case using v al ol object by blast
qed

subsection \<open>What is in the grammar is accepted\<close>

lemma hex_digits_complete:
  "list_all isxdigit hs \<Longrightarrow> hex_digits (length hs) (c # hs @ t) = Some (last (c # hs) # t)"
  by (induction hs arbitrary: c) auto

lemma string_loop_complete: "jchars s \<Longrightarrow> string_loop (s @ 34 # r) = Inr (34 # r)"
proof (induction rule: jchars.induct)
  case chars_nil
  then show ?case by (simp add: string_loop.simps)
next
  case (chars_plain c s)
  then have "c \<noteq> 0" by (auto simp: iscntrl_def)
  with chars_plain show ?case by (simp add: string_loop.simps [of "c # s @ 34 # r"])
next
  case (chars_escape c s)
  then have "parse_escape (92 # c # s @ 34 # r) = Inr (c # s @ 34 # r)" "\<not> iscntrl c"
    by (auto simp: parse_escape_def Let_def iscntrl_def)
  with chars_escape.IH show ?case by (simp add: string_loop.simps [of "92 # c # s @ 34 # r"])
next
  case (chars_unicode hs s)
  then have "hs \<noteq> []" by auto
  with chars_unicode have "isxdigit (last hs)" by (simp add: list_all_iff)
  then have l: "\<not> iscntrl (last hs)" using isxdigit_plain by blast
  have "hex_digits 4 (117 # hs @ s @ 34 # r) = Some (last hs # s @ 34 # r)"
    using hex_digits_complete [OF chars_unicode(2), of 117 "s @ 34 # r"] chars_unicode(1) \<open>hs \<noteq> []\<close> by simp
  then have "parse_escape (92 # 117 # hs @ s @ 34 # r) = Inr (last hs # s @ 34 # r)"
    by (simp add: parse_escape_def Let_def)
  with chars_unicode.IH l show ?case by (simp add: string_loop.simps [of "92 # 117 # hs @ s @ 34 # r"])
qed

lemma parse_string_complete:
  assumes "jstring w"
  shows "json_parse_string (w @ r) = Inr (length w)" "hd0 (w @ r) = 34"
  using assms by (auto simp: jstring_def json_parse_string_def string_loop_complete)

lemma number_loop_complete:
  assumes "list_all isdigit ds" "jfrac f" "\<not> isdigit (hd0 r)" "hd0 r \<noteq> 46"
  shows "number_loop (ds @ f @ r) False k = (r, k + length ds)"
proof -
  have stop: "number_loop r p k = (r, k)" for p k using assms(3,4) by (cases r) auto
  have point: "list_all isdigit ds \<Longrightarrow> number_loop (ds @ r) True k = (r, k)" for ds k
    by (induction ds) (auto simp: stop isdigit_def)
  have "number_loop (f @ r) False k = (r, k)" for k
    using assms(2) by (auto simp: jfrac_def stop point)
  then show ?thesis using assms(1) by (induction ds arbitrary: k) (auto simp: isdigit_def)
qed

lemma parse_exponent_complete:
  assumes "jexp e" "e \<noteq> []" "\<not> isdigit (hd0 r)"
  shows "parse_exponent (e @ r) = Inr r" "hd0 (e @ r) = 101 \<or> hd0 (e @ r) = 69"
proof -
  obtain x sg d ds where e: "e = x # sg @ d # ds" "x \<in> {101, 69}" "sg \<in> {[], [43], [45]}" "isdigit d" "list_all isdigit ds"
  proof -
    obtain x sg ds where "e = x # sg @ ds" "x \<in> {101, 69}" "sg \<in> {[], [43], [45]}" "ds \<noteq> []" "list_all isdigit ds"
      using assms(1,2) unfolding jexp_def by blast
    then show ?thesis using that [of x sg "hd ds" "tl ds"] by (cases ds) simp_all
  qed
  have "dropWhile isdigit (ds @ r) = r"
    using e(5) assms(3) by (induction ds) (cases r, auto)
  moreover have "d \<noteq> 0 \<and> d \<noteq> 43 \<and> d \<noteq> 45" using e(4) by (auto simp: isdigit_def)
  ultimately show "parse_exponent (e @ r) = Inr r" using e(3,4) unfolding e(1)
    by (auto simp: parse_exponent_def Let_def)
  show "hd0 (e @ r) = 101 \<or> hd0 (e @ r) = 69" using e(2) unfolding e(1) by simp
qed

text \<open>What may follow a number.\<close>

definition ends_number :: "u8 list \<Rightarrow> bool" where
  "ends_number r \<longleftrightarrow> \<not> isdigit (hd0 r) \<and> hd0 r \<noteq> 46 \<and> hd0 r \<noteq> 101 \<and> hd0 r \<noteq> 69"

lemma parse_number_complete:
  assumes "jnumber w" "ends_number r"
  shows "json_parse_number (w @ r) = Inr (length w)" "isdigit (hd0 (w @ r)) \<or> hd0 (w @ r) = 45"
proof -
  obtain sg ds f e where w: "w = sg @ ds @ f @ e" "sg \<in> {[], [45]}" "jint ds" "jfrac f" "jexp e"
    using assms(1) by (auto simp: jnumber_def)
  obtain d ds' where ds: "ds = d # ds'" "isdigit d" "d = 48 \<longrightarrow> ds' = []"
    using w(3) by (cases ds) (auto simp: jint_def)
  then have minus: "d \<noteq> 45" by (auto simp: isdigit_def)
  show "isdigit (hd0 (w @ r)) \<or> hd0 (w @ r) = 45" using w(1,2) ds by auto
  have after: "\<not> isdigit (hd0 (e @ r)) \<and> hd0 (e @ r) \<noteq> 46"
    using w(5) assms(2) by (auto simp: jexp_def ends_number_def isdigit_def)
  have "number_loop (ds @ f @ e @ r) False 0 = (e @ r, length ds)"
    using number_loop_complete [of ds f "e @ r" 0] w(3,4) after by (simp add: jint_def)
  then have l: "number_loop (if hd0 (w @ r) = 45 then tl (w @ r) else w @ r) False 0 = (e @ r, Suc (length ds'))"
    and first: "hd0 (if hd0 (w @ r) = 45 then tl (w @ r) else w @ r) = d"
    using w(1,2) ds(1) minus by auto
  show "json_parse_number (w @ r) = Inr (length w)"
  proof (cases "e = []")
    case True
    with l first ds(3) assms(2) show ?thesis
      by (auto simp: json_parse_number_def Let_def ends_number_def)
  next
    case False
    with parse_exponent_complete [OF w(5) False] assms(2) l first ds(3) show ?thesis
      by (auto simp: json_parse_number_def Let_def ends_number_def)
  qed
qed

lemma parse_literal_complete: "w \<in> {lit_true, lit_false, lit_null} \<Longrightarrow> json_parse_literal (w @ r) w = Inr (length w)"
  by (auto simp: json_parse_literal_def literal_values)

lemma jvalue_first:
  assumes "jvalue v"
  shows "hd0 (v @ r) \<notin> {0, 93, 125, 44, 58}" "\<not> is_ws (hd0 (v @ r))" "skip_ws (v @ r) = v @ r"
proof -
  have "hd0 (v @ r) \<in> {34, 91, 123, 116, 102, 110, 45} \<or> isdigit (hd0 (v @ r))"
    using assms
  proof (cases rule: jvalue.cases)
    case value_number
    then obtain sg ds f e where "v = sg @ ds @ f @ e" "sg \<in> {[], [45]}" "jint ds" by (auto simp: jnumber_def)
    then show ?thesis by (cases ds) (auto simp: jint_def)
  qed (auto simp: jstring_def literal_values)
  then show 1: "hd0 (v @ r) \<notin> {0, 93, 125, 44, 58}" and 2: "\<not> is_ws (hd0 (v @ r))"
    by (auto simp: isdigit_def is_ws_iff)
  from 2 show "skip_ws (v @ r) = v @ r" by (rule skip_ws_id)
qed

lemma ends_number_ws: "jws ws \<Longrightarrow> hd0 r \<in> {44, 93, 125} \<Longrightarrow> ends_number (ws @ r)"
  by (cases ws) (auto simp: ends_number_def isdigit_def is_ws_iff)

lemma skip_ws_delim: "jws ws \<Longrightarrow> hd0 r \<in> {44, 58, 93, 125, 34} \<Longrightarrow> skip_ws (ws @ r) = r"
  by (subst skip_ws_append, assumption, rule skip_ws_id) (auto simp: is_ws_iff)

definition value_complete :: "u8 list \<Rightarrow> bool" where
  "value_complete v \<longleftrightarrow> (\<forall>ws r. jws ws \<longrightarrow> ends_number r \<longrightarrow> json_parse_value (ws @ v @ r) = Inr (length ws + length v))"

lemma value_completeD:
  "value_complete v \<Longrightarrow> jws ws \<Longrightarrow> ends_number r \<Longrightarrow> json_parse_value (ws @ v @ r) = Inr (length ws + length v)"
  by (simp add: value_complete_def)

text \<open>One value with the white space after it, in front of a delimiter.\<close>

lemma value_then:
  assumes "value_complete v" "jws ws" "jws ws'" "hd0 r \<in> {44, 93, 125}"
  shows "json_parse_value (ws @ v @ ws' @ r) = Inr (length ws + length v)"
    "skip_ws (drop (length ws + length v) (ws @ v @ ws' @ r)) = r"
  using value_completeD [OF assms(1,2) ends_number_ws [OF assms(3,4)]] skip_ws_delim [OF assms(3), of r] assms(4)
  by auto

lemma array_loop_last:
  assumes "value_complete v" "jws ws" "jws ws'" "hd0 r = 93"
  shows "array_loop (ws @ v @ ws' @ r) = Inr r"
  using value_then [OF assms(1-3), of r] assms(4)
  by (simp add: array_loop.simps [of "ws @ v @ ws' @ r"] Let_def)

lemma array_loop_more:
  assumes "value_complete v" "jws ws" "jws ws'"
  shows "array_loop (ws @ v @ ws' @ 44 # r) = array_loop r"
  using value_then [OF assms, of "44 # r"]
  by (simp add: array_loop.simps [of "ws @ v @ ws' @ 44 # r"] Let_def)

lemma object_loop_pair:
  assumes "jstring n" "jws ws2" "jws ws3" "value_complete v" "jws ws4" "hd0 r \<in> {44, 125}"
  shows "object_loop (n @ ws2 @ 58 # ws3 @ v @ ws4 @ r) = (if hd0 r = 44 then object_loop (skip_ws (tl r)) else Inr r)"
proof -
  let ?s = "n @ ws2 @ 58 # ws3 @ v @ ws4 @ r"
  have n: "json_parse_string ?s = Inr (length n)" "hd0 ?s = 34" using parse_string_complete [OF assms(1)] by blast+
  have c: "skip_ws (drop (length n) ?s) = 58 # ws3 @ v @ ws4 @ r" using skip_ws_delim [OF assms(2)] by simp
  have d: "hd0 r \<in> {44, 93, 125}" using assms(6) by auto
  show ?thesis using n c value_then [OF assms(4,3,5) d] by (simp add: object_loop.simps [of ?s] Let_def)
qed

lemma value_completeI:
  assumes "jvalue v"
    and "\<And>r. ends_number r \<Longrightarrow>
      (if hd0 (v @ r) = ch CHR 0x22 then json_parse_string (v @ r) else if hd0 (v @ r) = ch CHR ''{'' then json_parse_object (v @ r)
       else if hd0 (v @ r) = ch CHR ''['' then json_parse_array (v @ r)
       else if hd0 (v @ r) = ch CHR ''t'' then json_parse_literal (v @ r) lit_true
       else if hd0 (v @ r) = ch CHR ''f'' then json_parse_literal (v @ r) lit_false
       else if hd0 (v @ r) = ch CHR ''n'' then json_parse_literal (v @ r) lit_null
       else if isdigit (hd0 (v @ r)) \<or> hd0 (v @ r) = ch CHR ''-'' then json_parse_number (v @ r)
       else json_error ''invalid JSON object value starting character'' (Some (v @ r))) = Inr (length v)"
  shows "value_complete v"
  unfolding value_complete_def
proof (intro allI impI)
  fix ws r
  assume "jws ws" "ends_number r"
  have skip: "skip_ws (ws @ v @ r) = v @ r"
    using skip_ws_append [OF \<open>jws ws\<close>] jvalue_first(3) [OF assms(1)] by simp
  have "hd0 (v @ r) \<noteq> 0" using jvalue_first(1) [OF assms(1)] by blast
  then show "json_parse_value (ws @ v @ r) = Inr (length ws + length v)"
    unfolding json_parse_value.simps [of "ws @ v @ r"] Let_def skip assms(2) [OF \<open>ends_number r\<close>] by simp
qed

lemma json_parse_array_complete:
  "jws ws \<Longrightarrow> json_parse_array (91 # ws @ 93 # r) = Inr (length ws + 2)"
  "hd0 (skip_ws (es @ 93 # r)) \<noteq> 93 \<Longrightarrow> array_loop (skip_ws (es @ 93 # r)) = Inr (93 # r) \<Longrightarrow>
    json_parse_array (91 # es @ 93 # r) = Inr (length es + 2)"
  by (simp_all add: json_parse_array.simps Let_def skip_ws_delim)

lemma json_parse_object_complete:
  "jws ws \<Longrightarrow> json_parse_object (123 # ws @ 125 # r) = Inr (length ws + 2)"
  "hd0 (skip_ws (ms @ 125 # r)) \<noteq> 125 \<Longrightarrow> object_loop (skip_ws (ms @ 125 # r)) = Inr (125 # r) \<Longrightarrow>
    json_parse_object (123 # ms @ 125 # r) = Inr (length ms + 2)"
  by (simp_all add: json_parse_object.simps Let_def skip_ws_delim skip_ws_id is_ws_iff)

lemma grammar_complete:
  "jvalue v \<Longrightarrow> value_complete v"
  "jelems es \<Longrightarrow> hd0 r = 93 \<Longrightarrow> array_loop (es @ r) = Inr r \<and> array_loop (skip_ws (es @ r)) = Inr r \<and>
     hd0 (skip_ws (es @ r)) \<noteq> 93"
  "jmembers ms \<Longrightarrow> hd0 r = 125 \<Longrightarrow> object_loop (skip_ws (ms @ r)) = Inr r \<and> hd0 (skip_ws (ms @ r)) \<noteq> 125"
proof (induction arbitrary: and r and r rule: jvalue_jelems_jmembers.inducts)
  case (value_string w)
  then show ?case by (intro value_completeI jvalue_jelems_jmembers.value_string) (simp_all add: parse_string_complete)
next
  case (value_number w)
  have "hd0 (w @ r) \<notin> {34, 123, 91, 116, 102, 110}" if "ends_number r" for r
    using parse_number_complete(2) [OF value_number that] by (auto simp: isdigit_def)
  with value_number show ?case
    by (intro value_completeI jvalue_jelems_jmembers.value_number) (auto simp: parse_number_complete)
next
  case (value_literal w)
  then show ?case
    by (intro value_completeI jvalue_jelems_jmembers.value_literal) (auto simp: parse_literal_complete, auto simp: literal_values)
next
  case (value_array0 ws)
  then show ?case
    by (intro value_completeI jvalue_jelems_jmembers.value_array0) (simp_all add: json_parse_array_complete)
next
  case (value_array es)
  then show ?case
    by (intro value_completeI jvalue_jelems_jmembers.value_array) (simp_all add: json_parse_array_complete)
next
  case (value_object0 ws)
  then show ?case
    by (intro value_completeI jvalue_jelems_jmembers.value_object0) (simp_all add: json_parse_object_complete)
next
  case (value_object ms)
  then show ?case
    by (intro value_completeI jvalue_jelems_jmembers.value_object) (simp_all add: json_parse_object_complete)
next
  case (elems_last ws1 v ws2)
  have "skip_ws (ws1 @ v @ ws2 @ r) = v @ ws2 @ r" "hd0 (v @ ws2 @ r) \<noteq> 93"
    using skip_ws_append [OF elems_last(1)] jvalue_first [OF elems_last(2), of "ws2 @ r"] by auto
  with elems_last array_loop_last [of v _ ws2 r] show ?case by (simp add: array_loop_last [of v "[]", simplified])
next
  case (elems_more ws1 v ws2 es)
  have "skip_ws (ws1 @ v @ ws2 @ 44 # es @ r) = v @ ws2 @ 44 # es @ r" "hd0 (v @ ws2 @ 44 # es @ r) \<noteq> 93"
    using skip_ws_append [OF elems_more(1)] jvalue_first [OF elems_more(2), of "ws2 @ 44 # es @ r"] by auto
  with elems_more show ?case by (simp add: array_loop_more array_loop_more [of v "[]", simplified])
next
  case (members_last ws1 n ws2 ws3 v ws4)
  have "hd0 (n @ ws2 @ 58 # ws3 @ v @ ws4 @ r) = 34" using parse_string_complete(2) [OF members_last(2)] by blast
  moreover from this have "skip_ws (ws1 @ n @ ws2 @ 58 # ws3 @ v @ ws4 @ r) = n @ ws2 @ 58 # ws3 @ v @ ws4 @ r"
    using skip_ws_delim [OF members_last(1)] by simp
  ultimately show ?case using members_last object_loop_pair [of n ws2 ws3 v ws4 r] by simp
next
  case (members_more ws1 n ws2 ws3 v ws4 ms)
  let ?r = "44 # ms @ r"
  have "hd0 (n @ ws2 @ 58 # ws3 @ v @ ws4 @ ?r) = 34" using parse_string_complete(2) [OF members_more(2)] by blast
  moreover from this have "skip_ws (ws1 @ n @ ws2 @ 58 # ws3 @ v @ ws4 @ ?r) = n @ ws2 @ 58 # ws3 @ v @ ws4 @ ?r"
    using skip_ws_delim [OF members_more(1)] by simp
  ultimately show ?case using members_more object_loop_pair [of n ws2 ws3 v ws4 ?r] by simp
qed

lemma parse_object_leading_ws:
  assumes "jws ws" "json_parse_object (123 # t) = Inr len"
  shows "json_parse_object (ws @ 123 # t) = Inr (length ws + len)"
proof -
  have skip: "skip_ws (ws @ 123 # t) = 123 # t" "skip_ws (123 # t) = 123 # t"
    using skip_ws_append [OF assms(1)] by (simp_all add: skip_ws_id is_ws_iff)
  have le: "length p \<le> length t + 1" if "object_loop (skip_ws t) = Inr p" for p
    using parser_sound [of "skip_ws t"] that skip_ws_le [of t] by (auto dest!: arg_cong [where f = length])
  show ?thesis
    using assms(2) skip le skip_ws_le [of t]
    by (auto simp: json_parse_object.simps [of "ws @ 123 # t"] json_parse_object.simps [of "123 # t"] Let_def
        json_error_def split: if_splits sum.splits)
qed

lemma parse_object_complete:
  assumes "jobject w" "jws ws"
  shows "json_parse_object (ws @ w @ r) = Inr (length ws + length w)"
proof -
  obtain s where w: "w = 123 # s @ [125]" "jws s \<or> jmembers s" using assms(1) by (auto simp: jobject_def)
  from w(2) have "json_parse_object (123 # s @ 125 # r) = Inr (length s + 2)"
  proof
    assume "jmembers s"
    from grammar_complete(3) [OF this, of "125 # r"] show ?thesis by (intro json_parse_object_complete) auto
  qed (rule json_parse_object_complete)
  from parse_object_leading_ws [OF assms(2) this] w(1) show ?thesis by simp
qed

subsection \<open>Properties\<close>

text \<open>C29. \<^verbatim>\<open>zbx_json_validate\<close> accepts exactly the JSON objects: it succeeds on a text if and only if
  the text, up to its terminating zero, is an object of the grammar between white space, and then it
  returns the number of characters up to the closing brace. The grammar is that of RFC 8259, but a
  number may end with its decimal point, and byte 127 may not occur in a string.\<close>

theorem json_validate_accepts_objects:
  "zbx_json_validate s = Inr len \<longleftrightarrow>
   (\<exists>ws w ws' r. s = ws @ w @ ws' @ r \<and> jws ws \<and> jobject w \<and> jws ws' \<and> hd0 r = 0 \<and> len = length ws + length w)"
proof
  assume v: "zbx_json_validate s = Inr len"
  then have o: "json_parse_object s = Inr len" "hd0 (skip_ws (drop len s)) = 0"
    by (auto simp: zbx_json_validate_def Let_def json_error_def split: sum.splits if_splits)
  obtain ws w where w: "s = ws @ w @ drop len s" "jws ws" "jobject w" "len = length ws + length w"
    using parser_sound [of s] o(1) acceptsE by blast
  obtain ws' where ws': "drop len s = ws' @ skip_ws (drop len s)" "jws ws'" by (rule skip_ws_split)
  from w(1) ws'(1) have "s = ws @ w @ ws' @ skip_ws (drop len s)" by simp
  with w(2-4) ws'(2) o(2) show "\<exists>ws w ws' r. s = ws @ w @ ws' @ r \<and> jws ws \<and> jobject w \<and> jws ws' \<and> hd0 r = 0 \<and>
      len = length ws + length w" by blast
next
  assume "\<exists>ws w ws' r. s = ws @ w @ ws' @ r \<and> jws ws \<and> jobject w \<and> jws ws' \<and> hd0 r = 0 \<and> len = length ws + length w"
  then obtain ws w ws' r where s: "s = ws @ w @ ws' @ r" "jws ws" "jobject w" "jws ws'" "hd0 r = 0"
    "len = length ws + length w" by blast
  have "skip_ws (ws' @ r) = r" using s(4,5) by (simp add: skip_ws_append skip_ws_id is_ws_iff)
  then show "zbx_json_validate s = Inr len"
    using s parse_object_complete [OF s(3,2), of "ws' @ r"] by (simp add: zbx_json_validate_def Let_def)
qed

lemma json_trailing_point_accepted:
  "zbx_json_validate [123, 34, 97, 34, 58, 49, 46, 125] = Inr 8"
  by code_simp

lemma json_delete_rejected:
  "zbx_json_validate [123, 34, 97, 34, 58, 34, 127, 34, 125] =
    Inl (''invalid control character in string data'', Some [127, 34, 125])"
  by code_simp

end
