(* ===== verification/JsonBuild.thy ===== *)
theory JsonBuild
  imports JsonParser
begin

text \<open>
  \<^verbatim>\<open>src/libs/zbxjson/json.c\<close>, the writing half: a JSON document that grows in place. The buffer always
  holds a whole document with its terminating zero; \<open>zj_offset\<close> is the place inside the innermost
  open object or array where the next item goes, and everything behind it is moved up. The memory
  is the list of all bytes of the buffer, \<open>zj_static\<close> tells whether it is \<^verbatim>\<open>buf_stat\<close> inside the
  structure or allocated, and \<open>mem\<close> is what fresh memory contains. \<^verbatim>\<open>zbx_malloc\<close> and \<^verbatim>\<open>zbx_realloc\<close>
  succeed or end the process, and sizes stay below \<open>2 ^ 64\<close>.
\<close>

subsection \<open>The structure and its buffer\<close>

datatype zbx_json_type = JSON_TYPE_STRING | JSON_TYPE_INT | JSON_TYPE_OTHER

datatype zbx_json_status = ZBX_JSON_EMPTY | ZBX_JSON_COMMA

definition ZBX_JSON_STAT_BUF_LEN :: nat where "ZBX_JSON_STAT_BUF_LEN = 4096"

record zbx_json =
  zj_buffer :: "u8 list option"
  zj_static :: bool
  zj_stat :: "u8 list"
  zj_allocated :: nat
  zj_offset :: nat
  zj_size :: nat
  zj_status :: zbx_json_status
  zj_level :: nat

definition fresh :: "(nat \<Rightarrow> u8) \<Rightarrow> nat \<Rightarrow> u8 list" where
  "fresh mem n = map mem [0..<n]"

text \<open>The doubling loop of \<^verbatim>\<open>__zbx_json_realloc\<close>.\<close>

function grow_until :: "nat \<Rightarrow> nat \<Rightarrow> nat" where
  "grow_until need alloc =
    (if need > alloc then grow_until need (if alloc = 0 then 1024 else alloc * 2) else alloc)"
  by pat_completeness auto
termination by (relation "measure (\<lambda>(need, alloc). need - alloc)") auto

declare grow_until.simps [simp del]

definition zbx_json_realloc :: "(nat \<Rightarrow> u8) \<Rightarrow> zbx_json \<Rightarrow> nat \<Rightarrow> zbx_json" where
  "zbx_json_realloc mem j need =
    (case zj_buffer j of
       None \<Rightarrow>
         if need > ZBX_JSON_STAT_BUF_LEN
         then j\<lparr>zj_allocated := need, zj_buffer := Some (fresh mem need), zj_static := False\<rparr>
         else j\<lparr>zj_allocated := ZBX_JSON_STAT_BUF_LEN, zj_buffer := Some (zj_stat j), zj_static := True\<rparr>
     | Some buf \<Rightarrow>
         if need > zj_allocated j
         then
           let alloc = grow_until need (zj_allocated j) in
           (if zj_static j
            then j\<lparr>zj_allocated := alloc, zj_static := False,
                   zj_buffer := Some (write_at (fresh mem alloc) 0 (take ZBX_JSON_STAT_BUF_LEN buf))\<rparr>
            else j\<lparr>zj_allocated := alloc, zj_buffer := Some (write_at (fresh mem alloc) 0 buf)\<rparr>)
         else j)"

subsection \<open>Strings\<close>

text \<open>A missing string is written as \<^verbatim>\<open>null\<close>.\<close>

definition short_escapes :: "u8 list" where
  "short_escapes = [ch CHR 0x22, ch CHR 0x5C, ch CHR ''/'', 8, 12, 10, 13, 9]"

definition zbx_json_stringsize :: "u8 list option \<Rightarrow> zbx_json_type \<Rightarrow> nat" where
  "zbx_json_stringsize str type =
    foldl (\<lambda>len c. if c \<in> set short_escapes then len + 2 else if c < 32 then len + 6 else len + 1) 0
      (case str of None \<Rightarrow> lit_null | Some s \<Rightarrow> s) +
    (if str \<noteq> None \<and> type = JSON_TYPE_STRING then 2 else 0)"

definition escape_char :: "u8 \<Rightarrow> u8 list" where
  "escape_char c =
    (if c = ch CHR 0x22 then [ch CHR 0x5C, ch CHR 0x22]
     else if c = ch CHR 0x5C then [ch CHR 0x5C, ch CHR 0x5C]
     else if c = ch CHR ''/'' then [ch CHR 0x5C, ch CHR ''/'']
     else if c = 8 then [ch CHR 0x5C, ch CHR ''b'']
     else if c = 12 then [ch CHR 0x5C, ch CHR ''f'']
     else if c = 10 then [ch CHR 0x5C, ch CHR ''n'']
     else if c = 13 then [ch CHR 0x5C, ch CHR ''r'']
     else if c = 9 then [ch CHR 0x5C, ch CHR ''t'']
     else if c < 32 then
       [ch CHR 0x5C, ch CHR ''u'', ch CHR ''0'', ch CHR ''0'',
        zbx_num2hex (drop_bit 4 c AND 0xf), zbx_num2hex (c AND 0xf)]
     else [c])"

text \<open>The bytes \<^verbatim>\<open>__zbx_json_insstring\<close> writes at its pointer.\<close>

definition zbx_json_insstring :: "u8 list option \<Rightarrow> zbx_json_type \<Rightarrow> u8 list" where
  "zbx_json_insstring str type =
    (let quote = (if str \<noteq> None \<and> type = JSON_TYPE_STRING then [ch CHR 0x22] else []) in
     quote @ concat (map escape_char (case str of None \<Rightarrow> lit_null | Some s \<Rightarrow> s)) @ quote)"

subsection \<open>Building\<close>

text \<open>Moving up the tail with its zero by \<open>len\<close> bytes, and writing at the offset.\<close>

definition make_gap :: "zbx_json \<Rightarrow> nat \<Rightarrow> u8 list \<Rightarrow> u8 list" where
  "make_gap j len buf =
    write_at buf (zj_offset j + len) (take (zj_size j - zj_offset j + 1) (drop (zj_offset j) buf))"

definition put_text :: "zbx_json \<Rightarrow> nat \<Rightarrow> u8 list \<Rightarrow> u8 list option" where
  "put_text j len txt =
    map_option (\<lambda>buf. write_at (make_gap j len buf) (zj_offset j) txt) (zj_buffer j)"

definition zbx_json_add_box :: "(nat \<Rightarrow> u8) \<Rightarrow> zbx_json \<Rightarrow> u8 list option \<Rightarrow> bool \<Rightarrow> zbx_json" where
  "zbx_json_add_box mem j name obj =
    (let len = 2 + (if zj_status j = ZBX_JSON_COMMA then 1 else 0) + (if zj_level j \<noteq> 0 then 1 else 0) + zj_level j +
           (if name \<noteq> None then zbx_json_stringsize name JSON_TYPE_STRING + 1 else 0);
         j1 = zbx_json_realloc mem j (zj_size j + len + 1);
         txt = (if zj_status j = ZBX_JSON_COMMA then [ch CHR '',''] else []) @
           (if zj_level j \<noteq> 0 then [10] else []) @ replicate (zj_level j) 9 @
           (if name \<noteq> None then zbx_json_insstring name JSON_TYPE_STRING @ [ch CHR '':''] else []) @
           [if obj then ch CHR ''{'' else ch CHR ''['']
     in j1\<lparr>zj_buffer := put_text j1 len (txt @ [if obj then ch CHR ''}'' else ch CHR '']'']),
           zj_offset := zj_offset j + length txt, zj_size := zj_size j + len,
           zj_level := zj_level j + 1, zj_status := ZBX_JSON_EMPTY\<rparr>)"

definition zbx_json_addobject :: "(nat \<Rightarrow> u8) \<Rightarrow> zbx_json \<Rightarrow> u8 list option \<Rightarrow> zbx_json" where
  "zbx_json_addobject mem j name = zbx_json_add_box mem j name True"

definition zbx_json_addarray :: "(nat \<Rightarrow> u8) \<Rightarrow> zbx_json \<Rightarrow> u8 list option \<Rightarrow> zbx_json" where
  "zbx_json_addarray mem j name = zbx_json_add_box mem j name False"

definition zbx_json_addstring ::
  "(nat \<Rightarrow> u8) \<Rightarrow> zbx_json \<Rightarrow> u8 list option \<Rightarrow> u8 list option \<Rightarrow> zbx_json_type \<Rightarrow> zbx_json" where
  "zbx_json_addstring mem j name str type =
    (let len = (if zj_status j = ZBX_JSON_COMMA then 1 else 0) +
           (if name \<noteq> None then 1 + zj_level j + zbx_json_stringsize name JSON_TYPE_STRING + 1 else 0) +
           zbx_json_stringsize str type;
         j1 = zbx_json_realloc mem j (zj_size j + len + 1);
         txt = (if zj_status j = ZBX_JSON_COMMA then [ch CHR '',''] else []) @
           (if name \<noteq> None
            then 10 # replicate (zj_level j) 9 @ zbx_json_insstring name JSON_TYPE_STRING @ [ch CHR '':''] else []) @
           zbx_json_insstring str type
     in j1\<lparr>zj_buffer := put_text j1 len txt, zj_offset := zj_offset j + length txt,
           zj_size := zj_size j + len, zj_status := ZBX_JSON_COMMA\<rparr>)"

text \<open>The decimal digits of a number, as \<^verbatim>\<open>printf\<close> writes them; at most 20 for 64 bits.\<close>

fun decimal :: "nat \<Rightarrow> u8 list" where
  "decimal n = (if n < 10 then [of_nat (48 + n)] else decimal (n div 10) @ [of_nat (48 + n mod 10)])"

declare decimal.simps [simp del]

definition MAX_ID_LEN :: nat where "MAX_ID_LEN = 21"

definition zbx_json_adduint64 :: "(nat \<Rightarrow> u8) \<Rightarrow> zbx_json \<Rightarrow> u8 list option \<Rightarrow> u64 \<Rightarrow> zbx_json" where
  "zbx_json_adduint64 mem j name value =
    zbx_json_addstring mem j name (Some (take (MAX_ID_LEN - 1) (decimal (unat value)))) JSON_TYPE_INT"

definition zbx_json_close :: "zbx_json \<Rightarrow> zres \<times> zbx_json" where
  "zbx_json_close j =
    (if zj_level j = 1 then (Fail, j)
     else (Succeed, j\<lparr>zj_level := zj_level j - 1, zj_offset := zj_offset j + 1, zj_status := ZBX_JSON_COMMA\<rparr>))"

text \<open>The structure starts out undefined: only its static buffer is there.\<close>

definition zbx_json_init :: "(nat \<Rightarrow> u8) \<Rightarrow> u8 list \<Rightarrow> nat \<Rightarrow> zbx_json" where
  "zbx_json_init mem stat allocate =
    (let j = zbx_json_realloc mem
           \<lparr>zj_buffer = None, zj_static = False, zj_stat = stat, zj_allocated = 0, zj_offset = 0, zj_size = 0,
            zj_status = ZBX_JSON_EMPTY, zj_level = 0\<rparr> allocate
     in zbx_json_addobject mem (j\<lparr>zj_buffer := map_option (\<lambda>buf. buf[0 := 0]) (zj_buffer j)\<rparr>) None)"

definition zbx_json_clean :: "(nat \<Rightarrow> u8) \<Rightarrow> zbx_json \<Rightarrow> zbx_json" where
  "zbx_json_clean mem j =
    zbx_json_addobject mem
      (j\<lparr>zj_offset := 0, zj_size := 0, zj_status := ZBX_JSON_EMPTY, zj_level := 0,
         zj_buffer := map_option (\<lambda>buf. buf[0 := 0]) (zj_buffer j)\<rparr>) None"

subsection \<open>Specification: trees and their text\<close>

text \<open>
  A document is a tree; the items of an object or array have names or not, as the calls gave
  them. An object or array at depth \<open>l\<close> has its items indented by \<open>l + 1\<close> tabs.
\<close>

datatype jtree = Leaf "u8 list option" zbx_json_type | Box bool "(u8 list option \<times> jtree) list"

fun is_box :: "jtree \<Rightarrow> bool" where
  "is_box (Box _ _) = True"
| "is_box _ = False"

fun commas :: "u8 list list \<Rightarrow> u8 list" where
  "commas [] = []"
| "commas [x] = x"
| "commas (x # y # xs) = x @ ch CHR '','' # commas (y # xs)"

definition open_box :: "bool \<Rightarrow> u8" where
  "open_box obj = (if obj then ch CHR ''{'' else ch CHR ''['')"

definition close_box :: "bool \<Rightarrow> u8" where
  "close_box obj = (if obj then ch CHR ''}'' else ch CHR '']'')"

definition name_text :: "u8 list option \<Rightarrow> u8 list" where
  "name_text name = (if name = None then [] else zbx_json_insstring name JSON_TYPE_STRING @ [ch CHR '':''])"

text \<open>What stands before a value at depth \<open>l\<close>: a new line with tabs, for boxes and named items, and the name.\<close>

definition lead :: "nat \<Rightarrow> u8 list option \<Rightarrow> bool \<Rightarrow> u8 list" where
  "lead l name box = (if l \<noteq> 0 \<and> (box \<or> name \<noteq> None) then 10 # replicate l 9 else []) @ name_text name"

fun render :: "nat \<Rightarrow> jtree \<Rightarrow> u8 list" where
  "render l (Leaf str type) = zbx_json_insstring str type"
| "render l (Box obj kids) =
    open_box obj #
    commas (map (\<lambda>kid. lead (Suc l) (fst kid) (is_box (snd kid)) @ render (Suc l) (snd kid)) kids) @ [close_box obj]"

definition item_text :: "nat \<Rightarrow> u8 list option \<times> jtree \<Rightarrow> u8 list" where
  "item_text l kid = lead l (fst kid) (is_box (snd kid)) @ render l (snd kid)"

text \<open>
  A document under construction is the stack of its open boxes, the innermost first, each with
  the name it has in the next one and the items it has so far.
\<close>

type_synonym frame = "u8 list option \<times> bool \<times> (u8 list option \<times> jtree) list"

definition json_new :: "frame list" where
  "json_new = [(None, True, [])]"

fun spec_add :: "u8 list option \<Rightarrow> jtree \<Rightarrow> frame list \<Rightarrow> frame list" where
  "spec_add name t ((n, obj, kids) # st) = (n, obj, kids @ [(name, t)]) # st"
| "spec_add name t [] = []"

definition spec_open :: "u8 list option \<Rightarrow> bool \<Rightarrow> frame list \<Rightarrow> frame list" where
  "spec_open name obj st = (name, obj, []) # st"

fun spec_close :: "frame list \<Rightarrow> frame list" where
  "spec_close ((n, obj, kids) # fr # st) = spec_add n (Box obj kids) (fr # st)"
| "spec_close st = st"

text \<open>The tree when all open boxes are closed.\<close>

fun json_tree :: "frame list \<Rightarrow> jtree" where
  "json_tree [(n, obj, kids)] = Box obj kids"
| "json_tree ((n, obj, kids) # fr # st) = json_tree (spec_add n (Box obj kids) (fr # st))"
| "json_tree [] = Box True []"

fun before :: "frame list \<Rightarrow> u8 list" where
  "before [] = []"
| "before ((n, obj, kids) # st) =
    before st @ (if st \<noteq> [] \<and> snd (snd (hd st)) \<noteq> [] then [ch CHR '',''] else []) @ lead (length st) n True @
    open_box obj # commas (map (item_text (Suc (length st))) kids)"

definition after :: "frame list \<Rightarrow> u8 list" where
  "after st = map (\<lambda>fr. close_box (fst (snd fr))) st"

subsection \<open>The size of a string is what is written\<close>

lemma escape_char_length:
  "length (escape_char c) = (if c \<in> set short_escapes then 2 else if c < 32 then 6 else 1)"
  by (simp add: escape_char_def short_escapes_def)

lemma stringsize_length [simp]: "zbx_json_stringsize str type = length (zbx_json_insstring str type)"
proof -
  have "foldl (\<lambda>len c. if c \<in> set short_escapes then len + 2 else if c < 32 then len + 6 else len + 1) n s =
      n + length (concat (map escape_char s))" for n s
    by (induction s arbitrary: n) (simp_all add: escape_char_length)
  from this [of 0] show ?thesis
    by (cases str) (simp_all add: zbx_json_stringsize_def zbx_json_insstring_def Let_def)
qed

subsection \<open>The buffer\<close>

lemma grow_until_ge: "need \<le> grow_until need alloc" "alloc \<le> grow_until need alloc"
proof (induction need alloc rule: grow_until.induct)
  case (1 need alloc)
  {
    case 1
    then show ?case using "1.IH" by (subst grow_until.simps) (simp split: if_splits)
  next
    case 2
    then show ?case using "1.IH" by (subst grow_until.simps) (auto split: if_splits)
  }
qed

lemma length_fresh [simp]: "length (fresh mem n) = n"
  by (simp add: fresh_def)

lemma length_write_at: "pos + length xs \<le> length buf \<Longrightarrow> length (write_at buf pos xs) = length buf"
  by (simp add: write_at_def)

text \<open>The memory belongs to the structure: its size is known, and the static buffer is not outgrown.\<close>

definition zj_memory :: "zbx_json \<Rightarrow> u8 list \<Rightarrow> bool" where
  "zj_memory j buf \<longleftrightarrow> zj_buffer j = Some buf \<and> zj_allocated j = length buf \<and>
    (zj_static j \<longrightarrow> length buf = ZBX_JSON_STAT_BUF_LEN)"

lemma realloc_keeps:
  assumes "zj_memory j buf"
  obtains buf' where "zj_memory (zbx_json_realloc mem j need) buf'" "need \<le> length buf'"
    "take (length buf) buf' = buf"
    "zj_offset (zbx_json_realloc mem j need) = zj_offset j" "zj_size (zbx_json_realloc mem j need) = zj_size j"
    "zj_status (zbx_json_realloc mem j need) = zj_status j" "zj_level (zbx_json_realloc mem j need) = zj_level j"
proof (cases "need > zj_allocated j")
  case True
  let ?n = "grow_until need (length buf)"
  have n: "need \<le> ?n" "length buf \<le> ?n" by (rule grow_until_ge)+
  then have w: "take (length buf) (write_at (fresh mem ?n) 0 buf) = buf" "length (write_at (fresh mem ?n) 0 buf) = ?n"
    by (simp_all add: write_at_def)
  with True assms n show ?thesis
    by (intro that [of "write_at (fresh mem ?n) 0 buf"]) (auto simp: zbx_json_realloc_def zj_memory_def Let_def)
next
  case False
  with assms show ?thesis
    by (intro that [of buf]) (auto simp: zbx_json_realloc_def zj_memory_def)
qed

text \<open>The whole document with its zero is \<open>b\<close>, up to the offset, and \<open>a\<close> behind it.\<close>

definition zj_holds :: "zbx_json \<Rightarrow> u8 list \<Rightarrow> u8 list \<Rightarrow> bool" where
  "zj_holds j b a \<longleftrightarrow> (\<exists>buf. zj_memory j buf \<and> (\<exists>rest. buf = b @ a @ 0 # rest)) \<and>
    zj_offset j = length b \<and> zj_size j = length b + length a"

lemma put_text_correct:
  assumes "zj_memory j buf" "buf = b @ a @ 0 # rest" "zj_offset j = length b" "zj_size j = length b + length a"
    "length txt = len" "zj_size j + len + 1 \<le> length buf"
  shows "\<exists>rest'. put_text j len txt = Some (b @ txt @ a @ 0 # rest') \<and> length (b @ txt @ a @ 0 # rest') = length buf"
proof -
  have len: "len \<le> length rest" using assms(2,4,6) by simp
  moreover have "write_at (make_gap j len buf) (length b) txt = b @ txt @ a @ 0 # drop len rest"
  proof -
    have "make_gap j len buf = take (length b + len) buf @ (a @ [0]) @ drop len rest"
      using assms(2-4) by (simp add: make_gap_def write_at_def)
    then show ?thesis using assms(2,5) len by (simp add: write_at_def min_def) arith
  qed
  ultimately show ?thesis using assms(1-3,5) by (simp add: put_text_def zj_memory_def)
qed

text \<open>One insertion: room is made, the text is written at the offset, and what follows is kept.\<close>

lemma insert_correct:
  assumes "zj_holds j b a" "length (txt @ tl1) = len"
  shows "zj_holds ((zbx_json_realloc mem j (zj_size j + len + 1))
      \<lparr>zj_buffer := put_text (zbx_json_realloc mem j (zj_size j + len + 1)) len (txt @ tl1),
       zj_offset := zj_offset j + length txt, zj_size := zj_size j + len\<rparr>) (b @ txt) (tl1 @ a)"
proof -
  obtain buf rest where buf: "zj_memory j buf" "buf = b @ a @ 0 # rest" "zj_offset j = length b"
    "zj_size j = length b + length a" using assms(1) by (auto simp: zj_holds_def)
  let ?j = "zbx_json_realloc mem j (zj_size j + len + 1)"
  obtain buf' where buf': "zj_memory ?j buf'" "zj_size j + len + 1 \<le> length buf'" "take (length buf) buf' = buf"
    "zj_offset ?j = zj_offset j" "zj_size ?j = zj_size j" by (rule realloc_keeps [OF buf(1)])
  have "buf' = b @ a @ 0 # rest @ drop (length buf) buf'"
    using buf'(3) buf(2) append_take_drop_id [of "length buf" buf'] by simp
  from put_text_correct [OF buf'(1) this _ _ assms(2)] buf' buf obtain rest' where
    "put_text ?j len (txt @ tl1) = Some (b @ (txt @ tl1) @ a @ 0 # rest')"
    "length (b @ (txt @ tl1) @ a @ 0 # rest') = length buf'" by auto
  with buf'(1) buf assms(2) show ?thesis by (simp add: zj_holds_def zj_memory_def)
qed

subsection \<open>The calls implement the specification\<close>

lemma commas_snoc: "commas (xs @ [x]) = (if xs = [] then x else commas xs @ ch CHR '','' # x)"
  by (induction xs rule: commas.induct) simp_all

lemma render_Box: "render l (Box obj kids) = open_box obj # commas (map (item_text (Suc l)) kids) @ [close_box obj]"
  by (simp add: item_text_def [abs_def])

declare render.simps(2) [simp del]

lemma before_add:
  "before (spec_add name t ((n, obj, kids) # st)) =
    before ((n, obj, kids) # st) @ (if kids \<noteq> [] then [ch CHR '',''] else []) @ item_text (Suc (length st)) (name, t)"
  by (simp add: commas_snoc)

lemma after_add: "after (spec_add name t (fr # st)) = after (fr # st)"
  by (cases fr) (simp add: after_def)

definition json_refines :: "zbx_json \<Rightarrow> frame list \<Rightarrow> bool" where
  "json_refines j st \<longleftrightarrow> st \<noteq> [] \<and> zj_holds j (before st) (after st) \<and> zj_level j = length st \<and>
    zj_status j = (if snd (snd (hd st)) = [] then ZBX_JSON_EMPTY else ZBX_JSON_COMMA)"

lemma zj_holds_frame [simp]:
  "zj_holds (j\<lparr>zj_status := s\<rparr>) b a = zj_holds j b a" "zj_holds (j\<lparr>zj_level := l\<rparr>) b a = zj_holds j b a"
  by (simp_all add: zj_holds_def zj_memory_def)

lemma realloc_level [simp]: "zj_level (zbx_json_realloc mem j need) = zj_level j"
  by (simp add: zbx_json_realloc_def Let_def split: option.split)

lemma addstring_refines:
  assumes "json_refines j st"
  shows "json_refines (zbx_json_addstring mem j name str type) (spec_add name (Leaf str type) st)"
proof -
  obtain n obj kids st' where st: "st = (n, obj, kids) # st'" using assms by (cases st) (auto simp: json_refines_def)
  define w where "w = (if kids \<noteq> [] then [ch CHR '',''] else []) @ item_text (length st) (name, Leaf str type)"
  let ?j = "zbx_json_realloc mem j (zj_size j + length w + 1)"
  let ?j1 = "?j\<lparr>zj_buffer := put_text ?j (length w) (w @ []), zj_offset := zj_offset j + length w,
    zj_size := zj_size j + length w\<rparr>"
  have written: "(if zj_status j = ZBX_JSON_COMMA then [ch CHR '',''] else []) @
      (if name \<noteq> None then 10 # replicate (zj_level j) 9 @ zbx_json_insstring name JSON_TYPE_STRING @ [ch CHR '':'']
       else []) @ zbx_json_insstring str type = w"
    and len: "(if zj_status j = ZBX_JSON_COMMA then 1 else 0) +
      (if name \<noteq> None then 1 + zj_level j + zbx_json_stringsize name JSON_TYPE_STRING + 1 else 0) +
      zbx_json_stringsize str type = length w"
    using assms st by (simp_all add: w_def json_refines_def item_text_def lead_def name_text_def)
  have "zbx_json_addstring mem j name str type = ?j1\<lparr>zj_status := ZBX_JSON_COMMA\<rparr>"
    unfolding zbx_json_addstring_def Let_def written len by simp
  moreover have "zj_holds ?j1 (before st @ w) ([] @ after st)"
    using assms by (intro insert_correct) (simp_all add: json_refines_def)
  moreover have "before (spec_add name (Leaf str type) st) = before st @ w"
    "after (spec_add name (Leaf str type) st) = after st"
    unfolding st w_def by (simp_all only: before_add after_add list.size(4) add.right_neutral add_Suc_right One_nat_def)
  ultimately show ?thesis using assms st by (simp add: json_refines_def del: before.simps)
qed

lemma add_box_refines:
  assumes "zj_holds j b a" "b = before st" "a = after st" "zj_level j = length st"
    "zj_status j = (if st \<noteq> [] \<and> snd (snd (hd st)) \<noteq> [] then ZBX_JSON_COMMA else ZBX_JSON_EMPTY)"
  shows "json_refines (zbx_json_add_box mem j name obj) (spec_open name obj st)"
proof -
  define w where "w = (if st \<noteq> [] \<and> snd (snd (hd st)) \<noteq> [] then [ch CHR '',''] else []) @
    lead (length st) name True @ [open_box obj]"
  let ?len = "length (w @ [close_box obj])"
  let ?j = "zbx_json_realloc mem j (zj_size j + ?len + 1)"
  let ?j1 = "?j\<lparr>zj_buffer := put_text ?j ?len (w @ [close_box obj]), zj_offset := zj_offset j + length w,
    zj_size := zj_size j + ?len\<rparr>"
  have written: "(if zj_status j = ZBX_JSON_COMMA then [ch CHR '',''] else []) @
      (if zj_level j \<noteq> 0 then [10] else []) @ replicate (zj_level j) 9 @
      (if name \<noteq> None then zbx_json_insstring name JSON_TYPE_STRING @ [ch CHR '':''] else []) @
      [if obj then ch CHR ''{'' else ch CHR ''[''] = w"
    and len: "2 + (if zj_status j = ZBX_JSON_COMMA then 1 else 0) + (if zj_level j \<noteq> 0 then 1 else 0) + zj_level j +
      (if name \<noteq> None then zbx_json_stringsize name JSON_TYPE_STRING + 1 else 0) = ?len"
    using assms by (simp_all add: w_def lead_def name_text_def open_box_def)
  have "zbx_json_add_box mem j name obj = ?j1\<lparr>zj_level := zj_level j + 1, zj_status := ZBX_JSON_EMPTY\<rparr>"
    unfolding zbx_json_add_box_def Let_def written len by (simp add: close_box_def)
  moreover have "zj_holds ?j1 (b @ w) ([close_box obj] @ a)"
    using assms(1) by (intro insert_correct) simp_all
  moreover have "before (spec_open name obj st) = b @ w" "after (spec_open name obj st) = [close_box obj] @ a"
    using assms(2,3) by (simp_all add: w_def after_def spec_open_def)
  ultimately show ?thesis using assms(4) by (simp add: json_refines_def spec_open_def del: before.simps)
qed

lemma close_refines:
  assumes "json_refines j st"
  shows "json_refines (snd (zbx_json_close j)) (spec_close st)"
    "fst (zbx_json_close j) = Fail \<longleftrightarrow> length st = 1"
proof -
  show "fst (zbx_json_close j) = Fail \<longleftrightarrow> length st = 1"
    using assms by (simp add: zbx_json_close_def json_refines_def)
  show "json_refines (snd (zbx_json_close j)) (spec_close st)"
  proof (cases st rule: spec_close.cases)
    case (1 n obj kids fr st')
    obtain m obj' kids' where fr: "fr = (m, obj', kids')" by (cases fr)
    have b: "before (spec_close st) = before st @ [close_box obj]"
      unfolding 1 fr spec_close.simps before_add by (simp add: item_text_def render_Box)
    have a: "after st = close_box obj # after (spec_close st)"
      unfolding 1 fr by (simp add: after_def)
    have "zj_holds (j\<lparr>zj_offset := zj_offset j + 1\<rparr>) (before (spec_close st)) (after (spec_close st))"
      using assms a unfolding b by (auto simp: json_refines_def zj_holds_def zj_memory_def)
    moreover have "length (spec_close st) + 1 = length st" "spec_close st \<noteq> []" "snd (snd (hd (spec_close st))) \<noteq> []"
      unfolding 1 fr by simp_all
    ultimately show ?thesis using assms
      by (auto simp: json_refines_def zbx_json_close_def zj_holds_def zj_memory_def)
  qed (use assms in \<open>simp_all add: json_refines_def zbx_json_close_def\<close>)
qed

definition json_blank :: "zbx_json \<Rightarrow> zbx_json" where
  "json_blank j = j\<lparr>zj_offset := 0, zj_size := 0, zj_status := ZBX_JSON_EMPTY, zj_level := 0,
     zj_buffer := map_option (\<lambda>buf. buf[0 := 0]) (zj_buffer j)\<rparr>"

lemma blank_refines:
  assumes "zj_memory j buf" "buf \<noteq> []"
  shows "json_refines (zbx_json_addobject mem (json_blank j) None) json_new"
proof -
  have "zj_holds (json_blank j) [] []"
    using assms by (cases buf) (auto simp: zj_holds_def zj_memory_def json_blank_def)
  then show ?thesis unfolding zbx_json_addobject_def json_new_def
    using add_box_refines [of "json_blank j" "[]" "[]" "[]" mem None True]
    by (simp add: json_blank_def after_def spec_open_def)
qed

lemma clean_refines:
  assumes "json_refines j st"
  shows "json_refines (zbx_json_clean mem j) json_new"
proof -
  obtain buf where "zj_memory j buf" "buf \<noteq> []"
    using assms by (auto simp: json_refines_def zj_holds_def)
  then show ?thesis using blank_refines by (simp add: zbx_json_clean_def json_blank_def)
qed

lemma init_refines:
  assumes "length stat = ZBX_JSON_STAT_BUF_LEN"
  shows "json_refines (zbx_json_init mem stat allocate) json_new"
proof -
  let ?j0 = "\<lparr>zj_buffer = None, zj_static = False, zj_stat = stat, zj_allocated = 0, zj_offset = 0, zj_size = 0,
    zj_status = ZBX_JSON_EMPTY, zj_level = 0\<rparr>"
  let ?j = "zbx_json_realloc mem ?j0 allocate"
  have fields: "zj_offset ?j = 0" "zj_size ?j = 0" "zj_status ?j = ZBX_JSON_EMPTY"
    by (simp_all add: zbx_json_realloc_def)
  have "\<exists>buf. zj_memory ?j buf \<and> buf \<noteq> []"
  proof (cases "allocate > ZBX_JSON_STAT_BUF_LEN")
    case True
    then have "fresh mem allocate \<noteq> []" by (simp add: fresh_def)
    with True show ?thesis by (simp add: zbx_json_realloc_def zj_memory_def)
  next
    case False
    have "stat \<noteq> []" using assms by (auto simp: ZBX_JSON_STAT_BUF_LEN_def)
    with False assms show ?thesis by (simp add: zbx_json_realloc_def zj_memory_def)
  qed
  moreover have "json_blank ?j = ?j\<lparr>zj_buffer := map_option (\<lambda>buf. buf[0 := 0]) (zj_buffer ?j)\<rparr>"
    using fields by (simp add: json_blank_def)
  ultimately show ?thesis using blank_refines unfolding zbx_json_init_def Let_def by metis
qed

text \<open>Sequences of calls.\<close>

datatype json_call =
    Add_object "u8 list option"
  | Add_array "u8 list option"
  | Add_string "u8 list option" "u8 list option" zbx_json_type
  | Add_uint64 "u8 list option" u64
  | Close_box
  | Clean

fun json_step :: "(nat \<Rightarrow> u8) \<Rightarrow> json_call \<Rightarrow> zbx_json \<Rightarrow> zbx_json" where
  "json_step mem (Add_object name) j = zbx_json_addobject mem j name"
| "json_step mem (Add_array name) j = zbx_json_addarray mem j name"
| "json_step mem (Add_string name str type) j = zbx_json_addstring mem j name str type"
| "json_step mem (Add_uint64 name v) j = zbx_json_adduint64 mem j name v"
| "json_step mem Close_box j = snd (zbx_json_close j)"
| "json_step mem Clean j = zbx_json_clean mem j"

fun spec_step :: "json_call \<Rightarrow> frame list \<Rightarrow> frame list" where
  "spec_step (Add_object name) st = spec_open name True st"
| "spec_step (Add_array name) st = spec_open name False st"
| "spec_step (Add_string name str type) st = spec_add name (Leaf str type) st"
| "spec_step (Add_uint64 name v) st = spec_add name (Leaf (Some (take (MAX_ID_LEN - 1) (decimal (unat v)))) JSON_TYPE_INT) st"
| "spec_step Close_box st = spec_close st"
| "spec_step Clean st = json_new"

lemma json_step_refines: "json_refines j st \<Longrightarrow> json_refines (json_step mem c j) (spec_step c st)"
proof (induction c)
  case (Add_object name)
  then show ?case unfolding json_step.simps spec_step.simps zbx_json_addobject_def
    by (intro add_box_refines [OF _ refl refl]) (auto simp: json_refines_def)
next
  case (Add_array name)
  then show ?case unfolding json_step.simps spec_step.simps zbx_json_addarray_def
    by (intro add_box_refines [OF _ refl refl]) (auto simp: json_refines_def)
qed (simp_all add: addstring_refines close_refines clean_refines zbx_json_adduint64_def)

lemma json_steps_refine:
  "json_refines j st \<Longrightarrow> json_refines (fold (json_step mem) calls j) (fold spec_step calls st)"
  by (induction calls arbitrary: j st) (simp_all add: json_step_refines)

text \<open>The text of the document under construction is the text of the tree.\<close>

lemma before_after_tree: "st \<noteq> [] \<Longrightarrow> before st @ after st = lead 0 (fst (last st)) True @ render 0 (json_tree st)"
proof (induction st rule: json_tree.induct)
  case (1 n obj kids)
  then show ?case by (simp add: after_def render_Box)
next
  case (2 n obj kids fr st)
  obtain m obj' kids' where fr: "fr = (m, obj', kids')" by (cases fr)
  have b: "before (spec_add n (Box obj kids) (fr # st)) = before ((n, obj, kids) # fr # st) @ [close_box obj]"
    unfolding fr before_add by (simp add: item_text_def render_Box)
  have a: "after ((n, obj, kids) # fr # st) = close_box obj # after (spec_add n (Box obj kids) (fr # st))"
    by (simp add: fr after_def)
  have "fst (last (spec_add n (Box obj kids) (fr # st))) = fst (last ((n, obj, kids) # fr # st))"
    by (simp add: fr)
  moreover have "spec_add n (Box obj kids) (fr # st) \<noteq> []" by (simp add: fr)
  moreover have "json_tree ((n, obj, kids) # fr # st) = json_tree (spec_add n (Box obj kids) (fr # st))" by simp
  ultimately show ?case using "2.IH" a b by (metis append.assoc append_Cons append_Nil)
qed simp

lemma root_name: "st \<noteq> [] \<Longrightarrow> fst (last st) = None \<Longrightarrow> spec_step c st \<noteq> [] \<and> fst (last (spec_step c st)) = None"
proof (induction c)
  case (Add_string name str type)
  then show ?case by (cases st) auto
next
  case (Add_uint64 name v)
  then show ?case by (cases st) auto
next
  case Close_box
  then show ?case by (cases st rule: spec_close.cases) auto
qed (auto simp: spec_open_def json_new_def)

lemma root_name_fold: "fold spec_step calls json_new \<noteq> [] \<and> fst (last (fold spec_step calls json_new)) = None"
proof -
  have "st \<noteq> [] \<Longrightarrow> fst (last st) = None \<Longrightarrow>
    fold spec_step calls st \<noteq> [] \<and> fst (last (fold spec_step calls st)) = None" for st
    using root_name by (induction calls arbitrary: st) auto
  then show ?thesis by (simp add: json_new_def)
qed

text \<open>What the buffer holds, up to its terminating zero.\<close>

definition zj_text :: "zbx_json \<Rightarrow> u8 list" where
  "zj_text j = take (zj_size j) (the (zj_buffer j))"

lemma zj_holds_text:
  assumes "zj_holds j b a"
  shows "zj_text j = b @ a" "the (zj_buffer j) ! zj_size j = 0" "zj_size j < length (the (zj_buffer j))"
    "length (the (zj_buffer j)) = zj_allocated j" "zj_size j = length (zj_text j)"
  using assms by (auto simp: zj_holds_def zj_memory_def zj_text_def nth_append)

subsection \<open>Typing of calls\<close>

text \<open>
  Items have a name exactly in objects. Strings are free of byte 127, which the recogniser refuses;
  text inserted as a number is one.
\<close>

definition clean_string :: "u8 list \<Rightarrow> bool" where
  "clean_string s \<longleftrightarrow> 127 \<notin> set s"

fun name_ok :: "bool \<Rightarrow> u8 list option \<Rightarrow> bool" where
  "name_ok obj None = (\<not> obj)"
| "name_ok obj (Some n) = (obj \<and> clean_string n)"

fun leaf_ok :: "u8 list option \<Rightarrow> zbx_json_type \<Rightarrow> bool" where
  "leaf_ok None type = True"
| "leaf_ok (Some s) JSON_TYPE_STRING = clean_string s"
| "leaf_ok (Some s) type = jnumber s"

text \<open>The kinds of the open boxes after a call, objects being \<open>True\<close>; \<open>None\<close> when the call does not fit.\<close>

fun call_type :: "json_call \<Rightarrow> bool list \<Rightarrow> bool list option" where
  "call_type (Add_object name) ks = (if name_ok (hd ks) name then Some (True # ks) else None)"
| "call_type (Add_array name) ks = (if name_ok (hd ks) name then Some (False # ks) else None)"
| "call_type (Add_string name str type) ks = (if name_ok (hd ks) name \<and> leaf_ok str type then Some ks else None)"
| "call_type (Add_uint64 name v) ks = (if name_ok (hd ks) name then Some ks else None)"
| "call_type Close_box ks = (if length ks = 1 then Some ks else Some (tl ks))"
| "call_type Clean ks = Some [True]"

fun calls_type :: "json_call list \<Rightarrow> bool list \<Rightarrow> bool list option" where
  "calls_type [] ks = Some ks"
| "calls_type (c # cs) ks = (case call_type c ks of None \<Rightarrow> None | Some ks1 \<Rightarrow> calls_type cs ks1)"

fun well_typed :: "jtree \<Rightarrow> bool" where
  "well_typed (Leaf str type) = leaf_ok str type"
| "well_typed (Box obj kids) = (\<forall>kid \<in> set kids. name_ok obj (fst kid) \<and> well_typed (snd kid))"

lemma num2hex_digit: "x \<le> 15 \<Longrightarrow> isxdigit (zbx_num2hex x)"
  by (auto simp: isxdigit_def isdigit_def zbx_num2hex_def word_le_nat_alt unat_plus_if' split: if_splits)

lemma and_15_le: "(x AND 15) \<le> (15 :: u8)"
  by (rule word_and_le1)

lemma escape_char_jchars:
  assumes "c \<noteq> 127" "jchars s"
  shows "jchars (escape_char c @ s)"
proof (cases "c \<in> set short_escapes")
  case True
  then show ?thesis using chars_escape [OF _ assms(2)] by (auto simp: short_escapes_def escape_char_def)
next
  case False
  show ?thesis
  proof (cases "c < 32")
    case True
    with False have "escape_char c = 92 # 117 # [48, 48, zbx_num2hex (drop_bit 4 c AND 15), zbx_num2hex (c AND 15)]"
      by (auto simp: escape_char_def short_escapes_def)
    moreover have "list_all isxdigit [48, 48, zbx_num2hex (drop_bit 4 c AND 15), zbx_num2hex (c AND 15)]"
      using num2hex_digit [OF and_15_le] by (simp add: isxdigit_def isdigit_def)
    ultimately show ?thesis
      using chars_unicode [of "[48, 48, zbx_num2hex (drop_bit 4 c AND 15), zbx_num2hex (c AND 15)]", OF _ _ assms(2)]
      by simp
  next
    case False
    with \<open>c \<notin> set short_escapes\<close> have "escape_char c = [c]" "c \<noteq> 34" "c \<noteq> 92"
      by (auto simp: escape_char_def short_escapes_def)
    with False assms show ?thesis by (simp add: chars_plain iscntrl_def)
  qed
qed

lemma insstring_jstring: "clean_string s \<Longrightarrow> jstring (zbx_json_insstring (Some s) JSON_TYPE_STRING)"
proof -
  have "127 \<notin> set s \<Longrightarrow> jchars (concat (map escape_char s))"
    by (induction s) (auto intro: chars_nil escape_char_jchars)
  then show "clean_string s \<Longrightarrow> jstring (zbx_json_insstring (Some s) JSON_TYPE_STRING)"
    by (simp add: clean_string_def jstring_def zbx_json_insstring_def)
qed

lemma escape_char_plain: "c \<notin> set short_escapes \<Longrightarrow> \<not> c < 32 \<Longrightarrow> escape_char c = [c]"
  by (auto simp: escape_char_def short_escapes_def)

lemma jnumber_plain: "jnumber w \<Longrightarrow> concat (map escape_char w) = w"
proof -
  assume "jnumber w"
  then obtain sg ds f e where w: "w = sg @ ds @ f @ e" "sg \<in> {[], [45]}" "jint ds" "jfrac f" "jexp e"
    by (auto simp: jnumber_def)
  have d: "isdigit c \<Longrightarrow> escape_char c = [c]" for c
    by (rule escape_char_plain) (auto simp: isdigit_def short_escapes_def word_le_nat_alt word_less_nat_alt)
  have ds: "list_all isdigit ds \<Longrightarrow> concat (map escape_char ds) = ds" for ds
    by (induction ds) (auto simp: d)
  have c: "escape_char c = [c]" if "c \<in> {45, 43, 46, 101, 69}" for c
    using that by (auto simp: escape_char_def)
  have "concat (map escape_char sg) = sg" "concat (map escape_char f) = f" "concat (map escape_char e) = e"
    using w(2,4,5) by (auto simp: ds c jfrac_def jexp_def)
  then show ?thesis using w(1,3) by (simp add: ds jint_def)
qed

lemma leaf_valid: "leaf_ok str type \<Longrightarrow> jvalue (zbx_json_insstring str type)"
proof (induction str type rule: leaf_ok.induct)
  case (1 type)
  have "zbx_json_insstring None type = lit_null" by (simp add: zbx_json_insstring_def literal_values escape_char_def)
  then show ?case by (simp add: value_literal)
next
  case (2 s)
  then show ?case by (simp add: value_string insstring_jstring)
qed (simp_all add: zbx_json_insstring_def jnumber_plain value_number)

lemma lead_split: "\<exists>ws. jws ws \<and> lead l name box = ws @ name_text name"
  by (auto simp: lead_def is_ws_iff list_all_iff)

lemma commas_elems:
  assumes "xs \<noteq> []" "\<forall>x \<in> set xs. \<exists>ws v. x = ws @ v \<and> jws ws \<and> jvalue v"
  shows "jelems (commas xs)"
  using assms
proof (induction xs rule: commas.induct)
  case (2 x)
  then obtain ws v where "x = ws @ v" "jws ws" "jvalue v" by auto
  then show ?case using elems_last [of ws v "[]"] by simp
next
  case (3 x y xs)
  then obtain ws v where "x = ws @ v" "jws ws" "jvalue v" by auto
  then show ?case using elems_more [of ws v "[]"] 3 by simp
qed simp

lemma commas_members:
  assumes "xs \<noteq> []" "\<forall>x \<in> set xs. \<exists>ws n v. x = ws @ n @ 58 # v \<and> jws ws \<and> jstring n \<and> jvalue v"
  shows "jmembers (commas xs)"
  using assms
proof (induction xs rule: commas.induct)
  case (2 x)
  then obtain ws n v where "x = ws @ n @ 58 # v" "jws ws" "jstring n" "jvalue v" by auto
  then show ?case using members_last [of ws n "[]" "[]" v "[]"] by simp
next
  case (3 x y xs)
  then obtain ws n v where "x = ws @ n @ 58 # v" "jws ws" "jstring n" "jvalue v" by auto
  then show ?case using members_more [of ws n "[]" "[]" v "[]"] 3 by simp
qed simp

lemma item_valid:
  assumes "name_ok obj (fst kid)" "jvalue (render l (snd kid))"
  shows "obj \<Longrightarrow> \<exists>ws n v. item_text l kid = ws @ n @ 58 # v \<and> jws ws \<and> jstring n \<and> jvalue v"
    "\<not> obj \<Longrightarrow> \<exists>ws v. item_text l kid = ws @ v \<and> jws ws \<and> jvalue v"
proof -
  obtain ws where ws: "jws ws" "lead l (fst kid) (is_box (snd kid)) = ws @ name_text (fst kid)"
    using lead_split by blast
  {
    assume obj
    with assms(1) obtain s where s: "fst kid = Some s" "clean_string s" by (cases "fst kid") auto
    then have "item_text l kid = ws @ zbx_json_insstring (Some s) JSON_TYPE_STRING @ 58 # render l (snd kid)"
      using ws(2) by (simp add: item_text_def name_text_def)
    with ws(1) insstring_jstring [OF s(2)] assms(2)
    show "\<exists>ws n v. item_text l kid = ws @ n @ 58 # v \<and> jws ws \<and> jstring n \<and> jvalue v" by blast
  next
    assume "\<not> obj"
    with assms(1) have "fst kid = None" by (cases "fst kid") auto
    then have "item_text l kid = ws @ render l (snd kid)" using ws(2) by (simp add: item_text_def name_text_def)
    with ws(1) assms(2) show "\<exists>ws v. item_text l kid = ws @ v \<and> jws ws \<and> jvalue v" by blast
  }
qed

lemma box_valid:
  assumes "\<forall>kid \<in> set kids. name_ok obj (fst kid) \<and> jvalue (render (Suc l) (snd kid))"
  shows "jvalue (render l (Box obj kids))" "obj \<Longrightarrow> jobject (render l (Box obj kids))"
proof -
  have obj: "jobject (render l (Box obj kids))" if obj
  proof (cases "kids = []")
    case False
    have "jmembers (commas (map (item_text (Suc l)) kids))"
      using assms that False item_valid(1) by (intro commas_members) auto
    with that show ?thesis by (simp add: render_Box jobject_def open_box_def close_box_def)
  qed (use that in \<open>simp add: render_Box jobject_def open_box_def close_box_def\<close>)
  then show "obj \<Longrightarrow> jobject (render l (Box obj kids))" .
  show "jvalue (render l (Box obj kids))"
  proof (cases obj)
    case False
    show ?thesis
    proof (cases "kids = []")
      case True
      with False show ?thesis using value_array0 [of "[]"] by (simp add: render_Box open_box_def close_box_def)
    next
      assume "kids \<noteq> []"
      then have "jelems (commas (map (item_text (Suc l)) kids))"
        using assms False item_valid(2) by (intro commas_elems) auto
      with False show ?thesis using value_array by (simp add: render_Box open_box_def close_box_def)
    qed
  qed (use obj jobject_value in simp)
qed

lemma render_valid: "well_typed t \<Longrightarrow> jvalue (render l t)"
proof (induction t arbitrary: l)
  case (Leaf str type)
  then show ?case by (simp add: leaf_valid)
next
  case (Box obj kids)
  then have "\<forall>kid \<in> set kids. name_ok obj (fst kid) \<and> jvalue (render (Suc l) (snd kid))"
    by (metis snds.intros surjective_pairing well_typed.simps(2))
  then show ?case by (rule box_valid)
qed

lemma decimal_digits:
  "list_all isdigit (decimal n) \<and> decimal n \<noteq> [] \<and> (hd (decimal n) = 48 \<longrightarrow> length (decimal n) = 1 \<and> n = 0)"
proof (induction n rule: decimal.induct)
  case (1 n)
  have digit: "isdigit (word_of_nat (48 + k))" and zero: "word_of_nat (48 + k) = (48 :: u8) \<longleftrightarrow> k = 0"
    if "k < 10" for k :: nat
  proof -
    have u: "unat (word_of_nat (48 + k) :: u8) = 48 + k"
      using that by (simp add: unat_of_nat take_bit_nat_eq_self del: of_nat_add)
    then show "isdigit (word_of_nat (48 + k))" using that by (simp add: isdigit_def word_le_nat_alt)
    show "word_of_nat (48 + k) = (48 :: u8) \<longleftrightarrow> k = 0" using u by (simp add: word_unat_eq_iff)
  qed
  show ?case
  proof (cases "n < 10")
    case True
    with digit zero show ?thesis by (subst (1 2 3 4) decimal.simps) simp
  next
    case False
    with "1.IH" have IH: "list_all isdigit (decimal (n div 10))" "decimal (n div 10) \<noteq> []"
      "hd (decimal (n div 10)) \<noteq> 48" by auto
    have "decimal n = decimal (n div 10) @ [word_of_nat (48 + n mod 10)]" using False by (subst decimal.simps) simp
    with IH digit [of "n mod 10"] show ?thesis by simp
  qed
qed

lemma decimal_length: "n < 10 ^ Suc k \<Longrightarrow> length (decimal n) \<le> Suc k"
proof (induction k arbitrary: n)
  case 0
  then show ?case by (simp add: decimal.simps)
next
  case (Suc k)
  then show ?case by (subst decimal.simps) (simp add: less_mult_imp_div_less)
qed

lemma decimal_uint64:
  "take (MAX_ID_LEN - 1) (decimal (unat (v :: u64))) = decimal (unat v)" "jnumber (decimal (unat (v :: u64)))"
proof -
  have "unat v < 2 ^ 64" using unsigned_less [of v] by simp
  then have "unat v < 10 ^ Suc 19" by simp
  from decimal_length [OF this] show "take (MAX_ID_LEN - 1) (decimal (unat v)) = decimal (unat v)"
    by (simp add: MAX_ID_LEN_def)
  have "jint (decimal (unat v))" using decimal_digits [of "unat v"] by (auto simp: jint_def)
  then show "jnumber (decimal (unat v))" unfolding jnumber_def
    by (intro exI [of _ "[]"] exI [of _ "decimal (unat v)"]) (simp add: jfrac_def jexp_def)
qed

text \<open>A stack of open boxes of the kinds \<open>ks\<close>: all items are well typed, and so are the names of the boxes.\<close>

fun frames_ok :: "frame list \<Rightarrow> bool list \<Rightarrow> bool" where
  "frames_ok [(n, obj, kids)] [k] = (obj = k \<and> well_typed (Box obj kids))"
| "frames_ok ((n, obj, kids) # fr # st) (k # k1 # ks) =
    (obj = k \<and> well_typed (Box obj kids) \<and> name_ok k1 n \<and> frames_ok (fr # st) (k1 # ks))"
| "frames_ok _ _ = False"

lemma frames_okE:
  assumes "frames_ok st ks"
  obtains n kids st' ks' where "st = (n, hd ks, kids) # st'" "ks = hd ks # ks'" "well_typed (Box (hd ks) kids)"
    "length st' = length ks'"
proof -
  have "length st = length ks" using assms by (induction st ks rule: frames_ok.induct) auto
  with assms that show ?thesis by (cases "(st, ks)" rule: frames_ok.cases) auto
qed

lemma frames_ok_add:
  assumes "frames_ok st ks" "name_ok (hd ks) name" "well_typed t"
  shows "frames_ok (spec_add name t st) ks"
  using assms by (cases "(st, ks)" rule: frames_ok.cases) auto

lemma frames_ok_open:
  assumes "frames_ok st ks" "name_ok (hd ks) name"
  shows "frames_ok (spec_open name obj st) (obj # ks)"
  using assms by (cases "(st, ks)" rule: frames_ok.cases) (auto simp: spec_open_def)

lemma frames_ok_close:
  assumes "frames_ok st ks"
  shows "frames_ok (spec_close st) (if length ks = 1 then ks else tl ks)"
proof (cases "(st, ks)" rule: frames_ok.cases)
  case (2 n obj kids fr st' k k1 ks')
  then have "frames_ok (spec_add n (Box obj kids) (fr # st')) (k1 # ks')"
    using assms by (intro frames_ok_add) auto
  with 2 show ?thesis by simp
qed (use assms in auto)

lemma call_type_preserves:
  assumes "frames_ok st ks" "call_type c ks = Some ks'"
  shows "frames_ok (spec_step c st) ks'"
  using assms
proof (induction c)
  case (Add_uint64 name v)
  then show ?case
    using frames_ok_add decimal_uint64 [of v] by (auto split: if_splits)
next
  case Close_box
  then show ?case using frames_ok_close [OF assms(1)] by (auto split: if_splits)
next
  case Clean
  then show ?case by (auto simp: json_new_def)
qed (auto intro: frames_ok_add frames_ok_open split: if_splits)

lemma calls_type_preserves:
  "frames_ok st ks \<Longrightarrow> calls_type calls ks = Some ks' \<Longrightarrow> frames_ok (fold spec_step calls st) ks'"
  by (induction calls arbitrary: st ks) (auto split: option.splits intro: call_type_preserves)

lemma frames_ok_tree: "frames_ok st ks \<Longrightarrow> last ks \<Longrightarrow> \<exists>kids. json_tree st = Box True kids \<and> well_typed (Box True kids)"
proof (induction st arbitrary: ks rule: json_tree.induct)
  case (1 n obj kids)
  then show ?case by (cases "([(n, obj, kids)], ks)" rule: frames_ok.cases) auto
next
  case (2 n obj kids fr st)
  then obtain k k1 ks' where ks: "ks = k # k1 # ks'" by (cases "((n, obj, kids) # fr # st, ks)" rule: frames_ok.cases) auto
  with 2 have "frames_ok (spec_add n (Box obj kids) (fr # st)) (k1 # ks')" by (intro frames_ok_add) auto
  with "2.IH" "2.prems"(2) ks show ?case by simp
qed simp

lemma calls_type_root: "calls_type calls ks = Some ks' \<Longrightarrow> ks \<noteq> [] \<Longrightarrow> last ks \<Longrightarrow> ks' \<noteq> [] \<and> last ks'"
proof (induction calls arbitrary: ks)
  case (Cons c calls)
  then obtain ks1 where c: "call_type c ks = Some ks1" "calls_type calls ks1 = Some ks'" by (auto split: option.splits)
  from c(1) Cons.prems(2,3) have "ks1 \<noteq> [] \<and> last ks1"
    by (cases c) (auto split: if_splits simp: last_tl length_Suc_conv neq_Nil_conv)
  with Cons.IH c(2) show ?case by blast
qed simp

lemma builder_refines:
  assumes "length stat = ZBX_JSON_STAT_BUF_LEN" "j = fold (json_step mem) calls (zbx_json_init mem stat allocate)"
  shows "json_refines j (fold spec_step calls json_new)"
  using json_steps_refine [OF init_refines [OF assms(1)]] assms(2) by simp

lemma builder_text:
  assumes "length stat = ZBX_JSON_STAT_BUF_LEN" "j = fold (json_step mem) calls (zbx_json_init mem stat allocate)"
  shows "zj_text j = render 0 (json_tree (fold spec_step calls json_new))"
proof -
  let ?st = "fold spec_step calls json_new"
  have h: "zj_holds j (before ?st) (after ?st)" "?st \<noteq> []"
    using builder_refines [OF assms] by (simp_all add: json_refines_def)
  have "lead 0 (fst (last ?st)) True = []" using root_name_fold by (simp add: lead_def name_text_def)
  with zj_holds_text(1) [OF h(1)] before_after_tree [OF h(2)] show ?thesis by simp
qed

lemma builder_typed:
  assumes "calls_type calls [True] = Some ks"
  shows "\<exists>kids. json_tree (fold spec_step calls json_new) = Box True kids \<and> well_typed (Box True kids)"
    "map (fst \<circ> snd) (fold spec_step calls json_new) = ks"
proof -
  let ?st = "fold spec_step calls json_new"
  have ok: "frames_ok ?st ks" using calls_type_preserves [OF _ assms] by (simp add: json_new_def)
  have root: "ks \<noteq> [] \<and> last ks" using calls_type_root [OF assms] by simp
  with ok frames_ok_tree show "\<exists>kids. json_tree ?st = Box True kids \<and> well_typed (Box True kids)" by blast
  have "frames_ok st ks \<Longrightarrow> map (fst \<circ> snd) st = ks" for st ks by (induction st ks rule: frames_ok.induct) auto
  with ok show "map (fst \<circ> snd) ?st = ks" by blast
qed

subsection \<open>Properties\<close>

text \<open>C31. The builder refines trees: after any sequence of calls on a new document, whatever the
  buffer was allocated with and however often it was reallocated, it holds, inside its memory and ended by a
  zero, the text of the tree the calls describe, with all open objects and arrays closed; the level counts those.\<close>

theorem json_builder_renders_tree:
  assumes "length stat = ZBX_JSON_STAT_BUF_LEN"
    "j = fold (json_step mem) calls (zbx_json_init mem stat allocate)" "st = fold spec_step calls json_new"
  shows "zj_text j = render 0 (json_tree st) \<and> the (zj_buffer j) ! zj_size j = 0 \<and> zj_size j < zj_allocated j \<and>
    length (the (zj_buffer j)) = zj_allocated j \<and> zj_level j = length st"
proof -
  have h: "zj_holds j (before st) (after st)" "zj_level j = length st"
    using builder_refines [OF assms(1,2)] assms(3) by (simp_all add: json_refines_def)
  with zj_holds_text [OF h(1)] builder_text [OF assms(1,2)] assms(3) show ?thesis by simp
qed

definition example_calls :: "json_call list" where
  "example_calls = [Add_string (Some [97]) (Some [34, 10]) JSON_TYPE_STRING, Add_array (Some [98]), Add_uint64 None 205,
    Close_box, Add_object (Some [99])]"

lemma json_builder_renders_tree_witness:
  "zj_text (fold (json_step (\<lambda>n. 7)) example_calls (zbx_json_init (\<lambda>n. 7) (replicate ZBX_JSON_STAT_BUF_LEN 1) 10)) =
    [123, 10, 9, 34, 97, 34, 58, 34, 92, 34, 92, 110, 34, 44, 10, 9, 34, 98, 34, 58, 91, 50, 48, 53, 93, 44,
     10, 9, 34, 99, 34, 58, 123, 125, 125]"
proof -
  have "render 0 (json_tree (fold spec_step example_calls json_new)) =
    [123, 10, 9, 34, 97, 34, 58, 34, 92, 34, 92, 110, 34, 44, 10, 9, 34, 98, 34, 58, 91, 50, 48, 53, 93, 44,
     10, 9, 34, 99, 34, 58, 123, 125, 125]"
    by code_simp
  then show ?thesis
    using json_builder_renders_tree [of "replicate ZBX_JSON_STAT_BUF_LEN 1" _ "\<lambda>n. 7" example_calls 10, OF _ refl refl]
    by simp
qed

text \<open>C30. Type soundness of the builder: when every item gets a name exactly if it goes into an object,
  strings are free of byte 127, and what is inserted as a number is one, the text in the buffer is at every
  moment a document that \<^verbatim>\<open>zbx_json_validate\<close> accepts to its end, and the kinds of the open boxes
  are those the calls promise.\<close>

theorem json_builder_valid:
  assumes "length stat = ZBX_JSON_STAT_BUF_LEN" "calls_type calls [True] = Some ks"
    "j = fold (json_step mem) calls (zbx_json_init mem stat allocate)"
  shows "zbx_json_validate (zj_text j) = Inr (zj_size j) \<and>
    map (fst \<circ> snd) (fold spec_step calls json_new) = ks \<and> zj_level j = length ks"
proof -
  let ?st = "fold spec_step calls json_new"
  have h: "zj_holds j (before ?st) (after ?st)" "zj_level j = length ?st"
    using builder_refines [OF assms(1,3)] by (simp_all add: json_refines_def)
  obtain kids where kids: "json_tree ?st = Box True kids" "well_typed (Box True kids)"
    using builder_typed(1) [OF assms(2)] by blast
  then have "jobject (zj_text j)"
    unfolding builder_text [OF assms(1,3)] kids(1) using render_valid by (intro box_valid(2)) auto
  then have "json_parse_object (zj_text j) = Inr (zj_size j)"
    using parse_object_complete [of "zj_text j" "[]" "[]"] zj_holds_text(5) [OF h(1)] by simp
  then have "zbx_json_validate (zj_text j) = Inr (zj_size j)"
    using zj_holds_text(5) [OF h(1)] by (simp add: zbx_json_validate_def)
  moreover from h(2) have "zj_level j = length ks" unfolding builder_typed(2) [OF assms(2), symmetric] by simp
  ultimately show ?thesis using builder_typed(2) [OF assms(2)] by blast
qed

lemma json_builder_valid_witness:
  "calls_type example_calls [True] = Some [True, True] \<and>
   (let j = fold (json_step (\<lambda>n. 7)) example_calls (zbx_json_init (\<lambda>n. 7) (replicate ZBX_JSON_STAT_BUF_LEN 1) 10)
    in zbx_json_validate (zj_text j) = Inr (zj_size j) \<and> zj_level j = 2)"
proof -
  have "calls_type example_calls [True] = Some [True, True]" by (simp add: example_calls_def clean_string_def)
  moreover from json_builder_valid [OF _ this, of "replicate ZBX_JSON_STAT_BUF_LEN 1" _ "\<lambda>n. 7" 10, OF _ refl]
  have "let j = fold (json_step (\<lambda>n. 7)) example_calls (zbx_json_init (\<lambda>n. 7) (replicate ZBX_JSON_STAT_BUF_LEN 1) 10)
    in zbx_json_validate (zj_text j) = Inr (zj_size j) \<and> zj_level j = 2" by (simp add: Let_def)
  ultimately show ?thesis by blast
qed

end
