(* ===== verification/JsonRead.thy ===== *)
theory JsonRead
  imports JsonBuild
begin

text \<open>
  \<^verbatim>\<open>src/libs/zbxjson/json.c\<close>, the reading half: opening a received document, finding a pair by its
  name, walking over the items of an object or array, and decoding values. A pointer into the
  document is the text from it on, so \<^verbatim>\<open>p <= jp->end\<close> compares lengths; \<^verbatim>\<open>NULL\<close> is \<open>None\<close>. Output
  buffers have at least one byte; what is decoded is given without the terminating zero.
\<close>

subsection \<open>Opening\<close>

record zbx_json_parse =
  jp_start :: "u8 list"
  jp_end :: "u8 list"

datatype json_kind = KIND_UNKNOWN | KIND_STRING | KIND_INT | KIND_ARRAY | KIND_OBJECT | KIND_NULL

definition zbx_json_kind :: "u8 list \<Rightarrow> json_kind" where
  "zbx_json_kind p =
    (if hd0 p = ch CHR 0x22 then KIND_STRING
     else if ch CHR ''0'' \<le> hd0 p \<and> hd0 p \<le> ch CHR ''9'' \<or> hd0 p = ch CHR ''-'' then KIND_INT
     else if hd0 p = ch CHR ''['' then KIND_ARRAY
     else if hd0 p = ch CHR ''{'' then KIND_OBJECT
     else if take 4 p = lit_null then KIND_NULL
     else KIND_UNKNOWN)"

lemma hd0_is: "hd0 p = c \<Longrightarrow> c \<noteq> 0 \<Longrightarrow> 0 < length p"
  by (cases p) auto

text \<open>\<open>inside\<close> is the state: inside a string.\<close>

function rbracket_loop :: "u8 \<Rightarrow> u8 list \<Rightarrow> nat \<Rightarrow> bool \<Rightarrow> u8 list option" where
  "rbracket_loop rbracket p level inside =
    (let c = hd0 p in
     if c = 0 then None
     else if c = ch CHR 0x22 then rbracket_loop rbracket (tl p) level (\<not> inside)
     else if c = ch CHR 0x5C \<and> inside then
       (if hd0 (tl p) = 0 then None else rbracket_loop rbracket (tl (tl p)) level inside)
     else if (c = ch CHR ''['' \<or> c = ch CHR ''{'') \<and> \<not> inside then rbracket_loop rbracket (tl p) (level + 1) inside
     else if (c = ch CHR '']'' \<or> c = ch CHR ''}'') \<and> \<not> inside then
       (if level - 1 = 0 then (if rbracket = c then Some p else None)
        else rbracket_loop rbracket (tl p) (level - 1) inside)
     else rbracket_loop rbracket (tl p) level inside)"
  by pat_completeness auto
termination
  by (relation "measure (\<lambda>(_, p, _, _). length p)") (auto dest!: hd0_is hd0_pos)

declare rbracket_loop.simps [simp del]

definition zbx_json_rbracket :: "u8 list \<Rightarrow> u8 list option" where
  "zbx_json_rbracket p =
    (if hd0 p \<noteq> ch CHR ''{'' \<and> hd0 p \<noteq> ch CHR ''['' then None
     else rbracket_loop (if hd0 p = ch CHR ''{'' then ch CHR ''}'' else ch CHR '']'') p 0 False)"

definition zbx_json_open :: "u8 list \<Rightarrow> zbx_json_parse option" where
  "zbx_json_open buffer =
    (let start = skip_ws buffer in
     if hd0 start = 0 then None
     else (case zbx_json_validate start of
        Inl error \<Rightarrow> None
      | Inr len \<Rightarrow> Some \<lparr>jp_start = start, jp_end = drop (len - 1) start\<rparr>))"

definition zbx_json_brackets_open :: "u8 list \<Rightarrow> zbx_json_parse option" where
  "zbx_json_brackets_open p =
    (case zbx_json_rbracket p of None \<Rightarrow> None | Some e \<Rightarrow> Some \<lparr>jp_start = skip_ws p, jp_end = e\<rparr>)"

subsection \<open>Walking over items\<close>

function next_loop :: "u8 list \<Rightarrow> u8 list \<Rightarrow> nat \<Rightarrow> bool \<Rightarrow> u8 list option" where
  "next_loop e p level inside =
    (if p = [] \<or> length p < length e then None
     else
       let c = hd0 p in
       if c = ch CHR 0x22 then next_loop e (tl p) level (\<not> inside)
       else if c = ch CHR 0x5C \<and> inside then next_loop e (tl (tl p)) level inside
       else if (c = ch CHR ''['' \<or> c = ch CHR ''{'') \<and> \<not> inside then next_loop e (tl p) (level + 1) inside
       else if (c = ch CHR '']'' \<or> c = ch CHR ''}'') \<and> \<not> inside then
         (if level = 0 then None else next_loop e (tl p) (level - 1) inside)
       else if c = ch CHR '','' \<and> \<not> inside \<and> level = 0 then Some (skip_ws (tl p))
       else next_loop e (tl p) level inside)"
  by pat_completeness auto
termination
proof (relation "measure (\<lambda>(_, p, _, _). length p)", goal_cases)
  case 1
  then show ?case by simp
qed (auto simp: neq_Nil_conv)

declare next_loop.simps [simp del]

definition jp_distance :: "zbx_json_parse \<Rightarrow> int" where
  "jp_distance jp = int (length (jp_start jp)) - int (length (jp_end jp))"

definition zbx_json_next :: "zbx_json_parse \<Rightarrow> u8 list option \<Rightarrow> u8 list option" where
  "zbx_json_next jp p =
    (if jp_distance jp = 1 then None
     else (case p of
        None \<Rightarrow> Some (skip_ws (tl (jp_start jp)))
      | Some p1 \<Rightarrow> next_loop (jp_end jp) p1 0 False))"

definition zbx_json_object_is_empty :: "zbx_json_parse \<Rightarrow> zres" where
  "zbx_json_object_is_empty jp = (if jp_distance jp > 1 then Fail else Succeed)"

lemma next_loop_step:
  assumes "next_loop e p level inside = Some q"
  shows "p \<noteq> [] \<and> (q = skip_ws (tl p) \<or> (\<exists>p1 l i. p1 \<in> {tl p, tl (tl p)} \<and> next_loop e p1 l i = Some q))"
  using assms by (subst (asm) next_loop.simps) (auto simp: Let_def split: if_splits)

lemma next_loop_shorter: "next_loop e p level inside = Some q \<Longrightarrow> length q < length p"
proof (induction p arbitrary: level inside rule: measure_induct_rule [of length])
  case (less p)
  from next_loop_step [OF less.prems] have p: "p \<noteq> []" by blast
  from next_loop_step [OF less.prems] consider "q = skip_ws (tl p)" |
    p1 l i where "p1 \<in> {tl p, tl (tl p)}" "next_loop e p1 l i = Some q" by blast
  then show ?case
  proof cases
    case 1
    then show ?thesis using p skip_ws_le [of "tl p"] by (cases p) auto
  next
    case 2
    then have "length p1 < length p" using p by (cases p) auto
    with less.IH 2(2) show ?thesis by fastforce
  qed
qed

function count_from :: "zbx_json_parse \<Rightarrow> u8 list \<Rightarrow> nat" where
  "count_from jp p = (case zbx_json_next jp (Some p) of None \<Rightarrow> 0 | Some q \<Rightarrow> count_from jp q + 1)"
  by pat_completeness auto
termination
  by (relation "measure (\<lambda>(_, p). length p)") (auto simp: zbx_json_next_def split: if_splits dest: next_loop_shorter)

declare count_from.simps [simp del]

definition zbx_json_count :: "zbx_json_parse \<Rightarrow> nat" where
  "zbx_json_count jp = (case zbx_json_next jp None of None \<Rightarrow> 0 | Some p \<Rightarrow> count_from jp p + 1)"

subsection \<open>Decoding values\<close>

function string_size_loop :: "u8 list \<Rightarrow> nat \<Rightarrow> nat option" where
  "string_size_loop p sz =
    (if hd0 p = 0 then None
     else if hd0 p = ch CHR 0x22 then Some sz
     else if hd0 p = ch CHR 0x5C then
       (let c = hd0 (tl p) in
        if c = ch CHR ''u'' then string_size_loop (drop 3 (tl p)) (sz + 1)
        else if c \<in> {ch CHR 0x22, ch CHR 0x5C, ch CHR ''/'', ch CHR ''b'', ch CHR ''f'', ch CHR ''n'', ch CHR ''r'',
          ch CHR ''t''} then string_size_loop (tl (tl p)) (sz + 1)
        else string_size_loop (tl (tl p)) sz)
     else string_size_loop (tl p) (sz + 1))"
  by pat_completeness auto
termination
  by (relation "measure (\<lambda>(p, _). length p)") (auto dest!: hd0_is hd0_pos)

declare string_size_loop.simps [simp del]

definition zbx_json_string_size :: "u8 list \<Rightarrow> nat option" where
  "zbx_json_string_size p = (if hd0 p \<noteq> ch CHR 0x22 then None else string_size_loop (tl p) 0)"

text \<open>What is written, and the pointer behind the closing quote. A full buffer takes no more characters.\<close>

function decode_loop :: "nat \<Rightarrow> u8 list \<Rightarrow> u8 list \<Rightarrow> (u8 list \<times> u8 list) option" where
  "decode_loop len p out =
    (if hd0 p = 0 then None
     else if hd0 p = ch CHR 0x22 then Some (out, tl p)
     else if length out < len - 1 then
       (if hd0 p = ch CHR 0x5C then
          (let p1 = tl p; c = hd0 p1 in
           if c = ch CHR 0x22 \<or> c = ch CHR 0x5C \<or> c = ch CHR ''/'' then decode_loop len (tl p1) (out @ [c])
           else if c = ch CHR ''b'' then decode_loop len (tl p1) (out @ [8])
           else if c = ch CHR ''f'' then decode_loop len (tl p1) (out @ [12])
           else if c = ch CHR ''n'' then decode_loop len (tl p1) (out @ [10])
           else if c = ch CHR ''r'' then decode_loop len (tl p1) (out @ [13])
           else if c = ch CHR ''t'' then decode_loop len (tl p1) (out @ [9])
           else if c = ch CHR ''u'' then
             let p2 = drop 3 p1 in
             decode_loop len (tl (tl p2)) (out @ [push_bit 4 (zbx_hex2num (hd0 p2)) + zbx_hex2num (hd0 (tl p2))])
           else decode_loop len (tl p1) out)
        else decode_loop len (tl p) (out @ [hd0 p]))
     else decode_loop len (tl p) out)"
  by pat_completeness auto
termination
  by (relation "measure (\<lambda>(_, p, _). length p)") (auto dest!: hd0_is hd0_pos)

declare decode_loop.simps [simp del]

definition zbx_json_decodestring :: "u8 list \<Rightarrow> nat \<Rightarrow> (u8 list \<times> u8 list) option" where
  "zbx_json_decodestring p len = (if hd0 p \<noteq> ch CHR 0x22 then None else decode_loop len (tl p) [])"

definition int_char :: "u8 \<Rightarrow> bool" where
  "int_char c \<longleftrightarrow> \<not> ((c < ch CHR ''0'' \<or> c > ch CHR ''9'') \<and> c \<noteq> ch CHR ''-'')"

fun int_size_loop :: "u8 list \<Rightarrow> nat \<Rightarrow> nat option" where
  "int_size_loop [] sz = None"
| "int_size_loop (c # p) sz = (if c = 0 then None else if \<not> int_char c then Some sz else int_size_loop p (sz + 1))"

definition zbx_json_int_size :: "u8 list \<Rightarrow> nat option" where
  "zbx_json_int_size p = int_size_loop p 0"

fun decodeint_loop :: "nat \<Rightarrow> u8 list \<Rightarrow> u8 list \<Rightarrow> (u8 list \<times> u8 list) option" where
  "decodeint_loop len [] out = None"
| "decodeint_loop len (c # p) out =
    (if c = 0 then None
     else if \<not> int_char c then Some (out, c # p)
     else decodeint_loop len p (if length out < len - 1 then out @ [c] else out))"

definition zbx_json_decodeint :: "u8 list \<Rightarrow> nat \<Rightarrow> (u8 list \<times> u8 list) option" where
  "zbx_json_decodeint p len = decodeint_loop len p []"

definition zbx_json_decodenull :: "u8 list \<Rightarrow> u8 list option" where
  "zbx_json_decodenull p = (if take 4 p = lit_null then Some (drop 4 p) else None)"

definition zbx_json_value_size :: "u8 list \<Rightarrow> json_kind \<Rightarrow> nat option" where
  "zbx_json_value_size p jt =
    (case jt of KIND_STRING \<Rightarrow> zbx_json_string_size p | KIND_INT \<Rightarrow> zbx_json_int_size p | _ \<Rightarrow> None)"

text \<open>The value, the pointer behind it, and whether it is null.\<close>

definition zbx_json_decodevalue :: "u8 list \<Rightarrow> nat \<Rightarrow> (u8 list \<times> u8 list \<times> bool) option" where
  "zbx_json_decodevalue p len =
    (case zbx_json_kind p of
       KIND_STRING \<Rightarrow> map_option (\<lambda>(s, q). (s, q, False)) (zbx_json_decodestring p len)
     | KIND_INT \<Rightarrow> map_option (\<lambda>(s, q). (s, q, False)) (zbx_json_decodeint p len)
     | KIND_NULL \<Rightarrow> map_option (\<lambda>q. ([], q, True)) (zbx_json_decodenull p)
     | _ \<Rightarrow> None)"

text \<open>With the size of the allocated output buffer, which grows when it is too small.\<close>

definition zbx_json_decodevalue_dyn :: "u8 list \<Rightarrow> nat \<Rightarrow> (u8 list \<times> u8 list \<times> nat) option" where
  "zbx_json_decodevalue_dyn p string_alloc =
    (case zbx_json_value_size p (zbx_json_kind p) of
       None \<Rightarrow> None
     | Some sz \<Rightarrow>
         let alloc = (if string_alloc \<le> sz then sz + 1 else string_alloc) in
         (case zbx_json_kind p of
            KIND_STRING \<Rightarrow> map_option (\<lambda>(s, q). (s, q, alloc)) (zbx_json_decodestring p alloc)
          | KIND_INT \<Rightarrow> map_option (\<lambda>(s, q). (s, q, alloc)) (zbx_json_decodeint p alloc)
          | _ \<Rightarrow> None))"

subsection \<open>Pairs\<close>

definition zbx_json_pair_next :: "zbx_json_parse \<Rightarrow> u8 list option \<Rightarrow> nat \<Rightarrow> (u8 list \<times> u8 list) option" where
  "zbx_json_pair_next jp p len =
    (case zbx_json_next jp p of
       None \<Rightarrow> None
     | Some p1 \<Rightarrow>
         if zbx_json_kind p1 \<noteq> KIND_STRING then None
         else (case zbx_json_decodestring p1 len of
            None \<Rightarrow> None
          | Some (name, p2) \<Rightarrow>
              let p3 = skip_ws p2 in
              if hd0 p3 \<noteq> ch CHR '':'' then None else Some (name, skip_ws (tl p3))))"

definition MAX_STRING_LEN :: nat where "MAX_STRING_LEN = 2048"

text \<open>A buffer compares as the C string in it.\<close>

definition c_string :: "u8 list \<Rightarrow> u8 list" where
  "c_string = takeWhile (\<lambda>c. c \<noteq> 0)"

lemma decode_loop_step:
  assumes "decode_loop len p out = Some (t, q)"
  shows "p \<noteq> [] \<and> (q = tl p \<or>
    (\<exists>p1 out1. p1 \<in> {tl p, tl (tl p), tl (tl (drop 3 (tl p)))} \<and> decode_loop len p1 out1 = Some (t, q)))"
proof
  show "p \<noteq> []" using assms by (auto simp: decode_loop.simps [of len p])
  show "q = tl p \<or> (\<exists>p1 out1. p1 \<in> {tl p, tl (tl p), tl (tl (drop 3 (tl p)))} \<and> decode_loop len p1 out1 = Some (t, q))"
    using assms by (subst (asm) decode_loop.simps) (auto simp: Let_def split: if_splits)
qed

lemma decode_loop_shorter: "decode_loop len p out = Some (t, q) \<Longrightarrow> length q < length p"
proof (induction p arbitrary: out rule: measure_induct_rule [of length])
  case (less p)
  from decode_loop_step [OF less.prems] have p: "p \<noteq> []" by blast
  from decode_loop_step [OF less.prems] consider "q = tl p" |
    p1 out1 where "p1 \<in> {tl p, tl (tl p), tl (tl (drop 3 (tl p)))}" "decode_loop len p1 out1 = Some (t, q)" by blast
  then show ?case
  proof cases
    case 2
    then have "length p1 < length p" using p by (cases p) auto
    with less.IH 2(2) show ?thesis by fastforce
  qed (use p in simp)
qed

lemma decodestring_shorter: "zbx_json_decodestring p len = Some (t, q) \<Longrightarrow> length q < length p"
  by (cases p) (auto simp: zbx_json_decodestring_def split: if_splits dest: decode_loop_shorter)

lemma next_shorter: "zbx_json_next jp (Some p) = Some q \<Longrightarrow> length q < length p"
  by (auto simp: zbx_json_next_def split: if_splits dest: next_loop_shorter)

lemma pair_next_shorter:
  assumes "zbx_json_pair_next jp (Some p) len = Some (name, q)"
  shows "length q < length p"
proof -
  obtain p1 p2 where n: "zbx_json_next jp (Some p) = Some p1" "zbx_json_decodestring p1 len = Some (name, p2)"
    "q = skip_ws (tl (skip_ws p2))"
    using assms by (auto simp: zbx_json_pair_next_def Let_def split: option.splits if_splits)
  show ?thesis
    using next_shorter [OF n(1)] decodestring_shorter [OF n(2)] n(3) skip_ws_le [of "tl (skip_ws p2)"] skip_tl_le [of "skip_ws p2"]
      skip_ws_le [of p2] by simp
qed

function pair_loop :: "zbx_json_parse \<Rightarrow> u8 list \<Rightarrow> u8 list option \<Rightarrow> u8 list option" where
  "pair_loop jp name p =
    (case zbx_json_pair_next jp p MAX_STRING_LEN of
       None \<Rightarrow> None
     | Some (buffer, p1) \<Rightarrow> if c_string buffer = name then Some p1 else pair_loop jp name (Some p1))"
  by pat_completeness auto
termination
proof (relation "measure (\<lambda>(jp, _, p). case p of None \<Rightarrow>
    (case zbx_json_pair_next jp None MAX_STRING_LEN of None \<Rightarrow> 0 | Some (_, q) \<Rightarrow> Suc (length q)) | Some q \<Rightarrow> length q)",
    goal_cases)
  case (2 jp name p pr buffer p1)
  then show ?case by (cases p) (auto dest: pair_next_shorter)
qed simp

declare pair_loop.simps [simp del]

definition zbx_json_pair_by_name :: "zbx_json_parse \<Rightarrow> u8 list \<Rightarrow> u8 list option" where
  "zbx_json_pair_by_name jp name = pair_loop jp name None"

definition zbx_json_next_value :: "zbx_json_parse \<Rightarrow> u8 list option \<Rightarrow> nat \<Rightarrow> (u8 list \<times> u8 list \<times> bool) option" where
  "zbx_json_next_value jp p len =
    (case zbx_json_next jp p of None \<Rightarrow> None | Some p1 \<Rightarrow> zbx_json_decodevalue p1 len)"

text \<open>The decoded value, or \<open>None\<close> for \<^verbatim>\<open>FAIL\<close>.\<close>

definition zbx_json_value_by_name :: "zbx_json_parse \<Rightarrow> u8 list \<Rightarrow> nat \<Rightarrow> u8 list option" where
  "zbx_json_value_by_name jp name len =
    (case zbx_json_pair_by_name jp name of
       None \<Rightarrow> None
     | Some p \<Rightarrow> map_option fst (zbx_json_decodevalue p len))"

definition zbx_json_value_by_name_dyn :: "zbx_json_parse \<Rightarrow> u8 list \<Rightarrow> nat \<Rightarrow> (u8 list \<times> nat) option" where
  "zbx_json_value_by_name_dyn jp name string_alloc =
    (case zbx_json_pair_by_name jp name of
       None \<Rightarrow> None
     | Some p \<Rightarrow> map_option (\<lambda>(s, q, alloc). (s, alloc)) (zbx_json_decodevalue_dyn p string_alloc))"

definition zbx_json_brackets_by_name :: "zbx_json_parse \<Rightarrow> u8 list \<Rightarrow> zbx_json_parse option" where
  "zbx_json_brackets_by_name jp name =
    (case zbx_json_pair_by_name jp name of None \<Rightarrow> None | Some p \<Rightarrow> zbx_json_brackets_open p)"

subsection \<open>What is inside a document\<close>

text \<open>
  The body of a string and the bytes it stands for: characters outside the code page of one byte
  are left out, and so are capital hexadecimal digits, which the decoder misreads.
\<close>

definition short_escape :: "u8 \<Rightarrow> u8" where
  "short_escape c = (if c = ch CHR ''b'' then 8 else if c = ch CHR ''f'' then 12 else if c = ch CHR ''n'' then 10
    else if c = ch CHR ''r'' then 13 else if c = ch CHR ''t'' then 9 else c)"

inductive decodes :: "u8 list \<Rightarrow> u8 list \<Rightarrow> bool" where
  decodes_nil: "decodes [] []"
| decodes_plain: "c \<noteq> 34 \<Longrightarrow> c \<noteq> 92 \<Longrightarrow> \<not> iscntrl c \<Longrightarrow> decodes raw s \<Longrightarrow> decodes (c # raw) (c # s)"
| decodes_escape: "c \<in> {34, 92, 47, 98, 102, 110, 114, 116} \<Longrightarrow> decodes raw s \<Longrightarrow>
    decodes (92 # c # raw) (short_escape c # s)"
| decodes_unicode: "decodes raw s \<Longrightarrow>
    decodes (92 # 117 # 48 # 48 # zbx_num2hex (drop_bit 4 c AND 15) # zbx_num2hex (c AND 15) # raw) (c # s)"

text \<open>The pairs of an object, each with the decoded name and the text of the value, and the elements of an array.\<close>

inductive pairs_text :: "u8 list \<Rightarrow> (u8 list \<times> u8 list) list \<Rightarrow> bool" where
  pairs_last: "jws ws1 \<Longrightarrow> decodes raw n \<Longrightarrow> jws ws2 \<Longrightarrow> jws ws3 \<Longrightarrow> jvalue v \<Longrightarrow> jws ws4 \<Longrightarrow>
    pairs_text (ws1 @ 34 # raw @ 34 # ws2 @ 58 # ws3 @ v @ ws4) [(n, v)]"
| pairs_more: "jws ws1 \<Longrightarrow> decodes raw n \<Longrightarrow> jws ws2 \<Longrightarrow> jws ws3 \<Longrightarrow> jvalue v \<Longrightarrow> jws ws4 \<Longrightarrow> pairs_text ms prs \<Longrightarrow>
    pairs_text (ws1 @ 34 # raw @ 34 # ws2 @ 58 # ws3 @ v @ ws4 @ 44 # ms) ((n, v) # prs)"

inductive elems_text :: "u8 list \<Rightarrow> u8 list list \<Rightarrow> bool" where
  elems_text_last: "jws ws1 \<Longrightarrow> jvalue v \<Longrightarrow> jws ws2 \<Longrightarrow> elems_text (ws1 @ v @ ws2) [v]"
| elems_text_more: "jws ws1 \<Longrightarrow> jvalue v \<Longrightarrow> jws ws2 \<Longrightarrow> elems_text es vs \<Longrightarrow>
    elems_text (ws1 @ v @ ws2 @ 44 # es) (v # vs)"

lemma hex2num_num2hex: "x \<le> 15 \<Longrightarrow> zbx_hex2num (zbx_num2hex x) = x"
proof -
  assume "x \<le> 15"
  then have "unat x \<le> 15" by (simp add: word_le_nat_alt)
  then have "unat x \<in> set [0..<16]" by simp
  moreover have "\<forall>n \<in> set [0..<16]. zbx_hex2num (zbx_num2hex (word_of_nat n)) = word_of_nat n" by code_simp
  ultimately have "zbx_hex2num (zbx_num2hex (word_of_nat (unat x))) = word_of_nat (unat x)" by blast
  then show ?thesis by simp
qed

lemma nibbles: "push_bit 4 (drop_bit 4 c AND 15) + (c AND 15) = (c :: u8)"
proof -
  have mask: "(15 :: u8) = mask 4" by (simp add: mask_eq_exp_minus_1)
  have "drop_bit 4 c AND 15 = take_bit 4 (drop_bit 4 c)" by (simp add: mask take_bit_eq_mask)
  also have "\<dots> = drop_bit 4 c" using take_bit_length_eq [of c] by (simp add: take_bit_drop_bit)
  finally show ?thesis using bits_ident [of 4 c] by (simp add: mask take_bit_eq_mask)
qed

lemma decode_loop_correct:
  "decodes raw s \<Longrightarrow> length out + length s < len \<Longrightarrow> decode_loop len (raw @ 34 # r) out = Some (out @ s, r)"
proof (induction arbitrary: out rule: decodes.induct)
  case decodes_nil
  then show ?case by (simp add: decode_loop.simps [of len "34 # r"])
next
  case (decodes_plain c raw s)
  then have "c \<noteq> 0" by (auto simp: iscntrl_def)
  with decodes_plain show ?case by (simp add: decode_loop.simps [of len "c # raw @ 34 # r"])
next
  case (decodes_escape c raw s)
  from decodes_escape.prems have "length (out @ [short_escape c]) + length s < len" "length out < len - 1" by simp_all
  with decodes_escape.IH [OF this(1)] decodes_escape.hyps(1) show ?case
    by (auto simp: decode_loop.simps [of len "92 # c # raw @ 34 # r" for c] short_escape_def)
next
  case (decodes_unicode raw s c)
  have "push_bit 4 (zbx_hex2num (zbx_num2hex (drop_bit 4 c AND 15))) + zbx_hex2num (zbx_num2hex (c AND 15)) = c"
    unfolding hex2num_num2hex [OF and_15_le] by (rule nibbles)
  moreover from decodes_unicode.prems have "length (out @ [c]) + length s < len" "length out < len - 1" by simp_all
  ultimately show ?case using decodes_unicode.IH [of "out @ [c]"]
    by (simp add: decode_loop.simps [of len "92 # 117 # raw" for raw] numeral_3_eq_3 Let_def)
qed

lemma decodes_jchars: "decodes raw s \<Longrightarrow> jchars raw"
proof (induction rule: decodes.induct)
  case (decodes_unicode raw s c)
  let ?hs = "[48, 48, zbx_num2hex (drop_bit 4 c AND 15), zbx_num2hex (c AND 15)]"
  have "list_all isxdigit ?hs" using num2hex_digit [OF and_15_le] by (simp add: isxdigit_def isdigit_def)
  from chars_unicode [OF _ this decodes_unicode.IH] show ?case by simp
qed (auto intro: jchars.intros)

lemma decodestring_correct:
  assumes "decodes raw s" "length s < len"
  shows "zbx_json_decodestring (34 # raw @ 34 # r) len = Some (s, r)"
  using decode_loop_correct [OF assms(1), of "[]" len r] assms(2) by (simp add: zbx_json_decodestring_def)

subsection \<open>Scanning over values\<close>

text \<open>
  The two loops that count brackets, \<open>next_loop\<close> and \<open>rbracket_loop\<close>, treat a text alike: in strings
  only quotes and backslashes matter, outside of them only brackets, and commas at the
  outermost level. What follows from this contract is that a whole value is passed over. \<open>live\<close> says
  that a text still reaches to the end of the document.
\<close>

locale json_scanner =
  fixes scan :: "u8 list \<Rightarrow> nat \<Rightarrow> bool \<Rightarrow> 'a" and live :: "u8 list \<Rightarrow> bool"
  assumes live_Cons: "live r \<Longrightarrow> live (c # r)"
    and scan_quote: "live r \<Longrightarrow> scan (34 # r) l i = scan r l (\<not> i)"
    and scan_escape: "live r \<Longrightarrow> c \<noteq> 0 \<Longrightarrow> scan (92 # c # r) l True = scan r l True"
    and scan_inside: "live r \<Longrightarrow> c \<notin> {0, 34, 92} \<Longrightarrow> scan (c # r) l True = scan r l True"
    and scan_neutral: "live r \<Longrightarrow> c \<notin> {0, 34, 91, 123, 93, 125, 44} \<Longrightarrow> scan (c # r) l False = scan r l False"
    and scan_open: "live r \<Longrightarrow> c \<in> {91, 123} \<Longrightarrow> scan (c # r) l False = scan r (Suc l) False"
    and scan_close: "live r \<Longrightarrow> c \<in> {93, 125} \<Longrightarrow> scan (c # r) (Suc l) False = scan r l False"
    and scan_comma: "live r \<Longrightarrow> scan (44 # r) (Suc l) False = scan r (Suc l) False"
begin

lemma live_append: "live r \<Longrightarrow> live (w @ r)"
  by (induction w) (simp_all add: live_Cons)

lemma scan_neutral_list:
  "live r \<Longrightarrow> \<forall>c \<in> set w. c \<notin> {0, 34, 91, 123, 93, 125, 44} \<Longrightarrow> scan (w @ r) l False = scan r l False"
  by (induction w) (simp_all add: scan_neutral live_append)

lemma scan_inside_list:
  "live r \<Longrightarrow> \<forall>c \<in> set w. c \<notin> {0, 34, 92} \<Longrightarrow> scan (w @ r) l True = scan r l True"
  by (induction w) (simp_all add: scan_inside live_append)

lemma scan_ws: "live r \<Longrightarrow> jws ws \<Longrightarrow> scan (ws @ r) l False = scan r l False"
  by (intro scan_neutral_list) (auto simp: list_all_iff is_ws_iff)

lemma scan_body: "jchars s \<Longrightarrow> live r \<Longrightarrow> scan (s @ 34 # r) l True = scan r l False"
proof (induction rule: jchars.induct)
  case chars_nil
  then show ?case by (simp add: scan_quote)
next
  case (chars_plain c s)
  moreover from this have "c \<noteq> 0" by (auto simp: iscntrl_def)
  moreover have "live (s @ 34 # r)" using chars_plain.prems by (intro live_append live_Cons)
  ultimately show ?case by (simp add: scan_inside)
next
  case (chars_escape c s)
  moreover from this have "c \<noteq> 0" by auto
  moreover have "live (s @ 34 # r)" using chars_escape.prems by (intro live_append live_Cons)
  ultimately show ?case by (simp add: scan_escape)
next
  case (chars_unicode hs s)
  have l: "live (s @ 34 # r)" using chars_unicode.prems by (intro live_append live_Cons)
  have "\<forall>c \<in> set hs. c \<notin> {0, 34, 92}"
    using chars_unicode(2) by (auto simp: list_all_iff isxdigit_def isdigit_def)
  with l have "scan (hs @ s @ 34 # r) l True = scan (s @ 34 # r) l True" by (intro scan_inside_list) simp
  with chars_unicode.IH chars_unicode.prems l show ?case by (simp add: scan_escape live_append)
qed

lemma scan_string: "jstring w \<Longrightarrow> live r \<Longrightarrow> scan (w @ r) l False = scan r l False"
  by (auto simp: jstring_def scan_quote scan_body live_append live_Cons)

lemma scan_number: "jnumber w \<Longrightarrow> live r \<Longrightarrow> scan (w @ r) l False = scan r l False"
proof (rule scan_neutral_list)
  assume "jnumber w"
  then have "\<forall>c \<in> set w. isdigit c \<or> c \<in> {43, 45, 46, 69, 101}"
    by (auto simp: jnumber_def jint_def jfrac_def jexp_def list_all_iff)
  then show "\<forall>c \<in> set w. c \<notin> {0, 34, 91, 123, 93, 125, 44}" by (auto simp: isdigit_def)
qed

lemma scan_grammar:
  "jvalue v \<Longrightarrow> live r \<Longrightarrow> scan (v @ r) l False = scan r l False"
  "jelems es \<Longrightarrow> live r \<Longrightarrow> scan (es @ r) (Suc l) False = scan r (Suc l) False"
  "jmembers ms \<Longrightarrow> live r \<Longrightarrow> scan (ms @ r) (Suc l) False = scan r (Suc l) False"
proof (induction arbitrary: r l and r l and r l rule: jvalue_jelems_jmembers.inducts)
  case (value_string w)
  then show ?case by (simp add: scan_string)
next
  case (value_number w)
  then show ?case by (simp add: scan_number)
next
  case (value_literal w)
  then show ?case by (intro scan_neutral_list) (auto simp: literal_values)
qed (simp_all add: scan_open scan_close scan_comma scan_ws scan_string scan_neutral live_append live_Cons)

text \<open>Where commas do not matter, neither do whole sequences of items.\<close>

lemma scan_items:
  assumes "\<And>r. live r \<Longrightarrow> scan (44 # r) l False = scan r l False"
  shows "jvalue v \<Longrightarrow> True"
    "jelems es \<Longrightarrow> live r \<Longrightarrow> scan (es @ r) l False = scan r l False"
    "jmembers ms \<Longrightarrow> live r \<Longrightarrow> scan (ms @ r) l False = scan r l False"
  by (induction arbitrary: and r and r rule: jvalue_jelems_jmembers.inducts)
    (simp_all add: assms scan_grammar(1) scan_ws scan_string scan_neutral live_append live_Cons)

end

text \<open>Both loops satisfy the contract; \<open>rbracket_loop\<close> counts one level more, the box whose end it looks for.\<close>

interpretation next_scan: json_scanner "next_loop e" "\<lambda>r. length e \<le> length r"
  by unfold_locales (auto simp: next_loop.simps [of e "_ # _"] Let_def)

interpretation rbracket_scan: json_scanner "\<lambda>p l. rbracket_loop rb p (Suc l)" "\<lambda>r. True"
  by unfold_locales (auto simp: rbracket_loop.simps [of rb "_ # _"] Let_def)

subsection \<open>Walking over a document\<close>

lemma next_after_value:
  assumes "jvalue v" "jws ws" "length e \<le> length r" "hd0 r \<in> {44, 93, 125}"
  shows "next_loop e (v @ ws @ r) 0 False = (if hd0 r = 44 then Some (skip_ws (tl r)) else None)"
proof -
  have "next_loop e (v @ ws @ r) 0 False = next_loop e r 0 False"
    using assms(1-3) by (simp add: next_scan.scan_grammar(1) next_scan.scan_ws)
  also have "\<dots> = (if hd0 r = 44 then Some (skip_ws (tl r)) else None)"
    using assms(3,4) by (cases r) (auto simp: next_loop.simps [of e "_ # _"] Let_def)
  finally show ?thesis .
qed

text \<open>The bracket that closes a value is found.\<close>

lemma rbracket_value:
  assumes "jvalue v" "hd0 v = 123 \<or> hd0 v = 91"
  shows "zbx_json_rbracket (v @ r) = Some (drop (length v - 1) (v @ r))"
proof -
  have "\<exists>rb w. v = hd0 v # w @ [rb] \<and> rb = (if hd0 v = 123 then 125 else 93) \<and>
      (jws w \<or> jelems w \<or> jmembers w)"
    using assms
  proof (cases rule: jvalue.cases)
    case value_number
    then show ?thesis using assms(2) parse_number_complete(2) [of v "[]"]
      by (auto simp: ends_number_def isdigit_def)
  qed (auto simp: jstring_def literal_values)
  then obtain rb w where v: "v = hd0 v # w @ [rb]" "rb = (if hd0 v = 123 then 125 else 93)"
    "jws w \<or> jelems w \<or> jmembers w" by blast
  have comma: "rbracket_loop rb (44 # r) (Suc 0) False = rbracket_loop rb r (Suc 0) False" for r
    by (simp add: rbracket_loop.simps [of rb "_ # _"])
  have "rbracket_loop rb (w @ rb # r) (Suc 0) False = rbracket_loop rb (rb # r) (Suc 0) False"
    using v(3) rbracket_scan.scan_ws [OF TrueI, of w rb "rb # r" 0] rbracket_scan.scan_items(2,3) [OF comma _ TrueI]
    by blast
  also have "\<dots> = Some (rb # r)"
    using v(2) by (auto simp: rbracket_loop.simps [of _ "_ # r"] Let_def)
  finally have l: "rbracket_loop rb (w @ rb # r) (Suc 0) False = Some (rb # r)" .
  have "hd0 (v @ r) = hd0 v" using v(1) by (metis append_Cons hd0_simps(2))
  moreover have "v @ r = hd0 v # w @ rb # r" using v(1) by (metis append.assoc append_Cons append_Nil)
  ultimately have "zbx_json_rbracket (v @ r) = rbracket_loop rb (hd0 v # w @ rb # r) 0 False"
    using assms(2) v(2) by (auto simp: zbx_json_rbracket_def)
  also have "\<dots> = rbracket_loop rb (w @ rb # r) (Suc 0) False"
    using assms(2) by (auto simp: rbracket_loop.simps [of rb "_ # _"] Let_def)
  also have "\<dots> = Some (drop (length v - 1) (v @ r))"
  proof -
    obtain a where a: "v = (a # w) @ [rb]" using v(1) by auto
    show ?thesis unfolding l a by simp
  qed
  finally show ?thesis .
qed

lemma skip_ws_quote: "jws ws \<Longrightarrow> skip_ws (ws @ 34 # r) = 34 # r"
  by (simp add: skip_ws_append skip_ws_id is_ws_iff)

text \<open>Reading one pair, in front of it, and going on behind its value.\<close>

lemma pair_next_text:
  assumes "zbx_json_next jp p = Some (34 # raw @ 34 # ws2 @ 58 # ws3 @ v @ t)"
    "decodes raw n" "length n < len" "jws ws2" "jws ws3" "jvalue v"
  shows "zbx_json_pair_next jp p len = Some (n, v @ t)"
proof -
  have "skip_ws (ws2 @ 58 # ws3 @ v @ t) = 58 # ws3 @ v @ t" using assms(4) by (simp add: skip_ws_delim)
  moreover have "skip_ws (ws3 @ v @ t) = v @ t" using assms(5,6) skip_ws_append jvalue_first(3) by simp
  ultimately show ?thesis using assms(1) decodestring_correct [OF assms(2,3)]
    by (simp add: zbx_json_pair_next_def zbx_json_kind_def)
qed

text \<open>The value of the first pair with a name.\<close>

definition pair_value :: "(u8 list \<times> u8 list) list \<Rightarrow> u8 list \<Rightarrow> u8 list option" where
  "pair_value prs name = map_option snd (find (\<lambda>(n, v). c_string n = name) prs)"

lemma pair_value_simps [simp]:
  "pair_value [] name = None"
  "pair_value ((n, v) # prs) name = (if c_string n = name then Some v else pair_value prs name)"
  by (simp_all add: pair_value_def)

definition ends_value :: "u8 list \<Rightarrow> bool" where
  "ends_value t \<longleftrightarrow> hd0 t \<in> {44, 93, 125} \<or> is_ws (hd0 t)"

lemma ends_value_ws: "jws ws \<Longrightarrow> hd0 r \<in> {44, 93, 125} \<Longrightarrow> ends_value (ws @ r)"
  by (cases ws) (auto simp: ends_value_def)

lemma pairs_text_nonempty: "pairs_text ms prs \<Longrightarrow> prs \<noteq> []"
  by (induction rule: pairs_text.induct) simp_all

lemma pair_loop_text:
  assumes "pairs_text ms prs" "jp_end jp = e" "jp_distance jp \<noteq> 1" "hd0 e = 125"
    "zbx_json_next jp p = Some (skip_ws (ms @ e))" "\<forall>(n, v) \<in> set prs. length n < MAX_STRING_LEN"
  shows "case pair_value prs name of
      None \<Rightarrow> pair_loop jp name p = None
    | Some v \<Rightarrow> (\<exists>t. pair_loop jp name p = Some (v @ t) \<and> ends_value t)"
  using assms(1,5,6)
proof (induction arbitrary: p rule: pairs_text.induct)
  case (pairs_last ws1 raw n ws2 ws3 v ws4)
  have "zbx_json_next jp p = Some (34 # raw @ 34 # ws2 @ 58 # ws3 @ v @ ws4 @ e)"
    using pairs_last.prems(1) pairs_last.hyps(1) by (simp add: skip_ws_quote)
  from pair_next_text [OF this] pairs_last have r: "zbx_json_pair_next jp p MAX_STRING_LEN = Some (n, v @ ws4 @ e)" by simp
  have "zbx_json_next jp (Some (v @ ws4 @ e)) = None"
    using next_after_value [OF pairs_last(5,6), of e e] assms(2-4) by (simp add: zbx_json_next_def)
  then have "pair_loop jp name (Some (v @ ws4 @ e)) = None"
    by (simp add: pair_loop.simps [of jp name "Some (v @ ws4 @ e)"] zbx_json_pair_next_def)
  moreover have "ends_value (ws4 @ e)" using pairs_last(6) assms(4) by (simp add: ends_value_ws)
  moreover have "pair_loop jp name p = (if c_string n = name then Some (v @ ws4 @ e) else
      pair_loop jp name (Some (v @ ws4 @ e)))"
    using r by (simp add: pair_loop.simps [of jp name p])
  ultimately show ?case by auto
next
  case (pairs_more ws1 raw n ws2 ws3 v ws4 ms prs)
  let ?q = "v @ ws4 @ 44 # ms @ e"
  have "zbx_json_next jp p = Some (34 # raw @ 34 # ws2 @ 58 # ws3 @ ?q)"
    using pairs_more.prems(1) pairs_more.hyps(1) by (simp add: skip_ws_quote)
  from pair_next_text [OF this] pairs_more have r: "zbx_json_pair_next jp p MAX_STRING_LEN = Some (n, ?q)" by simp
  have "zbx_json_next jp (Some ?q) = Some (skip_ws (ms @ e))"
    using next_after_value [OF pairs_more(5,6), of e "44 # ms @ e"] assms(2-4) by (simp add: zbx_json_next_def)
  from pairs_more.IH [OF this] pairs_more.prems(2)
  have "case pair_value prs name of None \<Rightarrow> pair_loop jp name (Some ?q) = None
    | Some v \<Rightarrow> (\<exists>t. pair_loop jp name (Some ?q) = Some (v @ t) \<and> ends_value t)" by simp
  moreover have "ends_value (ws4 @ 44 # ms @ e)" using pairs_more(6) by (simp add: ends_value_ws)
  moreover have l: "pair_loop jp name p = (if c_string n = name then Some ?q else pair_loop jp name (Some ?q))"
    using r by (simp add: pair_loop.simps [of jp name p])
  ultimately show ?case unfolding l by (auto split: option.split)
qed

lemma pairs_text_members: "pairs_text ms prs \<Longrightarrow> jmembers ms"
proof (induction rule: pairs_text.induct)
  case (pairs_last ws1 raw n ws2 ws3 v ws4)
  then have "jstring (34 # raw @ [34])" by (auto simp: jstring_def decodes_jchars)
  with members_last [of ws1 "34 # raw @ [34]" ws2 ws3 v ws4] pairs_last show ?case by simp
next
  case (pairs_more ws1 raw n ws2 ws3 v ws4 ms prs)
  then have "jstring (34 # raw @ [34])" by (auto simp: jstring_def decodes_jchars)
  with members_more [of ws1 "34 # raw @ [34]" ws2 ws3 v ws4 ms] pairs_more show ?case by simp
qed

lemma open_object:
  assumes "jws ws" "jobject (123 # ms @ [125])" "jws ws'"
  shows "zbx_json_open (ws @ 123 # ms @ 125 # ws') = Some \<lparr>jp_start = 123 # ms @ 125 # ws', jp_end = 125 # ws'\<rparr>"
proof -
  have s: "skip_ws (ws @ 123 # ms @ 125 # ws') = 123 # ms @ 125 # ws'"
    using skip_ws_append [OF assms(1)] by (simp add: skip_ws_id is_ws_iff)
  have "skip_ws ws' = []" using skip_ws_append [OF assms(3), of "[]"] by simp
  then have "zbx_json_validate (123 # ms @ 125 # ws') = Inr (length ms + 2)"
    using parse_object_complete [OF assms(2), of "[]" ws'] by (simp add: zbx_json_validate_def)
  with s show ?thesis by (simp add: zbx_json_open_def)
qed

lemma pair_by_name_text:
  assumes "pairs_text ms prs" "\<forall>(n, v) \<in> set prs. length n < MAX_STRING_LEN"
  shows "case pair_value prs name of
      None \<Rightarrow> zbx_json_pair_by_name \<lparr>jp_start = 123 # ms @ 125 # ws', jp_end = 125 # ws'\<rparr> name = None
    | Some v \<Rightarrow> (\<exists>t. zbx_json_pair_by_name \<lparr>jp_start = 123 # ms @ 125 # ws', jp_end = 125 # ws'\<rparr> name = Some (v @ t) \<and>
        ends_value t)"
proof -
  have "ms \<noteq> []" using assms(1) by cases auto
  then show ?thesis unfolding zbx_json_pair_by_name_def
    by (intro pair_loop_text [OF assms(1) refl]) (use assms(2) in \<open>simp_all add: jp_distance_def zbx_json_next_def\<close>)
qed

subsection \<open>Decoding what was found\<close>

lemma string_size_text: "decodes raw s \<Longrightarrow> \<exists>sz. string_size_loop (raw @ 34 # r) k = Some sz \<and> k + length s \<le> sz"
proof (induction arbitrary: k rule: decodes.induct)
  case decodes_nil
  then show ?case by (simp add: string_size_loop.simps [of "34 # r"])
next
  case (decodes_plain c raw s)
  then have "c \<noteq> 0" by (auto simp: iscntrl_def)
  with decodes_plain.hyps decodes_plain.IH [of "Suc k"] show ?case
    by (simp add: string_size_loop.simps [of "c # raw @ 34 # r"])
next
  case (decodes_escape c raw s)
  then have "string_size_loop (92 # c # raw @ 34 # r) k = string_size_loop (raw @ 34 # r) (Suc k)"
    by (auto simp: string_size_loop.simps [of "92 # c # raw @ 34 # r" for c])
  with decodes_escape.IH [of "Suc k"] show ?case by simp
next
  case (decodes_unicode raw s c)
  have hex: "zbx_num2hex (x AND 15) \<notin> {0, 34, 92}" for x :: u8
    using num2hex_digit [OF and_15_le, of x] by (auto simp: isxdigit_def isdigit_def)
  have "string_size_loop (92 # 117 # 48 # 48 # a # b # raw @ 34 # r) k = string_size_loop (raw @ 34 # r) (k + 3)"
    if "a \<notin> {0, 34, 92}" "b \<notin> {0, 34, 92}" for a b
    using that by (simp add: string_size_loop.simps [of "92 # _"] string_size_loop.simps [of "a # _"]
        string_size_loop.simps [of "b # _"] numeral_3_eq_3)
  from this [OF hex hex] decodes_unicode.IH [of "k + 3"] show ?case by fastforce
qed

lemma value_string_decoded:
  assumes "decodes raw s"
  shows "length s < len \<Longrightarrow> zbx_json_decodevalue (34 # raw @ 34 # t) len = Some (s, t, False)"
    "\<exists>alloc'. zbx_json_decodevalue_dyn (34 # raw @ 34 # t) alloc = Some (s, t, alloc') \<and> length s < alloc'"
proof -
  show "length s < len \<Longrightarrow> zbx_json_decodevalue (34 # raw @ 34 # t) len = Some (s, t, False)"
    using decodestring_correct [OF assms] by (simp add: zbx_json_decodevalue_def zbx_json_kind_def)
  obtain sz where sz: "zbx_json_string_size (34 # raw @ 34 # t) = Some sz" "length s \<le> sz"
    using string_size_text [OF assms, of t 0] by (auto simp: zbx_json_string_size_def)
  let ?alloc = "if alloc \<le> sz then sz + 1 else alloc"
  have "length s < ?alloc" using sz(2) by simp
  with sz(1) decodestring_correct [OF assms this]
  show "\<exists>alloc'. zbx_json_decodevalue_dyn (34 # raw @ 34 # t) alloc = Some (s, t, alloc') \<and> length s < alloc'"
    by (simp add: zbx_json_decodevalue_dyn_def zbx_json_value_size_def zbx_json_kind_def Let_def)
qed

text \<open>An integer is read up to the character behind it.\<close>

lemma int_char_nonzero: "int_char c \<Longrightarrow> c \<noteq> 0"
  by (auto simp: int_char_def)

lemma ends_value_int: "ends_value t \<Longrightarrow> hd0 t \<noteq> 0 \<and> \<not> int_char (hd0 t)"
  by (auto simp: ends_value_def int_char_def is_ws_iff)

lemma decodeint_text:
  "list_all int_char v \<Longrightarrow> ends_value t \<Longrightarrow> length out + length v < len \<Longrightarrow>
   decodeint_loop len (v @ t) out = Some (out @ v, t)"
proof (induction v arbitrary: out)
  case Nil
  then show ?case using ends_value_int [of t] by (cases t) auto
qed (auto simp: int_char_nonzero)

lemma int_size_text: "list_all int_char v \<Longrightarrow> ends_value t \<Longrightarrow> int_size_loop (v @ t) k = Some (k + length v)"
proof (induction v arbitrary: k)
  case Nil
  then show ?case using ends_value_int [of t] by (cases t) auto
qed (auto simp: int_char_nonzero)

lemma value_int_decoded:
  assumes "list_all int_char v" "v \<noteq> []" "ends_value t"
  shows "length v < len \<Longrightarrow> zbx_json_decodevalue (v @ t) len = Some (v, t, False)"
    "\<exists>alloc'. zbx_json_decodevalue_dyn (v @ t) alloc = Some (v, t, alloc') \<and> length v < alloc'"
proof -
  obtain c w where "v = c # w" using assms(2) by (cases v) auto
  with assms(1) have kind: "zbx_json_kind (v @ t) = KIND_INT"
    by (auto simp: zbx_json_kind_def int_char_def not_less)
  show "length v < len \<Longrightarrow> zbx_json_decodevalue (v @ t) len = Some (v, t, False)"
    using decodeint_text [OF assms(1,3), of "[]"] kind by (simp add: zbx_json_decodevalue_def zbx_json_decodeint_def)
  show "\<exists>alloc'. zbx_json_decodevalue_dyn (v @ t) alloc = Some (v, t, alloc') \<and> length v < alloc'"
    using decodeint_text [OF assms(1,3), of "[]"] int_size_text [OF assms(1,3), of 0] kind
    by (simp add: zbx_json_decodevalue_dyn_def zbx_json_value_size_def zbx_json_int_size_def zbx_json_decodeint_def Let_def)
qed

lemma value_null_decoded: "zbx_json_decodevalue (lit_null @ t) len = Some ([], t, True)"
  by (simp add: zbx_json_decodevalue_def zbx_json_kind_def literal_values zbx_json_decodenull_def)

text \<open>The content of the text of a value, as far as the readers give it out.\<close>

inductive value_content :: "u8 list \<Rightarrow> u8 list \<Rightarrow> bool" where
  content_string: "decodes raw s \<Longrightarrow> value_content (34 # raw @ [34]) s"
| content_int: "list_all int_char v \<Longrightarrow> v \<noteq> [] \<Longrightarrow> value_content v v"

lemma value_content_decoded:
  assumes "value_content v s" "ends_value t"
  shows "length s < len \<Longrightarrow> zbx_json_decodevalue (v @ t) len = Some (s, t, False)"
    "\<exists>alloc'. zbx_json_decodevalue_dyn (v @ t) alloc = Some (s, t, alloc') \<and> length s < alloc'"
  using assms
  by (induction rule: value_content.induct) (simp_all add: value_string_decoded value_int_decoded)

subsection \<open>Elements of arrays\<close>

text \<open>The pointers a caller gets by calling \<^verbatim>\<open>zbx_json_next\<close> again and again.\<close>

fun nth_item :: "zbx_json_parse \<Rightarrow> nat \<Rightarrow> u8 list option" where
  "nth_item jp 0 = zbx_json_next jp None"
| "nth_item jp (Suc i) = (case nth_item jp i of None \<Rightarrow> None | Some p \<Rightarrow> zbx_json_next jp (Some p))"

fun item_after :: "zbx_json_parse \<Rightarrow> u8 list \<Rightarrow> nat \<Rightarrow> u8 list option" where
  "item_after jp p 0 = Some p"
| "item_after jp p (Suc i) = (case zbx_json_next jp (Some p) of None \<Rightarrow> None | Some q \<Rightarrow> item_after jp q i)"

lemma item_after_Suc: "item_after jp p (Suc i) = (case item_after jp p i of None \<Rightarrow> None | Some q \<Rightarrow> zbx_json_next jp (Some q))"
proof (induction i arbitrary: p)
  case (Suc i)
  show ?case
  proof (cases "zbx_json_next jp (Some p)")
    case (Some q)
    then have "item_after jp p (Suc (Suc i)) = item_after jp q (Suc i)" "item_after jp p (Suc i) = item_after jp q i"
      by simp_all
    with Suc.IH [of q] show ?thesis by simp
  qed simp
qed (simp split: option.split)

lemma nth_item_after: "nth_item jp i = (case zbx_json_next jp None of None \<Rightarrow> None | Some p \<Rightarrow> item_after jp p i)"
proof (induction i)
  case (Suc i)
  then show ?case by (cases "zbx_json_next jp None") (simp_all add: item_after_Suc del: item_after.simps(2))
qed (simp split: option.split)

lemma elems_walk:
  assumes "elems_text es vs" "jp_end jp = e" "jp_distance jp \<noteq> 1" "hd0 e = 93"
  shows "(\<forall>i < length vs. \<exists>t. item_after jp (skip_ws (es @ e)) i = Some (vs ! i @ t) \<and> ends_value t) \<and>
    item_after jp (skip_ws (es @ e)) (length vs) = None \<and> count_from jp (skip_ws (es @ e)) + 1 = length vs"
  using assms(1)
proof (induction rule: elems_text.induct)
  case (elems_text_last ws1 v ws2)
  have s: "skip_ws ((ws1 @ v @ ws2) @ e) = v @ ws2 @ e"
    using elems_text_last skip_ws_append jvalue_first(3) by simp
  have n: "zbx_json_next jp (Some (v @ ws2 @ e)) = None"
    using next_after_value [OF elems_text_last(2,3), of e e] assms(2-4) by (simp add: zbx_json_next_def)
  have "ends_value (ws2 @ e)" using elems_text_last(3) assms(4) by (simp add: ends_value_ws)
  then show ?case unfolding s by (auto simp: n count_from.simps [of jp "v @ ws2 @ e"])
next
  case (elems_text_more ws1 v ws2 es vs)
  let ?q = "v @ ws2 @ 44 # es @ e"
  have s: "skip_ws ((ws1 @ v @ ws2 @ 44 # es) @ e) = ?q"
    using elems_text_more skip_ws_append jvalue_first(3) by simp
  have n: "zbx_json_next jp (Some ?q) = Some (skip_ws (es @ e))"
    using next_after_value [OF elems_text_more(2,3), of e "44 # es @ e"] assms(2-4) by (simp add: zbx_json_next_def)
  have "ends_value (ws2 @ 44 # es @ e)" using elems_text_more(3) by (simp add: ends_value_ws)
  with elems_text_more.IH show ?case unfolding s
    by (auto simp: n count_from.simps [of jp ?q] less_Suc_eq_0_disj)
qed

lemma elems_text_jelems: "elems_text es vs \<Longrightarrow> jelems es \<and> es \<noteq> [] \<and> vs \<noteq> []"
proof (induction rule: elems_text.induct)
  case (elems_text_last ws1 v ws2)
  from jvalue_first(1) [OF elems_text_last(2), of "[]"] have "v \<noteq> []" by auto
  with elems_last [OF elems_text_last(1-3)] show ?case by simp
next
  case (elems_text_more ws1 v ws2 es vs)
  then show ?case using elems_more [OF elems_text_more(1-3)] by simp
qed

subsection \<open>Documents of the builder\<close>

lemma decodes_escape_chars: "127 \<notin> set s \<Longrightarrow> decodes (concat (map escape_char s)) s"
proof (induction s)
  case (Cons c s)
  then have IH: "decodes (concat (map escape_char s)) s" and c: "c \<noteq> 127" by auto
  have "decodes (escape_char c @ concat (map escape_char s)) (c # s)"
  proof (cases "c \<in> set short_escapes")
    case True
    let ?r = "concat (map escape_char s)"
    have d: "decodes (92 # 34 # ?r) (34 # s)" "decodes (92 # 92 # ?r) (92 # s)" "decodes (92 # 47 # ?r) (47 # s)"
      "decodes (92 # 98 # ?r) (8 # s)" "decodes (92 # 102 # ?r) (12 # s)" "decodes (92 # 110 # ?r) (10 # s)"
      "decodes (92 # 114 # ?r) (13 # s)" "decodes (92 # 116 # ?r) (9 # s)"
      using decodes_escape [of 34, OF _ IH] decodes_escape [of 92, OF _ IH] decodes_escape [of 47, OF _ IH]
        decodes_escape [of 98, OF _ IH] decodes_escape [of 102, OF _ IH] decodes_escape [of 110, OF _ IH]
        decodes_escape [of 114, OF _ IH] decodes_escape [of 116, OF _ IH] by (simp_all add: short_escape_def)
    consider "c = 34" | "c = 92" | "c = 47" | "c = 8" | "c = 12" | "c = 10" | "c = 13" | "c = 9"
      using True by (auto simp: short_escapes_def)
    then show ?thesis by cases (simp_all add: escape_char_def d)
  next
    case False
    show ?thesis
    proof (cases "c < 32")
      case True
      with False have "escape_char c = [92, 117, 48, 48, zbx_num2hex (drop_bit 4 c AND 15), zbx_num2hex (c AND 15)]"
        by (auto simp: escape_char_def short_escapes_def)
      with decodes_unicode [OF IH, of c] show ?thesis by simp
    next
      assume "\<not> c < 32"
      with False have "escape_char c = [c]" "c \<noteq> 34" "c \<noteq> 92" "\<not> iscntrl c"
        using c by (auto simp: escape_char_def short_escapes_def iscntrl_def)
      with decodes_plain [OF _ _ _ IH] show ?thesis by simp
    qed
  qed
  then show ?case by simp
qed (simp add: decodes_nil)

definition kid_pair :: "nat \<Rightarrow> u8 list option \<times> jtree \<Rightarrow> u8 list \<times> u8 list" where
  "kid_pair l kid = (the (fst kid), render l (snd kid))"

lemma kid_text:
  assumes "name_ok True (fst kid)" "well_typed (snd kid)"
  obtains ws raw n where "item_text (Suc l) kid = ws @ 34 # raw @ 34 # 58 # render (Suc l) (snd kid)" "jws ws"
    "decodes raw n" "kid_pair (Suc l) kid = (n, render (Suc l) (snd kid))"
proof -
  obtain n where n: "fst kid = Some n" "127 \<notin> set n"
    using assms(1) by (cases "fst kid") (auto simp: clean_string_def)
  obtain ws where ws: "jws ws" "lead (Suc l) (fst kid) (is_box (snd kid)) = ws @ name_text (fst kid)"
    using lead_split by blast
  have "item_text (Suc l) kid = ws @ 34 # concat (map escape_char n) @ 34 # 58 # render (Suc l) (snd kid)"
    using ws(2) n(1) by (simp add: item_text_def name_text_def zbx_json_insstring_def)
  with that ws(1) decodes_escape_chars [OF n(2)] n(1) show ?thesis by (simp add: kid_pair_def)
qed

lemma kids_pairs_text:
  assumes "kids \<noteq> []" "\<forall>kid \<in> set kids. name_ok True (fst kid) \<and> well_typed (snd kid)"
  shows "pairs_text (commas (map (item_text (Suc l)) kids)) (map (kid_pair (Suc l)) kids)"
  using assms
proof (induction kids rule: list_nonempty_induct)
  case (single kid)
  then obtain ws raw n where k: "item_text (Suc l) kid = ws @ 34 # raw @ 34 # 58 # render (Suc l) (snd kid)" "jws ws"
    "decodes raw n" "kid_pair (Suc l) kid = (n, render (Suc l) (snd kid))" using kid_text [of kid l] by auto
  have "jvalue (render (Suc l) (snd kid))" using single by (simp add: render_valid)
  from pairs_last [OF k(2,3) _ _ this, of "[]" "[]" "[]"] k(1,4) show ?case by simp
next
  case (cons kid kids)
  then obtain ws raw n where k: "item_text (Suc l) kid = ws @ 34 # raw @ 34 # 58 # render (Suc l) (snd kid)" "jws ws"
    "decodes raw n" "kid_pair (Suc l) kid = (n, render (Suc l) (snd kid))" using kid_text [of kid l] by auto
  have v: "jvalue (render (Suc l) (snd kid))" using cons by (simp add: render_valid)
  have IH: "pairs_text (commas (map (item_text (Suc l)) kids)) (map (kid_pair (Suc l)) kids)" using cons by simp
  obtain kid' kids' where "kids = kid' # kids'" using cons.hyps by (cases kids) auto
  then have "commas (map (item_text (Suc l)) (kid # kids)) =
      item_text (Suc l) kid @ 44 # commas (map (item_text (Suc l)) kids)" by simp
  with pairs_more [OF k(2,3) _ _ v _ IH, of "[]" "[]" "[]"] k(1,4) show ?case by simp
qed

lemma content_kid:
  assumes "leaf_ok (Some s) type" "type = JSON_TYPE_STRING \<or> list_all int_char s"
  shows "value_content (render l (Leaf (Some s) type)) s"
proof (cases "type = JSON_TYPE_STRING")
  case True
  with assms(1) have "decodes (concat (map escape_char s)) s" by (simp add: clean_string_def decodes_escape_chars)
  from content_string [OF this] True show ?thesis by (simp add: zbx_json_insstring_def)
next
  case False
  with assms have "jnumber s" by (cases type) auto
  then have "zbx_json_insstring (Some s) type = s" "s \<noteq> []"
    using False jnumber_plain [of s] parse_number_complete(2) [of s "[]"]
    by (auto simp: zbx_json_insstring_def ends_number_def isdigit_def)
  with content_int [of s] False assms(2) show ?thesis by simp
qed

lemma value_by_name_text:
  assumes "pairs_text ms prs" "\<forall>(n, v) \<in> set prs. length n < MAX_STRING_LEN"
    "jp = \<lparr>jp_start = 123 # ms @ 125 # ws', jp_end = 125 # ws'\<rparr>"
  shows "pair_value prs name = None \<Longrightarrow>
      zbx_json_value_by_name jp name len = None \<and> zbx_json_value_by_name_dyn jp name alloc = None"
    "pair_value prs name = Some v \<Longrightarrow> value_content v s \<Longrightarrow>
      (length s < len \<longrightarrow> zbx_json_value_by_name jp name len = Some s) \<and>
      (\<exists>alloc'. zbx_json_value_by_name_dyn jp name alloc = Some (s, alloc') \<and> length s < alloc')"
proof -
  note p = pair_by_name_text [OF assms(1,2), where name = name and ws' = ws', folded assms(3)]
  show "pair_value prs name = None \<Longrightarrow>
      zbx_json_value_by_name jp name len = None \<and> zbx_json_value_by_name_dyn jp name alloc = None"
    using p by (simp add: zbx_json_value_by_name_def zbx_json_value_by_name_dyn_def)
  assume v: "pair_value prs name = Some v" "value_content v s"
  with p obtain t where t: "zbx_json_pair_by_name jp name = Some (v @ t)" "ends_value t" by auto
  have "length s < len \<longrightarrow> zbx_json_value_by_name jp name len = Some s"
    using value_content_decoded(1) [OF v(2) t(2)] t(1) by (simp add: zbx_json_value_by_name_def)
  moreover obtain alloc' where "zbx_json_decodevalue_dyn (v @ t) alloc = Some (s, t, alloc')" "length s < alloc'"
    using value_content_decoded(2) [OF v(2) t(2)] by blast
  ultimately show "(length s < len \<longrightarrow> zbx_json_value_by_name jp name len = Some s) \<and>
      (\<exists>alloc'. zbx_json_value_by_name_dyn jp name alloc = Some (s, alloc') \<and> length s < alloc')"
    using t(1) by (simp add: zbx_json_value_by_name_dyn_def)
qed

lemma find_kid_pair:
  assumes "\<forall>(n, t) \<in> set kids. n \<noteq> None \<and> 0 \<notin> set (the n)"
    "find (\<lambda>(n, t). n = Some name) kids = Some (Some name, t)"
  shows "pair_value (map (kid_pair l) kids) name = Some (render l t)"
  using assms
proof (induction kids)
  case (Cons kid kids)
  obtain n t' where kid: "kid = (n, t')" by (cases kid)
  with Cons.prems obtain m where m: "n = Some m" "0 \<notin> set m" by auto
  have "c_string m = m" unfolding c_string_def using m(2) by (auto simp: takeWhile_eq_all_conv)
  with Cons kid m show ?case by (auto simp: kid_pair_def split: if_splits)
qed simp

subsection \<open>Properties\<close>

text \<open>C33. Reading by name in a received object whose names use only plain characters, the short escapes and
  escapes \<^verbatim>\<open>\u00xx\<close> with lower-case digits, and are shorter than the buffer for them, with white space around
  and inside it: the first pair whose decoded name is the wanted one is found, and its value is returned,
  decoded, if it is a string of such characters or an integer; both variants fail if there is no such pair,
  and the one with an allocated buffer has always room for the whole value.\<close>

theorem json_value_by_name:
  assumes "jws ws" "pairs_text ms prs" "jws ws'" "\<forall>(n, v) \<in> set prs. length n < MAX_STRING_LEN"
  shows "\<exists>jp. zbx_json_open (ws @ 123 # ms @ 125 # ws') = Some jp \<and>
    (pair_value prs name = None \<longrightarrow>
      zbx_json_value_by_name jp name len = None \<and> zbx_json_value_by_name_dyn jp name alloc = None) \<and>
    (\<forall>v s. pair_value prs name = Some v \<and> value_content v s \<longrightarrow>
      (length s < len \<longrightarrow> zbx_json_value_by_name jp name len = Some s) \<and>
      (\<exists>alloc'. zbx_json_value_by_name_dyn jp name alloc = Some (s, alloc') \<and> length s < alloc'))"
proof -
  have "jobject (123 # ms @ [125])" using pairs_text_members [OF assms(2)] by (auto simp: jobject_def)
  from open_object [OF assms(1) this assms(3)] value_by_name_text [OF assms(2,4) refl, where ws' = ws' and name = name and len = len and alloc = alloc]
  show ?thesis by auto
qed

definition example_pairs :: "u8 list" where
  "example_pairs = [34, 97, 34, 32, 58, 34, 92, 110, 34, 44, 34, 98, 34, 58, 45, 55]"

lemma example_pairs_text: "pairs_text example_pairs [([97], [34, 92, 110, 34]), ([98], [45, 55])]"
proof -
  have ab: "decodes [97] [97]" "decodes [98] [98]" "decodes [92, 110] [10]"
    using decodes_plain [of 97, OF _ _ _ decodes_nil] decodes_plain [of 98, OF _ _ _ decodes_nil]
      decodes_escape [of 110, OF _ decodes_nil] by (simp_all add: iscntrl_def short_escape_def)
  have s: "jvalue [34, 92, 110, 34]"
    using decodes_jchars [OF ab(3)] by (intro value_string) (simp add: jstring_def)
  have "jnumber [45, 55]" unfolding jnumber_def
    by (rule exI [of _ "[45]"], rule exI [of _ "[55]"]) (simp add: jint_def jfrac_def jexp_def isdigit_def)
  then have "pairs_text [34, 98, 34, 58, 45, 55] [([98], [45, 55])]"
    using pairs_last [OF _ ab(2) _ _ value_number, of "[]" "[]" "[]" "[45, 55]" "[]"] by simp
  from pairs_more [OF _ ab(1) _ _ s _ this, of "[]" "[32]" "[]" "[]"] show ?thesis
    by (simp add: example_pairs_def is_ws_iff)
qed

lemma json_value_by_name_witness:
  "\<exists>jp. zbx_json_open (9 # 123 # example_pairs @ [125, 10]) = Some jp \<and>
    zbx_json_value_by_name jp [97] 2 = Some [10] \<and> zbx_json_value_by_name jp [99] 2 = None"
proof -
  have d: "decodes [92, 110] [10]" using decodes_escape [of 110, OF _ decodes_nil] by (simp add: short_escape_def)
  have ws: "jws [9]" "jws [10]" "\<forall>(n, v) \<in> set [([97], [34, 92, 110, 34]), ([98], [45, 55])]. length n < MAX_STRING_LEN"
    by (simp_all add: is_ws_iff MAX_STRING_LEN_def)
  have c: "value_content [34, 92, 110, 34] [10]" using content_string [OF d] by simp
  have n: "c_string [97] = [97]" "c_string [98] = [98]" by (simp_all add: c_string_def)
  show ?thesis
    using json_value_by_name [OF ws(1) example_pairs_text ws(2,3), of "[97]" 2 0]
      json_value_by_name [OF ws(1) example_pairs_text ws(2,3), of "[99]" 2 0] c n by auto
qed

text \<open>C32. What the builder wrote is read back: after a well-typed sequence of calls, opening the text of
  the buffer and asking for a name of the top-level object returns what was added first under that name, if
  that is a string, whatever characters it has, or a value made of digits and minus signs. Names are shorter
  than the buffer for them.\<close>

theorem json_message_roundtrip:
  assumes "length stat = ZBX_JSON_STAT_BUF_LEN" "calls_type calls [True] = Some ks"
    "j = fold (json_step mem) calls (zbx_json_init mem stat allocate)"
    "json_tree (fold spec_step calls json_new) = Box True kids"
    "\<forall>(n, t) \<in> set kids. n \<noteq> None \<and> 0 \<notin> set (the n) \<and> length (the n) < MAX_STRING_LEN"
    "find (\<lambda>(n, t). n = Some name) kids = Some (Some name, Leaf (Some s) type)"
    "type = JSON_TYPE_STRING \<or> list_all int_char s"
  shows "\<exists>jp. zbx_json_open (zj_text j) = Some jp \<and>
    (length s < len \<longrightarrow> zbx_json_value_by_name jp name len = Some s) \<and>
    (\<exists>alloc'. zbx_json_value_by_name_dyn jp name alloc = Some (s, alloc') \<and> length s < alloc')"
proof -
  let ?st = "fold spec_step calls json_new"
  let ?ms = "commas (map (item_text (Suc 0)) kids)"
  have t: "zj_text j = 123 # ?ms @ [125]"
    using builder_text [OF assms(1,3)] assms(4) by (simp add: render_Box open_box_def close_box_def)
  have kids: "kids \<noteq> []" using assms(6) by auto
  have ok: "\<forall>kid \<in> set kids. name_ok True (fst kid) \<and> well_typed (snd kid)"
    using builder_typed [OF assms(2)] assms(4) by auto
  then have "leaf_ok (Some s) type" using assms(6) by (auto simp: find_Some_iff) (metis nth_mem snd_conv well_typed.simps(1))
  from content_kid [OF this assms(7)] have c: "value_content (render (Suc 0) (Leaf (Some s) type)) s" .
  have prs: "pairs_text ?ms (map (kid_pair (Suc 0)) kids)" by (rule kids_pairs_text [OF kids ok])
  have names: "\<forall>(n, v) \<in> set (map (kid_pair (Suc 0)) kids). length n < MAX_STRING_LEN"
    using assms(5) by (auto simp: kid_pair_def)
  have "pair_value (map (kid_pair (Suc 0)) kids) name = Some (render (Suc 0) (Leaf (Some s) type))"
    using assms(5,6) by (intro find_kid_pair) auto
  note v = value_by_name_text(2) [OF prs names refl this c, where ws' = "[]" and len = len and alloc = alloc]
  have "jobject (123 # ?ms @ [125])" using pairs_text_members [OF prs] by (auto simp: jobject_def)
  from open_object [of "[]", OF _ this, of "[]"] v t show ?thesis by simp
qed

lemma json_message_roundtrip_witness:
  "let j = fold (json_step (\<lambda>n. 7)) example_calls (zbx_json_init (\<lambda>n. 7) (replicate ZBX_JSON_STAT_BUF_LEN 1) 10)
   in \<exists>jp. zbx_json_open (zj_text j) = Some jp \<and> zbx_json_value_by_name jp [97] 3 = Some [34, 10]"
proof -
  let ?kids = "[(Some [97], Leaf (Some [34, 10]) JSON_TYPE_STRING),
    (Some [98], Box False [(None, Leaf (Some [50, 48, 53]) JSON_TYPE_INT)]), (Some [99], Box True [])]
    :: (u8 list option \<times> jtree) list"
  have t: "json_tree (fold spec_step example_calls json_new) = Box True ?kids" by code_simp
  have c: "calls_type example_calls [True] = Some [True, True]" by (simp add: example_calls_def clean_string_def)
  have k: "\<forall>(n, t) \<in> set ?kids. n \<noteq> None \<and> 0 \<notin> set (the n) \<and> length (the n) < MAX_STRING_LEN"
    by (simp add: MAX_STRING_LEN_def)
  show ?thesis
    using json_message_roundtrip [OF _ c refl t k, of "replicate ZBX_JSON_STAT_BUF_LEN 1" "[97]" "[34, 10]"
        JSON_TYPE_STRING "\<lambda>n. 7" 10 3 0] by (simp add: Let_def) blast
qed

lemma json_walk_elements:
  assumes "elems_text es vs"
  shows "\<exists>jp. zbx_json_brackets_open (91 # es @ 93 # r) = Some jp \<and> zbx_json_count jp = length vs \<and>
    (\<forall>i < length vs. \<exists>t. nth_item jp i = Some (vs ! i @ t) \<and> ends_value t) \<and> nth_item jp (length vs) = None"
proof -
  let ?jp = "\<lparr>jp_start = 91 # es @ 93 # r, jp_end = 93 # r\<rparr>"
  have es: "jelems es" "es \<noteq> []" using elems_text_jelems [OF assms] by auto
  have "zbx_json_brackets_open (91 # es @ 93 # r) = Some ?jp"
    using rbracket_value [OF value_array [OF es(1)], of r] by (simp add: zbx_json_brackets_open_def skip_ws_id is_ws_iff)
  moreover have d: "jp_distance ?jp \<noteq> 1" using es(2) by (simp add: jp_distance_def)
  moreover have "zbx_json_next ?jp None = Some (skip_ws (es @ 93 # r))" using d by (simp add: zbx_json_next_def)
  ultimately show ?thesis
    using elems_walk [OF assms, of ?jp "93 # r"] by (auto simp: nth_item_after zbx_json_count_def)
qed

text \<open>C34. Walking over an array: opening the brackets gives a range in which \<^verbatim>\<open>zbx_json_next\<close> visits the
  elements in order and then ends, whatever strings, commas and brackets they contain, and
  \<^verbatim>\<open>zbx_json_count\<close> returns their number, none for adjacent brackets; but for an array without elements that has
  white space between its brackets the count is 1, and the closing bracket is taken for an element.\<close>

theorem json_array_walk:
  assumes "elems_text es vs \<or> jws es \<and> vs = []"
  shows "\<exists>jp. zbx_json_brackets_open (91 # es @ 93 # r) = Some jp \<and>
    (if vs = [] \<and> es \<noteq> [] then zbx_json_count jp = 1 \<and> nth_item jp 0 = Some (93 # r)
     else zbx_json_count jp = length vs \<and>
       (\<forall>i < length vs. \<exists>t. nth_item jp i = Some (vs ! i @ t) \<and> ends_value t) \<and> nth_item jp (length vs) = None)"
  using assms
proof
  assume "elems_text es vs"
  with json_walk_elements elems_text_jelems show ?thesis by fastforce
next
  assume ws: "jws es \<and> vs = []"
  let ?jp = "\<lparr>jp_start = 91 # es @ 93 # r, jp_end = 93 # r\<rparr>"
  have o: "zbx_json_brackets_open (91 # es @ 93 # r) = Some ?jp"
    using rbracket_value [OF value_array0, of es r] ws by (simp add: zbx_json_brackets_open_def skip_ws_id is_ws_iff)
  show ?thesis
  proof (cases "es = []")
    case True
    then have "zbx_json_next ?jp None = None" by (simp add: zbx_json_next_def jp_distance_def)
    with o True ws show ?thesis by (simp add: nth_item_after zbx_json_count_def)
  next
    case False
    then have d: "jp_distance ?jp \<noteq> 1" by (simp add: jp_distance_def)
    have "skip_ws (es @ 93 # r) = 93 # r" using ws by (simp add: skip_ws_append skip_ws_id is_ws_iff)
    then have n: "zbx_json_next ?jp None = Some (93 # r)" using d by (simp add: zbx_json_next_def)
    have "zbx_json_next ?jp (Some (93 # r)) = None"
      using d by (simp add: zbx_json_next_def next_loop.simps Let_def)
    then have "zbx_json_count ?jp = 1" by (simp add: zbx_json_count_def n count_from.simps)
    with o n False ws show ?thesis by (simp add: nth_item_after)
  qed
qed

lemma json_array_walk_witness:
  "\<exists>jp. zbx_json_brackets_open [91, 34, 44, 93, 34, 32, 44, 91, 93, 93] = Some jp \<and> zbx_json_count jp = 2"
proof -
  have "jchars [44, 93]" by (intro chars_plain chars_nil) (simp_all add: iscntrl_def)
  then have "jvalue [34, 44, 93, 34]" by (intro value_string) (simp add: jstring_def)
  moreover have "jvalue [91, 93]" using value_array0 [of "[]"] by simp
  then have "elems_text [91, 93] [[91, 93]]" using elems_text_last [of "[]" "[91, 93]" "[]"] by simp
  ultimately have "elems_text [34, 44, 93, 34, 32, 44, 91, 93] [[34, 44, 93, 34], [91, 93]]"
    using elems_text_more [of "[]" "[34, 44, 93, 34]" "[32]" "[91, 93]"] by (simp add: is_ws_iff)
  from json_array_walk [OF disjI1 [OF this], of "[]"] show ?thesis by auto
qed

text \<open>
  Where the readers differ from JSON. White space inside an empty array makes it an array of one
  element, and an object that is not empty; capital hexadecimal digits of an escape are misread; and when
  the output buffer is full, an escaped quote ends the string.
\<close>

lemma json_blank_array_counted:
  "zbx_json_count (the (zbx_json_brackets_open [91, 32, 93])) = 1"
  "zbx_json_count (the (zbx_json_brackets_open [91, 93])) = 0"
  "zbx_json_object_is_empty (the (zbx_json_open [123, 32, 125])) = Fail"
  by code_simp+

lemma json_capital_hex_misread:
  "zbx_json_decodestring [34, 92, 117, 48, 48, 49, 65, 34] 100 = Some ([33], [])"
  "zbx_json_decodestring [34, 92, 117, 48, 48, 49, 97, 34] 100 = Some ([26], [])"
  by code_simp+

lemma json_full_buffer_ends_at_escape:
  "zbx_json_decodestring [34, 97, 92, 34, 98, 34, 58] 3 = Some ([97, 34], [58])"
  "zbx_json_decodestring [34, 97, 92, 34, 98, 34, 58] 2 = Some ([97], [98, 34, 58])"
  by code_simp+

end
