(* ===== verification/KeyParams.thy ===== *)
theory KeyParams
  imports Bytes
begin

text \<open>
  Item keys and their parameters, \<^verbatim>\<open>src/libs/zbxcommon/str.c\<close>: splitting \<^verbatim>\<open>host:key\<close>, finding the end of
  a key such as \<^verbatim>\<open>vfs.fs.size["/home",[a,b]]\<close>, counting its parameters and taking one out. The
  three automata run over the same syntax of plain, quoted and bracketed parameters. A position in
  a string is the text from it on; what \<^verbatim>\<open>strdup\<close> copies is given as the bytes it copies.
\<close>

subsection \<open>Host names and keys\<close>

definition isalnum :: "u8 \<Rightarrow> bool" where
  "isalnum c \<longleftrightarrow> isdigit c \<or> ch CHR ''a'' \<le> c \<and> c \<le> ch CHR ''z'' \<or> ch CHR ''A'' \<le> c \<and> c \<le> ch CHR ''Z''"

definition is_hostname_char :: "u8 \<Rightarrow> zres" where
  "is_hostname_char c =
    (if isalnum c then Succeed
     else if c = ch CHR ''.'' \<or> c = ch CHR '' '' \<or> c = ch CHR ''_'' \<or> c = ch CHR ''-'' then Succeed
     else Fail)"

definition is_key_char :: "u8 \<Rightarrow> zres" where
  "is_key_char c =
    (if isalnum c then Succeed
     else if c = ch CHR ''.'' \<or> c = ch CHR ''_'' \<or> c = ch CHR ''-'' then Succeed
     else Fail)"

definition MAX_ZBX_HOSTNAME_LEN :: nat where "MAX_ZBX_HOSTNAME_LEN = 64"

fun check_hostname_loop :: "u8 list \<Rightarrow> nat \<Rightarrow> zres" where
  "check_hostname_loop [] len = (if len = 0 \<or> MAX_ZBX_HOSTNAME_LEN < len then Fail else Succeed)"
| "check_hostname_loop (c # s) len = (if is_hostname_char c = Fail then Fail else check_hostname_loop s (len + 1))"

definition zbx_check_hostname :: "u8 list \<Rightarrow> zres" where
  "zbx_check_hostname hostname = check_hostname_loop hostname 0"

text \<open>The result, the host name, and where the pointer is left.\<close>

definition parse_host :: "u8 list \<Rightarrow> zres \<times> u8 list option \<times> u8 list" where
  "parse_host p =
    (let host = takeWhile (\<lambda>c. is_hostname_char c = Succeed) p; s = dropWhile (\<lambda>c. is_hostname_char c = Succeed) p in
     if host = [] then (Fail, None, s) else (Succeed, Some host, s))"

text \<open>The host name, if there is one, and the key.\<close>

fun host_key_loop :: "u8 list \<Rightarrow> u8 list \<Rightarrow> u8 list option \<times> u8 list" where
  "host_key_loop s [] = (None, s)"
| "host_key_loop s (c # p) =
    (if c = ch CHR '':'' then (Some (take (length s - length (c # p)) s), p)
     else if is_hostname_char c \<noteq> Succeed then (None, s)
     else host_key_loop s p)"

definition parse_host_key :: "u8 list option \<Rightarrow> (u8 list option \<times> u8 list) option" where
  "parse_host_key e =
    (case e of None \<Rightarrow> None | Some s \<Rightarrow> if hd0 s = 0 then None else Some (host_key_loop s s))"

subsection \<open>The end of a key\<close>

datatype pstate = Init | Quoted | Unquoted

definition skip_spaces :: "u8 list \<Rightarrow> u8 list" where
  "skip_spaces = dropWhile (\<lambda>c. c = ch CHR '' '')"

lemma skip_spaces_le: "length (skip_spaces s) \<le> length s"
  by (simp add: skip_spaces_def length_dropWhile_le)

lemma shorter:
  "s \<noteq> [] \<Longrightarrow> length (tl s) < length s" "s \<noteq> [] \<Longrightarrow> length (tl (tl s)) < length s"
  "s \<noteq> [] \<Longrightarrow> length (skip_spaces (tl s)) < length s"
  using skip_spaces_le [of "tl s"] by (cases s; simp)+

lemma nonempty: "hd0 s \<noteq> 0 \<Longrightarrow> s \<noteq> []"
  by auto

lemma nonempty_guard: "\<not> (hd0 s = 0 \<or> b) \<Longrightarrow> s \<noteq> []"
  by auto

text \<open>\<open>Inr\<close> the text at the closing bracket, \<open>Inl\<close> the text at the incorrect character.\<close>

function key_loop :: "u8 list \<Rightarrow> pstate \<Rightarrow> nat \<Rightarrow> u8 list + u8 list" where
  "key_loop s st array =
    (if hd0 s = 0 then Inl s
     else
       (case st of
          Init \<Rightarrow>
            if hd0 s = ch CHR '','' then key_loop (tl s) Init array
            else if hd0 s = ch CHR '']'' \<and> hd0 (tl s) = ch CHR ''['' \<and> array = 0 then key_loop (tl (tl s)) Init array
            else if hd0 s = ch CHR 0x22 then key_loop (tl s) Quoted array
            else if hd0 s = ch CHR ''['' then key_loop (tl s) Init (array + 1)
            else if hd0 s = ch CHR '']'' \<and> array \<noteq> 0 then
              (let rest = skip_spaces (tl s) in
               if array - 1 = 0 \<and> hd0 rest = ch CHR '']'' then Inr rest
               else if hd0 rest \<noteq> ch CHR '','' \<and> \<not> (array - 1 \<noteq> 0 \<and> hd0 rest = ch CHR '']'') then Inl rest
               else key_loop rest Init (array - 1))
            else if hd0 s = ch CHR '']'' \<and> array = 0 then Inr s
            else if hd0 s \<noteq> ch CHR '' '' then key_loop (tl s) Unquoted array
            else key_loop (tl s) Init array
        | Quoted \<Rightarrow>
            if hd0 s = ch CHR 0x22 then
              (let rest = skip_spaces (tl s) in
               if array = 0 \<and> hd0 rest = ch CHR '']'' \<and> hd0 (tl rest) = ch CHR ''['' then key_loop rest Init array
               else if array = 0 \<and> hd0 rest = ch CHR '']'' then Inr rest
               else if hd0 rest \<noteq> ch CHR '','' \<and> \<not> (array \<noteq> 0 \<and> hd0 rest = ch CHR '']'') then Inl rest
               else key_loop rest Init array)
            else if hd0 s = ch CHR 0x5C \<and> hd0 (tl s) = ch CHR 0x22 then key_loop (tl (tl s)) Quoted array
            else key_loop (tl s) Quoted array
        | Unquoted \<Rightarrow>
            if array = 0 \<and> hd0 s = ch CHR '']'' \<and> hd0 (tl s) = ch CHR ''['' then key_loop s Init array
            else if hd0 s = ch CHR '','' \<or> hd0 s = ch CHR '']'' \<and> array \<noteq> 0 then key_loop s Init array
            else if hd0 s = ch CHR '']'' \<and> array = 0 then Inr s
            else key_loop (tl s) Unquoted array))"
  by pat_completeness auto
termination
proof (relation "measure (\<lambda>(s, st, array). 2 * length s + (if st = Unquoted then 1 else 0))", goal_cases)
  case 1
  then show ?case by simp
qed (drule nonempty, force simp: shorter(3) simp flip: length_greater_0_conv)+

declare key_loop.simps [simp del]

text \<open>The result, the key, and where the pointer is left.\<close>

definition parse_key :: "u8 list \<Rightarrow> zres \<times> u8 list option \<times> u8 list" where
  "parse_key p =
    (let pre = takeWhile (\<lambda>c. is_key_char c = Succeed) p; s = dropWhile (\<lambda>c. is_key_char c = Succeed) p in
     if hd0 s = 0 then (Succeed, Some pre, s)
     else if hd0 s = ch CHR ''('' then
       (let r = length (dropWhile (\<lambda>c. c \<noteq> ch CHR ''.'') (rev pre)) in
        if r \<le> 1 then (Fail, None, s) else (Succeed, Some (take (r - 1) p), drop (r - 1) p))
     else if hd0 s = ch CHR ''['' then
       (case key_loop (tl s) Init 0 of
          Inl s1 \<Rightarrow> (Fail, None, s1)
        | Inr s1 \<Rightarrow> (Succeed, Some (take (length p - length (tl s1)) p), tl s1))
     else (Fail, None, s))"

subsection \<open>Counting and taking parameters\<close>

text \<open>What may follow a closing quote or bracket, at the nesting level \<open>array\<close>.\<close>

definition param_follows :: "nat \<Rightarrow> u8 list \<Rightarrow> bool" where
  "param_follows array rest \<longleftrightarrow>
    \<not> (hd0 rest \<noteq> ch CHR '','' \<and> hd0 rest \<noteq> 0 \<and> (array = 0 \<or> hd0 rest \<noteq> ch CHR '']''))"

text \<open>The number of parameters, 0 for incorrect syntax.\<close>

function num_loop :: "u8 list \<Rightarrow> pstate \<Rightarrow> nat \<Rightarrow> nat \<Rightarrow> nat" where
  "num_loop p st array ret =
    (if hd0 p = 0 then (if st = Quoted then 0 else if array \<noteq> 0 then 0 else ret)
     else
       (case st of
          Init \<Rightarrow>
            if hd0 p = ch CHR '','' then num_loop (tl p) Init array (if array = 0 then ret + 1 else ret)
            else if hd0 p = ch CHR 0x22 then num_loop (tl p) Quoted array ret
            else if hd0 p = ch CHR ''['' then num_loop (tl p) Init (array + 1) ret
            else if hd0 p = ch CHR '']'' \<and> array \<noteq> 0 then
              (let rest = skip_spaces (tl p) in
               if param_follows (array - 1) rest then num_loop rest Init (array - 1) ret else 0)
            else if hd0 p \<noteq> ch CHR '' '' then num_loop (tl p) Unquoted array ret
            else num_loop (tl p) Init array ret
        | Quoted \<Rightarrow>
            if hd0 p = ch CHR 0x22 then
              (let rest = skip_spaces (tl p) in
               if param_follows array rest then num_loop rest Init array ret else 0)
            else if hd0 p = ch CHR 0x5C \<and> hd0 (tl p) = ch CHR 0x22 then num_loop (tl (tl p)) Quoted array ret
            else num_loop (tl p) Quoted array ret
        | Unquoted \<Rightarrow>
            if hd0 p = ch CHR '','' \<or> hd0 p = ch CHR '']'' \<and> array \<noteq> 0 then num_loop p Init array ret
            else num_loop (tl p) Unquoted array ret))"
  by pat_completeness auto
termination
proof (relation "measure (\<lambda>(s, st, _). 2 * length s + (if st = Unquoted then 1 else 0))", goal_cases)
  case 1
  then show ?case by simp
qed (drule nonempty, force simp: shorter(3) simp flip: length_greater_0_conv)+

declare num_loop.simps [simp del]

definition num_param :: "u8 list option \<Rightarrow> nat" where
  "num_param p = (case p of None \<Rightarrow> 0 | Some s \<Rightarrow> num_loop s Init 0 1)"

text \<open>
  The parameter \<open>num\<close> (counted from 1) in a buffer of \<open>max_len\<close> bytes without the terminating zero;
  \<open>None\<close> is the return value 1. \<open>put\<close> is the macro \<^verbatim>\<open>ZBX_ASSIGN_PARAM\<close>.
\<close>

definition put :: "bool \<Rightarrow> u8 \<Rightarrow> nat \<Rightarrow> u8 list \<Rightarrow> (u8 list \<Rightarrow> 'a option) \<Rightarrow> 'a option" where
  "put wanted c max_len buf k =
    (if wanted then (if length buf = max_len then None else k (buf @ [c])) else k buf)"

lemma put_cong [fundef_cong]:
  "wanted = wanted' \<Longrightarrow> c = c' \<Longrightarrow> max_len = max_len' \<Longrightarrow> buf = buf' \<Longrightarrow>
   (\<And>b. b \<in> {buf', buf' @ [c']} \<Longrightarrow> k b = k' b) \<Longrightarrow> put wanted c max_len buf k = put wanted' c' max_len' buf' k'"
  by (simp add: put_def)

function get_loop :: "nat \<Rightarrow> nat \<Rightarrow> u8 list \<Rightarrow> pstate \<Rightarrow> nat \<Rightarrow> nat \<Rightarrow> u8 list \<Rightarrow> u8 list option" where
  "get_loop num max_len p st array idx buf =
    (if hd0 p = 0 \<or> idx > num then
       (if st = Quoted then None else if array \<noteq> 0 then None else if idx \<ge> num then Some buf else None)
     else
       (case st of
          Init \<Rightarrow>
            if hd0 p = ch CHR '','' then
              (if array = 0 then get_loop num max_len (tl p) Init array (idx + 1) buf
               else put (idx = num) (hd0 p) max_len buf (get_loop num max_len (tl p) Init array idx))
            else if hd0 p = ch CHR 0x22 then
              put (array \<noteq> 0 \<and> idx = num) (hd0 p) max_len buf (get_loop num max_len (tl p) Quoted array idx)
            else if hd0 p = ch CHR ''['' then
              put (array \<noteq> 0 \<and> idx = num) (hd0 p) max_len buf (get_loop num max_len (tl p) Init (array + 1) idx)
            else if hd0 p = ch CHR '']'' \<and> array \<noteq> 0 then
              put (array - 1 \<noteq> 0 \<and> idx = num) (hd0 p) max_len buf (\<lambda>buf.
                let rest = skip_spaces (tl p) in
                if param_follows (array - 1) rest then get_loop num max_len rest Init (array - 1) idx buf else None)
            else if hd0 p \<noteq> ch CHR '' '' then
              put (idx = num) (hd0 p) max_len buf (get_loop num max_len (tl p) Unquoted array idx)
            else get_loop num max_len (tl p) Init array idx buf
        | Quoted \<Rightarrow>
            if hd0 p = ch CHR 0x22 then
              put (array \<noteq> 0 \<and> idx = num) (hd0 p) max_len buf (\<lambda>buf.
                let rest = skip_spaces (tl p) in
                if param_follows array rest then get_loop num max_len rest Init array idx buf else None)
            else if hd0 p = ch CHR 0x5C \<and> hd0 (tl p) = ch CHR 0x22 \<and> array = 0 then
              put (idx = num) (hd0 (tl p)) max_len buf (get_loop num max_len (tl (tl p)) Quoted array idx)
            else put (idx = num) (hd0 p) max_len buf (get_loop num max_len (tl p) Quoted array idx)
        | Unquoted \<Rightarrow>
            if hd0 p = ch CHR '','' \<or> hd0 p = ch CHR '']'' \<and> array \<noteq> 0 then get_loop num max_len p Init array idx buf
            else put (idx = num) (hd0 p) max_len buf (get_loop num max_len (tl p) Unquoted array idx)))"
  by pat_completeness auto
termination
proof (relation "measure (\<lambda>(_, _, s, st, _). 2 * length s + (if st = Unquoted then 1 else 0))", goal_cases)
  case 1
  then show ?case by simp
qed (drule nonempty_guard, force simp: shorter(3) simp flip: length_greater_0_conv)+

declare get_loop.simps [simp del]

definition get_param :: "u8 list \<Rightarrow> nat \<Rightarrow> nat \<Rightarrow> u8 list option" where
  "get_param p num max_len = (if max_len = 0 then None else get_loop num (max_len - 1) p Init 0 1 [])"

text \<open>The length of the parameter \<open>num\<close>.\<close>

function len_loop :: "nat \<Rightarrow> u8 list \<Rightarrow> pstate \<Rightarrow> nat \<Rightarrow> nat \<Rightarrow> nat \<Rightarrow> nat option" where
  "len_loop num p st array idx sz =
    (if hd0 p = 0 \<or> idx > num then
       (if st = Quoted then None else if array \<noteq> 0 then None else if idx \<ge> num then Some sz else None)
     else
       (case st of
          Init \<Rightarrow>
            if hd0 p = ch CHR '','' then
              (if array = 0 then len_loop num (tl p) Init array (idx + 1) sz
               else len_loop num (tl p) Init array idx (if idx = num then sz + 1 else sz))
            else if hd0 p = ch CHR 0x22 then
              len_loop num (tl p) Quoted array idx (if array \<noteq> 0 \<and> idx = num then sz + 1 else sz)
            else if hd0 p = ch CHR ''['' then
              len_loop num (tl p) Init (array + 1) idx (if array \<noteq> 0 \<and> idx = num then sz + 1 else sz)
            else if hd0 p = ch CHR '']'' \<and> array \<noteq> 0 then
              (let rest = skip_spaces (tl p) in
               if param_follows (array - 1) rest
               then len_loop num rest Init (array - 1) idx (if array - 1 \<noteq> 0 \<and> idx = num then sz + 1 else sz) else None)
            else if hd0 p \<noteq> ch CHR '' '' then
              len_loop num (tl p) Unquoted array idx (if idx = num then sz + 1 else sz)
            else len_loop num (tl p) Init array idx sz
        | Quoted \<Rightarrow>
            if hd0 p = ch CHR 0x22 then
              (let rest = skip_spaces (tl p) in
               if param_follows array rest
               then len_loop num rest Init array idx (if array \<noteq> 0 \<and> idx = num then sz + 1 else sz) else None)
            else if hd0 p = ch CHR 0x5C \<and> hd0 (tl p) = ch CHR 0x22 \<and> array = 0 then
              len_loop num (tl (tl p)) Quoted array idx (if idx = num then sz + 1 else sz)
            else len_loop num (tl p) Quoted array idx (if idx = num then sz + 1 else sz)
        | Unquoted \<Rightarrow>
            if hd0 p = ch CHR '','' \<or> hd0 p = ch CHR '']'' \<and> array \<noteq> 0 then len_loop num p Init array idx sz
            else len_loop num (tl p) Unquoted array idx (if idx = num then sz + 1 else sz)))"
  by pat_completeness auto
termination
proof (relation "measure (\<lambda>(_, s, st, _). 2 * length s + (if st = Unquoted then 1 else 0))", goal_cases)
  case 1
  then show ?case by simp
qed (drule nonempty_guard, force simp: shorter(3) simp flip: length_greater_0_conv)+

declare len_loop.simps [simp del]

definition get_param_len :: "u8 list \<Rightarrow> nat \<Rightarrow> nat option" where
  "get_param_len p num = len_loop num p Init 0 1 0"

definition get_param_dyn :: "u8 list \<Rightarrow> nat \<Rightarrow> u8 list option" where
  "get_param_dyn p num =
    (case get_param_len p num of None \<Rightarrow> None | Some sz \<Rightarrow> get_param p num (sz + 1))"

text \<open>What is between the first \<^verbatim>\<open>[\<close> and the last \<^verbatim>\<open>]\<close> of a key.\<close>

definition key_inside :: "u8 list \<Rightarrow> u8 list option" where
  "key_inside param =
    (let pl = length (takeWhile (\<lambda>c. c \<noteq> ch CHR ''['') param);
         pr = length (dropWhile (\<lambda>c. c \<noteq> ch CHR '']'') (rev param)) in
     if pl = length param \<or> pr = 0 \<or> pl > pr - 1 then None else Some (take (pr - 1 - (pl + 1)) (drop (pl + 1) param)))"

definition get_key_param :: "u8 list \<Rightarrow> nat \<Rightarrow> nat \<Rightarrow> u8 list option" where
  "get_key_param param num max_len =
    (case key_inside param of None \<Rightarrow> None | Some p \<Rightarrow> get_param p num max_len)"

definition num_key_param :: "u8 list option \<Rightarrow> nat" where
  "num_key_param param =
    (case param of None \<Rightarrow> 0 | Some s \<Rightarrow> (case key_inside s of None \<Rightarrow> 0 | Some p \<Rightarrow> num_param (Some p)))"

subsection \<open>Written parameters\<close>

text \<open>
  A parameter is written plain, quoted with every quote escaped, or as a bracketed list, with spaces
  in front, and for the last two behind it. Inside brackets there are plain and quoted parameters without
  escapes and further lists; a bracketed list is taken out as it is written.
\<close>

definition spaces :: "nat \<Rightarrow> u8 list" where
  "spaces n = replicate n (ch CHR '' '')"

definition escape_quotes :: "u8 list \<Rightarrow> u8 list" where
  "escape_quotes s = concat (map (\<lambda>c. if c = ch CHR 0x22 then [ch CHR 0x5C, ch CHR 0x22] else [c]) s)"

definition plain_text :: "u8 list \<Rightarrow> bool" where
  "plain_text s \<longleftrightarrow> s = [] \<or> hd s \<notin> {ch CHR '' '', ch CHR 0x22, ch CHR ''[''} \<and> set s \<inter> {0, ch CHR '','', ch CHR '']''} = {}"

inductive list_body :: "u8 list \<Rightarrow> bool" and list_item :: "u8 list \<Rightarrow> bool" where
  body_one: "list_item t \<Longrightarrow> list_body t"
| body_more: "list_item t \<Longrightarrow> list_body b \<Longrightarrow> list_body (t @ ch CHR '','' # b)"
| item_plain: "plain_text s \<Longrightarrow> list_item s"
| item_quoted: "set s \<inter> {0, ch CHR 0x22, ch CHR 0x5C} = {} \<Longrightarrow> list_item (ch CHR 0x22 # s @ [ch CHR 0x22])"
| item_list: "list_body b \<Longrightarrow> list_item (ch CHR ''['' # b @ [ch CHR '']''])"

datatype wparam = Plain nat "u8 list" | Quote nat "u8 list" nat | List nat "u8 list" nat

fun wparam_ok :: "wparam \<Rightarrow> bool" where
  "wparam_ok (Plain n s) = plain_text s"
| "wparam_ok (Quote n s m) = (0 \<notin> set s \<and> (s \<noteq> [] \<longrightarrow> last s \<noteq> ch CHR 0x5C))"
| "wparam_ok (List n b m) = list_body b"

fun wparam_text :: "wparam \<Rightarrow> u8 list" where
  "wparam_text (Plain n s) = spaces n @ s"
| "wparam_text (Quote n s m) = spaces n @ ch CHR 0x22 # escape_quotes s @ ch CHR 0x22 # spaces m"
| "wparam_text (List n b m) = spaces n @ ch CHR ''['' # b @ ch CHR '']'' # spaces m"

fun wparam_value :: "wparam \<Rightarrow> u8 list" where
  "wparam_value (Plain n s) = s"
| "wparam_value (Quote n s m) = s"
| "wparam_value (List n b m) = b"

fun wparams_text :: "wparam list \<Rightarrow> u8 list" where
  "wparams_text [] = []"
| "wparams_text [w] = wparam_text w"
| "wparams_text (w # v # ws) = wparam_text w @ ch CHR '','' # wparams_text (v # ws)"

definition emits :: "(u8 \<Rightarrow> 'a \<Rightarrow> 'a) \<Rightarrow> u8 list \<Rightarrow> 'a \<Rightarrow> 'a" where
  "emits emit xs = foldr emit xs"

lemma emits_simps [simp]: "emits emit [] a = a" "emits emit (x # xs) a = emit x (emits emit xs a)"
  "emits emit (xs @ ys) a = emits emit xs (emits emit ys a)"
  by (simp_all add: emits_def)

text \<open>
  The contract the automata share: what they do on one character in each state, where \<open>emit\<close> is what
  happens to a character that belongs to the value of the parameter, and \<open>stop\<close> tells whether the
  parameter may end here.
\<close>

locale param_scanner =
  fixes scan :: "u8 list \<Rightarrow> pstate \<Rightarrow> nat \<Rightarrow> 'a" and emit :: "u8 \<Rightarrow> 'a \<Rightarrow> 'a" and stop :: "u8 list \<Rightarrow> bool"
  assumes stop_char: "stop r \<Longrightarrow> hd0 r \<in> {0, 44, 93}"
    and scan_space: "scan (32 # r) Init k = scan r Init k"
    and scan_quote: "scan (34 # r) Init k = (if k = 0 then scan r Quoted k else emit 34 (scan r Quoted k))"
    and scan_quoted: "c \<notin> {0, 34, 92} \<Longrightarrow> scan (c # r) Quoted k = emit c (scan r Quoted k)"
    and scan_backslash: "hd0 r \<noteq> 34 \<Longrightarrow> scan (92 # r) Quoted k = emit 92 (scan r Quoted k)"
    and scan_escaped: "scan (92 # 34 # r) Quoted 0 = emit 34 (scan r Quoted 0)"
    and scan_unquote0: "stop r \<Longrightarrow> scan (34 # spaces n @ r) Quoted 0 = scan r Init 0"
    and scan_unquote: "hd0 r \<in> {44, 93} \<Longrightarrow> scan (34 # r) Quoted (Suc k) = emit 34 (scan r Init (Suc k))"
    and scan_open: "scan (91 # r) Init k = (if k = 0 then scan r Init (Suc k) else emit 91 (scan r Init (Suc k)))"
    and scan_close0: "stop r \<Longrightarrow> scan (93 # spaces n @ r) Init (Suc 0) = scan r Init 0"
    and scan_close: "hd0 r \<in> {44, 93} \<Longrightarrow> scan (93 # r) Init (Suc (Suc k)) = emit 93 (scan r Init (Suc k))"
    and scan_comma: "scan (44 # r) Init (Suc k) = emit 44 (scan r Init (Suc k))"
    and scan_plain: "c \<notin> {0, 32, 34, 44, 91, 93} \<Longrightarrow> scan (c # r) Init k = emit c (scan r Unquoted k)"
    and scan_unquoted: "c \<notin> {0, 44, 93} \<Longrightarrow> scan (c # r) Unquoted k = emit c (scan r Unquoted k)"
    and scan_plain_end0: "stop r \<Longrightarrow> scan r Unquoted 0 = scan r Init 0"
    and scan_plain_end: "hd0 r \<in> {44, 93} \<Longrightarrow> scan r Unquoted (Suc k) = scan r Init (Suc k)"
begin

lemma scan_spaces: "scan (spaces n @ r) Init k = scan r Init k"
  by (induction n) (simp_all add: spaces_def scan_space)

lemma scan_quoted_list: "set s \<inter> {0, 34, 92} = {} \<Longrightarrow> scan (s @ r) Quoted k = emits emit s (scan r Quoted k)"
  by (induction s) (simp_all add: scan_quoted)

lemma scan_unquoted_list: "set s \<inter> {0, 44, 93} = {} \<Longrightarrow> scan (s @ r) Unquoted k = emits emit s (scan r Unquoted k)"
  by (induction s) (simp_all add: scan_unquoted)

lemma scan_plain_text:
  assumes "plain_text s" "scan r Unquoted k = scan r Init k"
  shows "scan (s @ r) Init k = emits emit s (scan r Init k)"
proof (cases s)
  case (Cons c t)
  then have "c \<notin> {0, 32, 34, 44, 91, 93}" "set t \<inter> {0, 44, 93} = {}" using assms(1) by (auto simp: plain_text_def)
  with Cons assms(2) show ?thesis by (simp add: scan_plain scan_unquoted_list)
qed simp

lemma scan_list:
  "list_body b \<Longrightarrow> hd0 r = 93 \<Longrightarrow> scan (b @ r) Init (Suc k) = emits emit b (scan r Init (Suc k))"
  "list_item t \<Longrightarrow> hd0 r \<in> {44, 93} \<Longrightarrow> scan (t @ r) Init (Suc k) = emits emit t (scan r Init (Suc k))"
proof (induction arbitrary: k r and k r rule: list_body_list_item.inducts)
  case (item_plain s)
  then show ?case by (intro scan_plain_text scan_plain_end)
next
  case (item_quoted s)
  then show ?case by (simp add: scan_quote scan_quoted_list scan_unquote)
qed (simp_all add: scan_comma scan_open scan_close)

lemma scan_escape_quotes:
  "0 \<notin> set s \<Longrightarrow> (s \<noteq> [] \<longrightarrow> last s \<noteq> 92) \<Longrightarrow> scan (escape_quotes s @ 34 # r) Quoted 0 = emits emit s (scan (34 # r) Quoted 0)"
proof (induction s)
  case (Cons c s)
  have IH: "scan (escape_quotes s @ 34 # r) Quoted 0 = emits emit s (scan (34 # r) Quoted 0)"
    using Cons by (auto split: if_splits)
  consider "c = 34" | "c = 92" | "c \<notin> {0, 34, 92}" using Cons.prems(1) by auto
  then show ?case
  proof cases
    case 2
    then obtain d s' where "s = d # s'" using Cons.prems(2) by (cases s) auto
    then have "hd0 (escape_quotes s @ 34 # r) \<noteq> 34" by (simp add: escape_quotes_def)
    with 2 IH show ?thesis by (simp add: escape_quotes_def scan_backslash)
  qed (use IH in \<open>simp_all add: escape_quotes_def scan_escaped scan_quoted\<close>)
qed (simp add: escape_quotes_def)

lemma scan_wparam:
  assumes "wparam_ok w" "stop r"
  shows "scan (wparam_text w @ r) Init 0 = emits emit (wparam_value w) (scan r Init 0)"
proof (cases w)
  case (Plain n s)
  with assms show ?thesis by (simp add: scan_spaces scan_plain_text scan_plain_end0)
next
  case (Quote n s m)
  with assms show ?thesis by (simp add: scan_spaces scan_quote scan_escape_quotes scan_unquote0)
next
  case (List n b m)
  with assms show ?thesis by (simp add: scan_spaces scan_open scan_list(1) scan_close0)
qed

end

lemma skip_spaces_spaces: "hd0 r \<noteq> 32 \<Longrightarrow> skip_spaces (spaces n @ r) = r"
  by (induction n) (cases r; simp add: skip_spaces_def spaces_def)+

lemma skip_spaces_id: "hd0 r \<in> {0, 44, 93} \<Longrightarrow> skip_spaces r = r"
  using skip_spaces_spaces [of r 0] by (auto simp: spaces_def)

lemma hd0_stop: "hd0 r \<in> {0, 44, 93} \<Longrightarrow> hd0 r \<noteq> 32"
  by auto

interpretation num_scan: param_scanner "\<lambda>p st k. num_loop p st k ret" "\<lambda>c a. a" "\<lambda>r. hd0 r \<in> {0, 44}"
proof unfold_locales
  show "num_loop (34 # spaces n @ r) Quoted 0 ret = num_loop r Init 0 ret" if "hd0 r \<in> {0, 44}" for r n
    using that skip_spaces_spaces [of r n] by (auto simp: num_loop.simps [of "34 # _"] param_follows_def Let_def)
  show "num_loop (93 # spaces n @ r) Init (Suc 0) ret = num_loop r Init 0 ret" if "hd0 r \<in> {0, 44}" for r n
    using that skip_spaces_spaces [of r n] by (auto simp: num_loop.simps [of "93 # _"] param_follows_def Let_def)
  show "num_loop r Unquoted 0 ret = num_loop r Init 0 ret" if "hd0 r \<in> {0, 44}" for r
    using that by (auto simp: num_loop.simps [of r])
  show "num_loop r Unquoted (Suc k) ret = num_loop r Init (Suc k) ret" if "hd0 r \<in> {44, 93}" for r k
    using that by (auto simp: num_loop.simps [of r Unquoted])
qed (auto simp: num_loop.simps [of "_ # _"] param_follows_def Let_def skip_spaces_id)

interpretation key_scan: param_scanner key_loop "\<lambda>c a. a" "\<lambda>r. hd0 r = 44 \<or> hd0 r = 93 \<and> hd0 (tl r) \<noteq> 91"
proof unfold_locales
  let ?stop = "\<lambda>r. hd0 r = 44 \<or> hd0 r = 93 \<and> hd0 (tl r) \<noteq> 91"
  have close: "key_loop r Init 0 = Inr r" if "hd0 r = 93" "hd0 (tl r) \<noteq> 91" for r
    using that by (simp add: key_loop.simps [of r])
  show "key_loop (34 # spaces n @ r) Quoted 0 = key_loop r Init 0" if "?stop r" for r n
    using that skip_spaces_spaces [of r n] close [of r] by (auto simp: key_loop.simps [of "34 # _"] Let_def)
  show "key_loop (93 # spaces n @ r) Init (Suc 0) = key_loop r Init 0" if "?stop r" for r n
    using that skip_spaces_spaces [of r n] close [of r] by (auto simp: key_loop.simps [of "93 # _"] Let_def)
  show "key_loop r Unquoted 0 = key_loop r Init 0" if "?stop r" for r
    using that close [of r] by (auto simp: key_loop.simps [of r Unquoted])
  show "key_loop r Unquoted (Suc k) = key_loop r Init (Suc k)" if "hd0 r \<in> {44, 93}" for r k
    using that by (auto simp: key_loop.simps [of r Unquoted])
qed (auto simp: key_loop.simps [of "_ # _"] Let_def skip_spaces_id)

interpretation get_scan: param_scanner "\<lambda>p st k buf. get_loop (idx + d) max_len p st k idx buf"
  "\<lambda>c a buf. put (d = 0) c max_len buf a" "\<lambda>r. hd0 r \<in> {0, 44}"
proof unfold_locales
  show "(\<lambda>buf. get_loop (idx + d) max_len (34 # spaces n @ r) Quoted 0 idx buf) =
      (\<lambda>buf. get_loop (idx + d) max_len r Init 0 idx buf)" if "hd0 r \<in> {0, 44}" for r n
    using that skip_spaces_spaces [of r n]
    by (intro ext) (auto simp: get_loop.simps [of _ _ "34 # _"] param_follows_def Let_def put_def)
  show "(\<lambda>buf. get_loop (idx + d) max_len (93 # spaces n @ r) Init (Suc 0) idx buf) =
      (\<lambda>buf. get_loop (idx + d) max_len r Init 0 idx buf)" if "hd0 r \<in> {0, 44}" for r n
    using that skip_spaces_spaces [of r n]
    by (intro ext) (auto simp: get_loop.simps [of _ _ "93 # _"] param_follows_def Let_def put_def)
  show "(\<lambda>buf. get_loop (idx + d) max_len r Unquoted 0 idx buf) = (\<lambda>buf. get_loop (idx + d) max_len r Init 0 idx buf)"
    if "hd0 r \<in> {0, 44}" for r
    using that by (intro ext) (auto simp: get_loop.simps [of _ _ r])
  show "(\<lambda>buf. get_loop (idx + d) max_len r Unquoted (Suc k) idx buf) =
      (\<lambda>buf. get_loop (idx + d) max_len r Init (Suc k) idx buf)" if "hd0 r \<in> {44, 93}" for r k
    using that by (intro ext) (auto simp: get_loop.simps [of _ _ r Unquoted])
qed (auto simp: fun_eq_iff get_loop.simps [of _ _ "_ # _"] param_follows_def Let_def skip_spaces_id put_def)

interpretation len_scan: param_scanner "\<lambda>p st k sz. len_loop (idx + d) p st k idx sz"
  "\<lambda>c a sz. a (if d = 0 then Suc sz else sz)" "\<lambda>r. hd0 r \<in> {0, 44}"
proof unfold_locales
  show "(\<lambda>sz. len_loop (idx + d) (34 # spaces n @ r) Quoted 0 idx sz) = (\<lambda>sz. len_loop (idx + d) r Init 0 idx sz)"
    if "hd0 r \<in> {0, 44}" for r n
    using that skip_spaces_spaces [of r n]
    by (intro ext) (auto simp: len_loop.simps [of _ "34 # _"] param_follows_def Let_def)
  show "(\<lambda>sz. len_loop (idx + d) (93 # spaces n @ r) Init (Suc 0) idx sz) = (\<lambda>sz. len_loop (idx + d) r Init 0 idx sz)"
    if "hd0 r \<in> {0, 44}" for r n
    using that skip_spaces_spaces [of r n]
    by (intro ext) (auto simp: len_loop.simps [of _ "93 # _"] param_follows_def Let_def)
  show "(\<lambda>sz. len_loop (idx + d) r Unquoted 0 idx sz) = (\<lambda>sz. len_loop (idx + d) r Init 0 idx sz)"
    if "hd0 r \<in> {0, 44}" for r
    using that by (intro ext) (auto simp: len_loop.simps [of _ r])
  show "(\<lambda>sz. len_loop (idx + d) r Unquoted (Suc k) idx sz) = (\<lambda>sz. len_loop (idx + d) r Init (Suc k) idx sz)"
    if "hd0 r \<in> {44, 93}" for r k
    using that by (intro ext) (auto simp: len_loop.simps [of _ r Unquoted])
qed (auto simp: fun_eq_iff len_loop.simps [of _ "_ # _"] param_follows_def Let_def skip_spaces_id)

lemma num_emits [simp]: "emits (\<lambda>c a. a) xs a = a"
  by (induction xs) simp_all

lemma get_emits:
  assumes "length buf \<le> max_len"
  shows "emits (\<lambda>c a buf. put (d = 0) c max_len buf a) xs a buf =
    (if d = (0 :: nat) then if length buf + length xs \<le> max_len then a (buf @ xs) else None else a buf)"
proof -
  define f :: "u8 \<Rightarrow> (u8 list \<Rightarrow> 'a option) \<Rightarrow> u8 list \<Rightarrow> 'a option" where
    "f = (\<lambda>c a buf. put (d = 0) c max_len buf a)"
  have step: "f c a b = (if d = 0 then if length b = max_len then None else a (b @ [c]) else a b)" for c a b
    by (simp add: f_def put_def)
  have "emits f xs a buf = (if d = 0 then if length buf + length xs \<le> max_len then a (buf @ xs) else None else a buf)"
    using assms by (induction xs arbitrary: buf) (auto simp: step)
  then show ?thesis by (simp only: f_def)
qed

lemma len_emits:
  "emits (\<lambda>c a sz. a (if d = (0 :: nat) then Suc sz else sz)) xs a sz = a (if d = 0 then sz + length xs else sz)"
  by (induction xs arbitrary: sz) simp_all

lemma num_wparams:
  "list_all wparam_ok ws \<Longrightarrow> ws \<noteq> [] \<Longrightarrow> num_loop (wparams_text ws) Init 0 ret = ret + length ws - 1"
proof (induction ws arbitrary: ret rule: wparams_text.induct)
  case (2 w)
  then show ?case using num_scan.scan_wparam [of w "[]" ret] by (simp add: num_loop.simps [of "[]"])
next
  case (3 w v ws)
  then show ?case using num_scan.scan_wparam [of w "44 # wparams_text (v # ws)" ret]
    by (simp add: num_loop.simps [of "44 # _"])
qed simp

lemma key_wparams:
  "list_all wparam_ok ws \<Longrightarrow> hd0 rest \<noteq> 91 \<Longrightarrow> key_loop (wparams_text ws @ 93 # rest) Init 0 = Inr (93 # rest)"
proof (induction ws rule: wparams_text.induct)
  case 1
  then show ?case by (simp add: key_loop.simps [of "93 # _"])
next
  case (2 w)
  then show ?case using key_scan.scan_wparam [of w "93 # rest"] by (simp add: key_loop.simps [of "93 # _"])
next
  case (3 w v ws)
  then show ?case using key_scan.scan_wparam [of w "44 # wparams_text (v # ws) @ 93 # rest"]
    by (simp add: key_loop.simps [of "44 # _"])
qed

lemma get_wparams:
  "list_all wparam_ok ws \<Longrightarrow> ws \<noteq> [] \<Longrightarrow> get_loop (idx + d) max_len (wparams_text ws) Init 0 idx [] =
    (if d < length ws \<and> length (wparam_value (ws ! d)) \<le> max_len then Some (wparam_value (ws ! d)) else None)"
proof (induction ws arbitrary: idx d rule: wparams_text.induct)
  case (2 w)
  then show ?case using fun_cong [OF get_scan.scan_wparam [of w "[]" idx d max_len], of "[]"]
    by (auto simp: get_loop.simps [of _ _ "[]"] get_emits)
next
  case (3 w v ws)
  let ?r = "wparams_text (v # ws)"
  have s: "get_loop (idx + d) max_len (wparams_text (w # v # ws)) Init 0 idx [] =
      (if d = 0 then if length (wparam_value w) \<le> max_len then get_loop (idx + d) max_len (44 # ?r) Init 0 idx (wparam_value w)
         else None else get_loop (idx + d) max_len (44 # ?r) Init 0 idx [])"
    using fun_cong [OF get_scan.scan_wparam [of w "44 # ?r" idx d max_len], of "[]"] 3 by (simp add: get_emits)
  show ?case
  proof (cases d)
    case 0
    then show ?thesis unfolding s by (simp add: get_loop.simps [of _ _ "44 # _"] get_loop.simps [of _ _ _ _ _ "Suc idx"])
  next
    case (Suc d')
    have "get_loop (idx + d) max_len (44 # ?r) Init 0 idx [] = get_loop (Suc idx + d') max_len ?r Init 0 (Suc idx) []"
      using Suc by (simp add: get_loop.simps [of _ _ "44 # _"])
    with "3.IH" [of "Suc idx" d'] "3.prems"(1) Suc show ?thesis unfolding s by simp
  qed
qed simp

lemma len_wparams:
  "list_all wparam_ok ws \<Longrightarrow> ws \<noteq> [] \<Longrightarrow> len_loop (idx + d) (wparams_text ws) Init 0 idx 0 =
    (if d < length ws then Some (length (wparam_value (ws ! d))) else None)"
proof (induction ws arbitrary: idx d rule: wparams_text.induct)
  case (2 w)
  then show ?case using fun_cong [OF len_scan.scan_wparam [of w "[]" idx d], of 0]
    by (auto simp: len_loop.simps [of _ "[]"] len_emits)
next
  case (3 w v ws)
  let ?r = "wparams_text (v # ws)"
  have s: "len_loop (idx + d) (wparams_text (w # v # ws)) Init 0 idx 0 =
      len_loop (idx + d) (44 # ?r) Init 0 idx (if d = 0 then length (wparam_value w) else 0)"
    using fun_cong [OF len_scan.scan_wparam [of w "44 # ?r" idx d], of 0] 3 by (simp add: len_emits)
  show ?case
  proof (cases d)
    case 0
    then show ?thesis unfolding s by (simp add: len_loop.simps [of _ "44 # _"] len_loop.simps [of _ _ _ _ "Suc idx"])
  next
    case (Suc d')
    have "len_loop (idx + d) (44 # ?r) Init 0 idx 0 = len_loop (Suc idx + d') ?r Init 0 (Suc idx) 0"
      using Suc by (simp add: len_loop.simps [of _ "44 # _"])
    with "3.IH" [of "Suc idx" d'] "3.prems"(1) Suc show ?thesis unfolding s by simp
  qed
qed simp

lemma takeWhile_dropWhile_stop:
  assumes "\<forall>c \<in> set a. P c" "\<not> P b"
  shows "takeWhile P (a @ b # r) = a" "dropWhile P (a @ b # r) = b # r"
  using assms by (simp_all add: takeWhile_append dropWhile_append)

lemma key_char_bracket: "is_key_char 91 = Fail"
  by (simp add: is_key_char_def isalnum_def isdigit_def)

subsection \<open>The length and the copy of a parameter agree\<close>

definition agrees :: "nat \<Rightarrow> u8 list \<Rightarrow> u8 list option \<Rightarrow> nat option \<Rightarrow> bool" where
  "agrees max_len buf g l \<longleftrightarrow>
    (case l of None \<Rightarrow> g = None
     | Some sz \<Rightarrow> length buf \<le> sz \<and> (if sz \<le> max_len then \<exists>b. g = Some b \<and> length b = sz else g = None))"

lemma agrees_None [simp]: "agrees max_len buf None None"
  by (simp add: agrees_def)

lemma put_False [simp]: "put False c max_len buf k = k buf"
  by (simp add: put_def)

lemma agrees_put:
  assumes "length buf \<le> max_len" "\<And>b. length b \<le> max_len \<Longrightarrow> agrees max_len b (k b) (l (length b))"
    "\<And>sz. l (Suc (length buf)) = Some sz \<Longrightarrow> Suc (length buf) \<le> sz"
  shows "agrees max_len buf (put True c max_len buf k) (l (Suc (length buf)))"
  using assms(1,3) assms(2) [of "buf @ [c]"] by (auto simp: put_def agrees_def split: option.splits if_splits)

abbreviation (input) loop_size :: "u8 list \<Rightarrow> pstate \<Rightarrow> nat" where
  "loop_size s st \<equiv> 2 * length s + (if st = Unquoted then 1 else 0)"

lemma len_loop_step:
  assumes "len_loop num p st array idx sz = Some sz'" "sz' = sz \<Longrightarrow> P"
    "\<And>p1 st1 array1 idx1 sz1. len_loop num p1 st1 array1 idx1 sz1 = Some sz' \<Longrightarrow>
      loop_size p1 st1 < loop_size p st \<Longrightarrow> sz \<le> sz1 \<Longrightarrow> P"
  shows P
proof (cases "hd0 p = 0 \<or> idx > num")
  case True
  with assms(1,2) show ?thesis by (simp add: len_loop.simps [of num p] split: if_splits)
next
  case False
  then have p: "p \<noteq> []" by auto
  then have less: "length (tl p) < length p" "length (tl (tl p)) < length p" "length (skip_spaces (tl p)) < length p"
    by (rule shorter)+
  have m: "loop_size (tl p) s1 < loop_size p st" "loop_size (tl (tl p)) s1 < loop_size p st"
    "loop_size (skip_spaces (tl p)) s1 < loop_size p st" for s1
    using less by auto
  have u: "loop_size p Init < loop_size p st" if "st = Unquoted" using that by simp
  show ?thesis
    using assms(1) False
    by (subst (asm) len_loop.simps, cases st)
      (auto simp: Let_def split: if_split_asm intro: assms(3) [OF _ m(1)] assms(3) [OF _ m(2)] assms(3) [OF _ m(3)]
        assms(3) [OF _ u])
qed

lemma len_loop_mono: "len_loop num p st array idx sz = Some sz' \<Longrightarrow> sz \<le> sz'"
proof (induction "loop_size p st" arbitrary: p st array idx sz rule: less_induct)
  case less
  show ?case
  proof (rule len_loop_step [OF less.prems])
    fix p1 st1 array1 idx1 sz1
    assume "len_loop num p1 st1 array1 idx1 sz1 = Some sz'" "loop_size p1 st1 < loop_size p st" "sz \<le> sz1"
    with less.hyps show "sz \<le> sz'" by (meson le_trans)
  qed simp
qed

lemma get_len_agree:
  "length buf \<le> max_len \<Longrightarrow>
   agrees max_len buf (get_loop num max_len p st array idx buf) (len_loop num p st array idx (length buf))"
proof (induction "loop_size p st" arbitrary: p st array idx buf rule: less_induct)
  case less
  show ?case
  proof (cases "hd0 p = 0 \<or> idx > num")
    case True
    with less.prems show ?thesis by (auto simp: get_loop.simps [of num _ p] len_loop.simps [of num p] agrees_def)
  next
    case False
    then have p: "p \<noteq> []" by auto
    then have "length (tl p) < length p" "length (tl (tl p)) < length p" "length (skip_spaces (tl p)) < length p"
      by (rule shorter)+
    then have m: "loop_size (tl p) s1 < loop_size p st" "loop_size (tl (tl p)) s1 < loop_size p st"
      "loop_size (skip_spaces (tl p)) s1 < loop_size p st" for s1
      by auto
    have keep: "agrees max_len buf (get_loop num max_len p1 st1 a1 i1 buf) (len_loop num p1 st1 a1 i1 (length buf))"
      if "loop_size p1 st1 < loop_size p st" for p1 st1 a1 i1 using less that by blast
    have add: "agrees max_len buf (put True c max_len buf (get_loop num max_len p1 st1 a1 i1))
        (len_loop num p1 st1 a1 i1 (Suc (length buf)))" if "loop_size p1 st1 < loop_size p st" for c p1 st1 a1 i1
      using less that len_loop_mono by (intro agrees_put) blast+
    have none: "agrees max_len buf (put True c max_len buf (\<lambda>b. None)) None" for c
      by (simp add: put_def)
    show ?thesis
      using False keep [OF m(1)] keep [OF m(2)] keep [OF m(3)] add [OF m(1)] add [OF m(2)] add [OF m(3)] none
      by (cases st) (simp_all add: get_loop.simps [of num _ p] len_loop.simps [of num p] Let_def keep)
  qed
qed

text \<open>A larger buffer does not change what is copied.\<close>

lemma put_larger:
  "put w c m buf k = Some b \<Longrightarrow> length buf \<le> m \<Longrightarrow> m \<le> m' \<Longrightarrow>
   (\<And>b1. length b1 \<le> m \<Longrightarrow> k b1 = Some b \<Longrightarrow> k' b1 = Some b) \<Longrightarrow> put w c m' buf k' = Some b"
  by (auto simp: put_def split: if_splits)

lemma get_loop_max:
  "get_loop num m p st array idx buf = Some b \<Longrightarrow> length buf \<le> m \<Longrightarrow> m \<le> m' \<Longrightarrow> get_loop num m' p st array idx buf = Some b"
proof (induction "loop_size p st" arbitrary: p st array idx buf rule: less_induct)
  case less
  show ?case
  proof (cases "hd0 p = 0 \<or> idx > num")
    case True
    with less.prems(1) show ?thesis by (simp add: get_loop.simps [of num _ p])
  next
    case False
    then have p: "p \<noteq> []" by auto
    then have "length (tl p) < length p" "length (tl (tl p)) < length p" "length (skip_spaces (tl p)) < length p"
      by (rule shorter)+
    then have m: "loop_size (tl p) s1 < loop_size p st" "loop_size (tl (tl p)) s1 < loop_size p st"
      "loop_size (skip_spaces (tl p)) s1 < loop_size p st" for s1
      by auto
    have u: "loop_size p Init < loop_size p st" if "st = Unquoted" using that by simp
    have keep: "get_loop num m' p1 st1 a1 i1 buf1 = Some b"
      if "get_loop num m p1 st1 a1 i1 buf1 = Some b" "loop_size p1 st1 < loop_size p st" "length buf1 \<le> m"
      for p1 st1 a1 i1 buf1 using less.hyps [OF that(2) that(1) that(3) less.prems(3)] .
    note put_max = put_larger [OF _ less.prems(2,3)]
    show ?thesis
      using less.prems(1) False
      by (subst (asm) get_loop.simps, subst get_loop.simps, cases st)
        (auto simp: Let_def less.prems(2) split: if_split_asm elim!: put_max
          intro: keep [OF _ m(1)] keep [OF _ m(2)] keep [OF _ m(3)] keep [OF _ u])
  qed
qed

subsection \<open>Properties\<close>

text \<open>C35. Item keys round trip: when a key with a list of plain, quoted and bracketed parameters is written
  out, the parser finds exactly the end of the key, the number of parameters between the brackets is the length
  of the list, each of them is taken out with its value, and asking for one more fails.\<close>

theorem key_params_roundtrip:
  assumes "\<forall>c \<in> set name. is_key_char c = Succeed" "list_all wparam_ok ws" "ws \<noteq> []" "hd0 rest \<noteq> 91"
  shows "parse_key (name @ 91 # wparams_text ws @ 93 # rest) = (Succeed, Some (name @ 91 # wparams_text ws @ [93]), rest) \<and>
    num_param (Some (wparams_text ws)) = length ws \<and>
    (\<forall>i. get_param_dyn (wparams_text ws) (Suc i) = (if i < length ws then Some (wparam_value (ws ! i)) else None))"
proof -
  let ?t = "name @ 91 # wparams_text ws @ 93 # rest"
  have pre: "takeWhile (\<lambda>c. is_key_char c = Succeed) ?t = name"
    "dropWhile (\<lambda>c. is_key_char c = Succeed) ?t = 91 # wparams_text ws @ 93 # rest"
    using assms(1) takeWhile_dropWhile_stop [of name "\<lambda>c. is_key_char c = Succeed" 91] key_char_bracket by simp_all
  have "parse_key ?t = (Succeed, Some (name @ 91 # wparams_text ws @ [93]), rest)"
    unfolding parse_key_def Let_def pre using key_wparams [OF assms(2,4)] by simp
  moreover have "num_param (Some (wparams_text ws)) = length ws"
    using num_wparams [OF assms(2,3), of 1] by (simp add: num_param_def)
  moreover have "get_param_dyn (wparams_text ws) (Suc i) = (if i < length ws then Some (wparam_value (ws ! i)) else None)" for i
    using len_wparams [OF assms(2,3), of 1 i] get_wparams [OF assms(2,3), of 1 i]
    by (simp add: get_param_dyn_def get_param_len_def get_param_def)
  ultimately show ?thesis by blast
qed

definition example_params :: "wparam list" where
  "example_params = [Plain 1 [47, 104], Quote 0 [97, 34, 44] 1, List 0 [97, 44, 98] 0]"

lemma key_params_roundtrip_witness:
  "parse_key [107, 91, 32, 47, 104, 44, 34, 97, 92, 34, 44, 34, 32, 44, 91, 97, 44, 98, 93, 93, 46] =
     (Succeed, Some [107, 91, 32, 47, 104, 44, 34, 97, 92, 34, 44, 34, 32, 44, 91, 97, 44, 98, 93, 93], [46]) \<and>
   get_param_dyn [32, 47, 104, 44, 34, 97, 92, 34, 44, 34, 32, 44, 91, 97, 44, 98, 93] 2 = Some [97, 34, 44]"
proof -
  have "list_body [97, 44, 98]"
    using body_more [OF item_plain body_one [OF item_plain], of "[97]" "[98]"] by (simp add: plain_text_def)
  then have ok: "list_all wparam_ok example_params" by (simp add: example_params_def plain_text_def)
  have t: "wparams_text example_params = [32, 47, 104, 44, 34, 97, 92, 34, 44, 34, 32, 44, 91, 97, 44, 98, 93]"
    by (simp add: example_params_def spaces_def escape_quotes_def)
  have n: "\<forall>c \<in> set [107]. is_key_char c = Succeed" by (simp add: is_key_char_def isalnum_def)
  have "get_param_dyn (wparams_text example_params) (Suc 1) = Some [97, 34, 44]"
    using key_params_roundtrip [OF n ok, of "[46]"] by (simp add: example_params_def)
  with key_params_roundtrip [OF n ok, of "[46]"] show ?thesis
    unfolding t Suc_1 by (simp add: example_params_def)
qed

text \<open>C36. The two passes over a parameter list agree on every text, correct or not: the one that measures a
  parameter fails exactly when the one that copies it fails for every size of the buffer, and otherwise copying
  succeeds exactly in buffers with room for the measured length and the terminating zero, always with the same
  characters. So taking out a parameter into allocated memory neither overflows nor fails for lack of room.\<close>

theorem get_param_measured:
  "get_param p num max_len = (case get_param_len p num of None \<Rightarrow> None
     | Some sz \<Rightarrow> if sz < max_len then get_param_dyn p num else None) \<and>
   (\<forall>sz. get_param_len p num = Some sz \<longrightarrow> (\<exists>b. get_param_dyn p num = Some b \<and> length b = sz))"
proof -
  have a: "agrees m [] (get_loop num m p Init 0 1 []) (get_param_len p num)" for m
    using get_len_agree [of "[]" m num p Init 0 1] by (simp add: get_param_len_def)
  show ?thesis
  proof (cases "get_param_len p num")
    case None
    then show ?thesis using a by (simp add: agrees_def get_param_def)
  next
    case (Some sz)
    then obtain b where b: "get_loop num sz p Init 0 1 [] = Some b" "length b = sz"
      using a [of sz] by (auto simp: agrees_def)
    have dyn: "get_param_dyn p num = Some b" using Some b by (simp add: get_param_dyn_def get_param_def)
    have "get_param p num max_len = (if sz < max_len then Some b else None)"
    proof (cases "sz < max_len")
      case True
      then show ?thesis using get_loop_max [OF b(1), of "max_len - 1"] by (simp add: get_param_def)
    next
      case False
      then show ?thesis using a [of "max_len - 1"] Some by (auto simp: get_param_def agrees_def)
    qed
    with Some dyn b show ?thesis by simp
  qed
qed

lemma get_param_measured_witness:
  "get_param [97, 44, 98, 99] 2 2 = None \<and> get_param_dyn [97, 44, 98, 99] 2 = Some [98, 99]"
proof -
  have l: "get_param_len [97, 44, 98, 99] 2 = Some 2" by code_simp
  moreover have "get_param_dyn [97, 44, 98, 99] 2 = Some [98, 99]" by code_simp
  ultimately show ?thesis using get_param_measured [of "[97, 44, 98, 99]" 2 2] by simp
qed

text \<open>
  Inside brackets the automaton that counts and the one that finds the end of a key skip an escaped quote, but
  those that measure and copy a parameter take it for the end of the quoted text: the key
  \<^verbatim>\<open>k[["a\"b"]]\<close> is accepted, with one parameter, which cannot be taken out.
\<close>

lemma escaped_quote_in_list:
  "fst (parse_key [107, 91, 91, 34, 97, 92, 34, 98, 34, 93, 93]) = Succeed"
  "num_param (Some [91, 34, 97, 92, 34, 98, 34, 93]) = 1"
  "get_param_dyn [91, 34, 97, 92, 34, 98, 34, 93] 1 = None"
  by code_simp+

end
