(* ===== verification/ValueCache.thy ===== *)
theory ValueCache
  imports Prelude Vector "HOL-Library.Monad_Syntax"
begin

text \<open>
  The value cache of the server, \<^verbatim>\<open>libs/zbxdbcache/valuecache.c\<close>: the storage of one item's
  history in a list of chunks, and the memory it shares with the other items.

  A chunk is the record \<open>vc_chunk\<close>; its slots are a function, of which the positions
  \<open>first_value .. last_value\<close> hold values and the others hold whatever memory held before. The
  doubly linked list of an item is the list \<open>vi_chunks\<close> from the tail (oldest) to the head
  (newest), so that \<^verbatim>\<open>prev\<close> and \<^verbatim>\<open>next\<close> are the neighbouring indices and an empty list is the pair
  of \<^verbatim>\<open>NULL\<close> pointers; a chunk keeps its address, because the code compares the head before
  and after. The item a function works on is an argument of its own, the other items are in
  \<open>vc_cache\<close> together with the string pool, a multiset whose multiplicities are the 32-bit
  reference counters (fewer than \<open>2 ^ 32\<close> references are assumed).

  The outcomes of the shared memory allocator, of insertions into the pool and of the clock
  inside the allocator are functions of the number of the call; they are in \<open>vc_world\<close> with the
  arithmetic of the C type \<^verbatim>\<open>double\<close> on bit patterns. Elsewhere \<^verbatim>\<open>time(NULL)\<close> is an argument \<open>now\<close>. Sizes
  are those of a 64-bit machine.
\<close>

subsection \<open>Values\<close>

record zbx_timespec =
  ts_sec :: int
  ts_ns :: int

definition zbx_timespec_compare :: "zbx_timespec \<Rightarrow> zbx_timespec \<Rightarrow> int" where
  "zbx_timespec_compare t1 t2 =
    (if ts_sec t1 = ts_sec t2 then ts_ns t1 - ts_ns t2 else ts_sec t1 - ts_sec t2)"

datatype item_value_type =
  ITEM_VALUE_TYPE_FLOAT | ITEM_VALUE_TYPE_STR | ITEM_VALUE_TYPE_LOG | ITEM_VALUE_TYPE_UINT64 | ITEM_VALUE_TYPE_TEXT

type_synonym cstr = "u8 list"

record zbx_log_value =
  lv_timestamp :: int
  lv_logeventid :: int
  lv_severity :: int
  lv_source :: "cstr option"
  lv_value :: cstr

text \<open>The union; a double is its bit pattern, and a \<^verbatim>\<open>NULL\<close> pointer is \<open>Hv_ui64 0\<close>.\<close>

datatype history_value = Hv_dbl u64 | Hv_ui64 u64 | Hv_str cstr | Hv_log zbx_log_value

record history_record =
  hr_timestamp :: zbx_timespec
  hr_value :: history_value

text \<open>
  Reading a member of the union. The members that were not written last are never read for a
  value that fits the type of its item (\<open>hv_typed\<close>); they are given an arbitrary value.
\<close>

fun hv_str :: "history_value \<Rightarrow> cstr" where
  "hv_str (Hv_str s) = s"
| "hv_str _ = []"

fun hv_log :: "history_value \<Rightarrow> zbx_log_value" where
  "hv_log (Hv_log l) = l"
| "hv_log _ = \<lparr>lv_timestamp = 0, lv_logeventid = 0, lv_severity = 0, lv_source = None, lv_value = []\<rparr>"

fun hv_typed :: "item_value_type \<Rightarrow> history_value \<Rightarrow> bool" where
  "hv_typed ITEM_VALUE_TYPE_STR v = (\<exists>s. v = Hv_str s)"
| "hv_typed ITEM_VALUE_TYPE_TEXT v = (\<exists>s. v = Hv_str s)"
| "hv_typed ITEM_VALUE_TYPE_LOG v = (\<exists>l. v = Hv_log l)"
| "hv_typed _ v = True"

text \<open>The strings a stored value holds references to.\<close>

fun hv_strings :: "item_value_type \<Rightarrow> history_value \<Rightarrow> cstr multiset" where
  "hv_strings ITEM_VALUE_TYPE_STR v = {#hv_str v#}"
| "hv_strings ITEM_VALUE_TYPE_TEXT v = {#hv_str v#}"
| "hv_strings ITEM_VALUE_TYPE_LOG v =
    (case lv_source (hv_log v) of None \<Rightarrow> {#} | Some s \<Rightarrow> {#s#}) + {#lv_value (hv_log v)#}"
| "hv_strings _ v = {#}"

definition vc_history_record_compare_asc_func :: "history_record \<Rightarrow> history_record \<Rightarrow> int" where
  "vc_history_record_compare_asc_func d1 d2 =
    (let t1 = hr_timestamp d1; t2 = hr_timestamp d2 in
     if ts_sec t1 = ts_sec t2 then ts_ns t1 - ts_ns t2 else ts_sec t1 - ts_sec t2)"

definition vc_history_record_compare_desc_func :: "history_record \<Rightarrow> history_record \<Rightarrow> int" where
  "vc_history_record_compare_desc_func d1 d2 =
    (let t1 = hr_timestamp d1; t2 = hr_timestamp d2 in
     if ts_sec t1 = ts_sec t2 then ts_ns t2 - ts_ns t1 else ts_sec t2 - ts_sec t1)"

text \<open>The type's copy: the process-local allocator behind it ends the process instead of failing.\<close>

definition vc_history_logdup :: "zbx_log_value \<Rightarrow> zbx_log_value" where
  "vc_history_logdup lg =
    \<lparr>lv_timestamp = lv_timestamp lg, lv_logeventid = lv_logeventid lg, lv_severity = lv_severity lg,
     lv_source = (case lv_source lg of None \<Rightarrow> None | Some s \<Rightarrow> Some s), lv_value = lv_value lg\<rparr>"

definition vc_history_record_copy :: "history_record \<Rightarrow> item_value_type \<Rightarrow> history_record" where
  "vc_history_record_copy src value_type =
    \<lparr>hr_timestamp = hr_timestamp src,
     hr_value = (case value_type of
       ITEM_VALUE_TYPE_STR \<Rightarrow> Hv_str (hv_str (hr_value src))
     | ITEM_VALUE_TYPE_TEXT \<Rightarrow> Hv_str (hv_str (hr_value src))
     | ITEM_VALUE_TYPE_LOG \<Rightarrow> Hv_log (vc_history_logdup (hv_log (hr_value src)))
     | _ \<Rightarrow> hr_value src)\<rparr>"

definition vc_history_record_vector_append ::
  "history_record list \<Rightarrow> item_value_type \<Rightarrow> history_record \<Rightarrow> history_record list" where
  "vc_history_record_vector_append vector value_type v = vector @ [vc_history_record_copy v value_type]"

definition vc_history_record_vector_copy ::
  "history_record list \<Rightarrow> item_value_type \<Rightarrow> history_record list \<Rightarrow> history_record list" where
  "vc_history_record_vector_copy vector value_type vs =
    (case value_type of
       ITEM_VALUE_TYPE_STR \<Rightarrow>
         vector @ map (\<lambda>v. \<lparr>hr_timestamp = hr_timestamp v, hr_value = Hv_str (hv_str (hr_value v))\<rparr>) vs
     | ITEM_VALUE_TYPE_TEXT \<Rightarrow>
         vector @ map (\<lambda>v. \<lparr>hr_timestamp = hr_timestamp v, hr_value = Hv_str (hv_str (hr_value v))\<rparr>) vs
     | ITEM_VALUE_TYPE_LOG \<Rightarrow>
         vector @ map (\<lambda>v. \<lparr>hr_timestamp = hr_timestamp v,
           hr_value = Hv_log (vc_history_logdup (hv_log (hr_value v)))\<rparr>) vs
     | _ \<Rightarrow> vector @ vs)"

lemma vc_history_record_copy_typed [simp]:
  "hv_typed t (hr_value r) \<Longrightarrow> vc_history_record_copy r t = r"
  by (cases t) (auto simp: vc_history_record_copy_def vc_history_logdup_def split: option.split)

lemma vc_history_record_vector_append_typed [simp]:
  "hv_typed t (hr_value r) \<Longrightarrow> vc_history_record_vector_append vs t r = vs @ [r]"
  by (simp add: vc_history_record_vector_append_def)

lemma vc_history_record_vector_copy_map:
  "vc_history_record_vector_copy vector t vs = vector @ map (\<lambda>r. vc_history_record_copy r t) vs"
proof -
  have "map (\<lambda>r. \<lparr>hr_timestamp = hr_timestamp r, hr_value = hr_value r\<rparr>) vs = vs"
    by (simp add: map_idI)
  then show ?thesis
    by (cases t) (simp_all add: vc_history_record_vector_copy_def vc_history_record_copy_def)
qed

text \<open>A vector is sorted with the C library's \<^verbatim>\<open>qsort\<close>, an argument; see \<open>qsort_ok\<close>.\<close>

type_synonym 'a c_qsort = "('a \<Rightarrow> 'a \<Rightarrow> int) \<Rightarrow> 'a list \<Rightarrow> 'a list"

definition zbx_vector_history_record_sort ::
  "history_record c_qsort \<Rightarrow> history_record list \<Rightarrow> (history_record \<Rightarrow> history_record \<Rightarrow> int) \<Rightarrow>
   history_record list" where
  "zbx_vector_history_record_sort qsort vs compare_func =
    (if 2 \<le> length vs then qsort compare_func vs else vs)"

subsection \<open>Chunks, items and the shared cache\<close>

record vc_chunk =
  vch_addr :: nat
  first_value :: int
  last_value :: int
  slots_num :: int
  slots :: "int \<Rightarrow> history_record"

record vc_item =
  vi_itemid :: u64
  vi_value_type :: item_value_type
  vi_clean_pending :: bool
  vi_remove_pending :: bool
  vi_cached_all :: bool
  vi_values_total :: int
  vi_last_accessed :: int
  vi_refcount :: int
  vi_hits :: u64
  vi_range :: int
  vi_chunks :: "vc_chunk list"

record vc_cache =
  vcc_hits :: u64
  vcc_misses :: u64
  vcc_low_memory :: bool
  vcc_min_free_request :: nat
  vcc_items :: "vc_item list"
  vcc_strpool :: "cstr multiset"
  vcc_calls :: nat

record vc_item_weight =
  viw_item :: vc_item
  viw_weight :: u64

record vc_world =
  vw_alloc :: "nat \<Rightarrow> nat \<Rightarrow> (nat \<times> (int \<Rightarrow> history_record)) option"
  vw_pool_insert :: "nat \<Rightarrow> cstr \<Rightarrow> bool"
  vw_time :: "nat \<Rightarrow> int"
  vw_double_div :: "u64 \<Rightarrow> int \<Rightarrow> u64"
  vw_double_less :: "u64 \<Rightarrow> u64 \<Rightarrow> bool"
  vw_qsort_weights :: "vc_item_weight c_qsort"
  vw_qsort :: "history_record c_qsort"

definition SEC_PER_MIN :: int where "SEC_PER_MIN = 60"
definition SEC_PER_DAY :: int where "SEC_PER_DAY = 24 * 60 * 60"
definition REFCOUNT_FIELD_SIZE :: nat where "REFCOUNT_FIELD_SIZE = 4"
definition SIZEOF_HASHSET_ENTRY :: nat where "SIZEOF_HASHSET_ENTRY = 16"
definition SIZEOF_RECORD :: nat where "SIZEOF_RECORD = 16"
definition SIZEOF_CHUNK :: nat where "SIZEOF_CHUNK = 48"
definition SIZEOF_ITEM :: nat where "SIZEOF_ITEM = 56"
definition SIZEOF_LOG :: nat where "SIZEOF_LOG = 32"

definition ZBX_VC_MIN_CHUNK_RECORDS :: int where "ZBX_VC_MIN_CHUNK_RECORDS = 2"

definition ZBX_VC_MAX_CHUNK_RECORDS :: int where
  "ZBX_VC_MAX_CHUNK_RECORDS = (64 * 1024 - int SIZEOF_CHUNK) div int SIZEOF_RECORD + 1"

definition chunk_values :: "vc_chunk \<Rightarrow> history_record list" where
  "chunk_values c = map (slots c) [first_value c .. last_value c]"

definition item_values :: "vc_item \<Rightarrow> history_record list" where
  "item_values item = concat (map chunk_values (vi_chunks item))"

definition record_strings :: "item_value_type \<Rightarrow> history_record list \<Rightarrow> cstr multiset" where
  "record_strings t vs = sum_list (map (\<lambda>v. hv_strings t (hr_value v)) vs)"

definition item_strings :: "vc_item \<Rightarrow> cstr multiset" where
  "item_strings item = record_strings (vi_value_type item) (item_values item)"

lemma record_strings_simps [simp]:
  "record_strings t [] = {#}"
  "record_strings t (v # vs) = hv_strings t (hr_value v) + record_strings t vs"
  "record_strings t (vs @ ws) = record_strings t vs + record_strings t ws"
  by (simp_all add: record_strings_def)

subsection \<open>The string pool and the release of memory\<close>

definition vc_item_strfree :: "cstr \<Rightarrow> vc_cache \<Rightarrow> nat \<times> vc_cache" where
  "vc_item_strfree str vc =
    (if count (vcc_strpool vc) str = 1 then length str + REFCOUNT_FIELD_SIZE + 1 else 0,
     vc\<lparr>vcc_strpool := vcc_strpool vc - {#str#}\<rparr>)"

definition vc_item_logfree :: "zbx_log_value \<Rightarrow> vc_cache \<Rightarrow> nat \<times> vc_cache" where
  "vc_item_logfree lg vc =
    (let (freed1, vc1) = (case lv_source lg of None \<Rightarrow> (0, vc) | Some s \<Rightarrow> vc_item_strfree s vc);
         (freed2, vc2) = vc_item_strfree (lv_value lg) vc1
     in (freed1 + freed2 + SIZEOF_LOG, vc2))"

fun free_value_list ::
  "(history_record \<Rightarrow> vc_cache \<Rightarrow> nat \<times> vc_cache) \<Rightarrow> history_record list \<Rightarrow> nat \<Rightarrow> vc_cache \<Rightarrow>
   nat \<times> vc_cache" where
  "free_value_list free [] freed vc = (freed, vc)"
| "free_value_list free (v # vs) freed vc =
    (let (f, vc1) = free v vc in free_value_list free vs (freed + f) vc1)"

definition vc_item_free_values ::
  "vc_item \<Rightarrow> (int \<Rightarrow> history_record) \<Rightarrow> int \<Rightarrow> int \<Rightarrow> vc_cache \<Rightarrow> nat \<times> vc_item \<times> vc_cache" where
  "vc_item_free_values item sl fst_i lst_i vc =
    (let vs = map sl [fst_i .. lst_i];
         (freed, vc1) = (case vi_value_type item of
           ITEM_VALUE_TYPE_STR \<Rightarrow> free_value_list (\<lambda>v. vc_item_strfree (hv_str (hr_value v))) vs 0 vc
         | ITEM_VALUE_TYPE_TEXT \<Rightarrow> free_value_list (\<lambda>v. vc_item_strfree (hv_str (hr_value v))) vs 0 vc
         | ITEM_VALUE_TYPE_LOG \<Rightarrow> free_value_list (\<lambda>v. vc_item_logfree (hv_log (hr_value v))) vs 0 vc
         | _ \<Rightarrow> (0, vc))
     in (freed, item\<lparr>vi_values_total := vi_values_total item - (lst_i - fst_i + 1)\<rparr>, vc1))"

definition vch_item_free_chunk :: "vc_item \<Rightarrow> vc_chunk \<Rightarrow> vc_cache \<Rightarrow> nat \<times> vc_item \<times> vc_cache" where
  "vch_item_free_chunk item chunk vc =
    (let (freed, item1, vc1) =
           vc_item_free_values item (slots chunk) (first_value chunk) (last_value chunk) vc
     in (freed + SIZEOF_CHUNK + nat (last_value chunk - first_value chunk) * SIZEOF_RECORD, item1, vc1))"

fun free_chunk_list :: "vc_item \<Rightarrow> vc_chunk list \<Rightarrow> nat \<Rightarrow> vc_cache \<Rightarrow> nat \<times> vc_item \<times> vc_cache" where
  "free_chunk_list item [] freed vc = (freed, item, vc)"
| "free_chunk_list item (c # cs) freed vc =
    (let (f, item1, vc1) = vch_item_free_chunk item c vc in free_chunk_list item1 cs (freed + f) vc1)"

text \<open>The function leaves the two list pointers of the item as they are.\<close>

definition vch_item_free_cache :: "vc_item \<Rightarrow> vc_cache \<Rightarrow> nat \<times> vc_item \<times> vc_cache" where
  "vch_item_free_cache item vc =
    (let (freed, item1, vc1) = free_chunk_list item (vi_chunks item) 0 vc
     in (freed, item1\<lparr>vi_values_total := 0\<rparr>, vc1))"

subsection \<open>Making room\<close>

text \<open>Both passes over the hash set of items see every other item once, in the order of the list.\<close>

fun release_old_items :: "int \<Rightarrow> vc_item list \<Rightarrow> nat \<Rightarrow> vc_cache \<Rightarrow> nat \<times> vc_item list \<times> vc_cache" where
  "release_old_items timestamp [] freed vc = (freed, [], vc)"
| "release_old_items timestamp (item # items) freed vc =
    (if vi_last_accessed item < timestamp then
       (let (f, item1, vc1) = vch_item_free_cache item vc
        in release_old_items timestamp items (freed + f + SIZEOF_ITEM) vc1)
     else
       (let (freed1, kept, vc1) = release_old_items timestamp items freed vc
        in (freed1, item # kept, vc1)))"

definition vc_item_weight_compare_func ::
  "vc_world \<Rightarrow> vc_item_weight \<Rightarrow> vc_item_weight \<Rightarrow> int" where
  "vc_item_weight_compare_func w d1 d2 =
    (if vw_double_less w (viw_weight d2) (viw_weight d1) then 1
     else if vw_double_less w (viw_weight d1) (viw_weight d2) then - 1 else 0)"

definition item_weight :: "vc_world \<Rightarrow> vc_item \<Rightarrow> vc_item_weight" where
  "item_weight w item =
    \<lparr>viw_item = item,
     viw_weight = (if 0 < vi_values_total item then vw_double_div w (vi_hits item) (vi_values_total item) else 0)\<rparr>"

fun release_light_items :: "vc_item_weight list \<Rightarrow> nat \<Rightarrow> nat \<Rightarrow> vc_cache \<Rightarrow> nat \<times> vc_cache" where
  "release_light_items [] space freed vc = (freed, vc)"
| "release_light_items (d # ds) space freed vc =
    (if freed < space then
       (let (f, item1, vc1) = vch_item_free_cache (viw_item d) vc
        in release_light_items ds space (freed + f + SIZEOF_ITEM)
             (vc1\<lparr>vcc_items := filter (\<lambda>i. vi_itemid i \<noteq> vi_itemid (viw_item d)) (vcc_items vc1)\<rparr>))
     else (freed, vc))"

definition vc_release_space :: "vc_world \<Rightarrow> nat \<Rightarrow> vc_cache \<Rightarrow> vc_cache" where
  "vc_release_space w space vc =
    (let timestamp = vw_time w (vcc_calls vc) - SEC_PER_DAY;
         space = max space (vcc_min_free_request vc);
         (freed, kept, vc1) = release_old_items timestamp (vcc_items vc) 0 (vc\<lparr>vcc_calls := vcc_calls vc + 1\<rparr>);
         vc2 = vc1\<lparr>vcc_items := kept\<rparr>
     in if space \<le> freed then vc2
        else
          (let ds = map (item_weight w) (filter (\<lambda>item. vi_refcount item = 0) kept);
               sorted = (if 2 \<le> length ds then vw_qsort_weights w (vc_item_weight_compare_func w) ds else ds)
           in snd (release_light_items sorted space freed (vc2\<lparr>vcc_low_memory := True\<rparr>))))"

definition mem_malloc_call ::
  "vc_world \<Rightarrow> nat \<Rightarrow> vc_cache \<Rightarrow> (nat \<times> (int \<Rightarrow> history_record)) option \<times> vc_cache" where
  "mem_malloc_call w sz vc = (vw_alloc w (vcc_calls vc) sz, vc\<lparr>vcc_calls := vcc_calls vc + 1\<rparr>)"

definition vc_item_malloc ::
  "vc_world \<Rightarrow> nat \<Rightarrow> vc_cache \<Rightarrow> (nat \<times> (int \<Rightarrow> history_record)) option \<times> vc_cache" where
  "vc_item_malloc w sz vc =
    (case mem_malloc_call w sz vc of
       (Some p, vc1) \<Rightarrow> (Some p, vc1)
     | (None, vc1) \<Rightarrow> mem_malloc_call w sz (vc_release_space w sz vc1))"

definition pool_insert_call :: "vc_world \<Rightarrow> cstr \<Rightarrow> vc_cache \<Rightarrow> bool \<times> vc_cache" where
  "pool_insert_call w str vc =
    (if vw_pool_insert w (vcc_calls vc) str
     then (True, vc\<lparr>vcc_calls := vcc_calls vc + 1, vcc_strpool := add_mset str (vcc_strpool vc)\<rparr>)
     else (False, vc\<lparr>vcc_calls := vcc_calls vc + 1\<rparr>))"

definition vc_item_strdup :: "vc_world \<Rightarrow> cstr \<Rightarrow> vc_cache \<Rightarrow> bool \<times> vc_cache" where
  "vc_item_strdup w str vc =
    (if str \<in># vcc_strpool vc then (True, vc\<lparr>vcc_strpool := add_mset str (vcc_strpool vc)\<rparr>)
     else (case pool_insert_call w str vc of
         (True, vc1) \<Rightarrow> (True, vc1)
       | (False, vc1) \<Rightarrow> pool_insert_call w str
           (vc_release_space w (length str + 1 + REFCOUNT_FIELD_SIZE + SIZEOF_HASHSET_ENTRY) vc1)))"

definition vc_item_logdup :: "vc_world \<Rightarrow> zbx_log_value \<Rightarrow> vc_cache \<Rightarrow> zbx_log_value option \<times> vc_cache" where
  "vc_item_logdup w lg vc =
    (case vc_item_malloc w SIZEOF_LOG vc of
       (None, vc1) \<Rightarrow> (None, vc1)
     | (Some p, vc1) \<Rightarrow>
         (case (case lv_source lg of None \<Rightarrow> (True, vc1) | Some s \<Rightarrow> vc_item_strdup w s vc1) of
            (False, vc2) \<Rightarrow> (None, vc2)
          | (True, vc2) \<Rightarrow>
              (case vc_item_strdup w (lv_value lg) vc2 of
                 (True, vc3) \<Rightarrow> (Some (vc_history_logdup lg), vc3)
               | (False, vc3) \<Rightarrow>
                   (None, case lv_source lg of None \<Rightarrow> vc3 | Some s \<Rightarrow> snd (vc_item_strfree s vc3)))))"

subsection \<open>References to pool strings\<close>

text \<open>
  \<open>pool_balance vc X\<close>: the reference counters of the pool are the references from the values
  of the items in the cache and those in \<open>X\<close>, the ones held by the item (or the value) at hand;
  and the hash set has one entry for every item id.
\<close>

definition pool_balance :: "vc_cache \<Rightarrow> cstr multiset \<Rightarrow> bool" where
  "pool_balance vc X \<longleftrightarrow> distinct (map vi_itemid (vcc_items vc)) \<and>
    vcc_strpool vc = sum_list (map item_strings (vcc_items vc)) + X"

text \<open>Freeing takes exactly the references of the freed values out of the pool.\<close>

lemma vc_item_strfree_facts [simp]:
  "vcc_items (snd (vc_item_strfree s vc)) = vcc_items vc"
  "vcc_strpool (snd (vc_item_strfree s vc)) = vcc_strpool vc - {#s#}"
  by (simp_all add: vc_item_strfree_def)

lemma vc_item_logfree_facts [simp]:
  "vcc_items (snd (vc_item_logfree (hv_log v) vc)) = vcc_items vc"
  "vcc_strpool (snd (vc_item_logfree (hv_log v) vc)) = vcc_strpool vc - hv_strings ITEM_VALUE_TYPE_LOG v"
  by (cases "lv_source (hv_log v)"; simp add: vc_item_logfree_def Let_def split_beta)+

lemma free_value_list_facts:
  assumes "\<And>v vc. vcc_items (snd (free v vc)) = vcc_items vc"
    and "\<And>v vc. vcc_strpool (snd (free v vc)) = vcc_strpool vc - hv_strings t (hr_value v)"
  shows "vcc_items (snd (free_value_list free vs freed vc)) = vcc_items vc"
    and "vcc_strpool (snd (free_value_list free vs freed vc)) = vcc_strpool vc - record_strings t vs"
  by (induction vs arbitrary: freed vc) (simp_all add: split_beta assms)

lemma record_strings_numeric [simp]:
  "record_strings ITEM_VALUE_TYPE_FLOAT vs = {#}"
  "record_strings ITEM_VALUE_TYPE_UINT64 vs = {#}"
  "record_strings ITEM_VALUE_TYPE_TEXT vs = record_strings ITEM_VALUE_TYPE_STR vs"
  by (induction vs) simp_all

lemma free_strings_facts [simp]:
  "vcc_items (snd (free_value_list (\<lambda>v. vc_item_strfree (hv_str (hr_value v))) vs freed vc)) = vcc_items vc"
  "vcc_strpool (snd (free_value_list (\<lambda>v. vc_item_strfree (hv_str (hr_value v))) vs freed vc)) =
     vcc_strpool vc - record_strings ITEM_VALUE_TYPE_STR vs"
  by (rule free_value_list_facts [where t = ITEM_VALUE_TYPE_STR]; simp)+

lemma free_logs_facts [simp]:
  "vcc_items (snd (free_value_list (\<lambda>v. vc_item_logfree (hv_log (hr_value v))) vs freed vc)) = vcc_items vc"
  "vcc_strpool (snd (free_value_list (\<lambda>v. vc_item_logfree (hv_log (hr_value v))) vs freed vc)) =
     vcc_strpool vc - record_strings ITEM_VALUE_TYPE_LOG vs"
  by (rule free_value_list_facts [where t = ITEM_VALUE_TYPE_LOG]; simp)+

lemma vc_item_free_values_facts [simp]:
  "fst (snd (vc_item_free_values item sl i j vc)) = item\<lparr>vi_values_total := vi_values_total item - (j - i + 1)\<rparr>"
  "vcc_items (snd (snd (vc_item_free_values item sl i j vc))) = vcc_items vc"
  "vcc_strpool (snd (snd (vc_item_free_values item sl i j vc))) =
     vcc_strpool vc - record_strings (vi_value_type item) (map sl [i .. j])"
  by (cases "vi_value_type item";
      simp add: vc_item_free_values_def Let_def split_beta)+

lemma vch_item_free_chunk_facts [simp]:
  "fst (snd (vch_item_free_chunk item c vc)) =
     item\<lparr>vi_values_total := vi_values_total item - (last_value c - first_value c + 1)\<rparr>"
  "vcc_items (snd (snd (vch_item_free_chunk item c vc))) = vcc_items vc"
  "vcc_strpool (snd (snd (vch_item_free_chunk item c vc))) =
     vcc_strpool vc - record_strings (vi_value_type item) (chunk_values c)"
  by (simp_all add: vch_item_free_chunk_def split_beta chunk_values_def)

lemma free_chunk_list_facts [simp]:
  "fst (snd (free_chunk_list item cs freed vc)) =
     item\<lparr>vi_values_total := vi_values_total item - (\<Sum>c\<leftarrow>cs. last_value c - first_value c + 1)\<rparr>"
  "vcc_items (snd (snd (free_chunk_list item cs freed vc))) = vcc_items vc"
  "vcc_strpool (snd (snd (free_chunk_list item cs freed vc))) =
     vcc_strpool vc - record_strings (vi_value_type item) (concat (map chunk_values cs))"
  by (induction cs arbitrary: item freed vc) (simp_all add: split_beta)

lemma vch_item_free_cache_facts [simp]:
  "fst (snd (vch_item_free_cache item vc)) = item\<lparr>vi_values_total := 0\<rparr>"
  "vcc_items (snd (snd (vch_item_free_cache item vc))) = vcc_items vc"
  "vcc_strpool (snd (snd (vch_item_free_cache item vc))) = vcc_strpool vc - item_strings item"
  by (simp_all add: vch_item_free_cache_def split_beta item_strings_def item_values_def)

text \<open>Making room removes whole items, and the references their values hold.\<close>

lemma release_old_items_facts [simp]:
  "fst (snd (release_old_items ts items freed vc)) = filter (\<lambda>item. \<not> vi_last_accessed item < ts) items"
  "vcc_items (snd (snd (release_old_items ts items freed vc))) = vcc_items vc"
  "vcc_strpool (snd (snd (release_old_items ts items freed vc))) =
     vcc_strpool vc - sum_list (map item_strings (filter (\<lambda>item. vi_last_accessed item < ts) items))"
  by (induction items arbitrary: freed vc) (simp_all add: split_beta)

lemma sum_list_filter_split:
  "sum_list (map f (filter P xs)) + sum_list (map f (filter (\<lambda>x. \<not> P x) xs)) = (sum_list (map f xs) :: 'b multiset)"
  by (induction xs) (auto simp: ac_simps)

lemma sum_list_remove1:
  "x \<in> set xs \<Longrightarrow> f x + sum_list (map f (remove1 x xs)) = (sum_list (map f xs) :: 'b multiset)"
  by (induction xs) (auto simp: ac_simps)

lemma filter_remove1:
  "distinct (map f xs) \<Longrightarrow> x \<in> set xs \<Longrightarrow> filter (\<lambda>y. f y \<noteq> f x) xs = remove1 x xs"
proof (induction xs)
  case (Cons y ys)
  show ?case
  proof (cases "y = x")
    case True
    with Cons.prems have "filter (\<lambda>y. f y \<noteq> f x) ys = ys"
      by (auto simp: filter_id_conv) (metis image_eqI)
    with True show ?thesis by simp
  next
    case False
    with Cons.prems have "f y \<noteq> f x" by auto
    with Cons False show ?thesis by simp
  qed
qed simp

lemma release_light_items_balance:
  assumes "pool_balance vc X" "mset (map viw_item ds) \<subseteq># mset (vcc_items vc)"
  shows "pool_balance (snd (release_light_items ds space freed vc)) X \<and>
    set (vcc_items (snd (release_light_items ds space freed vc))) \<subseteq> set (vcc_items vc)"
  using assms
proof (induction ds arbitrary: freed vc)
  case (Cons d ds)
  let ?i = "viw_item d"
  obtain f item1 vc1 where fr: "vch_item_free_cache ?i vc = (f, item1, vc1)" by (metis prod_cases3)
  have vc1: "vcc_items vc1 = vcc_items vc" "vcc_strpool vc1 = vcc_strpool vc - item_strings ?i"
    using vch_item_free_cache_facts [of ?i vc] by (simp_all add: fr)
  let ?vc = "vc1\<lparr>vcc_items := filter (\<lambda>i. vi_itemid i \<noteq> vi_itemid ?i) (vcc_items vc1)\<rparr>"
  have in_i: "?i \<in> set (vcc_items vc)" using Cons.prems(2) by (auto simp: insert_subset_eq_iff)
  have dist: "distinct (map vi_itemid (vcc_items vc))" using Cons.prems(1) by (simp add: pool_balance_def)
  note rm = filter_remove1 [OF dist in_i]
  have mem: "?i \<in> set (vcc_items vc)" "mset (map viw_item ds) \<subseteq># mset (vcc_items ?vc)"
    using Cons.prems(2) by (auto simp: vc1 rm insert_subset_eq_iff)
  have "vcc_strpool vc = item_strings ?i + (sum_list (map item_strings (remove1 ?i (vcc_items vc))) + X)"
    using Cons.prems(1) unfolding pool_balance_def sum_list_remove1 [OF mem(1), symmetric] by (simp add: ac_simps)
  then have "pool_balance ?vc X"
    using dist by (simp add: pool_balance_def vc1 rm distinct_map_filter flip: rm)
  from Cons.IH [OF this mem(2)] show ?case
    using Cons.prems(1) by (auto simp: fr vc1)
qed simp

text \<open>The sort of the weights is a permutation, as documented.\<close>

definition world_ok :: "vc_world \<Rightarrow> bool" where
  "world_ok w \<longleftrightarrow> (\<forall>cmp ds. mset (vw_qsort_weights w cmp ds) = mset ds) \<and>
    qsort_ok (vw_qsort w) vc_history_record_compare_asc_func \<and>
    qsort_ok (vw_qsort w) vc_history_record_compare_desc_func"

lemma vc_release_space_balance:
  assumes "world_ok w" "pool_balance vc X"
  shows "pool_balance (vc_release_space w space vc) X \<and>
    set (vcc_items (vc_release_space w space vc)) \<subseteq> set (vcc_items vc)"
proof -
  define ts where "ts = vw_time w (vcc_calls vc) - SEC_PER_DAY"
  define kept where "kept = filter (\<lambda>item. \<not> vi_last_accessed item < ts) (vcc_items vc)"
  obtain freed k vc1 where ro:
    "release_old_items ts (vcc_items vc) 0 (vc\<lparr>vcc_calls := Suc (vcc_calls vc)\<rparr>) = (freed, k, vc1)"
    by (metis prod_cases3)
  have k: "k = kept" "vcc_strpool vc1 = vcc_strpool vc -
      sum_list (map item_strings (filter (\<lambda>item. vi_last_accessed item < ts) (vcc_items vc)))"
    using release_old_items_facts [of ts "vcc_items vc" 0 "vc\<lparr>vcc_calls := Suc (vcc_calls vc)\<rparr>"]
    by (simp_all add: ro kept_def)
  have "vcc_strpool vc = sum_list (map item_strings (filter (\<lambda>item. vi_last_accessed item < ts) (vcc_items vc))) +
      (sum_list (map item_strings kept) + X)"
    using assms(2) unfolding pool_balance_def kept_def
      sum_list_filter_split [of item_strings "\<lambda>item. vi_last_accessed item < ts" "vcc_items vc", symmetric]
    by (simp add: ac_simps)
  moreover have "distinct (map vi_itemid kept)"
    using assms(2) by (simp add: pool_balance_def kept_def distinct_map_filter)
  ultimately have bal: "pool_balance (vc1\<lparr>vcc_items := kept, vcc_low_memory := b\<rparr>) X"
      "pool_balance (vc1\<lparr>vcc_items := kept\<rparr>) X" for b
    by (simp_all add: pool_balance_def k)
  have sub: "set kept \<subseteq> set (vcc_items vc)" by (auto simp: kept_def)
  define ds where "ds = map (item_weight w) (filter (\<lambda>item. vi_refcount item = 0) kept)"
  define sorted where
    "sorted = (if 2 \<le> length ds then vw_qsort_weights w (vc_item_weight_compare_func w) ds else ds)"
  define sp where "sp = max space (vcc_min_free_request vc)"
  have "mset sorted = mset ds" using assms(1) by (simp add: world_ok_def sorted_def)
  then have "mset (map viw_item sorted) = mset (map viw_item ds)" by (metis mset_map)
  also have "map viw_item ds = filter (\<lambda>item. vi_refcount item = 0) kept"
    by (simp add: item_weight_def comp_def ds_def)
  finally have "mset (map viw_item sorted) \<subseteq># mset kept" by (simp add: mset_filter)
  then have light: "pool_balance (snd (release_light_items sorted sp freed (vc1\<lparr>vcc_items := kept, vcc_low_memory := True\<rparr>))) X \<and>
      set (vcc_items (snd (release_light_items sorted sp freed (vc1\<lparr>vcc_items := kept, vcc_low_memory := True\<rparr>)))) \<subseteq> set kept"
    using release_light_items_balance [OF bal(1) [of True], of sorted sp freed] by simp
  have "vc_release_space w space vc = (if sp \<le> freed then vc1\<lparr>vcc_items := kept\<rparr>
      else snd (release_light_items sorted sp freed (vc1\<lparr>vcc_items := kept, vcc_low_memory := True\<rparr>)))"
    by (simp add: vc_release_space_def Let_def ts_def [symmetric] ro k(1) sp_def sorted_def ds_def)
  with light bal(2) sub show ?thesis by auto
qed
text \<open>
  A step of the cache that turns the held references \<open>A\<close> into \<open>B\<close>, whatever else is held,
  and removes nothing but whole items.
\<close>

definition pool_step :: "vc_cache \<Rightarrow> vc_cache \<Rightarrow> cstr multiset \<Rightarrow> cstr multiset \<Rightarrow> bool" where
  "pool_step vc vc' A B \<longleftrightarrow> (\<forall>X. pool_balance vc (A + X) \<longrightarrow>
    pool_balance vc' (B + X) \<and> set (vcc_items vc') \<subseteq> set (vcc_items vc))"

lemma pool_step_refl [simp, intro]: "pool_step vc vc A A"
  by (simp add: pool_step_def)

lemma pool_step_trans [trans]:
  "pool_step vc vc1 A B \<Longrightarrow> pool_step vc1 vc2 B C \<Longrightarrow> pool_step vc vc2 A C"
  by (fastforce simp: pool_step_def)

lemma pool_step_frame:
  assumes "pool_step vc vc' A B"
  shows "pool_step vc vc' (A + F) (B + F)" "pool_step vc vc' (F + A) (F + B)"
proof -
  show "pool_step vc vc' (A + F) (B + F)"
    using assms unfolding pool_step_def by (simp add: add.assoc)
  then show "pool_step vc vc' (F + A) (F + B)" by (simp add: add.commute)
qed

lemma pool_step_releases:
  "vcc_items vc' = vcc_items vc \<Longrightarrow> vcc_strpool vc' = vcc_strpool vc - A \<Longrightarrow> pool_step vc vc' A {#}"
  by (simp add: pool_step_def pool_balance_def)

lemma vc_release_space_step: "world_ok w \<Longrightarrow> pool_step vc (vc_release_space w space vc) {#} {#}"
  using vc_release_space_balance by (simp add: pool_step_def)

lemma pool_step_calls [simp]: "pool_step vc (vc\<lparr>vcc_calls := n\<rparr>) A A"
  by (simp add: pool_step_def pool_balance_def)

lemma mem_malloc_call_step: "mem_malloc_call w sz vc = (r, vc') \<Longrightarrow> pool_step vc vc' A A"
  by (auto simp: mem_malloc_call_def)

lemma vc_item_malloc_step:
  assumes "world_ok w" "vc_item_malloc w sz vc = (r, vc')"
  shows "pool_step vc vc' {#} {#}"
proof (cases "mem_malloc_call w sz vc")
  case (Pair r1 vc1)
  then have "pool_step vc vc1 {#} {#}" by (rule mem_malloc_call_step)
  moreover have "pool_step vc1 vc' {#} {#}" if "r1 = None"
    using that assms Pair
    by (auto simp: vc_item_malloc_def intro: pool_step_trans [OF vc_release_space_step mem_malloc_call_step])
  ultimately show ?thesis using assms(2) Pair pool_step_trans
    by (cases r1) (auto simp: vc_item_malloc_def)
qed

lemma pool_insert_call_step:
  "pool_insert_call w s vc = (True, vc') \<Longrightarrow> pool_step vc vc' {#} {#s#}"
  "pool_insert_call w s vc = (False, vc') \<Longrightarrow> pool_step vc vc' {#} {#}"
  by (auto simp: pool_insert_call_def pool_step_def pool_balance_def split: if_splits)

lemma vc_item_strdup_step:
  assumes "world_ok w" "vc_item_strdup w s vc = (r, vc')"
  shows "pool_step vc vc' {#} (if r then {#s#} else {#})"
proof (cases "s \<in># vcc_strpool vc")
  case True
  with assms show ?thesis
    by (auto simp: vc_item_strdup_def pool_step_def pool_balance_def)
next
  case False
  obtain r1 vc1 where c1: "pool_insert_call w s vc = (r1, vc1)" by fastforce
  show ?thesis
  proof (cases r1)
    case True
    with assms(2) False c1 have "r" "vc' = vc1" by (auto simp: vc_item_strdup_def)
    with c1 True show ?thesis by (auto intro: pool_insert_call_step)
  next
    case r1: False
    define vc2 where
      "vc2 = vc_release_space w (length s + 1 + REFCOUNT_FIELD_SIZE + SIZEOF_HASHSET_ENTRY) vc1"
    have "pool_step vc vc1 {#} {#}" using c1 r1 by (auto intro: pool_insert_call_step)
    moreover have "pool_step vc1 vc2 {#} {#}" unfolding vc2_def by (rule vc_release_space_step [OF assms(1)])
    moreover have "pool_insert_call w s vc2 = (r, vc')"
      using assms(2) False c1 r1 by (simp add: vc_item_strdup_def vc2_def)
    then have "pool_step vc2 vc' {#} (if r then {#s#} else {#})"
      by (cases r) (auto intro: pool_insert_call_step)
    ultimately show ?thesis by (meson pool_step_trans)
  qed
qed

lemma vc_history_logdup_id [simp]: "vc_history_logdup lg = lg"
  by (simp add: vc_history_logdup_def split: option.split)

lemma vc_item_strfree_step: "pool_step vc (snd (vc_item_strfree s vc)) {#s#} {#}"
  by (rule pool_step_releases) simp_all

lemma vc_item_logdup_step:
  assumes w: "world_ok w" and dup: "vc_item_logdup w lg vc = (r, vc')"
  shows "pool_step vc vc' {#} (case r of None \<Rightarrow> {#} | Some l \<Rightarrow> hv_strings ITEM_VALUE_TYPE_LOG (Hv_log lg)) \<and>
    (\<forall>l. r = Some l \<longrightarrow> l = lg)"
proof (cases "vc_item_malloc w SIZEOF_LOG vc")
  case (Pair p vc1)
  then have s1: "pool_step vc vc1 {#} {#}" by (rule vc_item_malloc_step [OF w])
  show ?thesis
  proof (cases p)
    case None
    with dup Pair s1 show ?thesis by (auto simp: vc_item_logdup_def)
  next
    case (Some q)
    let ?src = "case lv_source lg of None \<Rightarrow> {#} | Some s \<Rightarrow> {#s#}"
    obtain b2 vc2 where d2: "(case lv_source lg of None \<Rightarrow> (True, vc1) | Some s \<Rightarrow> vc_item_strdup w s vc1) = (b2, vc2)"
      by fastforce
    have s2: "pool_step vc1 vc2 {#} (if b2 then ?src else {#})"
    proof (cases "lv_source lg")
      case (Some s)
      with d2 have "vc_item_strdup w s vc1 = (b2, vc2)" by simp
      from vc_item_strdup_step [OF w this] Some show ?thesis by (simp split: if_splits)
    qed (use d2 in auto)
    show ?thesis
    proof (cases b2)
      case False
      with dup Pair Some d2 pool_step_trans [OF s1 s2] show ?thesis by (auto simp: vc_item_logdup_def)
    next
      case True
      obtain b3 vc3 where d3: "vc_item_strdup w (lv_value lg) vc2 = (b3, vc3)" by fastforce
      have s3: "pool_step vc2 vc3 ?src (?src + (if b3 then {#lv_value lg#} else {#}))"
        using pool_step_frame(2) [OF vc_item_strdup_step [OF w d3], of ?src] by simp
      have s13: "pool_step vc vc3 {#} (?src + (if b3 then {#lv_value lg#} else {#}))"
        by (rule pool_step_trans [OF pool_step_trans [OF s1 s2 [unfolded if_P [OF True]]] s3])
      show ?thesis
      proof (cases b3)
        case True
        with dup Pair Some d2 d3 s13 \<open>b2\<close> show ?thesis by (auto simp: vc_item_logdup_def)
      next
        case False
        have "vc' = (case lv_source lg of None \<Rightarrow> vc3 | Some s \<Rightarrow> snd (vc_item_strfree s vc3))" "r = None"
          using dup Pair Some d2 d3 \<open>b2\<close> False by (auto simp: vc_item_logdup_def)
        moreover have "pool_step vc3 vc' ?src {#}"
          unfolding calculation(1) by (cases "lv_source lg") (auto intro: vc_item_strfree_step)
        ultimately show ?thesis using pool_step_trans [of vc vc3 "{#}" ?src vc' "{#}"] s13 False by simp
      qed
    qed
  qed
qed

subsection \<open>Operations on the chunks of an item\<close>

text \<open>
  A result \<open>None\<close> of a function with an \<open>option\<close> result stands for a call that does not come
  back because a loop runs forever; the theorems show that this does not happen for
  well-formed items.
\<close>

abbreviation slot_sec :: "vc_chunk \<Rightarrow> int \<Rightarrow> int" where
  "slot_sec c i \<equiv> ts_sec (hr_timestamp (slots c i))"

definition upd_head :: "(vc_chunk \<Rightarrow> vc_chunk) \<Rightarrow> vc_item \<Rightarrow> vc_item" where
  "upd_head f item = item\<lparr>vi_chunks := butlast (vi_chunks item) @ [f (last (vi_chunks item))]\<rparr>"

definition upd_tail :: "(vc_chunk \<Rightarrow> vc_chunk) \<Rightarrow> vc_item \<Rightarrow> vc_item" where
  "upd_tail f item = item\<lparr>vi_chunks := f (hd (vi_chunks item)) # tl (vi_chunks item)\<rparr>"

definition vch_get_new_chunk_slot_count :: "int \<Rightarrow> int" where
  "vch_get_new_chunk_slot_count nslots =
    (let nslots = (if nslots > ZBX_VC_MAX_CHUNK_RECORDS then ZBX_VC_MAX_CHUNK_RECORDS else nslots)
     in if nslots < ZBX_VC_MIN_CHUNK_RECORDS then ZBX_VC_MIN_CHUNK_RECORDS else nslots)"

text \<open>The zeroing of the chunk's header covers the first slot.\<close>

definition hr_zero :: history_record where
  "hr_zero = \<lparr>hr_timestamp = \<lparr>ts_sec = 0, ts_ns = 0\<rparr>, hr_value = Hv_ui64 0\<rparr>"

definition vch_item_add_chunk ::
  "vc_world \<Rightarrow> vc_item \<Rightarrow> int \<Rightarrow> nat option \<Rightarrow> vc_cache \<Rightarrow> zres \<times> vc_item \<times> vc_cache" where
  "vch_item_add_chunk w item nslots insert_before vc =
    (case vc_item_malloc w (SIZEOF_CHUNK + SIZEOF_RECORD * nat (nslots - 1)) vc of
       (None, vc1) \<Rightarrow> (Fail, item, vc1)
     | (Some (addr, mem), vc1) \<Rightarrow>
         (let chunk = \<lparr>vch_addr = addr, first_value = 0, last_value = 0, slots_num = nslots,
                       slots = mem(0 := hr_zero)\<rparr>
          in (Succeed,
              item\<lparr>vi_chunks := (case insert_before of
                  None \<Rightarrow> vi_chunks item @ [chunk]
                | Some i \<Rightarrow> take i (vi_chunks item) @ chunk # drop i (vi_chunks item))\<rparr>,
              vc1)))"

partial_function (option) find_before_loop :: "(int \<Rightarrow> history_record) \<Rightarrow> int \<Rightarrow> int \<Rightarrow> int \<Rightarrow> int option" where
  "find_before_loop sl timestamp start end_i =
    (if start \<noteq> end_i then
       (let middle = start + (end_i - start) div 2
        in if ts_sec (hr_timestamp (sl middle)) > timestamp then find_before_loop sl timestamp start middle
           else if ts_sec (hr_timestamp (sl (middle + 1))) \<le> timestamp
           then find_before_loop sl timestamp middle end_i
           else Some middle)
     else Some (- 1))"

definition vch_chunk_find_last_value_before :: "vc_chunk \<Rightarrow> int \<Rightarrow> int option" where
  "vch_chunk_find_last_value_before chunk timestamp =
    (let start = first_value chunk; end_i = last_value chunk
     in if slot_sec chunk end_i \<le> timestamp then Some end_i
        else if start = end_i then Some (- 1)
        else find_before_loop (slots chunk) timestamp start end_i)"

text \<open>\<open>seek_chunk\<close> goes back to a chunk whose first value is not after the timestamp.\<close>

fun seek_chunk :: "vc_chunk list \<Rightarrow> int \<Rightarrow> nat \<Rightarrow> nat option" where
  "seek_chunk cs end_timestamp ci =
    (if slot_sec (cs ! ci) (first_value (cs ! ci)) > end_timestamp then
       (case ci of 0 \<Rightarrow> None | Suc cj \<Rightarrow> seek_chunk cs end_timestamp cj)
     else Some ci)"

definition vch_item_get_last_value :: "vc_item \<Rightarrow> int \<Rightarrow> int \<Rightarrow> (nat \<times> int) option option" where
  "vch_item_get_last_value item end_timestamp now =
    (if vi_chunks item = [] then Some None
     else
       (let cs = vi_chunks item; ci = length cs - 1; index = last_value (cs ! ci);
            end_timestamp = (if end_timestamp = 0 then now else end_timestamp)
        in if slot_sec (cs ! ci) index > end_timestamp then
             (case seek_chunk cs end_timestamp ci of
                None \<Rightarrow> Some None
              | Some cj \<Rightarrow>
                  map_option (\<lambda>i. Some (cj, i)) (vch_chunk_find_last_value_before (cs ! cj) end_timestamp))
           else Some (Some (ci, index))))"

function timespec_back :: "vc_chunk list \<Rightarrow> zbx_timespec \<Rightarrow> nat \<Rightarrow> int \<Rightarrow> (nat \<times> int) option" where
  "timespec_back cs ts ci index =
    (if 0 < zbx_timespec_compare (hr_timestamp (slots (cs ! ci) index)) ts then
       if index - 1 < first_value (cs ! ci) then
         (case ci of 0 \<Rightarrow> None | Suc cj \<Rightarrow> timespec_back cs ts cj (last_value (cs ! cj)))
       else timespec_back cs ts ci (index - 1)
     else Some (ci, index))"
  by auto
termination
  by (relation "measures [\<lambda>(cs, ts, ci, index). ci, \<lambda>(cs, ts, ci, index). nat (index - first_value (cs ! ci))]")
    auto

definition vch_item_get_last_value_by_timespec ::
  "vc_item \<Rightarrow> zbx_timespec \<Rightarrow> int \<Rightarrow> (nat \<times> int) option option" where
  "vch_item_get_last_value_by_timespec item timestamp now =
    map_option (\<lambda>r. case r of None \<Rightarrow> None | Some (ci, index) \<Rightarrow> timespec_back (vi_chunks item) timestamp ci index)
      (vch_item_get_last_value item (ts_sec timestamp) now)"

text \<open>
  The copy of one value into the cache; for strings and logs \<open>None\<close> says that there was no
  room.
\<close>

definition vc_item_dup_value ::
  "vc_world \<Rightarrow> item_value_type \<Rightarrow> history_value \<Rightarrow> vc_cache \<Rightarrow> history_value option \<times> vc_cache" where
  "vc_item_dup_value w t v vc =
    (case t of
       ITEM_VALUE_TYPE_LOG \<Rightarrow> (case vc_item_logdup w (hv_log v) vc of
           (Some l, vc1) \<Rightarrow> (Some (Hv_log l), vc1) | (None, vc1) \<Rightarrow> (None, vc1))
     | _ \<Rightarrow> (case vc_item_strdup w (hv_str v) vc of
           (True, vc1) \<Rightarrow> (Some (Hv_str (hv_str v)), vc1) | (False, vc1) \<Rightarrow> (None, vc1)))"

definition put_slot :: "int \<Rightarrow> history_record \<Rightarrow> vc_chunk \<Rightarrow> vc_chunk" where
  "put_slot i r c = c\<lparr>slots := (slots c)(i := r)\<rparr>"

definition put_slots :: "int \<Rightarrow> history_record list \<Rightarrow> vc_chunk \<Rightarrow> vc_chunk" where
  "put_slots k vs c =
    c\<lparr>slots := (\<lambda>i. if k \<le> i \<and> i < k + int (length vs) then vs ! nat (i - k) else slots c i)\<rparr>"

text \<open>A failed copy has stored \<^verbatim>\<open>NULL\<close> into the slot after the last value.\<close>

fun copy_loop_at_end ::
  "vc_world \<Rightarrow> vc_item \<Rightarrow> history_record list \<Rightarrow> vc_cache \<Rightarrow> zres \<times> vc_item \<times> vc_cache" where
  "copy_loop_at_end w item [] vc = (Succeed, item, vc)"
| "copy_loop_at_end w item (v # vs) vc =
    (let c = last (vi_chunks item); i = last_value c + 1
     in case vc_item_dup_value w (vi_value_type item) (hr_value v) vc of
          (None, vc1) \<Rightarrow> (Fail, upd_head (put_slot i ((slots c i)\<lparr>hr_value := Hv_ui64 0\<rparr>)) item, vc1)
        | (Some x, vc1) \<Rightarrow>
            copy_loop_at_end w
              (upd_head (\<lambda>c. (put_slot i \<lparr>hr_timestamp = hr_timestamp v, hr_value = x\<rparr> c)\<lparr>last_value := i\<rparr>) item)
              vs vc1)"

definition vch_item_copy_values_at_end ::
  "vc_world \<Rightarrow> vc_item \<Rightarrow> history_record list \<Rightarrow> vc_cache \<Rightarrow> zres \<times> vc_item \<times> vc_cache" where
  "vch_item_copy_values_at_end w item vs vc =
    (let last_i = last_value (last (vi_chunks item));
         (ret, item1, vc1) =
           (if vi_value_type item \<in> {ITEM_VALUE_TYPE_STR, ITEM_VALUE_TYPE_TEXT, ITEM_VALUE_TYPE_LOG}
            then copy_loop_at_end w item vs vc
            else (Succeed,
              upd_head (\<lambda>c. (put_slots (last_i + 1) vs c)\<lparr>last_value := last_i + int (length vs)\<rparr>) item, vc))
     in (ret, item1\<lparr>vi_values_total := vi_values_total item1 + (last_value (last (vi_chunks item1)) - last_i)\<rparr>,
         vc1))"

text \<open>At the beginning the values are taken from the last one backwards.\<close>

fun copy_loop_at_beginning ::
  "vc_world \<Rightarrow> vc_item \<Rightarrow> history_record list \<Rightarrow> vc_cache \<Rightarrow> zres \<times> vc_item \<times> vc_cache" where
  "copy_loop_at_beginning w item [] vc = (Succeed, item, vc)"
| "copy_loop_at_beginning w item (v # vs) vc =
    (let c = hd (vi_chunks item); i = first_value c - 1
     in case vc_item_dup_value w (vi_value_type item) (hr_value v) vc of
          (None, vc1) \<Rightarrow> (Fail, upd_tail (put_slot i ((slots c i)\<lparr>hr_value := Hv_ui64 0\<rparr>)) item, vc1)
        | (Some x, vc1) \<Rightarrow>
            copy_loop_at_beginning w
              (upd_tail (\<lambda>c. (put_slot i \<lparr>hr_timestamp = hr_timestamp v, hr_value = x\<rparr> c)\<lparr>first_value := i\<rparr>) item)
              vs vc1)"

definition vch_item_copy_values_at_beginning ::
  "vc_world \<Rightarrow> vc_item \<Rightarrow> history_record list \<Rightarrow> vc_cache \<Rightarrow> zres \<times> vc_item \<times> vc_cache" where
  "vch_item_copy_values_at_beginning w item vs vc =
    (let first_i = first_value (hd (vi_chunks item));
         (ret, item1, vc1) =
           (if vi_value_type item \<in> {ITEM_VALUE_TYPE_STR, ITEM_VALUE_TYPE_TEXT, ITEM_VALUE_TYPE_LOG}
            then copy_loop_at_beginning w item (rev vs) vc
            else (Succeed,
              upd_tail (\<lambda>c. (put_slots (first_i - int (length vs)) vs c)
                \<lparr>first_value := first_i - int (length vs)\<rparr>) item, vc))
     in (ret, item1\<lparr>vi_values_total := vi_values_total item1 + (first_i - first_value (hd (vi_chunks item1)))\<rparr>,
         vc1))"

declare seek_chunk.simps [simp del] timespec_back.simps [simp del]

fun append_values_from ::
  "item_value_type \<Rightarrow> vc_chunk list \<Rightarrow> int \<Rightarrow> history_record list \<Rightarrow> history_record list" where
  "append_values_from t [] index vs = vs"
| "append_values_from t (chunk # cs) index vs =
    (let vs1 = foldl (\<lambda>vs v. vc_history_record_vector_append vs t v) vs
                 (map (slots chunk) [index .. last_value chunk])
     in case cs of [] \<Rightarrow> vs1 | c # _ \<Rightarrow> append_values_from t cs (first_value c) vs1)"

definition vch_item_get_values_from ::
  "vc_item \<Rightarrow> nat \<Rightarrow> int \<Rightarrow> history_record list \<Rightarrow> history_record list" where
  "vch_item_get_values_from item ci index vs =
    append_values_from (vi_value_type item) (drop ci (vi_chunks item)) index vs"

definition vch_item_remove_values_from :: "vc_item \<Rightarrow> nat \<Rightarrow> int \<Rightarrow> vc_cache \<Rightarrow> vc_item \<times> vc_cache" where
  "vch_item_remove_values_from item ci index vc =
    (let cs = vi_chunks item; index = index - 1
     in if index < first_value (cs ! ci) \<and> ci = 0 then
          (let (_, item1, vc1) = vch_item_free_cache item vc in (item1\<lparr>vi_chunks := []\<rparr>, vc1))
        else
          (let (ci, index) = (if index < first_value (cs ! ci) then (ci - 1, last_value (cs ! (ci - 1)))
                              else (ci, index));
               chunk = cs ! ci;
               (_, item1, vc1) = vc_item_free_values item (slots chunk) (index + 1) (last_value chunk) vc;
               (_, item2, vc2) = free_chunk_list item1 (drop (Suc ci) cs) 0 vc1
           in (item2\<lparr>vi_chunks := take ci cs @ [chunk\<lparr>last_value := index\<rparr>]\<rparr>, vc2)))"

definition vch_item_remove_chunk :: "vc_item \<Rightarrow> nat \<Rightarrow> vc_cache \<Rightarrow> vc_item \<times> vc_cache" where
  "vch_item_remove_chunk item ci vc =
    (let (_, item1, vc1) =
           vch_item_free_chunk (item\<lparr>vi_chunks := take ci (vi_chunks item) @ drop (Suc ci) (vi_chunks item)\<rparr>)
             (vi_chunks item ! ci) vc
     in (item1, vc1))"

text \<open>The values of the next chunk that have the second of the last value of the removed one.\<close>

partial_function (option) trim_next :: "int \<Rightarrow> vc_item \<Rightarrow> vc_chunk \<Rightarrow> vc_cache \<Rightarrow> (vc_item \<times> vc_chunk \<times> vc_cache) option" where
  "trim_next sec item c vc =
    (if slot_sec c (first_value c) = sec then
       (let r = vc_item_free_values item (slots c) (first_value c) (first_value c) vc
        in trim_next sec (fst (snd r)) (c\<lparr>first_value := first_value c + 1\<rparr>) (snd (snd r)))
     else Some (item, c, vc))"

definition trim_following :: "int \<Rightarrow> vc_item \<Rightarrow> vc_chunk \<Rightarrow> vc_chunk list \<Rightarrow> vc_cache \<Rightarrow> (vc_item \<times> vc_cache) option" where
  "trim_following sec item chunk cs vc =
    (case cs of
       [] \<Rightarrow> Some (item, vc)
     | c # rest \<Rightarrow>
         if slot_sec c (first_value c) \<noteq> slot_sec c (last_value c) then
           map_option (\<lambda>(item1, c1, vc1). (item1\<lparr>vi_chunks := chunk # c1 # rest\<rparr>, vc1)) (trim_next sec item c vc)
         else Some (item, vc))"

text \<open>
  The loop works on the tail of the list; its result tells whether the tail has changed.
\<close>

partial_function (option) clean_loop :: "int \<Rightarrow> vc_item \<Rightarrow> vc_cache \<Rightarrow> bool \<Rightarrow> (vc_item \<times> vc_cache \<times> bool) option" where
  "clean_loop timestamp item vc changed =
    (case vi_chunks item of
       [] \<Rightarrow> Some (item, vc, changed)
     | chunk # cs \<Rightarrow>
         if slot_sec chunk (last_value chunk) < timestamp then
           do {
             (item1, vc1) \<leftarrow> trim_following (slot_sec chunk (last_value chunk)) item chunk cs vc;
             let (item2, vc2) = vch_item_remove_chunk item1 0 vc1;
             clean_loop timestamp item2 vc2 True
           }
         else Some (item, vc, changed))"

definition vch_item_clean_cache :: "vc_item \<Rightarrow> int \<Rightarrow> vc_cache \<Rightarrow> (vc_item \<times> vc_cache) option" where
  "vch_item_clean_cache item now vc =
    (if vi_range item \<noteq> 0 then
       map_option (\<lambda>(item1, vc1, changed).
           (if changed then item1\<lparr>vi_cached_all := False\<rparr> else item1, vc1))
         (clean_loop (now - vi_range item - SEC_PER_MIN) item vc False)
     else Some (item, vc))"

fun count_older :: "history_record \<Rightarrow> history_record list \<Rightarrow> nat" where
  "count_older v0 [] = 0"
| "count_older v0 (v # vs) =
    (if 0 \<ge> vc_history_record_compare_asc_func v0 v then 0 else Suc (count_older v0 vs))"

text \<open>
  The search for the first value that is after the first new one: \<open>insert_back\<close> is the loop of
  \<open>vch_item_add_values_at_end\<close>, with its variables \<^verbatim>\<open>chunk\<close>, \<^verbatim>\<open>index\<close>, \<^verbatim>\<open>ichunk\<close> and \<^verbatim>\<open>iindex\<close>.
\<close>

function insert_back :: "vc_chunk list \<Rightarrow> zbx_timespec \<Rightarrow> nat \<Rightarrow> int \<Rightarrow> nat \<Rightarrow> int \<Rightarrow> nat \<times> int" where
  "insert_back cs ts chunk index ichunk iindex =
    (if 0 < zbx_timespec_compare (hr_timestamp (slots (cs ! ichunk) iindex)) ts then
       (let index = iindex; iindex = iindex - 1
        in if iindex < first_value (cs ! ichunk) then
             (case ichunk of
                0 \<Rightarrow> (ichunk, index)
              | Suc prev \<Rightarrow> insert_back cs ts prev index prev (last_value (cs ! prev)))
           else insert_back cs ts chunk index ichunk iindex)
     else (chunk, index))"
  by auto
termination
  by (relation "measures [\<lambda>(cs, ts, c, i, ichunk, iindex). ichunk,
      \<lambda>(cs, ts, c, i, ichunk, iindex). nat (iindex - first_value (cs ! ichunk))]") auto

declare insert_back.simps [simp del]

text \<open>The free slots on the right side of the head chunk, or of a new one when there are none.\<close>

definition append_room :: "vc_world \<Rightarrow> vc_item \<Rightarrow> vc_cache \<Rightarrow> zres \<times> int \<times> vc_item \<times> vc_cache" where
  "append_room w item vc =
    (let head = last (vi_chunks item);
         nslots = (if vi_chunks item \<noteq> [] then slots_num head - last_value head - 1 else 0)
     in if nslots = 0 then
          (let nslots = vch_get_new_chunk_slot_count (vi_values_total item div 2 + 1)
           in case vch_item_add_chunk w item nslots None vc of
                (Fail, item1, vc1) \<Rightarrow> (Fail, nslots, item1, vc1)
              | (Succeed, item1, vc1) \<Rightarrow>
                  (Succeed, nslots, upd_head (\<lambda>c. c\<lparr>first_value := 0, last_value := - 1\<rparr>) item1, vc1))
        else (Succeed, nslots, item, vc))"

partial_function (option) append_loop ::
  "vc_world \<Rightarrow> vc_item \<Rightarrow> history_record list \<Rightarrow> vc_cache \<Rightarrow> (zres \<times> vc_item \<times> vc_cache) option" where
  "append_loop w item vs vc =
    (if vs = [] then Some (Succeed, item, vc)
     else
       (case append_room w item vc of
          (Fail, nslots, item1, vc1) \<Rightarrow> Some (Fail, item1, vc1)
        | (Succeed, nslots, item1, vc1) \<Rightarrow>
            (case vch_item_copy_values_at_end w item1 (take (nat (min nslots (int (length vs)))) vs) vc1 of
               (Fail, item2, vc2) \<Rightarrow> Some (Fail, item2, vc2)
             | (Succeed, item2, vc2) \<Rightarrow>
                 append_loop w item2 (drop (nat (min nslots (int (length vs)))) vs) vc2)))"

text \<open>The place where the new values start: \<open>found\<close> is the last value not after their first second.\<close>

definition cut_place :: "vc_item \<Rightarrow> zbx_timespec \<Rightarrow> (nat \<times> int) option \<Rightarrow> nat \<times> int" where
  "cut_place item ts found = (case found of
     None \<Rightarrow> (0, first_value (vi_chunks item ! 0))
   | Some (chunk, index) \<Rightarrow> insert_back (vi_chunks item) ts chunk index chunk index)"

definition head_addr :: "vc_item \<Rightarrow> nat option" where
  "head_addr item = (if vi_chunks item = [] then None else Some (vch_addr (last (vi_chunks item))))"

text \<open>The end of the function: old chunks are looked for when the head has changed.\<close>

fun mark_new_head :: "nat option \<Rightarrow> zres \<times> vc_item \<times> vc_cache \<Rightarrow> zres \<times> vc_item \<times> vc_cache" where
  "mark_new_head head (ret, item, vc) =
    (ret, if ret = Succeed \<and> head_addr item \<noteq> head then item\<lparr>vi_clean_pending := True\<rparr> else item, vc)"

text \<open>
  Values before the first cached one are left out; the flag for complete caching and the request
  range then no longer cover them.
\<close>

definition note_skipped :: "vc_item \<Rightarrow> history_record list \<Rightarrow> nat \<Rightarrow> int \<Rightarrow> vc_item" where
  "note_skipped item vs start now =
    (if 0 < start then
       (let age = now - ts_sec (hr_timestamp (vs ! (start - 1)))
        in if age \<le> vi_range item then item\<lparr>vi_cached_all := False, vi_range := age - 1\<rparr>
           else item\<lparr>vi_cached_all := False\<rparr>)
     else item)"

definition vch_item_add_values_at_end ::
  "vc_world \<Rightarrow> vc_item \<Rightarrow> history_record list \<Rightarrow> int \<Rightarrow> vc_cache \<Rightarrow> (zres \<times> vc_item \<times> vc_cache) option" where
  "vch_item_add_values_at_end w item vs now vc =
    (let head = last (vi_chunks item); tail = hd (vi_chunks item)
     in if vi_chunks item \<noteq> [] \<and>
           0 < vc_history_record_compare_asc_func (slots head (last_value head)) (vs ! 0) then
          (let start = count_older (slots tail (first_value tail)) vs;
               item1 = note_skipped item vs start now
           in if length vs \<le> start then Some (Succeed, item1, vc)
              else do {
                let values_ext = vc_history_record_vector_copy [] (vi_value_type item1) (drop start vs);
                found \<leftarrow> vch_item_get_last_value item1 (ts_sec (hr_timestamp (vs ! 0))) now;
                let (chunk, index) = cut_place item1 (hr_timestamp (vs ! 0)) found;
                let values_ext = vch_item_get_values_from item1 chunk index values_ext;
                let (item2, vc2) = vch_item_remove_values_from item1 chunk index vc;
                let sorted_ext = zbx_vector_history_record_sort (vw_qsort w) values_ext
                  vc_history_record_compare_asc_func;
                map_option (mark_new_head (head_addr item)) (append_loop w item2 sorted_ext vc2)
              })
        else map_option (mark_new_head (head_addr item)) (append_loop w item vs vc))"

definition count_kept :: "int \<Rightarrow> history_record list \<Rightarrow> nat" where
  "count_kept sec vs = length (dropWhile (\<lambda>v. sec \<le> ts_sec (hr_timestamp v)) (rev vs))"

text \<open>The free slots on the left side of the tail chunk, or of a new one when there are none.\<close>

definition prepend_room :: "vc_world \<Rightarrow> vc_item \<Rightarrow> int \<Rightarrow> vc_cache \<Rightarrow> zres \<times> int \<times> vc_item \<times> vc_cache" where
  "prepend_room w item n vc =
    (let nslots = (if vi_chunks item \<noteq> [] then first_value (hd (vi_chunks item)) else 0)
     in if nslots = 0 then
          (let nslots = vch_get_new_chunk_slot_count n
           in case vch_item_add_chunk w item nslots (if vi_chunks item = [] then None else Some 0) vc of
                (Fail, item1, vc1) \<Rightarrow> (Fail, nslots, item1, vc1)
              | (Succeed, item1, vc1) \<Rightarrow>
                  (Succeed, nslots, upd_tail (\<lambda>c. c\<lparr>last_value := nslots - 1, first_value := nslots\<rparr>) item1, vc1))
        else (Succeed, nslots, item, vc))"

partial_function (option) prepend_loop ::
  "vc_world \<Rightarrow> vc_item \<Rightarrow> history_record list \<Rightarrow> vc_cache \<Rightarrow> (zres \<times> vc_item \<times> vc_cache) option" where
  "prepend_loop w item vs vc =
    (if vs = [] then Some (Succeed, item, vc)
     else
       (case prepend_room w item (int (length vs)) vc of
          (Fail, nslots, item1, vc1) \<Rightarrow> Some (Fail, item1, vc1)
        | (Succeed, nslots, item1, vc1) \<Rightarrow>
            (let rest = nat (int (length vs) - min nslots (int (length vs)))
             in case vch_item_copy_values_at_beginning w item1 (drop rest vs) vc1 of
                  (Fail, item2, vc2) \<Rightarrow> Some (Fail, item2, vc2)
                | (Succeed, item2, vc2) \<Rightarrow> prepend_loop w item2 (take rest vs) vc2)))"

definition vch_item_add_values_at_beginning ::
  "vc_world \<Rightarrow> vc_item \<Rightarrow> history_record list \<Rightarrow> vc_cache \<Rightarrow> (zres \<times> vc_item \<times> vc_cache) option" where
  "vch_item_add_values_at_beginning w item vs vc =
    (let tail = hd (vi_chunks item);
         count = (if vi_chunks item = [] then length vs else count_kept (slot_sec tail (first_value tail)) vs)
     in prepend_loop w item (take count vs) vc)"

end
