(* ===== verification/VcLookup.thy ===== *)
theory VcLookup
  imports ValueCache "HOL-Library.Product_Lexorder"
begin

text \<open>
  Lookups in the history of one item (\<^verbatim>\<open>libs/zbxdbcache/valuecache.c\<close>): when an item is well
  formed, what the searches through its chunks find, and the requests that read from the cache
  as operations on the list of its values.
\<close>

subsection \<open>Well-formed items\<close>

text \<open>
  Timestamps are ordered by second and nanosecond. An item is well formed when the values of
  every chunk are inside its slots, only the tail has room at its beginning, the counter of
  values is exact, the values fit the type of the item, and they are in the order of time
  through all chunks.
\<close>

definition ts_key :: "zbx_timespec \<Rightarrow> int \<times> int" where "ts_key t = (ts_sec t, ts_ns t)"

abbreviation rec_key :: "history_record \<Rightarrow> int \<times> int" where "rec_key r \<equiv> ts_key (hr_timestamp r)"
abbreviation rec_sec :: "history_record \<Rightarrow> int" where "rec_sec r \<equiv> ts_sec (hr_timestamp r)"

definition chunk_ok :: "vc_chunk \<Rightarrow> bool" where
  "chunk_ok c \<longleftrightarrow> 0 \<le> first_value c \<and> first_value c \<le> last_value c \<and> last_value c < slots_num c"

definition vc_item_ok :: "vc_item \<Rightarrow> bool" where
  "vc_item_ok item \<longleftrightarrow>
    (\<forall>c \<in> set (vi_chunks item). chunk_ok c) \<and> (\<forall>c \<in> set (tl (vi_chunks item)). first_value c = 0) \<and>
    vi_values_total item = int (length (item_values item)) \<and>
    (\<forall>v \<in> set (item_values item). hv_typed (vi_value_type item) (hr_value v)) \<and>
    sorted (map rec_key (item_values item))"

named_theorems vc_keys \<open>the C comparison functions as the order of timestamps\<close>

lemma compare_keys [vc_keys]:
  "zbx_timespec_compare t1 t2 \<le> 0 \<longleftrightarrow> ts_key t1 \<le> ts_key t2"
  "0 < zbx_timespec_compare t1 t2 \<longleftrightarrow> ts_key t2 < ts_key t1"
  "vc_history_record_compare_asc_func a b \<le> 0 \<longleftrightarrow> rec_key a \<le> rec_key b"
  "0 < vc_history_record_compare_asc_func a b \<longleftrightarrow> rec_key b < rec_key a"
  "vc_history_record_compare_desc_func a b \<le> 0 \<longleftrightarrow> rec_key b \<le> rec_key a"
  by (auto simp: zbx_timespec_compare_def ts_key_def vc_history_record_compare_asc_func_def
      vc_history_record_compare_desc_func_def Let_def less_prod_def less_eq_prod_def)

lemma key_sec_mono: "rec_key a \<le> rec_key b \<Longrightarrow> rec_sec a \<le> rec_sec b"
  by (auto simp: ts_key_def less_eq_prod_def)

lemma sorted_keys_secs: "sorted (map rec_key vs) \<Longrightarrow> sorted (map rec_sec vs)"
  by (auto simp: sorted_wrt_map intro: sorted_wrt_mono_rel [rotated] key_sec_mono)

lemma history_sort_facts:
  assumes "qsort_ok qsort vc_history_record_compare_asc_func"
  shows "mset (zbx_vector_history_record_sort qsort vs vc_history_record_compare_asc_func) = mset vs"
    and "sorted (map rec_key (zbx_vector_history_record_sort qsort vs vc_history_record_compare_asc_func))"
proof -
  show "mset (zbx_vector_history_record_sort qsort vs vc_history_record_compare_asc_func) = mset vs"
    using assms by (simp add: zbx_vector_history_record_sort_def qsort_ok_def)
  show "sorted (map rec_key (zbx_vector_history_record_sort qsort vs vc_history_record_compare_asc_func))"
    using assms
    by (cases vs rule: remdups_adj.cases)
      (simp_all add: zbx_vector_history_record_sort_def qsort_ok_def sorted_wrt_map vc_keys)
qed

text \<open>Positions: a chunk and an index, and the values before and from there.\<close>

definition values_before :: "vc_chunk list \<Rightarrow> nat \<Rightarrow> int \<Rightarrow> history_record list" where
  "values_before cs ci i = concat (map chunk_values (take ci cs)) @
    map (slots (cs ! ci)) [first_value (cs ! ci) .. i - 1]"

definition values_from :: "vc_chunk list \<Rightarrow> nat \<Rightarrow> int \<Rightarrow> history_record list" where
  "values_from cs ci i = map (slots (cs ! ci)) [i .. last_value (cs ! ci)] @
    concat (map chunk_values (drop (Suc ci) cs))"

definition valid_pos :: "vc_chunk list \<Rightarrow> nat \<Rightarrow> int \<Rightarrow> bool" where
  "valid_pos cs ci i \<longleftrightarrow> ci < length cs \<and> first_value (cs ! ci) \<le> i \<and> i \<le> last_value (cs ! ci)"

lemma upto_append: "i \<le> j \<Longrightarrow> j \<le> k + 1 \<Longrightarrow> [i .. j - 1] @ [j .. k] = [i .. k]" for i j k :: int
  using upto_split2 [of i "j - 1" k] by (cases "i \<le> j - 1") auto

lemma values_split:
  assumes "ci < length cs" "first_value (cs ! ci) \<le> i" "i \<le> last_value (cs ! ci) + 1"
  shows "concat (map chunk_values cs) = values_before cs ci i @ values_from cs ci i"
proof -
  have "cs = take ci cs @ cs ! ci # drop (Suc ci) cs" using assms(1) by (rule id_take_nth_drop)
  then have "concat (map chunk_values cs) = concat (map chunk_values (take ci cs)) @
      chunk_values (cs ! ci) @ concat (map chunk_values (drop (Suc ci) cs))"
    by (metis concat.simps(2) concat_append list.simps(9) map_append)
  also have "chunk_values (cs ! ci) = map (slots (cs ! ci)) [first_value (cs ! ci) .. i - 1] @
      map (slots (cs ! ci)) [i .. last_value (cs ! ci)]"
    using upto_append [OF assms(2,3)] unfolding chunk_values_def map_append [symmetric] by simp
  finally show ?thesis by (simp add: values_before_def values_from_def)
qed

lemma values_step:
  assumes "valid_pos cs ci i"
  shows "values_from cs ci i = slots (cs ! ci) i # values_from cs ci (i + 1)"
    and "values_before cs ci (i + 1) = values_before cs ci i @ [slots (cs ! ci) i]"
  using assms upto_rec1 [of i "last_value (cs ! ci)"] upto_rec2 [of "first_value (cs ! ci)" i]
  by (simp_all add: values_from_def values_before_def valid_pos_def)

lemma values_before_first [simp]:
  "values_before cs ci (first_value (cs ! ci)) = concat (map chunk_values (take ci cs))"
  by (simp add: values_before_def)

lemma values_before_prev:
  assumes "Suc cj < length cs" "first_value (cs ! cj) \<le> last_value (cs ! cj)"
  shows "values_before cs (Suc cj) (first_value (cs ! Suc cj)) = values_before cs cj (last_value (cs ! cj) + 1)"
  using assms by (simp add: values_before_def take_Suc_conv_app_nth chunk_values_def)

lemma item_values_simp: "item_values item = concat (map chunk_values (vi_chunks item))"
  by (simp add: item_values_def)

subsection \<open>Lookups\<close>

text \<open>
  The binary search of a chunk ends, and finds the last value that is not after the timestamp.
\<close>

lemma find_before_loop_finds:
  assumes "start < end_i" "ts_sec (hr_timestamp (sl start)) \<le> t" "t < ts_sec (hr_timestamp (sl end_i))"
  shows "\<exists>i. find_before_loop sl t start end_i = Some i \<and> start \<le> i \<and> i < end_i \<and>
    ts_sec (hr_timestamp (sl i)) \<le> t \<and> t < ts_sec (hr_timestamp (sl (i + 1)))"
  using assms
proof (induction "nat (end_i - start)" arbitrary: start end_i rule: less_induct)
  case less
  define m where "m = start + (end_i - start) div 2"
  have m: "start \<le> m" "m < end_i" using less.prems(1) by (auto simp: m_def)
  have eq: "find_before_loop sl t start end_i =
      (if ts_sec (hr_timestamp (sl m)) > t then find_before_loop sl t start m
       else if ts_sec (hr_timestamp (sl (m + 1))) \<le> t then find_before_loop sl t m end_i else Some m)"
    using less.prems(1) by (subst find_before_loop.simps) (simp add: m_def Let_def)
  consider (left) "ts_sec (hr_timestamp (sl m)) > t" | (right) "ts_sec (hr_timestamp (sl m)) \<le> t"
      "ts_sec (hr_timestamp (sl (m + 1))) \<le> t" | (here) "ts_sec (hr_timestamp (sl m)) \<le> t"
      "t < ts_sec (hr_timestamp (sl (m + 1)))" by linarith
  then show ?case
  proof cases
    case left
    with less.prems(2) m(1) have "start < m" by (cases "start = m") auto
    with left less.hyps [of m start] less.prems m show ?thesis by (fastforce simp: eq)
  next
    case right
    with less.prems(3) m(2) have "m + 1 < end_i" by (cases "m + 1 = end_i") auto
    then have "start < m" using m(1) by (auto simp: m_def)
    with right less.hyps [of end_i m] less.prems m show ?thesis by (fastforce simp: eq)
  next
    case here
    with m show ?thesis by (auto simp: eq)
  qed
qed

lemma chunk_find_last_value_before:
  assumes "first_value c \<le> last_value c" "slot_sec c (first_value c) \<le> t"
  shows "\<exists>i. vch_chunk_find_last_value_before c t = Some i \<and> first_value c \<le> i \<and> i \<le> last_value c \<and>
    slot_sec c i \<le> t \<and> (i < last_value c \<longrightarrow> t < slot_sec c (i + 1))"
proof (cases "slot_sec c (last_value c) \<le> t")
  case True
  with assms show ?thesis by (auto simp: vch_chunk_find_last_value_before_def)
next
  case False
  with assms have "first_value c < last_value c" by (cases "first_value c = last_value c") auto
  with find_before_loop_finds [of "first_value c" "last_value c" "slots c" t] assms False show ?thesis
    by (fastforce simp: vch_chunk_find_last_value_before_def)
qed

text \<open>What a position must satisfy to be the last value that is not after a second.\<close>

definition last_not_after :: "vc_chunk list \<Rightarrow> int \<Rightarrow> nat \<Rightarrow> int \<Rightarrow> bool" where
  "last_not_after cs t ci i \<longleftrightarrow> valid_pos cs ci i \<and>
    (\<forall>v \<in> set (values_before cs ci (i + 1)). rec_sec v \<le> t) \<and> (\<forall>v \<in> set (values_from cs ci (i + 1)). t < rec_sec v)"

text \<open>In a well-formed chunk list the values are sorted by second as well.\<close>

definition chunks_ok :: "vc_chunk list \<Rightarrow> bool" where
  "chunks_ok cs \<longleftrightarrow> (\<forall>c \<in> set cs. chunk_ok c) \<and> (\<forall>c \<in> set (tl cs). first_value c = 0) \<and>
    sorted (map rec_key (concat (map chunk_values cs)))"

lemma chunks_okD:
  assumes "chunks_ok cs" "ci < length cs"
  shows "0 \<le> first_value (cs ! ci)" "first_value (cs ! ci) \<le> last_value (cs ! ci)"
    "last_value (cs ! ci) < slots_num (cs ! ci)"
  using assms by (auto simp: chunks_ok_def chunk_ok_def)

lemma chunks_ok_sorted:
  assumes "chunks_ok cs" "valid_pos cs ci i"
  shows "\<forall>v \<in> set (values_before cs ci i). rec_key v \<le> rec_key (slots (cs ! ci) i)"
    and "\<forall>v \<in> set (values_from cs ci (i + 1)). rec_key (slots (cs ! ci) i) \<le> rec_key v"
proof -
  have "concat (map chunk_values cs) = values_before cs ci i @ slots (cs ! ci) i # values_from cs ci (i + 1)"
    using values_split [of ci cs i] values_step [OF assms(2)] assms(2) by (simp add: valid_pos_def)
  with assms(1) show "\<forall>v \<in> set (values_before cs ci i). rec_key v \<le> rec_key (slots (cs ! ci) i)"
    and "\<forall>v \<in> set (values_from cs ci (i + 1)). rec_key (slots (cs ! ci) i) \<le> rec_key v"
    by (auto simp: chunks_ok_def sorted_append)
qed

lemma seek_chunk_result:
  assumes "chunks_ok cs" "ci < length cs"
  shows "case seek_chunk cs t ci of
      None \<Rightarrow> \<forall>v \<in> set (concat (map chunk_values (take (Suc ci) cs))). t < rec_sec v
    | Some cj \<Rightarrow> cj \<le> ci \<and> slot_sec (cs ! cj) (first_value (cs ! cj)) \<le> t \<and>
        (\<forall>k. cj < k \<and> k \<le> ci \<longrightarrow> t < slot_sec (cs ! k) (first_value (cs ! k)))"
  using assms(2)
proof (induction ci)
  case 0
  have pos: "valid_pos cs 0 (first_value (cs ! 0))"
    using chunks_okD [OF assms(1) 0] 0 by (simp add: valid_pos_def)
  have "\<forall>v \<in> set (chunk_values (cs ! 0)). rec_key (slots (cs ! 0) (first_value (cs ! 0))) \<le> rec_key v"
    using chunks_ok_sorted(2) [OF assms(1) pos] values_step(1) [OF pos] 0
    by (auto simp: values_from_def chunk_values_def)
  then have "\<forall>v \<in> set (chunk_values (cs ! 0)). slot_sec (cs ! 0) (first_value (cs ! 0)) \<le> rec_sec v"
    using key_sec_mono by blast
  with 0 show ?case
    by (subst seek_chunk.simps) (fastforce simp: take_Suc_conv_app_nth)
next
  case (Suc ci)
  have pos: "valid_pos cs (Suc ci) (first_value (cs ! Suc ci))"
    using chunks_okD [OF assms(1) Suc.prems] Suc.prems by (simp add: valid_pos_def)
  have first: "\<forall>v \<in> set (chunk_values (cs ! Suc ci)). slot_sec (cs ! Suc ci) (first_value (cs ! Suc ci)) \<le> rec_sec v"
    using chunks_ok_sorted(2) [OF assms(1) pos] values_step(1) [OF pos] key_sec_mono
    by (fastforce simp: values_from_def chunk_values_def)
  show ?case
  proof (cases "t < slot_sec (cs ! Suc ci) (first_value (cs ! Suc ci))")
    case True
    then have "seek_chunk cs t (Suc ci) = seek_chunk cs t ci" by (subst seek_chunk.simps) simp
    with Suc True first show ?thesis
      by (auto simp: take_Suc_conv_app_nth le_Suc_eq split: option.splits)
  next
    case False
    then show ?thesis by (subst seek_chunk.simps) simp
  qed
qed

text \<open>
  \<^verbatim>\<open>vch_item_get_last_value\<close> always comes back, with the last value that is not after the second
  (a second of 0 stands for now), or a failure when all values are after it.
\<close>

lemma vch_item_get_last_value_result:
  assumes ok: "chunks_ok (vi_chunks item)" and t_def: "t = (if e = 0 then now else e)"
  obtains (none) "vch_item_get_last_value item e now = Some None" "\<forall>v \<in> set (item_values item). t < rec_sec v"
  | (found) ci i where "vch_item_get_last_value item e now = Some (Some (ci, i))"
      "last_not_after (vi_chunks item) t ci i"
proof (cases "vi_chunks item = []")
  case True
  then show thesis by (intro none) (simp_all add: vch_item_get_last_value_def item_values_simp)
next
  case ne: False
  let ?cs = "vi_chunks item"
  let ?h = "length ?cs - 1"
  have h: "?h < length ?cs" using ne by simp
  have split_at: "concat (map chunk_values ?cs) = values_before ?cs ci (i + 1) @ values_from ?cs ci (i + 1)"
    if "valid_pos ?cs ci i" for ci i
    using that by (intro values_split) (auto simp: valid_pos_def)
  have before: "\<forall>v \<in> set (values_before ?cs ci (i + 1)). rec_sec v \<le> t"
    if "valid_pos ?cs ci i" "slot_sec (?cs ! ci) i \<le> t" for ci i
    using that chunks_ok_sorted(1) [OF ok that(1)] values_step(2) [OF that(1)] key_sec_mono by fastforce
  have eq: "vch_item_get_last_value item e now =
      (if slot_sec (?cs ! ?h) (last_value (?cs ! ?h)) > t then
         (case seek_chunk ?cs t ?h of None \<Rightarrow> Some None
          | Some cj \<Rightarrow> map_option (\<lambda>i. Some (cj, i)) (vch_chunk_find_last_value_before (?cs ! cj) t))
       else Some (Some (?h, last_value (?cs ! ?h))))"
    using ne by (simp only: vch_item_get_last_value_def Let_def t_def [symmetric] if_False)
  show thesis
  proof (cases "slot_sec (?cs ! ?h) (last_value (?cs ! ?h)) > t")
    case False
    have pos: "valid_pos ?cs ?h (last_value (?cs ! ?h))"
      using chunks_okD [OF ok h] h by (simp add: valid_pos_def)
    have "values_from ?cs ?h (last_value (?cs ! ?h) + 1) = []" using h by (simp add: values_from_def)
    with False pos before [OF pos] show thesis
      by (intro found [of ?h "last_value (?cs ! ?h)"]) (simp_all add: eq last_not_after_def)
  next
    case True
    show thesis
    proof (cases "seek_chunk ?cs t ?h")
      case None
      with seek_chunk_result [OF ok h, of t] True show thesis
        by (intro none) (simp_all add: eq item_values_simp)
    next
      case (Some cj)
      with seek_chunk_result [OF ok h, of t] have cj: "cj \<le> ?h" "slot_sec (?cs ! cj) (first_value (?cs ! cj)) \<le> t"
        and gt: "\<And>k. cj < k \<Longrightarrow> k \<le> ?h \<Longrightarrow> t < slot_sec (?cs ! k) (first_value (?cs ! k))" by auto
      have cjl: "cj < length ?cs" using cj h by simp
      obtain i where i: "vch_chunk_find_last_value_before (?cs ! cj) t = Some i" "first_value (?cs ! cj) \<le> i"
          "i \<le> last_value (?cs ! cj)" "slot_sec (?cs ! cj) i \<le> t"
          "i < last_value (?cs ! cj) \<longrightarrow> t < slot_sec (?cs ! cj) (i + 1)"
        using chunk_find_last_value_before [OF chunks_okD(2) [OF ok cjl] cj(2)] by blast
      have pos: "valid_pos ?cs cj i" using i cjl by (simp add: valid_pos_def)
      have "\<forall>v \<in> set (values_from ?cs cj (i + 1)). t < rec_sec v"
      proof (cases "i < last_value (?cs ! cj)")
        case True
        then have pos': "valid_pos ?cs cj (i + 1)" using pos by (simp add: valid_pos_def)
        have "\<forall>v \<in> set (values_from ?cs cj (i + 1)). slot_sec (?cs ! cj) (i + 1) \<le> rec_sec v"
          using chunks_ok_sorted(2) [OF ok pos'] values_step(1) [OF pos'] key_sec_mono by fastforce
        with True i(5) show ?thesis by fastforce
      next
        case False
        with i(3) have il: "i = last_value (?cs ! cj)" by simp
        show ?thesis
        proof (cases "Suc cj < length ?cs")
          case True
          then have pos': "valid_pos ?cs (Suc cj) (first_value (?cs ! Suc cj))"
            using chunks_okD [OF ok True] by (simp add: valid_pos_def)
          have "drop (Suc cj) ?cs = ?cs ! Suc cj # drop (Suc (Suc cj)) ?cs" using True by (simp add: Cons_nth_drop_Suc)
          then have "values_from ?cs cj (i + 1) = values_from ?cs (Suc cj) (first_value (?cs ! Suc cj))"
            by (simp add: il values_from_def chunk_values_def)
          moreover have "\<forall>v \<in> set (values_from ?cs (Suc cj) (first_value (?cs ! Suc cj))).
              slot_sec (?cs ! Suc cj) (first_value (?cs ! Suc cj)) \<le> rec_sec v"
            using chunks_ok_sorted(2) [OF ok pos'] values_step(1) [OF pos'] key_sec_mono by fastforce
          moreover have "t < slot_sec (?cs ! Suc cj) (first_value (?cs ! Suc cj))"
            using gt [of "Suc cj"] True by simp
          ultimately show ?thesis by fastforce
        qed (simp add: il values_from_def)
      qed
      with pos before [OF pos i(4)] Some True i(1) show thesis
        by (intro found [of cj i]) (simp_all add: eq last_not_after_def)
    qed
  qed
qed

definition last_not_after_ts :: "vc_chunk list \<Rightarrow> zbx_timespec \<Rightarrow> nat \<Rightarrow> int \<Rightarrow> bool" where
  "last_not_after_ts cs ts ci i \<longleftrightarrow> valid_pos cs ci i \<and>
    (\<forall>v \<in> set (values_before cs ci (i + 1)). rec_key v \<le> ts_key ts) \<and>
    (\<forall>v \<in> set (values_from cs ci (i + 1)). ts_key ts < rec_key v)"

lemma values_from_prev:
  "Suc cj < length cs \<Longrightarrow> values_from cs cj (last_value (cs ! cj) + 1) = values_from cs (Suc cj) (first_value (cs ! Suc cj))"
  by (simp add: values_from_def chunk_values_def Cons_nth_drop_Suc [symmetric])

lemma timespec_back_result:
  assumes "chunks_ok cs" "valid_pos cs ci i" "\<forall>v \<in> set (values_from cs ci (i + 1)). ts_key ts < rec_key v"
  shows "case timespec_back cs ts ci i of
      None \<Rightarrow> \<forall>v \<in> set (concat (map chunk_values cs)). ts_key ts < rec_key v
    | Some (cj, j) \<Rightarrow> last_not_after_ts cs ts cj j"
  using assms
proof (induction cs ts ci i rule: timespec_back.induct)
  case (1 cs ts ci i)
  let ?c = "cs ! ci"
  have lt: "ci < length cs" using "1.prems"(2) by (simp add: valid_pos_def)
  show ?case
  proof (cases "ts_key ts < rec_key (slots ?c i)")
    case False
    then have "timespec_back cs ts ci i = Some (ci, i)" by (subst timespec_back.simps) (simp add: vc_keys)
    moreover have "\<forall>v \<in> set (values_before cs ci (i + 1)). rec_key v \<le> ts_key ts"
      using chunks_ok_sorted(1) [OF "1.prems"(1,2)] values_step(2) [OF "1.prems"(2)] False by fastforce
    ultimately show ?thesis using "1.prems"(2,3) by (simp add: last_not_after_ts_def)
  next
    case True
    then have cmp: "0 < zbx_timespec_compare (hr_timestamp (slots ?c i)) ts" by (simp add: vc_keys)
    have from_i: "\<forall>v \<in> set (values_from cs ci i). ts_key ts < rec_key v"
      using values_step(1) [OF "1.prems"(2)] True "1.prems"(3) by simp
    show ?thesis
    proof (cases "i - 1 < first_value ?c")
      case inside: False
      then have "valid_pos cs ci (i - 1)" using "1.prems"(2) by (simp add: valid_pos_def)
      with "1.IH"(2) [OF cmp inside "1.prems"(1)] from_i have "case timespec_back cs ts ci (i - 1) of
          None \<Rightarrow> \<forall>v \<in> set (concat (map chunk_values cs)). ts_key ts < rec_key v
        | Some (cj, j) \<Rightarrow> last_not_after_ts cs ts cj j" by simp
      with cmp inside show ?thesis by (subst timespec_back.simps) simp
    next
      case crossing: True
      then have i: "i = first_value ?c" using "1.prems"(2) by (simp add: valid_pos_def)
      show ?thesis
      proof (cases ci)
        case 0
        with cmp crossing have "timespec_back cs ts ci i = None" by (subst timespec_back.simps) simp
        moreover have "concat (map chunk_values cs) = values_from cs ci i"
          using values_split [of ci cs i] "1.prems"(2) i 0 by (simp add: valid_pos_def)
        ultimately show ?thesis using from_i by simp
      next
        case (Suc cj)
        then have cj: "cj < length cs" "Suc cj < length cs" using lt by simp_all
        have pos: "valid_pos cs cj (last_value (cs ! cj))"
          using chunks_okD [OF "1.prems"(1) cj(1)] cj by (simp add: valid_pos_def)
        have "\<forall>v \<in> set (values_from cs cj (last_value (cs ! cj) + 1)). ts_key ts < rec_key v"
          using from_i values_from_prev [OF cj(2)] Suc i by simp
        with "1.IH"(1) [OF cmp crossing Suc "1.prems"(1) pos] cmp crossing Suc show ?thesis
          by (subst timespec_back.simps) simp
      qed
    qed
  qed
qed

lemma vch_item_get_last_value_by_timespec_result:
  assumes ok: "chunks_ok (vi_chunks item)" and "ts_sec ts \<noteq> 0"
  obtains (none) "vch_item_get_last_value_by_timespec item ts now = Some None"
      "\<forall>v \<in> set (item_values item). ts_key ts < rec_key v"
  | (found) ci i where "vch_item_get_last_value_by_timespec item ts now = Some (Some (ci, i))"
      "last_not_after_ts (vi_chunks item) ts ci i"
proof (cases rule: vch_item_get_last_value_result [OF ok refl, where e = "ts_sec ts" and now = now])
  case 1
  with assms(2) show thesis
    by (intro none) (auto simp: vch_item_get_last_value_by_timespec_def ts_key_def less_prod_def)
next
  case (2 ci i)
  have gt: "\<forall>v \<in> set (values_from (vi_chunks item) ci (i + 1)). ts_key ts < rec_key v"
    using 2(2) assms(2) by (auto simp: last_not_after_def ts_key_def less_prod_def)
  have pos: "valid_pos (vi_chunks item) ci i" using 2(2) by (simp add: last_not_after_def)
  show thesis
  proof (cases "timespec_back (vi_chunks item) ts ci i")
    case None
    with timespec_back_result [OF ok pos gt] 2(1) show thesis
      by (intro none) (simp_all add: vch_item_get_last_value_by_timespec_def item_values_simp)
  next
    case (Some p)
    with timespec_back_result [OF ok pos gt] 2(1) show thesis
      by (cases p) (auto simp: vch_item_get_last_value_by_timespec_def intro: found)
  qed
qed

subsection \<open>Requests for a period or a number of values\<close>

text \<open>
  The loops that fill the vector go backwards from a position: \<open>take_back cond\<close> takes values as
  long as the condition holds for the value and the number of values already in the vector, and
  goes on in the previous chunk.
\<close>

function collect_by_time :: "item_value_type \<Rightarrow> vc_chunk list \<Rightarrow> int \<Rightarrow> nat \<Rightarrow> int \<Rightarrow> history_record list \<Rightarrow> history_record list" where
  "collect_by_time t cs start ci index vs =
    (if slot_sec (cs ! ci) (last_value (cs ! ci)) > start then
       (if index \<ge> first_value (cs ! ci) \<and> slot_sec (cs ! ci) index > start then
          collect_by_time t cs start ci (index - 1)
            (vc_history_record_vector_append vs t (slots (cs ! ci) index))
        else (case ci of
            0 \<Rightarrow> vs
          | Suc cj \<Rightarrow> collect_by_time t cs start cj (last_value (cs ! cj)) vs))
     else vs)"
  by auto
termination
  by (relation "measures [\<lambda>(t, cs, start, ci, i, vs). ci,
      \<lambda>(t, cs, start, ci, i, vs). nat (i - first_value (cs ! ci) + 1)]") auto

function collect_by_count :: "item_value_type \<Rightarrow> vc_chunk list \<Rightarrow> nat \<Rightarrow> nat \<Rightarrow> int \<Rightarrow> history_record list \<Rightarrow> history_record list" where
  "collect_by_count t cs n ci index vs =
    (if length vs < n then
       (if index \<ge> first_value (cs ! ci) then
          collect_by_count t cs n ci (index - 1)
            (vc_history_record_vector_append vs t (slots (cs ! ci) index))
        else (case ci of
            0 \<Rightarrow> vs
          | Suc cj \<Rightarrow> collect_by_count t cs n cj (last_value (cs ! cj)) vs))
     else vs)"
  by auto
termination
  by (relation "measures [\<lambda>(t, cs, n, ci, i, vs). ci,
      \<lambda>(t, cs, n, ci, i, vs). nat (i - first_value (cs ! ci) + 1)]") auto

declare collect_by_time.simps [simp del] collect_by_count.simps [simp del]

definition vch_item_get_values_by_time ::
  "vc_item \<Rightarrow> history_record list \<Rightarrow> int \<Rightarrow> int \<Rightarrow> int \<Rightarrow> (vc_item \<times> history_record list) option" where
  "vch_item_get_values_by_time item vs seconds timestamp now =
    (let start = timestamp - seconds;
         item1 = (if (vi_range item \<noteq> 0 \<or> \<not> vi_cached_all item) \<and> vi_range item < seconds + now - timestamp
                  then item\<lparr>vi_range := seconds + now - timestamp\<rparr> else item)
     in map_option (\<lambda>found. case found of
            None \<Rightarrow> (item1, vs)
          | Some (ci, index) \<Rightarrow>
              (item1, collect_by_time (vi_value_type item1) (vi_chunks item1) start ci index vs))
          (vch_item_get_last_value item1 timestamp now))"

definition vch_item_get_values_by_count ::
  "vc_item \<Rightarrow> history_record list \<Rightarrow> int \<Rightarrow> int \<Rightarrow> int \<Rightarrow> (vc_item \<times> history_record list) option" where
  "vch_item_get_values_by_count item vs n timestamp now =
    map_option (\<lambda>found.
        (let (item1, vs1) = (case found of
            None \<Rightarrow> (item, vs)
          | Some (ci, index) \<Rightarrow>
              (let vs1 = collect_by_count (vi_value_type item) (vi_chunks item) (nat n) ci index vs
               in if int (length vs1) = n then
                    (if vi_range item < now - rec_sec (last vs1)
                     then item\<lparr>vi_range := now - rec_sec (last vs1)\<rparr> else item, vs1)
                  else (item, vs1)))
         in if int (length vs1) < n then (item1\<lparr>vi_range := 0, vi_cached_all := True\<rparr>, vs1)
            else (item1, vs1)))
      (vch_item_get_last_value item timestamp now)"

lemma slot_in_values:
  "valid_pos cs ci i \<Longrightarrow> slots (cs ! ci) i \<in> set (concat (map chunk_values cs))"
  by (auto simp: valid_pos_def chunk_values_def intro!: bexI [of _ "cs ! ci"])

lemma chunk_secs_le_last:
  assumes "chunks_ok cs" "valid_pos cs ci i"
  shows "slot_sec (cs ! ci) i \<le> slot_sec (cs ! ci) (last_value (cs ! ci))"
proof (cases "i = last_value (cs ! ci)")
  case False
  then have pos: "valid_pos cs ci (last_value (cs ! ci))" "i \<le> last_value (cs ! ci) - 1" "first_value (cs ! ci) \<le> i"
    using assms(2) by (auto simp: valid_pos_def)
  then have "slots (cs ! ci) i \<in> set (values_before cs ci (last_value (cs ! ci)))"
    by (auto simp: values_before_def)
  with chunks_ok_sorted(1) [OF assms(1) pos(1)] key_sec_mono show ?thesis by blast
qed simp

text \<open>Both loops take the values from the position backwards; the first stops at the start.\<close>

lemma collect_by_time_takes:
  assumes "chunks_ok cs" "ci < length cs" "first_value (cs ! ci) \<le> i + 1" "i \<le> last_value (cs ! ci)"
    "\<forall>v \<in> set (concat (map chunk_values cs)). hv_typed t (hr_value v)"
  shows "collect_by_time t cs start ci i vs = vs @ filter (\<lambda>v. start < rec_sec v) (rev (values_before cs ci (i + 1)))"
  using assms
proof (induction t cs start ci i vs rule: collect_by_time.induct)
  case (1 t cs start ci i vs)
  let ?c = "cs ! ci"
  have pos_last: "valid_pos cs ci (last_value ?c)" using chunks_okD [OF "1.prems"(1,2)] "1.prems"(2) by (simp add: valid_pos_def)
  show ?case
  proof (cases "slot_sec ?c (last_value ?c) > start")
    case False
    have "\<forall>v \<in> set (values_before cs ci (i + 1)). \<not> start < rec_sec v"
    proof
      fix v assume "v \<in> set (values_before cs ci (i + 1))"
      then have "v \<in> set (values_before cs ci (last_value ?c + 1))"
        using "1.prems"(4) by (auto simp: values_before_def)
      then have "rec_sec v \<le> slot_sec ?c (last_value ?c)"
        using chunks_ok_sorted(1) [OF "1.prems"(1) pos_last] values_step(2) [OF pos_last] key_sec_mono by fastforce
      with False show "\<not> start < rec_sec v" by simp
    qed
    then have "filter (\<lambda>v. start < rec_sec v) (rev (values_before cs ci (i + 1))) = []"
      by (simp add: filter_empty_conv)
    with False show ?thesis by (subst collect_by_time.simps) simp
  next
    case outer: True
    show ?thesis
    proof (cases "first_value ?c \<le> i \<and> slot_sec ?c i > start")
      case True
      then have pos: "valid_pos cs ci i" using "1.prems" by (simp add: valid_pos_def)
      have "hv_typed t (hr_value (slots ?c i))"
        using "1.prems"(5) slot_in_values [OF pos] by blast
      then have step: "collect_by_time t cs start ci i vs = collect_by_time t cs start ci (i - 1) (vs @ [slots ?c i])"
        using outer True by (subst collect_by_time.simps) simp
      from "1.IH"(1) [OF outer True] "1.prems" True \<open>hv_typed t _\<close> show ?thesis
        by (simp add: step values_step(2) [OF pos])
    next
      case False
      have cut: "filter (\<lambda>v. start < rec_sec v) (rev (values_before cs ci (i + 1))) =
          filter (\<lambda>v. start < rec_sec v) (rev (concat (map chunk_values (take ci cs))))"
      proof (cases "first_value ?c \<le> i")
        case True
        then have pos: "valid_pos cs ci i" using "1.prems" by (simp add: valid_pos_def)
        have "\<forall>v \<in> set (values_before cs ci (i + 1)). rec_sec v \<le> slot_sec ?c i"
          using chunks_ok_sorted(1) [OF "1.prems"(1) pos] values_step(2) [OF pos] key_sec_mono by fastforce
        with False True have "\<forall>v \<in> set (values_before cs ci (i + 1)). \<not> start < rec_sec v" by fastforce
        then show ?thesis by (simp add: filter_empty_conv values_before_def)
      qed (use "1.prems"(3) in \<open>simp add: values_before_def\<close>)
      show ?thesis
      proof (cases ci)
        case 0
        with outer False cut show ?thesis by (subst collect_by_time.simps) auto
      next
        case (Suc cj)
        then have cj: "cj < length cs" "Suc cj < length cs" using "1.prems"(2) by simp_all
        have step: "collect_by_time t cs start ci i vs = collect_by_time t cs start cj (last_value (cs ! cj)) vs"
          using outer False Suc by (subst collect_by_time.simps) auto
        have "concat (map chunk_values (take ci cs)) = values_before cs cj (last_value (cs ! cj) + 1)"
          using values_before_prev [OF cj(2) chunks_okD(2) [OF "1.prems"(1) cj(1)]] Suc by simp
        with "1.IH"(2) [OF outer False Suc "1.prems"(1) cj(1) _ order_refl "1.prems"(5)]
          chunks_okD(2) [OF "1.prems"(1) cj(1)] show ?thesis
          by (simp add: step cut)
      qed
    qed
  qed
qed

lemma collect_by_count_takes:
  assumes "chunks_ok cs" "ci < length cs" "first_value (cs ! ci) \<le> i + 1" "i \<le> last_value (cs ! ci)"
    "\<forall>v \<in> set (concat (map chunk_values cs)). hv_typed t (hr_value v)"
  shows "collect_by_count t cs n ci i vs = vs @ take (n - length vs) (rev (values_before cs ci (i + 1)))"
  using assms
proof (induction t cs n ci i vs rule: collect_by_count.induct)
  case (1 t cs n ci i vs)
  let ?c = "cs ! ci"
  show ?case
  proof (cases "length vs < n")
    case False
    then show ?thesis by (subst collect_by_count.simps) simp
  next
    case outer: True
    show ?thesis
    proof (cases "first_value ?c \<le> i")
      case True
      then have pos: "valid_pos cs ci i" using "1.prems" by (simp add: valid_pos_def)
      have typed: "hv_typed t (hr_value (slots ?c i))"
        using "1.prems"(5) slot_in_values [OF pos] by blast
      then have step: "collect_by_count t cs n ci i vs = collect_by_count t cs n ci (i - 1) (vs @ [slots ?c i])"
        using outer True by (subst collect_by_count.simps) simp
      from "1.IH"(1) [OF outer True] "1.prems" True typed outer show ?thesis
        by (simp add: step values_step(2) [OF pos] take_Cons' Suc_diff_Suc)
    next
      case False
      then have cut: "values_before cs ci (i + 1) = concat (map chunk_values (take ci cs))"
        using "1.prems"(3) by (simp add: values_before_def)
      show ?thesis
      proof (cases ci)
        case 0
        with outer False cut show ?thesis by (subst collect_by_count.simps) auto
      next
        case (Suc cj)
        then have cj: "cj < length cs" "Suc cj < length cs" using "1.prems"(2) by simp_all
        have step: "collect_by_count t cs n ci i vs = collect_by_count t cs n cj (last_value (cs ! cj)) vs"
          using outer False Suc by (subst collect_by_count.simps) auto
        have "concat (map chunk_values (take ci cs)) = values_before cs cj (last_value (cs ! cj) + 1)"
          using values_before_prev [OF cj(2) chunks_okD(2) [OF "1.prems"(1) cj(1)]] Suc by simp
        with "1.IH"(2) [OF outer False Suc "1.prems"(1) cj(1) _ order_refl "1.prems"(5)]
          chunks_okD(2) [OF "1.prems"(1) cj(1)] show ?thesis
          by (simp add: step cut)
      qed
    qed
  qed
qed

lemma vc_item_ok_chunks: "vc_item_ok item \<Longrightarrow> chunks_ok (vi_chunks item)"
  by (simp add: vc_item_ok_def chunks_ok_def item_values_simp)

lemma values_up_to:
  assumes "last_not_after cs t ci i"
  shows "values_before cs ci (i + 1) = filter (\<lambda>v. rec_sec v \<le> t) (concat (map chunk_values cs))"
proof -
  have pos: "valid_pos cs ci i" using assms by (simp add: last_not_after_def)
  have "concat (map chunk_values cs) = values_before cs ci (i + 1) @ values_from cs ci (i + 1)"
    using pos by (intro values_split) (auto simp: valid_pos_def)
  moreover have "filter (\<lambda>v. rec_sec v \<le> t) (values_from cs ci (i + 1)) = []"
    using assms by (auto simp: last_not_after_def filter_empty_conv)
  moreover have "filter (\<lambda>v. rec_sec v \<le> t) (values_before cs ci (i + 1)) = values_before cs ci (i + 1)"
    using assms by (auto simp: last_not_after_def filter_id_conv)
  ultimately show ?thesis by simp
qed

text \<open>
  On a well-formed item a read by time comes back, for every period end other than 0, with exactly
  the cached values of the half-open period \<open>timestamp - seconds < sec \<le> timestamp\<close>, newest first, a
  read by count with the newest \<open>n\<close> values up to the end of the period; both leave everything but
  the request range and the flag for complete caching alone.
\<close>

lemma reads_by_time:
  assumes "vc_item_ok item" "timestamp \<noteq> 0"
  shows "\<exists>item1. vch_item_get_values_by_time item [] seconds timestamp now = Some (item1,
      rev (filter (\<lambda>v. timestamp - seconds < rec_sec v \<and> rec_sec v \<le> timestamp) (item_values item))) \<and>
    item1 = item\<lparr>vi_range := vi_range item1\<rparr>"
proof -
  define item1 where "item1 = (if (vi_range item \<noteq> 0 \<or> \<not> vi_cached_all item) \<and>
    vi_range item < seconds + now - timestamp then item\<lparr>vi_range := seconds + now - timestamp\<rparr> else item)"
  have same: "vi_chunks item1 = vi_chunks item" "vi_value_type item1 = vi_value_type item"
    by (simp_all add: item1_def)
  have frame: "item1 = item\<lparr>vi_range := vi_range item1\<rparr>" by (simp add: item1_def)
  have ok: "chunks_ok (vi_chunks item1)" "chunks_ok (vi_chunks item)"
    using vc_item_ok_chunks [OF assms(1)] same by simp_all
  have typed: "\<forall>v \<in> set (concat (map chunk_values (vi_chunks item))). hv_typed (vi_value_type item) (hr_value v)"
    using assms(1) by (simp add: vc_item_ok_def item_values_simp)
  have t: "timestamp = (if timestamp = 0 then now else timestamp)" using assms(2) by simp
  have eq1: "vch_item_get_values_by_time item [] seconds timestamp now =
      map_option (\<lambda>found. case found of None \<Rightarrow> (item1, []) | Some (ci, i) \<Rightarrow> (item1,
        collect_by_time (vi_value_type item) (vi_chunks item) (timestamp - seconds) ci i []))
        (vch_item_get_last_value item1 timestamp now)"
    unfolding vch_item_get_values_by_time_def Let_def item1_def [symmetric] same ..
  show ?thesis
  proof (cases rule: vch_item_get_last_value_result [OF ok(1) t])
    case 1
    then have "filter (\<lambda>v. timestamp - seconds < rec_sec v \<and> rec_sec v \<le> timestamp) (item_values item) = []"
      by (fastforce simp: filter_empty_conv item_values_simp same)
    with 1 show ?thesis by (intro exI [of _ item1] conjI frame) (simp add: eq1)
  next
    case (2 ci i)
    then have pos: "valid_pos (vi_chunks item) ci i" by (simp add: last_not_after_def same)
    have "collect_by_time (vi_value_type item) (vi_chunks item) (timestamp - seconds) ci i [] =
        filter (\<lambda>v. timestamp - seconds < rec_sec v) (rev (values_before (vi_chunks item) ci (i + 1)))"
      using collect_by_time_takes [OF ok(2) _ _ _ typed, of ci i "timestamp - seconds" "[]"] pos
      by (simp add: valid_pos_def)
    also have "\<dots> = rev (filter (\<lambda>v. timestamp - seconds < rec_sec v \<and> rec_sec v \<le> timestamp) (item_values item))"
      using values_up_to [of "vi_chunks item" timestamp ci i] 2(2) same
      by (simp add: item_values_simp flip: rev_filter) (simp add: filter_filter conj_commute)
    finally show ?thesis using 2(1) by (intro exI [of _ item1] conjI frame) (simp add: eq1)
  qed
qed

lemma reads_by_count:
  assumes "vc_item_ok item" "timestamp \<noteq> 0" "0 < n"
  shows "\<exists>item2. vch_item_get_values_by_count item [] n timestamp now = Some (item2,
      take (nat n) (rev (filter (\<lambda>v. rec_sec v \<le> timestamp) (item_values item)))) \<and>
    item2 = item\<lparr>vi_range := vi_range item2, vi_cached_all := vi_cached_all item2\<rparr>"
proof -
  have ok: "chunks_ok (vi_chunks item)" using vc_item_ok_chunks [OF assms(1)] .
  have typed: "\<forall>v \<in> set (concat (map chunk_values (vi_chunks item))). hv_typed (vi_value_type item) (hr_value v)"
    using assms(1) by (simp add: vc_item_ok_def item_values_simp)
  have t: "timestamp = (if timestamp = 0 then now else timestamp)" using assms(2) by simp
  show ?thesis
  proof (cases rule: vch_item_get_last_value_result [OF ok t])
    case 1
    then have "filter (\<lambda>v. rec_sec v \<le> timestamp) (item_values item) = []"
      by (fastforce simp: filter_empty_conv)
    with 1 assms(3) show ?thesis by (auto simp: vch_item_get_values_by_count_def)
  next
    case (2 ci i)
    then have pos: "valid_pos (vi_chunks item) ci i" by (simp add: last_not_after_def)
    have "collect_by_count (vi_value_type item) (vi_chunks item) (nat n) ci i [] =
        take (nat n) (rev (filter (\<lambda>v. rec_sec v \<le> timestamp) (item_values item)))"
      using collect_by_count_takes [OF ok _ _ _ typed, of ci i "nat n" "[]"] pos values_up_to [OF 2(2)]
      by (simp add: valid_pos_def item_values_simp)
    with 2(1) show ?thesis by (auto simp: vch_item_get_values_by_count_def Let_def)
  qed
qed

end
