(* ===== verification/VcAppend.thy ===== *)
theory VcAppend
  imports VcLookup
begin

text \<open>
  Changes of the history of one item (\<^verbatim>\<open>libs/zbxdbcache/valuecache.c\<close>): values added at the end
  and at the beginning, values removed, and the removal of values outside the request range, as
  operations on the list of the item's values, with the references of the string pool kept
  exact on every path, failures included.
\<close>

subsection \<open>Copying values into a chunk\<close>

abbreviation uses_pool :: "item_value_type \<Rightarrow> bool" where
  "uses_pool t \<equiv> t \<in> {ITEM_VALUE_TYPE_STR, ITEM_VALUE_TYPE_TEXT, ITEM_VALUE_TYPE_LOG}"

lemma record_strings_no_pool: "\<not> uses_pool t \<Longrightarrow> record_strings t vs = {#}"
  by (cases t) auto

lemma vc_item_dup_value_step:
  assumes "world_ok w" "uses_pool t" "hv_typed t v" "vc_item_dup_value w t v vc = (r, vc')"
  shows "r = None \<and> pool_step vc vc' {#} {#} \<or> r = Some v \<and> pool_step vc vc' {#} (hv_strings t v)"
proof (cases "t = ITEM_VALUE_TYPE_LOG")
  case True
  with assms(3) obtain l where v: "v = Hv_log l" by auto
  obtain r1 vc1 where d: "vc_item_logdup w l vc = (r1, vc1)" by fastforce
  from vc_item_logdup_step [OF assms(1) d] assms(4) True v d show ?thesis
    by (cases r1) (auto simp: vc_item_dup_value_def)
next
  case False
  with assms(2,3) obtain s where v: "v = Hv_str s" and t: "hv_strings t v = {#s#}"
    by (cases t) auto
  obtain r1 vc1 where d: "vc_item_strdup w s vc = (r1, vc1)" by fastforce
  from vc_item_strdup_step [OF assms(1) d] assms(2,4) False v d show ?thesis
    by (cases r1; cases t) (auto simp: vc_item_dup_value_def)
qed

text \<open>The head (the tail) chunk of an item has got values at its end (its beginning).\<close>

definition head_grown :: "vc_item \<Rightarrow> vc_item \<Rightarrow> history_record list \<Rightarrow> bool" where
  "head_grown item item' vs \<longleftrightarrow> (\<exists>c'. item' = item\<lparr>vi_chunks := butlast (vi_chunks item) @ [c']\<rparr> \<and>
    (let c = last (vi_chunks item) in
     vch_addr c' = vch_addr c \<and> first_value c' = first_value c \<and> slots_num c' = slots_num c \<and>
     last_value c' = last_value c + int (length vs) \<and> chunk_values c' = chunk_values c @ vs))"

definition tail_grown :: "vc_item \<Rightarrow> vc_item \<Rightarrow> history_record list \<Rightarrow> bool" where
  "tail_grown item item' vs \<longleftrightarrow> (\<exists>c'. item' = item\<lparr>vi_chunks := c' # tl (vi_chunks item)\<rparr> \<and>
    (let c = hd (vi_chunks item) in
     vch_addr c' = vch_addr c \<and> last_value c' = last_value c \<and> slots_num c' = slots_num c \<and>
     first_value c' = first_value c - int (length vs) \<and> chunk_values c' = vs @ chunk_values c))"

lemma head_grown_trans: "head_grown a b vs \<Longrightarrow> head_grown b c ws \<Longrightarrow> head_grown a c (vs @ ws)"
  by (fastforce simp: head_grown_def Let_def)

lemma tail_grown_trans: "tail_grown a b vs \<Longrightarrow> tail_grown b c ws \<Longrightarrow> tail_grown a c (ws @ vs)"
  by (fastforce simp: tail_grown_def Let_def)

lemma chunk_values_cong:
  "first_value c = first_value d \<Longrightarrow> last_value c = last_value d \<Longrightarrow>
   (\<And>i. first_value d \<le> i \<Longrightarrow> i \<le> last_value d \<Longrightarrow> slots c i = slots d i) \<Longrightarrow> chunk_values c = chunk_values d"
  by (simp add: chunk_values_def)

lemma chunk_values_put_end:
  assumes "first_value c \<le> last_value c + 1"
  shows "chunk_values ((put_slot (last_value c + 1) r c)\<lparr>last_value := last_value c + 1\<rparr>) = chunk_values c @ [r]"
  using assms by (simp add: chunk_values_def put_slot_def upto_rec2)

lemma chunk_values_put_beginning:
  assumes "first_value c \<le> last_value c + 1"
  shows "chunk_values ((put_slot (first_value c - 1) r c)\<lparr>first_value := first_value c - 1\<rparr>) = r # chunk_values c"
  using assms by (simp add: chunk_values_def put_slot_def upto_rec1 [of "first_value c - 1"])

lemma put_slots_fields [simp]:
  "first_value (put_slots k vs c) = first_value c" "last_value (put_slots k vs c) = last_value c"
  "slots_num (put_slots k vs c) = slots_num c" "vch_addr (put_slots k vs c) = vch_addr c"
  "first_value (put_slot k r c) = first_value c" "last_value (put_slot k r c) = last_value c"
  "slots_num (put_slot k r c) = slots_num c" "vch_addr (put_slot k r c) = vch_addr c"
  by (simp_all add: put_slots_def put_slot_def)

lemma map_put_slots: "map (slots (put_slots k vs c)) [k .. k + int (length vs) - 1] = vs"
proof (rule nth_equalityI)
  fix j assume "j < length (map (slots (put_slots k vs c)) [k .. k + int (length vs) - 1])"
  then show "map (slots (put_slots k vs c)) [k .. k + int (length vs) - 1] ! j = vs ! j"
    by (simp add: put_slots_def nth_upto)
qed simp

lemma chunk_values_put_slots_end:
  assumes "first_value c \<le> last_value c + 1"
  shows "chunk_values ((put_slots (last_value c + 1) vs c)\<lparr>last_value := last_value c + int (length vs)\<rparr>) =
    chunk_values c @ vs"
proof -
  have "[first_value c .. last_value c + int (length vs)] =
      [first_value c .. last_value c] @ [last_value c + 1 .. last_value c + 1 + int (length vs) - 1]"
    using upto_append [of "first_value c" "last_value c + 1" "last_value c + int (length vs)"] assms by simp
  moreover have "map (slots (put_slots (last_value c + 1) vs c)) [first_value c .. last_value c] = chunk_values c"
    by (simp add: chunk_values_def put_slots_def)
  ultimately show ?thesis
    using map_put_slots [of "last_value c + 1" vs c] by (simp add: chunk_values_def)
qed

lemma chunk_values_put_slots_beginning:
  assumes "first_value c \<le> last_value c + 1"
  shows "chunk_values ((put_slots (first_value c - int (length vs)) vs c)\<lparr>first_value := first_value c - int (length vs)\<rparr>) =
    vs @ chunk_values c"
proof -
  have "[first_value c - int (length vs) .. last_value c] =
      [first_value c - int (length vs) .. first_value c - int (length vs) + int (length vs) - 1] @
      [first_value c .. last_value c]"
    using upto_append [of "first_value c - int (length vs)" "first_value c" "last_value c"] assms by simp
  moreover have "map (slots (put_slots (first_value c - int (length vs)) vs c)) [first_value c .. last_value c] = chunk_values c"
    by (simp add: chunk_values_def put_slots_def)
  ultimately show ?thesis
    using map_put_slots [of "first_value c - int (length vs)" vs c] by (simp add: chunk_values_def)
qed

lemma head_grownI:
  assumes "c = last (vi_chunks item)" "vch_addr (f c) = vch_addr c" "first_value (f c) = first_value c"
    "slots_num (f c) = slots_num c" "last_value (f c) = last_value c + int (length vs)"
    "chunk_values (f c) = chunk_values c @ vs"
  shows "head_grown item (upd_head f item) vs"
  unfolding head_grown_def upd_head_def Let_def
  by (rule exI [of _ "f c"]) (use assms in simp)

lemma tail_grownI:
  assumes "c = hd (vi_chunks item)" "vch_addr (f c) = vch_addr c" "last_value (f c) = last_value c"
    "slots_num (f c) = slots_num c" "first_value (f c) = first_value c - int (length vs)"
    "chunk_values (f c) = vs @ chunk_values c"
  shows "tail_grown item (upd_tail f item) vs"
  unfolding tail_grown_def upd_tail_def Let_def
  by (rule exI [of _ "f c"]) (use assms in simp)

lemma grown_refl:
  assumes "vi_chunks item \<noteq> []"
  shows "head_grown item item []" "tail_grown item item []"
proof -
  have "item = item\<lparr>vi_chunks := butlast (vi_chunks item) @ [last (vi_chunks item)]\<rparr>"
    "item = item\<lparr>vi_chunks := hd (vi_chunks item) # tl (vi_chunks item)\<rparr>"
    using assms by simp_all
  then show "head_grown item item []" "tail_grown item item []"
    unfolding head_grown_def tail_grown_def Let_def by fastforce+
qed

lemma head_grown_put:
  assumes "vi_chunks item \<noteq> []" "first_value (last (vi_chunks item)) \<le> last_value (last (vi_chunks item)) + 1"
  shows "head_grown item (upd_head (\<lambda>c. (put_slot (last_value (last (vi_chunks item)) + 1) r c)
    \<lparr>last_value := last_value (last (vi_chunks item)) + 1\<rparr>) item) [r]"
  using assms(2) by (intro head_grownI [OF refl]) (simp_all add: chunk_values_put_end)

lemma tail_grown_put:
  assumes "vi_chunks item \<noteq> []" "first_value (hd (vi_chunks item)) \<le> last_value (hd (vi_chunks item)) + 1"
  shows "tail_grown item (upd_tail (\<lambda>c. (put_slot (first_value (hd (vi_chunks item)) - 1) r c)
    \<lparr>first_value := first_value (hd (vi_chunks item)) - 1\<rparr>) item) [r]"
  using assms(2) by (intro tail_grownI [OF refl]) (simp_all add: chunk_values_put_beginning)

lemma head_grown_null:
  "head_grown item (upd_head (put_slot (last_value (last (vi_chunks item)) + 1) r) item) []"
  by (intro head_grownI [OF refl]) (simp_all add: chunk_values_def put_slot_def)

lemma tail_grown_null:
  "tail_grown item (upd_tail (put_slot (first_value (hd (vi_chunks item)) - 1) r) item) []"
  by (intro tail_grownI [OF refl]) (simp_all add: chunk_values_def put_slot_def)

lemma head_grown_facts:
  assumes "head_grown item item' vs" "first_value (last (vi_chunks item)) \<le> last_value (last (vi_chunks item)) + 1"
  shows "vi_chunks item' \<noteq> []" "first_value (last (vi_chunks item')) \<le> last_value (last (vi_chunks item')) + 1"
    "vi_value_type item' = vi_value_type item"
    "last_value (last (vi_chunks item')) = last_value (last (vi_chunks item)) + int (length vs)"
    "vi_values_total item' = vi_values_total item"
  using assms by (auto simp: head_grown_def Let_def)

lemma tail_grown_facts:
  assumes "tail_grown item item' vs" "first_value (hd (vi_chunks item)) \<le> last_value (hd (vi_chunks item)) + 1"
  shows "vi_chunks item' \<noteq> []" "first_value (hd (vi_chunks item')) \<le> last_value (hd (vi_chunks item')) + 1"
    "vi_value_type item' = vi_value_type item"
    "first_value (hd (vi_chunks item')) = first_value (hd (vi_chunks item)) - int (length vs)"
    "vi_values_total item' = vi_values_total item"
  using assms by (auto simp: tail_grown_def Let_def)

lemma history_record_eta [simp]: "\<lparr>hr_timestamp = hr_timestamp v, hr_value = hr_value v\<rparr> = v"
  by simp

lemma copy_loop_at_end_result:
  assumes "world_ok w" "uses_pool (vi_value_type item)" "copy_loop_at_end w item vs vc = (ret, item', vc')"
    "vi_chunks item \<noteq> []" "first_value (last (vi_chunks item)) \<le> last_value (last (vi_chunks item)) + 1"
    "\<forall>v \<in> set vs. hv_typed (vi_value_type item) (hr_value v)"
  shows "\<exists>k \<le> length vs. head_grown item item' (take k vs) \<and> (ret = Succeed \<longrightarrow> k = length vs) \<and>
    pool_step vc vc' {#} (record_strings (vi_value_type item) (take k vs))"
  using assms(2-)
proof (induction vs arbitrary: item vc)
  case Nil
  then have "item' = item" "vc' = vc" by simp_all
  moreover from Nil have "head_grown item item []" by (intro grown_refl)
  ultimately show ?case by simp
next
  case (Cons v vs)
  let ?t = "vi_value_type item" and ?i = "last_value (last (vi_chunks item)) + 1"
  obtain r vc1 where d: "vc_item_dup_value w ?t (hr_value v) vc = (r, vc1)" by fastforce
  have "r = None \<and> pool_step vc vc1 {#} {#} \<or> r = Some (hr_value v) \<and> pool_step vc vc1 {#} (hv_strings ?t (hr_value v))"
    using Cons.prems by (intro vc_item_dup_value_step [OF assms(1) _ _ d]) auto
  then show ?case
  proof (elim disjE conjE)
    assume r: "r = None" "pool_step vc vc1 {#} {#}"
    with Cons.prems(2) d head_grown_null [of item] show ?thesis
      by (intro exI [of _ 0]) (auto simp: Let_def)
  next
    assume r: "r = Some (hr_value v)" "pool_step vc vc1 {#} (hv_strings ?t (hr_value v))"
    define item1 where "item1 = upd_head (\<lambda>c. (put_slot ?i v c)\<lparr>last_value := ?i\<rparr>) item"
    have g: "head_grown item item1 [v]" unfolding item1_def by (rule head_grown_put [OF Cons.prems(3,4)])
    have eq: "copy_loop_at_end w item1 vs vc1 = (ret, item', vc')"
      using Cons.prems(2) d r(1) by (simp add: Let_def item1_def)
    note f = head_grown_facts [OF g Cons.prems(4)]
    obtain k where k: "k \<le> length vs" "head_grown item1 item' (take k vs)" "ret = Succeed \<longrightarrow> k = length vs"
        "pool_step vc1 vc' {#} (record_strings ?t (take k vs))"
      using Cons.IH [OF _ eq f(1,2)] Cons.prems f(3) by auto
    have "pool_step vc vc' {#} (record_strings ?t (take (Suc k) (v # vs)))"
      using pool_step_trans [OF r(2)] pool_step_frame(2) [OF k(4), of "hv_strings ?t (hr_value v)"] by simp
    with k head_grown_trans [OF g k(2)] show ?thesis by (intro exI [of _ "Suc k"]) simp
  qed
qed

lemma copy_loop_at_beginning_result:
  assumes "world_ok w" "uses_pool (vi_value_type item)" "copy_loop_at_beginning w item vs vc = (ret, item', vc')"
    "vi_chunks item \<noteq> []" "first_value (hd (vi_chunks item)) \<le> last_value (hd (vi_chunks item)) + 1"
    "\<forall>v \<in> set vs. hv_typed (vi_value_type item) (hr_value v)"
  shows "\<exists>k \<le> length vs. tail_grown item item' (rev (take k vs)) \<and> (ret = Succeed \<longrightarrow> k = length vs) \<and>
    pool_step vc vc' {#} (record_strings (vi_value_type item) (rev (take k vs)))"
  using assms(2-)
proof (induction vs arbitrary: item vc)
  case Nil
  then have "item' = item" "vc' = vc" by simp_all
  moreover from Nil have "tail_grown item item []" by (intro grown_refl)
  ultimately show ?case by simp
next
  case (Cons v vs)
  let ?t = "vi_value_type item" and ?i = "first_value (hd (vi_chunks item)) - 1"
  obtain r vc1 where d: "vc_item_dup_value w ?t (hr_value v) vc = (r, vc1)" by fastforce
  have "r = None \<and> pool_step vc vc1 {#} {#} \<or> r = Some (hr_value v) \<and> pool_step vc vc1 {#} (hv_strings ?t (hr_value v))"
    using Cons.prems by (intro vc_item_dup_value_step [OF assms(1) _ _ d]) auto
  then show ?case
  proof (elim disjE conjE)
    assume r: "r = None" "pool_step vc vc1 {#} {#}"
    with Cons.prems(2) d tail_grown_null [of item] show ?thesis
      by (intro exI [of _ 0]) (auto simp: Let_def)
  next
    assume r: "r = Some (hr_value v)" "pool_step vc vc1 {#} (hv_strings ?t (hr_value v))"
    define item1 where "item1 = upd_tail (\<lambda>c. (put_slot ?i v c)\<lparr>first_value := ?i\<rparr>) item"
    have g: "tail_grown item item1 [v]" unfolding item1_def by (rule tail_grown_put [OF Cons.prems(3,4)])
    have eq: "copy_loop_at_beginning w item1 vs vc1 = (ret, item', vc')"
      using Cons.prems(2) d r(1) by (simp add: Let_def item1_def)
    note f = tail_grown_facts [OF g Cons.prems(4)]
    obtain k where k: "k \<le> length vs" "tail_grown item1 item' (rev (take k vs))" "ret = Succeed \<longrightarrow> k = length vs"
        "pool_step vc1 vc' {#} (record_strings ?t (rev (take k vs)))"
      using Cons.IH [OF _ eq f(1,2)] Cons.prems f(3) by auto
    have "pool_step vc vc' {#} (record_strings ?t (rev (take (Suc k) (v # vs))))"
      using pool_step_trans [OF r(2)] pool_step_frame(1) [OF k(4), of "hv_strings ?t (hr_value v)"] by simp
    with k tail_grown_trans [OF g k(2)] show ?thesis by (intro exI [of _ "Suc k"]) simp
  qed
qed

lemma vch_item_copy_values_at_end_result:
  assumes "world_ok w" "vch_item_copy_values_at_end w item vs vc = (ret, item', vc')"
    "vi_chunks item \<noteq> []" "first_value (last (vi_chunks item)) \<le> last_value (last (vi_chunks item)) + 1"
    "\<forall>v \<in> set vs. hv_typed (vi_value_type item) (hr_value v)"
  obtains k item1 where "k \<le> length vs" "head_grown item item1 (take k vs)" "ret = Succeed \<longrightarrow> k = length vs"
    "item' = item1\<lparr>vi_values_total := vi_values_total item + int k\<rparr>"
    "pool_step vc vc' {#} (record_strings (vi_value_type item) (take k vs))"
proof (cases "uses_pool (vi_value_type item)")
  case True
  obtain r item1 vc1 where c: "copy_loop_at_end w item vs vc = (r, item1, vc1)" by (metis prod_cases3)
  with assms(2) True have eq: "r = ret" "vc1 = vc'" "item' = item1\<lparr>vi_values_total := vi_values_total item1 +
      (last_value (last (vi_chunks item1)) - last_value (last (vi_chunks item)))\<rparr>"
    by (auto simp: vch_item_copy_values_at_end_def Let_def)
  obtain k where k: "k \<le> length vs" "head_grown item item1 (take k vs)" "ret = Succeed \<longrightarrow> k = length vs"
      "pool_step vc vc' {#} (record_strings (vi_value_type item) (take k vs))"
    using copy_loop_at_end_result [OF assms(1) True c assms(3-5)] eq by auto
  from head_grown_facts [OF k(2) assms(4)] k(1) eq(3)
  have "item' = item1\<lparr>vi_values_total := vi_values_total item + int k\<rparr>" by simp
  from that [OF k(1,2,3) this k(4)] show thesis .
next
  case False
  define item1 where "item1 = upd_head (\<lambda>c. (put_slots (last_value (last (vi_chunks item)) + 1) vs c)
      \<lparr>last_value := last_value (last (vi_chunks item)) + int (length vs)\<rparr>) item"
  have g: "head_grown item item1 vs" unfolding item1_def
    by (intro head_grownI [OF refl]) (simp_all add: chunk_values_put_slots_end assms(4))
  have eq: "ret = Succeed" "vc' = vc" "item' = item1\<lparr>vi_values_total := vi_values_total item1 +
      (last_value (last (vi_chunks item1)) - last_value (last (vi_chunks item)))\<rparr>"
    using assms(2) False by (auto simp: vch_item_copy_values_at_end_def Let_def item1_def)
  then have "item' = item1\<lparr>vi_values_total := vi_values_total item + int (length vs)\<rparr>"
    using head_grown_facts [OF g assms(4)] by simp
  with that [of "length vs" item1] g eq(2) record_strings_no_pool [OF False] show thesis by simp
qed

lemma vch_item_copy_values_at_beginning_result:
  assumes "world_ok w" "vch_item_copy_values_at_beginning w item vs vc = (ret, item', vc')"
    "vi_chunks item \<noteq> []" "first_value (hd (vi_chunks item)) \<le> last_value (hd (vi_chunks item)) + 1"
    "\<forall>v \<in> set vs. hv_typed (vi_value_type item) (hr_value v)"
  obtains us ws item1 where "vs = us @ ws" "tail_grown item item1 ws"
    "ret = Succeed \<longrightarrow> ws = vs"
    "item' = item1\<lparr>vi_values_total := vi_values_total item + int (length ws)\<rparr>"
    "pool_step vc vc' {#} (record_strings (vi_value_type item) ws)"
proof (cases "uses_pool (vi_value_type item)")
  case True
  obtain r item1 vc1 where c: "copy_loop_at_beginning w item (rev vs) vc = (r, item1, vc1)" by (metis prod_cases3)
  with assms(2) True have eq: "r = ret" "vc1 = vc'" "item' = item1\<lparr>vi_values_total := vi_values_total item1 +
      (first_value (hd (vi_chunks item)) - first_value (hd (vi_chunks item1)))\<rparr>"
    by (auto simp: vch_item_copy_values_at_beginning_def Let_def)
  obtain k where k: "k \<le> length vs" "tail_grown item item1 (rev (take k (rev vs)))" "ret = Succeed \<longrightarrow> k = length vs"
      "pool_step vc vc' {#} (record_strings (vi_value_type item) (rev (take k (rev vs))))"
    using copy_loop_at_beginning_result [OF assms(1) True c assms(3,4)] assms(5) eq by auto
  have "item' = item1\<lparr>vi_values_total := vi_values_total item + int (length (rev (take k (rev vs))))\<rparr>"
    using tail_grown_facts [OF k(2) assms(4)] k(1) eq(3) by simp
  moreover have "vs = rev (drop k (rev vs)) @ rev (take k (rev vs))"
    by (metis append_take_drop_id rev_append rev_rev_ident)
  ultimately show thesis using that [OF _ k(2) _ _ k(4)] k(1,3) by auto
next
  case False
  define item1 where "item1 = upd_tail (\<lambda>c. (put_slots (first_value (hd (vi_chunks item)) - int (length vs)) vs c)
      \<lparr>first_value := first_value (hd (vi_chunks item)) - int (length vs)\<rparr>) item"
  have g: "tail_grown item item1 vs" unfolding item1_def
    by (intro tail_grownI [OF refl]) (simp_all add: chunk_values_put_slots_beginning assms(4))
  have eq: "ret = Succeed" "vc' = vc" "item' = item1\<lparr>vi_values_total := vi_values_total item1 +
      (first_value (hd (vi_chunks item)) - first_value (hd (vi_chunks item1)))\<rparr>"
    using assms(2) False by (auto simp: vch_item_copy_values_at_beginning_def Let_def item1_def)
  then have "item' = item1\<lparr>vi_values_total := vi_values_total item + int (length vs)\<rparr>"
    using tail_grown_facts [OF g assms(4)] by simp
  with that [of "[]" vs item1] g eq(2) record_strings_no_pool [OF False] show thesis by simp
qed

subsection \<open>Adding values at an end of the list\<close>

text \<open>The structure of the chunk list, without the order of the values.\<close>

definition item_shape :: "vc_item \<Rightarrow> bool" where
  "item_shape item \<longleftrightarrow> (\<forall>c \<in> set (vi_chunks item). chunk_ok c) \<and>
    (\<forall>c \<in> set (tl (vi_chunks item)). first_value c = 0) \<and>
    vi_values_total item = int (length (item_values item))"

lemma vch_item_add_chunk_result:
  assumes "world_ok w" "vch_item_add_chunk w item n i vc = (ret, item', vc')"
  shows "pool_step vc vc' {#} {#}" "ret = Fail \<Longrightarrow> item' = item"
    "ret = Succeed \<Longrightarrow> \<exists>c. slots_num c = n \<and>
      item' = item\<lparr>vi_chunks := (case i of None \<Rightarrow> vi_chunks item @ [c]
        | Some i \<Rightarrow> take i (vi_chunks item) @ c # drop i (vi_chunks item))\<rparr>"
proof -
  obtain r vc1 where m: "vc_item_malloc w (SIZEOF_CHUNK + SIZEOF_RECORD * nat (n - 1)) vc = (r, vc1)" by fastforce
  from vc_item_malloc_step [OF assms(1) m] assms(2) m show "pool_step vc vc' {#} {#}"
    by (auto simp: vch_item_add_chunk_def Let_def split: option.splits)
  from assms(2) m show "ret = Fail \<Longrightarrow> item' = item"
    by (auto simp: vch_item_add_chunk_def Let_def split: option.splits)
  show "\<exists>c. slots_num c = n \<and> item' = item\<lparr>vi_chunks := (case i of None \<Rightarrow> vi_chunks item @ [c]
        | Some i \<Rightarrow> take i (vi_chunks item) @ c # drop i (vi_chunks item))\<rparr>" if "ret = Succeed"
  proof (cases r)
    case (Some p)
    obtain a b where p: "p = (a, b)" by fastforce
    with assms(2) m Some show ?thesis
      by (auto simp: vch_item_add_chunk_def Let_def
          intro!: exI [of _ "\<lparr>vch_addr = a, first_value = 0, last_value = 0, slots_num = n, slots = b(0 := hr_zero)\<rparr>"])
  qed (use assms(2) m that in \<open>auto simp: vch_item_add_chunk_def\<close>)
qed

lemma slot_count_bounds: "2 \<le> vch_get_new_chunk_slot_count n" "vch_get_new_chunk_slot_count n \<le> 4094"
  by (simp_all add: vch_get_new_chunk_slot_count_def ZBX_VC_MIN_CHUNK_RECORDS_def ZBX_VC_MAX_CHUNK_RECORDS_def
      SIZEOF_CHUNK_def SIZEOF_RECORD_def Let_def)

text \<open>
  After making room there is a head (tail) chunk with the given number of free slots; when a
  chunk was added, it is empty, and the values of the item are the same.
\<close>

lemma append_room_result:
  assumes "world_ok w" "item_shape item" "append_room w item vc = (ret, n, item', vc')"
  shows "pool_step vc vc' {#} {#} \<and> (ret = Fail \<longrightarrow> item' = item) \<and>
    (ret = Succeed \<longrightarrow> (\<exists>pre c. item' = item\<lparr>vi_chunks := pre @ [c]\<rparr> \<and> 0 < n \<and> slots_num c - last_value c - 1 = n \<and>
      0 \<le> first_value c \<and> first_value c \<le> last_value c + 1 \<and> (\<forall>d \<in> set pre. chunk_ok d) \<and>
      (\<forall>d \<in> set (tl (pre @ [c])). first_value d = 0) \<and> item_values item' = item_values item))"
proof (cases "vi_chunks item \<noteq> [] \<and> slots_num (last (vi_chunks item)) - last_value (last (vi_chunks item)) - 1 \<noteq> 0")
  case True
  then have eq: "ret = Succeed" "n = slots_num (last (vi_chunks item)) - last_value (last (vi_chunks item)) - 1"
      "item' = item" "vc' = vc"
    using assms(3) by (auto simp: append_room_def Let_def)
  obtain pre c where cs: "vi_chunks item = pre @ [c]" using True by (metis rev_exhaust)
  have same: "item' = item\<lparr>vi_chunks := pre @ [c]\<rparr>" using eq(3) unfolding cs [symmetric] by simp
  have ok: "chunk_ok c" "\<forall>d \<in> set pre. chunk_ok d" "\<forall>d \<in> set (tl (pre @ [c])). first_value d = 0"
    using assms(2) by (simp_all add: item_shape_def cs)
  have num: "0 < n \<and> slots_num c - last_value c - 1 = n \<and> 0 \<le> first_value c \<and> first_value c \<le> last_value c + 1"
    using ok(1) True eq(2) by (simp add: chunk_ok_def cs)
  have "pool_step vc vc' {#} {#} \<and> (ret = Fail \<longrightarrow> item' = item)" using eq by simp
  moreover have "\<exists>pre c. item' = item\<lparr>vi_chunks := pre @ [c]\<rparr> \<and> 0 < n \<and> slots_num c - last_value c - 1 = n \<and>
      0 \<le> first_value c \<and> first_value c \<le> last_value c + 1 \<and> (\<forall>d \<in> set pre. chunk_ok d) \<and>
      (\<forall>d \<in> set (tl (pre @ [c])). first_value d = 0) \<and> item_values item' = item_values item"
    using same ok(2,3) num arg_cong [OF eq(3), of item_values] by blast
  ultimately show ?thesis by blast
next
  case False
  define n0 where "n0 = vch_get_new_chunk_slot_count (vi_values_total item div 2 + 1)"
  obtain r item1 vc1 where a: "vch_item_add_chunk w item n0 None vc = (r, item1, vc1)" by (metis prod_cases3)
  note res = vch_item_add_chunk_result [OF assms(1) a]
  have eq: "vc' = vc1" "n = n0" "ret = r"
      "item' = (if r = Succeed then upd_head (\<lambda>c. c\<lparr>first_value := 0, last_value := - 1\<rparr>) item1 else item1)"
  proof -
    have z: "(if vi_chunks item \<noteq> [] then slots_num (last (vi_chunks item)) - last_value (last (vi_chunks item)) - 1 else 0) = 0"
      using False by auto
    have "(ret, n, item', vc') = (case r of Fail \<Rightarrow> (Fail, n0, item1, vc1)
        | Succeed \<Rightarrow> (Succeed, n0, upd_head (\<lambda>c. c\<lparr>first_value := 0, last_value := - 1\<rparr>) item1, vc1))"
      unfolding assms(3) [symmetric] append_room_def Let_def z n0_def [symmetric] a by (cases r) simp_all
    then show "vc' = vc1" "n = n0" "ret = r"
        "item' = (if r = Succeed then upd_head (\<lambda>c. c\<lparr>first_value := 0, last_value := - 1\<rparr>) item1 else item1)"
      by (cases r; simp)+
  qed
  show ?thesis
  proof (cases r)
    case Fail
    with res eq show ?thesis by simp
  next
    case Succeed
    with res(3) obtain c where c: "slots_num c = n0" "item1 = item\<lparr>vi_chunks := vi_chunks item @ [c]\<rparr>" by auto
    let ?c = "c\<lparr>first_value := 0, last_value := - 1\<rparr>"
    have "item' = item\<lparr>vi_chunks := vi_chunks item @ [?c]\<rparr> \<and> 0 < n \<and> slots_num ?c - last_value ?c - 1 = n \<and>
        0 \<le> first_value ?c \<and> first_value ?c \<le> last_value ?c + 1 \<and> (\<forall>d \<in> set (vi_chunks item). chunk_ok d) \<and>
        (\<forall>d \<in> set (tl (vi_chunks item @ [?c])). first_value d = 0) \<and> item_values item' = item_values item"
      using eq Succeed c assms(2) slot_count_bounds(1) [of "vi_values_total item div 2 + 1"]
      by (cases "vi_chunks item")
        (auto simp: upd_head_def item_shape_def item_values_def chunk_values_def n0_def)
    with res(1) eq(1) Succeed eq(3) show ?thesis by blast
  qed
qed

lemma append_loop_result:
  assumes "world_ok w" "item_shape item" "\<forall>v \<in> set vs. hv_typed (vi_value_type item) (hr_value v)"
  shows "\<exists>ret item' vc' k. append_loop w item vs vc = Some (ret, item', vc') \<and> k \<le> length vs \<and>
    item_values item' = item_values item @ take k vs \<and>
    item' = item\<lparr>vi_chunks := vi_chunks item', vi_values_total := vi_values_total item + int k\<rparr> \<and>
    pool_step vc vc' {#} (record_strings (vi_value_type item) (take k vs)) \<and>
    (ret = Succeed \<longrightarrow> k = length vs \<and> item_shape item')"
  using assms(2,3)
proof (induction vs arbitrary: item vc rule: length_induct)
  case (1 vs)
  show ?case
  proof (cases "vs = []")
    case True
    have "item = item\<lparr>vi_chunks := vi_chunks item, vi_values_total := vi_values_total item + int 0\<rparr>" by simp
    with True 1(2) show ?thesis by (subst append_loop.simps) fastforce
  next
    case False
    obtain r1 n item1 vc1 where room: "append_room w item vc = (r1, n, item1, vc1)" by (metis prod_cases4)
    note res = append_room_result [OF assms(1) 1(2) room]
    show ?thesis
    proof (cases r1)
      case Fail
      have "item = item\<lparr>vi_chunks := vi_chunks item, vi_values_total := vi_values_total item + int 0\<rparr>" by simp
      with Fail False room res show ?thesis by (subst append_loop.simps) fastforce
    next
      case Succeed
      with res obtain pre c where c: "item1 = item\<lparr>vi_chunks := pre @ [c]\<rparr>" "0 < n" "slots_num c - last_value c - 1 = n"
          "0 \<le> first_value c" "first_value c \<le> last_value c + 1" "\<forall>d \<in> set pre. chunk_ok d"
          "\<forall>d \<in> set (tl (pre @ [c])). first_value d = 0" "item_values item1 = item_values item" by blast
      define m where "m = nat (min n (int (length vs)))"
      have m: "0 < m" "m \<le> length vs" "int m \<le> n" using False c(2) by (auto simp: m_def)
      obtain r2 item2 vc2 where copy: "vch_item_copy_values_at_end w item1 (take m vs) vc1 = (r2, item2, vc2)"
        by (metis prod_cases3)
      have eq: "append_loop w item vs vc = (case r2 of Fail \<Rightarrow> Some (Fail, item2, vc2)
          | Succeed \<Rightarrow> append_loop w item2 (drop m vs) vc2)"
        using False room Succeed copy by (subst append_loop.simps, cases r2) (simp_all add: m_def)
      obtain k item3 where k: "k \<le> length (take m vs)" "head_grown item1 item3 (take k (take m vs))"
          "r2 = Succeed \<longrightarrow> k = length (take m vs)" "item2 = item3\<lparr>vi_values_total := vi_values_total item1 + int k\<rparr>"
          "pool_step vc1 vc2 {#} (record_strings (vi_value_type item1) (take k (take m vs)))"
        by (rule vch_item_copy_values_at_end_result [OF assms(1) copy])
          (use 1(3) c(1,5) in \<open>auto dest: in_set_takeD\<close>)
      have tk_k: "take k (take m vs) = take k vs" "length (take k vs) = k" "min k m = k" using k(1) m(2) by simp_all
      from k(2) c(1) obtain c' where c': "item3 = item\<lparr>vi_chunks := pre @ [c']\<rparr>" "first_value c' = first_value c"
          "slots_num c' = slots_num c" "last_value c' = last_value c + int k"
          "chunk_values c' = chunk_values c @ take k vs"
        using tk_k by (auto simp: head_grown_def Let_def)
      have item2: "item2 = item\<lparr>vi_chunks := pre @ [c'], vi_values_total := vi_values_total item + int k\<rparr>"
        using k(4) c' c(1) by simp
      have vals2: "item_values item2 = item_values item @ take k vs"
        using c(8) by (simp add: item2 item_values_def c'(5) c(1))
      have step2: "pool_step vc vc2 {#} (record_strings (vi_value_type item) (take k vs))"
        using pool_step_trans [OF conjunct1 [OF res] k(5)] c(1) tk_k by simp
      show ?thesis
      proof (cases r2)
        case Fail
        then have "append_loop w item vs vc = Some (Fail, item2, vc2)" by (simp add: eq)
        moreover have "k \<le> length vs" using k(1) by simp
        moreover have "item2 = item\<lparr>vi_chunks := vi_chunks item2, vi_values_total := vi_values_total item + int k\<rparr>"
          by (simp add: item2)
        ultimately show ?thesis using vals2 step2 by blast
      next
        case r2: Succeed
        then have km: "k = m" using k(3) m(2) by simp
        have shape2: "item_shape item2"
          unfolding item_shape_def
        proof (intro conjI)
          have "chunk_ok c'" using c' c(3-5) m km by (simp add: chunk_ok_def)
          then show "\<forall>c \<in> set (vi_chunks item2). chunk_ok c" using c(6) by (simp add: item2)
          show "\<forall>c \<in> set (tl (vi_chunks item2)). first_value c = 0"
            using c(7) c'(2) by (cases pre) (auto simp: item2)
          show "vi_values_total item2 = int (length (item_values item2))"
            using vals2 1(2) km m(2) by (simp add: item2 item_shape_def)
        qed
        have len: "length (drop m vs) < length vs" using m by simp
        have typed: "\<forall>v \<in> set (drop m vs). hv_typed (vi_value_type item2) (hr_value v)"
          using 1(3) by (auto simp: item2 dest: in_set_dropD)
        obtain ret item' vc' j where IH: "append_loop w item2 (drop m vs) vc2 = Some (ret, item', vc')"
            "j \<le> length (drop m vs)" "item_values item' = item_values item2 @ take j (drop m vs)"
            "item' = item2\<lparr>vi_chunks := vi_chunks item', vi_values_total := vi_values_total item2 + int j\<rparr>"
            "pool_step vc2 vc' {#} (record_strings (vi_value_type item2) (take j (drop m vs)))"
            "ret = Succeed \<longrightarrow> j = length (drop m vs) \<and> item_shape item'"
          using 1(1) [THEN spec, THEN mp, OF len, THEN spec, THEN mp, OF shape2, THEN mp, OF typed, THEN spec, of vc2]
          by blast
        have tk: "take m vs @ take j (drop m vs) = take (m + j) vs" by (rule take_add [symmetric])
        have "append_loop w item vs vc = Some (ret, item', vc')" using IH(1) r2 by (simp add: eq)
        moreover have "m + j \<le> length vs" using IH(2) m(2) by simp
        moreover have "item_values item' = item_values item @ take (m + j) vs"
          using IH(3) vals2 by (simp add: km tk)
        moreover have "item' = item\<lparr>vi_chunks := vi_chunks item', vi_values_total := vi_values_total item + int (m + j)\<rparr>"
          by (subst IH(4)) (simp add: item2 km)
        moreover have "pool_step vc vc' {#} (record_strings (vi_value_type item) (take (m + j) vs))"
          using pool_step_trans [OF step2 pool_step_frame(2) [OF IH(5), of "record_strings (vi_value_type item) (take k vs)", simplified]]
          by (simp add: item2 km flip: tk)
        moreover have "ret = Succeed \<longrightarrow> m + j = length vs \<and> item_shape item'" using IH(6) m(2) by simp
        ultimately show ?thesis by blast
      qed
    qed
  qed
qed

end
