(* ===== verification/VcUpdate.thy ===== *)
theory VcUpdate
  imports VcAppend
begin

text \<open>
  New values of an item (\<^verbatim>\<open>vch_item_add_values_at_end\<close> in \<^verbatim>\<open>libs/zbxdbcache/valuecache.c\<close>): they are
  merged into the list of the cached values by the order of time.
\<close>

subsection \<open>Removing the end of the list\<close>

lemma length_chunk_values:
  "first_value c \<le> last_value c + 1 \<Longrightarrow> int (length (chunk_values c)) = last_value c - first_value c + 1"
  by (simp add: chunk_values_def)

lemma sum_chunk_lengths:
  "\<forall>c \<in> set cs. chunk_ok c \<Longrightarrow>
   (\<Sum>c\<leftarrow>cs. last_value c - first_value c + 1) = int (length (concat (map chunk_values cs)))"
  by (induction cs) (simp_all add: length_chunk_values chunk_ok_def)

lemma pool_step_releases':
  "vcc_items vc' = vcc_items vc \<Longrightarrow> vcc_strpool vc' = vcc_strpool vc - A - B \<Longrightarrow> pool_step vc vc' (A + B) {#}"
  by (rule pool_step_releases) simp_all

lemma vch_item_remove_values_from_result:
  assumes "item_shape item" "valid_pos (vi_chunks item) ci i"
    "vch_item_remove_values_from item ci i vc = (item', vc')"
  shows "item_values item' = values_before (vi_chunks item) ci i" "item_shape item'"
    "item' = item\<lparr>vi_chunks := vi_chunks item', vi_values_total := vi_values_total item'\<rparr>"
    "pool_step vc vc' (record_strings (vi_value_type item) (values_from (vi_chunks item) ci i)) {#}"
proof -
  let ?cs = "vi_chunks item" and ?t = "vi_value_type item"
  have lt: "ci < length ?cs" and i: "first_value (?cs ! ci) \<le> i" "i \<le> last_value (?cs ! ci)"
    using assms(2) by (simp_all add: valid_pos_def)
  have ok: "\<forall>c \<in> set ?cs. chunk_ok c" and z: "\<forall>c \<in> set (tl ?cs). first_value c = 0"
    and total: "vi_values_total item = int (length (item_values item))"
    using assms(1) by (simp_all add: item_shape_def)
  have split: "item_values item = values_before ?cs ci i @ values_from ?cs ci i"
    unfolding item_values_simp using lt i by (intro values_split) auto
  have "item_values item' = values_before ?cs ci i \<and> item_shape item' \<and>
    item' = item\<lparr>vi_chunks := vi_chunks item', vi_values_total := vi_values_total item'\<rparr> \<and>
    pool_step vc vc' (record_strings ?t (values_from ?cs ci i)) {#}"
  proof (cases "i - 1 < first_value (?cs ! ci) \<and> ci = 0")
    case True
    then have "values_before ?cs ci i = []" using i by (auto simp: values_before_def)
    moreover have "item' = item\<lparr>vi_chunks := [], vi_values_total := 0\<rparr>"
      and vc': "vc' = snd (snd (vch_item_free_cache item vc))"
      using assms(3) True by (auto simp: vch_item_remove_values_from_def Let_def split_beta)
    moreover have "pool_step vc vc' (record_strings ?t (values_from ?cs ci i)) {#}"
      using split calculation(1) by (intro pool_step_releases) (simp_all add: vc' item_strings_def)
    ultimately show ?thesis by (simp add: item_values_def item_shape_def)
  next
    case False
    obtain cj j where cj: "(cj, j) = (if i - 1 < first_value (?cs ! ci) then (ci - 1, last_value (?cs ! (ci - 1)))
        else (ci, i - 1))" by (metis surj_pair)
    have cjl: "cj < length ?cs" using cj lt by (auto split: if_splits)
    have okj: "chunk_ok (?cs ! cj)" using ok cjl by simp
    have j: "first_value (?cs ! cj) \<le> j" "j \<le> last_value (?cs ! cj)"
      using cj okj i by (auto simp: chunk_ok_def split: if_splits)
    have from_j: "values_from ?cs cj (j + 1) = values_from ?cs ci i \<and> values_before ?cs cj (j + 1) = values_before ?cs ci i"
    proof (cases "i - 1 < first_value (?cs ! ci)")
      case True
      with False cj i have "ci = Suc cj" "j = last_value (?cs ! cj)" "i = first_value (?cs ! ci)" by auto
      then show ?thesis
        using values_from_prev [of cj ?cs] values_before_prev [of cj ?cs] lt j by simp
    qed (use cj in auto)
    let ?c = "(?cs ! cj)\<lparr>last_value := j\<rparr>"
    let ?n = "vi_values_total item - (last_value (?cs ! cj) - (j + 1) + 1) -
        (\<Sum>c\<leftarrow>drop (Suc cj) ?cs. last_value c - first_value c + 1)"
    have item': "item' = item\<lparr>vi_chunks := take cj ?cs @ [?c], vi_values_total := ?n\<rparr>"
      and vc': "vc' = (let r = vc_item_free_values item (slots (?cs ! cj)) (j + 1) (last_value (?cs ! cj)) vc
        in snd (snd (free_chunk_list (fst (snd r)) (drop (Suc cj) ?cs) 0 (snd (snd r)))))"
      using assms(3) False by (auto simp: vch_item_remove_values_from_def Let_def split_beta cj [symmetric])
    have vals: "item_values item' = values_before ?cs cj (j + 1)"
      by (simp add: item' item_values_def values_before_def chunk_values_def)
    have n: "?n = int (length (values_before ?cs cj (j + 1)))"
    proof -
      have "(\<Sum>c\<leftarrow>drop (Suc cj) ?cs. last_value c - first_value c + 1) =
          int (length (concat (map chunk_values (drop (Suc cj) ?cs))))"
        using ok by (intro sum_chunk_lengths) (auto dest: in_set_dropD)
      moreover have "int (length (values_from ?cs cj (j + 1))) = last_value (?cs ! cj) - (j + 1) + 1 +
          int (length (concat (map chunk_values (drop (Suc cj) ?cs))))"
        using j by (simp add: values_from_def)
      ultimately show ?thesis using total split from_j by simp
    qed
    have shape: "item_shape item'"
      unfolding item_shape_def
    proof (intro conjI)
      have "chunk_ok ?c" using okj j by (simp add: chunk_ok_def)
      then show "\<forall>c \<in> set (vi_chunks item'). chunk_ok c" using ok by (auto simp: item' dest: in_set_takeD)
      show "\<forall>c \<in> set (tl (vi_chunks item')). first_value c = 0"
      proof (cases cj)
        case (Suc k)
        then obtain c0 cs0 where cs0: "?cs = c0 # cs0" using cjl by (cases ?cs) auto
        with z have "\<forall>c \<in> set cs0. first_value c = 0" by simp
        with cs0 Suc cjl show ?thesis by (auto simp: item' dest: in_set_takeD)
      qed (simp add: item')
      show "vi_values_total item' = int (length (item_values item'))" using n vals by (simp add: item')
    qed
    have "pool_step vc vc' (record_strings ?t (values_from ?cs cj (j + 1))) {#}"
      unfolding values_from_def record_strings_simps
      by (intro pool_step_releases') (simp_all add: vc' Let_def)
    then show ?thesis using vals shape from_j by (simp add: item')
  qed
  then show "item_values item' = values_before ?cs ci i" "item_shape item'"
    "item' = item\<lparr>vi_chunks := vi_chunks item', vi_values_total := vi_values_total item'\<rparr>"
    "pool_step vc vc' (record_strings ?t (values_from ?cs ci i)) {#}" by blast+
qed

lemma append_values_from_result:
  assumes "\<forall>v \<in> set (map (slots c) [i .. last_value c] @ concat (map chunk_values cs)). hv_typed t (hr_value v)"
  shows "append_values_from t (c # cs) i vs = vs @ map (slots c) [i .. last_value c] @ concat (map chunk_values cs)"
proof -
  have fold: "foldl (\<lambda>vs v. vc_history_record_vector_append vs t v) vs ws = vs @ ws"
    if "\<forall>v \<in> set ws. hv_typed t (hr_value v)" for vs ws
    using that by (induction ws arbitrary: vs) simp_all
  show ?thesis
    using assms
  proof (induction cs arbitrary: c i vs)
    case (Cons d cs)
    then show ?case by (simp add: fold chunk_values_def Let_def)
  qed (simp add: fold Let_def)
qed

lemma vch_item_get_values_from_result:
  assumes "valid_pos (vi_chunks item) ci i" "\<forall>v \<in> set (item_values item). hv_typed (vi_value_type item) (hr_value v)"
  shows "vch_item_get_values_from item ci i vs = vs @ values_from (vi_chunks item) ci i"
proof -
  have lt: "ci < length (vi_chunks item)" using assms(1) by (simp add: valid_pos_def)
  then have d: "drop ci (vi_chunks item) = vi_chunks item ! ci # drop (Suc ci) (vi_chunks item)"
    by (simp add: Cons_nth_drop_Suc)
  have "set (values_from (vi_chunks item) ci i) \<subseteq> set (item_values item)"
    unfolding item_values_simp using assms(1) by (subst values_split [of ci _ i]) (auto simp: valid_pos_def)
  then show ?thesis
    unfolding vch_item_get_values_from_def d values_from_def
    using assms(2) by (intro append_values_from_result) (auto simp: values_from_def)
qed

subsection \<open>The place of the new values\<close>

text \<open>
  What the backward search leaves: a position with no later value before it, or, when the search
  has just crossed into an earlier chunk and stops there, that chunk with the index of the first
  value of the next one.
\<close>

definition insert_place :: "vc_chunk list \<Rightarrow> zbx_timespec \<Rightarrow> nat \<Rightarrow> int \<Rightarrow> bool" where
  "insert_place cs ts c i \<longleftrightarrow> valid_pos cs c i \<and> (\<forall>v \<in> set (values_before cs c i). rec_key v \<le> ts_key ts)"

definition crossed_place :: "vc_chunk list \<Rightarrow> zbx_timespec \<Rightarrow> nat \<Rightarrow> int \<Rightarrow> bool" where
  "crossed_place cs ts c i \<longleftrightarrow> Suc c < length cs \<and> i = first_value (cs ! Suc c) \<and>
    (\<forall>v \<in> set (concat (map chunk_values (take (Suc c) cs))). rec_key v \<le> ts_key ts)"

lemma values_before_le:
  assumes "chunks_ok cs" "valid_pos cs c i" "rec_key (slots (cs ! c) i) \<le> k"
  shows "\<forall>v \<in> set (values_before cs c i). rec_key v \<le> k" "\<forall>v \<in> set (values_before cs c (i + 1)). rec_key v \<le> k"
  using chunks_ok_sorted(1) [OF assms(1,2)] assms(3) values_step(2) [OF assms(2)] by fastforce+

lemma insert_back_result_aux:
  assumes "c = ch" "chunks_ok cs" "valid_pos cs c j"
    "i = j \<or> (i = j + 1 \<and> valid_pos cs c i) \<or>
     (j = last_value (cs ! c) \<and> Suc c < length cs \<and> i = first_value (cs ! Suc c))"
  shows "case insert_back cs ts ch i c j of (c', i') \<Rightarrow> insert_place cs ts c' i' \<or> crossed_place cs ts c' i'"
  using assms
proof (induction cs ts ch i c j rule: insert_back.induct)
  case (1 cs ts ch i c j)
  let ?v = "slots (cs ! c) j"
  have lt: "c < length cs" using "1.prems"(3) by (simp add: valid_pos_def)
  show ?case
  proof (cases "ts_key ts < rec_key ?v")
    case False
    then have eq: "insert_back cs ts ch i c j = (c, i)"
      using "1.prems"(1) by (subst insert_back.simps) (simp add: vc_keys)
    have "rec_key ?v \<le> ts_key ts" using False by simp
    note le = values_before_le [OF "1.prems"(2,3) this]
    have "values_before cs c (last_value (cs ! c) + 1) = concat (map chunk_values (take (Suc c) cs))"
      using lt by (simp add: values_before_def chunk_values_def take_Suc_conv_app_nth)
    then have end_c: "set (concat (map chunk_values (take (Suc c) cs))) = set (values_before cs c (last_value (cs ! c) + 1))"
      by (simp only:)

    show ?thesis
      unfolding eq prod.case
      using "1.prems"(4)
    proof (elim disjE conjE)
      assume "i = j"
      with le(1) "1.prems"(3) have "insert_place cs ts c i" by (simp only: insert_place_def)
      then show "insert_place cs ts c i \<or> crossed_place cs ts c i" ..
    next
      assume "i = j + 1" "valid_pos cs c i"
      with le(2) have "insert_place cs ts c i" by (simp only: insert_place_def)
      then show "insert_place cs ts c i \<or> crossed_place cs ts c i" ..
    next
      assume "j = last_value (cs ! c)" "Suc c < length cs" "i = first_value (cs ! Suc c)"
      with le(2) end_c have "crossed_place cs ts c i" by (simp only: crossed_place_def)
      then show "insert_place cs ts c i \<or> crossed_place cs ts c i" ..
    qed
  next
    case True
    then have cmp: "0 < zbx_timespec_compare (hr_timestamp ?v) ts" by (simp add: vc_keys)
    show ?thesis
    proof (cases "j - 1 < first_value (cs ! c)")
      case inside: False
      then have "valid_pos cs c (j - 1)" using "1.prems"(3) by (simp add: valid_pos_def)
      with "1.IH"(2) [OF cmp refl refl inside "1.prems"(1,2)] "1.prems"(3) cmp inside show ?thesis
        by (subst insert_back.simps) (simp add: Let_def)
    next
      case crossing: True
      then have j: "j = first_value (cs ! c)" using "1.prems"(3) by (simp add: valid_pos_def)
      show ?thesis
      proof (cases c)
        case 0
        have "insert_place cs ts c j" using "1.prems"(3) j 0 by (simp add: insert_place_def values_before_def)
        with 0 cmp crossing show ?thesis by (subst insert_back.simps) (simp add: Let_def)
      next
        case (Suc p)
        have p: "p < length cs" "Suc p < length cs" using lt Suc by simp_all
        have pos: "valid_pos cs p (last_value (cs ! p))"
          using chunks_okD [OF "1.prems"(2) p(1)] p by (simp add: valid_pos_def)
        from "1.IH"(1) [OF cmp refl refl crossing Suc refl "1.prems"(2) pos] p j Suc cmp crossing show ?thesis
          by (subst insert_back.simps) (simp add: Let_def)
      qed
    qed
  qed
qed

lemma insert_back_result:
  assumes "chunks_ok cs" "valid_pos cs c j"
    "i = j \<or> (i = j + 1 \<and> valid_pos cs c i) \<or>
     (j = last_value (cs ! c) \<and> Suc c < length cs \<and> i = first_value (cs ! Suc c))"
  shows "case insert_back cs ts c i c j of (c', i') \<Rightarrow> insert_place cs ts c' i' \<or> crossed_place cs ts c' i'"
  by (rule insert_back_result_aux [OF refl assms])

text \<open>
  Since only the tail has room before its first value, the crossed place is a right one unless
  the chunk is the tail and has such room.
\<close>

lemma crossed_place_ok:
  assumes "chunks_ok cs" "crossed_place cs ts c i" "c = 0 \<longrightarrow> first_value (hd cs) = 0"
  shows "insert_place cs ts c i"
proof -
  have lt: "c < length cs" "Suc c < length cs" using assms(2) by (simp_all add: crossed_place_def)
  have tl: "first_value (cs ! Suc k) = 0" if "Suc k < length cs" for k
  proof -
    have "tl cs ! k \<in> set (tl cs)" using that by (intro nth_mem) simp
    moreover have "tl cs ! k = cs ! Suc k" using that by (intro nth_tl) simp
    ultimately show ?thesis using assms(1) by (auto simp: chunks_ok_def)
  qed
  then have i: "i = 0" using assms(2) by (simp add: crossed_place_def)
  have first: "first_value (cs ! c) = 0"
    using assms(3) tl lt by (cases c) (auto simp: hd_conv_nth)
  have "valid_pos cs c i" using chunks_okD [OF assms(1) lt(1)] lt i first by (simp add: valid_pos_def)
  moreover have "set (values_before cs c i) \<subseteq> set (concat (map chunk_values (take (Suc c) cs)))"
    using lt by (auto simp: values_before_def i first take_Suc_conv_app_nth)
  ultimately show ?thesis using assms(2) by (auto simp: insert_place_def crossed_place_def)
qed

text \<open>Room before the first value is harmless when there is one chunk only.\<close>

definition no_gap :: "vc_item \<Rightarrow> bool" where
  "no_gap item \<longleftrightarrow> length (vi_chunks item) \<le> 1 \<or> first_value (hd (vi_chunks item)) = 0"

lemma cut_place_result:
  assumes ok: "chunks_ok (vi_chunks item)" and ne: "vi_chunks item \<noteq> []" and gap: "no_gap item"
  obtains found c i where "vch_item_get_last_value item (ts_sec ts) now = Some found"
    "cut_place item ts found = (c, i)" "insert_place (vi_chunks item) ts c i"
proof (cases rule: vch_item_get_last_value_result [OF ok refl, where e = "ts_sec ts" and now = now])
  case 1
  have "valid_pos (vi_chunks item) 0 (first_value (vi_chunks item ! 0))"
    using chunks_okD [OF ok, of 0] ne by (simp add: valid_pos_def)
  then have "insert_place (vi_chunks item) ts 0 (first_value (vi_chunks item ! 0))"
    by (simp add: insert_place_def)
  with 1 show thesis by (intro that [of None]) (simp_all add: cut_place_def)
next
  case (2 c i)
  then have pos: "valid_pos (vi_chunks item) c i" by (simp add: last_not_after_def)
  obtain c' i' where cut: "insert_back (vi_chunks item) ts c i c i = (c', i')" by fastforce
  with insert_back_result [OF ok pos, of i ts]
  have "insert_place (vi_chunks item) ts c' i' \<or> crossed_place (vi_chunks item) ts c' i'" by simp
  then have "insert_place (vi_chunks item) ts c' i'"
  proof
    assume cr: "crossed_place (vi_chunks item) ts c' i'"
    with gap have "c' = 0 \<longrightarrow> first_value (hd (vi_chunks item)) = 0" by (auto simp: no_gap_def crossed_place_def)
    from crossed_place_ok [OF ok cr this] show ?thesis .
  qed
  with 2(1) cut show thesis by (intro that [of "Some (c, i)"]) (simp_all add: cut_place_def)
qed

subsection \<open>Merging\<close>

lemma count_older_eq: "count_older v0 vs = length (takeWhile (\<lambda>v. rec_key v < rec_key v0) vs)"
  by (induction vs) (simp_all add: vc_keys not_le)

lemma drop_count_older: "drop (count_older v0 vs) vs = dropWhile (\<lambda>v. rec_key v < rec_key v0) vs"
  by (simp add: count_older_eq dropWhile_eq_drop)

lemma note_skipped_same [simp]:
  "vi_chunks (note_skipped item vs start now) = vi_chunks item"
  "vi_value_type (note_skipped item vs start now) = vi_value_type item"
  "vi_values_total (note_skipped item vs start now) = vi_values_total item"
  "item_values (note_skipped item vs start now) = item_values item"
  "item_strings (note_skipped item vs start now) = item_strings item"
  by (simp_all add: note_skipped_def Let_def item_values_def item_strings_def)

lemma vc_item_okD:
  assumes "vc_item_ok item"
  shows "item_shape item" "\<forall>v \<in> set (item_values item). hv_typed (vi_value_type item) (hr_value v)"
    "sorted (map rec_key (item_values item))"
  using assms by (simp_all add: vc_item_ok_def item_shape_def)

lemma vc_item_okI:
  "item_shape item \<Longrightarrow> \<forall>v \<in> set (item_values item). hv_typed (vi_value_type item) (hr_value v) \<Longrightarrow>
   sorted (map rec_key (item_values item)) \<Longrightarrow> vc_item_ok item"
  by (simp add: vc_item_ok_def item_shape_def)

lemma first_and_last_value:
  assumes "chunks_ok (vi_chunks item)" "vi_chunks item \<noteq> []"
  shows "item_values item \<noteq> []"
    "hd (item_values item) = slots (hd (vi_chunks item)) (first_value (hd (vi_chunks item)))"
    "last (item_values item) = slots (last (vi_chunks item)) (last_value (last (vi_chunks item)))"
proof -
  obtain c cs where c: "vi_chunks item = c # cs" using assms(2) by (cases "vi_chunks item") auto
  obtain ds d where d: "vi_chunks item = ds @ [d]" using assms(2) by (metis rev_exhaust)
  have ok: "chunk_ok c" "chunk_ok d" using assms(1) by (simp add: chunks_ok_def c, simp add: chunks_ok_def d)
  have "chunk_values c = slots c (first_value c) # map (slots c) [first_value c + 1 .. last_value c]"
    using ok(1) by (simp add: chunk_values_def chunk_ok_def upto_rec1)
  then show "item_values item \<noteq> []" "hd (item_values item) = slots (hd (vi_chunks item)) (first_value (hd (vi_chunks item)))"
    by (simp_all add: item_values_def c)
  have "chunk_values d = map (slots d) [first_value d .. last_value d - 1] @ [slots d (last_value d)]"
    using ok(2) by (simp add: chunk_values_def chunk_ok_def upto_rec2)
  then show "last (item_values item) = slots (last (vi_chunks item)) (last_value (last (vi_chunks item)))"
    by (simp add: item_values_def d)
qed

text \<open>The other fields of an item do not touch its history.\<close>

lemma item_fields_same [simp]:
  "item_values (item\<lparr>vi_clean_pending := x0\<rparr>) = item_values item" "item_strings (item\<lparr>vi_clean_pending := x0\<rparr>) = item_strings item"
  "vc_item_ok (item\<lparr>vi_clean_pending := x0\<rparr>) = vc_item_ok item"
  "item_values (item\<lparr>vi_remove_pending := x1\<rparr>) = item_values item" "item_strings (item\<lparr>vi_remove_pending := x1\<rparr>) = item_strings item"
  "vc_item_ok (item\<lparr>vi_remove_pending := x1\<rparr>) = vc_item_ok item"
  "item_values (item\<lparr>vi_cached_all := x2\<rparr>) = item_values item" "item_strings (item\<lparr>vi_cached_all := x2\<rparr>) = item_strings item"
  "vc_item_ok (item\<lparr>vi_cached_all := x2\<rparr>) = vc_item_ok item"
  "item_values (item\<lparr>vi_last_accessed := x3\<rparr>) = item_values item" "item_strings (item\<lparr>vi_last_accessed := x3\<rparr>) = item_strings item"
  "vc_item_ok (item\<lparr>vi_last_accessed := x3\<rparr>) = vc_item_ok item"
  "item_values (item\<lparr>vi_refcount := x4\<rparr>) = item_values item" "item_strings (item\<lparr>vi_refcount := x4\<rparr>) = item_strings item"
  "vc_item_ok (item\<lparr>vi_refcount := x4\<rparr>) = vc_item_ok item"
  "item_values (item\<lparr>vi_hits := x5\<rparr>) = item_values item" "item_strings (item\<lparr>vi_hits := x5\<rparr>) = item_strings item"
  "vc_item_ok (item\<lparr>vi_hits := x5\<rparr>) = vc_item_ok item"
  "item_values (item\<lparr>vi_range := x6\<rparr>) = item_values item" "item_strings (item\<lparr>vi_range := x6\<rparr>) = item_strings item"
  "vc_item_ok (item\<lparr>vi_range := x6\<rparr>) = vc_item_ok item"
  by (simp_all add: item_values_def item_strings_def vc_item_ok_def)

text \<open>
  What an addition promises: the outcome of the call when \<open>all\<close> are the values that are to be
  stored in the end. On failure the values stored so far are a part of them.
\<close>

definition stored :: "vc_item \<Rightarrow> vc_cache \<Rightarrow> history_record multiset \<Rightarrow> zres \<times> vc_item \<times> vc_cache \<Rightarrow> bool" where
  "stored item vc all r \<longleftrightarrow> (case r of (ret, item', vc') \<Rightarrow>
    (ret = Succeed \<longrightarrow> vc_item_ok item' \<and> mset (item_values item') = all) \<and>
    mset (item_values item') \<subseteq># all \<and> vi_values_total item' = int (length (item_values item')) \<and>
    pool_step vc vc' (item_strings item) (item_strings item'))"

lemma stored_mark: "stored item vc all r \<Longrightarrow> stored item vc all (mark_new_head a r)"
  by (cases r) (auto simp: stored_def)

lemma append_loop_stored:
  assumes w: "world_ok w" and shape: "item_shape item2"
    and typed: "\<forall>v \<in> set (item_values item2 @ vs). hv_typed (vi_value_type item2) (hr_value v)"
    and sorted: "sorted (map rec_key (item_values item2 @ vs))"
    and step: "pool_step vc vc2 (item_strings item) (item_strings item2)"
  obtains r where "append_loop w item2 vs vc2 = Some r"
    "stored item vc (mset (item_values item2) + mset vs) r"
proof -
  let ?t = "vi_value_type item2"
  have "\<forall>v \<in> set vs. hv_typed ?t (hr_value v)" using typed by simp
  from append_loop_result [OF w shape this] obtain ret item' vc' k where
    res: "append_loop w item2 vs vc2 = Some (ret, item', vc')" "k \<le> length vs"
      "item_values item' = item_values item2 @ take k vs"
      "item' = item2\<lparr>vi_chunks := vi_chunks item', vi_values_total := vi_values_total item2 + int k\<rparr>"
      "pool_step vc2 vc' {#} (record_strings ?t (take k vs))"
      "ret = Succeed \<longrightarrow> k = length vs \<and> item_shape item'" by blast
  have t: "vi_value_type item' = ?t" by (subst res(4)) simp
  have n: "vi_values_total item' = vi_values_total item2 + int k" by (subst res(4)) simp
  have strs: "item_strings item' = item_strings item2 + record_strings ?t (take k vs)"
    by (simp add: item_strings_def t res(3))
  have "pool_step vc vc' (item_strings item) (item_strings item')"
    using pool_step_trans [OF step pool_step_frame(2) [OF res(5), of "item_strings item2", simplified]] by (simp add: strs)
  moreover have "mset (take k vs) \<subseteq># mset vs" by (metis append_take_drop_id mset_append mset_subset_eq_add_left)
  moreover have "vi_values_total item' = int (length (item_values item'))"
    using n res(2,3) shape by (simp add: item_shape_def)
  moreover have "vc_item_ok item' \<and> mset (item_values item') = mset (item_values item2) + mset vs" if "ret = Succeed"
    using that res(3,6) typed sorted by (auto intro!: vc_item_okI simp: t)
  ultimately have "stored item vc (mset (item_values item2) + mset vs) (ret, item', vc')"
    by (simp add: stored_def res(3))
  with res(1) show thesis by (rule that)
qed

lemma append_new_values:
  assumes w: "world_ok w" and ok: "vc_item_ok item"
    and typed: "\<forall>v \<in> set vs. hv_typed (vi_value_type item) (hr_value v)" and vs: "sorted (map rec_key vs)" "vs \<noteq> []"
    and after: "vi_chunks item = [] \<or> rec_key (last (item_values item)) \<le> rec_key (hd vs)"
  obtains r where "append_loop w item vs vc = Some r" "stored item vc (mset (item_values item) + mset vs) r"
proof (rule append_loop_stored [OF w vc_item_okD(1) [OF ok]])
  show "\<forall>v \<in> set (item_values item @ vs). hv_typed (vi_value_type item) (hr_value v)"
    using typed vc_item_okD(2) [OF ok] by auto
  show "sorted (map rec_key (item_values item @ vs))"
  proof (cases "item_values item" rule: rev_cases)
    case (snoc ws v)
    then have "rec_key v \<le> rec_key (hd vs)" using after by (auto simp: item_values_def)
    moreover have "\<forall>x \<in> set vs. rec_key (hd vs) \<le> rec_key x" using vs by (cases vs) auto
    ultimately show ?thesis using vc_item_okD(3) [OF ok] vs(1) unfolding snoc
      by (auto simp: sorted_append) (meson order_trans)
  qed (use vs in simp)
qed (use that in auto)

text \<open>The values that are added: all but those before the first cached one.\<close>

definition kept_values :: "vc_item \<Rightarrow> history_record list \<Rightarrow> history_record list" where
  "kept_values item vs = (if item_values item = [] then vs
    else dropWhile (\<lambda>v. rec_key v < rec_key (hd (item_values item))) vs)"

lemma merge_new_values:
  assumes w: "world_ok w" and ok: "vc_item_ok item" and gap: "no_gap item" and ne: "vi_chunks item \<noteq> []"
    and typed: "\<forall>v \<in> set ks. hv_typed (vi_value_type item) (hr_value v)"
    and after: "\<forall>v \<in> set ks. ts_key ts \<le> rec_key v"
  obtains found chunk index item2 vc2 r where
    "vch_item_get_last_value item (ts_sec ts) now = Some found" "cut_place item ts found = (chunk, index)"
    "vch_item_remove_values_from item chunk index vc = (item2, vc2)"
    "append_loop w item2 (zbx_vector_history_record_sort (vw_qsort w)
       (vch_item_get_values_from item chunk index ks) vc_history_record_compare_asc_func) vc2 = Some r"
    "stored item vc (mset (item_values item) + mset ks) r"
proof -
  let ?cs = "vi_chunks item" and ?t = "vi_value_type item"
  obtain found c i where f: "vch_item_get_last_value item (ts_sec ts) now = Some found"
      "cut_place item ts found = (c, i)" "insert_place ?cs ts c i"
    using cut_place_result [OF vc_item_ok_chunks [OF ok] ne gap] by blast
  have pos: "valid_pos ?cs c i" and le: "\<forall>v \<in> set (values_before ?cs c i). rec_key v \<le> ts_key ts"
    using f(3) by (simp_all add: insert_place_def)
  have split: "item_values item = values_before ?cs c i @ values_from ?cs c i"
    unfolding item_values_simp using pos by (intro values_split) (auto simp: valid_pos_def)
  obtain item2 vc2 where rm: "vch_item_remove_values_from item c i vc = (item2, vc2)" by fastforce
  note res = vch_item_remove_values_from_result [OF vc_item_okD(1) [OF ok] pos rm]
  have t2: "vi_value_type item2 = ?t" by (subst res(3)) simp
  have ext: "vch_item_get_values_from item c i ks = ks @ values_from ?cs c i"
    by (rule vch_item_get_values_from_result [OF pos vc_item_okD(2) [OF ok]])
  define ss where "ss = zbx_vector_history_record_sort (vw_qsort w) (ks @ values_from ?cs c i)
    vc_history_record_compare_asc_func"
  have ss: "mset ss = mset ks + mset (values_from ?cs c i)" "sorted (map rec_key ss)"
    using history_sort_facts [of "vw_qsort w" "ks @ values_from ?cs c i"] w by (simp_all add: ss_def world_ok_def)
  then have set_ss: "set ss = set ks \<union> set (values_from ?cs c i)" by (metis set_append mset_append mset_eq_setD)
  have srt: "sorted (map rec_key (values_before ?cs c i @ values_from ?cs c i))"
    using vc_item_okD(3) [OF ok] split by simp
  have "\<forall>x \<in> set (values_before ?cs c i). \<forall>y \<in> set ss. rec_key x \<le> rec_key y"
  proof (intro ballI)
    fix x y assume x: "x \<in> set (values_before ?cs c i)" and y: "y \<in> set ss"
    show "rec_key x \<le> rec_key y"
    proof (cases "y \<in> set ks")
      case True
      with le x after show ?thesis by (meson order_trans)
    next
      case False
      with y set_ss have "y \<in> set (values_from ?cs c i)" by blast
      with srt x show ?thesis by (auto simp: sorted_append)
    qed
  qed
  with srt ss(2) have sorted2: "sorted (map rec_key (item_values item2 @ ss))"
    by (auto simp: sorted_append res(1))
  have typed2: "\<forall>v \<in> set (item_values item2 @ ss). hv_typed (vi_value_type item2) (hr_value v)"
    using typed vc_item_okD(2) [OF ok] set_ss by (auto simp: t2 res(1) split)
  have "item_strings item = record_strings ?t (values_from ?cs c i) + item_strings item2"
    by (simp add: item_strings_def split t2 res(1))
  then have step: "pool_step vc vc2 (item_strings item) (item_strings item2)"
    using pool_step_frame(1) [OF res(4), of "item_strings item2"] by simp
  obtain r where r: "append_loop w item2 ss vc2 = Some r" "stored item vc (mset (item_values item2) + mset ss) r"
    by (rule append_loop_stored [OF w res(2) typed2 sorted2 step])
  have "mset (item_values item2) + mset ss = mset (item_values item) + mset ks"
    by (simp add: res(1) ss(1) split)
  with r f rm show thesis by (intro that [of found c i item2 vc2 r]) (simp_all add: ext ss_def)
qed

lemma add_at_end_in_order:
  assumes "world_ok w" "vc_item_ok item" "vs \<noteq> []" "sorted (map rec_key vs)"
    "\<forall>v \<in> set vs. hv_typed (vi_value_type item) (hr_value v)"
    "vi_chunks item = [] \<or> rec_key (last (item_values item)) \<le> rec_key (hd vs)"
  shows "\<exists>r. vch_item_add_values_at_end w item vs now vc = Some r \<and>
    stored item vc (mset (item_values item) + mset (kept_values item vs)) r"
proof -
  obtain r where r: "append_loop w item vs vc = Some r" "stored item vc (mset (item_values item) + mset vs) r"
    using append_new_values [OF assms(1,2,5,4,3,6)] by blast
  note ends = first_and_last_value [OF vc_item_ok_chunks [OF assms(2)]]
  have "vch_item_add_values_at_end w item vs now vc = map_option (mark_new_head (head_addr item)) (append_loop w item vs vc)"
    using assms(3,6) ends by (auto simp: vch_item_add_values_at_end_def Let_def vc_keys hd_conv_nth not_less)
  moreover have "kept_values item vs = vs"
  proof (cases "vi_chunks item = []")
    case False
    with assms(6) ends(1) vc_item_okD(3) [OF assms(2)] have "rec_key (hd (item_values item)) \<le> rec_key (hd vs)"
      by (cases "item_values item") (auto split: if_splits intro: order_trans)
    with assms(3) show ?thesis by (cases vs) (auto simp: kept_values_def)
  qed (simp add: kept_values_def item_values_def)
  ultimately show ?thesis using r stored_mark by fastforce
qed

lemma add_at_end_merging:
  assumes "world_ok w" "vc_item_ok item" "no_gap item" "vs \<noteq> []" "sorted (map rec_key vs)"
    "\<forall>v \<in> set vs. hv_typed (vi_value_type item) (hr_value v)"
    "\<not> (vi_chunks item = [] \<or> rec_key (last (item_values item)) \<le> rec_key (hd vs))"
  shows "\<exists>r. vch_item_add_values_at_end w item vs now vc = Some r \<and>
    stored item vc (mset (item_values item) + mset (kept_values item vs)) r"
proof -
  note ends = first_and_last_value [OF vc_item_ok_chunks [OF assms(2)]]
  define start where "start = count_older (hd (item_values item)) vs"
  define item1 where "item1 = note_skipped item vs start now"
  have ks: "kept_values item vs = drop start vs"
    using assms(7) ends(1) by (simp add: kept_values_def start_def drop_count_older)
  have ok1: "vc_item_ok item1" "no_gap item1" "vi_chunks item1 \<noteq> []"
    using assms(2,3,7) by (simp_all add: item1_def no_gap_def vc_item_ok_def)
  let ?ks = "drop start vs"
  have typed: "\<forall>v \<in> set ?ks. hv_typed (vi_value_type item1) (hr_value v)"
    using assms(6) by (auto simp: item1_def dest: in_set_dropD)
  have "\<forall>v \<in> set vs. rec_key (vs ! 0) \<le> rec_key v" using assms(4,5) by (cases vs) auto
  then have after: "\<forall>v \<in> set ?ks. rec_key (vs ! 0) \<le> rec_key v" by (auto dest: in_set_dropD)
  have copy: "vc_history_record_vector_copy [] (vi_value_type item1) ?ks = ?ks"
    using typed by (simp add: vc_history_record_vector_copy_map map_idI)
  obtain found c i item2 vc2 r where m:
    "vch_item_get_last_value item1 (rec_sec (vs ! 0)) now = Some found"
    "cut_place item1 (hr_timestamp (vs ! 0)) found = (c, i)"
    "vch_item_remove_values_from item1 c i vc = (item2, vc2)"
    "append_loop w item2 (zbx_vector_history_record_sort (vw_qsort w)
       (vch_item_get_values_from item1 c i ?ks) vc_history_record_compare_asc_func) vc2 = Some r"
    "stored item1 vc (mset (item_values item1) + mset ?ks) r"
    by (rule merge_new_values [OF assms(1) ok1 typed after])
  have eq: "vch_item_add_values_at_end w item vs now vc = (if length vs \<le> start then Some (Succeed, item1, vc)
      else Some (mark_new_head (head_addr item) r))"
  proof -
    have cond: "vi_chunks item \<noteq> [] \<and> 0 < vc_history_record_compare_asc_func
        (slots (last (vi_chunks item)) (last_value (last (vi_chunks item)))) (vs ! 0)"
      using assms(7) ends(3) assms(4) by (simp add: vc_keys hd_conv_nth not_le)
    have st: "count_older (slots (hd (vi_chunks item)) (first_value (hd (vi_chunks item)))) vs = start"
      using ends(2) assms(7) by (simp add: start_def)
    show ?thesis
      unfolding vch_item_add_values_at_end_def Let_def st item1_def [symmetric] copy
      using cond m(1-4) by simp
  qed
  have same: "stored item1 = stored item" by (simp add: stored_def fun_eq_iff item1_def)
  show ?thesis
  proof (cases "length vs \<le> start")
    case True
    then have "stored item vc (mset (item_values item) + mset ?ks) (Succeed, item1, vc)"
      using ok1(1) vc_item_okD(1) [OF assms(2)] by (simp add: stored_def item1_def item_shape_def)
    with True eq ks show ?thesis by simp
  next
    case False
    with eq m(5) stored_mark same ks show ?thesis by (simp add: item1_def)
  qed
qed

text \<open>
  C1. Adding values in the order of time to a well-formed item without a gap always returns; a gap is a free
  slot before the first value of the tail chunk while there are other chunks. When it succeeds
  the item is well formed again and its values are the old ones together with all new ones that
  are not before the first cached value; when it fails for lack of memory the values stored are
  a part of these. In both cases the counter of values and the references that the item holds in
  the string pool are exact.
\<close>

theorem vc_add_values_merges:
  assumes "world_ok w" "vc_item_ok item" "no_gap item" "vs \<noteq> []" "sorted (map rec_key vs)"
    "\<forall>v \<in> set vs. hv_typed (vi_value_type item) (hr_value v)"
  shows "\<exists>r. vch_item_add_values_at_end w item vs now vc = Some r \<and>
    stored item vc (mset (item_values item) + mset (kept_values item vs)) r"
  using add_at_end_in_order [OF assms(1,2,4-6)] add_at_end_merging [OF assms] by blast

subsection \<open>A concrete world\<close>

text \<open>
  An allocator that always succeeds with zeroed memory, a pool that takes every string, and an
  insertion sort for \<^verbatim>\<open>qsort\<close>.
\<close>

fun c_insert :: "('a \<Rightarrow> 'a \<Rightarrow> int) \<Rightarrow> 'a \<Rightarrow> 'a list \<Rightarrow> 'a list" where
  "c_insert cmp x [] = [x]"
| "c_insert cmp x (y # ys) = (if cmp x y \<le> 0 then x # y # ys else y # c_insert cmp x ys)"

fun c_insertion_sort :: "('a \<Rightarrow> 'a \<Rightarrow> int) \<Rightarrow> 'a list \<Rightarrow> 'a list" where
  "c_insertion_sort cmp [] = []"
| "c_insertion_sort cmp (x # xs) = c_insert cmp x (c_insertion_sort cmp xs)"

lemma mset_c_insertion_sort [simp]: "mset (c_insertion_sort cmp xs) = mset xs"
proof -
  have "mset (c_insert cmp x xs) = add_mset x (mset xs)" for x xs by (induction xs) simp_all
  then show ?thesis by (induction xs) simp_all
qed

lemma c_insertion_sort_ok:
  assumes "\<And>a b c. cmp a b \<le> 0 \<Longrightarrow> cmp b c \<le> 0 \<Longrightarrow> cmp a c \<le> 0" "\<And>a b. cmp a b \<le> 0 \<or> cmp b a \<le> 0"
  shows "qsort_ok c_insertion_sort cmp"
proof -
  have set_insert: "set (c_insert cmp x xs) = insert x (set xs)" for x xs by (induction xs) auto
  have "sorted_wrt (\<lambda>a b. cmp a b \<le> 0) (c_insert cmp x xs)" if "sorted_wrt (\<lambda>a b. cmp a b \<le> 0) xs" for x xs
  proof (use that in \<open>induction xs\<close>)
    case (Cons y ys)
    then show ?case using assms(1) [of x y] assms(2) [of x y] by (auto simp: set_insert)
  qed simp
  then have "sorted_wrt (\<lambda>a b. cmp a b \<le> 0) (c_insertion_sort cmp xs)" for xs
    by (induction xs) simp_all
  then show ?thesis by (simp add: qsort_ok_def)
qed

definition plain_world :: vc_world where
  "plain_world = \<lparr>vw_alloc = (\<lambda>k n. Some (k, \<lambda>_. hr_zero)), vw_pool_insert = (\<lambda>k s. True), vw_time = (\<lambda>k. 0),
    vw_double_div = (\<lambda>a b. a), vw_double_less = (<), vw_qsort_weights = c_insertion_sort, vw_qsort = c_insertion_sort\<rparr>"

lemma plain_world_ok: "world_ok plain_world"
  by (auto simp: world_ok_def plain_world_def vc_keys intro!: c_insertion_sort_ok)

definition new_item :: "u64 \<Rightarrow> item_value_type \<Rightarrow> vc_item" where
  "new_item itemid t = \<lparr>vi_itemid = itemid, vi_value_type = t, vi_clean_pending = False, vi_remove_pending = False,
    vi_cached_all = False, vi_values_total = 0, vi_last_accessed = 0, vi_refcount = 0, vi_hits = 0, vi_range = 0,
    vi_chunks = []\<rparr>"

definition empty_cache :: vc_cache where
  "empty_cache = \<lparr>vcc_hits = 0, vcc_misses = 0, vcc_low_memory = False, vcc_min_free_request = 0, vcc_items = [],
    vcc_strpool = {#}, vcc_calls = 0\<rparr>"

definition num_record :: "int \<Rightarrow> int \<Rightarrow> u64 \<Rightarrow> history_record" where
  "num_record sec ns v = \<lparr>hr_timestamp = \<lparr>ts_sec = sec, ts_ns = ns\<rparr>, hr_value = Hv_ui64 v\<rparr>"

definition three_additions :: "history_record list option" where
  "three_additions = do {
     (r1, item1, vc1) \<leftarrow> vch_item_add_values_at_beginning plain_world (new_item 1 ITEM_VALUE_TYPE_UINT64)
        [num_record 10 0 1] empty_cache;
     (r2, item2, vc2) \<leftarrow> vch_item_add_values_at_end plain_world item1 [num_record 20 5 2] 100 vc1;
     (r3, item3, vc3) \<leftarrow> vch_item_add_values_at_end plain_world item2 [num_record 20 3 3] 100 vc2;
     Some (item_values item3)
   }"

declare prepend_loop.simps [code] append_loop.simps [code] find_before_loop.simps [code]

text \<open>
  Three additions are enough to store a value that was never given: the loop that looks back for
  the place of a late value moves to the previous chunk with the index of the next one, and then
  takes slots that were never filled for values. The item ends up with a zero value in front.
\<close>

lemma vc_add_value_stale_slot: "three_additions = Some [hr_zero, num_record 10 0 1, num_record 20 3 3, num_record 20 5 2]"
  by code_simp

definition sample_item :: vc_item where
  "sample_item = (new_item 1 ITEM_VALUE_TYPE_UINT64)\<lparr>vi_values_total := 2, vi_chunks :=
    [\<lparr>vch_addr = 7, first_value = 0, last_value = 1, slots_num = 4,
      slots = (\<lambda>_. hr_zero)(0 := num_record 10 0 1, 1 := num_record 30 0 2)\<rparr>]\<rparr>"

lemma sample_item_facts:
  "item_values sample_item = [num_record 10 0 1, num_record 30 0 2]" "vc_item_ok sample_item" "no_gap sample_item"
proof -
  show v: "item_values sample_item = [num_record 10 0 1, num_record 30 0 2]"
    by (simp add: sample_item_def item_values_def chunk_values_def upto.simps)
  show "vc_item_ok sample_item"
    unfolding vc_item_ok_def v
    by (simp add: sample_item_def new_item_def chunk_ok_def num_record_def ts_key_def less_eq_prod_def)
  show "no_gap sample_item" by (simp add: no_gap_def sample_item_def)
qed

theorem vc_add_values_merges_witness:
  "\<exists>r. vch_item_add_values_at_end plain_world sample_item [num_record 20 0 7] 100 empty_cache = Some r \<and>
    stored sample_item empty_cache {#num_record 10 0 1, num_record 20 0 7, num_record 30 0 2#} r"
proof -
  have "\<exists>r. vch_item_add_values_at_end plain_world sample_item [num_record 20 0 7] 100 empty_cache = Some r \<and>
      stored sample_item empty_cache (mset (item_values sample_item) +
        mset (kept_values sample_item [num_record 20 0 7])) r"
    by (rule vc_add_values_merges [OF plain_world_ok sample_item_facts(2,3)])
      (simp_all add: sample_item_def new_item_def)
  moreover have "kept_values sample_item [num_record 20 0 7] = [num_record 20 0 7]"
    by (simp add: kept_values_def sample_item_facts num_record_def ts_key_def less_prod_def)
  ultimately show ?thesis by (simp add: sample_item_facts add_mset_commute)
qed

end
