(* ===== verification/VcClean.thy ===== *)
theory VcClean
  imports VcUpdate
begin

text \<open>
  Old values of an item (\<^verbatim>\<open>libs/zbxdbcache/valuecache.c\<close>): older values read from the database are
  put before the cached ones, and chunks that are older than the request range are dropped.
\<close>

subsection \<open>Adding values at the beginning\<close>

lemma prepend_room_result:
  assumes "world_ok w" "item_shape item" "prepend_room w item m vc = (ret, n, item', vc')"
  shows "pool_step vc vc' {#} {#} \<and> (ret = Fail \<longrightarrow> item' = item) \<and>
    (ret = Succeed \<longrightarrow> (\<exists>c post. item' = item\<lparr>vi_chunks := c # post\<rparr> \<and> 0 < n \<and> first_value c = n \<and>
      first_value c \<le> last_value c + 1 \<and> last_value c < slots_num c \<and> (\<forall>d \<in> set post. chunk_ok d) \<and>
      (\<forall>d \<in> set post. first_value d = 0) \<and> item_values item' = item_values item))"
proof (cases "vi_chunks item \<noteq> [] \<and> first_value (hd (vi_chunks item)) \<noteq> 0")
  case True
  then have eq: "ret = Succeed" "n = first_value (hd (vi_chunks item))" "item' = item" "vc' = vc"
    using assms(3) by (auto simp: prepend_room_def Let_def)
  obtain c post where cs: "vi_chunks item = c # post" using True by (cases "vi_chunks item") auto
  have same: "item' = item\<lparr>vi_chunks := c # post\<rparr>" using eq(3) unfolding cs [symmetric] by simp
  have ok: "chunk_ok c" "\<forall>d \<in> set post. chunk_ok d" "\<forall>d \<in> set post. first_value d = 0"
    using assms(2) by (simp_all add: item_shape_def cs)
  have num: "0 < n \<and> first_value c = n \<and> first_value c \<le> last_value c + 1 \<and> last_value c < slots_num c"
    using ok(1) True eq(2) by (simp add: chunk_ok_def cs)
  have "pool_step vc vc' {#} {#} \<and> (ret = Fail \<longrightarrow> item' = item)" using eq by simp
  with same ok(2,3) num arg_cong [OF eq(3), of item_values] show ?thesis by blast
next
  case False
  define n0 where "n0 = vch_get_new_chunk_slot_count m"
  let ?at = "if vi_chunks item = [] then None else Some (0::nat)"
  obtain r item1 vc1 where a: "vch_item_add_chunk w item n0 ?at vc = (r, item1, vc1)" by (metis prod_cases3)
  note res = vch_item_add_chunk_result [OF assms(1) a]
  have eq: "vc' = vc1" "n = n0" "ret = r"
      "item' = (if r = Succeed then upd_tail (\<lambda>c. c\<lparr>last_value := n0 - 1, first_value := n0\<rparr>) item1 else item1)"
  proof -
    have z: "(if vi_chunks item \<noteq> [] then first_value (hd (vi_chunks item)) else 0) = 0"
      using False by auto
    have "(ret, n, item', vc') = (case r of Fail \<Rightarrow> (Fail, n0, item1, vc1)
        | Succeed \<Rightarrow> (Succeed, n0, upd_tail (\<lambda>c. c\<lparr>last_value := n0 - 1, first_value := n0\<rparr>) item1, vc1))"
      unfolding assms(3) [symmetric] prepend_room_def Let_def z n0_def [symmetric] a by (cases r) simp_all
    then show "vc' = vc1" "n = n0" "ret = r"
        "item' = (if r = Succeed then upd_tail (\<lambda>c. c\<lparr>last_value := n0 - 1, first_value := n0\<rparr>) item1 else item1)"
      by (cases r; simp)+
  qed
  show ?thesis
  proof (cases r)
    case Fail
    with res eq show ?thesis by simp
  next
    case Succeed
    with res(3) obtain c where c: "slots_num c = n0" "item1 = item\<lparr>vi_chunks := c # vi_chunks item\<rparr>" by auto
    let ?c = "c\<lparr>last_value := n0 - 1, first_value := n0\<rparr>"
    have ok: "\<forall>d \<in> set (vi_chunks item). chunk_ok d" "\<forall>d \<in> set (vi_chunks item). first_value d = 0"
      using assms(2) False by (cases "vi_chunks item"; simp add: item_shape_def)+
    have "item' = item\<lparr>vi_chunks := ?c # vi_chunks item\<rparr> \<and> 0 < n \<and> first_value ?c = n \<and>
        first_value ?c \<le> last_value ?c + 1 \<and> last_value ?c < slots_num ?c \<and> (\<forall>d \<in> set (vi_chunks item). chunk_ok d) \<and>
        (\<forall>d \<in> set (vi_chunks item). first_value d = 0) \<and> item_values item' = item_values item"
      using eq Succeed c ok slot_count_bounds(1) [of m]
      by (simp add: upd_tail_def item_values_def chunk_values_def n0_def)
    with res(1) eq(1) Succeed eq(3) show ?thesis by blast
  qed
qed

lemma prepend_loop_result:
  assumes "world_ok w" "item_shape item" "\<forall>v \<in> set vs. hv_typed (vi_value_type item) (hr_value v)"
  shows "\<exists>ret item' vc' us ws. prepend_loop w item vs vc = Some (ret, item', vc') \<and> vs = us @ ws \<and>
    item_values item' = ws @ item_values item \<and>
    item' = item\<lparr>vi_chunks := vi_chunks item', vi_values_total := vi_values_total item + int (length ws)\<rparr> \<and>
    pool_step vc vc' {#} (record_strings (vi_value_type item) ws) \<and>
    (ret = Succeed \<longrightarrow> us = [] \<and> item_shape item')"
  using assms(2,3)
proof (induction vs arbitrary: item vc rule: length_induct)
  case (1 vs)
  have refl: "item = item\<lparr>vi_chunks := vi_chunks item, vi_values_total := vi_values_total item + int (length [])\<rparr>"
    by simp
  show ?case
  proof (cases "vs = []")
    case True
    then have "prepend_loop w item vs vc = Some (Succeed, item, vc)" by (subst prepend_loop.simps) simp
    with True 1(2) refl show ?thesis by fastforce
  next
    case False
    obtain r1 n item1 vc1 where room: "prepend_room w item (int (length vs)) vc = (r1, n, item1, vc1)"
      by (metis prod_cases4)
    note res = prepend_room_result [OF assms(1) 1(2) room]
    show ?thesis
    proof (cases r1)
      case Fail
      then have "prepend_loop w item vs vc = Some (Fail, item, vc1)"
        using False room res by (subst prepend_loop.simps) simp
      with Fail res refl show ?thesis by fastforce
    next
      case Succeed
      with res obtain c post where c: "item1 = item\<lparr>vi_chunks := c # post\<rparr>" "0 < n" "first_value c = n"
          "first_value c \<le> last_value c + 1" "last_value c < slots_num c" "\<forall>d \<in> set post. chunk_ok d"
          "\<forall>d \<in> set post. first_value d = 0" "item_values item1 = item_values item" by blast
      define m where "m = nat (int (length vs) - min n (int (length vs)))"
      have m: "m < length vs" "int (length vs) - int m \<le> n"
        using False c(2) by (auto simp: m_def min_def nat_less_iff split: if_splits)
      obtain r2 item2 vc2 where copy: "vch_item_copy_values_at_beginning w item1 (drop m vs) vc1 = (r2, item2, vc2)"
        by (metis prod_cases3)
      have eq: "prepend_loop w item vs vc = (case r2 of Fail \<Rightarrow> Some (Fail, item2, vc2)
          | Succeed \<Rightarrow> prepend_loop w item2 (take m vs) vc2)"
        using False room Succeed copy by (subst prepend_loop.simps, cases r2) (simp_all add: m_def Let_def)
      have pre: "vi_chunks item1 \<noteq> []" "first_value (hd (vi_chunks item1)) \<le> last_value (hd (vi_chunks item1)) + 1"
          "\<forall>v \<in> set (drop m vs). hv_typed (vi_value_type item1) (hr_value v)"
        using 1(3) c(1,4) by (auto dest: in_set_dropD)
      obtain us ws item3 where k: "drop m vs = us @ ws" "tail_grown item1 item3 ws" "r2 = Succeed \<longrightarrow> ws = drop m vs"
          "item2 = item3\<lparr>vi_values_total := vi_values_total item1 + int (length ws)\<rparr>"
          "pool_step vc1 vc2 {#} (record_strings (vi_value_type item1) ws)"
        by (rule vch_item_copy_values_at_beginning_result [OF assms(1) copy pre])
      from k(2) c(1) obtain c' where c': "item3 = item\<lparr>vi_chunks := c' # post\<rparr>" "last_value c' = last_value c"
          "slots_num c' = slots_num c" "first_value c' = first_value c - int (length ws)"
          "chunk_values c' = ws @ chunk_values c"
        by (auto simp: tail_grown_def Let_def)
      have item2: "item2 = item\<lparr>vi_chunks := c' # post, vi_values_total := vi_values_total item + int (length ws)\<rparr>"
        using k(4) c' c(1) by simp
      have vals2: "item_values item2 = ws @ item_values item"
        using c(8) by (simp add: item2 item_values_def c'(5) c(1))
      have step2: "pool_step vc vc2 {#} (record_strings (vi_value_type item) ws)"
        using pool_step_trans [OF conjunct1 [OF res] k(5)] c(1) by simp
      have frame2: "item2 = item\<lparr>vi_chunks := vi_chunks item2, vi_values_total := vi_values_total item + int (length ws)\<rparr>"
        by (simp add: item2)
      have vs: "vs = take m vs @ us @ ws" using k(1) by (metis append_take_drop_id)
      show ?thesis
      proof (cases r2)
        case Fail
        then have "prepend_loop w item vs vc = Some (Fail, item2, vc2)" by (simp add: eq)
        moreover have "vs = (take m vs @ us) @ ws" using vs by simp
        ultimately show ?thesis using vals2 step2 frame2 by blast
      next
        case r2: Succeed
        then have ws: "ws = drop m vs" "us = []" using k(1,3) by simp_all
        have shape2: "item_shape item2"
          unfolding item_shape_def
        proof (intro conjI)
          have "chunk_ok c'" using c' c(3,4,5) m ws(1) by (simp add: chunk_ok_def)
          then show "\<forall>c \<in> set (vi_chunks item2). chunk_ok c" using c(6) by (simp add: item2)
          show "\<forall>c \<in> set (tl (vi_chunks item2)). first_value c = 0" using c(7) by (simp add: item2)
          show "vi_values_total item2 = int (length (item_values item2))"
            using vals2 1(2) by (simp add: item2 item_shape_def)
        qed
        have len: "length (take m vs) < length vs" using m by simp
        have typed: "\<forall>v \<in> set (take m vs). hv_typed (vi_value_type item2) (hr_value v)"
          using 1(3) by (auto simp: item2 dest: in_set_takeD)
        obtain ret item' vc' us' ws' where IH: "prepend_loop w item2 (take m vs) vc2 = Some (ret, item', vc')"
            "take m vs = us' @ ws'" "item_values item' = ws' @ item_values item2"
            "item' = item2\<lparr>vi_chunks := vi_chunks item', vi_values_total := vi_values_total item2 + int (length ws')\<rparr>"
            "pool_step vc2 vc' {#} (record_strings (vi_value_type item2) ws')"
            "ret = Succeed \<longrightarrow> us' = [] \<and> item_shape item'"
          using 1(1) [THEN spec, THEN mp, OF len, THEN spec, THEN mp, OF shape2, THEN mp, OF typed, THEN spec, of vc2]
          by blast
        have "prepend_loop w item vs vc = Some (ret, item', vc')" using IH(1) r2 by (simp add: eq)
        moreover have "vs = us' @ (ws' @ ws)" using vs IH(2) ws(2) by simp
        moreover have "item_values item' = (ws' @ ws) @ item_values item" using IH(3) vals2 by simp
        moreover have "item' = item\<lparr>vi_chunks := vi_chunks item', vi_values_total := vi_values_total item + int (length (ws' @ ws))\<rparr>"
          by (subst IH(4)) (simp add: item2)
        moreover have "pool_step vc vc' {#} (record_strings (vi_value_type item) (ws' @ ws))"
          using pool_step_trans [OF step2 pool_step_frame(1) [OF IH(5), of "record_strings (vi_value_type item) ws", simplified]]
          by (simp add: item2)
        ultimately show ?thesis using IH(6) by blast
      qed
    qed
  qed
qed
lemma take_count_kept:
  "sorted (map rec_sec vs) \<Longrightarrow> take (count_kept sec vs) vs = filter (\<lambda>v. rec_sec v < sec) vs"
proof (induction vs rule: rev_induct)
  case (snoc v vs)
  show ?case
  proof (cases "sec \<le> rec_sec v")
    case True
    then have "count_kept sec (vs @ [v]) = count_kept sec vs" by (simp add: count_kept_def)
    moreover have "count_kept sec vs \<le> length vs"
      using length_dropWhile_le [of _ "rev vs"] by (simp add: count_kept_def)
    ultimately show ?thesis using snoc True by (simp add: sorted_append)
  next
    case False
    with snoc.prems have "\<forall>x \<in> set vs. rec_sec x < sec" by (auto simp: sorted_append)
    with False show ?thesis by (simp add: count_kept_def)
  qed
qed simp

definition older_values :: "vc_item \<Rightarrow> history_record list \<Rightarrow> history_record list" where
  "older_values item vs = (if item_values item = [] then vs
    else filter (\<lambda>v. rec_sec v < rec_sec (hd (item_values item))) vs)"

text \<open>
  Putting values in the order of time before the history of a well-formed item always
  returns. When it succeeds the item is well formed and holds its old values and exactly the new
  ones whose second is before that of the first cached value; when it fails a part of these is
  stored, the newest ones. The counter of values and the references in the string pool are exact
  either way.
\<close>

lemma add_older_values_result:
  assumes "world_ok w" "vc_item_ok item" "sorted (map rec_key vs)"
    "\<forall>v \<in> set vs. hv_typed (vi_value_type item) (hr_value v)"
  shows "\<exists>ret item' vc'. vch_item_add_values_at_beginning w item vs vc = Some (ret, item', vc') \<and>
    stored item vc (mset (item_values item) + mset (older_values item vs)) (ret, item', vc') \<and>
    (\<exists>us ws. older_values item vs = us @ ws \<and> item_values item' = ws @ item_values item) \<and>
    item' = item\<lparr>vi_chunks := vi_chunks item', vi_values_total := vi_values_total item'\<rparr>"
proof -
  define os where "os = older_values item vs"
  have ends: "item_values item \<noteq> []"
      "hd (item_values item) = slots (hd (vi_chunks item)) (first_value (hd (vi_chunks item)))"
    if "vi_chunks item \<noteq> []"
    using first_and_last_value [OF vc_item_ok_chunks [OF assms(2)] that] by blast+
  have eq: "vch_item_add_values_at_beginning w item vs vc = prepend_loop w item os vc"
  proof (cases "vi_chunks item = []")
    case True
    then show ?thesis by (simp add: vch_item_add_values_at_beginning_def os_def older_values_def item_values_def)
  next
    case False
    with ends take_count_kept [OF sorted_keys_secs [OF assms(3)]] show ?thesis
      by (simp add: vch_item_add_values_at_beginning_def os_def older_values_def Let_def)
  qed
  have os: "set os \<subseteq> set vs" "sorted (map rec_key os)"
    using assms(3) by (auto simp: os_def older_values_def sorted_filter)
  have typed: "\<forall>v \<in> set os. hv_typed (vi_value_type item) (hr_value v)" using os(1) assms(4) by blast
  obtain ret item' vc' us ws where r: "prepend_loop w item os vc = Some (ret, item', vc')" "os = us @ ws"
      "item_values item' = ws @ item_values item"
      "item' = item\<lparr>vi_chunks := vi_chunks item', vi_values_total := vi_values_total item + int (length ws)\<rparr>"
      "pool_step vc vc' {#} (record_strings (vi_value_type item) ws)"
      "ret = Succeed \<longrightarrow> us = [] \<and> item_shape item'"
    using prepend_loop_result [OF assms(1) vc_item_okD(1) [OF assms(2)] typed, of vc] by blast
  have t: "vi_value_type item' = vi_value_type item" by (subst r(4)) simp
  have n: "vi_values_total item' = vi_values_total item + int (length ws)" by (subst r(4)) simp
  have "sorted (map rec_key (os @ item_values item))"
  proof (cases "item_values item")
    case (Cons v rest)
    have "rec_key x \<le> rec_key v" if "x \<in> set os" for x
      using that Cons by (auto simp: os_def older_values_def ts_key_def less_eq_prod_def)
    moreover have "\<forall>y \<in> set (item_values item). rec_key v \<le> rec_key y"
      using vc_item_okD(3) [OF assms(2)] Cons by simp
    ultimately show ?thesis
      using os(2) vc_item_okD(3) [OF assms(2)] by (auto simp: sorted_append) (meson order_trans)
  qed (use os(2) in simp)
  then have ok: "vc_item_ok item' \<and> mset (item_values item') = mset (item_values item) + mset os" if "ret = Succeed"
    using that r(2,3,6) typed vc_item_okD(2) [OF assms(2)] by (auto intro!: vc_item_okI simp: t)
  have "item_strings item' = item_strings item + record_strings (vi_value_type item) ws"
    by (simp add: item_strings_def t r(3))
  then have "pool_step vc vc' (item_strings item) (item_strings item')"
    using pool_step_frame(2) [OF r(5), of "item_strings item"] by simp
  then have "stored item vc (mset (item_values item) + mset os) (ret, item', vc')"
    using ok r(2,3) n vc_item_okD(1) [OF assms(2)] by (simp add: stored_def item_shape_def)
  moreover have "item' = item\<lparr>vi_chunks := vi_chunks item', vi_values_total := vi_values_total item'\<rparr>"
    unfolding n by (rule r(4))
  moreover have "vch_item_add_values_at_beginning w item vs vc = Some (ret, item', vc')"
    using eq r(1) by simp
  ultimately show ?thesis using r(2,3) unfolding os_def by blast
qed

subsection \<open>Dropping old chunks\<close>

lemma trim_next_result:
  assumes "first_value c \<le> k" "k \<le> last_value c" "slot_sec c k \<noteq> sec"
  shows "\<exists>item' c' vc' R. trim_next sec item c vc = Some (item', c', vc') \<and>
    chunk_values c = R @ chunk_values c' \<and> (\<forall>v \<in> set R. rec_sec v = sec) \<and>
    c' = c\<lparr>first_value := first_value c'\<rparr> \<and> first_value c \<le> first_value c' \<and> first_value c' \<le> last_value c \<and>
    slot_sec c' (first_value c') \<noteq> sec \<and>
    item' = item\<lparr>vi_values_total := vi_values_total item - int (length R)\<rparr> \<and>
    vcc_items vc' = vcc_items vc \<and> vcc_strpool vc' = vcc_strpool vc - record_strings (vi_value_type item) R"
  using assms
proof (induction "nat (k - first_value c)" arbitrary: item c vc)
  case 0
  then have k: "k = first_value c" by simp
  then have "trim_next sec item c vc = Some (item, c, vc)" using 0 by (subst trim_next.simps) simp
  moreover have "chunk_values c = [] @ chunk_values c \<and> c = c\<lparr>first_value := first_value c\<rparr> \<and>
      item = item\<lparr>vi_values_total := vi_values_total item - int (length [])\<rparr>" by simp
  ultimately show ?case using 0 k by fastforce
next
  case (Suc n)
  show ?case
  proof (cases "slot_sec c (first_value c) = sec")
    case False
    then have "trim_next sec item c vc = Some (item, c, vc)" by (subst trim_next.simps) simp
    moreover have "chunk_values c = [] @ chunk_values c \<and> c = c\<lparr>first_value := first_value c\<rparr> \<and>
        item = item\<lparr>vi_values_total := vi_values_total item - int (length [])\<rparr>" by simp
    ultimately show ?thesis using Suc.prems False by fastforce
  next
    case True
    let ?i = "first_value c" and ?c = "c\<lparr>first_value := first_value c + 1\<rparr>"
    let ?r = "vc_item_free_values item (slots c) ?i ?i vc"
    let ?item = "item\<lparr>vi_values_total := vi_values_total item - 1\<rparr>"
    have step: "trim_next sec item c vc = trim_next sec ?item ?c (snd (snd ?r))"
      using True by (subst trim_next.simps) (simp add: Let_def)
    have "n = nat (k - first_value ?c)" "first_value ?c \<le> k" "k \<le> last_value ?c" "slot_sec ?c k \<noteq> sec"
      using Suc.hyps(2) Suc.prems by auto
    from Suc.hyps(1) [OF this, of ?item "snd (snd ?r)"] obtain item' c' vc' R where
      IH: "trim_next sec ?item ?c (snd (snd ?r)) = Some (item', c', vc')" "chunk_values ?c = R @ chunk_values c'"
        "\<forall>v \<in> set R. rec_sec v = sec" "c' = ?c\<lparr>first_value := first_value c'\<rparr>" "first_value ?c \<le> first_value c'"
        "first_value c' \<le> last_value ?c" "slot_sec c' (first_value c') \<noteq> sec"
        "item' = ?item\<lparr>vi_values_total := vi_values_total ?item - int (length R)\<rparr>"
        "vcc_items vc' = vcc_items (snd (snd ?r))"
        "vcc_strpool vc' = vcc_strpool (snd (snd ?r)) - record_strings (vi_value_type ?item) R" by blast
    have cv: "chunk_values c = slots c ?i # chunk_values ?c"
      using Suc.prems by (simp add: chunk_values_def upto_rec1)
    show ?thesis
    proof (intro exI conjI)
      show "trim_next sec item c vc = Some (item', c', vc')" using step IH(1) by simp
      show "chunk_values c = (slots c ?i # R) @ chunk_values c'" using cv IH(2) by simp
      show "\<forall>v \<in> set (slots c ?i # R). rec_sec v = sec" using True IH(3) by simp
      show "c' = c\<lparr>first_value := first_value c'\<rparr>" using IH(4) by simp
      show "item' = item\<lparr>vi_values_total := vi_values_total item - int (length (slots c ?i # R))\<rparr>" using IH(8) by simp
      show "vcc_strpool vc' = vcc_strpool vc - record_strings (vi_value_type item) (slots c ?i # R)"
        using IH(10) by simp
    qed (use IH(5,6,7,9) in simp_all)
  qed
qed

lemma vch_item_remove_tail:
  assumes "vi_chunks item = c # cs" "vch_item_remove_chunk item 0 vc = (item', vc')"
  shows "item' = item\<lparr>vi_chunks := cs, vi_values_total := vi_values_total item - (last_value c - first_value c + 1)\<rparr>"
    "vcc_items vc' = vcc_items vc"
    "vcc_strpool vc' = vcc_strpool vc - record_strings (vi_value_type item) (chunk_values c)"
proof -
  have "item' = fst (snd (vch_item_free_chunk (item\<lparr>vi_chunks := cs\<rparr>) c vc))"
    "vc' = snd (snd (vch_item_free_chunk (item\<lparr>vi_chunks := cs\<rparr>) c vc))"
    using assms by (simp_all add: vch_item_remove_chunk_def split_beta)
  then show "item' = item\<lparr>vi_chunks := cs, vi_values_total := vi_values_total item - (last_value c - first_value c + 1)\<rparr>"
    "vcc_items vc' = vcc_items vc"
    "vcc_strpool vc' = vcc_strpool vc - record_strings (vi_value_type item) (chunk_values c)" by simp_all
qed

text \<open>
  The values trimmed from the next chunk are \<open>T\<close>, and \<open>cs'\<close> the chunks that remain: all of them
  are newer than the second \<open>S\<close>, or the first holds only values of that second.
\<close>

lemma trim_following_result:
  assumes cs: "vi_chunks item = c # cs" and okc: "\<forall>d \<in> set cs. chunk_ok d" "\<forall>d \<in> set cs. first_value d = 0"
    and srt: "sorted (map rec_sec (concat (map chunk_values cs)))"
    and ge_S: "\<forall>v \<in> set (concat (map chunk_values cs)). S \<le> rec_sec v"
  shows "\<exists>T cs' vc1. trim_following S item c cs vc =
        Some (item\<lparr>vi_chunks := c # cs', vi_values_total := vi_values_total item - int (length T)\<rparr>, vc1) \<and>
      concat (map chunk_values cs) = T @ concat (map chunk_values cs') \<and> (\<forall>v \<in> set T. rec_sec v = S) \<and>
      vcc_items vc1 = vcc_items vc \<and> vcc_strpool vc1 = vcc_strpool vc - record_strings (vi_value_type item) T \<and>
      length cs' = length cs \<and> (\<forall>d \<in> set cs'. chunk_ok d) \<and> (\<forall>d \<in> set (tl cs'). first_value d = 0) \<and>
      ((\<forall>v \<in> set (concat (map chunk_values cs')). S < rec_sec v) \<or>
       (\<exists>d ds. cs' = d # ds \<and> slot_sec d (last_value d) = S \<and> rec_sec (hd (concat (map chunk_values cs'))) = S))"
proof (cases cs)
  case Nil
  have "item = item\<lparr>vi_chunks := c # [], vi_values_total := vi_values_total item - int (length [])\<rparr>"
    using cs Nil by simp
  with Nil show ?thesis by (intro exI [of _ "[]"] exI [of _ vc]) (simp add: trim_following_def)
next
  case (Cons d rest)
  have okd: "chunk_ok d" using okc(1) Cons by simp
  have dvals: "chunk_values d = slots d (first_value d) # map (slots d) [first_value d + 1 .. last_value d]"
    using okd by (simp add: chunk_values_def chunk_ok_def upto_rec1)
  have dlast: "slots d (last_value d) \<in> set (chunk_values d)" using okd by (auto simp: chunk_values_def chunk_ok_def)
  have srtd: "sorted (map rec_sec (chunk_values d @ concat (map chunk_values rest)))"
    using srt by (simp add: Cons)
  show ?thesis
  proof (cases "slot_sec d (first_value d) = slot_sec d (last_value d)")
    case uniform: True
    have same: "item = item\<lparr>vi_chunks := c # cs, vi_values_total := vi_values_total item - int (length [])\<rparr>"
      using cs by simp
    have "(\<forall>v \<in> set (concat (map chunk_values cs)). S < rec_sec v) \<or>
        (slot_sec d (last_value d) = S \<and> rec_sec (hd (concat (map chunk_values cs))) = S)"
    proof (cases "slot_sec d (first_value d) = S")
      case True
      then show ?thesis using uniform by (simp add: Cons dvals)
    next
      case False
      then have "S < slot_sec d (first_value d)" using ge_S by (auto simp: Cons dvals)
      moreover have "\<forall>v \<in> set (chunk_values d @ concat (map chunk_values rest)). slot_sec d (first_value d) \<le> rec_sec v"
        using srtd by (auto simp: dvals)
      ultimately have "\<forall>v \<in> set (chunk_values d @ concat (map chunk_values rest)). S < rec_sec v"
        by fastforce
      then show ?thesis by (simp add: Cons)
    qed
    then show ?thesis
      using uniform same okc Cons by (intro exI [of _ "[]"] exI [of _ cs] exI [of _ vc]) (auto simp: trim_following_def)
  next
    case False
    obtain k where k: "first_value d \<le> k" "k \<le> last_value d" "slot_sec d k \<noteq> S"
      using False okd unfolding chunk_ok_def by (metis order_refl)
    obtain item1 d1 vc1 T where tr: "trim_next S item d vc = Some (item1, d1, vc1)"
        "chunk_values d = T @ chunk_values d1" "\<forall>v \<in> set T. rec_sec v = S" "d1 = d\<lparr>first_value := first_value d1\<rparr>"
        "first_value d \<le> first_value d1" "first_value d1 \<le> last_value d" "slot_sec d1 (first_value d1) \<noteq> S"
        "item1 = item\<lparr>vi_values_total := vi_values_total item - int (length T)\<rparr>"
        "vcc_items vc1 = vcc_items vc" "vcc_strpool vc1 = vcc_strpool vc - record_strings (vi_value_type item) T"
      using trim_next_result [OF k, of item vc] by blast
    have d1f: "last_value d1 = last_value d" "slots_num d1 = slots_num d" by (subst tr(4), simp)+
    have okd1: "chunk_ok d1" using okd tr(5,6) by (simp add: chunk_ok_def d1f)
    have d1vals: "chunk_values d1 = slots d1 (first_value d1) # map (slots d1) [first_value d1 + 1 .. last_value d1]"
      using okd1 by (simp add: chunk_values_def chunk_ok_def upto_rec1)
    have "S < slot_sec d1 (first_value d1)"
      using ge_S tr(7) by (auto simp: Cons tr(2) d1vals order_less_le)
    moreover have "\<forall>v \<in> set (chunk_values d1 @ concat (map chunk_values rest)). slot_sec d1 (first_value d1) \<le> rec_sec v"
      using srtd unfolding tr(2) by (auto simp: sorted_append d1vals)
    ultimately have "\<forall>v \<in> set (chunk_values d1 @ concat (map chunk_values rest)). S < rec_sec v"
      by (meson order_less_le_trans)
    then have gt: "\<forall>v \<in> set (concat (map chunk_values (d1 # rest))). S < rec_sec v" by simp
    show ?thesis
      by (intro exI [of _ T] exI [of _ "d1 # rest"] exI [of _ vc1])
        (use tr False okc okd1 Cons gt in \<open>auto simp: trim_following_def\<close>)
  qed
qed

text \<open>One round of the loop: the tail chunk goes, with the values of its last second in the next chunk.\<close>

lemma clean_loop_step:
  assumes ok: "vc_item_ok item" and cs: "vi_chunks item = c # cs" and old: "slot_sec c (last_value c) < ts"
  obtains item2 vc2 R where "clean_loop ts item vc changed = clean_loop ts item2 vc2 True"
    "item_values item = R @ item_values item2" "R \<noteq> []" "\<forall>v \<in> set R. rec_sec v \<le> slot_sec c (last_value c)"
    "slots c (last_value c) \<in> set R" "vc_item_ok item2" "length (vi_chunks item2) = length cs"
    "item2 = item\<lparr>vi_chunks := vi_chunks item2, vi_values_total := vi_values_total item2\<rparr>"
    "pool_step vc vc2 (item_strings item) (item_strings item2)"
    "(\<forall>v \<in> set (item_values item2). slot_sec c (last_value c) < rec_sec v) \<or>
     (\<exists>d ds. vi_chunks item2 = d # ds \<and> slot_sec d (last_value d) = slot_sec c (last_value c) \<and>
        rec_sec (hd (item_values item2)) = slot_sec c (last_value c))"
proof -
  let ?S = "slot_sec c (last_value c)" and ?t = "vi_value_type item"
  note chunks = vc_item_ok_chunks [OF ok]
  have okc: "chunk_ok c" "\<forall>d \<in> set cs. chunk_ok d" "\<forall>d \<in> set cs. first_value d = 0"
    using chunks by (simp_all add: chunks_ok_def cs)
  have vals: "item_values item = chunk_values c @ concat (map chunk_values cs)" by (simp add: item_values_def cs)
  have srt: "sorted (map rec_sec (item_values item))" by (rule sorted_keys_secs [OF vc_item_okD(3) [OF ok]])
  have cvals: "chunk_values c = map (slots c) [first_value c .. last_value c - 1] @ [slots c (last_value c)]"
    using okc(1) by (simp add: chunk_values_def chunk_ok_def upto_rec2)
  have le_S: "\<forall>v \<in> set (chunk_values c). rec_sec v \<le> ?S" and ge_S: "\<forall>v \<in> set (concat (map chunk_values cs)). ?S \<le> rec_sec v"
    using srt unfolding vals cvals by (auto simp: sorted_append)
  have last_in: "slots c (last_value c) \<in> set (chunk_values c)" by (simp add: cvals)
  have total: "vi_values_total item = int (length (item_values item))"
    using vc_item_okD(1) [OF ok] by (simp add: item_shape_def)
  have len_c: "last_value c - first_value c + 1 = int (length (chunk_values c))"
    using okc(1) by (simp add: length_chunk_values chunk_ok_def)
  obtain T cs' vc1 where tr: "trim_following ?S item c cs vc =
        Some (item\<lparr>vi_chunks := c # cs', vi_values_total := vi_values_total item - int (length T)\<rparr>, vc1)"
      "concat (map chunk_values cs) = T @ concat (map chunk_values cs')" "\<forall>v \<in> set T. rec_sec v = ?S"
      "vcc_items vc1 = vcc_items vc" "vcc_strpool vc1 = vcc_strpool vc - record_strings ?t T"
      "length cs' = length cs" "\<forall>d \<in> set cs'. chunk_ok d" "\<forall>d \<in> set (tl cs'). first_value d = 0"
      "(\<forall>v \<in> set (concat (map chunk_values cs')). ?S < rec_sec v) \<or>
       (\<exists>d ds. cs' = d # ds \<and> slot_sec d (last_value d) = ?S \<and> rec_sec (hd (concat (map chunk_values cs'))) = ?S)"
    using trim_following_result [OF cs okc(2,3), of ?S vc] srt ge_S unfolding vals map_append sorted_append by blast
  define item1 where "item1 = item\<lparr>vi_chunks := c # cs', vi_values_total := vi_values_total item - int (length T)\<rparr>"
  obtain item2 vc2 where rm: "vch_item_remove_chunk item1 0 vc1 = (item2, vc2)" by fastforce
  have "vi_chunks item1 = c # cs'" by (simp add: item1_def)
  note rmr = vch_item_remove_tail [OF this rm]
  have item2: "item2 = item\<lparr>vi_chunks := cs', vi_values_total := vi_values_total item - int (length T) - int (length (chunk_values c))\<rparr>"
    using rmr(1) len_c by (simp add: item1_def)
  have vals2: "item_values item2 = concat (map chunk_values cs')" by (simp add: item2 item_values_def)
  have split: "item_values item = (chunk_values c @ T) @ item_values item2" by (simp add: vals tr(2) vals2)
  have eq: "clean_loop ts item vc changed = clean_loop ts item2 vc2 True"
    using old tr(1) rm by (subst clean_loop.simps) (simp add: cs item1_def [symmetric])
  have ok2: "vc_item_ok item2"
  proof (rule vc_item_okI)
    show "item_shape item2" using tr(7,8) total split by (simp add: item_shape_def vals2) (simp add: item2 vals2)
    show "\<forall>v \<in> set (item_values item2). hv_typed (vi_value_type item2) (hr_value v)"
      using vc_item_okD(2) [OF ok] by (simp add: split) (simp add: item2)
    show "sorted (map rec_key (item_values item2))" using vc_item_okD(3) [OF ok] by (simp add: split sorted_append)
  qed
  have strs: "item_strings item = record_strings ?t T + record_strings ?t (chunk_values c) + item_strings item2"
    by (simp add: item_strings_def split) (simp add: item2)
  have "pool_step vc vc2 (record_strings ?t T + record_strings ?t (chunk_values c)) {#}"
    by (rule pool_step_releases') (simp_all add: rmr(2,3) tr(4,5), simp add: item1_def)
  from pool_step_frame(1) [OF this, of "item_strings item2"]
  have step: "pool_step vc vc2 (item_strings item) (item_strings item2)" by (simp add: strs)
  show thesis
  proof (rule that [OF eq split _ _ _ ok2 _ _ step])
    show "\<forall>v \<in> set (chunk_values c @ T). rec_sec v \<le> ?S" using le_S tr(3) by auto
    show "chunk_values c @ T \<noteq> []" "slots c (last_value c) \<in> set (chunk_values c @ T)" using last_in by auto
    show "length (vi_chunks item2) = length cs" using tr(6) by (simp add: item2)
    show "item2 = item\<lparr>vi_chunks := vi_chunks item2, vi_values_total := vi_values_total item2\<rparr>" by (simp add: item2)
    show "(\<forall>v \<in> set (item_values item2). ?S < rec_sec v) \<or> (\<exists>d ds. vi_chunks item2 = d # ds \<and>
        slot_sec d (last_value d) = ?S \<and> rec_sec (hd (item_values item2)) = ?S)"
      using tr(9) by (simp add: vals2) (simp add: item2)
  qed
qed

lemma clean_loop_result:
  assumes "vc_item_ok item"
  shows "\<exists>item' vc' R. clean_loop ts item vc changed = Some (item', vc', changed \<or> R \<noteq> []) \<and>
    item_values item = R @ item_values item' \<and> (\<forall>v \<in> set R. rec_sec v < ts) \<and>
    (\<forall>x \<in> set R. \<forall>y \<in> set (item_values item'). rec_sec x < rec_sec y) \<and>
    (\<forall>d ds. vi_chunks item' = d # ds \<longrightarrow> ts \<le> slot_sec d (last_value d)) \<and> vc_item_ok item' \<and>
    ((\<exists>d ds. vi_chunks item = d # ds \<and> slot_sec d (last_value d) < ts) \<longrightarrow> R \<noteq> []) \<and>
    item' = item\<lparr>vi_chunks := vi_chunks item', vi_values_total := vi_values_total item'\<rparr> \<and>
    pool_step vc vc' (item_strings item) (item_strings item')"
  using assms
proof (induction "length (vi_chunks item)" arbitrary: item vc changed rule: less_induct)
  case less
  have refl: "item = item\<lparr>vi_chunks := vi_chunks item, vi_values_total := vi_values_total item\<rparr>" by simp
  show ?case
  proof (cases "vi_chunks item")
    case Nil
    then have eq: "clean_loop ts item vc changed = Some (item, vc, changed \<or> [] \<noteq> ([] :: history_record list))"
      by (subst clean_loop.simps) simp
    show ?thesis
      by (intro exI conjI, rule eq) (use Nil less.prems refl in simp_all)
  next
    case (Cons c cs)
    show ?thesis
    proof (cases "slot_sec c (last_value c) < ts")
      case False
      then have eq: "clean_loop ts item vc changed = Some (item, vc, changed \<or> [] \<noteq> ([] :: history_record list))"
        using Cons by (subst clean_loop.simps) simp
      show ?thesis
        by (intro exI conjI, rule eq) (use Cons False less.prems refl in simp_all)
    next
      case True
      obtain item2 vc2 R where st: "clean_loop ts item vc changed = clean_loop ts item2 vc2 True"
          "item_values item = R @ item_values item2" "R \<noteq> []" "\<forall>v \<in> set R. rec_sec v \<le> slot_sec c (last_value c)"
          "vc_item_ok item2" "length (vi_chunks item2) = length cs"
          "item2 = item\<lparr>vi_chunks := vi_chunks item2, vi_values_total := vi_values_total item2\<rparr>"
          "pool_step vc vc2 (item_strings item) (item_strings item2)"
          "(\<forall>v \<in> set (item_values item2). slot_sec c (last_value c) < rec_sec v) \<or>
           (\<exists>d ds. vi_chunks item2 = d # ds \<and> slot_sec d (last_value d) = slot_sec c (last_value c) \<and>
              rec_sec (hd (item_values item2)) = slot_sec c (last_value c))"
        by (rule clean_loop_step [OF less.prems Cons True]) blast
      have "length (vi_chunks item2) < length (vi_chunks item)" using st(6) Cons by simp
      from less.hyps [OF this st(5), of vc2 True] obtain item' vc' R' where
        IH: "clean_loop ts item2 vc2 True = Some (item', vc', True \<or> R' \<noteq> [])"
          "item_values item2 = R' @ item_values item'" "\<forall>v \<in> set R'. rec_sec v < ts"
          "\<forall>x \<in> set R'. \<forall>y \<in> set (item_values item'). rec_sec x < rec_sec y"
          "\<forall>d ds. vi_chunks item' = d # ds \<longrightarrow> ts \<le> slot_sec d (last_value d)" "vc_item_ok item'"
          "(\<exists>d ds. vi_chunks item2 = d # ds \<and> slot_sec d (last_value d) < ts) \<longrightarrow> R' \<noteq> []"
          "item' = item2\<lparr>vi_chunks := vi_chunks item', vi_values_total := vi_values_total item'\<rparr>"
          "pool_step vc2 vc' (item_strings item2) (item_strings item')" by blast
      have apart: "slot_sec c (last_value c) < rec_sec y" if y: "y \<in> set (item_values item')" for y
        using st(9)
      proof
        assume "\<exists>d ds. vi_chunks item2 = d # ds \<and> slot_sec d (last_value d) = slot_sec c (last_value c) \<and>
            rec_sec (hd (item_values item2)) = slot_sec c (last_value c)"
        with IH(7) True have "R' \<noteq> []" "rec_sec (hd (item_values item2)) = slot_sec c (last_value c)" by auto
        then have "rec_sec (hd R') = slot_sec c (last_value c)" "hd R' \<in> set R'" using IH(2) by simp_all
        with IH(4) y show ?thesis by metis
      qed (use y IH(2) in auto)
      show ?thesis
      proof (intro exI conjI)
        show "clean_loop ts item vc changed = Some (item', vc', changed \<or> R @ R' \<noteq> [])" using st(1,3) IH(1) by simp
        show "item_values item = (R @ R') @ item_values item'" using st(2) IH(2) by simp
        show "\<forall>v \<in> set (R @ R'). rec_sec v < ts" using st(4) True IH(3) by fastforce
        show "\<forall>x \<in> set (R @ R'). \<forall>y \<in> set (item_values item'). rec_sec x < rec_sec y"
          using st(4) apart IH(4) by fastforce
        show "item' = item\<lparr>vi_chunks := vi_chunks item', vi_values_total := vi_values_total item'\<rparr>"
          by (subst IH(8), subst st(7)) simp
        show "pool_step vc vc' (item_strings item) (item_strings item')" by (rule pool_step_trans [OF st(8) IH(9)])
      qed (use IH(5,6) st(3) in auto)
    qed
  qed
qed

text \<open>
  C38. Cleaning a well-formed item always returns and leaves a well-formed item. It takes values away
  only at the old end, only such that are more than a minute older than the request range, and
  never one of two values of the same second without the other; afterwards the oldest chunk, if
  any, reaches into the range. The flag for complete caching is reset exactly when something was
  removed, and the references of the removed values leave the string pool.
\<close>

theorem vc_clean_keeps_range:
  assumes "vc_item_ok item"
  shows "\<exists>item' vc' removed. vch_item_clean_cache item now vc = Some (item', vc') \<and>
    item_values item = removed @ item_values item' \<and> vc_item_ok item' \<and>
    (\<forall>v \<in> set removed. vi_range item \<noteq> 0 \<and> rec_sec v < now - vi_range item - 60) \<and>
    (\<forall>x \<in> set removed. \<forall>y \<in> set (item_values item'). rec_sec x < rec_sec y) \<and>
    (vi_range item \<noteq> 0 \<longrightarrow> (\<forall>d ds. vi_chunks item' = d # ds \<longrightarrow> now - vi_range item - 60 \<le> slot_sec d (last_value d))) \<and>
    (vi_cached_all item' \<longleftrightarrow> vi_cached_all item \<and> removed = []) \<and>
    pool_step vc vc' (item_strings item) (item_strings item')"
proof (cases "vi_range item = 0")
  case True
  with assms show ?thesis by (simp add: vch_item_clean_cache_def)
next
  case False
  obtain item1 vc1 R where r: "clean_loop (now - vi_range item - 60) item vc False = Some (item1, vc1, False \<or> R \<noteq> [])"
      "item_values item = R @ item_values item1" "\<forall>v \<in> set R. rec_sec v < now - vi_range item - 60"
      "\<forall>x \<in> set R. \<forall>y \<in> set (item_values item1). rec_sec x < rec_sec y"
      "\<forall>d ds. vi_chunks item1 = d # ds \<longrightarrow> now - vi_range item - 60 \<le> slot_sec d (last_value d)" "vc_item_ok item1"
      "item1 = item\<lparr>vi_chunks := vi_chunks item1, vi_values_total := vi_values_total item1\<rparr>"
      "pool_step vc vc1 (item_strings item) (item_strings item1)"
    using clean_loop_result [OF assms, of "now - vi_range item - 60" vc False] by blast
  define item' where "item' = (if R \<noteq> [] then item1\<lparr>vi_cached_all := False\<rparr> else item1)"
  have eq: "vch_item_clean_cache item now vc = Some (item', vc1)"
    using False r(1) by (simp add: vch_item_clean_cache_def SEC_PER_MIN_def item'_def)
  have all: "vi_cached_all item1 = vi_cached_all item" by (subst r(7)) simp
  show ?thesis
    by (intro exI conjI, rule eq, unfold item'_def) (use r(2-6,8) False all in auto)
qed

text \<open>Two chunks that both have values of second 10: both values go.\<close>

definition old_item :: vc_item where
  "old_item = (new_item 1 ITEM_VALUE_TYPE_UINT64)\<lparr>vi_values_total := 4, vi_range := 20, vi_cached_all := True, vi_chunks :=
    [\<lparr>vch_addr = 7, first_value = 0, last_value = 0, slots_num = 1, slots = (\<lambda>_. hr_zero)(0 := num_record 10 0 1)\<rparr>,
     \<lparr>vch_addr = 8, first_value = 0, last_value = 2, slots_num = 4,
      slots = (\<lambda>_. hr_zero)(0 := num_record 10 5 2, 1 := num_record 30 0 3, 2 := num_record 150 0 4)\<rparr>]\<rparr>"

lemma old_item_facts:
  "item_values old_item = [num_record 10 0 1, num_record 10 5 2, num_record 30 0 3, num_record 150 0 4]"
  "vc_item_ok old_item"
proof -
  show v: "item_values old_item = [num_record 10 0 1, num_record 10 5 2, num_record 30 0 3, num_record 150 0 4]"
    by (simp add: old_item_def item_values_def chunk_values_def upto.simps)
  show "vc_item_ok old_item"
    unfolding vc_item_ok_def v
    by (simp add: old_item_def new_item_def chunk_ok_def num_record_def ts_key_def less_eq_prod_def)
qed

declare trim_next.simps [code] clean_loop.simps [code]

lemma old_item_cleaned:
  "map_option (\<lambda>(item, _). item_values item) (vch_item_clean_cache old_item 200 empty_cache) =
    Some [num_record 30 0 3, num_record 150 0 4]"
  by code_simp

theorem vc_clean_keeps_range_witness:
  "\<exists>item' vc'. vch_item_clean_cache old_item 200 empty_cache = Some (item', vc') \<and> vc_item_ok item' \<and>
    item_values item' = [num_record 30 0 3, num_record 150 0 4] \<and> \<not> vi_cached_all item'"
proof -
  from vc_clean_keeps_range [OF old_item_facts(2), of 200 empty_cache]
  obtain item' vc' removed where r: "vch_item_clean_cache old_item 200 empty_cache = Some (item', vc')"
    "item_values old_item = removed @ item_values item'" "vc_item_ok item'"
    "vi_cached_all item' \<longleftrightarrow> vi_cached_all old_item \<and> removed = []" by blast
  moreover have "item_values item' = [num_record 30 0 3, num_record 150 0 4]" using old_item_cleaned r(1) by simp
  ultimately show ?thesis by (auto simp: old_item_facts(1))
qed

end
