(* ===== verification/VcRequests.thy ===== *)
theory VcRequests
  imports VcClean
begin

text \<open>
  The requests to the value cache (\<^verbatim>\<open>libs/zbxdbcache/valuecache.c\<close>): what is read from the database,
  how it is put into the cache, and what a request returns.

  The database is an argument: a function from queries to rows, already converted to values, or
  \<open>None\<close> when the query fails. While it is asked the cache is not locked; what other processes do
  to the item and to the cache in that time is the argument \<open>meanwhile\<close>. A call sees one time
  \<open>now\<close>. A result \<open>None\<close> stands for a call that does not come back, as before.
\<close>

subsection \<open>Reading from the database\<close>

text \<open>
  \<open>Q_period a b\<close> asks for the rows with \<open>clock > a\<close> and \<open>clock \<le> b\<close> in any order;
  \<open>Q_newest a b n\<close> for those with \<open>clock \<le> b\<close>, and \<open>clock > a\<close> if \<open>a\<close> is given, ordered by clock
  and ns descending, at most \<open>n\<close> if given; \<open>Q_at ts\<close> for the rows of that moment.
\<close>

datatype vc_query = Q_period int int | Q_newest "int option" int "nat option" | Q_at zbx_timespec

type_synonym vc_db = "vc_query \<Rightarrow> history_record list option"

definition vc_db_read_values_by_time ::
  "vc_db \<Rightarrow> history_record list \<Rightarrow> int \<Rightarrow> int \<Rightarrow> zres \<times> history_record list" where
  "vc_db_read_values_by_time db vs seconds end_timestamp =
    (case db (Q_period (end_timestamp - seconds) end_timestamp) of
       None \<Rightarrow> (Fail, vs)
     | Some rows \<Rightarrow> (Succeed, vs @ rows))"

fun fetch_rows ::
  "bool \<Rightarrow> zbx_timespec \<Rightarrow> history_record list \<Rightarrow> history_record list \<Rightarrow> nat \<Rightarrow> int \<Rightarrow>
   history_record list \<times> nat \<times> int" where
  "fetch_rows direct count_ts [] vs n last_timestamp = (vs, n, last_timestamp)"
| "fetch_rows direct count_ts (v # rows) vs n last_timestamp =
    (if n \<le> length vs \<and> rec_sec v \<noteq> last_timestamp then (vs, n, last_timestamp)
     else fetch_rows direct count_ts rows (vs @ [v])
       (if 0 < zbx_timespec_compare (hr_timestamp v) count_ts then Suc n else n)
       (if direct then last_timestamp else rec_sec v))"

fun by_count_loop ::
  "vc_db \<Rightarrow> bool \<Rightarrow> zbx_timespec \<Rightarrow> int list \<Rightarrow> int \<Rightarrow> history_record list \<Rightarrow> nat \<Rightarrow> int \<Rightarrow>
   zres \<times> history_record list" where
  "by_count_loop db direct count_ts [] clock_to vs n last_timestamp = (Succeed, vs)"
| "by_count_loop db direct count_ts (period # periods) clock_to vs n last_timestamp =
    (if length vs < n then
       (let clock_from = clock_to - period
        in case db (Q_newest (if clock_from \<noteq> clock_to then Some clock_from else None) clock_to
                     (if direct then Some n else None)) of
             None \<Rightarrow> (Fail, vs)
           | Some rows \<Rightarrow>
               (let (vs1, n1, last1) = fetch_rows direct count_ts rows vs n last_timestamp
                in by_count_loop db direct count_ts periods (clock_to - period) vs1 n1 last1))
     else (Succeed, vs))"

definition read_periods :: "int list" where
  "read_periods = [3600, 24 * 3600, 7 * 24 * 3600, 30 * 24 * 3600, 0]"

definition vc_db_read_values_by_count ::
  "vc_db \<Rightarrow> history_record list \<Rightarrow> int \<Rightarrow> int \<Rightarrow> zbx_timespec \<Rightarrow> bool \<Rightarrow> zres \<times> history_record list" where
  "vc_db_read_values_by_count db vs n read_timestamp count_ts direct =
    by_count_loop db direct count_ts read_periods read_timestamp vs (nat n) 0"

text \<open>
  The loop over the read values copies the first value of the vector, whichever value passes the
  test.
\<close>

definition vc_db_read_value ::
  "vc_world \<Rightarrow> vc_db \<Rightarrow> item_value_type \<Rightarrow> zbx_timespec \<Rightarrow> history_record option" where
  "vc_db_read_value w db t ts =
    (case db (Q_at ts) of
       Some (v # _) \<Rightarrow> Some v
     | _ \<Rightarrow>
         (let vs = zbx_vector_history_record_sort (vw_qsort w)
                (snd (vc_db_read_values_by_count db [] 1 (ts_sec ts) ts False)) vc_history_record_compare_desc_func
          in if \<exists>v \<in> set vs. (rec_sec v = ts_sec ts \<and> ts_ns (hr_timestamp v) \<le> ts_ns ts) \<or> rec_sec v < ts_sec ts
             then Some (vc_history_record_copy (hd vs) t) else None))"

subsection \<open>Requests to an item\<close>

type_synonym vc_meanwhile = "vc_item \<times> vc_cache \<Rightarrow> vc_item \<times> vc_cache"

definition vc_update_statistics :: "vc_item \<Rightarrow> int \<Rightarrow> int \<Rightarrow> vc_cache \<Rightarrow> vc_item \<times> vc_cache" where
  "vc_update_statistics item hits misses vc =
    (item\<lparr>vi_hits := vi_hits item + word_of_int hits\<rparr>,
     vc\<lparr>vcc_hits := vcc_hits vc + word_of_int hits, vcc_misses := vcc_misses vc + word_of_int misses\<rparr>)"

text \<open>What both caching functions do with the values they have read.\<close>

definition cache_records ::
  "vc_world \<Rightarrow> vc_meanwhile \<Rightarrow> zres \<times> history_record list \<Rightarrow> vc_item \<Rightarrow> vc_cache \<Rightarrow>
   (int \<times> vc_item \<times> vc_cache) option" where
  "cache_records w meanwhile read item vc =
    (let (item1, vc1) = meanwhile (item, vc)
     in case read of
          (Fail, records) \<Rightarrow> Some (FAIL, item1, vc1)
        | (Succeed, records) \<Rightarrow>
            if records = [] then Some (0, item1, vc1)
            else map_option (\<lambda>(ret, item2, vc2). (if ret = Succeed then int (length records) else FAIL, item2, vc2))
              (vch_item_add_values_at_beginning w item1
                (zbx_vector_history_record_sort (vw_qsort w) records vc_history_record_compare_asc_func) vc1))"

definition first_sec :: "vc_item \<Rightarrow> int" where
  "first_sec item = slot_sec (hd (vi_chunks item)) (first_value (hd (vi_chunks item)))"

definition vch_item_cache_values_by_time ::
  "vc_world \<Rightarrow> vc_db \<Rightarrow> vc_meanwhile \<Rightarrow> vc_item \<Rightarrow> int \<Rightarrow> int \<Rightarrow> int \<Rightarrow> vc_cache \<Rightarrow>
   (int \<times> vc_item \<times> vc_cache) option" where
  "vch_item_cache_values_by_time w db meanwhile item seconds timestamp now vc =
    (let start = timestamp - seconds;
         (update_seconds, update_end) =
           (if vi_chunks item = [] then (now - timestamp + seconds, now)
            else if start < now - vi_range item then (first_sec item - 1 - start, first_sec item - 1)
            else (0, 0))
     in if 0 < update_seconds \<and> \<not> vi_cached_all item then
          cache_records w meanwhile (vc_db_read_values_by_time db [] update_seconds update_end) item vc
        else Some (0, item, vc))"

fun count_back :: "vc_chunk list \<Rightarrow> int \<Rightarrow> nat \<Rightarrow> int \<Rightarrow> int" where
  "count_back cs n 0 cached = cached"
| "count_back cs n (Suc ci) cached =
    (if cached < n then count_back cs n ci (cached + (last_value (cs ! ci) - first_value (cs ! ci) + 1)) else cached)"

definition vch_item_cache_values_by_count ::
  "vc_world \<Rightarrow> vc_db \<Rightarrow> vc_meanwhile \<Rightarrow> vc_item \<Rightarrow> int \<Rightarrow> zbx_timespec \<Rightarrow> int \<Rightarrow> vc_cache \<Rightarrow>
   (int \<times> vc_item \<times> vc_cache) option" where
  "vch_item_cache_values_by_count w db meanwhile item n timestamp now vc =
    do {
      (cached, update_end) \<leftarrow>
        (if vi_chunks item = [] then Some (0, now)
         else map_option (\<lambda>found. (case found of
                None \<Rightarrow> 0
              | Some (ci, index) \<Rightarrow>
                  count_back (vi_chunks item) n ci (index - first_value (vi_chunks item ! ci) + 1),
              first_sec item - 1))
            (vch_item_get_last_value_by_timespec item timestamp now));
      if \<not> vi_cached_all item \<and> cached < n then
        cache_records w meanwhile
          (vc_db_read_values_by_count db [] (n - cached) update_end timestamp False) item vc
      else Some (0, item, vc)
    }"

definition VC_MAX_NANOSECONDS :: int where "VC_MAX_NANOSECONDS = 999999999"

definition vch_item_get_value_range ::
  "vc_world \<Rightarrow> vc_db \<Rightarrow> vc_meanwhile \<Rightarrow> vc_item \<Rightarrow> int \<Rightarrow> int \<Rightarrow> int \<Rightarrow> int \<Rightarrow> vc_cache \<Rightarrow>
   (zres \<times> vc_item \<times> vc_cache \<times> history_record list) option" where
  "vch_item_get_value_range w db meanwhile item seconds n timestamp now vc =
    (if n = 0 then
       do {
         (ret, item1, vc1) \<leftarrow> vch_item_cache_values_by_time w db meanwhile item seconds timestamp now vc;
         if ret = FAIL then Some (Fail, item1, vc1, [])
         else do {
           (item2, vs) \<leftarrow> vch_item_get_values_by_time item1 [] seconds timestamp now;
           let records_read = (if ret > int (length vs) then int (length vs) else ret);
           let (item3, vc3) = vc_update_statistics item2 (int (length vs) - records_read) records_read vc1;
           Some (Succeed, item3, vc3, vs)
         }
       }
     else
       do {
         (ret, item1, vc1) \<leftarrow> vch_item_cache_values_by_count w db meanwhile item n
            \<lparr>ts_sec = timestamp, ts_ns = VC_MAX_NANOSECONDS\<rparr> now vc;
         if ret = FAIL then Some (Fail, item1, vc1, [])
         else do {
           (item2, vs) \<leftarrow> vch_item_get_values_by_count item1 [] n timestamp now;
           let records_read = (if ret > n then n else ret);
           let (item3, vc3) = vc_update_statistics item2 (int (length vs) - records_read) records_read vc1;
           Some (Succeed, item3, vc3, vs)
         }
       })"

definition vch_item_get_value ::
  "vc_world \<Rightarrow> vc_db \<Rightarrow> vc_meanwhile \<Rightarrow> vc_item \<Rightarrow> zbx_timespec \<Rightarrow> int \<Rightarrow> vc_cache \<Rightarrow>
   (zres \<times> vc_item \<times> vc_cache \<times> history_record option) option" where
  "vch_item_get_value w db meanwhile item ts now vc =
    do {
      (ret, item1, vc1, hits, misses) \<leftarrow>
        (if vi_chunks item = [] \<or>
            0 < zbx_timespec_compare (hr_timestamp (slots (hd (vi_chunks item)) (first_value (hd (vi_chunks item))))) ts
         then map_option (\<lambda>(ret, item1, vc1). (ret, item1, vc1, 0, 1))
                (vch_item_cache_values_by_count w db meanwhile item 1 ts now vc)
         else Some (0, item, vc, 1, 0));
      if ret = FAIL then Some (Fail, item1\<lparr>vi_cached_all := True\<rparr>, vc1, None)
      else do {
        found \<leftarrow> vch_item_get_last_value_by_timespec item1 ts now;
        (case found of
           None \<Rightarrow> Some (Succeed, item1\<lparr>vi_cached_all := True\<rparr>, vc1, None)
         | Some (ci, index) \<Rightarrow>
             (let (item2, vc2) = vc_update_statistics item1 hits misses vc1;
                  v = vc_history_record_copy (slots (vi_chunks item2 ! ci) index) (vi_value_type item2);
                  age = now - rec_sec v
              in Some (Succeed, if vi_range item2 < age then item2\<lparr>vi_range := age\<rparr> else item2, vc2, Some v)))
      }
    }"
subsection \<open>Items in the cache\<close>

text \<open>
  A request takes its item out of \<open>vcc_items\<close> and puts it back when it is done; the order of this
  list stands for no particular order of the hash set.
\<close>

definition vc_find_item :: "u64 \<Rightarrow> vc_cache \<Rightarrow> vc_item option" where
  "vc_find_item itemid vc = find (\<lambda>i. vi_itemid i = itemid) (vcc_items vc)"

definition vc_take_item :: "u64 \<Rightarrow> vc_cache \<Rightarrow> vc_cache" where
  "vc_take_item itemid vc = vc\<lparr>vcc_items := filter (\<lambda>i. vi_itemid i \<noteq> itemid) (vcc_items vc)\<rparr>"

definition vc_put_item :: "vc_item \<Rightarrow> vc_cache \<Rightarrow> vc_cache" where
  "vc_put_item item vc = vc\<lparr>vcc_items := item # vcc_items vc\<rparr>"

text \<open>The \<^verbatim>\<open>memset\<close> clears every member after the value type, the reference counter included.\<close>

definition vc_item_reset_cache :: "vc_item \<Rightarrow> vc_cache \<Rightarrow> vc_item \<times> vc_cache" where
  "vc_item_reset_cache item vc =
    (let (_, item1, vc1) = vch_item_free_cache item vc
     in (item1\<lparr>vi_clean_pending := False, vi_remove_pending := False, vi_cached_all := False, vi_values_total := 0,
           vi_last_accessed := 0, vi_refcount := 0, vi_hits := 0, vi_range := 0, vi_chunks := []\<rparr>, vc1))"

definition vc_item_change_value_type :: "vc_item \<Rightarrow> item_value_type \<Rightarrow> vc_cache \<Rightarrow> vc_item \<times> vc_cache" where
  "vc_item_change_value_type item t vc =
    (let (item1, vc1) = vc_item_reset_cache item vc in (item1\<lparr>vi_value_type := t\<rparr>, vc1))"

definition vc_prepare_item :: "vc_item \<Rightarrow> item_value_type \<Rightarrow> vc_cache \<Rightarrow> zres \<times> vc_item \<times> vc_cache" where
  "vc_prepare_item item t vc =
    (if vi_remove_pending item then (Fail, item, vc)
     else if vi_value_type item \<noteq> t then
       (let (item1, vc1) = vc_item_change_value_type item t vc in (Succeed, item1, vc1))
     else (Succeed, item, vc))"

definition vc_item_addref :: "vc_item \<Rightarrow> vc_item" where
  "vc_item_addref item = item\<lparr>vi_refcount := vi_refcount item + 1\<rparr>"

text \<open>The freed item has left the list when it is taken; so its removal does not put it back.\<close>

definition vc_remove_item :: "vc_item \<Rightarrow> vc_cache \<Rightarrow> vc_cache" where
  "vc_remove_item item vc = snd (snd (vch_item_free_cache item vc))"

definition vc_item_release :: "vc_item \<Rightarrow> int \<Rightarrow> vc_cache \<Rightarrow> vc_cache option" where
  "vc_item_release item now vc =
    (let item1 = item\<lparr>vi_refcount := vi_refcount item - 1\<rparr>
     in if vi_refcount item1 = 0 then
          (if vi_remove_pending item1 then Some (vc_remove_item item1 vc)
           else
             map_option (\<lambda>(item2, vc2).
                 vc_put_item (item2\<lparr>vi_clean_pending := False, vi_remove_pending := False\<rparr>) vc2)
               (if vi_clean_pending item1 then vch_item_clean_cache item1 now vc else Some (item1, vc)))
        else Some (vc_put_item item1 vc))"

fun requested_left :: "history_record list \<Rightarrow> int \<Rightarrow> int \<Rightarrow> int" where
  "requested_left [] n timestamp = n"
| "requested_left (v # vs) n timestamp =
    (if 0 < n \<and> \<not> rec_sec v > timestamp then requested_left vs (n - 1) timestamp else n)"

definition vch_init ::
  "vc_world \<Rightarrow> vc_item \<Rightarrow> history_record list \<Rightarrow> int \<Rightarrow> int \<Rightarrow> int \<Rightarrow> zbx_timespec option \<Rightarrow> int \<Rightarrow> vc_cache \<Rightarrow>
   (zres \<times> vc_item \<times> vc_cache) option" where
  "vch_init w item vs seconds n timestamp ts now vc =
    (let item1 =
       (if vs \<noteq> [] then
          (let all = (case ts of
                 Some t \<Rightarrow> 0 < zbx_timespec_compare (hr_timestamp (hd vs)) t
               | None \<Rightarrow> n \<noteq> 0 \<and> 0 < requested_left vs n timestamp);
               item1 = (if all then item\<lparr>vi_cached_all := True\<rparr> else item)
           in if seconds \<noteq> 0 then item1\<lparr>vi_range := now - timestamp + seconds\<rparr>
              else if \<not> vi_cached_all item1 then item1\<lparr>vi_range := now - rec_sec (hd vs)\<rparr> else item1)
        else item)
     in map_option (\<lambda>(ret, item2, vc2).
          if ret = Succeed then
            (let (item3, vc3) = vc_update_statistics item2 0 (int (length vs)) vc2 in (ret, item3, vc3))
          else (ret, item2, vc2))
        (vch_item_add_values_at_beginning w item1 vs vc))"

text \<open>
  \<^verbatim>\<open>vc_add_item\<close> fills an item that is in the cache and that, when nobody else uses it, has the reference
  counter 0. \<^verbatim>\<open>vc_release_space\<close> spares the item that asks for space when it removes old items, but not when it
  goes on to remove items by weight, where it spares only items with references: the item being filled may be
  removed then and is used on, which is a use of freed memory. \<open>unless_released\<close> gives \<open>None\<close> whenever it comes
  to that second step, which is where \<open>low_memory\<close> is set.
\<close>

definition unless_released ::
  "(vc_cache \<Rightarrow> (zres \<times> vc_item \<times> vc_cache) option) \<Rightarrow> vc_cache \<Rightarrow> (zres \<times> vc_item \<times> vc_cache) option" where
  "unless_released fill vc =
    (case fill (vc\<lparr>vcc_low_memory := False\<rparr>) of
       None \<Rightarrow> None
     | Some (ret, item, vc1) \<Rightarrow>
         (if vcc_low_memory vc1 \<and> vi_refcount item = 0 then None
          else Some (ret, item, vc1\<lparr>vcc_low_memory := vcc_low_memory vc \<or> vcc_low_memory vc1\<rparr>)))"

definition vc_add_item ::
  "vc_world \<Rightarrow> vc_db \<Rightarrow> (vc_cache \<Rightarrow> vc_cache) \<Rightarrow> u64 \<Rightarrow> item_value_type \<Rightarrow> int \<Rightarrow> int \<Rightarrow> int \<Rightarrow> zbx_timespec option \<Rightarrow>
   int \<Rightarrow> vc_cache \<Rightarrow> (vc_item option \<times> vc_cache \<times> history_record list) option" where
  "vc_add_item w db meanwhile itemid t seconds n timestamp ts now vc =
    (let n1 = (if n = 1 then 2 else n);
         (ret, vs) = (case ts of
             Some ts \<Rightarrow> vc_db_read_values_by_count db [] 2 now ts False
           | None \<Rightarrow>
               if n = 0 then vc_db_read_values_by_time db [] (now - timestamp + seconds) now
               else vc_db_read_values_by_count db [] n1 now \<lparr>ts_sec = timestamp, ts_ns = VC_MAX_NANOSECONDS\<rparr> False);
         vc1 = meanwhile vc
     in if ret = Fail then Some (None, vc1, vs)
        else
          (let sorted = zbx_vector_history_record_sort (vw_qsort w) vs vc_history_record_compare_asc_func
           in case vc_find_item itemid vc1 of
                None \<Rightarrow>
                  if vcc_low_memory vc1 then Some (None, vc1, sorted)
                  else (case mem_malloc_call w SIZEOF_ITEM vc1 of
                      (None, vc2) \<Rightarrow> Some (None, vc2, sorted)
                    | (Some _, vc2) \<Rightarrow>
                        map_option (\<lambda>(_, item, vc3). (Some item, vc3, sorted))
                          (unless_released (vch_init w (new_item itemid t) sorted seconds n1 timestamp ts now) vc2))
              | Some item \<Rightarrow>
                  map_option (\<lambda>(_, item1, vc2). (Some item1, vc2, sorted))
                    (unless_released (vch_item_add_values_at_beginning w item sorted) (vc_take_item itemid vc1))))"

definition zbx_vc_add_value ::
  "vc_world \<Rightarrow> u64 \<Rightarrow> item_value_type \<Rightarrow> history_record \<Rightarrow> int \<Rightarrow> vc_cache \<Rightarrow> (zres \<times> vc_cache) option" where
  "zbx_vc_add_value w itemid t v now vc =
    (case vc_find_item itemid vc of
       None \<Rightarrow> Some (Fail, vc)
     | Some item0 \<Rightarrow>
         (let item1 = vc_item_addref item0; vc1 = vc_take_item itemid vc;
              (item2, vc2) = (if vi_value_type item1 \<noteq> t then vc_item_change_value_type item1 t vc1 else (item1, vc1))
          in do {
            (ret, item3, vc3) \<leftarrow> vch_item_add_values_at_end w item2 [v] now vc2;
            let item4 = (if ret = Fail then item3\<lparr>vi_remove_pending := True\<rparr> else item3);
            vc4 \<leftarrow> vc_item_release item4 now vc3;
            Some (ret, vc4)
          }))"

text \<open>The values of a fresh item, sorted in descending order and cut to the request.\<close>

definition cut_to_request :: "vc_world \<Rightarrow> history_record list \<Rightarrow> int \<Rightarrow> int \<Rightarrow> history_record list" where
  "cut_to_request w vs n timestamp =
    (let sorted = zbx_vector_history_record_sort (vw_qsort w) vs vc_history_record_compare_desc_func;
         start = length (takeWhile (\<lambda>v. rec_sec v > timestamp) sorted);
         sorted = (if n \<noteq> 0 \<and> int (length sorted) > n + int start then take (nat n + start) sorted else sorted)
     in drop start sorted)"

definition zbx_vc_get_value_range ::
  "vc_world \<Rightarrow> vc_db \<Rightarrow> vc_meanwhile \<Rightarrow> (vc_cache \<Rightarrow> vc_cache) \<Rightarrow> u64 \<Rightarrow> item_value_type \<Rightarrow> int \<Rightarrow> int \<Rightarrow> int \<Rightarrow> int \<Rightarrow>
   vc_cache \<Rightarrow> (zres \<times> vc_cache \<times> history_record list) option" where
  "zbx_vc_get_value_range w db meanwhile meanwhile_c itemid t seconds n timestamp now vc =
    (case vc_find_item itemid vc of
       None \<Rightarrow> do {
         (item, vc1, vs) \<leftarrow> vc_add_item w db meanwhile_c itemid t seconds n timestamp None now vc;
         (case item of
            None \<Rightarrow> Some (Succeed, vc1, cut_to_request w vs n timestamp)
          | Some item \<Rightarrow> do {
              vc2 \<leftarrow> vc_item_release ((vc_item_addref item)\<lparr>vi_last_accessed := now\<rparr>) now vc1;
              Some (Succeed, vc2, cut_to_request w vs n timestamp)
            })
       }
     | Some item0 \<Rightarrow> do {
         let (ret, item1, vc1) = vc_prepare_item (vc_item_addref item0) t (vc_take_item itemid vc);
         (ret, item2, vc2, vs) \<leftarrow>
           (if ret = Fail then Some (Fail, item1, vc1, [])
            else vch_item_get_value_range w db meanwhile item1 seconds n timestamp now vc1);
         if ret = Fail then do {
           let (ret, vs) = (if n = 0 then vc_db_read_values_by_time db vs seconds timestamp
             else vc_db_read_values_by_count db vs n timestamp \<lparr>ts_sec = timestamp, ts_ns = VC_MAX_NANOSECONDS\<rparr> True);
           let (item3, vc3) = meanwhile (item2\<lparr>vi_remove_pending := True\<rparr>, vc2);
           let (vs, vc4) = (if ret = Succeed
             then (zbx_vector_history_record_sort (vw_qsort w) vs vc_history_record_compare_desc_func,
                   vc3\<lparr>vcc_misses := vcc_misses vc3 + word_of_nat (length vs)\<rparr>)
             else (vs, vc3));
           vc5 \<leftarrow> vc_item_release item3 now vc4;
           Some (ret, vc5, vs)
         } else do {
           vc3 \<leftarrow> vc_item_release (item2\<lparr>vi_last_accessed := now\<rparr>) now vc2;
           Some (Succeed, vc3, vs)
         }
       })"

text \<open>In the vector of a fresh item the newest value that is not after the moment is looked for.\<close>

definition last_of_vector :: "history_record list \<Rightarrow> zbx_timespec \<Rightarrow> history_record option" where
  "last_of_vector vs ts = find (\<lambda>v. 0 \<ge> zbx_timespec_compare (hr_timestamp v) ts) (rev vs)"

definition zbx_vc_get_value ::
  "vc_world \<Rightarrow> vc_db \<Rightarrow> vc_meanwhile \<Rightarrow> (vc_cache \<Rightarrow> vc_cache) \<Rightarrow> u64 \<Rightarrow> item_value_type \<Rightarrow> zbx_timespec \<Rightarrow> int \<Rightarrow>
   vc_cache \<Rightarrow> (zres \<times> vc_cache \<times> history_record option) option" where
  "zbx_vc_get_value w db meanwhile meanwhile_c itemid t ts now vc =
    (case vc_find_item itemid vc of
       None \<Rightarrow> do {
         (item, vc1, vs) \<leftarrow> vc_add_item w db meanwhile_c itemid t 0 0 0 (Some ts) now vc;
         let value = map_option (\<lambda>v. vc_history_record_copy v t) (last_of_vector vs ts);
         (case item of
            None \<Rightarrow> Some (Succeed, vc1, value)
          | Some item \<Rightarrow> do {
              vc2 \<leftarrow> vc_item_release (vc_item_addref item) now vc1;
              Some (Succeed, vc2, value)
            })
       }
     | Some item0 \<Rightarrow> do {
         let (ret, item1, vc1) = vc_prepare_item (vc_item_addref item0) t (vc_take_item itemid vc);
         (ret, item2, vc2, value) \<leftarrow>
           (if ret = Fail then Some (Fail, item1, vc1, None)
            else vch_item_get_value w db meanwhile item1 ts now vc1);
         if ret = Fail then do {
           let value = vc_db_read_value w db t ts;
           let (item3, vc3) = meanwhile (item2\<lparr>vi_remove_pending := True\<rparr>, vc2);
           let vc4 = (if value \<noteq> None then vc3\<lparr>vcc_misses := vcc_misses vc3 + 1\<rparr> else vc3);
           vc5 \<leftarrow> vc_item_release item3 now vc4;
           Some (if value \<noteq> None then Succeed else Fail, vc5, value)
         } else do {
           vc3 \<leftarrow> vc_item_release (item2\<lparr>vi_last_accessed := now\<rparr>) now vc2;
           Some (Succeed, vc3, value)
         }
       })"

subsection \<open>Coherence\<close>

text \<open>
  The documented behaviour of the database for an item whose history is \<open>hist\<close>.
\<close>

definition db_answers :: "vc_db \<Rightarrow> history_record list \<Rightarrow> bool" where
  "db_answers db hist \<longleftrightarrow>
    (\<forall>a b rows. db (Q_period a b) = Some rows \<longrightarrow> mset rows = mset (filter (\<lambda>v. a < rec_sec v \<and> rec_sec v \<le> b) hist)) \<and>
    (\<forall>a b rows. db (Q_newest a b None) = Some rows \<longrightarrow>
       mset rows = mset (filter (\<lambda>v. (case a of None \<Rightarrow> True | Some a \<Rightarrow> a < rec_sec v) \<and> rec_sec v \<le> b) hist) \<and>
       sorted (map rec_key (rev rows)))"

text \<open>
  The cache holds everything of the history after a second; the cache is coherent when it holds
  everything from the second of its first value on, everything of the request range, and, if it says
  so, everything.
\<close>

definition covers :: "vc_item \<Rightarrow> history_record list \<Rightarrow> int \<Rightarrow> bool" where
  "covers item hist s \<longleftrightarrow> filter_mset (\<lambda>v. s < rec_sec v) (mset (item_values item)) =
    filter_mset (\<lambda>v. s < rec_sec v) (mset hist)"

definition coherent :: "vc_item \<Rightarrow> history_record list \<Rightarrow> int \<Rightarrow> bool" where
  "coherent item hist now \<longleftrightarrow>
    (vi_chunks item \<noteq> [] \<longrightarrow> mset (item_values item) = filter_mset (\<lambda>v. first_sec item \<le> rec_sec v) (mset hist)) \<and>
    covers item hist (now - vi_range item) \<and>
    (vi_cached_all item \<longrightarrow> mset (item_values item) = mset hist)"

text \<open>What other processes may do meanwhile: they keep all this and take away nothing at the old end.\<close>

definition meanwhile_ok :: "vc_meanwhile \<Rightarrow> history_record list \<Rightarrow> int \<Rightarrow> bool" where
  "meanwhile_ok meanwhile hist now \<longleftrightarrow> (\<forall>item vc. vc_item_ok item \<and> coherent item hist now \<longrightarrow>
    (let item1 = fst (meanwhile (item, vc)) in
     vc_item_ok item1 \<and> coherent item1 hist now \<and> vi_value_type item1 = vi_value_type item \<and>
     (vi_chunks item \<noteq> [] \<longrightarrow> vi_chunks item1 \<noteq> [] \<and> first_sec item1 \<le> first_sec item)))"

lemma covers_mono:
  assumes "covers item hist s" "s \<le> s'"
  shows "covers item hist s'"
proof -
  have f: "filter_mset (\<lambda>v. s' < rec_sec v) M = filter_mset (\<lambda>v. s' < rec_sec v) (filter_mset (\<lambda>v. s < rec_sec v) M)" for M
    using assms(2) by (induction M) auto
  show ?thesis using assms(1) unfolding covers_def by (metis f)
qed

lemma covers_more:
  assumes "covers item hist s" "mset (item_values item) \<subseteq># mset (item_values item')" "mset (item_values item') \<subseteq># mset hist"
  shows "covers item' hist s"
  using assms(1) multiset_filter_mono [OF assms(2), of "\<lambda>v. s < rec_sec v"]
    multiset_filter_mono [OF assms(3), of "\<lambda>v. s < rec_sec v"]
  unfolding covers_def by (metis subset_mset.antisym)

lemma first_sec_hd:
  assumes "vc_item_ok item" "vi_chunks item \<noteq> []"
  shows "item_values item \<noteq> []" "first_sec item = rec_sec (hd (item_values item))"
    "\<forall>v \<in> set (item_values item). first_sec item \<le> rec_sec v"
proof -
  note ends = first_and_last_value [OF vc_item_ok_chunks [OF assms(1)] assms(2)]
  show "item_values item \<noteq> []" "first_sec item = rec_sec (hd (item_values item))"
    using ends by (simp_all add: first_sec_def)
  then show "\<forall>v \<in> set (item_values item). first_sec item \<le> rec_sec v"
    using sorted_keys_secs [OF vc_item_okD(3) [OF assms(1)]] by (cases "item_values item") auto
qed

lemma coherent_covers_first:
  assumes "coherent item hist now" "vi_chunks item \<noteq> []" "first_sec item - 1 \<le> s"
  shows "covers item hist s"
proof -
  have "filter_mset (\<lambda>v. s < rec_sec v) (filter_mset (\<lambda>v. first_sec item \<le> rec_sec v) M) =
      filter_mset (\<lambda>v. s < rec_sec v) M" for M :: "history_record multiset"
    using assms(3) by (induction M) auto
  with assms(1,2) show ?thesis by (simp add: covers_def coherent_def)
qed

lemma coherent_subset: "coherent item hist now \<Longrightarrow> mset (item_values item) \<subseteq># mset hist"
  by (cases "vi_chunks item = []") (auto simp: coherent_def item_values_def)

text \<open>The central step: caching the history of a period that ends right before the first cached value.\<close>

lemma cache_records_coherent:
  assumes w: "world_ok w" and ok: "vc_item_ok item" and coh: "coherent item hist now"
    and hist: "\<forall>v \<in> set hist. rec_sec v \<le> now \<and> hv_typed (vi_value_type item) (hr_value v)"
    and m: "meanwhile_ok meanwhile hist now"
    and records: "fst read = Succeed \<Longrightarrow> mset (snd read) = filter_mset (\<lambda>v. a < rec_sec v \<and> rec_sec v \<le> b) (mset hist)"
    and b: "b = (if vi_chunks item = [] then now else first_sec item - 1)"
  obtains ret item' vc' where "cache_records w meanwhile read item vc = Some (ret, item', vc')"
    "ret = FAIL \<or> 0 \<le> ret"
    "ret \<noteq> FAIL \<longrightarrow> vc_item_ok item' \<and> coherent item' hist now \<and> covers item' hist a \<and>
      vi_value_type item' = vi_value_type item"
proof -
  obtain item1 vc1 where mw: "meanwhile (item, vc) = (item1, vc1)" by fastforce
  have m1: "vc_item_ok item1" "coherent item1 hist now" "vi_value_type item1 = vi_value_type item"
    "vi_chunks item \<noteq> [] \<Longrightarrow> vi_chunks item1 \<noteq> [] \<and> first_sec item1 \<le> first_sec item"
    using m ok coh mw unfolding meanwhile_ok_def Let_def by (metis fst_conv)+
  obtain rd records where read: "read = (rd, records)" by fastforce
  show thesis
  proof (cases rd)
    case Fail
    then show thesis using mw read by (intro that [of FAIL item1 vc1]) (simp_all add: cache_records_def)
  next
    case Succeed
    then have rs: "mset records = filter_mset (\<lambda>v. a < rec_sec v \<and> rec_sec v \<le> b) (mset hist)"
      using records read by simp
    define srt where "srt = zbx_vector_history_record_sort (vw_qsort w) records vc_history_record_compare_asc_func"
    have srt: "mset srt = mset records" "sorted (map rec_key srt)"
      using history_sort_facts [of "vw_qsort w" records] w by (simp_all add: srt_def world_ok_def)
    have set_srt: "set srt = {v \<in> set hist. a < rec_sec v \<and> rec_sec v \<le> b}"
      using arg_cong [OF srt(1) [unfolded rs], of set_mset] by simp
    have typed: "\<forall>v \<in> set srt. hv_typed (vi_value_type item1) (hr_value v)" using hist set_srt m1(3) by auto
    text \<open>What is stored in front: all of the history after \<open>a\<close> that is not yet cached.\<close>
    have older: "mset (older_values item1 srt) + mset (item_values item1) =
        (if vi_chunks item1 = [] then filter_mset (\<lambda>v. a < rec_sec v) (mset hist)
         else filter_mset (\<lambda>v. a < rec_sec v \<or> first_sec item1 \<le> rec_sec v) (mset hist))"
    proof (cases "vi_chunks item1 = []")
      case True
      then have "vi_chunks item = []" using m1(4) by blast
      then have "mset srt = filter_mset (\<lambda>v. a < rec_sec v) (mset hist)"
        unfolding srt(1) rs using hist b by (intro filter_mset_cong refl) auto
      with True show ?thesis by (simp add: older_values_def item_values_def)
    next
      case False
      note fs = first_sec_hd [OF m1(1) False]
      have "hd (item_values item1) \<in> set hist"
        using set_mset_mono [OF coherent_subset [OF m1(2)]] fs(1) by auto
      then have "first_sec item1 \<le> now" using hist fs(2) by simp
      then have b1: "first_sec item1 - 1 \<le> b" using m1(4) b by (cases "vi_chunks item = []") auto
      have eq: "mset (older_values item1 srt) = filter_mset (\<lambda>v. a < rec_sec v \<and> rec_sec v < first_sec item1) (mset hist)"
      proof -
        have "mset (older_values item1 srt) = filter_mset (\<lambda>v. rec_sec v < first_sec item1) (mset srt)"
          using fs(1,2) by (simp add: older_values_def)
        also have "\<dots> = filter_mset (\<lambda>v. a < rec_sec v \<and> rec_sec v < first_sec item1) (mset hist)"
          unfolding srt(1) rs filter_filter_mset using b1 by (intro filter_mset_cong refl) auto
        finally show ?thesis .
      qed
      have "mset (item_values item1) = filter_mset (\<lambda>v. first_sec item1 \<le> rec_sec v) (mset hist)"
        using m1(2) False by (simp add: coherent_def)
      moreover have "filter_mset (\<lambda>v. a < rec_sec v \<and> rec_sec v < f) M + filter_mset (\<lambda>v. f \<le> rec_sec v) M =
          filter_mset (\<lambda>v. a < rec_sec v \<or> f \<le> rec_sec v) M" for f and M :: "history_record multiset"
        by (induction M) auto
      ultimately show ?thesis using False by (simp add: eq)
    qed
    show thesis
    proof (cases "records = []")
      case True
      have "covers item1 hist a"
      proof (cases "vi_chunks item1 = []")
        case True
        with older \<open>records = []\<close> srt(1) have "filter_mset (\<lambda>v. a < rec_sec v) (mset hist) = {#}"
          by (simp add: older_values_def item_values_def)
        with True show ?thesis by (simp add: covers_def item_values_def)
      next
        case False
        have "mset (item_values item1) = filter_mset (\<lambda>v. a < rec_sec v \<or> first_sec item1 \<le> rec_sec v) (mset hist)"
          using older False \<open>records = []\<close> srt(1) by (simp add: older_values_def split: if_splits)
        then show ?thesis unfolding covers_def by (simp add: filter_filter_mset) (intro filter_mset_cong refl; auto)
      qed
      then show thesis
        using mw read Succeed True m1 by (intro that [of 0 item1 vc1]) (simp_all add: cache_records_def)
    next
      case False
      from add_older_values_result [OF w m1(1) srt(2) typed, of vc1] obtain ret item2 vc2 where
        add: "vch_item_add_values_at_beginning w item1 srt vc1 = Some (ret, item2, vc2)"
          "stored item1 vc1 (mset (item_values item1) + mset (older_values item1 srt)) (ret, item2, vc2)"
          "item2 = item1\<lparr>vi_chunks := vi_chunks item2, vi_values_total := vi_values_total item2\<rparr>" by blast
      have eq: "cache_records w meanwhile read item vc =
          Some (if ret = Succeed then int (length records) else FAIL, item2, vc2)"
        using mw read Succeed False add(1) by (simp add: cache_records_def srt_def [symmetric])
      have keep: "vi_range item2 = vi_range item1" "vi_cached_all item2 = vi_cached_all item1"
        "vi_value_type item2 = vi_value_type item1" by (subst add(3), simp)+
      show thesis
      proof (rule that [OF eq _ impI])
        assume "(if ret = Succeed then int (length records) else FAIL) \<noteq> FAIL"
        then have ok2: "vc_item_ok item2"
          and vals2: "mset (item_values item2) = mset (item_values item1) + mset (older_values item1 srt)"
          using add(2) by (auto simp: stored_def split: if_splits)
        have v2: "mset (item_values item2) = (if vi_chunks item1 = [] then filter_mset (\<lambda>v. a < rec_sec v) (mset hist)
            else filter_mset (\<lambda>v. a < rec_sec v \<or> first_sec item1 \<le> rec_sec v) (mset hist))"
          using older by (simp add: vals2 add.commute)
        then have sub: "mset (item_values item2) \<subseteq># mset hist" by (simp split: if_splits)
        have "covers item2 hist a"
          unfolding covers_def v2 by (auto simp: filter_filter_mset intro!: filter_mset_cong)
        moreover have "coherent item2 hist now"
          unfolding coherent_def
        proof (intro conjI impI)
          show "covers item2 hist (now - vi_range item2)"
            using covers_more [of item1 hist _ item2] m1(2) sub vals2 keep(1) by (simp add: coherent_def)
          show "mset (item_values item2) = mset hist" if "vi_cached_all item2"
            using m1(2) that keep(2) vals2 sub
            by (metis coherent_def mset_subset_eq_add_left subset_mset.antisym)
          assume ne: "vi_chunks item2 \<noteq> []"
          note fs2 = first_sec_hd [OF ok2 ne]
          have in2: "hd (item_values item2) \<in> set (item_values item2)" using fs2(1) by simp
          have all2: "set (item_values item2) = {v \<in> set hist. if vi_chunks item1 = [] then a < rec_sec v
              else a < rec_sec v \<or> first_sec item1 \<le> rec_sec v}"
            using arg_cong [OF v2, of set_mset] by (simp split: if_splits)
          have iff: "(if vi_chunks item1 = [] then a < rec_sec v else a < rec_sec v \<or> first_sec item1 \<le> rec_sec v) \<longleftrightarrow>
              first_sec item2 \<le> rec_sec v" if "v \<in> set hist" for v
            using that all2 fs2(2,3) in2 by (auto split: if_splits)
          have "mset (item_values item2) = filter_mset (\<lambda>v. if vi_chunks item1 = [] then a < rec_sec v
              else a < rec_sec v \<or> first_sec item1 \<le> rec_sec v) (mset hist)" by (simp add: v2)
          also have "\<dots> = filter_mset (\<lambda>v. first_sec item2 \<le> rec_sec v) (mset hist)"
            by (intro filter_mset_cong refl iff) simp
          finally show "mset (item_values item2) = filter_mset (\<lambda>v. first_sec item2 \<le> rec_sec v) (mset hist)" .
        qed
        ultimately show "vc_item_ok item2 \<and> coherent item2 hist now \<and> covers item2 hist a \<and>
            vi_value_type item2 = vi_value_type item"
          using ok2 keep(3) m1(3) by simp
      qed simp
    qed
  qed
qed

lemma coherent_fields [simp]:
  "coherent (item\<lparr>vi_hits := h\<rparr>) hist now = coherent item hist now"
  "coherent (item\<lparr>vi_last_accessed := t\<rparr>) hist now = coherent item hist now"
  by (simp_all add: coherent_def covers_def first_sec_def)

lemma coherent_range:
  assumes "coherent item hist now" "covers item hist (now - r)"
  shows "coherent (item\<lparr>vi_range := r\<rparr>) hist now"
  using assms by (simp add: coherent_def covers_def first_sec_def)

lemma cache_values_by_time_result:
  assumes w: "world_ok w" and db: "db_answers db hist" and ok: "vc_item_ok item" and coh: "coherent item hist now"
    and hist: "\<forall>v \<in> set hist. rec_sec v \<le> now \<and> hv_typed (vi_value_type item) (hr_value v)"
    and m: "meanwhile_ok meanwhile hist now"
  obtains ret item' vc' where
    "vch_item_cache_values_by_time w db meanwhile item seconds timestamp now vc = Some (ret, item', vc')"
    "ret = FAIL \<or> 0 \<le> ret"
    "ret \<noteq> FAIL \<longrightarrow> vc_item_ok item' \<and> coherent item' hist now \<and> covers item' hist (timestamp - seconds) \<and>
      vi_value_type item' = vi_value_type item"
proof -
  let ?start = "timestamp - seconds"
  define e where "e = (if vi_chunks item = [] then now else first_sec item - 1)"
  define reads where "reads \<longleftrightarrow> \<not> vi_cached_all item \<and> 0 < e - ?start \<and>
    (vi_chunks item = [] \<or> ?start < now - vi_range item)"
  have eq: "vch_item_cache_values_by_time w db meanwhile item seconds timestamp now vc =
      (if reads then cache_records w meanwhile (vc_db_read_values_by_time db [] (e - ?start) e) item vc
       else Some (0, item, vc))"
  proof -
    have s: "now - ?start = now - timestamp + seconds" by simp
    show ?thesis by (auto simp: vch_item_cache_values_by_time_def reads_def e_def Let_def s)
  qed
  show thesis
  proof (cases reads)
    case True
    let ?read = "vc_db_read_values_by_time db [] (e - ?start) e"
    have "mset (snd ?read) = filter_mset (\<lambda>v. ?start < rec_sec v \<and> rec_sec v \<le> e) (mset hist)" if "fst ?read = Succeed"
      using that db by (auto simp: vc_db_read_values_by_time_def db_answers_def split: option.splits)
    then show thesis
      by (rule cache_records_coherent [OF w ok coh hist m _ e_def, where vc = vc]) (use True eq that in simp_all)
  next
    case False
    have "covers item hist ?start"
    proof -
      consider "vi_cached_all item" | "vi_chunks item = []" "now \<le> ?start"
        | "vi_chunks item \<noteq> []" "now - vi_range item \<le> ?start" | "vi_chunks item \<noteq> []" "first_sec item - 1 \<le> ?start"
        using False
        by (cases "vi_cached_all item"; cases "vi_chunks item = []"; cases "?start < now - vi_range item")
          (simp_all add: reads_def e_def)
      then show ?thesis
      proof cases
        case 1
        with coh show ?thesis by (simp add: coherent_def covers_def)
      next
        case 2
        have "filter_mset (\<lambda>v. ?start < rec_sec v) (mset hist) = {#}"
          unfolding filter_mset_eq_mempty_iff using hist 2(2) by fastforce
        with 2 show ?thesis by (simp add: covers_def item_values_def)
      next
        case 3
        with coh covers_mono show ?thesis by (auto simp: coherent_def)
      next
        case 4
        with coh coherent_covers_first show ?thesis by blast
      qed
    qed
    with False ok coh eq show thesis by (intro that [of 0 item vc]) simp_all
  qed
qed

text \<open>
  C2. The cache answers as the database would. Take a well-formed item whose cached values are
  coherent with its history, a database that answers as documented (or fails), and other
  processes that keep the item well formed and coherent. A request for a period then returns, and when
  it succeeds it has returned exactly the values of the history in the period, newest first,
  and left the item well formed and coherent.
\<close>

theorem vc_range_request_coherent:
  assumes "world_ok w" "db_answers db hist" "vc_item_ok item" "coherent item hist now"
    "\<forall>v \<in> set hist. rec_sec v \<le> now \<and> hv_typed (vi_value_type item) (hr_value v)"
    "meanwhile_ok meanwhile hist now" "timestamp \<noteq> 0"
  shows "\<exists>ret item' vc' vs. vch_item_get_value_range w db meanwhile item seconds 0 timestamp now vc =
      Some (ret, item', vc', vs) \<and>
    (ret = Succeed \<longrightarrow>
      mset vs = mset (filter (\<lambda>v. timestamp - seconds < rec_sec v \<and> rec_sec v \<le> timestamp) hist) \<and>
      sorted (map rec_key (rev vs)) \<and> vc_item_ok item' \<and> coherent item' hist now)"
proof -
  let ?start = "timestamp - seconds" and ?R = "seconds + now - timestamp"
  obtain ret item1 vc1 where c: "vch_item_cache_values_by_time w db meanwhile item seconds timestamp now vc = Some (ret, item1, vc1)"
      "ret = FAIL \<or> 0 \<le> ret"
      "ret \<noteq> FAIL \<longrightarrow> vc_item_ok item1 \<and> coherent item1 hist now \<and> covers item1 hist ?start \<and>
        vi_value_type item1 = vi_value_type item"
    using cache_values_by_time_result [OF assms(1-6), where seconds = seconds and timestamp = timestamp and vc = vc]
    by metis
  show ?thesis
  proof (cases "ret = FAIL")
    case True
    with c(1) show ?thesis by (simp add: vch_item_get_value_range_def)
  next
    case False
    with c(3) have ok1: "vc_item_ok item1" and coh1: "coherent item1 hist now" and cov: "covers item1 hist ?start" by auto
    define vs where "vs = rev (filter (\<lambda>v. ?start < rec_sec v \<and> rec_sec v \<le> timestamp) (item_values item1))"
    obtain item2 where g: "vch_item_get_values_by_time item1 [] seconds timestamp now = Some (item2, vs)"
      using reads_by_time [OF ok1 assms(7), of seconds now] unfolding vs_def by auto
    have item2: "item2 = item1 \<or> item2 = item1\<lparr>vi_range := ?R\<rparr>"
      using g by (auto simp: vch_item_get_values_by_time_def Let_def split: if_splits option.splits)
    have "coherent (item1\<lparr>vi_range := ?R\<rparr>) hist now"
      by (rule coherent_range [OF coh1]) (use cov in \<open>simp add: algebra_simps\<close>)
    with item2 coh1 ok1 have i2: "vc_item_ok item2" "coherent item2 hist now" by auto
    have period: "filter_mset (\<lambda>v. ?start < rec_sec v \<and> rec_sec v \<le> timestamp) M =
        filter_mset (\<lambda>v. rec_sec v \<le> timestamp) (filter_mset (\<lambda>v. ?start < rec_sec v) M)" for M
      by (induction M) auto
    have ms: "mset vs = mset (filter (\<lambda>v. ?start < rec_sec v \<and> rec_sec v \<le> timestamp) hist)"
      using cov by (simp add: vs_def covers_def period)
    have srt: "sorted (map rec_key (rev vs))"
      using vc_item_okD(3) [OF ok1] by (simp add: vs_def sorted_filter)
    obtain item3 vc3 rr where st: "vch_item_get_value_range w db meanwhile item seconds 0 timestamp now vc =
        Some (Succeed, item3, vc3, vs)" "item3 = item2\<lparr>vi_hits := rr\<rparr>"
      using c(1) g False by (simp add: vch_item_get_value_range_def Let_def vc_update_statistics_def)
    then show ?thesis using ms srt i2 by simp
  qed
qed

subsection \<open>Requests for a number of values\<close>

lemma fetch_rows_result:
  "fetch_rows False ct rows vs n l = (vs1, n1, l1) \<Longrightarrow>
   \<exists>k \<le> length rows. vs1 = vs @ take k rows \<and>
     n1 = n + length (filter (\<lambda>v. ts_key ct < rec_key v) (take k rows)) \<and>
     (k < length rows \<longrightarrow> n1 \<le> length vs1 \<and> rec_sec (rows ! k) \<noteq> l1) \<and>
     l1 = (if k = 0 then l else rec_sec (rows ! (k - 1)))"
proof (induction rows arbitrary: vs n l)
  case (Cons v rows)
  show ?case
  proof (cases "n \<le> length vs \<and> rec_sec v \<noteq> l")
    case True
    with Cons.prems show ?thesis by (intro exI [of _ 0]) auto
  next
    case False
    with Cons.prems have "fetch_rows False ct rows (vs @ [v])
        (if ts_key ct < rec_key v then Suc n else n) (rec_sec v) = (vs1, n1, l1)" by (simp add: vc_keys)
    from Cons.IH [OF this] obtain k where k: "k \<le> length rows" "vs1 = (vs @ [v]) @ take k rows"
        "n1 = (if ts_key ct < rec_key v then Suc n else n) + length (filter (\<lambda>v. ts_key ct < rec_key v) (take k rows))"
        "k < length rows \<longrightarrow> n1 \<le> length vs1 \<and> rec_sec (rows ! k) \<noteq> l1"
        "l1 = (if k = 0 then rec_sec v else rec_sec (rows ! (k - 1)))" by blast
    then show ?thesis by (intro exI [of _ "Suc k"]) (auto simp: nth_Cons')
  qed
qed simp

text \<open>What reading by count promises: whole seconds, and enough values or everything.\<close>

definition count_read :: "history_record list \<Rightarrow> int \<Rightarrow> nat \<Rightarrow> zbx_timespec \<Rightarrow> history_record list \<Rightarrow> int \<Rightarrow> bool" where
  "count_read hist b n ct vs a \<longleftrightarrow> mset vs = filter_mset (\<lambda>v. a < rec_sec v \<and> rec_sec v \<le> b) (mset hist) \<and>
    (n \<le> length (filter (\<lambda>v. rec_key v \<le> ts_key ct) vs) \<or> (\<forall>v \<in> set hist. a < rec_sec v))"

lemma sorted_prefix_seconds:
  assumes "sorted (map rec_key (rev rows))" "0 < k" "k < length rows" "rec_sec (rows ! k) \<noteq> rec_sec (rows ! (k - 1))"
  shows "take k rows = filter (\<lambda>v. rec_sec (rows ! (k - 1)) - 1 < rec_sec v) rows"
proof -
  have srt: "sorted_wrt (\<lambda>x y. rec_sec y \<le> rec_sec x) rows"
    using sorted_keys_secs [OF assms(1)] by (simp add: sorted_wrt_map rev_map sorted_wrt_rev)
  have le: "rec_sec (rows ! j) \<le> rec_sec (rows ! i)" if "i \<le> j" "j < length rows" for i j
    using srt that by (cases "i = j") (auto simp: sorted_wrt_iff_nth_less)
  have lt: "rec_sec (rows ! k) < rec_sec (rows ! (k - 1))" using le [of "k - 1" k] assms(3,4) by simp
  have "rec_sec v \<le> rec_sec (rows ! k)" if "v \<in> set (drop k rows)" for v
  proof -
    from that obtain i where "i < length rows - k" "v = rows ! (k + i)" by (auto simp: in_set_conv_nth)
    then show ?thesis using le [of k "k + i"] by simp
  qed
  with lt have "filter (\<lambda>v. rec_sec (rows ! (k - 1)) - 1 < rec_sec v) (drop k rows) = []"
    by (force simp: filter_empty_conv)
  moreover have "rec_sec (rows ! (k - 1)) \<le> rec_sec v" if "v \<in> set (take k rows)" for v
  proof -
    from that obtain i where "i < k" "v = rows ! i" using assms(3) by (auto simp: in_set_conv_nth)
    then show ?thesis using le [of i "k - 1"] assms(3) by simp
  qed
  then have "filter (\<lambda>v. rec_sec (rows ! (k - 1)) - 1 < rec_sec v) (take k rows) = take k rows"
    by (force simp: filter_id_conv)
  ultimately show ?thesis by (metis append_Nil2 append_take_drop_id filter_append)
qed

lemma filter_mset_interval:
  fixes M :: "history_record multiset"
  assumes "b \<le> c"
  shows "filter_mset (\<lambda>v. b < rec_sec v \<and> rec_sec v \<le> c) M + filter_mset (\<lambda>v. P v \<and> rec_sec v \<le> b) M =
    filter_mset (\<lambda>v. (P v \<or> b < rec_sec v) \<and> rec_sec v \<le> c) M"
  using assms by (induction M) auto

lemma by_count_loop_result:
  assumes db: "db_answers db hist" and pos: "\<forall>p \<in> set periods. 0 < p" and to: "clock_to \<le> b"
    and vs: "mset vs = filter_mset (\<lambda>v. clock_to < rec_sec v \<and> rec_sec v \<le> b) (mset hist)"
    and n: "n = n0 + length (filter (\<lambda>v. ts_key ct < rec_key v) vs)"
    and res: "by_count_loop db False ct (periods @ [0]) clock_to vs n l = (Succeed, vs')"
  shows "\<exists>a. count_read hist b n0 ct vs' a"
  using pos to vs n res
proof (induction periods arbitrary: clock_to vs n l)
  have enough: "n0 \<le> length (filter (\<lambda>v. rec_key v \<le> ts_key ct) ws)"
    if "n0 + length (filter (\<lambda>v. ts_key ct < rec_key v) ws) \<le> length ws" for ws
    using that sum_length_filter_compl [of "\<lambda>v. rec_key v \<le> ts_key ct" ws] by (simp add: not_le)
  have step: "\<exists>a. count_read hist b n0 ct vs1 a"
    if rows: "mset rows = filter_mset (\<lambda>v. P v \<and> rec_sec v \<le> clock_to) (mset hist)" "sorted (map rec_key (rev rows))"
      and P: "\<And>v u. P v \<Longrightarrow> rec_sec v \<le> rec_sec u \<Longrightarrow> P u"
      and f: "fetch_rows False ct rows vs n l = (vs1, n1, l1)" and lt: "length vs < n"
      and v: "mset vs = filter_mset (\<lambda>v. clock_to < rec_sec v \<and> rec_sec v \<le> b) (mset hist)" "clock_to \<le> b"
      and n: "n = n0 + length (filter (\<lambda>v. ts_key ct < rec_key v) vs)"
      and stop: "length vs1 < length vs + length rows"
    for rows P clock_to vs n l vs1 n1 l1
  proof -
    obtain k where k: "k \<le> length rows" "vs1 = vs @ take k rows"
        "n1 = n + length (filter (\<lambda>v. ts_key ct < rec_key v) (take k rows))"
        "k < length rows \<longrightarrow> n1 \<le> length vs1 \<and> rec_sec (rows ! k) \<noteq> l1"
        "l1 = (if k = 0 then l else rec_sec (rows ! (k - 1)))"
      using fetch_rows_result [OF f] by blast
    have kl: "k < length rows" using stop k(1,2) by simp
    have k0: "0 < k" using k(2-4) kl lt by (cases "k = 0") auto
    define a where "a = rec_sec (rows ! (k - 1)) - 1"
    have tk: "take k rows = filter (\<lambda>v. a < rec_sec v) rows"
      unfolding a_def using k(4,5) kl k0 by (intro sorted_prefix_seconds rows(2)) auto
    have "rows ! (k - 1) \<in> set rows" using kl by simp
    then have last: "P (rows ! (k - 1))" "rec_sec (rows ! (k - 1)) \<le> clock_to"
      using arg_cong [OF rows(1), of set_mset] by auto
    have "mset vs1 = filter_mset (\<lambda>v. a < rec_sec v \<and> rec_sec v \<le> b) (mset hist)"
    proof -
      have "mset (take k rows) = filter_mset (\<lambda>v. a < rec_sec v \<and> rec_sec v \<le> clock_to) (mset hist)"
        unfolding tk mset_filter rows(1) filter_filter_mset using P [OF last(1)]
        by (intro filter_mset_cong refl) (auto simp: a_def)
      then have "mset vs1 = filter_mset (\<lambda>v. (a < rec_sec v \<or> clock_to < rec_sec v) \<and> rec_sec v \<le> b) (mset hist)"
        using filter_mset_interval [OF v(2), where P = "\<lambda>v. a < rec_sec v" and M = "mset hist"] by (simp add: k(2) v(1))
      also have "\<dots> = filter_mset (\<lambda>v. a < rec_sec v \<and> rec_sec v \<le> b) (mset hist)"
        using last(2) by (intro filter_mset_cong refl) (auto simp: a_def)
      finally show ?thesis .
    qed
    moreover have "n0 \<le> length (filter (\<lambda>v. rec_key v \<le> ts_key ct) vs1)"
      using k(3,4) kl n by (intro enough) (simp add: k(2))
    ultimately show ?thesis by (auto simp: count_read_def)
  qed
  {
    case Nil
    show ?case
    proof (cases "length vs < n")
      case False
      with Nil enough [of vs] have "count_read hist b n0 ct vs' clock_to" by (simp add: count_read_def)
      then show ?thesis ..
    next
      case lt: True
      with Nil.prems(5) obtain rows vs1 n1 l1 where r: "db (Q_newest None clock_to None) = Some rows"
          "fetch_rows False ct rows vs n l = (vs1, n1, l1)" "vs' = vs1"
        by (auto split: option.splits prod.splits)
      have rows: "mset rows = filter_mset (\<lambda>v. True \<and> rec_sec v \<le> clock_to) (mset hist)" "sorted (map rec_key (rev rows))"
        using db r(1) by (fastforce simp: db_answers_def)+
      show ?thesis
      proof (cases "length vs1 < length vs + length rows")
        case True
        show ?thesis unfolding r(3)
          by (rule step [OF rows _ r(2) lt Nil.prems(3,2,4) True]) simp
      next
        case False
        obtain k where "k \<le> length rows" "vs1 = vs @ take k rows" using fetch_rows_result [OF r(2)] by blast
        with False have all: "vs' = vs @ rows" using r(3) by simp
        define a where "a = Min (insert 0 (rec_sec ` set hist)) - 1"
        have a: "a < rec_sec v" if "v \<in> set hist" for v
        proof -
          have "Min (insert 0 (rec_sec ` set hist)) \<le> rec_sec v" by (rule Min_le) (use that in auto)
          then show ?thesis by (simp add: a_def)
        qed
        have "mset vs' = filter_mset (\<lambda>v. a < rec_sec v \<and> rec_sec v \<le> b) (mset hist)"
          using filter_mset_interval [OF Nil.prems(2), where P = "\<lambda>v. True" and M = "mset hist"] a
          by (simp add: all rows(1) Nil.prems(3)) (rule filter_mset_cong; auto)
        with a have "count_read hist b n0 ct vs' a" by (simp add: count_read_def)
        then show ?thesis ..
      qed
    qed
  next
    case (Cons p periods)
    show ?case
    proof (cases "length vs < n")
      case False
      with Cons.prems enough [of vs] have "count_read hist b n0 ct vs' clock_to" by (simp add: count_read_def)
      then show ?thesis ..
    next
      case lt: True
      let ?from = "clock_to - p"
      have p: "0 < p" using Cons.prems(1) by simp
      with lt Cons.prems(5) obtain rows vs1 n1 l1 where r: "db (Q_newest (Some ?from) clock_to None) = Some rows"
          "fetch_rows False ct rows vs n l = (vs1, n1, l1)"
          "by_count_loop db False ct (periods @ [0]) ?from vs1 n1 l1 = (Succeed, vs')"
        by (auto simp: Let_def split: option.splits prod.splits)
      have rows: "mset rows = filter_mset (\<lambda>v. ?from < rec_sec v \<and> rec_sec v \<le> clock_to) (mset hist)"
          "sorted (map rec_key (rev rows))"
        using db r(1) by (fastforce simp: db_answers_def)+
      obtain k where k: "k \<le> length rows" "vs1 = vs @ take k rows"
          "n1 = n + length (filter (\<lambda>v. ts_key ct < rec_key v) (take k rows))"
          "k < length rows \<longrightarrow> n1 \<le> length vs1"
        using fetch_rows_result [OF r(2)] by blast
      show ?thesis
      proof (cases "length vs1 < length vs + length rows")
        case True
        then have "k < length rows" using k(1,2) by simp
        with k(4) have "vs' = vs1" using r(3) by (cases periods) auto
        then show ?thesis
          using step [OF rows _ r(2) lt Cons.prems(3,2,4) True] by fastforce
      next
        case False
        with k(1,2) have all: "vs1 = vs @ rows" "take k rows = rows" by simp_all
        have "mset vs1 = filter_mset (\<lambda>v. ?from < rec_sec v \<and> rec_sec v \<le> b) (mset hist)"
          using filter_mset_interval [OF Cons.prems(2), where P = "\<lambda>v. ?from < rec_sec v" and M = "mset hist"] p
          by (simp add: all(1) rows(1) Cons.prems(3)) (rule filter_mset_cong; auto)
        moreover have "n1 = n0 + length (filter (\<lambda>v. ts_key ct < rec_key v) vs1)"
          using k(3) Cons.prems(4) all by simp
        ultimately show ?thesis using Cons.IH [OF _ _ _ _ r(3)] Cons.prems(1,2) p by simp
      qed
    qed
  }
qed

lemma vc_db_read_values_by_count_result:
  assumes "db_answers db hist" "vc_db_read_values_by_count db [] n b ct False = (Succeed, vs)"
  shows "\<exists>a. count_read hist b (nat n) ct vs a"
proof (rule by_count_loop_result [OF assms(1)])
  show "by_count_loop db False ct ([3600, 24 * 3600, 7 * 24 * 3600, 30 * 24 * 3600] @ [0]) b [] (nat n) 0 = (Succeed, vs)"
    using assms(2) by (simp add: vc_db_read_values_by_count_def read_periods_def)
qed auto

lemma count_back_result:
  assumes "chunks_ok cs" "ci \<le> length cs"
  shows "count_back cs n ci c \<le> c + int (length (concat (map chunk_values (take ci cs)))) \<and>
    (count_back cs n ci c < n \<longrightarrow> count_back cs n ci c = c + int (length (concat (map chunk_values (take ci cs)))))"
  using assms(2)
proof (induction ci arbitrary: c)
  case (Suc ci)
  have "int (length (chunk_values (cs ! ci))) = last_value (cs ! ci) - first_value (cs ! ci) + 1"
    using chunks_okD(2) [OF assms(1), of ci] Suc.prems by (intro length_chunk_values) simp
  with Suc.IH [of "c + (last_value (cs ! ci) - first_value (cs ! ci) + 1)"] Suc.prems show ?case
    by (auto simp: take_Suc_conv_app_nth)
qed simp

lemma values_up_to_ts:
  assumes "last_not_after_ts cs ts ci i"
  shows "values_before cs ci (i + 1) = filter (\<lambda>v. rec_key v \<le> ts_key ts) (concat (map chunk_values cs))"
proof -
  have pos: "valid_pos cs ci i" using assms by (simp add: last_not_after_ts_def)
  have "concat (map chunk_values cs) = values_before cs ci (i + 1) @ values_from cs ci (i + 1)"
    using pos by (intro values_split) (auto simp: valid_pos_def)
  moreover have "filter (\<lambda>v. rec_key v \<le> ts_key ts) (values_from cs ci (i + 1)) = []"
    using assms by (auto simp: last_not_after_ts_def filter_empty_conv not_le)
  moreover have "filter (\<lambda>v. rec_key v \<le> ts_key ts) (values_before cs ci (i + 1)) = values_before cs ci (i + 1)"
    using assms by (auto simp: last_not_after_ts_def filter_id_conv)
  ultimately show ?thesis by simp
qed

abbreviation cached_up_to :: "vc_item \<Rightarrow> zbx_timespec \<Rightarrow> int" where
  "cached_up_to item ct \<equiv> int (length (filter (\<lambda>v. rec_key v \<le> ts_key ct) (item_values item)))"

lemma cache_values_by_count_reads:
  assumes "vc_item_ok item" "ts_sec ct \<noteq> 0"
  obtains cached where "cached \<le> cached_up_to item ct" "cached < n \<longrightarrow> cached = cached_up_to item ct"
    "vch_item_cache_values_by_count w db meanwhile item n ct now vc =
      (if \<not> vi_cached_all item \<and> cached < n then
         cache_records w meanwhile (vc_db_read_values_by_count db [] (n - cached)
           (if vi_chunks item = [] then now else first_sec item - 1) ct False) item vc
       else Some (0, item, vc))"
proof (cases "vi_chunks item = []")
  case True
  then show thesis by (intro that [of 0]) (simp_all add: vch_item_cache_values_by_count_def item_values_def)
next
  case False
  note chunks = vc_item_ok_chunks [OF assms(1)]
  show thesis
  proof (cases rule: vch_item_get_last_value_by_timespec_result [OF chunks assms(2), where now = now])
    case 1
    then have "cached_up_to item ct = 0" by (simp add: filter_empty_conv not_le)
    with 1(1) False show thesis
      by (intro that [of 0]) (simp_all add: vch_item_cache_values_by_count_def)
  next
    case (2 ci i)
    let ?cs = "vi_chunks item"
    let ?r = "count_back ?cs n ci (i - first_value (?cs ! ci) + 1)"
    have pos: "valid_pos ?cs ci i" using 2(2) by (simp add: last_not_after_ts_def)
    have "cached_up_to item ct = int (length (values_before ?cs ci (i + 1)))"
      using values_up_to_ts [OF 2(2)] by (simp add: item_values_simp)
    also have "\<dots> = i - first_value (?cs ! ci) + 1 + int (length (concat (map chunk_values (take ci ?cs))))"
      using pos by (simp add: values_before_def valid_pos_def)
    finally have "?r \<le> cached_up_to item ct" "?r < n \<longrightarrow> ?r = cached_up_to item ct"
      using count_back_result [OF chunks, of ci n "i - first_value (?cs ! ci) + 1"] pos
      by (auto simp: valid_pos_def)
    with 2(1) False show thesis
      by (intro that [of ?r]) (simp_all add: vch_item_cache_values_by_count_def)
  qed
qed

lemma covers_count:
  assumes "covers item hist a"
  shows "size (filter_mset (\<lambda>v. a < rec_sec v \<and> rec_key v \<le> k) (mset hist)) \<le>
    length (filter (\<lambda>v. rec_key v \<le> k) (item_values item))"
proof -
  have "filter_mset (\<lambda>v. a < rec_sec v \<and> rec_key v \<le> k) (mset hist) =
      filter_mset (\<lambda>v. rec_key v \<le> k) (filter_mset (\<lambda>v. a < rec_sec v) (mset hist))"
    by (simp add: filter_filter_mset)
  also have "\<dots> = filter_mset (\<lambda>v. rec_key v \<le> k) (filter_mset (\<lambda>v. a < rec_sec v) (mset (item_values item)))"
    using assms by (simp add: covers_def)
  also have "\<dots> \<subseteq># filter_mset (\<lambda>v. rec_key v \<le> k) (mset (item_values item))"
    by (intro multiset_filter_mono) simp
  finally have "size (filter_mset (\<lambda>v. a < rec_sec v \<and> rec_key v \<le> k) (mset hist)) \<le>
      size (filter_mset (\<lambda>v. rec_key v \<le> k) (mset (item_values item)))" by (rule size_mset_mono)
  then show ?thesis unfolding mset_filter [symmetric] size_mset .
qed

lemma cache_values_by_count_result:
  assumes w: "world_ok w" and db: "db_answers db hist" and ok: "vc_item_ok item" and coh: "coherent item hist now"
    and hist: "\<forall>v \<in> set hist. rec_sec v \<le> now \<and> hv_typed (vi_value_type item) (hr_value v)"
    and m: "meanwhile_ok meanwhile hist now" and ct: "ts_sec ct \<noteq> 0"
  obtains ret item' vc' where
    "vch_item_cache_values_by_count w db meanwhile item n ct now vc = Some (ret, item', vc')"
    "ret \<noteq> FAIL \<longrightarrow> vc_item_ok item' \<and> coherent item' hist now \<and> vi_value_type item' = vi_value_type item \<and>
      (n \<le> cached_up_to item' ct \<or> mset (item_values item') = mset hist)"
proof -
  obtain cached where c: "cached \<le> cached_up_to item ct" "cached < n \<longrightarrow> cached = cached_up_to item ct"
    and eq: "vch_item_cache_values_by_count w db meanwhile item n ct now vc =
      (if \<not> vi_cached_all item \<and> cached < n then
         cache_records w meanwhile (vc_db_read_values_by_count db [] (n - cached)
           (if vi_chunks item = [] then now else first_sec item - 1) ct False) item vc
       else Some (0, item, vc))"
    by (rule cache_values_by_count_reads [OF ok ct, where w = w and db = db and meanwhile = meanwhile and n = n
      and now = now and vc = vc])
  show thesis
  proof (cases "\<not> vi_cached_all item \<and> cached < n")
    case False
    with c(1) coh have "n \<le> cached_up_to item ct \<or> mset (item_values item) = mset hist" by (auto simp: coherent_def)
    moreover have "vch_item_cache_values_by_count w db meanwhile item n ct now vc = Some (0, item, vc)"
      unfolding eq using False by (rule if_not_P)
    ultimately show thesis using ok coh by (intro that [of 0 item vc]) simp_all
  next
    case True
    define b where "b = (if vi_chunks item = [] then now else first_sec item - 1)"
    let ?read = "vc_db_read_values_by_count db [] (n - cached) b ct False"
    obtain a where a: "fst ?read = Succeed \<longrightarrow> count_read hist b (nat (n - cached)) ct (snd ?read) a"
      using vc_db_read_values_by_count_result [OF db, of "n - cached" b ct] by (metis prod.collapse)
    obtain ret item' vc' where r: "cache_records w meanwhile ?read item vc = Some (ret, item', vc')"
      "ret \<noteq> FAIL \<longrightarrow> vc_item_ok item' \<and> coherent item' hist now \<and> covers item' hist a \<and>
        vi_value_type item' = vi_value_type item"
      by (rule cache_records_coherent [OF w ok coh hist m _ b_def, where read = ?read and a = a and vc = vc])
        (use a in \<open>auto simp: count_read_def\<close>)
    have "n \<le> cached_up_to item' ct \<or> mset (item_values item') = mset hist" if nf: "ret \<noteq> FAIL"
    proof -
      have succ: "fst ?read = Succeed"
        using r(1) nf by (cases ?read, cases "fst ?read") (auto simp: cache_records_def split_beta)
      have cov: "covers item' hist a" and coh': "coherent item' hist now" using r(2) nf by auto
      from a succ have cr: "count_read hist b (nat (n - cached)) ct (snd ?read) a" by simp
      show ?thesis
      proof (cases "\<forall>v \<in> set hist. a < rec_sec v")
        case True
        then have "filter_mset (\<lambda>v. a < rec_sec v) (mset hist) = mset hist" by (simp add: filter_mset_eq_conv)
        with cov have "mset hist \<subseteq># mset (item_values item')" by (metis covers_def multiset_filter_subset)
        with coherent_subset [OF coh'] show ?thesis by (metis subset_mset.antisym)
      next
        case False
        with cr have enough: "nat (n - cached) \<le> length (filter (\<lambda>v. rec_key v \<le> ts_key ct) (snd ?read))"
          and rd: "mset (snd ?read) = filter_mset (\<lambda>v. a < rec_sec v \<and> rec_sec v \<le> b) (mset hist)"
          by (auto simp: count_read_def)
        let ?k = "\<lambda>v. rec_key v \<le> ts_key ct"
        have new: "nat (n - cached) \<le> size (filter_mset (\<lambda>v. a < rec_sec v \<and> rec_sec v \<le> b \<and> ?k v) (mset hist))"
        proof -
          have "size (filter_mset ?k (mset (snd ?read))) = length (filter ?k (snd ?read))" by (metis mset_filter size_mset)
          with enough show ?thesis by (simp add: rd filter_filter_mset conj_assoc)
        qed
        have old: "size (filter_mset (\<lambda>v. b < rec_sec v \<and> ?k v) (mset hist)) = length (filter ?k (item_values item))"
        proof (cases "vi_chunks item = []")
          case True
          with hist have "filter_mset (\<lambda>v. b < rec_sec v \<and> ?k v) (mset hist) = {#}" by (force simp: b_def)
          with True show ?thesis by (simp add: item_values_def)
        next
          case False
          then have "mset (filter ?k (item_values item)) = filter_mset ?k (filter_mset (\<lambda>v. first_sec item \<le> rec_sec v) (mset hist))"
            using coh by (simp add: coherent_def)
          also have "\<dots> = filter_mset (\<lambda>v. b < rec_sec v \<and> ?k v) (mset hist)"
            unfolding filter_filter_mset using False by (intro filter_mset_cong refl) (auto simp: b_def)
          finally show ?thesis by (metis size_mset)
        qed
        have "a < b \<or> n - cached \<le> 0"
        proof (rule ccontr)
          assume neg: "\<not> (a < b \<or> n - cached \<le> 0)"
          then have "filter_mset (\<lambda>v. a < rec_sec v \<and> rec_sec v \<le> b \<and> ?k v) (mset hist) = {#}" by auto
          with new neg show False by simp
        qed
        then have ab: "a < b" using True by simp
        have "filter_mset (\<lambda>v. a < rec_sec v \<and> ?k v) M = filter_mset (\<lambda>v. a < rec_sec v \<and> rec_sec v \<le> b \<and> ?k v) M +
            filter_mset (\<lambda>v. b < rec_sec v \<and> ?k v) M" for M :: "history_record multiset"
          using ab by (induction M) auto
        then have "size (filter_mset (\<lambda>v. a < rec_sec v \<and> ?k v) (mset hist)) \<ge> nat (n - cached) + length (filter ?k (item_values item))"
          using new old by simp
        then have "n \<le> cached_up_to item' ct"
          using covers_count [OF cov, of "ts_key ct"] c(2) True by linarith
        then show ?thesis ..
      qed
    qed
    with r eq True show thesis by (intro that [of ret item' vc']) (simp_all add: b_def)
  qed
qed

lemma take_newest:
  fixes f :: "'a \<Rightarrow> 'k :: linorder"
  assumes "mset H = mset old + mset F" "sorted (map f F)" "\<forall>x \<in> set old. \<forall>y \<in> set F. f x \<le> f y"
    "n \<le> length F \<or> old = []"
  shows "map f (take n (rev F)) = take n (rev (sort (map f H)))"
proof -
  have "sort (map f H) = sort (map f old) @ map f F"
  proof (rule properties_for_sort)
    show "mset (sort (map f old) @ map f F) = mset (map f H)" by (simp add: assms(1))
    show "sorted (sort (map f old) @ map f F)" using assms(2,3) by (auto simp: sorted_append)
  qed
  with assms(4) show ?thesis by (auto simp: take_map rev_map)
qed

text \<open>The newest values in a coherent cache are the newest of the history.\<close>

lemma newest_cached:
  assumes "vc_item_ok item" "coherent item hist now"
    "n \<le> int (length (filter (\<lambda>v. rec_sec v \<le> t) (item_values item))) \<or> mset (item_values item) = mset hist"
  shows "map rec_key (take (nat n) (rev (filter (\<lambda>v. rec_sec v \<le> t) (item_values item)))) =
    take (nat n) (rev (sort (map rec_key (filter (\<lambda>v. rec_sec v \<le> t) hist))))"
proof -
  let ?F = "filter (\<lambda>v. rec_sec v \<le> t) (item_values item)" and ?H = "filter (\<lambda>v. rec_sec v \<le> t) hist"
  have srt: "sorted (map rec_key ?F)" using vc_item_okD(3) [OF assms(1)] by (rule sorted_filter)
  show ?thesis
  proof (cases "mset (item_values item) = mset hist \<or> vi_chunks item = []")
    case True
    then consider "mset ?H = mset [] + mset ?F" | "nat n = 0" using assms(3) by (auto simp: item_values_def)
    then show ?thesis
    proof cases
      case 1
      then show ?thesis by (rule take_newest [OF _ srt]) simp_all
    qed simp
  next
    case False
    let ?old = "filter (\<lambda>v. rec_sec v < first_sec item) ?H"
    have vals: "mset (item_values item) = filter_mset (\<lambda>v. first_sec item \<le> rec_sec v) (mset hist)"
      using assms(2) False by (simp add: coherent_def)
    have "filter_mset (\<lambda>v. rec_sec v \<le> t) M = filter_mset (\<lambda>v. rec_sec v < first_sec item) (filter_mset (\<lambda>v. rec_sec v \<le> t) M) +
        filter_mset (\<lambda>v. rec_sec v \<le> t) (filter_mset (\<lambda>v. first_sec item \<le> rec_sec v) M)" for M
      by (induction M) auto
    then have "mset ?H = mset ?old + mset ?F" unfolding mset_filter vals .
    moreover have "\<forall>x \<in> set ?old. \<forall>y \<in> set ?F. rec_key x \<le> rec_key y"
    proof (intro ballI)
      fix x y assume "x \<in> set ?old" "y \<in> set ?F"
      then have "rec_sec x < first_sec item" "first_sec item \<le> rec_sec y"
        using first_sec_hd(3) [OF assms(1)] False by auto
      then show "rec_key x \<le> rec_key y" by (simp add: ts_key_def less_eq_prod_def)
    qed
    moreover have "nat n \<le> length ?F" using assms(3) False by (auto simp: nat_le_iff)
    ultimately show ?thesis by (intro take_newest [OF _ srt] disjI1) assumption+
  qed
qed

text \<open>What reading by count notes in the item is true.\<close>

lemma coherent_after_count:
  assumes "vc_item_ok item" "coherent item hist now" "0 < n"
    "\<forall>v \<in> set hist. rec_sec v \<le> now"
    "vch_item_get_values_by_count item [] n timestamp now = Some (item', vs)"
    "set vs \<subseteq> set (item_values item)" "n \<le> int (length vs) \<or> mset (item_values item) = mset hist" "int (length vs) \<le> n"
  shows "vc_item_ok item' \<and> coherent item' hist now"
proof -
  obtain found where found: "vch_item_get_last_value item timestamp now = Some found"
    using assms(5) by (auto simp: vch_item_get_values_by_count_def)
  have upd: "item' = (if int (length vs) < n then item\<lparr>vi_range := 0, vi_cached_all := True\<rparr>
      else if vi_range item < now - rec_sec (last vs) then item\<lparr>vi_range := now - rec_sec (last vs)\<rparr> else item)"
    using assms(5,8,3) by (cases found) (auto simp: vch_item_get_values_by_count_def Let_def found split: if_splits)
  show ?thesis
  proof (cases "int (length vs) < n")
    case True
    then have "mset (item_values item) = mset hist" using assms(7) by simp
    with assms(1,2) True show ?thesis
      by (simp add: upd coherent_def covers_def first_sec_def vc_item_ok_def)
  next
    case False
    with assms(3,6) have last: "last vs \<in> set (item_values item)" by (cases vs) auto
    then have "vi_chunks item \<noteq> []" by (auto simp: item_values_def)
    then have "covers item hist (now - (now - rec_sec (last vs)))"
      using coherent_covers_first [OF assms(2)] first_sec_hd(3) [OF assms(1)] last by fastforce
    with coherent_range [OF assms(2)] assms(1,2) False show ?thesis by (simp add: upd)
  qed
qed

text \<open>
  C3. The same for a request of the newest \<open>n\<close> values up to a second: with coherent values, a database
  that answers as documented and others who keep the item coherent it returns, and when it succeeds
  the moments of the returned values are those of the newest \<open>n\<close> values of the history.
\<close>

theorem vc_count_request_coherent:
  assumes "world_ok w" "db_answers db hist" "vc_item_ok item" "coherent item hist now"
    "\<forall>v \<in> set hist. rec_sec v \<le> now \<and> hv_typed (vi_value_type item) (hr_value v) \<and>
      ts_ns (hr_timestamp v) \<le> VC_MAX_NANOSECONDS"
    "meanwhile_ok meanwhile hist now" "timestamp \<noteq> 0" "0 < n"
  shows "\<exists>ret item' vc' vs. vch_item_get_value_range w db meanwhile item seconds n timestamp now vc =
      Some (ret, item', vc', vs) \<and>
    (ret = Succeed \<longrightarrow>
      map rec_key vs = take (nat n) (rev (sort (map rec_key (filter (\<lambda>v. rec_sec v \<le> timestamp) hist)))) \<and>
      mset vs \<subseteq># mset hist \<and> vc_item_ok item' \<and> coherent item' hist now)"
proof -
  define ct where "ct = \<lparr>ts_sec = timestamp, ts_ns = VC_MAX_NANOSECONDS\<rparr>"
  have hist: "\<forall>v \<in> set hist. rec_sec v \<le> now \<and> hv_typed (vi_value_type item) (hr_value v)" "ts_sec ct \<noteq> 0"
    using assms(5,7) by (auto simp: ct_def)
  obtain ret item1 vc1 where c: "vch_item_cache_values_by_count w db meanwhile item n ct now vc = Some (ret, item1, vc1)"
      "ret \<noteq> FAIL \<longrightarrow> vc_item_ok item1 \<and> coherent item1 hist now \<and> vi_value_type item1 = vi_value_type item \<and>
        (n \<le> cached_up_to item1 ct \<or> mset (item_values item1) = mset hist)"
    by (rule cache_values_by_count_result [OF assms(1-4) hist(1) assms(6) hist(2), where n = n and vc = vc])
  show ?thesis
  proof (cases "ret = FAIL")
    case True
    with c(1) show ?thesis using assms(8) by (simp add: vch_item_get_value_range_def ct_def)
  next
    case False
    with c(2) have ok1: "vc_item_ok item1" and coh1: "coherent item1 hist now"
      and enough: "n \<le> cached_up_to item1 ct \<or> mset (item_values item1) = mset hist" by auto
    define F where "F = filter (\<lambda>v. rec_sec v \<le> timestamp) (item_values item1)"
    define vs where "vs = take (nat n) (rev F)"
    obtain item2 where g: "vch_item_get_values_by_count item1 [] n timestamp now = Some (item2, vs)"
      using reads_by_count [OF ok1 assms(7,8), of now] unfolding vs_def F_def by auto
    obtain item3 vc3 rr where st: "vch_item_get_value_range w db meanwhile item seconds n timestamp now vc =
        Some (Succeed, item3, vc3, vs)" "item3 = item2\<lparr>vi_hits := rr\<rparr>"
      using c(1) g False assms(8) by (simp add: vch_item_get_value_range_def ct_def Let_def vc_update_statistics_def)
    have ns: "rec_sec v \<le> timestamp \<longleftrightarrow> rec_key v \<le> ts_key ct" if "v \<in> set (item_values item1)" for v
    proof -
      have "v \<in> set hist" using set_mset_mono [OF coherent_subset [OF coh1]] that by auto
      with assms(5) show ?thesis by (auto simp: ct_def ts_key_def less_eq_prod_def)
    qed
    then have F: "F = filter (\<lambda>v. rec_key v \<le> ts_key ct) (item_values item1)"
      unfolding F_def by (intro filter_cong) auto
    have "n \<le> int (length vs) \<or> mset (item_values item1) = mset hist" using enough by (auto simp: vs_def F)
    moreover have "set vs \<subseteq> set (item_values item1)" by (auto simp: vs_def F_def dest: in_set_takeD)
    ultimately have i2: "vc_item_ok item2 \<and> coherent item2 hist now"
      using assms(5,8) by (intro coherent_after_count [OF ok1 coh1 assms(8) _ g]) (auto simp: vs_def)
    have newest: "map rec_key vs = take (nat n) (rev (sort (map rec_key (filter (\<lambda>v. rec_sec v \<le> timestamp) hist))))"
      unfolding vs_def F_def by (rule newest_cached [OF ok1 coh1]) (use enough F F_def in simp)
    have "mset vs \<subseteq># mset F" unfolding vs_def by (metis append_take_drop_id mset_append mset_rev mset_subset_eq_add_left)
    also have "\<dots> \<subseteq># mset (item_values item1)" by (simp add: F_def)
    also note coherent_subset [OF coh1]
    finally have "mset vs \<subseteq># mset hist" .
    with newest i2 st show ?thesis by simp
  qed
qed

lemma value_request_cached:
  assumes "world_ok w" "db_answers db hist" "vc_item_ok item" "coherent item hist now"
    "\<forall>v \<in> set hist. rec_sec v \<le> now \<and> hv_typed (vi_value_type item) (hr_value v)"
    "meanwhile_ok meanwhile hist now" "ts_sec ts \<noteq> 0"
  obtains ret item1 vc1 and hits misses :: int where "(if vi_chunks item = [] \<or>
          0 < zbx_timespec_compare (hr_timestamp (slots (hd (vi_chunks item)) (first_value (hd (vi_chunks item))))) ts
       then map_option (\<lambda>(ret, item1, vc1). (ret, item1, vc1, 0, 1))
              (vch_item_cache_values_by_count w db meanwhile item 1 ts now vc)
       else Some (0, item, vc, 1, 0)) = Some (ret, item1, vc1, hits, misses)"
    "ret \<noteq> FAIL \<longrightarrow> vc_item_ok item1 \<and> coherent item1 hist now \<and> vi_value_type item1 = vi_value_type item \<and>
      (1 \<le> cached_up_to item1 ts \<or> mset (item_values item1) = mset hist)"
proof (cases "vi_chunks item = [] \<or>
    0 < zbx_timespec_compare (hr_timestamp (slots (hd (vi_chunks item)) (first_value (hd (vi_chunks item))))) ts")
  case True
  obtain ret item1 vc1 where "vch_item_cache_values_by_count w db meanwhile item 1 ts now vc = Some (ret, item1, vc1)"
    "ret \<noteq> FAIL \<longrightarrow> vc_item_ok item1 \<and> coherent item1 hist now \<and> vi_value_type item1 = vi_value_type item \<and>
      (1 \<le> cached_up_to item1 ts \<or> mset (item_values item1) = mset hist)"
    by (rule cache_values_by_count_result [OF assms, where n = 1 and vc = vc])
  with True show thesis by (intro that [of ret item1 vc1 0 1]) simp_all
next
  case False
  note ends = first_and_last_value [OF vc_item_ok_chunks [OF assms(3)]]
  have "hd (item_values item) \<in> set (filter (\<lambda>v. rec_key v \<le> ts_key ts) (item_values item))"
    using False ends hd_in_set [of "item_values item"] by (auto simp: vc_keys not_less)
  then have "1 \<le> cached_up_to item ts" by (cases "filter (\<lambda>v. rec_key v \<le> ts_key ts) (item_values item)") auto
  with False assms(3,4) show thesis by (intro that [of 0 item vc 1 0]) simp_all
qed

text \<open>The last cached value not after a moment is a newest of the history not after it.\<close>

lemma last_not_after_ts_newest:
  assumes "vc_item_ok item" "coherent item hist now" "last_not_after_ts (vi_chunks item) ts ci i"
  defines "v \<equiv> slots (vi_chunks item ! ci) i"
  shows "v \<in> set hist" "rec_key v \<le> ts_key ts"
    "\<forall>u \<in> set hist. rec_key u \<le> ts_key ts \<longrightarrow> rec_key u \<le> rec_key v" "covers item hist (rec_sec v)"
proof -
  let ?cs = "vi_chunks item"
  have pos: "valid_pos ?cs ci i" using assms(3) by (simp add: last_not_after_ts_def)
  have v_in: "v \<in> set (item_values item)" using slot_in_values [OF pos] by (simp add: v_def item_values_simp)
  show hist: "v \<in> set hist" using set_mset_mono [OF coherent_subset [OF assms(2)]] v_in by auto
  have split: "values_before ?cs ci (i + 1) = values_before ?cs ci i @ [v]"
    using pos by (simp add: values_before_def valid_pos_def v_def upto_rec2)
  then show le: "rec_key v \<le> ts_key ts" using assms(3) by (simp add: last_not_after_ts_def)
  have ne: "?cs \<noteq> []" using v_in by (auto simp: item_values_def)
  show "covers item hist (rec_sec v)"
    using coherent_covers_first [OF assms(2) ne] first_sec_hd(3) [OF assms(1) ne] v_in by fastforce
  have "filter (\<lambda>v. rec_key v \<le> ts_key ts) (item_values item) = values_before ?cs ci i @ [v]"
    using values_up_to_ts [OF assms(3)] split by (simp add: item_values_simp)
  moreover have "sorted (map rec_key (filter (\<lambda>v. rec_key v \<le> ts_key ts) (item_values item)))"
    using vc_item_okD(3) [OF assms(1)] by (rule sorted_filter)
  ultimately have "sorted (map rec_key (values_before ?cs ci i @ [v]))"
    "set (values_before ?cs ci i @ [v]) = {u \<in> set (item_values item). rec_key u \<le> ts_key ts}"
    by (metis, metis set_filter)
  then have cached: "rec_key u \<le> rec_key v" if "u \<in> set (item_values item)" "rec_key u \<le> ts_key ts" for u
    using that by (auto simp: sorted_append set_eq_iff)
  show "\<forall>u \<in> set hist. rec_key u \<le> ts_key ts \<longrightarrow> rec_key u \<le> rec_key v"
  proof (intro ballI impI)
    fix u assume u: "u \<in> set hist" "rec_key u \<le> ts_key ts"
    show "rec_key u \<le> rec_key v"
    proof (cases "rec_sec v < rec_sec u")
      case True
      with \<open>covers item hist (rec_sec v)\<close> u(1) have "u \<in># filter_mset (\<lambda>x. rec_sec v < rec_sec x) (mset (item_values item))"
        by (simp add: covers_def)
      with cached u(2) show ?thesis by simp
    next
      case False
      show ?thesis
      proof (cases "u \<in> set (item_values item)")
        case False
        have "mset (item_values item) = filter_mset (\<lambda>v. first_sec item \<le> rec_sec v) (mset hist)"
          using assms(2) ne by (simp add: coherent_def)
        from arg_cong [OF this, of set_mset]
        have "set (item_values item) = {v \<in> set hist. first_sec item \<le> rec_sec v}" by simp
        with False u(1) have "rec_sec u < rec_sec v" using v_in by auto
        then show ?thesis by (simp add: ts_key_def less_eq_prod_def)
      qed (use cached u(2) in blast)
    qed
  qed
qed

text \<open>
  C37. A request for the value at a moment, with the same provisos: it returns, and when it succeeds it
  has found a value exactly if the history has one that is not after the moment, and that value is
  one of the newest of these. The item stays well formed and coherent, and if nothing was found it
  is marked as completely cached, which is then true.
\<close>

theorem vc_value_request_newest:
  assumes "world_ok w" "db_answers db hist" "vc_item_ok item" "coherent item hist now"
    "\<forall>v \<in> set hist. rec_sec v \<le> now \<and> hv_typed (vi_value_type item) (hr_value v)"
    "meanwhile_ok meanwhile hist now" "ts_sec ts \<noteq> 0"
  shows "\<exists>ret item' vc' found. vch_item_get_value w db meanwhile item ts now vc = Some (ret, item', vc', found) \<and>
    (ret = Succeed \<longrightarrow> vc_item_ok item' \<and> coherent item' hist now \<and>
      (case found of
         None \<Rightarrow> vi_cached_all item' \<and> (\<forall>v \<in> set hist. ts_key ts < rec_key v)
       | Some v \<Rightarrow> v \<in> set hist \<and> rec_key v \<le> ts_key ts \<and> (\<forall>u \<in> set hist. rec_key u \<le> ts_key ts \<longrightarrow> rec_key u \<le> rec_key v)))"
proof -
  obtain ret item1 vc1 hits misses where c: "(if vi_chunks item = [] \<or>
          0 < zbx_timespec_compare (hr_timestamp (slots (hd (vi_chunks item)) (first_value (hd (vi_chunks item))))) ts
       then map_option (\<lambda>(ret, item1, vc1). (ret, item1, vc1, 0, 1))
              (vch_item_cache_values_by_count w db meanwhile item 1 ts now vc)
       else Some (0, item, vc, 1, 0)) = Some (ret, item1, vc1, hits :: int, misses :: int)"
    "ret \<noteq> FAIL \<longrightarrow> vc_item_ok item1 \<and> coherent item1 hist now \<and> vi_value_type item1 = vi_value_type item \<and>
      (1 \<le> cached_up_to item1 ts \<or> mset (item_values item1) = mset hist)"
    by (rule value_request_cached [OF assms])
  show ?thesis
  proof (cases "ret = FAIL")
    case True
    with c(1) show ?thesis by (simp add: vch_item_get_value_def)
  next
    case False
    with c(2) have ok1: "vc_item_ok item1" and coh1: "coherent item1 hist now" and t1: "vi_value_type item1 = vi_value_type item"
      and enough: "1 \<le> cached_up_to item1 ts \<or> mset (item_values item1) = mset hist" by auto
    show ?thesis
    proof (cases rule: vch_item_get_last_value_by_timespec_result [OF vc_item_ok_chunks [OF ok1] assms(7), where now = now])
      case 1
      with enough have all: "mset (item_values item1) = mset hist" by (auto simp: filter_empty_conv not_le dest!: spec)
      have "coherent (item1\<lparr>vi_cached_all := True\<rparr>) hist now"
        using coh1 all by (simp add: coherent_def covers_def first_sec_def)
      moreover have "set (item_values item1) = set hist" using all by (rule mset_eq_setD)
      ultimately show ?thesis using c(1) False 1 ok1 by (simp add: vch_item_get_value_def vc_item_ok_def)
    next
      case (2 ci i)
      define v where "v = slots (vi_chunks item1 ! ci) i"
      note lastv = last_not_after_ts_newest [OF ok1 coh1 2(2), folded v_def]
      have copy: "vc_history_record_copy v (vi_value_type item1) = v"
        using lastv(1) assms(5) t1 by simp
      obtain rr vc2 where st: "vc_update_statistics item1 hits misses vc1 = (item1\<lparr>vi_hits := rr\<rparr>, vc2)"
        by (simp add: vc_update_statistics_def)
      define item3 where "item3 = (if vi_range item1 < now - rec_sec v
        then item1\<lparr>vi_range := now - rec_sec v\<rparr> else item1)\<lparr>vi_hits := rr\<rparr>"
      have "vch_item_get_value w db meanwhile item ts now vc = Some (Succeed, item3, vc2, Some v)"
        using c(1) False 2(1) st copy by (simp add: vch_item_get_value_def Let_def v_def item3_def)
      moreover have "coherent item3 hist now"
        using coh1 coherent_range [OF coh1, of "now - rec_sec v"] lastv(4) by (simp add: item3_def)
      ultimately show ?thesis using lastv(1-3) ok1 by (simp add: item3_def vc_item_ok_def)
    qed
  qed
qed

subsection \<open>A concrete history\<close>

text \<open>A database that keeps a list of records.\<close>

fun list_db :: "history_record list \<Rightarrow> vc_db" where
  "list_db hist (Q_period a b) = Some (filter (\<lambda>v. a < rec_sec v \<and> rec_sec v \<le> b) hist)"
| "list_db hist (Q_newest a b n) =
    (let rows = rev (sort_key rec_key (filter (\<lambda>v. (case a of None \<Rightarrow> True | Some a \<Rightarrow> a < rec_sec v) \<and> rec_sec v \<le> b) hist))
     in Some (case n of None \<Rightarrow> rows | Some n \<Rightarrow> take n rows))"
| "list_db hist (Q_at ts) = Some (filter (\<lambda>v. hr_timestamp v = ts) hist)"

lemma list_db_answers: "db_answers (list_db hist) hist"
  by (auto simp: db_answers_def Let_def rev_map)

lemma nobody_meanwhile: "meanwhile_ok (\<lambda>x. x) hist now"
  by (simp add: meanwhile_ok_def)

abbreviation sample_hist :: "history_record list" where
  "sample_hist \<equiv> [num_record 5 0 8, num_record 10 0 1, num_record 30 0 2]"

lemma sample_hist_facts:
  "coherent sample_item sample_hist 100"
  "\<forall>v \<in> set sample_hist. rec_sec v \<le> 100 \<and> hv_typed (vi_value_type sample_item) (hr_value v) \<and>
     ts_ns (hr_timestamp v) \<le> VC_MAX_NANOSECONDS"
  "\<forall>v \<in> set sample_hist. rec_sec v \<le> 100 \<and> hv_typed (vi_value_type sample_item) (hr_value v)"
proof -
  have "first_sec sample_item = 10" by (simp add: first_sec_def sample_item_def num_record_def)
  then show "coherent sample_item sample_hist 100"
    by (simp add: coherent_def covers_def sample_item_facts(1) num_record_def) (simp add: sample_item_def new_item_def)
qed (simp_all add: num_record_def sample_item_def new_item_def VC_MAX_NANOSECONDS_def)

lemma sample_requests:
  "map_option (\<lambda>(ret, _, _, vs). (ret, vs)) (vch_item_get_value_range plain_world (list_db sample_hist) (\<lambda>x. x)
     sample_item 40 0 30 100 empty_cache) = Some (Succeed, [num_record 30 0 2, num_record 10 0 1, num_record 5 0 8])"
  "map_option (\<lambda>(ret, _, _, vs). (ret, vs)) (vch_item_get_value_range plain_world (list_db sample_hist) (\<lambda>x. x)
     sample_item 0 2 10 100 empty_cache) = Some (Succeed, [num_record 10 0 1, num_record 5 0 8])"
  "map_option (\<lambda>(ret, _, _, v). (ret, v)) (vch_item_get_value plain_world (list_db sample_hist) (\<lambda>x. x)
     sample_item \<lparr>ts_sec = 9, ts_ns = 0\<rparr> 100 empty_cache) = Some (Succeed, Some (num_record 5 0 8))"
  by code_simp+

theorem vc_range_request_coherent_witness:
  "\<exists>item' vc' vs. vch_item_get_value_range plain_world (list_db sample_hist) (\<lambda>x. x) sample_item 40 0 30 100 empty_cache =
      Some (Succeed, item', vc', vs) \<and>
    mset vs = mset sample_hist \<and> sorted (map rec_key (rev vs)) \<and> vc_item_ok item' \<and> coherent item' sample_hist 100"
  using vc_range_request_coherent [OF plain_world_ok list_db_answers sample_item_facts(2) sample_hist_facts(1,3)
      nobody_meanwhile, of 30 40 empty_cache] sample_requests(1)
  by (fastforce simp: num_record_def)

theorem vc_count_request_coherent_witness:
  "\<exists>item' vc' vs. vch_item_get_value_range plain_world (list_db sample_hist) (\<lambda>x. x) sample_item 0 2 10 100 empty_cache =
      Some (Succeed, item', vc', vs) \<and> map rec_key vs = [(10, 0), (5, 0)] \<and> coherent item' sample_hist 100"
  using vc_count_request_coherent [OF plain_world_ok list_db_answers sample_item_facts(2) sample_hist_facts(1,2)
      nobody_meanwhile, of 10 2 0 empty_cache] sample_requests(2)
  by (fastforce simp: num_record_def ts_key_def)

theorem vc_value_request_newest_witness:
  "\<exists>item' vc' v. vch_item_get_value plain_world (list_db sample_hist) (\<lambda>x. x) sample_item \<lparr>ts_sec = 9, ts_ns = 0\<rparr> 100 empty_cache =
      Some (Succeed, item', vc', Some v) \<and> v \<in> set sample_hist \<and> rec_key v \<le> (9, 0) \<and> coherent item' sample_hist 100"
  using vc_value_request_newest [OF plain_world_ok list_db_answers sample_item_facts(2) sample_hist_facts(1,3)
      nobody_meanwhile, of "\<lparr>ts_sec = 9, ts_ns = 0\<rparr>" empty_cache] sample_requests(3)
  by (fastforce simp: ts_key_def)

subsection \<open>Where requests go wrong\<close>

text \<open>
  Adding a value of another type to an item that a request is using, and that is marked for
  removal, sets the reference counter and the marks to 0 and then takes a reference away: the counter
  is -1, the mark is lost, and the counter of the request itself will not reach 0 either.
\<close>

lemma vc_type_change_loses_references:
  "map_option (\<lambda>(ret, vc). (ret, map vi_refcount (vcc_items vc), map vi_remove_pending (vcc_items vc)))
     (zbx_vc_add_value plain_world 1 ITEM_VALUE_TYPE_FLOAT
        \<lparr>hr_timestamp = \<lparr>ts_sec = 40, ts_ns = 0\<rparr>, hr_value = Hv_dbl 0\<rparr> 100
        (empty_cache\<lparr>vcc_items := [sample_item\<lparr>vi_remove_pending := True, vi_refcount := 1\<rparr>]\<rparr>)) =
   Some (Succeed, [-1], [False])"
  by code_simp

text \<open>
  A request by count whose read from the database also brought values newer than its timestamp counts
  more misses than values; the counters of hits wrap around.
\<close>

lemma count_request_hits_wrap:
  "map_option (\<lambda>(ret, item, vc, vs). (ret, vi_hits item, vcc_hits vc, vs))
     (vch_item_get_value_range plain_world (list_db [num_record 5 0 8, num_record 50 0 1, num_record 60 0 2]) (\<lambda>x. x)
        (new_item 1 ITEM_VALUE_TYPE_UINT64) 0 2 30 100 empty_cache) =
   Some (Succeed, 2 ^ 64 - 1, 2 ^ 64 - 1, [num_record 5 0 8])"
  by code_simp

text \<open>
  A value of the second of the first cached value, but of an earlier nanosecond, is not cached when it
  is added; reading older values stops before that second, so the value is never returned.
\<close>

definition late_item :: vc_item where
  "late_item = (new_item 1 ITEM_VALUE_TYPE_UINT64)\<lparr>vi_values_total := 1, vi_chunks :=
    [\<lparr>vch_addr = 7, first_value = 0, last_value = 0, slots_num = 4, slots = (\<lambda>_. hr_zero)(0 := num_record 10 5 1)\<rparr>]\<rparr>"

lemma value_of_first_second_lost:
  "do {
     (r1, vc1) \<leftarrow> zbx_vc_add_value plain_world 1 ITEM_VALUE_TYPE_UINT64 (num_record 10 2 9) 100
        (empty_cache\<lparr>vcc_items := [late_item]\<rparr>);
     (r2, vc2, vs) \<leftarrow> zbx_vc_get_value_range plain_world
        (list_db [num_record 10 2 9, num_record 10 5 1, num_record 5 0 4]) (\<lambda>x. x) (\<lambda>x. x)
        1 ITEM_VALUE_TYPE_UINT64 50 0 40 100 vc1;
     Some (r1, r2, vs)
   } = Some (Succeed, Succeed, [num_record 10 5 1, num_record 5 0 4])"
  by code_simp

end
