(* ===== verification/IdArrays.thy ===== *)
theory IdArrays
  imports Prelude
begin

text \<open>
  Sorted arrays of identifiers (\<^verbatim>\<open>libs/zbxcommon/misc.c\<close>: \<^verbatim>\<open>get_nearestindex\<close>, \<^verbatim>\<open>uint64_array_*\<close>). The
  list holds the \<^verbatim>\<open>num\<close> used elements; the allocated size is an argument where an operation looks at it.
  On strictly sorted arrays the operations are those of finite sets.
\<close>

subsection \<open>Operations\<close>

text \<open>The loop keeps \<^verbatim>\<open>first_index <= last_index\<close>; its test for equality is written \<open>\<le>\<close>, so that it ends on all arguments.\<close>

function nearest_loop :: "u64 list \<Rightarrow> u64 \<Rightarrow> nat \<Rightarrow> nat \<Rightarrow> nat" where
  "nearest_loop p i first_index last_index =
    (let index = first_index + (last_index - first_index) div 2; element_id = p ! index
     in if i = element_id then index
        else if last_index \<le> first_index then (if element_id < i then index + 1 else index)
        else if element_id < i then nearest_loop p i (index + 1) last_index
        else nearest_loop p i first_index index)"
  by auto
termination
  by (relation "measure (\<lambda>(p, i, first_index, last_index). last_index - first_index)") auto

declare nearest_loop.simps [simp del]

definition get_nearestindex :: "u64 list \<Rightarrow> u64 \<Rightarrow> nat" where
  "get_nearestindex p i = (if p = [] then 0 else nearest_loop p i 0 (length p - 1))"

text \<open>
  \<^verbatim>\<open>uint64_array_add\<close> returns the index, the array and its allocated size; \<open>None\<close> is the failed assertion of
  a full array that must not grow.
\<close>

definition uint64_array_add :: "u64 list \<Rightarrow> nat \<Rightarrow> u64 \<Rightarrow> nat \<Rightarrow> (nat \<times> u64 list \<times> nat) option" where
  "uint64_array_add values1 alloc v alloc_step =
    (let index = get_nearestindex values1 v
     in if index < length values1 \<and> values1 ! index = v then Some (index, values1, alloc)
        else if alloc = length values1 \<and> alloc_step = 0 then None
        else Some (index, take index values1 @ v # drop index values1,
          if alloc = length values1 then alloc + alloc_step else alloc))"

fun uint64_array_merge :: "u64 list \<Rightarrow> nat \<Rightarrow> u64 list \<Rightarrow> nat \<Rightarrow> (u64 list \<times> nat) option" where
  "uint64_array_merge values1 alloc [] alloc_step = Some (values1, alloc)"
| "uint64_array_merge values1 alloc (v # vs) alloc_step =
    (case uint64_array_add values1 alloc v alloc_step of
       None \<Rightarrow> None
     | Some (_, values2, alloc2) \<Rightarrow> uint64_array_merge values2 alloc2 vs alloc_step)"

definition uint64_array_exists :: "u64 list \<Rightarrow> u64 \<Rightarrow> zres" where
  "uint64_array_exists values1 v =
    (let index = get_nearestindex values1 v
     in if index < length values1 \<and> values1 ! index = v then Succeed else Fail)"

definition delete_at :: "'a list \<Rightarrow> nat \<Rightarrow> 'a list" where
  "delete_at xs i = take i xs @ drop (i + 1) xs"

fun uint64_array_remove :: "u64 list \<Rightarrow> u64 list \<Rightarrow> u64 list" where
  "uint64_array_remove values1 [] = values1"
| "uint64_array_remove values1 (v # rm) =
    (let index = get_nearestindex values1 v
     in if index = length values1 \<or> values1 ! index \<noteq> v then uint64_array_remove values1 rm
        else uint64_array_remove (delete_at values1 index) rm)"

function remove_both_loop :: "nat \<Rightarrow> u64 list \<Rightarrow> u64 list \<Rightarrow> u64 list \<times> u64 list" where
  "remove_both_loop rindex values1 rm =
    (if rindex < length rm then
       (let index = get_nearestindex values1 (rm ! rindex)
        in if index = length values1 \<or> values1 ! index \<noteq> rm ! rindex then remove_both_loop (rindex + 1) values1 rm
           else remove_both_loop rindex (delete_at values1 index) (delete_at rm rindex))
     else (values1, rm))"
  by auto
termination
  by (relation "measure (\<lambda>(rindex, values1, rm). length rm - rindex)") (auto simp: delete_at_def)

declare remove_both_loop.simps [simp del]

definition uint64_array_remove_both :: "u64 list \<Rightarrow> u64 list \<Rightarrow> u64 list \<times> u64 list" where
  "uint64_array_remove_both values1 rm = remove_both_loop 0 values1 rm"

subsection \<open>The search\<close>

abbreviation id_set :: "u64 list \<Rightarrow> bool" where
  "id_set xs \<equiv> sorted_wrt (<) xs"

lemma nearest_loop_place:
  assumes "id_set p" "first_index \<le> last_index" "last_index < length p"
    "\<forall>j < first_index. p ! j < i" "\<forall>j. last_index < j \<and> j < length p \<longrightarrow> i < p ! j"
  shows "nearest_loop p i first_index last_index \<le> length p \<and>
    (\<forall>j < nearest_loop p i first_index last_index. p ! j < i) \<and>
    (\<forall>j. nearest_loop p i first_index last_index \<le> j \<and> j < length p \<longrightarrow> i \<le> p ! j)"
  using assms
proof (induction p i first_index last_index rule: nearest_loop.induct)
  case (1 p i a b)
  let ?m = "a + (b - a) div 2"
  have m: "a \<le> ?m" "?m \<le> b" "a < b \<Longrightarrow> ?m < b" using 1(4) by auto
  have lt: "j < k \<Longrightarrow> k < length p \<Longrightarrow> p ! j < p ! k" for j k
    using 1(3) by (simp add: sorted_wrt_iff_nth_less)
  show ?case
  proof (cases "i = p ! ?m")
    case True
    then have "nearest_loop p i a b = ?m" by (subst nearest_loop.simps) (simp add: Let_def)
    then show ?thesis using True m 1(5) lt by (auto simp: le_less)
  next
    case ne: False
    show ?thesis
    proof (cases "b \<le> a")
      case True
      with 1(4) have "a = b" by simp
      then have "nearest_loop p i a b = (if p ! a < i then a + 1 else a)"
        using ne by (subst nearest_loop.simps) (simp add: Let_def)
      then show ?thesis using ne 1(5-7) \<open>a = b\<close>
        by (auto simp: less_Suc_eq le_less Suc_le_eq not_less)
    next
      case False
      show ?thesis
      proof (cases "p ! ?m < i")
        case True
        have "nearest_loop p i a b = nearest_loop p i (?m + 1) b"
          using ne False True by (subst nearest_loop.simps) (simp add: Let_def)
        moreover have "\<forall>j < ?m + 1. p ! j < i"
        proof (intro allI impI)
          fix j assume "j < ?m + 1"
          then show "p ! j < i" using lt [of j ?m] True m(2) 1(5) by (cases "j = ?m") auto
        qed
        ultimately show ?thesis using 1(1) [OF refl refl ne False True] 1(3,5,7) m False by simp
      next
        case ge: False
        have "nearest_loop p i a b = nearest_loop p i a ?m"
          using ne False ge by (subst nearest_loop.simps) (simp add: Let_def)
        moreover have "\<forall>j. ?m < j \<and> j < length p \<longrightarrow> i < p ! j"
          using lt ge ne by (meson linorder_neqE order_less_trans)
        ultimately show ?thesis using 1(2) [OF refl refl ne False ge] 1(3,5,6) m False by simp
      qed
    qed
  qed
qed

lemma get_nearestindex_place:
  assumes "id_set p"
  shows "get_nearestindex p i \<le> length p \<and> (\<forall>x \<in> set (take (get_nearestindex p i) p). x < i) \<and>
    (\<forall>x \<in> set (drop (get_nearestindex p i) p). i \<le> x)"
proof (cases "p = []")
  case False
  then have "nearest_loop p i 0 (length p - 1) \<le> length p \<and> (\<forall>j < nearest_loop p i 0 (length p - 1). p ! j < i) \<and>
    (\<forall>j. nearest_loop p i 0 (length p - 1) \<le> j \<and> j < length p \<longrightarrow> i \<le> p ! j)"
    using assms by (intro nearest_loop_place) auto
  with False show ?thesis by (auto simp: get_nearestindex_def in_set_conv_nth)
qed (simp add: get_nearestindex_def)

lemma nearest_found_iff:
  assumes "id_set p"
  shows "get_nearestindex p i < length p \<and> p ! get_nearestindex p i = i \<longleftrightarrow> i \<in> set p"
proof
  let ?n = "get_nearestindex p i"
  note place = get_nearestindex_place [OF assms, of i]
  assume "i \<in> set p"
  then have "i \<in> set (drop ?n p)" using place by (metis Un_iff append_take_drop_id less_irrefl set_append)
  then obtain k where k: "k < length p - ?n" "p ! (?n + k) = i" by (auto simp: in_set_conv_nth)
  have "p ! ?n \<in> set (drop ?n p)" using k(1) by (auto simp: in_set_conv_nth intro!: exI [of _ 0])
  then have "i \<le> p ! ?n" using place by simp
  moreover have "k \<noteq> 0 \<Longrightarrow> p ! ?n < p ! (?n + k)" using assms k(1) by (simp add: sorted_wrt_iff_nth_less)
  ultimately show "?n < length p \<and> p ! ?n = i" using k by (cases "k = 0") auto
qed (metis nth_mem)

lemma nearest_at_end:
  assumes "id_set p"
  shows "get_nearestindex p i = length p \<or> p ! get_nearestindex p i \<noteq> i \<longleftrightarrow> i \<notin> set p"
  using nearest_found_iff [OF assms, of i] get_nearestindex_place [OF assms, of i] by auto

lemma insert_at_nearest:
  assumes "id_set p" "i \<notin> set p"
  shows "id_set (take (get_nearestindex p i) p @ i # drop (get_nearestindex p i) p)"
proof -
  let ?n = "get_nearestindex p i"
  have p: "sorted_wrt (<) (take ?n p @ drop ?n p)" using assms(1) by simp
  have "\<forall>x \<in> set (drop ?n p). i < x"
    using get_nearestindex_place [OF assms(1), of i] assms(2) by (metis in_set_dropD order_le_less)
  with p get_nearestindex_place [OF assms(1), of i] show ?thesis unfolding sorted_wrt_append by auto
qed

lemma delete_at_facts:
  assumes "distinct xs" "i < length xs"
  shows "set (delete_at xs i) = set xs - {xs ! i}" "length (delete_at xs i) = length xs - 1"
proof -
  have xs: "xs = take i xs @ xs ! i # drop (Suc i) xs" using assms(2) by (rule id_take_nth_drop)
  have "distinct (take i xs @ xs ! i # drop (Suc i) xs)" using assms(1) xs by simp
  then have "xs ! i \<notin> set (take i xs) \<union> set (drop (Suc i) xs)" by simp
  moreover have "set xs = insert (xs ! i) (set (take i xs) \<union> set (drop (Suc i) xs))"
    by (subst xs) simp
  ultimately show "set (delete_at xs i) = set xs - {xs ! i}" by (auto simp: delete_at_def)
  show "length (delete_at xs i) = length xs - 1" using assms(2) by (simp add: delete_at_def)
qed

lemma delete_at_id_set: "id_set xs \<Longrightarrow> id_set (delete_at xs i)"
proof -
  assume "id_set xs"
  then have "sorted_wrt (<) (take i xs @ drop i xs)" by simp
  then have "sorted_wrt (<) (take i xs)" "sorted_wrt (<) (drop i xs)" "\<forall>x \<in> set (take i xs). \<forall>y \<in> set (drop i xs). x < y"
    unfolding sorted_wrt_append by auto
  moreover have "drop (i + 1) xs = drop 1 (drop i xs)" by simp
  ultimately show ?thesis
    unfolding delete_at_def sorted_wrt_append by (auto simp: sorted_wrt_drop dest: in_set_dropD simp del: drop_drop)
qed

subsection \<open>The operations on sets\<close>

lemma id_set_distinct: "id_set xs \<Longrightarrow> distinct xs"
  by (simp add: strict_sorted_iff)

lemma uint64_array_exists_iff: "id_set xs \<Longrightarrow> uint64_array_exists xs v = Succeed \<longleftrightarrow> v \<in> set xs"
  using nearest_found_iff [of xs v] by (auto simp: uint64_array_exists_def Let_def)

lemma uint64_array_add_result:
  assumes "id_set xs" "length xs < alloc \<or> 0 < alloc_step"
  shows "\<exists>index ys alloc'. uint64_array_add xs alloc v alloc_step = Some (index, ys, alloc') \<and> id_set ys \<and>
    set ys = insert v (set xs) \<and> index < length ys \<and> ys ! index = v \<and>
    (length xs \<le> alloc \<longrightarrow> length ys \<le> alloc' \<and> alloc \<le> alloc')"
proof (cases "v \<in> set xs")
  case True
  with nearest_found_iff [OF assms(1), of v] assms(1) show ?thesis
    by (auto simp: uint64_array_add_def Let_def)
next
  case False
  let ?n = "get_nearestindex xs v"
  let ?ys = "take ?n xs @ v # drop ?n xs"
  have n: "?n \<le> length xs" using get_nearestindex_place [OF assms(1)] by blast
  have "\<not> (?n < length xs \<and> xs ! ?n = v)" using nearest_found_iff [OF assms(1)] False by blast
  then have "uint64_array_add xs alloc v alloc_step =
      Some (?n, ?ys, if alloc = length xs then alloc + alloc_step else alloc)"
    using assms(2) by (auto simp: uint64_array_add_def Let_def)
  moreover have "set ?ys = insert v (set xs)" by (metis append_take_drop_id insert_is_Un list.simps(15) set_append sup_left_commute)
  ultimately show ?thesis
    using insert_at_nearest [OF assms(1) False] assms(2) n by (auto simp: nth_append)
qed

lemma uint64_array_remove_result:
  "id_set xs \<Longrightarrow> id_set (uint64_array_remove xs rm) \<and> set (uint64_array_remove xs rm) = set xs - set rm"
proof (induction rm arbitrary: xs)
  case (Cons v rm)
  let ?n = "get_nearestindex xs v"
  show ?case
  proof (cases "v \<in> set xs")
    case True
    with Cons.prems nearest_found_iff have n: "?n < length xs" "xs ! ?n = v" by blast+
    then have "uint64_array_remove xs (v # rm) = uint64_array_remove (delete_at xs ?n) rm" by (simp add: Let_def)
    with Cons.IH [OF delete_at_id_set [OF Cons.prems]] delete_at_facts(1) [OF id_set_distinct [OF Cons.prems] n(1)] n(2)
    show ?thesis by auto
  next
    case False
    then have "uint64_array_remove xs (v # rm) = uint64_array_remove xs rm"
      using nearest_at_end [OF Cons.prems, of v] by (simp add: Let_def)
    with Cons.IH [OF Cons.prems] False show ?thesis by auto
  qed
qed simp

lemma uint64_array_merge_result:
  assumes "id_set xs" "length xs \<le> alloc" "0 < alloc_step"
  shows "\<exists>ys alloc'. uint64_array_merge xs alloc vs alloc_step = Some (ys, alloc') \<and> id_set ys \<and>
    set ys = set xs \<union> set vs \<and> length ys \<le> alloc'"
  using assms(1,2)
proof (induction vs arbitrary: xs alloc)
  case (Cons v vs)
  obtain index ys alloc' where a: "uint64_array_add xs alloc v alloc_step = Some (index, ys, alloc')" "id_set ys"
    "set ys = insert v (set xs)" "length ys \<le> alloc'"
    using uint64_array_add_result [OF Cons.prems(1), of alloc alloc_step v] assms(3) Cons.prems(2) by blast
  with Cons.IH [OF a(2,4)] show ?case by auto
qed simp

lemma remove_both_loop_result:
  "id_set xs \<Longrightarrow> distinct rm \<Longrightarrow> (\<forall>v \<in> set (take rindex rm). v \<notin> set xs) \<Longrightarrow>
   remove_both_loop rindex xs rm = (ys, rm') \<Longrightarrow>
   id_set ys \<and> set ys = set xs - set rm \<and> rm' = filter (\<lambda>v. v \<notin> set xs) rm"
proof (induction rindex xs rm arbitrary: ys rm' rule: remove_both_loop.induct)
  case (1 k xs rm)
  show ?case
  proof (cases "k < length rm")
    case False
    with 1(6) have "ys = xs" "rm' = rm" by (subst (asm) remove_both_loop.simps, simp)+
    with False 1(3,5) show ?thesis by (auto simp: filter_id_conv)
  next
    case True
    let ?v = "rm ! k"
    let ?n = "get_nearestindex xs ?v"
    have rm: "rm = take k rm @ ?v # drop (Suc k) rm" using True by (rule id_take_nth_drop)
    show ?thesis
    proof (cases "?v \<in> set xs")
      case False
      then have stop: "?n = length xs \<or> xs ! ?n \<noteq> ?v" using nearest_at_end [OF 1(3)] by blast
      have eq: "remove_both_loop k xs rm = remove_both_loop (k + 1) xs rm"
        by (rule trans [OF remove_both_loop.simps]) (use True stop in \<open>simp only: Let_def if_True\<close>)
      have "\<forall>v \<in> set (take (k + 1) rm). v \<notin> set xs"
        using 1(5) False True by (auto simp: take_Suc_conv_app_nth)
      then show ?thesis by (rule 1(1) [OF True refl stop 1(3,4) _ 1(6) [unfolded eq]])
    next
      case in_xs: True
      with nearest_found_iff [OF 1(3)] have n: "?n < length xs" "xs ! ?n = ?v" by blast+
      then have go: "\<not> (?n = length xs \<or> xs ! ?n \<noteq> ?v)" by simp
      have eq: "remove_both_loop k xs rm = remove_both_loop k (delete_at xs ?n) (delete_at rm k)"
        by (rule trans [OF remove_both_loop.simps]) (use True go in \<open>simp only: Let_def if_True if_False\<close>)
      have set_xs: "set (delete_at xs ?n) = set xs - {?v}"
        using delete_at_facts(1) [OF id_set_distinct [OF 1(3)] n(1)] n(2) by simp
      have set_rm: "set (delete_at rm k) = set rm - {?v}" using delete_at_facts(1) [OF 1(4) True] .
      have "distinct (take k rm @ ?v # drop (Suc k) rm)" using 1(4) rm by simp
      then have dist: "distinct (delete_at rm k)" and v: "?v \<notin> set (take k rm)" "?v \<notin> set (drop (Suc k) rm)"
        by (auto simp: delete_at_def)
      have take: "take k (delete_at rm k) = take k rm" using True by (simp add: delete_at_def)
      have "\<forall>v \<in> set (take k (delete_at rm k)). v \<notin> set (delete_at xs ?n)" using 1(5) set_xs by (simp add: take)
      from 1(2) [OF True refl go delete_at_id_set [OF 1(3)] dist this 1(6) [unfolded eq]]
      have IH: "id_set ys" "set ys = set (delete_at xs ?n) - set (delete_at rm k)"
        "rm' = filter (\<lambda>v. v \<notin> set (delete_at xs ?n)) (delete_at rm k)" by auto
      have "rm' = filter (\<lambda>x. x \<notin> set xs - {?v}) (take k rm @ drop (Suc k) rm)"
        unfolding IH(3) set_xs by (simp add: delete_at_def)
      also have "\<dots> = filter (\<lambda>x. x \<notin> set xs) (take k rm @ drop (Suc k) rm)"
        by (rule filter_cong) (use v in auto)
      also have "\<dots> = filter (\<lambda>x. x \<notin> set xs) (take k rm @ ?v # drop (Suc k) rm)" using in_xs by simp
      finally have "rm' = filter (\<lambda>x. x \<notin> set xs) rm" unfolding rm [symmetric] .
      moreover have "set ys = set xs - set rm"
        unfolding IH(2) set_xs set_rm using nth_mem [OF True] by blast
      ultimately show ?thesis using IH(1) by (intro conjI)
    qed
  qed
qed

end
