(* ===== verification/HistCache.thy ===== *)
theory HistCache
  imports ValueCache Bytes IdArrays
begin

text \<open>
  The history cache (\<^verbatim>\<open>libs/zbxdbcache/dbcache.c\<close>): values that wait in shared memory to be written to
  the database. They stand in a ring of \<^verbatim>\<open>ZBX_HISTORY_SIZE\<close> entries (the length of \<open>hc_history\<close>), their
  strings in a text buffer of \<^verbatim>\<open>CONFIG_TEXT_CACHE_SIZE\<close> bytes (the length of \<open>hc_text\<close>) that is filled from
  the left. Entries that were taken out of order leave a gap, an entry with item identifier 0. This
  theory holds the data, adding a value, and the two operations that close gaps.

  A pointer into the text buffer is its offset. Indices and counts that never become negative are
  natural numbers; \<open>hc_gap_num\<close> and \<open>hc_text_free\<close> are integers. When the cache is full a process
  releases the lock and sleeps; what the others do in that time is the argument \<open>others\<close>, numbered by
  \<open>hc_waits\<close>, the number of times processes have slept.
\<close>

subsection \<open>Data\<close>

datatype item_state = ITEM_STATE_NORMAL | ITEM_STATE_NOTSUPPORTED

text \<open>The union \<^verbatim>\<open>history_value_t\<close> in shared memory; a \<^verbatim>\<open>NULL\<close> string is \<open>Du_ui64 0\<close>.\<close>

datatype dc_union = Du_dbl u64 | Du_ui64 u64 | Du_str nat

fun du_str :: "dc_union \<Rightarrow> nat" where
  "du_str (Du_str p) = p"
| "du_str _ = 0"

record dc_history =
  dh_itemid :: u64
  dh_value_orig :: dc_union
  dh_value :: dc_union
  dh_lastlogsize :: u64
  dh_ts :: zbx_timespec
  dh_timestamp :: int
  dh_severity :: int
  dh_logeventid :: int
  dh_mtime :: int
  dh_num :: nat
  dh_value_type :: item_value_type
  dh_value_null :: bool
  dh_keep_history :: bool
  dh_keep_trends :: bool
  dh_state :: item_state

record dc_stats =
  history_counter :: u64
  history_float_counter :: u64
  history_uint_counter :: u64
  history_str_counter :: u64
  history_log_counter :: u64
  history_text_counter :: u64
  notsupported_counter :: u64

record dc_cache =
  hc_stats :: dc_stats
  hc_history :: "dc_history list"
  hc_text :: "u8 list"
  hc_itemids :: "u64 list"
  hc_last_text :: nat
  hc_first :: nat
  hc_num :: nat
  hc_gap_num :: int
  hc_text_free :: int
  hc_itemids_alloc :: nat
  hc_last_ts :: zbx_timespec
  hc_waits :: nat

abbreviation hist_size :: "dc_cache \<Rightarrow> nat" where "hist_size hc \<equiv> length (hc_history hc)"
abbreviation text_size :: "dc_cache \<Rightarrow> nat" where "text_size hc \<equiv> length (hc_text hc)"

text \<open>Strings in a buffer.\<close>

definition strlen_at :: "u8 list \<Rightarrow> nat \<Rightarrow> nat" where
  "strlen_at buf p = length (takeWhile (\<lambda>c. c \<noteq> 0) (drop p buf))"

definition str_at :: "u8 list \<Rightarrow> nat \<Rightarrow> u8 list" where
  "str_at buf p = takeWhile (\<lambda>c. c \<noteq> 0) (drop p buf)"

text \<open>\<^verbatim>\<open>memmove\<close> of \<open>n\<close> elements inside an array.\<close>

definition memmove_in :: "'a list \<Rightarrow> nat \<Rightarrow> nat \<Rightarrow> nat \<Rightarrow> 'a list" where
  "memmove_in xs dst src n = write_at xs dst (take n (drop src xs))"

subsection \<open>Closing gaps\<close>

definition DCmove_history :: "nat \<Rightarrow> nat \<Rightarrow> nat \<Rightarrow> dc_cache \<Rightarrow> dc_cache" where
  "DCmove_history src n_data n_gap hc =
    (let dst = src + n_gap; sz = hist_size hc; h = hc_history hc
     in if sz \<le> dst \<or> dst + n_data \<le> sz then
          hc\<lparr>hc_history := memmove_in h (if sz \<le> dst then dst - sz else dst) src n_data\<rparr>
        else
          (let n_data2 = dst + n_data - sz;
               n_data1 = n_data - n_data2;
               h1 = memmove_in h 0 (src + n_data1) n_data2
           in hc\<lparr>hc_history := memmove_in h1 dst src n_data1\<rparr>))"

text \<open>The loop runs over the \<open>n\<close> oldest entries from the newest of them on; it returns the last place, the gap and the block still to be moved.\<close>

fun vacuum_loop :: "nat \<Rightarrow> nat \<Rightarrow> nat \<Rightarrow> nat \<Rightarrow> dc_cache \<Rightarrow> nat \<times> nat \<times> nat \<times> dc_cache" where
  "vacuum_loop 0 f n_gap n_data hc = (f, n_gap, n_data, hc)"
| "vacuum_loop (Suc n) f n_gap n_data hc =
    (let f = (if f = 0 then hist_size hc else f) - 1
     in if dh_itemid (hc_history hc ! f) = 0 then
          (if n_data \<noteq> 0 then vacuum_loop n f (n_gap + 1) 0 (DCmove_history (f + 1) n_data n_gap hc)
           else vacuum_loop n f (n_gap + 1) n_data hc)
        else if n_gap \<noteq> 0 then
          (if f = 0 then vacuum_loop n f n_gap 0 (DCmove_history f (n_data + 1) n_gap hc)
           else vacuum_loop n f n_gap (n_data + 1) hc)
        else vacuum_loop n f n_gap n_data hc)"

definition DCvacuum_history :: "dc_cache \<Rightarrow> dc_cache" where
  "DCvacuum_history hc =
    (if int (hist_size hc div 100) \<ge> hc_gap_num hc then hc
     else
       (let f = hc_first hc + hc_num hc;
            f = (if hist_size hc \<le> f then f - hist_size hc else f);
            (f, n_gap, n_data, hc1) = vacuum_loop (hc_num hc) f 0 0 hc;
            hc2 = (if n_data \<noteq> 0 then DCmove_history f n_data n_gap hc1 else hc1);
            fst1 = hc_first hc2 + n_gap
        in hc2\<lparr>hc_num := hc_num hc2 - n_gap, hc_gap_num := hc_gap_num hc2 - int n_gap,
             hc_first := (if hist_size hc2 \<le> fst1 then fst1 - hist_size hc2 else fst1)\<rparr>))"

definition DCmove_text :: "nat \<Rightarrow> dc_cache \<Rightarrow> nat \<times> dc_cache" where
  "DCmove_text str hc =
    (let sz = strlen_at (hc_text hc) str + 1; lt = hc_last_text hc
     in if lt \<noteq> str then (lt, hc\<lparr>hc_text := memmove_in (hc_text hc) lt str sz, hc_last_text := lt + sz\<rparr>)
        else (str, hc\<lparr>hc_last_text := lt + sz\<rparr>))"

definition upd_entry :: "nat \<Rightarrow> (dc_history \<Rightarrow> dc_history) \<Rightarrow> dc_cache \<Rightarrow> dc_cache" where
  "upd_entry f g hc = hc\<lparr>hc_history := (hc_history hc)[f := g (hc_history hc ! f)]\<rparr>"

definition move_orig :: "nat \<Rightarrow> dc_cache \<Rightarrow> dc_cache" where
  "move_orig f hc =
    (let (p, hc1) = DCmove_text (du_str (dh_value_orig (hc_history hc ! f))) hc
     in upd_entry f (\<lambda>h. h\<lparr>dh_value_orig := Du_str p\<rparr>) hc1)"

definition move_source :: "nat \<Rightarrow> dc_cache \<Rightarrow> dc_cache" where
  "move_source f hc =
    (let (p, hc1) = DCmove_text (du_str (dh_value (hc_history hc ! f))) hc
     in upd_entry f (\<lambda>h. h\<lparr>dh_value := Du_str p\<rparr>) hc1)"

definition vacuum_entry :: "nat \<Rightarrow> dc_cache \<Rightarrow> dc_cache" where
  "vacuum_entry f hc =
    (let h = hc_history hc ! f
     in if dh_state h = ITEM_STATE_NOTSUPPORTED then move_orig f hc
        else (case dh_value_type h of
            ITEM_VALUE_TYPE_STR \<Rightarrow> move_orig f hc
          | ITEM_VALUE_TYPE_TEXT \<Rightarrow> move_orig f hc
          | ITEM_VALUE_TYPE_LOG \<Rightarrow>
              (if dh_value h \<noteq> Du_ui64 0 then move_source f (move_orig f hc) else move_orig f hc)
          | _ \<Rightarrow> hc))"

fun vacuum_text_loop :: "nat \<Rightarrow> nat \<Rightarrow> dc_cache \<Rightarrow> dc_cache" where
  "vacuum_text_loop 0 f hc = hc"
| "vacuum_text_loop (Suc n) f hc =
    (let f = (if hist_size hc = f then 0 else f) in vacuum_text_loop n (f + 1) (vacuum_entry f hc))"

definition DCvacuum_text :: "dc_cache \<Rightarrow> dc_cache" where
  "DCvacuum_text hc =
    (if int (text_size hc div 1024) \<ge> hc_text_free hc then hc
     else vacuum_text_loop (hc_num hc) (hc_first hc) (hc\<lparr>hc_last_text := 0\<rparr>))"

subsection \<open>The ring\<close>

definition hist_pos :: "dc_cache \<Rightarrow> nat \<Rightarrow> nat" where
  "hist_pos hc i = (hc_first hc + i) mod hist_size hc"

definition window :: "dc_cache \<Rightarrow> dc_history list" where
  "window hc = map (\<lambda>i. hc_history hc ! hist_pos hc i) [0..<hc_num hc]"

abbreviation live :: "dc_history \<Rightarrow> bool" where "live h \<equiv> dh_itemid h \<noteq> 0"

definition ring_ok :: "dc_cache \<Rightarrow> bool" where
  "ring_ok hc \<longleftrightarrow> hc_first hc < hist_size hc \<and> hc_num hc \<le> hist_size hc"

lemma length_window [simp]: "length (window hc) = hc_num hc"
  by (simp add: window_def)

lemma nth_window [simp]: "i < hc_num hc \<Longrightarrow> window hc ! i = hc_history hc ! hist_pos hc i"
  by (simp add: window_def)

lemma nth_memmove_in:
  assumes "src + n \<le> length xs" "dst + n \<le> length xs" "i < length xs"
  shows "memmove_in xs dst src n ! i = (if dst \<le> i \<and> i < dst + n then xs ! (src + (i - dst)) else xs ! i)"
  using assms by (auto simp: memmove_in_def write_at_def nth_append min_def)

lemma length_memmove_in [simp]:
  "src + n \<le> length xs \<Longrightarrow> dst + n \<le> length xs \<Longrightarrow> length (memmove_in xs dst src n) = length xs"
  by (simp add: memmove_in_def write_at_def)

lemma mod_add_cancel_lt:
  fixes s i j H :: nat
  assumes "(s + i) mod H = (s + j) mod H" "i < H" "j < H"
  shows "i = j"
proof -
  have "int H dvd (int (s + i) - int (s + j))"
    using assms(1) by (metis mod_eq_dvd_iff of_nat_mod)
  then have "int H dvd int i - int j" by simp
  moreover have "\<bar>int i - int j\<bar> < int H" using assms(2,3) by linarith
  ultimately have "int i - int j = 0" by (metis dvd_imp_le_int abs_of_nat not_less)
  then show ?thesis by simp
qed

text \<open>A move puts a block, which does not wrap around, a gap further on, and touches nothing else.\<close>

lemma DCmove_history_result:
  assumes "src + d \<le> hist_size hc" "g + d \<le> hist_size hc" "src < hist_size hc"
  defines "hc' \<equiv> DCmove_history src d g hc"
  shows "\<exists>h'. hc' = hc\<lparr>hc_history := h'\<rparr> \<and> length h' = hist_size hc \<and>
    (\<forall>j < d. h' ! ((src + g + j) mod hist_size hc) = hc_history hc ! (src + j)) \<and>
    (\<forall>p < hist_size hc. (\<forall>j < d. p \<noteq> (src + g + j) mod hist_size hc) \<longrightarrow> h' ! p = hc_history hc ! p)"
proof -
  let ?H = "hist_size hc" and ?h = "hc_history hc" and ?dst = "src + g"
  consider "?H \<le> ?dst" | "?dst < ?H" "?dst + d \<le> ?H" | "?dst < ?H" "?H < ?dst + d" by linarith
  then show ?thesis
  proof cases
    case 1
    let ?e = "?dst - ?H"
    have e: "?e + d \<le> ?H" and m: "\<And>j. j < d \<Longrightarrow> (src + g + j) mod ?H = ?e + j"
      using assms(1-3) 1 by (auto simp: mod_if)
    have "hc' = hc\<lparr>hc_history := memmove_in ?h ?e src d\<rparr>"
      using 1 by (simp add: hc'_def DCmove_history_def Let_def)
    moreover have "\<forall>p < ?H. (\<forall>j < d. p \<noteq> (src + g + j) mod ?H) \<longrightarrow> memmove_in ?h ?e src d ! p = ?h ! p"
    proof (intro allI impI)
      fix p assume p: "p < ?H" "\<forall>j < d. p \<noteq> (src + g + j) mod ?H"
      have "\<not> (?e \<le> p \<and> p < ?e + d)"
      proof
        assume in_dst: "?e \<le> p \<and> p < ?e + d"
        then have "p - ?e < d" by linarith
        with m p(2) have "p \<noteq> ?e + (p - ?e)" by metis
        with in_dst show False by simp
      qed
      then show "memmove_in ?h ?e src d ! p = ?h ! p" by (simp only: nth_memmove_in [OF assms(1) e p(1)] if_False)
    qed
    ultimately show ?thesis using e assms(1) m by (auto simp: nth_memmove_in)
  next
    case 2
    have m: "\<And>j. j < d \<Longrightarrow> (src + g + j) mod ?H = ?dst + j" using 2 by simp
    have "hc' = hc\<lparr>hc_history := memmove_in ?h ?dst src d\<rparr>"
      using 2 by (simp add: hc'_def DCmove_history_def Let_def)
    moreover have "\<forall>p < ?H. (\<forall>j < d. p \<noteq> (src + g + j) mod ?H) \<longrightarrow> memmove_in ?h ?dst src d ! p = ?h ! p"
    proof (intro allI impI)
      fix p assume p: "p < ?H" "\<forall>j < d. p \<noteq> (src + g + j) mod ?H"
      have "\<not> (?dst \<le> p \<and> p < ?dst + d)"
      proof
        assume in_dst: "?dst \<le> p \<and> p < ?dst + d"
        then have "p - ?dst < d" by linarith
        with m p(2) have "p \<noteq> ?dst + (p - ?dst)" by metis
        with in_dst show False by simp
      qed
      then show "memmove_in ?h ?dst src d ! p = ?h ! p" by (simp only: nth_memmove_in [OF assms(1) 2(2) p(1)] if_False)
    qed
    ultimately show ?thesis using 2 assms(1) m by (auto simp: nth_memmove_in)
  next
    case 3
    define d2 where "d2 = ?dst + d - ?H"
    define d1 where "d1 = d - d2"
    let ?h1 = "memmove_in ?h 0 (src + d1) d2"
    let ?h2 = "memmove_in ?h1 ?dst src d1"
    have ds: "d1 + d2 = d" "?dst + d1 = ?H" "d2 \<le> src" "src + d1 + d2 \<le> ?H"
      using 3 assms(1-3) by (auto simp: d1_def d2_def)
    have len: "length ?h1 = ?H" "length ?h2 = ?H" using ds by simp_all
    have h2: "?h2 ! i = (if ?dst \<le> i then ?h ! (src + (i - ?dst)) else if i < d2 then ?h ! (src + d1 + i) else ?h ! i)"
      if "i < ?H" for i
      using that ds len by (auto simp: nth_memmove_in)
    have eq: "hc' = hc\<lparr>hc_history := ?h2\<rparr>"
      using 3 by (simp add: hc'_def DCmove_history_def Let_def d1_def d2_def)
    have m: "(src + g + j) mod ?H = (if j < d1 then ?dst + j else j - d1)" if "j < d" for j
      using that ds 3 by (auto simp: mod_if)
    have "?h2 ! ((src + g + j) mod ?H) = ?h ! (src + j)" if "j < d" for j
      using that ds 3 by (subst h2) (auto simp: m)
    moreover have "?h2 ! p = ?h ! p" if "p < ?H" "\<forall>j < d. p \<noteq> (src + g + j) mod ?H" for p
    proof -
      have "\<not> ?dst \<le> p"
      proof
        assume le: "?dst \<le> p"
        then have lt: "p - ?dst < d1" using that(1) ds(2) by linarith
        then have "(src + g + (p - ?dst)) mod ?H = p" using m [of "p - ?dst"] ds(1) le by simp
        with that(2) lt ds(1) show False by (metis trans_less_add1)
      qed
      moreover have "\<not> p < d2"
      proof
        assume "p < d2"
        then have lt: "p + d1 < d" using ds(1) by linarith
        then have "(src + g + (p + d1)) mod ?H = p" using m [of "p + d1"] by simp
        with that(2) lt show False by metis
      qed
      ultimately show ?thesis using h2 [OF that(1)] by simp
    qed
    ultimately show ?thesis using eq len by blast
  qed
qed

text \<open>
  The invariant of the loop of \<open>DCvacuum_history\<close>: the \<open>n\<close> oldest entries are as they were, of the others the
  live ones \<open>L\<close> are kept in order, the first \<open>d\<close> of them still at their place, the others moved on by
  the gap.
\<close>

definition vac_inv ::
  "nat \<Rightarrow> nat \<Rightarrow> dc_history list \<Rightarrow> nat \<Rightarrow> nat \<Rightarrow> nat \<Rightarrow> nat \<Rightarrow> dc_history list \<Rightarrow> bool" where
  "vac_inv s m h0 n f g d h \<longleftrightarrow>
    (let H = length h0; L = filter live (map (\<lambda>i. h0 ! ((s + i) mod H)) [n..<m])
     in length h = H \<and> n \<le> m \<and> m \<le> H \<and> 0 < H \<and> f = (s + n) mod H \<and> f + d \<le> H \<and> g + length L = m - n \<and>
        d \<le> length L \<and> (g = 0 \<longrightarrow> d = 0) \<and>
        (\<forall>i < n. h ! ((s + i) mod H) = h0 ! ((s + i) mod H)) \<and>
        (\<forall>j < d. h ! (f + j) = L ! j) \<and>
        (\<forall>j. d \<le> j \<and> j < length L \<longrightarrow> h ! ((s + n + g + j) mod H) = L ! j))"

lemma vac_inv_move:
  assumes "vac_inv s m h0 n f g d (hc_history hc)"
  shows "\<exists>h'. DCmove_history f d g hc = hc\<lparr>hc_history := h'\<rparr> \<and> vac_inv s m h0 n f g 0 h'"
proof -
  define H where "H = length h0"
  define L where "L = filter live (map (\<lambda>i. h0 ! ((s + i) mod H)) [n..<m])"
  have inv: "length (hc_history hc) = H" "n \<le> m" "m \<le> H" "0 < H" "f = (s + n) mod H" "f + d \<le> H" "g + length L = m - n"
    "d \<le> length L" "\<forall>i < n. hc_history hc ! ((s + i) mod H) = h0 ! ((s + i) mod H)"
    "\<forall>j < d. hc_history hc ! (f + j) = L ! j"
    "\<forall>j. d \<le> j \<and> j < length L \<longrightarrow> hc_history hc ! ((s + n + g + j) mod H) = L ! j"
    using assms unfolding vac_inv_def Let_def H_def L_def by auto
  have "f + d \<le> hist_size hc" "g + d \<le> hist_size hc" "f < hist_size hc" using inv by simp_all
  from DCmove_history_result [OF this] obtain h' where h': "DCmove_history f d g hc = hc\<lparr>hc_history := h'\<rparr>"
    "length h' = H" "\<forall>j < d. h' ! ((f + g + j) mod H) = hc_history hc ! (f + j)"
    "\<forall>p < H. (\<forall>j < d. p \<noteq> (f + g + j) mod H) \<longrightarrow> h' ! p = hc_history hc ! p"
    using inv(1) by auto
  have pos: "(f + g + j) mod H = (s + (n + g + j)) mod H" for j
    unfolding inv(5) by (simp add: mod_add_left_eq add.assoc)
  have away: "h' ! ((s + i) mod H) = hc_history hc ! ((s + i) mod H)"
    if i: "i < m" "i < n \<or> n + g + d \<le> i" for i
  proof -
    have "(s + i) mod H \<noteq> (f + g + j) mod H" if j: "j < d" for j
    proof
      assume "(s + i) mod H = (f + g + j) mod H"
      then have "i = n + g + j" unfolding pos
        by (rule mod_add_cancel_lt) (use i j inv(3,7,8) in linarith)+
      with i j show False by simp
    qed
    then show ?thesis using h'(4) inv(4) by simp
  qed
  have "vac_inv s m h0 n f g 0 h'"
    unfolding vac_inv_def Let_def H_def [symmetric] L_def [symmetric]
  proof (intro conjI allI impI)
    show "h' ! ((s + i) mod H) = h0 ! ((s + i) mod H)" if "i < n" for i
      using that inv(2,9) away [of i] by simp
    show "h' ! ((s + n + g + j) mod H) = L ! j" if "0 \<le> j \<and> j < length L" for j
    proof (cases "j < d")
      case True
      then show ?thesis using h'(3) [rule_format, OF True] inv(10) unfolding pos by (simp add: add.assoc)
    next
      case False
      then show ?thesis using that inv(7,11) away [of "n + g + j"] by (simp add: add.assoc)
    qed
  qed (use inv h' in auto)
  with h'(1) show ?thesis by blast
qed

lemma vac_inv_step:
  assumes "vac_inv s m h0 (Suc n) f g d h" "f = 0 \<longrightarrow> d = 0"
  defines "f' \<equiv> (if f = 0 then length h0 else f) - 1"
  shows "f' < length h0" "dh_itemid (h ! f') = 0 \<Longrightarrow> d = 0 \<Longrightarrow> vac_inv s m h0 n f' (g + 1) 0 h"
    "dh_itemid (h ! f') \<noteq> 0 \<Longrightarrow> vac_inv s m h0 n f' g (if g = 0 then 0 else d + 1) h"
    "d \<noteq> 0 \<Longrightarrow> f' + 1 = f"
proof -
  define H where "H = length h0"
  define w where "w i = h0 ! ((s + i) mod H)" for i
  define L where "L = filter live (map w [Suc n..<m])"
  have inv: "length h = H" "Suc n \<le> m" "m \<le> H" "0 < H" "f = (s + Suc n) mod H" "f + d \<le> H"
    "g + length L = m - Suc n" "d \<le> length L" "g = 0 \<longrightarrow> d = 0" "\<forall>i < Suc n. h ! ((s + i) mod H) = w i"
    "\<forall>j < d. h ! (f + j) = L ! j" "\<forall>j. d \<le> j \<and> j < length L \<longrightarrow> h ! ((s + Suc n + g + j) mod H) = L ! j"
    using assms(1) unfolding vac_inv_def Let_def H_def L_def w_def by auto
  have f': "f' = (s + n) mod H"
    using inv(4,5) unfolding f'_def H_def by (auto simp: mod_Suc split: if_splits)
  show lt: "f' < length h0" using inv(4) f' by (simp add: H_def)
  have upt: "[n..<m] = n # [Suc n..<m]" using inv(2) by (simp add: upt_conv_Cons)
  have e: "h ! f' = w n" using inv(10) f' by simp
  show "d \<noteq> 0 \<Longrightarrow> f' + 1 = f" using assms(2) by (auto simp: f'_def)
  show "vac_inv s m h0 n f' (g + 1) 0 h" if "dh_itemid (h ! f') = 0" "d = 0"
  proof -
    have "filter live (map w [n..<m]) = L" using that(1) e by (simp add: upt L_def)
    then show ?thesis
      unfolding vac_inv_def Let_def H_def [symmetric] w_def [symmetric] using inv f' that(2) lt [folded H_def] by auto
  qed
  show "vac_inv s m h0 n f' g (if g = 0 then 0 else d + 1) h" if "dh_itemid (h ! f') \<noteq> 0"
  proof -
    have L': "filter live (map w [n..<m]) = w n # L" using that e by (simp add: upt L_def)
    have nth: "h ! ((s + n + g + j) mod H) = (w n # L) ! j" if "(if g = 0 then 0 else d + 1) \<le> j" "j < Suc (length L)" for j
      using that e f' inv(9,12) by (cases j) (auto split: if_splits)
    have blk: "h ! (f' + j) = (w n # L) ! j" if "j < (if g = 0 then 0 else d + 1)" for j
    proof (cases j)
      case (Suc k)
      with that have "k < d" by (auto split: if_splits)
      moreover from this have "f' + 1 = f" using assms(2) by (auto simp: f'_def)
      ultimately show ?thesis using Suc inv(11) by auto
    qed (simp add: e)
    have "f' + (if g = 0 then 0 else d + 1) \<le> H"
      using lt assms(2) inv(6) unfolding f'_def H_def by (auto split: if_splits)
    then show ?thesis
      unfolding vac_inv_def Let_def H_def [symmetric] w_def [symmetric] L' using inv f' nth blk by auto
  qed
qed

lemma vacuum_loop_result:
  assumes "vac_inv s m h0 n f g d (hc_history hc)" "f = 0 \<longrightarrow> d = 0"
  shows "\<exists>f' g' d' h'. vacuum_loop n f g d hc = (f', g', d', hc\<lparr>hc_history := h'\<rparr>) \<and> vac_inv s m h0 0 f' g' d' h'"
  using assms
proof (induction n arbitrary: f g d hc)
  case 0
  then show ?case by (intro exI [of _ f] exI [of _ g] exI [of _ d] exI [of _ "hc_history hc"]) simp
next
  case (Suc n)
  have len: "hist_size hc = length h0" using Suc.prems(1) by (simp add: vac_inv_def Let_def)
  define f' where "f' = (if f = 0 then length h0 else f) - 1"
  note step = vac_inv_step [OF Suc.prems, folded f'_def]
  have eq: "vacuum_loop (Suc n) f g d hc =
      (if dh_itemid (hc_history hc ! f') = 0 then
          (if d \<noteq> 0 then vacuum_loop n f' (g + 1) 0 (DCmove_history (f' + 1) d g hc)
           else vacuum_loop n f' (g + 1) d hc)
        else if g \<noteq> 0 then
          (if f' = 0 then vacuum_loop n f' g 0 (DCmove_history f' (d + 1) g hc)
           else vacuum_loop n f' g (d + 1) hc)
        else vacuum_loop n f' g d hc)"
    by (simp add: f'_def len Let_def)
  show ?case
  proof (cases "dh_itemid (hc_history hc ! f') = 0")
    case dead: True
    show ?thesis
    proof (cases "d = 0")
      case True
      with Suc.IH [OF step(2) [OF dead True]] show ?thesis unfolding eq using dead by simp
    next
      case False
      obtain h1 where h1: "DCmove_history (f' + 1) d g hc = hc\<lparr>hc_history := h1\<rparr>" "vac_inv s m h0 (Suc n) f g 0 h1"
        using vac_inv_move [OF Suc.prems(1)] step(4) [OF False] by auto
      have "dh_itemid (h1 ! f') = 0"
      proof -
        have "f' = (s + n) mod length h0" using vac_inv_step(1) [OF Suc.prems] Suc.prems(1)
          by (auto simp: f'_def vac_inv_def Let_def mod_Suc split: if_splits)
        then have "h1 ! f' = hc_history hc ! f'" using h1(2) Suc.prems(1) by (simp add: vac_inv_def Let_def)
        with dead show ?thesis by simp
      qed
      then have "vac_inv s m h0 n f' (g + 1) 0 h1" using vac_inv_step(2) [OF h1(2)] by (simp add: f'_def)
      with Suc.IH [of f' "g + 1" 0 "hc\<lparr>hc_history := h1\<rparr>"] show ?thesis
        unfolding eq using dead False by (simp add: h1(1) [unfolded Suc_eq_plus1 [symmetric]])
    qed
  next
    case alive: False
    note inv = step(3) [OF alive]
    show ?thesis
    proof (cases "g = 0")
      case True
      moreover have "d = 0" using Suc.prems(1) True by (simp add: vac_inv_def Let_def)
      ultimately show ?thesis unfolding eq using alive Suc.IH [of f' 0 0 hc] inv by simp
    next
      case g: False
      show ?thesis
      proof (cases "f' = 0")
        case True
        obtain h1 where h1: "DCmove_history f' (d + 1) g hc = hc\<lparr>hc_history := h1\<rparr>" "vac_inv s m h0 n f' g 0 h1"
          using vac_inv_move [of s m h0 n f' g "d + 1" hc] inv g by auto
        with Suc.IH [of f' g 0 "hc\<lparr>hc_history := h1\<rparr>"] show ?thesis unfolding eq using alive g True by simp
      next
        case False
        with Suc.IH [of f' g "d + 1" hc] inv show ?thesis unfolding eq using alive g by simp
      qed
    qed
  qed
qed

text \<open>What closing the gaps does to the ring.\<close>

lemma DCvacuum_history_result:
  assumes "ring_ok hc" "hc_gap_num hc = int (length (filter (\<lambda>h. \<not> live h) (window hc)))"
  shows "\<exists>h'. hc_gap_num hc \<le> int (hist_size hc div 100) \<and> DCvacuum_history hc = hc \<or>
    (DCvacuum_history hc = hc\<lparr>hc_history := h', hc_first := hc_first (DCvacuum_history hc),
        hc_num := hc_num (DCvacuum_history hc), hc_gap_num := 0\<rparr> \<and>
     length h' = hist_size hc \<and> ring_ok (DCvacuum_history hc) \<and>
     window (DCvacuum_history hc) = filter live (window hc))"
proof (cases "int (hist_size hc div 100) \<ge> hc_gap_num hc")
  case True
  then show ?thesis by (simp add: DCvacuum_history_def)
next
  case False
  let ?s = "hc_first hc" and ?m = "hc_num hc" and ?H = "hist_size hc"
  have ring: "?s < ?H" "?m \<le> ?H" using assms(1) by (simp_all add: ring_ok_def)
  define f0 where "f0 = (if ?H \<le> ?s + ?m then ?s + ?m - ?H else ?s + ?m)"
  have f0: "f0 = (?s + ?m) mod ?H" using ring by (auto simp: f0_def mod_if)
  have le: "(?s + ?m) mod ?H \<le> ?H" by (rule less_imp_le, rule mod_less_divisor) (use ring in linarith)
  have "vac_inv ?s ?m (hc_history hc) ?m f0 0 0 (hc_history hc)"
    unfolding vac_inv_def Let_def using ring f0 le by auto
  from vacuum_loop_result [OF this] obtain f g d h1 where loop: "vacuum_loop ?m f0 0 0 hc = (f, g, d, hc\<lparr>hc_history := h1\<rparr>)"
    "vac_inv ?s ?m (hc_history hc) 0 f g d h1" by auto
  obtain h2 where h2: "(if d \<noteq> 0 then DCmove_history f d g (hc\<lparr>hc_history := h1\<rparr>) else hc\<lparr>hc_history := h1\<rparr>) =
      hc\<lparr>hc_history := h2\<rparr>" "vac_inv ?s ?m (hc_history hc) 0 f g 0 h2"
    using vac_inv_move [of ?s ?m "hc_history hc" 0 f g d "hc\<lparr>hc_history := h1\<rparr>"] loop(2) by (cases "d = 0") auto
  let ?L = "filter live (window hc)"
  have L: "filter live (map (\<lambda>i. hc_history hc ! ((?s + i) mod ?H)) [0..<?m]) = ?L"
    by (simp add: window_def hist_pos_def)
  have inv: "length h2 = ?H" "g + length ?L = ?m" "\<forall>j < length ?L. h2 ! ((?s + g + j) mod ?H) = ?L ! j"
    using h2(2) unfolding vac_inv_def Let_def L by simp_all
  define first' where "first' = (if ?H \<le> ?s + g then ?s + g - ?H else ?s + g)"
  have first': "first' = (?s + g) mod ?H" using ring inv(2) by (auto simp: first'_def mod_if)
  have gap: "int g = hc_gap_num hc"
    using assms(2) inv(2) sum_length_filter_compl [of live "window hc"] by simp
  have eq: "DCvacuum_history hc = hc\<lparr>hc_history := h2, hc_first := first', hc_num := length ?L, hc_gap_num := 0\<rparr>"
    using False loop(1) h2(1) inv(1,2) gap
    by (simp add: DCvacuum_history_def Let_def first'_def flip: f0_def)
  moreover have "window (DCvacuum_history hc) = ?L"
    unfolding eq
    by (rule nth_equalityI) (use inv in \<open>simp_all add: hist_pos_def first' mod_add_left_eq\<close>)
  moreover have "ring_ok (DCvacuum_history hc)"
    unfolding eq using ring inv first'
    by (auto simp: ring_ok_def intro!: mod_less_divisor)
  ultimately show ?thesis using inv(1) by (intro exI [of _ h2] disjI2) simp
qed

end
