(* ===== verification/HistText.thy ===== *)
theory HistText
  imports HistCache
begin

text \<open>
  The invariant of the history cache and what it holds (\<^verbatim>\<open>libs/zbxdbcache/dbcache.c\<close>): the live entries of
  the ring with their texts are the \<open>queue\<close> of values to be written. Closing the gaps in the ring and closing
  up the texts keep both.
\<close>

subsection \<open>The texts\<close>

text \<open>The pointers of an entry into the text buffer, in the order in which their texts stand there.\<close>

definition entry_ptrs :: "dc_history \<Rightarrow> nat list" where
  "entry_ptrs h =
    (if dh_state h = ITEM_STATE_NOTSUPPORTED then [du_str (dh_value_orig h)]
     else (case dh_value_type h of
         ITEM_VALUE_TYPE_STR \<Rightarrow> [du_str (dh_value_orig h)]
       | ITEM_VALUE_TYPE_TEXT \<Rightarrow> [du_str (dh_value_orig h)]
       | ITEM_VALUE_TYPE_LOG \<Rightarrow>
           (if dh_value h \<noteq> Du_ui64 0 then [du_str (dh_value_orig h), du_str (dh_value h)]
            else [du_str (dh_value_orig h)])
       | _ \<Rightarrow> []))"

fun is_str :: "dc_union \<Rightarrow> bool" where
  "is_str (Du_str p) = True"
| "is_str _ = False"

definition entry_typed :: "dc_history \<Rightarrow> bool" where
  "entry_typed h \<longleftrightarrow> (entry_ptrs h \<noteq> [] \<longrightarrow> is_str (dh_value_orig h)) \<and>
    (length (entry_ptrs h) = 2 \<longrightarrow> is_str (dh_value h))"

text \<open>The texts stand one after the other from \<open>lo\<close> on, each with its terminating zero, and end before \<open>hi\<close>.\<close>

fun laid_out :: "u8 list \<Rightarrow> nat \<Rightarrow> nat list \<Rightarrow> nat \<Rightarrow> bool" where
  "laid_out buf lo [] hi \<longleftrightarrow> lo \<le> hi"
| "laid_out buf lo (p # ps) hi \<longleftrightarrow>
    lo \<le> p \<and> p + strlen_at buf p < length buf \<and> laid_out buf (p + strlen_at buf p + 1) ps hi"

text \<open>What an entry stands for: its members, without pointers and the run counter, and its texts.\<close>

fun no_ptr :: "dc_union \<Rightarrow> dc_union" where
  "no_ptr (Du_str p) = Du_str 0"
| "no_ptr u = u"

definition abs_entry :: "u8 list \<Rightarrow> dc_history \<Rightarrow> dc_history \<times> u8 list list" where
  "abs_entry buf h =
    (h\<lparr>dh_value_orig := no_ptr (dh_value_orig h), dh_value := no_ptr (dh_value h), dh_num := 0\<rparr>,
     map (str_at buf) (entry_ptrs h))"

lemma strlen_at_le: "p \<le> length buf \<Longrightarrow> p + strlen_at buf p \<le> length buf"
  unfolding strlen_at_def using length_takeWhile_le [of "\<lambda>c. c \<noteq> 0" "drop p buf"] by simp

lemma length_str_at: "length (str_at buf p) = strlen_at buf p"
  by (simp add: str_at_def strlen_at_def)

lemma laid_out_le: "laid_out buf lo ps hi \<Longrightarrow> lo \<le> hi"
  by (induction ps arbitrary: lo) fastforce+

text \<open>A terminated text depends only on its bytes.\<close>

lemma str_at_cong:
  assumes "p + strlen_at buf p < length buf" "q + strlen_at buf p < length buf'"
    "\<forall>i \<le> strlen_at buf p. buf' ! (q + i) = buf ! (p + i)"
  shows "str_at buf' q = str_at buf p" "strlen_at buf' q = strlen_at buf p"
proof -
  let ?n = "strlen_at buf p"
  have z: "buf ! (p + ?n) = 0"
    using assms(1) nth_length_takeWhile [of "\<lambda>c. c \<noteq> 0" "drop p buf"] by (simp add: strlen_at_def)
  have nz: "buf ! (p + i) \<noteq> 0" if "i < ?n" for i
  proof -
    have "takeWhile (\<lambda>c. c \<noteq> 0) (drop p buf) ! i = buf ! (p + i)"
      using that assms(1) by (simp add: strlen_at_def takeWhile_nth)
    moreover have "takeWhile (\<lambda>c. c \<noteq> 0) (drop p buf) ! i \<in> set (takeWhile (\<lambda>c. c \<noteq> 0) (drop p buf))"
      using that by (simp add: strlen_at_def)
    ultimately show ?thesis by (metis set_takeWhileD)
  qed
  have q: "drop q buf' = take ?n (drop p buf) @ 0 # drop (q + ?n + 1) buf'"
  proof (rule nth_equalityI)
    show "length (drop q buf') = length (take ?n (drop p buf) @ 0 # drop (q + ?n + 1) buf')"
      using assms(1,2) by simp
    fix i assume "i < length (drop q buf')"
    then show "drop q buf' ! i = (take ?n (drop p buf) @ 0 # drop (q + ?n + 1) buf') ! i"
      using assms z by (auto simp: nth_append min_def nth_Cons' not_less)
  qed
  have p: "take ?n (drop p buf) = takeWhile (\<lambda>c. c \<noteq> 0) (drop p buf)"
    by (simp add: strlen_at_def takeWhile_eq_take [symmetric])
  have all: "\<forall>x \<in> set (take ?n (drop p buf)). x \<noteq> 0" unfolding p by (auto dest: set_takeWhileD)
  have "takeWhile (\<lambda>c. c \<noteq> 0) (drop q buf') = take ?n (drop p buf)"
    unfolding q using all by (simp add: takeWhile_append2)
  then show "str_at buf' q = str_at buf p" unfolding p str_at_def .
  then show "strlen_at buf' q = strlen_at buf p" by (metis length_str_at)
qed

lemma laid_out_cong:
  assumes "laid_out buf lo ps hi" "\<forall>i. lo \<le> i \<and> i < hi \<longrightarrow> buf' ! i = buf ! i" "length buf' = length buf"
  shows "laid_out buf' lo ps hi \<and> map (str_at buf') ps = map (str_at buf) ps \<and>
    map (strlen_at buf') ps = map (strlen_at buf) ps"
  using assms(1,2)
proof (induction ps arbitrary: lo)
  case (Cons p ps)
  have hi: "p + strlen_at buf p + 1 \<le> hi" using Cons.prems(1) laid_out_le by fastforce
  then have "str_at buf' p = str_at buf p" "strlen_at buf' p = strlen_at buf p"
    using str_at_cong [of p buf p buf'] Cons.prems assms(3) by auto
  with Cons assms(3) show ?case by auto
qed simp

lemma laid_out_append: "laid_out buf lo ps mid \<Longrightarrow> laid_out buf mid qs hi \<Longrightarrow> laid_out buf lo (ps @ qs) hi"
proof (induction ps arbitrary: lo)
  case Nil
  then show ?case by (cases qs) auto
qed auto

lemma laid_out_lower: "laid_out buf lo ps hi \<Longrightarrow> lo' \<le> lo \<Longrightarrow> laid_out buf lo' ps hi"
  by (cases ps) auto

definition texts_len :: "u8 list \<Rightarrow> nat list \<Rightarrow> nat" where
  "texts_len buf ps = sum_list (map (\<lambda>p. strlen_at buf p + 1) ps)"

lemma texts_len_simps [simp]:
  "texts_len buf [] = 0" "texts_len buf (p # ps) = strlen_at buf p + 1 + texts_len buf ps"
  "texts_len buf (ps @ qs) = texts_len buf ps + texts_len buf qs"
  by (simp_all add: texts_len_def)

text \<open>Moving one text down to the end of the moved ones.\<close>

lemma DCmove_text_result:
  assumes "hc_last_text hc \<le> p" "p + strlen_at (hc_text hc) p < text_size hc"
  defines "sz \<equiv> strlen_at (hc_text hc) p + 1"
  shows "\<exists>buf'. DCmove_text p hc = (hc_last_text hc, hc\<lparr>hc_text := buf', hc_last_text := hc_last_text hc + sz\<rparr>) \<and>
    length buf' = text_size hc \<and> str_at buf' (hc_last_text hc) = str_at (hc_text hc) p \<and>
    strlen_at buf' (hc_last_text hc) = strlen_at (hc_text hc) p \<and>
    (\<forall>i < text_size hc. i < hc_last_text hc \<or> p + sz \<le> i \<longrightarrow> buf' ! i = hc_text hc ! i)"
proof (cases "hc_last_text hc = p")
  case True
  then show ?thesis by (intro exI [of _ "hc_text hc"]) (simp add: DCmove_text_def sz_def Let_def)
next
  case False
  let ?lt = "hc_last_text hc" and ?buf = "hc_text hc"
  let ?buf' = "memmove_in ?buf ?lt p sz"
  have len: "p + sz \<le> length ?buf" "?lt + sz \<le> length ?buf" using assms(1,2) by (simp_all add: sz_def)
  have nth: "?buf' ! i = (if ?lt \<le> i \<and> i < ?lt + sz then ?buf ! (p + (i - ?lt)) else ?buf ! i)" if "i < length ?buf" for i
    by (rule nth_memmove_in [OF len that])
  have same: "str_at ?buf' ?lt = str_at ?buf p" "strlen_at ?buf' ?lt = strlen_at ?buf p"
    using str_at_cong [of p ?buf ?lt ?buf'] nth len by (auto simp: sz_def)
  have out: "?buf' ! i = ?buf ! i" if "i < length ?buf" "i < ?lt \<or> p + sz \<le> i" for i
    using that nth [of i] assms(1) by auto
  have "DCmove_text p hc = (?lt, hc\<lparr>hc_text := ?buf', hc_last_text := ?lt + sz\<rparr>)"
    using False by (simp add: DCmove_text_def sz_def Let_def)
  with same out len show ?thesis by (intro exI [of _ ?buf']) simp
qed

lemma moved_text:
  assumes "laid_out (hc_text hc) (hc_last_text hc) (p # rest) hi" "hi \<le> text_size hc"
  obtains buf' where
    "DCmove_text p hc = (hc_last_text hc, hc\<lparr>hc_text := buf', hc_last_text := hc_last_text hc + strlen_at (hc_text hc) p + 1\<rparr>)"
    "length buf' = text_size hc" "str_at buf' (hc_last_text hc) = str_at (hc_text hc) p"
    "strlen_at buf' (hc_last_text hc) = strlen_at (hc_text hc) p"
    "hc_last_text hc + strlen_at (hc_text hc) p < text_size hc"
    "laid_out buf' (hc_last_text hc + strlen_at (hc_text hc) p + 1) rest hi"
    "map (str_at buf') rest = map (str_at (hc_text hc)) rest"
    "map (strlen_at buf') rest = map (strlen_at (hc_text hc)) rest"
    "\<forall>i < hc_last_text hc. buf' ! i = hc_text hc ! i"
proof -
  let ?lt = "hc_last_text hc" and ?n = "strlen_at (hc_text hc) p"
  have p: "?lt \<le> p" "p + ?n < text_size hc" "laid_out (hc_text hc) (p + ?n + 1) rest hi" using assms(1) by simp_all
  from DCmove_text_result [OF p(1,2)] obtain buf' where b: "DCmove_text p hc = (?lt, hc\<lparr>hc_text := buf', hc_last_text := ?lt + (?n + 1)\<rparr>)"
    "length buf' = text_size hc" "str_at buf' ?lt = str_at (hc_text hc) p" "strlen_at buf' ?lt = ?n"
    "\<forall>i < text_size hc. i < ?lt \<or> p + (?n + 1) \<le> i \<longrightarrow> buf' ! i = hc_text hc ! i" by blast
  have "laid_out buf' (p + ?n + 1) rest hi \<and> map (str_at buf') rest = map (str_at (hc_text hc)) rest \<and>
      map (strlen_at buf') rest = map (strlen_at (hc_text hc)) rest"
    by (rule laid_out_cong [OF p(3) _ b(2)]) (use b(5) assms(2) in auto)
  then show thesis using b p(1,2) laid_out_lower [of buf' "p + ?n + 1" rest hi "?lt + ?n + 1"]
    by (intro that [of buf']) auto
qed

lemma vacuum_entry_result:
  assumes "f < hist_size hc" "entry_typed (hc_history hc ! f)" "hi \<le> text_size hc"
    "laid_out (hc_text hc) (hc_last_text hc) (entry_ptrs (hc_history hc ! f) @ rest) hi"
  obtains e' buf' lt' where
    "vacuum_entry f hc = hc\<lparr>hc_history := (hc_history hc)[f := e'], hc_text := buf', hc_last_text := lt'\<rparr>"
    "length buf' = text_size hc" "abs_entry buf' e' = abs_entry (hc_text hc) (hc_history hc ! f)"
    "dh_num e' = dh_num (hc_history hc ! f)" "entry_typed e'" "laid_out buf' (hc_last_text hc) (entry_ptrs e') lt'"
    "laid_out buf' lt' rest hi" "map (str_at buf') rest = map (str_at (hc_text hc)) rest"
    "map (strlen_at buf') rest = map (strlen_at (hc_text hc)) rest"
    "\<forall>i < hc_last_text hc. buf' ! i = hc_text hc ! i"
    "lt' = hc_last_text hc + texts_len (hc_text hc) (entry_ptrs (hc_history hc ! f))"
proof -
  let ?e = "hc_history hc ! f" and ?lt = "hc_last_text hc" and ?buf = "hc_text hc"
  let ?p = "du_str (dh_value_orig ?e)"
  consider (none) "entry_ptrs ?e = []" "vacuum_entry f hc = hc"
    | (one) "entry_ptrs ?e = [?p]" "vacuum_entry f hc = move_orig f hc"
        "dh_state ?e = ITEM_STATE_NOTSUPPORTED \<or> dh_value_type ?e \<noteq> ITEM_VALUE_TYPE_LOG \<or> dh_value ?e = Du_ui64 0"
    | (two) "dh_state ?e \<noteq> ITEM_STATE_NOTSUPPORTED" "dh_value_type ?e = ITEM_VALUE_TYPE_LOG" "dh_value ?e \<noteq> Du_ui64 0"
        "entry_ptrs ?e = [?p, du_str (dh_value ?e)]" "vacuum_entry f hc = move_source f (move_orig f hc)"
    by (cases "dh_state ?e = ITEM_STATE_NOTSUPPORTED"; cases "dh_value_type ?e"; cases "dh_value ?e = Du_ui64 0")
      (auto simp: entry_ptrs_def vacuum_entry_def Let_def)
  then show thesis
  proof cases
    case none
    then show thesis using assms by (intro that [where e' = ?e and buf' = ?buf and lt' = ?lt]) simp_all
  next
    case one
    then have "laid_out ?buf ?lt (?p # rest) hi" using assms(4) by simp
    from moved_text [OF this assms(3)] obtain buf' where b:
      "DCmove_text ?p hc = (?lt, hc\<lparr>hc_text := buf', hc_last_text := ?lt + strlen_at ?buf ?p + 1\<rparr>)"
      "length buf' = text_size hc" "str_at buf' ?lt = str_at ?buf ?p" "strlen_at buf' ?lt = strlen_at ?buf ?p"
      "?lt + strlen_at ?buf ?p < text_size hc" "laid_out buf' (?lt + strlen_at ?buf ?p + 1) rest hi"
      "map (str_at buf') rest = map (str_at ?buf) rest" "map (strlen_at buf') rest = map (strlen_at ?buf) rest"
      "\<forall>i < ?lt. buf' ! i = ?buf ! i" by blast
    let ?e' = "?e\<lparr>dh_value_orig := Du_str ?lt\<rparr>"
    have ptrs: "entry_ptrs ?e' = [?lt]"
      using one by (cases "dh_value_type ?e") (auto simp: entry_ptrs_def split: if_splits)
    obtain q where q: "dh_value_orig ?e = Du_str q"
      using assms(2) one(1) by (cases "dh_value_orig ?e") (auto simp: entry_typed_def)
    have "vacuum_entry f hc = hc\<lparr>hc_history := (hc_history hc)[f := ?e'], hc_text := buf', hc_last_text := ?lt + strlen_at ?buf ?p + 1\<rparr>"
      by (simp add: one(2) move_orig_def b(1) upd_entry_def)
    then show thesis
      by (rule that) (use b one(1) ptrs q in \<open>simp_all add: abs_entry_def entry_typed_def\<close>)
  next
    case two
    let ?q = "du_str (dh_value ?e)"
    have "laid_out ?buf ?lt (?p # ?q # rest) hi" using assms(4) two(4) by simp
    from moved_text [OF this assms(3)] obtain buf1 where b:
      "DCmove_text ?p hc = (?lt, hc\<lparr>hc_text := buf1, hc_last_text := ?lt + strlen_at ?buf ?p + 1\<rparr>)"
      "length buf1 = text_size hc" "str_at buf1 ?lt = str_at ?buf ?p" "strlen_at buf1 ?lt = strlen_at ?buf ?p"
      "?lt + strlen_at ?buf ?p < text_size hc" "laid_out buf1 (?lt + strlen_at ?buf ?p + 1) (?q # rest) hi"
      "map (str_at buf1) (?q # rest) = map (str_at ?buf) (?q # rest)"
      "map (strlen_at buf1) (?q # rest) = map (strlen_at ?buf) (?q # rest)"
      "\<forall>i < ?lt. buf1 ! i = ?buf ! i" by blast
    let ?e1 = "?e\<lparr>dh_value_orig := Du_str ?lt\<rparr>" and ?lt1 = "?lt + strlen_at ?buf ?p + 1"
    let ?hc1 = "hc\<lparr>hc_history := (hc_history hc)[f := ?e1], hc_text := buf1, hc_last_text := ?lt1\<rparr>"
    have hc1: "move_orig f hc = ?hc1" by (simp add: move_orig_def b(1) upd_entry_def)
    have "laid_out (hc_text ?hc1) (hc_last_text ?hc1) (?q # rest) hi" "hi \<le> text_size ?hc1" using b(2,6) assms(3) by simp_all
    from moved_text [OF this] obtain buf' where b':
      "DCmove_text ?q ?hc1 = (?lt1, ?hc1\<lparr>hc_text := buf', hc_last_text := ?lt1 + strlen_at buf1 ?q + 1\<rparr>)"
      "length buf' = text_size hc" "str_at buf' ?lt1 = str_at buf1 ?q" "strlen_at buf' ?lt1 = strlen_at buf1 ?q"
      "?lt1 + strlen_at buf1 ?q < text_size hc" "laid_out buf' (?lt1 + strlen_at buf1 ?q + 1) rest hi"
      "map (str_at buf') rest = map (str_at buf1) rest" "map (strlen_at buf') rest = map (strlen_at buf1) rest"
      "\<forall>i < ?lt1. buf' ! i = buf1 ! i" using b(2) by auto
    let ?e' = "?e1\<lparr>dh_value := Du_str ?lt1\<rparr>"
    have ptrs: "entry_ptrs ?e' = [?lt, ?lt1]" using two by (simp add: entry_ptrs_def)
    have strs: "is_str (dh_value_orig ?e)" "is_str (dh_value ?e)" using assms(2) two(4) by (simp_all add: entry_typed_def)
    then have np: "no_ptr (dh_value_orig ?e) = Du_str 0" "no_ptr (dh_value ?e) = Du_str 0"
      by (cases "dh_value_orig ?e"; simp; cases "dh_value ?e"; simp)+
    have keep: "str_at buf' ?lt = str_at buf1 ?lt" "strlen_at buf' ?lt = strlen_at buf1 ?lt"
      using str_at_cong [of ?lt buf1 ?lt buf'] b(2,4,5) b'(2,9) by simp_all
    have src: "du_str (dh_value (hc_history ?hc1 ! f)) = ?q" using assms(1) by simp
    have "vacuum_entry f hc = hc\<lparr>hc_history := (hc_history hc)[f := ?e'], hc_text := buf', hc_last_text := ?lt1 + strlen_at buf1 ?q + 1\<rparr>"
      unfolding two(5) hc1 move_source_def src b'(1) Let_def prod.case upd_entry_def using assms(1) by simp
    then show thesis
      by (rule that) (use b b' two(4) ptrs np keep in \<open>simp_all add: abs_entry_def entry_typed_def\<close>)
  qed
qed

subsection \<open>The invariant\<close>

text \<open>
  The run counter of an entry says how many entries from it on are known to have its item identifier.
\<close>

fun run_ok :: "dc_history list \<Rightarrow> bool" where
  "run_ok [] \<longleftrightarrow> True"
| "run_ok (h # hs) \<longleftrightarrow> 1 \<le> dh_num h \<and> dh_num h \<le> length (h # hs) \<and>
    (\<forall>x \<in> set (take (dh_num h) (h # hs)). dh_itemid x = dh_itemid h) \<and> run_ok hs"

abbreviation texts_of :: "dc_history list \<Rightarrow> nat list" where "texts_of hs \<equiv> concat (map entry_ptrs hs)"

definition hist_ok :: "dc_cache \<Rightarrow> bool" where
  "hist_ok hc \<longleftrightarrow> ring_ok hc \<and> hc_gap_num hc = int (length (filter (\<lambda>h. \<not> live h) (window hc))) \<and>
    (\<forall>h \<in> set (window hc). entry_typed h) \<and> run_ok (window hc) \<and>
    laid_out (hc_text hc) 0 (texts_of (window hc)) (hc_last_text hc) \<and> hc_last_text hc \<le> text_size hc \<and>
    hc_text_free hc = int (text_size hc) - int (texts_len (hc_text hc) (texts_of (filter live (window hc))))"

text \<open>The members that neither entries nor texts touch.\<close>

definition hist_rest :: "dc_cache \<Rightarrow> dc_stats \<times> u64 list \<times> nat \<times> zbx_timespec \<times> nat" where
  "hist_rest hc = (hc_stats hc, hc_itemids hc, hc_itemids_alloc hc, hc_last_ts hc, hc_waits hc)"

text \<open>What waits in the cache to be written: the live entries, oldest first.\<close>

definition queue :: "dc_cache \<Rightarrow> (dc_history \<times> u8 list list) list" where
  "queue hc = map (abs_entry (hc_text hc)) (filter live (window hc))"

lemma take_filter_all:
  "\<forall>x \<in> set (take n xs). P x \<Longrightarrow> n \<le> length xs \<Longrightarrow> take n (filter P xs) = take n xs \<and> n \<le> length (filter P xs)"
proof -
  assume a: "\<forall>x \<in> set (take n xs). P x" "n \<le> length xs"
  have "filter P xs = filter P (take n xs @ drop n xs)" by simp
  also have "\<dots> = take n xs @ filter P (drop n xs)" using a(1) by (simp del: append_take_drop_id)
  finally show ?thesis using a(2) by simp
qed

lemma run_ok_filter: "run_ok hs \<Longrightarrow> run_ok (filter live hs)"
proof (induction hs)
  case (Cons h hs)
  show ?case
  proof (cases "live h")
    case True
    then have "\<forall>x \<in> set (take (dh_num h) (h # hs)). live x" using Cons.prems by auto
    from take_filter_all [OF this] Cons True show ?thesis by (auto simp del: take_Cons)
  qed (use Cons in simp)
qed simp

lemma run_ok_snoc: "run_ok hs \<Longrightarrow> dh_num h = 1 \<Longrightarrow> run_ok (hs @ [h])"
proof (induction hs)
  case (Cons x hs)
  then have "take (dh_num x) ((x # hs) @ [h]) = take (dh_num x) (x # hs)" by (subst take_append) simp
  with Cons show ?case by (simp del: take_Cons)
qed simp

lemma run_ok_drop: "run_ok hs \<Longrightarrow> run_ok (drop n hs)"
  by (induction hs arbitrary: n) (auto simp: drop_Cons split: nat.split)

lemma run_ok_cong:
  "map dh_num gs = map dh_num hs \<Longrightarrow> map dh_itemid gs = map dh_itemid hs \<Longrightarrow> run_ok gs \<longleftrightarrow> run_ok hs"
proof (induction hs arbitrary: gs)
  case (Cons h hs)
  then obtain g gs' where gs: "gs = g # gs'" "dh_num g = dh_num h" "dh_itemid g = dh_itemid h"
    "map dh_num gs' = map dh_num hs" "map dh_itemid gs' = map dh_itemid hs" by (cases gs) auto
  have "(\<forall>x \<in> set (take n (g # gs')). dh_itemid x = a) \<longleftrightarrow> (\<forall>x \<in> set (take n (h # hs)). dh_itemid x = a)" for n a
  proof -
    have "map dh_itemid (take n (g # gs')) = map dh_itemid (take n (h # hs))"
      using gs by (simp add: take_map [symmetric] del: take_Cons)
    then have "(\<forall>y \<in> set (map dh_itemid (take n (g # gs'))). y = a) \<longleftrightarrow>
        (\<forall>y \<in> set (map dh_itemid (take n (h # hs))). y = a)" by (simp only:)
    then show ?thesis by (simp del: take_Cons)
  qed
  moreover have "length gs' = length hs" using gs(4) map_eq_imp_length_eq by blast
  ultimately show ?case using gs Cons.IH [OF gs(4,5)] by (simp del: take_Cons)
qed simp

lemma texts_len_cong:
  "map (strlen_at buf') ps = map (strlen_at buf) ps \<Longrightarrow> texts_len buf' ps = texts_len buf ps"
  unfolding texts_len_def by (intro arg_cong [where f = sum_list] map_cong refl) simp

lemma abs_entry_facts:
  assumes "abs_entry buf' e' = abs_entry buf e"
  shows "dh_itemid e' = dh_itemid e" "texts_len buf' (entry_ptrs e') = texts_len buf (entry_ptrs e)"
proof -
  have e: "dh_itemid (fst (abs_entry buf' e')) = dh_itemid (fst (abs_entry buf e))"
    "map length (snd (abs_entry buf' e')) = map length (snd (abs_entry buf e))" using assms by simp_all
  from e(1) show "dh_itemid e' = dh_itemid e" by (simp add: abs_entry_def)
  from e(2) have "map (strlen_at buf') (entry_ptrs e') = map (strlen_at buf) (entry_ptrs e)"
    by (simp add: abs_entry_def comp_def length_str_at)
  then have "map (\<lambda>n. n + 1) (map (strlen_at buf') (entry_ptrs e')) = map (\<lambda>n. n + 1) (map (strlen_at buf) (entry_ptrs e))"
    by (rule arg_cong)
  then show "texts_len buf' (entry_ptrs e') = texts_len buf (entry_ptrs e)" by (simp only: texts_len_def map_map comp_def)
qed

lemma hist_pos_inj:
  assumes "ring_ok hc" "i < hc_num hc" "j < hc_num hc" "hist_pos hc i = hist_pos hc j"
  shows "i = j"
  using assms mod_add_cancel_lt [of "hc_first hc" i "hist_size hc" j] by (simp add: ring_ok_def hist_pos_def)

lemma hist_pos_less: "ring_ok hc \<Longrightarrow> hist_pos hc i < hist_size hc"
  by (auto simp: ring_ok_def hist_pos_def intro!: mod_less_divisor)

lemma window_update:
  assumes "ring_ok hc" "i < hc_num hc"
  shows "window (hc\<lparr>hc_history := (hc_history hc)[hist_pos hc i := e]\<rparr>) = (window hc)[i := e]"
proof (rule nth_equalityI)
  fix j assume "j < length (window (hc\<lparr>hc_history := (hc_history hc)[hist_pos hc i := e]\<rparr>))"
  then have j: "j < hc_num hc" by simp
  with assms hist_pos_inj [OF assms(1,2) j] hist_pos_less [OF assms(1)]
  show "window (hc\<lparr>hc_history := (hc_history hc)[hist_pos hc i := e]\<rparr>) ! j = (window hc)[i := e] ! j"
    by (auto simp: nth_list_update hist_pos_def)
qed simp

lemma window_frame [simp]:
  "window (hc\<lparr>hc_text := t\<rparr>) = window hc" "window (hc\<lparr>hc_last_text := l\<rparr>) = window hc"
  "window (hc\<lparr>hc_text_free := x\<rparr>) = window hc" "window (hc\<lparr>hc_stats := st\<rparr>) = window hc"
  "window (hc\<lparr>hc_itemids := ids\<rparr>) = window hc" "window (hc\<lparr>hc_last_ts := ts\<rparr>) = window hc"
  "window (hc\<lparr>hc_waits := k\<rparr>) = window hc" "window (hc\<lparr>hc_gap_num := g\<rparr>) = window hc"
  "window (hc\<lparr>hc_itemids_alloc := a\<rparr>) = window hc"
  by (simp_all add: window_def hist_pos_def)

lemma vacuum_text_loop_result:
  assumes "ring_ok hc" "i + n = hc_num hc" "f = hist_pos hc i \<or> (f = hist_size hc \<and> hist_pos hc i = 0)"
    "laid_out (hc_text hc) (hc_last_text hc) (texts_of (drop i (window hc))) hi" "hi \<le> text_size hc"
    "\<forall>h \<in> set (window hc). entry_typed h"
  shows "\<exists>h' buf' lt' es'. vacuum_text_loop n f hc = hc\<lparr>hc_history := h', hc_text := buf', hc_last_text := lt'\<rparr> \<and>
    length h' = hist_size hc \<and> length buf' = text_size hc \<and>
    window (vacuum_text_loop n f hc) = take i (window hc) @ es' \<and>
    map (abs_entry buf') es' = map (abs_entry (hc_text hc)) (drop i (window hc)) \<and>
    map dh_num es' = map dh_num (drop i (window hc)) \<and> (\<forall>h \<in> set es'. entry_typed h) \<and>
    laid_out buf' (hc_last_text hc) (texts_of es') lt' \<and> (\<forall>j < hc_last_text hc. buf' ! j = hc_text hc ! j) \<and>
    lt' = hc_last_text hc + texts_len (hc_text hc) (texts_of (drop i (window hc))) \<and> lt' \<le> hi"
  using assms
proof (induction n arbitrary: i f hc)
  case 0
  then show ?case
    by (intro exI [of _ "hc_history hc"], intro exI [of _ "hc_text hc"], intro exI [of _ "hc_last_text hc"],
      intro exI [of _ "[]"]) simp
next
  case (Suc n)
  let ?p = "hist_pos hc i" and ?w = "window hc" and ?buf = "hc_text hc" and ?lt = "hc_last_text hc"
  have i: "i < hc_num hc" using Suc.prems(2) by simp
  have plt: "?p < hist_size hc" using hist_pos_less [OF Suc.prems(1)] .
  have dr: "drop i ?w = hc_history hc ! ?p # drop (Suc i) ?w"
    using i by (simp add: Cons_nth_drop_Suc [symmetric])
  have "hc_history hc ! ?p \<in> set ?w" using i nth_mem [of i ?w] by simp
  then have typed: "entry_typed (hc_history hc ! ?p)" using Suc.prems(6) by blast
  have lay: "laid_out ?buf ?lt (entry_ptrs (hc_history hc ! ?p) @ texts_of (drop (Suc i) ?w)) hi"
    using Suc.prems(4) dr by simp
  obtain e' buf1 lt1 where v:
    "vacuum_entry ?p hc = hc\<lparr>hc_history := (hc_history hc)[?p := e'], hc_text := buf1, hc_last_text := lt1\<rparr>"
    "length buf1 = text_size hc" "abs_entry buf1 e' = abs_entry ?buf (hc_history hc ! ?p)"
    "dh_num e' = dh_num (hc_history hc ! ?p)" "entry_typed e'" "laid_out buf1 ?lt (entry_ptrs e') lt1"
    "laid_out buf1 lt1 (texts_of (drop (Suc i) ?w)) hi"
    "map (str_at buf1) (texts_of (drop (Suc i) ?w)) = map (str_at ?buf) (texts_of (drop (Suc i) ?w))"
    "map (strlen_at buf1) (texts_of (drop (Suc i) ?w)) = map (strlen_at ?buf) (texts_of (drop (Suc i) ?w))"
    "\<forall>i < ?lt. buf1 ! i = ?buf ! i" "lt1 = ?lt + texts_len ?buf (entry_ptrs (hc_history hc ! ?p))"
    by (rule vacuum_entry_result [OF plt typed Suc.prems(5) lay]) blast
  define hc1 where "hc1 = hc\<lparr>hc_history := (hc_history hc)[?p := e'], hc_text := buf1, hc_last_text := lt1\<rparr>"
  have eq: "vacuum_text_loop (Suc n) f hc = vacuum_text_loop n (?p + 1) hc1"
    using Suc.prems(3) plt v(1) by (auto simp: hc1_def Let_def)
  have w1: "window hc1 = ?w[i := e']" using window_update [OF Suc.prems(1) i, of e'] by (simp add: hc1_def)
  have dr1: "drop (Suc i) (window hc1) = drop (Suc i) ?w" unfolding w1 by simp
  have ring1: "ring_ok hc1" using Suc.prems(1) by (simp add: ring_ok_def hc1_def)
  have pos1: "?p + 1 = hist_pos hc1 (Suc i) \<or> ?p + 1 = hist_size hc1 \<and> hist_pos hc1 (Suc i) = 0"
    by (auto simp: hc1_def hist_pos_def mod_Suc)
  have "\<forall>h \<in> set (window hc1). entry_typed h" using Suc.prems(6) v(5) unfolding w1 by (auto dest: set_update_subset_insert [THEN subsetD])
  with Suc.IH [OF ring1 _ pos1, of ] Suc.prems(2,5) v(2,7) have "\<exists>h' buf' lt' es'.
    vacuum_text_loop n (?p + 1) hc1 = hc1\<lparr>hc_history := h', hc_text := buf', hc_last_text := lt'\<rparr> \<and>
    length h' = hist_size hc1 \<and> length buf' = text_size hc1 \<and>
    window (vacuum_text_loop n (?p + 1) hc1) = take (Suc i) (window hc1) @ es' \<and>
    map (abs_entry buf') es' = map (abs_entry (hc_text hc1)) (drop (Suc i) (window hc1)) \<and>
    map dh_num es' = map dh_num (drop (Suc i) (window hc1)) \<and> (\<forall>h \<in> set es'. entry_typed h) \<and>
    laid_out buf' (hc_last_text hc1) (texts_of es') lt' \<and> (\<forall>j < hc_last_text hc1. buf' ! j = hc_text hc1 ! j) \<and>
    lt' = hc_last_text hc1 + texts_len (hc_text hc1) (texts_of (drop (Suc i) (window hc1))) \<and> lt' \<le> hi"
    unfolding dr1 by (simp add: hc1_def)
  then obtain h' buf' lt' es' where IH:
    "vacuum_text_loop n (?p + 1) hc1 = hc1\<lparr>hc_history := h', hc_text := buf', hc_last_text := lt'\<rparr>"
    "length h' = hist_size hc" "length buf' = text_size hc"
    "window (vacuum_text_loop n (?p + 1) hc1) = take (Suc i) (window hc1) @ es'"
    "map (abs_entry buf') es' = map (abs_entry buf1) (drop (Suc i) ?w)"
    "map dh_num es' = map dh_num (drop (Suc i) ?w)" "\<forall>h \<in> set es'. entry_typed h"
    "laid_out buf' lt1 (texts_of es') lt'" "\<forall>j < lt1. buf' ! j = buf1 ! j"
    "lt' = lt1 + texts_len buf1 (texts_of (drop (Suc i) ?w))" "lt' \<le> hi"
    unfolding dr1 by (auto simp: hc1_def v(2))
  have e'': "laid_out buf' ?lt (entry_ptrs e') lt1 \<and> map (str_at buf') (entry_ptrs e') = map (str_at buf1) (entry_ptrs e') \<and>
      map (strlen_at buf') (entry_ptrs e') = map (strlen_at buf1) (entry_ptrs e')"
    by (rule laid_out_cong [OF v(6)]) (use IH(3,9) v(2) in auto)
  have abs_e: "abs_entry buf' e' = abs_entry ?buf (hc_history hc ! ?p)"
    using v(3) e'' by (simp add: abs_entry_def)
  have abs_rest: "map (abs_entry buf1) (drop (Suc i) ?w) = map (abs_entry ?buf) (drop (Suc i) ?w)"
    using v(8) by (auto simp: abs_entry_def)
  have takeS: "take (Suc i) (window hc1) = take i ?w @ [e']"
    using i unfolding w1 by (simp add: take_Suc_conv_app_nth)
  show ?case
  proof (rule exI [of _ h'], rule exI [of _ buf'], rule exI [of _ lt'], rule exI [of _ "e' # es'"], intro conjI)
    show "vacuum_text_loop (Suc n) f hc = hc\<lparr>hc_history := h', hc_text := buf', hc_last_text := lt'\<rparr>"
      unfolding eq IH(1) by (simp add: hc1_def)
    show "window (vacuum_text_loop (Suc n) f hc) = take i ?w @ e' # es'" unfolding eq IH(4) takeS by simp
    show "map (abs_entry buf') (e' # es') = map (abs_entry ?buf) (drop i ?w)"
      using abs_e IH(5) abs_rest dr by simp
    show "map dh_num (e' # es') = map dh_num (drop i ?w)" using v(4) IH(6) dr by simp
    show "laid_out buf' ?lt (texts_of (e' # es')) lt'" using laid_out_append [OF conjunct1 [OF e''] IH(8)] by simp
    show "\<forall>j < ?lt. buf' ! j = ?buf ! j" using IH(9) v(10,11) by auto
    show "lt' = ?lt + texts_len ?buf (texts_of (drop i ?w))"
      using IH(10) v(11) texts_len_cong [OF v(9)] dr by simp
  qed (use IH v(5) in simp_all)
qed

lemma texts_of_abs:
  "map (abs_entry buf') es' = map (abs_entry buf) es \<Longrightarrow> texts_len buf' (texts_of es') = texts_len buf (texts_of es)"
proof (induction es arbitrary: es')
  case (Cons e es)
  then obtain x xs where x: "es' = x # xs" "abs_entry buf' x = abs_entry buf e" "map (abs_entry buf') xs = map (abs_entry buf) es"
    unfolding list.map map_eq_Cons_conv by blast
  from Cons.IH [OF x(3)] abs_entry_facts(2) [OF x(2)] show ?case unfolding x(1) by simp
qed simp

lemma map_filter_live_abs:
  "map (abs_entry buf') es' = map (abs_entry buf) es \<Longrightarrow>
   map (abs_entry buf') (filter live es') = map (abs_entry buf) (filter live es) \<and>
   length (filter (\<lambda>h. \<not> live h) es') = length (filter (\<lambda>h. \<not> live h) es)"
proof (induction es arbitrary: es')
  case (Cons e es)
  then obtain x xs where x: "es' = x # xs" "abs_entry buf' x = abs_entry buf e" "map (abs_entry buf') xs = map (abs_entry buf) es"
    unfolding list.map map_eq_Cons_conv by blast
  from Cons.IH [OF x(3)] abs_entry_facts(1) [OF x(2)] x(2) show ?case unfolding x(1) by simp
qed simp

lemma laid_out_filter:
  "laid_out buf lo (texts_of hs) hi \<Longrightarrow> laid_out buf lo (texts_of (filter P hs)) hi"
proof (induction hs arbitrary: lo)
  case (Cons h hs)
  have split: "\<exists>mid \<ge> lo. laid_out buf lo ps mid \<and> laid_out buf mid qs hi" if "laid_out buf lo (ps @ qs) hi" for ps qs lo
    using that
  proof (induction ps arbitrary: lo)
    case (Cons p ps)
    then obtain mid where "p + strlen_at buf p + 1 \<le> mid" "laid_out buf (p + strlen_at buf p + 1) ps mid" "laid_out buf mid qs hi"
      by auto
    with Cons.prems show ?case by (intro exI [of _ mid]) auto
  qed auto
  from split [of lo "entry_ptrs h" "texts_of hs"] Cons.prems obtain mid where
    "lo \<le> mid" "laid_out buf lo (entry_ptrs h) mid" "laid_out buf mid (texts_of hs) hi" by auto
  with Cons.IH laid_out_append laid_out_lower show ?case by (cases "P h") auto
qed simp

text \<open>Closing gaps changes neither the queue nor the invariant.\<close>

lemma DCvacuum_history_ok:
  assumes "hist_ok hc"
  shows "hist_ok (DCvacuum_history hc) \<and> queue (DCvacuum_history hc) = queue hc \<and>
    hc_text (DCvacuum_history hc) = hc_text hc \<and> hc_last_text (DCvacuum_history hc) = hc_last_text hc \<and>
    hist_size (DCvacuum_history hc) = hist_size hc \<and> hist_rest (DCvacuum_history hc) = hist_rest hc \<and>
    (int (hist_size hc div 100) < hc_gap_num hc \<longrightarrow> hc_num (DCvacuum_history hc) = length (queue hc))"
proof -
  note ok = assms [unfolded hist_ok_def]
  from DCvacuum_history_result [of hc] ok consider "hc_gap_num hc \<le> int (hist_size hc div 100)" "DCvacuum_history hc = hc"
    | h' where "DCvacuum_history hc = hc\<lparr>hc_history := h', hc_first := hc_first (DCvacuum_history hc),
        hc_num := hc_num (DCvacuum_history hc), hc_gap_num := 0\<rparr>" "length h' = hist_size hc"
        "ring_ok (DCvacuum_history hc)" "window (DCvacuum_history hc) = filter live (window hc)" by blast
  then show ?thesis
  proof cases
    case 1
    with assms show ?thesis by simp
  next
    case 2
    have f: "hc_text (DCvacuum_history hc) = hc_text hc" "hc_last_text (DCvacuum_history hc) = hc_last_text hc"
      "hc_gap_num (DCvacuum_history hc) = 0" "hc_text_free (DCvacuum_history hc) = hc_text_free hc"
      "hist_size (DCvacuum_history hc) = hist_size hc" "hist_rest (DCvacuum_history hc) = hist_rest hc"
      by (subst 2(1), simp add: 2(2) hist_rest_def)+
    have "hc_num (DCvacuum_history hc) = length (window (DCvacuum_history hc))" by simp
    then have "hc_num (DCvacuum_history hc) = length (queue hc)" unfolding 2(4) by (simp add: queue_def)
    with f 2(3,4) ok run_ok_filter laid_out_filter show ?thesis by (auto simp: hist_ok_def queue_def)
  qed
qed

text \<open>Nor does closing up the texts; what is left over at the end is then all that no entry needs.\<close>

lemma DCvacuum_text_result:
  assumes "hist_ok hc"
  shows "hist_ok (DCvacuum_text hc) \<and> queue (DCvacuum_text hc) = queue hc \<and>
    hc_num (DCvacuum_text hc) = hc_num hc \<and> hist_size (DCvacuum_text hc) = hist_size hc \<and>
    text_size (DCvacuum_text hc) = text_size hc \<and> hc_last_text (DCvacuum_text hc) \<le> hc_last_text hc \<and>
    (int (text_size hc div 1024) < hc_text_free hc \<longrightarrow>
       hc_last_text (DCvacuum_text hc) = texts_len (hc_text hc) (texts_of (window hc))) \<and>
    texts_len (hc_text (DCvacuum_text hc)) (texts_of (window (DCvacuum_text hc))) =
      texts_len (hc_text hc) (texts_of (window hc)) \<and>
    hc_text_free (DCvacuum_text hc) = hc_text_free hc \<and> hc_gap_num (DCvacuum_text hc) = hc_gap_num hc \<and>
    hist_rest (DCvacuum_text hc) = hist_rest hc"
proof (cases "int (text_size hc div 1024) \<ge> hc_text_free hc")
  case True
  then show ?thesis using assms by (simp add: DCvacuum_text_def)
next
  case False
  note ok = assms [unfolded hist_ok_def]
  let ?hc0 = "hc\<lparr>hc_last_text := 0\<rparr>"
  have ring0: "ring_ok ?hc0" using ok by (simp add: ring_ok_def)
  have pos0: "hc_first hc = hist_pos ?hc0 0 \<or> (hc_first hc = hist_size ?hc0 \<and> hist_pos ?hc0 0 = 0)"
    using ok by (simp add: hist_pos_def ring_ok_def)
  have lay0: "laid_out (hc_text ?hc0) (hc_last_text ?hc0) (texts_of (drop 0 (window ?hc0))) (hc_last_text hc)"
    using ok by simp
  have "\<exists>h' buf' lt' es'. vacuum_text_loop (hc_num hc) (hc_first hc) ?hc0 = ?hc0\<lparr>hc_history := h', hc_text := buf', hc_last_text := lt'\<rparr> \<and>
    length h' = hist_size ?hc0 \<and> length buf' = text_size ?hc0 \<and>
    window (vacuum_text_loop (hc_num hc) (hc_first hc) ?hc0) = take 0 (window ?hc0) @ es' \<and>
    map (abs_entry buf') es' = map (abs_entry (hc_text ?hc0)) (drop 0 (window ?hc0)) \<and>
    map dh_num es' = map dh_num (drop 0 (window ?hc0)) \<and> (\<forall>h \<in> set es'. entry_typed h) \<and>
    laid_out buf' (hc_last_text ?hc0) (texts_of es') lt' \<and> (\<forall>j < hc_last_text ?hc0. buf' ! j = hc_text ?hc0 ! j) \<and>
    lt' = hc_last_text ?hc0 + texts_len (hc_text ?hc0) (texts_of (drop 0 (window ?hc0))) \<and> lt' \<le> hc_last_text hc"
    by (rule vacuum_text_loop_result [OF ring0 _ pos0 lay0]) (use ok in auto)
  then obtain h' buf' lt' es' where v:
    "vacuum_text_loop (hc_num hc) (hc_first hc) ?hc0 = ?hc0\<lparr>hc_history := h', hc_text := buf', hc_last_text := lt'\<rparr>"
    "length h' = hist_size hc" "length buf' = text_size hc"
    "window (vacuum_text_loop (hc_num hc) (hc_first hc) ?hc0) = es'"
    "map (abs_entry buf') es' = map (abs_entry (hc_text hc)) (window hc)" "map dh_num es' = map dh_num (window hc)"
    "\<forall>h \<in> set es'. entry_typed h" "laid_out buf' 0 (texts_of es') lt'"
    "lt' = texts_len (hc_text hc) (texts_of (window hc))" "lt' \<le> hc_last_text hc" by auto
  define hc' where "hc' = hc\<lparr>hc_history := h', hc_text := buf', hc_last_text := lt'\<rparr>"
  have eq: "DCvacuum_text hc = hc'" using False by (simp add: DCvacuum_text_def v(1) hc'_def)
  have w': "window hc' = es'" using v(4) unfolding v(1) by (simp add: hc'_def)
  note abs = map_filter_live_abs [OF v(5)]
  have "map dh_itemid es' = map dh_itemid (window hc)"
  proof -
    have "map (dh_itemid \<circ> fst) (map (abs_entry buf') es') = map (dh_itemid \<circ> fst) (map (abs_entry (hc_text hc)) (window hc))"
      unfolding v(5) ..
    then show ?thesis by (simp add: comp_def abs_entry_def)
  qed
  then have "run_ok es'" using run_ok_cong [OF v(6)] ok by blast
  moreover have "ring_ok hc'" using ok v(2) by (simp add: ring_ok_def hc'_def)
  moreover have "texts_len buf' (texts_of (filter live es')) = texts_len (hc_text hc) (texts_of (filter live (window hc)))"
    by (rule texts_of_abs [OF conjunct1 [OF abs]])
  ultimately have "hist_ok hc'"
    unfolding hist_ok_def w' using ok v abs by (simp add: hc'_def)
  moreover have "queue hc' = queue hc" unfolding queue_def w' using abs by (simp add: hc'_def)
  moreover have "hist_rest hc' = hist_rest hc" by (simp add: hc'_def hist_rest_def)
  moreover have "texts_len (hc_text hc') (texts_of (window hc')) = texts_len (hc_text hc) (texts_of (window hc))"
    using texts_of_abs [OF v(5)] unfolding w' by (simp add: hc'_def)
  ultimately show ?thesis unfolding eq using v by (simp add: hc'_def)
qed

lemma DCvacuum_text_ok:
  assumes "hist_ok hc"
  shows "hist_ok (DCvacuum_text hc) \<and> queue (DCvacuum_text hc) = queue hc \<and>
    hc_num (DCvacuum_text hc) = hc_num hc \<and> hist_size (DCvacuum_text hc) = hist_size hc \<and>
    text_size (DCvacuum_text hc) = text_size hc \<and> hc_last_text (DCvacuum_text hc) \<le> hc_last_text hc \<and>
    (int (text_size hc div 1024) < hc_text_free hc \<longrightarrow>
       hc_last_text (DCvacuum_text hc) = texts_len (hc_text hc) (texts_of (window hc)))"
  using DCvacuum_text_result [OF assms] by blast

lemma DCvacuum_text_frame:
  assumes "hist_ok hc"
  shows "texts_len (hc_text (DCvacuum_text hc)) (texts_of (window (DCvacuum_text hc))) =
      texts_len (hc_text hc) (texts_of (window hc)) \<and>
    hc_text_free (DCvacuum_text hc) = hc_text_free hc \<and> hc_gap_num (DCvacuum_text hc) = hc_gap_num hc \<and>
    hist_rest (DCvacuum_text hc) = hist_rest hc"
  using DCvacuum_text_result [OF assms] by blast

end
