(* ===== verification/HistAdd.thy ===== *)
theory HistAdd
  imports HistText
begin

text \<open>
  Adding values to the history cache (\<^verbatim>\<open>libs/zbxdbcache/dbcache.c\<close>). A process first collects values in its
  own memory, the record \<open>local_values\<close>, and later moves them into the shared ring; the collecting is not
  modelled. The result of an operation is
  \<open>None\<close> when it waits forever, \<open>Inl\<close> when it ends the process.
\<close>

subsection \<open>A place in the ring\<close>

type_synonym dc_others = "nat \<Rightarrow> dc_cache \<Rightarrow> dc_cache"

definition dc_sleep :: "dc_others \<Rightarrow> dc_cache \<Rightarrow> dc_cache" where
  "dc_sleep others hc = others (hc_waits hc) (hc\<lparr>hc_waits := hc_waits hc + 1\<rparr>)"

definition new_place :: "dc_cache \<Rightarrow> nat \<times> dc_cache" where
  "new_place hc =
    (let f = hc_first hc + hc_num hc;
         f = (if hist_size hc \<le> f then f - hist_size hc else f)
     in (f, (upd_entry f (\<lambda>h. h\<lparr>dh_num := 1, dh_keep_history := False, dh_keep_trends := False\<rparr>) hc)
           \<lparr>hc_num := hc_num hc + 1\<rparr>))"

abbreviation free_len :: "dc_cache \<Rightarrow> nat" where "free_len hc \<equiv> text_size hc - hc_last_text hc"

partial_function (option) DCget_history_ptr ::
  "dc_others \<Rightarrow> nat \<Rightarrow> dc_cache \<Rightarrow> (fatal + nat \<times> dc_cache) option" where
  "DCget_history_ptr others text_len hc =
    (let hc1 = (if hc_num hc = hist_size hc then DCvacuum_history hc else hc)
     in if hc_num hc1 = hist_size hc1 then DCget_history_ptr others text_len (dc_sleep others hc1)
        else if text_len = 0 then Some (Inr (new_place hc1))
        else if text_size hc1 < text_len then Some (Inl (Exit_Fail ''insufficient shared memory for text cache''))
        else if free_len hc1 < text_len then
          (let hc2 = DCvacuum_text hc1
           in if free_len hc2 < text_len then DCget_history_ptr others text_len (dc_sleep others hc2)
              else Some (Inr (new_place hc2)))
        else Some (Inr (new_place hc1)))"

definition DCcheck_ns :: "zbx_timespec \<Rightarrow> dc_cache \<Rightarrow> zbx_timespec \<times> dc_cache" where
  "DCcheck_ns ts hc =
    (if 0 \<le> ts_ns ts then (ts, hc)
     else
       (let ns = ts_ns (hc_last_ts hc) + 1
        in (ts\<lparr>ts_ns := ts_ns (hc_last_ts hc)\<rparr>,
            hc\<lparr>hc_last_ts := \<lparr>ts_sec = ts_sec ts,
              ts_ns = (if (999900000 < ns \<and> ts_sec (hc_last_ts hc) \<noteq> ts_sec ts) \<or> ns = 1000000000 then 0 else ns)\<rparr>\<rparr>)))"

definition DCadd_text :: "u8 list \<Rightarrow> nat \<Rightarrow> dc_cache \<Rightarrow> nat \<times> dc_cache" where
  "DCadd_text src len hc =
    (hc_last_text hc,
     hc\<lparr>hc_text := write_at (hc_text hc) (hc_last_text hc) (take (len - 1) src @ [0]),
        hc_last_text := hc_last_text hc + len, hc_text_free := hc_text_free hc - int len\<rparr>)"

subsection \<open>Values of the process\<close>

record dc_value_str =
  pvalue :: nat
  str_len :: nat

record dc_item_value =
  iv_itemid :: u64
  iv_value_dbl :: u64
  iv_value_uint :: u64
  iv_value_str :: dc_value_str
  iv_ts :: zbx_timespec
  iv_source :: dc_value_str
  iv_lastlogsize :: u64
  iv_timestamp :: int
  iv_severity :: int
  iv_logeventid :: int
  iv_mtime :: int
  iv_value_type :: item_value_type
  iv_state :: item_state
  iv_discovery_rule :: bool

record local_values =
  string_values :: "u8 list"
  string_values_offset :: nat
  item_values_buf :: "dc_item_value list"
  item_values_num :: nat

subsection \<open>Moving values into the ring\<close>

text \<open>What all the functions \<open>DCadd_history_\<close> do: a time stamp, a place, the members, the counters.\<close>

definition add_entry ::
  "dc_others \<Rightarrow> dc_item_value \<Rightarrow> nat \<Rightarrow> (zbx_timespec \<Rightarrow> nat \<Rightarrow> dc_cache \<Rightarrow> dc_cache) \<Rightarrow> (dc_stats \<Rightarrow> dc_stats) \<Rightarrow>
   dc_cache \<Rightarrow> (fatal + dc_cache) option" where
  "add_entry others v text_len fill count_in hc =
    (let (ts, hc1) = DCcheck_ns (iv_ts v) hc
     in map_option (map_sum (\<lambda>e. e) (\<lambda>(f, hc2).
          let hc3 = fill ts f hc2 in hc3\<lparr>hc_stats := count_in (hc_stats hc3)\<rparr>))
        (DCget_history_ptr others text_len hc1))"

definition DCadd_history_dbl :: "dc_others \<Rightarrow> dc_item_value \<Rightarrow> dc_cache \<Rightarrow> (fatal + dc_cache) option" where
  "DCadd_history_dbl others v hc = add_entry others v 0
    (\<lambda>ts f hc. upd_entry f (\<lambda>h. h\<lparr>dh_itemid := iv_itemid v, dh_ts := ts, dh_state := ITEM_STATE_NORMAL,
       dh_value_type := ITEM_VALUE_TYPE_FLOAT, dh_value_orig := Du_dbl (iv_value_dbl v), dh_value := Du_dbl 0,
       dh_value_null := False\<rparr>) hc)
    (\<lambda>s. s\<lparr>history_counter := history_counter s + 1, history_float_counter := history_float_counter s + 1\<rparr>) hc"

definition DCadd_history_uint :: "dc_others \<Rightarrow> dc_item_value \<Rightarrow> dc_cache \<Rightarrow> (fatal + dc_cache) option" where
  "DCadd_history_uint others v hc = add_entry others v 0
    (\<lambda>ts f hc. upd_entry f (\<lambda>h. h\<lparr>dh_itemid := iv_itemid v, dh_ts := ts, dh_state := ITEM_STATE_NORMAL,
       dh_value_type := ITEM_VALUE_TYPE_UINT64, dh_value_orig := Du_ui64 (iv_value_uint v), dh_value := Du_ui64 0,
       dh_value_null := False\<rparr>) hc)
    (\<lambda>s. s\<lparr>history_counter := history_counter s + 1, history_uint_counter := history_uint_counter s + 1\<rparr>) hc"

definition str_of :: "u8 list \<Rightarrow> dc_value_str \<Rightarrow> u8 list" where
  "str_of strings r = drop (pvalue r) strings"

text \<open>The members of an entry with one text.\<close>

definition fill_str ::
  "u8 list \<Rightarrow> dc_item_value \<Rightarrow> (dc_history \<Rightarrow> dc_history) \<Rightarrow> zbx_timespec \<Rightarrow> nat \<Rightarrow> dc_cache \<Rightarrow> dc_cache" where
  "fill_str strings v g ts f hc =
    (let hc1 = upd_entry f (\<lambda>h. g (h\<lparr>dh_itemid := iv_itemid v, dh_ts := ts\<rparr>)) hc;
         (p, hc2) = DCadd_text (str_of strings (iv_value_str v)) (str_len (iv_value_str v)) hc1
     in upd_entry f (\<lambda>h. h\<lparr>dh_value_orig := Du_str p\<rparr>) hc2)"

definition DCadd_history_str ::
  "u8 list \<Rightarrow> dc_others \<Rightarrow> dc_item_value \<Rightarrow> dc_cache \<Rightarrow> (fatal + dc_cache) option" where
  "DCadd_history_str strings others v hc = add_entry others v (str_len (iv_value_str v))
    (fill_str strings v (\<lambda>h. h\<lparr>dh_state := ITEM_STATE_NORMAL, dh_value_type := ITEM_VALUE_TYPE_STR, dh_value_null := False\<rparr>))
    (\<lambda>s. s\<lparr>history_counter := history_counter s + 1, history_str_counter := history_str_counter s + 1\<rparr>) hc"

definition DCadd_history_text ::
  "u8 list \<Rightarrow> dc_others \<Rightarrow> dc_item_value \<Rightarrow> dc_cache \<Rightarrow> (fatal + dc_cache) option" where
  "DCadd_history_text strings others v hc = add_entry others v (str_len (iv_value_str v))
    (fill_str strings v (\<lambda>h. h\<lparr>dh_state := ITEM_STATE_NORMAL, dh_value_type := ITEM_VALUE_TYPE_TEXT, dh_value_null := False\<rparr>))
    (\<lambda>s. s\<lparr>history_counter := history_counter s + 1, history_text_counter := history_text_counter s + 1\<rparr>) hc"

definition DCadd_history_lld ::
  "u8 list \<Rightarrow> dc_others \<Rightarrow> dc_item_value \<Rightarrow> dc_cache \<Rightarrow> (fatal + dc_cache) option" where
  "DCadd_history_lld strings others v hc = add_entry others v (str_len (iv_value_str v))
    (fill_str strings v (\<lambda>h. h\<lparr>dh_state := ITEM_STATE_NORMAL, dh_value_type := ITEM_VALUE_TYPE_TEXT, dh_value_null := False\<rparr>))
    (\<lambda>s. s\<lparr>history_counter := history_counter s + 1, history_text_counter := history_text_counter s + 1\<rparr>) hc"

definition fill_log :: "u8 list \<Rightarrow> dc_item_value \<Rightarrow> zbx_timespec \<Rightarrow> nat \<Rightarrow> dc_cache \<Rightarrow> dc_cache" where
  "fill_log strings v ts f hc =
     (let hc1 = fill_str strings v (\<lambda>h. h\<lparr>dh_state := ITEM_STATE_NORMAL, dh_value_type := ITEM_VALUE_TYPE_LOG\<rparr>) ts f hc;
          hc2 = upd_entry f (\<lambda>h. h\<lparr>dh_value_null := False, dh_timestamp := iv_timestamp v\<rparr>) hc1;
          hc3 = (if str_len (iv_source v) \<noteq> 0 then
              (let (p, hc3) = DCadd_text (str_of strings (iv_source v)) (str_len (iv_source v)) hc2
               in upd_entry f (\<lambda>h. h\<lparr>dh_value := Du_str p\<rparr>) hc3)
            else upd_entry f (\<lambda>h. h\<lparr>dh_value := Du_ui64 0\<rparr>) hc2)
      in upd_entry f (\<lambda>h. h\<lparr>dh_severity := iv_severity v, dh_logeventid := iv_logeventid v,
           dh_lastlogsize := iv_lastlogsize v, dh_mtime := iv_mtime v\<rparr>) hc3)"

definition DCadd_history_log ::
  "u8 list \<Rightarrow> dc_others \<Rightarrow> dc_item_value \<Rightarrow> dc_cache \<Rightarrow> (fatal + dc_cache) option" where
  "DCadd_history_log strings others v hc = add_entry others v (str_len (iv_value_str v) + str_len (iv_source v))
    (fill_log strings v)
    (\<lambda>s. s\<lparr>history_counter := history_counter s + 1, history_log_counter := history_log_counter s + 1\<rparr>) hc"

definition DCadd_history_notsupported ::
  "u8 list \<Rightarrow> dc_others \<Rightarrow> dc_item_value \<Rightarrow> dc_cache \<Rightarrow> (fatal + dc_cache) option" where
  "DCadd_history_notsupported strings others v hc = add_entry others v (str_len (iv_value_str v))
    (fill_str strings v (\<lambda>h. h\<lparr>dh_state := ITEM_STATE_NOTSUPPORTED, dh_value_null := True\<rparr>))
    (\<lambda>s. s\<lparr>notsupported_counter := notsupported_counter s + 1\<rparr>) hc"

definition flush_item ::
  "u8 list \<Rightarrow> dc_others \<Rightarrow> dc_item_value \<Rightarrow> dc_cache \<Rightarrow> (fatal + dc_cache) option" where
  "flush_item strings others v hc =
    (if iv_state v = ITEM_STATE_NOTSUPPORTED then DCadd_history_notsupported strings others v hc
     else if iv_discovery_rule v then DCadd_history_lld strings others v hc
     else (case iv_value_type v of
         ITEM_VALUE_TYPE_FLOAT \<Rightarrow> DCadd_history_dbl others v hc
       | ITEM_VALUE_TYPE_UINT64 \<Rightarrow> DCadd_history_uint others v hc
       | ITEM_VALUE_TYPE_STR \<Rightarrow> DCadd_history_str strings others v hc
       | ITEM_VALUE_TYPE_TEXT \<Rightarrow> DCadd_history_text strings others v hc
       | ITEM_VALUE_TYPE_LOG \<Rightarrow> DCadd_history_log strings others v hc))"

fun flush_loop ::
  "u8 list \<Rightarrow> dc_others \<Rightarrow> dc_item_value list \<Rightarrow> dc_cache \<Rightarrow> (fatal + dc_cache) option" where
  "flush_loop strings others [] hc = Some (Inr hc)"
| "flush_loop strings others (v # vs) hc =
    (case flush_item strings others v hc of
       Some (Inr hc1) \<Rightarrow> flush_loop strings others vs hc1
     | r \<Rightarrow> r)"

definition dc_flush_history ::
  "dc_others \<Rightarrow> local_values \<Rightarrow> dc_cache \<Rightarrow> (fatal + local_values \<times> dc_cache) option" where
  "dc_flush_history others lv hc =
    (if item_values_num lv = 0 then Some (Inr (lv, hc))
     else map_option (map_sum (\<lambda>e. e) (\<lambda>hc1. (lv\<lparr>item_values_num := 0, string_values_offset := 0\<rparr>, hc1)))
       (flush_loop (string_values lv) others (take (item_values_num lv) (item_values_buf lv)) hc))"

subsection \<open>An added entry\<close>

definition last_place :: "nat \<Rightarrow> dc_cache \<Rightarrow> bool" where
  "last_place f hc \<longleftrightarrow> ring_ok hc \<and> 0 < hc_num hc \<and> f = hist_pos hc (hc_num hc - 1)"

lemma last_place_frame [simp]:
  "last_place f (hc\<lparr>hc_text := t\<rparr>) = last_place f hc" "last_place f (hc\<lparr>hc_last_text := l\<rparr>) = last_place f hc"
  "last_place f (hc\<lparr>hc_text_free := x\<rparr>) = last_place f hc" "last_place f (hc\<lparr>hc_stats := st\<rparr>) = last_place f hc"
  by (simp_all add: last_place_def ring_ok_def hist_pos_def)

lemma upd_entry_frame [simp]:
  "hc_text (upd_entry f g hc) = hc_text hc" "hc_last_text (upd_entry f g hc) = hc_last_text hc"
  "hc_text_free (upd_entry f g hc) = hc_text_free hc" "hc_gap_num (upd_entry f g hc) = hc_gap_num hc"
  "hist_size (upd_entry f g hc) = hist_size hc" "hc_num (upd_entry f g hc) = hc_num hc"
  "hc_first (upd_entry f g hc) = hc_first hc"
  by (simp_all add: upd_entry_def)

lemma hist_rest_frame [simp]:
  "hist_rest (upd_entry f g hc) = hist_rest hc" "hist_rest (hc\<lparr>hc_text := t\<rparr>) = hist_rest hc"
  "hist_rest (hc\<lparr>hc_last_text := l\<rparr>) = hist_rest hc" "hist_rest (hc\<lparr>hc_text_free := x\<rparr>) = hist_rest hc"
  by (simp_all add: hist_rest_def upd_entry_def)

lemma last_place_upd [simp]:
  "last_place f (upd_entry f' g hc) = last_place f hc"
  by (simp add: last_place_def ring_ok_def hist_pos_def)

lemma upd_entry_nth [simp]:
  "last_place f hc \<Longrightarrow> hc_history (upd_entry f g hc) ! f = g (hc_history hc ! f)"
  by (simp add: last_place_def upd_entry_def hist_pos_less)

lemma update_at_end: "xs \<noteq> [] \<Longrightarrow> xs[length xs - 1 := x] = butlast xs @ [x]"
  by (cases xs rule: rev_cases) auto

lemma window_upd_last:
  assumes "last_place f hc"
  shows "window (upd_entry f g hc) = butlast (window hc) @ [g (hc_history hc ! f)]"
proof -
  have "window (upd_entry f g hc) = (window hc)[hc_num hc - 1 := g (hc_history hc ! f)]"
    using assms window_update [of hc "hc_num hc - 1" "g (hc_history hc ! f)"] by (simp add: last_place_def upd_entry_def)
  also have "\<dots> = butlast (window hc) @ [g (hc_history hc ! f)]"
    using assms update_at_end [of "window hc"] length_window [of hc] by (force simp: last_place_def simp del: length_window)
  finally show ?thesis .
qed

lemma new_place_result:
  assumes "ring_ok hc" "hc_num hc < hist_size hc"
  obtains f hc1 where "new_place hc = (f, hc1)" "last_place f hc1" "butlast (window hc1) = window hc"
    "dh_num (hc_history hc1 ! f) = 1" "hc_text hc1 = hc_text hc" "hc_last_text hc1 = hc_last_text hc"
    "hc_text_free hc1 = hc_text_free hc" "hc_gap_num hc1 = hc_gap_num hc" "hist_size hc1 = hist_size hc"
    "hc_num hc1 = hc_num hc + 1" "hist_rest hc1 = hist_rest hc"
proof -
  define f where "f = hist_pos hc (hc_num hc)"
  have f: "(if hist_size hc \<le> hc_first hc + hc_num hc then hc_first hc + hc_num hc - hist_size hc
      else hc_first hc + hc_num hc) = f"
    using assms by (auto simp: f_def hist_pos_def ring_ok_def mod_if)
  let ?g = "\<lambda>h. h\<lparr>dh_num := 1, dh_keep_history := False, dh_keep_trends := False\<rparr>"
  define hc1 where "hc1 = (upd_entry f ?g hc)\<lparr>hc_num := hc_num hc + 1\<rparr>"
  have eq: "new_place hc = (f, hc1)" by (simp add: new_place_def Let_def f hc1_def)
  have flt: "f < hist_size hc" unfolding f_def using hist_pos_less [OF assms(1)] .
  have lp: "last_place f hc1"
    using assms by (simp add: last_place_def hc1_def ring_ok_def hist_pos_def f_def)
  have old: "hist_pos hc i \<noteq> f" if "i < hc_num hc" for i
  proof
    assume "hist_pos hc i = f"
    then have "i = hc_num hc" unfolding f_def hist_pos_def
      by (rule mod_add_cancel_lt) (use that assms(2) in linarith)+
    with that show False by simp
  qed
  have "butlast (window hc1) = window hc"
  proof (rule nth_equalityI)
    fix i assume "i < length (butlast (window hc1))"
    then have i: "i < hc_num hc" by (simp add: hc1_def)
    then have "hc_history hc1 ! hist_pos hc1 i = hc_history hc ! hist_pos hc i"
      using old [OF i] by (simp add: hc1_def upd_entry_def hist_pos_def)
    with i show "butlast (window hc1) ! i = window hc ! i" by (simp add: nth_butlast hc1_def)
  qed (simp add: hc1_def)
  with eq lp flt show thesis by (intro that [of f hc1]) (simp_all add: hc1_def hist_rest_def, simp_all add: upd_entry_def)
qed

lemma DCadd_text_result:
  assumes "0 < len" "len \<le> free_len hc" "hc_last_text hc \<le> text_size hc" "len - 1 \<le> length src" "0 \<notin> set (take (len - 1) src)"
  obtains buf where "DCadd_text src len hc = (hc_last_text hc, hc\<lparr>hc_text := buf, hc_last_text := hc_last_text hc + len,
      hc_text_free := hc_text_free hc - int len\<rparr>)"
    "length buf = text_size hc" "str_at buf (hc_last_text hc) = take (len - 1) src"
    "strlen_at buf (hc_last_text hc) = len - 1" "\<forall>i < hc_last_text hc. buf ! i = hc_text hc ! i"
proof -
  let ?lt = "hc_last_text hc" and ?s = "take (len - 1) src"
  let ?buf = "write_at (hc_text hc) ?lt (?s @ [0])"
  have len: "length (?s @ [0]) = len" using assms(1,4) by simp
  have buf: "?buf = take ?lt (hc_text hc) @ (?s @ [0]) @ drop (?lt + len) (hc_text hc)"
    unfolding write_at_def len ..
  have "drop ?lt ?buf = ?s @ 0 # drop (?lt + len) (hc_text hc)" unfolding buf using assms(3) by simp
  moreover have "takeWhile (\<lambda>c. c \<noteq> 0) (?s @ 0 # xs) = ?s" for xs
    using assms(5) by (subst takeWhile_append2) auto
  ultimately have str: "str_at ?buf ?lt = ?s" by (simp add: str_at_def)
  then have "strlen_at ?buf ?lt = len - 1" using assms(4) length_str_at [of ?buf ?lt] by simp
  moreover have "length ?buf = text_size hc" unfolding buf using assms(1-4) by simp
  moreover have "\<forall>i < ?lt. ?buf ! i = hc_text hc ! i" unfolding buf using assms(3) by (simp add: nth_append)
  ultimately show thesis using str by (intro that [of ?buf]) (simp_all add: DCadd_text_def)
qed

lemma add_done:
  assumes "hist_ok hc0" "ring_ok hc'" "window hc' = window hc0 @ [e]" "hc_gap_num hc' = hc_gap_num hc0"
    "text_size hc' = text_size hc0" "\<forall>i < hc_last_text hc0. hc_text hc' ! i = hc_text hc0 ! i" "entry_typed e"
    "live e" "dh_num e = 1" "laid_out (hc_text hc') (hc_last_text hc0) (entry_ptrs e) (hc_last_text hc')"
    "hc_last_text hc' \<le> text_size hc'" "hc_text_free hc' = hc_text_free hc0 - int (texts_len (hc_text hc') (entry_ptrs e))"
  shows "hist_ok hc' \<and> queue hc' = queue hc0 @ [abs_entry (hc_text hc') e]"
proof -
  note ok = assms(1) [unfolded hist_ok_def]
  have c: "laid_out (hc_text hc') 0 (texts_of (window hc0)) (hc_last_text hc0) \<and>
      map (str_at (hc_text hc')) (texts_of (window hc0)) = map (str_at (hc_text hc0)) (texts_of (window hc0)) \<and>
      map (strlen_at (hc_text hc')) (texts_of (window hc0)) = map (strlen_at (hc_text hc0)) (texts_of (window hc0))"
    by (rule laid_out_cong [where hi = "hc_last_text hc0"]) (use ok assms(5,6) in auto)
  have same: "abs_entry (hc_text hc') h = abs_entry (hc_text hc0) h" if "h \<in> set (window hc0)" for h
    using c that by (auto simp: abs_entry_def)
  have "map (strlen_at (hc_text hc')) (texts_of (filter live (window hc0))) =
      map (strlen_at (hc_text hc0)) (texts_of (filter live (window hc0)))" using c by auto
  then have tl: "texts_len (hc_text hc') (texts_of (filter live (window hc0))) =
      texts_len (hc_text hc0) (texts_of (filter live (window hc0)))" by (rule texts_len_cong)
  have "laid_out (hc_text hc') 0 (texts_of (window hc0) @ entry_ptrs e) (hc_last_text hc')"
    using laid_out_append [OF conjunct1 [OF c] assms(10)] .
  moreover have "run_ok (window hc')" unfolding assms(3) using ok assms(9) by (intro run_ok_snoc) auto
  ultimately have "hist_ok hc'"
    unfolding hist_ok_def using ok assms tl by simp
  moreover have "queue hc' = queue hc0 @ [abs_entry (hc_text hc') e]"
    unfolding queue_def assms(3) using assms(8) same by simp
  ultimately show ?thesis ..
qed

subsection \<open>What a value becomes\<close>

datatype queued_value =
  Q_dbl u64
| Q_ui64 u64
| Q_str "u8 list"
| Q_text "u8 list"
| Q_log "u8 list" "u8 list option" int int int u64 int
| Q_err "u8 list"

fun du_dbl :: "dc_union \<Rightarrow> u64" where
  "du_dbl (Du_dbl d) = d"
| "du_dbl _ = 0"

fun du_ui64 :: "dc_union \<Rightarrow> u64" where
  "du_ui64 (Du_ui64 n) = n"
| "du_ui64 _ = 0"

text \<open>A waiting entry, read the way the code that writes it to the database does.\<close>

definition view_entry :: "dc_history \<times> u8 list list \<Rightarrow> u64 \<times> zbx_timespec \<times> queued_value" where
  "view_entry e =
    (let h = fst e; texts = snd e
     in (dh_itemid h, dh_ts h,
       if dh_state h = ITEM_STATE_NOTSUPPORTED then Q_err (hd texts)
       else (case dh_value_type h of
           ITEM_VALUE_TYPE_FLOAT \<Rightarrow> Q_dbl (du_dbl (dh_value_orig h))
         | ITEM_VALUE_TYPE_UINT64 \<Rightarrow> Q_ui64 (du_ui64 (dh_value_orig h))
         | ITEM_VALUE_TYPE_STR \<Rightarrow> Q_str (hd texts)
         | ITEM_VALUE_TYPE_TEXT \<Rightarrow> Q_text (hd texts)
         | ITEM_VALUE_TYPE_LOG \<Rightarrow> Q_log (hd texts) (if dh_value h \<noteq> Du_ui64 0 then Some (texts ! 1) else None)
             (dh_timestamp h) (dh_severity h) (dh_logeventid h) (dh_lastlogsize h) (dh_mtime h))))"

definition text_val :: "u8 list \<Rightarrow> dc_value_str \<Rightarrow> u8 list" where
  "text_val strings r = take (str_len r - 1) (str_of strings r)"

definition str_ok :: "u8 list \<Rightarrow> dc_value_str \<Rightarrow> bool" where
  "str_ok strings r \<longleftrightarrow> 0 < str_len r \<and> pvalue r + str_len r \<le> length strings \<and> 0 \<notin> set (text_val strings r)"

definition queued_of :: "u8 list \<Rightarrow> dc_item_value \<Rightarrow> queued_value" where
  "queued_of strings v =
    (if iv_state v = ITEM_STATE_NOTSUPPORTED then Q_err (text_val strings (iv_value_str v))
     else if iv_discovery_rule v then Q_text (text_val strings (iv_value_str v))
     else (case iv_value_type v of
         ITEM_VALUE_TYPE_FLOAT \<Rightarrow> Q_dbl (iv_value_dbl v)
       | ITEM_VALUE_TYPE_UINT64 \<Rightarrow> Q_ui64 (iv_value_uint v)
       | ITEM_VALUE_TYPE_STR \<Rightarrow> Q_str (text_val strings (iv_value_str v))
       | ITEM_VALUE_TYPE_TEXT \<Rightarrow> Q_text (text_val strings (iv_value_str v))
       | ITEM_VALUE_TYPE_LOG \<Rightarrow> Q_log (text_val strings (iv_value_str v))
           (if str_len (iv_source v) \<noteq> 0 then Some (text_val strings (iv_source v)) else None)
           (iv_timestamp v) (iv_severity v) (iv_logeventid v) (iv_lastlogsize v) (iv_mtime v)))"

definition has_text :: "dc_item_value \<Rightarrow> bool" where
  "has_text v \<longleftrightarrow> iv_state v = ITEM_STATE_NOTSUPPORTED \<or> iv_discovery_rule v \<or>
    (iv_value_type v \<noteq> ITEM_VALUE_TYPE_FLOAT \<and> iv_value_type v \<noteq> ITEM_VALUE_TYPE_UINT64)"

definition has_source :: "dc_item_value \<Rightarrow> bool" where
  "has_source v \<longleftrightarrow> iv_state v \<noteq> ITEM_STATE_NOTSUPPORTED \<and> \<not> iv_discovery_rule v \<and>
    iv_value_type v = ITEM_VALUE_TYPE_LOG \<and> str_len (iv_source v) \<noteq> 0"

definition text_need :: "dc_item_value \<Rightarrow> nat" where
  "text_need v = (if has_text v then str_len (iv_value_str v) else 0) + (if has_source v then str_len (iv_source v) else 0)"

definition value_ok :: "u8 list \<Rightarrow> dc_item_value \<Rightarrow> bool" where
  "value_ok strings v \<longleftrightarrow> iv_itemid v \<noteq> 0 \<and> (has_text v \<longrightarrow> str_ok strings (iv_value_str v)) \<and>
    (has_source v \<longrightarrow> str_ok strings (iv_source v))"

text \<open>What filling in the new entry has to do.\<close>

definition fills :: "(nat \<Rightarrow> dc_cache \<Rightarrow> dc_cache) \<Rightarrow> nat \<Rightarrow> u64 \<times> zbx_timespec \<times> queued_value \<Rightarrow> bool" where
  "fills fill need val \<longleftrightarrow> (\<forall>f hc. last_place f hc \<and> hc_last_text hc \<le> text_size hc \<and> need \<le> free_len hc \<and>
      dh_num (hc_history hc ! f) = 1 \<longrightarrow>
    (\<exists>e. window (fill f hc) = butlast (window hc) @ [e] \<and> ring_ok (fill f hc) \<and>
      hc_gap_num (fill f hc) = hc_gap_num hc \<and> text_size (fill f hc) = text_size hc \<and>
      hist_size (fill f hc) = hist_size hc \<and> hc_num (fill f hc) = hc_num hc \<and> hist_rest (fill f hc) = hist_rest hc \<and>
      (\<forall>i < hc_last_text hc. hc_text (fill f hc) ! i = hc_text hc ! i) \<and>
      entry_typed e \<and> live e \<and> dh_num e = 1 \<and>
      laid_out (hc_text (fill f hc)) (hc_last_text hc) (entry_ptrs e) (hc_last_text (fill f hc)) \<and>
      hc_last_text (fill f hc) = hc_last_text hc + need \<and> hc_text_free (fill f hc) = hc_text_free hc - int need \<and>
      texts_len (hc_text (fill f hc)) (entry_ptrs e) = need \<and>
      view_entry (abs_entry (hc_text (fill f hc)) e) = val))"

lemma last_place_ring: "last_place f hc \<Longrightarrow> ring_ok hc"
  by (simp add: last_place_def)

lemma ring_ok_frame [simp]:
  "ring_ok (upd_entry f g hc) = ring_ok hc" "ring_ok (hc\<lparr>hc_text := t\<rparr>) = ring_ok hc"
  "ring_ok (hc\<lparr>hc_last_text := l\<rparr>) = ring_ok hc" "ring_ok (hc\<lparr>hc_text_free := x\<rparr>) = ring_ok hc"
  "ring_ok (hc\<lparr>hc_stats := st\<rparr>) = ring_ok hc" "ring_ok (hc\<lparr>hc_last_ts := ts\<rparr>) = ring_ok hc"
  "ring_ok (hc\<lparr>hc_itemids := ids\<rparr>) = ring_ok hc"
  by (simp_all add: ring_ok_def)

lemma fills_number:
  assumes "\<And>h. dh_num (g h) = dh_num h" "\<And>h. live (g h)" "\<And>h. entry_ptrs (g h) = []"
    "\<And>buf h. view_entry (abs_entry buf (g h)) = val"
  shows "fills (\<lambda>f. upd_entry f g) 0 val"
  unfolding fills_def
  by (intro allI impI exI) (use assms in \<open>auto simp: window_upd_last last_place_ring entry_typed_def\<close>)

lemma text_added:
  assumes "str_ok strings r" "str_len r \<le> free_len hc" "hc_last_text hc \<le> text_size hc"
  obtains buf where "DCadd_text (str_of strings r) (str_len r) hc = (hc_last_text hc, hc\<lparr>hc_text := buf,
      hc_last_text := hc_last_text hc + str_len r, hc_text_free := hc_text_free hc - int (str_len r)\<rparr>)"
    "length buf = text_size hc" "str_at buf (hc_last_text hc) = text_val strings r"
    "strlen_at buf (hc_last_text hc) = str_len r - 1" "\<forall>i < hc_last_text hc. buf ! i = hc_text hc ! i"
proof -
  have "0 < str_len r" "str_len r - 1 \<le> length (str_of strings r)" "0 \<notin> set (take (str_len r - 1) (str_of strings r))"
    using assms(1) by (auto simp: str_ok_def str_of_def text_val_def)
  then show thesis
    using DCadd_text_result [of "str_len r" hc "str_of strings r" thesis] assms(2,3) that unfolding text_val_def by blast
qed

lemma fills_str:
  assumes str: "str_ok strings (iv_value_str v)"
    and g: "\<And>h. dh_num (g h) = dh_num h" "\<And>h. dh_itemid (g h) = dh_itemid h" "iv_itemid v \<noteq> 0"
      "\<And>h p. entry_ptrs ((g h)\<lparr>dh_value_orig := Du_str p\<rparr>) = [p]"
      "\<And>buf h p. str_at buf p = text_val strings (iv_value_str v) \<Longrightarrow>
        view_entry (abs_entry buf ((g (h\<lparr>dh_itemid := iv_itemid v, dh_ts := ts\<rparr>))\<lparr>dh_value_orig := Du_str p\<rparr>)) = val"
  shows "fills (fill_str strings v g ts) (str_len (iv_value_str v)) val"
  unfolding fills_def
proof (intro allI impI)
  fix f hc
  let ?n = "str_len (iv_value_str v)"
  assume a: "last_place f hc \<and> hc_last_text hc \<le> text_size hc \<and> ?n \<le> free_len hc \<and> dh_num (hc_history hc ! f) = 1"
  let ?h1 = "g ((hc_history hc ! f)\<lparr>dh_itemid := iv_itemid v, dh_ts := ts\<rparr>)"
  let ?hc1 = "upd_entry f (\<lambda>h. g (h\<lparr>dh_itemid := iv_itemid v, dh_ts := ts\<rparr>)) hc"
  let ?e = "?h1\<lparr>dh_value_orig := Du_str (hc_last_text hc)\<rparr>"
  have "?n \<le> free_len ?hc1" "hc_last_text ?hc1 \<le> text_size ?hc1" using a by simp_all
  from text_added [OF str this] obtain buf where b:
    "DCadd_text (str_of strings (iv_value_str v)) ?n ?hc1 = (hc_last_text hc, ?hc1\<lparr>hc_text := buf,
      hc_last_text := hc_last_text hc + ?n, hc_text_free := hc_text_free hc - int ?n\<rparr>)"
    "length buf = text_size hc" "str_at buf (hc_last_text hc) = text_val strings (iv_value_str v)"
    "strlen_at buf (hc_last_text hc) = ?n - 1" "\<forall>i < hc_last_text hc. buf ! i = hc_text hc ! i"
    by auto
  define hc2 where "hc2 = fill_str strings v g ts f hc"
  have hc2: "hc2 = upd_entry f (\<lambda>h. h\<lparr>dh_value_orig := Du_str (hc_last_text hc)\<rparr>) (?hc1\<lparr>hc_text := buf,
      hc_last_text := hc_last_text hc + ?n, hc_text_free := hc_text_free hc - int ?n\<rparr>)"
    by (simp add: hc2_def fill_str_def b(1))
  have w: "window hc2 = butlast (window hc) @ [?e]"
    unfolding hc2 using a by (simp add: window_upd_last)
  have f: "hc_text hc2 = buf" "hc_last_text hc2 = hc_last_text hc + ?n" "hc_text_free hc2 = hc_text_free hc - int ?n"
    "ring_ok hc2" "hc_gap_num hc2 = hc_gap_num hc" "hist_size hc2 = hist_size hc" "hc_num hc2 = hc_num hc" "hist_rest hc2 = hist_rest hc"
    using a last_place_ring [of f hc] by (simp_all add: hc2)
  have p: "0 < ?n" using str by (simp add: str_ok_def)
  have "laid_out buf (hc_last_text hc) [hc_last_text hc] (hc_last_text hc + ?n)" using b(2,4) a p by auto
  moreover have "view_entry (abs_entry buf ?e) = val" by (rule g(5) [OF b(3)])
  moreover have "texts_len buf [hc_last_text hc] = ?n" using b(4) p by simp
  moreover have "entry_typed ?e" "live ?e" "dh_num ?e = 1" using g a by (simp_all add: entry_typed_def)
  ultimately show "\<exists>e. window (fill_str strings v g ts f hc) = butlast (window hc) @ [e] \<and> ring_ok (fill_str strings v g ts f hc) \<and>
      hc_gap_num (fill_str strings v g ts f hc) = hc_gap_num hc \<and> text_size (fill_str strings v g ts f hc) = text_size hc \<and>
      hist_size (fill_str strings v g ts f hc) = hist_size hc \<and> hc_num (fill_str strings v g ts f hc) = hc_num hc \<and>
      hist_rest (fill_str strings v g ts f hc) = hist_rest hc \<and>
      (\<forall>i < hc_last_text hc. hc_text (fill_str strings v g ts f hc) ! i = hc_text hc ! i) \<and>
      entry_typed e \<and> live e \<and> dh_num e = 1 \<and>
      laid_out (hc_text (fill_str strings v g ts f hc)) (hc_last_text hc) (entry_ptrs e) (hc_last_text (fill_str strings v g ts f hc)) \<and>
      hc_last_text (fill_str strings v g ts f hc) = hc_last_text hc + ?n \<and>
      hc_text_free (fill_str strings v g ts f hc) = hc_text_free hc - int ?n \<and>
      texts_len (hc_text (fill_str strings v g ts f hc)) (entry_ptrs e) = ?n \<and>
      view_entry (abs_entry (hc_text (fill_str strings v g ts f hc)) e) = val"
    unfolding hc2_def [symmetric] using w f b(2,5) g(4) by (intro exI [of _ ?e]) simp
qed

lemma fills_log:
  assumes str: "str_ok strings (iv_value_str v)" "str_len (iv_source v) \<noteq> 0 \<Longrightarrow> str_ok strings (iv_source v)"
    and id: "iv_itemid v \<noteq> 0"
  shows "fills (fill_log strings v ts) (str_len (iv_value_str v) + str_len (iv_source v))
    (iv_itemid v, ts, Q_log (text_val strings (iv_value_str v))
       (if str_len (iv_source v) \<noteq> 0 then Some (text_val strings (iv_source v)) else None)
       (iv_timestamp v) (iv_severity v) (iv_logeventid v) (iv_lastlogsize v) (iv_mtime v))"
  unfolding fills_def
proof (intro allI impI)
  fix f :: nat and hc :: dc_cache
  let ?n = "str_len (iv_value_str v)" and ?m = "str_len (iv_source v)" and ?lt = "hc_last_text hc"
  assume a: "last_place f hc \<and> ?lt \<le> text_size hc \<and> ?n + ?m \<le> free_len hc \<and> dh_num (hc_history hc ! f) = 1"
  let ?g1 = "\<lambda>h. (h\<lparr>dh_itemid := iv_itemid v, dh_ts := ts\<rparr>)\<lparr>dh_state := ITEM_STATE_NORMAL, dh_value_type := ITEM_VALUE_TYPE_LOG\<rparr>"
  let ?hc1 = "upd_entry f ?g1 hc"
  have "?n \<le> free_len ?hc1" "hc_last_text ?hc1 \<le> text_size ?hc1" using a by simp_all
  from text_added [OF str(1) this] obtain buf where b:
    "DCadd_text (str_of strings (iv_value_str v)) ?n ?hc1 = (?lt, ?hc1\<lparr>hc_text := buf,
      hc_last_text := ?lt + ?n, hc_text_free := hc_text_free hc - int ?n\<rparr>)"
    "length buf = text_size hc" "str_at buf ?lt = text_val strings (iv_value_str v)"
    "strlen_at buf ?lt = ?n - 1" "\<forall>i < ?lt. buf ! i = hc_text hc ! i" by auto
  define hc2 where "hc2 = upd_entry f (\<lambda>h. h\<lparr>dh_value_null := False, dh_timestamp := iv_timestamp v\<rparr>)
    (upd_entry f (\<lambda>h. h\<lparr>dh_value_orig := Du_str ?lt\<rparr>) (?hc1\<lparr>hc_text := buf,
      hc_last_text := ?lt + ?n, hc_text_free := hc_text_free hc - int ?n\<rparr>))"
  have f2: "hc_text hc2 = buf" "hc_last_text hc2 = ?lt + ?n" "hc_text_free hc2 = hc_text_free hc - int ?n"
    "ring_ok hc2" "last_place f hc2" "hc_gap_num hc2 = hc_gap_num hc" "hist_size hc2 = hist_size hc"
    "hc_num hc2 = hc_num hc" "hist_rest hc2 = hist_rest hc"
    "hc_history hc2 ! f = (?g1 (hc_history hc ! f))\<lparr>dh_value_orig := Du_str ?lt, dh_value_null := False, dh_timestamp := iv_timestamp v\<rparr>"
    "butlast (window hc2) = butlast (window hc)"
    using a last_place_ring [of f hc] by (simp_all add: hc2_def window_upd_last)
  have p: "0 < ?n" using str(1) by (simp add: str_ok_def)
  let ?last = "\<lambda>h. h\<lparr>dh_severity := iv_severity v, dh_logeventid := iv_logeventid v,
           dh_lastlogsize := iv_lastlogsize v, dh_mtime := iv_mtime v\<rparr>"
  define e where "e u = ?last ((hc_history hc2 ! f)\<lparr>dh_value := u\<rparr>)" for u
  have e: "entry_typed (e (Du_ui64 0))" "entry_typed (e (Du_str q))" "live (e u)" "dh_num (e u) = 1"
    "entry_ptrs (e (Du_ui64 0)) = [?lt]" "entry_ptrs (e (Du_str q)) = [?lt, q]" for u q
    using a id by (simp_all add: e_def f2(10) entry_typed_def entry_ptrs_def)
  have ve: "view_entry (abs_entry buf' (e (Du_ui64 0))) = (iv_itemid v, ts, Q_log (str_at buf' ?lt) None
      (iv_timestamp v) (iv_severity v) (iv_logeventid v) (iv_lastlogsize v) (iv_mtime v))"
    "view_entry (abs_entry buf' (e (Du_str q))) = (iv_itemid v, ts, Q_log (str_at buf' ?lt) (Some (str_at buf' q))
      (iv_timestamp v) (iv_severity v) (iv_logeventid v) (iv_lastlogsize v) (iv_mtime v))" for buf' q
    by (simp_all add: abs_entry_def e(5,6) view_entry_def, simp_all add: e_def f2(10))
  show "\<exists>e. window (fill_log strings v ts f hc) = butlast (window hc) @ [e] \<and> ring_ok (fill_log strings v ts f hc) \<and>
      hc_gap_num (fill_log strings v ts f hc) = hc_gap_num hc \<and> text_size (fill_log strings v ts f hc) = text_size hc \<and>
      hist_size (fill_log strings v ts f hc) = hist_size hc \<and> hc_num (fill_log strings v ts f hc) = hc_num hc \<and>
      hist_rest (fill_log strings v ts f hc) = hist_rest hc \<and>
      (\<forall>i < hc_last_text hc. hc_text (fill_log strings v ts f hc) ! i = hc_text hc ! i) \<and>
      entry_typed e \<and> live e \<and> dh_num e = 1 \<and>
      laid_out (hc_text (fill_log strings v ts f hc)) (hc_last_text hc) (entry_ptrs e) (hc_last_text (fill_log strings v ts f hc)) \<and>
      hc_last_text (fill_log strings v ts f hc) = hc_last_text hc + (?n + ?m) \<and>
      hc_text_free (fill_log strings v ts f hc) = hc_text_free hc - int (?n + ?m) \<and>
      texts_len (hc_text (fill_log strings v ts f hc)) (entry_ptrs e) = ?n + ?m \<and>
      view_entry (abs_entry (hc_text (fill_log strings v ts f hc)) e) = (iv_itemid v, ts, Q_log (text_val strings (iv_value_str v))
       (if ?m \<noteq> 0 then Some (text_val strings (iv_source v)) else None)
       (iv_timestamp v) (iv_severity v) (iv_logeventid v) (iv_lastlogsize v) (iv_mtime v))"
  proof (cases "?m = 0")
    case True
    define hc3 where "hc3 = upd_entry f ?last (upd_entry f (\<lambda>h. h\<lparr>dh_value := Du_ui64 0\<rparr>) hc2)"
    have eq: "fill_log strings v ts f hc = hc3"
      by (simp add: fill_log_def fill_str_def b(1) True hc2_def hc3_def)
    have w: "window hc3 = butlast (window hc) @ [e (Du_ui64 0)]"
      by (simp add: hc3_def window_upd_last f2(5,11) e_def)
    show ?thesis unfolding eq
      by (rule exI [of _ "e (Du_ui64 0)"]) (use True w e f2 ve(1) b a p in \<open>auto simp: hc3_def\<close>)
  next
    case False
    have "?m \<le> free_len hc2" "hc_last_text hc2 \<le> text_size hc2" using a f2(1,2) b(2) by auto
    from text_added [OF str(2) [OF False] this] obtain buf1 where c:
      "DCadd_text (str_of strings (iv_source v)) ?m hc2 = (?lt + ?n, hc2\<lparr>hc_text := buf1,
        hc_last_text := ?lt + ?n + ?m, hc_text_free := hc_text_free hc - int ?n - int ?m\<rparr>)"
      "length buf1 = text_size hc" "str_at buf1 (?lt + ?n) = text_val strings (iv_source v)"
      "strlen_at buf1 (?lt + ?n) = ?m - 1" "\<forall>i < ?lt + ?n. buf1 ! i = buf ! i" using f2(1-3) b(2) by auto
    have keep: "str_at buf1 ?lt = str_at buf ?lt" "strlen_at buf1 ?lt = strlen_at buf ?lt"
      using str_at_cong [of ?lt buf ?lt buf1] b(2,4) c(2,5) a p by auto
    let ?hc3 = "hc2\<lparr>hc_text := buf1, hc_last_text := ?lt + ?n + ?m, hc_text_free := hc_text_free hc - int ?n - int ?m\<rparr>"
    define hc3 where "hc3 = upd_entry f ?last (upd_entry f (\<lambda>h. h\<lparr>dh_value := Du_str (?lt + ?n)\<rparr>) ?hc3)"
    have c1: "DCadd_text (str_of strings (iv_source v)) ?m hc2 = (?lt + ?n, ?hc3)" by (rule c(1))
    have hc2': "upd_entry f (\<lambda>h. h\<lparr>dh_value_null := False, dh_timestamp := iv_timestamp v\<rparr>) (fill_str strings v
        (\<lambda>h. h\<lparr>dh_state := ITEM_STATE_NORMAL, dh_value_type := ITEM_VALUE_TYPE_LOG\<rparr>) ts f hc) = hc2"
      by (simp add: fill_str_def b(1) hc2_def)
    have eq: "fill_log strings v ts f hc = hc3"
      unfolding fill_log_def Let_def hc2' using False by (simp add: c1 hc3_def)
    have w: "window hc3 = butlast (window hc) @ [e (Du_str (?lt + ?n))]"
      by (simp add: hc3_def window_upd_last f2(5,11) e_def)
    have f3: "hc_text hc3 = buf1" "hc_last_text hc3 = ?lt + ?n + ?m" "hc_text_free hc3 = hc_text_free hc - int ?n - int ?m"
      "ring_ok hc3" "hc_gap_num hc3 = hc_gap_num hc" "hist_size hc3 = hist_size hc" "hc_num hc3 = hc_num hc" "hist_rest hc3 = hist_rest hc"
      by (simp_all add: hc3_def f2)
    have "laid_out buf1 ?lt [?lt, ?lt + ?n] (?lt + ?n + ?m)" "texts_len buf1 [?lt, ?lt + ?n] = ?n + ?m"
      using b(4) c(2,4) keep a p False by auto
    then show ?thesis unfolding eq
      by (intro exI [of _ "e (Du_str (?lt + ?n))"]) (use False w e f3 ve(2) b(2,3,5) c(2,3,5) keep in auto)
  qed
qed

subsection \<open>Room\<close>

text \<open>
  The cache has room for \<open>n\<close> values with \<open>t\<close> bytes of text: it is there, or closing the gaps makes it. Gaps
  are only closed when more than a hundredth of the ring, or a thousandth of the text buffer, is to be gained.
\<close>

definition room :: "nat \<Rightarrow> nat \<Rightarrow> dc_cache \<Rightarrow> bool" where
  "room n t hc \<longleftrightarrow>
    (hc_num hc + n \<le> hist_size hc \<or>
      (int (hist_size hc div 100) < hc_gap_num hc \<and> length (queue hc) + n \<le> hist_size hc)) \<and>
    (t \<le> free_len hc \<or>
      (int (text_size hc div 1024) + int t \<le> hc_text_free hc \<and> texts_len (hc_text hc) (texts_of (window hc)) + t \<le> text_size hc))"

lemma texts_len_filter: "texts_len buf (texts_of (filter P hs)) \<le> texts_len buf (texts_of hs)"
  by (induction hs) auto

lemma texts_len_laid_out: "laid_out buf lo ps hi \<Longrightarrow> lo + texts_len buf ps \<le> hi"
  by (induction ps arbitrary: lo) fastforce+

text \<open>One more text of the entries fits before as after a move of the others.\<close>

lemma vacuum_ring_room:
  assumes "hist_ok hc" "room (Suc n) t hc"
  defines "hc1 \<equiv> (if hc_num hc = hist_size hc then DCvacuum_history hc else hc)"
  shows "hist_ok hc1 \<and> queue hc1 = queue hc \<and> hist_size hc1 = hist_size hc \<and> text_size hc1 = text_size hc \<and>
    hc_num hc1 < hist_size hc1 \<and> room (Suc n) t hc1 \<and> hist_rest hc1 = hist_rest hc"
proof (cases "hc_num hc = hist_size hc")
  case False
  then have "hc_num hc < hist_size hc" using assms(1) by (simp add: hist_ok_def ring_ok_def)
  then show ?thesis using False assms by simp
next
  case True
  note v = DCvacuum_history_ok [OF assms(1)]
  have gap: "int (hist_size hc div 100) < hc_gap_num hc" and len: "length (queue hc) + Suc n \<le> hist_size hc"
    using assms(2) True by (auto simp: room_def)
  have num: "hc_num (DCvacuum_history hc) = length (queue hc)" using v gap by blast
  have w: "window (DCvacuum_history hc) = filter live (window hc)" and tf: "hc_text_free (DCvacuum_history hc) = hc_text_free hc"
  proof -
    from DCvacuum_history_result [of hc] gap assms(1) obtain h' where
      eq: "DCvacuum_history hc = hc\<lparr>hc_history := h', hc_first := hc_first (DCvacuum_history hc),
        hc_num := hc_num (DCvacuum_history hc), hc_gap_num := 0\<rparr>" and
      w: "window (DCvacuum_history hc) = filter live (window hc)" by (auto simp: hist_ok_def)
    show "hc_text_free (DCvacuum_history hc) = hc_text_free hc" by (subst eq) simp
    show "window (DCvacuum_history hc) = filter live (window hc)" by (rule w)
  qed
  have "texts_len (hc_text hc) (texts_of (filter live (window hc))) \<le> texts_len (hc_text hc) (texts_of (window hc))"
    by (rule texts_len_filter)
  then have "room (Suc n) t (DCvacuum_history hc)"
    using assms(2) v num len w tf unfolding room_def by auto
  then show ?thesis using v num len True unfolding hc1_def by auto
qed


lemma DCget_history_ptr_room:
  assumes "hist_ok hc" "room (Suc n) (need + t) hc" "need \<le> text_size hc"
  obtains hc1 where "DCget_history_ptr others need hc = Some (Inr (new_place hc1))" "hist_ok hc1"
    "queue hc1 = queue hc" "hist_size hc1 = hist_size hc" "text_size hc1 = text_size hc"
    "hc_num hc1 < hist_size hc1" "need \<le> free_len hc1" "room (Suc n) (need + t) hc1" "hist_rest hc1 = hist_rest hc"
proof -
  define hc1 where "hc1 = (if hc_num hc = hist_size hc then DCvacuum_history hc else hc)"
  have r1: "hist_ok hc1" "queue hc1 = queue hc" "hist_size hc1 = hist_size hc" "text_size hc1 = text_size hc"
    "hc_num hc1 < hist_size hc1" "room (Suc n) (need + t) hc1" "hist_rest hc1 = hist_rest hc"
    using vacuum_ring_room [OF assms(1,2)] by (simp_all add: hc1_def)
  have eq: "DCget_history_ptr others need hc =
    (if need = 0 then Some (Inr (new_place hc1))
     else if free_len hc1 < need then
       (let hc2 = DCvacuum_text hc1
        in if free_len hc2 < need then DCget_history_ptr others need (dc_sleep others hc2)
           else Some (Inr (new_place hc2)))
     else Some (Inr (new_place hc1)))"
    by (subst DCget_history_ptr.simps) (use r1 assms(3) in \<open>simp add: hc1_def [symmetric] Let_def\<close>)
  show thesis
  proof (cases "need = 0 \<or> need \<le> free_len hc1")
    case True
    then show thesis using eq r1 by (intro that [of hc1]) auto
  next
    case False
    define hc2 where "hc2 = DCvacuum_text hc1"
    note v = DCvacuum_text_ok [OF r1(1), folded hc2_def] and w = DCvacuum_text_frame [OF r1(1), folded hc2_def]
    have txts: "int (text_size hc1 div 1024) + int (need + t) \<le> hc_text_free hc1"
      "texts_len (hc_text hc1) (texts_of (window hc1)) + (need + t) \<le> text_size hc1"
      using r1(6) False by (auto simp: room_def)
    then have lt: "hc_last_text hc2 = texts_len (hc_text hc1) (texts_of (window hc1))" using v False by auto
    then have fit: "need + t \<le> free_len hc2" using txts(2) v by auto
    then have "DCget_history_ptr others need hc = Some (Inr (new_place hc2))"
      using eq False by (simp add: hc2_def [symmetric])
    moreover have "room (Suc n) (need + t) hc2" using fit r1(6) v w by (auto simp: room_def)
    ultimately show thesis using r1 v w fit by (intro that [of hc2]) auto
  qed
qed

lemma queue_frame [simp]:
  "queue (hc\<lparr>hc_last_ts := ts\<rparr>) = queue hc" "queue (hc\<lparr>hc_stats := st\<rparr>) = queue hc"
  "queue (hc\<lparr>hc_itemids := ids\<rparr>) = queue hc" "queue (hc\<lparr>hc_waits := k\<rparr>) = queue hc"
  by (simp_all add: queue_def)

lemma hist_ok_frame [simp]:
  "hist_ok (hc\<lparr>hc_last_ts := ts\<rparr>) = hist_ok hc" "hist_ok (hc\<lparr>hc_stats := st\<rparr>) = hist_ok hc"
  "hist_ok (hc\<lparr>hc_itemids := ids\<rparr>) = hist_ok hc"
  by (simp_all add: hist_ok_def)

lemma room_frame [simp]:
  "room n t (hc\<lparr>hc_last_ts := ts\<rparr>) = room n t hc" "room n t (hc\<lparr>hc_stats := st\<rparr>) = room n t hc"
  by (simp_all add: room_def)

abbreviation viewed :: "dc_cache \<Rightarrow> (u64 \<times> zbx_timespec \<times> queued_value) list" where
  "viewed hc \<equiv> map view_entry (queue hc)"

text \<open>With room, adding a value appends it to the queue, waits for nobody and keeps the room for the rest.\<close>

lemma add_entry_result:
  assumes ok: "hist_ok hc" "room (Suc n) (need + t) hc" "need \<le> text_size hc"
    and fill: "fills (fill (fst (DCcheck_ns (iv_ts v) hc))) need val"
  shows "\<exists>hc'. add_entry others v need fill count_in hc = Some (Inr hc') \<and> hist_ok hc' \<and>
    viewed hc' = viewed hc @ [val] \<and> room n t hc' \<and> hist_size hc' = hist_size hc \<and> text_size hc' = text_size hc \<and>
    hc_last_ts hc' = hc_last_ts (snd (DCcheck_ns (iv_ts v) hc)) \<and> hc_stats hc' = count_in (hc_stats hc)"
proof -
  obtain ts hca where ns: "DCcheck_ns (iv_ts v) hc = (ts, hca)" by fastforce
  have a: "hist_ok hca" "room (Suc n) (need + t) hca" "need \<le> text_size hca" "queue hca = queue hc"
    "hist_size hca = hist_size hc" "text_size hca = text_size hc" "hc_stats hca = hc_stats hc"
    using ok ns by (auto simp: DCcheck_ns_def Let_def split: if_splits)
  obtain hc1 where g: "DCget_history_ptr others need hca = Some (Inr (new_place hc1))" "hist_ok hc1"
    "queue hc1 = queue hca" "hist_size hc1 = hist_size hca" "text_size hc1 = text_size hca"
    "hc_num hc1 < hist_size hc1" "need \<le> free_len hc1" "room (Suc n) (need + t) hc1" "hist_rest hc1 = hist_rest hca"
    by (rule DCget_history_ptr_room [OF a(1-3)]) blast
  note ok1 = g(2) [unfolded hist_ok_def]
  obtain f hc2 where p: "new_place hc1 = (f, hc2)" "last_place f hc2" "butlast (window hc2) = window hc1"
    "dh_num (hc_history hc2 ! f) = 1" "hc_text hc2 = hc_text hc1" "hc_last_text hc2 = hc_last_text hc1"
    "hc_text_free hc2 = hc_text_free hc1" "hc_gap_num hc2 = hc_gap_num hc1" "hist_size hc2 = hist_size hc1"
    "hc_num hc2 = hc_num hc1 + 1" "hist_rest hc2 = hist_rest hc1"
    by (rule new_place_result [OF _ g(6)]) (use ok1 in blast)+
  define hc3 where "hc3 = fill ts f hc2"
  have lt: "hc_last_text hc1 \<le> text_size hc1" using ok1 by blast
  have "last_place f hc2 \<and> hc_last_text hc2 \<le> text_size hc2 \<and> need \<le> free_len hc2 \<and> dh_num (hc_history hc2 ! f) = 1"
    unfolding p(5,6) using p(2,4) g(7) lt by blast
  with fill obtain e where e: "window hc3 = window hc1 @ [e]" "ring_ok hc3" "hc_gap_num hc3 = hc_gap_num hc1"
    "text_size hc3 = text_size hc1" "hist_size hc3 = hist_size hc1" "hc_num hc3 = hc_num hc1 + 1" "hist_rest hc3 = hist_rest hc1"
    "\<forall>i < hc_last_text hc1. hc_text hc3 ! i = hc_text hc1 ! i" "entry_typed e" "live e" "dh_num e = 1"
    "laid_out (hc_text hc3) (hc_last_text hc1) (entry_ptrs e) (hc_last_text hc3)"
    "hc_last_text hc3 = hc_last_text hc1 + need" "hc_text_free hc3 = hc_text_free hc1 - int need"
    "texts_len (hc_text hc3) (entry_ptrs e) = need" "view_entry (abs_entry (hc_text hc3) e) = val"
    unfolding fills_def hc3_def ns fst_conv using p(3,5-11) by metis
  have add: "hist_ok hc3 \<and> queue hc3 = queue hc1 @ [abs_entry (hc_text hc3) e]"
    by (rule add_done [OF g(2) e(2,1,3,4,8,9,10,11,12)]) (use e(4,13-15) g(7) lt in auto)
  have "texts_len (hc_text hc3) (texts_of (window hc1)) = texts_len (hc_text hc1) (texts_of (window hc1))"
    by (rule texts_len_cong)
      (use laid_out_cong [of "hc_text hc1" 0 "texts_of (window hc1)" "hc_last_text hc1" "hc_text hc3"] ok1 e(4,8) in auto)
  then have room3: "room n t hc3"
    using g(7,8) e add lt unfolding room_def by auto
  have "add_entry others v need fill count_in hc = Some (Inr (hc3\<lparr>hc_stats := count_in (hc_stats hc3)\<rparr>))"
    by (simp add: add_entry_def ns g(1) p(1) hc3_def Let_def)
  moreover have "hc_stats hc3 = hc_stats hc" "hc_last_ts hc3 = hc_last_ts hca"
    using e(7) g(9) a(7) by (simp_all add: hist_rest_def)
  ultimately show ?thesis
    using add room3 e(4,5,16) g(3-5) a(4-6) ns by (intro exI [of _ "hc3\<lparr>hc_stats := count_in (hc_stats hc3)\<rparr>"]) simp
qed

lemma flush_item_result:
  assumes "hist_ok hc" "room (Suc n) (text_need v + t) hc" "text_need v \<le> text_size hc" "value_ok strings v"
  shows "\<exists>hc'. flush_item strings others v hc = Some (Inr hc') \<and> hist_ok hc' \<and>
    viewed hc' = viewed hc @ [(iv_itemid v, fst (DCcheck_ns (iv_ts v) hc), queued_of strings v)] \<and>
    room n t hc' \<and> hist_size hc' = hist_size hc \<and> text_size hc' = text_size hc \<and>
    hc_last_ts hc' = hc_last_ts (snd (DCcheck_ns (iv_ts v) hc))"
proof -
  let ?ts = "fst (DCcheck_ns (iv_ts v) hc)"
  have add: ?thesis if "flush_item strings others v hc = add_entry others v need fill count_in hc" "need = text_need v"
    "fills (fill ?ts) need (iv_itemid v, ?ts, queued_of strings v)" for need fill count_in
  proof -
    have "room (Suc n) (need + t) hc" "need \<le> text_size hc" using assms(2,3) that(2) by simp_all
    from add_entry_result [of hc n need t fill v "(iv_itemid v, ?ts, queued_of strings v)" others count_in,
        OF assms(1) this that(3)]
    show ?thesis unfolding that(1) by blast
  qed
  note ok = assms(4) [unfolded value_ok_def]
  note kinds = flush_item_def has_text_def has_source_def text_need_def
  note views = entry_ptrs_def view_entry_def abs_entry_def queued_of_def
  consider (err) "iv_state v = ITEM_STATE_NOTSUPPORTED"
    | (lld) "iv_state v \<noteq> ITEM_STATE_NOTSUPPORTED" "iv_discovery_rule v"
    | (item) "iv_state v \<noteq> ITEM_STATE_NOTSUPPORTED" "\<not> iv_discovery_rule v" by blast
  then show ?thesis
  proof cases
    case err
    then have "flush_item strings others v hc = DCadd_history_notsupported strings others v hc" by (simp add: kinds)
    then show ?thesis unfolding DCadd_history_notsupported_def
        by (rule add) (use err ok in \<open>auto simp: kinds views intro!: fills_str\<close>)
  next
    case lld
    then have "flush_item strings others v hc = DCadd_history_lld strings others v hc" by (simp add: kinds)
    then show ?thesis unfolding DCadd_history_lld_def
        by (rule add) (use lld ok in \<open>auto simp: kinds views intro!: fills_str\<close>)
  next
    case item
    show ?thesis
    proof (cases "iv_value_type v")
      case ITEM_VALUE_TYPE_FLOAT
      with item have "flush_item strings others v hc = DCadd_history_dbl others v hc" by (simp add: kinds)
      then show ?thesis unfolding DCadd_history_dbl_def
        by (rule add) (use item ITEM_VALUE_TYPE_FLOAT ok in \<open>auto simp: kinds views intro!: fills_number\<close>)
    next
      case ITEM_VALUE_TYPE_UINT64
      with item have "flush_item strings others v hc = DCadd_history_uint others v hc" by (simp add: kinds)
      then show ?thesis unfolding DCadd_history_uint_def
        by (rule add) (use item ITEM_VALUE_TYPE_UINT64 ok in \<open>auto simp: kinds views intro!: fills_number\<close>)
    next
      case ITEM_VALUE_TYPE_STR
      with item have "flush_item strings others v hc = DCadd_history_str strings others v hc" by (simp add: kinds)
      then show ?thesis unfolding DCadd_history_str_def
        by (rule add) (use item ITEM_VALUE_TYPE_STR ok in \<open>auto simp: kinds views intro!: fills_str\<close>)
    next
      case ITEM_VALUE_TYPE_TEXT
      with item have "flush_item strings others v hc = DCadd_history_text strings others v hc" by (simp add: kinds)
      then show ?thesis unfolding DCadd_history_text_def
        by (rule add) (use item ITEM_VALUE_TYPE_TEXT ok in \<open>auto simp: kinds views intro!: fills_str\<close>)
    next
      case ITEM_VALUE_TYPE_LOG
      with item have "flush_item strings others v hc = DCadd_history_log strings others v hc" by (simp add: kinds)
      moreover have "fills (fill_log strings v ?ts) (str_len (iv_value_str v) + str_len (iv_source v)) (iv_itemid v, ?ts, queued_of strings v)"
        using fills_log [of strings v ?ts] item ITEM_VALUE_TYPE_LOG ok by (auto simp: kinds queued_of_def)
      ultimately show ?thesis
        using add [of "str_len (iv_value_str v) + str_len (iv_source v)" "fill_log strings v"] item ITEM_VALUE_TYPE_LOG
        by (auto simp: DCadd_history_log_def kinds)
    qed
  qed
qed

text \<open>The values of a batch with their time stamps; those without nanoseconds are numbered by the counter \<open>last_ts\<close>.\<close>

fun stamped :: "u8 list \<Rightarrow> dc_cache \<Rightarrow> dc_item_value list \<Rightarrow> (u64 \<times> zbx_timespec \<times> queued_value) list" where
  "stamped strings hc [] = []"
| "stamped strings hc (v # vs) =
    (let (ts, hc1) = DCcheck_ns (iv_ts v) hc in (iv_itemid v, ts, queued_of strings v) # stamped strings hc1 vs)"

lemma DCcheck_ns_cong:
  "hc_last_ts hc' = hc_last_ts hc \<Longrightarrow> fst (DCcheck_ns ts hc') = fst (DCcheck_ns ts hc) \<and>
    hc_last_ts (snd (DCcheck_ns ts hc')) = hc_last_ts (snd (DCcheck_ns ts hc))"
  by (simp add: DCcheck_ns_def Let_def)

lemma stamped_cong: "hc_last_ts hc' = hc_last_ts hc \<Longrightarrow> stamped strings hc' vs = stamped strings hc vs"
proof (induction vs arbitrary: hc hc')
  case (Cons v vs)
  from DCcheck_ns_cong [OF Cons.prems, of "iv_ts v"] Cons.IH [of "snd (DCcheck_ns (iv_ts v) hc')" "snd (DCcheck_ns (iv_ts v) hc)"]
  show ?case by (simp add: split_beta)
qed simp

lemma room_text_size: "room n t hc \<Longrightarrow> t \<le> text_size hc"
  by (auto simp: room_def)

lemma flush_loop_result:
  assumes "hist_ok hc" "room (length vs) (sum_list (map text_need vs)) hc" "\<forall>v \<in> set vs. value_ok strings v"
  shows "\<exists>hc'. flush_loop strings others vs hc = Some (Inr hc') \<and> hist_ok hc' \<and>
    viewed hc' = viewed hc @ stamped strings hc vs \<and> hist_size hc' = hist_size hc \<and> text_size hc' = text_size hc"
  using assms
proof (induction vs arbitrary: hc)
  case (Cons v vs)
  let ?t = "sum_list (map text_need vs)"
  have r: "room (Suc (length vs)) (text_need v + ?t) hc" using Cons.prems(2) by simp
  then have "text_need v \<le> text_size hc" using room_text_size by fastforce
  with flush_item_result [OF Cons.prems(1) r] Cons.prems(3) obtain hc1 where
    one: "flush_item strings others v hc = Some (Inr hc1)" "hist_ok hc1"
    "viewed hc1 = viewed hc @ [(iv_itemid v, fst (DCcheck_ns (iv_ts v) hc), queued_of strings v)]"
    "room (length vs) ?t hc1" "hist_size hc1 = hist_size hc" "text_size hc1 = text_size hc"
    "hc_last_ts hc1 = hc_last_ts (snd (DCcheck_ns (iv_ts v) hc))" by fastforce
  from Cons.IH [OF one(2,4)] Cons.prems(3) obtain hc2 where
    rest: "flush_loop strings others vs hc1 = Some (Inr hc2)" "hist_ok hc2"
    "viewed hc2 = viewed hc1 @ stamped strings hc1 vs" "hist_size hc2 = hist_size hc1" "text_size hc2 = text_size hc1" by auto
  have "stamped strings hc (v # vs) = (iv_itemid v, fst (DCcheck_ns (iv_ts v) hc), queued_of strings v) # stamped strings hc1 vs"
    using stamped_cong [OF one(7)] by (simp add: split_beta)
  then show ?case using one rest by (intro exI [of _ hc2]) simp
qed simp

text \<open>
  C39. Flushing the values a process has collected appends all of them to the queue of the shared cache, in
  their order and with their texts; the process waits for nobody when there is room for them, counting what
  closing the gaps in the ring and in the text buffer gains. The cache stays well-formed and the process
  has collected nothing afterwards.
\<close>

theorem dc_flush_history_queues:
  assumes "hist_ok hc" "room (item_values_num lv) (sum_list (map text_need (take (item_values_num lv) (item_values_buf lv)))) hc"
    "item_values_num lv \<le> length (item_values_buf lv)"
    "\<forall>v \<in> set (take (item_values_num lv) (item_values_buf lv)). value_ok (string_values lv) v"
  shows "\<exists>lv' hc'. dc_flush_history others lv hc = Some (Inr (lv', hc')) \<and> item_values_num lv' = 0 \<and> hist_ok hc' \<and>
    map view_entry (queue hc') = map view_entry (queue hc) @
      stamped (string_values lv) hc (take (item_values_num lv) (item_values_buf lv)) \<and>
    hist_size hc' = hist_size hc \<and> text_size hc' = text_size hc"
proof (cases "item_values_num lv = 0")
  case True
  then show ?thesis using assms(1) by (simp add: dc_flush_history_def)
next
  case False
  have "room (length (take (item_values_num lv) (item_values_buf lv)))
    (sum_list (map text_need (take (item_values_num lv) (item_values_buf lv)))) hc" using assms(2,3) by (simp add: min_absorb2)
  from flush_loop_result [OF assms(1) this assms(4), of others] False show ?thesis
    by (auto simp: dc_flush_history_def)
qed

text \<open>An example: a full ring with a gap in the middle, and a value with a string to be added.\<close>

definition sample_entry :: "u64 \<Rightarrow> item_value_type \<Rightarrow> dc_union \<Rightarrow> dc_history" where
  "sample_entry itemid t v =
    \<lparr>dh_itemid = itemid, dh_value_orig = v, dh_value = Du_ui64 0, dh_lastlogsize = 0, dh_ts = \<lparr>ts_sec = 100, ts_ns = 0\<rparr>,
     dh_timestamp = 0, dh_severity = 0, dh_logeventid = 0, dh_mtime = 0, dh_num = 1, dh_value_type = t, dh_value_null = False,
     dh_keep_history = False, dh_keep_trends = False, dh_state = ITEM_STATE_NORMAL\<rparr>"

definition sample_history :: dc_cache where
  "sample_history =
    \<lparr>hc_stats = \<lparr>history_counter = 3, history_float_counter = 0, history_uint_counter = 1, history_str_counter = 2,
       history_log_counter = 0, history_text_counter = 0, notsupported_counter = 0\<rparr>,
     hc_history = [sample_entry 0 ITEM_VALUE_TYPE_STR (Du_str 0), sample_entry 7 ITEM_VALUE_TYPE_STR (Du_str 3),
       sample_entry 7 ITEM_VALUE_TYPE_UINT64 (Du_ui64 42)],
     hc_text = [97, 98, 0, 99, 0, 0, 0, 0], hc_itemids = [], hc_last_text = 5, hc_first = 2, hc_num = 3, hc_gap_num = 1,
     hc_text_free = 6, hc_itemids_alloc = 2, hc_last_ts = \<lparr>ts_sec = 100, ts_ns = 5\<rparr>, hc_waits = 0\<rparr>"

definition sample_values :: local_values where
  "sample_values =
    \<lparr>string_values = [120, 121, 0], string_values_offset = 3,
     item_values_buf = [\<lparr>iv_itemid = 9, iv_value_dbl = 0, iv_value_uint = 0, iv_value_str = \<lparr>pvalue = 0, str_len = 3\<rparr>,
       iv_ts = \<lparr>ts_sec = 101, ts_ns = -1\<rparr>, iv_source = \<lparr>pvalue = 0, str_len = 0\<rparr>, iv_lastlogsize = 0, iv_timestamp = 0,
       iv_severity = 0, iv_logeventid = 0, iv_mtime = 0, iv_value_type = ITEM_VALUE_TYPE_STR, iv_state = ITEM_STATE_NORMAL,
       iv_discovery_rule = False\<rparr>],
     item_values_num = 1\<rparr>"

lemma sample_history_ok: "hist_ok sample_history"
  by code_simp

lemma dc_flush_history_queues_witness:
  "\<exists>lv' hc'. dc_flush_history (\<lambda>_ hc. hc) sample_values sample_history = Some (Inr (lv', hc')) \<and> item_values_num lv' = 0 \<and>
    hist_ok hc' \<and> map view_entry (queue hc') = map view_entry (queue sample_history) @
      [(9, \<lparr>ts_sec = 101, ts_ns = 5\<rparr>, Q_str [120, 121])]"
proof -
  have n: "item_values_num sample_values = 1" "item_values_num sample_values \<le> length (item_values_buf sample_values)"
    by (simp_all add: sample_values_def)
  have "room 1 (sum_list (map text_need (take 1 (item_values_buf sample_values)))) sample_history"
    by code_simp
  moreover have "\<forall>v \<in> set (take 1 (item_values_buf sample_values)). value_ok (string_values sample_values) v"
    by code_simp
  moreover have "stamped (string_values sample_values) sample_history (take 1 (item_values_buf sample_values)) =
      [(9, \<lparr>ts_sec = 101, ts_ns = 5\<rparr>, Q_str [120, 121])]" by code_simp
  ultimately show ?thesis
    using dc_flush_history_queues [OF sample_history_ok, of sample_values "\<lambda>_ hc. hc"] n by auto
qed

text \<open>A text that cannot fit even into an empty buffer ends the process.\<close>

lemma DCget_history_ptr_too_long:
  assumes "hist_ok hc" "hc_num hc < hist_size hc" "text_size hc < need"
  shows "DCget_history_ptr others need hc = Some (Inl (Exit_Fail ''insufficient shared memory for text cache''))"
  by (subst DCget_history_ptr.simps) (use assms in simp)

end
