(* ===== verification/HistSync.thy ===== *)
theory HistSync
  imports HistAdd
begin

text \<open>
  Taking values out of the history cache (\<^verbatim>\<open>libs/zbxdbcache/dbcache.c\<close>: \<^verbatim>\<open>DCskip_items\<close>,
  \<^verbatim>\<open>DCsync_history\<close>). A syncer takes the oldest value of every item that no other syncer is working on, so that
  the values of an item are written one after the other. Writing a batch to the database is not modelled:
  \<open>DCsync_history\<close> returns the batches it would write.

  The result of an operation is \<open>None\<close> when it never ends, \<open>Inl\<close> when it ends the process.
\<close>

subsection \<open>Operations\<close>

partial_function (option) skip_loop :: "nat \<Rightarrow> nat \<Rightarrow> nat \<Rightarrow> dc_cache \<Rightarrow> nat option" where
  "skip_loop index n num hc =
    (if num < n then
       (let f = (if hist_size hc \<le> index + num then index + num - hist_size hc else index + num)
        in if dh_itemid (hc_history hc ! index) \<noteq> dh_itemid (hc_history hc ! f) then Some num
           else skip_loop index n (num + dh_num (hc_history hc ! f)) hc)
     else Some num)"

definition DCskip_items :: "nat \<Rightarrow> nat \<Rightarrow> dc_cache \<Rightarrow> (nat \<times> dc_cache) option" where
  "DCskip_items index n hc =
    map_option (\<lambda>num.
      let hc1 = upd_entry index (\<lambda>h. h\<lparr>dh_num := num\<rparr>) hc;
          f = (if hist_size hc = index + 1 then 0 else index + 1)
      in (num, if 1 < num then upd_entry f (\<lambda>h. h\<lparr>dh_num := num - 1\<rparr>) hc1 else hc1))
    (skip_loop index n (dh_num (hc_history hc ! index)) hc)"

text \<open>A value taken out: the entry and copies of its texts, the value before the source.\<close>

definition copy_out :: "nat \<Rightarrow> dc_cache \<Rightarrow> (dc_history \<times> u8 list list) \<times> dc_cache" where
  "copy_out f hc =
    (let h = hc_history hc ! f; buf = hc_text hc;
         orig = du_str (dh_value_orig h); source = du_str (dh_value h);
         orig_sz = int (strlen_at buf orig) + 1
     in if dh_state h = ITEM_STATE_NOTSUPPORTED then
          ((h, [str_at buf orig]), hc\<lparr>hc_text_free := hc_text_free hc + orig_sz\<rparr>)
        else
          (case dh_value_type h of
             ITEM_VALUE_TYPE_LOG \<Rightarrow>
               (if dh_value h \<noteq> Du_ui64 0 then
                  ((h, [str_at buf orig, str_at buf source]),
                   hc\<lparr>hc_text_free := hc_text_free hc + (int (strlen_at buf source) + 1) + orig_sz\<rparr>)
                else ((h, [str_at buf orig]), hc\<lparr>hc_text_free := hc_text_free hc + orig_sz\<rparr>))
           | ITEM_VALUE_TYPE_STR \<Rightarrow> ((h, [str_at buf orig]), hc\<lparr>hc_text_free := hc_text_free hc + orig_sz\<rparr>)
           | ITEM_VALUE_TYPE_TEXT \<Rightarrow> ((h, [str_at buf orig]), hc\<lparr>hc_text_free := hc_text_free hc + orig_sz\<rparr>)
           | _ \<Rightarrow> ((h, []), hc)))"

definition take_entry :: "nat \<Rightarrow> dc_cache \<Rightarrow> dc_cache" where
  "take_entry f hc =
    (if f = hc_first hc then
       hc\<lparr>hc_num := hc_num hc - 1, hc_first := (if hist_size hc = hc_first hc + 1 then 0 else hc_first hc + 1)\<rparr>
     else (upd_entry f (\<lambda>h. h\<lparr>dh_itemid := 0, dh_num := 1\<rparr>) hc)\<lparr>hc_gap_num := hc_gap_num hc + 1\<rparr>)"

definition skip_gap :: "nat \<Rightarrow> nat \<Rightarrow> dc_cache \<Rightarrow> dc_cache" where
  "skip_gap f num hc =
    (if f = hc_first hc then
       (let fst1 = hc_first hc + num
        in hc\<lparr>hc_num := hc_num hc - num, hc_gap_num := hc_gap_num hc - int num,
             hc_first := (if hist_size hc \<le> fst1 then fst1 - hist_size hc else fst1)\<rparr>)
     else hc)"

type_synonym grabbed = "int \<times> (dc_history \<times> u8 list list) list \<times> dc_cache"

text \<open>
  The loop that fills a batch, on the entries from \<open>f\<close> on, of which \<open>n\<close> are left. \<open>server\<close> tells the daemon
  from a proxy, which takes the values as they come.
\<close>

partial_function (option) grab_loop ::
  "bool \<Rightarrow> nat \<Rightarrow> nat \<Rightarrow> nat \<Rightarrow> int \<Rightarrow> (dc_history \<times> u8 list list) list \<Rightarrow> dc_cache \<Rightarrow> (fatal + grabbed) option" where
  "grab_loop server sync_max n f skipped history hc =
    (if 0 < n \<and> length history < sync_max then
       (let f = (if hist_size hc \<le> f then f - hist_size hc else f)
        in if \<not> server then
             (let (h, hc1) = copy_out f hc in grab_loop server sync_max (n - 1) (f + 1) skipped (history @ [h]) (take_entry f hc1))
           else
             (case DCskip_items f n hc of
                None \<Rightarrow> None
              | Some (num, hc1) \<Rightarrow>
                  (let h = hc_history hc1 ! f
                   in if dh_itemid h = 0 then grab_loop server sync_max (n - num) (f + num) skipped history (skip_gap f num hc1)
                      else if uint64_array_exists (hc_itemids hc1) (dh_itemid h) = Succeed then
                        grab_loop server sync_max (n - num) (f + num) (if skipped = 0 then ts_sec (dh_ts h) else skipped) history hc1
                      else
                        (let skipped = (if 1 < num \<and> skipped = 0 then
                              ts_sec (dh_ts (hc_history hc1 ! (if hist_size hc1 = f + 1 then 0 else f + 1))) else skipped)
                         in case uint64_array_add (hc_itemids hc1) (hc_itemids_alloc hc1) (dh_itemid h) 0 of
                              None \<Rightarrow> Some (Inl (Exit_Fail ''Unable to reallocate buffer''))
                            | Some (_, ids, ids_alloc) \<Rightarrow>
                                (let (e, hc2) = copy_out f (hc1\<lparr>hc_itemids := ids, hc_itemids_alloc := ids_alloc\<rparr>)
                                 in grab_loop server sync_max (n - num) (f + num) skipped (history @ [e]) (take_entry f hc2))))))
     else Some (Inr (skipped, history, hc)))"

fun trim_loop :: "nat \<Rightarrow> nat \<Rightarrow> dc_cache \<Rightarrow> dc_cache" where
  "trim_loop 0 f hc = hc"
| "trim_loop (Suc n) f hc =
    (let f = (if f = 0 then hist_size hc else f) - 1
     in if dh_itemid (hc_history hc ! f) \<noteq> 0 then hc
        else trim_loop n f (hc\<lparr>hc_num := hc_num hc - 1, hc_gap_num := hc_gap_num hc - 1\<rparr>))"

definition trim :: "dc_cache \<Rightarrow> dc_cache" where
  "trim hc =
    (let f = hc_first hc + hc_num hc
     in trim_loop (hc_num hc) (if hist_size hc \<le> f then f - hist_size hc else f) hc)"

definition grab_batch :: "bool \<Rightarrow> nat \<Rightarrow> dc_cache \<Rightarrow> (fatal + grabbed) option" where
  "grab_batch server sync_max hc =
    map_option (map_sum (\<lambda>e. e) (\<lambda>(skipped, history, hc1). (skipped, history, trim hc1)))
      (grab_loop server sync_max (hc_num hc) (hc_first hc) 0 [] hc)"

text \<open>The cache while the lock is not held: \<open>others\<close> is what the other processes do then.\<close>

partial_function (option) sync_loop ::
  "bool \<Rightarrow> nat \<Rightarrow> bool \<Rightarrow> int \<Rightarrow> dc_others \<Rightarrow> int \<Rightarrow> (dc_history \<times> u8 list list) list list \<Rightarrow> dc_cache \<Rightarrow>
   (fatal + (dc_history \<times> u8 list list) list list \<times> dc_cache) option" where
  "sync_loop server sync_max full max_delay others syncs batches hc =
    (case grab_batch server sync_max hc of
       None \<Rightarrow> None
     | Some (Inl e) \<Rightarrow> Some (Inl e)
     | Some (Inr (skipped, history, hc1)) \<Rightarrow>
         (if history = [] then Some (Inr (batches, hc1))
          else
            (let hc2 = dc_sleep others hc1;
                 hc3 = (if server then
                     dc_sleep others (hc2\<lparr>hc_itemids := uint64_array_remove (hc_itemids hc2) (map (\<lambda>h. dh_itemid (fst h)) history)\<rparr>)
                   else hc2)
             in if 0 < syncs - 1 \<or> full \<or> (skipped \<noteq> 0 \<and> skipped < max_delay) then
                  sync_loop server sync_max full max_delay others (syncs - 1) (batches @ [history]) hc3
                else Some (Inr (batches @ [history], hc3)))))"

definition DCsync_history ::
  "bool \<Rightarrow> nat \<Rightarrow> bool \<Rightarrow> int \<Rightarrow> int \<Rightarrow> dc_others \<Rightarrow> dc_cache \<Rightarrow>
   (fatal + (dc_history \<times> u8 list list) list list \<times> dc_cache) option" where
  "DCsync_history server sync_max full now frequency others hc =
    (let hc1 = (if full then hc\<lparr>hc_itemids := []\<rparr> else hc)
     in if hc_num hc1 = 0 then Some (Inr ([], hc1))
        else sync_loop server sync_max full (now - frequency) others (int (hc_num hc1 div sync_max)) [] hc1)"

subsection \<open>Blocks of one item\<close>

fun skip_runs :: "nat \<Rightarrow> dc_history list \<Rightarrow> dc_history list" where
  "skip_runs num [] = []"
| "skip_runs num [b] = [b\<lparr>dh_num := num\<rparr>]"
| "skip_runs num (b # c # bs) = b\<lparr>dh_num := num\<rparr> # (if 1 < num then c\<lparr>dh_num := num - 1\<rparr> else c) # bs"

definition block_len :: "dc_history list \<Rightarrow> nat" where
  "block_len us = length (takeWhile (\<lambda>x. dh_itemid x = dh_itemid (hd us)) us)"

definition no_run :: "dc_history \<Rightarrow> dc_history" where
  "no_run h = h\<lparr>dh_num := 0\<rparr>"

lemma run_ok_append: "run_ok xs \<Longrightarrow> run_ok ys \<Longrightarrow> run_ok (xs @ ys)"
proof (induction xs)
  case (Cons x xs)
  then have "take (dh_num x) ((x # xs) @ ys) = take (dh_num x) (x # xs)" by (subst take_append) simp
  with Cons show ?case by (simp del: take_Cons)
qed simp

lemma run_ok_block:
  assumes "run_ok (bs @ us)" "\<forall>b \<in> set bs. dh_itemid b = a" "us = [] \<or> dh_itemid (hd us) \<noteq> a"
  shows "run_ok bs"
  using assms(1,2)
proof (induction bs)
  case (Cons b bs)
  note ok = Cons.prems(1) [simplified run_ok.simps append_Cons]
  have le: "dh_num b \<le> length (b # bs)"
  proof (rule ccontr)
    assume "\<not> dh_num b \<le> length (b # bs)"
    then obtain k where k: "dh_num b = length (b # bs) + Suc k" by (metis add_Suc_right less_imp_Suc_add not_le)
    then have "us \<noteq> []" using ok by auto
    then obtain u us' where us: "us = u # us'" by (cases us) auto
    then have "u \<in> set (take (dh_num b) (b # bs @ us))" unfolding k by simp
    then show False using ok Cons.prems(2) assms(3) us by auto
  qed
  then have "take (dh_num b) (b # bs) = take (dh_num b) (b # bs @ us)"
    using take_append [of "dh_num b" "b # bs" us] by simp
  with ok le Cons show ?case by (simp del: take_Cons)
qed simp

lemma run_ok_const:
  "\<forall>x \<in> set (x # xs). dh_itemid x = a \<Longrightarrow> 1 \<le> dh_num x \<Longrightarrow> dh_num x \<le> length (x # xs) \<Longrightarrow> run_ok xs \<Longrightarrow> run_ok (x # xs)"
proof -
  assume a: "\<forall>x \<in> set (x # xs). dh_itemid x = a" "1 \<le> dh_num x" "dh_num x \<le> length (x # xs)" "run_ok xs"
  have "\<forall>y \<in> set (take (dh_num x) (x # xs)). dh_itemid y = dh_itemid x"
    using a(1) by (metis in_set_takeD list.set_intros(1))
  with a(2-4) show ?thesis by (simp only: run_ok.simps simp_thms)
qed

lemma block_len_facts:
  assumes "us \<noteq> []"
  shows "0 < block_len us" "block_len us \<le> length us"
    "\<forall>b \<in> set (take (block_len us) us). dh_itemid b = dh_itemid (hd us)"
    "drop (block_len us) us = [] \<or> dh_itemid (hd (drop (block_len us) us)) \<noteq> dh_itemid (hd us)"
proof -
  let ?P = "\<lambda>x. dh_itemid x = dh_itemid (hd us)"
  have t: "take (block_len us) us = takeWhile ?P us" and d: "drop (block_len us) us = dropWhile ?P us"
    unfolding block_len_def by (simp_all add: takeWhile_eq_take [symmetric] dropWhile_eq_drop [symmetric])
  show "0 < block_len us" using assms by (cases us) (simp_all add: block_len_def)
  show "block_len us \<le> length us" unfolding block_len_def by (rule length_takeWhile_le)
  show "\<forall>b \<in> set (take (block_len us) us). dh_itemid b = dh_itemid (hd us)" unfolding t by (auto dest: set_takeWhileD)
  show "drop (block_len us) us = [] \<or> dh_itemid (hd (drop (block_len us) us)) \<noteq> dh_itemid (hd us)"
    unfolding d using hd_dropWhile [of ?P us] by blast
qed

lemma block_len_unique:
  assumes "us \<noteq> []" "n \<le> length us" "\<forall>x \<in> set (take n us). dh_itemid x = dh_itemid (hd us)"
    "n < length us \<Longrightarrow> dh_itemid (us ! n) \<noteq> dh_itemid (hd us)"
  shows "block_len us = n"
proof -
  let ?P = "\<lambda>x. dh_itemid x = dh_itemid (hd us)"
  have tail: "takeWhile ?P (drop n us) = []"
    using assms(4) by (cases "n < length us") (simp_all add: Cons_nth_drop_Suc [symmetric])
  have "takeWhile ?P (take n us @ drop n us) = take n us @ takeWhile ?P (drop n us)"
    by (rule takeWhile_append2) (use assms(3) in blast)
  then have "takeWhile ?P us = take n us" using tail by (simp del: takeWhile_append)
  then show ?thesis using assms(2) by (simp add: block_len_def)
qed

lemma skip_runs_block:
  assumes "run_ok (bs @ us)" "\<forall>b \<in> set bs. dh_itemid b = a" "us = [] \<or> dh_itemid (hd us) \<noteq> a" "bs \<noteq> []"
  obtains b bs' where "skip_runs (length bs) (bs @ us) = b # bs' @ us" "b = (hd bs)\<lparr>dh_num := length bs\<rparr>"
    "map no_run bs' = map no_run (tl bs)" "run_ok (b # bs')" "dh_itemid b = a" "\<forall>x \<in> set bs'. dh_itemid x = a" "length bs' = length bs - 1"
proof -
  have ok: "run_ok bs" by (rule run_ok_block [OF assms(1-3)])
  obtain b cs where bs: "bs = b # cs" using assms(4) by (cases bs) auto
  show thesis
  proof (cases cs)
    case Nil
    have "skip_runs (length bs) (bs @ us) = b\<lparr>dh_num := 1\<rparr> # us" unfolding bs Nil by (cases us) auto
    then show thesis using assms(2) by (intro that [of "b\<lparr>dh_num := 1\<rparr>" "[]"]) (simp_all add: bs Nil)
  next
    case (Cons c ds)
    let ?b = "b\<lparr>dh_num := length bs\<rparr>" and ?c = "c\<lparr>dh_num := length bs - 1\<rparr>"
    have "run_ok (c # ds)" using ok unfolding bs Cons run_ok.simps by blast
    then have "run_ok ds" unfolding run_ok.simps by blast
    then have ds: "run_ok ds" "\<forall>x \<in> set (?c # ds). dh_itemid x = a" "\<forall>x \<in> set (?b # ?c # ds). dh_itemid x = a"
      using assms(2) by (simp_all add: bs Cons)
    have c: "run_ok (?c # ds)" by (rule run_ok_const [OF ds(2) _ _ ds(1)]) (simp_all add: bs Cons)
    have "run_ok (?b # ?c # ds)" by (rule run_ok_const [OF ds(3) _ _ c]) (simp_all add: bs Cons)
    moreover have "skip_runs (length bs) (bs @ us) = ?b # (?c # ds) @ us" by (simp add: bs Cons)
    moreover have "map no_run (?c # ds) = map no_run (tl bs)" by (simp add: bs Cons no_run_def)
    moreover have "?b = (hd bs)\<lparr>dh_num := length bs\<rparr>" by (simp add: bs)
    moreover have "dh_itemid ?b = a" using ds(3) by simp
    moreover have "length (?c # ds) = length bs - 1" by (simp add: bs Cons)
    ultimately show thesis using ds(2) by (intro that [of ?b "?c # ds"])
  qed
qed

subsection \<open>Skipping the values of one item\<close>

lemma hist_pos_add:
  assumes "ring_ok hc" "i + k \<le> hc_num hc"
  shows "(if hist_size hc \<le> hist_pos hc i + k then hist_pos hc i + k - hist_size hc else hist_pos hc i + k) = hist_pos hc (i + k)"
proof -
  have "k \<le> hist_size hc" and lt: "hist_pos hc i < hist_size hc"
    using assms hist_pos_less [OF assms(1)] by (simp_all add: ring_ok_def)
  have "hist_pos hc (i + k) = (hist_pos hc i + k) mod hist_size hc" by (simp add: hist_pos_def mod_simps add.assoc)
  also have "\<dots> = (if hist_size hc \<le> hist_pos hc i + k then hist_pos hc i + k - hist_size hc else hist_pos hc i + k)"
    using lt \<open>k \<le> hist_size hc\<close> by (auto simp: mod_if)
  finally show ?thesis by simp
qed

lemma window_nth_append:
  assumes "window hc = ps @ us" "k < length us"
  shows "hc_history hc ! hist_pos hc (length ps + k) = us ! k" "length ps + k < hc_num hc" "hc_num hc = length ps + length us"
proof -
  show n: "hc_num hc = length ps + length us" using length_window [of hc] unfolding assms(1) by simp
  then show "length ps + k < hc_num hc" using assms(2) by simp
  then have "window hc ! (length ps + k) = hc_history hc ! hist_pos hc (length ps + k)" by simp
  then show "hc_history hc ! hist_pos hc (length ps + k) = us ! k" unfolding assms(1) by simp
qed

lemma skip_loop_result:
  assumes "ring_ok hc" "window hc = ps @ us" "us \<noteq> []" "run_ok us" "1 \<le> num" "num \<le> length us"
    "\<forall>x \<in> set (take num us). dh_itemid x = dh_itemid (hd us)"
  shows "skip_loop (hist_pos hc (length ps)) (length us) num hc = Some (block_len us)"
  using assms(5-7)
proof (induction "length us - num" arbitrary: num rule: less_induct)
  case less
  show ?case
  proof (cases "num < length us")
    case False
    then have "num = length us" using less.prems by simp
    with block_len_unique [OF assms(3), of num] less.prems(3) show ?thesis by (subst skip_loop.simps) simp
  next
    case True
    let ?i = "hist_pos hc (length ps)" and ?f = "hist_pos hc (length ps + num)" and ?u = "us ! num"
    have at_i: "hc_history hc ! ?i = hd us"
      using window_nth_append(1) [OF assms(2), of 0] assms(3) by (simp add: hd_conv_nth)
    have at_f: "hc_history hc ! ?f = ?u" and bd: "length ps + num \<le> hc_num hc"
      using window_nth_append [OF assms(2) True] by simp_all
    note f = hist_pos_add [OF assms(1) bd]
    have eq: "skip_loop ?i (length us) num hc =
      (if dh_itemid (hd us) \<noteq> dh_itemid ?u then Some num else skip_loop ?i (length us) (num + dh_num ?u) hc)"
      by (rule trans [OF skip_loop.simps]) (simp only: True if_True f at_i at_f Let_def)
    show ?thesis
    proof (cases "dh_itemid ?u = dh_itemid (hd us)")
      case False
      with eq block_len_unique [OF assms(3) less.prems(2,3)] show ?thesis by simp
    next
      case same: True
      have "drop num us = ?u # drop (Suc num) us" using True by (simp add: Cons_nth_drop_Suc)
      with run_ok_drop [OF assms(4), of num] have "run_ok (?u # drop (Suc num) us)" by simp
      then have u: "1 \<le> dh_num ?u" "dh_num ?u \<le> length (?u # drop (Suc num) us)"
        "\<forall>x \<in> set (take (dh_num ?u) (?u # drop (Suc num) us)). dh_itemid x = dh_itemid ?u"
        unfolding run_ok.simps by blast+
      have "take (num + dh_num ?u) us = take num us @ take (dh_num ?u) (drop num us)" by (rule take_add)
      then have "\<forall>x \<in> set (take (num + dh_num ?u) us). dh_itemid x = dh_itemid (hd us)"
        using less.prems(3) u(3) same \<open>drop num us = _\<close> by auto
      moreover have "num + dh_num ?u \<le> length us" using u(2) True by simp
      ultimately show ?thesis using less.hyps [of "num + dh_num ?u"] u(1) less.prems(1) True same eq by simp
    qed
  qed
qed

lemma DCskip_items_result:
  assumes "ring_ok hc" "window hc = ps @ us" "us \<noteq> []" "run_ok us"
  shows "\<exists>h'. DCskip_items (hist_pos hc (length ps)) (length us) hc = Some (block_len us, hc\<lparr>hc_history := h'\<rparr>) \<and>
    length h' = hist_size hc \<and> window (hc\<lparr>hc_history := h'\<rparr>) = ps @ skip_runs (block_len us) us"
proof -
  let ?i = "hist_pos hc (length ps)" and ?n = "block_len us"
  obtain u vs where us: "us = u # vs" using assms(3) by (cases us) auto
  have at_i: "hc_history hc ! ?i = u" and i: "length ps < hc_num hc" and num: "hc_num hc = length ps + length us"
    using window_nth_append [OF assms(2), of 0] us by simp_all
  have u: "1 \<le> dh_num u" "dh_num u \<le> length us" "\<forall>x \<in> set (take (dh_num u) us). dh_itemid x = dh_itemid (hd us)"
    using assms(4) unfolding us run_ok.simps list.sel by blast+
  have skip: "skip_loop ?i (length us) (dh_num (hc_history hc ! ?i)) hc = Some ?n"
    unfolding at_i by (rule skip_loop_result [OF assms(1-4) u])
  let ?hc1 = "hc\<lparr>hc_history := (hc_history hc)[?i := u\<lparr>dh_num := ?n\<rparr>]\<rparr>"
  have w1: "window ?hc1 = ps @ u\<lparr>dh_num := ?n\<rparr> # vs"
    unfolding window_update [OF assms(1) i] assms(2) us by simp
  have f: "(if hist_size hc = ?i + 1 then 0 else ?i + 1) = hist_pos hc (length ps + 1)"
    using hist_pos_add [OF assms(1), of "length ps" 1] hist_pos_less [OF assms(1), of "length ps"] num us by auto
  show ?thesis
  proof (cases "1 < ?n")
    case False
    then have "skip_runs ?n us = u\<lparr>dh_num := ?n\<rparr> # vs" unfolding us by (cases vs) auto
    with w1 False show ?thesis
      by (intro exI [of _ "(hc_history hc)[?i := u\<lparr>dh_num := ?n\<rparr>]"])
        (simp add: DCskip_items_def skip [unfolded at_i] upd_entry_def at_i Let_def)
  next
    case True
    then obtain v ws where vs: "vs = v # ws" using block_len_facts(2) [OF assms(3)] us by (cases vs) auto
    have ring1: "ring_ok ?hc1" and i1: "length ps + 1 < hc_num ?hc1" using assms(1) num us vs by (simp_all add: ring_ok_def)
    have at_f: "hc_history ?hc1 ! hist_pos ?hc1 (length ps + 1) = v"
      using window_nth_append(1) [of ?hc1 ps "u\<lparr>dh_num := ?n\<rparr> # vs" 1] w1 vs by simp
    have pos1: "hist_pos ?hc1 k = hist_pos hc k" for k by (simp add: hist_pos_def)
    let ?h2 = "(hc_history ?hc1)[hist_pos hc (length ps + 1) := v\<lparr>dh_num := ?n - 1\<rparr>]"
    have "window (?hc1\<lparr>hc_history := ?h2\<rparr>) = ps @ skip_runs ?n us"
      using window_update [OF ring1 i1, of "v\<lparr>dh_num := ?n - 1\<rparr>", unfolded pos1] w1 True
      by (simp add: us vs list_update_append)
    moreover have "DCskip_items ?i (length us) hc = Some (?n, ?hc1\<lparr>hc_history := ?h2\<rparr>)"
      unfolding DCskip_items_def Let_def upd_entry_def dc_cache.simps length_list_update f
      using True at_f [unfolded pos1] by (simp add: skip [unfolded at_i] at_i)
    ultimately show ?thesis by (intro exI [of _ ?h2]) simp
  qed
qed

subsection \<open>The invariant\<close>

lemma no_run_facts [simp]:
  "dh_itemid (no_run h) = dh_itemid h" "entry_ptrs (no_run h) = entry_ptrs h" "entry_typed (no_run h) = entry_typed h"
  "abs_entry buf (no_run h) = abs_entry buf h"
proof -
  show p: "entry_ptrs (no_run h) = entry_ptrs h"
    by (cases "dh_value_type h") (simp_all add: no_run_def entry_ptrs_def)
  show "dh_itemid (no_run h) = dh_itemid h" by (simp add: no_run_def)
  show "entry_typed (no_run h) = entry_typed h" unfolding entry_typed_def p by (simp add: no_run_def)
  show "abs_entry buf (no_run h) = abs_entry buf h" unfolding abs_entry_def p by (simp add: no_run_def)
qed

lemma no_run_cong:
  assumes "map no_run xs = map no_run ys"
  shows "map (abs_entry buf) (filter live xs) = map (abs_entry buf) (filter live ys)"
    "length (filter (\<lambda>h. \<not> live h) xs) = length (filter (\<lambda>h. \<not> live h) ys)"
    "(\<forall>h \<in> set xs. entry_typed h) \<longleftrightarrow> (\<forall>h \<in> set ys. entry_typed h)" "texts_of xs = texts_of ys"
    "texts_of (filter live xs) = texts_of (filter live ys)"
proof -
  have id: "map dh_itemid xs = map dh_itemid ys" and ptrs: "map entry_ptrs xs = map entry_ptrs ys"
    and typed: "map entry_typed xs = map entry_typed ys" and abs: "map (abs_entry buf) xs = map (abs_entry buf) ys"
    using arg_cong [OF assms, of "map dh_itemid"] arg_cong [OF assms, of "map entry_ptrs"]
      arg_cong [OF assms, of "map entry_typed"] arg_cong [OF assms, of "map (abs_entry buf)"] by (simp_all add: comp_def)
  note live = map_filter_live_abs [OF abs]
  show "map (abs_entry buf) (filter live xs) = map (abs_entry buf) (filter live ys)"
    "length (filter (\<lambda>h. \<not> live h) xs) = length (filter (\<lambda>h. \<not> live h) ys)" using live by blast+
  have "(\<forall>t \<in> set (map entry_typed xs). t) \<longleftrightarrow> (\<forall>t \<in> set (map entry_typed ys). t)" unfolding typed ..
  then show "(\<forall>h \<in> set xs. entry_typed h) \<longleftrightarrow> (\<forall>h \<in> set ys. entry_typed h)" by simp
  show "texts_of xs = texts_of ys" unfolding ptrs ..
  show "texts_of (filter live xs) = texts_of (filter live ys)"
    using id ptrs by (induction xs ys rule: list_induct2') auto
qed

lemma hist_ok_no_run:
  assumes "hist_ok hc" "ring_ok hc'" "map no_run (window hc') = map no_run (window hc)" "run_ok (window hc')"
    "hc_gap_num hc' = hc_gap_num hc" "hc_text hc' = hc_text hc" "hc_last_text hc' = hc_last_text hc" "hc_text_free hc' = hc_text_free hc"
  shows "hist_ok hc' \<and> queue hc' = queue hc"
  using assms no_run_cong [OF assms(3)] unfolding hist_ok_def queue_def by simp

lemma laid_out_appendD:
  "laid_out buf lo (ps @ qs) hi \<Longrightarrow> laid_out buf lo qs hi"
proof (induction ps arbitrary: lo)
  case (Cons p ps)
  then have "laid_out buf (p + strlen_at buf p + 1) (ps @ qs) hi" "lo \<le> p" by simp_all
  with Cons.IH [of "p + strlen_at buf p + 1"] laid_out_lower show ?case by auto
qed simp

lemma window_drop:
  assumes "ring_ok hc" "k \<le> hc_num hc"
  defines "hc' \<equiv> hc\<lparr>hc_num := hc_num hc - k,
    hc_first := (if hist_size hc \<le> hc_first hc + k then hc_first hc + k - hist_size hc else hc_first hc + k)\<rparr>"
  shows "ring_ok hc'" "window hc' = drop k (window hc)" "hist_pos hc' i = hist_pos hc (k + i)"
proof -
  have k: "k \<le> hist_size hc" "hc_first hc < hist_size hc" using assms(1,2) by (simp_all add: ring_ok_def)
  have fst1: "hc_first hc' = (hc_first hc + k) mod hist_size hc" using k by (auto simp: hc'_def mod_if)
  have sz: "hist_size hc' = hist_size hc" "hc_history hc' = hc_history hc" "hc_num hc' = hc_num hc - k" by (simp_all add: hc'_def)
  have "0 < hist_size hc" using k(2) by linarith
  then show "ring_ok hc'" using assms(1) unfolding ring_ok_def sz fst1 by auto
  have pos: "hist_pos hc' i = hist_pos hc (k + i)" for i
    unfolding hist_pos_def sz(1) fst1 by (simp add: mod_simps add.assoc)
  then show "hist_pos hc' i = hist_pos hc (k + i)" .
  show "window hc' = drop k (window hc)"
  proof (rule nth_equalityI)
    fix i assume "i < length (window hc')"
    then have "i < hc_num hc - k" using sz(3) by simp
    then show "window hc' ! i = drop k (window hc) ! i" using assms(2) by (simp add: sz pos)
  qed (simp add: sz)
qed

lemma window_take:
  assumes "ring_ok hc" "n \<le> hc_num hc"
  shows "ring_ok (hc\<lparr>hc_num := n\<rparr>)" "window (hc\<lparr>hc_num := n\<rparr>) = take n (window hc)"
  using assms by (auto simp: ring_ok_def window_def hist_pos_def take_map min_absorb2)

lemma hist_pos_first:
  assumes "ring_ok hc" "i < hc_num hc"
  shows "hist_pos hc i = hc_first hc \<longleftrightarrow> i = 0"
proof -
  have "hist_pos hc 0 = hc_first hc" using assms(1) by (simp add: hist_pos_def ring_ok_def)
  with hist_pos_inj [OF assms, of 0] assms(2) show ?thesis by force
qed

subsection \<open>One entry\<close>

lemma copy_out_result:
  "copy_out f hc = ((hc_history hc ! f, map (str_at (hc_text hc)) (entry_ptrs (hc_history hc ! f))),
    hc\<lparr>hc_text_free := hc_text_free hc + int (texts_len (hc_text hc) (entry_ptrs (hc_history hc ! f)))\<rparr>)"
  by (cases "dh_value_type (hc_history hc ! f)"; cases "dh_state (hc_history hc ! f)")
    (simp_all add: copy_out_def entry_ptrs_def Let_def)

abbreviation gap_of :: "dc_history \<Rightarrow> dc_history" where
  "gap_of b \<equiv> b\<lparr>dh_itemid := 0, dh_num := Suc 0\<rparr>"

lemma gap_of_facts [simp]: "entry_ptrs (gap_of b) = entry_ptrs b" "entry_typed (gap_of b) = entry_typed b"
proof -
  show p: "entry_ptrs (gap_of b) = entry_ptrs b" by (cases "dh_value_type b") (simp_all add: entry_ptrs_def)
  show "entry_typed (gap_of b) = entry_typed b" unfolding entry_typed_def p by simp
qed

text \<open>What a step of the loop leaves as it is.\<close>

definition sync_frame :: "dc_cache \<Rightarrow> dc_cache \<Rightarrow> bool" where
  "sync_frame hc hc' \<longleftrightarrow> hc_text hc' = hc_text hc \<and> hc_last_text hc' = hc_last_text hc \<and> hist_size hc' = hist_size hc \<and>
    hist_rest hc' = hist_rest hc"

lemma take_entry_result:
  assumes ok: "hist_ok hc" and w: "window hc = ps @ b # us" and b: "live b" and runs: "run_ok ps" "run_ok us"
  defines "f \<equiv> hist_pos hc (length ps)"
  defines "hc1 \<equiv> hc\<lparr>hc_text_free := hc_text_free hc + int (texts_len (hc_text hc) (entry_ptrs b))\<rparr>"
  shows "hist_ok (take_entry f hc1)" "window (take_entry f hc1) = (if ps = [] then us else ps @ gap_of b # us)"
    "sync_frame hc (take_entry f hc1)"
    "hist_pos (take_entry f hc1) j = (if ps = [] then hist_pos hc (Suc j) else hist_pos hc j)"
proof -
  note okd = ok [unfolded hist_ok_def w]
  have ring1: "ring_ok hc1" using okd by (simp add: hc1_def)
  have n: "hc_num hc = length ps + Suc (length us)" and i: "length ps < hc_num hc"
    using window_nth_append [OF w, of 0] by simp_all
  have pos: "hist_pos hc1 k = hist_pos hc k" for k by (simp add: hist_pos_def hc1_def)
  have first: "f = hc_first hc1 \<longleftrightarrow> ps = []"
    using hist_pos_first [OF conjunct1 [OF okd] i] by (simp add: f_def hc1_def)
  have "hist_ok (take_entry f hc1) \<and> window (take_entry f hc1) = (if ps = [] then us else ps @ gap_of b # us) \<and>
    sync_frame hc (take_entry f hc1) \<and>
    hist_pos (take_entry f hc1) j = (if ps = [] then hist_pos hc (Suc j) else hist_pos hc j)"
  proof (cases "ps = []")
    case True
    let ?hc2 = "hc1\<lparr>hc_num := hc_num hc1 - 1,
      hc_first := (if hist_size hc1 \<le> hc_first hc1 + 1 then hc_first hc1 + 1 - hist_size hc1 else hc_first hc1 + 1)\<rparr>"
    have "hc_first hc1 < hist_size hc1" using ring1 by (simp add: ring_ok_def)
    then have eq: "take_entry f hc1 = ?hc2" using first True by (simp add: take_entry_def)
    have k: "1 \<le> hc_num hc1" using n by (simp add: hc1_def)
    have d: "ring_ok ?hc2" "window ?hc2 = drop 1 (window hc1)" "hist_pos ?hc2 j = hist_pos hc1 (1 + j)"
      by (rule window_drop [OF ring1 k])+
    have w2: "window ?hc2 = us" using d(2) w True by (simp add: hc1_def)
    have "laid_out (hc_text hc) 0 (texts_of us) (hc_last_text hc)"
      using okd True laid_out_appendD [of "hc_text hc" 0 "entry_ptrs b" "texts_of us"] by simp
    then have "hist_ok ?hc2" unfolding hist_ok_def w2 using d(1) okd b True runs(2) by (simp add: hc1_def)
    moreover have "hist_pos ?hc2 j = hist_pos hc (Suc j)" using d(3) by (simp add: pos)
    ultimately show ?thesis unfolding eq using w2 True by (simp add: sync_frame_def hc1_def hist_rest_def)
  next
    case False
    let ?h = "(hc_history hc1)[f := gap_of (hc_history hc1 ! f)]"
    let ?hc2 = "(hc1\<lparr>hc_history := ?h\<rparr>)\<lparr>hc_gap_num := hc_gap_num hc1 + 1\<rparr>"
    have eq: "take_entry f hc1 = ?hc2" using first False by (simp add: take_entry_def upd_entry_def)
    have at: "hc_history hc1 ! f = b" using window_nth_append(1) [OF w, of 0] by (simp add: f_def hc1_def)
    have "window (hc1\<lparr>hc_history := ?h\<rparr>) = (window hc1)[length ps := gap_of b]"
      using window_update [OF ring1, of "length ps" "gap_of b", unfolded pos] i unfolding at unfolding f_def by (simp add: hc1_def)
    then have w2: "window ?hc2 = ps @ gap_of b # us" using w by (simp add: hc1_def)
    have "run_ok (ps @ gap_of b # us)" using run_ok_append [OF runs(1), of "gap_of b # us"] runs(2) by simp
    moreover have "ring_ok ?hc2" using ring1 by (simp add: ring_ok_def)
    ultimately have "hist_ok ?hc2" unfolding hist_ok_def w2 using okd b by (simp add: hc1_def)
    moreover have "hist_pos ?hc2 j = hist_pos hc j" by (simp add: hist_pos_def hc1_def)
    ultimately show ?thesis unfolding eq using w2 False by (simp add: sync_frame_def hc1_def hist_rest_def)
  qed
  then show "hist_ok (take_entry f hc1)" "window (take_entry f hc1) = (if ps = [] then us else ps @ gap_of b # us)"
    "sync_frame hc (take_entry f hc1)"
    "hist_pos (take_entry f hc1) j = (if ps = [] then hist_pos hc (Suc j) else hist_pos hc j)" by blast+
qed

lemma skip_gap_result:
  assumes ok: "hist_ok hc" and w: "window hc = ps @ bs @ us" and bs: "\<forall>b \<in> set bs. \<not> live b" "bs \<noteq> []" and us: "run_ok us"
  defines "f \<equiv> hist_pos hc (length ps)"
  shows "hist_ok (skip_gap f (length bs) hc)" "window (skip_gap f (length bs) hc) = (if ps = [] then us else ps @ bs @ us)"
    "sync_frame hc (skip_gap f (length bs) hc)" "queue (skip_gap f (length bs) hc) = queue hc"
    "hist_pos (skip_gap f (length bs) hc) j = (if ps = [] then hist_pos hc (length bs + j) else hist_pos hc j)"
proof -
  note okd = ok [unfolded hist_ok_def w]
  have n: "hc_num hc = length ps + (length bs + length us)" using length_window [of hc] unfolding w by simp
  then have "length ps < hc_num hc" using bs(2) by simp
  then have first: "f = hc_first hc \<longleftrightarrow> ps = []" using hist_pos_first [OF conjunct1 [OF okd]] by (simp add: f_def)
  have none: "filter live bs = []" "filter (\<lambda>h. \<not> live h) bs = bs" using bs(1) by (induction bs) auto
  have "hist_ok (skip_gap f (length bs) hc) \<and> window (skip_gap f (length bs) hc) = (if ps = [] then us else ps @ bs @ us) \<and>
    sync_frame hc (skip_gap f (length bs) hc) \<and> queue (skip_gap f (length bs) hc) = queue hc \<and>
    hist_pos (skip_gap f (length bs) hc) j = (if ps = [] then hist_pos hc (length bs + j) else hist_pos hc j)"
  proof (cases "ps = []")
    case True
    let ?hc1 = "hc\<lparr>hc_num := hc_num hc - length bs,
      hc_first := (if hist_size hc \<le> hc_first hc + length bs then hc_first hc + length bs - hist_size hc else hc_first hc + length bs)\<rparr>"
    let ?hc2 = "?hc1\<lparr>hc_gap_num := hc_gap_num hc - int (length bs)\<rparr>"
    have eq: "skip_gap f (length bs) hc = ?hc2" using first True by (simp add: skip_gap_def Let_def)
    have k: "length bs \<le> hc_num hc" using n by simp
    have d: "ring_ok ?hc1" "window ?hc1 = drop (length bs) (window hc)" "hist_pos ?hc1 j = hist_pos hc (length bs + j)"
      by (rule window_drop [OF conjunct1 [OF okd] k])+
    have "hist_pos ?hc2 j = hist_pos ?hc1 j" by (simp add: hist_pos_def)
    note pos = this [unfolded d(3)]
    have w2: "window ?hc2 = us" using d(2) w True by simp
    have r2: "ring_ok ?hc2" using d(1) by (simp add: ring_ok_def)
    have "laid_out (hc_text hc) 0 (texts_of us) (hc_last_text hc)"
      using okd True laid_out_appendD [of "hc_text hc" 0 "texts_of bs" "texts_of us"] by simp
    then have "hist_ok ?hc2" unfolding hist_ok_def w2 using r2 okd none us True by simp
    moreover have "queue ?hc2 = queue hc" unfolding queue_def w2 w using none True by simp
    ultimately show ?thesis unfolding eq using w2 True pos by (simp add: sync_frame_def hist_rest_def)
  next
    case False
    then have "skip_gap f (length bs) hc = hc" using first by (simp add: skip_gap_def)
    then show ?thesis using ok w False by (simp add: sync_frame_def)
  qed
  then show "hist_ok (skip_gap f (length bs) hc)" "window (skip_gap f (length bs) hc) = (if ps = [] then us else ps @ bs @ us)"
    "sync_frame hc (skip_gap f (length bs) hc)" "queue (skip_gap f (length bs) hc) = queue hc"
    "hist_pos (skip_gap f (length bs) hc) j = (if ps = [] then hist_pos hc (length bs + j) else hist_pos hc j)" by blast+
qed

text \<open>Merging the runs of a block changes nothing else.\<close>

lemma skip_items_block:
  assumes ok: "hist_ok hc" and w: "window hc = ps @ us" and us: "us \<noteq> []" and ps: "run_ok ps"
  obtains h' b bs us' where
    "DCskip_items (hist_pos hc (length ps)) (length us) hc = Some (Suc (length bs), hc\<lparr>hc_history := h'\<rparr>)"
    "window (hc\<lparr>hc_history := h'\<rparr>) = ps @ (b # bs) @ us'" "hist_ok (hc\<lparr>hc_history := h'\<rparr>)"
    "queue (hc\<lparr>hc_history := h'\<rparr>) = queue hc" "length h' = hist_size hc"
    "map no_run us = map no_run ((b # bs) @ us')" "\<forall>x \<in> set bs. dh_itemid x = dh_itemid b" "run_ok (b # bs)" "run_ok us'"
proof -
  note okd = ok [unfolded hist_ok_def]
  have "drop (length ps) (window hc) = us" unfolding w by simp
  then have run: "run_ok us" using run_ok_drop [of "window hc" "length ps"] okd by metis
  obtain h' where s: "DCskip_items (hist_pos hc (length ps)) (length us) hc = Some (block_len us, hc\<lparr>hc_history := h'\<rparr>)"
    "length h' = hist_size hc" "window (hc\<lparr>hc_history := h'\<rparr>) = ps @ skip_runs (block_len us) us"
    using DCskip_items_result [OF conjunct1 [OF okd] w us run] by blast
  let ?n = "block_len us"
  define B where "B = take ?n us"
  note bl = block_len_facts [OF us]
  have len: "length B = ?n" using bl(2) by (simp add: B_def)
  have split: "us = B @ drop ?n us" by (simp add: B_def)
  have runB: "run_ok (B @ drop ?n us)" using run unfolding split [symmetric] .
  have ne: "B \<noteq> []" using len bl(1) by auto
  obtain b bs where b: "skip_runs (length B) (B @ drop ?n us) = b # bs @ drop ?n us" "b = (hd B)\<lparr>dh_num := length B\<rparr>"
    "map no_run bs = map no_run (tl B)" "run_ok (b # bs)" "dh_itemid b = dh_itemid (hd us)"
    "\<forall>x \<in> set bs. dh_itemid x = dh_itemid (hd us)" "length bs = length B - 1"
    using skip_runs_block [OF runB bl(3) [folded B_def] bl(4) ne] by metis
  have sk: "skip_runs ?n us = (b # bs) @ drop ?n us" using b(1) len split by simp
  have w1: "window (hc\<lparr>hc_history := h'\<rparr>) = ps @ (b # bs) @ drop ?n us" unfolding s(3) sk ..
  have "map no_run B = map no_run (b # bs)" using b(2,3) ne by (cases B) (simp_all add: no_run_def)
  then have nr: "map no_run us = map no_run ((b # bs) @ drop ?n us)" by (subst split) (simp only: map_append)
  have run': "run_ok (drop ?n us)" by (rule run_ok_drop [OF run])
  have "run_ok (window (hc\<lparr>hc_history := h'\<rparr>))"
    unfolding w1 by (intro run_ok_append ps b(4) run')
  moreover have "map no_run (window (hc\<lparr>hc_history := h'\<rparr>)) = map no_run (window hc)"
    unfolding w1 w map_append nr ..
  ultimately have "hist_ok (hc\<lparr>hc_history := h'\<rparr>) \<and> queue (hc\<lparr>hc_history := h'\<rparr>) = queue hc"
    using okd s(2) by (intro hist_ok_no_run [OF ok]) (simp_all add: ring_ok_def)
  moreover have "?n = Suc (length bs)" using b(7) len bl(1) by simp
  ultimately show thesis
    using s(1,2) w1 nr b(4-6) run' by (intro that [of bs h' b "drop ?n us"]) auto
qed

subsection \<open>A batch\<close>

type_synonym queued = "dc_history \<times> u8 list list"

text \<open>
  What a batch has to be: the oldest value of every item that is not in \<open>ids\<close>, in the order of the queue,
  at most \<open>m\<close> of them. The second component is what stays in the queue.
\<close>

fun grab_spec :: "nat \<Rightarrow> u64 set \<Rightarrow> queued list \<Rightarrow> queued list \<times> queued list" where
  "grab_spec m ids [] = ([], [])"
| "grab_spec m ids (e # es) =
    (if m = 0 then ([], e # es)
     else if dh_itemid (fst e) \<in> ids then (let (t, r) = grab_spec m ids es in (t, e # r))
     else (let (t, r) = grab_spec (m - 1) (insert (dh_itemid (fst e)) ids) es in (e # t, r)))"

definition norm_out :: "queued \<Rightarrow> queued" where
  "norm_out e = ((fst e)\<lparr>dh_value_orig := no_ptr (dh_value_orig (fst e)), dh_value := no_ptr (dh_value (fst e)), dh_num := 0\<rparr>, snd e)"

lemma norm_out_abs: "norm_out (h, map (str_at buf) (entry_ptrs h)) = abs_entry buf h"
  by (simp add: norm_out_def abs_entry_def)

lemma itemid_abs [simp]: "dh_itemid (fst (abs_entry buf h)) = dh_itemid h"
  by (simp add: abs_entry_def)

lemma itemid_norm [simp]: "dh_itemid (fst (norm_out e)) = dh_itemid (fst e)"
  by (simp add: norm_out_def)

lemma grab_spec_0 [simp]: "grab_spec 0 ids es = ([], es)"
  by (cases es) simp_all

lemma grab_spec_skip:
  "\<forall>e \<in> set xs. dh_itemid (fst e) \<in> ids \<Longrightarrow> grab_spec m ids (xs @ es) = (fst (grab_spec m ids es), xs @ snd (grab_spec m ids es))"
  by (cases "m = 0", simp, induction xs) (auto simp: split_beta)

lemma map_no_run_abs: "map no_run xs = map no_run ys \<Longrightarrow>
  map (abs_entry buf) (filter live xs) = map (abs_entry buf) (filter live ys)"
  using no_run_cong(1) .

lemma grab_loop_done:
  "\<not> (0 < n \<and> length history < sync_max) \<Longrightarrow>
    grab_loop server sync_max n f skipped history hc = Some (Inr (skipped, history, hc))"
  by (rule trans [OF grab_loop.simps]) (simp only: if_False)

text \<open>The step of the loop for a block of a live item, or of gaps.\<close>

lemma grab_loop_step:
  assumes "0 < n" "length history < sync_max" "(if hist_size hc \<le> f then f - hist_size hc else f) = p"
    "DCskip_items p n hc = Some (num, hc1)"
  shows "grab_loop True sync_max n f skipped history hc =
    (let h = hc_history hc1 ! p
     in if dh_itemid h = 0 then grab_loop True sync_max (n - num) (p + num) skipped history (skip_gap p num hc1)
        else if uint64_array_exists (hc_itemids hc1) (dh_itemid h) = Succeed then
          grab_loop True sync_max (n - num) (p + num) (if skipped = 0 then ts_sec (dh_ts h) else skipped) history hc1
        else
          (let skipped = (if 1 < num \<and> skipped = 0 then
                ts_sec (dh_ts (hc_history hc1 ! (if hist_size hc1 = p + 1 then 0 else p + 1))) else skipped)
           in case uint64_array_add (hc_itemids hc1) (hc_itemids_alloc hc1) (dh_itemid h) 0 of
                None \<Rightarrow> Some (Inl (Exit_Fail ''Unable to reallocate buffer''))
              | Some (_, ids, ids_alloc) \<Rightarrow>
                  (let (e, hc2) = copy_out p (hc1\<lparr>hc_itemids := ids, hc_itemids_alloc := ids_alloc\<rparr>)
                   in grab_loop True sync_max (n - num) (p + num) skipped (history @ [e]) (take_entry p hc2))))"
  by (rule trans [OF grab_loop.simps])
    (use assms(1,2) in \<open>simp only: assms(3,4) Let_def option.case prod.case not_True_eq_False if_False if_True conj_absorb simp_thms\<close>)

lemma pos_or_wrapped:
  assumes "ring_ok hc" "i + k \<le> hc_num hc"
  shows "hist_pos hc i + k = hist_pos hc (i + k) \<or> hist_pos hc i + k = hist_pos hc (i + k) + hist_size hc"
  using hist_pos_add [OF assms] by (auto split: if_splits)

lemma hist_ok_ids [simp]:
  "hist_ok (hc\<lparr>hc_itemids_alloc := a\<rparr>) = hist_ok hc" "queue (hc\<lparr>hc_itemids_alloc := a\<rparr>) = queue hc"
  "hist_pos (hc\<lparr>hc_itemids_alloc := a\<rparr>) i = hist_pos hc i" "hist_pos (hc\<lparr>hc_itemids := ids\<rparr>) i = hist_pos hc i"
  "hist_pos (hc\<lparr>hc_history := h\<rparr>) i = (hc_first hc + i) mod length h"
  "ring_ok (hc\<lparr>hc_itemids_alloc := a\<rparr>) = ring_ok hc"
  by (simp_all add: hist_ok_def queue_def hist_pos_def ring_ok_def)

text \<open>
  The outcome of the loop, with \<open>m\<close> places left in the batch: \<open>es\<close> are the waiting values behind the
  loop, \<open>fs\<close> those in front of it.
\<close>

definition grabbed_ok :: "nat \<Rightarrow> dc_cache \<Rightarrow> queued list \<Rightarrow> queued list \<Rightarrow> queued list \<Rightarrow> (fatal + grabbed) option \<Rightarrow> bool" where
  "grabbed_ok m hc es fs history res \<longleftrightarrow> (\<exists>skipped taken hc'. res = Some (Inr (skipped, history @ taken, hc')) \<and>
    hist_ok hc' \<and> map norm_out taken = fst (grab_spec m (set (hc_itemids hc)) fs) \<and>
    queue hc' = es @ snd (grab_spec m (set (hc_itemids hc)) fs) \<and>
    id_set (hc_itemids hc') \<and> set (hc_itemids hc') = set (hc_itemids hc) \<union> dh_itemid ` fst ` set taken \<and>
    hist_size hc' = hist_size hc \<and> text_size hc' = text_size hc \<and> hc_itemids_alloc hc' = hc_itemids_alloc hc)"

lemma grabbed_ok_skip:
  assumes "grabbed_ok m hc (es @ gs) fs history res" "\<forall>e \<in> set gs. dh_itemid (fst e) \<in> set (hc_itemids hc)"
    "hc_itemids hc' = hc_itemids hc" "hist_size hc' = hist_size hc" "text_size hc' = text_size hc"
    "hc_itemids_alloc hc' = hc_itemids_alloc hc"
  shows "grabbed_ok m hc' es (gs @ fs) history res"
  using assms unfolding grabbed_ok_def assms(3-6) grab_spec_skip [OF assms(2)] by simp

lemma grabbed_ok_take:
  assumes "grabbed_ok (m - 1) hc1 (es @ gs) fs (history @ [e]) res" "0 < m" "dh_itemid (fst e) \<notin> set (hc_itemids hc)"
    "set (hc_itemids hc1) = insert (dh_itemid (fst e)) (set (hc_itemids hc))"
    "\<forall>g \<in> set gs. dh_itemid (fst g) = dh_itemid (fst e)" "hist_size hc1 = hist_size hc" "text_size hc1 = text_size hc"
    "hc_itemids_alloc hc1 = hc_itemids_alloc hc"
  shows "grabbed_ok m hc es (norm_out e # gs @ fs) history res"
proof -
  have "grab_spec (m - 1) (set (hc_itemids hc1)) (gs @ fs) =
      (fst (grab_spec (m - 1) (set (hc_itemids hc1)) fs), gs @ snd (grab_spec (m - 1) (set (hc_itemids hc1)) fs))"
    by (rule grab_spec_skip) (use assms(4,5) in simp)
  then have "grab_spec m (set (hc_itemids hc)) (norm_out e # gs @ fs) =
      (norm_out e # fst (grab_spec (m - 1) (set (hc_itemids hc1)) fs), gs @ snd (grab_spec (m - 1) (set (hc_itemids hc1)) fs))"
    using assms(2-4) by simp
  moreover obtain skipped taken hc' where "res = Some (Inr (skipped, (history @ [e]) @ taken, hc'))" "hist_ok hc'"
    "map norm_out taken = fst (grab_spec (m - 1) (set (hc_itemids hc1)) fs)"
    "queue hc' = (es @ gs) @ snd (grab_spec (m - 1) (set (hc_itemids hc1)) fs)" "id_set (hc_itemids hc')"
    "set (hc_itemids hc') = set (hc_itemids hc1) \<union> dh_itemid ` fst ` set taken"
    "hist_size hc' = hist_size hc1" "text_size hc' = text_size hc1" "hc_itemids_alloc hc' = hc_itemids_alloc hc1"
    using assms(1) unfolding grabbed_ok_def by blast
  ultimately show ?thesis unfolding grabbed_ok_def using assms(4,6-8)
    by (intro exI [of _ skipped] exI [of _ "e # taken"] exI [of _ hc']) simp
qed

lemma add_new_id:
  assumes "id_set xs" "v \<notin> set xs" "length xs < alloc"
  shows "\<exists>index ys. uint64_array_add xs alloc v 0 = Some (index, ys, alloc) \<and> id_set ys \<and> set ys = insert v (set xs) \<and>
    length ys = Suc (length xs)"
proof -
  obtain index ys alloc' where a: "uint64_array_add xs alloc v 0 = Some (index, ys, alloc')" "id_set ys" "set ys = insert v (set xs)"
    using uint64_array_add_result [OF assms(1), of alloc 0 v] assms(3) by blast
  moreover have "alloc' = alloc" using a(1) assms(3) by (auto simp: uint64_array_add_def Let_def split: if_splits)
  moreover have "length ys = Suc (length xs)"
    using a(2,3) assms(1,2) distinct_card [OF id_set_distinct [OF assms(1)]] distinct_card [OF id_set_distinct [OF a(2)]] by simp
  ultimately show ?thesis by blast
qed

text \<open>The loop reaches the block \<open>b # bs\<close>, whose runs \<^verbatim>\<open>DCskip_items\<close> merges; \<open>us'\<close> is the rest.\<close>

definition next_block ::
  "dc_cache \<Rightarrow> dc_history list \<Rightarrow> dc_history list \<Rightarrow> dc_cache \<Rightarrow> dc_history \<Rightarrow> dc_history list \<Rightarrow> dc_history list \<Rightarrow> bool" where
  "next_block hc ps us hc1 b bs us' \<longleftrightarrow> ring_ok hc \<and> window hc = ps @ us \<and> run_ok ps \<and>
    DCskip_items (hist_pos hc (length ps)) (length us) hc = Some (Suc (length bs), hc1) \<and>
    (\<exists>h'. hc1 = hc\<lparr>hc_history := h'\<rparr> \<and> length h' = hist_size hc) \<and> window hc1 = ps @ (b # bs) @ us' \<and> hist_ok hc1 \<and>
    queue hc1 = queue hc \<and> map no_run us = map no_run ((b # bs) @ us') \<and> (\<forall>x \<in> set bs. dh_itemid x = dh_itemid b) \<and>
    run_ok (b # bs) \<and> run_ok us'"

lemma next_block_facts:
  assumes "next_block hc ps us hc1 b bs us'"
  shows "hist_ok hc1" "window hc1 = ps @ (b # bs) @ us'" "run_ok ps" "run_ok (b # bs)" "run_ok us'" "queue hc1 = queue hc"
    "\<forall>x \<in> set bs. dh_itemid x = dh_itemid b" "length us = Suc (length bs) + length us'"
    "hc_text hc1 = hc_text hc" "hist_size hc1 = hist_size hc" "hc_itemids hc1 = hc_itemids hc"
    "hc_itemids_alloc hc1 = hc_itemids_alloc hc" "hc_num hc1 = hc_num hc" "hist_pos hc1 i = hist_pos hc i"
    "map (abs_entry (hc_text hc)) (filter live us) =
      map (abs_entry (hc_text hc)) (filter live (b # bs)) @ map (abs_entry (hc_text hc)) (filter live us')"
    "hist_pos hc (length ps) + Suc (length bs) = hist_pos hc (length ps + Suc (length bs)) \<or>
      hist_pos hc (length ps) + Suc (length bs) = hist_pos hc (length ps + Suc (length bs)) + hist_size hc"
    "hc_history hc1 ! hist_pos hc (length ps) = b"
proof -
  note n = assms [unfolded next_block_def]
  then show "hist_ok hc1" "window hc1 = ps @ (b # bs) @ us'" "run_ok ps" "run_ok (b # bs)" "run_ok us'" "queue hc1 = queue hc"
    "\<forall>x \<in> set bs. dh_itemid x = dh_itemid b" by blast+
  have nr: "map no_run us = map no_run ((b # bs) @ us')" using n by blast
  show len: "length us = Suc (length bs) + length us'" using arg_cong [OF nr, of length] by simp
  show "hc_text hc1 = hc_text hc" "hist_size hc1 = hist_size hc" "hc_itemids hc1 = hc_itemids hc"
    "hc_itemids_alloc hc1 = hc_itemids_alloc hc" "hc_num hc1 = hc_num hc" and pos: "\<And>i. hist_pos hc1 i = hist_pos hc i"
    using n by (auto simp: hist_pos_def)
  show "map (abs_entry (hc_text hc)) (filter live us) =
      map (abs_entry (hc_text hc)) (filter live (b # bs)) @ map (abs_entry (hc_text hc)) (filter live us')"
    using map_no_run_abs [OF nr, of "hc_text hc"] by simp
  have w: "window hc = ps @ us" and w1: "window hc1 = ps @ (b # bs) @ us'" and ring: "ring_ok hc" using n by blast+
  have "hc_num hc = length ps + length us" using window_nth_append(3) [OF w, of 0] len by simp
  then show "hist_pos hc (length ps) + Suc (length bs) = hist_pos hc (length ps + Suc (length bs)) \<or>
      hist_pos hc (length ps) + Suc (length bs) = hist_pos hc (length ps + Suc (length bs)) + hist_size hc"
    using len by (intro pos_or_wrapped [OF ring]) simp
  show "hc_history hc1 ! hist_pos hc (length ps) = b" using window_nth_append(1) [OF w1, of 0] pos by simp
qed

lemma next_block_exists:
  assumes "hist_ok hc" "window hc = ps @ us" "us \<noteq> []" "run_ok ps"
  obtains hc1 b bs us' where "next_block hc ps us hc1 b bs us'"
proof (rule skip_items_block [OF assms])
  fix h' b bs us'
  assume "DCskip_items (hist_pos hc (length ps)) (length us) hc = Some (Suc (length bs), hc\<lparr>hc_history := h'\<rparr>)"
    "window (hc\<lparr>hc_history := h'\<rparr>) = ps @ (b # bs) @ us'" "hist_ok (hc\<lparr>hc_history := h'\<rparr>)"
    "queue (hc\<lparr>hc_history := h'\<rparr>) = queue hc" "length h' = hist_size hc"
    "map no_run us = map no_run ((b # bs) @ us')" "\<forall>x \<in> set bs. dh_itemid x = dh_itemid b" "run_ok (b # bs)" "run_ok us'"
  with assms(1,2,4) have "next_block hc ps us (hc\<lparr>hc_history := h'\<rparr>) b bs us'"
    unfolding next_block_def hist_ok_def by blast
  then show thesis by (rule that)
qed

text \<open>What the loop does on the entries \<open>us\<close>, from every cache in which they are the last ones.\<close>

definition grabs_rest :: "nat \<Rightarrow> dc_history list \<Rightarrow> bool" where
  "grabs_rest sync_max us \<longleftrightarrow> (\<forall>ps f skipped history hc. hist_ok hc \<longrightarrow> window hc = ps @ us \<longrightarrow> run_ok ps \<longrightarrow>
    id_set (hc_itemids hc) \<longrightarrow> length (hc_itemids hc) + (sync_max - length history) \<le> hc_itemids_alloc hc \<longrightarrow>
    f = hist_pos hc (length ps) \<or> f = hist_pos hc (length ps) + hist_size hc \<longrightarrow>
    grabbed_ok (sync_max - length history) hc (map (abs_entry (hc_text hc)) (filter live ps))
      (map (abs_entry (hc_text hc)) (filter live us)) history (grab_loop True sync_max (length us) f skipped history hc))"

lemma grabs_restD:
  "grabs_rest sync_max us \<Longrightarrow> hist_ok hc \<Longrightarrow> window hc = ps @ us \<Longrightarrow> run_ok ps \<Longrightarrow> id_set (hc_itemids hc) \<Longrightarrow>
    length (hc_itemids hc) + (sync_max - length history) \<le> hc_itemids_alloc hc \<Longrightarrow>
    f = hist_pos hc (length ps) \<or> f = hist_pos hc (length ps) + hist_size hc \<Longrightarrow>
    grabbed_ok (sync_max - length history) hc (map (abs_entry (hc_text hc)) (filter live ps))
      (map (abs_entry (hc_text hc)) (filter live us)) history (grab_loop True sync_max (length us) f skipped history hc)"
  unfolding grabs_rest_def by blast

lemma grab_gap:
  assumes block: "next_block hc ps us hc1 b bs us'" and rest: "grabs_rest sync_max us'"
    and ids: "id_set (hc_itemids hc)" "length (hc_itemids hc) + (sync_max - length history) \<le> hc_itemids_alloc hc"
    and m: "length history < sync_max" and fp: "(if hist_size hc \<le> f then f - hist_size hc else f) = hist_pos hc (length ps)"
    and gap: "\<not> live b"
  shows "grabbed_ok (sync_max - length history) hc (map (abs_entry (hc_text hc)) (filter live ps))
    (map (abs_entry (hc_text hc)) (filter live us)) history (grab_loop True sync_max (length us) f skipped history hc)"
proof -
  let ?p = "hist_pos hc (length ps)" and ?buf = "hc_text hc" and ?m = "sync_max - length history"
  let ?abs = "\<lambda>xs. map (abs_entry ?buf) (filter live xs)"
  note bf = next_block_facts [OF block]
  note s = bf(1-8) and f1 = bf(9-14) and abs_us = bf(15) and fin = bf(16) and at = bf(17)
  have sk: "DCskip_items ?p (length us) hc = Some (Suc (length bs), hc1)" using block by (simp only: next_block_def)
  have n: "length us - Suc (length bs) = length us'" "0 < length us" using s(8) by simp_all
  note step = grab_loop_step [OF n(2) m fp sk, of skipped, unfolded at Let_def]
  have none: "filter live (b # bs) = []" "\<forall>x \<in> set (b # bs). \<not> live x" using s(7) gap by auto
  let ?hc2 = "skip_gap ?p (Suc (length bs)) hc1"
  have run: "grab_loop True sync_max (length us) f skipped history hc =
      grab_loop True sync_max (length us') (?p + Suc (length bs)) skipped history ?hc2"
    using step gap n by simp
  have g: "hist_ok ?hc2" "window ?hc2 = (if ps = [] then us' else ps @ (b # bs) @ us')" "sync_frame hc1 ?hc2" "queue ?hc2 = queue hc1"
    "hist_pos ?hc2 j = (if ps = [] then hist_pos hc (Suc (length bs) + j) else hist_pos hc j)" for j
    using skip_gap_result(1-4) [OF s(1) s(2) none(2) _ s(5)] skip_gap_result(5) [OF s(1) s(2) none(2) _ s(5), of j]
    by (simp_all add: f1(6))
  define ps' where "ps' = (if ps = [] then [] else ps @ b # bs)"
  have w2: "window ?hc2 = ps' @ us'" using g(2) by (simp add: ps'_def)
  have p2: "hist_pos ?hc2 (length ps') = hist_pos hc (length ps + Suc (length bs))"
    using g(5) [of "length ps'"] by (auto simp: ps'_def)
  have fr: "hc_text ?hc2 = ?buf" "hc_itemids ?hc2 = hc_itemids hc" "hc_itemids_alloc ?hc2 = hc_itemids_alloc hc"
    "hist_size ?hc2 = hist_size hc" using g(3) f1 by (simp_all add: sync_frame_def hist_rest_def)
  have "run_ok ps'" using run_ok_append [OF s(3,4)] by (simp add: ps'_def)
  then have ok': "run_ok ps'" "id_set (hc_itemids ?hc2)" "length (hc_itemids ?hc2) + ?m \<le> hc_itemids_alloc ?hc2"
    "?p + Suc (length bs) = hist_pos ?hc2 (length ps') \<or> ?p + Suc (length bs) = hist_pos ?hc2 (length ps') + hist_size ?hc2"
    using ids fin unfolding fr p2 by simp_all
  have IH: "grabbed_ok ?m ?hc2 (?abs ps') (?abs us') history
      (grab_loop True sync_max (length us') (?p + Suc (length bs)) skipped history ?hc2)"
    using grabs_restD [OF rest g(1) w2 ok'] unfolding fr .
  have "?abs ps' = ?abs ps" "?abs us = ?abs us'" using none(1) abs_us by (simp_all add: ps'_def)
  with IH have "grabbed_ok ?m ?hc2 (?abs ps @ []) (?abs us) history
      (grab_loop True sync_max (length us') (?p + Suc (length bs)) skipped history ?hc2)" by simp
  from grabbed_ok_skip [OF this, of hc] have "grabbed_ok ?m hc (?abs ps) ([] @ ?abs us) history
      (grab_loop True sync_max (length us') (?p + Suc (length bs)) skipped history ?hc2)"
    unfolding fr by simp
  then show ?thesis unfolding run append_Nil .
qed

lemma grab_skipped:
  assumes block: "next_block hc ps us hc1 b bs us'" and rest: "grabs_rest sync_max us'"
    and ids: "id_set (hc_itemids hc)" "length (hc_itemids hc) + (sync_max - length history) \<le> hc_itemids_alloc hc"
    and m: "length history < sync_max" and fp: "(if hist_size hc \<le> f then f - hist_size hc else f) = hist_pos hc (length ps)"
    and skip: "live b" "dh_itemid b \<in> set (hc_itemids hc)"
  shows "grabbed_ok (sync_max - length history) hc (map (abs_entry (hc_text hc)) (filter live ps))
    (map (abs_entry (hc_text hc)) (filter live us)) history (grab_loop True sync_max (length us) f skipped history hc)"
proof -
  let ?p = "hist_pos hc (length ps)" and ?buf = "hc_text hc" and ?m = "sync_max - length history"
  let ?abs = "\<lambda>xs. map (abs_entry ?buf) (filter live xs)"
  note bf = next_block_facts [OF block]
  note s = bf(1-8) and f1 = bf(9-14) and abs_us = bf(15) and fin = bf(16) and at = bf(17)
  have sk: "DCskip_items ?p (length us) hc = Some (Suc (length bs), hc1)" using block by (simp only: next_block_def)
  have n: "length us - Suc (length bs) = length us'" "0 < length us" using s(8) by simp_all
  note step = grab_loop_step [OF n(2) m fp sk, of skipped, unfolded at Let_def]
  let ?skipped = "if skipped = 0 then ts_sec (dh_ts b) else skipped"
  have "uint64_array_exists (hc_itemids hc1) (dh_itemid b) = Succeed"
    using skip(2) ids(1) f1(3) uint64_array_exists_iff by simp
  then have run: "grab_loop True sync_max (length us) f skipped history hc =
      grab_loop True sync_max (length us') (?p + Suc (length bs)) ?skipped history hc1"
    using step skip(1) n by simp
  have w2: "window hc1 = (ps @ b # bs) @ us'" using s(2) by simp
  have ok': "run_ok (ps @ b # bs)" "id_set (hc_itemids hc1)" "length (hc_itemids hc1) + ?m \<le> hc_itemids_alloc hc1"
    "?p + Suc (length bs) = hist_pos hc1 (length (ps @ b # bs)) \<or>
      ?p + Suc (length bs) = hist_pos hc1 (length (ps @ b # bs)) + hist_size hc1"
    using ids fin run_ok_append [OF s(3,4)] unfolding f1 by simp_all
  have "grabbed_ok ?m hc1 (?abs (ps @ b # bs)) (?abs us') history
      (grab_loop True sync_max (length us') (?p + Suc (length bs)) ?skipped history hc1)"
    using grabs_restD [OF rest s(1) w2 ok'] unfolding f1 .
  then have IH: "grabbed_ok ?m hc1 (?abs ps @ ?abs (b # bs)) (?abs us') history
      (grab_loop True sync_max (length us') (?p + Suc (length bs)) ?skipped history hc1)" by simp
  have "\<forall>e \<in> set (?abs (b # bs)). dh_itemid (fst e) \<in> set (hc_itemids hc1)" using skip s(7) f1(3) by auto
  from grabbed_ok_skip [OF IH this, of hc] show ?thesis unfolding run abs_us f1 by simp
qed

lemma grab_taken:
  assumes block: "next_block hc ps us hc1 b bs us'" and rest: "grabs_rest sync_max us'"
    and ids: "id_set (hc_itemids hc)" "length (hc_itemids hc) + (sync_max - length history) \<le> hc_itemids_alloc hc"
    and m: "length history < sync_max" and fp: "(if hist_size hc \<le> f then f - hist_size hc else f) = hist_pos hc (length ps)"
    and grab: "live b" "dh_itemid b \<notin> set (hc_itemids hc)"
  shows "grabbed_ok (sync_max - length history) hc (map (abs_entry (hc_text hc)) (filter live ps))
    (map (abs_entry (hc_text hc)) (filter live us)) history (grab_loop True sync_max (length us) f skipped history hc)"
proof -
  let ?p = "hist_pos hc (length ps)" and ?buf = "hc_text hc" and ?m = "sync_max - length history"
  let ?abs = "\<lambda>xs. map (abs_entry ?buf) (filter live xs)"
  note bf = next_block_facts [OF block]
  note s = bf(1-8) and f1 = bf(9-14) and abs_us = bf(15) and fin = bf(16) and at = bf(17)
  have sk: "DCskip_items ?p (length us) hc = Some (Suc (length bs), hc1)" using block by (simp only: next_block_def)
  have n: "length us - Suc (length bs) = length us'" "0 < length us" using s(8) by simp_all
  note step = grab_loop_step [OF n(2) m fp sk, of skipped, unfolded at Let_def]
  have lt: "length (hc_itemids hc) < hc_itemids_alloc hc" using ids(2) m by linarith
  obtain index ids where add: "uint64_array_add (hc_itemids hc) (hc_itemids_alloc hc) (dh_itemid b) 0 =
      Some (index, ids, hc_itemids_alloc hc)" "id_set ids" "set ids = insert (dh_itemid b) (set (hc_itemids hc))"
    "length ids = Suc (length (hc_itemids hc))"
    using add_new_id [OF ids(1) grab(2) lt] by blast
  have "uint64_array_exists (hc_itemids hc1) (dh_itemid b) \<noteq> Succeed"
    using grab(2) ids(1) f1(3) uint64_array_exists_iff by simp
  let ?e = "(b, map (str_at ?buf) (entry_ptrs b))"
  define hc2 where "hc2 = hc1\<lparr>hc_itemids := ids, hc_itemids_alloc := hc_itemids_alloc hc\<rparr>"
  define hc3 where "hc3 = hc2\<lparr>hc_text_free := hc_text_free hc2 + int (texts_len (hc_text hc2) (entry_ptrs b))\<rparr>"
  define hc4 where "hc4 = take_entry ?p hc3"
  define ps' where "ps' = (if ps = [] then bs else ps @ gap_of b # bs)"
  define history' where "history' = history @ [?e]"
  have f2: "hc_text hc2 = ?buf" "hist_size hc2 = hist_size hc" "hc_itemids hc2 = ids" "hc_itemids_alloc hc2 = hc_itemids_alloc hc"
    "hc_history hc2 = hc_history hc1" "\<And>i. hist_pos hc2 i = hist_pos hc i" "window hc2 = window hc1" "hist_ok hc2 = hist_ok hc1"
    using f1 by (simp_all add: hc2_def hist_pos_def window_def hist_ok_def ring_ok_def)
  have out: "copy_out ?p hc2 = (?e, hc3)" unfolding copy_out_result f2(5) at f2(1) hc3_def ..
  obtain skipped' where run: "grab_loop True sync_max (length us) f skipped history hc =
      grab_loop True sync_max (length us') (?p + Suc (length bs)) skipped' history' hc4"
    using step grab(1) \<open>uint64_array_exists _ _ \<noteq> _\<close> out [unfolded hc2_def f1(3,4)] n(1)
    unfolding f1(3,4) add(1) hc4_def history'_def hc2_def by (simp add: Let_def)
  have w2: "window hc2 = ps @ b # (bs @ us')" using s(2) f2(7) by simp
  have ok2: "hist_ok hc2" using s(1) f2(8) by simp
  have "run_ok bs" using s(4) by simp
  then have r2: "run_ok (bs @ us')" by (rule run_ok_append) (rule s(5))
  note te = take_entry_result [OF ok2 w2 grab(1) s(3) r2, unfolded f2(6), folded hc3_def, folded hc4_def]
  have w4: "window hc4 = ps' @ us'" using te(2) by (simp add: ps'_def)
  have p4: "hist_pos hc4 (length ps') = hist_pos hc (length ps + Suc (length bs))"
    using te(4) [of "length ps'"] by (simp add: ps'_def)
  have fr: "hc_text hc4 = ?buf" "hc_itemids hc4 = ids" "hc_itemids_alloc hc4 = hc_itemids_alloc hc" "hist_size hc4 = hist_size hc"
    using te(3) f2 by (simp_all add: sync_frame_def hist_rest_def)
  have "run_ok (gap_of b # bs)" using \<open>run_ok bs\<close> by simp
  then have "run_ok ps'" using \<open>run_ok bs\<close> run_ok_append [OF s(3)] by (simp add: ps'_def)
  moreover have hl: "sync_max - length history' = ?m - 1" by (simp add: history'_def)
  ultimately have ok': "run_ok ps'" "id_set (hc_itemids hc4)"
    "length (hc_itemids hc4) + (sync_max - length history') \<le> hc_itemids_alloc hc4"
    "?p + Suc (length bs) = hist_pos hc4 (length ps') \<or> ?p + Suc (length bs) = hist_pos hc4 (length ps') + hist_size hc4"
    using ids(2) fin add(2,4) m unfolding fr p4 by simp_all
  have "grabbed_ok (?m - 1) hc4 (?abs ps') (?abs us') history'
      (grab_loop True sync_max (length us') (?p + Suc (length bs)) skipped' history' hc4)"
    using grabs_restD [OF rest te(1) w4 ok'] unfolding fr hl .
  moreover have "?abs ps' = ?abs ps @ ?abs bs" by (simp add: ps'_def)
  ultimately have IH: "grabbed_ok (?m - 1) hc4 (?abs ps @ ?abs bs) (?abs us') (history @ [?e])
      (grab_loop True sync_max (length us') (?p + Suc (length bs)) skipped' history' hc4)"
    by (simp only: history'_def)
  have "grabbed_ok ?m hc (?abs ps) (norm_out ?e # ?abs bs @ ?abs us') history
      (grab_loop True sync_max (length us') (?p + Suc (length bs)) skipped' history' hc4)"
  proof (rule grabbed_ok_take [OF IH])
    show "\<forall>g \<in> set (?abs bs). dh_itemid (fst g) = dh_itemid (fst ?e)" using s(7) by auto
  qed (use m grab(2) add(3) in \<open>simp_all add: fr\<close>)
  moreover have "?abs us = norm_out ?e # ?abs bs @ ?abs us'" unfolding abs_us using grab(1) by (simp add: norm_out_abs)
  ultimately show ?thesis unfolding run by simp
qed

lemma grab_loop_result: "grabs_rest sync_max us"
proof (induction "length us" arbitrary: us rule: less_induct)
  case less
  show ?case unfolding grabs_rest_def
  proof (intro allI impI)
    fix ps f skipped hc and history :: "queued list"
    assume prems: "hist_ok hc" "window hc = ps @ us" "run_ok ps" "id_set (hc_itemids hc)"
      "length (hc_itemids hc) + (sync_max - length history) \<le> hc_itemids_alloc hc"
      "f = hist_pos hc (length ps) \<or> f = hist_pos hc (length ps) + hist_size hc"
    let ?res = "grab_loop True sync_max (length us) f skipped history hc"
    show "grabbed_ok (sync_max - length history) hc (map (abs_entry (hc_text hc)) (filter live ps))
        (map (abs_entry (hc_text hc)) (filter live us)) history ?res"
    proof (cases "us \<noteq> [] \<and> length history < sync_max")
      case False
      then have "?res = Some (Inr (skipped, history, hc))" by (intro grab_loop_done) auto
      moreover have "queue hc = map (abs_entry (hc_text hc)) (filter live ps) @ map (abs_entry (hc_text hc)) (filter live us)"
        by (simp add: queue_def prems(2))
      ultimately show ?thesis unfolding grabbed_ok_def using False prems
        by (intro exI [of _ skipped] exI [of _ "[]"] exI [of _ hc]) auto
    next
      case True
      then have us: "us \<noteq> []" and m: "length history < sync_max" by blast+
      obtain hc1 b bs us' where block: "next_block hc ps us hc1 b bs us'"
        by (rule next_block_exists [OF prems(1,2) us prems(3)])
      have "length us' < length us" using next_block_facts(8) [OF block] by simp
      note rest = less.hyps [OF this]
      have fp: "(if hist_size hc \<le> f then f - hist_size hc else f) = hist_pos hc (length ps)"
        using prems(1,6) hist_pos_less [of hc "length ps"] by (auto simp: hist_ok_def)
      show ?thesis
        using grab_gap [OF block rest prems(4,5) m fp] grab_skipped [OF block rest prems(4,5) m fp]
          grab_taken [OF block rest prems(4,5) m fp] by blast
    qed
  qed
qed

subsection \<open>The end of the window\<close>

lemma run_ok_trimmed:
  assumes "run_ok (xs @ gs)" "\<forall>g \<in> set gs. \<not> live g" "xs = [] \<or> live (last xs)"
  shows "run_ok xs"
  using assms(1,3)
proof (induction xs)
  case (Cons x xs)
  note ok = Cons.prems(1) [simplified run_ok.simps append_Cons]
  have le: "dh_num x \<le> length (x # xs)"
  proof (rule ccontr)
    assume "\<not> dh_num x \<le> length (x # xs)"
    then obtain k where k: "dh_num x = length (x # xs) + Suc k" by (metis add_Suc_right less_imp_Suc_add not_le)
    then have t: "take (dh_num x) (x # xs @ gs) = (x # xs) @ take (Suc k) gs" by simp
    have "gs \<noteq> []" using ok k by auto
    then obtain g gs' where gs: "gs = g # gs'" by (cases gs) auto
    then have "g \<in> set (take (dh_num x) (x # xs @ gs))" "last (x # xs) \<in> set (take (dh_num x) (x # xs @ gs))"
      unfolding t using last_in_set [of "x # xs"] by auto
    then have "dh_itemid g = dh_itemid (last (x # xs))" using ok by metis
    then show False using assms(2) Cons.prems(2) gs by simp
  qed
  then have "take (dh_num x) (x # xs) = take (dh_num x) (x # xs @ gs)" using take_append [of "dh_num x" "x # xs" gs] by simp
  moreover have "run_ok (xs @ gs)" "xs = [] \<or> live (last xs)" using ok Cons.prems(2) by (blast, simp split: if_splits)
  note Cons.IH [OF this]
  ultimately show ?case using ok le by (simp del: take_Cons)
qed simp

lemma trim_position:
  assumes "ring_ok hc" "window hc = xs @ [h]"
  defines "f \<equiv> hist_pos hc (hc_num hc)"
  shows "(if f = 0 then hist_size hc else f) - 1 = hist_pos hc (length xs)" "hc_history hc ! hist_pos hc (length xs) = h"
    "hc_num hc = Suc (length xs)"
proof -
  show n: "hc_num hc = Suc (length xs)" using length_window [of hc] unfolding assms(2) by simp
  show "(if f = 0 then hist_size hc else f) - 1 = hist_pos hc (length xs)"
    using hist_pos_add [OF assms(1), of "length xs" 1] hist_pos_less [OF assms(1), of "length xs"] n
    by (auto simp: f_def split: if_splits)
  show "hc_history hc ! hist_pos hc (length xs) = h" using window_nth_append(1) [OF assms(2), of 0] by simp
qed

lemma trim_loop_result:
  assumes "ring_ok hc" "window hc = xs @ gs" "\<forall>g \<in> set gs. \<not> live g" "xs = [] \<or> live (last xs)"
  shows "trim_loop (hc_num hc) (hist_pos hc (hc_num hc)) hc =
    hc\<lparr>hc_num := length xs, hc_gap_num := hc_gap_num hc - int (length gs)\<rparr>"
  using assms(1-3)
proof (induction gs arbitrary: hc rule: rev_induct)
  case Nil
  show ?case
  proof (cases xs rule: rev_cases)
    case Nil
    then have "hc_num hc = 0" using length_window [of hc] \<open>window hc = xs @ []\<close> by simp
    then show ?thesis using Nil by simp
  next
    case (snoc ys x)
    with Nil.prems have "window hc = ys @ [x]" by simp
    note p = trim_position [OF Nil.prems(1) this]
    have "live x" using assms(4) snoc by simp
    then show ?thesis unfolding p(3) trim_loop.simps Let_def p(1) [unfolded p(3)] p(2) using snoc p(3) by simp
  qed
next
  case (snoc g gs)
  have w: "window hc = (xs @ gs) @ [g]" using snoc.prems(2) by simp
  note p = trim_position [OF snoc.prems(1) w]
  let ?hc = "hc\<lparr>hc_num := hc_num hc - 1, hc_gap_num := hc_gap_num hc - 1\<rparr>"
  have "ring_ok (hc\<lparr>hc_num := hc_num hc - 1\<rparr>)" "window (hc\<lparr>hc_num := hc_num hc - 1\<rparr>) = take (hc_num hc - 1) (window hc)"
    by (rule window_take [OF snoc.prems(1)], simp)+
  then have "ring_ok ?hc" "window ?hc = xs @ gs" using w p(3) by (simp_all add: ring_ok_def window_def hist_pos_def)
  from snoc.IH [OF this] have "trim_loop (length (xs @ gs)) (hist_pos hc (length (xs @ gs))) ?hc =
      ?hc\<lparr>hc_num := length xs, hc_gap_num := hc_gap_num ?hc - int (length gs)\<rparr>"
    using snoc.prems(3) p(3) by (simp add: hist_pos_def)
  moreover have "\<not> live g" using snoc.prems(3) by simp
  ultimately show ?case unfolding p(3) trim_loop.simps Let_def p(1) [unfolded p(3)] p(2) using p(3) by simp
qed

lemma live_end:
  obtains xs gs where "ws = xs @ gs" "\<forall>g \<in> set gs. \<not> live g" "xs = [] \<or> live (last xs)"
proof
  let ?P = "\<lambda>h. \<not> live h"
  show "ws = rev (dropWhile ?P (rev ws)) @ rev (takeWhile ?P (rev ws))"
    unfolding rev_append [symmetric] by simp
  show "\<forall>g \<in> set (rev (takeWhile ?P (rev ws))). \<not> live g" by (auto dest: set_takeWhileD)
  show "rev (dropWhile ?P (rev ws)) = [] \<or> live (last (rev (dropWhile ?P (rev ws))))"
    using hd_dropWhile [of ?P "rev ws"] by (auto simp: last_rev)
qed

lemma laid_out_prefix: "laid_out buf lo (ps @ qs) hi \<Longrightarrow> laid_out buf lo ps hi"
  by (induction ps arbitrary: lo) (auto dest: laid_out_le)

lemma trim_result:
  assumes "hist_ok hc"
  shows "hist_ok (trim hc)" "queue (trim hc) = queue hc" "sync_frame hc (trim hc)"
    "hc_num (trim hc) = 0 \<or> live (last (window (trim hc)))"
proof -
  note okd = assms [unfolded hist_ok_def]
  obtain xs gs where w: "window hc = xs @ gs" "\<forall>g \<in> set gs. \<not> live g" "xs = [] \<or> live (last xs)" by (rule live_end)
  have "hc_num hc \<le> hist_size hc" "hc_first hc < hist_size hc" using okd by (simp_all add: ring_ok_def)
  then have f: "(if hist_size hc \<le> hc_first hc + hc_num hc then hc_first hc + hc_num hc - hist_size hc else hc_first hc + hc_num hc) =
      hist_pos hc (hc_num hc)" by (auto simp: hist_pos_def mod_if)
  let ?hc = "hc\<lparr>hc_num := length xs, hc_gap_num := hc_gap_num hc - int (length gs)\<rparr>"
  have eq: "trim hc = ?hc" unfolding trim_def Let_def f by (rule trim_loop_result [OF conjunct1 [OF okd] w])
  have le: "length xs \<le> hc_num hc" using length_window [of hc] unfolding w(1) by simp
  have "ring_ok (hc\<lparr>hc_num := length xs\<rparr>)" "window (hc\<lparr>hc_num := length xs\<rparr>) = take (length xs) (window hc)"
    by (rule window_take [OF conjunct1 [OF okd] le])+
  then have win: "ring_ok ?hc" "window ?hc = xs" using w(1) by (simp_all add: ring_ok_def window_def hist_pos_def)
  have none: "filter live gs = []" "filter (\<lambda>h. \<not> live h) gs = gs" using w(2) by (induction gs) auto
  have "run_ok xs" by (rule run_ok_trimmed [OF _ w(2,3)]) (use okd w(1) in simp)
  moreover have "laid_out (hc_text hc) 0 (texts_of xs) (hc_last_text hc)"
    by (rule laid_out_prefix [of _ _ _ "texts_of gs"]) (use okd w(1) in simp)
  ultimately show "hist_ok (trim hc)" unfolding eq hist_ok_def win(2) using win(1) okd none by (simp add: w(1))
  show "queue (trim hc) = queue hc" unfolding eq queue_def win(2) by (simp add: w(1) none)
  show "sync_frame hc (trim hc)" unfolding eq by (simp add: sync_frame_def hist_rest_def)
  show "hc_num (trim hc) = 0 \<or> live (last (window (trim hc)))" unfolding eq win(2) using w(3) by auto
qed

subsection \<open>Batches\<close>

text \<open>
  A batch holds the oldest value of every item that no other syncer is working on, at most \<open>sync_max\<close> values; all
  other values stay in the queue in their order.
\<close>

lemma grab_batch_result:
  assumes "hist_ok hc" "id_set (hc_itemids hc)" "length (hc_itemids hc) + sync_max \<le> hc_itemids_alloc hc"
  shows "\<exists>skipped history hc'. grab_batch True sync_max hc = Some (Inr (skipped, history, hc')) \<and> hist_ok hc' \<and>
    (map norm_out history, queue hc') = grab_spec sync_max (set (hc_itemids hc)) (queue hc) \<and>
    id_set (hc_itemids hc') \<and> set (hc_itemids hc') = set (hc_itemids hc) \<union> dh_itemid ` fst ` set history \<and>
    hc_itemids_alloc hc' = hc_itemids_alloc hc \<and> (hc_num hc' = 0 \<or> live (last (window hc')))"
proof -
  have ring: "ring_ok hc" using assms(1) by (simp add: hist_ok_def)
  have f: "hc_first hc = hist_pos hc (length ([] :: dc_history list))" using ring by (simp add: hist_pos_def ring_ok_def)
  have "grabbed_ok sync_max hc [] (queue hc) [] (grab_loop True sync_max (hc_num hc) (hc_first hc) 0 [] hc)"
    using grabs_restD [of sync_max "window hc" hc "[]" "[]" "hc_first hc" 0, OF grab_loop_result] assms f by (simp add: queue_def)
  then obtain skipped history hc1 where g: "grab_loop True sync_max (hc_num hc) (hc_first hc) 0 [] hc = Some (Inr (skipped, history, hc1))"
    "hist_ok hc1" "map norm_out history = fst (grab_spec sync_max (set (hc_itemids hc)) (queue hc))"
    "queue hc1 = snd (grab_spec sync_max (set (hc_itemids hc)) (queue hc))" "id_set (hc_itemids hc1)"
    "set (hc_itemids hc1) = set (hc_itemids hc) \<union> dh_itemid ` fst ` set history" "hc_itemids_alloc hc1 = hc_itemids_alloc hc"
    unfolding grabbed_ok_def append_Nil by blast
  note t = trim_result [OF g(2)]
  show ?thesis
    using g t by (intro exI [of _ skipped] exI [of _ history] exI [of _ "trim hc1"])
      (simp add: grab_batch_def sync_frame_def hist_rest_def)
qed

abbreviation of_item :: "u64 \<Rightarrow> queued list \<Rightarrow> queued list" where
  "of_item i \<equiv> filter (\<lambda>e. dh_itemid (fst e) = i)"

lemma grab_spec_facts:
  assumes "grab_spec m ids es = (t, r)"
  shows "of_item i es = of_item i t @ of_item i r" "i \<in> ids \<Longrightarrow> of_item i t = []" "length t \<le> m"
    "distinct (map (dh_itemid \<circ> fst) t)" "length es = length t + length r"
    "0 < m \<Longrightarrow> ids = {} \<Longrightarrow> es \<noteq> [] \<Longrightarrow> t \<noteq> []"
proof -
  have *: "of_item i es = of_item i t @ of_item i r \<and> (i \<in> ids \<longrightarrow> of_item i t = []) \<and> length t \<le> m \<and>
      distinct (map (dh_itemid \<circ> fst) t) \<and> (\<forall>e \<in> set t. dh_itemid (fst e) \<notin> ids) \<and> length es = length t + length r" for i
    using assms
  proof (induction m ids es arbitrary: t r rule: grab_spec.induct)
    case (2 m ids e es)
    show ?case
    proof (cases "m = 0")
      case False
      show ?thesis
      proof (cases "dh_itemid (fst e) \<in> ids")
        case True
        obtain t' r' where g: "grab_spec m ids es = (t', r')" by fastforce
        with 2(3) True False have "t = t'" "r = e # r'" by auto
        with 2(1) [OF False True g] True show ?thesis by auto
      next
        case new: False
        obtain t' r' where g: "grab_spec (m - 1) (insert (dh_itemid (fst e)) ids) es = (t', r')" by fastforce
        with 2(3) new False have "t = e # t'" "r = r'" by auto
        with 2(2) [OF False new g] new False show ?thesis by auto
      qed
    qed (use 2(3) in auto)
  qed auto
  show "of_item i es = of_item i t @ of_item i r" "i \<in> ids \<Longrightarrow> of_item i t = []" "length t \<le> m"
    "distinct (map (dh_itemid \<circ> fst) t)" "length es = length t + length r" using * [of i] by blast+
  show "0 < m \<Longrightarrow> ids = {} \<Longrightarrow> es \<noteq> [] \<Longrightarrow> t \<noteq> []"
    using assms by (cases es) (auto simp: split_beta split: if_splits)
qed

text \<open>The batches of a synchronisation, as a reader of the database sees them.\<close>

definition batches_ok :: "nat \<Rightarrow> queued list list \<Rightarrow> queued list \<Rightarrow> bool" where
  "batches_ok sync_max batches es \<longleftrightarrow>
    list_all (\<lambda>b. b \<noteq> [] \<and> length b \<le> sync_max \<and> distinct (map (dh_itemid \<circ> fst) b)) batches \<and>
    (\<forall>i. of_item i (map norm_out (concat batches)) = of_item i es)"

lemma batches_ok_Nil [simp]: "batches_ok sync_max [] es \<longleftrightarrow> es = []"
proof -
  have "es = []" if "\<forall>i. of_item i es = []"
  proof (cases es)
    case (Cons e es')
    then show ?thesis using that [THEN spec, of "dh_itemid (fst e)"] by simp
  qed
  then show ?thesis unfolding batches_ok_def by auto
qed

lemma batches_ok_Cons:
  assumes "(map norm_out b, es') = grab_spec sync_max {} es" "batches_ok sync_max bs es'" "b \<noteq> []"
  shows "batches_ok sync_max (b # bs) es"
proof -
  note g = grab_spec_facts [OF assms(1) [symmetric]]
  have "map (dh_itemid \<circ> fst) (map norm_out b) = map (dh_itemid \<circ> fst) b" by simp
  then have "length b \<le> sync_max" "distinct (map (dh_itemid \<circ> fst) b)" using g(3,4) by (simp_all only: length_map)
  then show ?thesis using assms(2,3) g(1) unfolding batches_ok_def by simp
qed

lemma quiet_sleep [simp]:
  "hist_ok (dc_sleep (\<lambda>_ hc. hc) hc) = hist_ok hc" "queue (dc_sleep (\<lambda>_ hc. hc) hc) = queue hc"
  "hc_itemids (dc_sleep (\<lambda>_ hc. hc) hc) = hc_itemids hc" "hc_itemids_alloc (dc_sleep (\<lambda>_ hc. hc) hc) = hc_itemids_alloc hc"
  by (simp_all add: dc_sleep_def hist_ok_def queue_def ring_ok_def window_def hist_pos_def)

lemma hist_ok_new_ids [simp]:
  "hist_ok (hc\<lparr>hc_itemids := ids\<rparr>) = hist_ok hc" "queue (hc\<lparr>hc_itemids := ids\<rparr>) = queue hc"
  by (simp_all add: hist_ok_def queue_def ring_ok_def window_def hist_pos_def)

lemma queue_empty:
  assumes "queue hc = []" "hc_num hc = 0 \<or> live (last (window hc))"
  shows "hc_num hc = 0"
proof (rule ccontr)
  assume n: "hc_num hc \<noteq> 0"
  then have "window hc \<noteq> []" by (metis length_window list.size(3))
  then have "last (window hc) \<in> set (filter live (window hc))" using n assms(2) by auto
  then show False using assms(1) by (auto simp: queue_def filter_empty_conv)
qed

text \<open>When nobody else works on the cache, a full synchronisation returns and has written everything.\<close>

definition drained :: "nat \<Rightarrow> queued list list \<Rightarrow> queued list \<Rightarrow> (fatal + queued list list \<times> dc_cache) option \<Rightarrow> bool" where
  "drained sync_max batches es res \<longleftrightarrow> (\<exists>batches' hc'. res = Some (Inr (batches @ batches', hc')) \<and> hist_ok hc' \<and>
    hc_num hc' = 0 \<and> hc_itemids hc' = [] \<and> batches_ok sync_max batches' es)"

lemma drained_step:
  assumes "drained sync_max (batches @ [b]) es' res" "(map norm_out b, es') = grab_spec sync_max {} es" "b \<noteq> []"
  shows "drained sync_max batches es res"
proof -
  obtain batches' hc' where "res = Some (Inr (batches @ (b # batches'), hc'))" "hist_ok hc'" "hc_num hc' = 0"
    "hc_itemids hc' = []" "batches_ok sync_max batches' es'"
    using assms(1) unfolding drained_def by auto
  with batches_ok_Cons [OF assms(2) _ assms(3)] show ?thesis
    unfolding drained_def by (intro exI [of _ "b # batches'"] exI [of _ hc']) simp
qed

lemma sync_loop_drains:
  assumes "hist_ok hc" "hc_itemids hc = []" "sync_max \<le> hc_itemids_alloc hc" "0 < sync_max"
  shows "drained sync_max batches (queue hc) (sync_loop True sync_max True max_delay (\<lambda>_ hc. hc) syncs batches hc)"
  using assms
proof (induction "length (queue hc)" arbitrary: hc batches syncs rule: less_induct)
  case less
  obtain skipped history hc1 where g: "grab_batch True sync_max hc = Some (Inr (skipped, history, hc1))" "hist_ok hc1"
    "(map norm_out history, queue hc1) = grab_spec sync_max {} (queue hc)" "id_set (hc_itemids hc1)"
    "set (hc_itemids hc1) = dh_itemid ` fst ` set history" "hc_itemids_alloc hc1 = hc_itemids_alloc hc"
    "hc_num hc1 = 0 \<or> live (last (window hc1))"
    using grab_batch_result [OF less.prems(1), of sync_max] less.prems(2-4) by auto
  note gs = grab_spec_facts [OF g(3) [symmetric]]
  show ?case
  proof (cases "history = []")
    case True
    then have "queue hc = []" using gs(6) less.prems(4) by auto
    then have "queue hc1 = []" using g(3) by simp
    moreover have "sync_loop True sync_max True max_delay (\<lambda>_ hc. hc) syncs batches hc = Some (Inr (batches, hc1))"
      by (rule trans [OF sync_loop.simps]) (simp add: g(1) True)
    ultimately show ?thesis using g queue_empty [OF _ g(7)] True \<open>queue hc = []\<close>
      unfolding drained_def by (intro exI [of _ "[]"] exI [of _ hc1]) simp
  next
    case False
    define ids where "ids = uint64_array_remove (hc_itemids hc1) (map (\<lambda>h. dh_itemid (fst h)) history)"
    have "set ids = {}" unfolding ids_def using uint64_array_remove_result [OF g(4)] g(5) by auto
    define hc3 where "hc3 = dc_sleep (\<lambda>_ hc. hc) ((dc_sleep (\<lambda>_ hc. hc) hc1)\<lparr>hc_itemids := ids\<rparr>)"
    have run: "sync_loop True sync_max True max_delay (\<lambda>_ hc. hc) syncs batches hc =
        sync_loop True sync_max True max_delay (\<lambda>_ hc. hc) (syncs - 1) (batches @ [history]) hc3"
      by (rule trans [OF sync_loop.simps]) (simp add: g(1) False hc3_def ids_def Let_def)
    have f: "queue hc3 = queue hc1" "hist_ok hc3" "hc_itemids hc3 = []" "hc_itemids_alloc hc3 = hc_itemids_alloc hc"
      using g(2,6) \<open>set ids = {}\<close> by (simp_all add: hc3_def dc_sleep_def ring_ok_def hist_ok_def window_def hist_pos_def queue_def)
    have "length (queue hc3) < length (queue hc)" using gs(5) False f(1) by simp
    then have "drained sync_max (batches @ [history]) (queue hc3)
        (sync_loop True sync_max True max_delay (\<lambda>_ hc. hc) (syncs - 1) (batches @ [history]) hc3)"
      by (rule less.hyps) (use f less.prems(3,4) in simp_all)
    then show ?thesis unfolding run f(1) by (rule drained_step [OF _ g(3) False])
  qed
qed

text \<open>
  C40. A full synchronisation, with no other process at work, ends: it takes every value that waits in the
  history cache out to be written exactly once, the values of each item in the order in which they came, in batches that are not
  empty, fit the buffer and hold no item twice; the cache is consistent and empty afterwards, and no
  item is left marked as being worked on.
\<close>

theorem DCsync_history_drains:
  assumes "hist_ok hc" "sync_max \<le> hc_itemids_alloc hc" "0 < sync_max"
  shows "\<exists>batches hc'. DCsync_history True sync_max True now frequency (\<lambda>_ hc. hc) hc = Some (Inr (batches, hc')) \<and>
    hist_ok hc' \<and> hc_num hc' = 0 \<and> hc_itemids hc' = [] \<and>
    list_all (\<lambda>b. b \<noteq> [] \<and> length b \<le> sync_max \<and> distinct (map (dh_itemid \<circ> fst) b)) batches \<and>
    (\<forall>i. of_item i (map norm_out (concat batches)) = of_item i (queue hc))"
proof -
  let ?hc = "hc\<lparr>hc_itemids := []\<rparr>"
  have "drained sync_max [] (queue hc) (DCsync_history True sync_max True now frequency (\<lambda>_ hc. hc) hc)"
  proof (cases "hc_num hc = 0")
    case True
    then have "queue hc = []" by (simp add: queue_def window_def)
    with True show ?thesis using assms(1) by (simp add: drained_def DCsync_history_def)
  next
    case False
    have "drained sync_max [] (queue ?hc) (sync_loop True sync_max True (now - frequency) (\<lambda>_ hc. hc)
        (int (hc_num hc div sync_max)) [] ?hc)"
      by (rule sync_loop_drains) (use assms in simp_all)
    then show ?thesis using False by (simp add: DCsync_history_def)
  qed
  then show ?thesis unfolding drained_def batches_ok_def append_Nil by blast
qed

lemma DCsync_history_drains_witness:
  "\<exists>batches hc'. DCsync_history True 1 True 1000 5 (\<lambda>_ hc. hc) sample_history = Some (Inr (batches, hc')) \<and>
    hist_ok hc' \<and> hc_num hc' = 0 \<and> hc_itemids hc' = [] \<and> list_all (\<lambda>b. length b = 1) batches \<and>
    length (concat batches) = 2 \<and> of_item 7 (map norm_out (concat batches)) = queue sample_history"
proof -
  have q: "of_item 7 (queue sample_history) = queue sample_history" "length (queue sample_history) = 2" by code_simp+
  have one: "b \<noteq> [] \<and> length b \<le> 1 \<longleftrightarrow> length b = 1" for b :: "queued list" by (cases b) auto
  obtain batches hc' where b: "DCsync_history True 1 True 1000 5 (\<lambda>_ hc. hc) sample_history = Some (Inr (batches, hc'))"
    "hist_ok hc'" "hc_num hc' = 0" "hc_itemids hc' = []"
    "list_all (\<lambda>b. b \<noteq> [] \<and> length b \<le> 1 \<and> distinct (map (dh_itemid \<circ> fst) b)) batches"
    "\<forall>i. of_item i (map norm_out (concat batches)) = of_item i (queue sample_history)"
    using DCsync_history_drains [OF sample_history_ok, of 1 1000 5] by (auto simp: sample_history_def)
  have l: "list_all (\<lambda>b. length b = 1) batches" using b(5) one unfolding list_all_iff by blast
  have "set (map norm_out (concat batches)) \<subseteq> {e. dh_itemid (fst e) = 7}"
  proof
    fix e assume e: "e \<in> set (map norm_out (concat batches))"
    then have "e \<in> set (of_item (dh_itemid (fst e)) (map norm_out (concat batches)))" by simp
    then have "e \<in> set (queue sample_history)" using b(6) by auto
    then have "e \<in> set (of_item 7 (queue sample_history))" unfolding q(1) .
    then show "e \<in> {e. dh_itemid (fst e) = 7}" by simp
  qed
  then have "of_item 7 (map norm_out (concat batches)) = map norm_out (concat batches)" by (intro filter_True) blast
  moreover from this have "length (concat batches) = 2" using b(6) q by (metis length_map)
  ultimately show ?thesis using b l q by (intro exI [of _ batches] exI [of _ hc']) metis
qed

end
