(* ===== verification/Spec2Isabelle.thy ===== *)
theory Spec2Isabelle
  imports Prelude Int128 Hashes HashSet HashMap BinaryHeap Vector StrPool MemAlloc TimePeriod DbEscape HostAvail ItemQueue TriggerDeps Base64 JsonParser JsonBuild JsonRead KeyParams VcRequests HistSync
begin

text \<open>
  A verification development for the C server of Zabbix, the sources under
  \<^verbatim>\<open>zabbix-web-monitoring-pof/src\<close>. Paths below are relative to that directory's \<^verbatim>\<open>src/\<close>.

  \<^bold>\<open>The program.\<close> The server keeps a copy of its configuration in shared memory (the configuration
  cache). Pollers take the items that are due out of its queues, check them, and give them back with the
  result; from the result the availability of hosts and the next check of the item are computed, and
  triggers may fire unless triggers they depend on have a problem. New values wait in shared memory to be written to
  the database (the history cache). The history that triggers look at is kept
  in shared memory too (the value cache) and completed from the database on request. Agents, proxies and the server talk to
  each other in JSON. Below all of this lie an allocator for the shared memory, a pool of
  reference-counted strings and a library of containers.

  \<^bold>\<open>Theories, from the bottom up.\<close>

  \<^item> \<open>Prelude\<close>, \<open>Bytes\<close>: the C types, return codes, lemmas on words and lists; bytes, C strings,
    character classes.
  \<^item> \<open>Int128\<close> (\<^verbatim>\<open>libs/zbxcommon/int128.c\<close>): 128-bit arithmetic on two 64-bit words, kept at
    their width. Every operation is proved against natural numbers, the division loop to end.
  \<^item> \<open>Hashes\<close> (\<^verbatim>\<open>libs/zbxalgo/algodefs.c\<close>): hash functions, comparisons, the prime search.
  \<^item> \<open>HashSet\<close> (\<^verbatim>\<open>hashset.c\<close>), \<open>HashMap\<close> (\<^verbatim>\<open>hashmap.c\<close>), \<open>BinaryHeap\<close> (\<^verbatim>\<open>binaryheap.c\<close>),
    \<open>Vector\<close> (\<^verbatim>\<open>vectorimpl.h\<close>): the containers. The hash tables refine finite maps across
    rehashing and failing allocations; the heap refines a multiset and keeps its key index. The
    laws of keys are the locale \<open>hash_keys\<close>, the heap reaches the hash map through the locale
    \<open>index_map\<close>, and its comparison function is the locale \<open>heap_compare\<close>; each is interpreted on the
    code that provides it.
  \<^item> \<open>MemAlloc\<close> (\<^verbatim>\<open>libs/zbxmemory/memalloc.c\<close>): the shared memory allocator on its size fields,
    buckets and counters. A well-formed segment is tiled by chunks.
  \<^item> \<open>StrPool\<close> (\<^verbatim>\<open>libs/zbxmemory/strpool.c\<close>): the string pool over \<open>HashSet\<close>.
  \<^item> \<open>TimePeriod\<close> (\<^verbatim>\<open>libs/zbxcommon/misc.c\<close>): time periods, flexible intervals, the next check.
  \<^item> \<open>DbEscape\<close> (\<^verbatim>\<open>libs/zbxdbhigh/db.c\<close>): the escaping of strings in SQL statements, against a reader of
    string literals for each kind of database.
  \<^item> \<open>HostAvail\<close>, \<open>ItemQueue\<close>, \<open>TriggerDeps\<close> (\<^verbatim>\<open>libs/zbxdbcache/dbconfig.c\<close>,
    \<^verbatim>\<open>zabbix_server/poller/poller.c\<close>): the availability of agents as a state machine (checks,
    retries, reports of proxies, reloads of the configuration) with the statement that stores a change, the queues of
    the pollers over \<open>BinaryHeap\<close>, \<open>TimePeriod\<close> and \<open>HostAvail\<close>, and the graph of trigger
    dependencies.
  \<^item> \<open>Base64\<close> (\<^verbatim>\<open>libs/zbxcrypto/base64.c\<close>): encoding and decoding, against RFC 4648.
  \<^item> \<open>JsonParser\<close>, \<open>JsonBuild\<close>, \<open>JsonRead\<close> (\<^verbatim>\<open>libs/zbxjson\<close>): the recogniser against a grammar,
    the builder that grows a document in place against trees, with a type system for its calls, and
    the readers. The two loops of the readers that count brackets share the locale \<open>json_scanner\<close>.
  \<^item> \<open>KeyParams\<close> (\<^verbatim>\<open>libs/zbxcommon/str.c\<close>): item keys and their parameters. The three automata that
    run over a parameter list share the locale \<open>param_scanner\<close>.

  \<^item> \<open>ValueCache\<close>, \<open>VcLookup\<close>, \<open>VcAppend\<close>, \<open>VcUpdate\<close>, \<open>VcClean\<close>, \<open>VcRequests\<close>
    (\<^verbatim>\<open>libs/zbxdbcache/valuecache.c\<close>): the value cache. \<open>ValueCache\<close> holds the records and the operations on
    the chunks of an item, with the string pool and the release of memory; the next theories prove the
    lookups, the copies into chunks, adding values at either end and dropping old chunks; \<open>VcRequests\<close> models
    the requests and proves that they answer as the database would: \<open>coherent\<close> says what the cached
    part of a history has to be, and \<open>db_answers\<close> and \<open>meanwhile_ok\<close> what the database and the other
    processes are relied on for.
  \<^item> \<open>IdArrays\<close> (\<^verbatim>\<open>libs/zbxcommon/misc.c\<close>): sorted arrays of identifiers, as finite sets.
  \<^item> \<open>HistCache\<close>, \<open>HistText\<close>, \<open>HistAdd\<close>, \<open>HistSync\<close> (\<^verbatim>\<open>libs/zbxdbcache/dbcache.c\<close>): the history cache,
    a ring of values that wait to be written and a buffer for their texts. \<open>HistCache\<close> closes gaps in both, \<open>HistText\<close>
    says what the cache holds (\<open>queue\<close>) and when it is consistent (\<open>hist_ok\<close>), \<open>HistAdd\<close> adds values, waiting when
    it is full, and \<open>HistSync\<close> takes batches out, against \<open>grab_spec\<close>: the oldest value of each item that nobody
    else works on.

  \<^bold>\<open>State and values.\<close> A C structure is a record with the names of the code, prefixed where
  names would clash. Pointers are identifiers, positions, or the text from a place on; \<^verbatim>\<open>NULL\<close> is
  \<open>None\<close>. What the C library or the system decides is an argument: \<^verbatim>\<open>qsort\<close>, \<^verbatim>\<open>localtime\<close>,
  the outcome of allocations, the contents of fresh memory and of uninitialised variables. A call that ends
  the process is a value of type \<open>fatal\<close>. Integers are words where their width matters
  (\<open>Int128\<close>, \<open>Hashes\<close>, reference counts, identifiers) and unbounded numbers where the theory's
  introduction says that they cannot overflow (times until 2038, sizes, lengths).

  \<^bold>\<open>Loops.\<close> Most loops are \<open>fun\<close> or \<open>function\<close> with a measure. Loops that end only under an
  invariant are \<open>partial_function (option)\<close>: the division loop of \<open>Int128\<close>, the sweep of
  \<open>HashSet\<close>, the search of the next check in \<open>TimePeriod\<close>, the poll of \<open>ItemQueue\<close>, the loops over chunks
  of \<open>ValueCache\<close>, adding to and emptying the history cache; that they return is
  part of the properties about them. No fuel is used, except for the recursion of the trigger
  dependencies, whose bound of 33 levels is the code's own.

  \<^bold>\<open>Groups of lemmas.\<close> Each component has an invariant that every operation keeps, the
  functional behaviour of its operations on all branches, and, where the component promises one, a
  refinement of an abstract specification. Properties are the theorems marked C and a number; behind most of
  them stands a witness, the theorem applied at a concrete input.

  \<^bold>\<open>Not modelled.\<close> The database layer and the SQL of the server, filling the cache from the database
  (but for the trigger dependencies), what is done with the batches of the history cache, trends, creating and destroying the caches, trigger expressions (they compute with IEEE
  doubles), sockets, processes, semaphores and locks (every operation is one step under its lock), agents'
  operating-system checks, regular expressions, and the Java gateway: they are input and output, platform
  code, or third-party code, or rest on floating point. \<^verbatim>\<open>PROJECT.json\<close> lists them with their files.
\<close>

end
